(* ===== verification/Ucore_Prelude.thy ===== *)
theory Ucore_Prelude
  imports Main "HOL-Library.Word" "HOL-Library.Monad_Syntax"
begin

text \<open>
  Shared vocabulary of the development.

  \<^item> \<open>u32\<close>, \<open>u8\<close>: the machine integers of \<^verbatim>\<open>libs/types.h\<close>; addresses are natural numbers where
    the code only compares and dereferences pointers.
  \<^item> \<open>kassert\<close>: the kernel's \<^verbatim>\<open>assert\<close> (\<^verbatim>\<open>kern/debug/assert.h\<close>).  A failed assertion panics, which
    is the value \<^const>\<open>None\<close>; the model of a function that can panic returns an \<open>option\<close>, and
    "the code does not panic" is the statement that the result is \<open>Some\<close>.
  \<^item> the error codes of \<^verbatim>\<open>libs/error.h\<close>, as the negative results the functions return.
  \<^item> list and word lemmas that several components share.
\<close>

unbundle bit_operations_syntax

type_synonym u8 = "8 word"
type_synonym u32 = "32 word"
type_synonym addr = nat

text \<open>Facts that unfold the operations of a component (\<open>ucore_defs\<close>) and facts that carry the
  invariants through them (\<open>ucore_inv\<close>).\<close>

named_theorems ucore_defs
named_theorems ucore_inv

subsection \<open>Assertions\<close>

definition kassert :: "bool \<Rightarrow> unit option" where
  "kassert b = (if b then Some () else None)"

lemma kassert_True [simp]: "kassert True = Some ()"
  by (simp add: kassert_def)

lemma kassert_False [simp]: "kassert False = None"
  by (simp add: kassert_def)

lemma kassert_eq_Some [simp]: "kassert b = Some u \<longleftrightarrow> b"
  by (simp add: kassert_def)

lemma kassert_eq_None [simp]: "kassert b = None \<longleftrightarrow> \<not> b"
  by (simp add: kassert_def)

lemma kassert_bind_eq_Some [simp]: "(kassert b \<bind> f) = Some y \<longleftrightarrow> b \<and> f () = Some y"
  by (cases b) auto

lemma kassert_bind_if: "(kassert b \<bind> f) = (if b then f () else None)"
  by simp

lemma bind_eq_SomeE:
  assumes "(m \<bind> f) = Some y"
  obtains x where "m = Some x" "f x = Some y"
  using assms by (auto simp: Option.bind_eq_Some_conv)

subsection \<open>Error codes\<close>

abbreviation E_INVAL :: int where "E_INVAL \<equiv> 3"
abbreviation E_NO_MEM :: int where "E_NO_MEM \<equiv> 4"
abbreviation E_TIMEOUT :: int where "E_TIMEOUT \<equiv> 11"

subsection \<open>Lists\<close>

lemma remove1_middle [simp]: "x \<notin> set xs \<Longrightarrow> remove1 x (xs @ x # ys) = xs @ ys"
  by (induction xs) auto

lemma remove1_last_fresh [simp]: "x \<notin> set xs \<Longrightarrow> remove1 x (xs @ [x]) = xs"
  using remove1_middle [of x xs "[]"] by simp

lemma set_remove1_distinct [simp]: "distinct xs \<Longrightarrow> set (remove1 x xs) = set xs - {x}"
  by (rule set_remove1_eq)

lemma sum_list_map_remove1:
  fixes f :: "'a \<Rightarrow> nat"
  assumes "x \<in> set xs"
  shows "sum_list (map f xs) = f x + sum_list (map f (remove1 x xs))"
  using assms by (simp add: sum_list_map_remove1)

lemma split_at_member:
  assumes "x \<in> set xs"
  obtains as bs where "xs = as @ x # bs" "x \<notin> set as"
  using assms by (metis split_list_first)

subsection \<open>Words\<close>

lemma unat_add_lt:
  fixes a b :: "'a::len word"
  assumes "unat a + unat b < 2 ^ LENGTH('a)"
  shows "unat (a + b) = unat a + unat b"
  using assms by (simp add: unat_word_ariths)

lemma unat_diff_le:
  fixes a b :: "'a::len word"
  assumes "b \<le> a"
  shows "unat (a - b) = unat a - unat b"
  using assms by (simp add: unat_sub)

lemma of_nat_pred: "0 < n \<Longrightarrow> of_nat n - 1 = (of_nat (n - Suc 0) :: 'a::len word)"
  by (cases n) auto

lemma unat_bound: "unat (w::'a::len word) < 2 ^ LENGTH('a)"
  by (rule unsigned_less)

lemma unat_gt_0_iff: "0 < unat (w::'a::len word) \<longleftrightarrow> w \<noteq> 0"
  by (simp add: unat_gt_0)

end
