(* ===== verification/Link_List.thy ===== *)
theory Link_List
  imports Ucore_Prelude
begin

text \<open>
  \<^verbatim>\<open>libs/list.h\<close>: the circular doubly linked list every other component links its objects into.

  The memory is the pair of fields \<open>prev\<close> and \<open>next\<close> of every \<^verbatim>\<open>struct list_entry\<close>, indexed by the
  entry's address (\<open>list_mem\<close>), so aliasing between heads and elements is explicit and each
  operation is the source's sequence of stores.  \<open>is_list h l xs\<close> says that the ring at head \<open>l\<close>
  holds the entries \<open>xs\<close>, and the locale \<open>entry_ring\<close> states what the other components rely on:
  the operations behave as insertion into and removal from the sequence \<open>xs\<close>.  They then model
  a list head by that sequence.
\<close>

record list_mem =
  prev :: "addr \<Rightarrow> addr"
  "next" :: "addr \<Rightarrow> addr"

definition set_prev :: "addr \<Rightarrow> addr \<Rightarrow> list_mem \<Rightarrow> list_mem" where
  "set_prev p v h = h\<lparr>prev := (prev h)(p := v)\<rparr>"

definition set_next :: "addr \<Rightarrow> addr \<Rightarrow> list_mem \<Rightarrow> list_mem" where
  "set_next p v h = h\<lparr>next := (next h)(p := v)\<rparr>"

definition list_init :: "addr \<Rightarrow> list_mem \<Rightarrow> list_mem" where
  "list_init elm h = set_prev elm elm (set_next elm elm h)"

definition list_add_raw :: "addr \<Rightarrow> addr \<Rightarrow> addr \<Rightarrow> list_mem \<Rightarrow> list_mem" where
  "list_add_raw elm prv nxt h =
     (let h1 = set_prev nxt elm h;
          h2 = set_next prv elm h1;
          h3 = set_next elm nxt h2
      in set_prev elm prv h3)"

definition list_del_raw :: "addr \<Rightarrow> addr \<Rightarrow> list_mem \<Rightarrow> list_mem" where
  "list_del_raw prv nxt h = set_prev nxt prv (set_next prv nxt h)"

definition list_add_after :: "addr \<Rightarrow> addr \<Rightarrow> list_mem \<Rightarrow> list_mem" where
  "list_add_after listelm elm h = list_add_raw elm listelm (next h listelm) h"

definition list_add_before :: "addr \<Rightarrow> addr \<Rightarrow> list_mem \<Rightarrow> list_mem" where
  "list_add_before listelm elm h = list_add_raw elm (prev h listelm) listelm h"

definition list_add :: "addr \<Rightarrow> addr \<Rightarrow> list_mem \<Rightarrow> list_mem" where
  "list_add listelm elm h = list_add_after listelm elm h"

definition list_del :: "addr \<Rightarrow> list_mem \<Rightarrow> list_mem" where
  "list_del listelm h = list_del_raw (prev h listelm) (next h listelm) h"

definition list_del_init :: "addr \<Rightarrow> list_mem \<Rightarrow> list_mem" where
  "list_del_init listelm h = list_init listelm (list_del listelm h)"

definition list_empty :: "addr \<Rightarrow> list_mem \<Rightarrow> bool" where
  "list_empty l h \<longleftrightarrow> next h l = l"

definition list_next :: "addr \<Rightarrow> list_mem \<Rightarrow> addr" where
  "list_next listelm h = next h listelm"

definition list_prev :: "addr \<Rightarrow> list_mem \<Rightarrow> addr" where
  "list_prev listelm h = prev h listelm"

text \<open>The loop the clients write, \<^verbatim>\<open>while ((le = list_next(le)) != list)\<close>, collecting the entries it
  visits.  It need not end on a memory that is no ring, hence the \<open>option\<close>.\<close>

partial_function (option) list_walk :: "list_mem \<Rightarrow> addr \<Rightarrow> addr \<Rightarrow> addr list option" where
  "list_walk h l le =
     (let n = list_next le h
      in if n = l then Some []
         else do { xs \<leftarrow> list_walk h l n; Some (n # xs) })"

lemmas list_op_defs [ucore_defs] =
  set_prev_def set_next_def list_init_def list_add_raw_def list_del_raw_def list_add_after_def
  list_add_before_def list_add_def list_del_def list_del_init_def list_empty_def list_next_def
  list_prev_def Let_def

subsection \<open>The ring as a sequence\<close>

fun seg :: "list_mem \<Rightarrow> addr \<Rightarrow> addr list \<Rightarrow> addr \<Rightarrow> bool" where
  "seg h p [] q \<longleftrightarrow> next h p = q \<and> prev h q = p"
| "seg h p (x # xs) q \<longleftrightarrow> next h p = x \<and> prev h x = p \<and> seg h x xs q"

definition is_list :: "list_mem \<Rightarrow> addr \<Rightarrow> addr list \<Rightarrow> bool" where
  "is_list h l xs \<longleftrightarrow> distinct (l # xs) \<and> seg h l xs l"

lemma seg_append: "seg h p (xs @ y # ys) q \<longleftrightarrow> seg h p xs y \<and> seg h y ys q"
  by (induction xs arbitrary: p) auto

lemma seg_cong:
  assumes "\<And>x. x \<in> set (p # xs) \<Longrightarrow> next h' x = next h x"
    and "\<And>x. x \<in> set (xs @ [q]) \<Longrightarrow> prev h' x = prev h x"
  shows "seg h' p xs q \<longleftrightarrow> seg h p xs q"
  using assms by (induction xs arbitrary: p) auto

lemma seg_next: "seg h p xs q \<Longrightarrow> next h p = hd (xs @ [q])"
  by (cases xs) auto

lemma seg_prev: "seg h p xs q \<Longrightarrow> prev h q = last (p # xs)"
  by (induction xs arbitrary: p) auto

text \<open>What the two raw operations store.\<close>

lemma next_list_add_raw [simp]:
  "next (list_add_raw e p q h) x = (if x = e then q else if x = p then e else next h x)"
  by (simp add: list_op_defs)

lemma prev_list_add_raw [simp]:
  "prev (list_add_raw e p q h) x = (if x = e then p else if x = q then e else prev h x)"
  by (simp add: list_op_defs)

lemma next_list_del_raw [simp]:
  "next (list_del_raw p q h) x = (if x = p then q else next h x)"
  by (simp add: list_op_defs)

lemma prev_list_del_raw [simp]:
  "prev (list_del_raw p q h) x = (if x = q then p else prev h x)"
  by (simp add: list_op_defs)

lemma next_list_init [simp]: "next (list_init e h) x = (if x = e then e else next h x)"
  by (simp add: list_op_defs)

lemma prev_list_init [simp]: "prev (list_init e h) x = (if x = e then e else prev h x)"
  by (simp add: list_op_defs)

text \<open>Parts of a segment away from the stores are kept.\<close>

lemma seg_frame_insert:
  assumes "seg h p xs q" and "e \<notin> set (p # q # xs)" and "a \<notin> set (p # xs)" and "b \<notin> set (xs @ [q])"
  shows "seg (list_add_raw e a b h) p xs q"
  using assms by (subst seg_cong [where h = h]) auto

lemma seg_frame_delete:
  assumes "seg h p xs q" and "a \<notin> set (p # xs)" and "b \<notin> set (xs @ [q])"
  shows "seg (list_del_raw a b h) p xs q"
  using assms by (subst seg_cong [where h = h]) auto

lemma seg_frame_init:
  assumes "seg h p xs q" and "e \<notin> set (p # q # xs)"
  shows "seg (list_init e h) p xs q"
  using assms by (subst seg_cong [where h = h]) auto

text \<open>Insertion between two neighbours and deletion of an element.  The segment may be a ring
  (\<open>p = q\<close>), so its two ends are treated apart.\<close>

lemma seg_insert:
  assumes "seg h p (as @ bs) q" and "distinct (p # as @ bs)" and "q \<notin> set (as @ bs)"
    and "e \<notin> set (p # q # as @ bs)"
  shows "seg (list_add_raw e (last (p # as)) (hd (bs @ [q])) h) p (as @ e # bs) q"
  using assms
proof (induction as arbitrary: p)
  case Nil
  show ?case
  proof (cases bs)
    case Nil
    then show ?thesis using Nil.prems by auto
  next
    case (Cons b bs')
    then show ?thesis using Nil.prems by (auto intro!: seg_frame_insert)
  qed
next
  case (Cons a as)
  have "hd (bs @ [q]) \<in> set (bs @ [q])" by (rule hd_in_set) simp
  moreover have "last (a # as) \<in> set (a # as)" by (rule last_in_set) simp
  ultimately show ?case using Cons by auto
qed

lemma seg_delete:
  assumes "seg h p (as @ e # bs) q" and "distinct (p # as @ e # bs)" and "q \<notin> set (as @ e # bs)"
  shows "seg (list_del_raw (last (p # as)) (hd (bs @ [q])) h) p (as @ bs) q"
  using assms
proof (induction as arbitrary: p)
  case Nil
  show ?case
  proof (cases bs)
    case Nil
    then show ?thesis using Nil.prems by auto
  next
    case (Cons b bs')
    then show ?thesis using Nil.prems by (auto intro!: seg_frame_delete)
  qed
next
  case (Cons a as)
  have "hd (bs @ [q]) \<in> set (bs @ [q])" by (rule hd_in_set) simp
  moreover have "last (a # as) \<in> set (a # as)" by (rule last_in_set) simp
  ultimately show ?case using Cons by auto
qed

lemma seg_next_at: "seg h p (as @ x # bs) q \<Longrightarrow> next h x = hd (bs @ [q])"
  by (simp add: seg_append seg_next)

lemma seg_prev_at: "seg h p (as @ x # bs) q \<Longrightarrow> prev h x = last (p # as)"
  by (simp only: seg_append seg_prev)

lemma seg_neighbours:
  assumes "seg h p (as @ bs) q"
  shows "next h (last (p # as)) = hd (bs @ [q])" and "prev h (hd (bs @ [q])) = last (p # as)"
proof -
  show "next h (last (p # as)) = hd (bs @ [q])"
    using assms by (cases as rule: rev_cases) (auto simp: seg_append seg_next)
  show "prev h (hd (bs @ [q])) = last (p # as)"
    using assms by (cases bs) (auto simp: seg_append seg_prev)
qed

subsection \<open>The interface the other components rely on\<close>

text \<open>A ring provider: the operations act on the sequence of entries linked at a head.  The laws
  are the header's comments: \<open>list_add\<close> puts the entry right after its first argument,
  \<open>list_add_before\<close> right before it, \<open>list_del\<close> unlinks, and rings that share no entry are not
  touched.\<close>

locale entry_ring =
  fixes ring :: "'h \<Rightarrow> addr \<Rightarrow> addr list \<Rightarrow> bool"
    and init :: "addr \<Rightarrow> 'h \<Rightarrow> 'h"
    and add_after :: "addr \<Rightarrow> addr \<Rightarrow> 'h \<Rightarrow> 'h"
    and add_before :: "addr \<Rightarrow> addr \<Rightarrow> 'h \<Rightarrow> 'h"
    and del :: "addr \<Rightarrow> 'h \<Rightarrow> 'h"
    and first :: "addr \<Rightarrow> 'h \<Rightarrow> addr"
    and final :: "addr \<Rightarrow> 'h \<Rightarrow> addr"
  assumes ring_init: "ring (init l h) l []"
    and ring_add_after: "ring h l (as @ bs) \<Longrightarrow> e \<notin> set (l # as @ bs) \<Longrightarrow>
      ring (add_after (last (l # as)) e h) l (as @ e # bs)"
    and ring_add_before: "ring h l (as @ bs) \<Longrightarrow> e \<notin> set (l # as @ bs) \<Longrightarrow>
      ring (add_before (hd (bs @ [l])) e h) l (as @ e # bs)"
    and ring_del: "ring h l (as @ e # bs) \<Longrightarrow> ring (del e h) l (as @ bs)"
    and ring_first: "ring h l xs \<Longrightarrow> first l h = hd (xs @ [l])"
    and ring_final: "ring h l xs \<Longrightarrow> final l h = last (l # xs)"
    and ring_distinct: "ring h l xs \<Longrightarrow> distinct (l # xs)"
begin

lemma ring_push: "ring h l xs \<Longrightarrow> e \<notin> set (l # xs) \<Longrightarrow> ring (add_after l e h) l (e # xs)"
  using ring_add_after [of h l "[]" xs e] by simp

lemma ring_enqueue: "ring h l xs \<Longrightarrow> e \<notin> set (l # xs) \<Longrightarrow> ring (add_before l e h) l (xs @ [e])"
  using ring_add_before [of h l xs "[]" e] by simp

lemma ring_remove: "ring h l xs \<Longrightarrow> e \<in> set xs \<Longrightarrow> ring (del e h) l (remove1 e xs)"
  using ring_distinct [of h l xs] by (auto dest!: split_list_first intro: ring_del)

lemma ring_is_empty: "ring h l xs \<Longrightarrow> first l h = l \<longleftrightarrow> xs = []"
  using ring_distinct [of h l xs] by (cases xs) (auto simp: ring_first)

text \<open>The queue discipline of the wait queues and run queues: entries leave from the front in
  the order in which they were added at the back.\<close>

lemma ring_fifo:
  assumes "ring h l (x # xs)" and "e \<notin> set (l # x # xs)"
  shows "first l (add_before l e h) = x \<and> ring (del x (add_before l e h)) l (xs @ [e])"
proof -
  have r: "ring (add_before l e h) l (x # xs @ [e])"
    using ring_enqueue [OF assms] by simp
  then have "ring (del x (add_before l e h)) l (remove1 x (x # xs @ [e]))"
    by (rule ring_remove) simp
  with r show ?thesis by (simp add: ring_first)
qed

end

lemma is_list_distinct: "is_list h l xs \<Longrightarrow> distinct (l # xs)"
  by (simp add: is_list_def)

lemma is_list_insert:
  assumes "is_list h l (as @ bs)" and "e \<notin> set (l # as @ bs)"
  shows "is_list (list_add_raw e (last (l # as)) (hd (bs @ [l])) h) l (as @ e # bs)"
  unfolding is_list_def
proof
  show "distinct (l # as @ e # bs)" using assms by (auto simp: is_list_def)
  show "seg (list_add_raw e (last (l # as)) (hd (bs @ [l])) h) l (as @ e # bs) l"
    using assms by (intro seg_insert) (auto simp: is_list_def)
qed

lemma is_list_del:
  assumes "is_list h l (as @ e # bs)"
  shows "is_list (list_del e h) l (as @ bs)"
proof -
  have s: "seg h l (as @ e # bs) l" using assms by (simp add: is_list_def)
  have "list_del e h = list_del_raw (last (l # as)) (hd (bs @ [l])) h"
    unfolding list_del_def seg_next_at [OF s] seg_prev_at [OF s] ..
  then show ?thesis using assms seg_delete [of h l as e bs l] by (simp add: is_list_def)
qed

interpretation le: entry_ring is_list list_init list_add_after list_add_before list_del list_next list_prev
proof
  fix l e :: addr and h :: list_mem and as bs xs :: "addr list"
  show "is_list (list_init l h) l []" by (simp add: is_list_def)
  show "is_list (list_add_after (last (l # as)) e h) l (as @ e # bs)"
    if "is_list h l (as @ bs)" "e \<notin> set (l # as @ bs)"
    using is_list_insert [OF that] seg_neighbours(1) [of h l as bs l] that
    unfolding list_add_after_def is_list_def by simp
  show "is_list (list_add_before (hd (bs @ [l])) e h) l (as @ e # bs)"
    if "is_list h l (as @ bs)" "e \<notin> set (l # as @ bs)"
    using is_list_insert [OF that] seg_neighbours(2) [of h l as bs l] that
    unfolding list_add_before_def is_list_def by simp
  show "is_list (list_del e h) l (as @ bs)" if "is_list h l (as @ e # bs)"
    using that by (rule is_list_del)
  show "list_next l h = hd (xs @ [l])" if "is_list h l xs"
    using that by (simp add: is_list_def list_next_def seg_next)
  show "list_prev l h = last (l # xs)" if "is_list h l xs"
    using that by (simp only: is_list_def list_prev_def seg_prev)
  show "distinct (l # xs)" if "is_list h l xs"
    using that by (rule is_list_distinct)
qed

lemma list_empty_iff: "is_list h l xs \<Longrightarrow> list_empty l h \<longleftrightarrow> xs = []"
  using le.ring_is_empty by (simp add: list_empty_def list_next_def)

lemma list_del_init_ring:
  assumes "is_list h l xs" and "e \<in> set xs"
  shows "is_list (list_del_init e h) l (remove1 e xs)" and "is_list (list_del_init e h) e []"
proof -
  have e: "e \<noteq> l" and d: "distinct xs" using assms is_list_distinct by auto
  have r: "is_list (list_del e h) l (remove1 e xs)" using assms by (rule le.ring_remove)
  then show "is_list (list_del_init e h) l (remove1 e xs)"
    using e d by (auto simp: is_list_def list_del_init_def intro!: seg_frame_init)
  show "is_list (list_del_init e h) e []" unfolding list_del_init_def by (rule le.ring_init)
qed

lemma list_walk_seg:
  assumes "seg h p xs l" and "l \<notin> set xs"
  shows "list_walk h l p = Some xs"
  using assms
proof (induction xs arbitrary: p)
  case Nil
  then show ?case by (subst list_walk.simps) (simp add: list_next_def)
next
  case (Cons x xs)
  then show ?case by (subst list_walk.simps) (auto simp: list_next_def)
qed

subsection \<open>Properties\<close>

lemma is_list_frame_raw:
  assumes "is_list h m ys" and "set (m # ys) \<inter> {e, a, b} = {}"
  shows "is_list (list_add_raw e a b h) m ys" and "is_list (list_del_raw a b h) m ys"
    and "is_list (list_init e h) m ys"
  using assms
  by (auto simp: is_list_def intro!: seg_frame_insert seg_frame_delete seg_frame_init)

lemma ring_neighbours_in:
  assumes "is_list h l xs" and "e \<in> set (l # xs)"
  shows "next h e \<in> set (l # xs)" and "prev h e \<in> set (l # xs)"
proof -
  obtain as bs where "xs = as @ e # bs" if "e \<noteq> l" using assms(2) by (auto dest: split_list)
  note split = this
  have s: "seg h l xs l" using assms(1) by (simp add: is_list_def)
  have hd: "hd (zs @ [l]) \<in> set (l # zs)" and last: "last (l # zs) \<in> set (l # zs)" for zs
    by (cases zs; simp) (simp only: last_in_set list.distinct not_False_eq_True)
  show "next h e \<in> set (l # xs)"
    using s split hd [of xs] hd [of bs] by (cases "e = l") (auto simp: seg_next seg_next_at)
  show "prev h e \<in> set (l # xs)"
    using s split last [of xs] last [of as] seg_prev_at [of h l as e bs l] seg_prev [of h l xs l]
    by (cases "e = l") auto
qed

text \<open>Insertion.  On a ring that holds \<open>as @ bs\<close>, adding a fresh entry after the last element of
  \<open>as\<close> (or after the head), or before the first of \<open>bs\<close> (or before the head), gives the ring that
  holds \<open>as\<close>, the entry and \<open>bs\<close>, and every ring that shares no entry with it is unchanged.\<close>

theorem list_add_refines_insertion:
  assumes "is_list h l (as @ bs)" and "e \<notin> set (l # as @ bs)"
    and "is_list h m ys" and "set (m # ys) \<inter> set (e # l # as @ bs) = {}"
  shows "is_list (list_add_after (last (l # as)) e h) l (as @ e # bs)
    \<and> is_list (list_add_before (hd (bs @ [l])) e h) l (as @ e # bs)
    \<and> is_list (list_add_after (last (l # as)) e h) m ys
    \<and> is_list (list_add_before (hd (bs @ [l])) e h) m ys"
proof -
  have s: "seg h l (as @ bs) l" using assms(1) by (simp add: is_list_def)
  have "last (l # as) \<in> set (l # as)" by (rule last_in_set) simp
  moreover have "hd (bs @ [l]) \<in> set (bs @ [l])" by (rule hd_in_set) simp
  ultimately have "set (m # ys) \<inter> {e, last (l # as), hd (bs @ [l])} = {}" using assms(4) by auto
  note fr = is_list_frame_raw(1) [OF assms(3) this]
  show ?thesis
    using le.ring_add_after [OF assms(1,2)] le.ring_add_before [OF assms(1,2)] fr
    by (simp only: list_add_after_def list_add_before_def seg_neighbours [OF s])
qed

theorem list_add_refines_insertion_witness:
  "is_list (list_add_after 0 2 (list_init 5 (list_add_before 0 1 (list_init 0 \<lparr>prev = id, next = id\<rparr>)))) 0 [2, 1]"
proof -
  let ?h = "list_init 5 (list_add_before 0 1 (list_init 0 \<lparr>prev = id, next = id\<rparr>))"
  have "is_list ?h 0 ([] @ [1])" and "is_list ?h 5 []"
    by (simp_all add: is_list_def list_op_defs)
  then show ?thesis using list_add_refines_insertion [of ?h 0 "[]" "[1]" 2 5 "[]"] by simp
qed

text \<open>Removal and traversal.  After \<open>list_del_init e\<close> the loop
  \<^verbatim>\<open>while ((le = list_next(le)) != list)\<close> returns, having visited the other entries exactly once, in
  their order; \<open>e\<close> is an empty ring of its own, and rings that share no entry are unchanged.\<close>

theorem list_del_init_walk:
  assumes "is_list h l xs" and "e \<in> set xs"
    and "is_list h m ys" and "set (m # ys) \<inter> set (l # xs) = {}"
  shows "list_walk (list_del_init e h) l l = Some (remove1 e xs)
    \<and> list_empty e (list_del_init e h)
    \<and> is_list (list_del_init e h) m ys"
proof -
  have r: "is_list (list_del_init e h) l (remove1 e xs)" "is_list (list_del_init e h) e []"
    using list_del_init_ring [OF assms(1,2)] by auto
  have "set (m # ys) \<inter> {e, prev h e, next h e} = {}"
    using assms ring_neighbours_in [OF assms(1), of e] by auto
  then have "is_list (list_del_init e h) m ys"
    using is_list_frame_raw [of _ m ys] assms(3) unfolding list_del_init_def list_del_def by auto
  moreover have "list_walk (list_del_init e h) l l = Some (remove1 e xs)"
    using r(1) by (intro list_walk_seg) (auto simp: is_list_def)
  ultimately show ?thesis using r(2) by (simp add: list_empty_iff)
qed

theorem list_del_init_walk_witness:
  "list_walk (list_del_init 1 (list_init 5 (list_add_before 0 2 (list_add_before 0 1
     (list_init 0 \<lparr>prev = id, next = id\<rparr>))))) 0 0 = Some [2]"
proof -
  let ?h = "list_init 5 (list_add_before 0 2 (list_add_before 0 1 (list_init 0 \<lparr>prev = id, next = id\<rparr>)))"
  have "is_list ?h 0 [1, 2]" and "is_list ?h 5 []"
    by (simp_all add: is_list_def list_op_defs)
  then show ?thesis using list_del_init_walk [of ?h 0 "[1, 2]" 1 5 "[]"] by simp
qed

end
