(* ===== verification/Bitmap.thy ===== *)
theory Bitmap
  imports Ucore_Prelude
begin

text \<open>
  \<^verbatim>\<open>kern/fs/sfs/bitmap.c\<close>: the free-block map of the simple file system.  A set bit means the block
  is free.  The struct is the record \<open>bitmap\<close>; \<^verbatim>\<open>WORD_TYPE\<close> is \<open>u32\<close>, so the overflow test of
  \<open>bitmap_create\<close> and the rounding of \<^verbatim>\<open>ROUNDUP_DIV\<close> wrap as they do in C.  The two calls of
  \<^verbatim>\<open>kmalloc\<close> are the arguments saying whether memory was available.

  The specification is the set \<open>free_set\<close> of free indices; the locale \<open>index_allocator\<close> is what
  the file system relies on, and the operations are shown to implement it.
\<close>

record bitmap =
  nbits :: u32
  nwords :: u32
  words :: "u32 list"

abbreviation WORD_BITS :: u32 where "WORD_BITS \<equiv> 32"

definition ROUNDUP_DIV :: "u32 \<Rightarrow> u32 \<Rightarrow> u32" where
  "ROUNDUP_DIV a n = (a + n - 1) div n"

text \<open>\<^verbatim>\<open>for (; overbits < WORD_BITS; overbits ++) map[ix] ^= (1 << overbits);\<close>\<close>

function clear_over :: "nat \<Rightarrow> u32 \<Rightarrow> u32" where
  "clear_over overbits w =
     (if overbits < 32 then clear_over (Suc overbits) (w XOR push_bit overbits 1) else w)"
  by pat_completeness auto
termination
  by (relation "measure (\<lambda>(o', w). 32 - o')") auto

declare clear_over.simps [simp del]

text \<open>\<open>Some None\<close> is the result \<^verbatim>\<open>NULL\<close>, \<^const>\<open>None\<close> a failed assertion.\<close>

definition bitmap_create :: "bool \<Rightarrow> bool \<Rightarrow> u32 \<Rightarrow> bitmap option option" where
  "bitmap_create kmalloc_struct_ok kmalloc_map_ok nb = do {
     kassert (nb \<noteq> 0 \<and> nb + WORD_BITS > nb);
     if \<not> kmalloc_struct_ok then Some None
     else let nw = ROUNDUP_DIV nb WORD_BITS in
       if \<not> kmalloc_map_ok then Some None
       else let map = replicate (unat nw) (-1) in
         if nb \<noteq> nw * WORD_BITS then
           let ix = nw - 1; overbits = nb - ix * WORD_BITS in do {
             kassert (nb div WORD_BITS = ix);
             kassert (overbits > 0 \<and> overbits < WORD_BITS);
             Some (Some \<lparr>nbits = nb, nwords = nw,
               words = map[unat ix := clear_over (unat overbits) (map ! unat ix)]\<rparr>) }
         else Some (Some \<lparr>nbits = nb, nwords = nw, words = map\<rparr>) }"

text \<open>The inner loop of \<open>bitmap_alloc\<close>: the first offset whose bit is set in the word.\<close>

function find_offset :: "nat \<Rightarrow> u32 \<Rightarrow> nat option" where
  "find_offset offset w =
     (if offset < 32 then
        (if w AND push_bit offset 1 \<noteq> 0 then Some offset else find_offset (Suc offset) w)
      else None)"
  by pat_completeness auto
termination
  by (relation "measure (\<lambda>(o', w). 32 - o')") auto

declare find_offset.simps [simp del]

text \<open>The outer loop, from word \<open>ix\<close> on; \<open>find_offset = None\<close> is the \<^verbatim>\<open>assert(0)\<close> after the inner
  loop.  The results are the return value, the stored index and the bitmap.\<close>

function bitmap_alloc_from :: "nat \<Rightarrow> bitmap \<Rightarrow> (int \<times> u32 option \<times> bitmap) option" where
  "bitmap_alloc_from ix b =
     (if ix < unat (nwords b) then
        (if words b ! ix \<noteq> 0 then do {
           offset \<leftarrow> find_offset 0 (words b ! ix);
           Some (0, Some (of_nat ix * WORD_BITS + of_nat offset),
                 b\<lparr>words := (words b)[ix := words b ! ix XOR push_bit offset 1]\<rparr>) }
         else bitmap_alloc_from (Suc ix) b)
      else Some (- E_NO_MEM, None, b))"
  by pat_completeness auto
termination
  by (relation "measure (\<lambda>(ix, b). unat (nwords b) - ix)") auto

declare bitmap_alloc_from.simps [simp del]

definition bitmap_alloc :: "bitmap \<Rightarrow> (int \<times> u32 option \<times> bitmap) option" where
  "bitmap_alloc b = bitmap_alloc_from 0 b"

text \<open>The word's index and the mask.\<close>

definition bitmap_translate :: "bitmap \<Rightarrow> u32 \<Rightarrow> (nat \<times> u32) option" where
  "bitmap_translate b index = do {
     kassert (index < nbits b);
     let ix = index div WORD_BITS; offset = index mod WORD_BITS in
     Some (unat ix, push_bit (unat offset) 1) }"

definition bitmap_test :: "bitmap \<Rightarrow> u32 \<Rightarrow> bool option" where
  "bitmap_test b index = do {
     (ix, mask) \<leftarrow> bitmap_translate b index;
     Some (words b ! ix AND mask \<noteq> 0) }"

definition bitmap_free :: "bitmap \<Rightarrow> u32 \<Rightarrow> bitmap option" where
  "bitmap_free b index = do {
     (ix, mask) \<leftarrow> bitmap_translate b index;
     kassert (\<not> words b ! ix AND mask \<noteq> 0);
     Some (b\<lparr>words := (words b)[ix := words b ! ix OR mask]\<rparr>) }"

text \<open>\<open>bitmap_getdata\<close> returns the array and stores its length in bytes.\<close>

definition bitmap_getdata :: "bitmap \<Rightarrow> u32 list \<times> u32" where
  "bitmap_getdata b = (words b, 4 * nwords b)"

subsection \<open>Bits\<close>

lemma and_mask_iff [simp]: "(w::u32) AND 2 ^ n = 0 \<longleftrightarrow> \<not> bit w n"
  by (simp add: and_exp_eq_0_iff_not_bit)

lemma bit_mask [simp]: "bit ((2::u32) ^ n) m \<longleftrightarrow> m = n \<and> n < 32"
  by (auto simp: bit_exp_iff)

lemma word_eq_0_iff_bits: "(w::u32) = 0 \<longleftrightarrow> (\<forall>n < 32. \<not> bit w n)"
  by (auto simp: bit_eq_iff dest: bit_imp_le_length)

lemma clear_over_bit: "n \<le> 32 \<Longrightarrow> bit (clear_over n w) i \<longleftrightarrow> (if n \<le> i \<and> i < 32 then \<not> bit w i else bit w i)"
proof (induction n w rule: clear_over.induct)
  case (1 n w)
  then show ?case
    by (subst clear_over.simps) (auto simp: bit_xor_iff Suc_le_eq)
qed

lemma find_offset_Some:
  "find_offset n w = Some k \<Longrightarrow> n \<le> k \<and> k < 32 \<and> bit w k \<and> (\<forall>i. n \<le> i \<and> i < k \<longrightarrow> \<not> bit w i)"
proof (induction n w rule: find_offset.induct)
  case (1 n w)
  show ?case
  proof (cases "n < 32 \<and> \<not> bit w n")
    case True
    then have "find_offset (Suc n) w = Some k" using "1.prems" by (subst (asm) find_offset.simps) auto
    with "1.IH" True show ?thesis by (auto simp: Suc_le_eq) (metis le_neq_implies_less)
  next
    case False
    then show ?thesis using "1.prems" by (subst (asm) find_offset.simps) (auto split: if_splits)
  qed
qed

lemma find_offset_None: "find_offset n w = None \<Longrightarrow> n \<le> i \<Longrightarrow> i < 32 \<Longrightarrow> \<not> bit w i"
proof (induction n w rule: find_offset.induct)
  case (1 n w)
  then have "\<not> bit w n" "find_offset (Suc n) w = None"
    by (auto simp: find_offset.simps [of n] split: if_splits)
  with 1 show ?case by (cases "n = i") auto
qed

lemma find_offset_ex: "w \<noteq> 0 \<Longrightarrow> \<exists>k. find_offset 0 w = Some k"
  using find_offset_None [of 0 w] by (cases "find_offset 0 w") (auto simp: word_eq_0_iff_bits)

subsection \<open>Specification: the set of free indices\<close>

definition is_free :: "bitmap \<Rightarrow> nat \<Rightarrow> bool" where
  "is_free b i \<longleftrightarrow> i div 32 < length (words b) \<and> bit (words b ! (i div 32)) (i mod 32)"

definition free_set :: "bitmap \<Rightarrow> nat set" where
  "free_set b = {i. is_free b i}"

definition bitmap_inv :: "bitmap \<Rightarrow> bool" where
  "bitmap_inv b \<longleftrightarrow> unat (nbits b) + 32 < 2 ^ 32
     \<and> length (words b) = (unat (nbits b) + 31) div 32 \<and> unat (nwords b) = length (words b)
     \<and> (\<forall>i. is_free b i \<longrightarrow> i < unat (nbits b))"

lemma is_free_update:
  assumes "ix < length (words b)"
  shows "is_free (b\<lparr>words := (words b)[ix := w]\<rparr>) i \<longleftrightarrow>
    (if i div 32 = ix then bit w (i mod 32) else is_free b i)"
  using assms by (auto simp: is_free_def)

lemma is_free_at: "off < 32 \<Longrightarrow> i div 32 = ix \<and> i mod 32 = off \<longleftrightarrow> i = ix * 32 + off"
  for i ix off :: nat
  by auto

lemma is_free_take:
  assumes "ix < length (words b)" and "off < 32" and "bit (words b ! ix) off"
  shows "is_free (b\<lparr>words := (words b)[ix := words b ! ix XOR 2 ^ off]\<rparr>) i \<longleftrightarrow>
    is_free b i \<and> i \<noteq> ix * 32 + off"
  unfolding is_free_update [OF assms(1)] using assms is_free_at [OF assms(2), of i ix]
  by (auto simp: bit_xor_iff is_free_def)

lemma is_free_put:
  assumes "ix < length (words b)" and "off < 32"
  shows "is_free (b\<lparr>words := (words b)[ix := words b ! ix OR 2 ^ off]\<rparr>) i \<longleftrightarrow>
    is_free b i \<or> i = ix * 32 + off"
  unfolding is_free_update [OF assms(1)] using assms is_free_at [OF assms(2), of i ix]
  by (auto simp: bit_or_iff is_free_def)

lemma bitmap_inv_words:
  assumes "bitmap_inv b" and "length ws = length (words b)"
    and "\<And>i. is_free (b\<lparr>words := ws\<rparr>) i \<Longrightarrow> i < unat (nbits b)"
  shows "bitmap_inv (b\<lparr>words := ws\<rparr>)"
  using assms by (auto simp: bitmap_inv_def)

lemma bitmap_inv_index:
  assumes "bitmap_inv b" and "i < unat (nbits b)"
  shows "i div 32 < length (words b)" and "i < 2 ^ 32"
  using assms by (auto simp: bitmap_inv_def)

lemma block_position:
  fixes j ix k :: nat
  assumes "j < ix * 32 + k" and "k < 32" and "ix \<le> j div 32"
  shows "j div 32 = ix \<and> j mod 32 < k"
proof -
  have "j div 32 < Suc ix" by (rule less_mult_imp_div_less) (use assms in simp)
  with assms have q: "j div 32 = ix" by simp
  have "j div 32 * 32 + j mod 32 = j" by (rule div_mult_mod_eq)
  with q assms show ?thesis by linarith
qed

text \<open>Allocation takes the least free index, and fails only when there is none.\<close>

lemma bitmap_alloc_from_spec:
  assumes "bitmap_inv b" and "\<And>j. j < ix \<Longrightarrow> j < length (words b) \<Longrightarrow> words b ! j = 0"
  shows "(\<exists>i b'. bitmap_alloc_from ix b = Some (0, Some (of_nat i), b') \<and> i \<in> free_set b
            \<and> (\<forall>j \<in> free_set b. i \<le> j) \<and> free_set b' = free_set b - {i} \<and> bitmap_inv b' \<and> nbits b' = nbits b)
       \<or> (bitmap_alloc_from ix b = Some (- E_NO_MEM, None, b) \<and> free_set b = {})"
  using assms
proof (induction ix b rule: bitmap_alloc_from.induct)
  case (1 ix b)
  have len: "unat (nwords b) = length (words b)" using "1.prems" by (simp add: bitmap_inv_def)
  have zero: "\<not> is_free b j" if "j div 32 < ix" for j
    using that "1.prems"(2) [of "j div 32"] by (auto simp: is_free_def)
  consider (skip) "ix < length (words b)" "words b ! ix = 0"
    | (hit) "ix < length (words b)" "words b ! ix \<noteq> 0" | (none) "\<not> ix < length (words b)"
    by blast
  then show ?case
  proof cases
    case skip
    then have e: "bitmap_alloc_from ix b = bitmap_alloc_from (Suc ix) b"
      by (subst bitmap_alloc_from.simps) (simp add: len)
    show ?thesis unfolding e using "1.prems" skip len
      by (intro "1.IH") (auto simp: less_Suc_eq)
  next
    case hit
    obtain k where k: "find_offset 0 (words b ! ix) = Some k" using find_offset_ex hit by blast
    note ks = find_offset_Some [OF k]
    let ?i = "ix * 32 + k" and ?b = "b\<lparr>words := (words b)[ix := words b ! ix XOR 2 ^ k]\<rparr>"
    have res: "bitmap_alloc_from ix b = Some (0, Some (of_nat ?i), ?b)"
      by (subst bitmap_alloc_from.simps) (simp add: len hit k)
    have fr: "is_free ?b j \<longleftrightarrow> is_free b j \<and> j \<noteq> ?i" for j
      using hit ks by (intro is_free_take) auto
    have "bitmap_inv ?b"
      using "1.prems"(1) fr by (intro bitmap_inv_words) (auto simp: bitmap_inv_def)
    moreover have "?i \<in> free_set b" using hit ks by (simp add: free_set_def is_free_def)
    moreover have "?i \<le> j" if "j \<in> free_set b" for j
    proof (rule ccontr)
      assume "\<not> ?i \<le> j"
      moreover have "ix \<le> j div 32" using that zero [of j] by (force simp: free_set_def)
      ultimately have "j div 32 = ix \<and> j mod 32 < k"
        using ks by (intro block_position) auto
      then show False using that ks by (auto simp: free_set_def is_free_def)
    qed
    moreover have "free_set ?b = free_set b - {?i}" by (auto simp: free_set_def fr)
    ultimately show ?thesis using res by fastforce
  next
    case none
    then have "bitmap_alloc_from ix b = Some (- E_NO_MEM, None, b)"
      by (subst bitmap_alloc_from.simps) (simp add: len)
    moreover have "free_set b = {}"
      using none zero by (force simp: free_set_def is_free_def)
    ultimately show ?thesis by blast
  qed
qed

lemmas bitmap_alloc_spec = bitmap_alloc_from_spec [where ix = 0, folded bitmap_alloc_def, simplified]

subsection \<open>The other operations\<close>

lemma bitmap_translate_eq:
  "bitmap_translate b index =
     (if index < nbits b then Some (unat index div 32, push_bit (unat index mod 32) 1) else None)"
  by (simp add: bitmap_translate_def unat_div_distrib unat_mod_distrib)

lemma bitmap_test_spec:
  assumes "bitmap_inv b" and "index < nbits b"
  shows "bitmap_test b index = Some (unat index \<in> free_set b)"
  using assms bitmap_inv_index(1) [of b "unat index"]
  by (auto simp: bitmap_test_def bitmap_translate_eq free_set_def is_free_def word_less_nat_alt)

lemma bitmap_free_spec:
  assumes "bitmap_inv b" and "index < nbits b" and "unat index \<notin> free_set b"
  shows "\<exists>b'. bitmap_free b index = Some b' \<and> free_set b' = insert (unat index) (free_set b)
    \<and> bitmap_inv b' \<and> nbits b' = nbits b"
proof -
  let ?ix = "unat index div 32" and ?off = "unat index mod 32"
  let ?b = "b\<lparr>words := (words b)[?ix := words b ! ?ix OR 2 ^ ?off]\<rparr>"
  have lt: "unat index < unat (nbits b)" using assms(2) by (simp add: word_less_nat_alt)
  then have ix: "?ix < length (words b)" using assms(1) by (rule bitmap_inv_index(1) [rotated])
  have res: "bitmap_free b index = Some ?b"
    using assms ix by (auto simp: bitmap_free_def bitmap_translate_eq free_set_def is_free_def)
  have fr: "is_free ?b i \<longleftrightarrow> is_free b i \<or> i = unat index" for i
    using is_free_put [OF ix, of ?off i] by (simp add: div_mult_mod_eq)
  have "bitmap_inv ?b"
    using assms(1) lt fr by (intro bitmap_inv_words) (auto simp: bitmap_inv_def)
  then show ?thesis using res fr by (auto simp: free_set_def)
qed

lemma bitmap_free_panics:
  assumes "bitmap_inv b" and "index < nbits b \<Longrightarrow> unat index \<in> free_set b"
  shows "bitmap_free b index = None"
  using assms by (auto simp: bitmap_free_def bitmap_translate_eq free_set_def is_free_def)

lemma unat_ROUNDUP_DIV:
  assumes "unat nb + 32 < 2 ^ 32"
  shows "unat (ROUNDUP_DIV nb 32) = (unat nb + 31) div 32"
proof -
  have e: "nb + 32 - 1 = nb + 31" by (simp add: algebra_simps)
  have "unat (nb + 31) = unat nb + 31" using assms by (subst unat_add_lt) auto
  then show ?thesis by (simp add: ROUNDUP_DIV_def unat_div_distrib e)
qed

lemma bitmap_create_guard: "nb + 32 > nb \<longleftrightarrow> unat nb + 32 < 2 ^ 32" for nb :: u32
proof (cases "unat nb + 32 < 2 ^ 32")
  case True
  then have "unat (nb + 32) = unat nb + 32" by (subst unat_add_lt) auto
  with True show ?thesis by (simp add: word_less_nat_alt)
next
  case False
  have "unat (nb + 32) = (unat nb + 32) mod 2 ^ 32" by (simp add: unat_word_ariths)
  also have "\<dots> = unat nb + 32 - 2 ^ 32"
    using False unat_bound [of nb] by (simp add: le_mod_geq)
  finally have "\<not> unat nb < unat (nb + 32)" by simp
  with False show ?thesis by (simp add: word_less_nat_alt)
qed

lemma block_less_iff:
  fixes i m :: nat
  shows "i < m \<longleftrightarrow> i div 32 < m div 32 \<or> i div 32 = m div 32 \<and> i mod 32 < m mod 32"
proof -
  have "i div 32 * 32 + i mod 32 = i" "m div 32 * 32 + m mod 32 = m"
    by (rule div_mult_mod_eq)+
  moreover have "i mod 32 < 32" "m mod 32 < 32" by simp_all
  ultimately show ?thesis by linarith
qed

lemma roundup32:
  fixes m :: nat
  shows "m mod 32 = 0 \<Longrightarrow> (m + 31) div 32 = m div 32"
    and "m mod 32 \<noteq> 0 \<Longrightarrow> (m + 31) div 32 = Suc (m div 32)"
proof -
  have "m div 32 * 32 + m mod 32 = m" by (rule div_mult_mod_eq)
  then have "(m + 31) div 32 = (m div 32 * 32 + (m mod 32 + 31)) div 32" by (simp only: add.assoc [symmetric])
  also have "\<dots> = m div 32 + (m mod 32 + 31) div 32" by (rule div_mult_self3) simp
  finally have d: "(m + 31) div 32 = m div 32 + (m mod 32 + 31) div 32" .
  show "m mod 32 = 0 \<Longrightarrow> (m + 31) div 32 = m div 32" using d by simp
  assume "m mod 32 \<noteq> 0"
  moreover have "m mod 32 < 32" by simp
  ultimately have "(m mod 32 + 31) div 32 = 1" by (auto simp: div_nat_eqI)
  then show "(m + 31) div 32 = Suc (m div 32)" using d by simp
qed

lemma roundup32_exact: "(m + 31) div 32 * 32 = m \<longleftrightarrow> m mod 32 = 0" for m :: nat
proof (cases "m mod 32 = 0")
  case True
  then show ?thesis by (auto simp: roundup32)
next
  case False
  moreover have "m div 32 * 32 + m mod 32 = m" by (rule div_mult_mod_eq)
  moreover have "m mod 32 < 32" by simp
  ultimately show ?thesis by (simp add: roundup32)
qed

text \<open>The word arithmetic of \<open>bitmap_create\<close>, read as natural numbers: the last word holds the
  \<open>m mod 32\<close> leftover bits exactly when \<open>m\<close> is no multiple of 32.\<close>

lemma create_arith:
  fixes nb :: u32
  assumes "nb \<noteq> 0" and "unat nb + 32 < 2 ^ 32"
  defines "nw \<equiv> ROUNDUP_DIV nb 32"
  shows "nb = nw * 32 \<longleftrightarrow> unat nb mod 32 = 0"
    and "unat (nw - 1) = unat nw - 1"
    and "unat nb mod 32 \<noteq> 0 \<Longrightarrow> unat nw - 1 = unat nb div 32"
    and "unat nb mod 32 \<noteq> 0 \<Longrightarrow> unat (nb - (nw - 1) * 32) = unat nb mod 32"
proof -
  have nw: "unat nw = (unat nb + 31) div 32" unfolding nw_def using assms(2) by (rule unat_ROUNDUP_DIV)
  have pos: "0 < unat nb" using assms(1) by (simp add: unat_gt_0_iff)
  have m32: "unat (nw * 32) = unat nw * 32"
    using assms(2) nw by (subst unat_mult_lem [THEN iffD1]) auto
  show "nb = nw * 32 \<longleftrightarrow> unat nb mod 32 = 0"
    unfolding word_unat_eq_iff m32 nw using roundup32_exact [of "unat nb"] by auto
  show d: "unat (nw - 1) = unat nw - 1"
    using nw pos by (subst unat_diff_le) (auto simp: word_le_nat_alt)
  assume r: "unat nb mod 32 \<noteq> 0"
  show q: "unat nw - 1 = unat nb div 32" using r nw by (simp add: roundup32)
  have e: "unat ((nw - 1) * 32) = unat nb div 32 * 32"
    using unat_bound [of nb] d q by (subst unat_mult_lem [THEN iffD1]) auto
  have "(nw - 1) * 32 \<le> nb" unfolding word_le_nat_alt e by simp
  then have "unat (nb - (nw - 1) * 32) = unat nb - unat nb div 32 * 32"
    unfolding e [symmetric] by (rule unat_diff_le)
  then show "unat (nb - (nw - 1) * 32) = unat nb mod 32" by (simp add: minus_div_mult_eq_mod)
qed

lemma bitmap_create_spec:
  assumes nz: "nb \<noteq> 0" and guard: "nb + 32 > nb"
  shows "\<exists>b. bitmap_create True True nb = Some (Some b) \<and> bitmap_inv b \<and> nbits b = nb
    \<and> free_set b = {..<unat nb}"
proof -
  have lt: "unat nb + 32 < 2 ^ 32" using guard by (simp add: bitmap_create_guard)
  let ?nw = "ROUNDUP_DIV nb 32" and ?m = "unat nb"
  note nw = unat_ROUNDUP_DIV [OF lt] and ar = create_arith [OF nz lt]
  define ws where "ws = (if ?m mod 32 = 0 then replicate (unat ?nw) (-1)
    else (replicate (unat ?nw) (-1))[?m div 32 := clear_over (?m mod 32) (-1)])"
  define b where "b = \<lparr>nbits = nb, nwords = ?nw, words = ws\<rparr>"
  have res: "bitmap_create True True nb = Some (Some b)"
  proof (cases "?m mod 32 = 0")
    case True
    then show ?thesis using nz guard ar(1) by (simp add: bitmap_create_def b_def ws_def Let_def)
  next
    case False
    have "nb div 32 = ?nw - 1" "0 < nb - (?nw - 1) * 32" "nb - (?nw - 1) * 32 < 32"
      using False ar by (auto simp: word_unat_eq_iff unat_div_distrib word_less_nat_alt unat_gt_0_iff [symmetric] simp del: unat_gt_0)
    moreover have "?m div 32 < unat ?nw" using False nw by (simp add: roundup32)
    ultimately show ?thesis using False nz guard ar by (simp add: bitmap_create_def b_def ws_def Let_def)
  qed
  have fr: "is_free b i \<longleftrightarrow> i < ?m" for i
  proof (cases "?m mod 32 = 0")
    case True
    then show ?thesis using nw by (auto simp: is_free_def b_def ws_def div_less_iff_less_mult)
  next
    case False
    have "length ws = unat ?nw" by (simp add: ws_def)
    then have len: "length ws = Suc (?m div 32)" using nw roundup32(2) [OF False] by simp
    have "ws ! j = (if j = ?m div 32 then clear_over (?m mod 32) (-1) else -1)" if "j < length ws" for j
      using that False by (auto simp: ws_def nth_list_update)
    then show ?thesis unfolding block_less_iff [of i]
      using len by (auto simp: is_free_def b_def clear_over_bit less_Suc_eq split: if_splits)
  qed
  have "length ws = unat ?nw" by (simp add: ws_def)
  then have "bitmap_inv b" using lt nw fr by (simp add: bitmap_inv_def b_def)
  then show ?thesis using res fr by (auto simp: b_def free_set_def)
qed

subsection \<open>The interface of the file system\<close>

text \<open>What \<^verbatim>\<open>sfs_fs.c\<close> and \<^verbatim>\<open>sfs_inode.c\<close> rely on when they allocate and release blocks: a finite
  set of free indices, from which allocation takes one and to which release returns one.\<close>

locale index_allocator =
  fixes inv :: "'s \<Rightarrow> bool"
    and free :: "'s \<Rightarrow> nat set"
    and capacity :: "'s \<Rightarrow> nat"
    and take :: "'s \<Rightarrow> (nat option \<times> 's) option"
    and put :: "'s \<Rightarrow> nat \<Rightarrow> 's option"
  assumes free_bound: "inv s \<Longrightarrow> free s \<subseteq> {..<capacity s}"
    and take_some: "inv s \<Longrightarrow> free s \<noteq> {} \<Longrightarrow> \<exists>i s'. take s = Some (Some i, s') \<and> i \<in> free s
      \<and> free s' = free s - {i} \<and> inv s' \<and> capacity s' = capacity s"
    and take_none: "inv s \<Longrightarrow> free s = {} \<Longrightarrow> take s = Some (None, s)"
    and put_ok: "inv s \<Longrightarrow> i < capacity s \<Longrightarrow> i \<notin> free s \<Longrightarrow> \<exists>s'. put s i = Some s'
      \<and> free s' = insert i (free s) \<and> inv s' \<and> capacity s' = capacity s"
begin

lemma take_total:
  assumes "inv s"
  obtains r s' where "take s = Some (r, s')" "inv s'" "capacity s' = capacity s"
    "free s' \<subseteq> free s" "r = None \<longleftrightarrow> free s = {}" "\<And>i. r = Some i \<Longrightarrow> i \<in> free s \<and> i \<notin> free s'"
proof (cases "free s = {}")
  case True
  then show ?thesis using that [of None s] assms take_none by auto
next
  case False
  then obtain i s' where "take s = Some (Some i, s')" "i \<in> free s" "free s' = free s - {i}" "inv s'"
    "capacity s' = capacity s" using take_some assms by blast
  then show ?thesis using that [of "Some i" s'] False by auto
qed

text \<open>Two allocations never hand out the same index, and releasing what was taken restores the
  free set.\<close>

lemma take_twice_distinct:
  assumes "inv s" and "take s = Some (Some i, s')" and "take s' = Some (Some j, s'')"
  shows "i \<noteq> j"
proof -
  have "free s \<noteq> {}" using assms take_none by fastforce
  then have i: "i \<notin> free s'" "inv s'" using assms take_some by force+
  then have "free s' \<noteq> {}" using assms take_none by fastforce
  then have "j \<in> free s'" using i assms take_some by force
  with i show ?thesis by auto
qed

lemma take_put:
  assumes "inv s" and "take s = Some (Some i, s')"
  shows "\<exists>s''. put s' i = Some s'' \<and> free s'' = free s \<and> inv s''"
proof -
  have ne: "free s \<noteq> {}" using assms take_none by fastforce
  then have i: "i \<in> free s" "free s' = free s - {i}" "inv s'" "capacity s' = capacity s"
    using assms take_some by force+
  moreover have "i < capacity s'" using i free_bound [OF assms(1)] by auto
  ultimately obtain s'' where "put s' i = Some s''" "free s'' = insert i (free s')" "inv s''"
    using put_ok [of s' i] by blast
  then show ?thesis using i by auto
qed

end

definition bitmap_take :: "bitmap \<Rightarrow> (nat option \<times> bitmap) option" where
  "bitmap_take b = map_option (\<lambda>(r, st, b'). (map_option unat st, b')) (bitmap_alloc b)"

definition bitmap_put :: "bitmap \<Rightarrow> nat \<Rightarrow> bitmap option" where
  "bitmap_put b i = bitmap_free b (of_nat i)"

lemma free_set_bound: "bitmap_inv b \<Longrightarrow> i \<in> free_set b \<Longrightarrow> i < unat (nbits b)"
  by (simp add: bitmap_inv_def free_set_def)

lemma unat_of_nat_index: "bitmap_inv b \<Longrightarrow> i < unat (nbits b) \<Longrightarrow> unat (of_nat i :: u32) = i"
  using unat_bound [of "nbits b"] by (simp add: unat_of_nat)

interpretation bm: index_allocator bitmap_inv free_set "\<lambda>b. unat (nbits b)" bitmap_take bitmap_put
proof
  fix b :: bitmap and i :: nat
  assume inv: "bitmap_inv b"
  show "free_set b \<subseteq> {..<unat (nbits b)}" using inv by (auto intro: free_set_bound)
  show "bitmap_take b = Some (None, b)" if "free_set b = {}"
    using bitmap_alloc_spec [OF inv] that by (auto simp: bitmap_take_def)
  show "\<exists>i s'. bitmap_take b = Some (Some i, s') \<and> i \<in> free_set b \<and> free_set s' = free_set b - {i}
      \<and> bitmap_inv s' \<and> unat (nbits s') = unat (nbits b)" if "free_set b \<noteq> {}"
    using bitmap_alloc_spec [OF inv] that unat_of_nat_index [OF inv free_set_bound [OF inv]]
    by (auto simp: bitmap_take_def) 
  show "\<exists>s'. bitmap_put b i = Some s' \<and> free_set s' = insert i (free_set b) \<and> bitmap_inv s'
      \<and> unat (nbits s') = unat (nbits b)" if "i < unat (nbits b)" "i \<notin> free_set b"
    using bitmap_free_spec [OF inv, of "of_nat i"] that unat_of_nat_index [OF inv that(1)]
    by (auto simp: bitmap_put_def word_less_nat_alt)
qed

subsection \<open>Properties\<close>

text \<open>C32: Allocation on a well-formed bitmap never panics.  It either returns 0 and the least free
  block number, which it removes from the free set and from nothing else, or returns
  \<open>-E_NO_MEM\<close> with the bitmap unchanged, and then no block is free.  The well-formedness (in
  particular: no block beyond \<open>nbits\<close> is ever marked free) is kept.\<close>

theorem bitmap_alloc_correct:
  assumes "bitmap_inv b"
  shows "(\<exists>i b'. bitmap_alloc b = Some (0, Some (of_nat i), b') \<and> i \<in> free_set b \<and> i < unat (nbits b)
            \<and> (\<forall>j \<in> free_set b. i \<le> j) \<and> free_set b' = free_set b - {i} \<and> bitmap_inv b')
       \<or> (bitmap_alloc b = Some (- E_NO_MEM, None, b) \<and> free_set b = {})"
  using bitmap_alloc_spec [OF assms] free_set_bound [OF assms] by blast

theorem bitmap_alloc_correct_witness:
  "\<exists>b b'. bitmap_create True True 3 = Some (Some b) \<and> bitmap_alloc b = Some (0, Some 0, b')
     \<and> free_set b' = {1, 2} \<and> bitmap_inv b'"
proof -
  obtain b where b: "bitmap_create True True 3 = Some (Some b)" "bitmap_inv b" "free_set b = {..<3}"
    using bitmap_create_spec [of 3] by auto
  then obtain i b' where r: "bitmap_alloc b = Some (0, Some (of_nat i), b')" "i \<in> free_set b"
    "\<forall>j \<in> free_set b. i \<le> j" "free_set b' = free_set b - {i}" "bitmap_inv b'"
    using bitmap_alloc_correct [OF b(2)] b(3) by (auto simp: lessThan_empty_iff bot_nat_def)
  have "i = 0" using r b by auto
  moreover have "{..<3} - {0} = {1, 2 :: nat}" by auto
  ultimately show ?thesis using r b by auto
qed

text \<open>A freshly created bitmap is well formed and exactly the block numbers below \<open>nbits\<close> are
  free: the leftover bits of the last word are marked in use.  The hypotheses are the
  assertion of \<open>bitmap_create\<close>.\<close>

theorem bitmap_create_correct:
  assumes "nb \<noteq> 0" and "nb + WORD_BITS > nb"
  shows "\<exists>b. bitmap_create True True nb = Some (Some b) \<and> bitmap_inv b \<and> nbits b = nb
    \<and> free_set b = {..<unat nb}"
  using assms by (rule bitmap_create_spec)

theorem bitmap_create_correct_witness:
  "\<exists>b. bitmap_create True True 40 = Some (Some b) \<and> free_set b = {..<40}"
  using bitmap_create_correct [of 40] by auto

text \<open>Release inverts allocation.  A block just allocated can be released without panic and the
  free set is then what it was; releasing a block that is free already, or a number out of range,
  panics.\<close>

theorem bitmap_alloc_free_roundtrip:
  assumes "bitmap_inv b" and "bitmap_alloc b = Some (0, Some i, b')"
  shows "(\<exists>b''. bitmap_free b' i = Some b'' \<and> free_set b'' = free_set b \<and> bitmap_inv b'')
    \<and> bitmap_test b' i = Some False \<and> bitmap_free b i = None"
proof -
  have t: "bitmap_take b = Some (Some (unat i), b')" using assms(2) by (simp add: bitmap_take_def)
  obtain b'' where "bitmap_put b' (unat i) = Some b''" "free_set b'' = free_set b" "bitmap_inv b''"
    using bm.take_put [OF assms(1) t] by blast
  moreover have i: "unat i \<in> free_set b" "unat i \<notin> free_set b'" "bitmap_inv b'" "nbits b' = nbits b"
    using bitmap_alloc_spec [OF assms(1)] unat_of_nat_index [OF assms(1) free_set_bound [OF assms(1)]] assms(2)
    by auto
  moreover have "i < nbits b'"
    using free_set_bound [OF assms(1) i(1)] i(4) by (simp add: word_less_nat_alt)
  ultimately show ?thesis
    using bitmap_test_spec [of b' i] bitmap_free_panics [OF assms(1), of i] by (auto simp: bitmap_put_def)
qed

theorem bitmap_alloc_free_roundtrip_witness:
  "\<exists>b b' b''. bitmap_create True True 3 = Some (Some b) \<and> bitmap_alloc b = Some (0, Some 0, b')
     \<and> bitmap_free b' 0 = Some b'' \<and> free_set b'' = {..<3}"
proof -
  obtain b where b: "bitmap_create True True 3 = Some (Some b)" "bitmap_inv b" "free_set b = {..<3}"
    using bitmap_create_spec [of 3] by auto
  then obtain i b' where r: "bitmap_alloc b = Some (0, Some (of_nat i), b')" "i \<in> free_set b"
    "\<forall>j \<in> free_set b. i \<le> j" using bitmap_alloc_spec [OF b(2)] b(3) by (auto simp: lessThan_empty_iff bot_nat_def)
  then have "i = 0" using b by auto
  with r have a: "bitmap_alloc b = Some (0, Some 0, b')" by simp
  show ?thesis using bitmap_alloc_free_roundtrip [OF b(2) a] a b by auto
qed

end
