(* ===== verification/Buddy.thy ===== *)
theory Buddy
  imports Ucore_Prelude
begin

text \<open>
  \<^verbatim>\<open>kern/mm/buddy_pmm.c\<close>: the buddy allocator behind \<^verbatim>\<open>struct pmm_manager\<close>.

  A page descriptor is named by its index in \<^verbatim>\<open>pages\<close> (\<open>page2ppn\<close>), so pointer arithmetic on
  \<^verbatim>\<open>struct Page *\<close> is arithmetic on natural numbers.  The state \<open>buddy\<close> holds the descriptors, the
  eleven free areas (each list as the sequence of pages linked in it, see \<open>Link_List\<close>), the zone table
  and \<^verbatim>\<open>npage\<close>.  Failed assertions and \<^verbatim>\<open>panic\<close> are \<^const>\<open>None\<close>.  \<open>order_size\<close> is always \<open>1 << order\<close>
  in the code and is written so here.

  Shown: the free areas always hold pairwise disjoint, aligned blocks with matching descriptors
  (\<open>buddy_inv\<close>); allocation removes exactly the \<open>n\<close> pages it returns from the free pages; release
  returns exactly the pages it is given; both never panic on legal arguments.
\<close>

subsection \<open>Page descriptors\<close>

record Page =
  ref :: int
  flags :: u32
  property :: nat
  zone_num :: nat

definition PG_reserved :: nat where "PG_reserved = 0"
definition PG_property :: nat where "PG_property = 1"

lemma PG_simps [simp]: "PG_property \<noteq> PG_reserved" "PG_reserved \<noteq> PG_property" "PG_property < 32" "PG_reserved < 32"
  by (simp_all add: PG_reserved_def PG_property_def)

definition set_flag :: "nat \<Rightarrow> Page \<Rightarrow> Page" where
  "set_flag n p = p\<lparr>flags := set_bit n (flags p)\<rparr>"

definition clear_flag :: "nat \<Rightarrow> Page \<Rightarrow> Page" where
  "clear_flag n p = p\<lparr>flags := unset_bit n (flags p)\<rparr>"

definition test_flag :: "nat \<Rightarrow> Page \<Rightarrow> bool" where
  "test_flag n p \<longleftrightarrow> bit (flags p) n"

abbreviation PageReserved :: "Page \<Rightarrow> bool" where "PageReserved \<equiv> test_flag PG_reserved"
abbreviation PageProperty :: "Page \<Rightarrow> bool" where "PageProperty \<equiv> test_flag PG_property"

subsection \<open>The allocator's state\<close>

abbreviation MAX_ORDER :: nat where "MAX_ORDER \<equiv> 10"
abbreviation MAX_ZONE_NUM :: nat where "MAX_ZONE_NUM \<equiv> 10"

record buddy =
  pages :: "nat \<Rightarrow> Page"
  free_list :: "nat \<Rightarrow> nat list"
  nr_free :: "nat \<Rightarrow> u32"
  zones :: "nat \<Rightarrow> nat"
  zone_cnt :: nat
  npage :: nat

definition upd_page :: "nat \<Rightarrow> (Page \<Rightarrow> Page) \<Rightarrow> buddy \<Rightarrow> buddy" where
  "upd_page p f s = s\<lparr>pages := (pages s)(p := f (pages s p))\<rparr>"

text \<open>\<^verbatim>\<open>for (i = 0; i <= MAX_ORDER; i ++) { list_init(&free_list(i)); nr_free(i) = 0; }\<close>\<close>

definition buddy_init :: "buddy \<Rightarrow> buddy" where
  "buddy_init s = fold (\<lambda>i s. s\<lparr>free_list := (free_list s)(i := []), nr_free := (nr_free s)(i := 0)\<rparr>)
     [0..<Suc MAX_ORDER] s"

text \<open>The statements that put a block into a free area and take the block out of it; the code
  repeats them in \<open>buddy_init_memmap\<close>, \<open>buddy_alloc_pages_sub\<close> and \<open>buddy_free_pages_sub\<close>.\<close>

definition put_block :: "nat \<Rightarrow> nat \<Rightarrow> buddy \<Rightarrow> buddy" where
  "put_block p order s =
     (let s1 = upd_page p (\<lambda>pg. set_flag PG_property (pg\<lparr>property := order\<rparr>)) s
      in s1\<lparr>free_list := (free_list s1)(order := p # free_list s1 order),
            nr_free := (nr_free s1)(order := nr_free s1 order + 1)\<rparr>)"

definition drop_block :: "nat \<Rightarrow> nat \<Rightarrow> buddy \<Rightarrow> buddy" where
  "drop_block p order s =
     s\<lparr>nr_free := (nr_free s)(order := nr_free s order - 1),
       free_list := (free_list s)(order := remove1 p (free_list s order))\<rparr>"

subsection \<open>Setting up a zone\<close>

text \<open>The first loop of \<open>buddy_init_memmap\<close>, on \<open>n\<close> descriptors from \<open>p\<close>.\<close>

fun memmap_reset :: "nat \<Rightarrow> nat \<Rightarrow> nat \<Rightarrow> buddy \<Rightarrow> buddy option" where
  "memmap_reset zone p 0 s = Some s"
| "memmap_reset zone p (Suc n) s = do {
     kassert (PageReserved (pages s p));
     memmap_reset zone (Suc p) n
       (upd_page p (\<lambda>pg. pg\<lparr>flags := 0, property := 0, zone_num := zone, ref := 0\<rparr>) s) }"

text \<open>The second: blocks of the largest order that fits.  With \<open>order = 0\<close> the inner loop runs
  until \<open>n = 0\<close>, so the order never underflows.\<close>

function memmap_blocks :: "nat \<Rightarrow> nat \<Rightarrow> nat \<Rightarrow> buddy \<Rightarrow> buddy" where
  "memmap_blocks order p n s =
     (if n = 0 then s
      else if n \<ge> 2 ^ order then memmap_blocks order (p + 2 ^ order) (n - 2 ^ order) (put_block p order s)
      else memmap_blocks (order - 1) p n s)"
  by pat_completeness auto
termination
proof (relation "measure (\<lambda>(order, p, n, s). order + n)", goal_cases)
  case (3 order p n s)
  then have "order \<noteq> 0" by (intro notI) simp
  then show ?case by simp
qed auto

declare memmap_blocks.simps [simp del]

definition buddy_init_memmap :: "nat \<Rightarrow> nat \<Rightarrow> buddy \<Rightarrow> buddy option" where
  "buddy_init_memmap base n s = do {
     kassert (n > 0 \<and> zone_cnt s < MAX_ZONE_NUM);
     s1 \<leftarrow> memmap_reset (zone_cnt s) base n s;
     let s2 = s1\<lparr>zones := (zones s1)(zone_cnt s1 := base), zone_cnt := zone_cnt s1 + 1\<rparr> in
     Some (memmap_blocks MAX_ORDER base n s2) }"

subsection \<open>Allocation\<close>

function getorder_from :: "nat \<Rightarrow> nat \<Rightarrow> nat option" where
  "getorder_from order n =
     (if order \<le> MAX_ORDER then (if n \<le> 2 ^ order then Some order else getorder_from (Suc order) n)
      else None)"
  by pat_completeness auto
termination
  by (relation "measure (\<lambda>(order, n). Suc MAX_ORDER - order)") auto

declare getorder_from.simps [simp del]

definition getorder :: "nat \<Rightarrow> nat option" where
  "getorder n = getorder_from 0 n"

text \<open>\<^verbatim>\<open>while (cur_order > order)\<close>: halve the block, returning the upper half.\<close>

fun split_block :: "nat \<Rightarrow> nat \<Rightarrow> nat \<Rightarrow> buddy \<Rightarrow> buddy" where
  "split_block 0 order page s = s"
| "split_block (Suc cur) order page s =
     (if Suc cur > order then split_block cur order page (put_block (page + 2 ^ cur) cur s) else s)"

function alloc_search :: "nat \<Rightarrow> nat \<Rightarrow> buddy \<Rightarrow> nat option \<times> buddy" where
  "alloc_search cur order s =
     (if cur \<le> MAX_ORDER then
        (case free_list s cur of
           [] \<Rightarrow> alloc_search (Suc cur) order s
         | page # _ \<Rightarrow>
             (Some page,
              upd_page page (clear_flag PG_property) (split_block cur order page (drop_block page cur s))))
      else (None, s))"
  by pat_completeness auto
termination
  by (relation "measure (\<lambda>(cur, order, s). Suc MAX_ORDER - cur)") auto

declare alloc_search.simps [simp del]

definition buddy_alloc_pages_sub :: "nat \<Rightarrow> buddy \<Rightarrow> (nat option \<times> buddy) option" where
  "buddy_alloc_pages_sub order s = do {
     kassert (order \<le> MAX_ORDER);
     Some (alloc_search order order s) }"

subsection \<open>Release\<close>

definition page_is_buddy :: "nat \<Rightarrow> nat \<Rightarrow> nat \<Rightarrow> buddy \<Rightarrow> bool" where
  "page_is_buddy page order zone s \<longleftrightarrow>
     (if page < npage s then
        (if zone_num (pages s page) = zone
         then \<not> PageReserved (pages s page) \<and> PageProperty (pages s page) \<and> property (pages s page) = order
         else False)
      else False)"

definition page2idx :: "nat \<Rightarrow> buddy \<Rightarrow> nat" where
  "page2idx page s = page - zones s (zone_num (pages s page))"

definition idx2page :: "nat \<Rightarrow> nat \<Rightarrow> buddy \<Rightarrow> nat" where
  "idx2page zone idx s = zones s zone + idx"

fun free_reset :: "nat \<Rightarrow> nat \<Rightarrow> buddy \<Rightarrow> buddy option" where
  "free_reset p 0 s = Some s"
| "free_reset p (Suc n) s = do {
     kassert (\<not> PageReserved (pages s p) \<and> \<not> PageProperty (pages s p));
     free_reset (Suc p) n (upd_page p (\<lambda>pg. pg\<lparr>flags := 0, ref := 0\<rparr>) s) }"

text \<open>\<^verbatim>\<open>while (order < MAX_ORDER)\<close>: merge with the buddy as long as it is free; the results are the
  block's index and order.\<close>

function merge_block :: "nat \<Rightarrow> nat \<Rightarrow> nat \<Rightarrow> buddy \<Rightarrow> nat \<times> nat \<times> buddy" where
  "merge_block zone page_idx order s =
     (if order < MAX_ORDER then
        (let buddy_idx = page_idx XOR push_bit order 1; bud = idx2page zone buddy_idx s
         in if \<not> page_is_buddy bud order zone s then (page_idx, order, s)
            else merge_block zone (page_idx AND buddy_idx) (Suc order)
                   (upd_page bud (clear_flag PG_property) (drop_block bud order s)))
      else (page_idx, order, s))"
  by pat_completeness auto
termination
  by (relation "measure (\<lambda>(z, i, order, s). MAX_ORDER - order)") auto

declare merge_block.simps [simp del]

definition buddy_free_pages_sub :: "nat \<Rightarrow> nat \<Rightarrow> buddy \<Rightarrow> buddy option" where
  "buddy_free_pages_sub base order s = do {
     let page_idx = page2idx base s;
     kassert (page_idx AND (push_bit order 1 - 1) = 0);
     s1 \<leftarrow> free_reset base (2 ^ order) s;
     let zone = zone_num (pages s1 base);
     let (page_idx', order', s2) = merge_block zone page_idx order s1;
     Some (put_block (idx2page zone page_idx' s2) order' s2) }"

text \<open>The two loops of \<open>buddy_free_pages\<close>.  The first peels off the low set bits of the index, so that
  the rest is aligned; its assertion bounds the order.\<close>

function free_low :: "nat \<Rightarrow> nat \<Rightarrow> nat \<Rightarrow> buddy \<Rightarrow> (nat \<times> nat \<times> nat \<times> buddy) option" where
  "free_low order base n s =
     (if n \<ge> 2 ^ order then do {
        kassert (order \<le> MAX_ORDER);
        if page2idx base s AND 2 ^ order \<noteq> 0
        then do {
          s' \<leftarrow> buddy_free_pages_sub base order s;
          free_low (Suc order) (base + 2 ^ order) (n - 2 ^ order) s' }
        else free_low (Suc order) base n s }
      else Some (order, base, n, s))"
  by pat_completeness auto
termination
  by (relation "measure (\<lambda>(order, base, n, s). Suc MAX_ORDER - order)") auto

function free_high :: "nat \<Rightarrow> nat \<Rightarrow> nat \<Rightarrow> buddy \<Rightarrow> buddy option" where
  "free_high order base n s =
     (if n = 0 then Some s
      else if n < 2 ^ order then free_high (order - 1) base n s
      else do {
        s' \<leftarrow> buddy_free_pages_sub base order s;
        free_high order (base + 2 ^ order) (n - 2 ^ order) s' })"
  by pat_completeness auto
termination
proof (relation "measure (\<lambda>(order, base, n, s). order + n)", goal_cases)
  case (2 order base n s)
  then have "order \<noteq> 0" by (intro notI) simp
  then show ?case by simp
qed auto

declare free_low.simps [simp del] free_high.simps [simp del]

definition buddy_free_pages :: "nat \<Rightarrow> nat \<Rightarrow> buddy \<Rightarrow> buddy option" where
  "buddy_free_pages base n s = do {
     kassert (n > 0);
     if n = 1 then buddy_free_pages_sub base 0 s
     else do {
       (order, base', n', s') \<leftarrow> free_low 0 base n s;
       free_high order base' n' s' } }"

text \<open>\<open>buddy_alloc_pages\<close> calls \<^verbatim>\<open>free_pages\<close>, which is \<open>buddy_free_pages\<close> behind \<^verbatim>\<open>pmm_manager\<close>, on the
  pages of the block it does not need.\<close>

definition buddy_alloc_pages :: "nat \<Rightarrow> buddy \<Rightarrow> (nat option \<times> buddy) option" where
  "buddy_alloc_pages n s = do {
     kassert (n > 0);
     order \<leftarrow> getorder n;
     (page, s1) \<leftarrow> buddy_alloc_pages_sub order s;
     case page of
       None \<Rightarrow> Some (None, s1)
     | Some p \<Rightarrow>
         if n \<noteq> 2 ^ order then do {
           s2 \<leftarrow> buddy_free_pages (p + n) (2 ^ order - n) s1;
           Some (Some p, s2) }
         else Some (Some p, s1) }"

definition buddy_nr_free_pages :: "buddy \<Rightarrow> u32" where
  "buddy_nr_free_pages s = fold (\<lambda>order ret. ret + nr_free s order * push_bit order 1) [0..<Suc MAX_ORDER] 0"

subsection \<open>Invariant\<close>

abbreviation span :: "nat \<Rightarrow> nat \<Rightarrow> nat set" where
  "span p order \<equiv> {p..<p + 2 ^ order}"

definition free_pages_of :: "buddy \<Rightarrow> nat set" where
  "free_pages_of s = (\<Union>order. \<Union>p \<in> set (free_list s order). span p order)"

text \<open>Pages \<open>base\<close> to \<open>base + n\<close> are managed and lie in zone \<open>z\<close>.\<close>

definition region :: "buddy \<Rightarrow> nat \<Rightarrow> nat \<Rightarrow> nat \<Rightarrow> bool" where
  "region s z base n \<longleftrightarrow> zones s z \<le> base \<and>
     (\<forall>q \<in> {base..<base + n}. q < npage s \<and> \<not> PageReserved (pages s q) \<and> zone_num (pages s q) = z)"

definition valid_blk :: "buddy \<Rightarrow> nat \<Rightarrow> nat \<Rightarrow> nat \<Rightarrow> bool" where
  "valid_blk s z p order \<longleftrightarrow> order \<le> MAX_ORDER \<and> region s z p (2 ^ order) \<and> 2 ^ order dvd p - zones s z"

lemma valid_blkD:
  assumes "valid_blk s z p order"
  shows "order \<le> MAX_ORDER" and "zones s z \<le> p" and "2 ^ order dvd p - zones s z"
    and "\<And>q. q \<in> span p order \<Longrightarrow> q < npage s \<and> \<not> PageReserved (pages s q) \<and> zone_num (pages s q) = z"
  using assms by (auto simp: valid_blk_def region_def)

text \<open>\<open>X\<close> holds pages whose \<^verbatim>\<open>PG_property\<close> flag is in transit: an allocated block keeps the flag until
  the end of \<open>buddy_alloc_pages_sub\<close>.\<close>

definition buddy_wf :: "nat set \<Rightarrow> buddy \<Rightarrow> bool" where
  "buddy_wf X s \<longleftrightarrow>
     (\<forall>order. \<forall>p \<in> set (free_list s order). valid_blk s (zone_num (pages s p)) p order
        \<and> property (pages s p) = order \<and> PageProperty (pages s p))
   \<and> (\<forall>p < npage s. \<not> PageReserved (pages s p) \<and> PageProperty (pages s p) \<and> p \<notin> X
        \<longrightarrow> p \<in> set (free_list s (property (pages s p))))
   \<and> (\<forall>order. distinct (free_list s order))
   \<and> (\<forall>order \<le> MAX_ORDER. nr_free s order = of_nat (length (free_list s order)))
   \<and> (\<forall>o1 o2. \<forall>p \<in> set (free_list s o1). \<forall>q \<in> set (free_list s o2).
        span p o1 \<inter> span q o2 \<noteq> {} \<longrightarrow> p = q \<and> o1 = o2)
   \<and> (\<forall>p < npage s. \<not> PageReserved (pages s p) \<longrightarrow>
        zone_num (pages s p) < zone_cnt s \<and> zones s (zone_num (pages s p)) \<le> p)"

abbreviation buddy_inv :: "buddy \<Rightarrow> bool" where
  "buddy_inv \<equiv> buddy_wf {}"

text \<open>What allocation and release never change: which pages are managed, and by which zone.\<close>

definition same_layout :: "buddy \<Rightarrow> buddy \<Rightarrow> bool" where
  "same_layout s t \<longleftrightarrow> npage t = npage s \<and> zones t = zones s \<and> zone_cnt t = zone_cnt s
     \<and> (\<forall>q. zone_num (pages t q) = zone_num (pages s q) \<and> PageReserved (pages t q) = PageReserved (pages s q))"

lemma same_layout_refl [simp]: "same_layout s s"
  by (simp add: same_layout_def)

lemma same_layout_trans: "same_layout s t \<Longrightarrow> same_layout t u \<Longrightarrow> same_layout s u"
  by (simp add: same_layout_def)

lemma region_layout: "same_layout s t \<Longrightarrow> region t z p n \<longleftrightarrow> region s z p n"
  by (auto simp: same_layout_def region_def)

lemma valid_blk_layout: "same_layout s t \<Longrightarrow> valid_blk t z p order \<longleftrightarrow> valid_blk s z p order"
  by (simp add: valid_blk_def region_layout) (simp add: same_layout_def)

lemma in_free_pages: "q \<in> free_pages_of s \<longleftrightarrow> (\<exists>order. \<exists>p \<in> set (free_list s order). q \<in> span p order)"
  by (auto simp: free_pages_of_def)

lemma flag_simps [simp]:
  "test_flag n (set_flag m p) \<longleftrightarrow> (n = m \<and> m < 32) \<or> test_flag n p"
  "test_flag n (clear_flag m p) \<longleftrightarrow> n \<noteq> m \<and> test_flag n p"
  "test_flag n (p\<lparr>property := k\<rparr>) = test_flag n p"
  "property (set_flag m p) = property p" "property (clear_flag m p) = property p"
  "zone_num (set_flag m p) = zone_num p" "zone_num (clear_flag m p) = zone_num p"
  by (auto simp: test_flag_def set_flag_def clear_flag_def bit_set_bit_iff bit_unset_bit_iff)

subsection \<open>Blocks leaving and entering the free areas\<close>

lemma drop_block_layout [simp]: "same_layout s (drop_block p order s)"
  by (simp add: same_layout_def drop_block_def)

lemma put_block_layout [simp]: "same_layout s (put_block p order s)"
  by (simp add: same_layout_def put_block_def upd_page_def Let_def)

lemma clear_layout [simp]: "same_layout s (upd_page p (clear_flag PG_property) s)"
  by (simp add: same_layout_def upd_page_def)

lemma drop_block_fields [simp]:
  "pages (drop_block p order s) = pages s" "npage (drop_block p order s) = npage s"
  "zones (drop_block p order s) = zones s" "zone_cnt (drop_block p order s) = zone_cnt s"
  "free_list (drop_block p order s) = (free_list s)(order := remove1 p (free_list s order))"
  "nr_free (drop_block p order s) = (nr_free s)(order := nr_free s order - 1)"
  by (simp_all add: drop_block_def)

lemma put_block_fields [simp]:
  "pages (put_block p order s) = (pages s)(p := set_flag PG_property ((pages s p)\<lparr>property := order\<rparr>))"
  "npage (put_block p order s) = npage s" "zones (put_block p order s) = zones s"
  "zone_cnt (put_block p order s) = zone_cnt s"
  "free_list (put_block p order s) = (free_list s)(order := p # free_list s order)"
  "nr_free (put_block p order s) = (nr_free s)(order := nr_free s order + 1)"
  by (simp_all add: put_block_def upd_page_def Let_def)

lemma upd_page_fields [simp]:
  "pages (upd_page p f s) = (pages s)(p := f (pages s p))" "npage (upd_page p f s) = npage s"
  "zones (upd_page p f s) = zones s" "zone_cnt (upd_page p f s) = zone_cnt s"
  "free_list (upd_page p f s) = free_list s" "nr_free (upd_page p f s) = nr_free s"
  by (simp_all add: upd_page_def)

lemma head_in_span [simp]: "p \<in> span p order"
  by simp

lemma span_mono:
  assumes "k \<le> order"
  shows "span p k \<subseteq> span p order"
proof
  fix x assume "x \<in> span p k"
  moreover have "(2::nat) ^ k \<le> 2 ^ order" using assms by (rule power_increasing) simp
  ultimately show "x \<in> span p order" by (auto simp del: power_increasing_iff)
qed

lemma span_Suc: "span p (Suc k) = span p k \<union> span (p + 2 ^ k) k"
  by auto

lemma span_halves_disjoint: "span p k \<inter> span (p + 2 ^ k) k = {}"
  by auto

lemma wf_heads:
  assumes "buddy_wf X s" and "p \<in> set (free_list s order)"
  shows "valid_blk s (zone_num (pages s p)) p order" and "property (pages s p) = order"
    and "PageProperty (pages s p)" and "order \<le> MAX_ORDER" and "p \<in> free_pages_of s"
proof -
  show v: "valid_blk s (zone_num (pages s p)) p order" and "property (pages s p) = order"
    and "PageProperty (pages s p)"
    using assms by (auto simp: buddy_wf_def)
  then show "order \<le> MAX_ORDER" by (simp add: valid_blk_def)
  show "p \<in> free_pages_of s" using assms(2) head_in_span unfolding in_free_pages by blast
qed

lemma wf_disjoint:
  assumes "buddy_wf X s" and "p \<in> set (free_list s o1)" and "q \<in> set (free_list s o2)"
    and "r \<in> span p o1" and "r \<in> span q o2"
  shows "p = q \<and> o1 = o2"
proof -
  have "span p o1 \<inter> span q o2 \<noteq> {}" using assms(4,5) by blast
  moreover have "\<forall>o1 o2. \<forall>p \<in> set (free_list s o1). \<forall>q \<in> set (free_list s o2).
        span p o1 \<inter> span q o2 \<noteq> {} \<longrightarrow> p = q \<and> o1 = o2"
    using assms(1) unfolding buddy_wf_def by blast
  ultimately show ?thesis using assms(2,3) by blast
qed

lemma drop_block_wf:
  assumes "buddy_wf X s" and "p \<in> set (free_list s order)"
  shows "buddy_wf (insert p X) (drop_block p order s)"
    and "free_pages_of (drop_block p order s) = free_pages_of s - span p order"
proof -
  let ?t = "drop_block p order s"
  have d: "distinct (free_list s k)" for k using assms(1) by (simp add: buddy_wf_def)
  have sub: "set (free_list ?t k) = set (free_list s k) - (if k = order then {p} else {})" for k
    using d by simp
  have v: "valid_blk ?t z q k = valid_blk s z q k" for z q k
    by (rule valid_blk_layout) simp
  have len: "nr_free ?t k = of_nat (length (free_list ?t k))" if "k \<le> MAX_ORDER" for k
  proof -
    have n: "nr_free s k = of_nat (length (free_list s k))" using that assms(1) by (simp add: buddy_wf_def)
    have "0 < length (free_list s order)" using assms(2) by (auto intro: length_pos_if_in_set)
    note of_nat_pred [OF this]
    then show ?thesis using n assms(2) by (auto simp: length_remove1)
  qed
  show "buddy_wf (insert p X) ?t"
    unfolding buddy_wf_def
  proof (intro conjI)
    show "\<forall>k. \<forall>q \<in> set (free_list ?t k). valid_blk ?t (zone_num (pages ?t q)) q k
        \<and> property (pages ?t q) = k \<and> PageProperty (pages ?t q)"
      using wf_heads [OF assms(1)] unfolding v sub by auto
    show "\<forall>q < npage ?t. \<not> PageReserved (pages ?t q) \<and> PageProperty (pages ?t q) \<and> q \<notin> insert p X
        \<longrightarrow> q \<in> set (free_list ?t (property (pages ?t q)))"
      using assms(1) unfolding sub by (auto simp: buddy_wf_def)
    show "\<forall>k. distinct (free_list ?t k)" using d by simp
    show "\<forall>k \<le> MAX_ORDER. nr_free ?t k = of_nat (length (free_list ?t k))" using len by blast
    show "\<forall>o1 o2. \<forall>a \<in> set (free_list ?t o1). \<forall>b \<in> set (free_list ?t o2).
        span a o1 \<inter> span b o2 \<noteq> {} \<longrightarrow> a = b \<and> o1 = o2"
      using assms(1) unfolding sub buddy_wf_def by blast
    show "\<forall>q < npage ?t. \<not> PageReserved (pages ?t q) \<longrightarrow>
        zone_num (pages ?t q) < zone_cnt ?t \<and> zones ?t (zone_num (pages ?t q)) \<le> q"
      using assms(1) by (simp add: buddy_wf_def)
  qed
  show "free_pages_of ?t = free_pages_of s - span p order" (is "?l = ?r")
  proof
    show "?l \<subseteq> ?r"
    proof
      fix q assume "q \<in> ?l"
      then obtain k r where r: "r \<in> set (free_list s k)" "q \<in> span r k" "\<not> (k = order \<and> r = p)"
        unfolding in_free_pages sub by (auto split: if_splits)
      then have "q \<notin> span p order" using wf_disjoint [OF assms(1) r(1) assms(2) r(2)] by blast
      then show "q \<in> ?r" using r unfolding Diff_iff in_free_pages by blast
    qed
    show "?r \<subseteq> ?l"
    proof
      fix q assume q: "q \<in> ?r"
      then obtain k r where r: "r \<in> set (free_list s k)" "q \<in> span r k" unfolding Diff_iff in_free_pages by blast
      then have "r \<in> set (free_list ?t k)" using q unfolding sub by (cases "k = order \<and> r = p") auto
      then show "q \<in> ?l" using r unfolding in_free_pages by blast
    qed
  qed
qed

lemma clear_property_wf:
  assumes "buddy_wf (insert p X) s" and "p \<notin> free_pages_of s"
  shows "buddy_wf X (upd_page p (clear_flag PG_property) s)"
    and "free_pages_of (upd_page p (clear_flag PG_property) s) = free_pages_of s"
proof -
  let ?t = "upd_page p (clear_flag PG_property) s"
  have nh: "q \<noteq> p" if "q \<in> set (free_list s k)" for q k
    using wf_heads(5) [OF assms(1) that] assms(2) by auto
  have v: "valid_blk ?t z q k = valid_blk s z q k" for z q k
    by (rule valid_blk_layout) simp
  show "buddy_wf X ?t"
    unfolding buddy_wf_def
  proof (intro conjI)
    show "\<forall>k. \<forall>q \<in> set (free_list ?t k). valid_blk ?t (zone_num (pages ?t q)) q k
        \<and> property (pages ?t q) = k \<and> PageProperty (pages ?t q)"
      using wf_heads [OF assms(1)] nh unfolding v by auto
    show "\<forall>o1 o2. \<forall>a \<in> set (free_list ?t o1). \<forall>b \<in> set (free_list ?t o2).
        span a o1 \<inter> span b o2 \<noteq> {} \<longrightarrow> a = b \<and> o1 = o2"
      using assms(1) unfolding buddy_wf_def upd_page_fields by blast
  qed (use assms(1) in \<open>auto simp: buddy_wf_def\<close>)
  show "free_pages_of ?t = free_pages_of s" by (simp add: free_pages_of_def)
qed

lemma put_block_wf:
  assumes "buddy_wf X s" and "valid_blk s z p order" and "span p order \<inter> free_pages_of s = {}"
  shows "buddy_wf X (put_block p order s)"
    and "free_pages_of (put_block p order s) = free_pages_of s \<union> span p order"
proof -
  let ?t = "put_block p order s"
  have p: "p \<notin> free_pages_of s" using assms(3) head_in_span by blast
  have nh: "q \<noteq> p" if "q \<in> set (free_list s k)" for q k
    using wf_heads(5) [OF assms(1) that] p by auto
  have z: "zone_num (pages s p) = z" using assms(2) by (simp add: valid_blk_def region_def)
  have sub: "set (free_list ?t k) = (if k = order then {p} else {}) \<union> set (free_list s k)" for k by simp
  have v: "valid_blk ?t z q k = valid_blk s z q k" for z q k
    by (rule valid_blk_layout) simp
  have apart: "span p order \<inter> span q k = {}" if "q \<in> set (free_list s k)" for q k
    using that assms(3) unfolding free_pages_of_def by blast
  show "buddy_wf X ?t"
    unfolding buddy_wf_def
  proof (intro conjI)
    show "\<forall>k. \<forall>q \<in> set (free_list ?t k). valid_blk ?t (zone_num (pages ?t q)) q k
        \<and> property (pages ?t q) = k \<and> PageProperty (pages ?t q)"
      using wf_heads [OF assms(1)] nh assms(2) z unfolding v by auto
    show "\<forall>q < npage ?t. \<not> PageReserved (pages ?t q) \<and> PageProperty (pages ?t q) \<and> q \<notin> X
        \<longrightarrow> q \<in> set (free_list ?t (property (pages ?t q)))"
      using assms(1) by (auto simp: buddy_wf_def)
    show "\<forall>k. distinct (free_list ?t k)" using nh assms(1) by (auto simp: buddy_wf_def)
    show "\<forall>k \<le> MAX_ORDER. nr_free ?t k = of_nat (length (free_list ?t k))"
      using assms(1) by (auto simp: buddy_wf_def)
    show "\<forall>o1 o2. \<forall>a \<in> set (free_list ?t o1). \<forall>b \<in> set (free_list ?t o2).
        span a o1 \<inter> span b o2 \<noteq> {} \<longrightarrow> a = b \<and> o1 = o2"
    proof (intro allI ballI impI)
      fix o1 o2 a b
      assume ab: "a \<in> set (free_list ?t o1)" "b \<in> set (free_list ?t o2)" "span a o1 \<inter> span b o2 \<noteq> {}"
      then obtain r where "r \<in> span a o1" "r \<in> span b o2" by blast
      then show "a = b \<and> o1 = o2"
        using ab apart [of a o1] apart [of b o2] wf_disjoint [OF assms(1), of a o1 b o2 r]
        unfolding sub by (auto simp del: atLeastLessThan_iff split: if_splits)
    qed
    show "\<forall>q < npage ?t. \<not> PageReserved (pages ?t q) \<longrightarrow>
        zone_num (pages ?t q) < zone_cnt ?t \<and> zones ?t (zone_num (pages ?t q)) \<le> q"
      using assms(1) by (auto simp: buddy_wf_def)
  qed
  show "free_pages_of ?t = free_pages_of s \<union> span p order"
    unfolding free_pages_of_def sub by (auto split: if_splits)
qed

text \<open>A block splits into two valid halves.\<close>

lemma valid_blk_halves:
  assumes "valid_blk s z p (Suc c)"
  shows "valid_blk s z p c" and "valid_blk s z (p + 2 ^ c) c"
proof -
  have le: "zones s z \<le> p" and dvd: "2 ^ Suc c dvd p - zones s z"
    using assms by (auto simp: valid_blk_def region_def)
  then have d: "2 ^ c dvd p - zones s z" by (metis dvd_mult_right power_Suc)
  moreover have "2 ^ c dvd p + 2 ^ c - zones s z"
    using d le by (metis Nat.add_diff_assoc2 dvd_add dvd_refl)
  ultimately show "valid_blk s z p c" and "valid_blk s z (p + 2 ^ c) c"
    using assms by (auto simp: valid_blk_def region_def)
qed

lemma split_block_wf:
  assumes "buddy_wf X s" and "valid_blk s z p cur" and "span p cur \<inter> free_pages_of s = {}"
    and "order \<le> cur"
  shows "buddy_wf X (split_block cur order p s) \<and> same_layout s (split_block cur order p s)
    \<and> free_pages_of (split_block cur order p s) = free_pages_of s \<union> (span p cur - span p order)"
  using assms
proof (induction cur arbitrary: s)
  case 0
  then show ?case by simp
next
  case (Suc cur)
  show ?case
  proof (cases "order = Suc cur")
    case True
    then show ?thesis using Suc.prems by simp
  next
    case False
    let ?t = "put_block (p + 2 ^ cur) cur s"
    note h = valid_blk_halves [OF Suc.prems(2)]
    note sp = span_Suc [of p cur]
    have t: "buddy_wf X ?t" "free_pages_of ?t = free_pages_of s \<union> span (p + 2 ^ cur) cur"
      using put_block_wf [OF Suc.prems(1) h(2)] Suc.prems(3) sp by auto
    have "valid_blk ?t z p cur" using h(1) by (subst valid_blk_layout [of s]) auto
    moreover have "span p cur \<inter> free_pages_of ?t = {}" using t(2) Suc.prems(3) sp by auto
    ultimately have IH: "buddy_wf X (split_block cur order p ?t) \<and> same_layout ?t (split_block cur order p ?t)
      \<and> free_pages_of (split_block cur order p ?t) = free_pages_of ?t \<union> (span p cur - span p order)"
      using Suc.IH [OF t(1)] Suc.prems(4) False by simp
    have e: "split_block (Suc cur) order p s = split_block cur order p ?t"
      using False Suc.prems(4) by simp
    have "span p order \<subseteq> span p cur" using False Suc.prems(4) by (intro span_mono) simp
    then have "span p (Suc cur) - span p order = span (p + 2 ^ cur) cur \<union> (span p cur - span p order)"
      unfolding sp using span_halves_disjoint [of p cur] by blast
    then show ?thesis
      using IH t(2) same_layout_trans [OF put_block_layout [of s "p + 2 ^ cur" cur]] unfolding e by auto
  qed
qed

subsection \<open>Allocation\<close>

lemma getorder_from_spec:
  "(case getorder_from order n of
      Some k \<Rightarrow> order \<le> k \<and> k \<le> MAX_ORDER \<and> n \<le> 2 ^ k \<and> (\<forall>j. order \<le> j \<and> j < k \<longrightarrow> 2 ^ j < n)
    | None \<Rightarrow> \<forall>j. order \<le> j \<and> j \<le> MAX_ORDER \<longrightarrow> 2 ^ j < n)"
proof (induction order n rule: getorder_from.induct)
  case (1 order n)
  show ?case
  proof (cases "order \<le> MAX_ORDER \<and> \<not> n \<le> 2 ^ order")
    case True
    then have "getorder_from order n = getorder_from (Suc order) n"
      by (subst getorder_from.simps) simp
    moreover have "2 ^ order < n" using True by simp
    ultimately show ?thesis using "1.IH" True
      by (auto split: option.splits simp: Suc_le_eq) (metis le_neq_implies_less not_le)+
  next
    case False
    then show ?thesis by (subst getorder_from.simps) auto
  qed
qed

lemma getorder_spec:
  assumes "0 < n" and "n \<le> 2 ^ MAX_ORDER"
  obtains order where "getorder n = Some order" "order \<le> MAX_ORDER" "n \<le> 2 ^ order"
    "\<And>j. j < order \<Longrightarrow> 2 ^ j < n"
  using getorder_from_spec [of 0 n] assms that by (fastforce simp: getorder_def split: option.splits)

text \<open>The search takes the first block of the lowest non-empty order.\<close>

lemma valid_blk_lower:
  assumes "valid_blk s z p cur" and "order \<le> cur"
  shows "valid_blk s z p order"
  using assms
proof (induction cur)
  case (Suc cur)
  then show ?case using valid_blk_halves(1) [of s z p cur] by (cases "order = Suc cur") auto
qed simp

lemma alloc_take_wf:
  assumes inv: "buddy_inv s" and p: "p \<in> set (free_list s cur)" and le: "order \<le> cur"
  defines "t \<equiv> upd_page p (clear_flag PG_property) (split_block cur order p (drop_block p cur s))"
  shows "buddy_inv t \<and> same_layout s t \<and> valid_blk s (zone_num (pages s p)) p order
    \<and> span p order \<subseteq> free_pages_of s \<and> free_pages_of t = free_pages_of s - span p order"
proof -
  let ?d = "drop_block p cur s" let ?u = "split_block cur order p ?d"
  note d = drop_block_wf [OF inv p]
  have v: "valid_blk s (zone_num (pages s p)) p cur" using wf_heads(1) [OF inv p] .
  then have vd: "valid_blk ?d (zone_num (pages s p)) p cur" by (subst valid_blk_layout [of s]) auto
  have u: "buddy_wf {p} ?u" "same_layout ?d ?u"
    "free_pages_of ?u = free_pages_of ?d \<union> (span p cur - span p order)"
    using split_block_wf [OF d(1) vd _ le] d(2) by auto
  have sub: "span p order \<subseteq> span p cur" using le by (rule span_mono)
  have cur: "span p cur \<subseteq> free_pages_of s" using p unfolding free_pages_of_def by blast
  have fu: "free_pages_of ?u = free_pages_of s - span p order" using u(3) d(2) sub cur by blast
  then have "p \<notin> free_pages_of ?u" using head_in_span by blast
  then have "buddy_inv t" "free_pages_of t = free_pages_of ?u"
    unfolding t_def using clear_property_wf [of p "{}" ?u] u(1) by auto
  moreover have "same_layout s t"
    unfolding t_def by (meson clear_layout drop_block_layout same_layout_trans u(2))
  ultimately show ?thesis using fu sub cur valid_blk_lower [OF v le] by blast
qed

lemma alloc_search_wf:
  assumes "buddy_inv s" and "order \<le> cur" and "alloc_search cur order s = (Some p, t)"
  shows "buddy_inv t \<and> same_layout s t \<and> valid_blk s (zone_num (pages s p)) p order
    \<and> span p order \<subseteq> free_pages_of s \<and> free_pages_of t = free_pages_of s - span p order"
  using assms
proof (induction cur order s rule: alloc_search.induct)
  case (1 cur order s)
  show ?case
  proof (cases "free_list s cur")
    case Nil
    then show ?thesis
      using 1 by (subst (asm) (2) alloc_search.simps) (auto split: if_splits)
  next
    case (Cons q qs)
    then have "p = q" "t = upd_page q (clear_flag PG_property) (split_block cur order q (drop_block q cur s))"
      using "1.prems"(3) by (subst (asm) alloc_search.simps; auto split: if_splits)+
    then show ?thesis using alloc_take_wf [OF "1.prems"(1) _ "1.prems"(2), of q] Cons by simp
  qed
qed

lemma alloc_search_None:
  "alloc_search cur order s = (None, t) \<Longrightarrow> t = s \<and> (\<forall>k. cur \<le> k \<and> k \<le> MAX_ORDER \<longrightarrow> free_list s k = [])"
proof (induction cur order s rule: alloc_search.induct)
  case (1 cur order s)
  show ?case
  proof (cases "cur \<le> MAX_ORDER \<and> free_list s cur = []")
    case True
    then have "alloc_search (Suc cur) order s = (None, t)"
      using "1.prems" by (subst (asm) alloc_search.simps) simp
    then have IH: "t = s" "\<And>k. Suc cur \<le> k \<Longrightarrow> k \<le> MAX_ORDER \<Longrightarrow> free_list s k = []"
      using "1.IH" True by auto
    have "free_list s k = []" if "cur \<le> k" "k \<le> MAX_ORDER" for k
      using IH(2) [of k] True that by (cases "k = cur") auto
    then show ?thesis using IH(1) by blast
  next
    case False
    then show ?thesis
      using "1.prems" by (subst (asm) alloc_search.simps) (auto split: if_splits list.splits)
  qed
qed

subsection \<open>Merging\<close>

lemma xor_bit_aligned:
  fixes i :: nat
  assumes "2 ^ k dvd i"
  shows "i XOR 2 ^ k = (if bit i k then i - 2 ^ k else i + 2 ^ k)"
    and "i AND (i XOR 2 ^ k) = (if bit i k then i - 2 ^ k else i)"
    and "bit i k \<Longrightarrow> 2 ^ k \<le> i"
    and "2 ^ Suc k dvd (if bit i k then i - 2 ^ k else i)"
proof -
  obtain m where m: "i = 2 ^ k * m" using assms by blast
  have b: "bit i k \<longleftrightarrow> odd m" by (simp add: m bit_iff_odd)
  have x: "i XOR 2 ^ k = flip_bit k i" by (simp add: flip_bit_eq_xor)
  have u: "unset_bit k i = (if bit i k then i - 2 ^ k else i)"
  proof (cases "bit i k")
    case True
    then obtain j where j: "m = Suc (2 * j)" using b by (auto elim: oddE)
    let ?j = "2 ^ k * (2 * j)"
    have nb: "\<not> bit ?j k" by (simp add: bit_iff_odd)
    have i: "i = set_bit k ?j" using nb by (simp add: set_bit_eq m j)
    have "unset_bit k i = ?j"
      using nb unfolding i by (intro bit_eqI) (auto simp: bit_set_bit_iff bit_unset_bit_iff)
    then show ?thesis using True by (simp add: m j)
  next
    case False
    then show ?thesis by (auto intro!: bit_eqI simp: bit_unset_bit_iff)
  qed
  show "bit i k \<Longrightarrow> 2 ^ k \<le> i" using b m by (cases m) auto
  show "i XOR 2 ^ k = (if bit i k then i - 2 ^ k else i + 2 ^ k)"
    unfolding x flip_bit_eq_if by (cases "bit i k") (simp_all add: set_bit_eq u)
  have "i AND (i XOR 2 ^ k) = unset_bit k i"
    by (rule bit_eqI) (auto simp: bit_and_iff bit_xor_iff bit_unset_bit_iff bit_exp_iff)
  then show "i AND (i XOR 2 ^ k) = (if bit i k then i - 2 ^ k else i)" unfolding u .
  show "2 ^ Suc k dvd (if bit i k then i - 2 ^ k else i)"
  proof (cases "bit i k")
    case True
    then obtain j where j: "m = Suc (2 * j)" using b by (auto elim: oddE)
    have "i - 2 ^ k = 2 ^ Suc k * j" by (simp add: m j)
    then show ?thesis using True by simp
  next
    case False
    then obtain j where "m = 2 * j" using b by auto
    then show ?thesis using False by (simp add: m)
  qed
qed

text \<open>The buddy of a block is the other half of the block of the next order.\<close>

lemma merge_valid:
  assumes v: "valid_blk s z (zones s z + i) k" and b: "valid_blk s z (zones s z + (i XOR 2 ^ k)) k"
    and k: "k < MAX_ORDER"
  shows "valid_blk s z (zones s z + (i AND (i XOR 2 ^ k))) (Suc k)"
    and "span (zones s z + (i AND (i XOR 2 ^ k))) (Suc k)
      = span (zones s z + i) k \<union> span (zones s z + (i XOR 2 ^ k)) k"
    and "span (zones s z + i) k \<inter> span (zones s z + (i XOR 2 ^ k)) k = {}"
proof -
  let ?z = "zones s z"
  have "2 ^ k dvd i" using v by (simp add: valid_blk_def)
  note x = xor_bit_aligned [OF this]
  show un: "span (?z + (i AND (i XOR 2 ^ k))) (Suc k) = span (?z + i) k \<union> span (?z + (i XOR 2 ^ k)) k"
    and "span (?z + i) k \<inter> span (?z + (i XOR 2 ^ k)) k = {}"
    using x(3) unfolding x(2) unfolding x(1) by auto
  have "region s z (?z + (i AND (i XOR 2 ^ k))) (2 ^ Suc k)"
    using v b unfolding region_def un valid_blk_def by auto
  then show "valid_blk s z (?z + (i AND (i XOR 2 ^ k))) (Suc k)"
    using k x(4) unfolding x(2) by (simp add: valid_blk_def)
qed

lemma page_is_buddy_head:
  assumes "buddy_inv s" and "page_is_buddy p k z s"
  shows "p \<in> set (free_list s k)" and "valid_blk s z p k"
proof -
  show h: "p \<in> set (free_list s k)"
    using assms by (auto simp: page_is_buddy_def buddy_wf_def split: if_splits)
  then show "valid_blk s z p k"
    using wf_heads(1) [OF assms(1)] assms(2) by (auto simp: page_is_buddy_def split: if_splits)
qed

lemma merge_block_wf:
  assumes "buddy_inv s" and "valid_blk s z (zones s z + i) k"
    and "span (zones s z + i) k \<inter> free_pages_of s = {}"
    and "merge_block z i k s = (i', k', t)"
  shows "buddy_inv t \<and> same_layout s t \<and> valid_blk t z (zones t z + i') k'
    \<and> span (zones t z + i') k' \<inter> free_pages_of t = {}
    \<and> free_pages_of t \<union> span (zones t z + i') k' = free_pages_of s \<union> span (zones s z + i) k"
  using assms
proof (induction z i k s rule: merge_block.induct)
  case (1 z i k s)
  let ?b = "zones s z + (i XOR 2 ^ k)"
  show ?case
  proof (cases "k < MAX_ORDER \<and> page_is_buddy ?b k z s")
    case False
    then have "i' = i \<and> k' = k \<and> t = s"
      using "1.prems"(4) by (subst (asm) merge_block.simps) (auto simp: Let_def idx2page_def split: if_splits)
    then show ?thesis using "1.prems" by auto
  next
    case True
    let ?d = "drop_block ?b k s" let ?u = "upd_page ?b (clear_flag PG_property) ?d"
    let ?i = "i AND (i XOR 2 ^ k)"
    have h: "?b \<in> set (free_list s k)" "valid_blk s z ?b k"
      using page_is_buddy_head [OF "1.prems"(1)] True by auto
    note m = merge_valid [OF "1.prems"(2) h(2) conjunct1 [OF True]]
    note d = drop_block_wf [OF "1.prems"(1) h(1)]
    have "?b \<notin> free_pages_of ?d" using d(2) head_in_span by blast
    note c = clear_property_wf [OF d(1) this]
    have lay: "same_layout s ?u" by (meson clear_layout drop_block_layout same_layout_trans)
    have zu: "zones ?u z = zones s z" by simp
    have bf: "span ?b k \<subseteq> free_pages_of s" using h(1) unfolding free_pages_of_def by blast
    have v: "valid_blk ?u z (zones ?u z + ?i) (Suc k)"
      using m(1) valid_blk_layout [OF lay] by simp
    have dis: "span (zones ?u z + ?i) (Suc k) \<inter> free_pages_of ?u = {}"
      unfolding zu m(2) c(2) d(2) using "1.prems"(3) m(3) by blast
    have eq: "free_pages_of ?u \<union> span (zones ?u z + ?i) (Suc k) = free_pages_of s \<union> span (zones s z + i) k"
      unfolding zu m(2) c(2) d(2) using bf by blast
    have rec: "merge_block z ?i (Suc k) ?u = (i', k', t)"
      using "1.prems"(4) True by (subst (asm) merge_block.simps) (simp add: Let_def idx2page_def)
    have "buddy_inv t \<and> same_layout ?u t \<and> valid_blk t z (zones t z + i') k'
      \<and> span (zones t z + i') k' \<inter> free_pages_of t = {}
      \<and> free_pages_of t \<union> span (zones t z + i') k' = free_pages_of ?u \<union> span (zones ?u z + ?i) (Suc k)"
      using "1.IH" [OF conjunct1 [OF True] refl refl, unfolded idx2page_def push_bit_of_1] c(1) v dis rec True
      by blast
    then show ?thesis unfolding eq using same_layout_trans [OF lay] by blast
  qed
qed

subsection \<open>Release\<close>

lemma not_free_not_property:
  assumes "buddy_inv s" and "region s z p n" and "q \<in> {p..<p + n}" and "q \<notin> free_pages_of s"
  shows "\<not> PageReserved (pages s q) \<and> \<not> PageProperty (pages s q)"
proof -
  have q: "q < npage s" "\<not> PageReserved (pages s q)" using assms(2,3) by (auto simp: region_def)
  show ?thesis
  proof (cases "PageProperty (pages s q)")
    case True
    then have "q \<in> set (free_list s (property (pages s q)))"
      using assms(1) q by (simp add: buddy_wf_def)
    then show ?thesis using wf_heads(5) [OF assms(1)] assms(4) by blast
  next
    case False
    then show ?thesis using q by simp
  qed
qed

lemma reset_page_wf:
  assumes "buddy_inv s" and "p \<notin> free_pages_of s" and "\<not> PageReserved (pages s p)"
  defines "t \<equiv> upd_page p (\<lambda>pg. pg\<lparr>flags := 0, ref := 0\<rparr>) s"
  shows "buddy_inv t" and "same_layout s t" and "free_pages_of t = free_pages_of s"
proof -
  have nh: "q \<noteq> p" if "q \<in> set (free_list s k)" for q k
    using wf_heads(5) [OF assms(1) that] assms(2) by auto
  show lay: "same_layout s t" using assms(3) by (auto simp: t_def same_layout_def test_flag_def)
  have v: "valid_blk t z q k = valid_blk s z q k" for z q k
    using lay by (rule valid_blk_layout)
  show "buddy_inv t"
    unfolding buddy_wf_def
  proof (intro conjI)
    show "\<forall>k. \<forall>q \<in> set (free_list t k). valid_blk t (zone_num (pages t q)) q k
        \<and> property (pages t q) = k \<and> PageProperty (pages t q)"
      using wf_heads [OF assms(1)] nh unfolding v by (auto simp: t_def)
    show "\<forall>o1 o2. \<forall>a \<in> set (free_list t o1). \<forall>b \<in> set (free_list t o2).
        span a o1 \<inter> span b o2 \<noteq> {} \<longrightarrow> a = b \<and> o1 = o2"
      using assms(1) unfolding buddy_wf_def t_def upd_page_fields by blast
  qed (use assms(1,3) in \<open>auto simp: buddy_wf_def t_def test_flag_def\<close>)
  show "free_pages_of t = free_pages_of s" by (simp add: free_pages_of_def t_def)
qed

lemma free_reset_wf:
  assumes "buddy_inv s" and "region s z p n" and "{p..<p + n} \<inter> free_pages_of s = {}"
  shows "\<exists>t. free_reset p n s = Some t \<and> buddy_inv t \<and> same_layout s t \<and> free_pages_of t = free_pages_of s"
  using assms
proof (induction n arbitrary: p s)
  case 0
  then show ?case by simp
next
  case (Suc n)
  let ?t = "upd_page p (\<lambda>pg. pg\<lparr>flags := 0, ref := 0\<rparr>) s"
  have "p \<in> {p..<p + Suc n}" by simp
  then have p: "p \<notin> free_pages_of s" using Suc.prems(3) by blast
  then have f: "\<not> PageReserved (pages s p) \<and> \<not> PageProperty (pages s p)"
    using not_free_not_property [OF Suc.prems(1,2), of p] by simp
  note t = reset_page_wf [OF Suc.prems(1) p conjunct1 [OF f]]
  have "region s z (Suc p) n" using Suc.prems(2) by (auto simp: region_def)
  then have "region ?t z (Suc p) n" using region_layout [OF t(2)] by simp
  moreover have "{Suc p..<Suc p + n} \<subseteq> {p..<p + Suc n}" by auto
  then have "{Suc p..<Suc p + n} \<inter> free_pages_of ?t = {}" using Suc.prems(3) t(3) by blast
  ultimately obtain u where "free_reset (Suc p) n ?t = Some u" "buddy_inv u" "same_layout ?t u"
    "free_pages_of u = free_pages_of ?t" using Suc.IH [OF t(1)] by blast
  then show ?case using f t same_layout_trans by fastforce
qed

lemma aligned_iff: "i AND (push_bit k 1 - 1) = 0 \<longleftrightarrow> 2 ^ k dvd i" for i :: nat
proof -
  have "i AND (push_bit k 1 - 1) = take_bit k i"
    by (simp add: take_bit_eq_mask mask_eq_exp_minus_1)
  then show ?thesis by (simp add: take_bit_eq_0_iff)
qed

lemma buddy_free_pages_sub_wf:
  assumes "buddy_inv s" and "valid_blk s z base order" and "span base order \<inter> free_pages_of s = {}"
  shows "\<exists>t. buddy_free_pages_sub base order s = Some t \<and> buddy_inv t \<and> same_layout s t
    \<and> free_pages_of t = free_pages_of s \<union> span base order"
proof -
  have reg: "region s z base (2 ^ order)" and le: "zones s z \<le> base"
    and zn: "zone_num (pages s base) = z"
    using assms(2) by (auto simp: valid_blk_def region_def)
  let ?i = "page2idx base s"
  have i: "zones s z + ?i = base" and dvd: "2 ^ order dvd ?i"
    using le assms(2) by (auto simp: page2idx_def zn valid_blk_def)
  obtain t where t: "free_reset base (2 ^ order) s = Some t" "buddy_inv t" "same_layout s t"
    "free_pages_of t = free_pages_of s" using free_reset_wf [OF assms(1) reg assms(3)] by blast
  have zt: "zone_num (pages t base) = z" "zones t = zones s"
    using t(3) zn by (auto simp: same_layout_def)
  obtain i' k' u where m: "merge_block z ?i order t = (i', k', u)" by (metis prod_cases3)
  have vt: "valid_blk t z (zones t z + ?i) order"
    using assms(2) valid_blk_layout [OF t(3)] by (simp add: i zt)
  have "span (zones t z + ?i) order \<inter> free_pages_of t = {}" using assms(3) by (simp add: i zt t(4))
  note mw = merge_block_wf [OF t(2) vt this m]
  let ?w = "put_block (zones u z + i') k' u"
  have w: "buddy_inv ?w" "free_pages_of ?w = free_pages_of u \<union> span (zones u z + i') k'"
    using put_block_wf [of "{}" u z "zones u z + i'" k'] mw by auto
  have "buddy_free_pages_sub base order s = Some ?w"
    using t(1) m dvd [folded aligned_iff] by (simp add: buddy_free_pages_sub_def zt idx2page_def)
  moreover have "same_layout s ?w"
    using t(3) mw put_block_layout same_layout_trans by blast
  moreover have "free_pages_of ?w = free_pages_of s \<union> span base order"
    using w(2) mw t(4) by (simp add: i zt)
  ultimately show ?thesis using w(1) by blast
qed

text \<open>The loops of \<open>buddy_free_pages\<close>.  The first keeps the index aligned to the order; the second
  starts with fewer pages than the next block holds.\<close>

lemma region_split:
  assumes "region s z p n" and "m \<le> n"
  shows "region s z p m" and "region s z (p + m) (n - m)"
  using assms by (auto simp: region_def)

lemma and_exp_iff: "i AND 2 ^ k = 0 \<longleftrightarrow> \<not> bit i k" for i :: nat
  by (simp add: and_exp_eq_0_iff_not_bit)

lemma next_aligned:
  fixes i :: nat
  assumes "2 ^ k dvd i"
  shows "bit i k \<Longrightarrow> 2 ^ Suc k dvd i + 2 ^ k" and "\<not> bit i k \<Longrightarrow> 2 ^ Suc k dvd i"
proof -
  note x = xor_bit_aligned(3,4) [OF assms]
  show "\<not> bit i k \<Longrightarrow> 2 ^ Suc k dvd i" using x(2) by simp
  assume b: "bit i k"
  then have "2 ^ Suc k dvd (i - 2 ^ k) + 2 ^ Suc k" using x(2) by (intro dvd_add) auto
  moreover have "(i - 2 ^ k) + 2 ^ Suc k = i + 2 ^ k" using x(1) [OF b] by simp
  ultimately show "2 ^ Suc k dvd i + 2 ^ k" by (simp only:)
qed

lemma free_block_step:
  assumes "buddy_inv s" and "region s z base n" and "{base..<base + n} \<inter> free_pages_of s = {}"
    and "2 ^ order dvd base - zones s z" and "2 ^ order \<le> n" and "order \<le> MAX_ORDER"
  obtains t where "buddy_free_pages_sub base order s = Some t" "buddy_inv t" "same_layout s t"
    "free_pages_of t = free_pages_of s \<union> span base order"
    "region t z (base + 2 ^ order) (n - 2 ^ order)"
    "{base + 2 ^ order..<base + n} \<inter> free_pages_of t = {}"
proof -
  have "valid_blk s z base order"
    using region_split(1) [OF assms(2,5)] assms(4,6) by (simp add: valid_blk_def)
  moreover have sub: "span base order \<subseteq> {base..<base + n}" using assms(5) by auto
  then have "span base order \<inter> free_pages_of s = {}" using assms(3) by blast
  ultimately obtain t where t: "buddy_free_pages_sub base order s = Some t" "buddy_inv t"
    "same_layout s t" "free_pages_of t = free_pages_of s \<union> span base order"
    using buddy_free_pages_sub_wf [OF assms(1)] by blast
  moreover have "region t z (base + 2 ^ order) (n - 2 ^ order)"
    using region_layout [OF t(3)] region_split(2) [OF assms(2,5)] by simp
  moreover have "{base + 2 ^ order..<base + n} \<subseteq> {base..<base + n} - span base order" by auto
  then have "{base + 2 ^ order..<base + n} \<inter> free_pages_of t = {}"
    using assms(3) unfolding t(4) by blast
  ultimately show thesis using that by blast
qed

lemma free_low_wf:
  assumes "buddy_inv s" and "region s z base n" and "{base..<base + n} \<inter> free_pages_of s = {}"
    and "2 ^ order dvd base - zones s z" and "n < 2 ^ Suc MAX_ORDER"
  shows "\<exists>order' base' n' t. free_low order base n s = Some (order', base', n', t) \<and> buddy_inv t
    \<and> same_layout s t \<and> base' + n' = base + n \<and> base \<le> base' \<and> n' < 2 ^ order'
    \<and> 2 ^ order' dvd base' - zones s z
    \<and> free_pages_of t = free_pages_of s \<union> {base..<base'}"
  using assms
proof (induction order base n s rule: free_low.induct)
  case (1 order base n s)
  show ?case
  proof (cases "2 ^ order \<le> n")
    case False
    then show ?thesis using "1.prems" by (subst free_low.simps) simp
  next
    case True
    have ord: "order \<le> MAX_ORDER"
    proof (rule ccontr)
      assume "\<not> order \<le> MAX_ORDER"
      then have "(2::nat) ^ Suc MAX_ORDER \<le> 2 ^ order" by (intro power_increasing) auto
      then show False using True "1.prems"(5) by linarith
    qed
    have le: "zones s z \<le> base" using "1.prems"(2) by (simp add: region_def)
    have "0 < n" using True by (metis gr0I less_one not_le power_eq_0_iff zero_neq_numeral le_zero_eq)
    then have idx: "page2idx base s = base - zones s z"
      using "1.prems"(2) by (simp add: region_def page2idx_def)
    show ?thesis
    proof (cases "bit (base - zones s z) order")
      case False
      have e: "free_low order base n s = free_low (Suc order) base n s"
        using True ord False by (subst free_low.simps) (simp add: idx and_exp_iff)
      show ?thesis unfolding e
        using True ord False "1.prems" next_aligned(2) [OF "1.prems"(4) False]
        by (intro "1.IH"(2)) (auto simp: idx and_exp_iff)
    next
      case bit: True
      obtain t where t: "buddy_free_pages_sub base order s = Some t" "buddy_inv t" "same_layout s t"
        "free_pages_of t = free_pages_of s \<union> span base order"
        "region t z (base + 2 ^ order) (n - 2 ^ order)"
        "{base + 2 ^ order..<base + n} \<inter> free_pages_of t = {}"
        using free_block_step [OF "1.prems"(1-4) True ord] by blast
      have zt: "zones t = zones s" using t(3) by (simp add: same_layout_def)
      have e: "free_low order base n s = free_low (Suc order) (base + 2 ^ order) (n - 2 ^ order) t"
        using True ord bit t(1) by (subst free_low.simps) (simp add: idx and_exp_iff)
      have "2 ^ Suc order dvd base + 2 ^ order - zones t z"
        using next_aligned(1) [OF "1.prems"(4) bit] le by (simp add: zt Nat.add_diff_assoc2)
      moreover have lt: "n - 2 ^ order < 2 ^ Suc MAX_ORDER" using "1.prems"(5) by (rule less_imp_diff_less)
      ultimately obtain order' base' n' u where IH:
        "free_low (Suc order) (base + 2 ^ order) (n - 2 ^ order) t = Some (order', base', n', u)"
        "buddy_inv u" "same_layout t u" "base' + n' = base + 2 ^ order + (n - 2 ^ order)"
        "base + 2 ^ order \<le> base'" "n' < 2 ^ order'" "2 ^ order' dvd base' - zones t z"
        "free_pages_of u = free_pages_of t \<union> {base + 2 ^ order..<base'}"
        using "1.IH"(1) [OF True _ _ t(1,2,5)] t(6) bit ord lt True by (auto simp: idx and_exp_iff)
      have "free_pages_of u = free_pages_of s \<union> {base..<base'}" using IH(5) unfolding IH(8) t(4) by auto
      then show ?thesis unfolding e
        using IH True same_layout_trans [OF t(3)] by (simp add: zt)
    qed
  qed
qed

lemma free_high_wf:
  assumes "buddy_inv s" and "region s z base n" and "{base..<base + n} \<inter> free_pages_of s = {}"
    and "2 ^ order dvd base - zones s z" and "n < 2 ^ Suc order" and "n < 2 ^ Suc MAX_ORDER"
  shows "\<exists>t. free_high order base n s = Some t \<and> buddy_inv t \<and> same_layout s t
    \<and> free_pages_of t = free_pages_of s \<union> {base..<base + n}"
  using assms
proof (induction order base n s rule: free_high.induct)
  case (1 order base n s)
  consider (stop) "n = 0" | (down) "n \<noteq> 0" "n < 2 ^ order" | (blk) "n \<noteq> 0" "2 ^ order \<le> n"
    by linarith
  then show ?case
  proof cases
    case stop
    then show ?thesis using "1.prems" by (subst free_high.simps) simp
  next
    case down
    then have o: "Suc (order - 1) = order" by (cases order) auto
    have e: "free_high order base n s = free_high (order - 1) base n s"
      using down by (subst free_high.simps) simp
    have "2 ^ (order - 1) dvd base - zones s z"
      using "1.prems"(4) o by (metis dvd_mult_right power_Suc)
    then show ?thesis unfolding e using down o "1.prems" by (intro "1.IH"(1)) simp_all
  next
    case blk
    have "(2::nat) ^ order < 2 ^ Suc MAX_ORDER" using blk(2) "1.prems"(6) by linarith
    then have ord: "order \<le> MAX_ORDER" by (simp only: power_strict_increasing_iff one_less_numeral_iff semiring_norm less_Suc_eq_le)
    have le: "zones s z \<le> base" using "1.prems"(2) by (simp add: region_def)
    obtain t where t: "buddy_free_pages_sub base order s = Some t" "buddy_inv t" "same_layout s t"
      "free_pages_of t = free_pages_of s \<union> span base order"
      "region t z (base + 2 ^ order) (n - 2 ^ order)"
      "{base + 2 ^ order..<base + n} \<inter> free_pages_of t = {}"
      using free_block_step [OF "1.prems"(1-4) blk(2) ord] by blast
    have zt: "zones t = zones s" using t(3) by (simp add: same_layout_def)
    have e: "free_high order base n s = free_high order (base + 2 ^ order) (n - 2 ^ order) t"
      using blk t(1) by (subst free_high.simps) simp
    have "2 ^ order dvd base + 2 ^ order - zones t z"
      using "1.prems"(4) le unfolding zt by (metis Nat.add_diff_assoc2 dvd_add dvd_refl)
    moreover have "n - 2 ^ order < 2 ^ Suc order" and "n - 2 ^ order < 2 ^ Suc MAX_ORDER"
      using "1.prems"(5,6) by (auto intro: less_imp_diff_less)
    moreover have "{base + 2 ^ order..<base + 2 ^ order + (n - 2 ^ order)} \<inter> free_pages_of t = {}"
      using t(6) blk(2) by simp
    ultimately obtain u where u: "free_high order (base + 2 ^ order) (n - 2 ^ order) t = Some u" "buddy_inv u"
      "same_layout t u" "free_pages_of u = free_pages_of t \<union> {base + 2 ^ order..<base + 2 ^ order + (n - 2 ^ order)}"
      using "1.IH"(2) [OF blk(1) _ t(1,2,5)] blk(2) by auto
    have "free_pages_of u = free_pages_of s \<union> {base..<base + n}"
      using blk(2) unfolding u(4) t(4) by auto
    then show ?thesis unfolding e using u same_layout_trans [OF t(3)] by blast
  qed
qed

lemma buddy_free_pages_wf:
  assumes "buddy_inv s" and "region s z base n" and "{base..<base + n} \<inter> free_pages_of s = {}"
    and "0 < n" and "n < 2 ^ Suc MAX_ORDER"
  shows "\<exists>t. buddy_free_pages base n s = Some t \<and> buddy_inv t \<and> same_layout s t
    \<and> free_pages_of t = free_pages_of s \<union> {base..<base + n}"
proof (cases "n = 1")
  case True
  then show ?thesis
    using buddy_free_pages_sub_wf [OF assms(1), of z base 0] assms(2,3)
    by (auto simp: buddy_free_pages_def valid_blk_def)
next
  case False
  obtain order base' n' t where l: "free_low 0 base n s = Some (order, base', n', t)" "buddy_inv t"
    "same_layout s t" "base' + n' = base + n" "base \<le> base'" "n' < 2 ^ order"
    "2 ^ order dvd base' - zones s z" "free_pages_of t = free_pages_of s \<union> {base..<base'}"
    using free_low_wf [OF assms(1-3), of 0] assms(5) by auto
  have "zones t = zones s" using l(3) by (simp add: same_layout_def)
  moreover have n': "base' = base + (n - n')" "n' \<le> n" using l(4,5) by auto
  then have "region t z base' n'"
    using region_layout [OF l(3)] region_split(2) [OF assms(2), of "n - n'"] by simp
  moreover have "{base'..<base' + n'} \<subseteq> {base..<base + n} - {base..<base'}" using l(4,5) by auto
  then have "{base'..<base' + n'} \<inter> free_pages_of t = {}" using assms(3) unfolding l(8) by blast
  ultimately obtain u where u: "free_high order base' n' t = Some u" "buddy_inv u" "same_layout t u"
    "free_pages_of u = free_pages_of t \<union> {base'..<base' + n'}"
    using free_high_wf [OF l(2), of z base' n' order] l(6,7) n'(2) assms(5) by auto
  have "free_pages_of u = free_pages_of s \<union> {base..<base + n}"
    using l(4,5) unfolding u(4) l(8) by auto
  then show ?thesis
    using u l(1) False assms(4) same_layout_trans [OF l(3)] by (auto simp: buddy_free_pages_def)
qed

subsection \<open>Whole allocations\<close>

lemma buddy_alloc_pages_some:
  assumes inv: "buddy_inv s" and n: "0 < n" "n \<le> 2 ^ MAX_ORDER"
    and res: "buddy_alloc_pages_sub order s = Some (Some p, s1)" and ord: "getorder n = Some order"
    and le: "n \<le> 2 ^ order" "order \<le> MAX_ORDER"
  shows "\<exists>t. buddy_alloc_pages n s = Some (Some p, t) \<and> buddy_inv t \<and> same_layout s t
    \<and> valid_blk s (zone_num (pages s p)) p order \<and> {p..<p + n} \<subseteq> free_pages_of s
    \<and> free_pages_of t = free_pages_of s - {p..<p + n}"
proof -
  let ?z = "zone_num (pages s p)"
  have "alloc_search order order s = (Some p, s1)" using res by (simp add: buddy_alloc_pages_sub_def)
  note a = alloc_search_wf [OF inv order.refl this]
  have sub: "{p..<p + n} \<subseteq> span p order" using le(1) by auto
  show ?thesis
  proof (cases "n = 2 ^ order")
    case True
    then show ?thesis using a n ord res by (auto simp: buddy_alloc_pages_def)
  next
    case False
    have "region s1 ?z (p + n) (2 ^ order - n)"
      using a region_layout region_split(2) [of s ?z p "2 ^ order" n] le(1) by (auto simp: valid_blk_def)
    moreover have rest: "{p + n..<p + n + (2 ^ order - n)} = span p order - {p..<p + n}" using le(1) by auto
    then have "{p + n..<p + n + (2 ^ order - n)} \<inter> free_pages_of s1 = {}" using a by auto
    moreover have "(2::nat) ^ order \<le> 2 ^ MAX_ORDER" using le(2) by (intro power_increasing) auto
    then have "2 ^ order - n < 2 ^ Suc MAX_ORDER" by simp
    ultimately obtain t where t: "buddy_free_pages (p + n) (2 ^ order - n) s1 = Some t" "buddy_inv t"
      "same_layout s1 t" "free_pages_of t = free_pages_of s1 \<union> (span p order - {p..<p + n})"
      using buddy_free_pages_wf [of s1 ?z "p + n" "2 ^ order - n"] a False le(1) unfolding rest by auto
    have "free_pages_of t = free_pages_of s - {p..<p + n}"
      using sub a unfolding t(4) by blast
    moreover have "buddy_alloc_pages n s = Some (Some p, t)"
      using n ord res t(1) False by (simp add: buddy_alloc_pages_def)
    ultimately show ?thesis using t a sub same_layout_trans by blast
  qed
qed

lemma buddy_alloc_pages_cases:
  assumes inv: "buddy_inv s" and n: "0 < n" "n \<le> 2 ^ MAX_ORDER"
  obtains (some) order p t where "buddy_alloc_pages n s = Some (Some p, t)" "buddy_inv t" "same_layout s t"
      "getorder n = Some order" "valid_blk s (zone_num (pages s p)) p order"
      "{p..<p + n} \<subseteq> free_pages_of s" "free_pages_of t = free_pages_of s - {p..<p + n}"
  | (none) order where "buddy_alloc_pages n s = Some (None, s)" "getorder n = Some order"
      "\<And>k. order \<le> k \<Longrightarrow> k \<le> MAX_ORDER \<Longrightarrow> free_list s k = []"
proof -
  obtain order where o: "getorder n = Some order" "order \<le> MAX_ORDER" "n \<le> 2 ^ order"
    using getorder_spec [OF n] by blast
  obtain r s1 where r: "alloc_search order order s = (r, s1)" by (cases "alloc_search order order s")
  then have sub: "buddy_alloc_pages_sub order s = Some (r, s1)"
    using o(2) by (simp add: buddy_alloc_pages_sub_def)
  show thesis
  proof (cases r)
    case None
    then have "s1 = s" "\<And>k. order \<le> k \<Longrightarrow> k \<le> MAX_ORDER \<Longrightarrow> free_list s k = []"
      using alloc_search_None [of order order s s1] r by auto
    then show thesis using none o n sub None by (simp add: buddy_alloc_pages_def)
  next
    case (Some p)
    then show thesis using buddy_alloc_pages_some [OF inv n _ o(1,3,2)] sub some o(1) by blast
  qed
qed

subsection \<open>Zones\<close>

lemma memmap_reset_eq:
  assumes "\<And>q. q \<in> {p..<p + n} \<Longrightarrow> PageReserved (pages s q)"
  shows "memmap_reset z p n s = Some (s\<lparr>pages := (\<lambda>q. if q \<in> {p..<p + n}
    then (pages s q)\<lparr>flags := 0, property := 0, zone_num := z, ref := 0\<rparr> else pages s q)\<rparr>)"
  using assms
proof (induction n arbitrary: p s)
  case 0
  then show ?case by simp
next
  case (Suc n)
  let ?t = "upd_page p (\<lambda>pg. pg\<lparr>flags := 0, property := 0, zone_num := z, ref := 0\<rparr>) s"
  have "memmap_reset z (Suc p) n ?t = Some (?t\<lparr>pages := (\<lambda>q. if q \<in> {Suc p..<Suc p + n}
    then (pages ?t q)\<lparr>flags := 0, property := 0, zone_num := z, ref := 0\<rparr> else pages ?t q)\<rparr>)"
    by (rule Suc.IH) (use Suc.prems in auto)
  then show ?case using Suc.prems [of p] by (auto simp: upd_page_def fun_eq_iff)
qed

lemma new_zone_wf:
  assumes inv: "buddy_inv s" and res: "\<And>q. q \<in> {base..<base + n} \<Longrightarrow> q < npage s \<and> PageReserved (pages s q)"
  defines "t \<equiv> s\<lparr>pages := (\<lambda>q. if q \<in> {base..<base + n}
      then (pages s q)\<lparr>flags := 0, property := 0, zone_num := zone_cnt s, ref := 0\<rparr> else pages s q),
    zones := (zones s)(zone_cnt s := base), zone_cnt := zone_cnt s + 1\<rparr>"
  shows "buddy_inv t" and "free_pages_of t = free_pages_of s" and "region t (zone_cnt s) base n"
    and "{base..<base + n} \<inter> free_pages_of t = {}"
proof -
  have fl: "free_list t = free_list s" "nr_free t = nr_free s" "npage t = npage s" by (simp_all add: t_def)
  then show free: "free_pages_of t = free_pages_of s" by (simp add: free_pages_of_def)
  have out: "q \<notin> {base..<base + n}" "zone_num (pages s p) < zone_cnt s"
    if p: "p \<in> set (free_list s k)" and q: "q \<in> span p k" for p q k
  proof -
    note v = valid_blkD(4) [OF wf_heads(1) [OF inv p]]
    then show "q \<notin> {base..<base + n}" using v [OF q] res [of q] by blast
    have "p < npage s \<and> \<not> PageReserved (pages s p)" using v [of p] by simp
    then show "zone_num (pages s p) < zone_cnt s" using inv by (simp add: buddy_wf_def)
  qed
  have pg: "pages t q = pages s q" if "q \<notin> {base..<base + n}" for q using that by (auto simp: t_def)
  have new: "\<not> PageReserved (pages t q) \<and> \<not> PageProperty (pages t q) \<and> zone_num (pages t q) = zone_cnt s"
    if "q \<in> {base..<base + n}" for q using that by (auto simp: t_def test_flag_def)
  have v: "valid_blk t (zone_num (pages s p)) p k" if p: "p \<in> set (free_list s k)" for p k
  proof -
    have w: "valid_blk s (zone_num (pages s p)) p k" using wf_heads(1) [OF inv p] .
    have ze: "zones t (zone_num (pages s p)) = zones s (zone_num (pages s p))"
      using out(2) [OF p, of p] by (simp add: t_def)
    have "region t (zone_num (pages s p)) p (2 ^ k)"
      unfolding region_def
    proof (intro conjI ballI)
      show "zones t (zone_num (pages s p)) \<le> p" using valid_blkD(2) [OF w] unfolding ze .
      fix q assume q: "q \<in> span p k"
      have e: "pages t q = pages s q" using pg out(1) [OF p q] by blast
      show "q < npage t" "\<not> PageReserved (pages t q)" "zone_num (pages t q) = zone_num (pages s p)"
        using valid_blkD(4) [OF w q] unfolding e fl by blast+
    qed
    then show ?thesis using valid_blkD(1,3) [OF w] unfolding valid_blk_def ze by blast
  qed
  show "buddy_inv t"
    unfolding buddy_wf_def
  proof (intro conjI)
    show "\<forall>k. \<forall>q \<in> set (free_list t k). valid_blk t (zone_num (pages t q)) q k
        \<and> property (pages t q) = k \<and> PageProperty (pages t q)"
    proof (intro allI ballI)
      fix k q assume "q \<in> set (free_list t k)"
      then have q: "q \<in> set (free_list s k)" by (simp add: fl)
      have "pages t q = pages s q" using pg [OF out(1) [OF q head_in_span]] .
      then show "valid_blk t (zone_num (pages t q)) q k \<and> property (pages t q) = k \<and> PageProperty (pages t q)"
        using wf_heads(2,3) [OF inv q] v [OF q] by simp
    qed
    show "\<forall>q < npage t. \<not> PageReserved (pages t q) \<and> PageProperty (pages t q) \<and> q \<notin> {}
        \<longrightarrow> q \<in> set (free_list t (property (pages t q)))"
      using inv new pg unfolding fl buddy_wf_def by metis
    show "\<forall>o1 o2. \<forall>a \<in> set (free_list t o1). \<forall>b \<in> set (free_list t o2).
        span a o1 \<inter> span b o2 \<noteq> {} \<longrightarrow> a = b \<and> o1 = o2"
      using inv unfolding fl buddy_wf_def by blast
    show "\<forall>q < npage t. \<not> PageReserved (pages t q) \<longrightarrow>
        zone_num (pages t q) < zone_cnt t \<and> zones t (zone_num (pages t q)) \<le> q"
    proof (intro allI impI)
      fix q assume q: "q < npage t" "\<not> PageReserved (pages t q)"
      show "zone_num (pages t q) < zone_cnt t \<and> zones t (zone_num (pages t q)) \<le> q"
      proof (cases "q \<in> {base..<base + n}")
        case True
        then show ?thesis using new [OF True] by (simp add: t_def)
      next
        case False
        then have "zone_num (pages s q) < zone_cnt s \<and> zones s (zone_num (pages s q)) \<le> q"
          using q inv pg fl by (simp add: buddy_wf_def)
        then show ?thesis unfolding pg [OF False] by (simp add: t_def)
      qed
    qed
  qed (use inv in \<open>simp_all add: buddy_wf_def fl\<close>)
  show "region t (zone_cnt s) base n"
    using new res by (auto simp: region_def fl) (simp add: t_def)
  show "{base..<base + n} \<inter> free_pages_of t = {}"
    unfolding free_pages_of_def fl using out(1) by blast
qed

lemma memmap_blocks_wf:
  assumes "buddy_inv s" and "region s z p n" and "{p..<p + n} \<inter> free_pages_of s = {}"
    and "2 ^ order dvd p - zones s z" and "order \<le> MAX_ORDER"
  shows "buddy_inv (memmap_blocks order p n s) \<and> same_layout s (memmap_blocks order p n s)
    \<and> free_pages_of (memmap_blocks order p n s) = free_pages_of s \<union> {p..<p + n}"
  using assms
proof (induction order p n s rule: memmap_blocks.induct)
  case (1 order p n s)
  consider (stop) "n = 0" | (blk) "n \<noteq> 0" "2 ^ order \<le> n" | (down) "n \<noteq> 0" "\<not> 2 ^ order \<le> n"
    by linarith
  then show ?case
  proof cases
    case stop
    then show ?thesis using "1.prems" by (subst (1 2 3) memmap_blocks.simps) simp
  next
    case down
    have e: "memmap_blocks order p n s = memmap_blocks (order - 1) p n s"
      using down by (subst memmap_blocks.simps) simp
    have o: "Suc (order - 1) = order" using down by (cases order) auto
    have "2 ^ (order - 1) dvd p - zones s z"
      using "1.prems"(4) o by (metis dvd_mult_right power_Suc)
    then show ?thesis unfolding e using down "1.prems" by (intro "1.IH"(2)) auto
  next
    case blk
    let ?t = "put_block p order s"
    have e: "memmap_blocks order p n s = memmap_blocks order (p + 2 ^ order) (n - 2 ^ order) ?t"
      using blk by (subst memmap_blocks.simps) simp
    have le: "zones s z \<le> p" using "1.prems"(2) by (simp add: region_def)
    have v: "valid_blk s z p order"
      using region_split(1) [OF "1.prems"(2) blk(2)] "1.prems"(4,5) by (simp add: valid_blk_def)
    have "span p order \<subseteq> {p..<p + n}" using blk(2) by auto
    then have "span p order \<inter> free_pages_of s = {}" using "1.prems"(3) by blast
    note t = put_block_wf [OF "1.prems"(1) v this]
    have rest: "{p + 2 ^ order..<p + 2 ^ order + (n - 2 ^ order)} = {p..<p + n} - span p order"
      using blk(2) by auto
    have "2 ^ order dvd p + 2 ^ order - zones ?t z"
      using "1.prems"(4) le unfolding put_block_fields by (metis Nat.add_diff_assoc2 dvd_add dvd_refl)
    moreover have "region ?t z (p + 2 ^ order) (n - 2 ^ order)"
      using region_split(2) [OF "1.prems"(2) blk(2)] region_layout [OF put_block_layout] by simp
    moreover have "({p..<p + n} - span p order) \<inter> free_pages_of ?t = {}"
      using "1.prems"(3) unfolding t(2) by blast
    ultimately have IH: "buddy_inv (memmap_blocks order p n s) \<and> same_layout ?t (memmap_blocks order p n s)
      \<and> free_pages_of (memmap_blocks order p n s) = free_pages_of ?t \<union> ({p..<p + n} - span p order)"
      using "1.IH"(1) [OF blk t(1)] "1.prems"(5) unfolding e rest by blast
    moreover have "free_pages_of ?t \<union> ({p..<p + n} - span p order) = free_pages_of s \<union> {p..<p + n}"
      using \<open>span p order \<subseteq> {p..<p + n}\<close> unfolding t(2) by blast
    ultimately show ?thesis using same_layout_trans [OF put_block_layout] by metis
  qed
qed

lemma buddy_init_memmap_wf:
  assumes inv: "buddy_inv s" and n: "0 < n" and z: "zone_cnt s < MAX_ZONE_NUM"
    and res: "\<And>q. q \<in> {base..<base + n} \<Longrightarrow> q < npage s \<and> PageReserved (pages s q)"
  shows "\<exists>t. buddy_init_memmap base n s = Some t \<and> buddy_inv t
    \<and> free_pages_of t = free_pages_of s \<union> {base..<base + n} \<and> region t (zone_cnt s) base n"
proof -
  define u where "u = s\<lparr>pages := (\<lambda>q. if q \<in> {base..<base + n}
      then (pages s q)\<lparr>flags := 0, property := 0, zone_num := zone_cnt s, ref := 0\<rparr> else pages s q),
    zones := (zones s)(zone_cnt s := base), zone_cnt := zone_cnt s + 1\<rparr>"
  note u = new_zone_wf [OF inv res, of base n, folded u_def]
  have "zones u (zone_cnt s) = base" by (simp add: u_def)
  then have m: "buddy_inv (memmap_blocks MAX_ORDER base n u)
    \<and> same_layout u (memmap_blocks MAX_ORDER base n u)
    \<and> free_pages_of (memmap_blocks MAX_ORDER base n u) = free_pages_of u \<union> {base..<base + n}"
    using u by (intro memmap_blocks_wf) auto
  have "memmap_reset (zone_cnt s) base n s = Some (s\<lparr>pages := (\<lambda>q. if q \<in> {base..<base + n}
    then (pages s q)\<lparr>flags := 0, property := 0, zone_num := zone_cnt s, ref := 0\<rparr> else pages s q)\<rparr>)"
    using res by (intro memmap_reset_eq) blast
  then have "buddy_init_memmap base n s = Some (memmap_blocks MAX_ORDER base n u)"
    using n z by (simp add: buddy_init_memmap_def u_def)
  then show ?thesis using m u region_layout by auto
qed

subsection \<open>Counting\<close>

lemma fold_plus: "fold (\<lambda>i r. r + f i) xs a = a + (\<Sum>i\<leftarrow>xs. f i)" for a :: "'a::comm_monoid_add"
  by (induction xs arbitrary: a) (simp_all add: add.assoc)

lemma of_nat_sum_list: "(\<Sum>k\<leftarrow>xs. of_nat (f k)) = (of_nat (\<Sum>k\<leftarrow>xs. f k) :: 'a::semiring_1)"
  by (induction xs) simp_all

lemma card_free_pages:
  assumes inv: "buddy_inv s"
  shows "card (free_pages_of s) = (\<Sum>k\<leftarrow>[0..<Suc MAX_ORDER]. length (free_list s k) * 2 ^ k)"
proof -
  let ?B = "SIGMA k : {0..<Suc MAX_ORDER}. set (free_list s k)"
  have "free_pages_of s = (\<Union>(k, p) \<in> ?B. span p k)"
  proof
    show "free_pages_of s \<subseteq> (\<Union>(k, p) \<in> ?B. span p k)"
    proof
      fix q assume "q \<in> free_pages_of s"
      then obtain k p where "p \<in> set (free_list s k)" "q \<in> span p k" unfolding in_free_pages by blast
      moreover from this have "k < Suc MAX_ORDER" using wf_heads(4) [OF inv] le_imp_less_Suc by blast
      ultimately show "q \<in> (\<Union>(k, p) \<in> ?B. span p k)" by (intro UN_I [of "(k, p)"]) auto
    qed
    show "(\<Union>(k, p) \<in> ?B. span p k) \<subseteq> free_pages_of s" by (auto simp: free_pages_of_def)
  qed
  also have "card \<dots> = (\<Sum>kp \<in> ?B. card (case kp of (k, p) \<Rightarrow> span p k))"
  proof (rule card_UN_disjoint)
    show "\<forall>i \<in> ?B. \<forall>j \<in> ?B. i \<noteq> j \<longrightarrow> (case i of (k, p) \<Rightarrow> span p k) \<inter> (case j of (k, p) \<Rightarrow> span p k) = {}"
    proof (intro ballI impI)
      fix i j assume ij: "i \<in> ?B" "j \<in> ?B" "i \<noteq> j"
      obtain k p k' p' where e: "i = (k, p)" "j = (k', p')" by (cases i, cases j)
      have "p \<in> set (free_list s k)" "p' \<in> set (free_list s k')" using ij e by auto
      then have "r \<notin> span p' k'" if "r \<in> span p k" for r
        using wf_disjoint [OF inv, of p k p' k' r] that ij(3) e by blast
      then show "(case i of (k, p) \<Rightarrow> span p k) \<inter> (case j of (k, p) \<Rightarrow> span p k) = {}"
        unfolding e prod.case by blast
    qed
  qed auto
  also have "\<dots> = (\<Sum>(k, p) \<in> ?B. 2 ^ k)" by (intro sum.cong) auto
  also have "\<dots> = (\<Sum>k \<in> {0..<Suc MAX_ORDER}. \<Sum>p \<in> set (free_list s k). 2 ^ k)"
    by (subst sum.Sigma) auto
  also have "\<dots> = (\<Sum>k \<in> {0..<Suc MAX_ORDER}. length (free_list s k) * 2 ^ k)"
    using inv by (intro sum.cong) (auto simp: buddy_wf_def distinct_card)
  finally show ?thesis by (simp only: interv_sum_list_conv_sum_set_nat atLeastLessThan_upt)
qed

lemma buddy_nr_free_pages_eq:
  assumes "buddy_inv s"
  shows "buddy_nr_free_pages s = of_nat (card (free_pages_of s))"
proof -
  have "(\<Sum>k\<leftarrow>[0..<Suc MAX_ORDER]. nr_free s k * push_bit k 1)
    = (\<Sum>k\<leftarrow>[0..<Suc MAX_ORDER]. of_nat (length (free_list s k) * 2 ^ k))"
    using assms by (intro arg_cong [where f = sum_list] map_cong) (auto simp: buddy_wf_def)
  also have "\<dots> = of_nat (\<Sum>k\<leftarrow>[0..<Suc MAX_ORDER]. length (free_list s k) * 2 ^ k)"
    by (rule of_nat_sum_list)
  finally show ?thesis
    unfolding buddy_nr_free_pages_def card_free_pages [OF assms] fold_plus by simp
qed

subsection \<open>The interface of the page frame manager\<close>

text \<open>\<^verbatim>\<open>struct pmm_manager\<close> (\<^verbatim>\<open>kern/mm/pmm.h\<close>): what the rest of the memory management relies on.  \<open>managed s p n\<close>
  says that the \<open>n\<close> frames from \<open>p\<close> may be released together.\<close>

locale page_frame_manager =
  fixes inv :: "'s \<Rightarrow> bool"
    and free :: "'s \<Rightarrow> nat set"
    and managed :: "'s \<Rightarrow> nat \<Rightarrow> nat \<Rightarrow> bool"
    and limit :: nat
    and alloc :: "nat \<Rightarrow> 's \<Rightarrow> (nat option \<times> 's) option"
    and release :: "nat \<Rightarrow> nat \<Rightarrow> 's \<Rightarrow> 's option"
  assumes alloc_total: "inv s \<Longrightarrow> 0 < n \<Longrightarrow> n \<le> limit \<Longrightarrow> \<exists>r t. alloc n s = Some (r, t)"
    and alloc_none: "inv s \<Longrightarrow> 0 < n \<Longrightarrow> n \<le> limit \<Longrightarrow> alloc n s = Some (None, t) \<Longrightarrow> t = s"
    and alloc_some: "inv s \<Longrightarrow> 0 < n \<Longrightarrow> n \<le> limit \<Longrightarrow> alloc n s = Some (Some p, t) \<Longrightarrow>
      inv t \<and> managed t p n \<and> {p..<p + n} \<subseteq> free s \<and> free t = free s - {p..<p + n}"
    and release_ok: "inv s \<Longrightarrow> 0 < n \<Longrightarrow> n \<le> limit \<Longrightarrow> managed s p n \<Longrightarrow> {p..<p + n} \<inter> free s = {} \<Longrightarrow>
      \<exists>t. release p n s = Some t \<and> inv t \<and> free t = free s \<union> {p..<p + n}"
begin

lemma alloc_release:
  assumes "inv s" and "0 < n" and "n \<le> limit" and "alloc n s = Some (Some p, t)"
  shows "\<exists>u. release p n t = Some u \<and> inv u \<and> free u = free s"
proof -
  have a: "inv t" "managed t p n" "{p..<p + n} \<subseteq> free s" "free t = free s - {p..<p + n}"
    using alloc_some [OF assms] by auto
  then have "\<exists>u. release p n t = Some u \<and> inv u \<and> free u = free t \<union> {p..<p + n}"
    using assms by (intro release_ok) auto
  then show ?thesis using a by auto
qed

lemma alloc_inv:
  assumes "inv s" and "0 < n" and "n \<le> limit" and "alloc n s = Some (r, t)"
  shows "inv t \<and> free t \<subseteq> free s"
  using alloc_none [OF assms(1-3)] alloc_some [OF assms(1-3)] assms(1,4) by (cases r) auto

text \<open>Frames handed out by successive allocations never overlap.\<close>

lemma alloc_disjoint:
  assumes "inv s" and "0 < n" and "n \<le> limit" and "alloc n s = Some (Some p, t)"
    and "inv u" and "free u \<subseteq> free t"
    and "0 < m" and "m \<le> limit" and "alloc m u = Some (Some q, v)"
  shows "{p..<p + n} \<inter> {q..<q + m} = {}"
  using alloc_some [OF assms(1-4)] alloc_some [OF assms(5,7-9)] assms(6) by blast

end

definition managed_frames :: "buddy \<Rightarrow> nat \<Rightarrow> nat \<Rightarrow> bool" where
  "managed_frames s p n \<longleftrightarrow> region s (zone_num (pages s p)) p n"

interpretation pmm: page_frame_manager buddy_inv free_pages_of managed_frames "2 ^ MAX_ORDER" buddy_alloc_pages buddy_free_pages
proof
  fix s t :: buddy and n p :: nat
  assume inv: "buddy_inv s" and n: "0 < n" "n \<le> 2 ^ MAX_ORDER"
  note cs = buddy_alloc_pages_cases [OF inv n]
  show "\<exists>r t. buddy_alloc_pages n s = Some (r, t)" by (rule cs) auto
  show "t = s" if "buddy_alloc_pages n s = Some (None, t)" by (rule cs) (use that in auto)
  show "buddy_inv t \<and> managed_frames t p n \<and> {p..<p + n} \<subseteq> free_pages_of s
      \<and> free_pages_of t = free_pages_of s - {p..<p + n}"
    if a: "buddy_alloc_pages n s = Some (Some p, t)"
  proof (rule cs)
    fix order q u
    assume q: "buddy_alloc_pages n s = Some (Some q, u)" "buddy_inv u" "same_layout s u"
      "getorder n = Some order" "valid_blk s (zone_num (pages s q)) q order"
      "{q..<q + n} \<subseteq> free_pages_of s" "free_pages_of u = free_pages_of s - {q..<q + n}"
    have "n \<le> 2 ^ order" using getorder_spec [OF n] q(4) by force
    then have "region s (zone_num (pages s q)) q n"
      using q(5) region_split(1) unfolding valid_blk_def by blast
    then have "managed_frames u q n"
      using region_layout [OF q(3)] q(3) by (simp add: managed_frames_def same_layout_def)
    then show ?thesis using q a by auto
  qed (use a in auto)
  show "\<exists>t. buddy_free_pages p n s = Some t \<and> buddy_inv t \<and> free_pages_of t = free_pages_of s \<union> {p..<p + n}"
    if "managed_frames s p n" "{p..<p + n} \<inter> free_pages_of s = {}"
    using buddy_free_pages_wf [OF inv _ that(2) n(1)] that(1) n by (auto simp: managed_frames_def)
qed

subsection \<open>Properties\<close>

text \<open>A machine with four frames, all reserved, as \<^verbatim>\<open>page_init\<close> leaves it.\<close>

definition boot4 :: buddy where
  "boot4 = \<lparr>pages = (\<lambda>_. \<lparr>ref = 0, flags = 1, property = 0, zone_num = 0\<rparr>), free_list = (\<lambda>_. []),
    nr_free = (\<lambda>_. 0), zones = (\<lambda>_. 0), zone_cnt = 0, npage = 4\<rparr>"

lemma boot4_inv: "buddy_inv boot4"
  by (auto simp: buddy_wf_def boot4_def test_flag_def PG_reserved_def PG_property_def)

lemma boot4_memmap:
  obtains t where "buddy_init_memmap 0 4 boot4 = Some t" "buddy_inv t" "free_pages_of t = {0..<4}"
proof -
  have "\<exists>t. buddy_init_memmap 0 4 boot4 = Some t \<and> buddy_inv t
    \<and> free_pages_of t = free_pages_of boot4 \<union> {0..<0 + 4} \<and> region t (zone_cnt boot4) 0 4"
    by (rule buddy_init_memmap_wf [OF boot4_inv]) (auto simp: boot4_def test_flag_def PG_reserved_def)
  then show thesis using that by (auto simp: boot4_def free_pages_of_def)
qed

lemma boot4_alloc3:
  "do { t \<leftarrow> buddy_init_memmap 0 4 boot4; (r, u) \<leftarrow> buddy_alloc_pages 3 t; Some (r, buddy_nr_free_pages u) }
   = Some (Some 0, 1)"
  by code_simp

text \<open>C3: Allocation.  From a well-formed state and for 1 to 1024 pages, \<open>buddy_alloc_pages\<close> never
  panics.  Either it returns a page \<open>p\<close> such that the \<open>n\<close> pages from \<open>p\<close> were free, lie in one zone
  and start at an index divisible by \<open>2^order\<close>, \<open>order\<close> being the least with \<open>n \<le> 2^order\<close>, and exactly these \<open>n\<close> pages
  leave the free set (what the power of two over-allocates is returned); or it returns \<open>NULL\<close> and leaves the state as it was, and then no
  free area of order \<open>order\<close> or more has a block.  Well-formedness is kept.\<close>

theorem buddy_alloc_pages_correct:
  assumes "buddy_inv s" and "0 < n" and "n \<le> 2 ^ MAX_ORDER"
  shows "\<exists>order. getorder n = Some order \<and> n \<le> 2 ^ order \<and> (\<forall>j < order. 2 ^ j < n) \<and>
    ((\<exists>p t. buddy_alloc_pages n s = Some (Some p, t) \<and> buddy_inv t \<and> managed_frames t p n
        \<and> 2 ^ order dvd p - zones s (zone_num (pages s p))
        \<and> {p..<p + n} \<subseteq> free_pages_of s \<and> free_pages_of t = free_pages_of s - {p..<p + n})
   \<or> (buddy_alloc_pages n s = Some (None, s) \<and> (\<forall>k. order \<le> k \<and> k \<le> MAX_ORDER \<longrightarrow> free_list s k = [])))"
proof -
  obtain order where o: "getorder n = Some order" "n \<le> 2 ^ order" "\<And>j. j < order \<Longrightarrow> 2 ^ j < n"
    using getorder_spec [OF assms(2,3)] by metis
  show ?thesis
  proof (rule buddy_alloc_pages_cases [OF assms])
    fix order' p t
    assume "buddy_alloc_pages n s = Some (Some p, t)" "buddy_inv t" "getorder n = Some order'"
      "valid_blk s (zone_num (pages s p)) p order'" "{p..<p + n} \<subseteq> free_pages_of s"
      "free_pages_of t = free_pages_of s - {p..<p + n}"
    then show ?thesis using o pmm.alloc_some [OF assms, of p t] by (auto dest: valid_blkD(3))
  qed (use o in auto)
qed

theorem buddy_alloc_pages_correct_witness:
  "\<exists>t u. buddy_init_memmap 0 4 boot4 = Some t \<and> buddy_alloc_pages 3 t = Some (Some 0, u) \<and> free_pages_of u = {3}"
proof -
  obtain t where t: "buddy_init_memmap 0 4 boot4 = Some t" "buddy_inv t" "free_pages_of t = {0..<4}"
    by (rule boot4_memmap)
  obtain u where u: "buddy_alloc_pages 3 t = Some (Some 0, u)"
    using boot4_alloc3 t(1) by (auto simp: Option.bind_eq_Some_conv)
  then have "free_pages_of u = {0..<4} - {0..<0 + 3}"
    using buddy_alloc_pages_correct [OF t(2), of 3] t(3) by auto
  then show ?thesis using t u by auto
qed

text \<open>C4: Release.  Releasing 1 to 2047 frames that are not free and lie in one zone never panics
  (in particular the alignment assertion of \<open>buddy_free_pages_sub\<close> and the bound on the order hold),
  terminates, keeps well-formedness, and makes exactly these frames free, however they were merged
  with free neighbours.\<close>

theorem buddy_free_pages_correct:
  assumes "buddy_inv s" and "managed_frames s base n" and "{base..<base + n} \<inter> free_pages_of s = {}"
    and "0 < n" and "n < 2 ^ Suc MAX_ORDER"
  shows "\<exists>t. buddy_free_pages base n s = Some t \<and> buddy_inv t \<and> same_layout s t
    \<and> free_pages_of t = free_pages_of s \<union> {base..<base + n}"
  using buddy_free_pages_wf [OF assms(1) _ assms(3-5)] assms(2) by (simp add: managed_frames_def)

theorem buddy_free_pages_correct_witness:
  "\<exists>t u v. buddy_init_memmap 0 4 boot4 = Some t \<and> buddy_alloc_pages 3 t = Some (Some 0, u)
     \<and> buddy_free_pages 0 3 u = Some v \<and> free_pages_of v = {0..<4}"
proof -
  obtain t where t: "buddy_init_memmap 0 4 boot4 = Some t" "buddy_inv t" "free_pages_of t = {0..<4}"
    by (rule boot4_memmap)
  obtain u where u: "buddy_alloc_pages 3 t = Some (Some 0, u)"
    using boot4_alloc3 t(1) by (auto simp: Option.bind_eq_Some_conv)
  have a: "buddy_inv u" "managed_frames u 0 3" "free_pages_of u = {0..<4} - {0..<0 + 3}"
    using pmm.alloc_some [OF t(2) _ _ u] t(3) by auto
  then obtain v where "buddy_free_pages 0 3 u = Some v" "free_pages_of v = free_pages_of u \<union> {0..<0 + 3}"
    using buddy_free_pages_correct [of u 0 3] by auto
  then show ?thesis using t u a by auto
qed

text \<open>Round trip.  Releasing what was just allocated restores the set of free frames.\<close>

theorem buddy_alloc_free_roundtrip:
  assumes "buddy_inv s" and "0 < n" and "n \<le> 2 ^ MAX_ORDER" and "buddy_alloc_pages n s = Some (Some p, t)"
  shows "\<exists>u. buddy_free_pages p n t = Some u \<and> buddy_inv u \<and> free_pages_of u = free_pages_of s
    \<and> buddy_nr_free_pages u = buddy_nr_free_pages s"
  using pmm.alloc_release [OF assms] buddy_nr_free_pages_eq assms(1) by metis

theorem buddy_alloc_free_roundtrip_witness:
  "\<exists>t u v. buddy_init_memmap 0 4 boot4 = Some t \<and> buddy_alloc_pages 3 t = Some (Some 0, u)
     \<and> buddy_free_pages 0 3 u = Some v \<and> buddy_nr_free_pages v = buddy_nr_free_pages t"
proof -
  obtain t where t: "buddy_init_memmap 0 4 boot4 = Some t" "buddy_inv t" by (rule boot4_memmap)
  obtain u where u: "buddy_alloc_pages 3 t = Some (Some 0, u)"
    using boot4_alloc3 t(1) by (auto simp: Option.bind_eq_Some_conv)
  show ?thesis using buddy_alloc_free_roundtrip [OF t(2) _ _ u] t u by auto
qed

text \<open>Setting up a zone.  \<open>buddy_init_memmap\<close> on reserved frames, while zone numbers are left,
  does not panic, makes exactly these frames free as blocks of one new zone, and keeps
  well-formedness.\<close>

theorem buddy_init_memmap_correct:
  assumes "buddy_inv s" and "0 < n" and "zone_cnt s < MAX_ZONE_NUM"
    and "\<forall>q \<in> {base..<base + n}. q < npage s \<and> PageReserved (pages s q)"
  shows "\<exists>t. buddy_init_memmap base n s = Some t \<and> buddy_inv t
    \<and> free_pages_of t = free_pages_of s \<union> {base..<base + n} \<and> region t (zone_cnt s) base n"
  using buddy_init_memmap_wf [OF assms(1-3)] assms(4) by blast

theorem buddy_init_memmap_correct_witness:
  "\<exists>t. buddy_init_memmap 1 3 boot4 = Some t \<and> free_pages_of t = {1..<4}"
proof -
  have "\<forall>q \<in> {1..<1 + 3}. q < npage boot4 \<and> PageReserved (pages boot4 q)" "zone_cnt boot4 < MAX_ZONE_NUM"
    by (auto simp: boot4_def test_flag_def PG_reserved_def)
  then have "\<exists>t. buddy_init_memmap 1 3 boot4 = Some t \<and> buddy_inv t
    \<and> free_pages_of t = free_pages_of boot4 \<union> {1..<1 + 3} \<and> region t (zone_cnt boot4) 1 3"
    using buddy_init_memmap_correct [OF boot4_inv, of 3 1] by simp
  then show ?thesis by (auto simp: boot4_def free_pages_of_def)
qed

text \<open>\<open>buddy_nr_free_pages\<close> counts the free frames: its 32-bit sum over the free areas is their
  number (modulo the word size, which \<^verbatim>\<open>npage\<close> never reaches).\<close>

theorem buddy_nr_free_pages_correct:
  assumes "buddy_inv s" and "npage s < 2 ^ 32"
  shows "unat (buddy_nr_free_pages s) = card (free_pages_of s)"
proof -
  have "free_pages_of s \<subseteq> {..<npage s}"
  proof
    fix q assume "q \<in> free_pages_of s"
    then obtain k p where "p \<in> set (free_list s k)" "q \<in> span p k" unfolding in_free_pages by blast
    then show "q \<in> {..<npage s}" using valid_blkD(4) [OF wf_heads(1) [OF assms(1)]] by blast
  qed
  then have "card (free_pages_of s) \<le> card {..<npage s}" by (rule card_mono [OF finite_lessThan])
  then show ?thesis using assms by (simp add: buddy_nr_free_pages_eq unat_of_nat)
qed

theorem buddy_nr_free_pages_correct_witness:
  "\<exists>t. buddy_init_memmap 0 4 boot4 = Some t \<and> npage t < 2 ^ 32 \<and> unat (buddy_nr_free_pages t) = 4"
proof -
  obtain t where t: "buddy_init_memmap 0 4 boot4 = Some t" "buddy_inv t" "free_pages_of t = {0..<4}"
    by (rule boot4_memmap)
  have "map_option npage (buddy_init_memmap 0 4 boot4) = Some 4" by code_simp
  then have "npage t = 4" unfolding t(1) by simp
  then have "unat (buddy_nr_free_pages t) = card {0..<4::nat}"
    using buddy_nr_free_pages_correct [OF t(2)] t(3) by simp
  then show ?thesis using t(1) \<open>npage t = 4\<close> by auto
qed

end
