(* ===== verification/Sched.thy ===== *)
theory Sched
  imports Ucore_Prelude "HOL-Library.Multiset"
begin

text \<open>
  \<^verbatim>\<open>kern/schedule\<close>: the process descriptor fields the scheduler uses (\<^verbatim>\<open>proc.h\<close>), the round-robin
  class (\<^verbatim>\<open>sched_RR.c\<close>), the multi-level feedback queue built on it (\<^verbatim>\<open>sched_MLFQ.c\<close>), and the core
  with its timer list (\<^verbatim>\<open>sched.c\<close>).

  Processes, run queues and timers are named by natural numbers.  The kernel state \<open>kernel\<close> holds the
  descriptors, the array \<^verbatim>\<open>__rq\<close> in the order in which \<open>rq_link\<close> chains it, and the timer list; a list
  head is the sequence of the entries linked at it (\<open>Link_List\<close>).  Interrupts are off in every function
  here (\<^verbatim>\<open>local_intr_save\<close>), so each is one atomic step.  \<^verbatim>\<open>proc_run\<close> switches stacks and page
  directories; of it only the change of \<^verbatim>\<open>current\<close> is visible here.  \<^const>\<open>None\<close> is a panic.
\<close>

subsection \<open>State\<close>

datatype proc_state = PROC_UNINIT | PROC_SLEEPING | PROC_RUNNABLE | PROC_ZOMBIE

record proc_struct =
  state :: proc_state
  runs :: u32
  need_resched :: bool
  wait_state :: u32
  rq :: "nat option"
  time_slice :: int

record run_queue =
  run_list :: "nat list"
  proc_num :: u32
  max_time_slice :: int

record timer_t =
  expires :: u32
  tproc :: "nat option"

record kernel =
  procs :: "nat \<Rightarrow> proc_struct"
  current :: nat
  idleproc :: nat
  rqs :: "run_queue list"
  timers :: "nat \<Rightarrow> timer_t"
  timer_list :: "nat list"

definition WT_INTERRUPTED :: u32 where "WT_INTERRUPTED = 0x80000000"

definition upd_proc :: "nat \<Rightarrow> (proc_struct \<Rightarrow> proc_struct) \<Rightarrow> 'a kernel_scheme \<Rightarrow> 'a kernel_scheme" where
  "upd_proc p f k = k\<lparr>procs := (procs k)(p := f (procs k p))\<rparr>"

definition upd_rq :: "nat \<Rightarrow> (run_queue \<Rightarrow> run_queue) \<Rightarrow> 'a kernel_scheme \<Rightarrow> 'a kernel_scheme" where
  "upd_rq i f k = k\<lparr>rqs := (rqs k)[i := f (rqs k ! i)]\<rparr>"

text \<open>\<^verbatim>\<open>!list_empty(&(proc->run_link))\<close>: the process is linked in some run queue.\<close>

definition on_rq :: "nat \<Rightarrow> 'a kernel_scheme \<Rightarrow> bool" where
  "on_rq p k \<longleftrightarrow> (\<exists>q \<in> set (rqs k). p \<in> set (run_list q))"

subsection \<open>The round-robin class\<close>

definition RR_init :: "nat \<Rightarrow> 'a kernel_scheme \<Rightarrow> 'a kernel_scheme" where
  "RR_init i k = upd_rq i (\<lambda>q. q\<lparr>run_list := [], proc_num := 0\<rparr>) k"

definition RR_enqueue :: "nat \<Rightarrow> nat \<Rightarrow> 'a kernel_scheme \<Rightarrow> 'a kernel_scheme option" where
  "RR_enqueue i p k = do {
     kassert (\<not> on_rq p k);
     let k1 = upd_rq i (\<lambda>q. q\<lparr>run_list := run_list q @ [p]\<rparr>) k;
     let slice = time_slice (procs k1 p);
     let maxs = max_time_slice (rqs k1 ! i);
     let k2 = (if slice = 0 \<or> slice > maxs then upd_proc p (\<lambda>pr. pr\<lparr>time_slice := maxs\<rparr>) k1 else k1);
     let k3 = upd_proc p (\<lambda>pr. pr\<lparr>rq := Some i\<rparr>) k2;
     Some (upd_rq i (\<lambda>q. q\<lparr>proc_num := proc_num q + 1\<rparr>) k3) }"

definition RR_dequeue :: "nat \<Rightarrow> nat \<Rightarrow> 'a kernel_scheme \<Rightarrow> 'a kernel_scheme option" where
  "RR_dequeue i p k = do {
     kassert (on_rq p k \<and> rq (procs k p) = Some i);
     let k1 = upd_rq i (\<lambda>q. q\<lparr>run_list := remove1 p (run_list q)\<rparr>) k;
     Some (upd_rq i (\<lambda>q. q\<lparr>proc_num := proc_num q - 1\<rparr>) k1) }"

definition RR_pick_next :: "nat \<Rightarrow> 'a kernel_scheme \<Rightarrow> nat option" where
  "RR_pick_next i k = (case run_list (rqs k ! i) of [] \<Rightarrow> None | p # _ \<Rightarrow> Some p)"

definition RR_proc_tick :: "nat \<Rightarrow> 'a kernel_scheme \<Rightarrow> 'a kernel_scheme" where
  "RR_proc_tick p k =
     (let k1 = (if time_slice (procs k p) > 0
                then upd_proc p (\<lambda>pr. pr\<lparr>time_slice := time_slice pr - 1\<rparr>) k else k)
      in if time_slice (procs k1 p) = 0 then upd_proc p (\<lambda>pr. pr\<lparr>need_resched := True\<rparr>) k1 else k1)"

subsection \<open>The multi-level feedback queue\<close>

text \<open>The queues hang in a ring, so the loops start at queue 0 and end when they come back to it.\<close>

definition rq_next :: "nat \<Rightarrow> 'a kernel_scheme \<Rightarrow> nat" where
  "rq_next i k = Suc i mod length (rqs k)"

definition MLFQ_init :: "'a kernel_scheme \<Rightarrow> 'a kernel_scheme" where
  "MLFQ_init k = fold RR_init [0..<length (rqs k)] k"

definition MLFQ_enqueue :: "nat \<Rightarrow> 'a kernel_scheme \<Rightarrow> 'a kernel_scheme option" where
  "MLFQ_enqueue p k = do {
     kassert (\<not> on_rq p k);
     let nrq = (case rq (procs k p) of
                  None \<Rightarrow> 0
                | Some i \<Rightarrow> if time_slice (procs k p) = 0
                            then (let n = rq_next i k in if n = 0 then i else n)
                            else 0);
     RR_enqueue nrq p k }"

text \<open>Dequeuing a process with no queue dereferences \<^verbatim>\<open>NULL\<close>.\<close>

definition MLFQ_dequeue :: "nat \<Rightarrow> 'a kernel_scheme \<Rightarrow> 'a kernel_scheme option" where
  "MLFQ_dequeue p k = do {
     kassert (on_rq p k);
     i \<leftarrow> rq (procs k p);
     RR_dequeue i p k }"

text \<open>The first queue, in ring order, from which round robin picks a process.\<close>

fun MLFQ_pick_from :: "nat list \<Rightarrow> 'a kernel_scheme \<Rightarrow> nat option" where
  "MLFQ_pick_from [] k = None"
| "MLFQ_pick_from (i # is) k =
     (case RR_pick_next i k of Some p \<Rightarrow> Some p | None \<Rightarrow> MLFQ_pick_from is k)"

definition MLFQ_pick_next :: "'a kernel_scheme \<Rightarrow> nat option" where
  "MLFQ_pick_next k = MLFQ_pick_from [0..<length (rqs k)] k"

definition MLFQ_proc_tick :: "nat \<Rightarrow> 'a kernel_scheme \<Rightarrow> 'a kernel_scheme" where
  "MLFQ_proc_tick p k = RR_proc_tick p k"

subsection \<open>The scheduler core\<close>

definition sched_class_enqueue :: "nat \<Rightarrow> 'a kernel_scheme \<Rightarrow> 'a kernel_scheme option" where
  "sched_class_enqueue p k = (if p \<noteq> idleproc k then MLFQ_enqueue p k else Some k)"

definition sched_class_dequeue :: "nat \<Rightarrow> 'a kernel_scheme \<Rightarrow> 'a kernel_scheme option" where
  "sched_class_dequeue p k = MLFQ_dequeue p k"

definition sched_class_pick_next :: "'a kernel_scheme \<Rightarrow> nat option" where
  "sched_class_pick_next k = MLFQ_pick_next k"

definition sched_class_proc_tick :: "nat \<Rightarrow> 'a kernel_scheme \<Rightarrow> 'a kernel_scheme" where
  "sched_class_proc_tick p k =
     (if p \<noteq> idleproc k then MLFQ_proc_tick p k else upd_proc p (\<lambda>pr. pr\<lparr>need_resched := True\<rparr>) k)"

text \<open>\<^verbatim>\<open>__rq\<close> has four queues; queue \<open>i\<close> gets the slice \<open>8 * (1 << i)\<close>.\<close>

definition sched_init :: "'a kernel_scheme \<Rightarrow> 'a kernel_scheme" where
  "sched_init k = MLFQ_init (k\<lparr>timer_list := [],
     rqs := map (\<lambda>i. \<lparr>run_list = [], proc_num = 0, max_time_slice = 8 * push_bit i 1\<rparr>) [0..<4]\<rparr>)"

definition wakeup_proc :: "nat \<Rightarrow> 'a kernel_scheme \<Rightarrow> 'a kernel_scheme option" where
  "wakeup_proc p k = do {
     kassert (state (procs k p) \<noteq> PROC_ZOMBIE);
     if state (procs k p) \<noteq> PROC_RUNNABLE then
       let k1 = upd_proc p (\<lambda>pr. pr\<lparr>state := PROC_RUNNABLE, wait_state := 0\<rparr>) k in
       if p \<noteq> current k1 then sched_class_enqueue p k1 else Some k1
     else Some k }"

definition schedule :: "'a kernel_scheme \<Rightarrow> 'a kernel_scheme option" where
  "schedule k = do {
     let k1 = upd_proc (current k) (\<lambda>pr. pr\<lparr>need_resched := False\<rparr>) k;
     k2 \<leftarrow> (if state (procs k1 (current k1)) = PROC_RUNNABLE then sched_class_enqueue (current k1) k1 else Some k1);
     let nxt = sched_class_pick_next k2;
     k3 \<leftarrow> (case nxt of Some p \<Rightarrow> sched_class_dequeue p k2 | None \<Rightarrow> Some k2);
     let n = (case nxt of Some p \<Rightarrow> p | None \<Rightarrow> idleproc k3);
     let k4 = upd_proc n (\<lambda>pr. pr\<lparr>runs := runs pr + 1\<rparr>) k3;
     Some (if n \<noteq> current k4 then k4\<lparr>current := n\<rparr> else k4) }"

subsection \<open>Timers\<close>

definition timer_init :: "nat \<Rightarrow> nat option \<Rightarrow> u32 \<Rightarrow> 'a kernel_scheme \<Rightarrow> 'a kernel_scheme" where
  "timer_init t p e k = k\<lparr>timers := (timers k)(t := \<lparr>expires = e, tproc = p\<rparr>)\<rparr>"

definition set_expires :: "nat \<Rightarrow> u32 \<Rightarrow> (nat \<Rightarrow> timer_t) \<Rightarrow> (nat \<Rightarrow> timer_t)" where
  "set_expires t e ts = ts(t := (ts t)\<lparr>expires := e\<rparr>)"

text \<open>The loop of \<open>add_timer\<close> from an entry on: the timers and the list from that entry with the new
  timer linked in.  Each timer counts from the one before it.\<close>

fun add_timer_walk :: "nat \<Rightarrow> nat list \<Rightarrow> (nat \<Rightarrow> timer_t) \<Rightarrow> (nat \<Rightarrow> timer_t) \<times> nat list" where
  "add_timer_walk t [] ts = (ts, [t])"
| "add_timer_walk t (n # ns) ts =
     (if expires (ts t) < expires (ts n)
      then (set_expires n (expires (ts n) - expires (ts t)) ts, t # n # ns)
      else let (ts', ns') = add_timer_walk t ns (set_expires t (expires (ts t) - expires (ts n)) ts)
           in (ts', n # ns'))"

definition add_timer :: "nat \<Rightarrow> 'a kernel_scheme \<Rightarrow> 'a kernel_scheme option" where
  "add_timer t k = do {
     kassert (expires (timers k t) > 0 \<and> tproc (timers k t) \<noteq> None);
     kassert (t \<notin> set (timer_list k));
     let (ts, tl') = add_timer_walk t (timer_list k) (timers k) in
     Some (k\<lparr>timers := ts, timer_list := tl'\<rparr>) }"

text \<open>The entry after \<open>t\<close>, if \<open>t\<close> is not the last.\<close>

fun succ_in :: "'a \<Rightarrow> 'a list \<Rightarrow> 'a option" where
  "succ_in x (y # z # zs) = (if x = y then Some z else succ_in x (z # zs))"
| "succ_in x _ = None"

definition del_timer :: "nat \<Rightarrow> 'a kernel_scheme \<Rightarrow> 'a kernel_scheme" where
  "del_timer t k =
     (if t \<in> set (timer_list k) then
        let ts = (if expires (timers k t) \<noteq> 0 then
                    (case succ_in t (timer_list k) of
                       Some n \<Rightarrow> set_expires n (expires (timers k n) + expires (timers k t)) (timers k)
                     | None \<Rightarrow> timers k)
                  else timers k)
        in k\<lparr>timers := ts, timer_list := remove1 t (timer_list k)\<rparr>
      else k)"

text \<open>The loop of \<open>run_timer_list\<close>: wake the owners of the timers that reached 0.  The argument is the
  rest of the timer list, from the timer at hand; a timer without a process dereferences \<^verbatim>\<open>NULL\<close>.\<close>

fun run_expired :: "nat list \<Rightarrow> 'a kernel_scheme \<Rightarrow> 'a kernel_scheme option" where
  "run_expired [] k = Some k"
| "run_expired (t # ts) k =
     (if expires (timers k t) = 0 then do {
        p \<leftarrow> tproc (timers k t);
        (if wait_state (procs k p) \<noteq> 0
         then kassert (wait_state (procs k p) AND WT_INTERRUPTED \<noteq> 0) else Some ());
        k1 \<leftarrow> wakeup_proc p k;
        run_expired ts (del_timer t k1) }
      else Some k)"

definition run_timer_list :: "'a kernel_scheme \<Rightarrow> 'a kernel_scheme option" where
  "run_timer_list k = do {
     k1 \<leftarrow> (case timer_list k of
              [] \<Rightarrow> Some k
            | t # ts \<Rightarrow> do {
                kassert (expires (timers k t) \<noteq> 0);
                run_expired (t # ts) (k\<lparr>timers := set_expires t (expires (timers k t) - 1) (timers k)\<rparr>) });
     Some (sched_class_proc_tick (current k1) k1) }"

subsection \<open>The callers in \<^verbatim>\<open>proc.c\<close>\<close>

definition WT_TIMER :: u32 where "WT_TIMER = 0x2 OR WT_INTERRUPTED"

definition do_yield :: "'a kernel_scheme \<Rightarrow> 'a kernel_scheme" where
  "do_yield k = upd_proc (current k) (\<lambda>pr. pr\<lparr>need_resched := True\<rparr>) k"

text \<open>\<open>do_sleep\<close> gives up the processor in \<open>schedule\<close>; \<open>do_sleep_enter\<close> is the part up to that switch and
  \<open>do_sleep_leave\<close> what the process does when it runs again.  \<open>t\<close> names the timer on its stack.\<close>

definition do_sleep_enter :: "nat \<Rightarrow> u32 \<Rightarrow> 'a kernel_scheme \<Rightarrow> 'a kernel_scheme option" where
  "do_sleep_enter t time k =
     (if time = 0 then Some k else do {
        let k1 = timer_init t (Some (current k)) time k;
        let k2 = upd_proc (current k1) (\<lambda>pr. pr\<lparr>state := PROC_SLEEPING, wait_state := WT_TIMER\<rparr>) k1;
        k3 \<leftarrow> add_timer t k2;
        schedule k3 })"

definition do_sleep_leave :: "nat \<Rightarrow> 'a kernel_scheme \<Rightarrow> 'a kernel_scheme" where
  "do_sleep_leave t k = del_timer t k"

subsection \<open>Run queue invariant\<close>

definition queued :: "'a kernel_scheme \<Rightarrow> nat list" where
  "queued k = concat (map run_list (rqs k))"

definition queue_ok :: "'a kernel_scheme \<Rightarrow> nat \<Rightarrow> bool" where
  "queue_ok k i \<longleftrightarrow> 0 < max_time_slice (rqs k ! i)
     \<and> proc_num (rqs k ! i) = of_nat (length (run_list (rqs k ! i)))
     \<and> (\<forall>p \<in> set (run_list (rqs k ! i)). rq (procs k p) = Some i
          \<and> 0 < time_slice (procs k p) \<and> time_slice (procs k p) \<le> max_time_slice (rqs k ! i))"

definition rq_inv :: "'a kernel_scheme \<Rightarrow> bool" where
  "rq_inv k \<longleftrightarrow> rqs k \<noteq> [] \<and> distinct (queued k) \<and> (\<forall>i < length (rqs k). queue_ok k i)
     \<and> (\<forall>p. 0 \<le> time_slice (procs k p)) \<and> (\<forall>p i. rq (procs k p) = Some i \<longrightarrow> i < length (rqs k))"

lemma on_rq_queued: "on_rq p k \<longleftrightarrow> p \<in> set (queued k)"
  by (auto simp: on_rq_def queued_def)

lemma queued_member: "p \<in> set (queued k) \<longleftrightarrow> (\<exists>i < length (rqs k). p \<in> set (run_list (rqs k ! i)))"
  by (auto simp: queued_def set_conv_nth [of "rqs k"])

lemma rq_invD:
  assumes "rq_inv k" and "i < length (rqs k)"
  shows "0 < max_time_slice (rqs k ! i)" and "proc_num (rqs k ! i) = of_nat (length (run_list (rqs k ! i)))"
    and "\<And>p. p \<in> set (run_list (rqs k ! i)) \<Longrightarrow> rq (procs k p) = Some i \<and> 0 < time_slice (procs k p)
      \<and> time_slice (procs k p) \<le> max_time_slice (rqs k ! i)"
    and "distinct (run_list (rqs k ! i))"
proof -
  have "queue_ok k i" using assms by (simp add: rq_inv_def)
  then show "0 < max_time_slice (rqs k ! i)" "proc_num (rqs k ! i) = of_nat (length (run_list (rqs k ! i)))"
    "\<And>p. p \<in> set (run_list (rqs k ! i)) \<Longrightarrow> rq (procs k p) = Some i \<and> 0 < time_slice (procs k p)
      \<and> time_slice (procs k p) \<le> max_time_slice (rqs k ! i)"
    by (simp_all add: queue_ok_def)
  show "distinct (run_list (rqs k ! i))"
    using assms by (auto simp: rq_inv_def queued_def distinct_concat_iff)
qed

lemma rq_inv_fields:
  assumes "rq_inv k"
  shows "rqs k \<noteq> []" and "distinct (queued k)" and "\<And>p. 0 \<le> time_slice (procs k p)"
    and "\<And>p i. rq (procs k p) = Some i \<Longrightarrow> i < length (rqs k)"
  using assms by (simp_all add: rq_inv_def)

lemma rq_invI:
  assumes "rqs k \<noteq> []" and "distinct (queued k)" and "\<And>i. i < length (rqs k) \<Longrightarrow> queue_ok k i"
    and "\<And>p. 0 \<le> time_slice (procs k p)" and "\<And>p i. rq (procs k p) = Some i \<Longrightarrow> i < length (rqs k)"
  shows "rq_inv k"
  using assms by (simp add: rq_inv_def)

lemma queued_split:
  assumes "i < length (rqs k)"
  obtains A B where "queued k = A @ run_list (rqs k ! i) @ B"
    "\<And>q. concat (map run_list ((rqs k)[i := q])) = A @ run_list q @ B"
proof
  let ?A = "concat (map run_list (take i (rqs k)))" and ?B = "concat (map run_list (drop (Suc i) (rqs k)))"
  show "queued k = ?A @ run_list (rqs k ! i) @ ?B"
    unfolding queued_def by (subst id_take_nth_drop [OF assms]) simp
  show "concat (map run_list ((rqs k)[i := q])) = ?A @ run_list q @ ?B" for q
    using assms by (simp add: upd_conv_take_nth_drop)
qed

lemma upd_fields [simp]:
  "procs (upd_proc p f k) = (procs k)(p := f (procs k p))" "rqs (upd_proc p f k) = rqs k"
  "current (upd_proc p f k) = current k" "idleproc (upd_proc p f k) = idleproc k"
  "timers (upd_proc p f k) = timers k" "timer_list (upd_proc p f k) = timer_list k"
  "kernel.more (upd_proc p f k) = kernel.more k"
  "procs (upd_rq i g k) = procs k" "rqs (upd_rq i g k) = (rqs k)[i := g (rqs k ! i)]"
  "current (upd_rq i g k) = current k" "idleproc (upd_rq i g k) = idleproc k"
  "timers (upd_rq i g k) = timers k" "timer_list (upd_rq i g k) = timer_list k"
  "kernel.more (upd_rq i g k) = kernel.more k"
  by (simp_all add: upd_proc_def upd_rq_def)

text \<open>The two queue operations in one piece.\<close>

definition enq :: "nat \<Rightarrow> nat \<Rightarrow> 'a kernel_scheme \<Rightarrow> 'a kernel_scheme" where
  "enq i p k = upd_rq i (\<lambda>q. q\<lparr>run_list := run_list q @ [p], proc_num := proc_num q + 1\<rparr>)
     (upd_proc p (\<lambda>pr. pr\<lparr>time_slice :=
        (if time_slice pr = 0 \<or> time_slice pr > max_time_slice (rqs k ! i)
         then max_time_slice (rqs k ! i) else time_slice pr), rq := Some i\<rparr>) k)"

definition deq :: "nat \<Rightarrow> nat \<Rightarrow> 'a kernel_scheme \<Rightarrow> 'a kernel_scheme" where
  "deq i p k = upd_rq i (\<lambda>q. q\<lparr>run_list := remove1 p (run_list q), proc_num := proc_num q - 1\<rparr>) k"

lemma RR_enqueue_eq:
  assumes "i < length (rqs k)" and "p \<notin> set (queued k)"
  shows "RR_enqueue i p k = Some (enq i p k)"
  using assms by (simp add: RR_enqueue_def on_rq_queued enq_def upd_proc_def upd_rq_def Let_def)

lemma RR_dequeue_eq:
  assumes "i < length (rqs k)" and "p \<in> set (queued k)" and "rq (procs k p) = Some i"
  shows "RR_dequeue i p k = Some (deq i p k)"
  using assms by (simp add: RR_dequeue_def on_rq_queued deq_def upd_rq_def)

lemma enq_length [simp]: "length (rqs (enq i p k)) = length (rqs k)"
  by (simp add: enq_def)

lemma deq_length [simp]: "length (rqs (deq i p k)) = length (rqs k)"
  by (simp add: deq_def)

lemma enq_inv:
  assumes inv: "rq_inv k" and i: "i < length (rqs k)" and p: "p \<notin> set (queued k)"
  shows "rq_inv (enq i p k)" and "set (queued (enq i p k)) = insert p (set (queued k))"
proof -
  obtain A B where ab: "queued k = A @ run_list (rqs k ! i) @ B"
    "\<And>q. concat (map run_list ((rqs k)[i := q])) = A @ run_list q @ B"
    using queued_split [OF i] by blast
  have q: "queued (enq i p k) = A @ (run_list (rqs k ! i) @ [p]) @ B"
    unfolding queued_def [of "enq i p k"] by (simp add: enq_def ab(2))
  show "set (queued (enq i p k)) = insert p (set (queued k))" unfolding q ab(1) by auto
  show "rq_inv (enq i p k)"
  proof (rule rq_invI)
    show "rqs (enq i p k) \<noteq> []" using rq_inv_fields(1) [OF inv] by (simp add: enq_def)
    show "distinct (queued (enq i p k))" using rq_inv_fields(2) [OF inv] p unfolding q ab(1) by auto
    show "queue_ok (enq i p k) j" if "j < length (rqs (enq i p k))" for j
    proof -
      have j: "j < length (rqs k)" using that by (simp add: enq_def)
      have np: "r \<noteq> p" if "r \<in> set (run_list (rqs k ! j))" for r
        using p that j by (auto simp: queued_member)
      show ?thesis
        using rq_invD(1-3) [OF inv j] rq_invD(1) [OF inv i] rq_inv_fields(3) [OF inv, of p] np i
        by (cases "j = i") (auto simp: queue_ok_def enq_def)
    qed
    show "0 \<le> time_slice (procs (enq i p k) r)" for r
      using rq_inv_fields(3) [OF inv, of r] rq_invD(1) [OF inv i] by (auto simp: enq_def)
    show "j < length (rqs (enq i p k))" if "rq (procs (enq i p k) r) = Some j" for r j
      using that i rq_inv_fields(4) [OF inv, of r j] by (auto simp: enq_def split: if_splits)
  qed
qed

lemma deq_inv:
  assumes inv: "rq_inv k" and p: "p \<in> set (queued k)" and i: "rq (procs k p) = Some i"
  shows "rq_inv (deq i p k)" and "set (queued (deq i p k)) = set (queued k) - {p}" and "i < length (rqs k)"
proof -
  show il: "i < length (rqs k)" using inv i by (simp add: rq_inv_def)
  obtain A B where ab: "queued k = A @ run_list (rqs k ! i) @ B"
    "\<And>q. concat (map run_list ((rqs k)[i := q])) = A @ run_list q @ B"
    using queued_split [OF il] by blast
  have mem: "p \<in> set (run_list (rqs k ! i))"
  proof -
    obtain j where "j < length (rqs k)" "p \<in> set (run_list (rqs k ! j))" using p by (auto simp: queued_member)
    moreover from this have "rq (procs k p) = Some j" using rq_invD(3) [OF inv] by blast
    ultimately show ?thesis using i by simp
  qed
  have d: "distinct (A @ run_list (rqs k ! i) @ B)" using inv ab(1) by (simp add: rq_inv_def)
  have q: "queued (deq i p k) = A @ remove1 p (run_list (rqs k ! i)) @ B"
    unfolding queued_def [of "deq i p k"] by (simp add: deq_def ab(2))
  show "set (queued (deq i p k)) = set (queued k) - {p}" using d mem unfolding q ab(1) by auto
  show "rq_inv (deq i p k)"
  proof (rule rq_invI)
    show "rqs (deq i p k) \<noteq> []" using rq_inv_fields(1) [OF inv] by (simp add: deq_def)
    show "distinct (queued (deq i p k))" using d unfolding q by auto
    show "queue_ok (deq i p k) j" if "j < length (rqs (deq i p k))" for j
    proof -
      have j: "j < length (rqs k)" using that by (simp add: deq_def)
      have "0 < length (run_list (rqs k ! i))" using mem by (auto intro: length_pos_if_in_set)
      note of_nat_pred [OF this, where 'a = 32]
      then show ?thesis using rq_invD [OF inv j] il mem
        by (cases "j = i") (auto simp: queue_ok_def deq_def length_remove1)
    qed
  qed (use rq_inv_fields [OF inv] in \<open>auto simp: deq_def\<close>)
qed

subsection \<open>The interface of a scheduling class\<close>

text \<open>\<^verbatim>\<open>struct sched_class\<close>: what the core relies on.  \<open>order k\<close> lists the queued processes in the order in
  which they would be picked.\<close>

locale scheduling_class =
  fixes inv :: "'k \<Rightarrow> bool"
    and order :: "'k \<Rightarrow> nat list"
    and enqueue :: "nat \<Rightarrow> 'k \<Rightarrow> 'k option"
    and dequeue :: "nat \<Rightarrow> 'k \<Rightarrow> 'k option"
    and pick_next :: "'k \<Rightarrow> nat option"
  assumes order_distinct: "inv k \<Longrightarrow> distinct (order k)"
    and enqueue_ok: "inv k \<Longrightarrow> p \<notin> set (order k) \<Longrightarrow>
      \<exists>k'. enqueue p k = Some k' \<and> inv k' \<and> set (order k') = insert p (set (order k))"
    and enqueue_panic: "inv k \<Longrightarrow> p \<in> set (order k) \<Longrightarrow> enqueue p k = None"
    and dequeue_ok: "inv k \<Longrightarrow> p \<in> set (order k) \<Longrightarrow>
      \<exists>k'. dequeue p k = Some k' \<and> inv k' \<and> set (order k') = set (order k) - {p}"
    and pick_next: "inv k \<Longrightarrow> pick_next k = (case order k of [] \<Rightarrow> None | p # _ \<Rightarrow> Some p)"
begin

lemma pick_member: "inv k \<Longrightarrow> pick_next k = Some p \<Longrightarrow> p \<in> set (order k)"
  by (auto simp: pick_next split: list.splits)

lemma pick_none: "inv k \<Longrightarrow> pick_next k = None \<longleftrightarrow> order k = []"
  by (auto simp: pick_next split: list.splits)

text \<open>Picking and removing, as the core does, never panics and loses no other process.\<close>

lemma pick_dequeue:
  assumes "inv k" and "pick_next k = Some p"
  shows "\<exists>k'. dequeue p k = Some k' \<and> inv k' \<and> set (order k) = insert p (set (order k')) \<and> p \<notin> set (order k')"
  using dequeue_ok [OF assms(1) pick_member [OF assms]] pick_member [OF assms] by auto

end

lemma RR_pick_eq: "RR_pick_next i k = (case run_list (rqs k ! i) of [] \<Rightarrow> None | p # _ \<Rightarrow> Some p)"
  by (simp add: RR_pick_next_def)

lemma MLFQ_pick_from_eq:
  "MLFQ_pick_from is k = (case concat (map (\<lambda>i. run_list (rqs k ! i)) is) of [] \<Rightarrow> None | p # _ \<Rightarrow> Some p)"
proof (induction "is")
  case (Cons a "is")
  then show ?case by (cases "run_list (rqs k ! a)") (simp_all add: RR_pick_next_def)
qed simp

lemma MLFQ_pick_next_eq: "MLFQ_pick_next k = (case queued k of [] \<Rightarrow> None | p # _ \<Rightarrow> Some p)"
proof -
  have "map (\<lambda>i. run_list (rqs k ! i)) [0..<length (rqs k)] = map run_list (map (\<lambda>i. rqs k ! i) [0..<length (rqs k)])"
    by simp
  then show ?thesis by (simp only: MLFQ_pick_next_def MLFQ_pick_from_eq queued_def map_nth)
qed

text \<open>The queue into which a process is put: one level down when it has used up its slice.\<close>

definition mlfq_level :: "nat \<Rightarrow> 'a kernel_scheme \<Rightarrow> nat" where
  "mlfq_level p k = (case rq (procs k p) of
      None \<Rightarrow> 0
    | Some i \<Rightarrow> if time_slice (procs k p) = 0 then (if Suc i < length (rqs k) then Suc i else i) else 0)"

lemma mlfq_level_less: "rq_inv k \<Longrightarrow> mlfq_level p k < length (rqs k)"
  using rq_inv_fields(1,4) [of k] by (auto simp: mlfq_level_def split: option.splits)

lemma MLFQ_enqueue_eq:
  assumes inv: "rq_inv k" and p: "p \<notin> set (queued k)"
  shows "MLFQ_enqueue p k = Some (enq (mlfq_level p k) p k)"
proof -
  have nrq: "(case rq (procs k p) of None \<Rightarrow> 0
      | Some i \<Rightarrow> if time_slice (procs k p) = 0 then (let n = rq_next i k in if n = 0 then i else n) else 0)
    = mlfq_level p k"
    using rq_inv_fields(4) [OF inv, of p]
    by (auto simp: mlfq_level_def rq_next_def Let_def mod_Suc split: option.splits)
  show ?thesis
    unfolding MLFQ_enqueue_def nrq using RR_enqueue_eq [OF mlfq_level_less [OF inv] p] p
    by (simp add: on_rq_queued)
qed

lemma MLFQ_dequeue_eq:
  assumes inv: "rq_inv k" and p: "p \<in> set (queued k)"
  obtains i where "rq (procs k p) = Some i" "MLFQ_dequeue p k = Some (deq i p k)"
proof -
  obtain i where i: "i < length (rqs k)" "p \<in> set (run_list (rqs k ! i))" using p by (auto simp: queued_member)
  then have "rq (procs k p) = Some i" using rq_invD(3) [OF inv] by blast
  then show thesis using that RR_dequeue_eq [OF i(1) p] p by (simp add: MLFQ_dequeue_def on_rq_queued)
qed

interpretation mlfq: scheduling_class rq_inv queued MLFQ_enqueue MLFQ_dequeue MLFQ_pick_next
proof
  fix k :: "'a kernel_scheme" and p :: nat
  assume inv: "rq_inv k"
  show "distinct (queued k)" by (rule rq_inv_fields(2) [OF inv])
  show "\<exists>k'. MLFQ_enqueue p k = Some k' \<and> rq_inv k' \<and> set (queued k') = insert p (set (queued k))"
    if "p \<notin> set (queued k)"
    using MLFQ_enqueue_eq [OF inv that] enq_inv [OF inv mlfq_level_less [OF inv] that] by blast
  show "MLFQ_enqueue p k = None" if "p \<in> set (queued k)"
    using that by (simp add: MLFQ_enqueue_def on_rq_queued)
  show "\<exists>k'. MLFQ_dequeue p k = Some k' \<and> rq_inv k' \<and> set (queued k') = set (queued k) - {p}"
    if "p \<in> set (queued k)"
    using MLFQ_dequeue_eq [OF inv that] deq_inv [OF inv that] by metis
  show "MLFQ_pick_next k = (case queued k of [] \<Rightarrow> None | p # _ \<Rightarrow> Some p)" by (rule MLFQ_pick_next_eq)
qed

text \<open>Round robin alone is a class too, on a single queue.\<close>

definition rr_inv :: "'a kernel_scheme \<Rightarrow> bool" where
  "rr_inv k \<longleftrightarrow> rq_inv k \<and> length (rqs k) = 1"

interpretation rr: scheduling_class rr_inv queued "RR_enqueue 0" "RR_dequeue 0" "RR_pick_next 0"
proof
  fix k :: "'a kernel_scheme" and p :: nat
  assume "rr_inv k"
  then have inv: "rq_inv k" and len: "0 < length (rqs k)" "length (rqs k) = 1" by (auto simp: rr_inv_def)
  show "distinct (queued k)" by (rule rq_inv_fields(2) [OF inv])
  show "\<exists>k'. RR_enqueue 0 p k = Some k' \<and> rr_inv k' \<and> set (queued k') = insert p (set (queued k))"
    if "p \<notin> set (queued k)"
    using RR_enqueue_eq [OF len(1) that] enq_inv [OF inv len(1) that] len(2) by (simp add: rr_inv_def)
  show "RR_enqueue 0 p k = None" if "p \<in> set (queued k)"
    using that by (simp add: RR_enqueue_def on_rq_queued)
  show "\<exists>k'. RR_dequeue 0 p k = Some k' \<and> rr_inv k' \<and> set (queued k') = set (queued k) - {p}"
    if p: "p \<in> set (queued k)"
  proof -
    have "rq (procs k p) = Some 0" using p len rq_invD(3) [OF inv] by (auto simp: queued_member)
    then show ?thesis using RR_dequeue_eq [OF len(1) p] deq_inv [OF inv p] len(2) by (simp add: rr_inv_def)
  qed
  obtain q where "rqs k = [q]" using len(2) by (auto simp: length_Suc_conv)
  then have "queued k = run_list (rqs k ! 0)" by (simp add: queued_def)
  then show "RR_pick_next 0 k = (case queued k of [] \<Rightarrow> None | p # _ \<Rightarrow> Some p)"
    by (simp add: RR_pick_next_def)
qed

subsection \<open>No runnable process is lost\<close>

text \<open>The queued processes are exactly the runnable ones other than the running and the idle process.\<close>

definition sched_inv :: "'a kernel_scheme \<Rightarrow> bool" where
  "sched_inv k \<longleftrightarrow> rq_inv k \<and>
     (\<forall>p. p \<in> set (queued k) \<longleftrightarrow> state (procs k p) = PROC_RUNNABLE \<and> p \<noteq> current k \<and> p \<noteq> idleproc k)"

lemma sched_invD:
  assumes "sched_inv k"
  shows "rq_inv k" and "p \<in> set (queued k) \<longleftrightarrow> state (procs k p) = PROC_RUNNABLE \<and> p \<noteq> current k \<and> p \<noteq> idleproc k"
  using assms by (simp_all add: sched_inv_def)

text \<open>Changing fields the queues do not depend on keeps the queue invariant.\<close>

lemma rq_inv_cong:
  assumes "rq_inv k" and "rqs k' = rqs k"
    and "\<And>p. rq (procs k' p) = rq (procs k p) \<and> time_slice (procs k' p) = time_slice (procs k p)"
  shows "rq_inv k'" and "queued k' = queued k"
proof -
  show q: "queued k' = queued k" by (simp add: queued_def assms(2))
  have "queue_ok k' i = queue_ok k i" for i using assms(2,3) by (simp add: queue_ok_def)
  then show "rq_inv k'" using assms q by (simp add: rq_inv_def)
qed

lemma upd_proc_inv:
  assumes "rq_inv k" and "\<And>pr. rq (f pr) = rq pr \<and> time_slice (f pr) = time_slice pr"
  shows "rq_inv (upd_proc p f k)" and "queued (upd_proc p f k) = queued k"
  using rq_inv_cong [OF assms(1), of "upd_proc p f k"] assms(2) by simp_all

lemma enq_fields [simp]:
  "current (enq i p k) = current k" "idleproc (enq i p k) = idleproc k"
  "timers (enq i p k) = timers k" "timer_list (enq i p k) = timer_list k"
  "state (procs (enq i p k) r) = state (procs k r)"
  "wait_state (procs (enq i p k) r) = wait_state (procs k r)"
  "kernel.more (enq i p k) = kernel.more k"
  by (simp_all add: enq_def)

lemma deq_fields [simp]:
  "current (deq i p k) = current k" "idleproc (deq i p k) = idleproc k"
  "timers (deq i p k) = timers k" "timer_list (deq i p k) = timer_list k"
  "procs (deq i p k) = procs k" "kernel.more (deq i p k) = kernel.more k"
  by (simp_all add: deq_def)

lemma wakeup_proc_ok:
  assumes inv: "sched_inv k" and z: "state (procs k p) \<noteq> PROC_ZOMBIE"
  obtains k' where "wakeup_proc p k = Some k'" "sched_inv k'"
    "\<And>r. state (procs k' r) = (if r = p then PROC_RUNNABLE else state (procs k r))"
    "\<And>r. wait_state (procs k' r) = (if r = p \<and> state (procs k p) \<noteq> PROC_RUNNABLE then 0 else wait_state (procs k r))"
    "current k' = current k" "idleproc k' = idleproc k" "timers k' = timers k" "timer_list k' = timer_list k"
    "kernel.more k' = kernel.more k"
proof (cases "state (procs k p) = PROC_RUNNABLE")
  case True
  then show thesis using that [of k] inv by (auto simp: wakeup_proc_def)
next
  case False
  let ?k1 = "upd_proc p (\<lambda>pr. pr\<lparr>state := PROC_RUNNABLE, wait_state := 0\<rparr>) k"
  have rq: "rq_inv ?k1" "queued ?k1 = queued k"
    using upd_proc_inv [OF sched_invD(1) [OF inv]] by simp_all
  have np: "p \<notin> set (queued ?k1)" using False sched_invD(2) [OF inv] rq(2) by simp
  show thesis
  proof (cases "p \<noteq> current k \<and> p \<noteq> idleproc k")
    case True
    let ?k2 = "enq (mlfq_level p ?k1) p ?k1"
    have res: "wakeup_proc p k = Some ?k2"
      using z False True MLFQ_enqueue_eq [OF rq(1) np]
      by (simp add: wakeup_proc_def sched_class_enqueue_def Let_def)
    have "sched_inv ?k2"
      using enq_inv [OF rq(1) mlfq_level_less [OF rq(1)] np] sched_invD(2) [OF inv] True
      by (auto simp: sched_inv_def rq(2))
    then show thesis using that [OF res] False by simp
  next
    case idle: False
    have res: "wakeup_proc p k = Some ?k1"
      using z False idle by (auto simp: wakeup_proc_def sched_class_enqueue_def Let_def)
    have "sched_inv ?k1" using rq sched_invD(2) [OF inv] False idle by (auto simp: sched_inv_def)
    then show thesis using that [OF res] False by simp
  qed
qed

text \<open>The first half of \<open>schedule\<close>: the running process goes back to its queue if it can still run.\<close>

definition requeue :: "'a kernel_scheme \<Rightarrow> 'a kernel_scheme" where
  "requeue k =
     (let k1 = upd_proc (current k) (\<lambda>pr. pr\<lparr>need_resched := False\<rparr>) k
      in if state (procs k (current k)) = PROC_RUNNABLE \<and> current k \<noteq> idleproc k
         then enq (mlfq_level (current k) k1) (current k) k1 else k1)"

lemma requeue_inv:
  assumes inv: "sched_inv k"
  shows "rq_inv (requeue k)"
    and "set (queued (requeue k)) = {p. state (procs k p) = PROC_RUNNABLE \<and> p \<noteq> idleproc k}"
    and "current (requeue k) = current k" and "idleproc (requeue k) = idleproc k"
    and "state (procs (requeue k) r) = state (procs k r)"
    and "wait_state (procs (requeue k) r) = wait_state (procs k r)"
    and "timers (requeue k) = timers k" and "timer_list (requeue k) = timer_list k"
    and "kernel.more (requeue k) = kernel.more k"
proof -
  let ?k1 = "upd_proc (current k) (\<lambda>pr. pr\<lparr>need_resched := False\<rparr>) k"
  have rq: "rq_inv ?k1" "queued ?k1 = queued k"
    using upd_proc_inv [OF sched_invD(1) [OF inv]] by simp_all
  have np: "current k \<notin> set (queued ?k1)" using sched_invD(2) [OF inv] rq(2) by simp
  note e = enq_inv [OF rq(1) mlfq_level_less [OF rq(1)] np]
  show "rq_inv (requeue k)" using rq e by (simp add: requeue_def Let_def)
  show "set (queued (requeue k)) = {p. state (procs k p) = PROC_RUNNABLE \<and> p \<noteq> idleproc k}"
    using rq(2) e(2) sched_invD(2) [OF inv] by (auto simp: requeue_def Let_def)
  show "current (requeue k) = current k" "idleproc (requeue k) = idleproc k"
    "state (procs (requeue k) r) = state (procs k r)"
    "wait_state (procs (requeue k) r) = wait_state (procs k r)"
    "timers (requeue k) = timers k" "timer_list (requeue k) = timer_list k"
    "kernel.more (requeue k) = kernel.more k"
    by (simp_all add: requeue_def Let_def)
qed

text \<open>\<open>schedule\<close> as a whole: requeue, take the first of the queue, count its run.\<close>

lemma schedule_eq:
  assumes inv: "sched_inv k"
  obtains (run) p ps i where "queued (requeue k) = p # ps" "rq (procs (requeue k) p) = Some i"
      "schedule k = Some ((upd_proc p (\<lambda>pr. pr\<lparr>runs := runs pr + 1\<rparr>) (deq i p (requeue k)))\<lparr>current := p\<rparr>)"
  | (idle) "queued (requeue k) = []"
      "schedule k = Some ((upd_proc (idleproc k) (\<lambda>pr. pr\<lparr>runs := runs pr + 1\<rparr>) (requeue k))\<lparr>current := idleproc k\<rparr>)"
proof -
  let ?k1 = "upd_proc (current k) (\<lambda>pr. pr\<lparr>need_resched := False\<rparr>) k"
  have rq: "rq_inv ?k1" "queued ?k1 = queued k"
    using upd_proc_inv [OF sched_invD(1) [OF inv]] by simp_all
  have np: "current k \<notin> set (queued ?k1)" using sched_invD(2) [OF inv] rq(2) by simp
  have first: "(if state (procs ?k1 (current ?k1)) = PROC_RUNNABLE
      then sched_class_enqueue (current ?k1) ?k1 else Some ?k1) = Some (requeue k)"
    using MLFQ_enqueue_eq [OF rq(1) np] by (simp add: requeue_def sched_class_enqueue_def Let_def)
  note rk = requeue_inv [OF inv]
  show thesis
  proof (cases "queued (requeue k)")
    case Nil
    then have "sched_class_pick_next (requeue k) = None"
      by (simp add: sched_class_pick_next_def MLFQ_pick_next_eq)
    then have "schedule k = Some ((upd_proc (idleproc k) (\<lambda>pr. pr\<lparr>runs := runs pr + 1\<rparr>) (requeue k))\<lparr>current := idleproc k\<rparr>)"
      unfolding schedule_def Let_def first by (simp add: rk)
    then show thesis using idle Nil by simp
  next
    case (Cons p ps)
    then have pick: "sched_class_pick_next (requeue k) = Some p"
      by (simp add: sched_class_pick_next_def MLFQ_pick_next_eq)
    obtain i where i: "rq (procs (requeue k) p) = Some i" "MLFQ_dequeue p (requeue k) = Some (deq i p (requeue k))"
      using MLFQ_dequeue_eq [OF rk(1), of p] Cons by auto
    have "schedule k = Some ((upd_proc p (\<lambda>pr. pr\<lparr>runs := runs pr + 1\<rparr>) (deq i p (requeue k)))\<lparr>current := p\<rparr>)"
      unfolding schedule_def Let_def first using pick i(2) by (simp add: sched_class_dequeue_def)
    then show thesis using run Cons i(1) by blast
  qed
qed

lemma schedule_ok:
  assumes inv: "sched_inv k"
  obtains k' where "schedule k = Some k'" "sched_inv k'" "idleproc k' = idleproc k"
    "\<And>r. state (procs k' r) = state (procs k r)" "\<And>r. wait_state (procs k' r) = wait_state (procs k r)"
    "timers k' = timers k" "timer_list k' = timer_list k" "kernel.more k' = kernel.more k"
    "current k' = (case queued (requeue k) of [] \<Rightarrow> idleproc k | p # _ \<Rightarrow> p)"
proof -
  note rk = requeue_inv [OF inv]
  show thesis
  proof (rule schedule_eq [OF inv])
    fix p ps i
    let ?d = "deq i p (requeue k)"
    let ?k' = "(upd_proc p (\<lambda>pr. pr\<lparr>runs := runs pr + 1\<rparr>) ?d)\<lparr>current := p\<rparr>"
    assume a: "queued (requeue k) = p # ps" "rq (procs (requeue k) p) = Some i" "schedule k = Some ?k'"
    have d: "rq_inv ?d" "set (queued ?d) = set (queued (requeue k)) - {p}"
      using deq_inv [OF rk(1) _ a(2)] a(1) by simp_all
    have q: "rq_inv ?k'" "queued ?k' = queued ?d" using rq_inv_cong [OF d(1), of ?k'] by simp_all
    have "sched_inv ?k'" using q d(2) rk by (auto simp: sched_inv_def)
    then show thesis using that [OF a(3)] a(1) rk by simp
  next
    let ?k' = "(upd_proc (idleproc k) (\<lambda>pr. pr\<lparr>runs := runs pr + 1\<rparr>) (requeue k))\<lparr>current := idleproc k\<rparr>"
    assume a: "queued (requeue k) = []" "schedule k = Some ?k'"
    have q: "rq_inv ?k'" "queued ?k' = queued (requeue k)" using rq_inv_cong [OF rk(1), of ?k'] by simp_all
    have "sched_inv ?k'" using q rk by (auto simp: sched_inv_def)
    then show thesis using that [OF a(2)] a(1) rk by simp
  qed
qed

lemma RR_proc_tick_inv:
  assumes "sched_inv k" and "p = current k \<or> p = idleproc k"
  shows "sched_inv (RR_proc_tick p k)" and "rqs (RR_proc_tick p k) = rqs k"
    and "current (RR_proc_tick p k) = current k"
proof -
  let ?k = "RR_proc_tick p k"
  show rqs: "rqs ?k = rqs k" and cur: "current ?k = current k" by (simp_all add: RR_proc_tick_def Let_def)
  have idle: "idleproc ?k = idleproc k" and st: "state (procs ?k r) = state (procs k r)"
    and rq: "rq (procs ?k r) = rq (procs k r)" for r by (simp_all add: RR_proc_tick_def Let_def)
  have other: "procs ?k r = procs k r" if "r \<noteq> p" for r using that by (simp add: RR_proc_tick_def Let_def)
  note inv = sched_invD [OF assms(1)]
  have np: "p \<notin> set (queued k)" using inv(2) assms(2) by auto
  have qd: "queued ?k = queued k" by (simp add: queued_def rqs)
  have "rq_inv ?k"
  proof (rule rq_invI)
    show "rqs ?k \<noteq> []" "distinct (queued ?k)" using rq_inv_fields(1,2) [OF inv(1)] rqs qd by simp_all
    show "queue_ok ?k i" if "i < length (rqs ?k)" for i
    proof -
      have i: "i < length (rqs k)" using that rqs by simp
      then have "r \<noteq> p" if "r \<in> set (run_list (rqs k ! i))" for r using np that by (auto simp: queued_member)
      then show ?thesis using rq_invD(1-3) [OF inv(1) i] other by (simp add: queue_ok_def rqs)
    qed
    show "0 \<le> time_slice (procs ?k r)" for r
      using rq_inv_fields(3) [OF inv(1), of r] by (auto simp: RR_proc_tick_def Let_def)
    show "i < length (rqs ?k)" if "rq (procs ?k r) = Some i" for r i
      using that rq_inv_fields(4) [OF inv(1)] rq rqs by simp
  qed
  then show "sched_inv ?k" using inv(2) by (simp add: sched_inv_def qd st cur idle)
qed

lemma sched_class_proc_tick_inv:
  assumes "sched_inv k"
  shows "sched_inv (sched_class_proc_tick (current k) k)"
    and "rqs (sched_class_proc_tick (current k) k) = rqs k"
    and "current (sched_class_proc_tick (current k) k) = current k"
proof -
  let ?f = "\<lambda>pr. pr\<lparr>need_resched := True\<rparr>"
  have u: "rq_inv (upd_proc (current k) ?f k)" "queued (upd_proc (current k) ?f k) = queued k"
    using upd_proc_inv [OF sched_invD(1) [OF assms]] by simp_all
  then have "sched_inv (upd_proc (current k) ?f k)"
    using sched_invD(2) [OF assms] by (simp add: sched_inv_def)
  then show "sched_inv (sched_class_proc_tick (current k) k)"
    "rqs (sched_class_proc_tick (current k) k) = rqs k"
    "current (sched_class_proc_tick (current k) k) = current k"
    using RR_proc_tick_inv [OF assms, of "current k"]
    by (cases "current k = idleproc k"; simp add: sched_class_proc_tick_def MLFQ_proc_tick_def)+
qed

subsection \<open>Timers as absolute deadlines\<close>

text \<open>Each timer stores the ticks between its predecessor and itself; \<open>due\<close> adds them up.\<close>

fun deadlines :: "(nat \<Rightarrow> timer_t) \<Rightarrow> nat \<Rightarrow> nat list \<Rightarrow> (nat \<times> nat) list" where
  "deadlines ts acc [] = []"
| "deadlines ts acc (t # ns) =
     (t, acc + unat (expires (ts t))) # deadlines ts (acc + unat (expires (ts t))) ns"

definition due :: "'a kernel_scheme \<Rightarrow> (nat \<times> nat) list" where
  "due k = deadlines (timers k) 0 (timer_list k)"

definition timer_inv :: "'a kernel_scheme \<Rightarrow> bool" where
  "timer_inv k \<longleftrightarrow> distinct (timer_list k) \<and> (\<forall>(t, d) \<in> set (due k). 0 < d \<and> d < 2 ^ 32)
     \<and> (\<forall>t \<in> set (timer_list k). tproc (timers k t) \<noteq> None)"

lemma map_fst_deadlines [simp]: "map fst (deadlines ts acc ns) = ns"
  by (induction ns arbitrary: acc) auto

lemma map_fst_due [simp]: "map fst (due k) = timer_list k"
  by (simp add: due_def)

lemma deadlines_cong: "(\<And>n. n \<in> set ns \<Longrightarrow> expires (ts n) = expires (ts' n)) \<Longrightarrow> deadlines ts acc ns = deadlines ts' acc ns"
  by (induction ns arbitrary: acc) auto

lemma deadlines_append:
  "deadlines ts acc (as @ bs) = deadlines ts acc as @ deadlines ts (acc + (\<Sum>a\<leftarrow>as. unat (expires (ts a)))) bs"
  by (induction as arbitrary: acc) (auto simp: add.assoc)

lemma set_expires_simps [simp]:
  "expires (set_expires t e ts n) = (if n = t then e else expires (ts n))"
  "tproc (set_expires t e ts n) = tproc (ts n)"
  by (simp_all add: set_expires_def)

lemma add_timer_walk_frame:
  "add_timer_walk t ns ts = (ts', ns') \<Longrightarrow> n \<noteq> t \<Longrightarrow> n \<notin> set ns \<Longrightarrow> expires (ts' n) = expires (ts n)"
  by (induction t ns ts arbitrary: ts' ns' rule: add_timer_walk.induct) (auto split: if_splits prod.splits)

lemma add_timer_walk_tproc: "add_timer_walk t ns ts = (ts', ns') \<Longrightarrow> tproc (ts' n) = tproc (ts n)"
  by (induction t ns ts arbitrary: ts' ns' rule: add_timer_walk.induct) (fastforce split: if_splits prod.splits)+

lemma add_timer_walk_deadlines:
  assumes "add_timer_walk t ns ts = (ts', ns')" and "t \<notin> set ns" and "distinct ns"
  shows "deadlines ts' acc ns' =
    takeWhile (\<lambda>(_, d). d \<le> acc + unat (expires (ts t))) (deadlines ts acc ns)
    @ (t, acc + unat (expires (ts t)))
    # dropWhile (\<lambda>(_, d). d \<le> acc + unat (expires (ts t))) (deadlines ts acc ns)"
  using assms
proof (induction t ns ts arbitrary: ts' ns' acc rule: add_timer_walk.induct)
  case (1 t ts)
  then show ?case by auto
next
  case (2 t n ns ts)
  show ?case
  proof (cases "expires (ts t) < expires (ts n)")
    case True
    then have r: "ts' = set_expires n (expires (ts n) - expires (ts t)) ts" "ns' = t # n # ns"
      using "2.prems"(1) by auto
    have u: "unat (expires (ts n) - expires (ts t)) = unat (expires (ts n)) - unat (expires (ts t))"
      "unat (expires (ts t)) < unat (expires (ts n))"
      using unat_diff_le [OF less_imp_le [OF True]] True by (simp_all only: word_less_nat_alt)
    have "deadlines ts' (acc + unat (expires (ts n))) ns = deadlines ts (acc + unat (expires (ts n))) ns"
      using "2.prems"(3) unfolding r by (intro deadlines_cong) auto
    then show ?thesis using u "2.prems"(2) unfolding r by auto
  next
    case False
    let ?ts = "set_expires t (expires (ts t) - expires (ts n)) ts"
    obtain ns'' where w: "add_timer_walk t ns ?ts = (ts', ns'')" "ns' = n # ns''"
      using "2.prems"(1) False by (auto split: prod.splits)
    have u: "unat (expires (ts t) - expires (ts n)) = unat (expires (ts t)) - unat (expires (ts n))"
      "unat (expires (ts n)) \<le> unat (expires (ts t))"
      using False by (auto simp: unat_diff_le word_le_nat_alt not_less)
    have n: "expires (ts' n) = expires (ts n)"
      using add_timer_walk_frame [OF w(1), of n] "2.prems"(2,3) by auto
    have d: "deadlines ?ts a ns = deadlines ts a ns" for a
      using "2.prems"(2) by (intro deadlines_cong) auto
    show ?thesis
      using "2.IH" [OF False w(1), of "acc + unat (expires (ts n))"] "2.prems"(2,3) u
      unfolding w(2) d by (simp add: n)
  qed
qed

lemma add_timer_due:
  assumes inv: "timer_inv k" and t: "t \<notin> set (timer_list k)"
    and e: "expires (timers k t) \<noteq> 0" "tproc (timers k t) \<noteq> None"
  obtains k' where "add_timer t k = Some k'" "timer_inv k'"
    "due k' = takeWhile (\<lambda>(_, d). d \<le> unat (expires (timers k t))) (due k)
      @ (t, unat (expires (timers k t))) # dropWhile (\<lambda>(_, d). d \<le> unat (expires (timers k t))) (due k)"
    "k' = k\<lparr>timers := timers k', timer_list := timer_list k'\<rparr>"
    "\<And>n. tproc (timers k' n) = tproc (timers k n)" "set (timer_list k') = insert t (set (timer_list k))"
proof -
  obtain ts ns where w: "add_timer_walk t (timer_list k) (timers k) = (ts, ns)" by fastforce
  let ?k = "k\<lparr>timers := ts, timer_list := ns\<rparr>" and ?e = "unat (expires (timers k t))"
  have res: "add_timer t k = Some ?k" using w t e by (simp add: add_timer_def word_gt_0)
  have d: "due ?k = takeWhile (\<lambda>(_, d). d \<le> ?e) (due k) @ (t, ?e) # dropWhile (\<lambda>(_, d). d \<le> ?e) (due k)"
    using add_timer_walk_deadlines [OF w t, of 0] inv by (simp add: due_def timer_inv_def)
  obtain as bs where split: "takeWhile (\<lambda>(_, d). d \<le> ?e) (due k) = as" "dropWhile (\<lambda>(_, d). d \<le> ?e) (due k) = bs"
    "due k = as @ bs" using takeWhile_dropWhile_id by metis
  then have tl: "timer_list k = map fst as @ map fst bs" using map_fst_due [of k] by simp
  have ns: "ns = map fst as @ t # map fst bs" using map_fst_due [of ?k] unfolding d split(1,2) by simp
  have perm: "set (due ?k) = insert (t, ?e) (set (due k))" unfolding d split(1,2) by (simp add: split(3))
  have set: "set ns = insert t (set (timer_list k))" unfolding ns tl by auto
  have "distinct ns" using t inv unfolding ns timer_inv_def tl by auto
  then have "timer_inv ?k"
    using set inv e perm unat_bound [of "expires (timers k t)"]
    by (auto simp: timer_inv_def add_timer_walk_tproc [OF w] unat_gt_0_iff)
  then show thesis using that [OF res _ ] d add_timer_walk_tproc [OF w] set by simp
qed

lemma succ_in_split: "t \<notin> set as \<Longrightarrow> succ_in t (as @ t # bs) = (case bs of [] \<Rightarrow> None | n # _ \<Rightarrow> Some n)"
proof (induction as)
  case Nil
  then show ?case by (cases bs) auto
next
  case (Cons a as)
  then show ?case by (cases as) auto
qed

lemma deadlines_ge: "(t, d) \<in> set (deadlines ts acc ns) \<Longrightarrow> acc + unat (expires (ts (hd ns))) \<le> d"
proof (induction ns arbitrary: acc)
  case (Cons n ns)
  show ?case
  proof (cases "d = acc + unat (expires (ts n))")
    case False
    then have "(t, d) \<in> set (deadlines ts (acc + unat (expires (ts n))) ns)" using Cons.prems by auto
    from Cons.IH [OF this] show ?thesis by simp
  qed simp
qed simp

lemma del_timer_due:
  assumes inv: "timer_inv k"
  shows "due (del_timer t k) = filter (\<lambda>(n, _). n \<noteq> t) (due k)" and "timer_inv (del_timer t k)"
proof -
  have due: "due (del_timer t k) = filter (\<lambda>(n, _). n \<noteq> t) (due k)"
  proof (cases "t \<in> set (timer_list k)")
    case False
    then have "t \<notin> fst ` set (due k)" by (metis list.set_map map_fst_due)
    then have "filter (\<lambda>(n, _). n \<noteq> t) (due k) = due k" by (intro filter_True) force
    then show ?thesis using False by (simp add: del_timer_def)
  next
    case True
    then obtain as bs where tl: "timer_list k = as @ t # bs" and t: "t \<notin> set as" by (meson split_list_first)
    have nb: "t \<notin> set bs" using inv tl by (simp add: timer_inv_def)
    let ?S = "\<Sum>a\<leftarrow>as. unat (expires (timers k a))" and ?e = "expires (timers k t)"
    have drop: "filter (\<lambda>(n, _). n \<noteq> t) (deadlines ts acc ns) = deadlines ts acc ns" if "t \<notin> set ns" for ts acc ns
      using that by (induction ns arbitrary: acc) auto
    have spec: "filter (\<lambda>(n, _). n \<noteq> t) (due k) = deadlines (timers k) 0 as @ deadlines (timers k) (?S + unat ?e) bs"
      using t nb by (simp add: due_def tl deadlines_append drop)
    show ?thesis
    proof (cases bs)
      case Nil
      then show ?thesis
        using t unfolding spec by (simp add: due_def del_timer_def tl succ_in_split remove1_append)
    next
      case (Cons n bs')
      let ?ts = "if ?e \<noteq> 0 then set_expires n (expires (timers k n) + ?e) (timers k) else timers k"
      have del: "del_timer t k = k\<lparr>timers := ?ts, timer_list := as @ bs\<rparr>"
        using t by (simp add: del_timer_def tl succ_in_split Cons remove1_append)
      have other: "n \<notin> set as" "n \<notin> set bs'" using inv by (auto simp: timer_inv_def tl Cons)
      have "(n, ?S + unat ?e + unat (expires (timers k n))) \<in> set (due k)"
        by (simp add: due_def tl deadlines_append Cons)
      then have "?S + unat ?e + unat (expires (timers k n)) < 2 ^ 32" using inv by (auto simp: timer_inv_def)
      then have sum: "unat (expires (timers k n) + ?e) = unat (expires (timers k n)) + unat ?e"
        by (intro unat_add_lt) simp
      have d1: "deadlines ?ts 0 as = deadlines (timers k) 0 as" using other by (intro deadlines_cong) auto
      have d2: "deadlines ?ts a bs' = deadlines (timers k) a bs'" for a using other by (intro deadlines_cong) auto
      have "map (\<lambda>a. unat (expires (?ts a))) as = map (\<lambda>a. unat (expires (timers k a))) as"
        using other by (intro map_cong) auto
      then have d3: "(\<Sum>a\<leftarrow>as. unat (expires (?ts a))) = ?S" by (rule arg_cong)
      have d4: "unat (expires (?ts n)) = unat ?e + unat (expires (timers k n))" using sum by simp
      have "due (del_timer t k) = deadlines ?ts 0 as @ deadlines ?ts ?S bs"
        unfolding due_def del using deadlines_append [of ?ts 0 as bs] d3 by simp
      also have "\<dots> = deadlines (timers k) 0 as @ deadlines (timers k) (?S + unat ?e) bs"
        unfolding Cons deadlines.simps d1 d2 d4 by (simp add: add.assoc)
      finally show ?thesis unfolding spec .
    qed
  qed
  then show "due (del_timer t k) = filter (\<lambda>(n, _). n \<noteq> t) (due k)" .
  have "tproc (timers (del_timer t k) n) = tproc (timers k n)" for n
    by (simp add: del_timer_def Let_def split: option.splits)
  moreover have "timer_list (del_timer t k) = remove1 t (timer_list k)"
    by (simp add: del_timer_def Let_def remove1_idem)
  ultimately show "timer_inv (del_timer t k)"
    using inv set_remove1_subset [of t "timer_list k"] by (auto simp: timer_inv_def due)
qed

text \<open>The process behind a timer can be woken by a tick: it is no zombie, and if it waits, interruptibly.\<close>

definition wakeable :: "'a kernel_scheme \<Rightarrow> nat \<Rightarrow> bool" where
  "wakeable k p \<longleftrightarrow> state (procs k p) \<noteq> PROC_ZOMBIE
     \<and> (wait_state (procs k p) \<noteq> 0 \<longrightarrow> wait_state (procs k p) AND WT_INTERRUPTED \<noteq> 0)"

definition owners_ok :: "'a kernel_scheme \<Rightarrow> bool" where
  "owners_ok k \<longleftrightarrow> (\<forall>t \<in> set (timer_list k). \<forall>p. tproc (timers k t) = Some p \<longrightarrow> wakeable k p)"

lemma sched_inv_timers [simp]:
  "sched_inv (k\<lparr>timers := ts, timer_list := ns\<rparr>) = sched_inv k"
  "sched_inv (k\<lparr>timers := ts\<rparr>) = sched_inv k" "sched_inv (k\<lparr>timer_list := ns\<rparr>) = sched_inv k"
  by (simp_all add: sched_inv_def rq_inv_def queued_def queue_ok_def)

lemma del_head:
  assumes "timer_list k = t # ns" and "expires (timers k t) = 0"
  shows "del_timer t k = k\<lparr>timer_list := ns\<rparr>"
  using assms by (simp add: del_timer_def)

lemma run_expired_ok:
  assumes "timer_list k = ns" and "sched_inv k" and "owners_ok k" and "\<forall>t \<in> set ns. tproc (timers k t) \<noteq> None"
  shows "\<exists>k'. run_expired ns k = Some k' \<and> sched_inv k' \<and> owners_ok k'
    \<and> due k' = filter (\<lambda>(_, d). d \<noteq> 0) (due k) \<and> timers k' = timers k
    \<and> (\<forall>r. state (procs k' r) = (if \<exists>t. (t, 0) \<in> set (due k) \<and> tproc (timers k t) = Some r
                                   then PROC_RUNNABLE else state (procs k r)))"
  using assms
proof (induction ns arbitrary: k)
  case Nil
  then show ?case by (simp add: due_def)
next
  case (Cons t ns)
  show ?case
  proof (cases "expires (timers k t) = 0")
    case False
    then have "0 < unat (expires (timers k t))" by (simp add: unat_gt_0_iff)
    then have "0 < d" if "(n, d) \<in> set (due k)" for n d
      using deadlines_ge [of n d "timers k" 0 "t # ns"] that unfolding due_def Cons.prems(1) by simp
    then have "filter (\<lambda>(_, d). d \<noteq> 0) (due k) = due k" and "(n, 0) \<notin> set (due k)" for n by (fastforce intro: filter_True)+
    then show ?thesis using False Cons.prems(2,3) by simp
  next
    case True
    obtain p where p: "tproc (timers k t) = Some p" using Cons.prems(4) by auto
    have w: "wakeable k p" using Cons.prems(1,3) p by (simp add: owners_ok_def)
    obtain k1 where k1: "wakeup_proc p k = Some k1" "sched_inv k1"
      "\<And>r. state (procs k1 r) = (if r = p then PROC_RUNNABLE else state (procs k r))"
      "\<And>r. wait_state (procs k1 r) = (if r = p \<and> state (procs k p) \<noteq> PROC_RUNNABLE then 0 else wait_state (procs k r))"
      "timers k1 = timers k" "timer_list k1 = timer_list k"
      using wakeup_proc_ok [OF Cons.prems(2)] w unfolding wakeable_def by metis
    let ?k2 = "k1\<lparr>timer_list := ns\<rparr>"
    have k2: "del_timer t k1 = ?k2" using del_head [of k1 t ns] True Cons.prems(1) by (simp add: k1)
    have run: "run_expired (t # ns) k = run_expired ns ?k2"
      using True p w k1(1) k2 by (simp add: wakeable_def)
    have ok: "owners_ok ?k2" using Cons.prems(1,3) by (auto simp: owners_ok_def wakeable_def k1)
    have due: "due k = (t, 0) # due ?k2" using True Cons.prems(1) by (simp add: due_def k1)
    obtain k' where k': "run_expired ns ?k2 = Some k'" "sched_inv k'" "owners_ok k'"
      "due k' = filter (\<lambda>(_, d). d \<noteq> 0) (due ?k2)" "timers k' = timers ?k2"
      "\<forall>r. state (procs k' r) = (if \<exists>t. (t, 0) \<in> set (due ?k2) \<and> tproc (timers ?k2 t) = Some r
                                then PROC_RUNNABLE else state (procs ?k2 r))"
      using Cons.IH [of ?k2] k1(2,5) ok Cons.prems(4) by auto
    have own: "(\<exists>n. (n, 0) \<in> set (due k) \<and> tproc (timers k n) = Some r) \<longleftrightarrow>
        r = p \<or> (\<exists>n. (n, 0) \<in> set (due ?k2) \<and> tproc (timers ?k2 n) = Some r)" for r
      unfolding due using p by (auto simp: k1(5))
    have "state (procs k' r) = (if \<exists>n. (n, 0) \<in> set (due k) \<and> tproc (timers k n) = Some r
        then PROC_RUNNABLE else state (procs k r))" for r
      unfolding own using k'(6) [rule_format, of r] k1(3) [of r] by auto
    moreover have "due k' = filter (\<lambda>(_, d). d \<noteq> 0) (due k)" unfolding k'(4) due by simp
    ultimately show ?thesis using k'(1-3,5) k1(5) unfolding run by simp
  qed
qed

lemma deadlines_dec: "map (\<lambda>(n, d). (n, d - 1)) (deadlines ts (Suc a) ns) = deadlines ts a ns"
  by (induction ns arbitrary: a) auto

lemma tick_due:
  assumes "timer_list k = t # ns" and "distinct (t # ns)" and "expires (timers k t) \<noteq> 0"
  shows "due (k\<lparr>timers := set_expires t (expires (timers k t) - 1) (timers k)\<rparr>) = map (\<lambda>(n, d). (n, d - 1)) (due k)"
proof -
  let ?e = "expires (timers k t)"
  have e: "unat (?e - 1) = unat ?e - 1" "Suc (unat ?e - 1) = unat ?e"
    using assms(3) unat_gt_0_iff [of ?e] unat_diff_le [of 1 ?e] by (auto simp: word_le_nat_alt)
  have "deadlines (set_expires t (?e - 1) (timers k)) a ns = deadlines (timers k) a ns" for a
    using assms(2) by (intro deadlines_cong) auto
  then show ?thesis using e deadlines_dec [of "timers k" "unat ?e - 1" ns] by (simp add: due_def assms(1))
qed

lemma sched_class_proc_tick_fields [simp]:
  "timers (sched_class_proc_tick p k) = timers k" "timer_list (sched_class_proc_tick p k) = timer_list k"
  "state (procs (sched_class_proc_tick p k) r) = state (procs k r)"
  "wait_state (procs (sched_class_proc_tick p k) r) = wait_state (procs k r)"
  "current (sched_class_proc_tick p k) = current k" "idleproc (sched_class_proc_tick p k) = idleproc k"
  by (simp_all add: sched_class_proc_tick_def MLFQ_proc_tick_def RR_proc_tick_def Let_def)

lemma run_timer_list_ok:
  assumes inv: "sched_inv k" and tinv: "timer_inv k" and own: "owners_ok k"
  shows "\<exists>k'. run_timer_list k = Some k' \<and> sched_inv k' \<and> timer_inv k' \<and> owners_ok k'
    \<and> due k' = map (\<lambda>(t, d). (t, d - 1)) (filter (\<lambda>(_, d). d \<noteq> 1) (due k))
    \<and> (\<forall>r. state (procs k' r) = (if \<exists>t. (t, 1) \<in> set (due k) \<and> tproc (timers k t) = Some r
                                   then PROC_RUNNABLE else state (procs k r)))"
proof (cases "timer_list k")
  case Nil
  then have due: "due k = []" by (simp add: due_def)
  let ?k = "sched_class_proc_tick (current k) k"
  have "run_timer_list k = Some ?k" by (simp add: run_timer_list_def Nil)
  moreover have "due ?k = []" using due by (simp add: due_def)
  moreover have "timer_inv ?k" "owners_ok ?k" using Nil due by (simp_all add: timer_inv_def due_def owners_ok_def)
  ultimately show ?thesis using sched_class_proc_tick_inv(1) [OF inv] due by simp
next
  case (Cons t ns)
  let ?k = "k\<lparr>timers := set_expires t (expires (timers k t) - 1) (timers k)\<rparr>"
  have pos: "\<forall>(t, d) \<in> set (due k). 0 < d \<and> d < 2 ^ 32" and dist: "distinct (t # ns)"
    and tp: "\<forall>t \<in> set (timer_list k). tproc (timers k t) \<noteq> None"
    using tinv Cons by (simp_all add: timer_inv_def)
  have e: "expires (timers k t) \<noteq> 0" using pos by (auto simp: due_def Cons unat_gt_0_iff)
  have due: "due ?k = map (\<lambda>(n, d). (n, d - 1)) (due k)" by (rule tick_due [OF Cons dist e])
  have "owners_ok ?k" using own by (simp add: owners_ok_def wakeable_def)
  then obtain k1 where k1: "run_expired (t # ns) ?k = Some k1" "sched_inv k1" "owners_ok k1"
    "due k1 = filter (\<lambda>(_, d). d \<noteq> 0) (due ?k)" "timers k1 = timers ?k"
    "\<forall>r. state (procs k1 r) = (if \<exists>t. (t, 0) \<in> set (due ?k) \<and> tproc (timers ?k t) = Some r
                                then PROC_RUNNABLE else state (procs ?k r))"
    using run_expired_ok [of ?k "t # ns"] Cons inv tp by auto
  let ?k' = "sched_class_proc_tick (current k1) k1"
  have res: "run_timer_list k = Some ?k'" using k1(1) e by (simp add: run_timer_list_def Cons)
  have z: "(n, 0) \<in> set (due ?k) \<longleftrightarrow> (n, 1) \<in> set (due k)" for n
  proof -
    have "(n, 0) \<in> set (due ?k) \<longleftrightarrow> (\<exists>d. (n, d) \<in> set (due k) \<and> d - 1 = 0)" unfolding due by force
    also have "\<dots> \<longleftrightarrow> (n, 1) \<in> set (due k)"
    proof
      assume "\<exists>d. (n, d) \<in> set (due k) \<and> d - 1 = 0"
      then obtain d where "(n, d) \<in> set (due k)" "d - 1 = 0" by blast
      moreover from this have "d = 1" using pos by fastforce
      ultimately show "(n, 1) \<in> set (due k)" by simp
    qed auto
    finally show ?thesis .
  qed
  have d: "due k1 = map (\<lambda>(t, d). (t, d - 1)) (filter (\<lambda>(_, d). d \<noteq> 1) (due k))"
    using pos unfolding k1(4) due filter_map by (auto intro!: arg_cong [where f = "map _"] filter_cong)
  have dk: "due ?k' = due k1" by (simp add: due_def)
  have tl: "timer_list k1 = map fst (filter (\<lambda>(_, d). d \<noteq> 1) (due k))"
    using map_fst_due [of k1] unfolding d by (simp add: comp_def case_prod_beta')
  have sub: "set (timer_list k1) \<subseteq> set (timer_list k)"
  proof -
    have "set (map fst (filter (\<lambda>(_, d). d \<noteq> 1) (due k))) \<subseteq> set (map fst (due k))"
      unfolding set_map by (intro image_mono filter_is_subset)
    then show ?thesis unfolding tl map_fst_due .
  qed
  have "distinct (timer_list k1)" unfolding tl
    using dist map_fst_due [of k] Cons by (intro distinct_map_filter) simp
  moreover have "0 < d \<and> d < 2 ^ 32" if m: "(n, d) \<in> set (due k1)" for n d
  proof -
    obtain e where "(n, e) \<in> set (due k)" "e \<noteq> 1" "d = e - 1" using m unfolding d by auto
    moreover from this have "0 < e \<and> e < 2 ^ 32" using pos by blast
    ultimately show ?thesis by linarith
  qed
  moreover have "tproc (timers k1 n) \<noteq> None" if "n \<in> set (timer_list k1)" for n
    using that sub tp by (auto simp: k1(5))
  ultimately have "timer_inv ?k'" unfolding timer_inv_def dk by auto
  moreover have "owners_ok ?k'" using k1(3) by (simp add: owners_ok_def wakeable_def)
  moreover have "state (procs ?k' r) = (if \<exists>t. (t, 1) \<in> set (due k) \<and> tproc (timers k t) = Some r
      then PROC_RUNNABLE else state (procs k r))" for r
    using k1(6) [rule_format, of r] unfolding z by auto
  ultimately show ?thesis
    using res sched_class_proc_tick_inv(1) [OF k1(2)] trans [OF dk d] by blast
qed

subsection \<open>Sequences of scheduler events\<close>

datatype sched_event = Ev_Schedule | Ev_Wakeup nat | Ev_Tick | Ev_Yield | Ev_Sleep nat u32 | Ev_Awake nat

fun exec_event :: "sched_event \<Rightarrow> 'a kernel_scheme \<Rightarrow> 'a kernel_scheme option" where
  "exec_event Ev_Schedule k = schedule k"
| "exec_event (Ev_Wakeup p) k = wakeup_proc p k"
| "exec_event Ev_Tick k = run_timer_list k"
| "exec_event Ev_Yield k = Some (do_yield k)"
| "exec_event (Ev_Sleep t n) k = do_sleep_enter t n k"
| "exec_event (Ev_Awake t) k = Some (do_sleep_leave t k)"

fun exec_events :: "sched_event list \<Rightarrow> 'a kernel_scheme \<Rightarrow> 'a kernel_scheme option" where
  "exec_events [] k = Some k"
| "exec_events (e # es) k = do { k1 \<leftarrow> exec_event e k; exec_events es k1 }"

text \<open>What the kernel guarantees when it raises an event: a woken process is no zombie, a sleeper's timer is
  not linked already.\<close>

fun event_ok :: "sched_event \<Rightarrow> 'a kernel_scheme \<Rightarrow> bool" where
  "event_ok (Ev_Wakeup p) k = (state (procs k p) \<noteq> PROC_ZOMBIE)"
| "event_ok (Ev_Sleep t n) k = (t \<notin> set (timer_list k))"
| "event_ok _ k = True"

definition kernel_inv :: "'a kernel_scheme \<Rightarrow> bool" where
  "kernel_inv k \<longleftrightarrow> sched_inv k \<and> timer_inv k \<and> owners_ok k"

inductive reachable_from :: "'a kernel_scheme \<Rightarrow> 'a kernel_scheme \<Rightarrow> bool" where
  reach_refl: "reachable_from k k"
| reach_step: "reachable_from k k1 \<Longrightarrow> event_ok e k1 \<Longrightarrow> exec_event e k1 = Some k2 \<Longrightarrow> reachable_from k k2"

lemma timer_inv_frame:
  assumes "timers k' = timers k" and "timer_list k' = timer_list k"
  shows "due k' = due k" and "timer_inv k' = timer_inv k"
proof -
  show d: "due k' = due k" using assms by (simp add: due_def)
  show "timer_inv k' = timer_inv k" using assms by (simp add: timer_inv_def d)
qed

lemma kernel_inv_frame:
  assumes "kernel_inv k" and "sched_inv k'" and "timers k' = timers k" and "timer_list k' = timer_list k"
    and "\<And>r. wakeable k r \<Longrightarrow> wakeable k' r"
  shows "kernel_inv k'"
  using assms timer_inv_frame(2) [OF assms(3,4)] by (auto simp: kernel_inv_def owners_ok_def)

lemma do_yield_inv:
  assumes inv: "kernel_inv k"
  shows "kernel_inv (do_yield k)"
proof (rule kernel_inv_frame [OF inv])
  have s: "sched_inv k" using inv by (simp add: kernel_inv_def)
  have "rq_inv (do_yield k)" "queued (do_yield k) = queued k"
    unfolding do_yield_def using upd_proc_inv [OF sched_invD(1) [OF s]] by simp_all
  then show "sched_inv (do_yield k)" using sched_invD(2) [OF s] by (simp add: sched_inv_def) (simp add: do_yield_def)
qed (auto simp: do_yield_def wakeable_def)

lemma schedule_kernel_inv:
  assumes "kernel_inv k"
  obtains k' where "schedule k = Some k'" "kernel_inv k'"
    "current k' = (case queued (requeue k) of [] \<Rightarrow> idleproc k | p # _ \<Rightarrow> p)"
proof -
  have s: "sched_inv k" using assms by (simp add: kernel_inv_def)
  show thesis
  proof (rule schedule_ok [OF s])
    fix k' assume k': "schedule k = Some k'" "sched_inv k'" "\<And>r. state (procs k' r) = state (procs k r)"
      "\<And>r. wait_state (procs k' r) = wait_state (procs k r)" "timers k' = timers k" "timer_list k' = timer_list k"
      "current k' = (case queued (requeue k) of [] \<Rightarrow> idleproc k | p # _ \<Rightarrow> p)"
    have "kernel_inv k'" by (rule kernel_inv_frame [OF assms k'(2,5,6)]) (simp add: wakeable_def k'(3,4))
    then show thesis using that k' by blast
  qed
qed

lemma wakeup_kernel_inv:
  assumes "kernel_inv k" and "state (procs k p) \<noteq> PROC_ZOMBIE"
  obtains k' where "wakeup_proc p k = Some k'" "kernel_inv k'"
proof -
  have s: "sched_inv k" using assms by (simp add: kernel_inv_def)
  show thesis
  proof (rule wakeup_proc_ok [OF s assms(2)])
    fix k' assume k': "wakeup_proc p k = Some k'" "sched_inv k'"
      "\<And>r. state (procs k' r) = (if r = p then PROC_RUNNABLE else state (procs k r))"
      "\<And>r. wait_state (procs k' r) = (if r = p \<and> state (procs k p) \<noteq> PROC_RUNNABLE then 0 else wait_state (procs k r))"
      "timers k' = timers k" "timer_list k' = timer_list k"
    have "kernel_inv k'" by (rule kernel_inv_frame [OF assms(1) k'(2,5,6)]) (auto simp: wakeable_def k'(3,4))
    then show thesis using that k' by blast
  qed
qed

lemma do_sleep_leave_inv: "kernel_inv k \<Longrightarrow> kernel_inv (do_sleep_leave t k)"
proof -
  assume inv: "kernel_inv k"
  let ?k = "del_timer t k"
  have f: "procs ?k = procs k" "tproc (timers ?k n) = tproc (timers k n)"
    "timer_list ?k = remove1 t (timer_list k)" for n
    by (simp_all add: del_timer_def Let_def remove1_idem split: option.splits)
  have "sched_inv ?k" using inv by (simp add: kernel_inv_def del_timer_def Let_def)
  moreover have "owners_ok ?k"
    using inv notin_set_remove1 by (fastforce simp: kernel_inv_def owners_ok_def wakeable_def f)
  ultimately show ?thesis using inv del_timer_due(2) [of k t] by (simp add: kernel_inv_def do_sleep_leave_def)
qed

lemma do_sleep_enter_inv:
  assumes inv: "kernel_inv k" and t: "t \<notin> set (timer_list k)"
  obtains k3 where "do_sleep_enter t n k = (if n = 0 then Some k else schedule k3)" "kernel_inv k3"
    "rqs k3 = rqs k" "n \<noteq> 0 \<Longrightarrow> kernel.more k3 = kernel.more k"
    "\<And>r. n \<noteq> 0 \<Longrightarrow> r \<noteq> current k \<Longrightarrow> procs k3 r = procs k r" "idleproc k3 = idleproc k"
    "current k3 = current k" "n \<noteq> 0 \<Longrightarrow> state (procs k3 (current k)) = PROC_SLEEPING"
    "n \<noteq> 0 \<Longrightarrow> set (timer_list k3) = insert t (set (timer_list k))"
    "\<And>m. n \<noteq> 0 \<Longrightarrow> tproc (timers k3 m) = (if m = t then Some (current k) else tproc (timers k m))"
proof (cases "n = 0")
  case True
  then show thesis using that [of k] inv by (simp add: do_sleep_enter_def)
next
  case False
  let ?k2 = "upd_proc (current k) (\<lambda>pr. pr\<lparr>state := PROC_SLEEPING, wait_state := WT_TIMER\<rparr>)
    (timer_init t (Some (current k)) n k)"
  have s: "sched_inv k" and ti: "timer_inv k" and own: "owners_ok k" using inv by (simp_all add: kernel_inv_def)
  have rq: "rq_inv ?k2" "queued ?k2 = queued k"
    using rq_inv_cong [OF sched_invD(1) [OF s], of ?k2] by (simp_all add: timer_init_def)
  have s2: "sched_inv ?k2" using sched_invD(2) [OF s] rq by (auto simp: sched_inv_def timer_init_def)
  have "due ?k2 = due k" using t by (auto simp: due_def timer_init_def intro!: deadlines_cong)
  then have ti2: "timer_inv ?k2" using ti t by (auto simp: timer_inv_def) (auto simp: timer_init_def)
  have own2: "wakeable ?k2 r" if "wakeable k r \<or> r = current k" for r
    using that by (auto simp: wakeable_def timer_init_def WT_TIMER_def WT_INTERRUPTED_def)
  show thesis
  proof (rule add_timer_due [OF ti2, of t])
    show "t \<notin> set (timer_list ?k2)" "expires (timers ?k2 t) \<noteq> 0" "tproc (timers ?k2 t) \<noteq> None"
      using t False by (simp_all add: timer_init_def)
    fix k3 assume k3: "add_timer t ?k2 = Some k3" "timer_inv k3"
      "due k3 = takeWhile (\<lambda>(_, d). d \<le> unat (expires (timers ?k2 t))) (due ?k2)
        @ (t, unat (expires (timers ?k2 t))) # dropWhile (\<lambda>(_, d). d \<le> unat (expires (timers ?k2 t))) (due ?k2)"
      "k3 = ?k2\<lparr>timers := timers k3, timer_list := timer_list k3\<rparr>"
      "\<And>n. tproc (timers k3 n) = tproc (timers ?k2 n)" "set (timer_list k3) = insert t (set (timer_list ?k2))"
    have pr: "procs k3 = procs ?k2" "rqs k3 = rqs k" by (subst k3(4), simp add: timer_init_def)+
    have s3: "sched_inv k3" by (subst k3(4)) (simp only: sched_inv_timers s2)
    have "wakeable k3 r = wakeable ?k2 r" for r unfolding wakeable_def pr(1) ..
    moreover have "wakeable k r \<or> r = current k"
      if "n \<in> set (timer_list k3)" "tproc (timers k3 n) = Some r" for n r
      using that own unfolding owners_ok_def k3(5,6) by (auto simp: timer_init_def split: if_splits)
    ultimately have "owners_ok k3" unfolding owners_ok_def using own2 by blast
    then have "kernel_inv k3" using s3 k3(2) by (simp add: kernel_inv_def)
    moreover have "kernel.more k3 = kernel.more k" "idleproc k3 = idleproc k" "current k3 = current k" by (subst k3(4), simp add: timer_init_def)+
    moreover have "set (timer_list k3) = insert t (set (timer_list k))" "\<And>m. tproc (timers k3 m) = (if m = t then Some (current k) else tproc (timers k m))"
      by (simp_all add: k3(5,6) timer_init_def)
    ultimately show thesis using that [of k3] False k3(1) pr by (simp add: do_sleep_enter_def timer_init_def)
  qed
qed

lemma exec_event_ok:
  assumes inv: "kernel_inv k" and ok: "event_ok e k"
  obtains k' where "exec_event e k = Some k'" "kernel_inv k'"
proof (cases e)
  case Ev_Schedule
  then show thesis using that schedule_kernel_inv [OF inv] by (metis exec_event.simps(1))
next
  case (Ev_Wakeup p)
  then show thesis using that wakeup_kernel_inv [OF inv, of p] ok by (metis exec_event.simps(2) event_ok.simps(1))
next
  case Ev_Tick
  then show thesis using that run_timer_list_ok [of k] inv unfolding kernel_inv_def by (metis exec_event.simps(3))
next
  case Ev_Yield
  then show thesis using that do_yield_inv [OF inv] by simp
next
  case (Ev_Sleep t n)
  have t: "t \<notin> set (timer_list k)" using ok Ev_Sleep by simp
  show thesis
  proof (rule do_sleep_enter_inv [OF inv t, of n])
    fix k3 assume k3: "do_sleep_enter t n k = (if n = 0 then Some k else schedule k3)" "kernel_inv k3"
    show thesis
    proof (rule schedule_kernel_inv [OF k3(2)])
      fix k' assume "schedule k3 = Some k'" "kernel_inv k'"
      then show thesis using that Ev_Sleep k3 inv by (cases "n = 0") auto
    qed
  qed
next
  case (Ev_Awake t)
  then show thesis using that do_sleep_leave_inv [OF inv] by simp
qed

subsection \<open>What an event leaves alone\<close>

lemma wakeup_proc_frame:
  assumes "wakeup_proc p k = Some k'"
  shows "kernel.more k' = kernel.more k" and "r \<noteq> p \<Longrightarrow> procs k' r = procs k r"
    and "timers k' = timers k" and "timer_list k' = timer_list k"
    and "current k' = current k" and "idleproc k' = idleproc k" and "state (procs k' p) = PROC_RUNNABLE"
  using assms
  by (auto simp: wakeup_proc_def sched_class_enqueue_def MLFQ_enqueue_def RR_enqueue_def Let_def kassert_def
      split: if_splits)

lemma del_timer_frame:
  "kernel.more (del_timer t k) = kernel.more k" "procs (del_timer t k) = procs k"
  "tproc (timers (del_timer t k) n) = tproc (timers k n)"
  "current (del_timer t k) = current k" "idleproc (del_timer t k) = idleproc k"
  by (simp_all add: del_timer_def Let_def split: option.splits)

lemma run_expired_frame:
  assumes "run_expired ns k = Some k'"
  shows "kernel.more k' = kernel.more k" and "(\<And>t. t \<in> set ns \<Longrightarrow> tproc (timers k t) \<noteq> Some r) \<Longrightarrow> procs k' r = procs k r"
proof -
  have "kernel.more k' = kernel.more k \<and> ((\<forall>t \<in> set ns. tproc (timers k t) \<noteq> Some r) \<longrightarrow> procs k' r = procs k r)"
    using assms
  proof (induction ns k arbitrary: k' rule: run_expired.induct)
    case (2 t ts k)
    show ?case
    proof (cases "expires (timers k t) = 0")
      case True
      then obtain p k1 where p: "tproc (timers k t) = Some p" "wakeup_proc p k = Some k1"
        "run_expired ts (del_timer t k1) = Some k'"
        "(if wait_state (procs k p) \<noteq> 0 then kassert (wait_state (procs k p) AND WT_INTERRUPTED \<noteq> 0) else Some ()) = Some ()"
        using "2.prems" by (auto simp: bind_eq_Some_conv)
      note w = wakeup_proc_frame [OF p(2)]
      show ?thesis
        using "2.IH" [OF True p(1,4,2,3)] w p(1) by (auto simp: del_timer_frame)
    qed (use "2.prems" in simp)
  qed simp
  then show "kernel.more k' = kernel.more k"
    and "(\<And>t. t \<in> set ns \<Longrightarrow> tproc (timers k t) \<noteq> Some r) \<Longrightarrow> procs k' r = procs k r" by blast+
qed

lemma run_expired_running:
  assumes "run_expired ns k = Some k'"
  shows "current k' = current k \<and> idleproc k' = idleproc k
    \<and> (state (procs k r) = PROC_RUNNABLE \<longrightarrow> state (procs k' r) = PROC_RUNNABLE)"
  using assms
proof (induction ns k arbitrary: k' rule: run_expired.induct)
  case (2 t ts k)
  show ?case
  proof (cases "expires (timers k t) = 0")
    case True
    then obtain p k1 where p: "tproc (timers k t) = Some p" "wakeup_proc p k = Some k1"
      "run_expired ts (del_timer t k1) = Some k'"
      "(if wait_state (procs k p) \<noteq> 0 then kassert (wait_state (procs k p) AND WT_INTERRUPTED \<noteq> 0) else Some ()) = Some ()"
      using "2.prems" by (auto simp: bind_eq_Some_conv)
    have "state (procs k1 r) = PROC_RUNNABLE" if "state (procs k r) = PROC_RUNNABLE"
      using that wakeup_proc_frame(2,7) [OF p(2)] by (cases "r = p") auto
    then show ?thesis
      using "2.IH" [OF True p(1,4,2,3)] wakeup_proc_frame(5,6) [OF p(2)] by (auto simp: del_timer_frame)
  qed (use "2.prems" in simp)
qed simp

text \<open>The running process can run, unless it is the idle process.\<close>

definition running_ok :: "'a kernel_scheme \<Rightarrow> bool" where
  "running_ok k \<longleftrightarrow> current k = idleproc k \<or> state (procs k (current k)) = PROC_RUNNABLE"

lemma schedule_running:
  assumes "kernel_inv k" and "schedule k = Some k'"
  shows "running_ok k'" and "idleproc k' = idleproc k"
proof -
  have s: "sched_inv k" using assms by (simp add: kernel_inv_def)
  note rk = requeue_inv(2) [OF s]
  have "running_ok k' \<and> idleproc k' = idleproc k"
  proof (rule schedule_ok [OF s])
    fix k1 assume k1: "schedule k = Some k1" "idleproc k1 = idleproc k" "\<And>r. state (procs k1 r) = state (procs k r)"
      "current k1 = (case queued (requeue k) of [] \<Rightarrow> idleproc k | p # _ \<Rightarrow> p)"
    have "state (procs k p) = PROC_RUNNABLE" if "queued (requeue k) = p # ps" for p ps
      using rk that by auto
    then show ?thesis using k1 assms(2) by (auto simp: running_ok_def split: list.splits)
  qed
  then show "running_ok k'" "idleproc k' = idleproc k" by auto
qed

lemma proc_tick_more [simp]: "kernel.more (sched_class_proc_tick p k) = kernel.more k"
  by (simp add: sched_class_proc_tick_def MLFQ_proc_tick_def RR_proc_tick_def Let_def)

lemma run_timer_list_frame:
  assumes "run_timer_list k = Some k'"
  shows "kernel.more k' = kernel.more k"
    and "(\<And>t. t \<in> set (timer_list k) \<Longrightarrow> tproc (timers k t) \<noteq> Some r) \<Longrightarrow>
      state (procs k' r) = state (procs k r) \<and> wait_state (procs k' r) = wait_state (procs k r)"
proof -
  have "kernel.more k' = kernel.more k \<and> ((\<forall>t \<in> set (timer_list k). tproc (timers k t) \<noteq> Some r) \<longrightarrow>
      state (procs k' r) = state (procs k r) \<and> wait_state (procs k' r) = wait_state (procs k r))"
  proof (cases "timer_list k")
    case Nil
    then show ?thesis using assms by (auto simp: run_timer_list_def)
  next
    case (Cons t ts)
    let ?k = "k\<lparr>timers := set_expires t (expires (timers k t) - 1) (timers k)\<rparr>"
    obtain k1 where k1: "run_expired (t # ts) ?k = Some k1" "k' = sched_class_proc_tick (current k1) k1"
      using assms unfolding run_timer_list_def Cons
      by (simp only: list.case) (auto simp only: bind_eq_Some_conv option.inject)
    have "procs k1 r = procs k r" if "\<forall>t \<in> set (timer_list k). tproc (timers k t) \<noteq> Some r"
      using run_expired_frame(2) [OF k1(1), of r] that unfolding Cons by simp
    then show ?thesis using run_expired_frame(1) [OF k1(1)] by (simp add: k1(2))
  qed
  then show "kernel.more k' = kernel.more k"
    and "(\<And>t. t \<in> set (timer_list k) \<Longrightarrow> tproc (timers k t) \<noteq> Some r) \<Longrightarrow>
      state (procs k' r) = state (procs k r) \<and> wait_state (procs k' r) = wait_state (procs k r)" by blast+
qed

lemma schedule_frame:
  assumes "kernel_inv k" and "schedule k = Some k'"
  shows "kernel.more k' = kernel.more k" and "state (procs k' r) = state (procs k r)"
    and "wait_state (procs k' r) = wait_state (procs k r)"
proof -
  have s: "sched_inv k" using assms by (simp add: kernel_inv_def)
  have "kernel.more k' = kernel.more k \<and> state (procs k' r) = state (procs k r) \<and> wait_state (procs k' r) = wait_state (procs k r)"
  proof (rule schedule_ok [OF s])
    fix k1 assume "schedule k = Some k1" "kernel.more k1 = kernel.more k" "\<And>r. state (procs k1 r) = state (procs k r)"
      "\<And>r. wait_state (procs k1 r) = wait_state (procs k r)"
    then show ?thesis using assms(2) by simp
  qed
  then show "kernel.more k' = kernel.more k" "state (procs k' r) = state (procs k r)"
    "wait_state (procs k' r) = wait_state (procs k r)" by auto
qed

text \<open>The fields that extend the kernel state are untouched, and so is a process that waits uninterruptibly,
  unless it is woken by name.\<close>

lemma exec_event_frame:
  assumes inv: "kernel_inv k" and ok: "event_ok e k" and ex: "exec_event e k = Some k'"
  shows "kernel.more k' = kernel.more k"
    and "\<not> wakeable k p \<Longrightarrow> e \<noteq> Ev_Wakeup p \<Longrightarrow> (\<And>t n. e = Ev_Sleep t n \<Longrightarrow> p \<noteq> current k) \<Longrightarrow>
      state (procs k' p) = state (procs k p) \<and> wait_state (procs k' p) = wait_state (procs k p)"
proof -
  let ?same = "state (procs k' p) = state (procs k p) \<and> wait_state (procs k' p) = wait_state (procs k p)"
  have "kernel.more k' = kernel.more k \<and>
    (\<not> wakeable k p \<longrightarrow> e \<noteq> Ev_Wakeup p \<longrightarrow> (\<forall>t n. e = Ev_Sleep t n \<longrightarrow> p \<noteq> current k) \<longrightarrow> ?same)"
  proof (cases e)
    case Ev_Schedule
    then show ?thesis using schedule_frame [OF inv] ex by auto
  next
    case (Ev_Wakeup q)
    then have w: "wakeup_proc q k = Some k'" using ex by simp
    show ?thesis using wakeup_proc_frame(1) [OF w] wakeup_proc_frame(2) [OF w, of p] Ev_Wakeup by auto
  next
    case Ev_Tick
    then have r: "run_timer_list k = Some k'" using ex by simp
    have "tproc (timers k t) \<noteq> Some p" if "\<not> wakeable k p" "t \<in> set (timer_list k)" for t
      using that inv by (auto simp: kernel_inv_def owners_ok_def)
    then show ?thesis using run_timer_list_frame(1) [OF r] run_timer_list_frame(2) [OF r, of p] by blast
  next
    case Ev_Yield
    then show ?thesis using ex by (auto simp: do_yield_def)
  next
    case (Ev_Awake t)
    then show ?thesis using ex by (auto simp: do_sleep_leave_def del_timer_frame)
  next
    case (Ev_Sleep t n)
    have t: "t \<notin> set (timer_list k)" using ok Ev_Sleep by simp
    show ?thesis
    proof (rule do_sleep_enter_inv [OF inv t, of n])
      fix k3 assume k3: "do_sleep_enter t n k = (if n = 0 then Some k else schedule k3)" "kernel_inv k3"
        "n \<noteq> 0 \<Longrightarrow> kernel.more k3 = kernel.more k"
        "\<And>r. n \<noteq> 0 \<Longrightarrow> r \<noteq> current k \<Longrightarrow> procs k3 r = procs k r"
      show ?thesis
      proof (cases "n = 0")
        case False
        then show ?thesis using schedule_frame [OF k3(2), of k'] k3 ex Ev_Sleep by auto
      qed (use k3(1) ex Ev_Sleep in simp)
    qed
  qed
  then show "kernel.more k' = kernel.more k"
    and "\<not> wakeable k p \<Longrightarrow> e \<noteq> Ev_Wakeup p \<Longrightarrow> (\<And>t n. e = Ev_Sleep t n \<Longrightarrow> p \<noteq> current k) \<Longrightarrow> ?same" by blast+
qed

lemma exec_event_running:
  assumes inv: "kernel_inv k" and ok: "event_ok e k" and ex: "exec_event e k = Some k'" and run: "running_ok k"
  shows "running_ok k' \<and> idleproc k' = idleproc k"
proof (cases e)
  case Ev_Schedule
  then show ?thesis using schedule_running [OF inv] ex by simp
next
  case (Ev_Wakeup q)
  then have w: "wakeup_proc q k = Some k'" using ex by simp
  show ?thesis using wakeup_proc_frame(2,5-7) [OF w] run by (cases "current k = q") (auto simp: running_ok_def)
next
  case Ev_Tick
  then have r: "run_timer_list k = Some k'" using ex by simp
  show ?thesis
  proof (cases "timer_list k")
    case Nil
    then show ?thesis using r run by (auto simp: run_timer_list_def running_ok_def)
  next
    case (Cons t ts)
    let ?k = "k\<lparr>timers := set_expires t (expires (timers k t) - 1) (timers k)\<rparr>"
    obtain k1 where k1: "run_expired (t # ts) ?k = Some k1" "k' = sched_class_proc_tick (current k1) k1"
      using r unfolding run_timer_list_def Cons
      by (simp only: list.case) (auto simp only: bind_eq_Some_conv option.inject)
    show ?thesis using run_expired_running [OF k1(1), of "current k"] run by (auto simp: k1(2) running_ok_def)
  qed
next
  case Ev_Yield
  then show ?thesis using ex run by (auto simp: do_yield_def running_ok_def)
next
  case (Ev_Awake t)
  then show ?thesis using ex run by (auto simp: do_sleep_leave_def running_ok_def del_timer_frame)
next
  case (Ev_Sleep t n)
  have t: "t \<notin> set (timer_list k)" using ok Ev_Sleep by simp
  show ?thesis
  proof (rule do_sleep_enter_inv [OF inv t, of n])
    fix k3 assume k3: "do_sleep_enter t n k = (if n = 0 then Some k else schedule k3)" "kernel_inv k3"
      "idleproc k3 = idleproc k"
    then show ?thesis using schedule_running [OF k3(2), of k'] ex run Ev_Sleep by (cases "n = 0") auto
  qed
qed

subsection \<open>Waiting in the top queue is bounded\<close>

abbreviation q0 :: "'a kernel_scheme \<Rightarrow> nat list" where
  "q0 k \<equiv> run_list (rqs k ! 0)"

lemma enq_q0: "rqs k \<noteq> [] \<Longrightarrow> \<exists>ys. q0 (enq i p k) = q0 k @ ys"
  by (cases i) (auto simp: enq_def)

lemma requeue_q0: "rqs k \<noteq> [] \<Longrightarrow> \<exists>ys. q0 (requeue k) = q0 k @ ys"
  using enq_q0 [of "upd_proc (current k) (\<lambda>pr. pr\<lparr>need_resched := False\<rparr>) k"] by (simp add: requeue_def Let_def)

lemma wakeup_q0:
  assumes inv: "sched_inv k" and "wakeup_proc p k = Some k'"
  shows "\<exists>ys. q0 k' = q0 k @ ys"
proof -
  let ?k1 = "upd_proc p (\<lambda>pr. pr\<lparr>state := PROC_RUNNABLE, wait_state := 0\<rparr>) k"
  have rq: "rq_inv ?k1" "queued ?k1 = queued k"
    using upd_proc_inv [OF sched_invD(1) [OF inv]] by simp_all
  consider "k' = k" | "k' = ?k1" | "state (procs k p) \<noteq> PROC_RUNNABLE" "MLFQ_enqueue p ?k1 = Some k'"
    using assms(2) by (auto simp: wakeup_proc_def sched_class_enqueue_def Let_def kassert_def split: if_splits)
  then show ?thesis
  proof cases
    case 3
    then have "p \<notin> set (queued ?k1)" using sched_invD(2) [OF inv] rq(2) by simp
    then have "k' = enq (mlfq_level p ?k1) p ?k1" using MLFQ_enqueue_eq [OF rq(1)] 3 by simp
    then show ?thesis using enq_q0 [of ?k1] rq_inv_fields(1) [OF rq(1)] by simp
  qed simp_all
qed

lemma schedule_q0:
  assumes inv: "sched_inv k" and x: "q0 k = x # xs" and k': "schedule k = Some k'"
  shows "current k' = x" and "\<exists>ys. q0 k' = xs @ ys"
proof -
  note rk = requeue_inv [OF inv]
  have ne: "rqs k \<noteq> []" "rqs (requeue k) \<noteq> []"
    using rq_inv_fields(1) sched_invD(1) [OF inv] rk(1) by auto
  obtain ys where ys: "q0 (requeue k) = x # xs @ ys" using requeue_q0 [OF ne(1)] x by auto
  obtain r rs where rs: "rqs (requeue k) = r # rs" using ne(2) by (cases "rqs (requeue k)") auto
  have hd: "queued (requeue k) = x # xs @ ys @ concat (map run_list rs)" using ys rs by (simp add: queued_def)
  have "rq (procs (requeue k) x) = Some 0"
    using rq_invD(3) [OF rk(1), of 0 x] rs ys by simp
  then have eq: "k' = (upd_proc x (\<lambda>pr. pr\<lparr>runs := runs pr + 1\<rparr>) (deq 0 x (requeue k)))\<lparr>current := x\<rparr>"
    using k' hd by (cases rule: schedule_eq [OF inv, case_names run idle]) simp_all
  then show "current k' = x" by simp
  show "\<exists>ys. q0 k' = xs @ ys" using ys rs unfolding eq by (simp add: deq_def)
qed

lemma run_expired_q0:
  assumes "sched_inv k" and "run_expired ns k = Some k'"
  shows "\<exists>ys. q0 k' = q0 k @ ys"
  using assms
proof (induction ns k arbitrary: k' rule: run_expired.induct)
  case (2 t ts k)
  show ?case
  proof (cases "expires (timers k t) = 0")
    case True
    then obtain p k1 where p: "tproc (timers k t) = Some p" "wakeup_proc p k = Some k1"
      "run_expired ts (del_timer t k1) = Some k'"
      "(if wait_state (procs k p) \<noteq> 0 then kassert (wait_state (procs k p) AND WT_INTERRUPTED \<noteq> 0) else Some ()) = Some ()"
      using "2.prems"(2) by (auto simp: bind_eq_Some_conv)
    have z: "state (procs k p) \<noteq> PROC_ZOMBIE" using p(2) by (auto simp: wakeup_proc_def)
    have s: "sched_inv k1" using wakeup_proc_ok [OF "2.prems"(1) z] p(2) by (metis option.inject)
    have "sched_inv (del_timer t k1)" "rqs (del_timer t k1) = rqs k1" using s by (simp_all add: del_timer_def Let_def)
    then show ?thesis
      using "2.IH" [OF True p(1,4,2) _ p(3)] wakeup_q0 [OF "2.prems"(1) p(2)] by auto
  qed (use "2.prems" in simp)
qed simp

lemma run_timer_list_q0:
  assumes "sched_inv k" and "run_timer_list k = Some k'"
  shows "\<exists>ys. q0 k' = q0 k @ ys"
proof -
  have tick: "q0 (sched_class_proc_tick p k1) = q0 k1" for p and k1 :: "'a kernel_scheme"
    by (simp add: sched_class_proc_tick_def MLFQ_proc_tick_def RR_proc_tick_def Let_def)
  show ?thesis
  proof (cases "timer_list k")
    case Nil
    then show ?thesis using assms tick by (auto simp: run_timer_list_def)
  next
    case (Cons t ts)
    let ?k = "k\<lparr>timers := set_expires t (expires (timers k t) - 1) (timers k)\<rparr>"
    obtain k1 where "run_expired (t # ts) ?k = Some k1" "k' = sched_class_proc_tick (current k1) k1"
      using assms(2) unfolding run_timer_list_def Cons
      by (simp only: list.case) (auto simp only: bind_eq_Some_conv option.inject)
    then show ?thesis using run_expired_q0 [of ?k "t # ts" k1] assms(1) tick by simp
  qed
qed

fun is_switch :: "sched_event \<Rightarrow> bool" where
  "is_switch Ev_Schedule = True"
| "is_switch (Ev_Sleep t n) = (n \<noteq> 0)"
| "is_switch _ = False"

lemma exec_event_q0:
  assumes inv: "kernel_inv k" and ok: "event_ok e k" and k': "exec_event e k = Some k'" and p: "q0 k = x # xs"
  shows "if is_switch e then current k' = x \<and> (\<exists>ys. q0 k' = xs @ ys) else \<exists>ys. q0 k' = x # xs @ ys"
proof (cases e)
  case (Ev_Sleep t n)
  have t: "t \<notin> set (timer_list k)" using ok Ev_Sleep by simp
  show ?thesis
  proof (rule do_sleep_enter_inv [OF inv t, of n])
    fix k3 assume k3: "do_sleep_enter t n k = (if n = 0 then Some k else schedule k3)" "kernel_inv k3" "rqs k3 = rqs k"
    then show ?thesis
      using schedule_q0 [of k3 x xs k'] p k' Ev_Sleep by (cases "n = 0") (auto simp: kernel_inv_def)
  qed
next
  case (Ev_Wakeup r)
  then show ?thesis using wakeup_q0 [of k r k'] inv k' p by (auto simp: kernel_inv_def)
next
  case Ev_Tick
  then show ?thesis using run_timer_list_q0 [of k k'] inv k' p by (auto simp: kernel_inv_def)
next
  case (Ev_Awake t)
  have "rqs (del_timer t k) = rqs k" by (simp add: del_timer_def Let_def)
  then show ?thesis using k' p Ev_Awake by (auto simp: do_sleep_leave_def)
qed (use schedule_q0 [of k x xs k'] inv k' p in \<open>auto simp: kernel_inv_def do_yield_def\<close>)

text \<open>Every event of the sequence is raised in a state in which the kernel may raise it.\<close>

fun events_ok :: "sched_event list \<Rightarrow> 'a kernel_scheme \<Rightarrow> bool" where
  "events_ok [] k = True"
| "events_ok (e # es) k = (event_ok e k \<and> (case exec_event e k of None \<Rightarrow> False | Some k1 \<Rightarrow> events_ok es k1))"

lemma exec_events_inv:
  "kernel_inv k \<Longrightarrow> events_ok es k \<Longrightarrow> \<exists>k'. exec_events es k = Some k' \<and> kernel_inv k'"
proof (induction es arbitrary: k)
  case (Cons e es)
  then have ok: "event_ok e k" by simp
  show ?case
    by (rule exec_event_ok [OF Cons.prems(1) ok]) (use Cons in simp)
qed simp

lemma queue0_wait:
  assumes "kernel_inv k" and "q0 k = as @ p # bs" and "events_ok es k" and "length as < length (filter is_switch es)"
  shows "\<exists>es1 es2 k1. es = es1 @ es2 \<and> length (filter is_switch es1) = Suc (length as)
    \<and> exec_events es1 k = Some k1 \<and> current k1 = p"
  using assms
proof (induction es arbitrary: k as bs)
  case (Cons e es)
  have ok: "event_ok e k" using Cons.prems(3) by simp
  obtain k1 where k1: "exec_event e k = Some k1" "kernel_inv k1" using exec_event_ok [OF Cons.prems(1) ok] by blast
  obtain x xs where x: "q0 k = x # xs" "as @ p # bs = x # xs" using Cons.prems(2) by (cases as) auto
  have oks: "events_ok es k1" using Cons.prems(3) k1(1) by simp
  note step = exec_event_q0 [OF Cons.prems(1) ok k1(1) x(1)]
  show ?case
  proof (cases "is_switch e \<and> as = []")
    case True
    then show ?thesis using step x k1(1) by (intro exI [of _ "[e]"] exI [of _ es]) auto
  next
    case False
    let ?as = "if is_switch e then tl as else as"
    have "\<exists>cs. q0 k1 = ?as @ p # cs" using step x False by (cases as) (auto split: if_splits)
    then obtain cs where cs: "q0 k1 = ?as @ p # cs" by blast
    have "length ?as < length (filter is_switch es)" using Cons.prems(4) False by (cases as) auto
    from Cons.IH [OF k1(2) cs oks this] obtain es1 es2 k2 where "es = es1 @ es2"
      "length (filter is_switch es1) = Suc (length ?as)" "exec_events es1 k1 = Some k2" "current k2 = p" by blast
    then show ?thesis using k1(1) False by (intro exI [of _ "e # es1"] exI [of _ es2]) (cases as, auto)
  qed
qed simp

subsection \<open>The state after \<open>sched_init\<close>\<close>

text \<open>At boot only the idle process exists.\<close>

definition boot_kernel :: "'a kernel_scheme \<Rightarrow> bool" where
  "boot_kernel k \<longleftrightarrow> current k = idleproc k \<and>
     (\<forall>p. rq (procs k p) = None \<and> time_slice (procs k p) = 0 \<and> (state (procs k p) = PROC_RUNNABLE \<longrightarrow> p = idleproc k))"

lemma fold_RR_init:
  "i + n \<le> length (rqs k) \<Longrightarrow> fold RR_init [i..<i+n] k
     = k\<lparr>rqs := take i (rqs k) @ map (\<lambda>q. q\<lparr>run_list := [], proc_num := 0\<rparr>) (take n (drop i (rqs k))) @ drop (i + n) (rqs k)\<rparr>"
proof (induction n)
  case (Suc n)
  let ?f = "\<lambda>q. q\<lparr>run_list := [], proc_num := 0\<rparr>"
  have lt: "i + n < length (rqs k)" using Suc.prems by simp
  then have "drop (i + n) (rqs k) = (rqs k ! (i + n)) # drop (Suc (i + n)) (rqs k)" by (simp add: Cons_nth_drop_Suc)
  moreover have "take (Suc n) (drop i (rqs k)) = take n (drop i (rqs k)) @ [rqs k ! (i + n)]"
    using lt by (simp add: take_Suc_conv_app_nth)
  ultimately show ?case
    using Suc lt by (simp add: RR_init_def upd_rq_def nth_append list_update_append)
qed simp

lemma sched_init_rqs:
  "rqs (sched_init k) = map (\<lambda>i. \<lparr>run_list = [], proc_num = 0, max_time_slice = 8 * push_bit i 1\<rparr>) [0..<4]"
  "procs (sched_init k) = procs k" "current (sched_init k) = current k" "idleproc (sched_init k) = idleproc k"
  "timer_list (sched_init k) = []"
proof -
  let ?k = "k\<lparr>timer_list := [], rqs := map (\<lambda>i. \<lparr>run_list = [], proc_num = 0, max_time_slice = 8 * push_bit i 1\<rparr>) [0..<4]\<rparr>"
  note f = fold_RR_init [of 0 4 ?k]
  show "rqs (sched_init k) = map (\<lambda>i. \<lparr>run_list = [], proc_num = 0, max_time_slice = 8 * push_bit i 1\<rparr>) [0..<4]"
    "procs (sched_init k) = procs k" "current (sched_init k) = current k" "idleproc (sched_init k) = idleproc k"
    "timer_list (sched_init k) = []"
    using f by (simp_all add: sched_init_def MLFQ_init_def comp_def)
qed

lemma sched_init_inv:
  assumes "boot_kernel k"
  shows "kernel_inv (sched_init k)"
proof -
  let ?k = "sched_init k"
  have nil: "queued ?k = []" by (simp add: queued_def sched_init_rqs(1) comp_def)
  have "queue_ok ?k i" if "i < 4" for i using that by (simp add: queue_ok_def sched_init_rqs(1))
  then have "rq_inv ?k" using assms nil by (simp add: rq_inv_def sched_init_rqs boot_kernel_def)
  then have "sched_inv ?k" using assms nil by (auto simp: sched_inv_def sched_init_rqs boot_kernel_def)
  then show ?thesis
    by (simp add: kernel_inv_def timer_inv_def owners_ok_def due_def sched_init_rqs)
qed

subsection \<open>The properties of the scheduler\<close>

text \<open>A small machine for the examples: process 0 is the idle process.\<close>

definition demo_boot :: kernel where
  "demo_boot = \<lparr>procs = (\<lambda>p. \<lparr>state = (if p = 0 then PROC_RUNNABLE else PROC_SLEEPING), runs = 0,
       need_resched = False, wait_state = 0, rq = None, time_slice = 0\<rparr>),
     current = 0, idleproc = 0, rqs = [], timers = (\<lambda>_. \<lparr>expires = 0, tproc = None\<rparr>), timer_list = []\<rparr>"

lemma demo_boot_kernel: "boot_kernel demo_boot"
  by (simp add: boot_kernel_def demo_boot_def)

definition demo :: kernel where
  "demo = the (exec_events [Ev_Wakeup 1, Ev_Wakeup 2, Ev_Wakeup 3, Ev_Schedule, Ev_Sleep 7 2] (sched_init demo_boot))"

lemma demo_inv: "kernel_inv demo"
proof -
  have "events_ok [Ev_Wakeup 1, Ev_Wakeup 2, Ev_Wakeup 3, Ev_Schedule, Ev_Sleep 7 2] (sched_init demo_boot)"
    by code_simp
  from exec_events_inv [OF sched_init_inv [OF demo_boot_kernel] this] show ?thesis by (auto simp: demo_def)
qed

text \<open>C2: From boot, whatever sequence of wakeups, ticks, yields, sleeps and switches the kernel performs, the
  scheduler's invariant holds: the linked processes are exactly the runnable ones other than the running
  and the idle process, each once, in the queue its descriptor names, and every timer has a live
  interruptible owner.  In such a state no assertion of the scheduler fails, whatever event comes next.\<close>

theorem sched_reachable_safe:
  assumes "boot_kernel k0" and "reachable_from (sched_init k0) k"
  shows "kernel_inv k \<and> (\<forall>e. event_ok e k \<longrightarrow> exec_event e k \<noteq> None)"
proof -
  have "kernel_inv a \<Longrightarrow> kernel_inv b" if "reachable_from a b" for a b :: "'a kernel_scheme"
    using that by (induction rule: reachable_from.induct) (metis exec_event_ok option.inject)+
  then have inv: "kernel_inv k" using assms sched_init_inv by blast
  moreover have "exec_event e k \<noteq> None" if "event_ok e k" for e using exec_event_ok [OF inv that] by blast
  ultimately show ?thesis by blast
qed

theorem sched_reachable_safe_witness:
  "kernel_inv (sched_init demo_boot) \<and> exec_event (Ev_Wakeup 5) (sched_init demo_boot) \<noteq> None"
proof -
  have "event_ok (Ev_Wakeup 5) (sched_init demo_boot)" by code_simp
  then show ?thesis using sched_reachable_safe [OF demo_boot_kernel reach_refl] by blast
qed

text \<open>C5: \<open>schedule\<close> never panics, keeps the invariant, and hands the processor to the first process of the
  first queue that is not empty once the running process is back in its queue; the rest of the queues
  stays as it is.  The idle process runs exactly when no other process can.\<close>

theorem schedule_correct:
  assumes "sched_inv k"
  shows "\<exists>k'. schedule k = Some k' \<and> sched_inv k'
    \<and> current k' = (case queued (requeue k) of [] \<Rightarrow> idleproc k | p # _ \<Rightarrow> p)
    \<and> set (queued k') = set (queued (requeue k)) - {current k'}
    \<and> (current k' = idleproc k \<longleftrightarrow> (\<forall>p. state (procs k p) = PROC_RUNNABLE \<longrightarrow> p = idleproc k))"
proof (rule schedule_ok [OF assms])
  fix k' assume k': "schedule k = Some k'" "sched_inv k'" "idleproc k' = idleproc k"
    "\<And>r. state (procs k' r) = state (procs k r)"
    "current k' = (case queued (requeue k) of [] \<Rightarrow> idleproc k | p # _ \<Rightarrow> p)"
  note rk = requeue_inv(2) [OF assms]
  have idle: "current k' = idleproc k \<longleftrightarrow> queued (requeue k) = []"
  proof (cases "queued (requeue k)")
    case (Cons p ps)
    then have "p \<noteq> idleproc k" using rk by (metis (mono_tags) list.set_intros(1) mem_Collect_eq)
    then show ?thesis using k'(5) Cons by simp
  qed (simp add: k'(5))
  have "set (queued k') = set (queued (requeue k)) - {current k'}"
    using sched_invD(2) [OF k'(2)] rk k'(3,4) by auto
  moreover have "queued (requeue k) = [] \<longleftrightarrow> (\<forall>p. state (procs k p) = PROC_RUNNABLE \<longrightarrow> p = idleproc k)"
    using rk by (auto simp flip: set_empty)
  ultimately show ?thesis using k'(1,2,5) idle by auto
qed

theorem schedule_correct_witness:
  "current demo = 2 \<and> queued demo = [3] \<and> (\<exists>k'. schedule demo = Some k' \<and> current k' = 3 \<and> set (queued k') = {2})"
proof -
  have c: "current demo = 2" "queued demo = [3]" "queued (requeue demo) = [3, 2]" by code_simp+
  have "sched_inv demo" using demo_inv by (simp add: kernel_inv_def)
  from schedule_correct [OF this] obtain k' where "schedule demo = Some k'" "current k' = 3"
    "set (queued k') = set (queued (requeue demo)) - {current k'}" unfolding c(3) by auto
  then show ?thesis unfolding c(3) using c by auto
qed

text \<open>C29: One clock tick moves every timer one tick nearer; the timers that reach zero leave the list, and
  exactly their owners are made runnable.  The delta encoding of the list is thereby a faithful
  implementation of absolute deadlines, and no assertion of the timer code fails.\<close>

theorem run_timer_list_correct:
  assumes "sched_inv k" and "timer_inv k" and "owners_ok k"
  shows "\<exists>k'. run_timer_list k = Some k' \<and> sched_inv k' \<and> timer_inv k' \<and> owners_ok k'
    \<and> due k' = map (\<lambda>(t, d). (t, d - 1)) (filter (\<lambda>(_, d). d \<noteq> 1) (due k))
    \<and> (\<forall>r. state (procs k' r) = (if \<exists>t. (t, 1) \<in> set (due k) \<and> tproc (timers k t) = Some r
                                   then PROC_RUNNABLE else state (procs k r)))"
  by (rule run_timer_list_ok [OF assms])

theorem run_timer_list_correct_witness:
  "due demo = [(7, 2)] \<and> (\<exists>k'. run_timer_list demo = Some k' \<and> due k' = [(7, 1)] \<and> timer_inv k')"
proof -
  have d: "due demo = [(7, 2)]" by code_simp
  have "sched_inv demo" "timer_inv demo" "owners_ok demo" using demo_inv by (simp_all add: kernel_inv_def)
  from run_timer_list_correct [OF this] d show ?thesis by auto
qed

text \<open>\<open>add_timer\<close> inserts a timer behind the timers that expire no later than it, with its own deadline,
  and changes no other timer's deadline; \<open>del_timer\<close> removes a timer and changes no other deadline.  So
  adding a timer and deleting it restores all deadlines.\<close>

theorem timer_add_del:
  assumes "timer_inv k" and "t \<notin> set (timer_list k)" and "expires (timers k t) \<noteq> 0" and "tproc (timers k t) \<noteq> None"
  shows "\<exists>k'. add_timer t k = Some k' \<and> timer_inv k'
    \<and> due k' = takeWhile (\<lambda>(_, d). d \<le> unat (expires (timers k t))) (due k)
        @ (t, unat (expires (timers k t))) # dropWhile (\<lambda>(_, d). d \<le> unat (expires (timers k t))) (due k)
    \<and> due (del_timer t k') = due k"
proof (rule add_timer_due [OF assms])
  let ?P = "\<lambda>(_, d). d \<le> unat (expires (timers k t))"
  fix k' assume k': "add_timer t k = Some k'" "timer_inv k'"
    "due k' = takeWhile ?P (due k) @ (t, unat (expires (timers k t))) # dropWhile ?P (due k)"
  have "t \<notin> fst ` set (due k)" using assms(2) map_fst_due [of k] by (metis set_map)
  then have id: "filter (\<lambda>(n, _). n \<noteq> t) (due k) = due k" by (intro filter_True) force
  have "filter (\<lambda>(n, _). n \<noteq> t) (due k') = filter (\<lambda>(n, _). n \<noteq> t) (takeWhile ?P (due k) @ dropWhile ?P (due k))"
    unfolding k'(3) filter_append by simp
  then have "due (del_timer t k') = due k" unfolding del_timer_due(1) [OF k'(2)] takeWhile_dropWhile_id id .
  then show ?thesis using k' by blast
qed

theorem timer_add_del_witness:
  "\<exists>k'. add_timer 8 (timer_init 8 (Some 3) 5 demo) = Some k' \<and> due k' = [(7, 2), (8, 5)] \<and> due (del_timer 8 k') = [(7, 2)]"
proof -
  let ?k = "timer_init 8 (Some 3) 5 demo"
  have tl: "timer_list demo = [7]" and d: "due ?k = [(7, 2)]" and d0: "due demo = [(7, 2)]" by code_simp+
  have "timer_inv ?k" using demo_inv tl d d0 by (simp add: kernel_inv_def timer_inv_def) (simp add: timer_init_def)
  moreover have "8 \<notin> set (timer_list ?k)" "expires (timers ?k 8) = 5" "tproc (timers ?k 8) \<noteq> None"
    using tl by (simp_all add: timer_init_def)
  ultimately show ?thesis using timer_add_del [of ?k 8] by (auto simp: d)
qed

text \<open>C33: A process in the top queue with \<open>n\<close> processes before it gets the processor with the \<open>n + 1\<close>st
  switch, whatever wakeups, ticks, yields and sleeps happen in between: nothing overtakes it.\<close>

theorem queue0_bounded_wait:
  assumes "kernel_inv k" and "run_list (rqs k ! 0) = as @ p # bs" and "events_ok es k"
    and "length as < length (filter is_switch es)"
  shows "\<exists>es1 es2 k1. es = es1 @ es2 \<and> length (filter is_switch es1) = length as + 1
    \<and> exec_events es1 k = Some k1 \<and> current k1 = p"
  using queue0_wait [OF assms] by simp

theorem queue0_bounded_wait_witness:
  "\<exists>es1 es2 k1. [Ev_Tick, Ev_Wakeup 1, Ev_Schedule] = es1 @ es2 \<and> length (filter is_switch es1) = 1
     \<and> exec_events es1 demo = Some k1 \<and> current k1 = 3"
proof -
  have "run_list (rqs demo ! 0) = [] @ 3 # []" and "events_ok [Ev_Tick, Ev_Wakeup 1, Ev_Schedule] demo" by code_simp+
  from queue0_bounded_wait [OF demo_inv this] show ?thesis by simp
qed

text \<open>The feedback rule.  A process that used up its slice is put at the end of the next queue down (the
  last one keeps it) with that queue's full slice; one that still has time, or is new, goes to the top
  queue, its slice cut to that queue's.  Enqueuing a process that is already queued panics.\<close>

theorem MLFQ_enqueue_feedback:
  assumes "rq_inv k"
    and n: "n = (case rq (procs k p) of None \<Rightarrow> 0
      | Some i \<Rightarrow> if time_slice (procs k p) = 0 then min (i + 1) (length (rqs k) - 1) else 0)"
  shows "if p \<in> set (queued k) then MLFQ_enqueue p k = None
    else \<exists>k'. MLFQ_enqueue p k = Some k' \<and> rq_inv k'
      \<and> run_list (rqs k' ! n) = run_list (rqs k ! n) @ [p]
      \<and> (\<forall>j < length (rqs k). j \<noteq> n \<longrightarrow> rqs k' ! j = rqs k ! j)
      \<and> rq (procs k' p) = Some n
      \<and> time_slice (procs k' p) = (if time_slice (procs k p) = 0 then max_time_slice (rqs k ! n)
           else min (time_slice (procs k p)) (max_time_slice (rqs k ! n)))"
proof (cases "p \<in> set (queued k)")
  case True
  then show ?thesis using mlfq.enqueue_panic [OF assms(1)] by simp
next
  case False
  have lev: "mlfq_level p k = n"
    using rq_inv_fields(4) [OF assms(1), of p] by (auto simp: n mlfq_level_def split: option.splits)
  have less: "n < length (rqs k)" using mlfq_level_less [OF assms(1), of p] lev by simp
  let ?k = "enq n p k"
  have "MLFQ_enqueue p k = Some ?k" "rq_inv ?k"
    using MLFQ_enqueue_eq [OF assms(1) False] enq_inv(1) [OF assms(1) less False] lev by simp_all
  moreover have "run_list (rqs ?k ! n) = run_list (rqs k ! n) @ [p]" "rq (procs ?k p) = Some n"
    "\<forall>j < length (rqs k). j \<noteq> n \<longrightarrow> rqs ?k ! j = rqs k ! j"
    "time_slice (procs ?k p) = (if time_slice (procs k p) = 0 then max_time_slice (rqs k ! n)
           else min (time_slice (procs k p)) (max_time_slice (rqs k ! n)))"
    using less by (auto simp: enq_def)
  ultimately show ?thesis using False by simp
qed

theorem MLFQ_enqueue_feedback_witness:
  "MLFQ_enqueue 3 demo = None \<and> (\<exists>k'. MLFQ_enqueue 2 demo = Some k' \<and> run_list (rqs k' ! 0) = [3, 2] \<and> rq_inv k')"
proof -
  have c: "queued demo = [3]" "rq (procs demo 2) = Some 0" "time_slice (procs demo 2) = 8" "run_list (rqs demo ! 0) = [3]"
    by code_simp+
  have inv: "rq_inv demo" using demo_inv by (simp add: kernel_inv_def sched_inv_def)
  show ?thesis
    using MLFQ_enqueue_feedback [OF inv refl, of 3] MLFQ_enqueue_feedback [OF inv refl, of 2] by (auto simp: c)
qed

end
