(* ===== verification/Wait_Queue.thy ===== *)
theory Wait_Queue
  imports Sched
begin

text \<open>
  \<^verbatim>\<open>kern/sync/wait.c\<close>: wait queues.  A queue holds \<open>wait_t\<close> records, one per waiting process, which live on
  the kernel stacks of these processes and are named by natural numbers.  A queue is named after the object
  it is part of: a semaphore, the event box of a process, a mailbox.  The kernel state is extended by the records and by the sequence of records linked at each queue head.  A record is linked
  when it is in the queue its field \<open>wait_queue\<close> names: \<open>wait_queue_add\<close> sets the field and links the
  record, and nothing else links it.
\<close>

datatype wait_queue_t = Sem_wq u32 | Event_wq nat | Senders nat | Receivers nat

record wait_t =
  wproc :: "nat option"
  wakeup_flags :: u32
  wait_queue :: wait_queue_t

record wait_kernel = kernel +
  waits :: "nat \<Rightarrow> wait_t"
  wqs :: "wait_queue_t \<Rightarrow> nat list"

definition upd_wait :: "nat \<Rightarrow> (wait_t \<Rightarrow> wait_t) \<Rightarrow> 'a wait_kernel_scheme \<Rightarrow> 'a wait_kernel_scheme" where
  "upd_wait w f k = k\<lparr>waits := (waits k)(w := f (waits k w))\<rparr>"

definition upd_wq :: "wait_queue_t \<Rightarrow> (nat list \<Rightarrow> nat list) \<Rightarrow> 'a wait_kernel_scheme \<Rightarrow> 'a wait_kernel_scheme" where
  "upd_wq q f k = k\<lparr>wqs := (wqs k)(q := f (wqs k q))\<rparr>"

definition wait_in_queue :: "nat \<Rightarrow> 'a wait_kernel_scheme \<Rightarrow> bool" where
  "wait_in_queue w k \<longleftrightarrow> w \<in> set (wqs k (wait_queue (waits k w)))"

definition wait_init :: "nat \<Rightarrow> nat option \<Rightarrow> 'a wait_kernel_scheme \<Rightarrow> 'a wait_kernel_scheme" where
  "wait_init w p k = upd_wait w (\<lambda>r. r\<lparr>wproc := p, wakeup_flags := WT_INTERRUPTED\<rparr>) k"

definition wait_queue_init :: "wait_queue_t \<Rightarrow> 'a wait_kernel_scheme \<Rightarrow> 'a wait_kernel_scheme" where
  "wait_queue_init q k = upd_wq q (\<lambda>_. []) k"

definition wait_queue_add :: "wait_queue_t \<Rightarrow> nat \<Rightarrow> 'a wait_kernel_scheme \<Rightarrow> 'a wait_kernel_scheme option" where
  "wait_queue_add q w k = do {
     kassert (\<not> wait_in_queue w k \<and> wproc (waits k w) \<noteq> None);
     let k1 = upd_wait w (\<lambda>r. r\<lparr>wait_queue := q\<rparr>) k;
     Some (upd_wq q (\<lambda>ws. ws @ [w]) k1) }"

definition wait_queue_del :: "wait_queue_t \<Rightarrow> nat \<Rightarrow> 'a wait_kernel_scheme \<Rightarrow> 'a wait_kernel_scheme option" where
  "wait_queue_del q w k = do {
     kassert (wait_in_queue w k \<and> wait_queue (waits k w) = q);
     Some (upd_wq q (remove1 w) k) }"

definition wait_queue_next :: "wait_queue_t \<Rightarrow> nat \<Rightarrow> 'a wait_kernel_scheme \<Rightarrow> nat option option" where
  "wait_queue_next q w k = do {
     kassert (wait_in_queue w k \<and> wait_queue (waits k w) = q);
     Some (succ_in w (wqs k q)) }"

definition wait_queue_prev :: "wait_queue_t \<Rightarrow> nat \<Rightarrow> 'a wait_kernel_scheme \<Rightarrow> nat option option" where
  "wait_queue_prev q w k = do {
     kassert (wait_in_queue w k \<and> wait_queue (waits k w) = q);
     Some (succ_in w (rev (wqs k q))) }"

definition wait_queue_first :: "wait_queue_t \<Rightarrow> 'a wait_kernel_scheme \<Rightarrow> nat option" where
  "wait_queue_first q k = (case wqs k q of [] \<Rightarrow> None | w # _ \<Rightarrow> Some w)"

definition wait_queue_last :: "wait_queue_t \<Rightarrow> 'a wait_kernel_scheme \<Rightarrow> nat option" where
  "wait_queue_last q k = (case rev (wqs k q) of [] \<Rightarrow> None | w # _ \<Rightarrow> Some w)"

definition wait_queue_empty :: "wait_queue_t \<Rightarrow> 'a wait_kernel_scheme \<Rightarrow> bool" where
  "wait_queue_empty q k \<longleftrightarrow> wqs k q = []"

text \<open>\<open>wakeup_proc(wait->proc)\<close> with no process dereferences \<^verbatim>\<open>NULL\<close>.\<close>

definition wakeup_wait :: "wait_queue_t \<Rightarrow> nat \<Rightarrow> u32 \<Rightarrow> bool \<Rightarrow> 'a wait_kernel_scheme \<Rightarrow> 'a wait_kernel_scheme option" where
  "wakeup_wait q w flags del k = do {
     k1 \<leftarrow> (if del then wait_queue_del q w k else Some k);
     let k2 = upd_wait w (\<lambda>r. r\<lparr>wakeup_flags := flags\<rparr>) k1;
     p \<leftarrow> wproc (waits k2 w);
     wakeup_proc p k2 }"

definition wakeup_first :: "wait_queue_t \<Rightarrow> u32 \<Rightarrow> bool \<Rightarrow> 'a wait_kernel_scheme \<Rightarrow> 'a wait_kernel_scheme option" where
  "wakeup_first q flags del k =
     (case wait_queue_first q k of Some w \<Rightarrow> wakeup_wait q w flags del k | None \<Rightarrow> Some k)"

text \<open>The two loops of \<open>wakeup_queue\<close>, from a record on.\<close>

partial_function (option) wakeup_del_loop ::
  "wait_queue_t \<Rightarrow> u32 \<Rightarrow> nat \<Rightarrow> 'a wait_kernel_scheme \<Rightarrow> 'a wait_kernel_scheme option" where
  "wakeup_del_loop q flags w k = do {
     k1 \<leftarrow> wakeup_wait q w flags True k;
     case wait_queue_first q k1 of Some w' \<Rightarrow> wakeup_del_loop q flags w' k1 | None \<Rightarrow> Some k1 }"

partial_function (option) wakeup_keep_loop ::
  "wait_queue_t \<Rightarrow> u32 \<Rightarrow> nat \<Rightarrow> 'a wait_kernel_scheme \<Rightarrow> 'a wait_kernel_scheme option" where
  "wakeup_keep_loop q flags w k = do {
     k1 \<leftarrow> wakeup_wait q w flags False k;
     nxt \<leftarrow> wait_queue_next q w k1;
     case nxt of Some w' \<Rightarrow> wakeup_keep_loop q flags w' k1 | None \<Rightarrow> Some k1 }"

declare wakeup_del_loop.simps [code] wakeup_keep_loop.simps [code]

definition wakeup_queue :: "wait_queue_t \<Rightarrow> u32 \<Rightarrow> bool \<Rightarrow> 'a wait_kernel_scheme \<Rightarrow> 'a wait_kernel_scheme option" where
  "wakeup_queue q flags del k =
     (case wait_queue_first q k of
        None \<Rightarrow> Some k
      | Some w \<Rightarrow> if del then wakeup_del_loop q flags w k else wakeup_keep_loop q flags w k)"

definition wait_current_set :: "wait_queue_t \<Rightarrow> nat \<Rightarrow> u32 \<Rightarrow> 'a wait_kernel_scheme \<Rightarrow> 'a wait_kernel_scheme option" where
  "wait_current_set q w ws k = do {
     let k1 = wait_init w (Some (current k)) k;
     let k2 = upd_proc (current k1) (\<lambda>pr. pr\<lparr>state := PROC_SLEEPING, wait_state := ws\<rparr>) k1;
     wait_queue_add q w k2 }"

definition wait_current_del :: "wait_queue_t \<Rightarrow> nat \<Rightarrow> 'a wait_kernel_scheme \<Rightarrow> 'a wait_kernel_scheme option" where
  "wait_current_del q w k = (if wait_in_queue w k then wait_queue_del q w k else Some k)"

subsection \<open>Invariant and normal forms\<close>

definition wait_inv :: "'a wait_kernel_scheme \<Rightarrow> bool" where
  "wait_inv k \<longleftrightarrow> (\<forall>q. distinct (wqs k q) \<and>
     (\<forall>w \<in> set (wqs k q). wait_queue (waits k w) = q \<and> wproc (waits k w) \<noteq> None))"

lemma wait_invD:
  assumes "wait_inv k"
  shows "distinct (wqs k q)" and "w \<in> set (wqs k q) \<Longrightarrow> wait_queue (waits k w) = q"
    and "w \<in> set (wqs k q) \<Longrightarrow> \<exists>p. wproc (waits k w) = Some p"
    and "wait_in_queue w k \<longleftrightarrow> (\<exists>q. w \<in> set (wqs k q))"
  using assms by (auto simp: wait_inv_def wait_in_queue_def)

lemma more_waits:
  assumes "kernel.more k' = kernel.more k"
  shows "waits k' = waits k" and "wqs k' = wqs k" and "wait_kernel.more k' = wait_kernel.more k"
  using assms by (cases k; cases k'; simp)+

lemma upd_wait_fields [simp]:
  "waits (upd_wait w f k) = (waits k)(w := f (waits k w))" "wqs (upd_wait w f k) = wqs k"
  "waits (upd_wq q g k) = waits k" "wqs (upd_wq q g k) = (wqs k)(q := g (wqs k q))"
  "procs (upd_wait w f k) = procs k" "procs (upd_wq q g k) = procs k"
  "current (upd_wait w f k) = current k" "current (upd_wq q g k) = current k"
  "idleproc (upd_wait w f k) = idleproc k" "idleproc (upd_wq q g k) = idleproc k"
  "rqs (upd_wait w f k) = rqs k" "rqs (upd_wq q g k) = rqs k"
  "timers (upd_wait w f k) = timers k" "timers (upd_wq q g k) = timers k"
  "timer_list (upd_wait w f k) = timer_list k" "timer_list (upd_wq q g k) = timer_list k"
  "wait_kernel.more (upd_wait w f k) = wait_kernel.more k" "wait_kernel.more (upd_wq q g k) = wait_kernel.more k"
  by (simp_all add: upd_wait_def upd_wq_def)

lemma upd_proc_waits [simp]:
  "waits (upd_proc p f k) = waits k" "wqs (upd_proc p f k) = wqs k"
  "wait_kernel.more (upd_proc p f k) = wait_kernel.more k"
  by (simp_all add: upd_proc_def)

lemma sched_inv_frame:
  assumes "sched_inv k" and "procs k' = procs k" and "rqs k' = rqs k" and "current k' = current k" and "idleproc k' = idleproc k"
  shows "sched_inv k'"
  using assms rq_inv_cong [of k k'] by (simp add: sched_inv_def)

text \<open>One wakeup, when the record is linked: all of its effect.\<close>

lemma wakeup_wait_ok:
  assumes s: "sched_inv k" and inv: "wait_inv k" and w: "w \<in> set (wqs k q)" and p: "wproc (waits k w) = Some p"
    and z: "state (procs k p) \<noteq> PROC_ZOMBIE"
  obtains k' where "wakeup_wait q w flags del k = Some k'" "sched_inv k'" "wait_inv k'"
    "waits k' = (waits k)(w := (waits k w)\<lparr>wakeup_flags := flags\<rparr>)"
    "wqs k' = (wqs k)(q := if del then remove1 w (wqs k q) else wqs k q)"
    "\<And>r. state (procs k' r) = (if r = p then PROC_RUNNABLE else state (procs k r))"
    "\<And>r. wait_state (procs k' r) = (if r = p \<and> state (procs k p) \<noteq> PROC_RUNNABLE then 0 else wait_state (procs k r))"
    "current k' = current k" "idleproc k' = idleproc k" "timers k' = timers k" "timer_list k' = timer_list k"
    "wait_kernel.more k' = wait_kernel.more k"
proof -
  let ?k1 = "if del then upd_wq q (remove1 w) k else k"
  let ?k2 = "upd_wait w (\<lambda>r. r\<lparr>wakeup_flags := flags\<rparr>) ?k1"
  have "wait_in_queue w k" "wait_queue (waits k w) = q" using wait_invD [OF inv] w by auto
  then have def: "wakeup_wait q w flags del k = wakeup_proc p ?k2"
    using p by (simp add: wakeup_wait_def wait_queue_del_def)
  have s2: "sched_inv ?k2" by (rule sched_inv_frame [OF s]) simp_all
  have f: "procs ?k2 = procs k" "current ?k2 = current k" "idleproc ?k2 = idleproc k" "timers ?k2 = timers k"
    "timer_list ?k2 = timer_list k" by simp_all
  have z2: "state (procs ?k2 p) \<noteq> PROC_ZOMBIE" using z by simp
  show thesis
  proof (rule wakeup_proc_ok [OF s2 z2])
    fix k' assume k': "wakeup_proc p ?k2 = Some k'" "sched_inv k'"
      "\<And>r. state (procs k' r) = (if r = p then PROC_RUNNABLE else state (procs ?k2 r))"
      "\<And>r. wait_state (procs k' r) = (if r = p \<and> state (procs ?k2 p) \<noteq> PROC_RUNNABLE then 0 else wait_state (procs ?k2 r))"
      "current k' = current ?k2" "idleproc k' = idleproc ?k2" "timers k' = timers ?k2" "timer_list k' = timer_list ?k2"
      "kernel.more k' = kernel.more ?k2"
    have wt: "waits k' = (waits k)(w := (waits k w)\<lparr>wakeup_flags := flags\<rparr>)"
      and wq: "wqs k' = (wqs k)(q := if del then remove1 w (wqs k q) else wqs k q)"
      and mo: "wait_kernel.more k' = wait_kernel.more k"
      using more_waits [OF k'(9)] by auto
    have wi: "wait_inv k'"
      using inv unfolding wait_inv_def wt wq by (auto dest: notin_set_remove1)
    show thesis by (rule that [OF trans [OF def k'(1)] k'(2) wi wt wq]) (simp_all only: k'(3-8) f mo)
  qed
qed

text \<open>No record of the queue belongs to a zombie.\<close>

definition waiters_alive :: "wait_queue_t \<Rightarrow> 'a wait_kernel_scheme \<Rightarrow> bool" where
  "waiters_alive q k \<longleftrightarrow> (\<forall>w \<in> set (wqs k q). \<forall>p. wproc (waits k w) = Some p \<longrightarrow> state (procs k p) \<noteq> PROC_ZOMBIE)"

definition waiting_procs :: "nat list \<Rightarrow> 'a wait_kernel_scheme \<Rightarrow> nat set" where
  "waiting_procs ws k = {p. \<exists>w \<in> set ws. wproc (waits k w) = Some p}"

text \<open>What waking the records \<open>ws\<close> of a queue amounts to.\<close>

definition woken :: "u32 \<Rightarrow> nat list \<Rightarrow> 'a wait_kernel_scheme \<Rightarrow> 'a wait_kernel_scheme \<Rightarrow> bool" where
  "woken flags ws k k' \<longleftrightarrow>
     (\<forall>w. waits k' w = (if w \<in> set ws then (waits k w)\<lparr>wakeup_flags := flags\<rparr> else waits k w))
     \<and> (\<forall>r. state (procs k' r) = (if r \<in> waiting_procs ws k then PROC_RUNNABLE else state (procs k r)))
     \<and> (\<forall>r. wait_state (procs k' r) = (if r \<in> waiting_procs ws k \<and> state (procs k r) \<noteq> PROC_RUNNABLE then 0 else wait_state (procs k r)))
     \<and> current k' = current k \<and> idleproc k' = idleproc k \<and> timers k' = timers k \<and> timer_list k' = timer_list k
     \<and> wait_kernel.more k' = wait_kernel.more k"

lemma woken_step:
  assumes "woken flags [w] k k1" and "woken flags ws k1 k2" and "w \<notin> set ws"
  shows "woken flags (w # ws) k k2"
proof -
  have "waiting_procs ws k1 = waiting_procs ws k"
    using assms(1,3) by (auto simp: woken_def waiting_procs_def)
  moreover have "waiting_procs (w # ws) k = waiting_procs [w] k \<union> waiting_procs ws k"
    by (auto simp: waiting_procs_def)
  ultimately show ?thesis using assms by (auto simp: woken_def)
qed

lemma wakeup_wait_woken:
  assumes s: "sched_inv k" and inv: "wait_inv k" and al: "waiters_alive q k" and w: "w \<in> set (wqs k q)"
  obtains k' where "wakeup_wait q w flags del k = Some k'" "sched_inv k'" "wait_inv k'" "waiters_alive q k'"
    "woken flags [w] k k'" "wqs k' = (wqs k)(q := if del then remove1 w (wqs k q) else wqs k q)"
proof -
  obtain p where p: "wproc (waits k w) = Some p" using wait_invD(3) [OF inv w] by blast
  have z: "state (procs k p) \<noteq> PROC_ZOMBIE" using al w p by (simp add: waiters_alive_def)
  show thesis
  proof (rule wakeup_wait_ok [OF s inv w p z, of flags del])
    fix k' assume k': "wakeup_wait q w flags del k = Some k'" "sched_inv k'" "wait_inv k'"
      "waits k' = (waits k)(w := (waits k w)\<lparr>wakeup_flags := flags\<rparr>)"
      "wqs k' = (wqs k)(q := if del then remove1 w (wqs k q) else wqs k q)"
      "\<And>r. state (procs k' r) = (if r = p then PROC_RUNNABLE else state (procs k r))"
      "\<And>r. wait_state (procs k' r) = (if r = p \<and> state (procs k p) \<noteq> PROC_RUNNABLE then 0 else wait_state (procs k r))"
      "current k' = current k" "idleproc k' = idleproc k" "timers k' = timers k" "timer_list k' = timer_list k"
      "wait_kernel.more k' = wait_kernel.more k"
    have "set (wqs k' q) \<subseteq> set (wqs k q)" using set_remove1_subset [of w "wqs k q"] by (simp add: k'(5))
    then have "waiters_alive q k'" using al unfolding waiters_alive_def k'(4,6) by (auto split: if_splits)
    moreover have "woken flags [w] k k'" using k' p by (auto simp: woken_def waiting_procs_def)
    ultimately show thesis using that k' by blast
  qed
qed

lemma woken_alive:
  assumes "waiters_alive r k" and "woken flags ws k k'" and "set (wqs k' r) \<subseteq> set (wqs k r)"
  shows "waiters_alive r k'"
  unfolding waiters_alive_def
proof (intro ballI allI impI)
  fix w p assume w: "w \<in> set (wqs k' r)" "wproc (waits k' w) = Some p"
  have "wproc (waits k w) = Some p" using w(2) assms(2) by (auto simp: woken_def split: if_splits)
  then have "state (procs k p) \<noteq> PROC_ZOMBIE" using assms(1,3) w(1) by (auto simp: waiters_alive_def)
  then show "state (procs k' p) \<noteq> PROC_ZOMBIE" using assms(2) by (simp add: woken_def)
qed

lemma woken_kernel_inv:
  assumes "kernel_inv k" and "sched_inv k'" and "woken flags ws k k'"
  shows "kernel_inv k'"
proof (rule kernel_inv_frame [OF assms(1,2)])
  show "timers k' = timers k" "timer_list k' = timer_list k" using assms(3) by (simp_all add: woken_def)
  show "wakeable k' r" if "wakeable k r" for r
  proof -
    have "wait_state (procs k' r) = wait_state (procs k r) \<or> wait_state (procs k' r) = 0"
      "state (procs k' r) = PROC_RUNNABLE \<or> state (procs k' r) = state (procs k r)"
      using assms(3) by (auto simp: woken_def)
    then show ?thesis using that by (auto simp: wakeable_def)
  qed
qed

lemma woken_refl: "woken flags [] k k"
  by (simp add: woken_def waiting_procs_def)

lemma wakeup_del_loop_ok:
  assumes "sched_inv k" and "wait_inv k" and "waiters_alive q k" and "wqs k q = w # ws"
  shows "\<exists>k'. wakeup_del_loop q flags w k = Some k' \<and> sched_inv k' \<and> wait_inv k' \<and> wqs k' = (wqs k)(q := [])
    \<and> woken flags (w # ws) k k'"
  using assms
proof (induction ws arbitrary: w k)
  case Nil
  show ?case
  proof (rule wakeup_wait_woken [OF Nil.prems(1-3), of w flags True])
    show "w \<in> set (wqs k q)" using Nil.prems(4) by simp
    fix k1 assume k1: "wakeup_wait q w flags True k = Some k1" "sched_inv k1" "wait_inv k1" "woken flags [w] k k1"
      "wqs k1 = (wqs k)(q := if True then remove1 w (wqs k q) else wqs k q)"
    then show ?case
      using Nil.prems(4) by (subst wakeup_del_loop.simps) (simp add: wait_queue_first_def)
  qed
next
  case (Cons v ws)
  show ?case
  proof (rule wakeup_wait_woken [OF Cons.prems(1-3), of w flags True])
    show "w \<in> set (wqs k q)" using Cons.prems(4) by simp
    fix k1 assume k1: "wakeup_wait q w flags True k = Some k1" "sched_inv k1" "wait_inv k1" "waiters_alive q k1"
      "woken flags [w] k k1" "wqs k1 = (wqs k)(q := if True then remove1 w (wqs k q) else wqs k q)"
    have q1: "wqs k1 q = v # ws" "wqs k1 = (wqs k)(q := v # ws)" using k1(6) Cons.prems(4) by simp_all
    obtain k' where k': "wakeup_del_loop q flags v k1 = Some k'" "sched_inv k'" "wait_inv k'" "wqs k' = (wqs k1)(q := [])"
      "woken flags (v # ws) k1 k'" using Cons.IH [OF k1(2-4) q1(1)] by blast
    have "w \<notin> set (v # ws)" using wait_invD(1) [OF Cons.prems(2), of q] Cons.prems(4) by simp
    from woken_step [OF k1(5) k'(5) this] show ?case
      using k' q1 k1(1) by (subst wakeup_del_loop.simps) (simp add: wait_queue_first_def)
  qed
qed

lemma wakeup_keep_loop_ok:
  assumes "sched_inv k" and "wait_inv k" and "waiters_alive q k" and "wqs k q = vs @ w # ws"
  shows "\<exists>k'. wakeup_keep_loop q flags w k = Some k' \<and> sched_inv k' \<and> wait_inv k' \<and> wqs k' = wqs k
    \<and> woken flags (w # ws) k k'"
  using assms
proof (induction ws arbitrary: vs w k)
  case (Nil vs w k)
  show ?case
  proof (rule wakeup_wait_woken [OF Nil.prems(1-3), of w flags False])
    show w: "w \<in> set (wqs k q)" using Nil.prems(4) by simp
    fix k1 assume k1: "wakeup_wait q w flags False k = Some k1" "sched_inv k1" "wait_inv k1" "woken flags [w] k k1"
      "wqs k1 = (wqs k)(q := if False then remove1 w (wqs k q) else wqs k q)"
    have wq: "wqs k1 = wqs k" using k1(5) by simp
    have "wait_in_queue w k1 \<and> wait_queue (waits k1 w) = q"
      using wait_invD(2,4) [OF k1(3)] w unfolding wq by blast
    then have "wait_queue_next q w k1 = Some None"
      using wait_invD(1) [OF Nil.prems(2), of q] Nil.prems(4) succ_in_split [of w vs "[]"]
      by (auto simp: wait_queue_next_def wq)
    then show ?case using k1 wq by (subst wakeup_keep_loop.simps) simp
  qed
next
  case (Cons v ws vs w k)
  show ?case
  proof (rule wakeup_wait_woken [OF Cons.prems(1-3), of w flags False])
    show w: "w \<in> set (wqs k q)" using Cons.prems(4) by simp
    fix k1 assume k1: "wakeup_wait q w flags False k = Some k1" "sched_inv k1" "wait_inv k1" "waiters_alive q k1"
      "woken flags [w] k k1" "wqs k1 = (wqs k)(q := if False then remove1 w (wqs k q) else wqs k q)"
    have "wqs k1 = wqs k" using k1(6) by simp
    then have wq: "wqs k1 = wqs k" "wqs k1 q = (vs @ [w]) @ v # ws" using Cons.prems(4) by simp_all
    have dist: "w \<notin> set vs" "w \<notin> set (v # ws)" using wait_invD(1) [OF Cons.prems(2), of q] Cons.prems(4) by auto
    have "wait_in_queue w k1 \<and> wait_queue (waits k1 w) = q"
      using wait_invD(2,4) [OF k1(3)] w unfolding wq(1) by blast
    then have "wait_queue_next q w k1 = Some (Some v)"
      using dist(1) Cons.prems(4) succ_in_split [of w vs "v # ws"]
      by (auto simp: wait_queue_next_def wq(1))
    moreover obtain k' where k': "wakeup_keep_loop q flags v k1 = Some k'" "sched_inv k'" "wait_inv k'" "wqs k' = wqs k1"
      "woken flags (v # ws) k1 k'" using Cons.IH [OF k1(2-4) wq(2)] by blast
    ultimately show ?case
      using woken_step [OF k1(5) k'(5) dist(2)] k1(1) wq(1) by (subst wakeup_keep_loop.simps) simp
  qed
qed

lemma wakeup_queue_ok:
  assumes "sched_inv k" and "wait_inv k" and "waiters_alive q k"
  shows "\<exists>k'. wakeup_queue q flags del k = Some k' \<and> sched_inv k' \<and> wait_inv k'
    \<and> wqs k' = (if del then (wqs k)(q := []) else wqs k) \<and> woken flags (wqs k q) k k'"
proof (cases "wqs k q")
  case Nil
  then have "(wqs k)(q := []) = wqs k" by auto
  then show ?thesis using Nil assms woken_refl by (simp add: wakeup_queue_def wait_queue_first_def)
next
  case (Cons w ws)
  then show ?thesis
    using wakeup_del_loop_ok [OF assms Cons, of flags] wakeup_keep_loop_ok [OF assms, of "[]" w ws flags]
    by (auto simp: wakeup_queue_def wait_queue_first_def)
qed

lemma wait_current_set_ok:
  assumes s: "sched_inv k" and inv: "wait_inv k" and w: "\<not> wait_in_queue w k"
  obtains k' where "wait_current_set q w ws k = Some k'" "sched_inv k'" "wait_inv k'"
    "waits k' = (waits k)(w := (waits k w)\<lparr>wproc := Some (current k), wakeup_flags := WT_INTERRUPTED, wait_queue := q\<rparr>)"
    "wqs k' = (wqs k)(q := wqs k q @ [w])"
    "procs k' = (procs k)(current k := (procs k (current k))\<lparr>state := PROC_SLEEPING, wait_state := ws\<rparr>)"
    "rqs k' = rqs k" "current k' = current k" "idleproc k' = idleproc k" "timers k' = timers k"
    "timer_list k' = timer_list k" "wait_kernel.more k' = wait_kernel.more k"
proof -
  let ?k2 = "upd_proc (current k) (\<lambda>pr. pr\<lparr>state := PROC_SLEEPING, wait_state := ws\<rparr>) (wait_init w (Some (current k)) k)"
  let ?k' = "upd_wq q (\<lambda>v. v @ [w]) (upd_wait w (\<lambda>r. r\<lparr>wait_queue := q\<rparr>) ?k2)"
  have wt: "waits ?k' = (waits k)(w := (waits k w)\<lparr>wproc := Some (current k), wakeup_flags := WT_INTERRUPTED, wait_queue := q\<rparr>)"
    and wq: "wqs ?k' = (wqs k)(q := wqs k q @ [w])"
    and pr: "procs ?k' = (procs k)(current k := (procs k (current k))\<lparr>state := PROC_SLEEPING, wait_state := ws\<rparr>)"
    by (simp_all add: wait_init_def)
  have new: "w \<notin> set (wqs k r)" for r using w wait_invD(4) [OF inv] by blast
  have res: "wait_current_set q w ws k = Some ?k'"
    using w by (simp add: wait_current_set_def wait_queue_add_def wait_in_queue_def wait_init_def)
  have rq: "rq_inv ?k'" "queued ?k' = queued k"
    using rq_inv_cong [OF sched_invD(1) [OF s], of ?k'] by (simp_all add: wait_init_def)
  have s': "sched_inv ?k'" using rq sched_invD(2) [OF s] by (auto simp: sched_inv_def wait_init_def)
  have i': "wait_inv ?k'" using inv new unfolding wait_inv_def wt wq by (auto 0 3)
  show thesis by (rule that [OF res s' i' wt wq pr]) (simp_all add: wait_init_def)
qed

subsection \<open>A queue as a first-in first-out channel\<close>

text \<open>What the clients of a wait queue rely on: blocking appends the record of the running process, a
  wakeup takes the first one out.\<close>

locale wait_channel =
  fixes inv :: "'k \<Rightarrow> bool"
    and waiters :: "'q \<Rightarrow> 'k \<Rightarrow> nat list"
    and fresh :: "nat \<Rightarrow> 'k \<Rightarrow> bool"
    and block :: "'q \<Rightarrow> nat \<Rightarrow> 'k \<Rightarrow> 'k option"
    and wake :: "'q \<Rightarrow> 'k \<Rightarrow> 'k option"
  assumes block: "inv k \<Longrightarrow> fresh w k \<Longrightarrow>
      \<exists>k'. block q w k = Some k' \<and> inv k' \<and> waiters q k' = waiters q k @ [w] \<and> (\<forall>r. r \<noteq> q \<longrightarrow> waiters r k' = waiters r k)"
    and wake: "inv k \<Longrightarrow>
      \<exists>k'. wake q k = Some k' \<and> inv k' \<and> waiters q k' = tl (waiters q k) \<and> (\<forall>r. r \<noteq> q \<longrightarrow> waiters r k' = waiters r k)"
begin

fun wake_n :: "'q \<Rightarrow> nat \<Rightarrow> 'k \<Rightarrow> 'k option" where
  "wake_n q 0 k = Some k"
| "wake_n q (Suc n) k = do { k1 \<leftarrow> wake q k; wake_n q n k1 }"

lemma wake_n_waiters: "inv k \<Longrightarrow> \<exists>k'. wake_n q n k = Some k' \<and> inv k' \<and> waiters q k' = drop n (waiters q k)"
proof (induction n arbitrary: k)
  case (Suc n)
  obtain k1 where k1: "wake q k = Some k1" "inv k1" "waiters q k1 = tl (waiters q k)" using wake [OF Suc.prems] by blast
  then show ?case using Suc.IH [OF k1(2)] by (simp add: drop_Suc)
qed simp

text \<open>A record that blocks behind \<open>n\<close> others is still there after \<open>n\<close> wakeups, and gone after one more.\<close>

lemma fifo:
  assumes "inv k" and "fresh w k" and "w \<notin> set (waiters q k)"
  obtains k1 k2 k3 where "block q w k = Some k1"
    "wake_n q (length (waiters q k)) k1 = Some k2" "waiters q k2 = [w]"
    "wake q k2 = Some k3" "waiters q k3 = []"
proof -
  obtain k1 where k1: "block q w k = Some k1" "inv k1" "waiters q k1 = waiters q k @ [w]"
    using block [OF assms(1,2)] by blast
  obtain k2 where k2: "wake_n q (length (waiters q k)) k1 = Some k2" "inv k2" "waiters q k2 = [w]"
    using wake_n_waiters [OF k1(2), of q "length (waiters q k)"] k1(3) by auto
  obtain k3 where "wake q k2 = Some k3" "waiters q k3 = []" using wake [OF k2(2), of q] k2(3) by auto
  then show thesis using that k1(1) k2 by blast
qed

end

definition channel_inv :: "'a wait_kernel_scheme \<Rightarrow> bool" where
  "channel_inv k \<longleftrightarrow> sched_inv k \<and> wait_inv k \<and> (\<forall>q. waiters_alive q k)"

lemma channel_invD:
  assumes "channel_inv k" shows "sched_inv k" and "wait_inv k" and "waiters_alive q k"
  using assms by (simp_all add: channel_inv_def)

lemma wakeup_first_ok:
  assumes "channel_inv k"
  obtains k' where "wakeup_first q flags del k = Some k'" "channel_inv k'"
    "woken flags (take 1 (wqs k q)) k k'" "wqs k' = (wqs k)(q := if del then tl (wqs k q) else wqs k q)"
proof (cases "wqs k q")
  case Nil
  have "(wqs k)(q := if del then tl (wqs k q) else wqs k q) = wqs k" using Nil by auto
  then show thesis
    using that [of k] assms Nil woken_refl [of flags k] by (simp add: wakeup_first_def wait_queue_first_def)
next
  case (Cons w ws)
  note c = channel_invD [OF assms]
  show thesis
  proof (rule wakeup_wait_woken [OF c(1,2) c(3), of w q flags del])
    show "w \<in> set (wqs k q)" using Cons by simp
    fix k' assume k': "wakeup_wait q w flags del k = Some k'" "sched_inv k'" "wait_inv k'"
      "woken flags [w] k k'" "wqs k' = (wqs k)(q := if del then remove1 w (wqs k q) else wqs k q)"
    have "waiters_alive r k'" for r
      by (rule woken_alive [OF c(3) k'(4)]) (use set_remove1_subset [of w "wqs k q"] in \<open>simp add: k'(5)\<close>)
    then have "channel_inv k'" using k'(2,3) by (simp add: channel_inv_def)
    moreover have "wakeup_first q flags del k = Some k'" using k'(1) Cons by (simp add: wakeup_first_def wait_queue_first_def)
    ultimately show thesis using that [of k'] k'(4,5) Cons by simp
  qed
qed

interpretation wq: wait_channel channel_inv "\<lambda>q k. wqs k q" "\<lambda>w k. \<not> wait_in_queue w k"
  "\<lambda>q w. wait_current_set q w ws" "\<lambda>q. wakeup_first q flags True"
proof
  fix k :: "'a wait_kernel_scheme" and w q
  assume c: "channel_inv k"
  show "\<exists>k'. wakeup_first q flags True k = Some k' \<and> channel_inv k' \<and> wqs k' q = tl (wqs k q) \<and> (\<forall>r. r \<noteq> q \<longrightarrow> wqs k' r = wqs k r)"
    by (rule wakeup_first_ok [OF c, of q flags True]) auto
  assume w: "\<not> wait_in_queue w k"
  show "\<exists>k'. wait_current_set q w ws k = Some k' \<and> channel_inv k' \<and> wqs k' q = wqs k q @ [w] \<and> (\<forall>r. r \<noteq> q \<longrightarrow> wqs k' r = wqs k r)"
  proof (rule wait_current_set_ok [OF channel_invD(1,2) [OF c] w, of q ws])
    fix k' assume k': "wait_current_set q w ws k = Some k'" "sched_inv k'" "wait_inv k'"
      "waits k' = (waits k)(w := (waits k w)\<lparr>wproc := Some (current k), wakeup_flags := WT_INTERRUPTED, wait_queue := q\<rparr>)"
      "wqs k' = (wqs k)(q := wqs k q @ [w])"
      "procs k' = (procs k)(current k := (procs k (current k))\<lparr>state := PROC_SLEEPING, wait_state := ws\<rparr>)"
    have "waiters_alive r k'" for r
      using channel_invD(3) [OF c, of r] unfolding waiters_alive_def k'(4-6) by (auto split: if_splits)
    then show ?thesis using k' by (auto simp: channel_inv_def)
  qed
qed

fun wakeup_firsts :: "wait_queue_t \<Rightarrow> u32 \<Rightarrow> nat \<Rightarrow> 'a wait_kernel_scheme \<Rightarrow> 'a wait_kernel_scheme option" where
  "wakeup_firsts q flags 0 k = Some k"
| "wakeup_firsts q flags (Suc n) k = do { k1 \<leftarrow> wakeup_first q flags True k; wakeup_firsts q flags n k1 }"

lemma wakeup_firsts_wake_n: "wakeup_firsts q flags n = wq.wake_n flags q n"
  by (induction n) (auto intro!: ext)

subsection \<open>The properties of wait queues\<close>

text \<open>Records 11 and 12, of the processes with these numbers, wait in a queue.\<close>

definition demo_waits :: wait_kernel where
  "demo_waits = \<lparr>procs = (\<lambda>p. \<lparr>state = (if p = 0 then PROC_RUNNABLE else PROC_SLEEPING), runs = 0,
       need_resched = False, wait_state = WT_TIMER, rq = None, time_slice = 0\<rparr>),
     current = 0, idleproc = 0, rqs = [\<lparr>run_list = [], proc_num = 0, max_time_slice = 8\<rparr>],
     timers = (\<lambda>_. \<lparr>expires = 0, tproc = None\<rparr>), timer_list = [],
     waits = (\<lambda>w. \<lparr>wproc = Some w, wakeup_flags = WT_INTERRUPTED, wait_queue = Event_wq 5\<rparr>), wqs = (\<lambda>_. [])(Event_wq 5 := [11, 12])\<rparr>"

lemma demo_waits_inv: "channel_inv demo_waits"
  by (auto simp: demo_waits_def channel_inv_def sched_inv_def rq_inv_def queued_def queue_ok_def wait_inv_def waiters_alive_def)

text \<open>\<open>wakeup_queue\<close> returns, on every queue whose records belong to live processes: every waiting process
  is runnable, its record carries the given flags, and no other record, queue, timer or process state
  changes.  With deletion the queue is empty, without it it is as before.  The scheduler's invariant and
  the invariant of the wait queues are kept.\<close>

theorem wakeup_queue_correct:
  assumes "sched_inv k" and "wait_inv k" and "waiters_alive q k"
  shows "\<exists>k'. wakeup_queue q flags del k = Some k' \<and> sched_inv k' \<and> wait_inv k'
    \<and> wqs k' = (if del then (wqs k)(q := []) else wqs k)
    \<and> (\<forall>w. waits k' w = (if w \<in> set (wqs k q) then (waits k w)\<lparr>wakeup_flags := flags\<rparr> else waits k w))
    \<and> (\<forall>r. state (procs k' r) = (if \<exists>w \<in> set (wqs k q). wproc (waits k w) = Some r
                                   then PROC_RUNNABLE else state (procs k r)))
    \<and> timers k' = timers k \<and> timer_list k' = timer_list k \<and> current k' = current k"
  using wakeup_queue_ok [OF assms, of flags del] by (auto simp: woken_def waiting_procs_def)

theorem wakeup_queue_correct_witness:
  "wqs demo_waits (Event_wq 5) = [11, 12] \<and> (\<exists>k'. wakeup_queue (Event_wq 5) WT_INTERRUPTED True demo_waits = Some k' \<and> wqs k' (Event_wq 5) = []
     \<and> state (procs k' 11) = PROC_RUNNABLE \<and> state (procs k' 13) = PROC_SLEEPING)"
proof -
  have d: "wqs demo_waits (Event_wq 5) = [11, 12]" "wproc (waits demo_waits w) = Some w" "state (procs demo_waits 13) = PROC_SLEEPING" for w
    by (simp_all add: demo_waits_def)
  show ?thesis
    using wakeup_queue_correct [OF channel_invD [OF demo_waits_inv], of "Event_wq 5" WT_INTERRUPTED True] d by auto
qed

text \<open>A wait queue is first in, first out: a process that blocks in a queue behind \<open>n\<close> others is still
  linked after \<open>n\<close> calls of \<open>wakeup_first\<close> (with deletion) and is the one the next call releases.\<close>

theorem wakeup_firsts_fifo:
  assumes "channel_inv k" and "\<not> wait_in_queue w k"
  shows "\<exists>k1 k2 k3. wait_current_set q w ws k = Some k1
    \<and> wakeup_firsts q flags (length (wqs k q)) k1 = Some k2 \<and> wqs k2 q = [w]
    \<and> wakeup_first q flags True k2 = Some k3 \<and> wqs k3 q = []"
proof -
  have "w \<notin> set (wqs k q)" using assms wait_invD(4) [OF channel_invD(2) [OF assms(1)]] by blast
  from wq.fifo [OF assms this, of ws flags] show ?thesis unfolding wakeup_firsts_wake_n by blast
qed

theorem wakeup_firsts_fifo_witness:
  "\<exists>k1 k2 k3. wait_current_set (Event_wq 5) 13 WT_TIMER demo_waits = Some k1
    \<and> wakeup_firsts (Event_wq 5) WT_TIMER 2 k1 = Some k2 \<and> wqs k2 (Event_wq 5) = [13] \<and> wakeup_first (Event_wq 5) WT_TIMER True k2 = Some k3 \<and> wqs k3 (Event_wq 5) = []"
proof -
  have "\<not> wait_in_queue 13 demo_waits" "length (wqs demo_waits (Event_wq 5)) = 2" by (simp_all add: demo_waits_def wait_in_queue_def)
  then show ?thesis using wakeup_firsts_fifo [OF demo_waits_inv, of 13 "Event_wq 5" WT_TIMER WT_TIMER] by simp
qed

end
