(* ===== verification/Ipc.thy ===== *)
theory Ipc
  imports Wait_Queue
begin

text \<open>
  \<^verbatim>\<open>kern/sync/ipc.h\<close>, the timeouts of the blocking calls, and the two halves of a blocking call that
  \<^verbatim>\<open>sem.c\<close>, \<^verbatim>\<open>event.c\<close> and \<^verbatim>\<open>mbox.c\<close> share.  A blocking call gives up the processor in \<open>schedule\<close>; what it
  does before is \<open>ipc_block\<close>, what it does when it runs again \<open>ipc_unblock\<close>.  A timer that is \<^verbatim>\<open>NULL\<close> is
  \<^const>\<open>None\<close>; timers and wait records are the ones on the stack of the calling process.  At the end: wait queues are first in, first out.
\<close>

record ipc_kernel = wait_kernel +
  ticks :: u32

definition ipc_add_timer :: "nat option \<Rightarrow> 'a kernel_scheme \<Rightarrow> 'a kernel_scheme option" where
  "ipc_add_timer tm k = (case tm of Some t \<Rightarrow> add_timer t k | None \<Rightarrow> Some k)"

definition ipc_del_timer :: "nat option \<Rightarrow> 'a kernel_scheme \<Rightarrow> 'a kernel_scheme" where
  "ipc_del_timer tm k = (case tm of Some t \<Rightarrow> del_timer t k | None \<Rightarrow> k)"

text \<open>The timer to use, the tick count saved (left alone without a timeout), and the new state.\<close>

definition ipc_timer_init :: "u32 \<Rightarrow> u32 \<Rightarrow> nat \<Rightarrow> 'a ipc_kernel_scheme \<Rightarrow> nat option \<times> u32 \<times> 'a ipc_kernel_scheme" where
  "ipc_timer_init timeout saved t k =
     (if timeout \<noteq> 0 then (Some t, ticks k, timer_init t (Some (current k)) timeout k) else (None, saved, k))"

definition ipc_check_timeout :: "u32 \<Rightarrow> u32 \<Rightarrow> 'a ipc_kernel_scheme \<Rightarrow> int" where
  "ipc_check_timeout timeout saved k =
     (if timeout \<noteq> 0 \<and> ticks k - saved \<ge> timeout then - E_TIMEOUT else - 1)"

definition ipc_block :: "wait_queue_t \<Rightarrow> nat \<Rightarrow> u32 \<Rightarrow> nat option \<Rightarrow> 'a wait_kernel_scheme \<Rightarrow> 'a wait_kernel_scheme option" where
  "ipc_block q w ws tm k = do {
     k1 \<leftarrow> wait_current_set q w ws k;
     k2 \<leftarrow> ipc_add_timer tm k1;
     schedule k2 }"

definition ipc_unblock :: "wait_queue_t \<Rightarrow> nat \<Rightarrow> nat option \<Rightarrow> 'a wait_kernel_scheme \<Rightarrow> 'a wait_kernel_scheme option" where
  "ipc_unblock q w tm k = wait_current_del q w (ipc_del_timer tm k)"

subsection \<open>Timeouts\<close>

text \<open>The tick counter may wrap between the two readings: only the difference counts.\<close>

lemma ipc_check_timeout_wraps:
  assumes "ticks k = saved + d"
  shows "ipc_check_timeout timeout saved k = - E_TIMEOUT \<longleftrightarrow> timeout \<noteq> 0 \<and> timeout \<le> d"
  using assms by (simp add: ipc_check_timeout_def)

subsection \<open>Blocking\<close>

lemma more_wait_kernel:
  assumes "wait_kernel.more k' = wait_kernel.more k" shows "ticks k' = ticks k"
  using assms by (cases k; cases k'; simp)

lemma ipc_del_timer_fields [simp]:
  "procs (ipc_del_timer tm k) = procs k" "rqs (ipc_del_timer tm k) = rqs k" "current (ipc_del_timer tm k) = current k"
  "idleproc (ipc_del_timer tm k) = idleproc k" "kernel.more (ipc_del_timer tm k) = kernel.more k"
  by (auto simp: ipc_del_timer_def del_timer_def Let_def split: option.splits)

lemma ipc_del_timer_waits [simp]:
  "waits (ipc_del_timer tm k) = waits k" "wqs (ipc_del_timer tm k) = wqs k"
  "wait_kernel.more (ipc_del_timer tm k) = wait_kernel.more k"
  using more_waits [OF ipc_del_timer_fields(5)] by blast+

lemma ipc_del_timer_inv: "kernel_inv k \<Longrightarrow> kernel_inv (ipc_del_timer tm k)"
  using do_sleep_leave_inv by (auto simp: ipc_del_timer_def do_sleep_leave_def split: option.splits)

text \<open>The process gets back: its record is unlinked, whoever woke it.\<close>

lemma ipc_unblock_ok:
  assumes inv: "wait_inv k" and s: "kernel_inv k" and w: "wait_queue (waits k w) = q"
  obtains k' where "ipc_unblock q w tm k = Some k'" "wait_inv k'" "kernel_inv k'" "waits k' = waits k"
    "wqs k' = (wqs k)(q := remove1 w (wqs k q))" "procs k' = procs k" "current k' = current k" "idleproc k' = idleproc k"
    "wait_kernel.more k' = wait_kernel.more k"
proof -
  let ?k = "ipc_del_timer tm k"
  let ?k' = "upd_wq q (remove1 w) ?k"
  have in_q: "wait_in_queue w ?k \<longleftrightarrow> w \<in> set (wqs k q)" by (simp add: wait_in_queue_def w)
  have ki: "kernel_inv ?k'"
    by (rule kernel_inv_frame [OF ipc_del_timer_inv [OF s, of tm]])
      (use ipc_del_timer_inv [OF s, of tm] in \<open>auto simp: kernel_inv_def wakeable_def intro: sched_inv_frame\<close>)
  have wi: "wait_inv ?k'" using inv by (auto simp: wait_inv_def dest: notin_set_remove1)
  show thesis
  proof (cases "w \<in> set (wqs k q)")
    case True
    then have "ipc_unblock q w tm k = Some ?k'"
      using in_q w by (simp add: ipc_unblock_def wait_current_del_def wait_queue_del_def)
    then show thesis using that [OF _ wi ki] by simp
  next
    case False
    then have r: "ipc_unblock q w tm k = Some ?k" using in_q by (simp add: ipc_unblock_def wait_current_del_def)
    have "remove1 w (wqs k q) = wqs k q" using False by (simp add: remove1_idem)
    then show thesis
      using that [OF r _ ipc_del_timer_inv [OF s]] inv by (simp add: wait_inv_def)
  qed
qed

text \<open>A timer may be used for a wait only when the wait can be interrupted; a process that waits
  uninterruptibly has no timer linked.\<close>

definition may_block :: "u32 \<Rightarrow> nat option \<Rightarrow> 'a kernel_scheme \<Rightarrow> bool" where
  "may_block ws tm k \<longleftrightarrow> (case tm of
      None \<Rightarrow> ws AND WT_INTERRUPTED \<noteq> 0 \<or> (\<forall>t \<in> set (timer_list k). tproc (timers k t) \<noteq> Some (current k))
    | Some t \<Rightarrow> ws AND WT_INTERRUPTED \<noteq> 0 \<and> t \<notin> set (timer_list k) \<and> expires (timers k t) \<noteq> 0
        \<and> tproc (timers k t) = Some (current k))"

lemma wait_current_set_kernel_inv:
  assumes inv: "kernel_inv k" and wi: "wait_inv k" and w: "\<not> wait_in_queue w k" and mb: "may_block ws tm k"
  obtains k1 where "wait_current_set q w ws k = Some k1" "kernel_inv k1" "wait_inv k1"
    "waits k1 = (waits k)(w := (waits k w)\<lparr>wproc := Some (current k), wakeup_flags := WT_INTERRUPTED, wait_queue := q\<rparr>)"
    "wqs k1 = (wqs k)(q := wqs k q @ [w])"
    "procs k1 = (procs k)(current k := (procs k (current k))\<lparr>state := PROC_SLEEPING, wait_state := ws\<rparr>)"
    "current k1 = current k" "idleproc k1 = idleproc k" "timers k1 = timers k" "timer_list k1 = timer_list k"
    "wait_kernel.more k1 = wait_kernel.more k"
proof -
  have s: "sched_inv k" using inv by (simp add: kernel_inv_def)
  show thesis
  proof (rule wait_current_set_ok [OF s wi w, of q ws])
    fix k1 assume k1: "wait_current_set q w ws k = Some k1" "sched_inv k1" "wait_inv k1"
      "waits k1 = (waits k)(w := (waits k w)\<lparr>wproc := Some (current k), wakeup_flags := WT_INTERRUPTED, wait_queue := q\<rparr>)"
      "wqs k1 = (wqs k)(q := wqs k q @ [w])"
      "procs k1 = (procs k)(current k := (procs k (current k))\<lparr>state := PROC_SLEEPING, wait_state := ws\<rparr>)"
      "current k1 = current k" "idleproc k1 = idleproc k" "timers k1 = timers k"
      "timer_list k1 = timer_list k" "wait_kernel.more k1 = wait_kernel.more k"
    have "wakeable k1 p" if "t \<in> set (timer_list k)" "tproc (timers k t) = Some p" for t p
    proof (cases "p = current k")
      case True
      then have "ws AND WT_INTERRUPTED \<noteq> 0" using mb that by (auto simp: may_block_def split: option.splits)
      then show ?thesis using True by (simp add: wakeable_def k1(6))
    next
      case False
      then show ?thesis using that inv by (auto simp: wakeable_def k1(6) kernel_inv_def owners_ok_def)
    qed
    then have "kernel_inv k1"
      using k1(2) inv timer_inv_frame(2) [OF k1(9,10)] by (auto simp: kernel_inv_def owners_ok_def k1(9,10))
    then show thesis using that k1 by blast
  qed
qed

lemma ipc_add_timer_ok:
  assumes inv: "kernel_inv k" and tm: "\<And>t. tm = Some t \<Longrightarrow> t \<notin> set (timer_list k) \<and> expires (timers k t) \<noteq> 0
      \<and> (\<exists>p. tproc (timers k t) = Some p \<and> wakeable k p)"
  obtains k2 where "ipc_add_timer tm k = Some k2" "kernel_inv k2" "procs k2 = procs k" "current k2 = current k"
    "idleproc k2 = idleproc k" "kernel.more k2 = kernel.more k"
proof (cases tm)
  case None
  then show thesis using that [of k] inv by (simp add: ipc_add_timer_def)
next
  case (Some t)
  have ti: "timer_inv k" and s: "sched_inv k" and own: "owners_ok k" using inv by (simp_all add: kernel_inv_def)
  obtain p where t: "t \<notin> set (timer_list k)" "expires (timers k t) \<noteq> 0" "tproc (timers k t) = Some p" "wakeable k p"
    using tm [OF Some] by blast
  show thesis
  proof (rule add_timer_due [OF ti t(1,2)])
    show "tproc (timers k t) \<noteq> None" using t(3) by simp
    fix k2 assume k2: "add_timer t k = Some k2" "timer_inv k2"
      "k2 = k\<lparr>timers := timers k2, timer_list := timer_list k2\<rparr>"
      "\<And>n. tproc (timers k2 n) = tproc (timers k n)" "set (timer_list k2) = insert t (set (timer_list k))"
    have f: "procs k2 = procs k" "current k2 = current k" "idleproc k2 = idleproc k" "kernel.more k2 = kernel.more k"
      by (subst k2(3), simp)+
    have "sched_inv k2" by (subst k2(3)) (simp only: sched_inv_timers s)
    moreover have "owners_ok k2" using own t(3,4) unfolding owners_ok_def wakeable_def f k2(4,5) by auto
    ultimately have "kernel_inv k2" using k2(2) by (simp add: kernel_inv_def)
    then show thesis using that [of k2] f k2(1) Some by (simp add: ipc_add_timer_def)
  qed
qed

lemma ipc_block_ok:
  assumes inv: "kernel_inv k" and wi: "wait_inv k" and w: "\<not> wait_in_queue w k" and mb: "may_block ws tm k"
  obtains k' where "ipc_block q w ws tm k = Some k'" "kernel_inv k'" "wait_inv k'"
    "waits k' = (waits k)(w := (waits k w)\<lparr>wproc := Some (current k), wakeup_flags := WT_INTERRUPTED, wait_queue := q\<rparr>)"
    "wqs k' = (wqs k)(q := wqs k q @ [w])" "wait_kernel.more k' = wait_kernel.more k"
    "\<And>r. state (procs k' r) = (if r = current k then PROC_SLEEPING else state (procs k r))"
    "\<And>r. wait_state (procs k' r) = (if r = current k then ws else wait_state (procs k r))"
proof (rule wait_current_set_kernel_inv [OF inv wi w mb, of q])
  fix k1 assume k1: "wait_current_set q w ws k = Some k1" "kernel_inv k1" "wait_inv k1"
    "waits k1 = (waits k)(w := (waits k w)\<lparr>wproc := Some (current k), wakeup_flags := WT_INTERRUPTED, wait_queue := q\<rparr>)"
    "wqs k1 = (wqs k)(q := wqs k q @ [w])"
    "procs k1 = (procs k)(current k := (procs k (current k))\<lparr>state := PROC_SLEEPING, wait_state := ws\<rparr>)"
    "current k1 = current k" "timers k1 = timers k" "timer_list k1 = timer_list k"
    "wait_kernel.more k1 = wait_kernel.more k"
  have tm: "t \<notin> set (timer_list k1) \<and> expires (timers k1 t) \<noteq> 0 \<and> (\<exists>p. tproc (timers k1 t) = Some p \<and> wakeable k1 p)"
    if "tm = Some t" for t
    using mb that by (simp add: may_block_def k1(8,9) wakeable_def k1(6))
  show thesis
  proof (rule ipc_add_timer_ok [OF k1(2) tm])
    fix k2 assume k2: "ipc_add_timer tm k1 = Some k2" "kernel_inv k2" "procs k2 = procs k1" "kernel.more k2 = kernel.more k1"
    obtain k' where k': "schedule k2 = Some k'" "kernel_inv k'" using schedule_kernel_inv [OF k2(2)] by blast
    have more: "kernel.more k' = kernel.more k1" using schedule_frame(1) [OF k2(2) k'(1)] k2(4) by simp
    note mw = more_waits [OF more]
    have wi': "wait_inv k'" using k1(3) by (simp add: wait_inv_def mw)
    have st: "state (procs k' r) = state (procs k1 r)" "wait_state (procs k' r) = wait_state (procs k1 r)" for r
      using schedule_frame(2,3) [OF k2(2) k'(1)] k2(3) by simp_all
    show thesis
      by (rule that [OF _ k'(2) wi']) (simp_all add: ipc_block_def k1(1) k2(1) k'(1) mw k1(4,5,10) st k1(6))
  qed
qed

lemma ipc_block_running:
  assumes inv: "kernel_inv k" and wi: "wait_inv k" and w: "\<not> wait_in_queue w k" and mb: "may_block ws tm k"
    and b: "ipc_block q w ws tm k = Some k'"
  shows "idleproc k' = idleproc k \<and> running_ok k'"
proof (rule wait_current_set_kernel_inv [OF inv wi w mb, of q])
  fix k1 assume k1: "wait_current_set q w ws k = Some k1" "kernel_inv k1"
    "procs k1 = (procs k)(current k := (procs k (current k))\<lparr>state := PROC_SLEEPING, wait_state := ws\<rparr>)"
    "current k1 = current k" "idleproc k1 = idleproc k" "timers k1 = timers k" "timer_list k1 = timer_list k"
  have tm: "t \<notin> set (timer_list k1) \<and> expires (timers k1 t) \<noteq> 0 \<and> (\<exists>p. tproc (timers k1 t) = Some p \<and> wakeable k1 p)"
    if "tm = Some t" for t
    using mb that by (simp add: may_block_def k1(6,7) wakeable_def k1(3))
  show ?thesis
  proof (rule ipc_add_timer_ok [OF k1(2) tm])
    fix k2 assume k2: "ipc_add_timer tm k1 = Some k2" "kernel_inv k2" "idleproc k2 = idleproc k1"
    then have "schedule k2 = Some k'" using b k1(1) by (simp add: ipc_block_def)
    then show ?thesis using schedule_running [OF k2(2)] k2(3) k1(5) by simp
  qed
qed

lemma timer_init_inv:
  assumes inv: "kernel_inv k" and t: "t \<notin> set (timer_list k)"
  shows "kernel_inv (timer_init t p e k)"
proof -
  let ?k = "timer_init t p e k"
  have "sched_inv ?k" using inv by (simp add: kernel_inv_def timer_init_def)
  moreover have "due ?k = due k" using t by (auto simp: due_def timer_init_def intro!: deadlines_cong)
  then have "timer_inv ?k" using inv t by (auto simp: kernel_inv_def timer_inv_def) (auto simp: timer_init_def)
  moreover have "owners_ok ?k" using inv t by (auto simp: kernel_inv_def owners_ok_def wakeable_def timer_init_def)
  ultimately show ?thesis by (simp add: kernel_inv_def)
qed

text \<open>Preparing the timer of an interruptible wait makes the wait possible.\<close>

lemma ipc_timer_init_ok:
  assumes inv: "kernel_inv k" and t: "t \<notin> set (timer_list k)" and ws: "ws AND WT_INTERRUPTED \<noteq> 0"
  obtains tm saved' k' where "ipc_timer_init timeout saved t k = (tm, saved', k')" "kernel_inv k'" "may_block ws tm k'"
    "tm = (if timeout = 0 then None else Some t)" "procs k' = procs k" "current k' = current k" "idleproc k' = idleproc k"
    "kernel.more k' = kernel.more k"
proof (cases "timeout = 0")
  case True
  then show thesis using that [of None saved k] inv ws by (simp add: ipc_timer_init_def may_block_def)
next
  case False
  let ?k = "timer_init t (Some (current k)) timeout k"
  have "may_block ws (Some t) ?k" using t ws False by (simp add: may_block_def timer_init_def)
  moreover have "procs ?k = procs k" "current ?k = current k" "idleproc ?k = idleproc k" "kernel.more ?k = kernel.more k"
    by (simp_all add: timer_init_def)
  ultimately show thesis using that [of "Some t" "ticks k" ?k] False timer_init_inv [OF inv t]
    by (simp add: ipc_timer_init_def)
qed

lemma ipc_block_channel:
  assumes inv: "kernel_inv k" and ch: "channel_inv k" and w: "\<not> wait_in_queue w k" and mb: "may_block ws tm k"
  obtains k' where "ipc_block q w ws tm k = Some k'" "kernel_inv k'" "channel_inv k'"
    "waits k' = (waits k)(w := (waits k w)\<lparr>wproc := Some (current k), wakeup_flags := WT_INTERRUPTED, wait_queue := q\<rparr>)"
    "wqs k' = (wqs k)(q := wqs k q @ [w])" "wait_kernel.more k' = wait_kernel.more k"
    "\<And>r. state (procs k' r) = (if r = current k then PROC_SLEEPING else state (procs k r))"
proof (rule ipc_block_ok [OF inv channel_invD(2) [OF ch] w mb, of q])
  fix k' assume k': "ipc_block q w ws tm k = Some k'" "kernel_inv k'" "wait_inv k'"
    "waits k' = (waits k)(w := (waits k w)\<lparr>wproc := Some (current k), wakeup_flags := WT_INTERRUPTED, wait_queue := q\<rparr>)"
    "wqs k' = (wqs k)(q := wqs k q @ [w])" "wait_kernel.more k' = wait_kernel.more k"
    "\<And>r. state (procs k' r) = (if r = current k then PROC_SLEEPING else state (procs k r))"
  have "waiters_alive r k'" for r
    using channel_invD(3) [OF ch, of r] unfolding waiters_alive_def k'(4,5,7) by (auto split: if_splits)
  then have "channel_inv k'" using k'(2,3) by (simp add: channel_inv_def kernel_inv_def)
  then show thesis using that k' by blast
qed

lemma ipc_unblock_channel:
  assumes inv: "kernel_inv k" and ch: "channel_inv k" and w: "wait_queue (waits k w) = q"
  obtains k' where "ipc_unblock q w tm k = Some k'" "kernel_inv k'" "channel_inv k'" "waits k' = waits k"
    "wqs k' = (wqs k)(q := remove1 w (wqs k q))" "procs k' = procs k" "current k' = current k"
    "wait_kernel.more k' = wait_kernel.more k"
proof (rule ipc_unblock_ok [OF channel_invD(2) [OF ch] inv w, of tm])
  fix k' assume k': "ipc_unblock q w tm k = Some k'" "wait_inv k'" "kernel_inv k'" "waits k' = waits k"
    "wqs k' = (wqs k)(q := remove1 w (wqs k q))" "procs k' = procs k" "current k' = current k"
    "wait_kernel.more k' = wait_kernel.more k"
  have "waiters_alive r k'" for r
    using channel_invD(3) [OF ch, of r] unfolding waiters_alive_def k'(4,5,6) by (auto dest: notin_set_remove1)
  then have "channel_inv k'" using k'(2,3) by (simp add: channel_inv_def kernel_inv_def)
  then show thesis using that k' by blast
qed

subsection \<open>A wait queue is first in, first out\<close>

lemma exec_event_alive:
  assumes inv: "kernel_inv k" and ok: "event_ok e k" and ex: "exec_event e k = Some k'" and z: "state (procs k r) \<noteq> PROC_ZOMBIE"
  shows "state (procs k' r) \<noteq> PROC_ZOMBIE"
proof (cases e)
  case Ev_Schedule
  then show ?thesis using schedule_frame(2) [OF inv] ex z by simp
next
  case (Ev_Wakeup p)
  then have w: "wakeup_proc p k = Some k'" using ex by simp
  show ?thesis using wakeup_proc_frame(2,7) [OF w] z by (cases "r = p") auto
next
  case Ev_Tick
  then show ?thesis using run_timer_list_ok [of k] inv ex z by (auto simp: kernel_inv_def)
next
  case (Ev_Sleep t n)
  have t: "t \<notin> set (timer_list k)" using ok Ev_Sleep by simp
  show ?thesis
  proof (rule do_sleep_enter_inv [OF inv t, of n])
    fix k3 assume k3: "do_sleep_enter t n k = (if n = 0 then Some k else schedule k3)" "kernel_inv k3"
      "\<And>r. n \<noteq> 0 \<Longrightarrow> r \<noteq> current k \<Longrightarrow> procs k3 r = procs k r"
      "n \<noteq> 0 \<Longrightarrow> state (procs k3 (current k)) = PROC_SLEEPING"
    show ?thesis
    proof (cases "n = 0")
      case False
      then have "schedule k3 = Some k'" using k3(1) ex Ev_Sleep by simp
      then show ?thesis using schedule_frame(2) [OF k3(2), of k' r] k3(3,4) [OF False] z by (cases "r = current k") auto
    qed (use k3(1) ex Ev_Sleep z in simp)
  qed
qed (use ex z in \<open>auto simp: do_yield_def do_sleep_leave_def del_timer_frame split: if_splits\<close>)

lemma exec_event_channel:
  assumes inv: "kernel_inv k" and ch: "channel_inv k" and ok: "event_ok e k" and ex: "exec_event e k = Some k'"
  shows "channel_inv k'" "waits k' = waits k" "wqs k' = wqs k"
proof -
  show w: "waits k' = waits k" "wqs k' = wqs k" using more_waits [OF exec_event_frame(1) [OF inv ok ex]] by blast+
  have "kernel_inv k'" by (rule exec_event_ok [OF inv ok]) (use ex in simp)
  moreover have "waiters_alive q k'" for q
    using channel_invD(3) [OF ch, of q] exec_event_alive [OF inv ok ex] by (simp add: waiters_alive_def w)
  ultimately show "channel_inv k'" using channel_invD(2) [OF ch] by (simp add: channel_inv_def kernel_inv_def wait_inv_def w)
qed

text \<open>What happens while a process waits in the queue \<open>q\<close>: other processes block in any queue and leave it, queues are woken, and the scheduler runs.  The records linked
  in \<open>q\<close> stay until they are woken, and the process \<open>p\<close> is not woken by name: the code does neither to a process that waits uninterruptibly.\<close>

datatype ipc_event = I_Block wait_queue_t nat u32 "nat option" | I_Leave wait_queue_t nat "nat option" | I_Wake wait_queue_t u32 | I_Sched sched_event

fun ipc_exec :: "ipc_event \<Rightarrow> 'a wait_kernel_scheme \<Rightarrow> 'a wait_kernel_scheme option" where
  "ipc_exec (I_Block q w ws tm) k = ipc_block q w ws tm k"
| "ipc_exec (I_Leave q w tm) k = ipc_unblock q w tm k"
| "ipc_exec (I_Wake q flags) k = wakeup_first q flags True k"
| "ipc_exec (I_Sched e) k = exec_event e k"

fun ipc_ok :: "wait_queue_t \<Rightarrow> nat \<Rightarrow> ipc_event \<Rightarrow> 'a wait_kernel_scheme \<Rightarrow> bool" where
  "ipc_ok q p (I_Block r v ws tm) k = (current k \<noteq> idleproc k \<and> \<not> wait_in_queue v k \<and> may_block ws tm k)"
| "ipc_ok q p (I_Leave r v tm) k = (wait_queue (waits k v) = r \<and> v \<notin> set (wqs k q))"
| "ipc_ok q p (I_Wake r flags) k = True"
| "ipc_ok q p (I_Sched e) k = (event_ok e k \<and> e \<noteq> Ev_Wakeup p)"

fun ipc_run :: "ipc_event list \<Rightarrow> 'a wait_kernel_scheme \<Rightarrow> 'a wait_kernel_scheme option" where
  "ipc_run [] k = Some k"
| "ipc_run (e # es) k = do { k1 \<leftarrow> ipc_exec e k; ipc_run es k1 }"

fun ipc_run_ok :: "wait_queue_t \<Rightarrow> nat \<Rightarrow> ipc_event list \<Rightarrow> 'a wait_kernel_scheme \<Rightarrow> bool" where
  "ipc_run_ok q p [] k = True"
| "ipc_run_ok q p (e # es) k = (ipc_ok q p e k \<and> (case ipc_exec e k of None \<Rightarrow> True | Some k1 \<Rightarrow> ipc_run_ok q p es k1))"

fun is_wake :: "wait_queue_t \<Rightarrow> ipc_event \<Rightarrow> bool" where
  "is_wake q (I_Wake r flags) = (r = q)"
| "is_wake q _ = False"

abbreviation wakes :: "wait_queue_t \<Rightarrow> ipc_event list \<Rightarrow> nat" where
  "wakes q es \<equiv> length (filter (is_wake q) es)"

text \<open>The process \<open>p\<close> sleeps with its one record \<open>w\<close> in \<open>q\<close>, behind the records \<open>pre\<close>.\<close>

definition asleep :: "wait_queue_t \<Rightarrow> nat \<Rightarrow> nat \<Rightarrow> u32 \<Rightarrow> nat list \<Rightarrow> 'a wait_kernel_scheme \<Rightarrow> bool" where
  "asleep q w p ws pre k \<longleftrightarrow> kernel_inv k \<and> channel_inv k \<and> running_ok k \<and> p \<noteq> idleproc k \<and> state (procs k p) = PROC_SLEEPING \<and> wait_state (procs k p) = ws \<and>
     wproc (waits k w) = Some p \<and> (\<forall>r v. v \<in> set (wqs k r) \<and> wproc (waits k v) = Some p \<longrightarrow> v = w) \<and> (\<exists>post. wqs k q = pre @ w # post)"

lemma asleepD:
  assumes "asleep q w p ws pre k"
  shows "kernel_inv k" "channel_inv k" "running_ok k" "p \<noteq> idleproc k" "state (procs k p) = PROC_SLEEPING" "wait_state (procs k p) = ws" "wproc (waits k w) = Some p"
    "v \<in> set (wqs k r) \<Longrightarrow> wproc (waits k v) = Some p \<Longrightarrow> v = w" "\<exists>post. wqs k q = pre @ w # post" "w \<in> set (wqs k q)" "current k \<noteq> p"
  using assms by (auto simp: asleep_def running_ok_def)

lemma asleepI:
  assumes "kernel_inv k" "channel_inv k" "running_ok k" "p \<noteq> idleproc k" "state (procs k p) = PROC_SLEEPING" "wait_state (procs k p) = ws" "wproc (waits k w) = Some p"
    "\<And>v r. v \<in> set (wqs k r) \<Longrightarrow> wproc (waits k v) = Some p \<Longrightarrow> v = w" "wqs k q = pre @ w # post"
  shows "asleep q w p ws pre k"
  unfolding asleep_def using assms by blast

lemma asleep_block:
  assumes a: "asleep q w p ws pre k" and ok: "ipc_ok q p (I_Block r v ws' tm) k"
  shows "\<exists>k'. ipc_block r v ws' tm k = Some k' \<and> asleep q w p ws pre k'"
proof -
  note D = asleepD [OF a]
  have c: "\<not> wait_in_queue v k" "may_block ws' tm k" using ok by simp_all
  note wi = channel_invD(2) [OF D(2)]
  have vw: "v \<noteq> w" using c(1) wait_invD(4) [OF wi, of w] D(10) by auto
  obtain post where post: "wqs k q = pre @ w # post" using D(9) by blast
  obtain k' where k': "ipc_block r v ws' tm k = Some k'" "kernel_inv k'" "wait_inv k'"
    "waits k' = (waits k)(v := (waits k v)\<lparr>wproc := Some (current k), wakeup_flags := WT_INTERRUPTED, wait_queue := r\<rparr>)" "wqs k' = (wqs k)(r := wqs k r @ [v])"
    "\<And>x. state (procs k' x) = (if x = current k then PROC_SLEEPING else state (procs k x))" "\<And>x. wait_state (procs k' x) = (if x = current k then ws' else wait_state (procs k x))"
    by (rule ipc_block_ok [OF D(1) wi c, of r]) blast
  have "channel_inv k'" by (rule ipc_block_channel [OF D(1,2) c, of r]) (use k'(1) in auto)
  moreover note run = ipc_block_running [OF D(1) wi c k'(1)]
  moreover have q': "wqs k' q = pre @ w # post @ (if q = r then [v] else [])" using post by (cases "q = r") (auto simp: k'(5))
  moreover have "x = w" if "x \<in> set (wqs k' s)" "wproc (waits k' x) = Some p" for s x
    using that D(8) [of x s] D(11) by (auto simp: k'(4,5) split: if_splits)
  ultimately have "asleep q w p ws pre k'" using k'(2,4,6,7) D(4-7,11) vw by (intro asleepI [OF _ _ _ _ _ _ _ _ q']) simp_all
  then show ?thesis using k'(1) by blast
qed

lemma asleep_leave:
  assumes a: "asleep q w p ws pre k" and ok: "ipc_ok q p (I_Leave r v tm) k"
  shows "\<exists>k'. ipc_unblock r v tm k = Some k' \<and> asleep q w p ws pre k'"
proof -
  note D = asleepD [OF a]
  have v: "wait_queue (waits k v) = r" "v \<notin> set (wqs k q)" using ok by simp_all
  obtain k' where k': "ipc_unblock r v tm k = Some k'" "kernel_inv k'" "waits k' = waits k" "wqs k' = (wqs k)(r := remove1 v (wqs k r))"
    "procs k' = procs k" "current k' = current k" "idleproc k' = idleproc k"
    by (rule ipc_unblock_ok [OF channel_invD(2) [OF D(2)] D(1) v(1), of tm]) blast
  have ch: "channel_inv k'" by (rule ipc_unblock_channel [OF D(1,2) v(1), of tm]) (use k'(1) in auto)
  obtain post where post: "wqs k q = pre @ w # post" using D(9) by blast
  have "wqs k' q = wqs k q" using v(2) by (auto simp: k'(4) remove1_idem)
  then have q': "wqs k' q = pre @ w # post" using post by simp
  moreover have "x = w" if "x \<in> set (wqs k' s)" "wproc (waits k' x) = Some p" for s x
    using that D(8) [of x s] by (auto simp: k'(3,4) dest: notin_set_remove1 split: if_splits)
  moreover have "running_ok k'" using D(3) by (simp add: running_ok_def k'(5-7))
  ultimately have "asleep q w p ws pre k'" using k'(2,3,5,7) D(4-7) ch by (intro asleepI [OF _ _ _ _ _ _ _ _ q']) simp_all
  then show ?thesis using k'(1) by blast
qed

lemma asleep_event:
  assumes a: "asleep q w p ws pre k" and ws: "ws \<noteq> 0" "ws AND WT_INTERRUPTED = 0" and ok: "ipc_ok q p (I_Sched e) k"
  shows "\<exists>k'. exec_event e k = Some k' \<and> asleep q w p ws pre k'"
proof -
  note D = asleepD [OF a]
  have e: "event_ok e k" "e \<noteq> Ev_Wakeup p" using ok by simp_all
  obtain k' where k': "exec_event e k = Some k'" "kernel_inv k'" by (rule exec_event_ok [OF D(1) e(1)])
  note ch = exec_event_channel [OF D(1,2) e(1) k'(1)] and run = exec_event_running [OF D(1) e(1) k'(1) D(3)]
  have "\<not> wakeable k p" using ws D(6) by (simp add: wakeable_def)
  then have "state (procs k' p) = state (procs k p) \<and> wait_state (procs k' p) = wait_state (procs k p)"
    using exec_event_frame(2) [OF D(1) e(1) k'(1)] e(2) D(11) by blast
  moreover obtain post where post: "wqs k' q = pre @ w # post" using D(9) by (auto simp: ch(3))
  ultimately have "asleep q w p ws pre k'" using k'(2) ch(1) run D(4-7) by (intro asleepI [OF _ _ _ _ _ _ _ _ post]) (simp_all add: ch(2,3) D(8))
  then show ?thesis using k'(1) by blast
qed

text \<open>A wakeup of another queue leaves the process alone; one of its own queue releases the record in front, which is its own when no other is before it.\<close>

lemma asleep_wake:
  assumes a: "asleep q w p ws pre k"
  shows "r \<noteq> q \<Longrightarrow> \<exists>k'. wakeup_first r flags True k = Some k' \<and> asleep q w p ws pre k'"
    and "pre = v # vs \<Longrightarrow> \<exists>k'. wakeup_first q flags True k = Some k' \<and> asleep q w p ws vs k'"
    and "pre = [] \<Longrightarrow> \<exists>k'. wakeup_first q flags True k = Some k' \<and> state (procs k' p) = PROC_RUNNABLE \<and> wait_state (procs k' p) = 0 \<and> p \<in> set (queued k') \<and>
      wakeup_flags (waits k' w) = flags \<and> \<not> wait_in_queue w k'"
proof -
  note D = asleepD [OF a]
  note wi = channel_invD(2) [OF D(2)]
  obtain post where post: "wqs k q = pre @ w # post" using D(9) by blast
  have step: "\<exists>k'. wakeup_first r flags True k = Some k' \<and> kernel_inv k' \<and> channel_inv k' \<and> woken flags (take 1 (wqs k r)) k k' \<and> wqs k' = (wqs k)(r := tl (wqs k r))" for r
  proof (rule wakeup_first_ok [OF D(2), of r flags True])
    fix k' assume k': "wakeup_first r flags True k = Some k'" "channel_inv k'" "woken flags (take 1 (wqs k r)) k k'" "wqs k' = (wqs k)(r := if True then tl (wqs k r) else wqs k r)"
    then show ?thesis using woken_kernel_inv [OF D(1) channel_invD(1) [OF k'(2)] k'(3)] by auto
  qed
  have keep: "asleep q w p ws vs k'" if k': "kernel_inv k'" "channel_inv k'" "woken flags xs k k'" "wqs k' = (wqs k)(r := tl (wqs k r))"
      and x: "w \<notin> set xs" "set xs \<subseteq> set (wqs k r)" and q: "wqs k' q = vs @ w # post" for k' xs r vs
  proof -
    have np: "p \<notin> waiting_procs xs k" using x D(8) unfolding waiting_procs_def by blast
    have wp: "wproc (waits k' y) = wproc (waits k y)" for y using k'(3) by (simp add: woken_def)
    have sub: "set (wqs k' s) \<subseteq> set (wqs k s)" for s using k'(4) by (cases "wqs k r") auto
    have run: "running_ok k'" using k'(3) D(3) by (auto simp: woken_def running_ok_def)
    have st: "state (procs k' p) = PROC_SLEEPING" "wait_state (procs k' p) = ws" "idleproc k' = idleproc k" using np k'(3) D(5,6) by (simp_all add: woken_def)
    show ?thesis
    proof (rule asleepI [OF k'(1,2) run _ st(1,2) _ _ q])
      show "v = w" if "v \<in> set (wqs k' s)" "wproc (waits k' v) = Some p" for v s using D(8) [of v s] that wp sub by auto
    qed (use st(3) D(4,7) wp in simp_all)
  qed
  show "\<exists>k'. wakeup_first r flags True k = Some k' \<and> asleep q w p ws pre k'" if "r \<noteq> q"
  proof -
    obtain k' where k': "wakeup_first r flags True k = Some k'" "kernel_inv k'" "channel_inv k'" "woken flags (take 1 (wqs k r)) k k'" "wqs k' = (wqs k)(r := tl (wqs k r))"
      using step [of r] by blast
    have "w \<notin> set (wqs k r)" using wait_invD(2) [OF wi, of w] D(10) that by metis
    then have "asleep q w p ws pre k'" using keep [OF k'(2-5), of pre] that post set_take_subset [of 1 "wqs k r"] by (auto simp: k'(5))
    then show ?thesis using k'(1) by blast
  qed
  obtain k' where k': "wakeup_first q flags True k = Some k'" "kernel_inv k'" "channel_inv k'" "woken flags (take 1 (wqs k q)) k k'" "wqs k' = (wqs k)(q := tl (wqs k q))"
    using step [of q] by blast
  have dist: "distinct (pre @ w # post)" using wait_invD(1) [OF wi, of q] post by simp
  show "\<exists>k'. wakeup_first q flags True k = Some k' \<and> asleep q w p ws vs k'" if "pre = v # vs"
  proof -
    have "asleep q w p ws vs k'" by (rule keep [OF k'(2-5)]) (use that post dist in \<open>auto simp: k'(5)\<close>)
    then show ?thesis using k'(1) by blast
  qed
  show "\<exists>k'. wakeup_first q flags True k = Some k' \<and> state (procs k' p) = PROC_RUNNABLE \<and> wait_state (procs k' p) = 0 \<and> p \<in> set (queued k') \<and>
      wakeup_flags (waits k' w) = flags \<and> \<not> wait_in_queue w k'" if "pre = []"
  proof -
    have one: "take 1 (wqs k q) = [w]" using that post by simp
    have "p \<in> waiting_procs [w] k" using D(7) by (simp add: waiting_procs_def)
    then have s: "state (procs k' p) = PROC_RUNNABLE" "wait_state (procs k' p) = 0" "wakeup_flags (waits k' w) = flags" "current k' = current k" "idleproc k' = idleproc k"
      "wait_queue (waits k' w) = wait_queue (waits k w)" using k'(4) D(5) unfolding one by (simp_all add: woken_def)
    have "p \<in> set (queued k')" using sched_invD(2) [OF channel_invD(1) [OF k'(3)], of p] s D(4,11) by simp
    moreover have "wait_queue (waits k w) = q" using wait_invD(2) [OF wi D(10)] .
    then have "\<not> wait_in_queue w k'" using s(6) k'(5) that post dist by (simp add: wait_in_queue_def)
    ultimately show ?thesis using k'(1) s by blast
  qed
qed

lemma asleep_run:
  assumes "asleep q w p ws pre k" "ws \<noteq> 0" "ws AND WT_INTERRUPTED = 0" "ipc_run_ok q p es k" "wakes q es \<le> length pre"
  shows "\<exists>k'. ipc_run es k = Some k' \<and> asleep q w p ws (drop (wakes q es) pre) k'"
  using assms(1,4,5)
proof (induction es arbitrary: k pre)
  case (Cons e es)
  have ok: "ipc_ok q p e k" using Cons.prems(2) by simp
  have "\<exists>k1. ipc_exec e k = Some k1 \<and> asleep q w p ws (drop (wakes q [e]) pre) k1"
  proof (cases e)
    case (I_Wake r flags)
    show ?thesis
    proof (cases "r = q")
      case False
      then show ?thesis using asleep_wake(1) [OF Cons.prems(1) False, of flags] I_Wake by simp
    next
      case True
      then obtain v vs where "pre = v # vs" using Cons.prems(3) I_Wake by (cases pre) auto
      then show ?thesis using asleep_wake(2) [OF Cons.prems(1), of v vs flags] I_Wake True by simp
    qed
  qed (use ok asleep_block [OF Cons.prems(1)] asleep_leave [OF Cons.prems(1)] asleep_event [OF Cons.prems(1) assms(2,3)] in auto)
  then obtain k1 where k1: "ipc_exec e k = Some k1" "asleep q w p ws (drop (wakes q [e]) pre) k1" by blast
  have "ipc_run_ok q p es k1" using Cons.prems(2) k1(1) by simp
  moreover have "wakes q es \<le> length (drop (wakes q [e]) pre)" using Cons.prems(3) by (auto split: if_splits)
  ultimately obtain k2 where "ipc_run es k1 = Some k2" "asleep q w p ws (drop (wakes q es) (drop (wakes q [e]) pre)) k2" using Cons.IH [OF k1(2)] by blast
  then show ?case using k1(1) by (auto simp: split: if_splits)
qed simp

text \<open>C36: A wait queue is first in, first out, under every interleaving.  A process that waits uninterruptibly (for a kernel semaphore, or for \<^verbatim>\<open>kswapd\<close>) in a queue
  behind others sleeps on as long as the queue has not been woken more often than there were records before its own, whatever other processes
  do meanwhile: block behind it or in other queues, leave these, wake them, sleep, yield or be switched.  The records before its own go in their order, and
  the next wakeup makes exactly this process runnable, puts it into the run queue, hands it the wakeup flags and unlinks its record.\<close>

theorem wait_queue_fifo:
  assumes inv: "kernel_inv k" "channel_inv k" and c: "current k \<noteq> idleproc k" and w: "\<not> wait_in_queue w k" and ws: "ws \<noteq> 0" "ws AND WT_INTERRUPTED = 0"
    and mb: "may_block ws None k" and free: "\<forall>r. \<forall>v\<in>set (wqs k r). wproc (waits k v) \<noteq> Some (current k)"
  shows "\<exists>k1. ipc_block q w ws None k = Some k1 \<and>
    (\<forall>es. ipc_run_ok q (current k) es k1 \<and> wakes q es \<le> length (wqs k q) \<longrightarrow>
      (\<exists>k2. ipc_run es k1 = Some k2 \<and> state (procs k2 (current k)) = PROC_SLEEPING \<and> wait_state (procs k2 (current k)) = ws \<and>
        (\<exists>post. wqs k2 q = drop (wakes q es) (wqs k q) @ w # post) \<and>
        (wakes q es = length (wqs k q) \<longrightarrow> (\<exists>k3. wakeup_first q flags True k2 = Some k3 \<and> state (procs k3 (current k)) = PROC_RUNNABLE \<and>
           wait_state (procs k3 (current k)) = 0 \<and> current k \<in> set (queued k3) \<and> wakeup_flags (waits k3 w) = flags \<and> \<not> wait_in_queue w k3))))"
proof -
  let ?p = "current k"
  note wi = channel_invD(2) [OF inv(2)]
  obtain k1 where k1: "ipc_block q w ws None k = Some k1" "kernel_inv k1"
    "waits k1 = (waits k)(w := (waits k w)\<lparr>wproc := Some ?p, wakeup_flags := WT_INTERRUPTED, wait_queue := q\<rparr>)" "wqs k1 = (wqs k)(q := wqs k q @ [w])"
    "\<And>x. state (procs k1 x) = (if x = ?p then PROC_SLEEPING else state (procs k x))" "\<And>x. wait_state (procs k1 x) = (if x = ?p then ws else wait_state (procs k x))"
    by (rule ipc_block_ok [OF inv(1) wi w mb, of q]) blast
  have "channel_inv k1" by (rule ipc_block_channel [OF inv w mb, of q]) (use k1(1) in auto)
  then have a: "asleep q w ?p ws (wqs k q) k1"
    using k1 c free ipc_block_running [OF inv(1) wi w mb k1(1)] unfolding asleep_def by (auto split: if_splits)
  have "\<exists>k2. ipc_run es k1 = Some k2 \<and> state (procs k2 ?p) = PROC_SLEEPING \<and> wait_state (procs k2 ?p) = ws \<and>
      (\<exists>post. wqs k2 q = drop (wakes q es) (wqs k q) @ w # post) \<and>
      (wakes q es = length (wqs k q) \<longrightarrow> (\<exists>k3. wakeup_first q flags True k2 = Some k3 \<and> state (procs k3 ?p) = PROC_RUNNABLE \<and>
         wait_state (procs k3 ?p) = 0 \<and> ?p \<in> set (queued k3) \<and> wakeup_flags (waits k3 w) = flags \<and> \<not> wait_in_queue w k3))"
    if es: "ipc_run_ok q ?p es k1" "wakes q es \<le> length (wqs k q)" for es
  proof -
    obtain k2 where k2: "ipc_run es k1 = Some k2" "asleep q w ?p ws (drop (wakes q es) (wqs k q)) k2" using asleep_run [OF a ws es] by blast
    have "\<exists>k3. wakeup_first q flags True k2 = Some k3 \<and> state (procs k3 ?p) = PROC_RUNNABLE \<and> wait_state (procs k3 ?p) = 0 \<and> ?p \<in> set (queued k3) \<and>
        wakeup_flags (waits k3 w) = flags \<and> \<not> wait_in_queue w k3" if "wakes q es = length (wqs k q)"
      by (rule asleep_wake(3) [OF k2(2)]) (use that in simp)
    then show ?thesis using k2(1) asleepD(5,6,9) [OF k2(2)] by blast
  qed
  then show ?thesis using k1(1) by blast
qed

text \<open>Processes 11 and 12 wait in a queue, process 13 runs.\<close>

definition demo_fifo :: wait_kernel where
  "demo_fifo = demo_waits\<lparr>procs := (procs demo_waits)(13 := (procs demo_waits 13)\<lparr>state := PROC_RUNNABLE, wait_state := 0\<rparr>), current := 13\<rparr>"

lemma demo_fifo_inv: "channel_inv demo_fifo" "kernel_inv demo_fifo"
proof -
  show c: "channel_inv demo_fifo"
    by (auto simp: demo_fifo_def demo_waits_def channel_inv_def sched_inv_def rq_inv_def queued_def queue_ok_def wait_inv_def waiters_alive_def)
  have "timer_list demo_fifo = []" by (simp add: demo_fifo_def demo_waits_def)
  then show "kernel_inv demo_fifo" using channel_invD(1) [OF c] by (simp add: kernel_inv_def timer_inv_def owners_ok_def due_def)
qed

theorem wait_queue_fifo_witness:
  "\<exists>k1 k2 k3. ipc_block (Event_wq 5) 13 0x100 None demo_fifo = Some k1 \<and>
     ipc_run [I_Wake (Event_wq 5) 7, I_Sched Ev_Schedule, I_Block (Event_wq 5) 14 0x100 None, I_Wake (Event_wq 5) 7, I_Sched Ev_Schedule] k1 = Some k2 \<and>
     wqs k2 (Event_wq 5) = [13, 14] \<and> state (procs k2 13) = PROC_SLEEPING \<and> wakeup_first (Event_wq 5) 7 True k2 = Some k3 \<and> state (procs k3 13) = PROC_RUNNABLE"
proof -
  let ?q = "Event_wq 5" and ?es = "[I_Wake (Event_wq 5) 7, I_Sched Ev_Schedule, I_Block (Event_wq 5) 14 0x100 None, I_Wake (Event_wq 5) 7, I_Sched Ev_Schedule]"
  have d: "current demo_fifo = 13" "idleproc demo_fifo = 0" "wqs demo_fifo = (\<lambda>_. [])(?q := [11, 12])" "\<And>v. wproc (waits demo_fifo v) = Some v" "timer_list demo_fifo = []"
    "\<And>v. wait_queue (waits demo_fifo v) = ?q" by (simp_all add: demo_fifo_def demo_waits_def)
  have h: "current demo_fifo \<noteq> idleproc demo_fifo" "\<not> wait_in_queue 13 demo_fifo" "(0x100 :: u32) \<noteq> 0" "(0x100 :: u32) AND WT_INTERRUPTED = 0" "may_block 0x100 None demo_fifo"
    "\<forall>r. \<forall>v\<in>set (wqs demo_fifo r). wproc (waits demo_fifo v) \<noteq> Some (current demo_fifo)"
    by (auto simp: d wait_in_queue_def may_block_def WT_INTERRUPTED_def)
  obtain k1 where k1: "ipc_block ?q 13 0x100 None demo_fifo = Some k1"
    "\<And>es. ipc_run_ok ?q 13 es k1 \<Longrightarrow> wakes ?q es \<le> length (wqs demo_fifo ?q) \<Longrightarrow> \<exists>k2. ipc_run es k1 = Some k2 \<and> state (procs k2 13) = PROC_SLEEPING \<and>
       (wakes ?q es = length (wqs demo_fifo ?q) \<longrightarrow> (\<exists>k3. wakeup_first ?q 7 True k2 = Some k3 \<and> state (procs k3 13) = PROC_RUNNABLE))"
    using wait_queue_fifo [OF demo_fifo_inv(2,1) h, of ?q 7, unfolded d(1)] by meson
  have c: "map_option (\<lambda>k1. (ipc_run_ok ?q 13 ?es k1, map_option (\<lambda>k2. wqs k2 ?q) (ipc_run ?es k1))) (ipc_block ?q 13 0x100 None demo_fifo) = Some (True, Some [13, 14])"
    by code_simp
  then have r: "ipc_run_ok ?q 13 ?es k1" using k1(1) by simp
  have "wakes ?q ?es = length (wqs demo_fifo ?q)" by (simp add: d(3))
  with k1(2) [OF r] obtain k2 k3 where "ipc_run ?es k1 = Some k2" "state (procs k2 13) = PROC_SLEEPING" "wakeup_first ?q 7 True k2 = Some k3" "state (procs k3 13) = PROC_RUNNABLE"
    by auto
  moreover have "wqs k2 ?q = [13, 14]" using c k1(1) calculation(1) by simp
  ultimately show ?thesis using k1(1) by blast
qed

end
