(* ===== verification/Event.thy ===== *)
theory Event
  imports Ipc
begin

text \<open>
  \<^verbatim>\<open>kern/sync/event.c\<close>: a process sends an integer to another and waits until it is received.  The sender
  waits in the queue of the receiver's event box.  The kernel state is extended by the event field of every
  process, its pid, and the two processes that never take events; \<open>find_proc\<close> is the lookup of \<^verbatim>\<open>proc.c\<close>.
  What \<open>user_mem_check\<close> and \<open>copy_to_user\<close> return for the user's buffers is an argument.  As in \<open>Ipc\<close>, a
  call that blocks is split at \<open>schedule\<close>.
\<close>

subsection \<open>State and operations\<close>

record event_kernel = ipc_kernel +
  event :: "nat \<Rightarrow> int"
  pid :: "nat \<Rightarrow> int"
  find_proc :: "int \<Rightarrow> nat option"
  initproc :: nat
  kswapd :: nat

definition WT_EVENT_SEND :: u32 where "WT_EVENT_SEND = 0x110 OR WT_INTERRUPTED"
definition WT_EVENT_RECV :: u32 where "WT_EVENT_RECV = 0x111 OR WT_INTERRUPTED"

definition event_box_init :: "nat \<Rightarrow> 'a wait_kernel_scheme \<Rightarrow> 'a wait_kernel_scheme" where
  "event_box_init p k = wait_queue_init (Event_wq p) k"

definition send_event_enter :: "nat \<Rightarrow> nat option \<Rightarrow> nat \<Rightarrow> 'a wait_kernel_scheme \<Rightarrow> 'a wait_kernel_scheme option" where
  "send_event_enter p tm w k = ipc_block (Event_wq p) w WT_EVENT_SEND tm k"

definition send_event_leave :: "nat \<Rightarrow> nat option \<Rightarrow> nat \<Rightarrow> 'a wait_kernel_scheme \<Rightarrow> (u32 \<times> 'a wait_kernel_scheme) option" where
  "send_event_leave p tm w k = do {
     k1 \<leftarrow> ipc_unblock (Event_wq p) w tm k;
     Some (if wakeup_flags (waits k1 w) \<noteq> WT_EVENT_SEND then wakeup_flags (waits k1 w) else 0, k1) }"

text \<open>\<open>Inl\<close>: the call returned this value; \<open>Inr\<close>: it sent and switched.\<close>

definition ipc_event_send_enter :: "int \<Rightarrow> int \<Rightarrow> u32 \<Rightarrow> u32 \<Rightarrow> nat \<Rightarrow> nat \<Rightarrow> 'a event_kernel_scheme
    \<Rightarrow> (int \<times> 'a event_kernel_scheme + nat \<times> nat option \<times> u32 \<times> 'a event_kernel_scheme) option" where
  "ipc_event_send_enter to ev timeout saved t w k = (case find_proc k to of
      None \<Rightarrow> Some (Inl (- E_INVAL, k))
    | Some p \<Rightarrow>
        if state (procs k p) = PROC_ZOMBIE then Some (Inl (- E_INVAL, k))
        else if p = current k \<or> p = idleproc k \<or> p = initproc k \<or> p = kswapd k then Some (Inl (- E_INVAL, k))
        else do {
          k1 \<leftarrow> (if wait_state (procs k p) = WT_EVENT_RECV then wakeup_proc p k else Some k);
          let k2 = k1\<lparr>event := (event k1)(current k1 := ev)\<rparr>;
          let (tm, saved', k3) = ipc_timer_init timeout saved t k2;
          k4 \<leftarrow> send_event_enter p tm w k3;
          Some (Inr (p, tm, saved', k4)) })"

definition ipc_event_send_leave :: "nat \<Rightarrow> u32 \<Rightarrow> u32 \<Rightarrow> nat option \<Rightarrow> nat \<Rightarrow> 'a event_kernel_scheme \<Rightarrow> (int \<times> 'a event_kernel_scheme) option" where
  "ipc_event_send_leave p timeout saved tm w k = do {
     (flags, k1) \<leftarrow> send_event_leave p tm w k;
     if flags = 0 then Some (0, k1)
     else do { kassert (flags = WT_INTERRUPTED); Some (ipc_check_timeout timeout saved k1, k1) } }"

text \<open>The end of \<open>recv_event\<close>: the first sender's pid and event, if there is a sender.\<close>

definition recv_event_take :: "'a event_kernel_scheme \<Rightarrow> ((int \<times> int) option \<times> 'a event_kernel_scheme) option" where
  "recv_event_take k = (case wait_queue_first (Event_wq (current k)) k of
      None \<Rightarrow> Some (None, k)
    | Some w \<Rightarrow> do {
        p \<leftarrow> wproc (waits k w);
        let msg = (pid k p, event k p);
        k1 \<leftarrow> wakeup_wait (Event_wq (current k)) w WT_EVENT_SEND True k;
        Some (Some msg, k1) })"

text \<open>\<open>recv_event\<close> up to the switch (\<open>Inr\<close>), or to its end if a sender waits already.\<close>

definition recv_event_enter :: "nat option \<Rightarrow> 'a event_kernel_scheme
    \<Rightarrow> ((int \<times> int) option \<times> 'a event_kernel_scheme + 'a event_kernel_scheme) option" where
  "recv_event_enter tm k =
     (if wait_queue_empty (Event_wq (current k)) k then do {
        k1 \<leftarrow> ipc_add_timer tm (upd_proc (current k) (\<lambda>pr. pr\<lparr>state := PROC_SLEEPING, wait_state := WT_EVENT_RECV\<rparr>) k);
        k2 \<leftarrow> schedule k1;
        Some (Inr k2) }
      else map_option Inl (recv_event_take k))"

definition recv_event_leave :: "nat option \<Rightarrow> 'a event_kernel_scheme \<Rightarrow> ((int \<times> int) option \<times> 'a event_kernel_scheme) option" where
  "recv_event_leave tm k = recv_event_take (ipc_del_timer tm k)"

text \<open>\<open>stores_ok\<close>: both user buffers are acceptable.  \<open>copied\<close>: both were written at the end.\<close>

definition ipc_event_recv_enter :: "bool \<Rightarrow> u32 \<Rightarrow> u32 \<Rightarrow> nat \<Rightarrow> 'a event_kernel_scheme
    \<Rightarrow> (int \<times> 'a event_kernel_scheme
       + nat option \<times> u32 \<times> ((int \<times> int) option \<times> 'a event_kernel_scheme + 'a event_kernel_scheme)) option" where
  "ipc_event_recv_enter stores_ok timeout saved t k =
     (if \<not> stores_ok then Some (Inl (- E_INVAL, k))
      else let (tm, saved', k1) = ipc_timer_init timeout saved t k in do {
        r \<leftarrow> recv_event_enter tm k1;
        Some (Inr (tm, saved', r)) })"

definition ipc_event_recv_finish :: "bool \<Rightarrow> u32 \<Rightarrow> u32 \<Rightarrow> (int \<times> int) option \<times> 'a event_kernel_scheme \<Rightarrow> int \<times> 'a event_kernel_scheme" where
  "ipc_event_recv_finish copied timeout saved r = (case r of
      (Some _, k) \<Rightarrow> (if copied then 0 else - E_INVAL, k)
    | (None, k) \<Rightarrow> (ipc_check_timeout timeout saved k, k))"

subsection \<open>Rendezvous\<close>

lemma event_interruptible: "WT_EVENT_SEND AND WT_INTERRUPTED \<noteq> 0" "WT_EVENT_RECV AND WT_INTERRUPTED \<noteq> 0"
  "WT_EVENT_SEND \<noteq> WT_INTERRUPTED"
  by (simp_all add: WT_EVENT_SEND_def WT_EVENT_RECV_def WT_INTERRUPTED_def)

lemma more_event:
  assumes "wait_kernel.more k' = wait_kernel.more k"
  shows "event k' = event k" and "pid k' = pid k" and "ticks k' = ticks k"
  using assms by (cases k; cases k'; simp)+

lemma recv_event_take_ok:
  assumes s: "sched_inv k" and inv: "wait_inv k" and q: "wqs k (Event_wq (current k)) = w # ws"
    and p: "wproc (waits k w) = Some p" and z: "state (procs k p) \<noteq> PROC_ZOMBIE"
  obtains k' where "recv_event_take k = Some (Some (pid k p, event k p), k')" "sched_inv k'" "wait_inv k'"
    "wqs k' = (wqs k)(Event_wq (current k) := ws)" "wakeup_flags (waits k' w) = WT_EVENT_SEND"
    "state (procs k' p) = PROC_RUNNABLE" "event k' = event k" "wait_queue (waits k' w) = Event_wq (current k)"
proof -
  have win: "w \<in> set (wqs k (Event_wq (current k)))" using q by simp
  show thesis
  proof (rule wakeup_wait_ok [OF s inv win p z, of WT_EVENT_SEND True])
    fix k' assume k': "wakeup_wait (Event_wq (current k)) w WT_EVENT_SEND True k = Some k'" "sched_inv k'" "wait_inv k'"
      "waits k' = (waits k)(w := (waits k w)\<lparr>wakeup_flags := WT_EVENT_SEND\<rparr>)"
      "wqs k' = (wqs k)(Event_wq (current k) := if True then remove1 w (wqs k (Event_wq (current k))) else wqs k (Event_wq (current k)))"
      "\<And>r. state (procs k' r) = (if r = p then PROC_RUNNABLE else state (procs k r))"
      "wait_kernel.more k' = wait_kernel.more k"
    show thesis
      by (rule that [OF _ k'(2,3)])
        (use k' q p more_event [OF k'(7)] wait_invD(2) [OF inv win] in \<open>simp_all add: recv_event_take_def wait_queue_first_def\<close>)
  qed
qed

text \<open>A sender whose record was taken out with the send flag is told so, whenever it runs again.\<close>

lemma send_leave_delivered:
  assumes "kernel_inv k" and "wait_inv k" and "wait_queue (waits k w) = Event_wq p"
    and "wakeup_flags (waits k w) = WT_EVENT_SEND"
  shows "\<exists>k'. ipc_event_send_leave p timeout saved tm w k = Some (0, k') \<and> w \<notin> set (wqs k' (Event_wq p))"
proof (rule ipc_unblock_ok [OF assms(2,1,3), of tm])
  fix k' assume k': "ipc_unblock (Event_wq p) w tm k = Some k'" "waits k' = waits k"
    "wqs k' = (wqs k)(Event_wq p := remove1 w (wqs k (Event_wq p)))"
  then show ?thesis
    using assms(4) wait_invD(1) [OF assms(2), of "Event_wq p"]
    by (simp add: ipc_event_send_leave_def send_event_leave_def)
qed

text \<open>A sender that was woken by its timer or otherwise interrupted reports a failure, and its event is withdrawn.\<close>

lemma send_leave_interrupted:
  assumes "kernel_inv k" and "wait_inv k" and "wait_queue (waits k w) = Event_wq p"
    and "wakeup_flags (waits k w) = WT_INTERRUPTED"
  shows "\<exists>k' r. ipc_event_send_leave p timeout saved tm w k = Some (r, k') \<and> r < 0 \<and> w \<notin> set (wqs k' (Event_wq p))"
proof (rule ipc_unblock_ok [OF assms(2,1,3), of tm])
  fix k' assume k': "ipc_unblock (Event_wq p) w tm k = Some k'" "waits k' = waits k"
    "wqs k' = (wqs k)(Event_wq p := remove1 w (wqs k (Event_wq p)))"
  have "WT_INTERRUPTED \<noteq> 0" by (simp add: WT_INTERRUPTED_def)
  then show ?thesis
    using k' assms(4) wait_invD(1) [OF assms(2), of "Event_wq p"] event_interruptible(3)
    by (simp add: ipc_event_send_leave_def send_event_leave_def ipc_check_timeout_def)
qed

lemma event_upd_inv [simp]:
  "kernel_inv (k\<lparr>event := f\<rparr>) = kernel_inv k" "wait_inv (k\<lparr>event := f\<rparr>) = wait_inv k"
  by (simp_all add: kernel_inv_def sched_inv_def rq_inv_def queued_def queue_ok_def timer_inv_def due_def
      owners_ok_def wakeable_def wait_inv_def)

text \<open>The receiver is woken first, if it waits for an event.\<close>

lemma send_wakes_receiver:
  assumes inv: "kernel_inv k" and wi: "wait_inv k" and z: "state (procs k p) \<noteq> PROC_ZOMBIE"
  obtains k1 where "(if wait_state (procs k p) = WT_EVENT_RECV then wakeup_proc p k else Some k) = Some k1"
    "kernel_inv k1" "wait_inv k1" "kernel.more k1 = kernel.more k" "current k1 = current k" "idleproc k1 = idleproc k"
    "timer_list k1 = timer_list k" "\<And>r. r \<noteq> p \<Longrightarrow> procs k1 r = procs k r"
    "wait_state (procs k p) = WT_EVENT_RECV \<Longrightarrow> state (procs k1 p) = PROC_RUNNABLE"
proof (cases "wait_state (procs k p) = WT_EVENT_RECV")
  case True
  obtain k1 where k1: "wakeup_proc p k = Some k1" "kernel_inv k1" using wakeup_kernel_inv [OF inv z] by blast
  note f = wakeup_proc_frame [OF k1(1)]
  have "wait_inv k1" using wi by (simp add: wait_inv_def more_waits [OF f(1)])
  then show thesis using that [of k1] True k1 f by simp
qed (use that [of k] inv wi in simp)

lemma event_send_enter_ok:
  assumes inv: "kernel_inv k" and wi: "wait_inv k" and fp: "find_proc k to = Some p"
    and z: "state (procs k p) \<noteq> PROC_ZOMBIE" and tgt: "p \<notin> {current k, idleproc k, initproc k, kswapd k}"
    and w: "\<not> wait_in_queue w k" and t: "t \<notin> set (timer_list k)"
  obtains tm saved' k' where "ipc_event_send_enter to ev timeout saved t w k = Some (Inr (p, tm, saved', k'))"
    "kernel_inv k'" "wait_inv k'" "wqs k' = (wqs k)(Event_wq p := wqs k (Event_wq p) @ [w])"
    "event k' = (event k)(current k := ev)" "wproc (waits k' w) = Some (current k)"
    "state (procs k' (current k)) = PROC_SLEEPING" "wait_state (procs k' (current k)) = WT_EVENT_SEND"
    "wait_state (procs k p) = WT_EVENT_RECV \<Longrightarrow> state (procs k' p) = PROC_RUNNABLE"
proof (rule send_wakes_receiver [OF inv wi z])
  fix k1 assume k1: "(if wait_state (procs k p) = WT_EVENT_RECV then wakeup_proc p k else Some k) = Some k1"
    "kernel_inv k1" "wait_inv k1" "kernel.more k1 = kernel.more k" "current k1 = current k" "idleproc k1 = idleproc k"
    "timer_list k1 = timer_list k"
    "wait_state (procs k p) = WT_EVENT_RECV \<Longrightarrow> state (procs k1 p) = PROC_RUNNABLE"
  let ?k2 = "k1\<lparr>event := (event k1)(current k1 := ev)\<rparr>"
  note m1 = more_waits [OF k1(4)]
  have ev1: "event k1 = event k" by (rule more_event [OF m1(3)])
  show thesis
  proof (rule ipc_timer_init_ok [of ?k2 t WT_EVENT_SEND timeout saved])
    show "kernel_inv ?k2" "t \<notin> set (timer_list ?k2)" "WT_EVENT_SEND AND WT_INTERRUPTED \<noteq> 0"
      using k1 t event_interruptible(1) by simp_all
    fix tm saved' k3 assume k3: "ipc_timer_init timeout saved t ?k2 = (tm, saved', k3)" "kernel_inv k3"
      "may_block WT_EVENT_SEND tm k3" "procs k3 = procs ?k2" "current k3 = current ?k2" "kernel.more k3 = kernel.more ?k2"
    note m3 = more_waits [OF k3(6)]
    have w3: "wait_inv k3" using k1(3) by (simp add: wait_inv_def m3)
    have wf: "\<not> wait_in_queue w k3" using w by (simp add: wait_in_queue_def m3 m1)
    have ev3: "event k3 = (event k)(current k := ev)" using more_event(1) [OF m3(3)] ev1 k1(5) by simp
    show thesis
    proof (rule ipc_block_ok [OF k3(2) w3 wf k3(3), of "Event_wq p"])
      fix k' assume k': "ipc_block (Event_wq p) w WT_EVENT_SEND tm k3 = Some k'" "kernel_inv k'" "wait_inv k'"
        "waits k' = (waits k3)(w := (waits k3 w)\<lparr>wproc := Some (current k3), wakeup_flags := WT_INTERRUPTED, wait_queue := Event_wq p\<rparr>)"
        "wqs k' = (wqs k3)(Event_wq p := wqs k3 (Event_wq p) @ [w])" "wait_kernel.more k' = wait_kernel.more k3"
        "\<And>r. state (procs k' r) = (if r = current k3 then PROC_SLEEPING else state (procs k3 r))"
        "\<And>r. wait_state (procs k' r) = (if r = current k3 then WT_EVENT_SEND else wait_state (procs k3 r))"
      have cur: "current k3 = current k" using k3(5) k1(5) by simp
      have "ipc_event_send_enter to ev timeout saved t w k = Some (Inr (p, tm, saved', k'))"
        using fp z tgt k1(1) k3(1) k'(1) by (simp add: ipc_event_send_enter_def send_event_enter_def)
      then show thesis
        using tgt k3(4) k1(8)
        by (intro that [OF _ k'(2,3)]) (auto simp: k'(4,5,7,8) m3 m1 cur ev3 more_event(1) [OF k'(6)])
    qed
  qed
qed

subsection \<open>The properties of events\<close>

text \<open>Process 1 runs, process 2 is ready, process 3 waits in the event box of process 1.\<close>

definition demo_event :: event_kernel where
  "demo_event = \<lparr>procs = (\<lambda>p. \<lparr>state = (if p < 3 then PROC_RUNNABLE else PROC_SLEEPING), runs = 0,
       need_resched = False, wait_state = (if p = 3 then WT_EVENT_SEND else 0),
       rq = (if p = 2 then Some 0 else None), time_slice = 8\<rparr>),
     current = 1, idleproc = 0, rqs = [\<lparr>run_list = [2], proc_num = 1, max_time_slice = 8\<rparr>],
     timers = (\<lambda>_. \<lparr>expires = 0, tproc = None\<rparr>), timer_list = [],
     waits = (\<lambda>w. \<lparr>wproc = Some 3, wakeup_flags = WT_INTERRUPTED, wait_queue = Event_wq 1\<rparr>),
     wqs = (\<lambda>_. [])(Event_wq 1 := [30]), ticks = 0,
     event = (\<lambda>_. 42), pid = int, find_proc = (\<lambda>i. if 0 \<le> i then Some (nat i) else None), initproc = 9, kswapd = 10\<rparr>"

lemma demo_event_inv: "kernel_inv demo_event" "wait_inv demo_event"
proof -
  have s: "sched_inv demo_event"
    by (auto simp: demo_event_def sched_inv_def rq_inv_def queued_def queue_ok_def)
  have t: "timer_inv demo_event" "owners_ok demo_event"
    by (simp_all add: demo_event_def timer_inv_def due_def owners_ok_def)
  show "kernel_inv demo_event" using s t by (simp add: kernel_inv_def)
  show "wait_inv demo_event" by (simp add: demo_event_def wait_inv_def)
qed

text \<open>Sending an event.  A target that does not exist, is a zombie, is the sender itself or one of the
  kernel's own processes is refused with \<open>-E_INVAL\<close> and nothing changes.  Otherwise the sender's event is
  recorded, a receiver that waits for an event is made runnable, and the sender sleeps at the end of the
  receiver's queue; nothing panics and all invariants are kept, with or without a timeout.\<close>

theorem event_send_correct:
  assumes "kernel_inv k" and "wait_inv k" and "\<not> wait_in_queue w k" and "t \<notin> set (timer_list k)"
  shows "case find_proc k to of
      None \<Rightarrow> ipc_event_send_enter to ev timeout saved t w k = Some (Inl (- E_INVAL, k))
    | Some p \<Rightarrow>
        if state (procs k p) = PROC_ZOMBIE \<or> p \<in> {current k, idleproc k, initproc k, kswapd k}
        then ipc_event_send_enter to ev timeout saved t w k = Some (Inl (- E_INVAL, k))
        else \<exists>tm saved' k'. ipc_event_send_enter to ev timeout saved t w k = Some (Inr (p, tm, saved', k'))
          \<and> kernel_inv k' \<and> wait_inv k' \<and> wqs k' = (wqs k)(Event_wq p := wqs k (Event_wq p) @ [w])
          \<and> wproc (waits k' w) = Some (current k) \<and> event k' = (event k)(current k := ev)
          \<and> state (procs k' (current k)) = PROC_SLEEPING \<and> wait_state (procs k' (current k)) = WT_EVENT_SEND
          \<and> (wait_state (procs k p) = WT_EVENT_RECV \<longrightarrow> state (procs k' p) = PROC_RUNNABLE)"
proof (cases "find_proc k to")
  case None
  then show ?thesis by (simp add: ipc_event_send_enter_def)
next
  case (Some p)
  show ?thesis
  proof (cases "state (procs k p) = PROC_ZOMBIE \<or> p \<in> {current k, idleproc k, initproc k, kswapd k}")
    case True
    then show ?thesis using Some by (auto simp: ipc_event_send_enter_def)
  next
    case False
    then have z: "state (procs k p) \<noteq> PROC_ZOMBIE" and tgt: "p \<notin> {current k, idleproc k, initproc k, kswapd k}" by auto
    obtain tm saved' k' where "ipc_event_send_enter to ev timeout saved t w k = Some (Inr (p, tm, saved', k'))
      \<and> kernel_inv k' \<and> wait_inv k' \<and> wqs k' = (wqs k)(Event_wq p := wqs k (Event_wq p) @ [w])
      \<and> wproc (waits k' w) = Some (current k) \<and> event k' = (event k)(current k := ev)
      \<and> state (procs k' (current k)) = PROC_SLEEPING \<and> wait_state (procs k' (current k)) = WT_EVENT_SEND
      \<and> (wait_state (procs k p) = WT_EVENT_RECV \<longrightarrow> state (procs k' p) = PROC_RUNNABLE)"
      by (rule event_send_enter_ok [OF assms(1,2) Some z tgt assms(3,4)]) blast
    then show ?thesis using Some z tgt by auto
  qed
qed

theorem event_send_correct_witness:
  "ipc_event_send_enter (- 1) 5 0 0 8 31 demo_event = Some (Inl (- E_INVAL, demo_event))
   \<and> (\<exists>tm saved k'. ipc_event_send_enter 2 5 0 0 8 31 demo_event = Some (Inr (2, tm, saved, k'))
      \<and> wqs k' (Event_wq 2) = [31] \<and> event k' 1 = 5)"
proof -
  have f: "\<not> wait_in_queue 31 demo_event" "8 \<notin> set (timer_list demo_event)"
    "find_proc demo_event (- 1) = None" "find_proc demo_event 2 = Some 2" "state (procs demo_event 2) = PROC_RUNNABLE"
    "current demo_event = 1" "idleproc demo_event = 0" "initproc demo_event = 9" "kswapd demo_event = 10"
    "wqs demo_event (Event_wq 2) = []"
    by (simp_all add: demo_event_def wait_in_queue_def)
  show ?thesis
    using event_send_correct [OF demo_event_inv f(1,2), of "- 1" 5 0 0]
      event_send_correct [OF demo_event_inv f(1,2), of 2 5 0 0] f by auto
qed

text \<open>Receiving an event when a sender waits delivers the pid and the event of the first sender, takes exactly
  that sender out of the queue and makes it runnable; whenever that sender runs again, with its record as
  the receiver left it, its call returns 0.\<close>

theorem event_recv_correct:
  assumes "kernel_inv k" and "wait_inv k" and "wqs k (Event_wq (current k)) = w # ws"
    and "wproc (waits k w) = Some p" and "state (procs k p) \<noteq> PROC_ZOMBIE"
  shows "\<exists>k'. recv_event_enter tm k = Some (Inl (Some (pid k p, event k p), k'))
    \<and> wqs k' = (wqs k)(Event_wq (current k) := ws) \<and> state (procs k' p) = PROC_RUNNABLE
    \<and> (\<forall>k2 :: 'a event_kernel_scheme. kernel_inv k2 \<and> wait_inv k2 \<and> waits k2 w = waits k' w \<longrightarrow>
         (\<exists>k3. ipc_event_send_leave (current k) timeout saved stm w k2 = Some (0, k3)))"
proof -
  have s: "sched_inv k" using assms(1) by (simp add: kernel_inv_def)
  show ?thesis
  proof (rule recv_event_take_ok [OF s assms(2-5)])
    fix k' assume k': "recv_event_take k = Some (Some (pid k p, event k p), k')"
      "wqs k' = (wqs k)(Event_wq (current k) := ws)" "wakeup_flags (waits k' w) = WT_EVENT_SEND"
      "state (procs k' p) = PROC_RUNNABLE" "wait_queue (waits k' w) = Event_wq (current k)"
    have "\<exists>k3. ipc_event_send_leave (current k) timeout saved stm w k2 = Some (0, k3)"
      if "kernel_inv k2" "wait_inv k2" "waits k2 w = waits k' w" for k2 :: "'a event_kernel_scheme"
      using send_leave_delivered [OF that(1,2), of w "current k" timeout saved stm] that(3) k' by auto
    moreover have "recv_event_enter tm k = Some (Inl (Some (pid k p, event k p), k'))"
      using k'(1) assms(3) by (simp add: recv_event_enter_def wait_queue_empty_def)
    ultimately show ?thesis using k' by blast
  qed
qed

theorem event_recv_correct_witness:
  "\<exists>k'. recv_event_enter None demo_event = Some (Inl (Some (3, 42), k')) \<and> wqs k' (Event_wq 1) = []"
proof -
  have f: "wqs demo_event (Event_wq (current demo_event)) = 30 # []" "wproc (waits demo_event 30) = Some 3"
    "state (procs demo_event 3) \<noteq> PROC_ZOMBIE" "pid demo_event 3 = 3" "event demo_event 3 = 42" "current demo_event = 1"
    by (simp_all add: demo_event_def)
  show ?thesis using event_recv_correct [OF demo_event_inv f(1-3), of None 0 0 None] f(4-6) by auto
qed

end
