(* ===== verification/Sem.thy ===== *)
theory Sem
  imports Ipc
begin

text \<open>
  \<^verbatim>\<open>kern/sync/sem.c\<close>: kernel semaphores and the user semaphores built on them.  Semaphores, undo records
  and semaphore queues are named by their addresses; the wait queue of a semaphore is the one at its
  address.  Blocks come from \<^verbatim>\<open>kmalloc\<close>: a function that allocates takes what \<^verbatim>\<open>kmalloc\<close> returned as arguments
  (\<^const>\<open>None\<close> is \<^verbatim>\<open>NULL\<close>), and the blocks given to \<^verbatim>\<open>kfree\<close> are logged in \<open>freed\<close>.  A call that blocks is
  split at \<open>schedule\<close>, as in \<open>Ipc\<close>.  \<^const>\<open>None\<close> as a result is a panic.
\<close>

subsection \<open>State\<close>

record semaphore_t =
  "value" :: int
  valid :: bool
  count :: int

record sem_queue_t =
  sem_queue_count :: int
  semu_list :: "u32 list"

record sem_kernel = ipc_kernel +
  sems :: "u32 \<Rightarrow> semaphore_t"
  semus :: "u32 \<Rightarrow> u32"
  sem_queues :: "u32 \<Rightarrow> sem_queue_t"
  sem_queue_of :: "nat \<Rightarrow> u32 option"
  freed :: "u32 list"

definition KERNBASE :: u32 where "KERNBASE = 0xC0000000"
definition WT_KSEM :: u32 where "WT_KSEM = 0x100"
definition WT_USEM :: u32 where "WT_USEM = 0x101 OR WT_INTERRUPTED"

definition VALID_SEMID :: "u32 \<Rightarrow> bool" where "VALID_SEMID sem_id \<longleftrightarrow> sem_id < sem_id + KERNBASE"
definition semid2sem :: "u32 \<Rightarrow> u32" where "semid2sem sem_id = sem_id + KERNBASE"
definition sem2semid :: "u32 \<Rightarrow> u32" where "sem2semid s = s - KERNBASE"

text \<open>The wait queue embedded in a semaphore.\<close>

definition sem_wq :: "u32 \<Rightarrow> wait_queue_t" where "sem_wq s = Sem_wq s"

definition upd_sem :: "u32 \<Rightarrow> (semaphore_t \<Rightarrow> semaphore_t) \<Rightarrow> 'a sem_kernel_scheme \<Rightarrow> 'a sem_kernel_scheme" where
  "upd_sem s f k = k\<lparr>sems := (sems k)(s := f (sems k s))\<rparr>"

definition kfree :: "u32 \<Rightarrow> 'a sem_kernel_scheme \<Rightarrow> 'a sem_kernel_scheme" where
  "kfree a k = k\<lparr>freed := a # freed k\<rparr>"

subsection \<open>Semaphores\<close>

definition sem_init :: "u32 \<Rightarrow> int \<Rightarrow> 'a sem_kernel_scheme \<Rightarrow> 'a sem_kernel_scheme" where
  "sem_init s v k = wait_queue_init (sem_wq s) (upd_sem s (\<lambda>_. \<lparr>value = v, valid = True, count = 0\<rparr>) k)"

text \<open>\<open>wait->proc->wait_state\<close> with no process dereferences \<^verbatim>\<open>NULL\<close>.\<close>

definition sem_up :: "u32 \<Rightarrow> u32 \<Rightarrow> 'a sem_kernel_scheme \<Rightarrow> 'a sem_kernel_scheme option" where
  "sem_up s ws k = do {
     kassert (valid (sems k s));
     case wait_queue_first (sem_wq s) k of
       None \<Rightarrow> Some (upd_sem s (\<lambda>r. r\<lparr>value := value r + 1\<rparr>) k)
     | Some w \<Rightarrow> do {
         p \<leftarrow> wproc (waits k w);
         kassert (wait_state (procs k p) = ws);
         wakeup_wait (sem_wq s) w ws True k } }"

text \<open>\<open>__down\<close> up to the switch: \<^const>\<open>True\<close> when it returned 0 without waiting.\<close>

definition sem_down_enter :: "u32 \<Rightarrow> u32 \<Rightarrow> nat option \<Rightarrow> nat \<Rightarrow> 'a sem_kernel_scheme \<Rightarrow> (bool \<times> 'a sem_kernel_scheme) option" where
  "sem_down_enter s ws tm w k = do {
     kassert (valid (sems k s));
     if value (sems k s) > 0 then Some (True, upd_sem s (\<lambda>r. r\<lparr>value := value r - 1\<rparr>) k)
     else do { k1 \<leftarrow> ipc_block (sem_wq s) w ws tm k; Some (False, k1) } }"

definition sem_down_leave :: "u32 \<Rightarrow> u32 \<Rightarrow> nat option \<Rightarrow> nat \<Rightarrow> 'a sem_kernel_scheme \<Rightarrow> (u32 \<times> 'a sem_kernel_scheme) option" where
  "sem_down_leave s ws tm w k = do {
     k1 \<leftarrow> ipc_unblock (sem_wq s) w tm k;
     Some (if wakeup_flags (waits k1 w) \<noteq> ws then wakeup_flags (waits k1 w) else 0, k1) }"

definition up :: "u32 \<Rightarrow> 'a sem_kernel_scheme \<Rightarrow> 'a sem_kernel_scheme option" where
  "up s k = sem_up s WT_KSEM k"

definition down_enter :: "u32 \<Rightarrow> nat \<Rightarrow> 'a sem_kernel_scheme \<Rightarrow> (bool \<times> 'a sem_kernel_scheme) option" where
  "down_enter s w k = sem_down_enter s WT_KSEM None w k"

definition down_leave :: "u32 \<Rightarrow> nat \<Rightarrow> 'a sem_kernel_scheme \<Rightarrow> 'a sem_kernel_scheme option" where
  "down_leave s w k = do { (flags, k1) \<leftarrow> sem_down_leave s WT_KSEM None w k; kassert (flags = 0); Some k1 }"

definition try_down :: "u32 \<Rightarrow> 'a sem_kernel_scheme \<Rightarrow> bool \<times> 'a sem_kernel_scheme" where
  "try_down s k =
     (if value (sems k s) > 0 then (True, upd_sem s (\<lambda>r. r\<lparr>value := value r - 1\<rparr>) k) else (False, k))"

definition usem_up :: "u32 \<Rightarrow> 'a sem_kernel_scheme \<Rightarrow> (int \<times> 'a sem_kernel_scheme) option" where
  "usem_up s k = do { k1 \<leftarrow> sem_up s WT_USEM k; Some (0, k1) }"

text \<open>\<open>usem_down\<close> up to the switch; the timer chosen and the saved ticks are on its stack.\<close>

definition usem_down_enter :: "u32 \<Rightarrow> u32 \<Rightarrow> u32 \<Rightarrow> nat \<Rightarrow> nat \<Rightarrow> 'a sem_kernel_scheme
    \<Rightarrow> (bool \<times> nat option \<times> u32 \<times> 'a sem_kernel_scheme) option" where
  "usem_down_enter s timeout saved t w k = do {
     let (tm, saved', k1) = ipc_timer_init timeout saved t k;
     (ret, k2) \<leftarrow> sem_down_enter s WT_USEM tm w k1;
     Some (ret, tm, saved', k2) }"

definition usem_down_leave :: "u32 \<Rightarrow> u32 \<Rightarrow> u32 \<Rightarrow> nat option \<Rightarrow> nat \<Rightarrow> 'a sem_kernel_scheme \<Rightarrow> (int \<times> 'a sem_kernel_scheme) option" where
  "usem_down_leave s timeout saved tm w k = do {
     (flags, k1) \<leftarrow> sem_down_leave s WT_USEM tm w k;
     if flags = 0 then Some (0, k1)
     else do { kassert (flags = WT_INTERRUPTED); Some (ipc_check_timeout timeout saved k1, k1) } }"

subsection \<open>User semaphores\<close>

definition sem_count_inc :: "u32 \<Rightarrow> 'a sem_kernel_scheme \<Rightarrow> int \<times> 'a sem_kernel_scheme" where
  "sem_count_inc s k = (count (sems k s) + 1, upd_sem s (\<lambda>r. r\<lparr>count := count r + 1\<rparr>) k)"

definition sem_count_dec :: "u32 \<Rightarrow> 'a sem_kernel_scheme \<Rightarrow> int \<times> 'a sem_kernel_scheme" where
  "sem_count_dec s k = (count (sems k s) - 1, upd_sem s (\<lambda>r. r\<lparr>count := count r - 1\<rparr>) k)"

definition sem_queue_create :: "u32 option \<Rightarrow> 'a sem_kernel_scheme \<Rightarrow> u32 option \<times> 'a sem_kernel_scheme" where
  "sem_queue_create m k = (case m of
      None \<Rightarrow> (None, k)
    | Some a \<Rightarrow> let k1 = sem_init a 1 k
                in (Some a, k1\<lparr>sem_queues := (sem_queues k1)(a := \<lparr>sem_queue_count = 0, semu_list = []\<rparr>)\<rparr>))"

definition sem_queue_destroy :: "u32 \<Rightarrow> 'a sem_kernel_scheme \<Rightarrow> 'a sem_kernel_scheme" where
  "sem_queue_destroy a k = kfree a k"

text \<open>\<open>m1\<close> and \<open>m2\<close> are what the two calls of \<^verbatim>\<open>kmalloc\<close> return; the second call is made only if there is no
  semaphore yet.\<close>

definition semu_create :: "u32 option \<Rightarrow> u32 option \<Rightarrow> u32 option \<Rightarrow> int \<Rightarrow> 'a sem_kernel_scheme
    \<Rightarrow> u32 option \<times> 'a sem_kernel_scheme" where
  "semu_create m1 m2 s v k = (case m1 of
      None \<Rightarrow> (None, k)
    | Some u \<Rightarrow>
        let (s', k1) = (case s of
              Some x \<Rightarrow> (Some x, k)
            | None \<Rightarrow> (case m2 of None \<Rightarrow> (None, k) | Some x \<Rightarrow> (Some x, sem_init x v k)))
        in case s' of
             Some x \<Rightarrow> let (_, k2) = sem_count_inc x k1 in (Some u, k2\<lparr>semus := (semus k2)(u := x)\<rparr>)
           | None \<Rightarrow> (None, kfree u k1))"

definition semu_destroy :: "u32 \<Rightarrow> 'a sem_kernel_scheme \<Rightarrow> 'a sem_kernel_scheme" where
  "semu_destroy u k =
     (let (n, k1) = sem_count_dec (semus k u) k;
          k2 = (if n = 0 then kfree (semus k1 u) k1 else k1)
      in kfree u k2)"

definition upd_semq :: "u32 \<Rightarrow> (u32 list \<Rightarrow> u32 list) \<Rightarrow> 'a sem_kernel_scheme \<Rightarrow> 'a sem_kernel_scheme" where
  "upd_semq a f k = k\<lparr>sem_queues := (sem_queues k)(a := (sem_queues k a)\<lparr>semu_list := f (semu_list (sem_queues k a))\<rparr>)\<rparr>"

text \<open>The loop of \<open>dup_sem_queue\<close> over the undo list of \<open>from\<close>; \<open>ms\<close> are the results of its calls of
  \<^verbatim>\<open>kmalloc\<close>, one per valid semaphore.\<close>

fun dup_loop :: "u32 \<Rightarrow> u32 list \<Rightarrow> u32 option list \<Rightarrow> 'a sem_kernel_scheme \<Rightarrow> int \<times> 'a sem_kernel_scheme" where
  "dup_loop to [] ms k = (0, k)"
| "dup_loop to (u # us) ms k =
     (if valid (sems k (semus k u)) then
        (case semu_create (case ms of [] \<Rightarrow> None | m # _ \<Rightarrow> m) None (Some (semus k u)) 0 k of
           (None, k1) \<Rightarrow> (- E_NO_MEM, k1)
         | (Some u', k1) \<Rightarrow> dup_loop to us (tl ms) (upd_semq to (\<lambda>l. u' # l) k1))
      else dup_loop to us ms k)"

definition dup_sem_queue :: "u32 option list \<Rightarrow> u32 \<Rightarrow> u32 \<Rightarrow> 'a sem_kernel_scheme \<Rightarrow> int \<times> 'a sem_kernel_scheme" where
  "dup_sem_queue ms to frm k = dup_loop to (semu_list (sem_queues k frm)) ms k"

fun exit_loop :: "u32 \<Rightarrow> u32 list \<Rightarrow> 'a sem_kernel_scheme \<Rightarrow> 'a sem_kernel_scheme" where
  "exit_loop a [] k = k"
| "exit_loop a (u # us) k = exit_loop a us (semu_destroy u (upd_semq a (\<lambda>_. us) k))"

definition exit_sem_queue :: "u32 \<Rightarrow> 'a sem_kernel_scheme \<Rightarrow> 'a sem_kernel_scheme option" where
  "exit_sem_queue a k = do {
     kassert (sem_queue_count (sem_queues k a) = 0);
     Some (exit_loop a (semu_list (sem_queues k a)) k) }"

text \<open>\<open>semu_list_search\<close> moves the record it finds to the front, or drops it if its semaphore was freed.\<close>

definition semu_list_search :: "u32 \<Rightarrow> u32 \<Rightarrow> 'a sem_kernel_scheme \<Rightarrow> u32 option \<times> 'a sem_kernel_scheme" where
  "semu_list_search a sem_id k =
     (if VALID_SEMID sem_id then
        (case find (\<lambda>u. semus k u = semid2sem sem_id) (semu_list (sem_queues k a)) of
           None \<Rightarrow> (None, k)
         | Some u \<Rightarrow>
             let k1 = upd_semq a (remove1 u) k
             in if valid (sems k1 (semid2sem sem_id)) then (Some u, upd_semq a (\<lambda>l. u # l) k1)
                else (None, semu_destroy u k1))
      else (None, k))"

text \<open>The first part of the system calls, up to the switch in \<open>down(&(sem_queue->sem))\<close>.  \<open>ipc_sem_init\<close> makes
  its undo record before; \<open>store_ok\<close> says that \<^verbatim>\<open>value_store\<close> is not \<^verbatim>\<open>NULL\<close> and passed \<open>user_mem_check\<close>.\<close>

definition ipc_sem_enter :: "nat \<Rightarrow> 'a sem_kernel_scheme \<Rightarrow> (u32 \<times> bool \<times> 'a sem_kernel_scheme) option" where
  "ipc_sem_enter w k = do {
     a \<leftarrow> sem_queue_of k (current k);
     r \<leftarrow> down_enter a w k;
     Some (a, r) }"

definition ipc_sem_init_enter :: "u32 option \<Rightarrow> u32 option \<Rightarrow> int \<Rightarrow> nat \<Rightarrow> 'a sem_kernel_scheme
    \<Rightarrow> (int \<times> 'a sem_kernel_scheme + u32 \<times> u32 \<times> bool \<times> 'a sem_kernel_scheme) option" where
  "ipc_sem_init_enter m1 m2 v w k = do {
     kassert (sem_queue_of k (current k) \<noteq> None);
     case semu_create m1 m2 None v k of
       (None, k1) \<Rightarrow> Some (Inl (- E_NO_MEM, k1))
     | (Some u, k1) \<Rightarrow> map_option (\<lambda>r. Inr (u, r)) (ipc_sem_enter w k1) }"

definition ipc_sem_get_value_enter :: "bool \<Rightarrow> nat \<Rightarrow> 'a sem_kernel_scheme
    \<Rightarrow> (int \<times> 'a sem_kernel_scheme + u32 \<times> bool \<times> 'a sem_kernel_scheme) option" where
  "ipc_sem_get_value_enter store_ok w k = do {
     kassert (sem_queue_of k (current k) \<noteq> None);
     if store_ok then map_option Inr (ipc_sem_enter w k) else Some (Inl (- E_INVAL, k)) }"

text \<open>The system calls, from the point where \<open>down(&(sem_queue->sem))\<close> has returned; \<open>a\<close> is the semaphore
  queue of the running process.\<close>

definition ipc_sem_init_locked :: "u32 \<Rightarrow> u32 \<Rightarrow> 'a sem_kernel_scheme \<Rightarrow> (u32 \<times> 'a sem_kernel_scheme) option" where
  "ipc_sem_init_locked a u k = do {
     k1 \<leftarrow> up a (upd_semq a (\<lambda>l. u # l) k);
     Some (sem2semid (semus k1 u), k1) }"

definition ipc_sem_search_locked :: "u32 \<Rightarrow> u32 \<Rightarrow> 'a sem_kernel_scheme \<Rightarrow> (u32 option \<times> 'a sem_kernel_scheme) option" where
  "ipc_sem_search_locked a sem_id k = do {
     let (semu, k1) = semu_list_search a sem_id k;
     k2 \<leftarrow> up a k1;
     Some (semu, k2) }"

definition ipc_sem_post_locked :: "u32 \<Rightarrow> u32 \<Rightarrow> 'a sem_kernel_scheme \<Rightarrow> (int \<times> 'a sem_kernel_scheme) option" where
  "ipc_sem_post_locked a sem_id k = do {
     (semu, k1) \<leftarrow> ipc_sem_search_locked a sem_id k;
     case semu of Some u \<Rightarrow> usem_up (semus k1 u) k1 | None \<Rightarrow> Some (- E_INVAL, k1) }"

text \<open>\<open>ipc_sem_wait\<close> either fails, or goes on in \<open>usem_down\<close>: \<open>Inl\<close> is a return value, \<open>Inr\<close> the state at the
  switch or immediate return of \<open>usem_down_enter\<close>.\<close>

definition ipc_sem_wait_locked :: "u32 \<Rightarrow> u32 \<Rightarrow> u32 \<Rightarrow> u32 \<Rightarrow> nat \<Rightarrow> nat \<Rightarrow> 'a sem_kernel_scheme
    \<Rightarrow> (int \<times> 'a sem_kernel_scheme + bool \<times> nat option \<times> u32 \<times> 'a sem_kernel_scheme) option" where
  "ipc_sem_wait_locked a sem_id timeout saved t w k = do {
     (semu, k1) \<leftarrow> ipc_sem_search_locked a sem_id k;
     case semu of
       Some u \<Rightarrow> map_option Inr (usem_down_enter (semus k1 u) timeout saved t w k1)
     | None \<Rightarrow> Some (Inl (- E_INVAL, k1)) }"

definition ipc_sem_free_locked :: "u32 \<Rightarrow> u32 \<Rightarrow> 'a sem_kernel_scheme \<Rightarrow> (int \<times> 'a sem_kernel_scheme) option" where
  "ipc_sem_free_locked a sem_id k = do {
     (semu, k1) \<leftarrow> ipc_sem_search_locked a sem_id k;
     case semu of
       Some u \<Rightarrow> do {
         k2 \<leftarrow> wakeup_queue (sem_wq (semus k1 u)) WT_INTERRUPTED True (upd_sem (semus k1 u) (\<lambda>r. r\<lparr>valid := False\<rparr>) k1);
         Some (0, k2) }
     | None \<Rightarrow> Some (- E_INVAL, k1) }"

text \<open>\<open>copied\<close> is what \<open>copy_to_user\<close> returns; the value read is the second component.\<close>

definition ipc_sem_get_value_locked :: "bool \<Rightarrow> u32 \<Rightarrow> u32 \<Rightarrow> 'a sem_kernel_scheme \<Rightarrow> (int \<times> int option \<times> 'a sem_kernel_scheme) option" where
  "ipc_sem_get_value_locked copied a sem_id k = do {
     (semu, k1) \<leftarrow> ipc_sem_search_locked a sem_id k;
     case semu of
       Some u \<Rightarrow> Some (if copied then (0, Some (value (sems k1 (semus k1 u))), k1) else (- E_INVAL, None, k1))
     | None \<Rightarrow> Some (- E_INVAL, None, k1) }"

subsection \<open>Mutual exclusion\<close>

text \<open>Where a process stands with respect to one kernel semaphore: outside, in \<open>down\<close> waiting with a record, or
  past \<open>down\<close>.\<close>

datatype pc = Out | Wait nat | In

definition granted :: "u32 \<Rightarrow> (nat \<Rightarrow> pc) \<Rightarrow> 'a sem_kernel_scheme \<Rightarrow> nat set" where
  "granted s pc k = {p. pc p = In \<or> (\<exists>w. pc p = Wait w \<and> w \<notin> set (wqs k (sem_wq s)))}"

text \<open>Between two calls of its own a process may be preempted, ticks may wake others, processes sleep and
  yield, and the kernel wakes processes that wait interruptibly.\<close>

fun outside_event :: "sched_event \<Rightarrow> (nat \<Rightarrow> pc) \<Rightarrow> 'a kernel_scheme \<Rightarrow> bool" where
  "outside_event (Ev_Wakeup p) pc k = (\<forall>w. pc p \<noteq> Wait w)"
| "outside_event Ev_Schedule pc k = True"
| "outside_event Ev_Tick pc k = True"
| "outside_event _ pc k = (\<forall>w. pc (current k) \<noteq> Wait w)"

inductive sem_step :: "u32 \<Rightarrow> (nat \<Rightarrow> pc) \<times> 'a sem_kernel_scheme \<Rightarrow> (nat \<Rightarrow> pc) \<times> 'a sem_kernel_scheme \<Rightarrow> bool" for s where
  step_down: "pc (current k) = Out \<Longrightarrow> current k \<noteq> idleproc k \<Longrightarrow> \<not> wait_in_queue w k \<Longrightarrow> (\<And>p. pc p \<noteq> Wait w) \<Longrightarrow> may_block WT_KSEM None k \<Longrightarrow>
     down_enter s w k = Some (ret, k') \<Longrightarrow> sem_step s (pc, k) (pc(current k := if ret then In else Wait w), k')"
| step_resume: "pc (current k) = Wait w \<Longrightarrow> down_leave s w k = Some k' \<Longrightarrow> sem_step s (pc, k) (pc(current k := In), k')"
| step_up: "pc (current k) = In \<Longrightarrow> up s k = Some k' \<Longrightarrow> sem_step s (pc, k) (pc(current k := Out), k')"
| step_event: "outside_event e pc k \<Longrightarrow> event_ok e k \<Longrightarrow> exec_event e k = Some k' \<Longrightarrow> sem_step s (pc, k) (pc, k')"

inductive sem_reach :: "u32 \<Rightarrow> (nat \<Rightarrow> pc) \<times> 'a sem_kernel_scheme \<Rightarrow> (nat \<Rightarrow> pc) \<times> 'a sem_kernel_scheme \<Rightarrow> bool" for s where
  sem_refl: "sem_reach s x x"
| sem_trans: "sem_reach s x y \<Longrightarrow> sem_step s y z \<Longrightarrow> sem_reach s x z"

definition waiter_ok :: "u32 \<Rightarrow> (nat \<Rightarrow> pc) \<Rightarrow> 'a sem_kernel_scheme \<Rightarrow> nat \<Rightarrow> bool" where
  "waiter_ok s pc k w \<longleftrightarrow> (\<exists>p. wproc (waits k w) = Some p \<and> pc p = Wait w
     \<and> state (procs k p) = PROC_SLEEPING \<and> wait_state (procs k p) = WT_KSEM)"

definition caller_ok :: "u32 \<Rightarrow> (nat \<Rightarrow> pc) \<Rightarrow> 'a sem_kernel_scheme \<Rightarrow> nat \<Rightarrow> nat \<Rightarrow> bool" where
  "caller_ok s pc k p w \<longleftrightarrow> wproc (waits k w) = Some p \<and> wait_queue (waits k w) = sem_wq s
     \<and> (w \<notin> set (wqs k (sem_wq s)) \<longrightarrow> wakeup_flags (waits k w) = WT_KSEM)"

definition sem_inv :: "u32 \<Rightarrow> nat \<Rightarrow> (nat \<Rightarrow> pc) \<times> 'a sem_kernel_scheme \<Rightarrow> bool" where
  "sem_inv s n = (\<lambda>(pc, k). kernel_inv k \<and> wait_inv k \<and> running_ok k \<and> (\<forall>w. pc (idleproc k) \<noteq> Wait w) \<and> valid (sems k s)
     \<and> 0 \<le> value (sems k s) \<and> (0 < value (sems k s) \<longrightarrow> wqs k (sem_wq s) = [])
     \<and> (\<forall>w \<in> set (wqs k (sem_wq s)). waiter_ok s pc k w)
     \<and> (\<forall>p w. pc p = Wait w \<longrightarrow> caller_ok s pc k p w)
     \<and> finite (granted s pc k) \<and> value (sems k s) + int (card (granted s pc k)) = int n)"

lemma sem_invD:
  assumes "sem_inv s n (pc, k)"
  shows "kernel_inv k" and "wait_inv k" and "valid (sems k s)" and "0 \<le> value (sems k s)"
    and "running_ok k" and "pc (idleproc k) \<noteq> Wait w"
    and "0 < value (sems k s) \<Longrightarrow> wqs k (sem_wq s) = []"
    and "w \<in> set (wqs k (sem_wq s)) \<Longrightarrow> waiter_ok s pc k w"
    and "pc p = Wait w \<Longrightarrow> caller_ok s pc k p w"
    and "finite (granted s pc k)" and "value (sems k s) + int (card (granted s pc k)) = int n"
  using assms by (auto simp: sem_inv_def)

lemma sem_invI:
  assumes "kernel_inv k" and "wait_inv k" and "valid (sems k s)" and "0 \<le> value (sems k s)"
    and "running_ok k" and "\<And>w. pc (idleproc k) \<noteq> Wait w"
    and "0 < value (sems k s) \<Longrightarrow> wqs k (sem_wq s) = []"
    and "\<And>w. w \<in> set (wqs k (sem_wq s)) \<Longrightarrow> waiter_ok s pc k w"
    and "\<And>p w. pc p = Wait w \<Longrightarrow> caller_ok s pc k p w"
    and "finite (granted s pc k)" and "value (sems k s) + int (card (granted s pc k)) = int n"
  shows "sem_inv s n (pc, k)"
  using assms by (auto simp: sem_inv_def)

lemma ksem_uninterruptible: "WT_KSEM \<noteq> 0" "WT_KSEM AND WT_INTERRUPTED = 0"
  by (simp_all add: WT_KSEM_def WT_INTERRUPTED_def)

lemma waiter_not_wakeable: "wait_state (procs k p) = WT_KSEM \<Longrightarrow> \<not> wakeable k p"
  by (simp add: wakeable_def ksem_uninterruptible)

lemma more_sems:
  assumes "wait_kernel.more k' = wait_kernel.more k" shows "sems k' = sems k"
  using assms by (cases k; cases k'; simp)

lemma upd_sem_fields [simp]:
  "sems (upd_sem s f k) = (sems k)(s := f (sems k s))" "procs (upd_sem s f k) = procs k"
  "waits (upd_sem s f k) = waits k" "wqs (upd_sem s f k) = wqs k" "current (upd_sem s f k) = current k"
  "idleproc (upd_sem s f k) = idleproc k" "rqs (upd_sem s f k) = rqs k" "timers (upd_sem s f k) = timers k"
  "timer_list (upd_sem s f k) = timer_list k"
  by (simp_all add: upd_sem_def)

lemma upd_sem_inv [simp]: "kernel_inv (upd_sem s f k) = kernel_inv k" "wait_inv (upd_sem s f k) = wait_inv k"
  by (simp_all add: kernel_inv_def sched_inv_def rq_inv_def queued_def queue_ok_def timer_inv_def due_def
      owners_ok_def wakeable_def wait_inv_def)

text \<open>A process that is running has its permit.\<close>

lemma resumed_granted:
  assumes inv: "sem_inv s n (pc, k)" and pc: "pc (current k) = Wait w"
  shows "w \<notin> set (wqs k (sem_wq s))"
proof
  assume w: "w \<in> set (wqs k (sem_wq s))"
  then have "waiter_ok s pc k w" "caller_ok s pc k (current k) w" using sem_invD(8,9) [OF inv] pc by blast+
  then have "state (procs k (current k)) = PROC_SLEEPING" by (auto simp: waiter_ok_def caller_ok_def)
  moreover have "current k \<noteq> idleproc k" using sem_invD(6) [OF inv] pc by metis
  ultimately show False using sem_invD(5) [OF inv] by (simp add: running_ok_def)
qed

lemma sem_down_take:
  assumes inv: "sem_inv s n (pc, k)" and pc: "pc (current k) = Out" and v: "0 < value (sems k s)"
  shows "down_enter s w k = Some (True, upd_sem s (\<lambda>r. r\<lparr>value := value r - 1\<rparr>) k)"
    and "sem_inv s n (pc(current k := In), upd_sem s (\<lambda>r. r\<lparr>value := value r - 1\<rparr>) k)"
proof -
  let ?k = "upd_sem s (\<lambda>r. r\<lparr>value := value r - 1\<rparr>) k" and ?pc = "pc(current k := In)"
  note I = sem_invD [OF inv]
  show "down_enter s w k = Some (True, ?k)" using v I(3) by (simp add: down_enter_def sem_down_enter_def)
  have q: "wqs k (sem_wq s) = []" by (rule I(7) [OF v])
  have g: "granted s ?pc ?k = insert (current k) (granted s pc k)" using q by (auto simp: granted_def)
  have "current k \<notin> granted s pc k" using pc by (simp add: granted_def)
  then show "sem_inv s n (?pc, ?k)"
    using I v q by (intro sem_invI) (auto simp: g running_ok_def caller_ok_def split: if_splits)
qed

lemma sem_down_block:
  assumes inv: "sem_inv s n (pc, k)" and pc: "pc (current k) = Out" and v: "\<not> 0 < value (sems k s)"
    and idle: "current k \<noteq> idleproc k" and w: "\<not> wait_in_queue w k" "\<And>p. pc p \<noteq> Wait w" and mb: "may_block WT_KSEM None k"
  obtains k' where "down_enter s w k = Some (False, k')" "sem_inv s n (pc(current k := Wait w), k')"
proof (rule ipc_block_ok [OF sem_invD(1,2) [OF inv] w(1) mb, of "sem_wq s"])
  note I = sem_invD [OF inv]
  fix k' assume k': "ipc_block (sem_wq s) w WT_KSEM None k = Some k'" "kernel_inv k'" "wait_inv k'"
    "waits k' = (waits k)(w := (waits k w)\<lparr>wproc := Some (current k), wakeup_flags := WT_INTERRUPTED, wait_queue := sem_wq s\<rparr>)"
    "wqs k' = (wqs k)(sem_wq s := wqs k (sem_wq s) @ [w])" "wait_kernel.more k' = wait_kernel.more k"
    "\<And>r. state (procs k' r) = (if r = current k then PROC_SLEEPING else state (procs k r))"
    "\<And>r. wait_state (procs k' r) = (if r = current k then WT_KSEM else wait_state (procs k r))"
  let ?pc = "pc(current k := Wait w)"
  have sems: "sems k' = sems k" by (rule more_sems [OF k'(6)])
  have wn: "w \<notin> set (wqs k q)" for q using w(1) wait_invD(4) [OF I(2)] by blast
  have idle': "idleproc k' = idleproc k" "running_ok k'" using ipc_block_running [OF I(1,2) w(1) mb k'(1)] by simp_all
  have g: "granted s ?pc k' = granted s pc k"
    using pc w(2) unfolding granted_def k'(5) by (auto split: if_splits)
  have wait: "waiter_ok s ?pc k' u" if "u \<in> set (wqs k' (sem_wq s))" for u
  proof (cases "u = w")
    case True
    then show ?thesis unfolding waiter_ok_def k'(4,7,8) by simp
  next
    case False
    then have "u \<in> set (wqs k (sem_wq s))" using that by (simp add: k'(5))
    then obtain p where p: "wproc (waits k u) = Some p" "pc p = Wait u" "state (procs k p) = PROC_SLEEPING"
      "wait_state (procs k p) = WT_KSEM" using I(8) by (auto simp: waiter_ok_def)
    have "p \<noteq> current k" using p(2) pc by auto
    then show ?thesis using p False unfolding waiter_ok_def k'(4,7,8) by simp
  qed
  have call: "caller_ok s ?pc k' p u" if "?pc p = Wait u" for p u
  proof (cases "p = current k")
    case True
    then show ?thesis using that by (simp add: caller_ok_def k'(4,5))
  next
    case False
    then have "pc p = Wait u" "u \<noteq> w" using that w(2) [of p] by auto
    then show ?thesis using I(9) [of p u] by (simp add: caller_ok_def k'(4,5))
  qed
  have "sem_inv s n (?pc, k')"
    by (rule sem_invI) (use k'(2,3) I(3,4,6,10,11) v idle idle' wait call g in \<open>simp_all add: sems\<close>)
  moreover have "down_enter s w k = Some (False, k')"
    using k'(1) v I(3) by (simp add: down_enter_def sem_down_enter_def)
  ultimately show thesis using that by blast
qed

lemma sem_resume:
  assumes inv: "sem_inv s n (pc, k)" and pc: "pc (current k) = Wait w"
  obtains k' where "down_leave s w k = Some k'" "sem_inv s n (pc(current k := In), k')"
proof -
  note I = sem_invD [OF inv]
  have wn: "w \<notin> set (wqs k (sem_wq s))" by (rule resumed_granted [OF inv pc])
  have c: "caller_ok s pc k (current k) w" by (rule I(9) [OF pc])
  then have wq: "wait_queue (waits k w) = sem_wq s" and fl: "wakeup_flags (waits k w) = WT_KSEM"
    using wn by (auto simp: caller_ok_def)
  show thesis
  proof (rule ipc_unblock_ok [OF I(2,1) wq, of None])
    fix k' assume k': "ipc_unblock (sem_wq s) w None k = Some k'" "wait_inv k'" "kernel_inv k'" "waits k' = waits k"
      "wqs k' = (wqs k)(sem_wq s := remove1 w (wqs k (sem_wq s)))" "procs k' = procs k" "current k' = current k"
      "idleproc k' = idleproc k" "wait_kernel.more k' = wait_kernel.more k"
    let ?pc = "pc(current k := In)"
    have same: "wqs k' = wqs k" "sems k' = sems k" using wn k'(5) more_sems [OF k'(9)] by (simp_all add: remove1_idem)
    have g: "granted s ?pc k' = granted s pc k" using pc wn by (auto simp: granted_def same)
    have "waiter_ok s ?pc k' u" if "u \<in> set (wqs k' (sem_wq s))" for u
    proof -
      have u: "waiter_ok s pc k u" "u \<noteq> w" using that I(8) wn by (auto simp: same)
      then obtain p where p: "wproc (waits k u) = Some p" "pc p = Wait u" "state (procs k p) = PROC_SLEEPING"
        "wait_state (procs k p) = WT_KSEM" by (auto simp: waiter_ok_def)
      have "p \<noteq> current k" using p(2) pc u(2) by auto
      then show ?thesis using p unfolding waiter_ok_def k'(4,6) by auto
    qed
    then have "sem_inv s n (?pc, k')"
      using I k' by (intro sem_invI) (auto simp: same g running_ok_def caller_ok_def split: if_splits)
    moreover have "down_leave s w k = Some k'"
      using k'(1,4) fl by (simp add: down_leave_def sem_down_leave_def)
    ultimately show thesis using that by blast
  qed
qed

lemma sem_release_empty:
  assumes inv: "sem_inv s n (pc, k)" and pc: "pc (current k) = In" and q: "wqs k (sem_wq s) = []"
  shows "up s k = Some (upd_sem s (\<lambda>r. r\<lparr>value := value r + 1\<rparr>) k)"
    and "sem_inv s n (pc(current k := Out), upd_sem s (\<lambda>r. r\<lparr>value := value r + 1\<rparr>) k)"
proof -
  let ?k = "upd_sem s (\<lambda>r. r\<lparr>value := value r + 1\<rparr>) k" and ?pc = "pc(current k := Out)"
  note I = sem_invD [OF inv]
  show "up s k = Some ?k" using q I(3) by (simp add: up_def sem_up_def wait_queue_first_def)
  have g: "granted s ?pc ?k = granted s pc k - {current k}" using q by (auto simp: granted_def)
  have cur: "current k \<in> granted s pc k" using pc by (simp add: granted_def)
  then have c: "card (granted s pc k) = Suc (card (granted s pc k - {current k}))"
    using card.remove [OF I(10)] by blast
  show "sem_inv s n (?pc, ?k)"
    using I q c by (intro sem_invI) (auto simp: g running_ok_def caller_ok_def split: if_splits)
qed

lemma sem_release_wake:
  assumes inv: "sem_inv s n (pc, k)" and pc: "pc (current k) = In" and q: "wqs k (sem_wq s) = w # ws"
  obtains k' p where "up s k = Some k'" "sem_inv s n (pc(current k := Out), k')" "pc p = Wait w" "wqs k' (sem_wq s) = ws"
proof -
  note I = sem_invD [OF inv]
  have win: "w \<in> set (wqs k (sem_wq s))" using q by simp
  obtain p where p: "wproc (waits k w) = Some p" "pc p = Wait w" "state (procs k p) = PROC_SLEEPING"
    "wait_state (procs k p) = WT_KSEM" using I(8) [OF win] by (auto simp: waiter_ok_def)
  have pn: "p \<noteq> current k" using pc p(2) by auto
  have s: "sched_inv k" using I(1) by (simp add: kernel_inv_def)
  have z: "state (procs k p) \<noteq> PROC_ZOMBIE" using p(3) by simp
  show thesis
  proof (rule wakeup_wait_ok [OF s I(2) win p(1) z, of WT_KSEM True])
    fix k' assume k': "wakeup_wait (sem_wq s) w WT_KSEM True k = Some k'" "sched_inv k'" "wait_inv k'"
      "waits k' = (waits k)(w := (waits k w)\<lparr>wakeup_flags := WT_KSEM\<rparr>)"
      "wqs k' = (wqs k)(sem_wq s := if True then remove1 w (wqs k (sem_wq s)) else wqs k (sem_wq s))"
      "\<And>r. state (procs k' r) = (if r = p then PROC_RUNNABLE else state (procs k r))"
      "\<And>r. wait_state (procs k' r) = (if r = p \<and> state (procs k p) \<noteq> PROC_RUNNABLE then 0 else wait_state (procs k r))"
      "current k' = current k" "idleproc k' = idleproc k" "timers k' = timers k" "timer_list k' = timer_list k"
      "wait_kernel.more k' = wait_kernel.more k"
    let ?pc = "pc(current k := Out)"
    have wq: "wqs k' = (wqs k)(sem_wq s := ws)" using k'(5) q by simp
    have sems: "sems k' = sems k" by (rule more_sems [OF k'(12)])
    have wn: "w \<notin> set ws" using wait_invD(1) [OF I(2), of "sem_wq s"] q by simp
    have ki: "kernel_inv k'"
      by (rule kernel_inv_frame [OF I(1) k'(2,10,11)]) (auto simp: wakeable_def k'(6,7))
    have up: "up s k = Some k'" using k'(1) I(3) q p(1,4) by (simp add: up_def sem_up_def wait_queue_first_def)
    have g: "granted s ?pc k' = insert p (granted s pc k - {current k})"
    proof -
      have ex: "(\<exists>u. pc r = Wait u \<and> u \<notin> set ws) \<longleftrightarrow> r = p \<or> (\<exists>u. pc r = Wait u \<and> u \<notin> set (wqs k (sem_wq s)))" for r
      proof (cases "pc r = Wait w")
        case True
        have "r = p" using I(9) [OF True] p(1) by (simp add: caller_ok_def)
        then show ?thesis using p(2) wn by simp
      next
        case False
        then have "r \<noteq> p" using p(2) by auto
        then show ?thesis using False by (auto simp: q)
      qed
      have "granted s ?pc k' = {r. r \<noteq> current k \<and> (pc r = In \<or> (\<exists>u. pc r = Wait u \<and> u \<notin> set ws))}"
        unfolding granted_def wq by auto
      also have "\<dots> = insert p (granted s pc k - {current k})"
        unfolding ex granted_def using pn by blast
      finally show ?thesis .
    qed
    have notin: "p \<notin> granted s pc k" and cur: "current k \<in> granted s pc k" using p(2) pc q by (auto simp: granted_def)
    have "card (insert p (granted s pc k - {current k})) = Suc (card (granted s pc k - {current k}))"
      using notin I(10) by (intro card_insert_disjoint) auto
    then have c: "card (granted s ?pc k') = card (granted s pc k)" using card.remove [OF I(10) cur] unfolding g by simp
    have v0: "value (sems k s) = 0" using I(4,7) q by fastforce
    have wait: "waiter_ok s ?pc k' u" if u: "u \<in> set (wqs k' (sem_wq s))" for u
    proof -
      have "u \<in> set (wqs k (sem_wq s))" "u \<noteq> w" using u wn q by (auto simp: wq)
      then obtain r where r: "wproc (waits k u) = Some r" "pc r = Wait u" "state (procs k r) = PROC_SLEEPING"
        "wait_state (procs k r) = WT_KSEM" using I(8) by (auto simp: waiter_ok_def)
      have "r \<noteq> p" "r \<noteq> current k" using r(2) p(2) pc \<open>u \<noteq> w\<close> by auto
      then show ?thesis using r \<open>u \<noteq> w\<close> unfolding waiter_ok_def k'(4,6,7) by simp
    qed
    have call: "caller_ok s ?pc k' r u" if "?pc r = Wait u" for r u
    proof -
      have "pc r = Wait u" using that by (simp split: if_splits)
      then show ?thesis using I(9) q wn by (auto simp: caller_ok_def k'(4) wq)
    qed
    have "sem_inv s n (?pc, k')"
      using I ki k'(3) wait call c v0 by (intro sem_invI) (auto simp: sems running_ok_def k'(6,8,9) g)
    then show thesis using that up p(2) wq by simp
  qed
qed

lemma sem_event:
  assumes inv: "sem_inv s n (pc, k)" and out: "outside_event e pc k" and ok: "event_ok e k" and ex: "exec_event e k = Some k'"
  shows "sem_inv s n (pc, k')"
proof -
  note I = sem_invD [OF inv]
  note fr = exec_event_frame [OF I(1) ok ex]
  have mw: "waits k' = waits k" "wqs k' = wqs k" "sems k' = sems k"
    using more_waits [OF fr(1)] more_sems by auto
  have run: "running_ok k'" "idleproc k' = idleproc k" using exec_event_running [OF I(1) ok ex I(5)] by auto
  have ki: "kernel_inv k'" using exec_event_ok [OF I(1) ok] ex by (metis option.inject)
  have g: "granted s pc k' = granted s pc k" by (simp add: granted_def mw)
  have wait: "waiter_ok s pc k' u" if u: "u \<in> set (wqs k' (sem_wq s))" for u
  proof -
    obtain p where p: "wproc (waits k u) = Some p" "pc p = Wait u" "state (procs k p) = PROC_SLEEPING"
      "wait_state (procs k p) = WT_KSEM" using I(8) [of u] u by (auto simp: waiter_ok_def mw)
    have "e \<noteq> Ev_Wakeup p" "e = Ev_Sleep t d \<Longrightarrow> p \<noteq> current k" for t d using out p(2) by auto
    then have "state (procs k' p) = state (procs k p) \<and> wait_state (procs k' p) = wait_state (procs k p)"
      using fr(2) [OF waiter_not_wakeable [OF p(4)]] by blast
    then show ?thesis using p by (auto simp: waiter_ok_def mw)
  qed
  have "wait_inv k'" using I(2) by (simp add: wait_inv_def mw)
  then show ?thesis
    using I ki run wait by (intro sem_invI) (auto simp: mw g caller_ok_def)
qed

lemma sem_step_inv:
  assumes "sem_step s x y" and "sem_inv s n x"
  shows "sem_inv s n y"
  using assms
proof (cases rule: sem_step.cases)
  case (step_down pc k w ret k')
  then have inv: "sem_inv s n (pc, k)" using assms(2) by simp
  show ?thesis
  proof (cases "0 < value (sems k s)")
    case True
    then show ?thesis using sem_down_take(1) [OF inv step_down(3) True, of w] sem_down_take(2) [OF inv step_down(3) True] step_down by simp
  next
    case False
    show ?thesis
      by (rule sem_down_block [OF inv step_down(3) False step_down(4-7)]) (use step_down in simp)
  qed
next
  case (step_resume pc k w k')
  then have inv: "sem_inv s n (pc, k)" using assms(2) by simp
  show ?thesis by (rule sem_resume [OF inv step_resume(3)]) (use step_resume in simp)
next
  case (step_up pc k k')
  then have inv: "sem_inv s n (pc, k)" using assms(2) by simp
  show ?thesis
  proof (cases "wqs k (sem_wq s)")
    case Nil
    then show ?thesis using sem_release_empty [OF inv step_up(3) Nil] step_up by simp
  next
    case (Cons w ws)
    show ?thesis by (rule sem_release_wake [OF inv step_up(3) Cons]) (use step_up in simp)
  qed
next
  case (step_event e pc k k')
  then show ?thesis using sem_event assms(2) by blast
qed

lemma sem_reach_inv: "sem_reach s x y \<Longrightarrow> sem_inv s n x \<Longrightarrow> sem_inv s n y"
  by (induction rule: sem_reach.induct) (auto intro: sem_step_inv)

text \<open>A semaphore with \<open>n\<close> permits that nobody uses yet.\<close>

definition sem_start :: "u32 \<Rightarrow> nat \<Rightarrow> 'a sem_kernel_scheme \<Rightarrow> bool" where
  "sem_start s n k \<longleftrightarrow> kernel_inv k \<and> wait_inv k \<and> running_ok k \<and> valid (sems k s)
     \<and> value (sems k s) = int n \<and> wqs k (sem_wq s) = []"

lemma sem_start_inv: "sem_start s n k \<Longrightarrow> sem_inv s n (\<lambda>_. Out, k)"
  by (simp add: sem_start_def sem_inv_def granted_def)

lemma sem_calls_ok:
  assumes inv: "sem_inv s n (pc, k)"
  shows "pc (current k) = In \<Longrightarrow> up s k \<noteq> None"
    and "pc (current k) = Wait w \<Longrightarrow> down_leave s w k \<noteq> None"
    and "pc (current k) = Out \<Longrightarrow> current k \<noteq> idleproc k \<Longrightarrow> \<not> wait_in_queue w k \<Longrightarrow> (\<And>p. pc p \<noteq> Wait w) \<Longrightarrow>
      may_block WT_KSEM None k \<Longrightarrow> down_enter s w k \<noteq> None"
proof -
  show "up s k \<noteq> None" if "pc (current k) = In"
    using sem_release_empty(1) [OF inv that] sem_release_wake [OF inv that] by (cases "wqs k (sem_wq s)") (auto, metis option.distinct(1))
  show "down_leave s w k \<noteq> None" if "pc (current k) = Wait w" using sem_resume [OF inv that] by (metis option.distinct(1))
  show "down_enter s w k \<noteq> None" if "pc (current k) = Out" "current k \<noteq> idleproc k" "\<not> wait_in_queue w k" "\<And>p. pc p \<noteq> Wait w"
    "may_block WT_KSEM None k"
  proof (cases "0 < value (sems k s)")
    case True
    then show ?thesis using sem_down_take(1) [OF inv that(1)] by simp
  next
    case False
    show ?thesis by (rule sem_down_block [OF inv that(1) False that(2-5)]) simp
  qed
qed

subsection \<open>The properties of semaphores\<close>

text \<open>A machine on which process 1 runs and process 2 is ready, with a semaphore at \<open>s0\<close>.\<close>

definition s0 :: u32 where "s0 = 16"

definition demo_sem :: "int \<Rightarrow> sem_kernel" where
  "demo_sem v = \<lparr>procs = (\<lambda>p. \<lparr>state = (if p < 3 then PROC_RUNNABLE else PROC_SLEEPING), runs = 0,
       need_resched = False, wait_state = 0, rq = (if p = 2 then Some 0 else None), time_slice = 8\<rparr>),
     current = 1, idleproc = 0, rqs = [\<lparr>run_list = [2], proc_num = 1, max_time_slice = 8\<rparr>],
     timers = (\<lambda>_. \<lparr>expires = 0, tproc = None\<rparr>), timer_list = [],
     waits = (\<lambda>w. \<lparr>wproc = None, wakeup_flags = 0, wait_queue = Sem_wq 0\<rparr>), wqs = (\<lambda>_. []),
     ticks = 0, sems = (\<lambda>_. \<lparr>value = v, valid = True, count = 1\<rparr>), semus = (\<lambda>_. 0),
     sem_queues = (\<lambda>_. \<lparr>sem_queue_count = 0, semu_list = []\<rparr>), sem_queue_of = (\<lambda>_. None), freed = []\<rparr>"

lemma demo_sem_start: "sem_start s0 1 (demo_sem 1)"
proof -
  have s: "sched_inv (demo_sem 1)"
    by (auto simp: demo_sem_def sched_inv_def rq_inv_def queued_def queue_ok_def)
  have t: "timer_inv (demo_sem 1)" "owners_ok (demo_sem 1)"
    by (simp_all add: demo_sem_def timer_inv_def due_def owners_ok_def)
  have "wait_inv (demo_sem 1)" "running_ok (demo_sem 1)" "valid (sems (demo_sem 1) s0)"
    "value (sems (demo_sem 1) s0) = 1" "wqs (demo_sem 1) (sem_wq s0) = []"
    by (simp_all add: demo_sem_def wait_inv_def running_ok_def)
  then show ?thesis using s t by (simp add: sem_start_def kernel_inv_def)
qed

text \<open>C34: Kernel semaphores give mutual exclusion.  From a semaphore with \<open>n\<close> permits, under every interleaving
  of \<open>down\<close>, \<open>up\<close>, preemption, ticks, sleeps and wakeups, at most \<open>n\<close> processes are past \<open>down\<close> at a time;
  a process waits only while all \<open>n\<close> permits are held or handed over; and no call panics: \<open>up\<close> finds a
  waiter of the right kind, and a process that gets back from the wait of \<open>down\<close> has been given a permit.\<close>

theorem semaphore_mutual_exclusion:
  assumes "sem_start s n k0" and "sem_reach s (\<lambda>_. Out, k0) (pc, k)"
  shows "finite {p. pc p = In} \<and> card {p. pc p = In} \<le> n
    \<and> (wqs k (sem_wq s) \<noteq> [] \<longrightarrow> card {p. pc p = In \<or> (\<exists>w. pc p = Wait w \<and> w \<notin> set (wqs k (sem_wq s)))} = n)
    \<and> (pc (current k) = In \<longrightarrow> up s k \<noteq> None)
    \<and> (\<forall>w. pc (current k) = Wait w \<longrightarrow> down_leave s w k \<noteq> None)
    \<and> (\<forall>w. pc (current k) = Out \<and> current k \<noteq> idleproc k \<and> \<not> wait_in_queue w k \<and> (\<forall>p. pc p \<noteq> Wait w)
          \<and> may_block WT_KSEM None k \<longrightarrow> down_enter s w k \<noteq> None)"
proof -
  have inv: "sem_inv s n (pc, k)" by (rule sem_reach_inv [OF assms(2) sem_start_inv [OF assms(1)]])
  note I = sem_invD [OF inv]
  have sub: "{p. pc p = In} \<subseteq> granted s pc k" by (auto simp: granted_def)
  have "card {p. pc p = In} \<le> card (granted s pc k)" by (rule card_mono [OF I(10) sub])
  then have "card {p. pc p = In} \<le> n" using I(4,11) by linarith
  moreover have "card (granted s pc k) = n" if "wqs k (sem_wq s) \<noteq> []" using I(4,7,11) that by fastforce
  ultimately show ?thesis
    using finite_subset [OF sub I(10)] sem_calls_ok [OF inv] unfolding granted_def by blast
qed

theorem semaphore_mutual_exclusion_witness:
  "sem_reach s0 (\<lambda>_. Out, demo_sem 1) ((\<lambda>_. Out)(1 := In), upd_sem s0 (\<lambda>r. r\<lparr>value := value r - 1\<rparr>) (demo_sem 1))
   \<and> card {p. ((\<lambda>_. Out)(1 := In)) p = In} \<le> 1"
proof -
  let ?k = "upd_sem s0 (\<lambda>r. r\<lparr>value := value r - 1\<rparr>) (demo_sem 1)"
  have cur: "current (demo_sem 1) = 1" "idleproc (demo_sem 1) = 0" by (simp_all add: demo_sem_def)
  have "\<not> wait_in_queue 9 (demo_sem 1)" "may_block WT_KSEM None (demo_sem 1)"
    "down_enter s0 9 (demo_sem 1) = Some (True, ?k)"
    by (simp_all add: demo_sem_def wait_in_queue_def may_block_def down_enter_def sem_down_enter_def)
  then have "sem_step s0 (\<lambda>_. Out, demo_sem 1) ((\<lambda>_. Out)(current (demo_sem 1) := if True then In else Wait 9), ?k)"
    using cur by (intro step_down) auto
  then have r: "sem_reach s0 (\<lambda>_. Out, demo_sem 1) ((\<lambda>_. Out)(1 := In), ?k)"
    using sem_trans [OF sem_refl] cur by simp
  then show ?thesis using semaphore_mutual_exclusion [OF demo_sem_start r] by simp
qed

text \<open>A tick at which the timer of a sleeping process expires: the process can run and waits for nothing any more, though its record stays where it is; the timer is
  unlinked with nothing left on its count.\<close>

lemma deadlines_expires: "(t, d) \<in> set (deadlines ts acc ns) \<Longrightarrow> unat (expires (ts t)) \<le> d"
  by (induction ns arbitrary: acc) auto

lemma wakeup_proc_awake:
  assumes "wakeup_proc p k = Some k'" "state (procs k r) = PROC_RUNNABLE \<longrightarrow> wait_state (procs k r) = 0"
  shows "state (procs k' r) = PROC_RUNNABLE \<longrightarrow> wait_state (procs k' r) = 0"
  using assms
  by (auto simp: wakeup_proc_def sched_class_enqueue_def MLFQ_enqueue_def RR_enqueue_def Let_def kassert_def upd_proc_def upd_rq_def split: if_splits)

lemma run_expired_awake:
  assumes "run_expired ns k = Some k'" "state (procs k r) = PROC_RUNNABLE \<longrightarrow> wait_state (procs k r) = 0"
  shows "state (procs k' r) = PROC_RUNNABLE \<longrightarrow> wait_state (procs k' r) = 0"
  using assms
proof (induction ns k arbitrary: k' rule: run_expired.induct)
  case (2 t ts k)
  show ?case
  proof (cases "expires (timers k t) = 0")
    case True
    then obtain p k1 where p: "tproc (timers k t) = Some p" "wakeup_proc p k = Some k1" "run_expired ts (del_timer t k1) = Some k'"
      "(if wait_state (procs k p) \<noteq> 0 then kassert (wait_state (procs k p) AND WT_INTERRUPTED \<noteq> 0) else Some ()) = Some ()"
      using "2.prems"(1) by (auto simp: bind_eq_Some_conv)
    show ?thesis by (rule "2.IH" [OF True p(1,4,2,3)]) (use wakeup_proc_awake [OF p(2) "2.prems"(2)] in \<open>simp add: del_timer_frame\<close>)
  qed (use "2.prems" in simp)
qed simp

lemma tick_fires:
  assumes inv: "kernel_inv k" and t: "(t, 1) \<in> set (due k)" "tproc (timers k t) = Some p" and p: "state (procs k p) = PROC_SLEEPING"
  obtains k' where "run_timer_list k = Some k'" "kernel_inv k'" "kernel.more k' = kernel.more k" "state (procs k' p) = PROC_RUNNABLE" "wait_state (procs k' p) = 0"
    "expires (timers k' t) = 0" "t \<notin> set (timer_list k')" "current k' = current k"
proof -
  have i: "sched_inv k" "timer_inv k" "owners_ok k" using inv by (simp_all add: kernel_inv_def)
  obtain k' where k': "run_timer_list k = Some k'" "sched_inv k'" "timer_inv k'" "owners_ok k'" "due k' = map (\<lambda>(t, d). (t, d - 1)) (filter (\<lambda>(_, d). d \<noteq> 1) (due k))"
      "\<forall>r. state (procs k' r) = (if \<exists>t. (t, 1) \<in> set (due k) \<and> tproc (timers k t) = Some r then PROC_RUNNABLE else state (procs k r))"
    using run_timer_list_ok [OF i] by blast
  have tl: "t \<in> set (timer_list k)" using t(1) map_fst_due [of k] by (metis fst_conv in_set_zipE list.set_map image_eqI)
  then obtain x xs where x: "timer_list k = x # xs" by (cases "timer_list k") auto
  let ?k = "k\<lparr>timers := set_expires x (expires (timers k x) - 1) (timers k)\<rparr>"
  obtain k1 where k1: "run_expired (x # xs) ?k = Some k1" "k' = sched_class_proc_tick (current k1) k1" "expires (timers k x) \<noteq> 0"
    using k'(1) unfolding run_timer_list_def x by (simp only: list.case) (auto simp: bind_eq_Some_conv kassert_def split: if_splits)
  have dist: "distinct (x # xs)" using i(2) x by (simp add: timer_inv_def)
  have due: "due ?k = map (\<lambda>(n, d). (n, d - 1)) (due k)" by (rule tick_due [OF x dist k1(3)])
  have own: "owners_ok ?k" "\<forall>t\<in>set (x # xs). tproc (timers ?k t) \<noteq> None" using i(2,3) x by (auto simp: owners_ok_def wakeable_def timer_inv_def set_expires_def)
  have "timers k1 = timers ?k" using run_expired_ok [of ?k "x # xs", OF _ _ own] k1(1) x i(1) by auto
  then have "timers k' = timers ?k" by (simp add: k1(2))
  moreover have "(t, 0) \<in> set (due ?k)" unfolding due using t(1) by force
  then have "expires (timers ?k t) = 0" using deadlines_expires [of t 0 "timers ?k" 0] by (simp add: due_def unat_eq_zero)
  moreover have "t \<notin> set (timer_list k')"
  proof -
    have "d = 1" if "(t, d) \<in> set (due k)" for d
    proof -
      have "distinct (map fst (due k))" using i(2) by (simp add: timer_inv_def)
      then show ?thesis using that t(1) by (meson eq_key_imp_eq_value)
    qed
    then have "t \<notin> fst ` set (due k')" unfolding k'(5) by force
    then show ?thesis using map_fst_due [of k'] by (metis list.set_map)
  qed
  moreover have "state (procs k' p) = PROC_RUNNABLE" using k'(6) t by auto
  moreover have "wait_state (procs k' p) = 0" using run_expired_awake [OF k1(1), of p] p calculation(4) by (simp add: k1(2))
  moreover have "current k' = current k" using run_expired_running [OF k1(1)] by (simp add: k1(2))
  ultimately show thesis using that [OF k'(1) _ run_timer_list_frame(1) [OF k'(1)]] k'(2-4) by (simp add: kernel_inv_def)
qed

text \<open>C39: A user semaphore is not safe against timeouts.  Whenever the first process in the queue of a user semaphore waits with a timeout that ends with the next
  tick, the semaphore can be posted before the tick; after the tick the process can run but its record is still in the queue until it does, and a post by
  whatever process runs then fails the assertion on the state of the waiter in \<open>__up\<close>: the kernel panics.\<close>

theorem usem_post_after_timeout_panics:
  assumes inv: "kernel_inv k" "channel_inv k" and s: "valid (sems k s)" and w: "wqs k (sem_wq s) = w # ws" "wproc (waits k w) = Some p"
    and p: "state (procs k p) = PROC_SLEEPING" "wait_state (procs k p) = WT_USEM" and t: "(t, 1) \<in> set (due k)" "tproc (timers k t) = Some p"
  shows "(\<exists>k1. usem_up s k = Some (0, k1) \<and> state (procs k1 p) = PROC_RUNNABLE) \<and>
    (\<exists>k2. run_timer_list k = Some k2 \<and> state (procs k2 p) = PROC_RUNNABLE \<and> wqs k2 (sem_wq s) = w # ws \<and> current k2 = current k \<and> usem_up s k2 = None)"
proof
  have first: "wait_queue_first (sem_wq s) k = Some w" using w(1) by (simp add: wait_queue_first_def)
  show "\<exists>k1. usem_up s k = Some (0, k1) \<and> state (procs k1 p) = PROC_RUNNABLE"
  proof (rule wakeup_wait_ok [OF channel_invD(1,2) [OF inv(2)] _ w(2), of "sem_wq s" WT_USEM True])
    fix k1 assume k1: "wakeup_wait (sem_wq s) w WT_USEM True k = Some k1" "\<And>r. state (procs k1 r) = (if r = p then PROC_RUNNABLE else state (procs k r))"
    then show ?thesis using first w(2) p(2) s by (simp add: usem_up_def sem_up_def)
  qed (use w(1) p(1) in simp_all)
  obtain k2 where k2: "run_timer_list k = Some k2" "kernel.more k2 = kernel.more k" "state (procs k2 p) = PROC_RUNNABLE" "wait_state (procs k2 p) = 0" "current k2 = current k"
    by (rule tick_fires [OF inv(1) t p(1)]) blast
  note m = more_waits [OF k2(2)]
  have "wait_queue_first (sem_wq s) k2 = Some w" "wproc (waits k2 w) = Some p" using first w(2) by (simp_all add: wait_queue_first_def m)
  moreover have "(0 :: u32) \<noteq> WT_USEM" by (simp add: WT_USEM_def WT_INTERRUPTED_def)
  ultimately have "usem_up s k2 = None" using k2(4) by (simp add: usem_up_def sem_up_def kassert_def)
  then show "\<exists>k2. run_timer_list k = Some k2 \<and> state (procs k2 p) = PROC_RUNNABLE \<and> wqs k2 (sem_wq s) = w # ws \<and> current k2 = current k \<and> usem_up s k2 = None"
    using k2 w(1) by (auto simp: m)
qed

text \<open>Process 1 calls \<open>usem_down\<close> with a timeout of one tick, and process 2 runs.\<close>

lemma demo_sem_inv: "kernel_inv (demo_sem v)" "channel_inv (demo_sem v)"
proof -
  have s: "sched_inv (demo_sem v)" by (auto simp: demo_sem_def sched_inv_def rq_inv_def queued_def queue_ok_def)
  have t: "timer_list (demo_sem v) = []" "wqs (demo_sem v) q = []" for q by (simp_all add: demo_sem_def)
  show "kernel_inv (demo_sem v)" using s t by (simp add: kernel_inv_def timer_inv_def owners_ok_def due_def)
  show "channel_inv (demo_sem v)" using s t by (simp add: channel_inv_def wait_inv_def waiters_alive_def)
qed

lemma demo_usem_wait:
  obtains k where "usem_down_enter s0 1 0 7 9 (demo_sem 0) = Some (False, Some 7, 0, k)" "kernel_inv k" "channel_inv k"
proof -
  define k0 where "k0 = timer_init 7 (Some 1) 1 (demo_sem 0)"
  have f: "timer_list (demo_sem 0) = []" "current (demo_sem 0) = 1" "ticks (demo_sem 0) = 0" "\<And>q. wqs (demo_sem 0) q = []" "value (sems (demo_sem 0) s0) = 0" "valid (sems (demo_sem 0) s0)"
    by (simp_all add: demo_sem_def)
  have k: "kernel_inv k0" unfolding k0_def by (rule timer_init_inv [OF demo_sem_inv(1)]) (simp add: f)
  have g: "wqs k0 q = []" "timer_list k0 = []" "current k0 = 1" "sems k0 = sems (demo_sem 0)" "timers k0 7 = \<lparr>expires = 1, tproc = Some 1\<rparr>" for q using f by (simp_all add: k0_def timer_init_def)
  have c: "channel_inv k0" using k g(1) by (simp add: channel_inv_def kernel_inv_def wait_inv_def waiters_alive_def)
  have b: "\<not> wait_in_queue 9 k0" "may_block WT_USEM (Some 7) k0" by (simp_all add: wait_in_queue_def may_block_def g WT_USEM_def WT_INTERRUPTED_def)
  show thesis
  proof (rule ipc_block_channel [OF k c b, of "sem_wq s0"])
    fix k' assume k': "ipc_block (sem_wq s0) 9 WT_USEM (Some 7) k0 = Some k'" "kernel_inv k'" "channel_inv k'"
    have "usem_down_enter s0 1 0 7 9 (demo_sem 0) = Some (False, Some 7, 0, k')"
      using k'(1) f g by (simp add: usem_down_enter_def ipc_timer_init_def sem_down_enter_def k0_def)
    then show thesis using that k'(2,3) by blast
  qed
qed

theorem usem_post_after_timeout_panics_witness:
  "\<exists>k k2. usem_down_enter s0 1 0 7 9 (demo_sem 0) = Some (False, Some 7, 0, k) \<and> current k = 2 \<and> usem_up s0 k \<noteq> None \<and>
     run_timer_list k = Some k2 \<and> wqs k2 (sem_wq s0) = [9] \<and> usem_up s0 k2 = None"
proof -
  obtain k where k: "usem_down_enter s0 1 0 7 9 (demo_sem 0) = Some (False, Some 7, 0, k)" "kernel_inv k" "channel_inv k" by (rule demo_usem_wait)
  have "map_option (\<lambda>(_, _, _, k). (current k, valid (sems k s0), wqs k (sem_wq s0), wproc (waits k 9), state (procs k 1), wait_state (procs k 1), due k, tproc (timers k 7)))
      (usem_down_enter s0 1 0 7 9 (demo_sem 0)) = Some (2, True, [9], Some 1, PROC_SLEEPING, WT_USEM, [(7, 1)], Some 1)" by code_simp
  then have f: "current k = 2" "valid (sems k s0)" "wqs k (sem_wq s0) = [9]" "wproc (waits k 9) = Some 1" "state (procs k 1) = PROC_SLEEPING" "wait_state (procs k 1) = WT_USEM"
    "(7, 1) \<in> set (due k)" "tproc (timers k 7) = Some 1" using k(1) by simp_all
  from usem_post_after_timeout_panics [OF k(2,3) f(2-8)] show ?thesis using k(1) f(1) by auto
qed

lemma semid_roundtrip:
  assumes "KERNBASE \<le> s"
  shows "semid2sem (sem2semid s) = s" and "VALID_SEMID (sem2semid s)"
proof -
  have "unat KERNBASE = 0xC0000000" by (simp add: KERNBASE_def)
  moreover have "unat (s - KERNBASE) = unat s - unat KERNBASE" by (rule unat_diff_le [OF assms])
  ultimately have "unat (s - KERNBASE) + unat KERNBASE < 2 ^ 32" "0 < unat KERNBASE"
    using unat_bound [of s] assms by (auto simp: word_le_nat_alt)
  then show "VALID_SEMID (sem2semid s)"
    using unat_add_lt [of "s - KERNBASE" KERNBASE] by (simp add: VALID_SEMID_def sem2semid_def word_less_nat_alt)
  show "semid2sem (sem2semid s) = s" by (simp add: semid2sem_def sem2semid_def)
qed

lemma find_SomeD: "find P xs = Some x \<Longrightarrow> x \<in> set xs \<and> P x"
  by (induction xs) (auto split: if_splits)

text \<open>The identifier \<open>ipc_sem_init\<close> returns for a kernel semaphore leads back to it: looking it up in a list
  that has an undo record of the semaphore returns such a record and moves it to the front, keeping the
  others, while the semaphore is valid; once it was freed the lookup fails and the record is dropped, its
  block released and the semaphore's reference count reduced.  An identifier with no record fails and
  changes nothing.\<close>

theorem semu_list_search_correct:
  assumes "KERNBASE \<le> s" and "distinct (semu_list (sem_queues k a))"
  shows "if \<exists>u \<in> set (semu_list (sem_queues k a)). semus k u = s then
      \<exists>u k'. u \<in> set (semu_list (sem_queues k a)) \<and> semus k u = s
        \<and> (if valid (sems k s)
           then semu_list_search a (sem2semid s) k = (Some u, k')
             \<and> semu_list (sem_queues k' a) = u # remove1 u (semu_list (sem_queues k a)) \<and> sems k' = sems k \<and> freed k' = freed k
           else semu_list_search a (sem2semid s) k = (None, k')
             \<and> semu_list (sem_queues k' a) = remove1 u (semu_list (sem_queues k a))
             \<and> count (sems k' s) = count (sems k s) - 1
             \<and> freed k' = (if count (sems k s) = 1 then [u, s] else [u]) @ freed k)
    else semu_list_search a (sem2semid s) k = (None, k)"
proof (cases "find (\<lambda>u. semus k u = s) (semu_list (sem_queues k a))")
  case None
  then have "\<not> (\<exists>u \<in> set (semu_list (sem_queues k a)). semus k u = s)" by (auto simp: find_None_iff)
  then show ?thesis using None semid_roundtrip [OF assms(1)] by (simp add: semu_list_search_def)
next
  case (Some u)
  have u: "u \<in> set (semu_list (sem_queues k a))" "semus k u = s" using find_SomeD [OF Some] by auto
  let ?k1 = "upd_semq a (remove1 u) k"
  let ?k' = "if valid (sems k s) then upd_semq a (\<lambda>l. u # l) ?k1 else semu_destroy u ?k1"
  have search: "semu_list_search a (sem2semid s) k = (if valid (sems k s) then Some u else None, ?k')"
    using Some semid_roundtrip [OF assms(1)] by (simp add: semu_list_search_def upd_semq_def)
  have "semu_list (sem_queues ?k' a) = (if valid (sems k s) then [u] else []) @ remove1 u (semu_list (sem_queues k a))"
    "valid (sems k s) \<Longrightarrow> sems ?k' = sems k \<and> freed ?k' = freed k"
    "\<not> valid (sems k s) \<Longrightarrow> count (sems ?k' s) = count (sems k s) - 1 \<and>
      freed ?k' = (if count (sems k s) = 1 then [u, s] else [u]) @ freed k"
    using u(2) by (auto simp: upd_semq_def semu_destroy_def sem_count_dec_def kfree_def upd_sem_def Let_def)
  then show ?thesis using u search by (intro if_bool_eq_conj [THEN iffD2] conjI impI exI [of _ u] exI [of _ ?k']) auto
qed

theorem semu_list_search_correct_witness:
  "let k = (demo_sem 0)\<lparr>semus := (\<lambda>_. KERNBASE), sem_queues := (\<lambda>_. \<lparr>sem_queue_count = 0, semu_list = [3, 4]\<rparr>)\<rparr>
   in KERNBASE \<le> KERNBASE \<and> fst (semu_list_search 8 (sem2semid KERNBASE) k) \<noteq> None"
proof -
  let ?k = "(demo_sem 0)\<lparr>semus := (\<lambda>_. KERNBASE), sem_queues := (\<lambda>_. \<lparr>sem_queue_count = 0, semu_list = [3, 4]\<rparr>)\<rparr>"
  have "distinct (semu_list (sem_queues ?k 8))" "3 \<in> set (semu_list (sem_queues ?k 8))" "semus ?k 3 = KERNBASE"
    "valid (sems ?k KERNBASE)" by (simp_all add: demo_sem_def)
  then have "\<exists>u \<in> set (semu_list (sem_queues ?k 8)). semus ?k u = KERNBASE" by blast
  then show ?thesis using \<open>distinct _\<close> \<open>valid _\<close> semu_list_search_correct [of KERNBASE ?k 8] by (auto simp: Let_def)
qed

end
