(* ===== verification/Mbox.thy ===== *)
theory Mbox
  imports Sem
begin

text \<open>
  \<^verbatim>\<open>kern/sync/mbox.c\<close>: mailboxes, bounded queues of messages between processes.  A mailbox is named by its
  index in \<^verbatim>\<open>mbox_map\<close> (page times mailboxes per page plus offset, which is also the id it is given).  A message
  keeps its data the way the code does: a first piece behind its header and a chain of segments.  The link
  \<^verbatim>\<open>msg_link\<close> of a mailbox is the head of its message list while it is in use and its link in the free list
  otherwise; here these are \<open>msgs\<close> and \<open>free_mbox_list\<close>.  What \<^verbatim>\<open>kmalloc\<close>, \<^verbatim>\<open>alloc_page\<close> and the functions that
  check and copy user memory return are arguments; blocks given back are logged in \<open>freed\<close>.  The counters
  \<^verbatim>\<open>slots\<close> and \<^verbatim>\<open>max_slots\<close> are natural numbers: every slot costs a message in memory.
\<close>

subsection \<open>State\<close>

record msg_msg =
  maddr :: u32
  mpid :: int
  mbytes :: nat
  mdata :: "u8 list"
  msegs :: "(u32 \<times> u8 list) list"

datatype mbox_state = CLOSED | OPENED | CLOSING

record msg_mbox =
  mid :: int
  inuse :: int
  mstate :: mbox_state
  max_slots :: nat
  slots :: nat
  msgs :: "msg_msg list"

record mbox_kernel = sem_kernel +
  mbox_map :: "nat \<Rightarrow> bool"
  mboxes :: "nat \<Rightarrow> msg_mbox"
  free_mbox_list :: "nat list"
  sem_mbox_map :: u32
  proc_pid :: "nat \<Rightarrow> int"

text \<open>\<^verbatim>\<open>sizeof(struct msg_mbox)\<close> is 44 and \<^verbatim>\<open>sizeof(struct msg_msg)\<close> 20 on the 32-bit target.\<close>

definition MAX_MBOX_NUM :: nat where "MAX_MBOX_NUM = 8192"
definition MBOX_P_PAGE :: nat where "MBOX_P_PAGE = 4096 div 44"
definition MAX_MBOX_PAGES :: nat where "MAX_MBOX_PAGES = (MAX_MBOX_NUM + MBOX_P_PAGE - 1) div MBOX_P_PAGE"
definition MAX_MSG_DATALEN :: nat where "MAX_MSG_DATALEN = 512 - 20"
definition MAX_MSG_SLOTS :: nat where "MAX_MSG_SLOTS = 0x1000"
definition MAX_MSG_BYTES :: nat where "MAX_MSG_BYTES = 0x10000"

definition WT_MBOX_SEND :: u32 where "WT_MBOX_SEND = 0x120 OR WT_INTERRUPTED"
definition WT_MBOX_RECV :: u32 where "WT_MBOX_RECV = 0x121 OR WT_INTERRUPTED"

definition E_TOO_BIG :: int where "E_TOO_BIG = 12"

definition upd_mbox :: "nat \<Rightarrow> (msg_mbox \<Rightarrow> msg_mbox) \<Rightarrow> 'a mbox_kernel_scheme \<Rightarrow> 'a mbox_kernel_scheme" where
  "upd_mbox n f k = k\<lparr>mboxes := (mboxes k)(n := f (mboxes k n))\<rparr>"

subsection \<open>Mailboxes\<close>

definition mbox_init :: "'a mbox_kernel_scheme \<Rightarrow> 'a mbox_kernel_scheme" where
  "mbox_init k =
     (let k1 = k\<lparr>mbox_map := (\<lambda>i. if i < MAX_MBOX_PAGES then False else mbox_map k i)\<rparr>;
          k2 = sem_init (sem_mbox_map k1) 1 k1
      in k2\<lparr>free_mbox_list := []\<rparr>)"

definition get_mbox :: "int \<Rightarrow> 'a mbox_kernel_scheme \<Rightarrow> nat option" where
  "get_mbox i k =
     (if 0 \<le> i \<and> i < int MAX_MBOX_NUM then
        let pg = nat i div MBOX_P_PAGE; j = nat i mod MBOX_P_PAGE in
        if mbox_map k pg \<and> mstate (mboxes k (pg * MBOX_P_PAGE + j)) = OPENED then Some (pg * MBOX_P_PAGE + j) else None
      else None)"

definition mbox_free :: "nat \<Rightarrow> 'a mbox_kernel_scheme \<Rightarrow> 'a mbox_kernel_scheme option" where
  "mbox_free n k = do {
     kassert (mstate (mboxes k n) = CLOSING \<and> inuse (mboxes k n) = 0);
     kassert (msgs (mboxes k n) = []);
     kassert (wait_queue_empty (Senders n) k);
     kassert (wait_queue_empty (Receivers n) k);
     let k1 = upd_mbox n (\<lambda>m. m\<lparr>mstate := CLOSED, max_slots := 0, slots := 0\<rparr>) k;
     Some (k1\<lparr>free_mbox_list := free_mbox_list k1 @ [n]\<rparr>) }"

definition add_msg :: "nat \<Rightarrow> msg_msg \<Rightarrow> bool \<Rightarrow> 'a mbox_kernel_scheme \<Rightarrow> 'a mbox_kernel_scheme option" where
  "add_msg n m app k = do {
     kassert (mstate (mboxes k n) = OPENED);
     let k1 = upd_mbox n (\<lambda>b. b\<lparr>slots := slots b + 1, msgs := (if app then msgs b @ [m] else m # msgs b)\<rparr>) k;
     wakeup_first (Receivers n) WT_MBOX_RECV True k1 }"

definition pick_msg :: "nat \<Rightarrow> nat \<Rightarrow> 'a mbox_kernel_scheme \<Rightarrow> (int \<times> msg_msg option \<times> 'a mbox_kernel_scheme) option" where
  "pick_msg n max_bytes k = do {
     kassert (mstate (mboxes k n) = OPENED \<and> slots (mboxes k n) > 0);
     kassert (msgs (mboxes k n) \<noteq> []);
     let m = hd (msgs (mboxes k n));
     if max_bytes < mbytes m then Some (- E_TOO_BIG, None, k)
     else do {
       let k1 = upd_mbox n (\<lambda>b. b\<lparr>slots := slots b - 1, msgs := tl (msgs b)\<rparr>) k;
       k2 \<leftarrow> wakeup_first (Senders n) WT_MBOX_SEND True k1;
       Some (0, Some m, k2) } }"

text \<open>One turn of the loop of \<open>new_mbox\<close> that initialises a page of mailboxes.\<close>

definition init_mbox :: "nat \<Rightarrow> 'a mbox_kernel_scheme \<Rightarrow> 'a mbox_kernel_scheme" where
  "init_mbox n k =
     (let k1 = upd_mbox n (\<lambda>_. \<lparr>mid = int n, inuse = 0, mstate = CLOSED, max_slots = 0, slots = 0, msgs = []\<rparr>) k;
          k2 = wait_queue_init (Receivers n) (wait_queue_init (Senders n) k1)
      in k2\<lparr>free_mbox_list := free_mbox_list k2 @ [n]\<rparr>)"

text \<open>Interrupts are on while \<open>alloc_page\<close> looks for a page, and other processes may run: \<open>alloc\<close> says whether it returned a page, and the state at that time.\<close>

definition new_mbox :: "('a mbox_kernel_scheme \<Rightarrow> bool \<times> 'a mbox_kernel_scheme) \<Rightarrow> nat \<Rightarrow> 'a mbox_kernel_scheme \<Rightarrow> (nat option \<times> 'a mbox_kernel_scheme) option" where
  "new_mbox alloc ms k =
     (let (go, k1) =
        (if free_mbox_list k = [] then
           (case find (\<lambda>i. \<not> mbox_map k i) [0..<MAX_MBOX_PAGES] of
              None \<Rightarrow> (False, k)
            | Some i \<Rightarrow>
                let (page, k1) = alloc k in
                if page then
                  (True, fold init_mbox [i * MBOX_P_PAGE ..< i * MBOX_P_PAGE + MBOX_P_PAGE] (k1\<lparr>mbox_map := (mbox_map k1)(i := True)\<rparr>))
                else (free_mbox_list k1 \<noteq> [], k1))
         else (True, k))
      in if \<not> go then Some (None, k1)
         else do {
           kassert (free_mbox_list k1 \<noteq> []);
           let n = hd (free_mbox_list k1);
           let k2 = k1\<lparr>free_mbox_list := tl (free_mbox_list k1)\<rparr>;
           Some (Some n, upd_mbox n (\<lambda>m. m\<lparr>mstate := OPENED, max_slots := ms, msgs := []\<rparr>) k2) })"

text \<open>\<open>ipc_mbox_init\<close> up to the switch in \<open>down\<close> (\<open>Inr\<close>), and from the point where it has the lock.\<close>

definition ipc_mbox_init_enter :: "nat \<Rightarrow> nat \<Rightarrow> 'a mbox_kernel_scheme
    \<Rightarrow> (int \<times> 'a mbox_kernel_scheme + bool \<times> 'a mbox_kernel_scheme) option" where
  "ipc_mbox_init_enter ms w k =
     (if ms = 0 \<or> ms > MAX_MSG_SLOTS then Some (Inl (- E_INVAL, k)) else map_option Inr (down_enter (sem_mbox_map k) w k))"

definition ipc_mbox_init_locked :: "('a mbox_kernel_scheme \<Rightarrow> bool \<times> 'a mbox_kernel_scheme) \<Rightarrow> nat \<Rightarrow> 'a mbox_kernel_scheme \<Rightarrow> (int \<times> 'a mbox_kernel_scheme) option" where
  "ipc_mbox_init_locked alloc ms k = do {
     (r, k1) \<leftarrow> new_mbox alloc ms k;
     let ret = (case r of None \<Rightarrow> - E_NO_MEM | Some n \<Rightarrow> mid (mboxes k1 n));
     k2 \<leftarrow> up (sem_mbox_map k1) k1;
     Some (ret, k2) }"

subsection \<open>Messages\<close>

fun free_seg :: "(u32 \<times> u8 list) list \<Rightarrow> 'a sem_kernel_scheme \<Rightarrow> 'a sem_kernel_scheme" where
  "free_seg [] k = k"
| "free_seg (s # ss) k = kfree (fst s) (free_seg ss k)"

definition free_msg :: "msg_msg \<Rightarrow> 'a sem_kernel_scheme \<Rightarrow> 'a sem_kernel_scheme" where
  "free_msg m k = kfree (maddr m) (free_seg (msegs m) k)"

text \<open>The loop of \<open>load_msg\<close> over the data behind the first piece; \<open>ms\<close> are the results of \<^verbatim>\<open>kmalloc\<close>.  The flag
  says whether all segments were allocated.\<close>

fun load_segs :: "u8 list \<Rightarrow> u32 option list \<Rightarrow> bool \<times> (u32 \<times> u8 list) list" where
  "load_segs src [] = (src = [], [])"
| "load_segs src (m # ms) =
     (if src = [] then (True, [])
      else case m of
          None \<Rightarrow> (False, [])
        | Some a \<Rightarrow> let (ok, ss) = load_segs (drop MAX_MSG_DATALEN src) ms
                    in (ok, (a, take MAX_MSG_DATALEN src) # ss))"

definition load_msg :: "u32 option list \<Rightarrow> u8 list \<Rightarrow> 'a mbox_kernel_scheme \<Rightarrow> msg_msg option \<times> 'a mbox_kernel_scheme" where
  "load_msg ms src k = (case ms of
      Some a # ms' \<Rightarrow>
        let (ok, ss) = load_segs (drop MAX_MSG_DATALEN src) ms';
            m = \<lparr>maddr = a, mpid = proc_pid k (current k), mbytes = length src,
                 mdata = take MAX_MSG_DATALEN src, msegs = ss\<rparr>
        in if ok then (Some m, k) else (None, free_msg m k)
    | _ \<Rightarrow> (None, k))"

text \<open>The bytes \<open>store_msg\<close> writes; a missing segment fails its assertion.\<close>

fun store_segs :: "nat \<Rightarrow> (u32 \<times> u8 list) list \<Rightarrow> u8 list option" where
  "store_segs 0 ss = Some []"
| "store_segs (Suc n) [] = None"
| "store_segs (Suc n) (s # ss) =
     (let alen = min (Suc n) MAX_MSG_DATALEN
      in map_option (\<lambda>r. take alen (snd s) @ r) (store_segs (Suc n - alen) ss))"

definition store_msg :: "msg_msg \<Rightarrow> u8 list option" where
  "store_msg m =
     (let alen = min (mbytes m) MAX_MSG_DATALEN
      in map_option (\<lambda>r. take alen (mdata m) @ r) (store_segs (mbytes m - alen) (msegs m)))"

subsection \<open>Sending and receiving\<close>

text \<open>The common end of \<open>send_msg\<close> and \<open>recv_msg\<close>; \<open>failed\<close> says that the result is not 0.\<close>

definition mbox_out :: "nat \<Rightarrow> bool \<Rightarrow> 'a mbox_kernel_scheme \<Rightarrow> 'a mbox_kernel_scheme option" where
  "mbox_out n failed k = do {
     let k1 = upd_mbox n (\<lambda>m. m\<lparr>inuse := inuse m - 1\<rparr>) k;
     if mstate (mboxes k1 n) \<noteq> OPENED then do {
       kassert (failed \<and> mstate (mboxes k1 n) = CLOSING);
       if inuse (mboxes k1 n) = 0 then mbox_free n k1 else Some k1 }
     else Some k1 }"

text \<open>The loop of \<open>send_msg\<close>, from the test of its condition: the result, or \<^const>\<open>None\<close> when it blocked.\<close>

definition send_msg_loop :: "nat \<Rightarrow> msg_msg \<Rightarrow> nat option \<Rightarrow> nat \<Rightarrow> 'a mbox_kernel_scheme \<Rightarrow> (u32 option \<times> 'a mbox_kernel_scheme) option" where
  "send_msg_loop n m tm w k =
     (if max_slots (mboxes k n) \<le> slots (mboxes k n) then do {
        kassert (mstate (mboxes k n) = OPENED);
        k1 \<leftarrow> ipc_block (Senders n) w WT_MBOX_SEND tm k;
        Some (None, k1) }
      else do {
        kassert (mstate (mboxes k n) = OPENED);
        k1 \<leftarrow> add_msg n m True k;
        k2 \<leftarrow> mbox_out n False k1;
        Some (Some 0, k2) })"

definition send_msg_enter :: "nat \<Rightarrow> msg_msg \<Rightarrow> nat option \<Rightarrow> nat \<Rightarrow> 'a mbox_kernel_scheme \<Rightarrow> (u32 option \<times> 'a mbox_kernel_scheme) option" where
  "send_msg_enter n m tm w k = send_msg_loop n m tm w (upd_mbox n (\<lambda>b. b\<lparr>inuse := inuse b + 1\<rparr>) k)"

definition send_msg_resume :: "nat \<Rightarrow> msg_msg \<Rightarrow> nat option \<Rightarrow> nat \<Rightarrow> 'a mbox_kernel_scheme \<Rightarrow> (u32 option \<times> 'a mbox_kernel_scheme) option" where
  "send_msg_resume n m tm w k = do {
     k1 \<leftarrow> ipc_unblock (Senders n) w tm k;
     if mstate (mboxes k1 n) \<noteq> OPENED \<or> wakeup_flags (waits k1 w) \<noteq> WT_MBOX_SEND then do {
       let ret = (if wakeup_flags (waits k1 w) = WT_MBOX_SEND then WT_INTERRUPTED else wakeup_flags (waits k1 w));
       k2 \<leftarrow> mbox_out n (ret \<noteq> 0) k1;
       Some (Some ret, k2) }
     else send_msg_loop n m tm w k1 }"

text \<open>Likewise \<open>recv_msg\<close>: its result and the message it stored.\<close>

definition recv_msg_loop :: "nat \<Rightarrow> nat \<Rightarrow> nat option \<Rightarrow> nat \<Rightarrow> 'a mbox_kernel_scheme
    \<Rightarrow> ((int \<times> msg_msg option) option \<times> 'a mbox_kernel_scheme) option" where
  "recv_msg_loop n max_bytes tm w k =
     (if slots (mboxes k n) = 0 then do {
        kassert (mstate (mboxes k n) = OPENED);
        k1 \<leftarrow> ipc_block (Receivers n) w WT_MBOX_RECV tm k;
        Some (None, k1) }
      else do {
        kassert (mstate (mboxes k n) = OPENED);
        kassert (msgs (mboxes k n) \<noteq> []);
        (ret, m, k1) \<leftarrow> pick_msg n max_bytes k;
        k2 \<leftarrow> (if ret \<noteq> 0 then wakeup_first (Receivers n) WT_MBOX_RECV True k1 else Some k1);
        k3 \<leftarrow> mbox_out n (ret \<noteq> 0) k2;
        Some (Some (ret, m), k3) })"

definition recv_msg_enter :: "nat \<Rightarrow> nat \<Rightarrow> nat option \<Rightarrow> nat \<Rightarrow> 'a mbox_kernel_scheme
    \<Rightarrow> ((int \<times> msg_msg option) option \<times> 'a mbox_kernel_scheme) option" where
  "recv_msg_enter n max_bytes tm w k = recv_msg_loop n max_bytes tm w (upd_mbox n (\<lambda>b. b\<lparr>inuse := inuse b + 1\<rparr>) k)"

definition recv_msg_resume :: "nat \<Rightarrow> nat \<Rightarrow> nat option \<Rightarrow> nat \<Rightarrow> 'a mbox_kernel_scheme
    \<Rightarrow> ((int \<times> msg_msg option) option \<times> 'a mbox_kernel_scheme) option" where
  "recv_msg_resume n max_bytes tm w k = do {
     k1 \<leftarrow> ipc_unblock (Receivers n) w tm k;
     if mstate (mboxes k1 n) \<noteq> OPENED \<or> wakeup_flags (waits k1 w) \<noteq> WT_MBOX_RECV then do {
       k2 \<leftarrow> mbox_out n True k1;
       Some (Some (- 1, None), k2) }
     else recv_msg_loop n max_bytes tm w k1 }"

subsection \<open>The system calls\<close>

text \<open>\<open>src\<close>: the sender's data, if the user's buffer is readable.  \<open>Inl\<close>: the call returned; \<open>Inr\<close>: the mailbox,
  the message, the timer and the saved ticks with which it goes on in \<open>send_msg\<close>.\<close>

definition ipc_mbox_send_enter :: "int \<Rightarrow> u8 list option \<Rightarrow> u32 option list \<Rightarrow> u32 \<Rightarrow> u32 \<Rightarrow> nat \<Rightarrow> 'a mbox_kernel_scheme
    \<Rightarrow> int \<times> 'a mbox_kernel_scheme + nat \<times> msg_msg \<times> nat option \<times> u32 \<times> 'a mbox_kernel_scheme" where
  "ipc_mbox_send_enter i src ms timeout saved t k = (case get_mbox i k of
      None \<Rightarrow> Inl (- E_INVAL, k)
    | Some _ \<Rightarrow> (case src of
        None \<Rightarrow> Inl (- E_INVAL, k)
      | Some d \<Rightarrow>
          if 0 < length d \<and> length d \<le> MAX_MSG_BYTES then
            (case load_msg ms d k of
               (None, k1) \<Rightarrow> Inl (- E_NO_MEM, k1)
             | (Some m, k1) \<Rightarrow>
                 (case get_mbox i k1 of
                    None \<Rightarrow> Inl (- E_INVAL, free_msg m k1)
                  | Some n \<Rightarrow> let (tm, saved', k2) = ipc_timer_init timeout saved t k1 in Inr (n, m, tm, saved', k2)))
          else Inl (- E_INVAL, k)))"

definition ipc_mbox_send_finish :: "msg_msg \<Rightarrow> u32 \<Rightarrow> u32 \<Rightarrow> u32 \<Rightarrow> 'a mbox_kernel_scheme \<Rightarrow> (int \<times> 'a mbox_kernel_scheme) option" where
  "ipc_mbox_send_finish m timeout saved flags k =
     (if flags = 0 then Some (0, k)
      else do { kassert (flags = WT_INTERRUPTED); Some (ipc_check_timeout timeout saved k, free_msg m k) })"

text \<open>\<open>bufsz\<close>: the size of the receiver's buffer, if it is acceptable.\<close>

definition ipc_mbox_recv_enter :: "int \<Rightarrow> nat option \<Rightarrow> u32 \<Rightarrow> u32 \<Rightarrow> nat \<Rightarrow> 'a mbox_kernel_scheme
    \<Rightarrow> int \<times> 'a mbox_kernel_scheme + nat \<times> nat \<times> nat option \<times> u32 \<times> 'a mbox_kernel_scheme" where
  "ipc_mbox_recv_enter i bufsz timeout saved t k = (case get_mbox i k of
      None \<Rightarrow> Inl (- E_INVAL, k)
    | Some n \<Rightarrow> (case bufsz of
        None \<Rightarrow> Inl (- E_INVAL, k)
      | Some sz \<Rightarrow> if sz > 0 then let (tm, saved', k1) = ipc_timer_init timeout saved t k in Inr (n, sz, tm, saved', k1)
                   else Inl (- E_INVAL, k)))"

text \<open>\<open>copied\<close>: were the header and the data copied to the user?  If not, the message goes back to the front.  The
  third component is the data delivered.\<close>

definition ipc_mbox_recv_finish :: "bool \<Rightarrow> int \<Rightarrow> u32 \<Rightarrow> u32 \<Rightarrow> int \<times> msg_msg option \<Rightarrow> 'a mbox_kernel_scheme
    \<Rightarrow> (int \<times> 'a mbox_kernel_scheme \<times> u8 list option) option" where
  "ipc_mbox_recv_finish copied i timeout saved r k = (case r of
      (ret, None) \<Rightarrow> Some (if ret = - 1 then ipc_check_timeout timeout saved k else ret, k, None)
    | (ret, Some m) \<Rightarrow>
        if ret \<noteq> 0 then Some (if ret = - 1 then ipc_check_timeout timeout saved k else ret, k, None)
        else if copied then do { d \<leftarrow> store_msg m; Some (0, free_msg m k, Some d) }
        else (case get_mbox i k of
                Some n \<Rightarrow> do { k1 \<leftarrow> add_msg n m False k; Some (- E_INVAL, k1, None) }
              | None \<Rightarrow> Some (- E_INVAL, free_msg m k, None)))"

fun free_msgs :: "nat \<Rightarrow> msg_msg list \<Rightarrow> 'a mbox_kernel_scheme \<Rightarrow> 'a mbox_kernel_scheme" where
  "free_msgs n [] k = k"
| "free_msgs n (m # ms) k = free_msgs n ms (free_msg m (upd_mbox n (\<lambda>b. b\<lparr>msgs := ms\<rparr>) k))"

definition ipc_mbox_free :: "int \<Rightarrow> 'a mbox_kernel_scheme \<Rightarrow> (int \<times> 'a mbox_kernel_scheme) option" where
  "ipc_mbox_free i k = (case get_mbox i k of
      None \<Rightarrow> Some (- E_INVAL, k)
    | Some n \<Rightarrow> do {
        let k1 = upd_mbox n (\<lambda>b. b\<lparr>mstate := CLOSING\<rparr>) k;
        let k2 = free_msgs n (msgs (mboxes k1 n)) k1;
        k3 \<leftarrow> wakeup_queue (Senders n) WT_INTERRUPTED True k2;
        k4 \<leftarrow> wakeup_queue (Receivers n) WT_INTERRUPTED True k3;
        k5 \<leftarrow> (if inuse (mboxes k4 n) = 0 then mbox_free n k4 else Some k4);
        Some (0, k5) })"

record mboxinfo =
  info_slots :: nat
  info_max_slots :: nat
  info_inuse :: bool
  has_sender :: bool
  has_receiver :: bool

definition ipc_mbox_info :: "bool \<Rightarrow> int \<Rightarrow> 'a mbox_kernel_scheme \<Rightarrow> int \<times> mboxinfo option" where
  "ipc_mbox_info copied i k = (case get_mbox i k of
      None \<Rightarrow> (- E_INVAL, None)
    | Some n \<Rightarrow>
        let info = \<lparr>info_slots = slots (mboxes k n), info_max_slots = max_slots (mboxes k n),
                    info_inuse = (inuse (mboxes k n) \<noteq> 0), has_sender = (\<not> wait_queue_empty (Senders n) k),
                    has_receiver = (\<not> wait_queue_empty (Receivers n) k)\<rparr>
        in if copied then (0, Some info) else (- E_INVAL, None))"

text \<open>One page in \<open>mbox_cleanup\<close>: it is given back when all of its mailboxes are closed.\<close>

definition cleanup_page :: "nat \<Rightarrow> 'a mbox_kernel_scheme \<Rightarrow> 'a mbox_kernel_scheme" where
  "cleanup_page i k =
     (let ns = [i * MBOX_P_PAGE ..< i * MBOX_P_PAGE + MBOX_P_PAGE] in
      if mbox_map k i \<and> (\<forall>n \<in> set ns. mstate (mboxes k n) = CLOSED)
      then k\<lparr>free_mbox_list := filter (\<lambda>n. n \<notin> set ns) (free_mbox_list k), mbox_map := (mbox_map k)(i := False)\<rparr>
      else k)"

definition mbox_cleanup :: "'a mbox_kernel_scheme \<Rightarrow> 'a mbox_kernel_scheme" where
  "mbox_cleanup k = fold cleanup_page [0..<MAX_MBOX_PAGES] k"

subsection \<open>Invariant\<close>

definition mapped :: "'a mbox_kernel_scheme \<Rightarrow> nat \<Rightarrow> bool" where
  "mapped k n \<longleftrightarrow> mbox_map k (n div MBOX_P_PAGE)"

definition mb_ok :: "'a mbox_kernel_scheme \<Rightarrow> nat \<Rightarrow> bool" where
  "mb_ok k n \<longleftrightarrow> (case mstate (mboxes k n) of
      CLOSED \<Rightarrow> inuse (mboxes k n) = 0 \<and> msgs (mboxes k n) = [] \<and> wqs k (Senders n) = [] \<and> wqs k (Receivers n) = []
        \<and> n \<in> set (free_mbox_list k) \<and> slots (mboxes k n) = 0
    | OPENED \<Rightarrow> 0 \<le> inuse (mboxes k n) \<and> slots (mboxes k n) = length (msgs (mboxes k n)) \<and> n \<notin> set (free_mbox_list k)
    | CLOSING \<Rightarrow> 0 < inuse (mboxes k n) \<and> msgs (mboxes k n) = [] \<and> wqs k (Senders n) = [] \<and> wqs k (Receivers n) = []
        \<and> n \<notin> set (free_mbox_list k))"

definition mbox_inv :: "'a mbox_kernel_scheme \<Rightarrow> bool" where
  "mbox_inv k \<longleftrightarrow> kernel_inv k \<and> channel_inv k \<and> distinct (free_mbox_list k)
     \<and> (\<forall>n. mapped k n \<longrightarrow> mb_ok k n) \<and> (\<forall>n \<in> set (free_mbox_list k). mapped k n)"

lemma mbox_invD:
  assumes "mbox_inv k"
  shows "kernel_inv k" and "channel_inv k" and "distinct (free_mbox_list k)" and "mapped k n \<Longrightarrow> mb_ok k n"
    and "n \<in> set (free_mbox_list k) \<Longrightarrow> mapped k n" and "wait_inv k"
  using assms channel_invD(2) by (auto simp: mbox_inv_def)

lemma more_mbox:
  assumes "wait_kernel.more k' = wait_kernel.more k"
  shows "mboxes k' = mboxes k" and "mbox_map k' = mbox_map k" and "free_mbox_list k' = free_mbox_list k"
    and "freed k' = freed k" and "sem_mbox_map k' = sem_mbox_map k" and "ticks k' = ticks k"
  using assms by (cases k; cases k'; simp)+

lemma upd_mbox_fields [simp]:
  "mboxes (upd_mbox n f k) = (mboxes k)(n := f (mboxes k n))" "mbox_map (upd_mbox n f k) = mbox_map k"
  "free_mbox_list (upd_mbox n f k) = free_mbox_list k" "waits (upd_mbox n f k) = waits k" "wqs (upd_mbox n f k) = wqs k"
  "procs (upd_mbox n f k) = procs k" "current (upd_mbox n f k) = current k" "idleproc (upd_mbox n f k) = idleproc k"
  "rqs (upd_mbox n f k) = rqs k" "timers (upd_mbox n f k) = timers k" "timer_list (upd_mbox n f k) = timer_list k"
  "freed (upd_mbox n f k) = freed k" "mapped (upd_mbox n f k) = mapped k"
  by (simp_all add: upd_mbox_def mapped_def fun_eq_iff)

text \<open>The parts of the state the mailboxes do not touch.\<close>

lemma kernel_eq_inv:
  assumes "procs k' = procs k" and "rqs k' = rqs k" and "current k' = current k" and "idleproc k' = idleproc k"
    and "timers k' = timers k" and "timer_list k' = timer_list k" and "waits k' = waits k" and "wqs k' = wqs k"
  shows "kernel_inv k' = kernel_inv k" and "channel_inv k' = channel_inv k"
  using assms
  by (simp_all add: kernel_inv_def channel_inv_def sched_inv_def rq_inv_def queued_def queue_ok_def timer_inv_def due_def
      owners_ok_def wakeable_def wait_inv_def waiters_alive_def)

lemma upd_mbox_kernel [simp]: "kernel_inv (upd_mbox n f k) = kernel_inv k" "channel_inv (upd_mbox n f k) = channel_inv k"
  by (rule kernel_eq_inv; simp)+

text \<open>Only mailbox \<open>n\<close> and its two queues change.\<close>

lemma mbox_invI:
  assumes inv: "mbox_inv k" and k': "kernel_inv k'" "channel_inv k'" and map: "mbox_map k' = mbox_map k"
    and other: "\<And>r. r \<noteq> n \<Longrightarrow> mboxes k' r = mboxes k r"
    and q: "\<And>r. r \<noteq> n \<Longrightarrow> wqs k' (Senders r) = wqs k (Senders r) \<and> wqs k' (Receivers r) = wqs k (Receivers r)"
    and free: "distinct (free_mbox_list k')" "set (free_mbox_list k') - {n} = set (free_mbox_list k) - {n}"
    and n: "mapped k n" "mb_ok k' n"
  shows "mbox_inv k'"
proof -
  have m: "mapped k' r = mapped k r" for r by (simp add: mapped_def map)
  have fr: "r \<in> set (free_mbox_list k') \<longleftrightarrow> r \<in> set (free_mbox_list k)" if "r \<noteq> n" for r using free(2) that by blast
  have "mb_ok k' r" if "mapped k r" for r
  proof (cases "r = n")
    case False
    then show ?thesis using mbox_invD(4) [OF inv that] by (simp add: mb_ok_def other q fr cong: mbox_state.case_cong)
  qed (use n in simp)
  moreover have "mapped k r" if "r \<in> set (free_mbox_list k')" for r
    using that mbox_invD(5) [OF inv, of r] fr [of r] n(1) by (cases "r = n") auto
  ultimately show ?thesis using k' free(1) by (simp add: mbox_inv_def m)
qed

lemma get_mbox_Some:
  assumes "get_mbox i k = Some n"
  shows "mapped k n" and "mstate (mboxes k n) = OPENED" and "n = nat i" and "0 \<le> i \<and> i < 8192"
proof -
  have P: "0 < MBOX_P_PAGE" by (simp add: MBOX_P_PAGE_def)
  have "0 \<le> i \<and> i < 8192" "mbox_map k (nat i div MBOX_P_PAGE)"
    "n = nat i div MBOX_P_PAGE * MBOX_P_PAGE + nat i mod MBOX_P_PAGE" "mstate (mboxes k n) = OPENED"
    using assms by (auto simp: get_mbox_def Let_def MAX_MBOX_NUM_def split: if_splits)
  then show "mapped k n" "mstate (mboxes k n) = OPENED" "n = nat i" "0 \<le> i \<and> i < 8192" by (simp_all add: mapped_def)
qed

text \<open>Waking the first waiter of one of the queues of a mailbox.\<close>

lemma wakeup_first_mbox:
  assumes inv: "kernel_inv k" "channel_inv k"
  obtains k' where "wakeup_first q flags True k = Some k'" "kernel_inv k'" "channel_inv k'"
    "wqs k' = (wqs k)(q := tl (wqs k q))" "mboxes k' = mboxes k" "mbox_map k' = mbox_map k"
    "free_mbox_list k' = free_mbox_list k" "woken flags (take 1 (wqs k q)) k k'"
proof (rule wakeup_first_ok [OF inv(2), of q flags True])
  fix k' assume k': "wakeup_first q flags True k = Some k'" "channel_inv k'" "woken flags (take 1 (wqs k q)) k k'"
    "wqs k' = (wqs k)(q := if True then tl (wqs k q) else wqs k q)"
  have mo: "wait_kernel.more k' = wait_kernel.more k" using k'(3) by (simp add: woken_def)
  show thesis
    using that [of k'] k' woken_kernel_inv [OF inv(1) channel_invD(1) [OF k'(2)] k'(3)] more_mbox [OF mo] by simp
qed

lemma mbox_interruptible: "WT_MBOX_SEND AND WT_INTERRUPTED \<noteq> 0" "WT_MBOX_RECV AND WT_INTERRUPTED \<noteq> 0"
  "WT_MBOX_SEND \<noteq> 0" "WT_INTERRUPTED \<noteq> 0" "WT_MBOX_SEND \<noteq> WT_INTERRUPTED" "WT_MBOX_RECV \<noteq> WT_INTERRUPTED"
  by (simp_all add: WT_MBOX_SEND_def WT_MBOX_RECV_def WT_INTERRUPTED_def)

lemma send_msg_loop_room:
  assumes inv: "mbox_inv k" and n: "mapped k n" and op: "mstate (mboxes k n) = OPENED" and use: "0 < inuse (mboxes k n)"
    and room: "slots (mboxes k n) < max_slots (mboxes k n)"
  obtains k' where "send_msg_loop n m tm w k = Some (Some 0, k')" "mbox_inv k'"
    "mboxes k' = (mboxes k)(n := (mboxes k n)\<lparr>slots := slots (mboxes k n) + 1, msgs := msgs (mboxes k n) @ [m], inuse := inuse (mboxes k n) - 1\<rparr>)"
    "wqs k' = (wqs k)(Receivers n := tl (wqs k (Receivers n)))" "timers k' = timers k" "timer_list k' = timer_list k"
    "\<And>v. v \<notin> set (wqs k (Receivers n)) \<Longrightarrow> waits k' v = waits k v"
proof -
  note I = mbox_invD [OF inv]
  let ?k1 = "upd_mbox n (\<lambda>b. b\<lparr>slots := slots b + 1, msgs := msgs b @ [m]\<rparr>) k"
  show thesis
  proof (rule wakeup_first_mbox [of ?k1 "Receivers n" WT_MBOX_RECV])
    show "kernel_inv ?k1" "channel_inv ?k1" using I by simp_all
    fix k2 assume k2: "wakeup_first (Receivers n) WT_MBOX_RECV True ?k1 = Some k2" "kernel_inv k2" "channel_inv k2"
      "wqs k2 = (wqs ?k1)(Receivers n := tl (wqs ?k1 (Receivers n)))" "mboxes k2 = mboxes ?k1" "mbox_map k2 = mbox_map ?k1"
      "free_mbox_list k2 = free_mbox_list ?k1" "woken WT_MBOX_RECV (take 1 (wqs ?k1 (Receivers n))) ?k1 k2"
    let ?k3 = "upd_mbox n (\<lambda>b. b\<lparr>inuse := inuse b - 1\<rparr>) k2"
    have ok: "mb_ok k n" by (rule I(4) [OF n])
    have "mbox_inv ?k3"
      by (rule mbox_invI [OF inv, of ?k3 n]) (use k2 I ok op use n in \<open>simp_all add: mb_ok_def\<close>)
    moreover have "send_msg_loop n m tm w k = Some (Some 0, ?k3)"
      using k2(1,5) op room by (simp add: send_msg_loop_def add_msg_def mbox_out_def)
    moreover have "timers k2 = timers k" "timer_list k2 = timer_list k" "v \<notin> set (wqs k (Receivers n)) \<Longrightarrow> waits k2 v = waits k v" for v
      using k2(8) in_set_takeD [of v 1 "wqs k (Receivers n)"] by (auto simp: woken_def)
    ultimately show thesis using that [of ?k3] k2(4,5) by simp
  qed
qed

lemma mbox_loop_block:
  assumes inv: "mbox_inv k" and n: "mapped k n" and op: "mstate (mboxes k n) = OPENED"
    and w: "\<not> wait_in_queue w k" and mb: "may_block ws tm k" and q: "q = Senders n \<or> q = Receivers n"
  obtains k' where "ipc_block q w ws tm k = Some k'" "mbox_inv k'" "mboxes k' = mboxes k"
    "wqs k' = (wqs k)(q := wqs k q @ [w])" "state (procs k' (current k)) = PROC_SLEEPING"
    "wproc (waits k' w) = Some (current k)" "wait_queue (waits k' w) = q"
proof -
  note I = mbox_invD [OF inv]
  show thesis
  proof (rule ipc_block_channel [OF I(1,2) w mb, of q])
    fix k' assume k': "ipc_block q w ws tm k = Some k'" "kernel_inv k'" "channel_inv k'"
      "waits k' = (waits k)(w := (waits k w)\<lparr>wproc := Some (current k), wakeup_flags := WT_INTERRUPTED, wait_queue := q\<rparr>)"
      "wqs k' = (wqs k)(q := wqs k q @ [w])" "wait_kernel.more k' = wait_kernel.more k"
      "\<And>r. state (procs k' r) = (if r = current k then PROC_SLEEPING else state (procs k r))"
    note mo = more_mbox [OF k'(6)]
    have ok: "mb_ok k' n" using I(4) [OF n] op by (simp add: mb_ok_def mo)
    have "mbox_inv k'"
      by (rule mbox_invI [OF inv k'(2,3), of n]) (use I n q ok in \<open>auto simp: mo k'(5)\<close>)
    then show thesis using that [of k'] k' mo by simp
  qed
qed

lemma recv_msg_loop_pick:
  assumes inv: "mbox_inv k" and n: "mapped k n" and op: "mstate (mboxes k n) = OPENED" and use: "0 < inuse (mboxes k n)"
    and ms: "msgs (mboxes k n) = m # ms" and fits: "mbytes m \<le> max_bytes"
  obtains k' where "recv_msg_loop n max_bytes tm w k = Some (Some (0, Some m), k')" "mbox_inv k'"
    "mboxes k' = (mboxes k)(n := (mboxes k n)\<lparr>slots := slots (mboxes k n) - 1, msgs := ms, inuse := inuse (mboxes k n) - 1\<rparr>)"
    "wqs k' = (wqs k)(Senders n := tl (wqs k (Senders n)))" "timers k' = timers k" "timer_list k' = timer_list k" "mbox_map k' = mbox_map k"
    "\<And>v vs. wqs k (Senders n) = v # vs \<Longrightarrow> waits k' v = (waits k v)\<lparr>wakeup_flags := WT_MBOX_SEND\<rparr>"
proof -
  note I = mbox_invD [OF inv]
  have ok: "mb_ok k n" by (rule I(4) [OF n])
  then have sl: "slots (mboxes k n) = Suc (length ms)" using op ms by (simp add: mb_ok_def)
  let ?k1 = "upd_mbox n (\<lambda>b. b\<lparr>slots := slots b - 1, msgs := tl (msgs b)\<rparr>) k"
  show thesis
  proof (rule wakeup_first_mbox [of ?k1 "Senders n" WT_MBOX_SEND])
    show "kernel_inv ?k1" "channel_inv ?k1" using I by simp_all
    fix k2 assume k2: "wakeup_first (Senders n) WT_MBOX_SEND True ?k1 = Some k2" "kernel_inv k2" "channel_inv k2"
      "wqs k2 = (wqs ?k1)(Senders n := tl (wqs ?k1 (Senders n)))" "mboxes k2 = mboxes ?k1" "mbox_map k2 = mbox_map ?k1"
      "free_mbox_list k2 = free_mbox_list ?k1" "woken WT_MBOX_SEND (take 1 (wqs ?k1 (Senders n))) ?k1 k2"
    let ?k3 = "upd_mbox n (\<lambda>b. b\<lparr>inuse := inuse b - 1\<rparr>) k2"
    have "mbox_inv ?k3"
      by (rule mbox_invI [OF inv, of ?k3 n]) (use k2 I ok op use n ms sl in \<open>simp_all add: mb_ok_def\<close>)
    moreover have "recv_msg_loop n max_bytes tm w k = Some (Some (0, Some m), ?k3)"
      using k2(1,5) op ms sl fits by (simp add: recv_msg_loop_def pick_msg_def mbox_out_def)
    moreover have "timers k2 = timers k" "timer_list k2 = timer_list k" "wqs k (Senders n) = v # vs \<Longrightarrow> waits k2 v = (waits k v)\<lparr>wakeup_flags := WT_MBOX_SEND\<rparr>" for v vs
      using k2(8) by (simp_all add: woken_def)
    ultimately show thesis using that [of ?k3] k2(4-6) ms by simp
  qed
qed

lemma recv_msg_loop_too_big:
  assumes inv: "mbox_inv k" and n: "mapped k n" and op: "mstate (mboxes k n) = OPENED" and use: "0 < inuse (mboxes k n)"
    and ms: "msgs (mboxes k n) = m # ms" and big: "max_bytes < mbytes m"
  obtains k' where "recv_msg_loop n max_bytes tm w k = Some (Some (- E_TOO_BIG, None), k')" "mbox_inv k'"
    "mboxes k' = (mboxes k)(n := (mboxes k n)\<lparr>inuse := inuse (mboxes k n) - 1\<rparr>)"
    "wqs k' = (wqs k)(Receivers n := tl (wqs k (Receivers n)))"
proof -
  note I = mbox_invD [OF inv]
  have ok: "mb_ok k n" by (rule I(4) [OF n])
  then have sl: "slots (mboxes k n) = Suc (length ms)" using op ms by (simp add: mb_ok_def)
  show thesis
  proof (rule wakeup_first_mbox [OF I(1,2), of "Receivers n" WT_MBOX_RECV])
    fix k2 assume k2: "wakeup_first (Receivers n) WT_MBOX_RECV True k = Some k2" "kernel_inv k2" "channel_inv k2"
      "wqs k2 = (wqs k)(Receivers n := tl (wqs k (Receivers n)))" "mboxes k2 = mboxes k" "mbox_map k2 = mbox_map k"
      "free_mbox_list k2 = free_mbox_list k"
    let ?k3 = "upd_mbox n (\<lambda>b. b\<lparr>inuse := inuse b - 1\<rparr>) k2"
    have "mbox_inv ?k3"
      by (rule mbox_invI [OF inv, of ?k3 n]) (use k2 I ok op use n ms in \<open>simp_all add: mb_ok_def\<close>)
    moreover have "recv_msg_loop n max_bytes tm w k = Some (Some (- E_TOO_BIG, None), ?k3)"
      using k2(1,5) op ms sl big by (simp add: recv_msg_loop_def pick_msg_def mbox_out_def E_TOO_BIG_def)
    ultimately show thesis using that [of ?k3] k2(4,5) by simp
  qed
qed

text \<open>Leaving a mailbox, whatever state it is in: the last user of a mailbox that is being closed frees it.\<close>

lemma mbox_out_ok:
  assumes inv: "mbox_inv k" and n: "mapped k n" and use: "0 < inuse (mboxes k n)"
  obtains k' where "mbox_out n True k = Some k'" "mbox_inv k'"
    "mstate (mboxes k' n) = (if mstate (mboxes k n) = CLOSING \<and> inuse (mboxes k n) = 1 then CLOSED else mstate (mboxes k n))"
    "\<And>r. r \<noteq> n \<Longrightarrow> mboxes k' r = mboxes k r"
proof -
  note I = mbox_invD [OF inv]
  have ok: "mb_ok k n" by (rule I(4) [OF n])
  let ?k1 = "upd_mbox n (\<lambda>m. m\<lparr>inuse := inuse m - 1\<rparr>) k"
  consider (op) "mstate (mboxes k n) = OPENED"
    | (more) "mstate (mboxes k n) = CLOSING" "1 < inuse (mboxes k n)" | (last) "mstate (mboxes k n) = CLOSING" "inuse (mboxes k n) = 1"
  proof -
    have "inuse (mboxes k n) = 1 \<or> 1 < inuse (mboxes k n)" using use by linarith
    then show thesis using ok use op more last by (cases "mstate (mboxes k n)") (auto simp: mb_ok_def)
  qed
  then show thesis
  proof cases
    case op
    have "mbox_inv ?k1" by (rule mbox_invI [OF inv, of ?k1 n]) (use I ok op use n in \<open>simp_all add: mb_ok_def\<close>)
    then show thesis using that [of ?k1] op by (simp add: mbox_out_def)
  next
    case more
    have "mbox_inv ?k1" by (rule mbox_invI [OF inv, of ?k1 n]) (use I ok more n in \<open>simp_all add: mb_ok_def\<close>)
    then show thesis using that [of ?k1] more by (simp add: mbox_out_def)
  next
    case last
    let ?k2 = "upd_mbox n (\<lambda>m. m\<lparr>mstate := CLOSED, max_slots := 0, slots := 0\<rparr>) ?k1"
    let ?k3 = "?k2\<lparr>free_mbox_list := free_mbox_list ?k2 @ [n]\<rparr>"
    have res: "mbox_out n True k = Some ?k3"
      using last ok by (simp add: mbox_out_def mbox_free_def mb_ok_def wait_queue_empty_def)
    have ki: "kernel_inv ?k3" "channel_inv ?k3" using I(1,2) kernel_eq_inv [of ?k3 k] by simp_all
    have "mbox_inv ?k3"
      by (rule mbox_invI [OF inv ki, of n]) (use I ok last n in \<open>auto simp: mb_ok_def\<close>)
    then show thesis using that [OF res] last by simp
  qed
qed

lemma ipc_unblock_mbox:
  assumes inv: "mbox_inv k" and n: "mapped k n" and w: "wait_queue (waits k w) = q" and q: "q = Senders n \<or> q = Receivers n"
  obtains k' where "ipc_unblock q w None k = Some k'" "mbox_inv k'" "mboxes k' = mboxes k" "waits k' = waits k"
    "mapped k' n" "\<not> wait_in_queue w k'" "wqs k' = (wqs k)(q := remove1 w (wqs k q))"
proof -
  note I = mbox_invD [OF inv]
  show thesis
  proof (rule ipc_unblock_channel [OF I(1,2) w, of None])
    fix k' assume k': "ipc_unblock q w None k = Some k'" "kernel_inv k'" "channel_inv k'" "waits k' = waits k"
      "wqs k' = (wqs k)(q := remove1 w (wqs k q))" "wait_kernel.more k' = wait_kernel.more k"
    note mo = more_mbox [OF k'(6)]
    have sub: "wqs k' r = [] " if "wqs k r = []" for r using that by (auto simp: k'(5))
    have ok: "mb_ok k' n" using I(4) [OF n] sub by (auto simp: mb_ok_def mo split: mbox_state.splits)
    have "mbox_inv k'"
      by (rule mbox_invI [OF inv k'(2,3), of n]) (use I n q ok in \<open>auto simp: mo k'(5)\<close>)
    moreover have "\<not> wait_in_queue w k'"
      using wait_invD(1) [OF I(6), of q] by (simp add: wait_in_queue_def k'(4,5) w)
    ultimately show thesis using that [of k'] k' n mo by (simp add: mapped_def)
  qed
qed

text \<open>A sender or receiver that comes back from its wait, for whatever reason, without a timer.\<close>

lemma send_msg_resume_ok:
  assumes inv: "mbox_inv k" and n: "mapped k n" and use: "0 < inuse (mboxes k n)" and w: "wait_queue (waits k w) = Senders n"
    and fl: "wakeup_flags (waits k w) \<noteq> 0"
  shows "\<exists>r k'. send_msg_resume n m None w k = Some (r, k') \<and> mbox_inv k'
    \<and> (r = Some 0 \<longrightarrow> msgs (mboxes k' n) = msgs (mboxes k n) @ [m])"
proof (rule ipc_unblock_mbox [OF inv n w disjI1 [OF refl]])
  fix k1 assume k1: "ipc_unblock (Senders n) w None k = Some k1" "mbox_inv k1" "mboxes k1 = mboxes k" "waits k1 = waits k"
    "mapped k1 n" "\<not> wait_in_queue w k1"
  have mb: "may_block WT_MBOX_SEND None k1" using mbox_interruptible by (simp add: may_block_def)
  have use1: "0 < inuse (mboxes k1 n)" using use k1(3) by simp
  show ?thesis
  proof (cases "mstate (mboxes k1 n) \<noteq> OPENED \<or> wakeup_flags (waits k1 w) \<noteq> WT_MBOX_SEND")
    case True
    let ?r = "if wakeup_flags (waits k1 w) = WT_MBOX_SEND then WT_INTERRUPTED else wakeup_flags (waits k1 w)"
    have r: "?r \<noteq> 0" using fl k1(4) mbox_interruptible(4) by simp
    obtain k2 where k2: "mbox_out n True k1 = Some k2" "mbox_inv k2" using mbox_out_ok [OF k1(2,5) use1] by blast
    have "send_msg_resume n m None w k = Some (Some ?r, k2)"
      using True k1(1) k2(1) r by (simp add: send_msg_resume_def)
    then show ?thesis using k2(2) r by blast
  next
    case False
    then have op: "mstate (mboxes k1 n) = OPENED" by simp
    have res: "send_msg_resume n m None w k = send_msg_loop n m None w k1" using False k1(1) by (simp add: send_msg_resume_def)
    show ?thesis
    proof (cases "slots (mboxes k1 n) < max_slots (mboxes k1 n)")
      case True
      show ?thesis by (rule send_msg_loop_room [OF k1(2,5) op use1 True, of m None w]) (use res k1(3) in auto)
    next
      case no: False
      show ?thesis
        by (rule mbox_loop_block [OF k1(2,5) op k1(6) mb disjI1 [OF refl]]) (use res op no in \<open>auto simp: send_msg_loop_def\<close>)
    qed
  qed
qed

lemma recv_msg_resume_ok:
  assumes inv: "mbox_inv k" and n: "mapped k n" and use: "0 < inuse (mboxes k n)" and w: "wait_queue (waits k w) = Receivers n"
  shows "\<exists>r k'. recv_msg_resume n mx None w k = Some (r, k') \<and> mbox_inv k'
    \<and> (\<forall>m. r = Some (0, Some m) \<longrightarrow> msgs (mboxes k n) = m # msgs (mboxes k' n))"
proof (rule ipc_unblock_mbox [OF inv n w disjI2 [OF refl]])
  fix k1 assume k1: "ipc_unblock (Receivers n) w None k = Some k1" "mbox_inv k1" "mboxes k1 = mboxes k" "waits k1 = waits k"
    "mapped k1 n" "\<not> wait_in_queue w k1"
  have mb: "may_block WT_MBOX_RECV None k1" using mbox_interruptible by (simp add: may_block_def)
  have use1: "0 < inuse (mboxes k1 n)" using use k1(3) by simp
  show ?thesis
  proof (cases "mstate (mboxes k1 n) \<noteq> OPENED \<or> wakeup_flags (waits k1 w) \<noteq> WT_MBOX_RECV")
    case True
    obtain k2 where k2: "mbox_out n True k1 = Some k2" "mbox_inv k2" using mbox_out_ok [OF k1(2,5) use1] by blast
    have "recv_msg_resume n mx None w k = Some (Some (- 1, None), k2)"
      using True k1(1) k2(1) by (simp add: recv_msg_resume_def)
    then show ?thesis using k2(2) by blast
  next
    case False
    then have op: "mstate (mboxes k1 n) = OPENED" by simp
    have res: "recv_msg_resume n mx None w k = recv_msg_loop n mx None w k1" using False k1(1) by (simp add: recv_msg_resume_def)
    show ?thesis
    proof (cases "msgs (mboxes k1 n)")
      case Nil
      then have sl: "slots (mboxes k1 n) = 0" using mbox_invD(4) [OF k1(2,5)] op by (simp add: mb_ok_def)
      show ?thesis
        by (rule mbox_loop_block [OF k1(2,5) op k1(6) mb disjI2 [OF refl]]) (use res op sl in \<open>auto simp: recv_msg_loop_def\<close>)
    next
      case (Cons m ms)
      show ?thesis
      proof (cases "mbytes m \<le> mx")
        case True
        show ?thesis by (rule recv_msg_loop_pick [OF k1(2,5) op use1 Cons True, of None w]) (use res k1(3) Cons in auto)
      next
        case big: False
        then have lt: "mx < mbytes m" by simp
        show ?thesis
          by (rule recv_msg_loop_too_big [OF k1(2,5) op use1 Cons lt, of None w]) (use res in auto)
      qed
    qed
  qed
qed

subsection \<open>Closing\<close>

lemma free_msg_fields [simp]:
  "procs (free_msg m k) = procs k" "rqs (free_msg m k) = rqs k" "current (free_msg m k) = current k"
  "idleproc (free_msg m k) = idleproc k" "timers (free_msg m k) = timers k" "timer_list (free_msg m k) = timer_list k"
  "waits (free_msg m k) = waits k" "wqs (free_msg m k) = wqs k"
proof -
  have "procs (free_seg ss k) = procs k \<and> rqs (free_seg ss k) = rqs k \<and> current (free_seg ss k) = current k
    \<and> idleproc (free_seg ss k) = idleproc k \<and> timers (free_seg ss k) = timers k \<and> timer_list (free_seg ss k) = timer_list k
    \<and> waits (free_seg ss k) = waits k \<and> wqs (free_seg ss k) = wqs k" for ss
    by (induction ss) (simp_all add: kfree_def)
  then show "procs (free_msg m k) = procs k" "rqs (free_msg m k) = rqs k" "current (free_msg m k) = current k"
    "idleproc (free_msg m k) = idleproc k" "timers (free_msg m k) = timers k" "timer_list (free_msg m k) = timer_list k"
    "waits (free_msg m k) = waits k" "wqs (free_msg m k) = wqs k"
    by (simp_all add: free_msg_def kfree_def)
qed

lemma free_msg_mbox [simp]:
  "mboxes (free_msg m k) = mboxes k" "mbox_map (free_msg m k) = mbox_map k" "free_mbox_list (free_msg m k) = free_mbox_list k"
proof -
  have "mboxes (free_seg ss k) = mboxes k \<and> mbox_map (free_seg ss k) = mbox_map k \<and> free_mbox_list (free_seg ss k) = free_mbox_list k" for ss
    by (induction ss) (simp_all add: kfree_def)
  then show "mboxes (free_msg m k) = mboxes k" "mbox_map (free_msg m k) = mbox_map k" "free_mbox_list (free_msg m k) = free_mbox_list k"
    by (simp_all add: free_msg_def kfree_def)
qed

lemma free_msgs_fields:
  "procs (free_msgs n ms k) = procs k" "rqs (free_msgs n ms k) = rqs k" "current (free_msgs n ms k) = current k"
  "idleproc (free_msgs n ms k) = idleproc k" "timers (free_msgs n ms k) = timers k" "timer_list (free_msgs n ms k) = timer_list k"
  "waits (free_msgs n ms k) = waits k" "wqs (free_msgs n ms k) = wqs k" "mbox_map (free_msgs n ms k) = mbox_map k"
  "free_mbox_list (free_msgs n ms k) = free_mbox_list k"
  "mboxes (free_msgs n ms k) = (mboxes k)(n := if ms = [] then mboxes k n else (mboxes k n)\<lparr>msgs := []\<rparr>)"
  by (induction ms arbitrary: k) auto

lemma wakeup_queue_mbox:
  assumes inv: "kernel_inv k" "channel_inv k"
  obtains k' where "wakeup_queue q flags True k = Some k'" "kernel_inv k'" "channel_inv k'" "wqs k' = (wqs k)(q := [])"
    "mboxes k' = mboxes k" "mbox_map k' = mbox_map k" "free_mbox_list k' = free_mbox_list k" "woken flags (wqs k q) k k'"
proof -
  obtain k' where k': "wakeup_queue q flags True k = Some k'" "sched_inv k'" "wait_inv k'"
    "wqs k' = (if True then (wqs k)(q := []) else wqs k)" "woken flags (wqs k q) k k'"
    using wakeup_queue_ok [OF channel_invD [OF inv(2)], of q flags True] by blast
  have "waiters_alive r k'" for r
    by (rule woken_alive [OF channel_invD(3) [OF inv(2)] k'(5)]) (simp add: k'(4))
  then have "channel_inv k'" using k'(2,3) by (simp add: channel_inv_def)
  moreover have "wait_kernel.more k' = wait_kernel.more k" using k'(5) by (simp add: woken_def)
  note more_mbox [OF this]
  ultimately show thesis using that [of k'] k' woken_kernel_inv [OF inv(1) k'(2,5)] by simp
qed

text \<open>The processes that wait in a queue.\<close>

definition waits_in :: "nat \<Rightarrow> wait_queue_t \<Rightarrow> 'a wait_kernel_scheme \<Rightarrow> bool" where
  "waits_in p q k \<longleftrightarrow> (\<exists>w \<in> set (wqs k q). wproc (waits k w) = Some p)"

lemma ipc_mbox_free_ok:
  assumes inv: "mbox_inv k" and i: "get_mbox i k = Some n"
  obtains k' where "ipc_mbox_free i k = Some (0, k')" "mbox_inv k'" "get_mbox i k' = None"
    "msgs (mboxes k' n) = []" "wqs k' (Senders n) = []" "wqs k' (Receivers n) = []"
    "mstate (mboxes k' n) = (if inuse (mboxes k n) = 0 then CLOSED else CLOSING)"
    "\<And>p. waits_in p (Senders n) k \<or> waits_in p (Receivers n) k \<Longrightarrow> state (procs k' p) = PROC_RUNNABLE"
    "\<And>r. r \<noteq> n \<Longrightarrow> mboxes k' r = mboxes k r"
proof -
  note I = mbox_invD [OF inv] and g = get_mbox_Some [OF i]
  have ok: "mb_ok k n" by (rule I(4) [OF g(1)])
  let ?k1 = "upd_mbox n (\<lambda>b. b\<lparr>mstate := CLOSING\<rparr>) k"
  define K2 where "K2 = free_msgs n (msgs (mboxes ?k1 n)) ?k1"
  have k2: "kernel_inv K2" "channel_inv K2"
    using I(1,2) kernel_eq_inv [of K2 k] by (simp_all add: K2_def free_msgs_fields)
  have b2: "mboxes K2 = (mboxes k)(n := (mboxes k n)\<lparr>mstate := CLOSING, msgs := []\<rparr>)"
    by (auto simp: K2_def free_msgs_fields)
  have f2: "mbox_map K2 = mbox_map k" "free_mbox_list K2 = free_mbox_list k" "wqs K2 = wqs k" "waits K2 = waits k"
    by (simp_all add: K2_def free_msgs_fields)
  show thesis
  proof (rule wakeup_queue_mbox [OF k2, of "Senders n" WT_INTERRUPTED])
    fix k3 assume k3: "wakeup_queue (Senders n) WT_INTERRUPTED True K2 = Some k3" "kernel_inv k3" "channel_inv k3"
      "wqs k3 = (wqs K2)(Senders n := [])" "mboxes k3 = mboxes K2" "mbox_map k3 = mbox_map K2"
      "free_mbox_list k3 = free_mbox_list K2" "woken WT_INTERRUPTED (wqs K2 (Senders n)) K2 k3"
    show thesis
    proof (rule wakeup_queue_mbox [OF k3(2,3), of "Receivers n" WT_INTERRUPTED])
      fix k4 assume k4: "wakeup_queue (Receivers n) WT_INTERRUPTED True k3 = Some k4" "kernel_inv k4" "channel_inv k4"
        "wqs k4 = (wqs k3)(Receivers n := [])" "mboxes k4 = mboxes k3" "mbox_map k4 = mbox_map k3"
        "free_mbox_list k4 = free_mbox_list k3" "woken WT_INTERRUPTED (wqs k3 (Receivers n)) k3 k4"
      have b4: "mboxes k4 = (mboxes k)(n := (mboxes k n)\<lparr>mstate := CLOSING, msgs := []\<rparr>)"
        and q4: "wqs k4 = (wqs k)(Senders n := [], Receivers n := [])"
        and f4: "mbox_map k4 = mbox_map k" "free_mbox_list k4 = free_mbox_list k"
        using k3 k4 b2 f2 by simp_all
      have run: "state (procs k4 p) = PROC_RUNNABLE" if "waits_in p (Senders n) k \<or> waits_in p (Receivers n) k" for p
      proof -
        have "wproc (waits k3 w) = wproc (waits k w)" for w using k3(8) by (simp add: woken_def f2)
        then have "p \<in> waiting_procs (wqs k (Senders n)) K2 \<or> p \<in> waiting_procs (wqs k (Receivers n)) k3"
          using that by (auto simp: waits_in_def waiting_procs_def f2)
        then show ?thesis using k3(4,8) k4(8) f2 by (auto simp: woken_def)
      qed
      have inu: "0 \<le> inuse (mboxes k n)" and nf: "n \<notin> set (free_mbox_list k)" using ok g(2) by (simp_all add: mb_ok_def)
      show thesis
      proof (cases "inuse (mboxes k n) = 0")
        case False
        have inv4: "mbox_inv k4"
          by (rule mbox_invI [OF inv k4(2,3), of n]) (use I g(1) inu nf False in \<open>auto simp: b4 q4 f4 mb_ok_def\<close>)
        have r: "ipc_mbox_free i k = Some (0, k4)"
          using i k3(1) k4(1) False b4 by (simp add: ipc_mbox_free_def Let_def K2_def)
        have "get_mbox i k4 = None" using i b4 g(3) by (auto simp: get_mbox_def Let_def f4)
        then show thesis using that [OF r inv4] False run by (simp add: b4 q4)
      next
        case True
        let ?k5 = "upd_mbox n (\<lambda>m. m\<lparr>mstate := CLOSED, max_slots := 0, slots := 0\<rparr>) k4"
        let ?k6 = "?k5\<lparr>free_mbox_list := free_mbox_list ?k5 @ [n]\<rparr>"
        have r: "ipc_mbox_free i k = Some (0, ?k6)"
          using i k3(1) k4(1) True b4 q4 by (simp add: ipc_mbox_free_def Let_def K2_def mbox_free_def wait_queue_empty_def)
        have k6: "kernel_inv ?k6" "channel_inv ?k6" using k4(2,3) kernel_eq_inv [of ?k6 k4] by simp_all
        have inv6: "mbox_inv ?k6"
          by (rule mbox_invI [OF inv k6, of n]) (use I g(1) True nf in \<open>auto simp: b4 q4 f4 mb_ok_def\<close>)
        have "get_mbox i ?k6 = None" using i b4 g(3) by (auto simp: get_mbox_def Let_def f4)
        then show thesis using that [OF r inv6] True run by (simp add: b4 q4)
      qed
    qed
  qed
qed

subsection \<open>The data of a message\<close>

lemma store_load_segs:
  "load_segs src ms = (True, ss) \<Longrightarrow> store_segs (length src) ss = Some src"
proof (induction src ms arbitrary: ss rule: load_segs.induct)
  case (2 src m ms)
  show ?case
  proof (cases src)
    case (Cons b bs)
    then obtain a ss' where m: "m = Some a" "load_segs (drop MAX_MSG_DATALEN src) ms = (True, ss')"
      "ss = (a, take MAX_MSG_DATALEN src) # ss'"
      using "2.prems" by (auto split: option.splits prod.splits)
    have ih: "store_segs (length (drop MAX_MSG_DATALEN src)) ss' = Some (drop MAX_MSG_DATALEN src)"
      using "2.IH" [OF _ m(1) m(2)] Cons m by simp
    have len: "length src - min (length src) MAX_MSG_DATALEN = length (drop MAX_MSG_DATALEN src)" by simp
    have "store_segs (length src) ss = map_option (\<lambda>r. take (min (length src) MAX_MSG_DATALEN) (take MAX_MSG_DATALEN src) @ r)
      (store_segs (length src - min (length src) MAX_MSG_DATALEN) ss')"
      unfolding m(3) using Cons by (simp add: Let_def)
    then show ?thesis unfolding len ih by (simp add: min_def)
  qed (use "2.prems" in auto)
qed auto

subsection \<open>The properties of mailboxes\<close>

text \<open>Process 1 runs, 2 and 3 are ready; mailbox 0 has one slot, filled or not.\<close>

definition demo_msg :: "u8 \<Rightarrow> msg_msg" where
  "demo_msg b = \<lparr>maddr = 64, mpid = 1, mbytes = 1, mdata = [b], msegs = []\<rparr>"

definition demo_mbox :: "msg_msg list \<Rightarrow> mbox_kernel" where
  "demo_mbox ms = \<lparr>procs = (\<lambda>p. \<lparr>state = (if p < 4 then PROC_RUNNABLE else PROC_SLEEPING), runs = 0,
       need_resched = False, wait_state = 0, rq = (if p = 2 \<or> p = 3 then Some 0 else None), time_slice = 8\<rparr>),
     current = 1, idleproc = 0, rqs = [\<lparr>run_list = [2, 3], proc_num = 2, max_time_slice = 8\<rparr>],
     timers = (\<lambda>_. \<lparr>expires = 0, tproc = None\<rparr>), timer_list = [],
     waits = (\<lambda>w. \<lparr>wproc = None, wakeup_flags = WT_INTERRUPTED, wait_queue = Senders 0\<rparr>), wqs = (\<lambda>_. []),
     ticks = 0, sems = (\<lambda>_. \<lparr>value = 1, valid = True, count = 1\<rparr>), semus = (\<lambda>_. 0),
     sem_queues = (\<lambda>_. \<lparr>sem_queue_count = 0, semu_list = []\<rparr>), sem_queue_of = (\<lambda>_. None), freed = [],
     mbox_map = (\<lambda>i. i = 0),
     mboxes = (\<lambda>n. \<lparr>mid = int n, inuse = 0, mstate = (if n = 0 then OPENED else CLOSED),
        max_slots = (if n = 0 then 1 else 0), slots = (if n = 0 then length ms else 0), msgs = (if n = 0 then ms else [])\<rparr>),
     free_mbox_list = [1..<MBOX_P_PAGE], sem_mbox_map = 32, proc_pid = int\<rparr>"

lemma demo_mbox_inv: "mbox_inv (demo_mbox ms)"
proof -
  have s: "sched_inv (demo_mbox ms)"
  proof -
    have "p \<in> set (queued (demo_mbox ms)) \<longleftrightarrow> p = 2 \<or> p = 3" for p by (simp add: demo_mbox_def queued_def)
    moreover have "state (procs (demo_mbox ms) p) = PROC_RUNNABLE \<and> p \<noteq> 1 \<and> p \<noteq> 0 \<longleftrightarrow> p = 2 \<or> p = 3" for p
      by (auto simp: demo_mbox_def)
    moreover have "rq_inv (demo_mbox ms)" by (auto simp: demo_mbox_def rq_inv_def queued_def queue_ok_def)
    moreover have "current (demo_mbox ms) = 1" "idleproc (demo_mbox ms) = 0" by (simp_all add: demo_mbox_def)
    ultimately show ?thesis by (simp add: sched_inv_def)
  qed
  have k: "kernel_inv (demo_mbox ms)"
    using s by (simp add: kernel_inv_def timer_inv_def due_def owners_ok_def) (simp add: demo_mbox_def)
  have w: "wait_inv (demo_mbox ms)" "waiters_alive q (demo_mbox ms)" for q
    by (simp_all add: demo_mbox_def wait_inv_def waiters_alive_def)
  have P: "0 < MBOX_P_PAGE" by (simp add: MBOX_P_PAGE_def)
  have m: "mapped (demo_mbox ms) n \<longleftrightarrow> n < MBOX_P_PAGE" for n using P by (auto simp: mapped_def demo_mbox_def div_eq_0_iff)
  have "mb_ok (demo_mbox ms) n" if "n < MBOX_P_PAGE" for n using that by (simp add: mb_ok_def demo_mbox_def)
  moreover have "free_mbox_list (demo_mbox ms) = [1..<MBOX_P_PAGE]" by (simp add: demo_mbox_def)
  ultimately show ?thesis using s k w by (simp add: mbox_inv_def channel_inv_def m)
qed

lemma demo_mbox_facts:
  "get_mbox 0 (demo_mbox ms) = Some 0" "\<not> wait_in_queue w (demo_mbox ms)" "may_block WT_MBOX_SEND None (demo_mbox ms)"
  "may_block WT_MBOX_RECV None (demo_mbox ms)" "mboxes (demo_mbox ms) 0 = \<lparr>mid = 0, inuse = 0, mstate = OPENED, max_slots = 1,
     slots = length ms, msgs = ms\<rparr>" "wqs (demo_mbox ms) q = []"
  using mbox_interruptible
  by (simp_all add: demo_mbox_def get_mbox_def Let_def MAX_MBOX_NUM_def wait_in_queue_def may_block_def)

lemma upd_mbox_block [simp]:
  "may_block ws tm (upd_mbox n f k) = may_block ws tm k" "wait_in_queue w (upd_mbox n f k) = wait_in_queue w k"
  by (cases tm; simp add: may_block_def) (simp add: wait_in_queue_def)

lemma enter_inuse:
  assumes inv: "mbox_inv k" and i: "get_mbox i k = Some n"
  shows "mbox_inv (upd_mbox n (\<lambda>b. b\<lparr>inuse := inuse b + 1\<rparr>) k)"
    and "0 < inuse (mboxes (upd_mbox n (\<lambda>b. b\<lparr>inuse := inuse b + 1\<rparr>) k) n)"
proof -
  note g = get_mbox_Some [OF i] and I = mbox_invD [OF inv]
  have ok: "mb_ok k n" by (rule I(4) [OF g(1)])
  let ?k = "upd_mbox n (\<lambda>b. b\<lparr>inuse := inuse b + 1\<rparr>) k"
  show "mbox_inv ?k" by (rule mbox_invI [OF inv, of ?k n]) (use I ok g in \<open>simp_all add: mb_ok_def\<close>)
  show "0 < inuse (mboxes ?k n)" using ok g(2) by (simp add: mb_ok_def)
qed

text \<open>C35: Sending to an open mailbox never panics and keeps all invariants.  If there is a free slot the message
  becomes the last one of the mailbox, the call returns 0 and one waiting receiver leaves the queue;
  otherwise the mailbox keeps its messages and the sender sleeps at the end of the senders' queue.\<close>

theorem mbox_send_correct:
  assumes "mbox_inv k" and "get_mbox i k = Some n" and "\<not> wait_in_queue w k" and "may_block WT_MBOX_SEND tm k"
  shows "\<exists>k'. mbox_inv k' \<and>
    (if slots (mboxes k n) < max_slots (mboxes k n)
     then send_msg_enter n m tm w k = Some (Some 0, k') \<and> msgs (mboxes k' n) = msgs (mboxes k n) @ [m]
       \<and> inuse (mboxes k' n) = inuse (mboxes k n) \<and> wqs k' = (wqs k)(Receivers n := tl (wqs k (Receivers n)))
     else send_msg_enter n m tm w k = Some (None, k') \<and> msgs (mboxes k' n) = msgs (mboxes k n)
       \<and> inuse (mboxes k' n) = inuse (mboxes k n) + 1 \<and> wqs k' = (wqs k)(Senders n := wqs k (Senders n) @ [w])
       \<and> state (procs k' (current k)) = PROC_SLEEPING)"
proof -
  note g = get_mbox_Some [OF assms(2)]
  let ?k = "upd_mbox n (\<lambda>b. b\<lparr>inuse := inuse b + 1\<rparr>) k"
  note e = enter_inuse [OF assms(1,2)]
  have n: "mapped ?k n" "mstate (mboxes ?k n) = OPENED" using g by simp_all
  have w: "\<not> wait_in_queue w ?k" "may_block WT_MBOX_SEND tm ?k"
    using assms(3,4) by simp_all
  show ?thesis
  proof (cases "slots (mboxes k n) < max_slots (mboxes k n)")
    case True
    then have room: "slots (mboxes ?k n) < max_slots (mboxes ?k n)" by simp
    show ?thesis
      by (rule send_msg_loop_room [OF e(1) n e(2) room, of m tm w]) (use True in \<open>auto simp: send_msg_enter_def\<close>)
  next
    case False
    show ?thesis
      by (rule mbox_loop_block [OF e(1) n w disjI1 [OF refl]])
        (use False n in \<open>auto simp: send_msg_enter_def send_msg_loop_def\<close>)
  qed
qed

theorem mbox_send_correct_witness:
  "(\<exists>k'. send_msg_enter 0 (demo_msg 7) None 9 (demo_mbox []) = Some (Some 0, k') \<and> msgs (mboxes k' 0) = [demo_msg 7])
   \<and> (\<exists>k'. send_msg_enter 0 (demo_msg 7) None 9 (demo_mbox [demo_msg 1]) = Some (None, k') \<and> wqs k' (Senders 0) = [9])"
  using mbox_send_correct [where k = "demo_mbox []" and w = 9 and m = "demo_msg 7", OF demo_mbox_inv demo_mbox_facts(1-3)]
    mbox_send_correct [where k = "demo_mbox [demo_msg 1]" and w = 9 and m = "demo_msg 7", OF demo_mbox_inv demo_mbox_facts(1-3)]
  by (auto simp: demo_mbox_facts)

text \<open>Receiving from an open mailbox never panics and keeps all invariants.  With no message the receiver
  sleeps at the end of the receivers' queue.  Otherwise the first message is taken, one waiting sender
  leaves its queue and the rest of the messages stays in order; if the message is larger than the
  receiver's buffer it stays where it is and the call returns \<open>-E_TOO_BIG\<close>.\<close>

theorem mbox_recv_correct:
  assumes "mbox_inv k" and "get_mbox i k = Some n" and "\<not> wait_in_queue w k" and "may_block WT_MBOX_RECV tm k"
  shows "\<exists>k'. mbox_inv k' \<and> (case msgs (mboxes k n) of
      [] \<Rightarrow> recv_msg_enter n mx tm w k = Some (None, k') \<and> msgs (mboxes k' n) = []
        \<and> wqs k' = (wqs k)(Receivers n := wqs k (Receivers n) @ [w]) \<and> state (procs k' (current k)) = PROC_SLEEPING
    | m # ms \<Rightarrow>
        if mbytes m \<le> mx
        then recv_msg_enter n mx tm w k = Some (Some (0, Some m), k') \<and> msgs (mboxes k' n) = ms
          \<and> wqs k' = (wqs k)(Senders n := tl (wqs k (Senders n))) \<and> inuse (mboxes k' n) = inuse (mboxes k n)
        else recv_msg_enter n mx tm w k = Some (Some (- E_TOO_BIG, None), k') \<and> msgs (mboxes k' n) = m # ms
          \<and> inuse (mboxes k' n) = inuse (mboxes k n))"
proof -
  note g = get_mbox_Some [OF assms(2)]
  let ?k = "upd_mbox n (\<lambda>b. b\<lparr>inuse := inuse b + 1\<rparr>) k"
  note e = enter_inuse [OF assms(1,2)]
  have n: "mapped ?k n" "mstate (mboxes ?k n) = OPENED" using g by simp_all
  have w: "\<not> wait_in_queue w ?k" "may_block WT_MBOX_RECV tm ?k"
    using assms(3,4) by simp_all
  show ?thesis
  proof (cases "msgs (mboxes k n)")
    case Nil
    then have sl: "slots (mboxes ?k n) = 0" using mbox_invD(4) [OF assms(1) g(1)] g(2) by (simp add: mb_ok_def)
    show ?thesis
      by (rule mbox_loop_block [OF e(1) n w disjI2 [OF refl]])
        (use Nil n sl in \<open>auto simp: recv_msg_enter_def recv_msg_loop_def\<close>)
  next
    case (Cons m ms)
    then have ms: "msgs (mboxes ?k n) = m # ms" by simp
    show ?thesis
    proof (cases "mbytes m \<le> mx")
      case True
      show ?thesis
        by (rule recv_msg_loop_pick [OF e(1) n e(2) ms True, of tm w]) (use True Cons in \<open>auto simp: recv_msg_enter_def\<close>)
    next
      case False
      then have big: "mx < mbytes m" by simp
      show ?thesis
        by (rule recv_msg_loop_too_big [OF e(1) n e(2) ms big, of tm w]) (use False Cons in \<open>auto simp: recv_msg_enter_def\<close>)
    qed
  qed
qed

theorem mbox_recv_correct_witness:
  "(\<exists>k'. recv_msg_enter 0 16 None 9 (demo_mbox [demo_msg 1, demo_msg 2]) = Some (Some (0, Some (demo_msg 1)), k')
      \<and> msgs (mboxes k' 0) = [demo_msg 2])
   \<and> (\<exists>k'. recv_msg_enter 0 16 None 9 (demo_mbox []) = Some (None, k') \<and> wqs k' (Receivers 0) = [9])"
proof -
  have "mbytes (demo_msg 1) \<le> 16" by (simp add: demo_msg_def)
  then show ?thesis
    using mbox_recv_correct [where k = "demo_mbox [demo_msg 1, demo_msg 2]" and w = 9 and mx = 16, OF demo_mbox_inv demo_mbox_facts(1,2,4)]
      mbox_recv_correct [where k = "demo_mbox []" and w = 9 and mx = 16, OF demo_mbox_inv demo_mbox_facts(1,2,4)]
    by (auto simp: demo_mbox_facts)
qed

text \<open>A process that waited in a mailbox without a timeout and runs again, for whatever reason, meets no failing
  assertion, and all invariants are kept: it puts its message at the end, or takes the first message, or
  waits again, or gives up because the mailbox is being closed or it was interrupted; the last one to give
  up a closing mailbox frees it.\<close>

theorem mbox_resume_safe:
  assumes "mbox_inv k" and "mapped k n" and "0 < inuse (mboxes k n)"
  shows "(wait_queue (waits k w) = Senders n \<and> wakeup_flags (waits k w) \<noteq> 0 \<longrightarrow>
      (\<exists>r k'. send_msg_resume n m None w k = Some (r, k') \<and> mbox_inv k'
        \<and> (r = Some 0 \<longrightarrow> msgs (mboxes k' n) = msgs (mboxes k n) @ [m])))
    \<and> (wait_queue (waits k w) = Receivers n \<longrightarrow>
      (\<exists>r k'. recv_msg_resume n mx None w k = Some (r, k') \<and> mbox_inv k'
        \<and> (\<forall>m. r = Some (0, Some m) \<longrightarrow> msgs (mboxes k n) = m # msgs (mboxes k' n))))"
  using send_msg_resume_ok [OF assms, of w m] recv_msg_resume_ok [OF assms, of w mx] by blast

theorem mbox_resume_safe_witness:
  "let k = upd_mbox 0 (\<lambda>b. b\<lparr>inuse := inuse b + 1\<rparr>) (demo_mbox [])
   in mbox_inv k \<and> (\<exists>r k'. send_msg_resume 0 (demo_msg 7) None 9 k = Some (r, k') \<and> mbox_inv k')"
proof -
  let ?k = "upd_mbox 0 (\<lambda>b. b\<lparr>inuse := inuse b + 1\<rparr>) (demo_mbox [])"
  note e = enter_inuse [OF demo_mbox_inv demo_mbox_facts(1) [of "[]"]]
  have m: "mapped ?k 0" using get_mbox_Some(1) [OF demo_mbox_facts(1) [of "[]"]] by simp
  have "wait_queue (waits ?k 9) = Senders 0 \<and> wakeup_flags (waits ?k 9) \<noteq> 0"
    using mbox_interruptible(4) by (simp add: demo_mbox_def)
  then show ?thesis
    unfolding Let_def using mbox_resume_safe [OF e(1) m e(2), of 9 "demo_msg 7"] e(1) by blast
qed

text \<open>Freeing a mailbox makes every process that waits in it runnable, drops its messages and makes its id
  invalid; the mailbox returns to the free list at once if nobody is using it, and otherwise when the
  last user leaves.  An id that names no open mailbox is refused.  No assertion fails and all invariants
  are kept.\<close>

theorem mbox_free_correct:
  assumes "mbox_inv k"
  shows "case get_mbox i k of
      None \<Rightarrow> ipc_mbox_free i k = Some (- E_INVAL, k)
    | Some n \<Rightarrow> \<exists>k'. ipc_mbox_free i k = Some (0, k') \<and> mbox_inv k' \<and> get_mbox i k' = None
        \<and> msgs (mboxes k' n) = [] \<and> wqs k' (Senders n) = [] \<and> wqs k' (Receivers n) = []
        \<and> mstate (mboxes k' n) = (if inuse (mboxes k n) = 0 then CLOSED else CLOSING)
        \<and> (\<forall>p. waits_in p (Senders n) k \<or> waits_in p (Receivers n) k \<longrightarrow> state (procs k' p) = PROC_RUNNABLE)
        \<and> (\<forall>r. r \<noteq> n \<longrightarrow> mboxes k' r = mboxes k r)"
proof (cases "get_mbox i k")
  case None
  then show ?thesis by (simp add: ipc_mbox_free_def)
next
  case (Some n)
  show ?thesis unfolding Some option.case by (rule ipc_mbox_free_ok [OF assms Some]) blast
qed

theorem mbox_free_correct_witness:
  "\<exists>k'. ipc_mbox_free 0 (demo_mbox [demo_msg 1]) = Some (0, k') \<and> get_mbox 0 k' = None \<and> mstate (mboxes k' 0) = CLOSED"
  using mbox_free_correct [OF demo_mbox_inv, of 0 "[demo_msg 1]"] by (auto simp: demo_mbox_facts)

text \<open>A message is delivered unchanged: whatever its length, when \<open>load_msg\<close> succeeds in cutting the data into
  a first piece and segments, \<open>store_msg\<close> writes exactly these bytes; it finds every segment it needs.\<close>

theorem message_roundtrip:
  assumes "load_msg ms src k = (Some m, k')"
  shows "store_msg m = Some src \<and> mbytes m = length src \<and> k' = k"
proof -
  obtain a ms' ss where m: "load_segs (drop MAX_MSG_DATALEN src) ms' = (True, ss)" "k' = k"
    "m = \<lparr>maddr = a, mpid = proc_pid k (current k), mbytes = length src, mdata = take MAX_MSG_DATALEN src, msegs = ss\<rparr>"
    using assms by (auto simp: load_msg_def Let_def split: list.splits option.splits prod.splits if_splits)
  have len: "length src - min (length src) MAX_MSG_DATALEN = length (drop MAX_MSG_DATALEN src)" by simp
  show ?thesis
    using store_load_segs [OF m(1)] m(2,3) len by (simp add: store_msg_def Let_def min_def)
qed

theorem message_roundtrip_witness:
  "\<exists>m. load_msg [Some 64, Some 128] (replicate 500 7) (demo_mbox []) = (Some m, demo_mbox [])
     \<and> length (msegs m) = 1 \<and> store_msg m = Some (replicate 500 7)"
proof -
  have "load_segs (replicate 8 (7::u8)) [Some 128] = (True, [(128, replicate 8 7)])"
    by (simp add: MAX_MSG_DATALEN_def numeral_eq_Suc)
  then obtain m where m: "load_msg [Some 64, Some 128] (replicate 500 7) (demo_mbox []) = (Some m, demo_mbox [])" "length (msegs m) = 1"
    by (simp add: load_msg_def MAX_MSG_DATALEN_def Let_def del: load_segs.simps)
  then show ?thesis using message_roundtrip [OF m(1)] by blast
qed

text \<open>The pages of mailboxes hold more mailboxes than there are valid ids: when the free list reaches one of
  the last mailboxes, \<open>ipc_mbox_init\<close> opens it and returns its number, and every call refuses that number.\<close>

theorem mbox_init_returns_invalid_id:
  assumes "free_mbox_list k = n # ns" and "MAX_MBOX_NUM \<le> n" and "mid (mboxes k n) = int n"
    and "valid (sems k (sem_mbox_map k))" and "wqs k (sem_wq (sem_mbox_map k)) = []"
  shows "MAX_MBOX_NUM < MAX_MBOX_PAGES * MBOX_P_PAGE
    \<and> (\<exists>k'. ipc_mbox_init_locked alloc slots_wanted k = Some (int n, k') \<and> mstate (mboxes k' n) = OPENED
        \<and> get_mbox (int n) k' = None \<and> ipc_mbox_free (int n) k' = Some (- E_INVAL, k'))"
proof -
  have P: "MAX_MBOX_NUM < MAX_MBOX_PAGES * MBOX_P_PAGE"
    by (simp add: MAX_MBOX_NUM_def MAX_MBOX_PAGES_def MBOX_P_PAGE_def)
  let ?k1 = "upd_mbox n (\<lambda>m. m\<lparr>mstate := OPENED, max_slots := slots_wanted, msgs := []\<rparr>) (k\<lparr>free_mbox_list := ns\<rparr>)"
  let ?k2 = "upd_sem (sem_mbox_map k) (\<lambda>r. r\<lparr>value := value r + 1\<rparr>) ?k1"
  have f: "sem_mbox_map ?k1 = sem_mbox_map k" "sems ?k1 = sems k" "wqs ?k1 = wqs k" "mid (mboxes ?k1 n) = int n"
    using assms(3) by (simp_all add: upd_mbox_def)
  have "new_mbox alloc slots_wanted k = Some (Some n, ?k1)" using assms(1) by (simp add: new_mbox_def Let_def)
  then have "ipc_mbox_init_locked alloc slots_wanted k = Some (int n, ?k2)"
    using assms(4,5) f by (simp add: ipc_mbox_init_locked_def up_def sem_up_def wait_queue_first_def)
  moreover have none: "get_mbox (int n) ?k2 = None" using assms(2) by (simp add: get_mbox_def)
  moreover have "mstate (mboxes ?k2 n) = OPENED" by (simp add: upd_sem_def upd_mbox_def)
  moreover have "ipc_mbox_free (int n) ?k2 = Some (- E_INVAL, ?k2)" using none by (simp add: ipc_mbox_free_def)
  ultimately show ?thesis using P by blast
qed

theorem mbox_init_returns_invalid_id_witness:
  "\<exists>k'. ipc_mbox_init_locked (Pair True) 4 ((demo_mbox [])\<lparr>free_mbox_list := [8192]\<rparr>) = Some (8192, k') \<and> get_mbox 8192 k' = None"
proof -
  let ?k = "(demo_mbox [])\<lparr>free_mbox_list := [8192]\<rparr>"
  have "free_mbox_list ?k = 8192 # []" "MAX_MBOX_NUM \<le> 8192" "mid (mboxes ?k 8192) = int 8192"
    "valid (sems ?k (sem_mbox_map ?k))" "wqs ?k (sem_wq (sem_mbox_map ?k)) = []"
    by (simp_all add: demo_mbox_def MAX_MBOX_NUM_def)
  from mbox_init_returns_invalid_id [OF this, of "Pair True" 4] show ?thesis by auto
qed

text \<open>A tick leaves the mailboxes alone.\<close>

lemma mbox_inv_frame:
  assumes inv: "mbox_inv k" and k': "kernel_inv k'" "channel_inv k'" "kernel.more k' = kernel.more k"
  shows "mbox_inv k'" "get_mbox i k' = get_mbox i k"
proof -
  note m = more_waits(2) [OF k'(3)] more_mbox [OF more_waits(3) [OF k'(3)]]
  have "mb_ok k' n = mb_ok k n" "mapped k' n = mapped k n" for n unfolding mb_ok_def mapped_def m by (rule refl)+
  then show "mbox_inv k'" using inv k'(1,2) by (simp add: mbox_inv_def m)
  show "get_mbox i k' = get_mbox i k" by (simp add: get_mbox_def m)
qed

text \<open>A sender that was woken as a sender finds the mailbox full again, and its timer has run out.\<close>

lemma send_msg_resume_timer:
  assumes "mstate (mboxes k n) = OPENED" "max_slots (mboxes k n) \<le> slots (mboxes k n)" "wakeup_flags (waits k w) = WT_MBOX_SEND"
    and t: "expires (timers k t) = 0" "t \<notin> set (timer_list k)"
  shows "send_msg_resume n m (Some t) w k = None"
proof -
  have d: "ipc_del_timer (Some t) k = k" using t(2) by (simp add: ipc_del_timer_def del_timer_def)
  have f: "timers k1 = timers k \<and> mboxes k1 = mboxes k \<and> waits k1 = waits k" if "ipc_unblock (Senders n) w (Some t) k = Some k1" for k1
    using that unfolding ipc_unblock_def d by (auto simp: wait_current_del_def wait_queue_del_def kassert_def upd_wq_def split: if_splits)
  have b: "ipc_block (Senders n) w WT_MBOX_SEND (Some t) k1 = None" if "timers k1 = timers k" for k1 :: "'a mbox_kernel_scheme"
  proof -
    have "timers k2 = timers k1" if "wait_current_set (Senders n) w WT_MBOX_SEND k1 = Some k2" for k2
      using that by (auto simp: wait_current_set_def wait_queue_add_def wait_init_def kassert_def Let_def upd_wq_def upd_wait_def upd_proc_def split: if_splits)
    then show ?thesis using t(1) that by (auto simp: ipc_block_def ipc_add_timer_def add_timer_def kassert_def bind_eq_None_conv)
  qed
  show ?thesis
  proof (cases "ipc_unblock (Senders n) w (Some t) k")
    case (Some k1)
    then show ?thesis using f [OF Some] b [of k1] assms(1-3) by (simp add: send_msg_resume_def send_msg_loop_def kassert_def)
  qed (simp add: send_msg_resume_def)
qed

text \<open>C40: A mailbox call with a timeout is not safe.  Let the first waiting sender of a full mailbox have a timeout that ends with the next tick.  After the tick it
  can run, but before it does, the running process can receive a message, which wakes the record of the sender once more, as a sender, and the slot can be
  filled again.  Whenever the sender runs after that and before the mailbox changes again, it goes round its loop and adds its timer a second time, although
  nothing is left on its count: the assertion in \<open>add_timer\<close> fails and the kernel panics.\<close>

theorem mbox_send_timer_reuse_panics:
  assumes inv: "mbox_inv k" and i: "get_mbox i k = Some n" and full: "max_slots (mboxes k n) = slots (mboxes k n)" and ms: "msgs (mboxes k n) = m # ms" "mbytes m \<le> mx"
    and w: "wqs k (Senders n) = w # ws" "wproc (waits k w) = Some p" and p: "state (procs k p) = PROC_SLEEPING"
    and t: "(t, 1) \<in> set (due k)" "tproc (timers k t) = Some p"
  shows "\<exists>k1 k2 k3. run_timer_list k = Some k1 \<and> state (procs k1 p) = PROC_RUNNABLE \<and> recv_msg_enter n mx None v k1 = Some (Some (0, Some m), k2) \<and>
    send_msg_enter n m' None v' k2 = Some (Some 0, k3) \<and> mbox_inv k3 \<and> t \<notin> set (timer_list k3) \<and>
    (\<forall>k4. kernel.more k4 = kernel.more k3 \<and> timers k4 t = timers k3 t \<and> t \<notin> set (timer_list k4) \<longrightarrow> send_msg_resume n m0 (Some t) w k4 = None)"
proof -
  note g = get_mbox_Some [OF i] and I = mbox_invD [OF inv]
  obtain k1 where k1: "run_timer_list k = Some k1" "kernel_inv k1" "kernel.more k1 = kernel.more k" "state (procs k1 p) = PROC_RUNNABLE" "expires (timers k1 t) = 0"
    "t \<notin> set (timer_list k1)" by (rule tick_fires [OF I(1) t p]) blast
  have "channel_inv k1" by (rule exec_event_channel(1) [OF I(1,2), of Ev_Tick]) (use k1(1) in simp_all)
  note f1 = mbox_inv_frame [OF inv k1(2) this k1(3)] and m1 = more_waits(1,2) [OF k1(3)] more_mbox(1) [OF more_waits(3) [OF k1(3)]]
  have i1: "get_mbox i k1 = Some n" using f1(2) i by simp
  let ?k1 = "upd_mbox n (\<lambda>b. b\<lparr>inuse := inuse b + 1\<rparr>) k1"
  note e1 = enter_inuse [OF f1(1) i1]
  have o1: "mapped ?k1 n" "mstate (mboxes ?k1 n) = OPENED" "msgs (mboxes ?k1 n) = m # ms" using get_mbox_Some [OF i1] ms(1) by (simp_all add: m1)
  have sl: "slots (mboxes k n) = Suc (length ms)" using I(4) [OF g(1)] g(2) ms(1) by (simp add: mb_ok_def)
  obtain k2 where k2: "recv_msg_enter n mx None v k1 = Some (Some (0, Some m), k2)" "mbox_inv k2"
    "mboxes k2 = (mboxes ?k1)(n := (mboxes ?k1 n)\<lparr>slots := slots (mboxes ?k1 n) - 1, msgs := ms, inuse := inuse (mboxes ?k1 n) - 1\<rparr>)"
    "wqs k2 = (wqs ?k1)(Senders n := tl (wqs ?k1 (Senders n)))" "timers k2 = timers ?k1" "timer_list k2 = timer_list ?k1"
    "mbox_map k2 = mbox_map ?k1" "\<And>v vs. wqs ?k1 (Senders n) = v # vs \<Longrightarrow> waits k2 v = (waits ?k1 v)\<lparr>wakeup_flags := WT_MBOX_SEND\<rparr>"
    by (rule recv_msg_loop_pick [OF e1(1) o1(1,2) e1(2) o1(3) ms(2), of None v]) (auto simp: recv_msg_enter_def)
  have w2: "wakeup_flags (waits k2 w) = WT_MBOX_SEND" "wait_queue (waits k2 w) = Senders n"
    using k2(8) [of w ws] w(1) wait_invD(2) [OF I(6), of w "Senders n"] by (simp_all add: m1)
  let ?k2 = "upd_mbox n (\<lambda>b. b\<lparr>inuse := inuse b + 1\<rparr>) k2"
  have i2: "get_mbox i k2 = Some n" using i1 k2(3,7) unfolding get_mbox_def Let_def by (auto split: if_splits)
  note e2 = enter_inuse [OF k2(2) i2] and o2 = get_mbox_Some(1,2) [OF i2]
  have room: "slots (mboxes ?k2 n) < max_slots (mboxes ?k2 n)" using k2(3) full sl by (simp add: m1)
  obtain k3 where k3: "send_msg_enter n m' None v' k2 = Some (Some 0, k3)" "mbox_inv k3"
    "mboxes k3 = (mboxes ?k2)(n := (mboxes ?k2 n)\<lparr>slots := slots (mboxes ?k2 n) + 1, msgs := msgs (mboxes ?k2 n) @ [m'], inuse := inuse (mboxes ?k2 n) - 1\<rparr>)"
    "timers k3 = timers ?k2" "timer_list k3 = timer_list ?k2" "\<And>x. x \<notin> set (wqs ?k2 (Receivers n)) \<Longrightarrow> waits k3 x = waits ?k2 x"
    by (rule send_msg_loop_room [OF e2(1) _ _ e2(2) room, of m' None v']) (use o2 in \<open>auto simp: send_msg_enter_def\<close>)
  have "w \<notin> set (wqs ?k2 (Receivers n))" using wait_invD(2) [OF mbox_invD(6) [OF k2(2)], of w "Receivers n"] w2(2) by auto
  then have w3: "wakeup_flags (waits k3 w) = WT_MBOX_SEND" using k3(6) w2(1) by simp
  have b3: "mstate (mboxes k3 n) = OPENED" "max_slots (mboxes k3 n) \<le> slots (mboxes k3 n)" using k3(3) o2(2) k2(3) full sl by (simp_all add: m1)
  have t3: "expires (timers k3 t) = 0" "t \<notin> set (timer_list k3)" using k1(5,6) k2(5,6) k3(4,5) by simp_all
  have "send_msg_resume n m0 (Some t) w k4 = None" if "kernel.more k4 = kernel.more k3" "timers k4 t = timers k3 t" "t \<notin> set (timer_list k4)" for k4
  proof (rule send_msg_resume_timer)
    note m4 = more_waits(1) [OF that(1)] more_mbox(1) [OF more_waits(3) [OF that(1)]]
    show "mstate (mboxes k4 n) = OPENED" "max_slots (mboxes k4 n) \<le> slots (mboxes k4 n)" "wakeup_flags (waits k4 w) = WT_MBOX_SEND" "expires (timers k4 t) = 0"
      using b3 w3 t3(1) that(2) by (simp_all add: m4)
  qed (rule that(3))
  then show ?thesis using k1(1,4) k2(1) k3(1,2) t3(2) by blast
qed

text \<open>Process 1 sends to a full mailbox with a timeout of one tick, and process 2 runs.\<close>

lemma mbox_enter_full:
  assumes "mbox_inv k" "get_mbox i k = Some n" "\<not> wait_in_queue w k" "may_block WT_MBOX_SEND tm k" "max_slots (mboxes k n) \<le> slots (mboxes k n)"
  shows "\<exists>k'. send_msg_enter n m tm w k = Some (None, k') \<and> mbox_inv k'"
proof -
  let ?k = "upd_mbox n (\<lambda>b. b\<lparr>inuse := inuse b + 1\<rparr>) k"
  note g = get_mbox_Some [OF assms(2)] and e = enter_inuse [OF assms(1,2)]
  have n: "mapped ?k n" "mstate (mboxes ?k n) = OPENED" using g by simp_all
  have w: "\<not> wait_in_queue w ?k" "may_block WT_MBOX_SEND tm ?k" using assms(3,4) by simp_all
  show ?thesis by (rule mbox_loop_block [OF e(1) n w disjI1 [OF refl]]) (use assms(5) n in \<open>auto simp: send_msg_enter_def send_msg_loop_def\<close>)
qed

lemma demo_send_wait:
  obtains k where "send_msg_enter 0 (demo_msg 5) (Some 7) 9 (timer_init 7 (Some 1) 1 (demo_mbox [demo_msg 1])) = Some (None, k)" "mbox_inv k"
proof -
  define k0 where "k0 = timer_init 7 (Some 1) 1 (demo_mbox [demo_msg 1])"
  note d = demo_mbox_inv [of "[demo_msg 1]"] and f = demo_mbox_facts [where ms = "[demo_msg 1]"]
  have k: "kernel_inv k0" unfolding k0_def by (rule timer_init_inv [OF mbox_invD(1) [OF d]]) (simp add: demo_mbox_def)
  have g: "wqs k0 = wqs (demo_mbox [demo_msg 1])" "waits k0 = waits (demo_mbox [demo_msg 1])" "mboxes k0 = mboxes (demo_mbox [demo_msg 1])" "kernel.more k0 = kernel.more (demo_mbox [demo_msg 1])"
    "procs k0 = procs (demo_mbox [demo_msg 1])" "timer_list k0 = []" "current k0 = 1" "timers k0 7 = \<lparr>expires = 1, tproc = Some 1\<rparr>"
    by (simp_all add: k0_def timer_init_def demo_mbox_def)
  have "channel_inv k0" using k mbox_invD(2) [OF d] by (simp add: channel_inv_def kernel_inv_def wait_inv_def waiters_alive_def g)
  note e = mbox_inv_frame [OF d k this g(4)]
  have "get_mbox 0 k0 = Some 0" using e(2) f(1) by simp
  moreover have "\<not> wait_in_queue 9 k0" using f(2) by (simp add: wait_in_queue_def g)
  moreover have "may_block WT_MBOX_SEND (Some 7) k0" using mbox_interruptible(1) by (simp add: may_block_def g)
  moreover have "max_slots (mboxes k0 0) \<le> slots (mboxes k0 0)" using f(5) by (simp add: g)
  ultimately obtain k' where "send_msg_enter 0 (demo_msg 5) (Some 7) 9 k0 = Some (None, k')" "mbox_inv k'"
    using mbox_enter_full [OF e(1), of 0 0 9 "Some 7" "demo_msg 5"] by blast
  then show thesis using that unfolding k0_def by blast
qed

theorem mbox_send_timer_reuse_panics_witness:
  "\<exists>k k1 k2 k3 k4. send_msg_enter 0 (demo_msg 5) (Some 7) 9 (timer_init 7 (Some 1) 1 (demo_mbox [demo_msg 1])) = Some (None, k) \<and> current k = 2 \<and>
     run_timer_list k = Some k1 \<and> recv_msg_enter 0 16 None 10 k1 = Some (Some (0, Some (demo_msg 1)), k2) \<and> send_msg_enter 0 (demo_msg 6) None 10 k2 = Some (Some 0, k3) \<and>
     (do { k \<leftarrow> schedule k3; schedule k }) = Some k4 \<and> current k4 = 1 \<and> send_msg_resume 0 (demo_msg 5) (Some 7) 9 k4 = None"
proof -
  obtain k where k: "send_msg_enter 0 (demo_msg 5) (Some 7) 9 (timer_init 7 (Some 1) 1 (demo_mbox [demo_msg 1])) = Some (None, k)" "mbox_inv k" by (rule demo_send_wait)
  have "map_option (\<lambda>(_, k). (current k, get_mbox 0 k, max_slots (mboxes k 0), slots (mboxes k 0), msgs (mboxes k 0), wqs k (Senders 0), wproc (waits k 9), state (procs k 1),
      due k, tproc (timers k 7))) (send_msg_enter 0 (demo_msg 5) (Some 7) 9 (timer_init 7 (Some 1) 1 (demo_mbox [demo_msg 1]))) =
    Some (2, Some 0, 1, 1, [demo_msg 1], [9], Some 1, PROC_SLEEPING, [(7, 1)], Some 1)" by code_simp
  then have f: "current k = 2" "get_mbox 0 k = Some 0" "max_slots (mboxes k 0) = slots (mboxes k 0)" "msgs (mboxes k 0) = [demo_msg 1]" "wqs k (Senders 0) = [9]"
    "wproc (waits k 9) = Some 1" "state (procs k 1) = PROC_SLEEPING" "(7, 1) \<in> set (due k)" "tproc (timers k 7) = Some 1" using k(1) by simp_all
  have b: "mbytes (demo_msg 1) \<le> 16" by (simp add: demo_msg_def)
  obtain k1 k2 k3 where k3: "run_timer_list k = Some k1" "recv_msg_enter 0 16 None 10 k1 = Some (Some (0, Some (demo_msg 1)), k2)" "send_msg_enter 0 (demo_msg 6) None 10 k2 = Some (Some 0, k3)"
      "mbox_inv k3" "7 \<notin> set (timer_list k3)"
      "\<And>k4. kernel.more k4 = kernel.more k3 \<Longrightarrow> timers k4 7 = timers k3 7 \<Longrightarrow> 7 \<notin> set (timer_list k4) \<Longrightarrow> send_msg_resume 0 (demo_msg 5) (Some 7) 9 k4 = None"
    using mbox_send_timer_reuse_panics [OF k(2) f(2-4) b f(5-9), of 10 "demo_msg 6" 10 "demo_msg 5"] by blast
  have sch: "\<exists>k'. schedule k = Some k' \<and> sched_inv k' \<and> timers k' = timers k \<and> timer_list k' = timer_list k \<and> kernel.more k' = kernel.more k" if "sched_inv k" for k :: mbox_kernel
    by (rule schedule_ok [OF that]) blast
  obtain k' where k': "schedule k3 = Some k'" "sched_inv k'" "timers k' = timers k3" "timer_list k' = timer_list k3" "kernel.more k' = kernel.more k3"
    using sch [of k3] mbox_invD(1) [OF k3(4)] by (auto simp: kernel_inv_def)
  obtain k4 where k4: "schedule k' = Some k4" "timers k4 = timers k'" "timer_list k4 = timer_list k'" "kernel.more k4 = kernel.more k'" using sch [OF k'(2)] by blast
  have "map_option current (do { (_, k) \<leftarrow> send_msg_enter 0 (demo_msg 5) (Some 7) 9 (timer_init 7 (Some 1) 1 (demo_mbox [demo_msg 1])); k1 \<leftarrow> run_timer_list k;
      (_, k2) \<leftarrow> recv_msg_enter 0 16 None 10 k1; (_, k3) \<leftarrow> send_msg_enter 0 (demo_msg 6) None 10 k2; k \<leftarrow> schedule k3; schedule k }) = Some 1" by code_simp
  then have "current k4 = 1" using k(1) k3(1-3) k'(1) k4(1) by simp
  moreover have "send_msg_resume 0 (demo_msg 5) (Some 7) 9 k4 = None" using k3(5,6) k' k4 by simp
  ultimately show ?thesis using k(1) f(1) k3(1-3) k'(1) k4(1) by simp
qed

end
