(* ===== verification/Rb_Tree.thy ===== *)
theory Rb_Tree
  imports Ucore_Prelude
begin

text \<open>
  The red-black trees of \<^verbatim>\<open>kern/libs/rb_tree.c\<close>.

  The nodes are linked by \<^verbatim>\<open>left\<close>, \<^verbatim>\<open>right\<close> and \<^verbatim>\<open>parent\<close>.  The model is the tree these links form: \<open>Nil\<close> is the
  sentinel \<^verbatim>\<open>nil\<close>, and a pointer into a tree is a subtree with the path of frames above it, nearest parent first:
  \<^verbatim>\<open>x->parent\<close> is the first frame, \<open>[]\<close> stands for the sentinel \<^verbatim>\<open>root\<close> (whose \<^verbatim>\<open>left\<close> is the top node).  A node is
  named by the structure that contains it (\<open>'a\<close>), which is also what the comparison function looks at.  The macros
  \<^verbatim>\<open>FUNC_ROTATE\<close>, \<^verbatim>\<open>RB_INSERT_SUB\<close> and \<^verbatim>\<open>RB_DELETE_FIXUP_SUB\<close> that exist in a left and a right form take the side as an
  argument, as in the source.  A failed assertion, or painting the sentinel \<^verbatim>\<open>nil\<close> red, is \<^const>\<open>None\<close>.
\<close>

datatype 'a rb_node = Nil | Node bool "'a rb_node" 'a "'a rb_node"

datatype side = Left | Right

datatype 'a frame = Frame side bool 'a "'a rb_node"

subsection \<open>Links\<close>

fun opp :: "side \<Rightarrow> side" where
  "opp Left = Right"
| "opp Right = Left"

fun red :: "'a rb_node \<Rightarrow> bool" where
  "red Nil = False"
| "red (Node c l a r) = c"

fun set_red :: "bool \<Rightarrow> 'a rb_node \<Rightarrow> 'a rb_node" where
  "set_red c Nil = Nil"
| "set_red c (Node _ l a r) = Node c l a r"

fun node_of :: "'a rb_node \<Rightarrow> 'a option" where
  "node_of Nil = None"
| "node_of (Node c l a r) = Some a"

fun child :: "side \<Rightarrow> 'a rb_node \<Rightarrow> 'a rb_node" where
  "child d Nil = Nil"
| "child Left (Node c l a r) = l"
| "child Right (Node c l a r) = r"

text \<open>A node whose child on side \<open>d\<close> is \<open>x\<close> and whose other child is \<open>s\<close>.\<close>

fun mk :: "side \<Rightarrow> bool \<Rightarrow> 'a \<Rightarrow> 'a rb_node \<Rightarrow> 'a rb_node \<Rightarrow> 'a rb_node" where
  "mk Left c a x s = Node c x a s"
| "mk Right c a x s = Node c s a x"

fun plug :: "'a rb_node \<Rightarrow> 'a frame list \<Rightarrow> 'a rb_node" where
  "plug x [] = x"
| "plug x (Frame d c a s # ps) = plug (mk d c a x s) ps"

subsection \<open>Creation\<close>

definition rb_tree_empty :: "'a rb_node \<Rightarrow> bool" where
  "rb_tree_empty t = (case t of Nil \<Rightarrow> True | _ \<Rightarrow> False)"

text \<open>The arguments are what the three calls of \<^verbatim>\<open>kmalloc\<close> return (tree, nil, root); the second result lists the
  blocks given back.\<close>

fun rb_tree_create :: "'p option \<Rightarrow> 'p option \<Rightarrow> 'p option \<Rightarrow> 'a rb_node option \<times> 'p list" where
  "rb_tree_create None _ _ = (None, [])"
| "rb_tree_create (Some tree) None _ = (None, [tree])"
| "rb_tree_create (Some tree) (Some nil) None = (None, [nil, tree])"
| "rb_tree_create (Some tree) (Some nil) (Some root) = (Some Nil, [])"

subsection \<open>Rotation\<close>

fun rb_rotate :: "side \<Rightarrow> 'a rb_node \<Rightarrow> 'a rb_node option" where
  "rb_rotate d Nil = None"
| "rb_rotate Left (Node cx a x Nil) = None"
| "rb_rotate Left (Node cx a x (Node cy b y e)) = Some (Node cy (Node cx a x b) y e)"
| "rb_rotate Right (Node cx Nil x a) = None"
| "rb_rotate Right (Node cx (Node cy e y b) x a) = Some (Node cy e y (Node cx b x a))"

subsection \<open>Insertion\<close>

text \<open>The walk of \<open>rb_insert_binary\<close> to the empty place for \<open>z\<close>.\<close>

fun rb_insert_walk :: "('a \<Rightarrow> 'a \<Rightarrow> int) \<Rightarrow> 'a \<Rightarrow> 'a rb_node \<Rightarrow> 'a frame list \<Rightarrow> 'a frame list" where
  "rb_insert_walk compare z Nil ps = ps"
| "rb_insert_walk compare z (Node c l a r) ps =
     (if compare a z > 0 then rb_insert_walk compare z l (Frame Left c a r # ps)
      else rb_insert_walk compare z r (Frame Right c a l # ps))"

definition rb_insert_binary :: "('a \<Rightarrow> 'a \<Rightarrow> int) \<Rightarrow> 'a rb_node \<Rightarrow> 'a \<Rightarrow> 'a rb_node \<times> 'a frame list" where
  "rb_insert_binary compare t z = (Node True Nil z Nil, rb_insert_walk compare z t [])"

text \<open>The loop of \<open>rb_insert\<close>.  With one red frame above \<open>x\<close> the parent of the parent is the sentinel \<^verbatim>\<open>root\<close>, on
  which the rotation panics.\<close>

fun rb_insert_fixup :: "'a rb_node \<Rightarrow> 'a frame list \<Rightarrow> ('a rb_node \<times> 'a frame list) option" where
  "rb_insert_fixup x [] = Some (x, [])"
| "rb_insert_fixup x [Frame d c p s] = (if c then None else Some (x, [Frame d c p s]))"
| "rb_insert_fixup x (Frame d c p s # Frame d' c' g y # ps) =
     (if \<not> c then Some (x, Frame d c p s # Frame d' c' g y # ps)
      else if red y then rb_insert_fixup (mk d' True g (mk d False p x s) (set_red False y)) ps
      else do {
        xp \<leftarrow> (if d = opp d' then rb_rotate d' (mk d c p x s) else Some (mk d c p x s));
        t \<leftarrow> rb_rotate (opp d') (mk d' True g (set_red False xp) y);
        (case t of Nil \<Rightarrow> None
         | Node ct _ q _ \<Rightarrow> rb_insert_fixup (child d' t) (Frame d' ct q (child (opp d') t) # ps))
      })"

definition rb_insert :: "('a \<Rightarrow> 'a \<Rightarrow> int) \<Rightarrow> 'a rb_node \<Rightarrow> 'a \<Rightarrow> 'a rb_node option" where
  "rb_insert compare t z = do {
     (x, ps) \<leftarrow> rb_insert_fixup (fst (rb_insert_binary compare t z)) (snd (rb_insert_binary compare t z));
     Some (set_red False (plug x ps))
   }"

subsection \<open>Neighbours\<close>

text \<open>The place of a node in the tree.\<close>

fun focus :: "'a \<Rightarrow> 'a rb_node \<Rightarrow> 'a frame list \<Rightarrow> ('a rb_node \<times> 'a frame list) option" where
  "focus z Nil ps = None"
| "focus z (Node c l a r) ps =
     (if a = z then Some (Node c l a r, ps)
      else case focus z l (Frame Left c a r # ps) of
             Some q \<Rightarrow> Some q
           | None \<Rightarrow> focus z r (Frame Right c a l # ps))"

fun leftmost :: "'a rb_node \<Rightarrow> 'a frame list \<Rightarrow> 'a rb_node \<times> 'a frame list" where
  "leftmost (Node c (Node c' l' a' r') a r) ps = leftmost (Node c' l' a' r') (Frame Left c a r # ps)"
| "leftmost t ps = (t, ps)"

fun rightmost :: "'a rb_node \<Rightarrow> 'a rb_node" where
  "rightmost (Node c l a (Node c' l' a' r')) = rightmost (Node c' l' a' r')"
| "rightmost t = t"

fun climb :: "side \<Rightarrow> 'a frame list \<Rightarrow> 'a option" where
  "climb d [] = None"
| "climb d (Frame d' c a s # ps) = (if d' = d then climb d ps else Some a)"

definition rb_tree_successor :: "'a rb_node \<Rightarrow> 'a frame list \<Rightarrow> 'a option" where
  "rb_tree_successor x ps =
     (case child Right x of Nil \<Rightarrow> climb Right ps | y \<Rightarrow> node_of (fst (leftmost y [])))"

definition rb_tree_predecessor :: "'a rb_node \<Rightarrow> 'a frame list \<Rightarrow> 'a option" where
  "rb_tree_predecessor x ps =
     (case child Left x of Nil \<Rightarrow> climb Left ps | y \<Rightarrow> node_of (rightmost y))"

definition rb_node_prev :: "'a rb_node \<Rightarrow> 'a \<Rightarrow> 'a option" where
  "rb_node_prev t z = (case focus z t [] of None \<Rightarrow> None | Some (x, ps) \<Rightarrow> rb_tree_predecessor x ps)"

definition rb_node_next :: "'a rb_node \<Rightarrow> 'a \<Rightarrow> 'a option" where
  "rb_node_next t z = (case focus z t [] of None \<Rightarrow> None | Some (x, ps) \<Rightarrow> rb_tree_successor x ps)"

definition rb_node_root :: "'a rb_node \<Rightarrow> 'a option" where
  "rb_node_root t = node_of t"

definition rb_node_left :: "'a rb_node \<Rightarrow> 'a option" where
  "rb_node_left t = node_of (child Left t)"

definition rb_node_right :: "'a rb_node \<Rightarrow> 'a option" where
  "rb_node_right t = node_of (child Right t)"

fun rb_search :: "('a \<Rightarrow> 'k \<Rightarrow> int) \<Rightarrow> 'a rb_node \<Rightarrow> 'k \<Rightarrow> 'a option" where
  "rb_search compare Nil key = None"
| "rb_search compare (Node c l a r) key =
     (if compare a key = 0 then Some a
      else if compare a key > 0 then rb_search compare l key else rb_search compare r key)"

subsection \<open>Deletion\<close>

text \<open>\<open>x->red = 0\<close> for the node named \<open>z\<close>.\<close>

fun blacken :: "'a option \<Rightarrow> 'a rb_node \<Rightarrow> 'a rb_node" where
  "blacken z Nil = Nil"
| "blacken z (Node c l a r) = Node (c \<and> z \<noteq> Some a) (blacken z l) a (blacken z r)"

text \<open>\<open>w->red = 1\<close>, where \<open>w\<close> must not be the sentinel \<^verbatim>\<open>nil\<close>.\<close>

fun paint_red :: "'a rb_node \<Rightarrow> 'a rb_node option" where
  "paint_red Nil = None"
| "paint_red (Node _ l a r) = Some (Node True l a r)"

text \<open>The last branch of \<open>RB_DELETE_FIXUP_SUB\<close>: \<open>p\<close> (coloured \<open>c\<close>) is the parent of \<open>x\<close>, on whose side \<open>d\<close> it hangs, and
  \<open>w\<close> the sibling, one of whose children is red.  The result is the subtree after the rotation at \<open>p\<close>.\<close>

definition rb_delete_rotate :: "side \<Rightarrow> bool \<Rightarrow> 'a \<Rightarrow> 'a rb_node \<Rightarrow> 'a rb_node \<Rightarrow> 'a rb_node option" where
  "rb_delete_rotate d c p x w = do {
     w \<leftarrow> (if \<not> red (child (opp d) w)
           then (case w of Nil \<Rightarrow> None
                 | Node _ _ a _ \<Rightarrow> rb_rotate (opp d) (mk d True a (set_red False (child d w)) (child (opp d) w)))
           else Some w);
     (case w of Nil \<Rightarrow> None
      | Node _ _ a _ \<Rightarrow> rb_rotate d (mk d False p x (mk d c a (child d w) (set_red False (child (opp d) w)))))
   }"

text \<open>The first branch: a red sibling is painted black and rotated over the parent.  The result is the colour of the
  parent, the new sibling and the path above the parent.\<close>

definition rb_delete_red_sibling ::
  "side \<Rightarrow> bool \<Rightarrow> 'a \<Rightarrow> 'a rb_node \<Rightarrow> 'a rb_node \<Rightarrow> 'a frame list \<Rightarrow> (bool \<times> 'a rb_node \<times> 'a frame list) option" where
  "rb_delete_red_sibling d c p x w ps =
     (if red w then do {
        t \<leftarrow> rb_rotate d (mk d True p x (set_red False w));
        (case t of Nil \<Rightarrow> None
         | Node ct _ q _ \<Rightarrow>
             Some (red (child d t), child (opp d) (child d t), Frame d ct q (child (opp d) t) # ps))
      } else Some (c, w, ps))"

text \<open>The loop of \<open>rb_delete_fixup\<close>.  \<open>root\<close> is the top node when the loop started, which the code keeps in a local
  variable; it is no longer the top node when a rotation moved it down.  The last branch sets \<open>x\<close> to this node, which
  ends the loop and paints it black.\<close>

function (sequential) rb_delete_loop :: "'a option \<Rightarrow> 'a rb_node \<Rightarrow> 'a frame list \<Rightarrow> 'a rb_node option" where
  "rb_delete_loop root x [] = (if node_of x = root \<or> red x then Some (set_red False x) else None)"
| "rb_delete_loop root x (Frame d c p w # ps) =
     (if node_of x = root \<or> red x then Some (plug (set_red False x) (Frame d c p w # ps))
      else case rb_delete_red_sibling d c p x w ps of
        None \<Rightarrow> None
      | Some (c, w, ps) \<Rightarrow>
          if \<not> red (child d w) \<and> \<not> red (child (opp d) w)
          then (case paint_red w of None \<Rightarrow> None | Some w \<Rightarrow> rb_delete_loop root (mk d c p x w) ps)
          else do {
            t \<leftarrow> rb_delete_rotate d c p x w;
            Some (blacken root (plug t ps))
          })"
  by pat_completeness auto

lemma red_mk [simp]: "red (mk d c a x s) = c"
  by (cases d) auto

text \<open>After the first branch the parent is red, so that the loop ends if it moves up.\<close>

lemma rb_rotate_mk:
  "rb_rotate d (mk d c p x w) =
     (case w of Nil \<Rightarrow> None
      | Node cw _ q _ \<Rightarrow> Some (mk d cw q (mk d c p x (child d w)) (child (opp d) w)))"
  by (cases d; cases w) auto

lemma child_mk [simp]: "child d (mk d c a x s) = x" "child (opp d) (mk d c a x s) = s"
  by (cases d; simp)+

lemma mk_neq_Nil [simp]: "mk d c a x s \<noteq> Nil"
  by (cases d) auto

lemma mk_case [simp]: "(case mk d c a x s of Nil \<Rightarrow> n | Node c' l b r \<Rightarrow> f c' b) = f c a"
  by (cases d) auto

lemma rb_delete_red_sibling_Node:
  "rb_delete_red_sibling d c p x (Node True l a r) ps =
     Some (True, child d (Node True l a r), Frame d False a (child (opp d) (Node True l a r)) # ps)"
  by (cases d) (simp_all add: rb_delete_red_sibling_def)

lemma rb_delete_red_sibling_black [simp]: "\<not> red w \<Longrightarrow> rb_delete_red_sibling d c p x w ps = Some (c, w, ps)"
  by (simp add: rb_delete_red_sibling_def)

lemma rb_delete_red_sibling_measure:
  assumes "rb_delete_red_sibling d c p x w ps = Some (c', w', ps')"
  shows "c' \<or> length ps' = length ps"
  using assms by (cases d; cases w) (auto simp: rb_delete_red_sibling_def split: if_splits)

termination rb_delete_loop
  by (relation "measure (\<lambda>(root, x, ps). if red x then 0 else Suc (length ps))")
    (auto dest: rb_delete_red_sibling_measure)

text \<open>\<open>rb_delete\<close>: \<open>y\<close> is the node itself when it has at most one child and its successor otherwise; \<open>y\<close> is unlinked, its
  only child \<open>x\<close> takes its place, and then \<open>y\<close> takes the place and the colour of \<open>z\<close>.\<close>

definition rb_delete_fixup :: "'a rb_node \<Rightarrow> 'a frame list \<Rightarrow> 'a rb_node option" where
  "rb_delete_fixup x ps = rb_delete_loop (node_of (plug x ps)) x ps"

definition rb_delete_unlink :: "bool \<Rightarrow> 'a rb_node \<Rightarrow> 'a frame list \<Rightarrow> 'a rb_node option" where
  "rb_delete_unlink need_fixup x ps = (if need_fixup then rb_delete_fixup x ps else Some (plug x ps))"

definition rb_delete :: "'a rb_node \<Rightarrow> 'a \<Rightarrow> 'a rb_node option" where
  "rb_delete t z =
     (case focus z t [] of
        None \<Rightarrow> None
      | Some (zn, zs) \<Rightarrow>
          if child Left zn = Nil \<or> child Right zn = Nil
          then rb_delete_unlink (\<not> red zn) (if child Left zn \<noteq> Nil then child Left zn else child Right zn) zs
          else case leftmost (child Right zn) [] of
                 (Node cy _ y x, ys) \<Rightarrow>
                   rb_delete_unlink (\<not> cy) x (ys @ Frame Right (red zn) y (child Left zn) # zs)
               | _ \<Rightarrow> None)"

text \<open>\<open>check_tree\<close> is the self-test of the source: \<^const>\<open>None\<close> if an assertion fails, otherwise the number of black nodes on
  every path down, \<^verbatim>\<open>nil\<close> included.\<close>

fun check_tree :: "('a \<Rightarrow> 'a \<Rightarrow> int) \<Rightarrow> 'a rb_node \<Rightarrow> nat option" where
  "check_tree compare Nil = Some 1"
| "check_tree compare (Node c l a r) = do {
     kassert (case node_of l of None \<Rightarrow> True | Some b \<Rightarrow> compare a b \<ge> 0);
     kassert (case node_of r of None \<Rightarrow> True | Some b \<Rightarrow> compare a b \<le> 0);
     kassert (c \<longrightarrow> \<not> red l \<and> \<not> red r);
     hb_left \<leftarrow> check_tree compare l;
     hb_right \<leftarrow> check_tree compare r;
     kassert (hb_left = hb_right);
     Some (if c then hb_left else hb_left + 1)
   }"


subsection \<open>Shape\<close>

fun cinorder :: "'a rb_node \<Rightarrow> ('a \<times> bool) list" where
  "cinorder Nil = []"
| "cinorder (Node c l a r) = cinorder l @ (a, c) # cinorder r"

definition inorder :: "'a rb_node \<Rightarrow> 'a list" where
  "inorder t = map fst (cinorder t)"

lemma inorder_simps [simp]:
  "inorder Nil = []"
  "inorder (Node c l a r) = inorder l @ a # inorder r"
  by (simp_all add: inorder_def)

fun bh :: "'a rb_node \<Rightarrow> nat" where
  "bh Nil = 0"
| "bh (Node c l a r) = bh l + (if c then 0 else 1)"

fun rbt :: "'a rb_node \<Rightarrow> bool" where
  "rbt Nil = True"
| "rbt (Node c l a r) \<longleftrightarrow> rbt l \<and> rbt r \<and> bh l = bh r \<and> (c \<longrightarrow> \<not> red l \<and> \<not> red r)"

fun tree_height :: "'a rb_node \<Rightarrow> nat" where
  "tree_height Nil = 0"
| "tree_height (Node c l a r) = Suc (max (tree_height l) (tree_height r))"

fun pre :: "'a frame list \<Rightarrow> 'a list" where
  "pre [] = []"
| "pre (Frame Left c a s # ps) = pre ps"
| "pre (Frame Right c a s # ps) = pre ps @ inorder s @ [a]"

fun post :: "'a frame list \<Rightarrow> 'a list" where
  "post [] = []"
| "post (Frame Left c a s # ps) = a # inorder s @ post ps"
| "post (Frame Right c a s # ps) = post ps"

fun redtop :: "'a frame list \<Rightarrow> bool" where
  "redtop [] = False"
| "redtop (Frame d c a s # ps) = c"

text \<open>A path whose hole takes a tree of black height \<open>h\<close>; a red frame is neither the top of the tree nor below
  another red one.\<close>

fun path_ok :: "nat \<Rightarrow> 'a frame list \<Rightarrow> bool" where
  "path_ok h [] = True"
| "path_ok h (Frame d c a s # ps) \<longleftrightarrow>
     rbt s \<and> bh s = h \<and> (c \<longrightarrow> \<not> red s \<and> ps \<noteq> [] \<and> \<not> redtop ps) \<and> path_ok (h + (if c then 0 else 1)) ps"

lemma inorder_plug: "inorder (plug x ps) = pre ps @ inorder x @ post ps"
proof (induction ps arbitrary: x)
  case (Cons f ps)
  then show ?case
    by (cases f; rename_tac d c a s; case_tac d) auto
qed simp

lemma mk_shape [simp]:
  "bh (mk d c a x s) = bh (child Left (mk d c a x s)) + (if c then 0 else 1)"
  "rbt (mk d c a x s) \<longleftrightarrow> rbt x \<and> rbt s \<and> bh x = bh s \<and> (c \<longrightarrow> \<not> red x \<and> \<not> red s)"
  by (cases d; auto)+

lemma bh_mk_eq: "bh x = bh s \<Longrightarrow> bh (mk d c a x s) = bh s + (if c then 0 else 1)"
  by (cases d) auto

declare mk_shape(1) [simp del]

lemma set_red_simps [simp]:
  "inorder (set_red c t) = inorder t" "\<not> red (set_red False t)"
  "child d (set_red c t) = child d t"
  by (cases t; cases d; simp)+

lemma rbt_set_black [simp]: "rbt t \<Longrightarrow> rbt (set_red False t)"
  by (cases t) auto

lemma bh_set_black: "bh (set_red False t) = bh t + (if red t then 1 else 0)"
  by (cases t) auto

text \<open>A well-formed tree with a black top is the same as a well-formed subtree in a well-formed path.\<close>

lemma rbt_plug_iff:
  "rbt (plug x ps) \<and> \<not> red (plug x ps) \<longleftrightarrow>
     rbt x \<and> path_ok (bh x) ps \<and> (red x \<longrightarrow> ps \<noteq> [] \<and> \<not> redtop ps)"
proof (induction ps arbitrary: x)
  case (Cons f ps)
  obtain d c a s where f: "f = Frame d c a s"
    by (cases f)
  show ?case
    unfolding f plug.simps Cons.IH by (auto simp: bh_mk_eq)
qed auto

lemma rbt_plug: "rbt x \<Longrightarrow> path_ok (bh x) ps \<Longrightarrow> (red x \<longrightarrow> ps \<noteq> [] \<and> \<not> redtop ps) \<Longrightarrow> rbt (plug x ps)"
  using rbt_plug_iff by blast

lemma plug_append: "plug x (ps @ qs) = plug (plug x ps) qs"
proof (induction ps arbitrary: x)
  case (Cons f ps)
  then show ?case by (cases f) simp
qed simp

subsection \<open>Insertion\<close>

lemma inorder_mk: "inorder (mk d c a x s) = (case d of Left \<Rightarrow> inorder x @ a # inorder s | Right \<Rightarrow> inorder s @ a # inorder x)"
  by (cases d) auto

lemma rb_insert_fixup_black [simp]: "rb_insert_fixup x (Frame d False p s # ps) = Some (x, Frame d False p s # ps)"
  by (cases ps; simp; rename_tac f fs; case_tac f; simp)

lemma rb_insert_fixup_correct:
  assumes "rbt x" "red x" "path_ok (bh x) ps"
  shows "\<exists>x' ps'. rb_insert_fixup x ps = Some (x', ps') \<and> rbt (set_red False (plug x' ps')) \<and>
           inorder (plug x' ps') = inorder (plug x ps)"
  using assms
proof (induction x ps rule: rb_insert_fixup.induct)
  case (1 x)
  then show ?case by simp
next
  case (2 x d c p s)
  then show ?case using rbt_plug_iff [of x "[Frame d c p s]"] by (auto simp del: plug.simps)
next
  case (3 x d c p s d' c' g y ps)
  show ?case
  proof (cases "c")
    case False
    then show ?thesis using 3(3-) rbt_plug_iff [of x "Frame d c p s # Frame d' c' g y # ps"] by (simp del: plug.simps)
  next
    case c: True
    have wf: "rbt s" "bh s = bh x" "\<not> red s" "\<not> c'" "rbt y" "bh y = bh x" "path_ok (bh x + 1) ps"
      using 3(5) c by auto
    show ?thesis
    proof (cases "red y")
      case True
      then show ?thesis
        using 3(1) c wf 3(3,4)
        by (auto simp: bh_mk_eq bh_set_black inorder_plug inorder_mk split: side.splits)
    next
      case False
      then show ?thesis
        using c wf 3(3,4)
        by (cases x; cases d; cases d')
          (auto simp: bh_set_black inorder_plug rbt_plug)
    qed
  qed
qed


lemma rb_insert_walk_path:
  assumes "rbt t" "path_ok (bh t) ps" "red t \<longrightarrow> ps \<noteq> [] \<and> \<not> redtop ps"
  shows "path_ok 0 (rb_insert_walk compare z t ps)"
  using assms by (induction t arbitrary: ps) auto

text \<open>The walk separates the nodes that come after \<open>z\<close> from the others, when the former are a suffix of the order.\<close>

lemma rb_insert_walk_split:
  assumes "sorted_wrt (\<lambda>a b. compare a z > 0 \<longrightarrow> compare b z > 0) (inorder t)"
  shows "pre (rb_insert_walk compare z t ps) = pre ps @ filter (\<lambda>a. \<not> compare a z > 0) (inorder t)"
    and "post (rb_insert_walk compare z t ps) = filter (\<lambda>a. compare a z > 0) (inorder t) @ post ps"
proof -
  have "pre (rb_insert_walk compare z t ps) = pre ps @ filter (\<lambda>a. \<not> compare a z > 0) (inorder t) \<and>
        post (rb_insert_walk compare z t ps) = filter (\<lambda>a. compare a z > 0) (inorder t) @ post ps"
    using assms
  proof (induction t arbitrary: ps)
    case (Node c l a r)
    have wf: "sorted_wrt (\<lambda>a b. compare a z > 0 \<longrightarrow> compare b z > 0) (inorder l)"
        "sorted_wrt (\<lambda>a b. compare a z > 0 \<longrightarrow> compare b z > 0) (inorder r)"
        "\<forall>b\<in>set (inorder r). compare a z > 0 \<longrightarrow> compare b z > 0"
        "\<forall>b\<in>set (inorder l). compare b z > 0 \<longrightarrow> compare a z > 0"
      using Node.prems unfolding inorder_simps sorted_wrt_append sorted_wrt.simps list.set set_append by blast+
    show ?case
    proof (cases "compare a z > 0")
      case True
      then have "filter (\<lambda>a. \<not> compare a z > 0) (inorder r) = []" "filter (\<lambda>a. compare a z > 0) (inorder r) = inorder r"
        using wf(3) unfolding filter_empty_conv filter_id_conv by blast+
      then show ?thesis using Node.IH(1) [of "Frame Left c a r # ps"] wf(1) True by simp
    next
      case False
      then have "filter (\<lambda>a. compare a z > 0) (inorder l) = []" "filter (\<lambda>a. \<not> compare a z > 0) (inorder l) = inorder l"
        using wf(4) unfolding filter_empty_conv filter_id_conv by blast+
      then show ?thesis using Node.IH(2) [of "Frame Right c a l # ps"] wf(2) False by simp
    qed
  qed simp
  then show "pre (rb_insert_walk compare z t ps) = pre ps @ filter (\<lambda>a. \<not> compare a z > 0) (inorder t)"
    "post (rb_insert_walk compare z t ps) = filter (\<lambda>a. compare a z > 0) (inorder t) @ post ps"
    by auto
qed

lemma rb_insert_inorder:
  assumes "rbt t" "\<not> red t" and "sorted_wrt (\<lambda>a b. compare a z > 0 \<longrightarrow> compare b z > 0) (inorder t)"
  shows "\<exists>t'. rb_insert compare t z = Some t' \<and> rbt t' \<and> \<not> red t' \<and>
           inorder t' = filter (\<lambda>a. \<not> compare a z > 0) (inorder t) @ z # filter (\<lambda>a. compare a z > 0) (inorder t)"
proof -
  let ?ps = "rb_insert_walk compare z t []"
  have "path_ok 0 ?ps"
    using assms by (intro rb_insert_walk_path) auto
  then obtain x' ps' where f: "rb_insert_fixup (Node True Nil z Nil) ?ps = Some (x', ps')"
      "rbt (set_red False (plug x' ps'))" "inorder (plug x' ps') = inorder (plug (Node True Nil z Nil) ?ps)"
    using rb_insert_fixup_correct [of "Node True Nil z Nil" ?ps] by auto
  then show ?thesis
    using rb_insert_walk_split [of compare z t "[]"] assms(3) by (simp add: rb_insert_def rb_insert_binary_def inorder_plug)
qed

subsection \<open>Places\<close>

lemma focus_plug: "focus z t ps = Some (x, qs) \<Longrightarrow> plug x qs = plug t ps \<and> node_of x = Some z"
  by (induction t arbitrary: ps) (auto split: if_splits option.splits)

lemma focus_exists: "focus z t ps = None \<longleftrightarrow> z \<notin> set (inorder t)"
proof (induction t arbitrary: ps)
  case (Node c l a r)
  then show ?case by (cases "focus z l (Frame Left c a r # ps)") (auto, metis option.distinct(1))
qed simp

lemma focus_member:
  assumes "z \<in> set (inorder t)"
  obtains c l r ps where "focus z t [] = Some (Node c l z r, ps)" "t = plug (Node c l z r) ps"
proof -
  obtain x ps where f: "focus z t [] = Some (x, ps)"
    using assms focus_exists [of z t "[]"] by auto
  moreover have "plug x ps = t" "node_of x = Some z"
    using focus_plug [OF f] by auto
  ultimately show thesis
    using that by (cases x) auto
qed

lemma leftmost_plug:
  assumes "leftmost t ps = (x, qs)" "t \<noteq> Nil"
  obtains c a r ys where "x = Node c Nil a r" "qs = ys @ ps" "plug x ys = t" "pre ys = []"
  using assms
proof (induction t ps arbitrary: thesis rule: leftmost.induct [case_names down empty bottom])
  case (down c c' l' a' r' a r ps)
  obtain cy y xr ys where y: "x = Node cy Nil y xr" "qs = ys @ Frame Left c a r # ps"
      "plug x ys = Node c' l' a' r'" "pre ys = []"
    by (rule down(1)) (use down(3) in auto)
  have "pre (ys @ [Frame Left c a r]) = []" if "pre ys = []" for ys :: "'a frame list"
    using that by (induction ys rule: pre.induct) auto
  then show ?case
    using down(2) [of cy y xr "ys @ [Frame Left c a r]"] y by (simp add: plug_append)
next
  case (bottom c a r ps)
  then show ?case using bottom(1) [of c a r "[]"] by auto
qed auto

lemma leftmost_hd: "t \<noteq> Nil \<Longrightarrow> node_of (fst (leftmost t ps)) = Some (hd (inorder t))"
  by (induction t ps rule: leftmost.induct) (auto simp: hd_append)

lemma rightmost_last: "t \<noteq> Nil \<Longrightarrow> node_of (rightmost t) = Some (last (inorder t))"
  by (induction t rule: rightmost.induct) auto

lemma climb_neighbour:
  "climb Right ps = (case post ps of [] \<Rightarrow> None | a # _ \<Rightarrow> Some a)"
  "climb Left ps = (if pre ps = [] then None else Some (last (pre ps)))"
  by (induction ps rule: pre.induct) auto

lemma inorder_eq_Nil [simp]: "inorder t = [] \<longleftrightarrow> t = Nil"
  by (cases t) auto

text \<open>The neighbours of a node are its neighbours in the order of the tree.\<close>

lemma rb_node_neighbours:
  assumes "inorder t = as @ z # bs" "distinct (inorder t)"
  shows "rb_node_prev t z = (if as = [] then None else Some (last as))"
    and "rb_node_next t z = (case bs of [] \<Rightarrow> None | b # _ \<Rightarrow> Some b)"
proof -
  obtain c l r ps where f: "focus z t [] = Some (Node c l z r, ps)" "t = plug (Node c l z r) ps"
    by (rule focus_member [of z t]) (use assms in auto)
  have "as @ z # bs = (pre ps @ inorder l) @ z # (inorder r @ post ps)"
    using assms(1) f(2) by (simp add: inorder_plug)
  moreover have "z \<notin> set as" "z \<notin> set bs"
    using assms by auto
  moreover have "distinct (pre ps @ inorder l @ z # inorder r @ post ps)"
    using assms(2) unfolding f(2) by (simp add: inorder_plug)
  then have "z \<notin> set (pre ps @ inorder l)" "z \<notin> set (inorder r @ post ps)"
    by auto
  ultimately have eq: "as = pre ps @ inorder l" "bs = inorder r @ post ps"
    using append_Cons_eq_iff [of z as bs "pre ps @ inorder l" "inorder r @ post ps"] by blast+
  show "rb_node_prev t z = (if as = [] then None else Some (last as))"
    unfolding eq using f(1) by (cases l) (auto simp: rb_node_prev_def rb_tree_predecessor_def climb_neighbour rightmost_last)
  show "rb_node_next t z = (case bs of [] \<Rightarrow> None | b # _ \<Rightarrow> Some b)"
    unfolding eq using f(1) leftmost_hd [of r "[]"]
    by (cases r; cases "inorder r") (auto simp: rb_node_next_def rb_tree_successor_def climb_neighbour split: list.splits)
qed


subsection \<open>Deletion\<close>

text \<open>The branch with the final rotation restores the black height that is missing on the side of \<open>x\<close>.\<close>

lemma rb_delete_rotate_correct:
  assumes "rbt x" "rbt w" "\<not> red w" "bh w = bh x + 1" "red (child d w) \<or> red (child (opp d) w)"
  obtains t where "rb_delete_rotate d c p x w = Some t" "rbt t" "red t = c"
    "bh t = bh x + 1 + (if c then 0 else 1)" "inorder t = inorder (mk d c p x w)" "(p, False) \<in> set (cinorder t)"
proof -
  obtain l a r where w: "w = Node False l a r"
    using assms(3,4) by (cases w) auto
  show thesis
  proof (cases d)
    case Left
    show thesis
    proof (cases "red r")
      case True
      then show thesis
        using that assms w Left by (cases r) (auto simp: rb_delete_rotate_def)
    next
      case False
      then show thesis
        using that assms w Left by (cases l) (auto simp: rb_delete_rotate_def)
    qed
  next
    case Right
    show thesis
    proof (cases "red l")
      case True
      then show thesis
        using that assms w Right by (cases l) (auto simp: rb_delete_rotate_def)
    next
      case False
      then show thesis
        using that assms w Right by (cases r) (auto simp: rb_delete_rotate_def)
    qed
  qed
qed

text \<open>The node that was at the top when the loop started is black when the loop paints it black.\<close>

lemma blacken_black: "(\<forall>z. root = Some z \<longrightarrow> (z, True) \<notin> set (cinorder t)) \<Longrightarrow> blacken root t = t"
  by (induction t) auto

lemma blacken_id:
  assumes "root = Some z" "(z, False) \<in> set (cinorder t)" "distinct (inorder t)"
  shows "blacken root t = t"
proof -
  have "(z, True) \<notin> set (cinorder t)"
  proof
    assume "(z, True) \<in> set (cinorder t)"
    from eq_key_imp_eq_value [OF assms(3) [unfolded inorder_def] assms(2) this] show False by simp
  qed
  then show ?thesis
    by (intro blacken_black) (use assms(1) in auto)
qed

fun topnode :: "'a frame list \<Rightarrow> 'a option" where
  "topnode [] = None"
| "topnode [Frame d c a s] = Some a"
| "topnode (f # fs) = topnode fs"

lemma cinorder_plug_mono: "set (cinorder x) \<subseteq> set (cinorder (plug x ps))"
proof (induction ps arbitrary: x)
  case (Cons f ps)
  obtain d c a s where f: "f = Frame d c a s" by (cases f)
  have "set (cinorder x) \<subseteq> set (cinorder (mk d c a x s))" by (cases d) auto
  then show ?case using Cons [of "mk d c a x s"] f by auto
qed simp

lemma topnode_plug: "ps \<noteq> [] \<Longrightarrow> node_of (plug x ps) = topnode ps"
proof (induction ps arbitrary: x rule: topnode.induct)
  case (2 d c a s)
  then show ?case by (cases d) auto
next
  case (3 f f' fs)
  then show ?case by (cases f) auto
qed simp

lemma topnode_black: "ps \<noteq> [] \<Longrightarrow> path_ok h ps \<Longrightarrow> \<exists>z. topnode ps = Some z \<and> (z, False) \<in> set (cinorder (plug x ps))"
proof (induction ps arbitrary: h x rule: topnode.induct)
  case (2 d c a s)
  then show ?case by (cases d) auto
next
  case (3 f f' fs)
  obtain d c a s where f: "f = Frame d c a s" by (cases f)
  then have "path_ok (h + (if c then 0 else 1)) (f' # fs)"
    using 3(3) by simp
  from 3(1) [OF _ this, of "mk d c a x s"] show ?case by (simp add: f)
qed simp

lemma paint_red_simps [simp]:
  "w \<noteq> Nil \<Longrightarrow> paint_red w = Some (set_red True w)"
  by (cases w) auto

lemma topnode_member: "topnode ps = Some z \<Longrightarrow> z \<in> set (pre ps) \<union> set (post ps)"
proof (induction ps rule: topnode.induct)
  case (2 d c a s)
  then show ?case by (cases d) auto
next
  case (3 f f' fs)
  obtain d c a s where f: "f = Frame d c a s" by (cases f)
  have "z \<in> set (pre (f' # fs)) \<union> set (post (f' # fs))"
    using 3 by simp
  then show ?case unfolding f by (cases d) auto
qed simp

lemma node_of_member: "node_of x = Some z \<Longrightarrow> z \<in> set (inorder x)"
  by (cases x) auto

lemma node_not_root:
  assumes "ps \<noteq> []" "distinct (inorder (plug x ps))"
  shows "node_of x \<noteq> node_of (plug x ps)"
proof
  assume eq: "node_of x = node_of (plug x ps)"
  obtain z where z: "topnode ps = Some z"
    using assms(1) by (induction ps rule: topnode.induct) auto
  then have "z \<in> set (inorder x)" "z \<in> set (pre ps) \<union> set (post ps)"
    using eq topnode_plug [OF assms(1), of x] topnode_member [OF z] by (simp_all add: node_of_member)
  then show False
    using assms(2) by (auto simp: inorder_plug)
qed

text \<open>The step with the final rotation: the tree is whole again and the node at the top of the start is black.\<close>

lemma rb_delete_finish:
  assumes w: "rbt x" "rbt w" "\<not> red w" "bh w = bh x + 1" "red (child d w) \<or> red (child (opp d) w)"
    and ps: "path_ok (bh x + 1 + (if c then 0 else 1)) ps" "c \<longrightarrow> ps \<noteq> [] \<and> \<not> redtop ps"
    and root: "root = Some p \<or> (\<exists>qs. qs \<noteq> [] \<and> root = topnode qs \<and> (ps = qs \<or> (\<exists>f. ps = f # qs)))"
    and dist: "distinct (inorder (plug (mk d c p x w) ps))"
  shows "\<exists>t. (rb_delete_rotate d c p x w \<bind> (\<lambda>t. Some (blacken root (plug t ps)))) = Some t \<and> rbt t \<and> \<not> red t \<and>
           inorder t = inorder (plug (mk d c p x w) ps)"
proof -
  obtain t where t: "rb_delete_rotate d c p x w = Some t" "rbt t" "red t = c"
      "bh t = bh x + 1 + (if c then 0 else 1)" "inorder t = inorder (mk d c p x w)" "(p, False) \<in> set (cinorder t)"
    by (rule rb_delete_rotate_correct [OF w])
  have in_eq: "inorder (plug t ps) = inorder (plug (mk d c p x w) ps)"
    using t(5) by (simp add: inorder_plug)
  have "\<exists>z. root = Some z \<and> (z, False) \<in> set (cinorder (plug t ps))"
    using root
  proof (elim disjE exE conjE)
    assume "root = Some p"
    then show ?thesis using t(6) cinorder_plug_mono [of t ps] by auto
  next
    fix qs assume qs: "qs \<noteq> []" "root = topnode qs" "ps = qs"
    then show ?thesis using topnode_black ps(1) by blast
  next
    fix qs f assume qs: "qs \<noteq> []" "root = topnode qs" "ps = f # qs"
    then have "root = topnode ps" by (cases f; cases qs) auto
    then show ?thesis using topnode_black [of ps] ps(1) qs(3) by auto
  qed
  then have "blacken root (plug t ps) = plug t ps"
    using blacken_id [of root _ "plug t ps"] dist in_eq by auto
  moreover have "rbt (plug t ps)" "\<not> red (plug t ps)"
    using rbt_plug_iff [of t ps] t ps by auto
  ultimately show ?thesis
    using t(1) in_eq by simp
qed

text \<open>The loop: \<open>x\<close> lacks one black node compared with its sibling.\<close>

lemma rb_delete_loop_correct:
  assumes "rbt (set_red False x)" "path_ok (Suc (bh x)) ps" "distinct (inorder (plug x ps))" "root = node_of (plug x ps)"
  shows "\<exists>t. rb_delete_loop root x ps = Some t \<and> rbt t \<and> \<not> red t \<and> inorder t = inorder (plug x ps)"
  using assms
proof (induction "length ps" arbitrary: x ps)
  case 0
  then show ?case by simp
next
  case (Suc n)
  obtain d c p w qs where ps: "ps = Frame d c p w # qs"
    using Suc(2) by (metis frame.exhaust length_Suc_conv)
  have wf: "rbt w" "bh w = Suc (bh x)" "c \<longrightarrow> \<not> red w \<and> qs \<noteq> [] \<and> \<not> redtop qs"
      "path_ok (Suc (bh x) + (if c then 0 else 1)) qs"
    using Suc(4) ps by auto
  show ?case
  proof (cases "red x")
    case True
    then show ?thesis
      using rbt_plug_iff [of "set_red False x" ps] Suc(3,4) ps
      by (auto simp: bh_set_black inorder_plug simp del: plug.simps split: if_splits)
  next
    case black: False
    have x: "rbt x" "node_of x \<noteq> root"
      using Suc(3,5,6) black node_not_root [of ps x] ps by (cases x; auto)+
    have root: "qs = [] \<Longrightarrow> root = Some p" "qs \<noteq> [] \<Longrightarrow> root = topnode qs"
      using Suc(6) ps topnode_plug [of qs "mk d c p x w"] by (cases d; auto)+
    have dist: "distinct (inorder (plug (mk d c p x w) qs))"
      using Suc(5) ps by simp
    show ?thesis
    proof (cases "red w")
      case True
      then obtain l a r where w: "w = Node True l a r"
        by (cases w) auto
      define w' where "w' = child d w"
      define fs where "fs = Frame d False a (child (opp d) w) # qs"
      have w': "rbt w'" "\<not> red w'" "bh w' = bh x + 1" "w' \<noteq> Nil" "\<not> c"
        using wf(1-3) True unfolding w'_def w by (cases d; auto)+
      have fs: "path_ok (bh x + 1) fs" "fs \<noteq> []" "\<not> redtop fs"
        using wf w'(5) unfolding fs_def w by (cases d; auto)+
      have step: "rb_delete_red_sibling d c p x w qs = Some (True, w', fs)"
        unfolding w'_def fs_def w by (rule rb_delete_red_sibling_Node)
      have same: "inorder (plug (mk d True p x w') fs) = inorder (plug x ps)"
        unfolding w'_def fs_def w ps by (cases d) (simp_all add: inorder_plug)
      show ?thesis
      proof (cases "red (child d w') \<or> red (child (opp d) w')")
        case True
        have "root = Some p \<or> (\<exists>qs. qs \<noteq> [] \<and> root = topnode qs \<and> (fs = qs \<or> (\<exists>f. fs = f # qs)))"
          using root by (cases "qs = []") (auto simp: fs_def)
        from rb_delete_finish [where c = True, OF x(1) w'(1-3) True _ _ this, of] fs same Suc(5)
        show ?thesis using True black x(2) step ps by auto
      next
        case False
        have "rbt (plug (mk d False p x (set_red True w')) fs) \<and> \<not> red (plug (mk d False p x (set_red True w')) fs)"
          unfolding rbt_plug_iff using x(1) w' fs False by (cases w'; cases d) auto
        moreover have "inorder (plug (mk d False p x (set_red True w')) fs) = inorder (plug x ps)"
          unfolding same [symmetric] by (cases d) (simp_all add: inorder_plug)
        moreover have "rb_delete_loop root (mk d True p x (set_red True w')) fs =
            Some (plug (mk d False p x (set_red True w')) fs)"
          unfolding fs_def by (cases d) simp_all
        ultimately show ?thesis using False black x(2) step ps w'(4) by simp
      qed
    next
      case wb: False
      show ?thesis
      proof (cases "red (child d w) \<or> red (child (opp d) w)")
        case True
        have "root = Some p \<or> (\<exists>ps'. ps' \<noteq> [] \<and> root = topnode ps' \<and> (qs = ps' \<or> (\<exists>f. qs = f # ps')))"
          using root by (cases "qs = []") auto
        from rb_delete_finish [where c = c, OF x(1) wf(1) wb _ True _ _ this dist] wf
        show ?thesis using True wb black x(2) ps by auto
      next
        case False
        let ?x = "mk d c p x (set_red True w)"
        have w: "w \<noteq> Nil" "bh (set_red True w) = bh x" "rbt (set_red True w)"
          using wf(1,2) wb False by (cases w; cases d; auto)+
        have "bh ?x = bh x + (if c then 0 else 1)"
          using w(2) by (simp add: bh_mk_eq)
        moreover have "set_red False ?x = mk d False p x (set_red True w)"
          by (cases d) auto
        moreover have "inorder (plug ?x qs) = inorder (plug x ps)"
          unfolding ps by (cases d) (simp_all add: inorder_plug)
        moreover have "root = node_of (plug ?x qs)"
          using root topnode_plug [of qs ?x] by (cases "qs = []"; cases d) auto
        ultimately have "\<exists>t. rb_delete_loop root ?x qs = Some t \<and> rbt t \<and> \<not> red t \<and> inorder t = inorder (plug x ps)"
          using Suc(1) [of qs ?x] Suc(2,5) ps wf(4) x(1) w by simp
        then show ?thesis using False wb black x(2) ps w(1) by simp
      qed
    qed
  qed
qed


lemma rb_delete_unlink_correct:
  assumes "rbt x" "path_ok (bh x + (if need_fixup then 1 else 0)) ps" "distinct (inorder (plug x ps))"
    and "\<not> need_fixup \<longrightarrow> \<not> red x"
  shows "\<exists>t. rb_delete_unlink need_fixup x ps = Some t \<and> rbt t \<and> \<not> red t \<and> inorder t = inorder (plug x ps)"
proof (cases need_fixup)
  case True
  then show ?thesis
    using assms rb_delete_loop_correct [of x ps "node_of (plug x ps)"]
    by (simp add: rb_delete_unlink_def rb_delete_fixup_def)
next
  case False
  then show ?thesis
    using assms rbt_plug_iff [of x ps] by (simp add: rb_delete_unlink_def)
qed

lemma path_ok_rename: "path_ok h (ys @ Frame d c a s # zs) = path_ok h (ys @ Frame d c b s # zs)"
proof (induction ys arbitrary: h)
  case (Cons f ys)
  have "redtop (ys @ Frame d c a s # zs) = redtop (ys @ Frame d c b s # zs)"
    by (cases ys; simp; rename_tac g gs; case_tac g; simp)
  then show ?case using Cons by (cases f) auto
qed simp

lemma pre_post_append: "pre (xs @ ys) = pre ys @ pre xs" "post (xs @ ys) = post xs @ post ys"
  by (induction xs rule: pre.induct) auto

lemma rb_delete_inorder:
  assumes "rbt t" "\<not> red t" "distinct (inorder t)" "z \<in> set (inorder t)"
  shows "\<exists>t'. rb_delete t z = Some t' \<and> rbt t' \<and> \<not> red t' \<and> inorder t' = remove1 z (inorder t)"
proof -
  obtain c l r zs where f: "focus z t [] = Some (Node c l z r, zs)" and t: "t = plug (Node c l z r) zs"
    using assms(4) by (rule focus_member)
  have wf: "rbt (Node c l z r)" "path_ok (bh (Node c l z r)) zs" "c \<longrightarrow> zs \<noteq> [] \<and> \<not> redtop zs"
    using rbt_plug_iff [of "Node c l z r" zs] assms(1,2) t by auto
  have in_t: "inorder t = pre zs @ inorder l @ z # inorder r @ post zs"
    by (simp add: t inorder_plug)
  then have rem: "remove1 z (inorder t) = pre zs @ inorder l @ inorder r @ post zs"
    using assms(3) by (simp add: remove1_append)
  have dist: "distinct (remove1 z (inorder t))"
    using assms(3) by (rule distinct_remove1)
  show ?thesis
  proof (cases "l = Nil \<or> r = Nil")
    case True
    let ?x = "if l \<noteq> Nil then l else r"
    have in_x: "inorder (plug ?x zs) = remove1 z (inorder t)"
      using True rem by (auto simp: inorder_plug)
    then have "\<exists>t'. rb_delete_unlink (\<not> c) ?x zs = Some t' \<and> rbt t' \<and> \<not> red t' \<and> inorder t' = inorder (plug ?x zs)"
      using wf dist True by (intro rb_delete_unlink_correct) (auto split: if_splits)
    then show ?thesis
      using True in_x by (cases "l = Nil") (simp_all add: rb_delete_def f)
  next
    case False
    obtain yn ys where lm: "leftmost r [] = (yn, ys)"
      by fastforce
    obtain cy y x where y: "yn = Node cy Nil y x" "plug yn ys = r" "pre ys = []"
      by (rule leftmost_plug [OF lm]) (use False in auto)
    let ?ps = "\<lambda>a. ys @ Frame Right c a l # zs"
    have t_y: "t = plug yn (?ps z)"
      by (simp add: plug_append y(2) t)
    then have yn: "rbt yn" "path_ok (bh yn) (?ps y)"
      using rbt_plug_iff [of yn "?ps z"] assms(1,2) path_ok_rename [of "bh yn" ys Right c z l zs y] by simp_all
    have wf_y: "rbt x" "path_ok (bh x + (if \<not> cy then 1 else 0)) (?ps y)" "cy \<longrightarrow> \<not> red x"
      using yn unfolding y(1) by (cases cy; simp)+
    have in_x: "inorder (plug x (?ps y)) = remove1 z (inorder t)"
      using y by (auto simp: rem inorder_plug pre_post_append)
    with wf_y dist have "\<exists>t'. rb_delete_unlink (\<not> cy) x (?ps y) = Some t' \<and> rbt t' \<and> \<not> red t' \<and>
        inorder t' = inorder (plug x (?ps y))"
      by (intro rb_delete_unlink_correct) auto
    then show ?thesis
      using False in_x lm y(1) by (simp add: rb_delete_def f)
  qed
qed

subsection \<open>Balance and the self-test\<close>

lemma bh_length: "rbt t \<Longrightarrow> 2 ^ bh t \<le> Suc (length (inorder t))"
  by (induction t) (auto simp: inorder_def)

lemma height_bh: "rbt t \<Longrightarrow> tree_height t \<le> 2 * bh t + (if red t then 1 else 0)"
proof (induction t)
  case (Node c l a r)
  then show ?case by (cases c; cases "red l"; cases "red r") auto
qed simp

lemma height_bound:
  assumes "rbt t" "\<not> red t"
  shows "2 ^ (tree_height t div 2) \<le> Suc (length (inorder t))"
proof -
  have "tree_height t div 2 \<le> bh t"
    using height_bh [OF assms(1)] assms(2) by simp
  then have "(2::nat) ^ (tree_height t div 2) \<le> 2 ^ bh t"
    by (rule power_increasing) simp
  also have "\<dots> \<le> Suc (length (inorder t))"
    by (rule bh_length [OF assms(1)])
  finally show ?thesis .
qed

text \<open>The invariant of a tree: balanced, and its nodes in the order of their keys.\<close>

definition rb_inv :: "('a \<Rightarrow> 'k::linorder) \<Rightarrow> 'a rb_node \<Rightarrow> bool" where
  "rb_inv key t \<longleftrightarrow> rbt t \<and> \<not> red t \<and> distinct (inorder t) \<and> sorted (map key (inorder t))"

text \<open>A comparison function of the source orders the nodes by a key.\<close>

locale node_compare =
  fixes compare :: "'a \<Rightarrow> 'a \<Rightarrow> int" and key :: "'a \<Rightarrow> 'k::linorder"
  assumes compare_pos: "compare a b > 0 \<longleftrightarrow> key b < key a"
    and compare_neg: "compare a b < 0 \<longleftrightarrow> key a < key b"
begin

lemma suffix_above:
  assumes "sorted (map key xs)"
  shows "sorted_wrt (\<lambda>a b. compare a z > 0 \<longrightarrow> compare b z > 0) xs"
  using assms by (induction xs) (auto simp: compare_pos intro: order.strict_trans2)

lemma node_of_set: "node_of t = Some b \<Longrightarrow> b \<in> set (inorder t)"
  by (cases t) auto

lemma check_tree_ok:
  assumes "rbt t" "sorted (map key (inorder t))"
  shows "check_tree compare t = Some (Suc (bh t))"
  using assms
proof (induction t)
  case (Node c l a r)
  have "compare a b \<ge> 0" if "node_of l = Some b" for b
    using node_of_set [OF that] Node.prems compare_neg [of a b] by (force simp: sorted_append)
  moreover have "compare a b \<le> 0" if "node_of r = Some b" for b
    using node_of_set [OF that] Node.prems compare_pos [of a b] by (force simp: sorted_append)
  ultimately show ?case
    using Node by (auto simp: sorted_append kassert_def split: option.splits)
qed simp

lemma insert_inv:
  assumes "rb_inv key t" "z \<notin> set (inorder t)"
  shows "\<exists>t'. rb_insert compare t z = Some t' \<and> rb_inv key t' \<and>
    inorder t' = filter (\<lambda>a. key a \<le> key z) (inorder t) @ z # filter (\<lambda>a. key z < key a) (inorder t)"
proof -
  have st: "rbt t" "\<not> red t" "distinct (inorder t)" "sorted (map key (inorder t))"
    using assms(1) by (simp_all add: rb_inv_def)
  obtain t' where t': "rb_insert compare t z = Some t'" "rbt t'" "\<not> red t'"
      "inorder t' = filter (\<lambda>a. key a \<le> key z) (inorder t) @ z # filter (\<lambda>a. key z < key a) (inorder t)"
    using rb_insert_inorder [of t compare z] st suffix_above [OF st(4), of z]
    by (auto simp: compare_pos not_less)
  moreover have "distinct (inorder t')"
    using assms(2) st(3) unfolding t'(4) by auto
  moreover have "sorted (map key (inorder t'))"
    using st(4) unfolding t'(4) by (auto simp: sorted_append sorted_wrt_map sorted_wrt_filter)
  ultimately show ?thesis
    by (auto simp: rb_inv_def)
qed

lemma delete_inv:
  assumes "rb_inv key t" "z \<in> set (inorder t)"
  shows "\<exists>t'. rb_delete t z = Some t' \<and> rb_inv key t' \<and> inorder t' = remove1 z (inorder t)"
proof -
  obtain t' where t': "rb_delete t z = Some t'" "rbt t'" "\<not> red t'" "inorder t' = remove1 z (inorder t)"
    using rb_delete_inorder [of t z] assms by (auto simp: rb_inv_def)
  then show ?thesis
    using assms by (auto simp: rb_inv_def sorted_map_remove1)
qed

lemma search_correct:
  assumes "sorted (map key (inorder t))" and cmp: "\<And>a. (cmp a k > 0 \<longleftrightarrow> v < key a) \<and> (cmp a k < 0 \<longleftrightarrow> key a < v)"
  shows "case rb_search cmp t k of None \<Rightarrow> v \<notin> key ` set (inorder t)
         | Some a \<Rightarrow> a \<in> set (inorder t) \<and> key a = v"
  using assms(1)
proof (induction t)
  case (Node c l a r)
  have eq: "cmp a k = 0 \<longleftrightarrow> key a = v"
    using cmp [of a] by (metis linorder_neqE_linordered_idom order_less_irrefl neqE)
  show ?case
    using Node cmp [of a] eq by (auto simp: sorted_append split: option.splits)
qed simp

end

text \<open>The comparison functions of the self-test, on the data of the nodes (which stay within 0 to 1000 there, so that
  the difference does not overflow).\<close>

definition check_compare1 :: "int \<Rightarrow> int \<Rightarrow> int" where
  "check_compare1 a b = a - b"

definition check_compare2 :: "int \<Rightarrow> int \<Rightarrow> int" where
  "check_compare2 a k = a - k"

interpretation check_compare: node_compare check_compare1 "\<lambda>a. a"
  by unfold_locales (auto simp: check_compare1_def)

text \<open>C14: Inserting a new node into a red-black tree never panics.  The node is put behind the nodes with a key that is
  not greater and before the others, the tree is red-black again, the self-test \<open>check_tree\<close> of the source accepts it, and
  its height is at most twice the logarithm of its size.\<close>

theorem rb_insert_correct:
  assumes "node_compare compare key" "rb_inv key t" "z \<notin> set (inorder t)"
  shows "\<exists>t'. rb_insert compare t z = Some t' \<and> rb_inv key t' \<and>
     inorder t' = filter (\<lambda>a. key a \<le> key z) (inorder t) @ z # filter (\<lambda>a. key z < key a) (inorder t) \<and>
     check_tree compare t' = Some (Suc (bh t')) \<and> 2 ^ (tree_height t' div 2) \<le> length (inorder t') + 1"
proof -
  obtain t' where t': "rb_insert compare t z = Some t'" "rb_inv key t'"
    "inorder t' = filter (\<lambda>a. key a \<le> key z) (inorder t) @ z # filter (\<lambda>a. key z < key a) (inorder t)"
    using node_compare.insert_inv [OF assms] by blast
  then show ?thesis
    using node_compare.check_tree_ok [OF assms(1), of t'] height_bound [of t'] by (simp add: rb_inv_def)
qed

definition demo_tree :: "int rb_node" where
  "demo_tree = Node False (Node True Nil 1 Nil) 2 (Node True Nil 3 Nil)"

lemma demo_tree_inv: "rb_inv (\<lambda>a. a) demo_tree"
  by (simp add: rb_inv_def demo_tree_def)

theorem rb_insert_correct_witness:
  "\<exists>t'. rb_insert check_compare1 demo_tree 5 = Some t' \<and> rb_inv (\<lambda>a. a) t' \<and> inorder t' = [1, 2, 3, 5] \<and>
     check_tree check_compare1 t' = Some (Suc (bh t')) \<and> 2 ^ (tree_height t' div 2) \<le> length (inorder t') + 1"
proof -
  have "5 \<notin> set (inorder demo_tree)" by (simp add: demo_tree_def)
  from rb_insert_correct [OF check_compare.node_compare_axioms demo_tree_inv this] show ?thesis
    by (simp add: demo_tree_def)
qed

text \<open>C13: Deleting a node of a red-black tree never panics.  Exactly this node disappears from the order, the tree is
  red-black again, although the loop of \<open>rb_delete_fixup\<close> may end on a node that is no longer the top, the self-test
  accepts it and its height is at most twice the logarithm of its size.\<close>

theorem rb_delete_correct:
  assumes "node_compare compare key" "rb_inv key t" "z \<in> set (inorder t)"
  shows "\<exists>t'. rb_delete t z = Some t' \<and> rb_inv key t' \<and> inorder t' = remove1 z (inorder t) \<and>
     check_tree compare t' = Some (Suc (bh t')) \<and> 2 ^ (tree_height t' div 2) \<le> length (inorder t') + 1"
proof -
  obtain t' where t': "rb_delete t z = Some t'" "rb_inv key t'" "inorder t' = remove1 z (inorder t)"
    using node_compare.delete_inv [OF assms] by blast
  then show ?thesis
    using node_compare.check_tree_ok [OF assms(1), of t'] height_bound [of t'] by (simp add: rb_inv_def)
qed

theorem rb_delete_correct_witness:
  "\<exists>t'. rb_delete demo_tree 2 = Some t' \<and> rb_inv (\<lambda>a. a) t' \<and> inorder t' = [1, 3] \<and>
     check_tree check_compare1 t' = Some (Suc (bh t')) \<and> 2 ^ (tree_height t' div 2) \<le> length (inorder t') + 1"
proof -
  have "2 \<in> set (inorder demo_tree)" by (simp add: demo_tree_def)
  from rb_delete_correct [OF check_compare.node_compare_axioms demo_tree_inv this] show ?thesis
    by (simp add: demo_tree_def)
qed

text \<open>\<open>rb_search\<close> finds a node with the key exactly when there is one.\<close>

lemma rb_search_check:
  assumes "sorted (inorder t)"
  shows "case rb_search check_compare2 t k of None \<Rightarrow> k \<notin> set (inorder t) | Some a \<Rightarrow> a \<in> set (inorder t) \<and> a = k"
  using check_compare.search_correct [of t check_compare2 k k] assms
  by (auto simp: check_compare2_def split: option.splits)

end
