(* ===== verification/Vmm.thy ===== *)
theory Vmm
  imports Rb_Tree
begin

text \<open>
  Virtual memory areas: \<^verbatim>\<open>kern/mm/vmm.c\<close>, \<^verbatim>\<open>kern/mm/vmm.h\<close>.

  The state \<open>vmm\<close> is the store of \<open>vma_struct\<close>s and \<open>mm_struct\<close>s by address (\<^verbatim>\<open>NULL\<close> is \<^const>\<open>None\<close>), the reference counts
  and lengths of the shared memory objects, the results of the next calls of \<^verbatim>\<open>kmalloc\<close> (\<open>mem\<close>; memory is short where it
  says \<^const>\<open>None\<close> or ends), the blocks given to \<^verbatim>\<open>kfree\<close> and the calls that change the page table, last one first.  A
  ring of \<^verbatim>\<open>list_link\<close>s is the list of the vmas in it, \<^const>\<open>None\<close> as a position in it is the list head.  Addresses and sizes
  are 32-bit words.  The semaphore \<^verbatim>\<open>mm_sem\<close> and \<^verbatim>\<open>proc_mm_link\<close> are not part of the model.
\<close>

unbundle bit_operations_syntax

subsection \<open>Constants and rounding\<close>

abbreviation PGSIZE :: u32 where "PGSIZE \<equiv> 4096"
abbreviation USERTOP :: u32 where "USERTOP \<equiv> 0xB0000000"
abbreviation USERBASE :: u32 where "USERBASE \<equiv> 0x00200000"
abbreviation KERNBASE :: u32 where "KERNBASE \<equiv> 0xC0000000"
abbreviation KERNTOP :: u32 where "KERNTOP \<equiv> 0xF8000000"

abbreviation VM_READ :: u32 where "VM_READ \<equiv> 1"
abbreviation VM_WRITE :: u32 where "VM_WRITE \<equiv> 2"
abbreviation VM_EXEC :: u32 where "VM_EXEC \<equiv> 4"
abbreviation VM_STACK :: u32 where "VM_STACK \<equiv> 8"
abbreviation VM_SHARE :: u32 where "VM_SHARE \<equiv> 16"

abbreviation RB_MIN_MAP_COUNT :: int where "RB_MIN_MAP_COUNT \<equiv> 32"

definition ROUNDDOWN :: "u32 \<Rightarrow> u32 \<Rightarrow> u32" where
  "ROUNDDOWN a n = a - a mod n"

definition ROUNDUP :: "u32 \<Rightarrow> u32 \<Rightarrow> u32" where
  "ROUNDUP a n = ROUNDDOWN (a + n - 1) n"

definition USER_ACCESS :: "u32 \<Rightarrow> u32 \<Rightarrow> bool" where
  "USER_ACCESS start end' \<longleftrightarrow> USERBASE \<le> start \<and> start < end' \<and> end' \<le> USERTOP"

definition KERN_ACCESS :: "u32 \<Rightarrow> u32 \<Rightarrow> bool" where
  "KERN_ACCESS start end' \<longleftrightarrow> KERNBASE \<le> start \<and> start < end' \<and> end' \<le> KERNTOP"

subsection \<open>State\<close>

record vma_struct =
  vm_mm :: addr
  vm_start :: u32
  vm_end :: u32
  vm_flags :: u32
  shmem :: "addr option"
  shmem_off :: u32

record mm_struct =
  mmap_list :: "addr list"
  mmap_tree :: "addr rb_node option"
  mmap_cache :: "addr option"
  pgdir :: addr
  map_count :: int
  swap_address :: u32
  mm_count :: int
  locked_by :: int
  brk_start :: u32
  brk :: u32

datatype pt_call = Unmap_range addr u32 u32 | Exit_range addr u32 u32 | Copy_range addr addr u32 u32 bool

record vmm =
  vmas :: "addr \<Rightarrow> vma_struct"
  mms :: "addr \<Rightarrow> mm_struct"
  shmem_ref :: "addr \<Rightarrow> int"
  shmem_len :: "addr \<Rightarrow> u32"
  mem :: "addr option list"
  kfreed :: "addr list"
  shmem_destroyed :: "addr list"
  pt_calls :: "pt_call list"

abbreviation upd_vma :: "addr \<Rightarrow> (vma_struct \<Rightarrow> vma_struct) \<Rightarrow> vmm \<Rightarrow> vmm" where
  "upd_vma a f k \<equiv> k\<lparr>vmas := (vmas k)(a := f (vmas k a))\<rparr>"

abbreviation upd_mm :: "addr \<Rightarrow> (mm_struct \<Rightarrow> mm_struct) \<Rightarrow> vmm \<Rightarrow> vmm" where
  "upd_mm a f k \<equiv> k\<lparr>mms := (mms k)(a := f (mms k a))\<rparr>"

definition kmalloc :: "vmm \<Rightarrow> addr option \<times> vmm" where
  "kmalloc k = (case mem k of [] \<Rightarrow> (None, k) | a # as \<Rightarrow> (a, k\<lparr>mem := as\<rparr>))"

definition kfree_block :: "addr \<Rightarrow> vmm \<Rightarrow> vmm" where
  "kfree_block a k = k\<lparr>kfreed := a # kfreed k\<rparr>"

definition pt_call_log :: "pt_call \<Rightarrow> vmm \<Rightarrow> vmm" where
  "pt_call_log c k = k\<lparr>pt_calls := c # pt_calls k\<rparr>"

subsection \<open>Areas and their owner\<close>

definition mm_create :: "vmm \<Rightarrow> addr option \<times> vmm" where
  "mm_create k = (case kmalloc k of
     (None, k) \<Rightarrow> (None, k)
   | (Some a, k) \<Rightarrow> (Some a, k\<lparr>mms := (mms k)(a :=
       \<lparr>mmap_list = [], mmap_tree = None, mmap_cache = None, pgdir = 0, map_count = 0, swap_address = 0,
        mm_count = 0, locked_by = 0, brk_start = 0, brk = 0\<rparr>)\<rparr>))"

text \<open>The field \<^verbatim>\<open>vm_mm\<close> of a new vma is not initialised; it keeps what was there.\<close>

definition vma_create :: "u32 \<Rightarrow> u32 \<Rightarrow> u32 \<Rightarrow> vmm \<Rightarrow> addr option \<times> vmm" where
  "vma_create start end' flags k = (case kmalloc k of
     (None, k) \<Rightarrow> (None, k)
   | (Some a, k) \<Rightarrow> (Some a, upd_vma a (\<lambda>v. v\<lparr>vm_start := start, vm_end := end', vm_flags := flags,
                                               shmem := None, shmem_off := 0\<rparr>) k))"

text \<open>A reference count is read through the pointer: \<^verbatim>\<open>NULL\<close> faults.\<close>

definition shmem_ref_dec :: "addr option \<Rightarrow> vmm \<Rightarrow> (int \<times> vmm) option" where
  "shmem_ref_dec sh k = do {
     s \<leftarrow> sh;
     Some (shmem_ref k s - 1, k\<lparr>shmem_ref := (shmem_ref k)(s := shmem_ref k s - 1)\<rparr>)
   }"

definition shmem_ref_inc :: "addr option \<Rightarrow> vmm \<Rightarrow> (int \<times> vmm) option" where
  "shmem_ref_inc sh k = do {
     s \<leftarrow> sh;
     Some (shmem_ref k s + 1, k\<lparr>shmem_ref := (shmem_ref k)(s := shmem_ref k s + 1)\<rparr>)
   }"

definition vma_destroy :: "addr \<Rightarrow> vmm \<Rightarrow> vmm option" where
  "vma_destroy a k = do {
     k \<leftarrow> (if vm_flags (vmas k a) AND VM_SHARE \<noteq> 0 then do {
            (n, k) \<leftarrow> shmem_ref_dec (shmem (vmas k a)) k;
            Some (if n = 0 then k\<lparr>shmem_destroyed := the (shmem (vmas k a)) # shmem_destroyed k\<rparr> else k)
          } else Some k);
     Some (kfree_block a k)
   }"

subsection \<open>Lookup\<close>

text \<open>The loop of \<open>find_vma_rb\<close>; \<open>vma\<close> is the best node so far.\<close>

fun find_vma_rb :: "(addr \<Rightarrow> vma_struct) \<Rightarrow> addr rb_node \<Rightarrow> u32 \<Rightarrow> addr option \<Rightarrow> addr option" where
  "find_vma_rb st rb_node.Nil addr vma = vma"
| "find_vma_rb st (rb_node.Node _ l tmp r) addr vma =
     (if vm_end (st tmp) > addr then
        if vm_start (st tmp) \<le> addr then Some tmp else find_vma_rb st l addr (Some tmp)
      else find_vma_rb st r addr vma)"

fun find_vma_list :: "(addr \<Rightarrow> vma_struct) \<Rightarrow> addr list \<Rightarrow> u32 \<Rightarrow> addr option" where
  "find_vma_list st [] addr = None"
| "find_vma_list st (vma # le) addr = (if addr < vm_end (st vma) then Some vma else find_vma_list st le addr)"

fun find_vma :: "addr option \<Rightarrow> u32 \<Rightarrow> vmm \<Rightarrow> addr option \<times> vmm" where
  "find_vma None addr k = (None, k)"
| "find_vma (Some mm) addr k =
     (let m = mms k mm; st = vmas k;
          vma = (case mmap_cache m of
                   Some c \<Rightarrow> if vm_start (st c) \<le> addr \<and> vm_end (st c) > addr then Some c else None
                 | None \<Rightarrow> None);
          vma = (case vma of Some c \<Rightarrow> Some c
                 | None \<Rightarrow> (case mmap_tree m of
                              Some t \<Rightarrow> find_vma_rb st t addr None
                            | None \<Rightarrow> find_vma_list st (mmap_list m) addr))
      in (vma, if vma \<noteq> None then upd_mm mm (\<lambda>m. m\<lparr>mmap_cache := vma\<rparr>) k else k))"

definition find_vma_intersection :: "addr option \<Rightarrow> u32 \<Rightarrow> u32 \<Rightarrow> vmm \<Rightarrow> addr option \<times> vmm" where
  "find_vma_intersection mm start end' k =
     (let (vma, k) = find_vma mm start k in
      (case vma of None \<Rightarrow> None | Some v \<Rightarrow> if end' \<le> vm_start (vmas k v) then None else Some v, k))"

subsection \<open>Insertion and removal\<close>

definition vma_compare :: "(addr \<Rightarrow> vma_struct) \<Rightarrow> addr \<Rightarrow> addr \<Rightarrow> int" where
  "vma_compare st a b =
     (if vm_start (st a) < vm_start (st b) then - 1 else if vm_start (st a) > vm_start (st b) then 1 else 0)"

definition check_vma_overlap :: "(addr \<Rightarrow> vma_struct) \<Rightarrow> addr \<Rightarrow> addr \<Rightarrow> unit option" where
  "check_vma_overlap st prev nxt = do {
     kassert (vm_start (st prev) < vm_end (st prev));
     kassert (vm_end (st prev) \<le> vm_start (st nxt));
     kassert (vm_start (st nxt) < vm_end (st nxt))
   }"

definition insert_vma_rb ::
  "(addr \<Rightarrow> vma_struct) \<Rightarrow> addr rb_node \<Rightarrow> addr \<Rightarrow> (addr rb_node \<times> addr option) option" where
  "insert_vma_rb st t vma = do {
     t \<leftarrow> rb_insert (vma_compare st) t vma;
     Some (t, rb_node_prev t vma)
   }"

text \<open>Positions in a ring: the entry after a position, and insertion behind it.\<close>

fun entry_after :: "'a option \<Rightarrow> 'a list \<Rightarrow> 'a option" where
  "entry_after None xs = (case xs of [] \<Rightarrow> None | x # _ \<Rightarrow> Some x)"
| "entry_after (Some p) [] = None"
| "entry_after (Some p) (x # xs) = (if x = p then entry_after None xs else entry_after (Some p) xs)"

fun insert_after :: "'a option \<Rightarrow> 'a \<Rightarrow> 'a list \<Rightarrow> 'a list" where
  "insert_after None v xs = v # xs"
| "insert_after (Some p) v [] = []"
| "insert_after (Some p) v (x # xs) = (if x = p then x # v # xs else x # insert_after (Some p) v xs)"

fun insert_vma_walk :: "(addr \<Rightarrow> vma_struct) \<Rightarrow> addr \<Rightarrow> addr option \<Rightarrow> addr list \<Rightarrow> addr option" where
  "insert_vma_walk st vma le_prev [] = le_prev"
| "insert_vma_walk st vma le_prev (le # les) =
     (if vm_start (st le) > vm_start (st vma) then le_prev else insert_vma_walk st vma (Some le) les)"

fun build_vma_rb :: "(addr \<Rightarrow> vma_struct) \<Rightarrow> addr list \<Rightarrow> addr rb_node \<Rightarrow> addr rb_node option" where
  "build_vma_rb st [] t = Some t"
| "build_vma_rb st (le # les) t = do {
     (t, _) \<leftarrow> insert_vma_rb st t le;
     build_vma_rb st les t
   }"

text \<open>\<open>rb_tree_create\<close> with the three calls of \<^verbatim>\<open>kmalloc\<close> it makes, each only if the one before succeeded.\<close>

definition vma_tree_create :: "vmm \<Rightarrow> addr rb_node option \<times> vmm" where
  "vma_tree_create k =
     (let (tree, k) = kmalloc k;
          (nil, k) = (if tree = None then (None, k) else kmalloc k);
          (root, k) = (if nil = None then (None, k) else kmalloc k);
          (t, fr) = rb_tree_create tree nil root
      in (t, k\<lparr>kfreed := fr @ kfreed k\<rparr>))"

definition insert_vma_struct :: "addr \<Rightarrow> addr \<Rightarrow> vmm \<Rightarrow> vmm option" where
  "insert_vma_struct mm vma k = do {
     kassert (vm_start (vmas k vma) < vm_end (vmas k vma));
     (le_prev, k) \<leftarrow> (case mmap_tree (mms k mm) of
         Some t \<Rightarrow> do {
           (t, mmap_prev) \<leftarrow> insert_vma_rb (vmas k) t vma;
           Some (mmap_prev, upd_mm mm (\<lambda>m. m\<lparr>mmap_tree := Some t\<rparr>) k)
         }
       | None \<Rightarrow> Some (insert_vma_walk (vmas k) vma None (mmap_list (mms k mm)), k));
     (case le_prev of None \<Rightarrow> Some () | Some p \<Rightarrow> check_vma_overlap (vmas k) p vma);
     (case entry_after le_prev (mmap_list (mms k mm)) of None \<Rightarrow> Some () | Some n \<Rightarrow> check_vma_overlap (vmas k) vma n);
     (let k = upd_vma vma (\<lambda>v. v\<lparr>vm_mm := mm\<rparr>) k;
          k = upd_mm mm (\<lambda>m. m\<lparr>mmap_list := insert_after le_prev vma (mmap_list m), map_count := map_count m + 1\<rparr>) k
      in if mmap_tree (mms k mm) = None \<and> map_count (mms k mm) \<ge> RB_MIN_MAP_COUNT
         then (case vma_tree_create k of
                 (None, k) \<Rightarrow> Some k
               | (Some t, k) \<Rightarrow> do {
                   t \<leftarrow> build_vma_rb (vmas k) (mmap_list (mms k mm)) t;
                   Some (upd_mm mm (\<lambda>m. m\<lparr>mmap_tree := Some t\<rparr>) k)
                 })
         else Some k)
   }"

definition remove_vma_struct :: "addr \<Rightarrow> addr \<Rightarrow> vmm \<Rightarrow> vmm option" where
  "remove_vma_struct mm vma k = do {
     kassert (vm_mm (vmas k vma) = mm);
     k \<leftarrow> (case mmap_tree (mms k mm) of
         Some t \<Rightarrow> do { t \<leftarrow> rb_delete t vma; Some (upd_mm mm (\<lambda>m. m\<lparr>mmap_tree := Some t\<rparr>) k) }
       | None \<Rightarrow> Some k);
     Some (upd_mm mm (\<lambda>m. m\<lparr>mmap_list := remove1 vma (mmap_list m),
                            mmap_cache := (if mmap_cache m = Some vma then None else mmap_cache m),
                            map_count := map_count m - 1\<rparr>) k)
   }"


subsection \<open>Destruction\<close>

fun destroy_vmas :: "addr \<Rightarrow> addr list \<Rightarrow> vmm \<Rightarrow> vmm option" where
  "destroy_vmas mm [] k = Some k"
| "destroy_vmas mm (le # les) k = do {
     k \<leftarrow> vma_destroy le (upd_mm mm (\<lambda>m. m\<lparr>mmap_list := remove1 le (mmap_list m)\<rparr>) k);
     destroy_vmas mm les k
   }"

text \<open>\<open>rb_tree_destroy\<close> gives back the three blocks of the tree, which the model does not name.\<close>

definition mm_destroy :: "addr \<Rightarrow> vmm \<Rightarrow> vmm option" where
  "mm_destroy mm k = do {
     kassert (mm_count (mms k mm) = 0);
     k \<leftarrow> destroy_vmas mm (mmap_list (mms k mm)) k;
     Some (kfree_block mm k)
   }"

subsection \<open>Mapping\<close>

text \<open>The result is the return value and \<open>vma_store\<close>.\<close>

definition mm_map :: "addr option \<Rightarrow> u32 \<Rightarrow> u32 \<Rightarrow> u32 \<Rightarrow> vmm \<Rightarrow> ((int \<times> addr option) \<times> vmm) option" where
  "mm_map mm addr len flags k =
     (let start = ROUNDDOWN addr PGSIZE; end' = ROUNDUP (addr + len) PGSIZE in
      if \<not> USER_ACCESS start end' then Some ((- E_INVAL, None), k)
      else do {
        mm \<leftarrow> mm;
        (let (vma, k) = find_vma (Some mm) start k in
         if (case vma of None \<Rightarrow> False | Some v \<Rightarrow> end' > vm_start (vmas k v)) then Some ((- E_INVAL, None), k)
         else case vma_create start end' (flags AND NOT VM_SHARE) k of
                (None, k) \<Rightarrow> Some ((- E_NO_MEM, None), k)
              | (Some v, k) \<Rightarrow> do {
                  k \<leftarrow> insert_vma_struct mm v k;
                  Some ((0, Some v), k)
                })
      })"

definition mm_map_shmem ::
  "addr option \<Rightarrow> u32 \<Rightarrow> u32 \<Rightarrow> addr option \<Rightarrow> vmm \<Rightarrow> ((int \<times> addr option) \<times> vmm) option" where
  "mm_map_shmem mm addr flags sh k =
     (if addr mod PGSIZE \<noteq> 0 \<or> sh = None then Some ((- E_INVAL, None), k)
      else do {
        (_, k) \<leftarrow> shmem_ref_inc sh k;
        ((ret, vma), k) \<leftarrow> mm_map mm addr (shmem_len k (the sh)) flags k;
        if ret \<noteq> 0 then do { (_, k) \<leftarrow> shmem_ref_dec sh k; Some ((ret, None), k) }
        else do {
          v \<leftarrow> vma;
          Some ((0, vma), upd_vma v (\<lambda>v. v\<lparr>shmem := sh, shmem_off := 0, vm_flags := vm_flags v OR VM_SHARE\<rparr>) k)
        }
      })"

definition vma_resize :: "addr \<Rightarrow> u32 \<Rightarrow> u32 \<Rightarrow> vmm \<Rightarrow> vmm option" where
  "vma_resize vma start end' k = do {
     kassert (start mod PGSIZE = 0 \<and> end' mod PGSIZE = 0);
     kassert (vm_start (vmas k vma) \<le> start \<and> start < end' \<and> end' \<le> vm_end (vmas k vma));
     Some (upd_vma vma (\<lambda>v. v\<lparr>shmem_off := (if vm_flags v AND VM_SHARE \<noteq> 0
                                              then shmem_off v + (start - vm_start v) else shmem_off v),
                              vm_start := start, vm_end := end'\<rparr>) k)
   }"

text \<open>The first loop of \<open>mm_unmap\<close>, along the list from the first vma on: the vmas that begin below \<open>end'\<close> are moved
  to \<open>free_list\<close>, last one first.\<close>

fun unmap_collect :: "addr \<Rightarrow> u32 \<Rightarrow> addr list \<Rightarrow> addr list \<Rightarrow> vmm \<Rightarrow> (addr list \<times> vmm) option" where
  "unmap_collect mm end' [] free_list k = Some (free_list, k)"
| "unmap_collect mm end' (vma # les) free_list k =
     (if vm_start (vmas k vma) < end' then do {
        k \<leftarrow> remove_vma_struct mm vma k;
        unmap_collect mm end' les (vma # free_list) k
      } else Some (free_list, k))"

text \<open>The second loop: what lies outside the range is put back, the rest is freed and unmapped.\<close>

fun unmap_free :: "addr \<Rightarrow> u32 \<Rightarrow> u32 \<Rightarrow> addr list \<Rightarrow> vmm \<Rightarrow> vmm option" where
  "unmap_free mm start end' [] k = Some k"
| "unmap_free mm start end' (vma # les) k = do {
     (let v = vmas k vma in
      if vm_start v < start then do {
        k \<leftarrow> vma_resize vma (vm_start v) start k;
        k \<leftarrow> insert_vma_struct mm vma k;
        unmap_free mm start end' les (pt_call_log (Unmap_range (pgdir (mms k mm)) start (vm_end v)) k)
      }
      else if end' < vm_end v then do {
        k \<leftarrow> vma_resize vma end' (vm_end v) k;
        k \<leftarrow> insert_vma_struct mm vma k;
        unmap_free mm start end' les (pt_call_log (Unmap_range (pgdir (mms k mm)) (vm_start v) end') k)
      }
      else do {
        k \<leftarrow> vma_destroy vma k;
        unmap_free mm start end' les (pt_call_log (Unmap_range (pgdir (mms k mm)) (vm_start v) (vm_end v)) k)
      })
   }"

definition mm_unmap :: "addr option \<Rightarrow> u32 \<Rightarrow> u32 \<Rightarrow> vmm \<Rightarrow> (int \<times> vmm) option" where
  "mm_unmap mm addr len k =
     (let start = ROUNDDOWN addr PGSIZE; end' = ROUNDUP (addr + len) PGSIZE in
      if \<not> USER_ACCESS start end' then Some (- E_INVAL, k)
      else do {
        mm \<leftarrow> mm;
        (let (vma, k) = find_vma (Some mm) start k in
         case vma of
           None \<Rightarrow> Some (0, k)
         | Some v \<Rightarrow>
             if end' \<le> vm_start (vmas k v) then Some (0, k)
             else if vm_start (vmas k v) < start \<and> end' < vm_end (vmas k v) then
               (case vma_create (vm_start (vmas k v)) start (vm_flags (vmas k v)) k of
                  (None, k) \<Rightarrow> Some (- E_NO_MEM, k)
                | (Some nvma, k) \<Rightarrow> do {
                    k \<leftarrow> vma_resize v end' (vm_end (vmas k v)) k;
                    k \<leftarrow> insert_vma_struct mm nvma k;
                    Some (0, pt_call_log (Unmap_range (pgdir (mms k mm)) start end') k)
                  })
             else do {
               (free_list, k) \<leftarrow> unmap_collect mm end' (dropWhile (\<lambda>a. a \<noteq> v) (mmap_list (mms k mm))) [] k;
               k \<leftarrow> unmap_free mm start end' free_list k;
               Some (0, k)
             })
      })"

text \<open>\<open>dup_mmap\<close> walks the list backwards; \<open>copied\<close> says of each vma whether \<open>copy_range\<close> succeeds.\<close>

fun dup_mmap_loop :: "addr \<Rightarrow> addr \<Rightarrow> (addr \<Rightarrow> bool) \<Rightarrow> addr list \<Rightarrow> vmm \<Rightarrow> (int \<times> vmm) option" where
  "dup_mmap_loop to from copied [] k = Some (0, k)"
| "dup_mmap_loop to from copied (vma # les) k =
     (case vma_create (vm_start (vmas k vma)) (vm_end (vmas k vma)) (vm_flags (vmas k vma)) k of
        (None, k) \<Rightarrow> Some (- E_NO_MEM, k)
      | (Some nvma, k) \<Rightarrow> do {
          k \<leftarrow> (if vm_flags (vmas k vma) AND VM_SHARE \<noteq> 0 then do {
                  (_, k) \<leftarrow> shmem_ref_inc (shmem (vmas k vma)) k;
                  Some (upd_vma nvma (\<lambda>v. v\<lparr>shmem := shmem (vmas k vma), shmem_off := shmem_off (vmas k vma)\<rparr>) k)
                } else Some k);
          k \<leftarrow> insert_vma_struct to nvma k;
          (let k = pt_call_log (Copy_range (pgdir (mms k to)) (pgdir (mms k from)) (vm_start (vmas k vma))
                                  (vm_end (vmas k vma)) (vm_flags (vmas k vma) AND VM_SHARE \<noteq> 0)) k in
           if copied vma then dup_mmap_loop to from copied les k else Some (- E_NO_MEM, k))
        })"

definition dup_mmap :: "addr option \<Rightarrow> addr option \<Rightarrow> (addr \<Rightarrow> bool) \<Rightarrow> vmm \<Rightarrow> (int \<times> vmm) option" where
  "dup_mmap to from copied k = do {
     to \<leftarrow> to;
     from \<leftarrow> from;
     dup_mmap_loop to from copied (rev (mmap_list (mms k from))) k
   }"

definition exit_mmap :: "addr option \<Rightarrow> vmm \<Rightarrow> vmm option" where
  "exit_mmap mm k = do {
     mm \<leftarrow> mm;
     kassert (mm_count (mms k mm) = 0);
     (let pd = pgdir (mms k mm); les = mmap_list (mms k mm);
          k = fold (\<lambda>vma k. pt_call_log (Unmap_range pd (vm_start (vmas k vma)) (vm_end (vmas k vma))) k) les k
      in Some (fold (\<lambda>vma k. pt_call_log (Exit_range pd (vm_start (vmas k vma)) (vm_end (vmas k vma))) k) les k))
   }"

subsection \<open>Placement and access checks\<close>

fun unmapped_walk :: "(addr \<Rightarrow> vma_struct) \<Rightarrow> u32 \<Rightarrow> u32 \<Rightarrow> addr list \<Rightarrow> u32" where
  "unmapped_walk st len start [] = (if start \<ge> USERBASE then start else 0)"
| "unmapped_walk st len start (vma # les) =
     (if start \<ge> vm_end (st vma) then start
      else if start + len > vm_start (st vma) then
        if len \<ge> vm_start (st vma) then 0 else unmapped_walk st len (vm_start (st vma) - len) les
      else unmapped_walk st len start les)"

definition get_unmapped_area :: "addr \<Rightarrow> u32 \<Rightarrow> vmm \<Rightarrow> u32" where
  "get_unmapped_area mm len k =
     (if len = 0 \<or> len > USERTOP then 0
      else unmapped_walk (vmas k) len (USERTOP - len) (rev (mmap_list (mms k mm))))"

definition mm_brk :: "addr option \<Rightarrow> u32 \<Rightarrow> u32 \<Rightarrow> vmm \<Rightarrow> (int \<times> vmm) option" where
  "mm_brk mm addr len k =
     (let start = ROUNDDOWN addr PGSIZE; end' = ROUNDUP (addr + len) PGSIZE in
      if \<not> USER_ACCESS start end' then Some (- E_INVAL, k)
      else do {
        (ret, k) \<leftarrow> mm_unmap mm start (end' - start) k;
        if ret \<noteq> 0 then Some (ret, k)
        else let flags = VM_READ OR VM_WRITE; (vma, k) = find_vma mm (start - 1) k in
          if (case vma of None \<Rightarrow> False | Some v \<Rightarrow> vm_end (vmas k v) = start \<and> vm_flags (vmas k v) = flags)
          then Some (0, upd_vma (the vma) (\<lambda>v. v\<lparr>vm_end := end'\<rparr>) k)
          else case vma_create start end' flags k of
                 (None, k) \<Rightarrow> Some (- E_NO_MEM, k)
               | (Some v, k) \<Rightarrow> do { mm \<leftarrow> mm; k \<leftarrow> insert_vma_struct mm v k; Some (0, k) }
      })"

lemma find_vma_rb_end: "find_vma_rb st t addr b = Some v \<Longrightarrow> b = Some v \<or> addr < vm_end (st v)"
  by (induction t arbitrary: b) (auto split: if_splits)

lemma find_vma_list_end: "find_vma_list st xs addr = Some v \<Longrightarrow> addr < vm_end (st v)"
  by (induction xs) (auto split: if_splits)

lemma find_vma_end: "find_vma mm addr k = (Some v, k') \<Longrightarrow> vmas k' = vmas k \<and> addr < vm_end (vmas k v)"
  by (cases mm) (auto simp: Let_def dest: find_vma_list_end find_vma_rb_end split: option.splits if_splits)

text \<open>The loop of \<open>user_mem_check\<close> ends because the vma found ends behind the address looked up.\<close>

function user_mem_loop :: "addr \<Rightarrow> u32 \<Rightarrow> u32 \<Rightarrow> bool \<Rightarrow> vmm \<Rightarrow> bool \<times> vmm" where
  "user_mem_loop mm start end' write k =
     (if start < end' then
        (case find_vma (Some mm) start k of
           (None, k) \<Rightarrow> (False, k)
         | (Some v, k) \<Rightarrow>
             if start < vm_start (vmas k v) then (False, k)
             else if vm_flags (vmas k v) AND (if write then VM_WRITE else VM_READ) = 0 then (False, k)
             else if write \<and> vm_flags (vmas k v) AND VM_STACK \<noteq> 0 \<and> start < vm_start (vmas k v) + PGSIZE then (False, k)
             else user_mem_loop mm (vm_end (vmas k v)) end' write k)
      else (True, k))"
  by pat_completeness auto

termination
proof (relation "measure (\<lambda>(mm, start, end', write, k). unat end' - unat start)", goal_cases)
  case (2 mm s e wr k x k' v)
  then have "vmas k' = vmas k" "s < vm_end (vmas k v)"
    using find_vma_end by metis+
  then show ?case
    using 2(1) by (auto simp: word_less_nat_alt)
qed simp

declare user_mem_loop.simps [simp del]

definition user_mem_check :: "addr option \<Rightarrow> u32 \<Rightarrow> u32 \<Rightarrow> bool \<Rightarrow> vmm \<Rightarrow> bool \<times> vmm" where
  "user_mem_check mm addr len write k = (case mm of
     Some mm \<Rightarrow> if \<not> USER_ACCESS addr (addr + len) then (False, k) else user_mem_loop mm addr (addr + len) write k
   | None \<Rightarrow> (KERN_ACCESS addr (addr + len), k))"


subsection \<open>Invariant\<close>

definition ordered :: "(addr \<Rightarrow> vma_struct) \<Rightarrow> addr list \<Rightarrow> bool" where
  "ordered st xs \<longleftrightarrow> sorted_wrt (\<lambda>a b. vm_end (st a) \<le> vm_start (st b)) xs \<and> (\<forall>a\<in>set xs. vm_start (st a) < vm_end (st a))"

definition vma_ok :: "addr \<Rightarrow> vma_struct \<Rightarrow> bool" where
  "vma_ok mm v \<longleftrightarrow> vm_mm v = mm \<and> vm_start v mod PGSIZE = 0 \<and> vm_end v mod PGSIZE = 0 \<and>
     USERBASE \<le> vm_start v \<and> vm_end v \<le> USERTOP"

definition tree_ok :: "addr rb_node option \<Rightarrow> addr list \<Rightarrow> bool" where
  "tree_ok tr xs \<longleftrightarrow> (case tr of None \<Rightarrow> True | Some t \<Rightarrow> rbt t \<and> \<not> red t \<and> inorder t = xs)"

definition mm_inv :: "(addr \<Rightarrow> vma_struct) \<Rightarrow> addr \<Rightarrow> mm_struct \<Rightarrow> bool" where
  "mm_inv st mm m \<longleftrightarrow> ordered st (mmap_list m) \<and> (\<forall>a\<in>set (mmap_list m). vma_ok mm (st a)) \<and>
     tree_ok (mmap_tree m) (mmap_list m) \<and> (\<forall>c. mmap_cache m = Some c \<longrightarrow> c \<in> set (mmap_list m)) \<and>
     map_count m = int (length (mmap_list m))"

definition mem_ok :: "vmm \<Rightarrow> bool" where
  "mem_ok k \<longleftrightarrow> distinct (filter (\<lambda>x. x \<noteq> None) (mem k)) \<and>
     (\<forall>mm a. Some a \<in> set (mem k) \<longrightarrow> a \<notin> set (mmap_list (mms k mm)))"

definition vmm_inv :: "vmm \<Rightarrow> bool" where
  "vmm_inv k \<longleftrightarrow> (\<forall>mm. mm_inv (vmas k) mm (mms k mm)) \<and> mem_ok k"

interpretation vma_order: node_compare "vma_compare st" "\<lambda>a. vm_start (st a)" for st
  by unfold_locales (auto simp: vma_compare_def)

subsection \<open>Ordered lists of vmas\<close>

lemma ordered_Nil [simp]: "ordered st []"
  by (simp add: ordered_def)

lemma ordered_Cons:
  "ordered st (x # xs) \<longleftrightarrow> vm_start (st x) < vm_end (st x) \<and> (\<forall>b\<in>set xs. vm_end (st x) \<le> vm_start (st b)) \<and> ordered st xs"
  by (auto simp: ordered_def)

lemma ordered_append:
  "ordered st (xs @ ys) \<longleftrightarrow> ordered st xs \<and> ordered st ys \<and> (\<forall>a\<in>set xs. \<forall>b\<in>set ys. vm_end (st a) \<le> vm_start (st b))"
  by (auto simp: ordered_def sorted_wrt_append)

lemma ordered_distinct: "ordered st xs \<Longrightarrow> distinct xs"
  by (induction xs) (force simp: ordered_Cons)+

lemma ordered_sorted: "ordered st xs \<Longrightarrow> sorted (map (\<lambda>a. vm_start (st a)) xs)"
  by (induction xs) (fastforce simp: ordered_Cons)+

lemma ordered_remove1: "ordered st xs \<Longrightarrow> ordered st (remove1 a xs)"
proof (induction xs)
  case (Cons x xs)
  then show ?case using set_remove1_subset [of a xs] by (auto simp: ordered_Cons)
qed simp

lemma ordered_cong:
  assumes "\<And>a. a \<in> set xs \<Longrightarrow> vm_start (st' a) = vm_start (st a) \<and> vm_end (st' a) = vm_end (st a)"
  shows "ordered st' xs = ordered st xs"
  using assms by (induction xs) (auto simp: ordered_Cons)

text \<open>A new area that overlaps none of the list has one place in it.\<close>

lemma ordered_place:
  assumes "ordered st xs" "vm_start (st v) < vm_end (st v)"
    and "\<And>a. a \<in> set xs \<Longrightarrow> vm_end (st a) \<le> vm_start (st v) \<or> vm_end (st v) \<le> vm_start (st a)"
  obtains A B where "xs = A @ B" "\<forall>a\<in>set A. vm_end (st a) \<le> vm_start (st v)"
    "\<forall>b\<in>set B. vm_end (st v) \<le> vm_start (st b)" "ordered st (A @ v # B)"
  using assms
proof (induction xs arbitrary: thesis)
  case Nil
  then show ?case using Nil(1) [of "[]" "[]"] by (simp add: ordered_Cons)
next
  case (Cons x xs)
  show ?case
  proof (cases "vm_end (st x) \<le> vm_start (st v)")
    case True
    obtain A B where "xs = A @ B" "\<forall>a\<in>set A. vm_end (st a) \<le> vm_start (st v)"
        "\<forall>b\<in>set B. vm_end (st v) \<le> vm_start (st b)" "ordered st (A @ v # B)"
      by (rule Cons.IH) (use Cons.prems in \<open>auto simp: ordered_Cons\<close>)
    then show ?thesis
      using Cons.prems(1) [of "x # A" B] Cons.prems(2,3) True by (auto simp: ordered_Cons ordered_append)
  next
    case False
    then have "vm_end (st v) \<le> vm_start (st x)"
      using Cons.prems(4) [of x] by simp
    moreover have "\<forall>b\<in>set xs. vm_start (st x) \<le> vm_start (st b)"
      using Cons.prems(2) by (auto simp: ordered_Cons)
    ultimately have "\<forall>b\<in>set (x # xs). vm_end (st v) \<le> vm_start (st b)"
      using order.trans by auto
    then show ?thesis
      using Cons.prems(1) [of "[]" "x # xs"] Cons.prems(2,3) by (simp add: ordered_Cons)
  qed
qed

definition last_of :: "'a list \<Rightarrow> 'a option" where
  "last_of A = (if A = [] then None else Some (last A))"

lemma insert_vma_walk_place:
  assumes "\<forall>a\<in>set A. vm_start (st a) \<le> vm_start (st v)" "\<forall>b\<in>set B. vm_start (st v) < vm_start (st b)"
  shows "insert_vma_walk st v p (A @ B) = (if A = [] then p else last_of A)"
  using assms
proof (induction A arbitrary: p)
  case Nil
  then show ?case by (cases B) auto
next
  case (Cons a A)
  then show ?case by (cases "A = []") (auto simp: last_of_def)
qed

lemma ring_at_last:
  assumes "distinct (A @ B)"
  shows "entry_after (last_of A) (A @ B) = (case B of [] \<Rightarrow> None | b # _ \<Rightarrow> Some b)"
    and "insert_after (last_of A) v (A @ B) = A @ v # B"
proof -
  have "entry_after (Some a) (A' @ a # B) = (case B of [] \<Rightarrow> None | b # _ \<Rightarrow> Some b)"
    "insert_after (Some a) v (A' @ a # B) = A' @ a # v # B" if "a \<notin> set A'" for a A'
    using that by (induction A') auto
  then show "entry_after (last_of A) (A @ B) = (case B of [] \<Rightarrow> None | b # _ \<Rightarrow> Some b)"
    and "insert_after (last_of A) v (A @ B) = A @ v # B"
    using assms by (cases A rule: rev_cases; simp add: last_of_def)+
qed

subsection \<open>The tree of the areas\<close>

lemma insert_vma_rb_place:
  assumes t: "rbt t" "\<not> red t" "inorder t = A @ B" and o: "ordered st (A @ v # B)"
  shows "\<exists>t'. insert_vma_rb st t v = Some (t', last_of A) \<and> rbt t' \<and> \<not> red t' \<and> inorder t' = A @ v # B"
proof -
  have d: "distinct (A @ v # B)"
    using o by (rule ordered_distinct)
  have s: "ordered st (A @ B)" "vm_start (st v) < vm_end (st v)"
    using o by (auto simp: ordered_append ordered_Cons)
  have A: "vm_start (st a) \<le> vm_start (st v)" if "a \<in> set A" for a
  proof -
    have "vm_start (st a) < vm_end (st a)" "vm_end (st a) \<le> vm_start (st v)"
      using o that by (auto simp: ordered_def sorted_wrt_append)
    then show ?thesis by simp
  qed
  have B: "vm_start (st v) < vm_start (st b)" if "b \<in> set B" for b
    using o that by (force simp: ordered_append ordered_Cons)
  have "rb_inv (\<lambda>a. vm_start (st a)) t"
    using t d ordered_sorted [OF s(1)] by (simp add: rb_inv_def)
  from vma_order.insert_inv [OF this, of v] obtain t' where
    t': "rb_insert (vma_compare st) t v = Some t'" "rb_inv (\<lambda>a. vm_start (st a)) t'"
      "inorder t' = filter (\<lambda>a. vm_start (st a) \<le> vm_start (st v)) (A @ B) @ v # filter (\<lambda>a. vm_start (st v) < vm_start (st a)) (A @ B)"
    using d t(3) by auto
  have "filter (\<lambda>a. vm_start (st a) \<le> vm_start (st v)) (A @ B) = A"
    "filter (\<lambda>a. vm_start (st v) < vm_start (st a)) (A @ B) = B"
    using A B by (force simp: filter_empty_conv filter_id_conv)+
  then have in_t': "inorder t' = A @ v # B"
    using t'(3) by simp
  moreover have "rb_node_prev t' v = last_of A"
    using rb_node_neighbours(1) [OF in_t'] d in_t' by (simp add: last_of_def)
  ultimately show ?thesis
    using t' by (simp add: insert_vma_rb_def rb_inv_def)
qed

lemma build_vma_rb_ok:
  assumes "rbt t" "\<not> red t" "ordered st (inorder t @ xs)"
  shows "\<exists>t'. build_vma_rb st xs t = Some t' \<and> rbt t' \<and> \<not> red t' \<and> inorder t' = inorder t @ xs"
  using assms
proof (induction xs arbitrary: t)
  case (Cons x xs)
  have "ordered st (inorder t @ x # [])"
    using Cons.prems(3) by (auto simp: ordered_append ordered_Cons)
  from insert_vma_rb_place [OF Cons.prems(1,2) _ this] obtain t' where
    t': "insert_vma_rb st t x = Some (t', last_of (inorder t))" "rbt t'" "\<not> red t'" "inorder t' = inorder t @ [x]"
    by auto
  with Cons.IH [of t'] Cons.prems(3) show ?case
    by simp
qed simp


subsection \<open>Lookup\<close>

lemma find_vma_list_append:
  "find_vma_list st (xs @ ys) addr =
     (case find_vma_list st xs addr of Some v \<Rightarrow> Some v | None \<Rightarrow> find_vma_list st ys addr)"
  by (induction xs) auto

lemma find_vma_list_None: "find_vma_list st xs addr = None \<longleftrightarrow> (\<forall>a\<in>set xs. vm_end (st a) \<le> addr)"
  by (induction xs) (auto simp: not_less)

lemma find_vma_list_Some:
  assumes "find_vma_list st xs addr = Some v"
  obtains A B where "xs = A @ v # B" "\<forall>a\<in>set A. vm_end (st a) \<le> addr" "addr < vm_end (st v)"
  using assms
proof (induction xs arbitrary: thesis)
  case (Cons x xs)
  show ?case
  proof (cases "addr < vm_end (st x)")
    case True
    then show ?thesis using Cons.prems(1) [of "[]" xs] Cons.prems(2) by simp
  next
    case False
    obtain A B where "xs = A @ v # B" "\<forall>a\<in>set A. vm_end (st a) \<le> addr" "addr < vm_end (st v)"
      by (rule Cons.IH) (use False Cons.prems(2) in auto)
    then show ?thesis using Cons.prems(1) [of "x # A" B] False by simp
  qed
qed simp

lemma ordered_before_end:
  assumes "ordered st (A @ v # B)" "a \<in> set A" "vm_start (st v) \<le> addr"
  shows "vm_end (st a) \<le> addr"
  using assms by (auto simp: ordered_append intro: order.trans)

lemma find_vma_list_at:
  assumes "ordered st (A @ v # B)" "vm_start (st v) \<le> addr" "addr < vm_end (st v)"
  shows "find_vma_list st (A @ v # B) addr = Some v"
proof -
  have "find_vma_list st A addr = None"
    using ordered_before_end [OF assms(1)] assms(2) by (auto simp: find_vma_list_None)
  then show ?thesis
    using assms(3) by (simp add: find_vma_list_append)
qed

lemma find_vma_rb_eq:
  assumes "ordered st (inorder t)"
  shows "find_vma_rb st t addr b = (case find_vma_list st (inorder t) addr of Some v \<Rightarrow> Some v | None \<Rightarrow> b)"
  using assms
proof (induction t arbitrary: b)
  case (Node c l a r)
  have o: "ordered st (inorder l)" "ordered st (inorder r)" "ordered st (inorder l @ a # inorder r)"
    "vm_start (st a) < vm_end (st a)"
    using Node.prems by (auto simp: ordered_append ordered_Cons)
  show ?case
  proof (cases "vm_start (st a) \<le> addr")
    case True
    then have "find_vma_list st (inorder l) addr = None"
      using ordered_before_end [OF o(3)] by (auto simp: find_vma_list_None)
    then show ?thesis
      using True Node.IH(2) [OF o(2)] by (simp add: find_vma_list_append)
  next
    case False
    then have "addr < vm_end (st a)"
      using o(4) by simp
    then show ?thesis
      using False Node.IH(1) [OF o(1), of "Some a"] by (simp add: find_vma_list_append split: option.splits)
  qed
qed simp

lemma find_vma_eq:
  assumes "mm_inv (vmas k) mm (mms k mm)"
  shows "find_vma (Some mm) addr k =
    (let r = find_vma_list (vmas k) (mmap_list (mms k mm)) addr
     in (r, if r \<noteq> None then upd_mm mm (\<lambda>m. m\<lparr>mmap_cache := r\<rparr>) k else k))"
proof -
  let ?st = "vmas k" and ?m = "mms k mm"
  have o: "ordered ?st (mmap_list ?m)"
    using assms by (simp add: mm_inv_def)
  have "find_vma_list ?st (mmap_list ?m) addr = Some c"
    if c: "mmap_cache ?m = Some c" "vm_start (?st c) \<le> addr" "addr < vm_end (?st c)" for c
  proof -
    have "c \<in> set (mmap_list ?m)"
      using assms c(1) by (simp add: mm_inv_def)
    then obtain A B where "mmap_list ?m = A @ c # B"
      by (rule split_at_member)
    then show ?thesis
      using find_vma_list_at [of ?st A c B addr] o c by simp
  qed
  moreover have "find_vma_rb ?st t addr None = find_vma_list ?st (mmap_list ?m) addr" if "mmap_tree ?m = Some t" for t
    using assms that find_vma_rb_eq [of ?st t addr None] o by (auto simp: mm_inv_def tree_ok_def split: option.splits)
  ultimately have "(case (case mmap_cache ?m of
                   Some c \<Rightarrow> if vm_start (?st c) \<le> addr \<and> vm_end (?st c) > addr then Some c else None
                 | None \<Rightarrow> None) of Some c \<Rightarrow> Some c
                 | None \<Rightarrow> (case mmap_tree ?m of
                              Some t \<Rightarrow> find_vma_rb ?st t addr None
                            | None \<Rightarrow> find_vma_list ?st (mmap_list ?m) addr)) = find_vma_list ?st (mmap_list ?m) addr"
    by (cases "mmap_cache ?m"; cases "mmap_tree ?m") simp_all
  then show ?thesis
    unfolding find_vma.simps Let_def by simp
qed

declare find_vma.simps(2) [simp del]

text \<open>What \<open>find_vma\<close> leaves: the same state, except that the cache may name another vma of the list.\<close>

lemma find_vma_state:
  assumes "mm_inv (vmas k) mm (mms k mm)"
  obtains c where "find_vma (Some mm) addr k = (find_vma_list (vmas k) (mmap_list (mms k mm)) addr, upd_mm mm (\<lambda>m. m\<lparr>mmap_cache := c\<rparr>) k)"
    "\<And>a. c = Some a \<Longrightarrow> a \<in> set (mmap_list (mms k mm))"
proof (cases "find_vma_list (vmas k) (mmap_list (mms k mm)) addr")
  case None
  then show thesis
    using that [of "mmap_cache (mms k mm)"] find_vma_eq [OF assms, of addr] assms by (simp add: mm_inv_def)
next
  case (Some v)
  then have "v \<in> set (mmap_list (mms k mm))"
    by (metis find_vma_list_Some in_set_conv_decomp)
  then show thesis
    using that [of "Some v"] Some find_vma_eq [OF assms, of addr] by (simp add: Let_def)
qed

lemma vmm_inv_cache:
  assumes "vmm_inv k" "\<And>a. c = Some a \<Longrightarrow> a \<in> set (mmap_list (mms k mm))"
  shows "vmm_inv (upd_mm mm (\<lambda>m. m\<lparr>mmap_cache := c\<rparr>) k)"
  using assms by (auto simp: vmm_inv_def mm_inv_def mem_ok_def)

subsection \<open>Insertion and removal\<close>

lemma vma_tree_create_cases:
  "\<exists>t n fr. vma_tree_create k = (t, k\<lparr>mem := drop n (mem k), kfreed := fr @ kfreed k\<rparr>) \<and>
     (t = None \<or> t = Some rb_node.Nil)"
proof -
  obtain vs ms rf ln m fr ds pc where k: "k = \<lparr>vmas = vs, mms = ms, shmem_ref = rf, shmem_len = ln, mem = m, kfreed = fr,
      shmem_destroyed = ds, pt_calls = pc\<rparr>"
    by (cases k)
  consider "m = []" | xs where "m = None # xs" | a where "m = [Some a]" | a xs where "m = Some a # None # xs"
    | a b where "m = [Some a, Some b]" | a b xs where "m = Some a # Some b # None # xs"
    | a b c xs where "m = Some a # Some b # Some c # xs"
    by (metis list.exhaust option.exhaust)
  then show ?thesis
  proof cases
    case 1 then show ?thesis by (intro exI [of _ None] exI [of _ 0] exI [of _ "[]"]) (simp add: k vma_tree_create_def kmalloc_def)
  next
    case 2 then show ?thesis by (intro exI [of _ None] exI [of _ 1] exI [of _ "[]"]) (simp add: k vma_tree_create_def kmalloc_def)
  next
    case (3 a) then show ?thesis by (intro exI [of _ None] exI [of _ 1] exI [of _ "[a]"]) (simp add: k vma_tree_create_def kmalloc_def)
  next
    case (4 a) then show ?thesis by (intro exI [of _ None] exI [of _ 2] exI [of _ "[a]"]) (simp add: k vma_tree_create_def kmalloc_def)
  next
    case (5 a b) then show ?thesis by (intro exI [of _ None] exI [of _ 2] exI [of _ "[b, a]"]) (simp add: k vma_tree_create_def kmalloc_def)
  next
    case (6 a b) then show ?thesis by (intro exI [of _ None] exI [of _ 3] exI [of _ "[b, a]"]) (simp add: k vma_tree_create_def kmalloc_def)
  next
    case (7 a b c) then show ?thesis by (intro exI [of _ "Some rb_node.Nil"] exI [of _ 3] exI [of _ "[]"]) (simp add: k vma_tree_create_def kmalloc_def)
  qed
qed


text \<open>The state after an insertion between \<open>A\<close> and \<open>B\<close>.\<close>

definition inserted :: "addr \<Rightarrow> addr \<Rightarrow> addr list \<Rightarrow> addr list \<Rightarrow> vmm \<Rightarrow> vmm \<Rightarrow> bool" where
  "inserted mm v A B k k' \<longleftrightarrow> (\<exists>tr n fr. tree_ok tr (A @ v # B) \<and>
     k' = k\<lparr>vmas := (vmas k)(v := (vmas k v)\<lparr>vm_mm := mm\<rparr>),
            mms := (mms k)(mm := (mms k mm)\<lparr>mmap_list := A @ v # B, mmap_tree := tr, map_count := map_count (mms k mm) + 1\<rparr>),
            mem := drop n (mem k), kfreed := fr @ kfreed k\<rparr>)"

lemma ordered_vm_mm: "ordered (st(v := (st v)\<lparr>vm_mm := m\<rparr>)) xs = ordered st xs"
  by (rule ordered_cong) auto

lemma insert_vma_struct_ok:
  assumes inv: "mm_inv (vmas k) mm (mms k mm)" and place: "mmap_list (mms k mm) = A @ B" "ordered (vmas k) (A @ v # B)"
  shows "\<exists>k'. insert_vma_struct mm v k = Some k' \<and> inserted mm v A B k k'"
proof -
  let ?st = "vmas k" and ?m = "mms k mm"
  let ?st' = "?st(v := (?st v)\<lparr>vm_mm := mm\<rparr>)"
  have v: "vm_start (?st v) < vm_end (?st v)" and A: "\<forall>a\<in>set A. vm_end (?st a) \<le> vm_start (?st v)"
    and B: "\<forall>b\<in>set B. vm_end (?st v) \<le> vm_start (?st b)" and d: "distinct (A @ B)"
    and wf: "\<forall>a\<in>set A \<union> set B. vm_start (?st a) < vm_end (?st a)"
    using place(2) ordered_distinct [OF place(2)] by (auto simp: ordered_append ordered_Cons) (auto simp: ordered_def)
  have walk: "insert_vma_walk ?st v None (A @ B) = last_of A"
    using insert_vma_walk_place [of A ?st v B None] A B v wf by (force simp: last_of_def)
  have chk_p: "case_option (Some ()) (\<lambda>p. check_vma_overlap ?st p v) (last_of A) = Some ()"
    using A wf v by (auto simp: last_of_def check_vma_overlap_def)
  have chk_n: "case_option (Some ()) (\<lambda>n. check_vma_overlap ?st v n) (case B of [] \<Rightarrow> None | b # _ \<Rightarrow> Some b) = Some ()"
    using B wf v by (cases B) (auto simp: check_vma_overlap_def)
  have build: "\<exists>t'. build_vma_rb ?st' (A @ v # B) rb_node.Nil = Some t' \<and> tree_ok (Some t') (A @ v # B)"
    using build_vma_rb_ok [of rb_node.Nil ?st' "A @ v # B"] place(2) by (auto simp: tree_ok_def ordered_vm_mm)
  obtain tr tr' where tree: "(case mmap_tree ?m of
         Some t \<Rightarrow> do {
           (t, mmap_prev) \<leftarrow> insert_vma_rb ?st t v;
           Some (mmap_prev, upd_mm mm (\<lambda>m. m\<lparr>mmap_tree := Some t\<rparr>) k)
         }
       | None \<Rightarrow> Some (insert_vma_walk ?st v None (mmap_list ?m), k)) =
       Some (last_of A, upd_mm mm (\<lambda>m. m\<lparr>mmap_tree := tr\<rparr>) k)" "tree_ok tr (A @ v # B)"
  proof (cases "mmap_tree ?m")
    case None
    then have "?m\<lparr>mmap_tree := None\<rparr> = ?m"
      by (cases ?m) simp
    then have "upd_mm mm (\<lambda>m. m\<lparr>mmap_tree := None\<rparr>) k = k"
      by (cases k) simp
    then show thesis
      using None walk place(1) by (intro that [of None]) (simp_all add: tree_ok_def)
  next
    case (Some t)
    then have "rbt t" "\<not> red t" "inorder t = A @ B"
      using inv place(1) by (auto simp: mm_inv_def tree_ok_def)
    from insert_vma_rb_place [OF this place(2)] that Some show thesis
      by (auto simp: tree_ok_def)
  qed
  define k1 where "k1 = upd_mm mm (\<lambda>m. m\<lparr>mmap_list := A @ v # B, map_count := map_count m + 1\<rparr>)
      (upd_vma v (\<lambda>v. v\<lparr>vm_mm := mm\<rparr>) (upd_mm mm (\<lambda>m. m\<lparr>mmap_tree := tr\<rparr>) k))"
  have step: "insert_vma_struct mm v k =
     (if tr = None \<and> map_count ?m + 1 \<ge> RB_MIN_MAP_COUNT
         then (case vma_tree_create k1 of
                 (None, k) \<Rightarrow> Some k
               | (Some t, k) \<Rightarrow> do {
                   t \<leftarrow> build_vma_rb (vmas k) (mmap_list (mms k mm)) t;
                   Some (upd_mm mm (\<lambda>m. m\<lparr>mmap_tree := Some t\<rparr>) k)
                 })
         else Some k1)"
    unfolding insert_vma_struct_def tree(1) using v chk_p chk_n place(1) ring_at_last(1) [OF d] ring_at_last(2) [OF d, of v]
    by (cases A rule: rev_cases; cases B) (simp_all add: Let_def k1_def last_of_def)
  show ?thesis
  proof (cases "tr = None \<and> map_count ?m + 1 \<ge> RB_MIN_MAP_COUNT")
    case True
    obtain t n fr where t: "vma_tree_create k1 = (t, k1\<lparr>mem := drop n (mem k1), kfreed := fr @ kfreed k1\<rparr>)"
        "t = None \<or> t = Some rb_node.Nil"
      using vma_tree_create_cases [of k1] by blast
    show ?thesis
    proof (cases t)
      case None
      then show ?thesis
        using True t step tree(2)
        by (auto simp: inserted_def k1_def intro!: exI [of _ tr] exI [of _ n] exI [of _ fr])
          (cases ?m, simp)
    next
      case (Some t0)
      then have "t0 = rb_node.Nil"
        using t(2) by simp
      moreover obtain t' where "build_vma_rb ?st' (A @ v # B) rb_node.Nil = Some t'" "tree_ok (Some t') (A @ v # B)"
        using build by blast
      ultimately show ?thesis
        using True t step Some
        by (auto simp: inserted_def k1_def intro!: exI [of _ "Some t'"] exI [of _ n] exI [of _ fr])
          (cases ?m, simp)
    qed
  next
    case False
    then have "insert_vma_struct mm v k = Some k1"
      using step by auto
    moreover have "inserted mm v A B k k1"
      unfolding inserted_def
      by (rule exI [of _ tr], rule exI [of _ 0], rule exI [of _ "[]"]) (cases ?m, simp add: tree(2) k1_def)
    ultimately show ?thesis
      by blast
  qed
qed

lemma distinct_filter_drop: "distinct (filter P xs) \<Longrightarrow> distinct (filter P (drop n xs))"
proof (induction xs arbitrary: n)
  case (Cons x xs)
  then show ?case by (cases n) (auto split: if_splits)
qed simp

lemma inserted_inv:
  assumes inv: "vmm_inv k" and place: "mmap_list (mms k mm) = A @ B" "ordered (vmas k) (A @ v # B)"
    and v: "vma_ok mm ((vmas k v)\<lparr>vm_mm := mm\<rparr>)" "\<And>m. v \<notin> set (mmap_list (mms k m))" "Some v \<notin> set (mem k)"
    and ins: "inserted mm v A B k k'"
  shows "vmm_inv k'"
proof -
  obtain tr n fr where k': "tree_ok tr (A @ v # B)"
     "k' = k\<lparr>vmas := (vmas k)(v := (vmas k v)\<lparr>vm_mm := mm\<rparr>),
            mms := (mms k)(mm := (mms k mm)\<lparr>mmap_list := A @ v # B, mmap_tree := tr, map_count := map_count (mms k mm) + 1\<rparr>),
            mem := drop n (mem k), kfreed := fr @ kfreed k\<rparr>"
    using ins by (auto simp: inserted_def)
  have i: "mm_inv (vmas k) m (mms k m)" for m
    using inv by (simp add: vmm_inv_def)
  have "mm_inv (vmas k') m (mms k' m)" for m
  proof (cases "m = mm")
    case True
    have "c \<in> set A \<union> set B" if "mmap_cache (mms k mm) = Some c" for c
      using i [of mm] that place(1) by (auto simp: mm_inv_def)
    moreover have "v \<notin> set A \<union> set B"
      using v(2) [of mm] place(1) by simp
    ultimately show ?thesis
      using i [of mm] True v(1) place k'(1) unfolding k'(2) by (auto simp: mm_inv_def ordered_vm_mm)
  next
    case False
    then show ?thesis
      using i [of m] v(2) [of m] unfolding k'(2) by (auto simp: mm_inv_def ordered_vm_mm)
  qed
  moreover have "mem_ok k'"
    unfolding mem_ok_def
  proof (intro conjI allI impI)
    show "distinct (filter (\<lambda>x. x \<noteq> None) (mem k'))"
      using inv unfolding k'(2) by (simp add: vmm_inv_def mem_ok_def distinct_filter_drop)
    fix m a assume "Some a \<in> set (mem k')"
    then have a: "Some a \<in> set (mem k)"
      unfolding k'(2) by (auto dest: in_set_dropD)
    then have "a \<noteq> v" "a \<notin> set (mmap_list (mms k m))"
      using v(3) inv by (auto simp: vmm_inv_def mem_ok_def)
    then show "a \<notin> set (mmap_list (mms k' m))"
      using place(1) unfolding k'(2) by auto
  qed
  ultimately show ?thesis
    by (simp add: vmm_inv_def)
qed

lemma remove_vma_struct_ok:
  assumes inv: "vmm_inv k" and xs: "mmap_list (mms k mm) = A @ v # B"
  shows "\<exists>tr. remove_vma_struct mm v k =
      Some (upd_mm mm (\<lambda>m. m\<lparr>mmap_list := A @ B, mmap_tree := tr,
              mmap_cache := (if mmap_cache m = Some v then None else mmap_cache m), map_count := map_count m - 1\<rparr>) k) \<and>
      tree_ok tr (A @ B)"
proof -
  have i: "mm_inv (vmas k) mm (mms k mm)"
    using inv by (simp add: vmm_inv_def)
  then have "ordered (vmas k) (A @ v # B)" and vm: "vm_mm (vmas k v) = mm"
    using xs by (simp_all add: mm_inv_def vma_ok_def)
  then have d: "distinct (A @ v # B)"
    by (intro ordered_distinct)
  then have rem: "remove1 v (A @ v # B) = A @ B"
    by simp
  show ?thesis
  proof (cases "mmap_tree (mms k mm)")
    case None
    then show ?thesis
      using vm xs rem
      by (intro exI [of _ None]) (cases "mms k mm", simp add: remove_vma_struct_def tree_ok_def)
  next
    case (Some t)
    then have "rbt t" "\<not> red t" "inorder t = A @ v # B"
      using i xs by (auto simp: mm_inv_def tree_ok_def)
    then obtain t' where "rb_delete t v = Some t'" "rbt t'" "\<not> red t'" "inorder t' = A @ B"
      using rb_delete_inorder [of t v] d rem by auto
    then show ?thesis
      using Some vm xs rem by (intro exI [of _ "Some t'"]) (cases "mms k mm", simp add: remove_vma_struct_def tree_ok_def)
  qed
qed


subsection \<open>The address space\<close>

text \<open>The abstract state of an \<open>mm_struct\<close>: which flags an address has, if it is mapped.\<close>

definition covers :: "vma_struct \<Rightarrow> u32 \<Rightarrow> bool" where
  "covers v x \<longleftrightarrow> vm_start v \<le> x \<and> x < vm_end v"

definition flags_at :: "(addr \<Rightarrow> vma_struct) \<Rightarrow> addr list \<Rightarrow> u32 \<Rightarrow> u32 option" where
  "flags_at st xs x = map_option (\<lambda>v. vm_flags (st v)) (find (\<lambda>v. covers (st v) x) xs)"

definition aspace :: "vmm \<Rightarrow> addr \<Rightarrow> u32 \<Rightarrow> u32 option" where
  "aspace k mm = flags_at (vmas k) (mmap_list (mms k mm))"

lemma flags_at_simps [simp]:
  "flags_at st [] x = None"
  "flags_at st (v # xs) x = (if covers (st v) x then Some (vm_flags (st v)) else flags_at st xs x)"
  by (auto simp: flags_at_def)

lemma flags_at_append: "flags_at st (xs @ ys) x = (case flags_at st xs x of None \<Rightarrow> flags_at st ys x | Some f \<Rightarrow> Some f)"
  by (induction xs) auto

lemma flags_at_None: "flags_at st xs x = None \<longleftrightarrow> (\<forall>v\<in>set xs. \<not> covers (st v) x)"
  by (induction xs) auto

lemma flags_at_cong: "(\<And>v. v \<in> set xs \<Longrightarrow> covers (st' v) x = covers (st v) x \<and> vm_flags (st' v) = vm_flags (st v)) \<Longrightarrow>
    flags_at st' xs x = flags_at st xs x"
  by (induction xs) auto

lemma flags_at_insert:
  assumes "ordered st (A @ v # B)"
  shows "flags_at st (A @ v # B) x = (if covers (st v) x then Some (vm_flags (st v)) else flags_at st (A @ B) x)"
proof (cases "covers (st v) x")
  case True
  have "vm_end (st a) \<le> x" if "a \<in> set A" for a
    using ordered_before_end [OF assms that] True by (simp add: covers_def)
  then have "flags_at st A x = None"
    by (force simp: flags_at_None covers_def)
  then show ?thesis
    using True by (simp add: flags_at_append)
qed (simp add: flags_at_append split: option.splits)

lemma aspace_other:
  assumes "mms k' m = mms k m" "\<And>a. a \<in> set (mmap_list (mms k m)) \<Longrightarrow> vmas k' a = vmas k a"
  shows "aspace k' m = aspace k m"
  using assms by (auto simp: aspace_def intro!: ext flags_at_cong)

definition fresh :: "addr \<Rightarrow> vmm \<Rightarrow> bool" where
  "fresh v k \<longleftrightarrow> (\<forall>m. v \<notin> set (mmap_list (mms k m))) \<and> Some v \<notin> set (mem k)"

text \<open>Inserting an area that overlaps no other area of the mm.\<close>

lemma insert_vma_struct_spec:
  assumes inv: "vmm_inv k" and v: "fresh v k" "vma_ok mm ((vmas k v)\<lparr>vm_mm := mm\<rparr>)" "vm_start (vmas k v) < vm_end (vmas k v)"
    and gap: "\<And>a. a \<in> set (mmap_list (mms k mm)) \<Longrightarrow>
       vm_end (vmas k a) \<le> vm_start (vmas k v) \<or> vm_end (vmas k v) \<le> vm_start (vmas k a)"
  obtains k' where "insert_vma_struct mm v k = Some k'" "vmm_inv k'" "\<And>m. m \<noteq> mm \<Longrightarrow> mms k' m = mms k m"
    "vmas k' = (vmas k)(v := (vmas k v)\<lparr>vm_mm := mm\<rparr>)" "set (mmap_list (mms k' mm)) = insert v (set (mmap_list (mms k mm)))"
    "aspace k' mm = (\<lambda>x. if covers (vmas k v) x then Some (vm_flags (vmas k v)) else aspace k mm x)"
    "\<And>m. m \<noteq> mm \<Longrightarrow> aspace k' m = aspace k m" "set (mem k') \<subseteq> set (mem k)"
proof -
  have o: "ordered (vmas k) (mmap_list (mms k mm))" and i: "mm_inv (vmas k) mm (mms k mm)"
    using inv by (simp_all add: vmm_inv_def mm_inv_def)
  obtain A B where place: "mmap_list (mms k mm) = A @ B" "ordered (vmas k) (A @ v # B)"
    by (rule ordered_place [OF o v(3)]) (use gap in auto)
  obtain k' where k': "insert_vma_struct mm v k = Some k'" "inserted mm v A B k k'"
    using insert_vma_struct_ok [OF i place] by blast
  have nv: "\<And>m. v \<notin> set (mmap_list (mms k m))" "Some v \<notin> set (mem k)"
    using v(1) by (auto simp: fresh_def)
  have inv': "vmm_inv k'"
    using inv place v(2) nv k'(2) by (rule inserted_inv)
  have eq: "vmas k' = (vmas k)(v := (vmas k v)\<lparr>vm_mm := mm\<rparr>)" "mmap_list (mms k' mm) = A @ v # B"
      "\<And>m. m \<noteq> mm \<Longrightarrow> mms k' m = mms k m" "set (mem k') \<subseteq> set (mem k)"
    using k'(2) by (auto simp: inserted_def dest: in_set_dropD)
  have cong: "flags_at ((vmas k)(v := (vmas k v)\<lparr>vm_mm := mm\<rparr>)) xs x = flags_at (vmas k) xs x" for xs x
    by (rule flags_at_cong) (auto simp: covers_def)
  have "aspace k' mm = (\<lambda>x. if covers (vmas k v) x then Some (vm_flags (vmas k v)) else aspace k mm x)"
    using flags_at_insert [OF place(2)] place(1) by (auto simp: aspace_def eq cong intro!: ext)
  moreover have "aspace k' m = aspace k m" if "m \<noteq> mm" for m
    using that by (auto simp: aspace_def eq cong intro!: ext)
  ultimately show thesis
    using that k'(1) inv' eq place(1) by auto
qed

text \<open>The areas behind the one \<open>find_vma\<close> returns start no earlier, so that one test is enough.\<close>

lemma find_vma_list_gap:
  assumes "ordered st xs" "start < end'"
    and "case find_vma_list st xs start of None \<Rightarrow> True | Some w \<Rightarrow> end' \<le> vm_start (st w)"
    and "a \<in> set xs"
  shows "vm_end (st a) \<le> start \<or> end' \<le> vm_start (st a)"
proof (cases "find_vma_list st xs start")
  case None
  then show ?thesis using assms(4) by (auto simp: find_vma_list_None)
next
  case (Some w)
  then obtain A B where w: "xs = A @ w # B" "\<forall>a\<in>set A. vm_end (st a) \<le> start"
    by (rule find_vma_list_Some)
  moreover have "vm_start (st w) \<le> vm_start (st b)" if "b \<in> set B" for b
    using assms(1) that unfolding w(1) by (force simp: ordered_append ordered_Cons)
  ultimately show ?thesis
    using assms(3,4) Some by (auto intro: order.trans)
qed

lemma find_vma_list_overlap:
  assumes "ordered st xs" "find_vma_list st xs start = Some w" "vm_start (st w) < end'" "start < end'"
  shows "\<exists>x. start \<le> x \<and> x < end' \<and> flags_at st xs x \<noteq> None"
proof -
  obtain A B where w: "xs = A @ w # B" "start < vm_end (st w)"
    using assms(2) by (rule find_vma_list_Some)
  have "vm_start (st w) < vm_end (st w)"
    using assms(1) w(1) by (simp add: ordered_def)
  then have "covers (st w) (max start (vm_start (st w)))"
    using w(2) by (auto simp: covers_def max_def)
  then show ?thesis
    using assms(3,4) w(1) by (intro exI [of _ "max start (vm_start (st w))"]) (auto simp: flags_at_None max_def)
qed

subsection \<open>Rounding\<close>

lemma unat_mod_PGSIZE: "unat (a mod PGSIZE) = unat a mod 4096"
  by (simp add: unat_mod)

lemma aligned_unat: "a mod PGSIZE = 0 \<longleftrightarrow> unat a mod 4096 = 0"
  using unat_mod_PGSIZE [of a] by (metis unat_eq_0)

lemma ROUNDDOWN_unat: "unat (ROUNDDOWN a PGSIZE) = unat a - unat a mod 4096"
proof -
  have "a mod PGSIZE \<le> a"
    by (simp add: word_le_nat_alt unat_mod_PGSIZE)
  then show ?thesis
    by (simp add: ROUNDDOWN_def unat_diff_le unat_mod_PGSIZE)
qed

lemma ROUNDDOWN_aligned [simp]: "ROUNDDOWN a PGSIZE mod PGSIZE = 0"
  unfolding aligned_unat ROUNDDOWN_unat by simp

lemma ROUNDUP_aligned [simp]: "ROUNDUP a PGSIZE mod PGSIZE = 0"
  by (simp add: ROUNDUP_def)

lemma ROUNDDOWN_id: "a mod PGSIZE = 0 \<Longrightarrow> ROUNDDOWN a PGSIZE = a"
  by (simp add: ROUNDDOWN_def)

lemma ROUNDUP_id:
  assumes "a mod PGSIZE = 0" "a \<le> USERTOP"
  shows "ROUNDUP a PGSIZE = a"
proof -
  have "unat a + 4095 < 2 ^ 32"
    using assms(2) by (simp add: word_le_nat_alt)
  then have "unat (a + 4095) = unat a + 4095"
    using unat_add_lt [of a 4095] by simp
  moreover have "a + PGSIZE - 1 = a + 4095"
    by (simp add: diff_eq_eq)
  ultimately have "unat (a + PGSIZE - 1) = unat a + 4095"
    by (simp only:)
  then have "unat (ROUNDUP a PGSIZE) = unat a + 4095 - (unat a + 4095) mod 4096"
    unfolding ROUNDUP_def ROUNDDOWN_unat by simp
  also have "(unat a + 4095) mod 4096 = 4095"
    using assms(1) mod_add_left_eq [of "unat a" 4096 4095] unfolding aligned_unat by simp
  finally show ?thesis by (simp add: word_unat_eq_iff)
qed


subsection \<open>Mapping\<close>

definition memory_left :: "vmm \<Rightarrow> bool" where
  "memory_left k \<longleftrightarrow> (\<exists>a ms. mem k = Some a # ms)"

text \<open>A new vma is outside every list, and the state is otherwise the same.\<close>

lemma vma_create_None:
  assumes "vmm_inv k" "\<not> memory_left k"
  obtains k' where "vma_create s e f k = (None, k')" "vmm_inv k'" "vmas k' = vmas k" "mms k' = mms k"
proof (cases "mem k")
  case Nil
  then show thesis
    using assms that [of k] by (simp add: vma_create_def kmalloc_def)
next
  case (Cons a ms)
  then have "a = None"
    using assms(2) by (cases a) (auto simp: memory_left_def)
  then show thesis
    using assms(1) Cons that [of "k\<lparr>mem := ms\<rparr>"] by (auto simp: vma_create_def kmalloc_def vmm_inv_def mem_ok_def)
qed

lemma vma_create_Some:
  assumes "vmm_inv k" "memory_left k"
  obtains v k' where "vma_create s e f k = (Some v, k')" "vmm_inv k'" "fresh v k'" "mms k' = mms k"
    "vmas k' = (vmas k)(v := (vmas k v)\<lparr>vm_start := s, vm_end := e, vm_flags := f, shmem := None, shmem_off := 0\<rparr>)"
    "\<And>m. aspace k' m = aspace k m"
proof -
  obtain v ms where m: "mem k = Some v # ms"
    using assms(2) by (auto simp: memory_left_def)
  let ?v = "(vmas k v)\<lparr>vm_start := s, vm_end := e, vm_flags := f, shmem := None, shmem_off := 0\<rparr>"
  define k' where "k' = k\<lparr>mem := ms, vmas := (vmas k)(v := ?v)\<rparr>"
  have new: "v \<notin> set (mmap_list (mms k m))" for m
    using assms(1) m by (auto simp: vmm_inv_def mem_ok_def)
  then have cong: "a \<in> set (mmap_list (mms k m)) \<Longrightarrow> vmas k' a = vmas k a" for a m
    by (auto simp: k'_def)
  have "mm_inv (vmas k') m (mms k' m)" for m
    using assms(1) cong [of _ m] ordered_cong [of "mmap_list (mms k m)" "vmas k'" "vmas k"]
    by (auto simp: vmm_inv_def mm_inv_def k'_def)
  moreover have "mem_ok k'" "fresh v k'"
    using assms(1) m new by (auto simp: vmm_inv_def mem_ok_def fresh_def k'_def)
  moreover have "aspace k' m = aspace k m" for m
    by (rule aspace_other) (use cong in \<open>auto simp: k'_def\<close>)
  ultimately show thesis
    using that [of v k'] m by (simp add: vma_create_def kmalloc_def k'_def vmm_inv_def)
qed

lemma find_vma_step:
  assumes "vmm_inv k"
  obtains k' where "find_vma (Some mm) addr k = (find_vma_list (vmas k) (mmap_list (mms k mm)) addr, k')"
    "vmm_inv k'" "vmas k' = vmas k" "\<And>m. mmap_list (mms k' m) = mmap_list (mms k m)" "\<And>m. aspace k' m = aspace k m"
    "mem k' = mem k"
proof -
  have i: "mm_inv (vmas k) mm (mms k mm)"
    using assms by (simp add: vmm_inv_def)
  obtain c where c: "find_vma (Some mm) addr k =
      (find_vma_list (vmas k) (mmap_list (mms k mm)) addr, upd_mm mm (\<lambda>m. m\<lparr>mmap_cache := c\<rparr>) k)"
    "\<And>a. c = Some a \<Longrightarrow> a \<in> set (mmap_list (mms k mm))"
    using find_vma_state [OF i] by blast
  show thesis
    using that [OF c(1) vmm_inv_cache [OF assms c(2)]] by (simp add: aspace_def)
qed

lemma vmm_inv_ordered: "vmm_inv k \<Longrightarrow> ordered (vmas k) (mmap_list (mms k mm))"
  by (simp add: vmm_inv_def mm_inv_def)

lemma vmm_inv_vma:
  assumes "vmm_inv k" "a \<in> set (mmap_list (mms k mm))"
  shows "vma_ok mm (vmas k a)"
  using assms by (auto simp: vmm_inv_def mm_inv_def)

text \<open>Creating and inserting an area in a gap, the common end of \<open>mm_map\<close> and \<open>mm_brk\<close>.\<close>

lemma create_insert:
  assumes inv: "vmm_inv k" "memory_left k" and range: "USER_ACCESS s e" "s mod PGSIZE = 0" "e mod PGSIZE = 0"
    and gap: "\<And>a. a \<in> set (mmap_list (mms k mm)) \<Longrightarrow> vm_end (vmas k a) \<le> s \<or> e \<le> vm_start (vmas k a)"
  obtains v k1 k' where "vma_create s e f k = (Some v, k1)" "insert_vma_struct mm v k1 = Some k'" "vmm_inv k'"
    "aspace k' mm = (\<lambda>x. if s \<le> x \<and> x < e then Some f else aspace k mm x)"
    "\<And>m. m \<noteq> mm \<Longrightarrow> aspace k' m = aspace k m" "v \<in> set (mmap_list (mms k' mm))" "vm_start (vmas k' v) = s" "vm_end (vmas k' v) = e"
proof -
  obtain v k1 where k1: "vma_create s e f k = (Some v, k1)" "vmm_inv k1" "fresh v k1" "mms k1 = mms k"
    "vmas k1 = (vmas k)(v := (vmas k v)\<lparr>vm_start := s, vm_end := e, vm_flags := f, shmem := None, shmem_off := 0\<rparr>)"
    "\<And>m. aspace k1 m = aspace k m"
    using vma_create_Some [OF inv] by metis
  have v: "vma_ok mm ((vmas k1 v)\<lparr>vm_mm := mm\<rparr>)" "vm_start (vmas k1 v) < vm_end (vmas k1 v)"
    using range by (auto simp: k1(5) vma_ok_def USER_ACCESS_def)
  have nv: "v \<notin> set (mmap_list (mms k mm))"
    using k1(3,4) by (simp add: fresh_def)
  have g: "vm_end (vmas k1 a) \<le> vm_start (vmas k1 v) \<or> vm_end (vmas k1 v) \<le> vm_start (vmas k1 a)"
    if "a \<in> set (mmap_list (mms k1 mm))" for a
    using gap [of a] that nv by (auto simp: k1(4,5))
  show thesis
  proof (rule insert_vma_struct_spec [OF k1(2,3) v g])
    fix k' assume k': "insert_vma_struct mm v k1 = Some k'" "vmm_inv k'"
      "vmas k' = (vmas k1)(v := (vmas k1 v)\<lparr>vm_mm := mm\<rparr>)" "set (mmap_list (mms k' mm)) = insert v (set (mmap_list (mms k1 mm)))"
      "aspace k' mm = (\<lambda>x. if covers (vmas k1 v) x then Some (vm_flags (vmas k1 v)) else aspace k1 mm x)"
      "\<And>m. m \<noteq> mm \<Longrightarrow> aspace k' m = aspace k1 m"
    show thesis
    proof (rule that [OF k1(1) k'(1,2)])
      show "aspace k' mm = (\<lambda>x. if s \<le> x \<and> x < e then Some f else aspace k mm x)"
        unfolding k'(5) k1(5,6) by (rule ext) (simp add: covers_def)
    qed (use k'(3,4,6) k1(5,6) in simp_all)
  qed
qed

subsection \<open>An example\<close>

text \<open>An address space with data, a shared area and a stack.\<close>

definition demo_vma :: "addr \<Rightarrow> vma_struct" where
  "demo_vma a =
     (if a = 10 then \<lparr>vm_mm = 1, vm_start = 0x800000, vm_end = 0x803000, vm_flags = 3, shmem = None, shmem_off = 0\<rparr>
      else if a = 11 then \<lparr>vm_mm = 1, vm_start = 0x900000, vm_end = 0x905000, vm_flags = 17, shmem = Some 7, shmem_off = 0\<rparr>
      else \<lparr>vm_mm = 1, vm_start = 0xAFF00000, vm_end = 0xB0000000, vm_flags = 11, shmem = None, shmem_off = 0\<rparr>)"

definition demo_mm :: "addr list \<Rightarrow> mm_struct" where
  "demo_mm xs = \<lparr>mmap_list = xs, mmap_tree = None, mmap_cache = None, pgdir = 5, map_count = int (length xs), swap_address = 0,
     mm_count = 1, locked_by = 0, brk_start = 0, brk = 0\<rparr>"

definition demo_vmm :: vmm where
  "demo_vmm = \<lparr>vmas = demo_vma, mms = (\<lambda>m. if m = 1 then demo_mm [10, 11, 12] else demo_mm []), shmem_ref = (\<lambda>_. 1),
     shmem_len = (\<lambda>_. 0x5000), mem = [Some 20, Some 21, Some 22, Some 23], kfreed = [], shmem_destroyed = [], pt_calls = []\<rparr>"

lemma demo_vmm_inv: "vmm_inv demo_vmm"
  by (auto simp: vmm_inv_def mm_inv_def mem_ok_def demo_vmm_def demo_mm_def demo_vma_def ordered_Cons vma_ok_def tree_ok_def
      aligned_unat)

text \<open>C7: \<open>mm_map\<close> refines the update of a partial function from addresses to flags.  It never panics on a well-formed state,
  keeps it well formed and leaves all other address spaces alone.  It fails with -E_INVAL if the range is not a user
  range or a part of it is mapped, with -E_NO_MEM if no vma can be allocated, without effect on the address space;
  otherwise exactly the pages of the range get the flags, less VM_SHARE.\<close>

theorem mm_map_correct:
  assumes "vmm_inv k"
  shows "\<exists>ret vma k'. mm_map (Some mm) addr len flags k = Some ((ret, vma), k') \<and> vmm_inv k' \<and>
     (\<forall>m. m \<noteq> mm \<longrightarrow> aspace k' m = aspace k m) \<and>
     (let start = ROUNDDOWN addr PGSIZE; end' = ROUNDUP (addr + len) PGSIZE in
      if \<not> USER_ACCESS start end' \<or> (\<exists>x. start \<le> x \<and> x < end' \<and> aspace k mm x \<noteq> None)
      then ret = - E_INVAL \<and> aspace k' mm = aspace k mm
      else if \<not> memory_left k then ret = - E_NO_MEM \<and> aspace k' mm = aspace k mm
      else ret = 0 \<and> aspace k' mm = (\<lambda>x. if start \<le> x \<and> x < end' then Some (flags AND NOT VM_SHARE) else aspace k mm x))"
proof -
  define start where "start = ROUNDDOWN addr PGSIZE"
  define end' where "end' = ROUNDUP (addr + len) PGSIZE"
  have al: "start mod PGSIZE = 0" "end' mod PGSIZE = 0"
    by (simp_all add: start_def end'_def)
  show ?thesis
  proof (cases "USER_ACCESS start end'")
    case False
    then show ?thesis
      using assms by (simp add: mm_map_def start_def end'_def)
  next
    case ua: True
    then have lt: "start < end'" by (simp add: USER_ACCESS_def)
    let ?st = "vmas k" and ?xs = "mmap_list (mms k mm)"
    have o: "ordered ?st ?xs"
      using assms by (rule vmm_inv_ordered)
    obtain k1 where k1: "find_vma (Some mm) start k = (find_vma_list ?st ?xs start, k1)"
      "vmm_inv k1" "vmas k1 = vmas k" "\<And>m. mmap_list (mms k1 m) = mmap_list (mms k m)" "\<And>m. aspace k1 m = aspace k m"
      "mem k1 = mem k"
      using find_vma_step [OF assms] by metis
    let ?hit = "case find_vma_list ?st ?xs start of None \<Rightarrow> False | Some v \<Rightarrow> end' > vm_start (?st v)"
    have step: "mm_map (Some mm) addr len flags k = (if ?hit then Some ((- E_INVAL, None), k1)
         else case vma_create start end' (flags AND NOT VM_SHARE) k1 of
                (None, k) \<Rightarrow> Some ((- E_NO_MEM, None), k)
              | (Some v, k) \<Rightarrow> do {
                  k \<leftarrow> insert_vma_struct mm v k;
                  Some ((0, Some v), k)
                })"
      unfolding mm_map_def start_def [symmetric] end'_def [symmetric] Let_def bind.simps k1(1) prod.case k1(3)
      using ua by simp
    show ?thesis
    proof (cases ?hit)
      case True
      then have "\<exists>x. start \<le> x \<and> x < end' \<and> aspace k mm x \<noteq> None"
        using find_vma_list_overlap [OF o _ _ lt] by (auto simp: aspace_def split: option.splits)
      then show ?thesis
        using True step k1(2,5) by (auto simp: Let_def simp flip: start_def end'_def)
    next
      case False
      then have gap: "\<And>a. a \<in> set ?xs \<Longrightarrow> vm_end (?st a) \<le> start \<or> end' \<le> vm_start (?st a)"
        using find_vma_list_gap [OF o lt] by (auto split: option.splits)
      then have free: "aspace k mm x = None" if "start \<le> x" "x < end'" for x
        using that by (force simp: aspace_def flags_at_None covers_def)
      show ?thesis
      proof (cases "memory_left k")
        case mem: False
        then have "\<not> memory_left k1"
          using k1(6) by (simp add: memory_left_def)
        from vma_create_None [OF k1(2) this] obtain k2 where
          "vma_create start end' (flags AND NOT VM_SHARE) k1 = (None, k2)" "vmm_inv k2" "vmas k2 = vmas k1" "mms k2 = mms k1"
          by metis
        then show ?thesis
          using step False mem ua free k1(3-5) by (auto simp: Let_def aspace_def simp flip: start_def end'_def)
      next
        case mem: True
        then have "memory_left k1"
          using k1(6) by (simp add: memory_left_def)
        then show ?thesis
        proof (rule create_insert [OF k1(2) _ ua al, of mm "flags AND NOT VM_SHARE"])
          show "vm_end (vmas k1 a) \<le> start \<or> end' \<le> vm_start (vmas k1 a)" if "a \<in> set (mmap_list (mms k1 mm))" for a
            using gap [of a] that by (simp add: k1(3,4))
          fix v k2 k3 assume "vma_create start end' (flags AND NOT VM_SHARE) k1 = (Some v, k2)"
            "insert_vma_struct mm v k2 = Some k3" "vmm_inv k3"
            "aspace k3 mm = (\<lambda>x. if start \<le> x \<and> x < end' then Some (flags AND NOT VM_SHARE) else aspace k1 mm x)"
            "\<And>m. m \<noteq> mm \<Longrightarrow> aspace k3 m = aspace k1 m"
          then show ?thesis
            using step False mem ua free k1(5) by (auto simp: Let_def simp flip: start_def end'_def)
        qed
      qed
    qed
  qed
qed


theorem mm_map_correct_witness:
  "\<exists>vma k'. mm_map (Some 1) 0x803010 0x10 23 demo_vmm = Some ((0, vma), k') \<and> vmm_inv k' \<and>
     aspace k' 1 = (\<lambda>x. if 0x803000 \<le> x \<and> x < 0x804000 then Some 7 else aspace demo_vmm 1 x)"
proof -
  have r: "ROUNDDOWN 0x803010 PGSIZE = 0x803000" "ROUNDUP (0x803010 + 0x10) PGSIZE = 0x804000"
    by code_simp+
  have ua: "USER_ACCESS 0x803000 0x804000" and ml: "memory_left demo_vmm"
    by (simp_all add: USER_ACCESS_def memory_left_def demo_vmm_def)
  have f: "(23::u32) AND NOT VM_SHARE = 7"
    by simp
  have free: "aspace demo_vmm 1 x = None" if "0x803000 \<le> x" "x < 0x804000" for x
    using that
    by (auto simp: aspace_def flags_at_None demo_vmm_def demo_mm_def demo_vma_def covers_def word_le_nat_alt word_less_nat_alt)
  have ok: "\<not> (\<not> USER_ACCESS 0x803000 0x804000 \<or> (\<exists>x. 0x803000 \<le> x \<and> x < 0x804000 \<and> aspace demo_vmm 1 x \<noteq> None))"
  proof (intro notI, elim disjE exE conjE)
    fix x assume "0x803000 \<le> x" "x < 0x804000" "aspace demo_vmm 1 x \<noteq> None"
    then show False using free by simp
  qed (use ua in simp)
  have "\<not> \<not> memory_left demo_vmm"
    using ml by simp
  from mm_map_correct [OF demo_vmm_inv, of 1 "0x803010" "0x10" 23, unfolded r f Let_def if_not_P [OF ok] if_not_P [OF this]]
  show ?thesis by blast
qed

end
