(* ===== verification/Vmm_Unmap.thy ===== *)
theory Vmm_Unmap
  imports Vmm
begin

text \<open>
  Properties of the operations of \<^verbatim>\<open>kern/mm/vmm.c\<close> that remove, move and check areas, on the definitions of \<open>Vmm\<close>:
  \<open>mm_unmap\<close>, \<open>mm_brk\<close>, \<open>dup_mmap\<close>, \<open>get_unmapped_area\<close>, \<open>user_mem_check\<close>.
\<close>

unbundle bit_operations_syntax

subsection \<open>The address space as a set of areas\<close>

lemma flags_at_iff:
  assumes "ordered st xs"
  shows "flags_at st xs x = Some f \<longleftrightarrow> (\<exists>v\<in>set xs. covers (st v) x \<and> vm_flags (st v) = f)"
proof
  assume "\<exists>v\<in>set xs. covers (st v) x \<and> vm_flags (st v) = f"
  then obtain v where v: "v \<in> set xs" "covers (st v) x" "vm_flags (st v) = f" by blast
  then obtain A B where "xs = A @ v # B" by (meson split_at_member)
  then show "flags_at st xs x = Some f"
    using flags_at_insert [of st A v B x] assms v by simp
next
  assume "flags_at st xs x = Some f"
  then show "\<exists>v\<in>set xs. covers (st v) x \<and> vm_flags (st v) = f"
    by (induction xs) (auto split: if_splits)
qed

lemma aspace_iff:
  assumes "vmm_inv k"
  shows "aspace k mm x = Some f \<longleftrightarrow> (\<exists>v\<in>set (mmap_list (mms k mm)). covers (vmas k v) x \<and> vm_flags (vmas k v) = f)"
  unfolding aspace_def by (rule flags_at_iff [OF vmm_inv_ordered [OF assms]])

lemma aspace_eqI:
  assumes "\<And>x f. aspace k mm x = Some f \<longleftrightarrow> F x = Some f"
  shows "aspace k mm = F"
proof
  fix x show "aspace k mm x = F x"
    using assms [of x] by (metis option.exhaust)
qed

definition disjoint_vma :: "vma_struct \<Rightarrow> vma_struct \<Rightarrow> bool" where
  "disjoint_vma v w \<longleftrightarrow> vm_end v \<le> vm_start w \<or> vm_end w \<le> vm_start v"

lemma ordered_disjoint:
  assumes "ordered st xs" "a \<in> set xs" "b \<in> set xs" "a \<noteq> b"
  shows "disjoint_vma (st a) (st b)"
proof -
  obtain A B where xs: "xs = A @ a # B"
    using assms(2) by (meson split_at_member)
  then show ?thesis
    using assms(1,3,4) by (auto simp: ordered_append ordered_Cons disjoint_vma_def)
qed

lemma disjoint_not_covers: "disjoint_vma v w \<Longrightarrow> covers v x \<Longrightarrow> \<not> covers w x"
  by (auto simp: disjoint_vma_def covers_def)

subsection \<open>Shrinking an area in place\<close>

lemma owner_unique:
  assumes "vmm_inv k" "a \<in> set (mmap_list (mms k m))" "a \<in> set (mmap_list (mms k m'))"
  shows "m = m'"
  using vmm_inv_vma [OF assms(1,2)] vmm_inv_vma [OF assms(1,3)] by (simp add: vma_ok_def)

lemma shrink_inv:
  assumes inv: "vmm_inv k" and w: "w \<in> set (mmap_list (mms k mm))"
    and v': "vma_ok mm v'" "vm_start (vmas k w) \<le> vm_start v'" "vm_start v' < vm_end v'" "vm_end v' \<le> vm_end (vmas k w)"
  shows "vmm_inv (k\<lparr>vmas := (vmas k)(w := v')\<rparr>)"
proof -
  let ?st = "(vmas k)(w := v')"
  have "mm_inv ?st m (mms k m)" for m
  proof (cases "m = mm")
    case True
    have o: "ordered (vmas k) (mmap_list (mms k mm))"
      by (rule vmm_inv_ordered [OF inv])
    obtain A B where xs: "mmap_list (mms k mm) = A @ w # B" "w \<notin> set A"
      using w by (rule split_at_member)
    then have nB: "w \<notin> set B"
      using ordered_distinct [OF o] by simp
    have "ordered ?st A = ordered (vmas k) A" "ordered ?st B = ordered (vmas k) B"
      using xs(2) nB by (auto intro!: ordered_cong)
    then have "ordered ?st (A @ w # B)"
      using o v' xs nB unfolding xs(1) by (auto simp: ordered_append ordered_Cons intro: order.trans)
    moreover have "mm_inv (vmas k) mm (mms k mm)"
      using inv by (simp add: vmm_inv_def)
    ultimately show ?thesis
      using True v'(1) unfolding xs(1) [symmetric] mm_inv_def by auto
  next
    case False
    then have "w \<notin> set (mmap_list (mms k m))"
      using owner_unique [OF inv w] by blast
    moreover have "mm_inv (vmas k) m (mms k m)"
      using inv by (simp add: vmm_inv_def)
    moreover have "ordered ?st (mmap_list (mms k m)) = ordered (vmas k) (mmap_list (mms k m))"
      using calculation(1) by (intro ordered_cong) auto
    ultimately show ?thesis
      by (auto simp: mm_inv_def)
  qed
  then show ?thesis
    using inv by (simp add: vmm_inv_def mem_ok_def)
qed

lemma aspace_outside:
  assumes "\<And>a. a \<in> set (mmap_list (mms k m)) \<Longrightarrow> vmas k' a = vmas k a" "mmap_list (mms k' m) = mmap_list (mms k m)"
  shows "aspace k' m = aspace k m"
  using assms by (auto simp: aspace_def intro!: ext flags_at_cong)

subsection \<open>The loops of mm_unmap\<close>

lemma removed_inv:
  assumes inv: "vmm_inv k" and xs: "mmap_list (mms k mm) = A @ v # B" and tr: "tree_ok tr (A @ B)"
  shows "vmm_inv (upd_mm mm (\<lambda>m. m\<lparr>mmap_list := A @ B, mmap_tree := tr,
              mmap_cache := (if mmap_cache m = Some v then None else mmap_cache m), map_count := map_count m - 1\<rparr>) k)"
proof -
  have "ordered (vmas k) (A @ v # B)"
    using vmm_inv_ordered [OF inv, of mm] xs by simp
  then have "ordered (vmas k) (A @ B)"
    by (auto simp: ordered_append ordered_Cons)
  moreover have i: "mm_inv (vmas k) m (mms k m)" for m
    using inv by (simp add: vmm_inv_def)
  ultimately have "mm_inv (vmas k) mm ((mms k mm)\<lparr>mmap_list := A @ B, mmap_tree := tr,
      mmap_cache := (if mmap_cache (mms k mm) = Some v then None else mmap_cache (mms k mm)),
      map_count := map_count (mms k mm) - 1\<rparr>)"
    using i [of mm] tr xs by (auto simp: mm_inv_def)
  moreover have "a \<notin> set (A @ B)" if "Some a \<in> set (mem k)" for a
  proof -
    have "a \<notin> set (mmap_list (mms k mm))"
      using inv that by (simp add: vmm_inv_def mem_ok_def)
    then show ?thesis by (simp add: xs)
  qed
  ultimately show ?thesis
    using inv i by (auto simp: vmm_inv_def mem_ok_def)
qed

lemma unmap_collect_ok:
  assumes "vmm_inv k" "mmap_list (mms k mm) = A @ les"
  shows "\<exists>k'. unmap_collect mm e les fl k = Some (rev (takeWhile (\<lambda>a. vm_start (vmas k a) < e) les) @ fl, k') \<and> vmm_inv k' \<and>
     vmas k' = vmas k \<and> mem k' = mem k \<and> (\<forall>m. m \<noteq> mm \<longrightarrow> mms k' m = mms k m) \<and>
     mmap_list (mms k' mm) = A @ dropWhile (\<lambda>a. vm_start (vmas k a) < e) les"
  using assms
proof (induction les arbitrary: fl k)
  case Nil
  then show ?case by auto
next
  case (Cons v les)
  show ?case
  proof (cases "vm_start (vmas k v) < e")
    case True
    obtain tr where r: "remove_vma_struct mm v k =
      Some (upd_mm mm (\<lambda>m. m\<lparr>mmap_list := A @ les, mmap_tree := tr,
              mmap_cache := (if mmap_cache m = Some v then None else mmap_cache m), map_count := map_count m - 1\<rparr>) k)"
      "tree_ok tr (A @ les)"
      using remove_vma_struct_ok [OF Cons.prems] by blast
    define k1 where "k1 = upd_mm mm (\<lambda>m. m\<lparr>mmap_list := A @ les, mmap_tree := tr,
              mmap_cache := (if mmap_cache m = Some v then None else mmap_cache m), map_count := map_count m - 1\<rparr>) k"
    have k1: "vmm_inv k1" "mmap_list (mms k1 mm) = A @ les" "vmas k1 = vmas k" "mem k1 = mem k"
        "\<And>m. m \<noteq> mm \<Longrightarrow> mms k1 m = mms k m"
      unfolding k1_def using removed_inv [OF Cons.prems r(2)] by auto
    show ?thesis
      using Cons.IH [OF k1(1,2), of "v # fl"] True r(1) k1(3-5) by (auto simp flip: k1_def)
  next
    case False
    then show ?thesis
      using Cons.prems by auto
  qed
qed


lemma fresh_upd_inv:
  assumes "vmm_inv k" "fresh a k"
  shows "vmm_inv (k\<lparr>vmas := (vmas k)(a := v')\<rparr>)" "aspace (k\<lparr>vmas := (vmas k)(a := v')\<rparr>) m = aspace k m"
proof -
  have na: "a \<notin> set (mmap_list (mms k m))" for m
    using assms(2) by (simp add: fresh_def)
  have "mm_inv ((vmas k)(a := v')) m (mms k m)" for m
  proof -
    have "mm_inv (vmas k) m (mms k m)"
      using assms(1) by (simp add: vmm_inv_def)
    moreover have "ordered ((vmas k)(a := v')) (mmap_list (mms k m)) = ordered (vmas k) (mmap_list (mms k m))"
      using na [of m] by (intro ordered_cong) auto
    ultimately show ?thesis
      using na [of m] by (auto simp: mm_inv_def)
  qed
  then show "vmm_inv (k\<lparr>vmas := (vmas k)(a := v')\<rparr>)"
    using assms(1) by (simp add: vmm_inv_def mem_ok_def)
  show "aspace (k\<lparr>vmas := (vmas k)(a := v')\<rparr>) m = aspace k m"
    using na [of m] by (intro aspace_outside) auto
qed

lemma vma_resize_ok:
  assumes "s mod PGSIZE = 0" "e mod PGSIZE = 0" "vm_start (vmas k a) \<le> s" "s < e" "e \<le> vm_end (vmas k a)"
  obtains v' where "vma_resize a s e k = Some (k\<lparr>vmas := (vmas k)(a := v')\<rparr>)" "vm_start v' = s" "vm_end v' = e"
    "vm_flags v' = vm_flags (vmas k a)" "vm_mm v' = vm_mm (vmas k a)"
  using assms that by (auto simp: vma_resize_def)

text \<open>An area that was taken out of the list, shortened and put back.\<close>

lemma resize_insert:
  assumes inv: "vmm_inv k" "fresh a k" "vma_ok mm (vmas k a)"
    and al: "s mod PGSIZE = 0" "e mod PGSIZE = 0" and se: "vm_start (vmas k a) \<le> s" "s < e" "e \<le> vm_end (vmas k a)"
    and gap: "\<And>b. b \<in> set (mmap_list (mms k mm)) \<Longrightarrow> disjoint_vma (vmas k a) (vmas k b)"
  obtains k1 k2 v' where "vma_resize a s e k = Some k1" "insert_vma_struct mm a k1 = Some k2" "vmm_inv k2"
    "\<And>m. m \<noteq> mm \<Longrightarrow> mms k2 m = mms k m \<and> aspace k2 m = aspace k m" "vmas k2 = (vmas k)(a := v')"
    "vm_start v' = s" "vm_end v' = e" "set (mmap_list (mms k2 mm)) = insert a (set (mmap_list (mms k mm)))"
    "set (mem k2) \<subseteq> set (mem k)"
    "\<And>x f. aspace k2 mm x = Some f \<longleftrightarrow> aspace k mm x = Some f \<or> s \<le> x \<and> x < e \<and> vm_flags (vmas k a) = f"
proof -
  obtain v' where v': "vma_resize a s e k = Some (k\<lparr>vmas := (vmas k)(a := v')\<rparr>)" "vm_start v' = s" "vm_end v' = e"
    "vm_flags v' = vm_flags (vmas k a)" "vm_mm v' = vm_mm (vmas k a)"
    using vma_resize_ok [OF al se] by metis
  define k1 where "k1 = k\<lparr>vmas := (vmas k)(a := v')\<rparr>"
  have k1: "vmm_inv k1" "\<And>m. aspace k1 m = aspace k m" "fresh a k1"
    using fresh_upd_inv [OF inv(1,2)] inv(2) by (simp_all add: k1_def fresh_def)
  have na: "a \<notin> set (mmap_list (mms k mm))"
    using inv(2) by (simp add: fresh_def)
  have a1: "vma_ok mm ((vmas k1 a)\<lparr>vm_mm := mm\<rparr>)" "vm_start (vmas k1 a) < vm_end (vmas k1 a)"
    using inv(3) v' al se by (auto simp: k1_def vma_ok_def)
  have g1: "vm_end (vmas k1 b) \<le> vm_start (vmas k1 a) \<or> vm_end (vmas k1 a) \<le> vm_start (vmas k1 b)"
    if "b \<in> set (mmap_list (mms k1 mm))" for b
    using gap [of b] that na v' se by (auto simp: k1_def disjoint_vma_def intro: order.trans)
  have unmapped: "aspace k mm x = None" if "s \<le> x" "x < e" for x
  proof -
    have "covers (vmas k a) x"
      using that se by (auto simp: covers_def)
    then show ?thesis
      using gap disjoint_not_covers by (auto simp: aspace_def flags_at_None)
  qed
  show thesis
  proof (rule insert_vma_struct_spec [OF k1(1,3) a1 g1])
    fix k2 assume k2: "insert_vma_struct mm a k1 = Some k2" "vmm_inv k2" "\<And>m. m \<noteq> mm \<Longrightarrow> mms k2 m = mms k1 m"
      "vmas k2 = (vmas k1)(a := (vmas k1 a)\<lparr>vm_mm := mm\<rparr>)"
      "set (mmap_list (mms k2 mm)) = insert a (set (mmap_list (mms k1 mm)))"
      "aspace k2 mm = (\<lambda>x. if covers (vmas k1 a) x then Some (vm_flags (vmas k1 a)) else aspace k1 mm x)"
      "\<And>m. m \<noteq> mm \<Longrightarrow> aspace k2 m = aspace k1 m" "set (mem k2) \<subseteq> set (mem k1)"
    show thesis
    proof (rule that [of k1 k2 "v'\<lparr>vm_mm := mm\<rparr>"])
      show "aspace k2 mm x = Some f \<longleftrightarrow> aspace k mm x = Some f \<or> s \<le> x \<and> x < e \<and> vm_flags (vmas k a) = f" for x f
        using unmapped [of x] v' unfolding k2(6) k1(2) by (auto simp: covers_def k1_def)
    qed (use v' k1(2) k2(1-5,7,8) in \<open>auto simp: k1_def\<close>)
  qed
qed

lemma vma_destroy_ok:
  assumes "vm_flags (vmas k a) AND VM_SHARE \<noteq> 0 \<longrightarrow> shmem (vmas k a) \<noteq> None"
  obtains k' where "vma_destroy a k = Some k'" "vmas k' = vmas k" "mms k' = mms k" "mem k' = mem k"
  using assms that by (fastforce simp: vma_destroy_def shmem_ref_dec_def kfree_block_def split: if_splits)

lemma pt_call_log_simps [simp]:
  "vmas (pt_call_log c k) = vmas k" "mms (pt_call_log c k) = mms k" "mem (pt_call_log c k) = mem k"
  "vmm_inv (pt_call_log c k) = vmm_inv k" "aspace (pt_call_log c k) = aspace k" "fresh a (pt_call_log c k) = fresh a k"
  by (auto simp: pt_call_log_def vmm_inv_def mem_ok_def aspace_def fresh_def fun_eq_iff)

text \<open>The areas in \<open>free_list\<close>: taken out of the list, each meets the range, and none sticks out of it on both sides.\<close>

definition pending :: "addr \<Rightarrow> u32 \<Rightarrow> u32 \<Rightarrow> addr list \<Rightarrow> vmm \<Rightarrow> bool" where
  "pending mm start end' fs k \<longleftrightarrow> distinct fs \<and> (\<forall>a\<in>set fs. fresh a k \<and> vma_ok mm (vmas k a) \<and>
     vm_start (vmas k a) < vm_end (vmas k a) \<and> vm_start (vmas k a) < end' \<and> start < vm_end (vmas k a) \<and>
     \<not> (vm_start (vmas k a) < start \<and> end' < vm_end (vmas k a)) \<and>
     (vm_flags (vmas k a) AND VM_SHARE \<noteq> 0 \<longrightarrow> shmem (vmas k a) \<noteq> None) \<and>
     (\<forall>b\<in>set fs. a \<noteq> b \<longrightarrow> disjoint_vma (vmas k a) (vmas k b)) \<and>
     (\<forall>b\<in>set (mmap_list (mms k mm)). disjoint_vma (vmas k a) (vmas k b)))"

lemma pending_next:
  assumes "pending mm start end' (a # fs) k"
    and k': "\<And>m. m \<noteq> mm \<Longrightarrow> mms k' m = mms k m" "set (mem k') \<subseteq> set (mem k)" "\<And>b. b \<noteq> a \<Longrightarrow> vmas k' b = vmas k b"
      "set (mmap_list (mms k' mm)) \<subseteq> insert a (set (mmap_list (mms k mm)))"
      "vm_start (vmas k a) \<le> vm_start (vmas k' a)" "vm_end (vmas k' a) \<le> vm_end (vmas k a)"
  shows "pending mm start end' fs k'"
proof -
  have ne: "b \<noteq> a" if "b \<in> set fs" for b
    using assms(1) that by (auto simp: pending_def)
  have "fresh b k'" if "b \<in> set fs" for b
  proof -
    have "fresh b k" using assms(1) that by (simp add: pending_def)
    then have "b \<notin> set (mmap_list (mms k' m))" for m
      using k'(1) [of m] k'(4) ne [OF that] by (cases "m = mm") (auto simp: fresh_def)
    then show ?thesis
      using \<open>fresh b k\<close> k'(2) by (auto simp: fresh_def)
  qed
  moreover have "disjoint_vma (vmas k' b) (vmas k' c)" if "b \<in> set fs" "c \<in> set (mmap_list (mms k' mm))" for b c
  proof (cases "c = a")
    case True
    have "disjoint_vma (vmas k b) (vmas k a)"
      using assms(1) that(1) ne by (auto simp: pending_def)
    then show ?thesis
      using True k'(3) [OF ne [OF that(1)]] k'(5,6) by (auto simp: disjoint_vma_def intro: order.trans)
  next
    case False
    then have "c \<in> set (mmap_list (mms k mm))"
      using that(2) k'(4) by auto
    then show ?thesis
      using assms(1) that(1) k'(3) [OF False] k'(3) [OF ne [OF that(1)]] by (simp add: pending_def)
  qed
  ultimately show ?thesis
    using assms(1) k'(3) ne by (auto simp: pending_def)
qed


definition outside :: "u32 \<Rightarrow> u32 \<Rightarrow> addr list \<Rightarrow> vmm \<Rightarrow> u32 \<Rightarrow> u32 \<Rightarrow> bool" where
  "outside start end' fs k x f \<longleftrightarrow> (\<exists>a\<in>set fs. covers (vmas k a) x \<and> \<not> (start \<le> x \<and> x < end') \<and> vm_flags (vmas k a) = f)"

lemma outside_Cons:
  "outside start end' (a # fs) k x f \<longleftrightarrow>
     covers (vmas k a) x \<and> \<not> (start \<le> x \<and> x < end') \<and> vm_flags (vmas k a) = f \<or> outside start end' fs k x f"
  by (auto simp: outside_def)

lemma outside_cong: "(\<And>b. b \<in> set fs \<Longrightarrow> vmas k' b = vmas k b) \<Longrightarrow> outside start end' fs k' x f = outside start end' fs k x f"
  by (auto simp: outside_def)

lemma unmap_free_ok:
  assumes "vmm_inv k" "pending mm start end' fs k" "start mod PGSIZE = 0" "end' mod PGSIZE = 0" "start < end'"
  shows "\<exists>k'. unmap_free mm start end' fs k = Some k' \<and> vmm_inv k' \<and> (\<forall>m. m \<noteq> mm \<longrightarrow> aspace k' m = aspace k m) \<and>
     (\<forall>x f. aspace k' mm x = Some f \<longleftrightarrow> aspace k mm x = Some f \<or> outside start end' fs k x f)"
  using assms
proof (induction fs arbitrary: k)
  case Nil
  then show ?case by (simp add: outside_def)
next
  case (Cons a fs)
  let ?v = "vmas k a"
  have a: "fresh a k" "vma_ok mm ?v" "vm_start ?v < vm_end ?v" "vm_start ?v < end'" "start < vm_end ?v"
      "\<not> (vm_start ?v < start \<and> end' < vm_end ?v)" "vm_flags ?v AND VM_SHARE \<noteq> 0 \<longrightarrow> shmem ?v \<noteq> None"
      "\<And>b. b \<in> set (mmap_list (mms k mm)) \<Longrightarrow> disjoint_vma ?v (vmas k b)" "a \<notin> set fs"
    using Cons.prems(2) by (auto simp: pending_def)
  have al: "vm_start ?v mod PGSIZE = 0" "vm_end ?v mod PGSIZE = 0"
    using a(2) by (auto simp: vma_ok_def)
  text \<open>The rest of the loop from a state \<open>k2\<close> in which \<open>a\<close> was dealt with.\<close>
  have rest: "\<exists>k'. unmap_free mm start end' fs (pt_call_log c k2) = Some k' \<and> vmm_inv k' \<and>
      (\<forall>m. m \<noteq> mm \<longrightarrow> aspace k' m = aspace k m) \<and>
      (\<forall>x f. aspace k' mm x = Some f \<longleftrightarrow> aspace k mm x = Some f \<or> outside start end' (a # fs) k x f)"
    if k2: "vmm_inv k2" "\<And>m. m \<noteq> mm \<Longrightarrow> mms k2 m = mms k m \<and> aspace k2 m = aspace k m" "vmas k2 = (vmas k)(a := v')"
      "vm_start ?v \<le> vm_start v'" "vm_end v' \<le> vm_end ?v"
      "set (mmap_list (mms k2 mm)) \<subseteq> insert a (set (mmap_list (mms k mm)))" "set (mem k2) \<subseteq> set (mem k)"
      "\<And>x f. aspace k2 mm x = Some f \<longleftrightarrow> aspace k mm x = Some f \<or>
         covers ?v x \<and> \<not> (start \<le> x \<and> x < end') \<and> vm_flags ?v = f" for k2 v' c
  proof -
    have "pending mm start end' fs (pt_call_log c k2)"
      by (rule pending_next [OF Cons.prems(2)]) (use k2 in auto)
    moreover have "outside start end' fs (pt_call_log c k2) x f = outside start end' fs k x f" for x f
      using a(9) k2(3) by (intro outside_cong) auto
    ultimately show ?thesis
      using Cons.IH [of "pt_call_log c k2"] Cons.prems(3-5) k2(1,2,8) by (simp add: outside_Cons disj_assoc)
  qed
  show ?case
  proof (cases "vm_start ?v < start")
    case True
    show ?thesis
    proof (rule resize_insert [OF Cons.prems(1) a(1,2) al(1) Cons.prems(3), OF order.refl True _ a(8)])
      show "start \<le> vm_end ?v" using a(5) by simp
      fix k1 k2 v' assume k2: "vma_resize a (vm_start ?v) start k = Some k1" "insert_vma_struct mm a k1 = Some k2" "vmm_inv k2"
        "\<And>m. m \<noteq> mm \<Longrightarrow> mms k2 m = mms k m \<and> aspace k2 m = aspace k m" "vmas k2 = (vmas k)(a := v')"
        "vm_start v' = vm_start ?v" "vm_end v' = start" "set (mmap_list (mms k2 mm)) = insert a (set (mmap_list (mms k mm)))"
        "set (mem k2) \<subseteq> set (mem k)"
        "\<And>x f. aspace k2 mm x = Some f \<longleftrightarrow> aspace k mm x = Some f \<or> vm_start ?v \<le> x \<and> x < start \<and> vm_flags ?v = f"
      have "vm_start ?v \<le> x \<and> x < start \<longleftrightarrow> covers ?v x \<and> \<not> (start \<le> x \<and> x < end')" for x
        using True a(5,6) by (auto simp: covers_def)
      then have "aspace k2 mm x = Some f \<longleftrightarrow> aspace k mm x = Some f \<or>
         covers ?v x \<and> \<not> (start \<le> x \<and> x < end') \<and> vm_flags ?v = f" for x f
        unfolding k2(10) by blast
      moreover have "vm_end v' \<le> vm_end ?v"
        using k2(7) a(5) by simp
      ultimately have "\<exists>k'. unmap_free mm start end' fs (pt_call_log (Unmap_range (pgdir (mms k2 mm)) start (vm_end ?v)) k2) = Some k' \<and>
          vmm_inv k' \<and> (\<forall>m. m \<noteq> mm \<longrightarrow> aspace k' m = aspace k m) \<and>
          (\<forall>x f. aspace k' mm x = Some f \<longleftrightarrow> aspace k mm x = Some f \<or> outside start end' (a # fs) k x f)"
        by (intro rest [OF k2(3-5)]) (use k2(6,8,9) in auto)
      then show ?thesis
        using True k2(1,2) by (simp add: Let_def)
    qed
  next
    case ge: False
    show ?thesis
    proof (cases "end' < vm_end ?v")
      case True
      show ?thesis
      proof (rule resize_insert [OF Cons.prems(1) a(1,2) Cons.prems(4) al(2), OF _ True order.refl a(8)])
        show "vm_start ?v \<le> end'" using a(4) by simp
        fix k1 k2 v' assume k2: "vma_resize a end' (vm_end ?v) k = Some k1" "insert_vma_struct mm a k1 = Some k2" "vmm_inv k2"
          "\<And>m. m \<noteq> mm \<Longrightarrow> mms k2 m = mms k m \<and> aspace k2 m = aspace k m" "vmas k2 = (vmas k)(a := v')"
          "vm_start v' = end'" "vm_end v' = vm_end ?v" "set (mmap_list (mms k2 mm)) = insert a (set (mmap_list (mms k mm)))"
          "set (mem k2) \<subseteq> set (mem k)"
          "\<And>x f. aspace k2 mm x = Some f \<longleftrightarrow> aspace k mm x = Some f \<or> end' \<le> x \<and> x < vm_end ?v \<and> vm_flags ?v = f"
        have "end' \<le> x \<and> x < vm_end ?v \<longleftrightarrow> covers ?v x \<and> \<not> (start \<le> x \<and> x < end')" for x
          using True ge a(4) by (auto simp: covers_def)
        then have "aspace k2 mm x = Some f \<longleftrightarrow> aspace k mm x = Some f \<or>
           covers ?v x \<and> \<not> (start \<le> x \<and> x < end') \<and> vm_flags ?v = f" for x f
          unfolding k2(10) by blast
        moreover have "vm_start ?v \<le> vm_start v'"
          using k2(6) a(4) by simp
        ultimately have "\<exists>k'. unmap_free mm start end' fs (pt_call_log (Unmap_range (pgdir (mms k2 mm)) (vm_start ?v) end') k2) = Some k' \<and>
            vmm_inv k' \<and> (\<forall>m. m \<noteq> mm \<longrightarrow> aspace k' m = aspace k m) \<and>
            (\<forall>x f. aspace k' mm x = Some f \<longleftrightarrow> aspace k mm x = Some f \<or> outside start end' (a # fs) k x f)"
          by (intro rest [OF k2(3-5)]) (use k2(7,8,9) in auto)
        then show ?thesis
          using True ge k2(1,2) by (simp add: Let_def)
      qed
    next
      case False
      obtain k2 where k2: "vma_destroy a k = Some k2" "vmas k2 = vmas k" "mms k2 = mms k" "mem k2 = mem k"
        using vma_destroy_ok [OF a(7)] by metis
      then have "vmm_inv k2" "aspace k2 = aspace k"
        using Cons.prems(1) by (auto simp: vmm_inv_def mem_ok_def aspace_def intro!: ext)
      moreover have "aspace k mm x = Some f \<longleftrightarrow> aspace k mm x = Some f \<or>
          covers ?v x \<and> \<not> (start \<le> x \<and> x < end') \<and> vm_flags ?v = f" for x f
        using False ge by (auto simp: covers_def)
      ultimately have "\<exists>k'. unmap_free mm start end' fs (pt_call_log (Unmap_range (pgdir (mms k2 mm)) (vm_start ?v) (vm_end ?v)) k2) = Some k' \<and>
          vmm_inv k' \<and> (\<forall>m. m \<noteq> mm \<longrightarrow> aspace k' m = aspace k m) \<and>
          (\<forall>x f. aspace k' mm x = Some f \<longleftrightarrow> aspace k mm x = Some f \<or> outside start end' (a # fs) k x f)"
        by (intro rest [of k2 ?v]) (use k2(2-4) in auto)
      then show ?thesis
        using ge False k2(1) by (simp add: Let_def)
    qed
  qed
qed

subsection \<open>Unmapping a range\<close>

text \<open>A shared area has its shared memory object.\<close>

definition shares_ok :: "vmm \<Rightarrow> addr \<Rightarrow> bool" where
  "shares_ok k mm \<longleftrightarrow> (\<forall>a\<in>set (mmap_list (mms k mm)). vm_flags (vmas k a) AND VM_SHARE \<noteq> 0 \<longrightarrow> shmem (vmas k a) \<noteq> None)"

text \<open>What unmapping a range does to an address space.\<close>

definition cut :: "u32 \<Rightarrow> u32 \<Rightarrow> (u32 \<Rightarrow> u32 option) \<Rightarrow> u32 \<Rightarrow> u32 option" where
  "cut start end' F x = (if start \<le> x \<and> x < end' then None else F x)"

lemma cut_free: "(\<And>x. start \<le> x \<Longrightarrow> x < end' \<Longrightarrow> F x = None) \<Longrightarrow> cut start end' F = F"
  by (auto simp: cut_def)

lemma cut_iff: "cut start end' F x = Some f \<longleftrightarrow> F x = Some f \<and> \<not> (start \<le> x \<and> x < end')"
  by (simp add: cut_def)

text \<open>An area that contains the range in its interior is split.\<close>

lemma unmap_split:
  assumes inv: "vmm_inv k" "memory_left k" and w: "w \<in> set (mmap_list (mms k mm))"
    and r: "vm_start (vmas k w) < start" "start < end'" "end' < vm_end (vmas k w)"
    and al: "start mod PGSIZE = 0" "end' mod PGSIZE = 0"
  obtains n k1 k2 k' where "vma_create (vm_start (vmas k w)) start (vm_flags (vmas k w)) k = (Some n, k1)" "vmas k1 w = vmas k w"
    "vma_resize w end' (vm_end (vmas k w)) k1 = Some k2" "insert_vma_struct mm n k2 = Some k'" "vmm_inv k'"
    "\<And>m. m \<noteq> mm \<Longrightarrow> aspace k' m = aspace k m" "aspace k' mm = cut start end' (aspace k mm)"
    "n \<in> set (mmap_list (mms k' mm))" "vm_flags (vmas k' n) = vm_flags (vmas k w)" "shmem (vmas k' n) = None"
proof -
  let ?v = "vmas k w"
  have ok: "vma_ok mm ?v" and o: "ordered (vmas k) (mmap_list (mms k mm))"
    using vmm_inv_vma [OF inv(1) w] vmm_inv_ordered [OF inv(1)] by auto
  obtain n k1 where k1: "vma_create (vm_start ?v) start (vm_flags ?v) k = (Some n, k1)" "vmm_inv k1" "fresh n k1" "mms k1 = mms k"
    "vmas k1 = (vmas k)(n := (vmas k n)\<lparr>vm_start := vm_start ?v, vm_end := start, vm_flags := vm_flags ?v, shmem := None, shmem_off := 0\<rparr>)"
    "\<And>m. aspace k1 m = aspace k m"
    using vma_create_Some [OF inv] by metis
  have nw: "n \<noteq> w" "n \<notin> set (mmap_list (mms k m))" for m
    using k1(3,4) w by (auto simp: fresh_def)
  obtain v' where v': "vma_resize w end' (vm_end ?v) k1 = Some (k1\<lparr>vmas := (vmas k1)(w := v')\<rparr>)" "vm_start v' = end'"
      "vm_end v' = vm_end ?v" "vm_flags v' = vm_flags ?v" "vm_mm v' = vm_mm ?v"
    by (rule vma_resize_ok [of end' "vm_end ?v" k1 w]) (use al r ok nw(1) k1(5) in \<open>auto simp: vma_ok_def\<close>)
  define k2 where "k2 = k1\<lparr>vmas := (vmas k1)(w := v')\<rparr>"
  have w1: "vmas k1 w = ?v"
    using k1(5) nw(1) by simp
  have inv2: "vmm_inv k2"
    unfolding k2_def
    by (rule shrink_inv [OF k1(2), of w mm]) (use w k1(4) w1 v' r ok al in \<open>auto simp: vma_ok_def\<close>)
  have f2: "fresh n k2"
    using k1(3) by (simp add: k2_def fresh_def)
  have n2: "vm_start (vmas k2 n) = vm_start ?v" "vm_end (vmas k2 n) = start" "vm_flags (vmas k2 n) = vm_flags ?v"
    using nw(1) by (simp_all add: k2_def k1(5))
  have n2': "vma_ok mm ((vmas k2 n)\<lparr>vm_mm := mm\<rparr>)" "vm_start (vmas k2 n) < vm_end (vmas k2 n)"
    using ok r al n2 by (auto simp: vma_ok_def)
  have other: "vmas k2 a = vmas k a" if "a \<in> set (mmap_list (mms k m))" "a \<noteq> w" for a m
    using that nw(2) by (auto simp: k2_def k1(5))
  have gap: "vm_end (vmas k2 a) \<le> vm_start (vmas k2 n) \<or> vm_end (vmas k2 n) \<le> vm_start (vmas k2 a)"
    if "a \<in> set (mmap_list (mms k2 mm))" for a
  proof (cases "a = w")
    case True
    then show ?thesis using v' r n2 by (auto simp: k2_def)
  next
    case False
    then have "disjoint_vma (vmas k a) ?v"
      using ordered_disjoint [OF o _ w, of a] that by (simp add: k2_def k1(4))
    then show ?thesis
      using other [of a mm] False that n2 r by (auto simp: k2_def k1(4) disjoint_vma_def)
  qed
  show thesis
  proof (rule insert_vma_struct_spec [OF inv2 f2 n2' gap])
    fix k' assume k': "insert_vma_struct mm n k2 = Some k'" "vmm_inv k'"
      "aspace k' mm = (\<lambda>x. if covers (vmas k2 n) x then Some (vm_flags (vmas k2 n)) else aspace k2 mm x)"
      "\<And>m. m \<noteq> mm \<Longrightarrow> aspace k' m = aspace k2 m"
      "vmas k' = (vmas k2)(n := (vmas k2 n)\<lparr>vm_mm := mm\<rparr>)" "set (mmap_list (mms k' mm)) = insert n (set (mmap_list (mms k2 mm)))"
    have "aspace k' mm = cut start end' (aspace k mm)"
    proof (rule aspace_eqI)
      fix x f
      let ?xs = "set (mmap_list (mms k mm))"
      have one: "a = w" if "a \<in> ?xs" "covers (vmas k a) x" "covers ?v x" for a
        using ordered_disjoint [OF o that(1) w] disjoint_not_covers that(2,3) by blast
      have each: "covers (vmas k2 a) x \<and> vm_flags (vmas k2 a) = f \<longleftrightarrow>
          covers (vmas k a) x \<and> vm_flags (vmas k a) = f \<and> (a = w \<longrightarrow> end' \<le> x)" if "a \<in> ?xs" for a
        using other [OF that] v' r by (cases "a = w") (auto simp: k2_def covers_def)
      have mid: "aspace k2 mm x = Some f \<longleftrightarrow>
          (\<exists>a\<in>?xs. covers (vmas k a) x \<and> vm_flags (vmas k a) = f \<and> (a = w \<longrightarrow> end' \<le> x))"
        using aspace_iff [OF inv2, of mm x f] each by (simp add: k2_def k1(4))
      have orig: "aspace k mm x = Some f \<longleftrightarrow> (\<exists>a\<in>?xs. covers (vmas k a) x \<and> vm_flags (vmas k a) = f)"
        by (rule aspace_iff [OF inv(1)])
      show "aspace k' mm x = Some f \<longleftrightarrow> cut start end' (aspace k mm) x = Some f"
      proof (cases "covers ?v x")
        case True
        then have "aspace k mm x = Some f \<longleftrightarrow> vm_flags ?v = f" "aspace k2 mm x = Some f \<longleftrightarrow> end' \<le> x \<and> vm_flags ?v = f"
          unfolding mid orig using one w by blast+
        then show ?thesis
          unfolding k'(3) cut_iff using n2 True r by (auto simp: covers_def)
      next
        case False
        then have "aspace k2 mm x = Some f \<longleftrightarrow> aspace k mm x = Some f"
          unfolding mid orig by blast
        then show ?thesis
          unfolding k'(3) cut_iff using n2 False r by (auto simp: covers_def)
      qed
    qed
    moreover have "aspace k' m = aspace k m" if "m \<noteq> mm" for m
    proof -
      have "w \<notin> set (mmap_list (mms k m))"
        using owner_unique [OF inv(1) w] that by blast
      then have "aspace k2 m = aspace k m"
        using other [of _ m] by (intro aspace_outside) (auto simp: k2_def k1(4))
      then show ?thesis using k'(4) that by simp
    qed
    moreover have "shmem (vmas k2 n) = None"
      using nw(1) by (simp add: k2_def k1(5))
    ultimately show thesis
      using that [OF k1(1) w1] v'(1) k'(1,2,5,6) n2(3) by (simp add: k2_def)
  qed
qed


lemma ordered_dropWhile:
  assumes "ordered st xs" "d \<in> set (dropWhile (\<lambda>a. vm_start (st a) < e) xs)"
  shows "e \<le> vm_start (st d)"
  using assms
proof (induction xs)
  case (Cons x xs)
  show ?case
  proof (cases "vm_start (st x) < e")
    case True
    then show ?thesis using Cons by (simp add: ordered_Cons)
  next
    case False
    moreover have "vm_start (st x) \<le> vm_start (st d)"
      using Cons.prems False by (auto simp: ordered_Cons)
    ultimately show ?thesis by simp
  qed
qed simp

lemma dropWhile_neq: "v \<notin> set A \<Longrightarrow> dropWhile (\<lambda>a. a \<noteq> v) (A @ v # B) = v # B"
  by (induction A) auto

text \<open>The general case: the areas that meet the range are taken out, shortened and put back or freed.\<close>

lemma unmap_range_areas:
  assumes inv: "vmm_inv k" "shares_ok k mm" and v: "find_vma_list (vmas k) (mmap_list (mms k mm)) start = Some v"
    and r: "vm_start (vmas k v) < end'" "\<not> (vm_start (vmas k v) < start \<and> end' < vm_end (vmas k v))" "start < end'"
    and al: "start mod PGSIZE = 0" "end' mod PGSIZE = 0"
  obtains fl k1 k' where "unmap_collect mm end' (dropWhile (\<lambda>a. a \<noteq> v) (mmap_list (mms k mm))) [] k = Some (fl, k1)"
    "unmap_free mm start end' fl k1 = Some k'" "vmm_inv k'"
    "\<And>m. m \<noteq> mm \<Longrightarrow> aspace k' m = aspace k m" "aspace k' mm = cut start end' (aspace k mm)"
proof -
  let ?st = "vmas k"
  obtain A B where xs: "mmap_list (mms k mm) = A @ v # B" "\<forall>a\<in>set A. vm_end (?st a) \<le> start" "start < vm_end (?st v)"
    using v by (rule find_vma_list_Some)
  have o: "ordered ?st (A @ v # B)"
    using vmm_inv_ordered [OF inv(1), of mm] xs(1) by simp
  then have d: "distinct (A @ v # B)"
    by (rule ordered_distinct)
  have ov: "ordered ?st (v # B)" using o by (simp add: ordered_append)
  define C where "C = takeWhile (\<lambda>a. vm_start (?st a) < end') (v # B)"
  define D where "D = dropWhile (\<lambda>a. vm_start (?st a) < end') (v # B)"
  have CD: "C @ D = v # B" by (simp add: C_def D_def)
  have C: "vm_start (?st a) < end'" if "a \<in> set C" for a
    using that unfolding C_def by (rule set_takeWhileD [THEN conjunct2])
  have D: "end' \<le> vm_start (?st a)" if "a \<in> set D" for a
    using ordered_dropWhile [OF ov] that by (simp add: D_def)
  obtain k1 where k1: "unmap_collect mm end' (v # B) [] k = Some (rev C, k1)" "vmm_inv k1"
     "vmas k1 = ?st" "mem k1 = mem k" "\<And>m. m \<noteq> mm \<Longrightarrow> mms k1 m = mms k m" "mmap_list (mms k1 mm) = A @ D"
    using unmap_collect_ok [OF inv(1) xs(1), of end' "[]"] unfolding C_def D_def by auto
  have xsCD: "mmap_list (mms k mm) = A @ C @ D" "distinct (A @ C @ D)"
    using CD xs(1) d by simp_all
  have inC: "a \<in> set (mmap_list (mms k mm))" if "a \<in> set C" for a
    using that xsCD(1) by simp
  have C': "start < vm_end (?st a)" "\<not> (vm_start (?st a) < start \<and> end' < vm_end (?st a))" "vm_start (?st a) < vm_end (?st a)"
    if "a \<in> set C" for a
  proof -
    have "a \<in> set (v # B)" using that CD by (metis Un_iff set_append)
    then show "vm_start (?st a) < vm_end (?st a)" using ov by (auto simp: ordered_def)
    then show "start < vm_end (?st a)" "\<not> (vm_start (?st a) < start \<and> end' < vm_end (?st a))"
      using \<open>a \<in> set (v # B)\<close> ov xs(3) r(2) by (auto simp: ordered_Cons)
  qed
  have fr: "fresh a k1" if "a \<in> set C" for a
  proof -
    have "a \<notin> set (mmap_list (mms k1 m))" for m
      using owner_unique [OF inv(1) inC [OF that]] k1(5) [of m] k1(6) xsCD(2) that by (cases "m = mm") auto
    moreover have "Some a \<notin> set (mem k)"
      using inv(1) inC [OF that] by (auto simp: vmm_inv_def mem_ok_def)
    ultimately show ?thesis by (simp add: fresh_def k1(4))
  qed
  have dj: "disjoint_vma (?st a) (?st b)" if "a \<in> set C" "b \<in> set (A @ C @ D)" "a \<noteq> b" for a b
    by (rule ordered_disjoint [OF o [folded CD] _ that(2,3)]) (use that(1) in simp)
  have "pending mm start end' (rev C) k1"
    unfolding pending_def
  proof (intro conjI ballI)
    fix a assume a: "a \<in> set (rev C)"
    then show "fresh a k1" "vma_ok mm (vmas k1 a)"
      using fr vmm_inv_vma [OF inv(1) inC] by (simp_all add: k1(3))
    show "vm_flags (vmas k1 a) AND VM_SHARE \<noteq> 0 \<longrightarrow> shmem (vmas k1 a) \<noteq> None"
      using inv(2) inC a by (auto simp: shares_ok_def k1(3))
    fix b assume b: "b \<in> set (mmap_list (mms k1 mm))"
    then show "disjoint_vma (vmas k1 a) (vmas k1 b)"
      using dj [of a b] a xsCD(2) by (auto simp: k1(3,6))
  qed (use xsCD(2) C C' dj in \<open>auto simp: k1(3)\<close>)
  then obtain k' where k': "unmap_free mm start end' (rev C) k1 = Some k'" "vmm_inv k'" "\<And>m. m \<noteq> mm \<Longrightarrow> aspace k' m = aspace k1 m"
     "\<And>x f. aspace k' mm x = Some f \<longleftrightarrow> aspace k1 mm x = Some f \<or> outside start end' (rev C) k1 x f"
    using unmap_free_ok [OF k1(2) _ al r(3)] by blast
  have "aspace k' mm = cut start end' (aspace k mm)"
  proof (rule aspace_eqI)
    fix x f
    have "aspace k1 mm x = Some f \<longleftrightarrow> (\<exists>a\<in>set A \<union> set D. covers (?st a) x \<and> vm_flags (?st a) = f)"
      using aspace_iff [OF k1(2), of mm x f] by (simp add: k1(3,6))
    moreover have "aspace k mm x = Some f \<longleftrightarrow> (\<exists>a\<in>set A \<union> set C \<union> set D. covers (?st a) x \<and> vm_flags (?st a) = f)"
      using aspace_iff [OF inv(1), of mm x f] by (simp add: xsCD(1) Un_assoc)
    moreover have "\<not> (start \<le> x \<and> x < end')" if "a \<in> set A \<union> set D" "covers (?st a) x" for a
      using that xs(2) D by (force simp: covers_def)
    ultimately show "aspace k' mm x = Some f \<longleftrightarrow> cut start end' (aspace k mm) x = Some f"
      unfolding k'(4) cut_iff outside_def k1(3) set_rev by blast
  qed
  moreover have "aspace k' m = aspace k m" if "m \<noteq> mm" for m
    using k'(3) [OF that] k1(3,5) that by (simp add: aspace_def)
  moreover have "dropWhile (\<lambda>a. a \<noteq> v) (mmap_list (mms k mm)) = v # B"
    using xs(1) d by (simp add: dropWhile_neq)
  ultimately show thesis
    using that [of "rev C" k1 k'] k1(1) k'(1,2) by simp
qed

lemma inside_iff:
  assumes "ordered st xs" "find_vma_list st xs start = Some v" "start < end'"
  shows "(\<exists>u\<in>set xs. vm_start (st u) < start \<and> end' < vm_end (st u)) \<longleftrightarrow> vm_start (st v) < start \<and> end' < vm_end (st v)"
proof -
  obtain A B where xs: "xs = A @ v # B" "\<forall>a\<in>set A. vm_end (st a) \<le> start" "start < vm_end (st v)"
    using assms(2) by (rule find_vma_list_Some)
  have "\<not> (vm_start (st u) < start)" if "u \<in> set B" for u
    using assms(1) that xs(3) unfolding xs(1) by (auto simp: ordered_append ordered_Cons)
  moreover have "\<not> end' < vm_end (st u)" if "u \<in> set A" for u
    using xs(2) that assms(3) by fastforce
  ultimately show ?thesis
    unfolding xs(1) by auto
qed

lemma mm_unmap_user:
  assumes inv: "vmm_inv k" "shares_ok k mm" and start: "start = ROUNDDOWN addr PGSIZE" and end': "end' = ROUNDUP (addr + len) PGSIZE"
    and ua: "USER_ACCESS start end'"
  obtains ret k' where "mm_unmap (Some mm) addr len k = Some (ret, k')" "vmm_inv k'" "\<And>m. m \<noteq> mm \<Longrightarrow> aspace k' m = aspace k m"
    "if (\<exists>v\<in>set (mmap_list (mms k mm)). vm_start (vmas k v) < start \<and> end' < vm_end (vmas k v)) \<and> \<not> memory_left k
     then ret = - E_NO_MEM \<and> aspace k' mm = aspace k mm else ret = 0 \<and> aspace k' mm = cut start end' (aspace k mm)"
proof -
  let ?xs = "mmap_list (mms k mm)" and ?st = "vmas k"
  have al: "start mod PGSIZE = 0" "end' mod PGSIZE = 0" and lt: "start < end'"
    using ua by (simp_all add: start end' USER_ACCESS_def)
  have o: "ordered ?st ?xs"
    using inv(1) by (rule vmm_inv_ordered)
  obtain k1 where k1: "find_vma (Some mm) start k = (find_vma_list ?st ?xs start, k1)"
    "vmm_inv k1" "vmas k1 = ?st" "\<And>m. mmap_list (mms k1 m) = mmap_list (mms k m)" "\<And>m. aspace k1 m = aspace k m"
    "mem k1 = mem k"
    using find_vma_step [OF inv(1)] by metis
  have mem1: "memory_left k1 = memory_left k" and sh1: "shares_ok k1 mm"
    using k1(3,4,6) inv(2) by (simp_all add: memory_left_def shares_ok_def)
  note step = mm_unmap_def [of "Some mm" addr len k, unfolded start [symmetric] end' [symmetric] Let_def bind.simps k1(1) prod.case k1(3)]
  let ?inside = "\<exists>v\<in>set ?xs. vm_start (?st v) < start \<and> end' < vm_end (?st v)"
  show thesis
  proof (cases "case find_vma_list ?st ?xs start of None \<Rightarrow> True | Some w \<Rightarrow> end' \<le> vm_start (?st w)")
    case True
    then have gap: "\<And>a. a \<in> set ?xs \<Longrightarrow> vm_end (?st a) \<le> start \<or> end' \<le> vm_start (?st a)"
      using find_vma_list_gap [OF o lt] by blast
    then have "aspace k mm x = None" if "start \<le> x" "x < end'" for x
      using that by (force simp: aspace_def flags_at_None covers_def)
    then have "cut start end' (aspace k mm) = aspace k mm"
      by (rule cut_free)
    moreover have "\<not> ?inside"
      using gap lt by fastforce
    ultimately show thesis
      using that [of 0 k1] True ua k1(2,5) by (auto simp: step split: option.splits)
  next
    case False
    then obtain v where v: "find_vma_list ?st ?xs start = Some v" "vm_start (?st v) < end'" "\<not> end' \<le> vm_start (?st v)"
      by (auto split: option.splits)
    have vin: "v \<in> set ?xs"
      using v(1) by (metis find_vma_list_Some in_set_conv_decomp)
    have inside: "?inside \<longleftrightarrow> vm_start (?st v) < start \<and> end' < vm_end (?st v)"
      using inside_iff [OF o v(1) lt] .
    show thesis
    proof (cases ?inside)
      case ins: True
      show thesis
      proof (cases "memory_left k")
        case True
        show thesis
        proof (rule unmap_split [OF k1(2), of v mm start end'])
          fix n k2 k3 k' assume "vma_create (vm_start (vmas k1 v)) start (vm_flags (vmas k1 v)) k1 = (Some n, k2)" "vmas k2 v = vmas k1 v"
            "vma_resize v end' (vm_end (vmas k1 v)) k2 = Some k3" "insert_vma_struct mm n k3 = Some k'" "vmm_inv k'"
            "\<And>m. m \<noteq> mm \<Longrightarrow> aspace k' m = aspace k1 m" "aspace k' mm = cut start end' (aspace k1 mm)"
          then show thesis
            using that [of 0 "pt_call_log (Unmap_range (pgdir (mms k' mm)) start end') k'"] ua v ins inside True
            by (simp add: step k1(3,5))
        qed (use True mem1 vin ins inside lt al k1(3,4) in auto)
      next
        case False
        then obtain k2 where "vma_create (vm_start (?st v)) start (vm_flags (?st v)) k1 = (None, k2)" "vmm_inv k2" "vmas k2 = vmas k1" "mms k2 = mms k1"
          using vma_create_None [OF k1(2)] mem1 by metis
        then show thesis
          using that [of "- E_NO_MEM" k2] ua v ins inside False k1(3-5) by (simp add: step aspace_def)
      qed
    next
      case ins: False
      show thesis
      proof (rule unmap_range_areas [OF k1(2) sh1, of start v end'])
        fix fl k2 k' assume "unmap_collect mm end' (dropWhile (\<lambda>a. a \<noteq> v) (mmap_list (mms k1 mm))) [] k1 = Some (fl, k2)"
          "unmap_free mm start end' fl k2 = Some k'" "vmm_inv k'"
          "\<And>m. m \<noteq> mm \<Longrightarrow> aspace k' m = aspace k1 m" "aspace k' mm = cut start end' (aspace k1 mm)"
        moreover from this have "mm_unmap (Some mm) addr len k = Some (0, k')"
          using ua v ins inside by (auto simp: step)
        ultimately show thesis
          using that [of 0 k'] ins by (simp add: k1(5))
      qed (use v ins inside lt al k1(3,4) in auto)
    qed
  qed
qed

text \<open>C6: \<open>mm_unmap\<close> refines cutting a range out of an address space.  On a well-formed state in which every shared area has its shared memory object it never panics, keeps the state
  well formed and leaves the other address spaces alone; afterwards exactly the addresses of the page range are
  unmapped and all others keep their flags.  It fails with -E_INVAL for a range outside user space, and with -E_NO_MEM, and
  without effect, only if the range is inside one area and no vma for the second half can be allocated.\<close>

theorem mm_unmap_correct:
  assumes inv: "vmm_inv k" "shares_ok k mm"
  shows "\<exists>ret k'. mm_unmap (Some mm) addr len k = Some (ret, k') \<and> vmm_inv k' \<and>
     (\<forall>m. m \<noteq> mm \<longrightarrow> aspace k' m = aspace k m) \<and>
     (let start = ROUNDDOWN addr PGSIZE; end' = ROUNDUP (addr + len) PGSIZE in
      if \<not> USER_ACCESS start end' then ret = - E_INVAL \<and> aspace k' mm = aspace k mm
      else if (\<exists>v\<in>set (mmap_list (mms k mm)). vm_start (vmas k v) < start \<and> end' < vm_end (vmas k v)) \<and> \<not> memory_left k
      then ret = - E_NO_MEM \<and> aspace k' mm = aspace k mm
      else ret = 0 \<and> aspace k' mm = cut start end' (aspace k mm))"
proof (cases "USER_ACCESS (ROUNDDOWN addr PGSIZE) (ROUNDUP (addr + len) PGSIZE)")
  case False
  then show ?thesis
    using inv(1) by (simp add: mm_unmap_def)
next
  case True
  then show ?thesis
  proof (rule mm_unmap_user [OF inv refl refl])
    fix ret k'
    assume "mm_unmap (Some mm) addr len k = Some (ret, k')" "vmm_inv k'" "\<And>m. m \<noteq> mm \<Longrightarrow> aspace k' m = aspace k m"
      "if (\<exists>v\<in>set (mmap_list (mms k mm)). vm_start (vmas k v) < ROUNDDOWN addr PGSIZE \<and> ROUNDUP (addr + len) PGSIZE < vm_end (vmas k v)) \<and> \<not> memory_left k
       then ret = - E_NO_MEM \<and> aspace k' mm = aspace k mm
       else ret = 0 \<and> aspace k' mm = cut (ROUNDDOWN addr PGSIZE) (ROUNDUP (addr + len) PGSIZE) (aspace k mm)"
    with True show ?thesis
      unfolding Let_def by auto
  qed
qed


lemma demo_vmm_shares: "shares_ok demo_vmm 1"
  by (auto simp: shares_ok_def demo_vmm_def demo_mm_def demo_vma_def)

theorem mm_unmap_correct_witness:
  "\<exists>k'. mm_unmap (Some 1) 0x801010 0x10 demo_vmm = Some (0, k') \<and> vmm_inv k' \<and>
     aspace k' 1 = cut 0x801000 0x802000 (aspace demo_vmm 1)"
proof -
  have r: "ROUNDDOWN 0x801010 PGSIZE = 0x801000" "ROUNDUP (0x801010 + 0x10) PGSIZE = 0x802000"
    by code_simp+
  have ua: "USER_ACCESS 0x801000 0x802000" and ml: "memory_left demo_vmm"
    by (simp_all add: USER_ACCESS_def memory_left_def demo_vmm_def)
  from mm_unmap_correct [OF demo_vmm_inv demo_vmm_shares, of "0x801010" "0x10"] show ?thesis
    unfolding r Let_def using ua ml by auto
qed

text \<open>C18: Unmapping the interior of a shared area breaks it: \<open>mm_unmap\<close> succeeds, but the second area it makes has the flag
  VM_SHARE and no shared memory object, so that destroying it dereferences a null pointer.\<close>

theorem mm_unmap_shared_split_faults:
  assumes inv: "vmm_inv k" "memory_left k" and w: "w \<in> set (mmap_list (mms k mm))" "vm_flags (vmas k w) AND VM_SHARE \<noteq> 0"
    and r: "vm_start (vmas k w) < start" "end' < vm_end (vmas k w)"
    and range: "USER_ACCESS start end'" "start = ROUNDDOWN addr PGSIZE" "end' = ROUNDUP (addr + len) PGSIZE"
  shows "\<exists>n k'. mm_unmap (Some mm) addr len k = Some (0, k') \<and> n \<in> set (mmap_list (mms k' mm)) \<and>
     vm_flags (vmas k' n) AND VM_SHARE \<noteq> 0 \<and> shmem (vmas k' n) = None \<and> vma_destroy n k' = None"
proof -
  let ?xs = "mmap_list (mms k mm)" and ?st = "vmas k"
  have al: "start mod PGSIZE = 0" "end' mod PGSIZE = 0" and lt: "start < end'"
    using range by (simp_all add: USER_ACCESS_def)
  have o: "ordered ?st ?xs"
    using inv(1) by (rule vmm_inv_ordered)
  obtain k1 where k1: "find_vma (Some mm) start k = (find_vma_list ?st ?xs start, k1)"
    "vmm_inv k1" "vmas k1 = ?st" "\<And>m. mmap_list (mms k1 m) = mmap_list (mms k m)" "mem k1 = mem k"
    using find_vma_step [OF inv(1)] by metis
  obtain A B where "?xs = A @ w # B"
    using w(1) by (meson split_at_member)
  then have found: "find_vma_list ?st ?xs start = Some w"
    using find_vma_list_at [of ?st A w B start] o r lt by simp
  have nle: "\<not> end' \<le> vm_start (?st w)"
    using r lt by simp
  note step = mm_unmap_def [of "Some mm" addr len k, unfolded range(2,3) [symmetric] Let_def bind.simps k1(1) prod.case k1(3)]
  show ?thesis
  proof (rule unmap_split [OF k1(2), of w mm start end'])
    fix n k2 k3 k' assume k': "vma_create (vm_start (vmas k1 w)) start (vm_flags (vmas k1 w)) k1 = (Some n, k2)" "vmas k2 w = vmas k1 w"
      "vma_resize w end' (vm_end (vmas k1 w)) k2 = Some k3" "insert_vma_struct mm n k3 = Some k'"
      "n \<in> set (mmap_list (mms k' mm))" "vm_flags (vmas k' n) = vm_flags (vmas k1 w)" "shmem (vmas k' n) = None"
    let ?k = "pt_call_log (Unmap_range (pgdir (mms k' mm)) start end') k'"
    have "mm_unmap (Some mm) addr len k = Some (0, ?k)"
      using k' range(1) found nle r by (simp add: step k1(3))
    moreover have "vma_destroy n ?k = None"
      using k' w(2) by (simp add: vma_destroy_def shmem_ref_dec_def k1(3))
    ultimately show ?thesis
      using k'(5-7) w(2) by (intro exI [of _ n] exI [of _ ?k]) (simp add: k1(3))
  qed (use inv(2) w r lt al k1(3-5) in \<open>auto simp: memory_left_def\<close>)
qed

theorem mm_unmap_shared_split_faults_witness:
  "\<exists>n k'. mm_unmap (Some 1) 0x902000 0x1000 demo_vmm = Some (0, k') \<and> n \<in> set (mmap_list (mms k' 1)) \<and>
     vm_flags (vmas k' n) AND VM_SHARE \<noteq> 0 \<and> shmem (vmas k' n) = None \<and> vma_destroy n k' = None"
proof (rule mm_unmap_shared_split_faults [OF demo_vmm_inv, of 11 1 "0x902000" "0x903000"])
  show "0x902000 = ROUNDDOWN 0x902000 PGSIZE" "0x903000 = ROUNDUP (0x902000 + 0x1000) PGSIZE"
    by code_simp+
qed (simp_all add: memory_left_def demo_vmm_def demo_mm_def demo_vma_def USER_ACCESS_def)

end
