(* ===== verification/Vmm_Access.thy ===== *)
theory Vmm_Access
  imports Vmm_Unmap
begin

text \<open>
  Properties of the lookups and checks of \<^verbatim>\<open>kern/mm/vmm.c\<close> (\<open>find_vma\<close>, \<open>user_mem_check\<close>, \<open>get_unmapped_area\<close>) and of the operations
  built on mapping and unmapping (\<open>mm_brk\<close>, \<open>dup_mmap\<close>), on the definitions of \<open>Vmm\<close>.
\<close>

unbundle bit_operations_syntax

subsection \<open>Access checks\<close>

definition accessible :: "vma_struct \<Rightarrow> bool \<Rightarrow> u32 \<Rightarrow> bool" where
  "accessible v w x \<longleftrightarrow> covers v x \<and> vm_flags v AND (if w then VM_WRITE else VM_READ) \<noteq> 0 \<and>
     (w \<and> vm_flags v AND VM_STACK \<noteq> 0 \<longrightarrow> vm_start v + PGSIZE \<le> x)"

lemma find_vma_list_covers:
  assumes "ordered st xs" "find_vma_list st xs s = r" "a \<in> set xs" "covers (st a) s"
  shows "r = Some a"
proof -
  obtain A B where xs: "xs = A @ a # B"
    using assms(3) by (meson split_at_member)
  then show ?thesis
    using find_vma_list_at [of st A a B s] assms by (simp add: covers_def)
qed

lemma user_mem_loop_correct:
  assumes "vmm_inv k"
  shows "\<exists>k'. user_mem_loop mm s e w k =
      ((\<forall>x. s \<le> x \<and> x < e \<longrightarrow> (\<exists>v\<in>set (mmap_list (mms k mm)). accessible (vmas k v) w x)), k') \<and>
      vmm_inv k' \<and> aspace k' = aspace k \<and> vmas k' = vmas k"
  using assms
proof (induction "unat e - unat s" arbitrary: s k rule: less_induct)
  case less
  show ?case
  proof (cases "s < e")
    case False
    then show ?thesis
      using less.prems by (subst user_mem_loop.simps) (auto dest: order.strict_trans1)
  next
    case True
    let ?st = "vmas k" and ?xs = "mmap_list (mms k mm)"
    let ?ok = "\<forall>x. s \<le> x \<and> x < e \<longrightarrow> (\<exists>v\<in>set ?xs. accessible (?st v) w x)"
    have o: "ordered ?st ?xs"
      using less.prems by (rule vmm_inv_ordered)
    obtain k1 where k1: "find_vma (Some mm) s k = (find_vma_list ?st ?xs s, k1)"
      "vmm_inv k1" "vmas k1 = ?st" "\<And>m. mmap_list (mms k1 m) = mmap_list (mms k m)" "\<And>m. aspace k1 m = aspace k m"
      using find_vma_step [OF less.prems] by metis
    have same: "aspace k1 = aspace k"
      using k1(5) by (rule ext)
    note step = user_mem_loop.simps [of mm s e w k, unfolded k1(1) prod.case k1(3)]
    have only: "v = a" if "find_vma_list ?st ?xs s = Some v" "a \<in> set ?xs" "accessible (?st a) w s" for a v
      using find_vma_list_covers [OF o that(1,2)] that(3) by (simp add: accessible_def)
    show ?thesis
    proof (cases "find_vma_list ?st ?xs s")
      case None
      then have "\<not> ?ok"
        using True find_vma_list_covers [OF o] by (force simp: accessible_def)
      then show ?thesis
        using True None k1(2,3) same by (simp add: step)
    next
      case (Some v)
      then obtain A B where xs: "?xs = A @ v # B" "s < vm_end (?st v)"
        by (rule find_vma_list_Some)
      then have vin: "v \<in> set ?xs" by simp
      have vbound: "vm_start (?st v) < vm_end (?st v)" "vm_end (?st v) \<le> USERTOP"
        using o vin vmm_inv_vma [OF less.prems vin] by (auto simp: ordered_def vma_ok_def)
      show ?thesis
      proof (cases "accessible (?st v) w s")
        case False
        then have "\<not> ?ok"
          using True only [OF Some] by (metis order.refl)
        moreover have "user_mem_loop mm s e w k = (False, k1)"
          using True Some False xs(2) by (auto simp: step accessible_def covers_def not_less)
        ultimately show ?thesis
          using k1(2,3) same by simp
      next
        case acc: True
        then have rec: "user_mem_loop mm s e w k = user_mem_loop mm (vm_end (?st v)) e w k1"
          using True Some by (auto simp: step accessible_def covers_def)
        have near: "accessible (?st v) w x" if "s \<le> x" "x < vm_end (?st v)" for x
          using acc that by (auto simp: accessible_def covers_def)
        have ok: "?ok \<longleftrightarrow> (\<forall>x. vm_end (?st v) \<le> x \<and> x < e \<longrightarrow> (\<exists>v\<in>set ?xs. accessible (?st v) w x))"
        proof (intro iffI allI impI)
          fix x assume all: ?ok and x: "vm_end (?st v) \<le> x \<and> x < e"
          have "s \<le> x" using conjunct1 [OF x] xs(2) by simp
          then show "\<exists>v\<in>set ?xs. accessible (?st v) w x" using all x by simp
        next
          fix x assume all: "\<forall>x. vm_end (?st v) \<le> x \<and> x < e \<longrightarrow> (\<exists>v\<in>set ?xs. accessible (?st v) w x)" and x: "s \<le> x \<and> x < e"
          show "\<exists>v\<in>set ?xs. accessible (?st v) w x"
            using near [of x] vin all x by (cases "x < vm_end (?st v)") (auto simp: not_less)
        qed
        have "unat e - unat (vm_end (?st v)) < unat e - unat s"
          using True xs(2) by (simp add: word_less_nat_alt)
        from less.hyps [OF this k1(2)] show ?thesis
          unfolding rec ok k1(3,4) same .
      qed
    qed
  qed
qed


text \<open>C12: \<open>user_mem_check\<close> accepts a range exactly when it is a user range that does not wrap around and every address of it
  lies in an area with the right to read or, for writing, the right to write and, in a stack, not in its guard page.
  The loop ends, and only the lookup cache of the mm changes.\<close>

theorem user_mem_check_correct:
  assumes "vmm_inv k"
  shows "\<exists>ok k'. user_mem_check (Some mm) addr len w k = (ok, k') \<and> vmm_inv k' \<and> aspace k' = aspace k \<and> vmas k' = vmas k \<and>
     (ok \<longleftrightarrow> USER_ACCESS addr (addr + len) \<and>
        (\<forall>x. addr \<le> x \<and> x < addr + len \<longrightarrow> (\<exists>v\<in>set (mmap_list (mms k mm)). accessible (vmas k v) w x)))"
  using user_mem_loop_correct [OF assms, of mm addr "addr + len" w] assms by (auto simp: user_mem_check_def)

subsection \<open>Free ranges\<close>

definition apart :: "u32 \<Rightarrow> u32 \<Rightarrow> vma_struct \<Rightarrow> bool" where
  "apart s len v \<longleftrightarrow> unat s + unat len \<le> unat (vm_start v) \<or> vm_end v \<le> s"

lemma unmapped_walk_correct:
  assumes "ordered st (rev vs)" "\<And>v. v \<in> set vs \<Longrightarrow> USERBASE \<le> vm_start (st v)"
    and "unat start + unat len \<le> unat USERTOP" "len \<noteq> 0"
  shows "(unmapped_walk st len start vs \<noteq> 0 \<longrightarrow> USERBASE \<le> unmapped_walk st len start vs \<and>
            unmapped_walk st len start vs \<le> start \<and> (\<forall>v\<in>set vs. apart (unmapped_walk st len start vs) len (st v))) \<and>
         (\<forall>s. USERBASE \<le> s \<and> s \<le> start \<and> (\<forall>v\<in>set vs. apart s len (st v)) \<longrightarrow>
            unmapped_walk st len start vs \<noteq> 0 \<and> s \<le> unmapped_walk st len start vs)"
  using assms(1,2,3)
proof (induction vs arbitrary: start)
  case Nil
  then show ?case by (auto dest: order.trans)
next
  case (Cons v vs)
  have o: "ordered st (rev vs)" "\<And>a. a \<in> set vs \<Longrightarrow> vm_end (st a) \<le> vm_start (st v)" "vm_start (st v) < vm_end (st v)"
    using Cons.prems(1) by (auto simp: ordered_append ordered_Cons)
  have ub: "USERBASE \<le> vm_start (st v)" "\<And>a. a \<in> set vs \<Longrightarrow> USERBASE \<le> vm_start (st a)"
    using Cons.prems(2) by auto
  have sum: "unat (start + len) = unat start + unat len"
    using Cons.prems(3) by (intro unat_add_lt) (simp add: word_le_nat_alt)
  show ?case
  proof (cases "vm_end (st v) \<le> start")
    case True
    then have "vm_end (st a) \<le> start" if "a \<in> set vs" for a
      using o(2) [OF that] o(3) by simp
    then have "apart start len (st a)" if "a \<in> set (v # vs)" for a
      using that True by (auto simp: apart_def)
    moreover have "USERBASE \<le> start" "start \<noteq> 0"
      using True o(3) ub(1) by (auto simp: word_le_nat_alt word_less_nat_alt)
    ultimately show ?thesis
      using True by auto
  next
    case below: False
    show ?thesis
    proof (cases "vm_start (st v) < start + len")
      case True
      then have ov: "unat (vm_start (st v)) < unat start + unat len"
        using sum by (simp add: word_less_nat_alt)
      have left: "unat s + unat len \<le> unat (vm_start (st v))" if "s \<le> start" "apart s len (st v)" for s
        using that below by (auto simp: apart_def)
      show ?thesis
      proof (cases "vm_start (st v) \<le> len")
        case zero: True
        have "False" if "USERBASE \<le> s" "s \<le> start" "apart s len (st v)" for s
          using left [OF that(2,3)] zero that(1) by (simp add: word_le_nat_alt)
        then show ?thesis
          using below True zero by auto
      next
        case False
        let ?s = "vm_start (st v) - len"
        have s: "unat ?s = unat (vm_start (st v)) - unat len" "unat ?s + unat len = unat (vm_start (st v))"
          using False by (auto simp: unat_diff_le word_le_nat_alt)
        have "unat ?s + unat len \<le> unat USERTOP"
          using s(2) ov Cons.prems(3) by simp
        note IH = Cons.IH [OF o(1) ub(2) this]
        have "?s \<le> start"
          using s(1) ov by (simp add: word_le_nat_alt)
        moreover have "apart r len (st v)" if "r \<le> ?s" for r
          using that s(2) by (simp add: apart_def word_le_nat_alt)
        moreover have "s' \<le> ?s" if "s' \<le> start" "apart s' len (st v)" for s'
          using left [OF that] s(1) by (simp add: word_le_nat_alt)
        ultimately show ?thesis
          using IH below True False by (auto dest: order.trans)
      qed
    next
      case False
      then have "unat start + unat len \<le> unat (vm_start (st v))"
        using sum by (simp add: word_less_nat_alt)
      then have "apart r len (st v)" if "r \<le> start" for r
        using that by (auto simp: apart_def word_le_nat_alt)
      then show ?thesis
        using Cons.IH [OF o(1) ub(2) Cons.prems(3)] below False by auto
    qed
  qed
qed

text \<open>A free range of an address space, for placing \<open>len\<close> bytes.\<close>

definition free_range :: "vmm \<Rightarrow> addr \<Rightarrow> u32 \<Rightarrow> u32 \<Rightarrow> bool" where
  "free_range k mm len s \<longleftrightarrow> USERBASE \<le> s \<and> unat s + unat len \<le> unat USERTOP \<and>
     (\<forall>x. s \<le> x \<and> unat x < unat s + unat len \<longrightarrow> aspace k mm x = None)"

lemma free_range_iff:
  assumes inv: "vmm_inv k" and len: "len \<noteq> 0" and s: "unat s + unat len \<le> unat USERTOP"
  shows "(\<forall>x. s \<le> x \<and> unat x < unat s + unat len \<longrightarrow> aspace k mm x = None) \<longleftrightarrow>
     (\<forall>v\<in>set (mmap_list (mms k mm)). apart s len (vmas k v))"
proof -
  have "apart s len (vmas k v) \<longleftrightarrow> (\<forall>x. s \<le> x \<and> unat x < unat s + unat len \<longrightarrow> \<not> covers (vmas k v) x)"
    if v: "v \<in> set (mmap_list (mms k mm))" for v
  proof
    assume "apart s len (vmas k v)"
    then show "\<forall>x. s \<le> x \<and> unat x < unat s + unat len \<longrightarrow> \<not> covers (vmas k v) x"
      by (auto simp: apart_def covers_def word_le_nat_alt word_less_nat_alt)
  next
    assume nc: "\<forall>x. s \<le> x \<and> unat x < unat s + unat len \<longrightarrow> \<not> covers (vmas k v) x"
    have lt: "vm_start (vmas k v) < vm_end (vmas k v)"
      using vmm_inv_ordered [OF inv, of mm] v by (simp add: ordered_def)
    show "apart s len (vmas k v)"
      using spec [OF nc, of "max s (vm_start (vmas k v))"] lt len
      by (auto simp: apart_def covers_def max_def word_le_nat_alt word_less_nat_alt unat_gt_0 split: if_splits)
  qed
  then show ?thesis
    by (auto simp: aspace_def flags_at_None)
qed

text \<open>C16: \<open>get_unmapped_area\<close> returns the highest address at which \<open>len\<close> bytes of user space are free, and 0 exactly when
  there is none (or \<open>len\<close> is 0).  No sum in the search wraps around.\<close>

theorem get_unmapped_area_correct:
  assumes inv: "vmm_inv k"
  shows "if len \<noteq> 0 \<and> (\<exists>s. free_range k mm len s)
     then free_range k mm len (get_unmapped_area mm len k) \<and> (\<forall>s. free_range k mm len s \<longrightarrow> s \<le> get_unmapped_area mm len k)
     else get_unmapped_area mm len k = 0"
proof (cases "len = 0 \<or> len > USERTOP")
  case True
  then show ?thesis
    by (auto simp: get_unmapped_area_def free_range_def word_less_nat_alt)
next
  case False
  let ?xs = "mmap_list (mms k mm)" and ?r = "get_unmapped_area mm len k"
  have top: "unat (USERTOP - len) = unat USERTOP - unat len" "unat (USERTOP - len) + unat len = unat USERTOP"
    using False by (auto simp: unat_diff_le not_less word_le_nat_alt)
  have r: "?r = unmapped_walk (vmas k) len (USERTOP - len) (rev ?xs)"
    using False by (simp add: get_unmapped_area_def)
  have "USERBASE \<le> vm_start (vmas k v)" if "v \<in> set (rev ?xs)" for v
    using vmm_inv_vma [OF inv, of v mm] that by (simp add: vma_ok_def)
  from unmapped_walk_correct [of "vmas k" "rev ?xs" "USERTOP - len" len, OF _ this] have walk:
    "?r \<noteq> 0 \<Longrightarrow> USERBASE \<le> ?r \<and> ?r \<le> USERTOP - len \<and> (\<forall>v\<in>set ?xs. apart ?r len (vmas k v))"
    "\<And>s. USERBASE \<le> s \<Longrightarrow> s \<le> USERTOP - len \<Longrightarrow> (\<forall>v\<in>set ?xs. apart s len (vmas k v)) \<Longrightarrow> ?r \<noteq> 0 \<and> s \<le> ?r"
    using False top vmm_inv_ordered [OF inv, of mm] unfolding r by auto
  have fr: "free_range k mm len s \<longleftrightarrow> USERBASE \<le> s \<and> s \<le> USERTOP - len \<and> (\<forall>v\<in>set ?xs. apart s len (vmas k v))" for s
  proof -
    have "unat s + unat len \<le> unat USERTOP \<longleftrightarrow> s \<le> USERTOP - len"
      unfolding word_le_nat_alt top(1) using top(2) by linarith
    then show ?thesis
      using free_range_iff [OF inv, of len s mm] False unfolding free_range_def by blast
  qed
  show ?thesis
  proof (cases "\<exists>s. free_range k mm len s")
    case True
    then have "free_range k mm len ?r" "\<forall>s. free_range k mm len s \<longrightarrow> s \<le> ?r"
      unfolding fr using walk by blast+
    then show ?thesis
      using True False by simp
  next
    case no: False
    then have "?r = 0"
      unfolding fr using walk(1) by blast
    then show ?thesis
      using no by simp
  qed
qed


subsection \<open>Lookup\<close>

lemma find_vma_list_find: "find_vma_list st xs addr = find (\<lambda>v. addr < vm_end (st v)) xs"
  by (induction xs) auto

text \<open>C15: Whatever the lookup cache holds and whether the mm has a red-black tree or not, \<open>find_vma\<close> returns the first area of
  the list that ends behind the address, as a walk along the list would.\<close>

theorem find_vma_correct:
  assumes "vmm_inv k"
  shows "\<exists>k'. find_vma (Some mm) addr k = (find (\<lambda>v. addr < vm_end (vmas k v)) (mmap_list (mms k mm)), k') \<and>
     vmm_inv k' \<and> vmas k' = vmas k \<and> aspace k' = aspace k"
  using find_vma_step [OF assms, of mm addr] unfolding find_vma_list_find by (metis ext)

subsection \<open>Growing the heap\<close>

lemma free_gap:
  assumes "vmm_inv k" "a \<in> set (mmap_list (mms k mm))" "\<And>x. s \<le> x \<Longrightarrow> x < e \<Longrightarrow> aspace k mm x = None" "s < e"
  shows "vm_end (vmas k a) \<le> s \<or> e \<le> vm_start (vmas k a)"
proof (rule ccontr)
  assume "\<not> ?thesis"
  moreover have "vm_start (vmas k a) < vm_end (vmas k a)"
    using vmm_inv_ordered [OF assms(1), of mm] assms(2) by (simp add: ordered_def)
  ultimately have "covers (vmas k a) (max s (vm_start (vmas k a)))" "max s (vm_start (vmas k a)) < e"
    using assms(4) by (auto simp: covers_def max_def)
  then show False
    using assms(2) assms(3) [of "max s (vm_start (vmas k a))"] by (auto simp: aspace_def flags_at_None)
qed

text \<open>Moving the end of an area over a free range behind it.\<close>

lemma grow_area:
  assumes inv: "vmm_inv k" and w: "w \<in> set (mmap_list (mms k mm))" "vm_end (vmas k w) = s"
    and e: "s < e" "e mod PGSIZE = 0" "e \<le> USERTOP" and free: "\<And>x. s \<le> x \<Longrightarrow> x < e \<Longrightarrow> aspace k mm x = None"
  shows "vmm_inv (upd_vma w (\<lambda>v. v\<lparr>vm_end := e\<rparr>) k)"
    and "aspace (upd_vma w (\<lambda>v. v\<lparr>vm_end := e\<rparr>) k) mm = (\<lambda>x. if s \<le> x \<and> x < e then Some (vm_flags (vmas k w)) else aspace k mm x)"
    and "m \<noteq> mm \<Longrightarrow> aspace (upd_vma w (\<lambda>v. v\<lparr>vm_end := e\<rparr>) k) m = aspace k m"
proof -
  let ?v = "(vmas k w)\<lparr>vm_end := e\<rparr>"
  let ?st = "(vmas k)(w := ?v)" and ?k = "upd_vma w (\<lambda>v. v\<lparr>vm_end := e\<rparr>) k"
  have o: "ordered (vmas k) (mmap_list (mms k mm))"
    by (rule vmm_inv_ordered [OF inv])
  obtain A B where xs: "mmap_list (mms k mm) = A @ w # B" "w \<notin> set A"
    using w(1) by (rule split_at_member)
  then have nB: "w \<notin> set B"
    using ordered_distinct [OF o] by simp
  have ow: "vm_start (vmas k w) < s" "\<And>b. b \<in> set B \<Longrightarrow> s \<le> vm_start (vmas k b)" "\<And>b. b \<in> set B \<Longrightarrow> vm_start (vmas k b) < vm_end (vmas k b)"
    using o w(2) unfolding xs(1) by (auto simp: ordered_append ordered_Cons) (auto simp: ordered_def)
  have B: "e \<le> vm_start (vmas k b)" if "b \<in> set B" for b
  proof -
    have "vm_end (vmas k b) \<le> s \<or> e \<le> vm_start (vmas k b)"
      using free_gap [OF inv _ free e(1), of b] that xs(1) by simp
    then show ?thesis
      using ow(2,3) [OF that] by auto
  qed
  have "ordered ?st A = ordered (vmas k) A" "ordered ?st B = ordered (vmas k) B"
    using xs(2) nB by (auto intro!: ordered_cong)
  then have o': "ordered ?st (A @ w # B)"
    using o B ow(1) e(1) xs nB unfolding xs(1) by (auto simp: ordered_append ordered_Cons)
  have other: "w \<notin> set (mmap_list (mms k m))" if "m \<noteq> mm" for m
    using owner_unique [OF inv w(1)] that by blast
  have "mm_inv ?st m (mms k m)" for m
  proof (cases "m = mm")
    case True
    have "mm_inv (vmas k) mm (mms k mm)"
      using inv by (simp add: vmm_inv_def)
    then show ?thesis
      using True o' e(2,3) unfolding xs(1) [symmetric] mm_inv_def by (auto simp: vma_ok_def)
  next
    case False
    have "mm_inv (vmas k) m (mms k m)"
      using inv by (simp add: vmm_inv_def)
    moreover have "ordered ?st (mmap_list (mms k m)) = ordered (vmas k) (mmap_list (mms k m))"
      using other [OF False] by (intro ordered_cong) auto
    ultimately show ?thesis
      using other [OF False] by (auto simp: mm_inv_def)
  qed
  then show inv': "vmm_inv ?k"
    using inv by (simp add: vmm_inv_def mem_ok_def)
  show "aspace ?k m = aspace k m" if "m \<noteq> mm"
    using other [OF that] by (intro aspace_outside) auto
  show "aspace ?k mm = (\<lambda>x. if s \<le> x \<and> x < e then Some (vm_flags (vmas k w)) else aspace k mm x)"
  proof (rule ext)
    fix x
    have "aspace ?k mm x = (if covers ?v x then Some (vm_flags (vmas k w)) else flags_at ?st (A @ B) x)"
      using flags_at_insert [OF o', of x] by (simp add: aspace_def xs(1))
    moreover have "flags_at ?st (A @ B) x = flags_at (vmas k) (A @ B) x"
      using xs(2) nB by (intro flags_at_cong) auto
    moreover have "aspace k mm x = (if covers (vmas k w) x then Some (vm_flags (vmas k w)) else flags_at (vmas k) (A @ B) x)"
      using flags_at_insert [of "vmas k" A w B x] o by (simp add: aspace_def xs(1))
    ultimately show "aspace ?k mm x = (if s \<le> x \<and> x < e then Some (vm_flags (vmas k w)) else aspace k mm x)"
      using w(2) e(1) ow(1) by (auto simp: covers_def)
  qed
qed

lemma mm_brk_correct:
  assumes inv: "vmm_inv k" "shares_ok k mm" and start: "start = ROUNDDOWN addr PGSIZE" and end': "end' = ROUNDUP (addr + len) PGSIZE"
  shows "\<exists>ret k'. mm_brk (Some mm) addr len k = Some (ret, k') \<and> vmm_inv k' \<and> (\<forall>m. m \<noteq> mm \<longrightarrow> aspace k' m = aspace k m) \<and>
     (if \<not> USER_ACCESS start end' then ret = - E_INVAL \<and> aspace k' mm = aspace k mm
      else ret = 0 \<and> aspace k' mm = (\<lambda>x. if start \<le> x \<and> x < end' then Some (VM_READ OR VM_WRITE) else aspace k mm x) \<or>
           ret = - E_NO_MEM \<and> (aspace k' mm = aspace k mm \<or> aspace k' mm = cut start end' (aspace k mm)))"
proof (cases "USER_ACCESS start end'")
  case False
  then show ?thesis
    using inv(1) by (simp add: mm_brk_def start end')
next
  case ua: True
  have al: "start mod PGSIZE = 0" "end' mod PGSIZE = 0" and lt: "start < end'" and top: "end' \<le> USERTOP"
    using ua by (simp_all add: start end' USER_ACCESS_def)
  have s: "start = ROUNDDOWN start PGSIZE" and e: "end' = ROUNDUP (start + (end' - start)) PGSIZE"
    using al top by (simp_all add: ROUNDDOWN_id ROUNDUP_id)
  show ?thesis
  proof (rule mm_unmap_user [OF inv s e ua])
    fix ret k1 assume k1: "mm_unmap (Some mm) start (end' - start) k = Some (ret, k1)" "vmm_inv k1" "\<And>m. m \<noteq> mm \<Longrightarrow> aspace k1 m = aspace k m"
      "if (\<exists>v\<in>set (mmap_list (mms k mm)). vm_start (vmas k v) < start \<and> end' < vm_end (vmas k v)) \<and> \<not> memory_left k
       then ret = - E_NO_MEM \<and> aspace k1 mm = aspace k mm else ret = 0 \<and> aspace k1 mm = cut start end' (aspace k mm)"
    show ?thesis
    proof (cases "ret = 0")
      case False
      then show ?thesis
        using k1 ua by (intro exI [of _ ret] exI [of _ k1]) (auto simp: mm_brk_def start [symmetric] end' [symmetric] Let_def split: if_splits)
    next
      case True
      then have cutk: "aspace k1 mm = cut start end' (aspace k mm)"
        using k1(4) by (auto split: if_splits)
      have free: "aspace k1 mm x = None" if "start \<le> x" "x < end'" for x
        using that by (simp add: cutk cut_def)
      obtain k2 where k2: "find_vma (Some mm) (start - 1) k1 = (find_vma_list (vmas k1) (mmap_list (mms k1 mm)) (start - 1), k2)"
        "vmm_inv k2" "vmas k2 = vmas k1" "\<And>m. mmap_list (mms k2 m) = mmap_list (mms k1 m)" "\<And>m. aspace k2 m = aspace k1 m"
        using find_vma_step [OF k1(2)] by metis
      let ?r = "find_vma_list (vmas k1) (mmap_list (mms k1 mm)) (start - 1)"
      let ?ext = "case ?r of None \<Rightarrow> False | Some v \<Rightarrow> vm_end (vmas k1 v) = start \<and> vm_flags (vmas k1 v) = VM_READ OR VM_WRITE"
      have step: "mm_brk (Some mm) addr len k = (if ?ext then Some (0, upd_vma (the ?r) (\<lambda>v. v\<lparr>vm_end := end'\<rparr>) k2)
          else case vma_create start end' (VM_READ OR VM_WRITE) k2 of
                 (None, k) \<Rightarrow> Some (- E_NO_MEM, k)
               | (Some v, k) \<Rightarrow> do { k \<leftarrow> insert_vma_struct mm v k; Some (0, k) })"
        unfolding mm_brk_def start [symmetric] end' [symmetric] Let_def k1(1) bind.simps prod.case k2(1,3)
        using ua True by simp
      have cutfun: "(\<lambda>x. if start \<le> x \<and> x < end' then Some f else aspace k1 mm x) =
          (\<lambda>x. if start \<le> x \<and> x < end' then Some f else aspace k mm x)" for f
        by (auto simp: cutk cut_def)
      show ?thesis
      proof (cases ?ext)
        case ext: True
        then obtain v where v: "?r = Some v" "vm_end (vmas k1 v) = start" "vm_flags (vmas k1 v) = VM_READ OR VM_WRITE"
          by (auto split: option.splits)
        have vin: "v \<in> set (mmap_list (mms k2 mm))"
          using v(1) by (metis find_vma_list_Some in_set_conv_decomp k2(4))
        have free2: "aspace k2 mm x = None" if "start \<le> x" "x < end'" for x
          using free [OF that] by (simp add: k2(5))
        note g = grow_area [OF k2(2) vin v(2) [folded k2(3)] lt al(2) top free2, unfolded k2(3,5) v(3) cutfun]
        show ?thesis
          using step ext v(1) g k1(3) ua by (simp add: k2(3))
      next
        case noext: False
        show ?thesis
        proof (cases "memory_left k2")
          case mem: True
          show ?thesis
          proof (rule create_insert [OF k2(2) mem ua al, of mm "VM_READ OR VM_WRITE"])
            show "vm_end (vmas k2 a) \<le> start \<or> end' \<le> vm_start (vmas k2 a)" if "a \<in> set (mmap_list (mms k2 mm))" for a
              using free_gap [OF k2(2) that _ lt] free by (simp add: k2(5))
            fix v k3 k4 assume k4: "vma_create start end' (VM_READ OR VM_WRITE) k2 = (Some v, k3)" "insert_vma_struct mm v k3 = Some k4" "vmm_inv k4"
              "aspace k4 mm = (\<lambda>x. if start \<le> x \<and> x < end' then Some (VM_READ OR VM_WRITE) else aspace k2 mm x)"
              "\<And>m. m \<noteq> mm \<Longrightarrow> aspace k4 m = aspace k2 m"
            show ?thesis
              using step noext ua k1(3) k4(1-3) k4(4) [unfolded k2(5) cutfun] k4(5) [unfolded k2(5)] by auto
          qed
        next
          case False
          then obtain k3 where "vma_create start end' (VM_READ OR VM_WRITE) k2 = (None, k3)" "vmm_inv k3" "vmas k3 = vmas k2" "mms k3 = mms k2"
            using vma_create_None [OF k2(2)] by metis
          then show ?thesis
            using step noext ua k1(3) cutk k2(5) by (auto simp: aspace_def k2(3,4))
        qed
      qed
    qed
  qed
qed


subsection \<open>Copying an address space\<close>

text \<open>One round of the loop of \<open>dup_mmap\<close>: the area \<open>v\<close> of \<open>from\<close> is copied before the areas \<open>S\<close> behind it.\<close>

definition copied_suffix :: "vmm \<Rightarrow> addr \<Rightarrow> addr \<Rightarrow> addr list \<Rightarrow> bool" where
  "copied_suffix k to from S \<longleftrightarrow> aspace k to = flags_at (vmas k) S \<and>
     (\<forall>b\<in>set (mmap_list (mms k to)). \<exists>s\<in>set S. vm_start (vmas k s) \<le> vm_start (vmas k b))"

lemma dup_mmap_loop_correct:
  assumes "vmm_inv k" "shares_ok k from" "to \<noteq> from" "mmap_list (mms k from) = rev vs @ S" "copied_suffix k to from S"
  shows "\<exists>ret k'. dup_mmap_loop to from copied vs k = Some (ret, k') \<and> vmm_inv k' \<and> (\<forall>m. m \<noteq> to \<longrightarrow> aspace k' m = aspace k m) \<and>
     (ret = 0 \<longrightarrow> aspace k' to = aspace k from) \<and> (ret \<noteq> 0 \<longrightarrow> ret = - E_NO_MEM)"
  using assms
proof (induction vs arbitrary: k S)
  case Nil
  then show ?case by (simp add: copied_suffix_def aspace_def)
next
  case (Cons v vs)
  let ?v = "vmas k v"
  have o: "ordered (vmas k) (rev vs @ v # S)"
    using vmm_inv_ordered [OF Cons.prems(1), of "from"] Cons.prems(4) by simp
  have vin: "v \<in> set (mmap_list (mms k from))"
    using Cons.prems(4) by simp
  have vok: "vma_ok from ?v" "vm_start ?v < vm_end ?v" "\<And>s. s \<in> set S \<Longrightarrow> vm_end ?v \<le> vm_start (vmas k s)"
    using vmm_inv_vma [OF Cons.prems(1) vin] o by (auto simp: ordered_append ordered_Cons)
  show ?case
  proof (cases "memory_left k")
    case False
    then obtain k1 where "vma_create (vm_start ?v) (vm_end ?v) (vm_flags ?v) k = (None, k1)" "vmm_inv k1" "vmas k1 = vmas k" "mms k1 = mms k"
      using vma_create_None [OF Cons.prems(1)] by metis
    then show ?thesis
      by (simp add: aspace_def)
  next
    case True
    obtain n k1 where k1: "vma_create (vm_start ?v) (vm_end ?v) (vm_flags ?v) k = (Some n, k1)" "vmm_inv k1" "fresh n k1" "mms k1 = mms k"
      "vmas k1 = (vmas k)(n := (vmas k n)\<lparr>vm_start := vm_start ?v, vm_end := vm_end ?v, vm_flags := vm_flags ?v, shmem := None, shmem_off := 0\<rparr>)"
      "\<And>m. aspace k1 m = aspace k m"
      using vma_create_Some [OF Cons.prems(1) True] by metis
    have nn: "n \<notin> set (mmap_list (mms k m))" for m
      using k1(3,4) by (simp add: fresh_def)
    have nv: "n \<noteq> v" using nn [of "from"] vin by auto
    have v1: "vmas k1 v = ?v" using k1(5) nv by simp
    text \<open>Sharing the memory object touches the reference count and the new vma only.\<close>
    obtain r sh off where k2: "(if vm_flags (vmas k1 v) AND VM_SHARE \<noteq> 0 then do {
                  (_, k) \<leftarrow> shmem_ref_inc (shmem (vmas k1 v)) k1;
                  Some (upd_vma n (\<lambda>w. w\<lparr>shmem := shmem (vmas k v), shmem_off := shmem_off (vmas k v)\<rparr>) k)
                } else Some k1) =
        Some (k1\<lparr>shmem_ref := r, vmas := (vmas k1)(n := (vmas k1 n)\<lparr>shmem := sh, shmem_off := off\<rparr>)\<rparr>)"
    proof (cases "vm_flags (vmas k1 v) AND VM_SHARE \<noteq> 0")
      case True
      then obtain s where "shmem ?v = Some s"
        using Cons.prems(2) vin v1 by (auto simp: shares_ok_def)
      then show thesis
        using True v1
        by (intro that [where r = "(shmem_ref k1)(s := shmem_ref k1 s + 1)" and sh = "shmem ?v" and off = "shmem_off ?v"])
          (simp add: shmem_ref_inc_def)
    next
      case False
      then show thesis
        by (intro that [where r = "shmem_ref k1" and sh = "shmem (vmas k1 n)" and off = "shmem_off (vmas k1 n)"]) simp
    qed
    define k2 where "k2 = k1\<lparr>shmem_ref := r, vmas := (vmas k1)(n := (vmas k1 n)\<lparr>shmem := sh, shmem_off := off\<rparr>)\<rparr>"
    have f2: "fresh n k2" and m2: "mms k2 = mms k"
      using k1(3,4) by (simp_all add: k2_def fresh_def)
    have st2: "a \<noteq> n \<Longrightarrow> vmas k2 a = vmas k a" for a
      by (simp add: k2_def k1(5))
    have n2: "vm_start (vmas k2 n) = vm_start ?v" "vm_end (vmas k2 n) = vm_end ?v" "vm_flags (vmas k2 n) = vm_flags ?v"
      by (simp_all add: k2_def k1(5))
    have inv2: "vmm_inv k2" and as2: "\<And>m. aspace k2 m = aspace k m"
    proof -
      have "vmm_inv (k1\<lparr>vmas := (vmas k1)(n := (vmas k1 n)\<lparr>shmem := sh, shmem_off := off\<rparr>)\<rparr>)"
        by (rule fresh_upd_inv [OF k1(2,3)])
      then show "vmm_inv k2"
        by (simp add: k2_def vmm_inv_def mem_ok_def)
      show "aspace k2 m = aspace k m" for m
      proof (rule aspace_outside)
        fix a assume "a \<in> set (mmap_list (mms k m))"
        then have "a \<noteq> n" using nn [of m] by auto
        then show "vmas k2 a = vmas k a" by (rule st2)
      qed (simp add: m2)
    qed
    have n2': "vma_ok to ((vmas k2 n)\<lparr>vm_mm := to\<rparr>)" "vm_start (vmas k2 n) < vm_end (vmas k2 n)"
      using vok n2 by (auto simp: vma_ok_def)
    have later: "vm_end ?v \<le> vm_start (vmas k b)" if "b \<in> set (mmap_list (mms k to))" for b
      using Cons.prems(5) that vok(3) by (fastforce simp: copied_suffix_def intro: order.trans)
    have gap: "vm_end (vmas k2 b) \<le> vm_start (vmas k2 n) \<or> vm_end (vmas k2 n) \<le> vm_start (vmas k2 b)"
      if "b \<in> set (mmap_list (mms k2 to))" for b
    proof -
      have "b \<noteq> n" using that nn [of to] m2 by auto
      then show ?thesis using later [of b] that st2 [of b] m2 n2 by simp
    qed
    show ?thesis
    proof (rule insert_vma_struct_spec [OF inv2 f2 n2' gap])
      fix k3 assume k3: "insert_vma_struct to n k2 = Some k3" "vmm_inv k3" "\<And>m. m \<noteq> to \<Longrightarrow> mms k3 m = mms k2 m"
        "vmas k3 = (vmas k2)(n := (vmas k2 n)\<lparr>vm_mm := to\<rparr>)" "set (mmap_list (mms k3 to)) = insert n (set (mmap_list (mms k2 to)))"
        "aspace k3 to = (\<lambda>x. if covers (vmas k2 n) x then Some (vm_flags (vmas k2 n)) else aspace k2 to x)"
        "\<And>m. m \<noteq> to \<Longrightarrow> aspace k3 m = aspace k2 m"
      have st3: "a \<noteq> n \<Longrightarrow> vmas k3 a = vmas k a" for a
        using st2 by (simp add: k3(4))
      define k4 where "k4 = pt_call_log (Copy_range (pgdir (mms k3 to)) (pgdir (mms k3 from)) (vm_start (vmas k3 v))
                                  (vm_end (vmas k3 v)) (vm_flags (vmas k3 v) AND VM_SHARE \<noteq> 0)) k3"
      have k4: "vmm_inv k4" "mmap_list (mms k4 from) = rev vs @ v # S" "vmas k4 = vmas k3" "mms k4 = mms k3"
        "\<And>m. m \<noteq> to \<Longrightarrow> aspace k4 m = aspace k m" "aspace k4 to = aspace k3 to"
        using k3(2,3) k3(7) Cons.prems(3,4) m2 as2 by (auto simp: k4_def)
      have sh4: "shares_ok k4 from"
        using Cons.prems(2) k4(2,3) Cons.prems(4) st3 nn [of "from"] unfolding shares_ok_def by fastforce
      have nS: "n \<notin> set (v # S)"
        using nn [of "from"] Cons.prems(4) nv by auto
      have "vmas k3 a = vmas k a" if "a \<in> set (v # S)" for a
        using that nS by (intro st3) auto
      then have "flags_at (vmas k3) (v # S) x = flags_at (vmas k) (v # S) x" for x
        by (intro flags_at_cong) simp
      moreover have "aspace k to = flags_at (vmas k) S"
        using Cons.prems(5) by (simp add: copied_suffix_def)
      ultimately have "aspace k4 to = flags_at (vmas k4) (v # S)"
        using n2 by (auto simp: k4(3,6) k3(6) as2 covers_def intro!: ext)
      moreover have "\<exists>s\<in>set (v # S). vm_start (vmas k4 s) \<le> vm_start (vmas k4 b)" if "b \<in> set (mmap_list (mms k4 to))" for b
      proof (cases "b = n")
        case True
        then have "vm_start (vmas k4 v) \<le> vm_start (vmas k4 b)"
          using st3 [of v] nv n2 by (simp add: k4(3) k3(4))
        then show ?thesis by auto
      next
        case False
        then have "b \<in> set (mmap_list (mms k to))"
          using that k3(5) m2 by (simp add: k4(4))
        then have "vm_end ?v \<le> vm_start (vmas k4 b)"
          using later [of b] st3 [OF False] by (simp add: k4(3))
        then have "vm_start (vmas k4 v) \<le> vm_start (vmas k4 b)"
          using vok(2) st3 [of v] nv by (simp add: k4(3))
        then show ?thesis by auto
      qed
      ultimately have "copied_suffix k4 to from (v # S)"
        by (simp add: copied_suffix_def)
      from Cons.IH [OF k4(1) sh4 Cons.prems(3) k4(2) this] have IH: "\<exists>ret k'. dup_mmap_loop to from copied vs k4 = Some (ret, k') \<and>
         vmm_inv k' \<and> (\<forall>m. m \<noteq> to \<longrightarrow> aspace k' m = aspace k m) \<and> (ret = 0 \<longrightarrow> aspace k' to = aspace k from) \<and> (ret \<noteq> 0 \<longrightarrow> ret = - E_NO_MEM)"
        using k4(5) Cons.prems(3) by auto
      have "dup_mmap_loop to from copied (v # vs) k =
          (if copied v then dup_mmap_loop to from copied vs k4 else Some (- E_NO_MEM, k4))"
        using k1(1) k2 k3(1) v1 by (simp add: Let_def k4_def k2_def [symmetric])
      then show ?thesis
        using IH k4(1,5) by (cases "copied v") auto
    qed
  qed
qed


text \<open>C17: \<open>dup_mmap\<close> into an empty mm never panics; it returns 0 only when the copy has the same address space as the original,
  and -E_NO_MEM otherwise.  The state stays well formed and no other address space changes.\<close>

theorem dup_mmap_correct:
  assumes "vmm_inv k" "shares_ok k from" "to \<noteq> from" "mmap_list (mms k to) = []"
  shows "\<exists>ret k'. dup_mmap (Some to) (Some from) copied k = Some (ret, k') \<and> vmm_inv k' \<and> (\<forall>m. m \<noteq> to \<longrightarrow> aspace k' m = aspace k m) \<and>
     (ret = 0 \<longrightarrow> aspace k' to = aspace k from) \<and> (ret \<noteq> 0 \<longrightarrow> ret = - E_NO_MEM)"
proof -
  have "copied_suffix k to from []"
    using assms(4) by (auto simp: copied_suffix_def aspace_def)
  then show ?thesis
    using dup_mmap_loop_correct [of k "from" to "rev (mmap_list (mms k from))" "[]" copied] assms by (simp add: dup_mmap_def)
qed

text \<open>When memory does not run out the copy of the example succeeds.\<close>

theorem dup_mmap_correct_witness:
  "\<exists>k'. dup_mmap (Some 2) (Some 1) (\<lambda>_. True) demo_vmm = Some (0, k') \<and> vmm_inv k' \<and> aspace k' 2 = aspace demo_vmm 1"
proof -
  have "map_option fst (dup_mmap (Some 2) (Some 1) (\<lambda>_. True) demo_vmm) = Some 0"
    by code_simp
  moreover have "mmap_list (mms demo_vmm 2) = []"
    by (simp add: demo_vmm_def demo_mm_def)
  ultimately show ?thesis
    using dup_mmap_correct [OF demo_vmm_inv demo_vmm_shares, of 2 "\<lambda>_. True"] by auto
qed

theorem find_vma_correct_witness:
  "\<exists>k'. find_vma (Some 1) 0x803000 demo_vmm = (Some 11, k') \<and> vmm_inv k' \<and> vmas k' = vmas demo_vmm \<and> aspace k' = aspace demo_vmm"
  using find_vma_correct [OF demo_vmm_inv, of 1 "0x803000"] by (simp add: demo_vmm_def demo_mm_def demo_vma_def)

theorem user_mem_check_correct_witness:
  "fst (user_mem_check (Some 1) 0x800010 0x100 True demo_vmm) \<and> \<not> fst (user_mem_check (Some 1) 0x802FF0 0x100 True demo_vmm)"
proof -
  have "accessible (demo_vma 10) True x" if "0x800010 \<le> x" "x < 0x800110" for x
    using that by (auto simp: accessible_def covers_def demo_vma_def word_le_nat_alt word_less_nat_alt)
  then have "\<forall>x. 0x800010 \<le> x \<and> x < 0x800010 + 0x100 \<longrightarrow> (\<exists>v\<in>set (mmap_list (mms demo_vmm 1)). accessible (vmas demo_vmm v) True x)"
    by (auto simp: demo_vmm_def demo_mm_def)
  moreover have "USER_ACCESS 0x800010 (0x800010 + 0x100)"
    by (simp add: USER_ACCESS_def)
  ultimately have one: "fst (user_mem_check (Some 1) 0x800010 0x100 True demo_vmm)"
    using user_mem_check_correct [OF demo_vmm_inv, of 1 "0x800010" "0x100" True] by auto
  have "\<not> (\<exists>v\<in>set (mmap_list (mms demo_vmm 1)). accessible (vmas demo_vmm v) True 0x803000)"
    by (simp add: demo_vmm_def demo_mm_def demo_vma_def accessible_def covers_def)
  then have "\<not> (\<forall>x. 0x802FF0 \<le> x \<and> x < 0x802FF0 + 0x100 \<longrightarrow> (\<exists>v\<in>set (mmap_list (mms demo_vmm 1)). accessible (vmas demo_vmm v) True x))"
    by (intro notI) (drule spec [of _ "0x803000"], simp)
  moreover obtain ok k' where "user_mem_check (Some 1) 0x802FF0 0x100 True demo_vmm = (ok, k')"
    "ok \<longleftrightarrow> USER_ACCESS 0x802FF0 (0x802FF0 + 0x100) \<and> (\<forall>x. 0x802FF0 \<le> x \<and> x < 0x802FF0 + 0x100 \<longrightarrow>
        (\<exists>v\<in>set (mmap_list (mms demo_vmm 1)). accessible (vmas demo_vmm v) True x))"
    using user_mem_check_correct [OF demo_vmm_inv, of 1 "0x802FF0" "0x100" True] by (elim exE conjE) (rule that)
  ultimately have "\<not> fst (user_mem_check (Some 1) 0x802FF0 0x100 True demo_vmm)"
    by (simp only: fst_conv simp_thms)
  with one show ?thesis by simp
qed

theorem get_unmapped_area_correct_witness:
  "free_range demo_vmm 1 0x1000 (get_unmapped_area 1 0x1000 demo_vmm) \<and> get_unmapped_area 1 0x1000 demo_vmm = 0xAFEFF000"
proof -
  have r: "get_unmapped_area 1 0x1000 demo_vmm = 0xAFEFF000"
    by code_simp
  then have "\<exists>s. free_range demo_vmm 1 0x1000 s"
    using get_unmapped_area_correct [OF demo_vmm_inv, of "0x1000" 1] by (auto split: if_splits)
  then show ?thesis
    using get_unmapped_area_correct [OF demo_vmm_inv, of "0x1000" 1] r by simp
qed

end
