(* ===== verification/Proc.thy ===== *)
theory Proc
  imports Ucore_Prelude
begin

text \<open>
  The process table of \<^verbatim>\<open>kern/process/proc.c\<close>: process numbers (\<open>get_pid\<close>), the table of processes by number
  (\<open>hash_proc\<close>, \<open>unhash_proc\<close>, \<open>find_proc\<close>, with \<^verbatim>\<open>hash32\<close> of \<^verbatim>\<open>libs/hash.c\<close>) and the links between relatives (\<open>set_links\<close>,
  \<open>remove_links\<close>).

  \<open>proc_links\<close> is the part of \<^verbatim>\<open>struct proc_struct\<close> these functions use, in a store by address (\<^verbatim>\<open>NULL\<close> is \<^const>\<open>None\<close>); \<open>proc_list\<close>
  and the buckets \<open>hash_list\<close> are the sequences of the processes in these rings; \<open>next_safe\<close> and \<open>last_pid\<close> are the
  static variables of \<open>get_pid\<close>.  Process numbers stay below \<open>MAX_PID\<close>, so that \<^verbatim>\<open>int\<close> is the type \<^typ>\<open>int\<close>.
\<close>

abbreviation MAX_PROCESS :: int where "MAX_PROCESS \<equiv> 4096"
abbreviation MAX_PID :: int where "MAX_PID \<equiv> 8192"

record proc_links =
  pid :: int
  parent :: "addr option"
  cptr :: "addr option"
  yptr :: "addr option"
  optr :: "addr option"

record ptable =
  procs :: "addr \<Rightarrow> proc_links"
  proc_list :: "addr list"
  hash_list :: "nat \<Rightarrow> addr list"
  nr_process :: int
  next_safe :: int
  last_pid :: int

abbreviation upd_proc :: "addr \<Rightarrow> (proc_links \<Rightarrow> proc_links) \<Rightarrow> ptable \<Rightarrow> ptable" where
  "upd_proc a f k \<equiv> k\<lparr>procs := (procs k)(a := f (procs k a))\<rparr>"

subsection \<open>Process numbers\<close>

text \<open>The loop over \<open>proc_list\<close>: \<^const>\<open>Inl\<close> is the jump to \<open>repeat\<close>, \<^const>\<open>Inr\<close> the end of the list.\<close>

fun pid_scan :: "int list \<Rightarrow> int \<Rightarrow> int \<Rightarrow> int \<times> int + int \<times> int" where
  "pid_scan [] lp nxt = Inr (lp, nxt)"
| "pid_scan (p # ps) lp nxt =
     (if p = lp then
        let lp = lp + 1 in
        if lp \<ge> nxt then Inl (if lp \<ge> MAX_PID then 1 else lp, MAX_PID) else pid_scan ps lp nxt
      else if p > lp \<and> nxt > p then pid_scan ps lp p
      else pid_scan ps lp nxt)"

partial_function (option) pid_repeat :: "int list \<Rightarrow> int \<Rightarrow> int \<Rightarrow> (int \<times> int) option" where
  [code]: "pid_repeat ps lp nxt =
     (case pid_scan ps lp nxt of Inr r \<Rightarrow> Some r | Inl (lp, nxt) \<Rightarrow> pid_repeat ps lp nxt)"

definition pids :: "ptable \<Rightarrow> int list" where
  "pids k = map (\<lambda>a. pid (procs k a)) (proc_list k)"

definition get_pid :: "ptable \<Rightarrow> (int \<times> ptable) option" where
  "get_pid k =
     (let lp = last_pid k + 1 in
      if lp \<ge> MAX_PID then do {
        (lp, nxt) \<leftarrow> pid_repeat (pids k) 1 MAX_PID;
        Some (lp, k\<lparr>last_pid := lp, next_safe := nxt\<rparr>)
      }
      else if lp \<ge> next_safe k then do {
        (lp, nxt) \<leftarrow> pid_repeat (pids k) lp MAX_PID;
        Some (lp, k\<lparr>last_pid := lp, next_safe := nxt\<rparr>)
      }
      else Some (lp, k\<lparr>last_pid := lp\<rparr>))"

subsection \<open>The table\<close>

definition hash32 :: "u32 \<Rightarrow> nat \<Rightarrow> u32" where
  "hash32 val bits = drop_bit (32 - bits) (val * 0x9e370001)"

definition pid_hashfn :: "int \<Rightarrow> nat" where
  "pid_hashfn x = unat (hash32 (word_of_int x) 10)"

definition hash_proc :: "addr \<Rightarrow> ptable \<Rightarrow> ptable" where
  "hash_proc a k = k\<lparr>hash_list := (hash_list k)(pid_hashfn (pid (procs k a)) := a # hash_list k (pid_hashfn (pid (procs k a))))\<rparr>"

text \<open>\<open>list_del\<close> takes the process out of the bucket it is in.\<close>

definition unhash_proc :: "addr \<Rightarrow> ptable \<Rightarrow> ptable" where
  "unhash_proc a k = k\<lparr>hash_list := (\<lambda>h. remove1 a (hash_list k h))\<rparr>"

fun find_in_bucket :: "(addr \<Rightarrow> proc_links) \<Rightarrow> int \<Rightarrow> addr list \<Rightarrow> addr option" where
  "find_in_bucket st n [] = None"
| "find_in_bucket st n (a # as) = (if pid (st a) = n then Some a else find_in_bucket st n as)"

definition find_proc :: "int \<Rightarrow> ptable \<Rightarrow> addr option" where
  "find_proc n k = (if 0 < n \<and> n < MAX_PID then find_in_bucket (procs k) n (hash_list k (pid_hashfn n)) else None)"

subsection \<open>Relatives\<close>

text \<open>Both functions read fields through \<open>proc->parent\<close>, which must not be \<^verbatim>\<open>NULL\<close>.\<close>

definition set_links :: "addr \<Rightarrow> ptable \<Rightarrow> ptable option" where
  "set_links a k = do {
     p \<leftarrow> parent (procs k a);
     (let k = k\<lparr>proc_list := a # proc_list k\<rparr>;
          k = upd_proc a (\<lambda>q. q\<lparr>yptr := None, optr := cptr (procs k p)\<rparr>) k;
          k = (case optr (procs k a) of None \<Rightarrow> k | Some o' \<Rightarrow> upd_proc o' (\<lambda>q. q\<lparr>yptr := Some a\<rparr>) k);
          k = upd_proc p (\<lambda>q. q\<lparr>cptr := Some a\<rparr>) k
      in Some (k\<lparr>nr_process := nr_process k + 1\<rparr>))
   }"

definition remove_links :: "addr \<Rightarrow> ptable \<Rightarrow> ptable option" where
  "remove_links a k = do {
     k \<leftarrow> Some (k\<lparr>proc_list := remove1 a (proc_list k)\<rparr>);
     k \<leftarrow> Some (case optr (procs k a) of None \<Rightarrow> k
               | Some o' \<Rightarrow> upd_proc o' (\<lambda>q. q\<lparr>yptr := yptr (procs k a)\<rparr>) k);
     k \<leftarrow> (case yptr (procs k a) of
            Some y \<Rightarrow> Some (upd_proc y (\<lambda>q. q\<lparr>optr := optr (procs k a)\<rparr>) k)
          | None \<Rightarrow> do { p \<leftarrow> parent (procs k a); Some (upd_proc p (\<lambda>q. q\<lparr>cptr := optr (procs k a)\<rparr>) k) });
     Some (k\<lparr>nr_process := nr_process k - 1\<rparr>)
   }"


subsection \<open>Process numbers are unique\<close>

text \<open>What the scan knows: no process seen has a number from \<open>lp\<close> up to \<open>nxt\<close>.\<close>

lemma pid_scan_Inr:
  assumes "pid_scan ps lp nxt = Inr (l, n)" "lp < nxt" "\<forall>q\<in>seen. q < lp \<or> nxt \<le> q"
  shows "lp \<le> l \<and> l < n \<and> n \<le> nxt \<and> (\<forall>q\<in>seen \<union> set ps. q < l \<or> n \<le> q)"
  using assms
proof (induction ps arbitrary: lp nxt seen)
  case (Cons p ps)
  consider (eq) "p = lp" "lp + 1 < nxt" | (mid) "p \<noteq> lp" "lp < p" "p < nxt" | (out) "p \<noteq> lp" "\<not> (lp < p \<and> p < nxt)"
    using Cons.prems(1) by (cases "p = lp"; cases "lp + 1 < nxt") (auto simp: Let_def)
  then show ?case
  proof cases
    case eq
    then have "pid_scan ps (lp + 1) nxt = Inr (l, n)" "\<forall>q\<in>insert p seen. q < lp + 1 \<or> nxt \<le> q"
      using Cons.prems by (auto simp: Let_def)
    from Cons.IH [OF this(1) eq(2) this(2)] show ?thesis by auto
  next
    case mid
    then have "pid_scan ps lp p = Inr (l, n)" "\<forall>q\<in>insert p seen. q < lp \<or> p \<le> q"
      using Cons.prems by auto
    from Cons.IH [OF this(1) mid(2) this(2)] show ?thesis using mid by auto
  next
    case out
    then have "pid_scan ps lp nxt = Inr (l, n)" "\<forall>q\<in>insert p seen. q < lp \<or> nxt \<le> q"
      using Cons.prems by auto
    from Cons.IH [OF this(1) Cons.prems(2) this(2)] show ?thesis by auto
  qed
qed simp

text \<open>A new start moves on to a later number, over numbers in use only.\<close>

lemma pid_scan_Inl:
  assumes "pid_scan ps lp nxt = Inl (l, n)" "lp < nxt" "nxt \<le> MAX_PID"
  shows "\<exists>m. lp < m \<and> m \<le> MAX_PID \<and> {lp..<m} \<subseteq> set ps \<and> l = (if m \<ge> MAX_PID then 1 else m) \<and> n = MAX_PID"
  using assms
proof (induction ps arbitrary: lp nxt)
  case (Cons p ps)
  consider (stop) "p = lp" "lp + 1 \<ge> nxt" | (eq) "p = lp" "lp + 1 < nxt" | (mid) "p \<noteq> lp" "lp < p" "p < nxt"
    | (out) "p \<noteq> lp" "\<not> (lp < p \<and> p < nxt)"
    using not_le by metis
  then show ?case
  proof cases
    case stop
    then have "l = (if lp + 1 \<ge> MAX_PID then 1 else lp + 1)" "n = MAX_PID" "{lp..<lp + 1} \<subseteq> set (p # ps)"
      using Cons.prems by (auto simp: Let_def)
    then show ?thesis
      using Cons.prems(2,3) by (intro exI [of _ "lp + 1"]) auto
  next
    case eq
    then have "pid_scan ps (lp + 1) nxt = Inl (l, n)"
      using Cons.prems(1) by (simp add: Let_def)
    from Cons.IH [OF this eq(2) Cons.prems(3)] obtain m where
      m: "lp + 1 < m" "m \<le> MAX_PID" "{lp + 1..<m} \<subseteq> set ps" "l = (if m \<ge> MAX_PID then 1 else m)" "n = MAX_PID"
      by blast
    moreover have "{lp..<m} = insert lp {lp + 1..<m}"
      using m(1) by auto
    ultimately show ?thesis
      using eq(1) by (intro exI [of _ m]) auto
  next
    case mid
    then have "pid_scan ps lp p = Inl (l, n)"
      using Cons.prems(1) by simp
    moreover have "p \<le> MAX_PID"
      using mid Cons.prems(3) by simp
    ultimately obtain m where "lp < m" "m \<le> MAX_PID" "{lp..<m} \<subseteq> set ps" "l = (if m \<ge> MAX_PID then 1 else m)" "n = MAX_PID"
      using Cons.IH [of lp p] mid(2) by blast
    then show ?thesis by (intro exI [of _ m]) auto
  next
    case out
    then have "pid_scan ps lp nxt = Inl (l, n)"
      using Cons.prems(1) by (auto split: if_splits)
    then obtain m where "lp < m" "m \<le> MAX_PID" "{lp..<m} \<subseteq> set ps" "l = (if m \<ge> MAX_PID then 1 else m)" "n = MAX_PID"
      using Cons.IH [OF _ Cons.prems(2,3)] by blast
    then show ?thesis by (intro exI [of _ m]) auto
  qed
qed simp

text \<open>The distance from \<open>l\<close> up to a free number \<open>f\<close>, around the end of the range.\<close>

definition pid_dist :: "int \<Rightarrow> int \<Rightarrow> nat" where
  "pid_dist f l = nat (if l \<le> f then f - l else f - l + MAX_PID)"

lemma pid_repeat_correct:
  assumes "f \<notin> set ps" "1 \<le> f" "f < MAX_PID" "1 \<le> lp" "lp < MAX_PID"
  shows "\<exists>l n. pid_repeat ps lp MAX_PID = Some (l, n) \<and> 1 \<le> l \<and> l < n \<and> n \<le> MAX_PID \<and> (\<forall>q\<in>set ps. q < l \<or> n \<le> q)"
  using assms(4,5)
proof (induction "pid_dist f lp" arbitrary: lp rule: less_induct)
  case less
  show ?case
  proof (cases "pid_scan ps lp MAX_PID")
    case (Inr r)
    obtain l n where r: "r = (l, n)" by fastforce
    have "lp \<le> l \<and> l < n \<and> n \<le> MAX_PID \<and> (\<forall>q\<in>{} \<union> set ps. q < l \<or> n \<le> q)"
      using pid_scan_Inr [OF Inr [unfolded r] less.prems(2), of "{}"] by simp
    then show ?thesis
      using Inr r less.prems(1) by (subst pid_repeat.simps) auto
  next
    case (Inl r)
    obtain l n where r: "r = (l, n)" by fastforce
    obtain m where m: "lp < m" "m \<le> MAX_PID" "{lp..<m} \<subseteq> set ps" "l = (if m \<ge> MAX_PID then 1 else m)" "n = MAX_PID"
      using pid_scan_Inl [OF Inl [unfolded r] less.prems(2)] by blast
    have f: "f < lp \<or> m \<le> f"
      using m(3) assms(1) by (meson atLeastLessThan_iff not_le subsetD)
    have "pid_dist f l < pid_dist f lp"
      using f m(1,2,4) assms(2,3) less.prems by (auto simp: pid_dist_def)
    moreover have "1 \<le> l" "l < MAX_PID"
      using m(1,2,4) less.prems by auto
    ultimately show ?thesis
      using less.hyps [of l] Inl r m(5) by (subst pid_repeat.simps) simp
  qed
qed

lemma free_pid_exists:
  assumes "length ps < nat MAX_PID - 1"
  obtains f where "f \<notin> set ps" "1 \<le> f" "f < MAX_PID"
proof -
  have "\<not> {1..<MAX_PID} \<subseteq> set ps"
  proof
    assume "{1..<MAX_PID} \<subseteq> set ps"
    then have "card {1..<MAX_PID} \<le> length ps"
      by (meson List.finite_set card_length card_mono order.trans)
    then show False using assms by simp
  qed
  then obtain f where "f \<in> {1..<MAX_PID}" "f \<notin> set ps"
    by blast
  then show thesis
    by (intro that) auto
qed

text \<open>The invariant of the static variables: no process has a number strictly between them.\<close>

definition pid_inv :: "ptable \<Rightarrow> bool" where
  "pid_inv k \<longleftrightarrow> 1 \<le> last_pid k \<and> (\<forall>q\<in>set (pids k). \<not> (last_pid k < q \<and> q < next_safe k)) \<and> next_safe k \<le> MAX_PID"

lemma pid_inv_next:
  assumes "1 \<le> n" "nxt \<le> MAX_PID" "\<forall>q\<in>set (pids k). \<not> (n < q \<and> q < nxt)"
    and "last_pid k'' = n" "next_safe k'' = nxt" "set (pids k'') \<subseteq> insert n (set (pids k))"
  shows "pid_inv k''"
  using assms by (auto simp: pid_inv_def)

lemma get_pid_ok:
  assumes "pid_inv k" "length (proc_list k) \<le> nat MAX_PROCESS"
  shows "\<exists>n k'. get_pid k = Some (n, k') \<and> 1 \<le> n \<and> n < MAX_PID \<and> n \<notin> set (pids k) \<and>
     procs k' = procs k \<and> proc_list k' = proc_list k \<and> last_pid k' = n \<and>
     (\<forall>k''. last_pid k'' = last_pid k' \<longrightarrow> next_safe k'' = next_safe k' \<longrightarrow> set (pids k'') \<subseteq> insert n (set (pids k)) \<longrightarrow> pid_inv k'')"
proof -
  obtain f where f: "f \<notin> set (pids k)" "1 \<le> f" "f < MAX_PID"
    by (rule free_pid_exists [of "pids k"]) (use assms(2) in \<open>auto simp: pids_def\<close>)
  let ?lp = "last_pid k + 1"
  have search: "\<exists>l n. pid_repeat (pids k) s MAX_PID = Some (l, n) \<and> 1 \<le> l \<and> l < n \<and> n \<le> MAX_PID \<and> (\<forall>q\<in>set (pids k). q < l \<or> n \<le> q)"
    if "1 \<le> s" "s < MAX_PID" for s
    using pid_repeat_correct [OF f that] .
  have found: ?thesis if "get_pid k = do { (l, n) \<leftarrow> pid_repeat (pids k) s MAX_PID; Some (l, k\<lparr>last_pid := l, next_safe := n\<rparr>) }"
    and s: "1 \<le> s" "s < MAX_PID" for s
  proof -
    obtain l n where l: "pid_repeat (pids k) s MAX_PID = Some (l, n)" "1 \<le> l" "l < n" "n \<le> MAX_PID" "\<forall>q\<in>set (pids k). q < l \<or> n \<le> q"
      using search [OF s] by blast
    then have "l \<notin> set (pids k)" "\<forall>q\<in>set (pids k). \<not> (l < q \<and> q < n)"
      by fastforce+
    then show ?thesis
      using that(1) l pid_inv_next [OF l(2,4)] by (intro exI [of _ l] exI [of _ "k\<lparr>last_pid := l, next_safe := n\<rparr>"]) simp
  qed
  have base: "1 \<le> last_pid k" "next_safe k \<le> MAX_PID" "\<forall>q\<in>set (pids k). \<not> (last_pid k < q \<and> q < next_safe k)"
    using assms(1) by (simp_all add: pid_inv_def)
  consider (wrap) "?lp \<ge> MAX_PID" | (scan) "?lp < MAX_PID" "?lp \<ge> next_safe k" | (fast) "?lp < MAX_PID" "?lp < next_safe k"
    by linarith
  then show ?thesis
  proof cases
    case wrap
    then show ?thesis
      by (intro found [of 1]) (simp_all add: get_pid_def)
  next
    case scan
    then show ?thesis
      using base(1) by (intro found [of ?lp]) (simp_all add: get_pid_def)
  next
    case fast
    have new: "?lp \<notin> set (pids k)" "\<forall>q\<in>set (pids k). \<not> (?lp < q \<and> q < next_safe k)"
      using base fast(2) by fastforce+
    have "get_pid k = Some (?lp, k\<lparr>last_pid := ?lp\<rparr>)"
      using fast by (simp add: get_pid_def Let_def)
    then show ?thesis
      using new fast base pid_inv_next [of ?lp "next_safe k" k] by (intro exI [of _ ?lp] exI [of _ "k\<lparr>last_pid := ?lp\<rparr>"]) simp
  qed
qed

lemma get_pid_frame: "get_pid k = Some (n, k') \<Longrightarrow> procs k' = procs k \<and> proc_list k' = proc_list k \<and> hash_list k' = hash_list k \<and> nr_process k' = nr_process k"
  by (auto simp: get_pid_def Let_def split: if_splits Option.bind_splits)

text \<open>C30: \<open>get_pid\<close> returns: while there are fewer processes than the limit, its search ends, whatever numbers are in use and
  wherever it starts, with a number between 1 and MAX_PID that no process has.  What it remembers for the next call
  stays right when processes exit and when the new process gets the number.\<close>

theorem get_pid_correct:
  assumes "pid_inv k" "length (proc_list k) \<le> nat MAX_PROCESS"
  shows "\<exists>n k'. get_pid k = Some (n, k') \<and> 1 \<le> n \<and> n < MAX_PID \<and> n \<notin> set (pids k) \<and>
     procs k' = procs k \<and> proc_list k' = proc_list k \<and> last_pid k' = n \<and>
     (\<forall>k''. last_pid k'' = last_pid k' \<longrightarrow> next_safe k'' = next_safe k' \<longrightarrow> set (pids k'') \<subseteq> insert n (set (pids k)) \<longrightarrow> pid_inv k'')"
  using assms by (rule get_pid_ok)

text \<open>The number the search starts from is in use here, and so are the next ones and the last.\<close>

definition demo_ptable :: ptable where
  "demo_ptable = \<lparr>procs = (\<lambda>a. \<lparr>pid = (if a = 1 then 3 else if a = 2 then 2 else if a = 3 then 4 else 8191), parent = None,
       cptr = None, yptr = None, optr = None\<rparr>),
     proc_list = [1, 2, 3, 4], hash_list = (\<lambda>_. []), nr_process = 4, next_safe = 2, last_pid = 1\<rparr>"

theorem get_pid_correct_witness:
  "\<exists>n k'. get_pid demo_ptable = Some (n, k') \<and> n = 5 \<and> n \<notin> set (pids demo_ptable) \<and> pid_inv k'"
proof -
  have i: "pid_inv demo_ptable" "length (proc_list demo_ptable) \<le> nat MAX_PROCESS"
    by (auto simp: pid_inv_def pids_def demo_ptable_def)
  obtain n k' where k': "get_pid demo_ptable = Some (n, k')" "n \<notin> set (pids demo_ptable)" "procs k' = procs demo_ptable"
      "proc_list k' = proc_list demo_ptable"
      "\<forall>k''. last_pid k'' = last_pid k' \<longrightarrow> next_safe k'' = next_safe k' \<longrightarrow> set (pids k'') \<subseteq> insert n (set (pids demo_ptable)) \<longrightarrow> pid_inv k''"
    using get_pid_correct [OF i] by blast
  moreover have "set (pids k') \<subseteq> insert n (set (pids demo_ptable))"
    using k'(3,4) by (auto simp: pids_def)
  moreover have "map_option fst (get_pid demo_ptable) = Some 5"
    by code_simp
  ultimately show ?thesis by auto
qed

subsection \<open>Lookup by number\<close>

text \<open>Every process in a bucket belongs there, and no two processes in the table have the same number.\<close>

definition hash_inv :: "ptable \<Rightarrow> bool" where
  "hash_inv k \<longleftrightarrow> (\<forall>h. distinct (hash_list k h) \<and> (\<forall>a\<in>set (hash_list k h). pid_hashfn (pid (procs k a)) = h)) \<and>
     (\<forall>h g. \<forall>a\<in>set (hash_list k h). \<forall>b\<in>set (hash_list k g). pid (procs k a) = pid (procs k b) \<longrightarrow> a = b)"

definition hashed :: "ptable \<Rightarrow> addr set" where
  "hashed k = (\<Union>h. set (hash_list k h))"

lemma find_in_bucket_Some: "find_in_bucket st n as = Some a \<Longrightarrow> a \<in> set as \<and> pid (st a) = n"
  by (induction as) (auto split: if_splits)

lemma find_in_bucket_None: "find_in_bucket st n as = None \<longleftrightarrow> (\<forall>a\<in>set as. pid (st a) \<noteq> n)"
  by (induction as) auto

lemma find_proc_correct:
  assumes "hash_inv k" "0 < n" "n < MAX_PID"
  shows "find_proc n k = Some a \<longleftrightarrow> a \<in> hashed k \<and> pid (procs k a) = n"
proof
  assume "find_proc n k = Some a"
  then show "a \<in> hashed k \<and> pid (procs k a) = n"
    using assms(2,3) find_in_bucket_Some by (fastforce simp: find_proc_def hashed_def)
next
  assume a: "a \<in> hashed k \<and> pid (procs k a) = n"
  then have "a \<in> set (hash_list k (pid_hashfn n))"
    using assms(1) by (auto simp: hashed_def hash_inv_def)
  moreover from this obtain b where b: "find_in_bucket (procs k) n (hash_list k (pid_hashfn n)) = Some b"
    using a find_in_bucket_None [of "procs k" n] by (cases "find_in_bucket (procs k) n (hash_list k (pid_hashfn n))") auto
  moreover have "b \<in> set (hash_list k (pid_hashfn n))" "pid (procs k b) = n"
    using find_in_bucket_Some [OF b] by auto
  ultimately have "b = a"
    using assms(1) a unfolding hash_inv_def by blast
  then show "find_proc n k = Some a"
    using assms(2,3) b by (simp add: find_proc_def)
qed

lemma hash_proc_correct:
  assumes "hash_inv k" "a \<notin> hashed k" "\<forall>b\<in>hashed k. pid (procs k b) \<noteq> pid (procs k a)"
  shows "hash_inv (hash_proc a k) \<and> hashed (hash_proc a k) = insert a (hashed k)"
proof -
  let ?h = "pid_hashfn (pid (procs k a))"
  have set: "set (hash_list (hash_proc a k) h) = (if h = ?h then insert a (set (hash_list k h)) else set (hash_list k h))" for h
    by (simp add: hash_proc_def)
  have "hashed (hash_proc a k) = insert a (hashed k)"
    unfolding hashed_def set by (auto split: if_splits) metis
  moreover have "hash_inv (hash_proc a k)"
    using assms unfolding hash_inv_def hashed_def hash_proc_def by (auto split: if_splits) blast+
  ultimately show ?thesis by simp
qed

lemma unhash_proc_correct:
  assumes "hash_inv k"
  shows "hash_inv (unhash_proc a k) \<and> hashed (unhash_proc a k) = hashed k - {a}"
proof -
  have d: "set (remove1 a (hash_list k h)) = set (hash_list k h) - {a}" for h
    using assms by (simp add: hash_inv_def)
  have "hashed (unhash_proc a k) = hashed k - {a}"
    by (auto simp: hashed_def unhash_proc_def d)
  moreover have "hash_inv (unhash_proc a k)"
    using assms by (auto simp: hash_inv_def unhash_proc_def d)
  ultimately show ?thesis by simp
qed


subsection \<open>Relatives\<close>

text \<open>The children of a process, youngest first: \<open>cptr\<close> leads to the first, \<open>optr\<close> to the next and \<open>yptr\<close> back.\<close>

definition head :: "'a list \<Rightarrow> 'a option" where
  "head xs = (case xs of [] \<Rightarrow> None | x # _ \<Rightarrow> Some x)"

lemma head_simps [simp]: "head [] = None" "head (x # xs) = Some x"
  by (simp_all add: head_def)

fun sib :: "(addr \<Rightarrow> proc_links) \<Rightarrow> addr option \<Rightarrow> addr list \<Rightarrow> addr option \<Rightarrow> bool" where
  "sib st y [] n = True"
| "sib st y (x # xs) n \<longleftrightarrow> yptr (st x) = y \<and> optr (st x) = (if xs = [] then n else head xs) \<and> sib st (Some x) xs n"

definition children :: "(addr \<Rightarrow> proc_links) \<Rightarrow> addr \<Rightarrow> addr list \<Rightarrow> bool" where
  "children st p xs \<longleftrightarrow> distinct xs \<and> cptr (st p) = head xs \<and> sib st None xs None \<and>
     (\<forall>x\<in>set xs. parent (st x) = Some p)"

lemma sib_cong:
  "(\<And>x. x \<in> set xs \<Longrightarrow> yptr (st' x) = yptr (st x) \<and> optr (st' x) = optr (st x)) \<Longrightarrow> sib st' y xs n = sib st y xs n"
  by (induction st y xs n rule: sib.induct) auto

lemma sib_append:
  "sib st y (xs @ ys) n \<longleftrightarrow> sib st y xs (if ys = [] then n else head ys) \<and> sib st (if xs = [] then y else Some (last xs)) ys n"
  by (induction st y xs n rule: sib.induct) (auto simp: head_def split: list.splits)

lemma children_other:
  assumes "children st q ys" "cptr (st' q) = cptr (st q)"
    and "\<And>x. x \<in> set ys \<Longrightarrow> yptr (st' x) = yptr (st x) \<and> optr (st' x) = optr (st x) \<and> parent (st' x) = parent (st x)"
  shows "children st' q ys"
proof -
  have "sib st' None ys None = sib st None ys None"
    using assms(3) by (intro sib_cong) auto
  then show ?thesis
    using assms by (auto simp: children_def)
qed

lemma set_links_correct:
  assumes par: "parent (procs k a) = Some p" and ch: "children (procs k) p xs" and a: "a \<notin> set xs" "a \<noteq> p"
  shows "\<exists>k'. set_links a k = Some k' \<and> children (procs k') p (a # xs) \<and> proc_list k' = a # proc_list k \<and>
     nr_process k' = nr_process k + 1 \<and>
     (\<forall>q ys. children (procs k) q ys \<and> q \<noteq> p \<and> q \<noteq> a \<and> a \<notin> set ys \<longrightarrow> children (procs k') q ys)"
proof -
  let ?st = "procs k"
  have xs: "distinct xs" "cptr (?st p) = head xs" "sib ?st None xs None" "\<And>x. x \<in> set xs \<Longrightarrow> parent (?st x) = Some p"
    using ch by (auto simp: children_def)
  obtain k' where k': "set_links a k = Some k'" "proc_list k' = a # proc_list k" "nr_process k' = nr_process k + 1"
    and a': "yptr (procs k' a) = None" "optr (procs k' a) = head xs" "parent (procs k' a) = Some p"
    and p': "cptr (procs k' p) = Some a"
    and h': "\<And>z zs. xs = z # zs \<Longrightarrow> yptr (procs k' z) = Some a"
    and c': "\<And>q. q \<noteq> p \<Longrightarrow> q \<noteq> a \<Longrightarrow> cptr (procs k' q) = cptr (?st q)"
    and o': "\<And>q. q \<noteq> a \<Longrightarrow> optr (procs k' q) = optr (?st q)" "\<And>q. q \<noteq> a \<Longrightarrow> head xs \<noteq> Some q \<Longrightarrow> yptr (procs k' q) = yptr (?st q)"
    and q': "\<And>q. parent (procs k' q) = parent (?st q)"
    using par xs(2) a by (cases xs) (auto simp: set_links_def Let_def)
  have "sib (procs k') None (a # xs) None"
  proof (cases xs)
    case (Cons z zs)
    have "sib (procs k') (Some z) zs None = sib ?st (Some z) zs None"
    proof (rule sib_cong)
      fix x assume "x \<in> set zs"
      then have "x \<noteq> a" "head xs \<noteq> Some x"
        using xs(1) a(1) Cons by auto
      then show "yptr (procs k' x) = yptr (?st x) \<and> optr (procs k' x) = optr (?st x)"
        using o' by simp
    qed
    then show ?thesis
      using xs(3) a' h' [OF Cons] o'(1) [of z] a(1) by (auto simp: Cons)
  qed (use a' in auto)
  then have "children (procs k') p (a # xs)"
    using xs a p' q' a'(3) by (auto simp: children_def)
  moreover have "children (procs k') q ys" if "children ?st q ys" "q \<noteq> p" "q \<noteq> a" "a \<notin> set ys" for q ys
  proof (rule children_other [OF that(1)])
    fix x assume x: "x \<in> set ys"
    then have "parent (?st x) = Some q" "x \<noteq> a"
      using that(1,4) by (auto simp: children_def)
    moreover have "head xs \<noteq> Some x"
      using \<open>parent (?st x) = Some q\<close> xs(4) that(2) by (cases xs) auto
    ultimately show "yptr (procs k' x) = yptr (?st x) \<and> optr (procs k' x) = optr (?st x) \<and> parent (procs k' x) = parent (?st x)"
      using o' q' by auto
  qed (use c' that in auto)
  ultimately show ?thesis
    using k' by blast
qed

lemma remove_links_correct:
  assumes ch: "children (procs k) p (A @ a # B)"
  shows "\<exists>k'. remove_links a k = Some k' \<and> children (procs k') p (A @ B) \<and> proc_list k' = remove1 a (proc_list k) \<and>
     nr_process k' = nr_process k - 1 \<and> (\<forall>q ys. children (procs k) q ys \<and> q \<noteq> p \<longrightarrow> children (procs k') q ys)"
proof -
  let ?st = "procs k"
  have d: "distinct (A @ a # B)" "cptr (?st p) = head (A @ a # B)"
      "\<And>x. x \<in> set (A @ a # B) \<Longrightarrow> parent (?st x) = Some p"
    using ch by (auto simp: children_def)
  have sA: "sib ?st None A (Some a)" and ya: "yptr (?st a) = (if A = [] then None else Some (last A))"
    and oa: "optr (?st a) = head B" and sB: "sib ?st (Some a) B None"
    using ch by (auto simp: children_def sib_append split: if_splits)
  obtain k' where k': "remove_links a k = Some k'" "proc_list k' = remove1 a (proc_list k)" "nr_process k' = nr_process k - 1"
    and y': "\<And>q. yptr (procs k' q) = (if head B = Some q then yptr (?st a) else yptr (?st q))"
    and o': "\<And>q. optr (procs k' q) = (if A \<noteq> [] \<and> q = last A then head B else optr (?st q))"
    and c': "\<And>q. cptr (procs k' q) = (if A = [] \<and> q = p then head B else cptr (?st q))"
    and q': "\<And>q. parent (procs k' q) = parent (?st q)"
    using oa ya d(3) [of a] d(1) by (cases B; cases "A = []") (auto simp: remove_links_def)
  have hB: "head B \<noteq> Some x" if "x \<in> set A" for x
    using d(1) that by (cases B) auto
  have lA: "A \<noteq> [] \<Longrightarrow> last A \<notin> set B"
    using d(1) last_in_set [of A] by (metis disjoint_iff distinct_append list.set_intros(2))
  have "sib (procs k') None A (head B)"
  proof (cases A rule: rev_cases)
    case (snoc A' l)
    have "sib (procs k') None A' (Some l) = sib ?st None A' (Some l)"
      using d(1) hB y' o' snoc by (intro sib_cong) auto
    then show ?thesis
      using sA hB [of l] y' o' by (auto simp: snoc sib_append)
  qed simp
  moreover have "sib (procs k') (if A = [] then None else Some (last A)) B None"
  proof (cases B)
    case (Cons b B')
    have "sib (procs k') (Some b) B' None = sib ?st (Some b) B' None"
      using d(1) lA y' o' Cons by (intro sib_cong) auto
    then show ?thesis
      using sB lA y' o' ya by (auto simp: Cons)
  qed simp
  ultimately have "sib (procs k') None (A @ B) None"
    by (auto simp: sib_append)
  then have "children (procs k') p (A @ B)"
    using d c' q' by (cases A) (auto simp: children_def)
  moreover have "children (procs k') q ys" if "children ?st q ys" "q \<noteq> p" for q ys
  proof (rule children_other [OF that(1)])
    fix x assume x: "x \<in> set ys"
    then have px: "parent (?st x) = Some q"
      using that(1) by (auto simp: children_def)
    then have "head B \<noteq> Some x" "A \<noteq> [] \<Longrightarrow> x \<noteq> last A"
      using d(3) [of x] that(2) last_in_set [of A] by (cases B; auto)+
    then show "yptr (procs k' x) = yptr (?st x) \<and> optr (procs k' x) = optr (?st x) \<and> parent (procs k' x) = parent (?st x)"
      using y' o' q' by auto
  qed (use c' that in auto)
  ultimately show ?thesis
    using k' by blast
qed

end
