(* ===== verification/Cstring.thy ===== *)
theory Cstring
  imports Ucore_Prelude
begin

text \<open>
  Memory and string functions: \<^verbatim>\<open>libs/string.c\<close>, the versions of five of them in \<^verbatim>\<open>libs/x86.h\<close> that the build uses
  (\<^verbatim>\<open>__HAVE_ARCH_STRCMP\<close> and so on are defined), and \<^verbatim>\<open>kern/libs/string.c\<close>.

  Memory is a function from addresses to bytes, an address is a natural number.  A function that writes returns the new
  memory; the pointers the source returns for convenience (\<open>dst\<close>, \<open>s\<close>) are left out.  A loop that only a null byte ends is
  a \<^theory_text>\<open>partial_function\<close>: running on forever is \<^const>\<open>None\<close>.  Loops that count down have the number of rounds left
  as an argument.  In the assembler versions, the string instructions are read as the byte (\<^verbatim>\<open>movsb\<close>, \<^verbatim>\<open>stosb\<close>, \<^verbatim>\<open>lodsb\<close>, \<^verbatim>\<open>scasb\<close>) or
  double word (\<^verbatim>\<open>movsl\<close>) steps they repeat.
\<close>

type_synonym mem = "addr \<Rightarrow> u8"

subsection \<open>Length\<close>

partial_function (option) strlen_loop :: "mem \<Rightarrow> addr \<Rightarrow> nat \<Rightarrow> nat option" where
  [code]: "strlen_loop m s cnt = (if m s \<noteq> 0 then strlen_loop m (s + 1) (cnt + 1) else Some cnt)"

definition strlen :: "mem \<Rightarrow> addr \<Rightarrow> nat option" where
  "strlen m s = strlen_loop m s 0"

fun strnlen_loop :: "mem \<Rightarrow> addr \<Rightarrow> nat \<Rightarrow> nat \<Rightarrow> nat" where
  "strnlen_loop m s cnt 0 = cnt"
| "strnlen_loop m s cnt (Suc r) = (if m s \<noteq> 0 then strnlen_loop m (s + 1) (cnt + 1) r else cnt)"

definition strnlen :: "mem \<Rightarrow> addr \<Rightarrow> nat \<Rightarrow> nat" where
  "strnlen m s len = strnlen_loop m s 0 len"

subsection \<open>Copying strings\<close>

partial_function (option) strcpy :: "mem \<Rightarrow> addr \<Rightarrow> addr \<Rightarrow> mem option" where
  [code]: "strcpy m dst src =
     (let al = m src; m = m(dst := al) in if al \<noteq> 0 then strcpy m (dst + 1) (src + 1) else Some m)"

fun strncpy :: "mem \<Rightarrow> addr \<Rightarrow> addr \<Rightarrow> nat \<Rightarrow> mem" where
  "strncpy m p src 0 = m"
| "strncpy m p src (Suc len) =
     (let c = m src; m = m(p := c) in strncpy m (p + 1) (if c \<noteq> 0 then src + 1 else src) len)"

definition strcat :: "mem \<Rightarrow> addr \<Rightarrow> addr \<Rightarrow> mem option" where
  "strcat m dst src = do { n \<leftarrow> strlen m dst; strcpy m (dst + n) src }"

subsection \<open>Comparison and search\<close>

text \<open>After the bytes differ, \<^verbatim>\<open>sbbl\<close> spreads the borrow of the comparison, which \<^verbatim>\<open>orb $1\<close> turns into -1 or 1.\<close>

partial_function (option) strcmp :: "mem \<Rightarrow> addr \<Rightarrow> addr \<Rightarrow> int option" where
  [code]: "strcmp m s1 s2 =
     (if m s1 \<noteq> m s2 then Some (if m s1 < m s2 then - 1 else 1)
      else if m s1 \<noteq> 0 then strcmp m (s1 + 1) (s2 + 1)
      else Some 0)"

fun strncmp :: "mem \<Rightarrow> addr \<Rightarrow> addr \<Rightarrow> nat \<Rightarrow> int" where
  "strncmp m s1 s2 0 = 0"
| "strncmp m s1 s2 (Suc n) =
     (if m s1 \<noteq> 0 \<and> m s1 = m s2 then strncmp m (s1 + 1) (s2 + 1) n else uint (m s1) - uint (m s2))"

partial_function (option) strchr :: "mem \<Rightarrow> addr \<Rightarrow> u8 \<Rightarrow> addr option option" where
  [code]: "strchr m s c = (if m s \<noteq> 0 then if m s = c then Some (Some s) else strchr m (s + 1) c else Some None)"

partial_function (option) strfind :: "mem \<Rightarrow> addr \<Rightarrow> u8 \<Rightarrow> addr option" where
  [code]: "strfind m s c = (if m s \<noteq> 0 \<and> m s \<noteq> c then strfind m (s + 1) c else Some s)"

fun memcmp :: "mem \<Rightarrow> addr \<Rightarrow> addr \<Rightarrow> nat \<Rightarrow> int" where
  "memcmp m s1 s2 0 = 0"
| "memcmp m s1 s2 (Suc n) = (if m s1 \<noteq> m s2 then uint (m s1) - uint (m s2) else memcmp m (s1 + 1) (s2 + 1) n)"

subsection \<open>Numbers\<close>

partial_function (option) skip_blanks :: "mem \<Rightarrow> addr \<Rightarrow> addr option" where
  [code]: "skip_blanks m s = (if m s = 0x20 \<or> m s = 0x09 then skip_blanks m (s + 1) else Some s)"

definition digit_of :: "u8 \<Rightarrow> int option" where
  "digit_of c =
     (if 0x30 \<le> c \<and> c \<le> 0x39 then Some (uint c - 0x30)
      else if 0x61 \<le> c \<and> c \<le> 0x7A then Some (uint c - 0x61 + 10)
      else if 0x41 \<le> c \<and> c \<le> 0x5A then Some (uint c - 0x41 + 10)
      else None)"

text \<open>The value is a 32-bit \<^verbatim>\<open>long\<close>, whose overflow the source does not detect.\<close>

partial_function (option) strtol_digits :: "mem \<Rightarrow> addr \<Rightarrow> int \<Rightarrow> u32 \<Rightarrow> (u32 \<times> addr) option" where
  [code]: "strtol_digits m s base val =
     (case digit_of (m s) of
        None \<Rightarrow> Some (val, s)
      | Some dig \<Rightarrow> if dig \<ge> base then Some (val, s)
                    else strtol_digits m (s + 1) base (val * word_of_int base + word_of_int dig))"

definition strtol :: "mem \<Rightarrow> addr \<Rightarrow> int \<Rightarrow> (int \<times> addr) option" where
  "strtol m s base = do {
     s \<leftarrow> skip_blanks m s;
     (let neg = (m s = 0x2D);
          s = (if m s = 0x2B \<or> m s = 0x2D then s + 1 else s);
          (s, base) = (if (base = 0 \<or> base = 16) \<and> m s = 0x30 \<and> m (s + 1) = 0x78 then (s + 2, 16)
                       else if base = 0 \<and> m s = 0x30 then (s + 1, 8)
                       else if base = 0 then (s, 10) else (s, base))
      in do {
        (val, s) \<leftarrow> strtol_digits m s base 0;
        Some (sint (if neg then - val else val), s)
      })
   }"

subsection \<open>Memory blocks\<close>

fun memset :: "mem \<Rightarrow> addr \<Rightarrow> u8 \<Rightarrow> nat \<Rightarrow> mem" where
  "memset m s c 0 = m"
| "memset m s c (Suc n) = memset (m(s := c)) (s + 1) c n"

fun movsb :: "mem \<Rightarrow> addr \<Rightarrow> addr \<Rightarrow> nat \<Rightarrow> mem" where
  "movsb m dst src 0 = m"
| "movsb m dst src (Suc n) = movsb (m(dst := m src)) (dst + 1) (src + 1) n"

fun movsl :: "mem \<Rightarrow> addr \<Rightarrow> addr \<Rightarrow> nat \<Rightarrow> mem" where
  "movsl m dst src 0 = m"
| "movsl m dst src (Suc n) =
     movsl (m(dst := m src, dst + 1 := m (src + 1), dst + 2 := m (src + 2), dst + 3 := m (src + 3))) (dst + 4) (src + 4) n"

definition memcpy :: "mem \<Rightarrow> addr \<Rightarrow> addr \<Rightarrow> nat \<Rightarrow> mem" where
  "memcpy m dst src n =
     (let d = 4 * (n div 4) in movsb (movsl m dst src (n div 4)) (dst + d) (src + d) (n mod 4))"

text \<open>With the direction flag set, \<^verbatim>\<open>movsb\<close> runs down from the last byte.\<close>

fun movsb_down :: "mem \<Rightarrow> addr \<Rightarrow> addr \<Rightarrow> nat \<Rightarrow> mem" where
  "movsb_down m dst src 0 = m"
| "movsb_down m dst src (Suc n) = movsb_down (m(dst + n := m (src + n))) dst src n"

definition memmove :: "mem \<Rightarrow> addr \<Rightarrow> addr \<Rightarrow> nat \<Rightarrow> mem" where
  "memmove m dst src n = (if dst < src then memcpy m dst src n else movsb_down m dst src n)"

text \<open>\<open>strdup\<close> and \<open>stradd\<close> take what \<^verbatim>\<open>kmalloc\<close> returns.\<close>

definition strdup :: "mem \<Rightarrow> addr \<Rightarrow> addr option \<Rightarrow> (addr option \<times> mem) option" where
  "strdup m src dst = do {
     len \<leftarrow> strlen m src;
     Some (case dst of None \<Rightarrow> (None, m) | Some d \<Rightarrow> (Some d, (memcpy m d src len)(d + len := 0)))
   }"

definition stradd :: "mem \<Rightarrow> addr \<Rightarrow> addr \<Rightarrow> addr option \<Rightarrow> (addr option \<times> mem) option" where
  "stradd m src1 src2 dst = do {
     len1 \<leftarrow> strlen m src1;
     len2 \<leftarrow> strlen m src2;
     Some (case dst of None \<Rightarrow> (None, m)
           | Some d \<Rightarrow> (Some d, (memcpy (memcpy m d src1 len1) (d + len1) src2 len2)(d + len1 + len2 := 0)))
   }"

subsection \<open>Blocks are copied\<close>

text \<open>The memory after \<open>n\<close> bytes from \<open>src\<close> were moved to \<open>dst\<close>.\<close>

definition moved :: "mem \<Rightarrow> addr \<Rightarrow> addr \<Rightarrow> nat \<Rightarrow> mem" where
  "moved m dst src n x = (if dst \<le> x \<and> x < dst + n then m (src + (x - dst)) else m x)"

lemma moved_0 [simp]: "moved m dst src 0 = m"
  by (auto simp: moved_def fun_eq_iff)

lemma moved_moved:
  assumes "dst < src \<or> src + n + k \<le> dst"
  shows "moved (moved m dst src k) (dst + k) (src + k) n = moved m dst src (k + n)"
proof
  fix x
  show "moved (moved m dst src k) (dst + k) (src + k) n x = moved m dst src (k + n) x"
    using assms by (auto simp: moved_def)
qed

lemma movsb_moved: "dst < src \<or> src + n \<le> dst \<Longrightarrow> movsb m dst src n = moved m dst src n"
proof (induction n arbitrary: m dst src)
  case (Suc n)
  have "m(dst := m src) = moved m dst src 1"
    by (auto simp: moved_def)
  then show ?case
    using Suc moved_moved [of dst src n 1 m] by auto
qed simp

lemma movsl_moved: "dst < src \<or> src + 4 * n \<le> dst \<Longrightarrow> movsl m dst src n = moved m dst src (4 * n)"
proof (induction n arbitrary: m dst src)
  case (Suc n)
  have "moved m dst src 4 x = (m(dst := m src, dst + 1 := m (src + 1), dst + 2 := m (src + 2), dst + 3 := m (src + 3))) x" for x
  proof -
    consider "x < dst" | "x = dst" | "x = dst + 1" | "x = dst + 2" | "x = dst + 3" | "dst + 4 \<le> x"
      by linarith
    then show ?thesis by cases (auto simp: moved_def)
  qed
  then have "m(dst := m src, dst + 1 := m (src + 1), dst + 2 := m (src + 2), dst + 3 := m (src + 3)) = moved m dst src 4"
    by auto
  then show ?case
    using Suc moved_moved [of dst src "4 * n" 4 m] by auto
qed simp

lemma memcpy_moved:
  assumes "dst < src \<or> src + n \<le> dst"
  shows "memcpy m dst src n = moved m dst src n"
proof -
  have n: "4 * (n div 4) + n mod 4 = n" by simp
  have "movsl m dst src (n div 4) = moved m dst src (4 * (n div 4))"
    using assms n by (intro movsl_moved) linarith
  moreover have "movsb m' (dst + 4 * (n div 4)) (src + 4 * (n div 4)) (n mod 4) =
      moved m' (dst + 4 * (n div 4)) (src + 4 * (n div 4)) (n mod 4)" for m'
    using assms n by (intro movsb_moved) linarith
  ultimately show ?thesis
    using moved_moved [of dst src "n mod 4" "4 * (n div 4)" m] assms n
    by (simp add: memcpy_def Let_def add.commute)
qed

lemma movsb_down_moved: "src \<le> dst \<Longrightarrow> movsb_down m dst src n = moved m dst src n"
proof (induction n arbitrary: m)
  case (Suc n)
  have "moved (m(dst + n := m (src + n))) dst src n x = moved m dst src (Suc n) x" for x
    using Suc.prems by (cases "x = dst + n") (auto simp: moved_def)
  then show ?case
    using Suc by auto
qed simp


text \<open>\<open>memmove\<close> copies the bytes correctly for every pair of blocks, also when they overlap: afterwards the destination holds
  what the source held before, and nothing else changes, although the copy goes forward in double words when the
  destination is below the source and backward in bytes otherwise.\<close>

theorem memmove_correct:
  "memmove m dst src n x = (if dst \<le> x \<and> x < dst + n then m (src + (x - dst)) else m x)"
  by (simp add: memmove_def memcpy_moved movsb_down_moved moved_def)

lemma memset_correct: "memset m s c n x = (if s \<le> x \<and> x < s + n then c else m x)"
  by (induction n arbitrary: m s) auto

subsection \<open>Strings\<close>

definition cstr :: "mem \<Rightarrow> addr \<Rightarrow> u8 list \<Rightarrow> bool" where
  "cstr m s xs \<longleftrightarrow> (\<forall>i<length xs. m (s + i) = xs ! i \<and> xs ! i \<noteq> 0) \<and> m (s + length xs) = 0"

lemma cstr_Nil [simp]: "cstr m s [] \<longleftrightarrow> m s = 0"
  by (simp add: cstr_def)

lemma cstr_Cons: "cstr m s (c # cs) \<longleftrightarrow> m s = c \<and> c \<noteq> 0 \<and> cstr m (s + 1) cs"
  unfolding cstr_def by (auto simp: less_Suc_eq_0_disj nth_Cons split: nat.splits)

lemma cstr_cong: "(\<And>i. i \<le> length xs \<Longrightarrow> m' (s' + i) = m (s + i)) \<Longrightarrow> cstr m s xs \<Longrightarrow> cstr m' s' xs"
  by (auto simp: cstr_def)

lemma strlen_loop_correct: "cstr m s xs \<Longrightarrow> strlen_loop m s cnt = Some (cnt + length xs)"
  by (induction xs arbitrary: s cnt) (auto simp: cstr_Cons strlen_loop.simps)

lemma strlen_correct: "cstr m s xs \<Longrightarrow> strlen m s = Some (length xs)"
  by (simp add: strlen_def strlen_loop_correct)

lemma strnlen_loop_correct: "cstr m s xs \<Longrightarrow> strnlen_loop m s cnt r = cnt + min (length xs) r"
  by (induction xs arbitrary: s cnt r; case_tac r) (auto simp: cstr_Cons)

lemma strnlen_correct: "cstr m s xs \<Longrightarrow> strnlen m s len = min (length xs) len"
  by (simp add: strnlen_def strnlen_loop_correct)

lemma strcpy_correct:
  assumes "cstr m src xs" "dst < src \<or> src + length xs < dst"
  shows "strcpy m dst src = Some (moved m dst src (length xs + 1))"
  using assms
proof (induction xs arbitrary: m dst src)
  case Nil
  then have "m(dst := m src) = moved m dst src 1"
    by (auto simp: moved_def fun_eq_iff)
  then show ?case
    using Nil by (simp add: strcpy.simps Let_def)
next
  case (Cons c cs)
  have m1: "m(dst := m src) = moved m dst src 1"
    by (auto simp: moved_def fun_eq_iff)
  have "cstr (moved m dst src 1) (src + 1) cs"
    by (rule cstr_cong [of cs _ _ m "src + 1"]) (use Cons.prems in \<open>auto simp: cstr_Cons moved_def\<close>)
  then have "strcpy (moved m dst src 1) (dst + 1) (src + 1) = Some (moved (moved m dst src 1) (dst + 1) (src + 1) (length cs + 1))"
    using Cons.prems(2) by (intro Cons.IH) auto
  then show ?case
    using Cons.prems m1 moved_moved [of dst src "length cs + 1" 1 m] by (subst strcpy.simps) (auto simp: cstr_Cons Let_def)
qed

lemma strcmp_correct:
  assumes "cstr m a xs" "cstr m b ys"
  shows "strcmp m a b = Some (if xs = ys then 0 else if ord_class.lexordp xs ys then - 1 else 1)"
  using assms
proof (induction xs arbitrary: a b ys)
  case Nil
  then show ?case by (cases ys) (auto simp: cstr_Cons strcmp.simps word_gt_0)
next
  case (Cons c cs)
  show ?case
  proof (cases ys)
    case Nil
    then show ?thesis using Cons.prems by (auto simp: cstr_Cons strcmp.simps word_gt_0)
  next
    case (Cons d ds)
    then show ?thesis
      using Cons.prems \<open>cstr m a (c # cs)\<close> Cons.IH [of "a + 1" "b + 1" ds]
      by (subst strcmp.simps) (auto simp: cstr_Cons)
  qed
qed


text \<open>\<open>strdup\<close> makes a string equal to the original: when a block of sufficient size outside the original is available, the
  copy and the original have the same length and \<open>strcmp\<close> finds no difference, and memory outside the block is unchanged.
  The loops of \<open>strlen\<close> and \<open>strcmp\<close> end.\<close>

theorem strdup_roundtrip:
  assumes "cstr m src xs" "d + length xs < src \<or> src + length xs < d"
  shows "\<exists>m'. strdup m src (Some d) = Some (Some d, m') \<and> cstr m' d xs \<and> cstr m' src xs \<and>
     strlen m' d = strlen m src \<and> strcmp m' d src = Some 0 \<and> (\<forall>x. x < d \<or> d + length xs < x \<longrightarrow> m' x = m x)"
proof -
  let ?m = "(moved m d src (length xs))(d + length xs := 0)"
  have "memcpy m d src (length xs) = moved m d src (length xs)"
    using assms(2) by (intro memcpy_moved) auto
  then have run: "strdup m src (Some d) = Some (Some d, ?m)"
    using assms(1) by (simp add: strdup_def strlen_correct)
  have c: "cstr ?m d xs"
    by (rule cstr_cong [OF _ assms(1)]) (use assms(1) in \<open>auto simp: moved_def cstr_def\<close>)
  have s: "cstr ?m src xs"
    by (rule cstr_cong [OF _ assms(1)]) (use assms(2) in \<open>auto simp: moved_def\<close>)
  have "\<forall>x. x < d \<or> d + length xs < x \<longrightarrow> ?m x = m x"
    by (auto simp: moved_def)
  then show ?thesis
    using run c s strlen_correct [OF c] strlen_correct [OF assms(1)] strcmp_correct [OF c s] by auto
qed

theorem strdup_roundtrip_witness:
  "\<exists>m'. strdup (\<lambda>a. if a = 5 then 0x61 else if a = 6 then 0x62 else 0) 5 (Some 9) = Some (Some 9, m') \<and> strcmp m' 9 5 = Some 0"
proof -
  have "cstr (\<lambda>a. if a = 5 then 0x61 else if a = 6 then 0x62 else 0) 5 [0x61, 0x62]"
    by (simp add: cstr_Cons)
  from strdup_roundtrip [OF this, of 9] show ?thesis by auto
qed

text \<open>A sequence of digits is read as the number it denotes, modulo 2^32.\<close>

lemma strtol_digits_correct:
  assumes "\<forall>i<length ds. digit_of (m (s + i)) = Some (ds ! i) \<and> ds ! i < base"
    and "case digit_of (m (s + length ds)) of None \<Rightarrow> True | Some d \<Rightarrow> d \<ge> base"
  shows "strtol_digits m s base val = Some (fold (\<lambda>d v. v * word_of_int base + word_of_int d) ds val, s + length ds)"
  using assms
proof (induction ds arbitrary: s val)
  case Nil
  then show ?case by (subst strtol_digits.simps) (auto split: option.splits)
next
  case (Cons d ds)
  have "digit_of (m s) = Some d" "d < base"
    using Cons.prems(1) by force+
  moreover have "\<forall>i<length ds. digit_of (m (s + 1 + i)) = Some (ds ! i) \<and> ds ! i < base"
    using Cons.prems(1) by force
  ultimately show ?case
    using Cons.IH [of "s + 1" "val * word_of_int base + word_of_int d"] Cons.prems(2)
    by (subst strtol_digits.simps) simp
qed

end
