(* ===== verification/Iobuf.thy ===== *)
theory Iobuf
  imports Cstring
begin

text \<open>
  I/O buffers (\<^verbatim>\<open>kern/fs/iobuf.c\<close>): the descriptions of a caller's buffer that the file system layers pass down to the
  operation that transfers the data.  Memory is that of \<open>Cstring\<close>.
\<close>

subsection \<open>I/O buffers\<close>

record iobuf =
  io_base :: addr
  io_offset :: int
  io_len :: nat
  io_resid :: nat

definition iobuf_init :: "addr \<Rightarrow> nat \<Rightarrow> int \<Rightarrow> iobuf" where
  "iobuf_init base len offset = \<lparr>io_base = base, io_offset = offset, io_len = len, io_resid = len\<rparr>"

definition iobuf_used :: "iobuf \<Rightarrow> nat" where
  "iobuf_used iob = io_len iob - io_resid iob"

definition iobuf_skip :: "iobuf \<Rightarrow> nat \<Rightarrow> iobuf option" where
  "iobuf_skip iob n = do {
     kassert (io_resid iob \<ge> n);
     Some (iob\<lparr>io_base := io_base iob + n, io_offset := io_offset iob + int n, io_resid := io_resid iob - n\<rparr>)
   }"

text \<open>The result is the return value, the number of bytes copied, the iobuf and the memory.\<close>

definition iobuf_move :: "mem \<Rightarrow> iobuf \<Rightarrow> addr \<Rightarrow> nat \<Rightarrow> bool \<Rightarrow> (int \<times> nat \<times> iobuf \<times> mem) option" where
  "iobuf_move m iob data len m2b =
     (let alen = (if io_resid iob > len then len else io_resid iob) in
      if alen > 0 then
        let src = (if m2b then data else io_base iob); dst = (if m2b then io_base iob else data);
            m = memmove m dst src alen
        in do {
          iob \<leftarrow> iobuf_skip iob alen;
          Some (if len - alen = 0 then 0 else - E_NO_MEM, alen, iob, m)
        }
      else Some (if len = 0 then 0 else - E_NO_MEM, alen, iob, m))"

definition iobuf_move_zeros :: "mem \<Rightarrow> iobuf \<Rightarrow> nat \<Rightarrow> (int \<times> nat \<times> iobuf \<times> mem) option" where
  "iobuf_move_zeros m iob len =
     (let alen = (if io_resid iob > len then len else io_resid iob) in
      if alen > 0 then
        let m = memset m (io_base iob) 0 alen in do {
          iob \<leftarrow> iobuf_skip iob alen;
          Some (if len - alen = 0 then 0 else - E_NO_MEM, alen, iob, m)
        }
      else Some (if len = 0 then 0 else - E_NO_MEM, alen, iob, m))"

lemma iobuf_move_correct:
  "\<exists>iob' m'. iobuf_move m iob data len m2b =
     Some (if len \<le> io_resid iob then 0 else - E_NO_MEM, min len (io_resid iob), iob', m') \<and>
   io_base iob' = io_base iob + min len (io_resid iob) \<and> io_offset iob' = io_offset iob + int (min len (io_resid iob)) \<and>
   io_resid iob' = io_resid iob - min len (io_resid iob) \<and> io_len iob' = io_len iob \<and>
   m' = moved m (if m2b then io_base iob else data) (if m2b then data else io_base iob) (min len (io_resid iob))"
proof -
  have mv: "memmove m d s n = moved m d s n" for d s n
    by (auto simp: memmove_correct moved_def fun_eq_iff)
  show ?thesis
    by (cases "len = 0"; cases "io_resid iob = 0"; cases "len < io_resid iob")
      (auto simp: iobuf_move_def iobuf_skip_def mv Let_def min_def)
qed

text \<open>What every transfer through a buffer does to it, whoever implements the transfer: \<open>n\<close> bytes were moved.\<close>

definition advanced :: "iobuf \<Rightarrow> nat \<Rightarrow> iobuf \<Rightarrow> bool" where
  "advanced iob n iob' \<longleftrightarrow> n \<le> io_resid iob \<and> io_resid iob' = io_resid iob - n \<and> io_len iob' = io_len iob \<and>
     io_base iob' = io_base iob + n \<and> io_offset iob' = io_offset iob + int n"

lemma advanced_none: "\<exists>m. advanced iob m iob"
  by (rule exI [of _ 0]) (simp add: advanced_def)

lemma iobuf_skip_advanced: "iobuf_skip iob n = Some iob' \<longleftrightarrow> advanced iob n iob'"
  by (cases iob; cases iob') (auto simp: iobuf_skip_def advanced_def)

lemma advanced_used: "advanced (iobuf_init b len off) n iob' \<Longrightarrow> iobuf_used iob' = n"
  by (simp add: advanced_def iobuf_init_def iobuf_used_def)

lemma iobuf_move_advanced:
  assumes "iobuf_move m iob data len m2b = Some (r, n, iob', m')"
  shows "advanced iob n iob'"
  using iobuf_move_correct [of m iob data len m2b] assms by (auto simp: advanced_def)

text \<open>\<open>iobuf_move\<close> into the buffer from a string that is known by its bytes.\<close>

definition iobuf_put :: "mem \<Rightarrow> iobuf \<Rightarrow> u8 list \<Rightarrow> (int \<times> nat \<times> iobuf \<times> mem) option" where
  "iobuf_put m iob bs =
     (let alen = (if io_resid iob > length bs then length bs else io_resid iob) in
      if alen > 0 then do {
        iob' \<leftarrow> iobuf_skip iob alen;
        Some (if length bs - alen = 0 then 0 else - E_NO_MEM, alen, iob',
              (\<lambda>x. if io_base iob \<le> x \<and> x < io_base iob + alen then bs ! (x - io_base iob) else m x))
      }
      else Some (if length bs = 0 then 0 else - E_NO_MEM, alen, iob, m))"

lemma iobuf_put_eq_move:
  assumes "\<And>i. i < length bs \<Longrightarrow> m (data + i) = bs ! i"
  shows "iobuf_put m iob bs = iobuf_move m iob data (length bs) True"
proof -
  have "memmove m (io_base iob) data n =
      (\<lambda>x. if io_base iob \<le> x \<and> x < io_base iob + n then bs ! (x - io_base iob) else m x)" if "n \<le> length bs" for n
  proof (rule ext)
    fix x
    show "memmove m (io_base iob) data n x =
        (if io_base iob \<le> x \<and> x < io_base iob + n then bs ! (x - io_base iob) else m x)"
      using assms [of "x - io_base iob"] that by (auto simp: memmove_correct)
  qed
  from this [of "if io_resid iob > length bs then length bs else io_resid iob"] show ?thesis
    unfolding iobuf_put_def iobuf_move_def by (simp add: Let_def)
qed

lemma iobuf_put_advanced: "iobuf_put m iob bs = Some (r, n, iob', m') \<Longrightarrow> advanced iob n iob'"
  unfolding iobuf_put_def
  by (auto simp: Let_def iobuf_skip_advanced Option.bind_eq_Some_conv advanced_def split: if_splits)

end
