(* ===== verification/Vfs.thy ===== *)
theory Vfs
  imports Iobuf "HOL-Library.Multiset"
begin

text \<open>
  The virtual file system layer: inodes (\<^verbatim>\<open>kern/fs/vfs/inode.c\<close>), path names (\<^verbatim>\<open>vfslookup.c\<close>, \<^verbatim>\<open>vfspath.c\<close>), named devices
  (\<^verbatim>\<open>vfsdev.c\<close>), the boot file system (\<^verbatim>\<open>vfs.c\<close>) and the operations on path names (\<^verbatim>\<open>vfsfile.c\<close>).

  \<open>vfs\<close> is the state of the layer; a file system extends it with its own data.  Freed inodes are \<^const>\<open>None\<close> in the store,
  so that a use after free is a failure of the model like a failed assertion.  The operations that inodes and file systems
  provide through tables of functions (\<^verbatim>\<open>struct inode_ops\<close>, \<^verbatim>\<open>struct fs\<close>) are the record \<open>vfs_ops\<close>, an argument of every
  function that calls one of them; the record's functions choose by the address of the inode or file system, which is what
  the field \<^verbatim>\<open>in_ops\<close> does.  What the layer relies on is the locale \<open>inode_ops\<close>.

  Path names and device names are strings without the terminating zero; that \<open>get_device\<close> overwrites the colon in the
  caller's buffer is not modelled, as its callers do not use the path again.  The semaphores \<^verbatim>\<open>bootfs_sem\<close>, \<^verbatim>\<open>vdev_list_sem\<close> and
  \<^verbatim>\<open>fs_sem\<close> only make the sections between them single steps, which they are here.
\<close>

subsection \<open>State\<close>

datatype inode_type = device_info | pipe_root_info | pipe_inode_info | sfs_inode_info

record inode =
  in_type :: inode_type
  inode_ref_count :: int
  inode_open_count :: int
  in_fs :: "addr option"

datatype fd_status = FD_NONE | FD_INIT | FD_OPENED | FD_CLOSED

record file_struct =
  status :: fd_status
  readable :: bool
  writable :: bool
  fd :: int
  pos :: int
  node :: "addr option"
  fopen_count :: int

record fs_struct =
  pwd :: "addr option"
  filemap :: "nat \<Rightarrow> file_struct"
  fs_count :: int

record vfs_dev =
  devname :: string
  devnode :: "addr option"
  dev_fs :: "addr option"
  mountable :: bool

text \<open>\<open>current_fs\<close> is \<^verbatim>\<open>current->fs_struct\<close>.\<close>

record vfs =
  inodes :: "addr \<Rightarrow> inode option"
  kmem :: mem
  bootfs_node :: "addr option"
  vdevs :: "addr \<Rightarrow> vfs_dev"
  vdev_list :: "addr list"
  fs_structs :: "addr \<Rightarrow> fs_struct"
  current_fs :: addr

record stat =
  st_mode :: u32
  st_nlinks :: nat
  st_blocks :: nat
  st_size :: nat

record 'k vfs_ops =
  op_open :: "addr \<Rightarrow> u32 \<Rightarrow> 'k \<Rightarrow> (int \<times> 'k) option"
  op_close :: "addr \<Rightarrow> 'k \<Rightarrow> (int \<times> 'k) option"
  op_read :: "addr \<Rightarrow> iobuf \<Rightarrow> 'k \<Rightarrow> (int \<times> iobuf \<times> 'k) option"
  op_write :: "addr \<Rightarrow> iobuf \<Rightarrow> 'k \<Rightarrow> (int \<times> iobuf \<times> 'k) option"
  op_fstat :: "addr \<Rightarrow> 'k \<Rightarrow> (int \<times> stat \<times> 'k) option"
  op_fsync :: "addr \<Rightarrow> 'k \<Rightarrow> (int \<times> 'k) option"
  op_mkdir :: "addr \<Rightarrow> string \<Rightarrow> 'k \<Rightarrow> (int \<times> 'k) option"
  op_link :: "addr \<Rightarrow> string \<Rightarrow> addr \<Rightarrow> 'k \<Rightarrow> (int \<times> 'k) option"
  op_rename :: "addr \<Rightarrow> string \<Rightarrow> addr \<Rightarrow> string \<Rightarrow> 'k \<Rightarrow> (int \<times> 'k) option"
  op_readlink :: "addr \<Rightarrow> iobuf \<Rightarrow> 'k \<Rightarrow> (int \<times> iobuf \<times> 'k) option"
  op_symlink :: "addr \<Rightarrow> string \<Rightarrow> string \<Rightarrow> 'k \<Rightarrow> (int \<times> 'k) option"
  op_namefile :: "addr \<Rightarrow> iobuf \<Rightarrow> 'k \<Rightarrow> (int \<times> iobuf \<times> 'k) option"
  op_getdirentry :: "addr \<Rightarrow> iobuf \<Rightarrow> 'k \<Rightarrow> (int \<times> iobuf \<times> 'k) option"
  op_reclaim :: "addr \<Rightarrow> 'k \<Rightarrow> (int \<times> 'k) option"
  op_gettype :: "addr \<Rightarrow> 'k \<Rightarrow> (int \<times> u32 \<times> 'k) option"
  op_tryseek :: "addr \<Rightarrow> int \<Rightarrow> 'k \<Rightarrow> (int \<times> 'k) option"
  op_truncate :: "addr \<Rightarrow> int \<Rightarrow> 'k \<Rightarrow> (int \<times> 'k) option"
  op_create :: "addr \<Rightarrow> string \<Rightarrow> bool \<Rightarrow> 'k \<Rightarrow> (int \<times> addr option \<times> 'k) option"
  op_unlink :: "addr \<Rightarrow> string \<Rightarrow> 'k \<Rightarrow> (int \<times> 'k) option"
  op_lookup :: "addr \<Rightarrow> string \<Rightarrow> 'k \<Rightarrow> (int \<times> addr option \<times> 'k) option"
  op_lookup_parent :: "addr \<Rightarrow> string \<Rightarrow> 'k \<Rightarrow> (int \<times> addr option \<times> string \<times> 'k) option"
  fs_sync :: "addr \<Rightarrow> 'k \<Rightarrow> (int \<times> 'k) option"
  fs_get_root :: "addr \<Rightarrow> 'k \<Rightarrow> (addr option \<times> 'k) option"
  fs_unmount :: "addr \<Rightarrow> 'k \<Rightarrow> (int \<times> 'k) option"
  fs_cleanup :: "addr \<Rightarrow> 'k \<Rightarrow> 'k option"

abbreviation E_TOO_BIG :: int where "E_TOO_BIG \<equiv> 12"
abbreviation E_NO_DEV :: int where "E_NO_DEV \<equiv> 13"
abbreviation E_NA_DEV :: int where "E_NA_DEV \<equiv> 14"
abbreviation E_BUSY :: int where "E_BUSY \<equiv> 15"
abbreviation E_NOENT :: int where "E_NOENT \<equiv> 16"
abbreviation E_NOTDIR :: int where "E_NOTDIR \<equiv> 18"
abbreviation E_XDEV :: int where "E_XDEV \<equiv> 19"
abbreviation E_MAX_OPEN :: int where "E_MAX_OPEN \<equiv> 22"
abbreviation E_EXISTS :: int where "E_EXISTS \<equiv> 23"

abbreviation O_RDONLY :: u32 where "O_RDONLY \<equiv> 0"
abbreviation O_WRONLY :: u32 where "O_WRONLY \<equiv> 1"
abbreviation O_RDWR :: u32 where "O_RDWR \<equiv> 2"
abbreviation O_CREAT :: u32 where "O_CREAT \<equiv> 4"
abbreviation O_EXCL :: u32 where "O_EXCL \<equiv> 8"
abbreviation O_TRUNC :: u32 where "O_TRUNC \<equiv> 16"
abbreviation O_APPEND :: u32 where "O_APPEND \<equiv> 32"
abbreviation O_ACCMODE :: u32 where "O_ACCMODE \<equiv> 3"

abbreviation MAX_INODE_COUNT :: int where "MAX_INODE_COUNT \<equiv> 0x10000"

definition S_ISDIR :: "u32 \<Rightarrow> bool" where
  "S_ISDIR mode \<longleftrightarrow> mode AND 0x7000 = 0x2000"

subsection \<open>Inodes\<close>

abbreviation upd_inode :: "addr \<Rightarrow> (inode \<Rightarrow> inode) \<Rightarrow> 'a vfs_scheme \<Rightarrow> 'a vfs_scheme" where
  "upd_inode n f k \<equiv> k\<lparr>inodes := (inodes k)(n := map_option f (inodes k n))\<rparr>"

text \<open>The argument of \<open>alloc_inode\<close> is what \<^verbatim>\<open>kmalloc\<close> returns; the counts are set by \<open>inode_init\<close>.\<close>

definition alloc_inode :: "inode_type \<Rightarrow> addr option \<Rightarrow> 'a vfs_scheme \<Rightarrow> addr option \<times> 'a vfs_scheme" where
  "alloc_inode type block k =
     (case block of None \<Rightarrow> (None, k)
      | Some n \<Rightarrow> (Some n, k\<lparr>inodes := (inodes k)(n \<mapsto>
          \<lparr>in_type = type, inode_ref_count = 0, inode_open_count = 0, in_fs = None\<rparr>)\<rparr>))"

definition inode_ref_inc :: "addr \<Rightarrow> 'a vfs_scheme \<Rightarrow> (int \<times> 'a vfs_scheme) option" where
  "inode_ref_inc n k = do {
     i \<leftarrow> inodes k n;
     Some (inode_ref_count i + 1, upd_inode n (\<lambda>i. i\<lparr>inode_ref_count := inode_ref_count i + 1\<rparr>) k)
   }"

definition inode_init :: "addr \<Rightarrow> addr option \<Rightarrow> 'a vfs_scheme \<Rightarrow> 'a vfs_scheme option" where
  "inode_init n fs k = do {
     let k = upd_inode n (\<lambda>i. i\<lparr>inode_ref_count := 0, inode_open_count := 0, in_fs := fs\<rparr>) k;
     (_, k) \<leftarrow> inode_ref_inc n k;
     Some k
   }"

definition inode_kill :: "addr \<Rightarrow> 'a vfs_scheme \<Rightarrow> 'a vfs_scheme option" where
  "inode_kill n k = do {
     i \<leftarrow> inodes k n;
     kassert (inode_ref_count i = 0);
     kassert (inode_open_count i = 0);
     Some (k\<lparr>inodes := (inodes k)(n := None)\<rparr>)
   }"

definition inode_check :: "addr \<Rightarrow> 'a vfs_scheme \<Rightarrow> unit option" where
  "inode_check n k = do {
     i \<leftarrow> inodes k n;
     kassert (inode_ref_count i \<ge> inode_open_count i \<and> inode_open_count i \<ge> 0);
     kassert (inode_ref_count i < MAX_INODE_COUNT \<and> inode_open_count i < MAX_INODE_COUNT)
   }"

definition inode_ref_dec :: "'a vfs_scheme vfs_ops \<Rightarrow> addr \<Rightarrow> 'a vfs_scheme \<Rightarrow> (int \<times> 'a vfs_scheme) option" where
  "inode_ref_dec ops n k = do {
     i \<leftarrow> inodes k n;
     kassert (inode_ref_count i > 0);
     let k = upd_inode n (\<lambda>i. i\<lparr>inode_ref_count := inode_ref_count i - 1\<rparr>) k;
     (if inode_ref_count i - 1 = 0
      then do { inode_check n k; (_, k) \<leftarrow> op_reclaim ops n k; Some (inode_ref_count i - 1, k) }
      else Some (inode_ref_count i - 1, k))
   }"

definition inode_open_inc :: "addr \<Rightarrow> 'a vfs_scheme \<Rightarrow> (int \<times> 'a vfs_scheme) option" where
  "inode_open_inc n k = do {
     i \<leftarrow> inodes k n;
     Some (inode_open_count i + 1, upd_inode n (\<lambda>i. i\<lparr>inode_open_count := inode_open_count i + 1\<rparr>) k)
   }"

definition inode_open_dec :: "'a vfs_scheme vfs_ops \<Rightarrow> addr \<Rightarrow> 'a vfs_scheme \<Rightarrow> (int \<times> 'a vfs_scheme) option" where
  "inode_open_dec ops n k = do {
     i \<leftarrow> inodes k n;
     kassert (inode_open_count i > 0);
     let k = upd_inode n (\<lambda>i. i\<lparr>inode_open_count := inode_open_count i - 1\<rparr>) k;
     (if inode_open_count i - 1 = 0
      then do { inode_check n k; (_, k) \<leftarrow> op_close ops n k; Some (inode_open_count i - 1, k) }
      else Some (inode_open_count i - 1, k))
   }"

text \<open>A reference that is dropped or taken without looking at the count.\<close>

definition ref_dec :: "'a vfs_scheme vfs_ops \<Rightarrow> addr \<Rightarrow> 'a vfs_scheme \<Rightarrow> 'a vfs_scheme option" where
  "ref_dec ops n k = do { (_, k) \<leftarrow> inode_ref_dec ops n k; Some k }"

definition ref_inc :: "addr \<Rightarrow> 'a vfs_scheme \<Rightarrow> 'a vfs_scheme option" where
  "ref_inc n k = do { (_, k) \<leftarrow> inode_ref_inc n k; Some k }"

subsection \<open>Named devices\<close>

definition vfs_devlist_init :: "'a vfs_scheme \<Rightarrow> 'a vfs_scheme" where
  "vfs_devlist_init k = k\<lparr>vdev_list := []\<rparr>"

definition vfs_init :: "'a vfs_scheme \<Rightarrow> 'a vfs_scheme" where
  "vfs_init k = vfs_devlist_init k"

fun cleanup_loop :: "'a vfs_scheme vfs_ops \<Rightarrow> addr list \<Rightarrow> 'a vfs_scheme \<Rightarrow> 'a vfs_scheme option" where
  "cleanup_loop ops [] k = Some k"
| "cleanup_loop ops (v # vs) k = do {
     k \<leftarrow> (case dev_fs (vdevs k v) of None \<Rightarrow> Some k | Some fs \<Rightarrow> fs_cleanup ops fs k);
     cleanup_loop ops vs k
   }"

definition vfs_cleanup :: "'a vfs_scheme vfs_ops \<Rightarrow> 'a vfs_scheme \<Rightarrow> 'a vfs_scheme option" where
  "vfs_cleanup ops k = cleanup_loop ops (vdev_list k) k"

fun sync_loop :: "'a vfs_scheme vfs_ops \<Rightarrow> addr list \<Rightarrow> 'a vfs_scheme \<Rightarrow> 'a vfs_scheme option" where
  "sync_loop ops [] k = Some k"
| "sync_loop ops (v # vs) k = do {
     k \<leftarrow> (case dev_fs (vdevs k v) of None \<Rightarrow> Some k | Some fs \<Rightarrow> do { (_, k) \<leftarrow> fs_sync ops fs k; Some k });
     sync_loop ops vs k
   }"

definition vfs_sync :: "'a vfs_scheme vfs_ops \<Rightarrow> 'a vfs_scheme \<Rightarrow> (int \<times> 'a vfs_scheme) option" where
  "vfs_sync ops k = do { k \<leftarrow> sync_loop ops (vdev_list k) k; Some (0, k) }"

text \<open>The walks along the list of devices compare names with \<^verbatim>\<open>strcmp\<close>.\<close>

fun find_vdev :: "(vfs_dev \<Rightarrow> bool) \<Rightarrow> (addr \<Rightarrow> vfs_dev) \<Rightarrow> addr list \<Rightarrow> addr option" where
  "find_vdev P st [] = None"
| "find_vdev P st (v # vs) = (if P (st v) then Some v else find_vdev P st vs)"

definition vfs_get_root :: "'a vfs_scheme vfs_ops \<Rightarrow> string \<Rightarrow> 'a vfs_scheme \<Rightarrow> (int \<times> addr option \<times> 'a vfs_scheme) option" where
  "vfs_get_root ops name k =
     (case find_vdev (\<lambda>d. name = devname d) (vdevs k) (vdev_list k) of
        None \<Rightarrow> Some (- E_NO_DEV, None, k)
      | Some v \<Rightarrow> do {
          (found, k) \<leftarrow> (case dev_fs (vdevs k v) of
              Some fs \<Rightarrow> fs_get_root ops fs k
            | None \<Rightarrow> if \<not> mountable (vdevs k v)
                      then do { n \<leftarrow> devnode (vdevs k v); k \<leftarrow> ref_inc n k; Some (Some n, k) }
                      else Some (None, k));
          Some (if found \<noteq> None then (0, found, k) else (- E_NA_DEV, None, k))
        })"

definition vfs_get_devname :: "addr \<Rightarrow> 'a vfs_scheme \<Rightarrow> string option" where
  "vfs_get_devname fs k =
     (case find_vdev (\<lambda>d. dev_fs d = Some fs) (vdevs k) (vdev_list k) of
        None \<Rightarrow> None | Some v \<Rightarrow> Some (devname (vdevs k v)))"

definition check_devname_conflict :: "string \<Rightarrow> 'a vfs_scheme \<Rightarrow> bool" where
  "check_devname_conflict name k \<longleftrightarrow> Option.is_none (find_vdev (\<lambda>d. devname d = name) (vdevs k) (vdev_list k))"

text \<open>\<open>name_ok\<close> tells whether \<^verbatim>\<open>strdup\<close> succeeds, \<open>block\<close> is what \<^verbatim>\<open>kmalloc\<close> returns.  The device node must have the type of a
  device.  \<^verbatim>\<open>FS_MAX_DNAME_LEN\<close> is 31.\<close>

definition vfs_do_add :: "string \<Rightarrow> addr option \<Rightarrow> addr option \<Rightarrow> bool \<Rightarrow> bool \<Rightarrow> addr option \<Rightarrow> 'a vfs_scheme \<Rightarrow> (int \<times> 'a vfs_scheme) option" where
  "vfs_do_add name dnode fs mountable' name_ok block k = do {
     kassert (case dnode of None \<Rightarrow> \<not> mountable'
              | Some n \<Rightarrow> (case inodes k n of None \<Rightarrow> False | Some i \<Rightarrow> in_type i = device_info));
     Some (if length name > 31 then (- E_TOO_BIG, k)
           else if \<not> name_ok then (- E_NO_MEM, k)
           else case block of None \<Rightarrow> (- E_NO_MEM, k)
                | Some v \<Rightarrow>
                    if \<not> check_devname_conflict name k then (- E_EXISTS, k)
                    else (0, k\<lparr>vdevs := (vdevs k)(v := \<lparr>devname = name, devnode = dnode, dev_fs = fs, mountable = mountable'\<rparr>),
                               vdev_list := v # vdev_list k\<rparr>))
   }"

definition vfs_add_fs :: "string \<Rightarrow> addr option \<Rightarrow> bool \<Rightarrow> addr option \<Rightarrow> 'a vfs_scheme \<Rightarrow> (int \<times> 'a vfs_scheme) option" where
  "vfs_add_fs name fs name_ok block k = vfs_do_add name None fs False name_ok block k"

definition vfs_add_dev :: "string \<Rightarrow> addr option \<Rightarrow> bool \<Rightarrow> bool \<Rightarrow> addr option \<Rightarrow> 'a vfs_scheme \<Rightarrow> (int \<times> 'a vfs_scheme) option" where
  "vfs_add_dev name dnode mountable' name_ok block k = vfs_do_add name dnode None mountable' name_ok block k"

definition find_mount :: "string \<Rightarrow> 'a vfs_scheme \<Rightarrow> int \<times> addr option" where
  "find_mount name k =
     (case find_vdev (\<lambda>d. mountable d \<and> devname d = name) (vdevs k) (vdev_list k) of
        Some v \<Rightarrow> (0, Some v) | None \<Rightarrow> (- E_NO_DEV, None))"

abbreviation set_dev_fs :: "addr \<Rightarrow> addr option \<Rightarrow> 'a vfs_scheme \<Rightarrow> 'a vfs_scheme" where
  "set_dev_fs v fs k \<equiv> k\<lparr>vdevs := (vdevs k)(v := (vdevs k v)\<lparr>dev_fs := fs\<rparr>)\<rparr>"

text \<open>\<open>mountfunc\<close> gets the device and returns its result, the file system it stored and the state.\<close>

definition vfs_mount :: "string \<Rightarrow> (addr \<Rightarrow> 'a vfs_scheme \<Rightarrow> (int \<times> addr option \<times> 'a vfs_scheme) option) \<Rightarrow> 'a vfs_scheme \<Rightarrow> (int \<times> 'a vfs_scheme) option" where
  "vfs_mount name mountfunc k =
     (case find_mount name k of
        (ret, None) \<Rightarrow> Some (ret, k)
      | (ret, Some v) \<Rightarrow>
          if dev_fs (vdevs k v) \<noteq> None then Some (- E_BUSY, k)
          else do {
            kassert (mountable (vdevs k v));
            n \<leftarrow> devnode (vdevs k v);
            i \<leftarrow> inodes k n;
            kassert (in_type i = device_info);
            (ret, fs, k) \<leftarrow> mountfunc n k;
            (if ret = 0 then do { kassert (fs \<noteq> None); Some (ret, set_dev_fs v fs k) } else Some (ret, set_dev_fs v fs k))
          })"

definition vfs_unmount :: "'a vfs_scheme vfs_ops \<Rightarrow> string \<Rightarrow> 'a vfs_scheme \<Rightarrow> (int \<times> 'a vfs_scheme) option" where
  "vfs_unmount ops name k =
     (case find_mount name k of
        (ret, None) \<Rightarrow> Some (ret, k)
      | (ret, Some v) \<Rightarrow>
          (case dev_fs (vdevs k v) of
             None \<Rightarrow> Some (- E_INVAL, k)
           | Some fs \<Rightarrow> do {
               kassert (mountable (vdevs k v));
               (ret, k) \<leftarrow> fs_sync ops fs k;
               (if ret \<noteq> 0 then Some (ret, k)
                else do {
                  (ret, k) \<leftarrow> fs_unmount ops fs k;
                  Some (ret, if ret = 0 then set_dev_fs v None k else k)
                })
             }))"

fun unmount_loop :: "'a vfs_scheme vfs_ops \<Rightarrow> addr list \<Rightarrow> 'a vfs_scheme \<Rightarrow> 'a vfs_scheme option" where
  "unmount_loop ops [] k = Some k"
| "unmount_loop ops (v # vs) k = do {
     k \<leftarrow> (case dev_fs (vdevs k v) of
             None \<Rightarrow> Some k
           | Some fs \<Rightarrow>
               if mountable (vdevs k v) then do {
                 (ret, k) \<leftarrow> fs_sync ops fs k;
                 (if ret \<noteq> 0 then Some k
                  else do {
                    (ret, k) \<leftarrow> fs_unmount ops fs k;
                    Some (if ret \<noteq> 0 then k else set_dev_fs v None k)
                  })
               } else Some k);
     unmount_loop ops vs k
   }"

definition vfs_unmount_all :: "'a vfs_scheme vfs_ops \<Rightarrow> 'a vfs_scheme \<Rightarrow> (int \<times> 'a vfs_scheme) option" where
  "vfs_unmount_all ops k = do { k \<leftarrow> unmount_loop ops (vdev_list k) k; Some (0, k) }"

subsection \<open>Current directory and path names\<close>

abbreviation get_cwd :: "'a vfs_scheme \<Rightarrow> addr option" where
  "get_cwd k \<equiv> pwd (fs_structs k (current_fs k))"

abbreviation set_cwd :: "addr option \<Rightarrow> 'a vfs_scheme \<Rightarrow> 'a vfs_scheme" where
  "set_cwd d k \<equiv> k\<lparr>fs_structs := (fs_structs k)(current_fs k := (fs_structs k (current_fs k))\<lparr>pwd := d\<rparr>)\<rparr>"

definition vfs_get_curdir :: "'a vfs_scheme \<Rightarrow> (int \<times> addr option \<times> 'a vfs_scheme) option" where
  "vfs_get_curdir k =
     (case get_cwd k of
        Some n \<Rightarrow> do { k \<leftarrow> ref_inc n k; Some (0, Some n, k) }
      | None \<Rightarrow> Some (- E_NOENT, None, k))"

definition vfs_set_curdir :: "'a vfs_scheme vfs_ops \<Rightarrow> addr option \<Rightarrow> 'a vfs_scheme \<Rightarrow> (int \<times> 'a vfs_scheme) option" where
  "vfs_set_curdir ops dir k =
     (let old_dir = get_cwd k in
      if old_dir = dir then Some (0, k)
      else do {
        (ret, k) \<leftarrow> (case dir of
            None \<Rightarrow> Some (0, k)
          | Some d \<Rightarrow> do {
              inode_check d k;
              (ret, type, k) \<leftarrow> op_gettype ops d k;
              (if ret \<noteq> 0 then Some (ret, k)
               else if \<not> S_ISDIR type then Some (- E_NOTDIR, k)
               else do { k \<leftarrow> ref_inc d k; Some (0, k) })
            });
        (if ret \<noteq> 0 then Some (ret, k)
         else do {
           k \<leftarrow> (case old_dir of None \<Rightarrow> Some (set_cwd dir k) | Some d \<Rightarrow> ref_dec ops d (set_cwd dir k));
           Some (0, k)
         })
      })"

definition change_bootfs :: "'a vfs_scheme vfs_ops \<Rightarrow> addr option \<Rightarrow> 'a vfs_scheme \<Rightarrow> 'a vfs_scheme option" where
  "change_bootfs ops n k =
     (let old = bootfs_node k; k = k\<lparr>bootfs_node := n\<rparr> in
      case old of None \<Rightarrow> Some k | Some o' \<Rightarrow> ref_dec ops o' k)"

definition vfs_get_bootfs :: "'a vfs_scheme \<Rightarrow> (int \<times> addr option \<times> 'a vfs_scheme) option" where
  "vfs_get_bootfs k =
     (case bootfs_node k of
        None \<Rightarrow> Some (- E_NOENT, None, k)
      | Some n \<Rightarrow> do { k \<leftarrow> ref_inc n k; Some (0, Some n, k) })"

text \<open>The first colon or slash of a path, with its position.\<close>

fun first_sep :: "nat \<Rightarrow> string \<Rightarrow> (nat \<times> char) option" where
  "first_sep i [] = None"
| "first_sep i (c # cs) = (if c = CHR '':'' \<or> c = CHR ''/'' then Some (i, c) else first_sep (i + 1) cs)"

definition skip_slashes :: "string \<Rightarrow> string" where
  "skip_slashes s = dropWhile (\<lambda>c. c = CHR ''/'') s"

text \<open>The results are the return value, the rest of the path and the inode to start from.\<close>

definition get_device :: "'a vfs_scheme vfs_ops \<Rightarrow> string \<Rightarrow> 'a vfs_scheme \<Rightarrow> (int \<times> string \<times> addr option \<times> 'a vfs_scheme) option" where
  "get_device ops path k =
     (let sep = first_sep 0 path;
          colon = (case sep of Some (i, c) \<Rightarrow> if c = CHR '':'' then int i else -1 | None \<Rightarrow> -1);
          slash = (case sep of Some (i, c) \<Rightarrow> if c = CHR ''/'' then int i else -1 | None \<Rightarrow> -1)
      in
      if colon < 0 \<and> slash \<noteq> 0 then do {
        (ret, n, k) \<leftarrow> vfs_get_curdir k;
        Some (ret, path, n, k)
      }
      else if colon > 0 then do {
        (ret, n, k) \<leftarrow> vfs_get_root ops (take (nat colon) path) k;
        Some (ret, skip_slashes (drop (nat colon + 1) path), n, k)
      }
      else do {
        (ret, n, k) \<leftarrow> (if slash = 0 then vfs_get_bootfs k
          else do {
            (ret, n, k) \<leftarrow> vfs_get_curdir k;
            (if ret \<noteq> 0 then Some (ret, None, k)
             else do {
               n \<leftarrow> n;
               i \<leftarrow> inodes k n;
               fs \<leftarrow> in_fs i;
               (root, k) \<leftarrow> fs_get_root ops fs k;
               k \<leftarrow> ref_dec ops n k;
               Some (0, root, k)
             })
          });
        Some (ret, skip_slashes (drop 1 path), n, k)
      })"

definition vfs_lookup :: "'a vfs_scheme vfs_ops \<Rightarrow> string \<Rightarrow> 'a vfs_scheme \<Rightarrow> (int \<times> addr option \<times> 'a vfs_scheme) option" where
  "vfs_lookup ops path k = do {
     (ret, path, n, k) \<leftarrow> get_device ops path k;
     (if ret \<noteq> 0 then Some (ret, None, k)
      else if path \<noteq> [] then do {
        n \<leftarrow> n;
        inode_check n k;
        (ret, m, k) \<leftarrow> op_lookup ops n path k;
        k \<leftarrow> ref_dec ops n k;
        Some (ret, m, k)
      }
      else Some (0, n, k))
   }"

definition vfs_lookup_parent :: "'a vfs_scheme vfs_ops \<Rightarrow> string \<Rightarrow> 'a vfs_scheme \<Rightarrow> (int \<times> addr option \<times> string \<times> 'a vfs_scheme) option" where
  "vfs_lookup_parent ops path k = do {
     (ret, path, n, k) \<leftarrow> get_device ops path k;
     (if ret \<noteq> 0 then Some (ret, None, [], k)
      else do {
        n \<leftarrow> n;
        (ret, m, endp, k) \<leftarrow> (if path \<noteq> [] then do { inode_check n k; op_lookup_parent ops n path k }
                              else Some (- E_INVAL, None, [], k));
        k \<leftarrow> ref_dec ops n k;
        Some (ret, m, endp, k)
      })
   }"

definition vfs_chdir :: "'a vfs_scheme vfs_ops \<Rightarrow> string \<Rightarrow> 'a vfs_scheme \<Rightarrow> (int \<times> 'a vfs_scheme) option" where
  "vfs_chdir ops path k = do {
     (ret, n, k) \<leftarrow> vfs_lookup ops path k;
     (if ret = 0 then do {
        (ret, k) \<leftarrow> vfs_set_curdir ops n k;
        n \<leftarrow> n;
        k \<leftarrow> ref_dec ops n k;
        Some (ret, k)
      }
      else Some (ret, k))
   }"

definition vfs_set_bootfs :: "'a vfs_scheme vfs_ops \<Rightarrow> string option \<Rightarrow> 'a vfs_scheme \<Rightarrow> (int \<times> 'a vfs_scheme) option" where
  "vfs_set_bootfs ops fsname k =
     (case fsname of
        None \<Rightarrow> do { k \<leftarrow> change_bootfs ops None k; Some (0, k) }
      | Some s \<Rightarrow>
          if dropWhile (\<lambda>c. c \<noteq> CHR '':'') s \<noteq> '':'' then Some (- E_INVAL, k)
          else do {
            (ret, k) \<leftarrow> vfs_chdir ops s k;
            (if ret \<noteq> 0 then Some (ret, k)
             else do {
               (ret, n, k) \<leftarrow> vfs_get_curdir k;
               (if ret \<noteq> 0 then Some (ret, k)
                else do { k \<leftarrow> change_bootfs ops n k; Some (0, k) })
             })
          })"

text \<open>The name of the device, a colon and what \<open>vop_namefile\<close> adds.\<close>

definition vfs_getcwd :: "'a vfs_scheme vfs_ops \<Rightarrow> iobuf \<Rightarrow> 'a vfs_scheme \<Rightarrow> (int \<times> iobuf \<times> 'a vfs_scheme) option" where
  "vfs_getcwd ops iob k = do {
     (ret, n, k) \<leftarrow> vfs_get_curdir k;
     (if ret \<noteq> 0 then Some (ret, iob, k)
      else do {
        n \<leftarrow> n;
        i \<leftarrow> inodes k n;
        fs \<leftarrow> in_fs i;
        name \<leftarrow> vfs_get_devname fs k;
        (ret, _, iob, m) \<leftarrow> iobuf_put (kmem k) iob (map of_char name);
        let k = k\<lparr>kmem := m\<rparr>;
        (ret, iob, k) \<leftarrow>
          (if ret \<noteq> 0 then Some (ret, iob, k)
           else do {
             (ret, _, iob, m) \<leftarrow> iobuf_put (kmem k) iob (map of_char '':'');
             let k = k\<lparr>kmem := m\<rparr>;
             (if ret \<noteq> 0 then Some (ret, iob, k)
              else do { inode_check n k; op_namefile ops n iob k })
           });
        k \<leftarrow> ref_dec ops n k;
        Some (ret, iob, k)
      })
   }"

subsection \<open>Operations on path names\<close>

definition vfs_close :: "'a vfs_scheme vfs_ops \<Rightarrow> addr \<Rightarrow> 'a vfs_scheme \<Rightarrow> (int \<times> 'a vfs_scheme) option" where
  "vfs_close ops n k = do {
     (_, k) \<leftarrow> inode_open_dec ops n k;
     k \<leftarrow> ref_dec ops n k;
     Some (0, k)
   }"

definition vfs_open_lookup :: "'a vfs_scheme vfs_ops \<Rightarrow> string \<Rightarrow> u32 \<Rightarrow> 'a vfs_scheme \<Rightarrow> (int \<times> addr option \<times> 'a vfs_scheme) option" where
  "vfs_open_lookup ops path open_flags k =
     (if open_flags AND O_CREAT \<noteq> 0 then do {
        (ret, dir, name, k) \<leftarrow> vfs_lookup_parent ops path k;
        (if ret \<noteq> 0 then Some (ret, None, k)
         else do {
           dir \<leftarrow> dir;
           inode_check dir k;
           (ret, n, k) \<leftarrow> op_create ops dir name (open_flags AND O_EXCL \<noteq> 0) k;
           k \<leftarrow> ref_dec ops dir k;
           Some (ret, n, k)
         })
      }
      else vfs_lookup ops path k)"

definition vfs_open_node :: "'a vfs_scheme vfs_ops \<Rightarrow> addr \<Rightarrow> u32 \<Rightarrow> 'a vfs_scheme \<Rightarrow> (int \<times> addr option \<times> 'a vfs_scheme) option" where
  "vfs_open_node ops n open_flags k = do {
     inode_check n k;
     (ret, k) \<leftarrow> op_open ops n open_flags k;
     (if ret \<noteq> 0 then do { k \<leftarrow> ref_dec ops n k; Some (ret, None, k) }
      else do {
        (_, k) \<leftarrow> inode_open_inc n k;
        (if open_flags AND O_TRUNC \<noteq> 0 then do {
           inode_check n k;
           (ret, k) \<leftarrow> op_truncate ops n 0 k;
           (if ret \<noteq> 0 then do {
              (_, k) \<leftarrow> inode_open_dec ops n k;
              k \<leftarrow> ref_dec ops n k;
              Some (ret, None, k)
            }
            else Some (0, Some n, k))
         }
         else Some (0, Some n, k))
      })
   }"

definition vfs_open :: "'a vfs_scheme vfs_ops \<Rightarrow> string \<Rightarrow> u32 \<Rightarrow> 'a vfs_scheme \<Rightarrow> (int \<times> addr option \<times> 'a vfs_scheme) option" where
  "vfs_open ops path open_flags k =
     (let acc = open_flags AND O_ACCMODE; can_write = (acc = O_WRONLY \<or> acc = O_RDWR) in
      if acc \<noteq> O_RDONLY \<and> \<not> can_write then Some (- E_INVAL, None, k)
      else if open_flags AND O_TRUNC \<noteq> 0 \<and> \<not> can_write then Some (- E_INVAL, None, k)
      else do {
        (ret, n, k) \<leftarrow> vfs_open_lookup ops path open_flags k;
        (if ret \<noteq> 0 then Some (ret, None, k)
         else do { n \<leftarrow> n; vfs_open_node ops n open_flags k })
      })"

text \<open>The operations that look up a directory, call one of its operations and drop the reference.\<close>

definition in_parent :: "'a vfs_scheme vfs_ops \<Rightarrow> (addr \<Rightarrow> string \<Rightarrow> 'a vfs_scheme \<Rightarrow> (int \<times> 'a vfs_scheme) option) \<Rightarrow> string \<Rightarrow> 'a vfs_scheme \<Rightarrow> (int \<times> 'a vfs_scheme) option" where
  "in_parent ops f path k = do {
     (ret, dir, name, k) \<leftarrow> vfs_lookup_parent ops path k;
     (if ret \<noteq> 0 then Some (ret, k)
      else do {
        dir \<leftarrow> dir;
        inode_check dir k;
        (ret, k) \<leftarrow> f dir name k;
        k \<leftarrow> ref_dec ops dir k;
        Some (ret, k)
      })
   }"

definition vfs_unlink :: "'a vfs_scheme vfs_ops \<Rightarrow> string \<Rightarrow> 'a vfs_scheme \<Rightarrow> (int \<times> 'a vfs_scheme) option" where
  "vfs_unlink ops path k = in_parent ops (op_unlink ops) path k"

definition vfs_symlink :: "'a vfs_scheme vfs_ops \<Rightarrow> string \<Rightarrow> string \<Rightarrow> 'a vfs_scheme \<Rightarrow> (int \<times> 'a vfs_scheme) option" where
  "vfs_symlink ops old_path new_path k = in_parent ops (\<lambda>dir name. op_symlink ops dir name old_path) new_path k"

definition vfs_mkdir :: "'a vfs_scheme vfs_ops \<Rightarrow> string \<Rightarrow> 'a vfs_scheme \<Rightarrow> (int \<times> 'a vfs_scheme) option" where
  "vfs_mkdir ops path k = in_parent ops (op_mkdir ops) path k"

text \<open>Both inodes must be on one file system.\<close>

definition same_fs :: "addr \<Rightarrow> addr \<Rightarrow> 'a vfs_scheme \<Rightarrow> bool option" where
  "same_fs a b k = do { i \<leftarrow> inodes k a; j \<leftarrow> inodes k b; Some (in_fs i \<noteq> None \<and> in_fs i = in_fs j) }"

definition vfs_rename :: "'a vfs_scheme vfs_ops \<Rightarrow> string \<Rightarrow> string \<Rightarrow> 'a vfs_scheme \<Rightarrow> (int \<times> 'a vfs_scheme) option" where
  "vfs_rename ops old_path new_path k = do {
     (ret, old_dir, old_name, k) \<leftarrow> vfs_lookup_parent ops old_path k;
     (if ret \<noteq> 0 then Some (ret, k)
      else do {
        old_dir \<leftarrow> old_dir;
        (ret, new_dir, new_name, k) \<leftarrow> vfs_lookup_parent ops new_path k;
        (if ret \<noteq> 0 then do { k \<leftarrow> ref_dec ops old_dir k; Some (ret, k) }
         else do {
           new_dir \<leftarrow> new_dir;
           same \<leftarrow> same_fs old_dir new_dir k;
           (ret, k) \<leftarrow> (if \<not> same then Some (- E_XDEV, k)
                        else do { inode_check old_dir k; op_rename ops old_dir old_name new_dir new_name k });
           k \<leftarrow> ref_dec ops old_dir k;
           k \<leftarrow> ref_dec ops new_dir k;
           Some (ret, k)
         })
      })
   }"

definition vfs_link :: "'a vfs_scheme vfs_ops \<Rightarrow> string \<Rightarrow> string \<Rightarrow> 'a vfs_scheme \<Rightarrow> (int \<times> 'a vfs_scheme) option" where
  "vfs_link ops old_path new_path k = do {
     (ret, old_node, k) \<leftarrow> vfs_lookup ops old_path k;
     (if ret \<noteq> 0 then Some (ret, k)
      else do {
        old_node \<leftarrow> old_node;
        (ret, new_dir, new_name, k) \<leftarrow> vfs_lookup_parent ops new_path k;
        (if ret \<noteq> 0 then do { k \<leftarrow> ref_dec ops old_node k; Some (ret, k) }
         else do {
           new_dir \<leftarrow> new_dir;
           same \<leftarrow> same_fs old_node new_dir k;
           (ret, k) \<leftarrow> (if \<not> same then Some (- E_XDEV, k)
                        else do { inode_check new_dir k; op_link ops new_dir new_name old_node k });
           k \<leftarrow> ref_dec ops old_node k;
           k \<leftarrow> ref_dec ops new_dir k;
           Some (ret, k)
         })
      })
   }"

definition vfs_readlink :: "'a vfs_scheme vfs_ops \<Rightarrow> string \<Rightarrow> iobuf \<Rightarrow> 'a vfs_scheme \<Rightarrow> (int \<times> iobuf \<times> 'a vfs_scheme) option" where
  "vfs_readlink ops path iob k = do {
     (ret, n, k) \<leftarrow> vfs_lookup ops path k;
     (if ret \<noteq> 0 then Some (ret, iob, k)
      else do {
        n \<leftarrow> n;
        inode_check n k;
        (ret, iob, k) \<leftarrow> op_readlink ops n iob k;
        k \<leftarrow> ref_dec ops n k;
        Some (ret, iob, k)
      })
   }"

subsection \<open>References\<close>

definition refs :: "'a vfs_scheme \<Rightarrow> addr \<Rightarrow> int" where
  "refs k n = (case inodes k n of None \<Rightarrow> 0 | Some i \<Rightarrow> inode_ref_count i)"

definition opens :: "'a vfs_scheme \<Rightarrow> addr \<Rightarrow> int" where
  "opens k n = (case inodes k n of None \<Rightarrow> 0 | Some i \<Rightarrow> inode_open_count i)"

definition fs_of :: "'a vfs_scheme \<Rightarrow> addr \<Rightarrow> addr option" where
  "fs_of k n = (case inodes k n of None \<Rightarrow> None | Some i \<Rightarrow> in_fs i)"

text \<open>The counts that \<open>inode_check\<close> wants of every inode.\<close>

definition counts_ok :: "'a vfs_scheme \<Rightarrow> bool" where
  "counts_ok k \<longleftrightarrow> (\<forall>n. 0 \<le> opens k n \<and> opens k n \<le> refs k n \<and> refs k n < MAX_INODE_COUNT)"

text \<open>Counts that leave room for the references a single call holds.\<close>

definition roomy :: "'a vfs_scheme \<Rightarrow> bool" where
  "roomy k \<longleftrightarrow> (\<forall>n. 0 \<le> opens k n \<and> opens k n \<le> refs k n \<and> refs k n + 8 < MAX_INODE_COUNT)"

definition vfs_frame :: "'a vfs_scheme \<Rightarrow> 'a vfs_scheme \<Rightarrow> bool" where
  "vfs_frame k k' \<longleftrightarrow> bootfs_node k' = bootfs_node k \<and> vdevs k' = vdevs k \<and> vdev_list k' = vdev_list k \<and>
     fs_structs k' = fs_structs k \<and> current_fs k' = current_fs k"

definition same_static :: "'a vfs_scheme \<Rightarrow> 'a vfs_scheme \<Rightarrow> bool" where
  "same_static k k' \<longleftrightarrow> vfs.more k' = vfs.more k \<and>
     (\<forall>n. map_option (\<lambda>i. (in_type i, in_fs i)) (inodes k' n) = map_option (\<lambda>i. (in_type i, in_fs i)) (inodes k n)) \<and>
     (\<forall>n. 0 < refs k' n \<longleftrightarrow> 0 < refs k n)"

definition keeps_fs :: "'a vfs_scheme \<Rightarrow> 'a vfs_scheme \<Rightarrow> bool" where
  "keeps_fs k k' \<longleftrightarrow> (\<forall>n. 0 < refs k n \<and> 0 < refs k' n \<longrightarrow> fs_of k' n = fs_of k n)"

text \<open>A step that keeps the invariant, the places where path names start and the file systems, and leaves the counts \<open>r\<close> and \<open>o'\<close>.\<close>

definition cnt_step :: "('a vfs_scheme \<Rightarrow> bool) \<Rightarrow> (addr \<Rightarrow> 'a vfs_scheme \<Rightarrow> bool) \<Rightarrow> (addr \<Rightarrow> int) \<Rightarrow> (addr \<Rightarrow> int) \<Rightarrow> 'a vfs_scheme \<Rightarrow> 'a vfs_scheme \<Rightarrow> bool" where
  "cnt_step fsinv is_fs r o' k k' \<longleftrightarrow> fsinv k' \<and> vfs_frame k k' \<and> keeps_fs k k' \<and> (\<forall>fs. is_fs fs k' \<longleftrightarrow> is_fs fs k) \<and>
     refs k' = r \<and> opens k' = o'"

text \<open>A call of the file system that takes no references, and one that hands back an inode with a reference
  (\<open>Some\<close>: the inode).\<close>

definition fs_step :: "('a vfs_scheme \<Rightarrow> bool) \<Rightarrow> (addr \<Rightarrow> 'a vfs_scheme \<Rightarrow> bool) \<Rightarrow> addr option \<Rightarrow> 'a vfs_scheme \<Rightarrow> 'a vfs_scheme \<Rightarrow> bool" where
  "fs_step fsinv is_fs got k k' \<longleftrightarrow>
     cnt_step fsinv is_fs (case got of None \<Rightarrow> refs k | Some n \<Rightarrow> (refs k)(n := refs k n + 1)) (opens k) k k'"

lemma counts_okD:
  assumes "counts_ok k"
  shows "0 \<le> opens k n" "opens k n \<le> refs k n" "refs k n < MAX_INODE_COUNT" "0 \<le> refs k n"
  using assms by (auto simp: counts_ok_def intro: order_trans)

lemma counts_ok_dec:
  assumes "counts_ok k" "0 < opens k n" "refs k' = refs k" "opens k' = (opens k)(n := opens k n - 1)"
  shows "counts_ok k'" "opens k' n < refs k' n"
proof -
  have "0 \<le> opens k' m \<and> opens k' m \<le> refs k' m \<and> refs k' m < MAX_INODE_COUNT" for m
    using counts_okD [OF assms(1), of m] assms(2-4) by auto
  then show "counts_ok k'" by (simp add: counts_ok_def)
  show "opens k' n < refs k' n"
    using counts_okD(2) [OF assms(1), of n] assms(3,4) by simp
qed

lemma refs_pos: "0 < refs k n \<Longrightarrow> \<exists>i. inodes k n = Some i"
  by (cases "inodes k n") (auto simp: refs_def)

lemma refs_upd:
  "inodes k n = Some i \<Longrightarrow> refs (k\<lparr>inodes := (inodes k)(n \<mapsto> j)\<rparr>) = (refs k)(n := inode_ref_count j)"
  "inodes k n = Some i \<Longrightarrow> opens (k\<lparr>inodes := (inodes k)(n \<mapsto> j)\<rparr>) = (opens k)(n := inode_open_count j)"
  "inodes k n = Some i \<Longrightarrow> fs_of (k\<lparr>inodes := (inodes k)(n \<mapsto> j)\<rparr>) = (fs_of k)(n := in_fs j)"
  by (auto simp: refs_def opens_def fs_of_def fun_eq_iff)

lemma inode_check_ok: "counts_ok k \<Longrightarrow> 0 < refs k n \<Longrightarrow> inode_check n k = Some ()"
  using counts_okD [of k n] by (auto simp: inode_check_def refs_def opens_def kassert_def split: option.splits)

lemma find_vdev_Some: "find_vdev P st vs = Some v \<Longrightarrow> v \<in> set vs \<and> P (st v)"
  by (induction vs) (auto split: if_splits)

text \<open>What is left of a path when the device, the slashes after it and a leading slash or colon are taken off.\<close>

definition subpath :: "string \<Rightarrow> string" where
  "subpath path = (case first_sep 0 path of None \<Rightarrow> path
     | Some (i, c) \<Rightarrow> if c = CHR ''/'' \<and> i \<noteq> 0 then path else skip_slashes (drop (i + 1) path))"

lemma first_sep_char: "first_sep i path = Some (j, c) \<Longrightarrow> c = CHR '':'' \<or> c = CHR ''/''"
  by (induction path arbitrary: i) (auto split: if_splits)

text \<open>Where path names start: the current directory, the root of the boot file system and the named devices.\<close>

definition starts_ok :: "(addr \<Rightarrow> 'a vfs_scheme \<Rightarrow> bool) \<Rightarrow> 'a vfs_scheme \<Rightarrow> bool" where
  "starts_ok is_fs k \<longleftrightarrow>
     (\<forall>d. get_cwd k = Some d \<longrightarrow> 0 < refs k d \<and> (\<exists>fs. fs_of k d = Some fs \<and> is_fs fs k)) \<and>
     (\<forall>d. bootfs_node k = Some d \<longrightarrow> 0 < refs k d) \<and>
     (\<forall>v\<in>set (vdev_list k). case dev_fs (vdevs k v) of
        Some fs \<Rightarrow> is_fs fs k
      | None \<Rightarrow> mountable (vdevs k v) \<or> (\<exists>n. devnode (vdevs k v) = Some n \<and> 0 < refs k n))"

text \<open>
  What the layer relies on: \<open>fsinv\<close> is the file systems' own invariant, \<open>is_fs\<close> tells which addresses are file systems and
  \<open>path_ok\<close> which path names below the device they accept.  Operations on an inode that the caller holds a reference to do
  not panic, keep the invariant and the counts of references (those of the comments in \<^verbatim>\<open>inode.h\<close> and \<^verbatim>\<open>vfs.h\<close> that hand back
  an inode add one to its count), and \<open>vop_reclaim\<close> is called for an inode whose last reference is dropped.
\<close>

locale inode_ops =
  fixes ops :: "'a vfs_scheme vfs_ops"
    and fsinv :: "'a vfs_scheme \<Rightarrow> bool"
    and is_fs :: "addr \<Rightarrow> 'a vfs_scheme \<Rightarrow> bool"
    and path_ok :: "string \<Rightarrow> bool"
  assumes fsinv_layer: "fsinv k \<Longrightarrow> same_static k k' \<Longrightarrow> fsinv k'"
    and isfs_layer: "same_static k k' \<Longrightarrow> is_fs fs k' \<longleftrightarrow> is_fs fs k"
    and reclaim: "fsinv k \<Longrightarrow> counts_ok k \<Longrightarrow> inodes k n = Some i \<Longrightarrow> inode_ref_count i = 1 \<Longrightarrow> inode_open_count i = 0 \<Longrightarrow>
      \<exists>r k'. op_reclaim ops n (upd_inode n (\<lambda>i. i\<lparr>inode_ref_count := 0\<rparr>) k) = Some (r, k') \<and>
        cnt_step fsinv is_fs ((refs k)(n := 0)) (opens k) k k'"
    and close: "fsinv k \<Longrightarrow> counts_ok k \<Longrightarrow> 0 < refs k n \<Longrightarrow> \<exists>r k'. op_close ops n k = Some (r, k') \<and> fs_step fsinv is_fs None k k'"
    and open': "fsinv k \<Longrightarrow> counts_ok k \<Longrightarrow> 0 < refs k n \<Longrightarrow> \<exists>r k'. op_open ops n fl k = Some (r, k') \<and> fs_step fsinv is_fs None k k'"
    and truncate: "fsinv k \<Longrightarrow> counts_ok k \<Longrightarrow> 0 < refs k n \<Longrightarrow> \<exists>r k'. op_truncate ops n len k = Some (r, k') \<and> fs_step fsinv is_fs None k k'"
    and fsync: "fsinv k \<Longrightarrow> counts_ok k \<Longrightarrow> 0 < refs k n \<Longrightarrow> \<exists>r k'. op_fsync ops n k = Some (r, k') \<and> fs_step fsinv is_fs None k k'"
    and tryseek: "fsinv k \<Longrightarrow> counts_ok k \<Longrightarrow> 0 < refs k n \<Longrightarrow> \<exists>r k'. op_tryseek ops n off k = Some (r, k') \<and> fs_step fsinv is_fs None k k'"
    and gettype: "fsinv k \<Longrightarrow> counts_ok k \<Longrightarrow> 0 < refs k n \<Longrightarrow> \<exists>r ty k'. op_gettype ops n k = Some (r, ty, k') \<and> fs_step fsinv is_fs None k k'"
    and fstat: "fsinv k \<Longrightarrow> counts_ok k \<Longrightarrow> 0 < refs k n \<Longrightarrow> \<exists>r st k'. op_fstat ops n k = Some (r, st, k') \<and> fs_step fsinv is_fs None k k'"
    and read: "fsinv k \<Longrightarrow> counts_ok k \<Longrightarrow> 0 < refs k n \<Longrightarrow>
      \<exists>r iob' k'. op_read ops n iob k = Some (r, iob', k') \<and> (\<exists>m. advanced iob m iob') \<and> fs_step fsinv is_fs None k k'"
    and write': "fsinv k \<Longrightarrow> counts_ok k \<Longrightarrow> 0 < refs k n \<Longrightarrow>
      \<exists>r iob' k'. op_write ops n iob k = Some (r, iob', k') \<and> (\<exists>m. advanced iob m iob') \<and> fs_step fsinv is_fs None k k'"
    and getdirentry: "fsinv k \<Longrightarrow> counts_ok k \<Longrightarrow> 0 < refs k n \<Longrightarrow>
      \<exists>r iob' k'. op_getdirentry ops n iob k = Some (r, iob', k') \<and> (\<exists>m. advanced iob m iob') \<and> fs_step fsinv is_fs None k k'"
    and readlink: "fsinv k \<Longrightarrow> counts_ok k \<Longrightarrow> 0 < refs k n \<Longrightarrow>
      \<exists>r iob' k'. op_readlink ops n iob k = Some (r, iob', k') \<and> (\<exists>m. advanced iob m iob') \<and> fs_step fsinv is_fs None k k'"
    and unlink: "fsinv k \<Longrightarrow> counts_ok k \<Longrightarrow> 0 < refs k n \<Longrightarrow> path_ok p \<Longrightarrow>
      \<exists>r k'. op_unlink ops n p k = Some (r, k') \<and> fs_step fsinv is_fs None k k'"
    and mkdir: "fsinv k \<Longrightarrow> counts_ok k \<Longrightarrow> 0 < refs k n \<Longrightarrow> path_ok p \<Longrightarrow>
      \<exists>r k'. op_mkdir ops n p k = Some (r, k') \<and> fs_step fsinv is_fs None k k'"
    and symlink: "fsinv k \<Longrightarrow> counts_ok k \<Longrightarrow> 0 < refs k n \<Longrightarrow> path_ok p \<Longrightarrow>
      \<exists>r k'. op_symlink ops n p q k = Some (r, k') \<and> fs_step fsinv is_fs None k k'"
    and link: "fsinv k \<Longrightarrow> counts_ok k \<Longrightarrow> 0 < refs k n \<Longrightarrow> 0 < refs k m \<Longrightarrow> path_ok p \<Longrightarrow>
      \<exists>r k'. op_link ops n p m k = Some (r, k') \<and> fs_step fsinv is_fs None k k'"
    and rename: "fsinv k \<Longrightarrow> counts_ok k \<Longrightarrow> 0 < refs k n \<Longrightarrow> 0 < refs k m \<Longrightarrow> path_ok p \<Longrightarrow> path_ok q \<Longrightarrow>
      \<exists>r k'. op_rename ops n p m q k = Some (r, k') \<and> fs_step fsinv is_fs None k k'"
    and lookup: "fsinv k \<Longrightarrow> counts_ok k \<Longrightarrow> 0 < refs k n \<Longrightarrow> path_ok p \<Longrightarrow> p \<noteq> [] \<Longrightarrow>
      \<exists>r m k'. op_lookup ops n p k = Some (r, m, k') \<and> (r = 0 \<longrightarrow> m \<noteq> None) \<and>
        fs_step fsinv is_fs (if r = 0 then m else None) k k'"
    and lookup_parent: "fsinv k \<Longrightarrow> counts_ok k \<Longrightarrow> 0 < refs k n \<Longrightarrow> path_ok p \<Longrightarrow> p \<noteq> [] \<Longrightarrow>
      \<exists>r m q k'. op_lookup_parent ops n p k = Some (r, m, q, k') \<and> (r = 0 \<longrightarrow> m \<noteq> None \<and> path_ok q \<and> q \<noteq> []) \<and>
        fs_step fsinv is_fs (if r = 0 then m else None) k k'"
    and create: "fsinv k \<Longrightarrow> counts_ok k \<Longrightarrow> 0 < refs k n \<Longrightarrow> path_ok p \<Longrightarrow> p \<noteq> [] \<Longrightarrow>
      \<exists>r m k'. op_create ops n p excl k = Some (r, m, k') \<and> (r = 0 \<longrightarrow> m \<noteq> None) \<and>
        fs_step fsinv is_fs (if r = 0 then m else None) k k'"
    and get_root: "fsinv k \<Longrightarrow> counts_ok k \<Longrightarrow> is_fs fs k \<Longrightarrow>
      \<exists>n k'. fs_get_root ops fs k = Some (Some n, k') \<and> fs_step fsinv is_fs (Some n) k k'"
begin

text \<open>The state \<open>k\<close> that a call started in \<open>k0\<close> has reached, when it holds the references \<open>ns\<close> and has opened \<open>os\<close>.  A call
  holds at most eight references at a time.\<close>

definition held :: "'a vfs_scheme \<Rightarrow> addr multiset \<Rightarrow> addr multiset \<Rightarrow> 'a vfs_scheme \<Rightarrow> bool" where
  "held k0 ns os k \<longleftrightarrow> fsinv k \<and> vfs_frame k0 k \<and> starts_ok is_fs k0 \<and> starts_ok is_fs k \<and> os \<subseteq># ns \<and> size ns \<le> 8 \<and> roomy k0 \<and>
     refs k = (\<lambda>n. refs k0 n + int (count ns n)) \<and> opens k = (\<lambda>n. opens k0 n + int (count os n))"

lemma held_inv: "held k0 ns os k \<Longrightarrow> fsinv k"
  by (simp add: held_def)

lemma held_counts:
  assumes "held k0 ns os k"
  shows "counts_ok k"
proof -
  have "0 \<le> opens k n \<and> opens k n \<le> refs k n \<and> refs k n < MAX_INODE_COUNT" for n
  proof -
    have "count os n \<le> count ns n" "count ns n \<le> 8"
      using assms count_le_size [of ns n] by (auto simp: held_def mset_subset_eq_count)
    moreover have "0 \<le> opens k0 n" "opens k0 n \<le> refs k0 n" "refs k0 n + 8 < MAX_INODE_COUNT"
      using assms by (auto simp: held_def roomy_def)
    moreover have "refs k n = refs k0 n + int (count ns n)" "opens k n = opens k0 n + int (count os n)"
      using assms by (auto simp: held_def)
    ultimately show ?thesis by auto
  qed
  then show ?thesis by (simp add: counts_ok_def)
qed

lemma held_pos:
  assumes "held k0 (add_mset n ns) os k"
  shows "0 < refs k n"
proof -
  have "0 \<le> refs k0 n"
    using assms by (force simp: held_def roomy_def intro: order_trans)
  then show ?thesis
    using assms by (simp add: held_def)
qed

lemma held_mono: "held k0 ns os k \<Longrightarrow> 0 < refs k0 n \<Longrightarrow> 0 < refs k n"
  by (simp add: held_def)

text \<open>Only the references of \<open>k0\<close>, which the call does not hold itself, keep the starting points.\<close>

lemma starts_ok_step:
  assumes "starts_ok is_fs k0" "starts_ok is_fs k" "vfs_frame k0 k" "vfs_frame k k'" "keeps_fs k k'" "\<And>fs. is_fs fs k' \<longleftrightarrow> is_fs fs k"
    "\<And>n. 0 < refs k0 n \<Longrightarrow> 0 < refs k n \<and> 0 < refs k' n"
  shows "starts_ok is_fs k'"
  unfolding starts_ok_def
proof (intro conjI allI impI ballI)
  fix d assume "get_cwd k' = Some d"
  then have d: "get_cwd k0 = Some d" "get_cwd k = Some d"
    using assms(3,4) by (auto simp: vfs_frame_def)
  then have "0 < refs k d" "0 < refs k' d"
    using assms(1,7) by (auto simp: starts_ok_def)
  then show "0 < refs k' d" "\<exists>fs. fs_of k' d = Some fs \<and> is_fs fs k'"
    using assms(2,5,6) d(2) by (auto simp: starts_ok_def keeps_fs_def)
next
  fix d assume "bootfs_node k' = Some d"
  then show "0 < refs k' d"
    using assms(1,3,4,7) by (auto simp: starts_ok_def vfs_frame_def)
next
  fix v assume "v \<in> set (vdev_list k')"
  then have v: "v \<in> set (vdev_list k0)" "v \<in> set (vdev_list k)" "vdevs k' = vdevs k" "vdevs k = vdevs k0"
    using assms(3,4) by (auto simp: vfs_frame_def)
  then show "case dev_fs (vdevs k' v) of Some fs \<Rightarrow> is_fs fs k'
      | None \<Rightarrow> mountable (vdevs k' v) \<or> (\<exists>n. devnode (vdevs k' v) = Some n \<and> 0 < refs k' n)"
    using assms(1,2,6,7) by (cases "dev_fs (vdevs k0 v)") (force simp: starts_ok_def)+
qed

lemma starts_ok_mono:
  assumes "starts_ok is_fs k" "vfs_frame k k'" "keeps_fs k k'" "\<And>fs. is_fs fs k' \<longleftrightarrow> is_fs fs k" "\<And>n. 0 < refs k n \<Longrightarrow> 0 < refs k' n"
  shows "starts_ok is_fs k'"
  by (rule starts_ok_step [OF assms(1,1) _ assms(2-4)]) (use assms(5) in \<open>simp_all add: vfs_frame_def\<close>)

lemma held_refl:
  assumes "fsinv k" "starts_ok is_fs k" "roomy k"
  shows "held k {#} {#} k"
  using assms by (simp add: held_def vfs_frame_def)

lemma held_fs_step:
  assumes "held k0 ns os k" "fs_step fsinv is_fs got k k'" "got = None \<or> size ns < 8"
  shows "held k0 (case got of None \<Rightarrow> ns | Some n \<Rightarrow> add_mset n ns) os k'"
proof -
  have c: "\<And>n. 0 \<le> refs k n"
    using counts_okD(4) [OF held_counts [OF assms(1)]] .
  then have "\<And>n. 0 < refs k n \<Longrightarrow> 0 < refs k' n"
    using assms(2) by (auto simp: fs_step_def cnt_step_def split: option.splits)
  then have "starts_ok is_fs k'"
    using assms(1,2) by (intro starts_ok_mono [of k k']) (auto simp: held_def fs_step_def cnt_step_def)
  then show ?thesis
    using assms by (cases got) (auto simp: held_def fs_step_def cnt_step_def vfs_frame_def fun_eq_iff subset_mset.add_increasing2 intro: subset_mset.order_trans)
qed

lemma same_static_upd:
  assumes "inodes k n = Some i" "0 < inode_ref_count i" "0 < inode_ref_count j" "in_type j = in_type i" "in_fs j = in_fs i"
  shows "same_static k (k\<lparr>inodes := (inodes k)(n \<mapsto> j)\<rparr>)"
  using assms by (auto simp: same_static_def refs_upd refs_def)

lemma cnt_step_count:
  assumes "fsinv k" "inodes k n = Some i" "0 < inode_ref_count i" "0 < inode_ref_count j" "in_type j = in_type i" "in_fs j = in_fs i"
  shows "cnt_step fsinv is_fs ((refs k)(n := inode_ref_count j)) ((opens k)(n := inode_open_count j)) k (k\<lparr>inodes := (inodes k)(n \<mapsto> j)\<rparr>)"
proof -
  have ss: "same_static k (k\<lparr>inodes := (inodes k)(n \<mapsto> j)\<rparr>)"
    by (rule same_static_upd [OF assms(2-6)])
  show ?thesis
    using fsinv_layer [OF assms(1) ss] isfs_layer [OF ss] assms(2,6)
    by (auto simp: cnt_step_def refs_upd vfs_frame_def keeps_fs_def fs_of_def)
qed

lemma cnt_step_trans:
  assumes "cnt_step fsinv is_fs r o' k k'" "cnt_step fsinv is_fs r' o'' k' k''" "\<And>n. 0 < refs k n \<Longrightarrow> 0 < refs k'' n \<Longrightarrow> 0 < refs k' n"
  shows "cnt_step fsinv is_fs r' o'' k k''"
  using assms(1,2) assms(3) by (simp add: cnt_step_def vfs_frame_def keeps_fs_def)

lemma live_inode:
  assumes "0 < refs k n"
  obtains i where "inodes k n = Some i" "inode_ref_count i = refs k n" "inode_open_count i = opens k n"
  using refs_pos [OF assms] by (auto simp: refs_def opens_def)

text \<open>The four changes of the counts.\<close>

lemma ref_inc_ok:
  assumes "fsinv k" "0 < refs k n"
  shows "\<exists>k'. ref_inc n k = Some k' \<and> cnt_step fsinv is_fs ((refs k)(n := refs k n + 1)) (opens k) k k'"
proof -
  obtain i where i: "inodes k n = Some i" "inode_ref_count i = refs k n" "inode_open_count i = opens k n"
    using live_inode [OF assms(2)] .
  then show ?thesis
    using cnt_step_count [OF assms(1) i(1), of "i\<lparr>inode_ref_count := inode_ref_count i + 1\<rparr>"] assms(2)
    by (simp add: ref_inc_def inode_ref_inc_def fun_upd_idem)
qed

lemma open_inc_ok:
  assumes "fsinv k" "0 < refs k n"
  shows "\<exists>r k'. inode_open_inc n k = Some (r, k') \<and> cnt_step fsinv is_fs (refs k) ((opens k)(n := opens k n + 1)) k k'"
proof -
  obtain i where i: "inodes k n = Some i" "inode_ref_count i = refs k n" "inode_open_count i = opens k n"
    using live_inode [OF assms(2)] .
  then show ?thesis
    using cnt_step_count [OF assms(1) i(1), of "i\<lparr>inode_open_count := inode_open_count i + 1\<rparr>"] assms(2)
    by (simp add: inode_open_inc_def fun_upd_idem)
qed

lemma ref_dec_ok:
  assumes k: "fsinv k" "counts_ok k" and lt: "opens k n < refs k n"
  shows "\<exists>k'. ref_dec ops n k = Some k' \<and> cnt_step fsinv is_fs ((refs k)(n := refs k n - 1)) (opens k) k k'"
proof -
  have pos: "0 < refs k n"
    using lt counts_okD(1) [OF k(2), of n] by simp
  obtain i where i: "inodes k n = Some i" "inode_ref_count i = refs k n" "inode_open_count i = opens k n"
    using live_inode [OF pos] .
  have upd: "upd_inode n f k = k\<lparr>inodes := (inodes k)(n \<mapsto> f i)\<rparr>" for f
    using i(1) by simp
  show ?thesis
  proof (cases "refs k n = 1")
    case True
    then have z: "opens k n = 0"
      using lt counts_okD(1) [OF k(2), of n] by simp
    then obtain r k' where k': "op_reclaim ops n (upd_inode n (\<lambda>i. i\<lparr>inode_ref_count := 0\<rparr>) k) = Some (r, k')"
        "cnt_step fsinv is_fs ((refs k)(n := 0)) (opens k) k k'"
      using reclaim [OF k i(1)] i True by auto
    have chk: "inode_check n (upd_inode n (\<lambda>i. i\<lparr>inode_ref_count := 0\<rparr>) k) = Some ()"
      using i z by (simp add: inode_check_def)
    have "ref_dec ops n k = Some k'"
      using i True k'(1) chk unfolding ref_dec_def inode_ref_dec_def upd Let_def by simp
    then show ?thesis
      using k'(2) True by simp
  next
    case False
    let ?k = "k\<lparr>inodes := (inodes k)(n \<mapsto> i\<lparr>inode_ref_count := inode_ref_count i - 1\<rparr>)\<rparr>"
    have "ref_dec ops n k = Some ?k"
      using i False pos unfolding ref_dec_def inode_ref_dec_def upd Let_def by (simp add: kassert_def)
    moreover have "cnt_step fsinv is_fs ((refs k)(n := refs k n - 1)) (opens k) k ?k"
      using cnt_step_count [OF k(1) i(1), of "i\<lparr>inode_ref_count := inode_ref_count i - 1\<rparr>"] i False pos
      by (simp add: fun_upd_idem)
    ultimately show ?thesis by blast
  qed
qed

lemma open_dec_ok:
  assumes k: "fsinv k" "counts_ok k" and pos: "0 < opens k n"
  shows "\<exists>r k'. inode_open_dec ops n k = Some (r, k') \<and> cnt_step fsinv is_fs (refs k) ((opens k)(n := opens k n - 1)) k k'"
proof -
  have rpos: "0 < refs k n"
    using pos counts_okD(2) [OF k(2), of n] by simp
  obtain i where i: "inodes k n = Some i" "inode_ref_count i = refs k n" "inode_open_count i = opens k n"
    using live_inode [OF rpos] .
  let ?k = "k\<lparr>inodes := (inodes k)(n \<mapsto> i\<lparr>inode_open_count := inode_open_count i - 1\<rparr>)\<rparr>"
  have upd: "upd_inode n (\<lambda>i. i\<lparr>inode_open_count := inode_open_count i - 1\<rparr>) k = ?k"
    using i(1) by simp
  have step: "cnt_step fsinv is_fs (refs k) ((opens k)(n := opens k n - 1)) k ?k"
    using cnt_step_count [OF k(1) i(1), of "i\<lparr>inode_open_count := inode_open_count i - 1\<rparr>"] i rpos
    by (simp add: fun_upd_idem)
  show ?thesis
  proof (cases "opens k n = 1")
    case True
    have c: "counts_ok ?k"
      by (rule counts_ok_dec(1) [OF k(2) pos]) (use step in \<open>simp_all add: cnt_step_def\<close>)
    have p: "0 < refs ?k n"
      using step rpos by (simp add: cnt_step_def)
    obtain r k' where k': "op_close ops n ?k = Some (r, k')" "fs_step fsinv is_fs None ?k k'"
      using close [OF _ c p] step by (auto simp: cnt_step_def)
    have "inode_open_dec ops n k = Some (0, k')"
      using i True k'(1) inode_check_ok [OF c p] unfolding inode_open_dec_def upd Let_def by simp
    moreover have "cnt_step fsinv is_fs (refs k) ((opens k)(n := opens k n - 1)) k k'"
    proof (rule cnt_step_trans [OF step])
      have "refs ?k = refs k" "opens ?k = (opens k)(n := opens k n - 1)"
        using step by (simp_all add: cnt_step_def)
      then show "cnt_step fsinv is_fs (refs k) ((opens k)(n := opens k n - 1)) ?k k'" "\<And>m. 0 < refs k m \<Longrightarrow> 0 < refs ?k m"
        using k'(2) by (simp_all only: fs_step_def option.case)
    qed
    ultimately show ?thesis by blast
  next
    case False
    then have "inode_open_dec ops n k = Some (inode_open_count i - 1, ?k)"
      using i pos unfolding inode_open_dec_def upd Let_def by (simp add: kassert_def)
    then show ?thesis using step by blast
  qed
qed

lemma vfs_close_ok:
  assumes k: "fsinv k" "counts_ok k" and pos: "0 < opens k n"
  shows "\<exists>k'. vfs_close ops n k = Some (0, k') \<and>
    cnt_step fsinv is_fs ((refs k)(n := refs k n - 1)) ((opens k)(n := opens k n - 1)) k k'"
proof -
  obtain r k1 where k1: "inode_open_dec ops n k = Some (r, k1)" "cnt_step fsinv is_fs (refs k) ((opens k)(n := opens k n - 1)) k k1"
    using open_dec_ok [OF assms] by blast
  then have c: "fsinv k1" "counts_ok k1" "opens k1 n < refs k1 n"
    using counts_ok_dec [OF k(2) pos, of k1] by (simp_all add: cnt_step_def)
  obtain k2 where k2: "ref_dec ops n k1 = Some k2" "cnt_step fsinv is_fs ((refs k1)(n := refs k1 n - 1)) (opens k1) k1 k2"
    using ref_dec_ok [OF c] by blast
  have "cnt_step fsinv is_fs ((refs k1)(n := refs k1 n - 1)) (opens k1) k k2"
    by (rule cnt_step_trans [OF k1(2) k2(2)]) (use k1(2) in \<open>simp add: cnt_step_def\<close>)
  then show ?thesis
    using k1 k2(1) by (simp add: vfs_close_def cnt_step_def)
qed

text \<open>The same for a call that keeps track of the references it holds.\<close>

lemma held_cnt_step:
  assumes h: "held k0 ns os k" and st: "cnt_step fsinv is_fs r o' k k'"
    and r: "r = (\<lambda>n. refs k0 n + int (count ns' n))" and o': "o' = (\<lambda>n. opens k0 n + int (count os' n))"
    and sub: "os' \<subseteq># ns'" and s: "size ns' \<le> 8"
  shows "held k0 ns' os' k'"
proof -
  have "starts_ok is_fs k'"
    by (rule starts_ok_step [of k0 k]) (use h st r in \<open>auto simp: held_def cnt_step_def\<close>)
  then show ?thesis
    using h st r o' sub s by (auto simp: held_def cnt_step_def vfs_frame_def)
qed

lemma held_inc:
  assumes "held k0 ns os k" "0 < refs k n" "size ns < 8"
  shows "\<exists>k'. ref_inc n k = Some k' \<and> held k0 (add_mset n ns) os k'"
proof -
  obtain k' where k': "ref_inc n k = Some k'" "cnt_step fsinv is_fs ((refs k)(n := refs k n + 1)) (opens k) k k'"
    using ref_inc_ok [OF held_inv [OF assms(1)] assms(2)] by blast
  have "held k0 (add_mset n ns) os k'"
    by (rule held_cnt_step [OF assms(1) k'(2)]) (use assms in \<open>auto simp: held_def fun_eq_iff intro: subset_mset.order_trans\<close>)
  then show ?thesis using k'(1) by blast
qed

lemma held_dec:
  assumes h: "held k0 (add_mset n ns) os k" and os: "os \<subseteq># ns"
  shows "\<exists>k'. ref_dec ops n k = Some k' \<and> held k0 ns os k'"
proof -
  have "opens k0 n \<le> refs k0 n" "count os n \<le> count ns n"
    using h os by (auto simp: held_def roomy_def mset_subset_eq_count)
  moreover have "refs k n = refs k0 n + int (count ns n) + 1" "opens k n = opens k0 n + int (count os n)"
    using h by (simp_all add: held_def)
  ultimately have "opens k n < refs k n" by linarith
  then obtain k' where k': "ref_dec ops n k = Some k'" "cnt_step fsinv is_fs ((refs k)(n := refs k n - 1)) (opens k) k k'"
    using ref_dec_ok [OF held_inv [OF h] held_counts [OF h]] by blast
  have "held k0 ns os k'"
    by (rule held_cnt_step [OF h k'(2)]) (use h os in \<open>auto simp: held_def fun_eq_iff\<close>)
  then show ?thesis using k'(1) by blast
qed

lemma held_member: "held k0 ns os k \<Longrightarrow> n \<in># ns \<Longrightarrow> 0 < refs k n"
  using held_pos by (metis insert_DiffM)

lemma held_open_inc:
  assumes h: "held k0 ns os k" and n: "add_mset n os \<subseteq># ns"
  shows "\<exists>r k'. inode_open_inc n k = Some (r, k') \<and> held k0 ns (add_mset n os) k'"
proof -
  have "0 < refs k n"
    using held_member [OF h] n by (meson mset_subset_eqD union_single_eq_member)
  then obtain r k' where k': "inode_open_inc n k = Some (r, k')" "cnt_step fsinv is_fs (refs k) ((opens k)(n := opens k n + 1)) k k'"
    using open_inc_ok [OF held_inv [OF h]] by blast
  have "held k0 ns (add_mset n os) k'"
    by (rule held_cnt_step [OF h k'(2)]) (use h n in \<open>auto simp: held_def fun_eq_iff\<close>)
  then show ?thesis using k'(1) by blast
qed

lemma held_open_dec:
  assumes h: "held k0 ns (add_mset n os) k"
  shows "\<exists>r k'. inode_open_dec ops n k = Some (r, k') \<and> held k0 ns os k'"
proof -
  have "0 \<le> opens k0 n" "opens k n = opens k0 n + int (count os n) + 1"
    using h by (simp_all add: held_def roomy_def)
  then have "0 < opens k n" by linarith
  then obtain r k' where k': "inode_open_dec ops n k = Some (r, k')" "cnt_step fsinv is_fs (refs k) ((opens k)(n := opens k n - 1)) k k'"
    using open_dec_ok [OF held_inv [OF h] held_counts [OF h]] by blast
  have sub: "os \<subseteq># ns"
    using h unfolding held_def by (meson subset_mset.order_trans mset_subset_eq_add_right subset_mset.order_refl mset_subset_eq_insertD subset_mset.less_imp_le)
  have "held k0 ns os k'"
    by (rule held_cnt_step [OF h k'(2)]) (use h sub in \<open>auto simp: held_def fun_eq_iff\<close>)
  then show ?thesis using k'(1) by blast
qed

lemma held_opE:
  assumes "held k0 ns os k" "fs_step fsinv is_fs None k k'"
  shows "held k0 ns os k'"
  using held_fs_step [OF assms] by simp

lemma held_gotE:
  assumes "held k0 ns os k" "fs_step fsinv is_fs (Some n) k k'" "size ns < 8"
  shows "held k0 (add_mset n ns) os k'"
  using held_fs_step [OF assms(1,2)] assms(3) by simp

lemma held_check:
  assumes "held k0 (add_mset n ns) os k"
  shows "inode_check n k = Some ()"
  using inode_check_ok [OF held_counts [OF assms] held_pos [OF assms]] .

lemma held_starts:
  assumes "held k0 ns os k"
  shows "get_cwd k = Some d \<Longrightarrow> 0 < refs k d" "get_cwd k = Some d \<Longrightarrow> \<exists>fs. fs_of k d = Some fs \<and> is_fs fs k"
    "bootfs_node k = Some d \<Longrightarrow> 0 < refs k d"
  using assms by (auto simp: held_def starts_ok_def)

lemma get_curdir_held:
  assumes h: "held k0 ns os k" and s: "size ns < 8"
  obtains (found) n k' where "vfs_get_curdir k = Some (0, Some n, k')" "held k0 (add_mset n ns) os k'" "get_cwd k = Some n"
  | (failed) "vfs_get_curdir k = Some (- E_NOENT, None, k)"
proof (cases "get_cwd k")
  case (Some d)
  then obtain k' where "ref_inc d k = Some k'" "held k0 (add_mset d ns) os k'"
    using held_inc [OF h held_starts(1) [OF h] s] by blast
  then show thesis
    using found Some by (simp add: vfs_get_curdir_def)
qed (use failed in \<open>simp add: vfs_get_curdir_def\<close>)

lemma get_bootfs_held:
  assumes h: "held k0 ns os k" and s: "size ns < 8"
  obtains (found) n k' where "vfs_get_bootfs k = Some (0, Some n, k')" "held k0 (add_mset n ns) os k'"
  | (failed) "vfs_get_bootfs k = Some (- E_NOENT, None, k)"
proof (cases "bootfs_node k")
  case (Some d)
  then obtain k' where "ref_inc d k = Some k'" "held k0 (add_mset d ns) os k'"
    using held_inc [OF h held_starts(3) [OF h] s] by blast
  then show thesis
    using found Some by (simp add: vfs_get_bootfs_def)
qed (use failed in \<open>simp add: vfs_get_bootfs_def\<close>)

lemma get_fs_root_held:
  assumes h: "held k0 ns os k" and s: "size ns < 8" and fs: "is_fs fs k"
  obtains n k' where "fs_get_root ops fs k = Some (Some n, k')" "held k0 (add_mset n ns) os k'"
  using get_root [OF held_inv [OF h] held_counts [OF h] fs] held_gotE [OF h _ s] by blast

lemma get_root_held:
  assumes h: "held k0 ns os k" and s: "size ns < 8"
  obtains (found) n k' where "vfs_get_root ops name k = Some (0, Some n, k')" "held k0 (add_mset n ns) os k'"
  | (failed) r where "r \<noteq> 0" "vfs_get_root ops name k = Some (r, None, k)"
proof (cases "find_vdev (\<lambda>d. name = devname d) (vdevs k) (vdev_list k)")
  case None
  then show thesis using failed [of "- E_NO_DEV"] by (simp add: vfs_get_root_def)
next
  case (Some v)
  then have v: "v \<in> set (vdev_list k)"
    using find_vdev_Some by blast
  show thesis
  proof (cases "dev_fs (vdevs k v)")
    case (Some fs)
    then have "is_fs fs k"
      using h v by (fastforce simp: held_def starts_ok_def)
    then obtain n k' where "fs_get_root ops fs k = Some (Some n, k')" "held k0 (add_mset n ns) os k'"
      by (rule get_fs_root_held [OF h s])
    then show thesis
      using found Some \<open>find_vdev _ _ _ = Some v\<close> by (simp add: vfs_get_root_def)
  next
    case None
    show thesis
    proof (cases "mountable (vdevs k v)")
      case True
      then show thesis
        using failed [of "- E_NA_DEV"] None \<open>find_vdev _ _ _ = Some v\<close> by (simp add: vfs_get_root_def)
    next
      case False
      then obtain n where n: "devnode (vdevs k v) = Some n" "0 < refs k n"
        using h v None by (fastforce simp: held_def starts_ok_def)
      then obtain k' where "ref_inc n k = Some k'" "held k0 (add_mset n ns) os k'"
        using held_inc [OF h n(2) s] by blast
      then show thesis
        using found False None n \<open>find_vdev _ _ _ = Some v\<close> by (simp add: vfs_get_root_def)
    qed
  qed
qed

lemma get_device_held:
  assumes h: "held k0 ns os k" and s: "size ns < 7"
  obtains (found) n k' where "get_device ops path k = Some (0, subpath path, Some n, k')" "held k0 (add_mset n ns) os k'"
  | (failed) r p k' where "r \<noteq> 0" "get_device ops path k = Some (r, p, None, k')" "held k0 ns os k'"
proof -
  have s8: "size ns < 8" using s by simp
  consider (rel) "first_sep 0 path = None" | (relslash) i where "first_sep 0 path = Some (i, CHR ''/'')" "i \<noteq> 0"
    | (dev) i where "first_sep 0 path = Some (i, CHR '':'')" "i \<noteq> 0"
    | (boot) "first_sep 0 path = Some (0, CHR ''/'')" | (cur) "first_sep 0 path = Some (0, CHR '':'')"
  proof (cases "first_sep 0 path")
    case (Some p)
    obtain i c where p: "p = (i, c)" by (cases p)
    show ?thesis
      using that Some p first_sep_char [of 0 path i c] by (cases "i = 0") auto
  qed (use that in auto)
  then show thesis
  proof cases
    case rel
    from h s8 show thesis
    proof (cases rule: get_curdir_held)
      case found
      then show thesis using that(1) rel by (simp add: get_device_def subpath_def)
    next
      case failed
      then show thesis using that(2) [of "- E_NOENT" path k] rel h by (simp add: get_device_def)
    qed
  next
    case relslash
    from h s8 show thesis
    proof (cases rule: get_curdir_held)
      case found
      then show thesis using that(1) relslash by (simp add: get_device_def subpath_def)
    next
      case failed
      then show thesis using that(2) [of "- E_NOENT" path k] relslash h by (simp add: get_device_def)
    qed
  next
    case dev
    from h s8 show thesis
    proof (cases rule: get_root_held [of k0 ns os k "take i path"])
      case found
      then show thesis using that(1) dev by (simp add: get_device_def subpath_def nat_add_distrib)
    next
      case (failed r)
      then show thesis using that(2) [of r _ k] dev h by (simp add: get_device_def)
    qed
  next
    case boot
    from h s8 show thesis
    proof (cases rule: get_bootfs_held)
      case found
      then show thesis using that(1) boot by (simp add: get_device_def subpath_def)
    next
      case failed
      then show thesis using that(2) [of "- E_NOENT" _ k] boot h by (simp add: get_device_def)
    qed
  next
    case cur
    from h s8 show thesis
    proof (cases rule: get_curdir_held)
      case (found n k1)
      have "get_cwd k1 = Some n"
        using found(2,3) h by (simp add: held_def vfs_frame_def)
      then obtain fs where fs: "fs_of k1 n = Some fs" "is_fs fs k1"
        using held_starts(2) [OF found(2)] by blast
      obtain i where i: "inodes k1 n = Some i" "in_fs i = Some fs"
        using fs(1) by (auto simp: fs_of_def split: option.splits)
      obtain m k2 where k2: "fs_get_root ops fs k1 = Some (Some m, k2)" "held k0 (add_mset m (add_mset n ns)) os k2"
        using get_fs_root_held [OF found(2) _ fs(2)] s by auto
      then have "held k0 (add_mset n (add_mset m ns)) os k2"
        by (simp add: add_mset_commute)
      moreover have "os \<subseteq># add_mset m ns"
        using h by (auto simp: held_def intro: subset_mset.order_trans)
      ultimately obtain k3 where "ref_dec ops n k2 = Some k3" "held k0 (add_mset m ns) os k3"
        using held_dec by blast
      then show thesis
        using that(1) cur found(1) i k2(1) by (simp add: get_device_def subpath_def)
    next
      case failed
      then show thesis using that(2) [of "- E_NOENT" _ k] cur h by (simp add: get_device_def)
    qed
  qed
qed

lemma held_sub: "held k0 ns os k \<Longrightarrow> os \<subseteq># ns"
  by (simp add: held_def)

lemma held_drop:
  assumes "held k0 (add_mset n ns) os k" "os \<subseteq># ns"
  obtains k' where "ref_dec ops n k = Some k'" "held k0 ns os k'"
  using held_dec [OF assms] by blast

lemma held_drop2:
  assumes "held k0 (add_mset m (add_mset n ns)) os k" "os \<subseteq># ns"
  obtains k' where "ref_dec ops n k = Some k'" "held k0 (add_mset m ns) os k'"
proof (rule held_drop [of k0 n "add_mset m ns" os k])
  show "held k0 (add_mset n (add_mset m ns)) os k"
    using assms(1) by (simp add: add_mset_commute)
  show "os \<subseteq># add_mset m ns"
    using assms(2) by (rule subset_mset.order_trans) simp
qed (rule that)

lemma lookup_held:
  assumes h: "held k0 ns os k" and s: "size ns < 7" and p: "path_ok (subpath path)"
  obtains (found) n k' where "vfs_lookup ops path k = Some (0, Some n, k')" "held k0 (add_mset n ns) os k'"
  | (failed) r m k' where "r \<noteq> 0" "vfs_lookup ops path k = Some (r, m, k')" "held k0 ns os k'"
  using h s
proof (cases rule: get_device_held [of k0 ns os k path])
  case dev: (found n k1)
  show thesis
  proof (cases "subpath path = []")
    case True
    then show thesis
      using found dev by (simp add: vfs_lookup_def)
  next
    case False
    obtain r m k2 where op: "op_lookup ops n (subpath path) k1 = Some (r, m, k2)" "r = 0 \<longrightarrow> m \<noteq> None"
        "fs_step fsinv is_fs (if r = 0 then m else None) k1 k2"
      using lookup [OF held_inv [OF dev(2)] held_counts [OF dev(2)] held_pos [OF dev(2)] p False] by blast
    show thesis
    proof (cases "r = 0")
      case True
      then obtain a where a: "m = Some a" using op(2) by blast
      then have "held k0 (add_mset a (add_mset n ns)) os k2"
        using held_gotE [OF dev(2)] op(3) True s by simp
      then obtain k3 where "ref_dec ops n k2 = Some k3" "held k0 (add_mset a ns) os k3"
        by (rule held_drop2 [OF _ held_sub [OF h]])
      then show thesis
        using found dev(1) False op(1) True a held_check [OF dev(2)] by (simp add: vfs_lookup_def)
    next
      case r: False
      then have "held k0 (add_mset n ns) os k2"
        using held_opE [OF dev(2)] op(3) by simp
      then obtain k3 where "ref_dec ops n k2 = Some k3" "held k0 ns os k3"
        by (rule held_drop [OF _ held_sub [OF h]])
      then show thesis
        using failed dev(1) False op(1) r held_check [OF dev(2)] by (simp add: vfs_lookup_def)
    qed
  qed
next
  case dev: (failed r p k')
  then show thesis
    using failed [of r None k'] by (simp add: vfs_lookup_def)
qed

lemma lookup_parent_held:
  assumes h: "held k0 ns os k" and s: "size ns < 7" and p: "path_ok (subpath path)"
  obtains (found) n q k' where "vfs_lookup_parent ops path k = Some (0, Some n, q, k')" "held k0 (add_mset n ns) os k'" "path_ok q" "q \<noteq> []"
  | (failed) r m q k' where "r \<noteq> 0" "vfs_lookup_parent ops path k = Some (r, m, q, k')" "held k0 ns os k'"
  using h s
proof (cases rule: get_device_held [of k0 ns os k path])
  case dev: (found n k1)
  show thesis
  proof (cases "subpath path = []")
    case True
    obtain k3 where "ref_dec ops n k1 = Some k3" "held k0 ns os k3"
      by (rule held_drop [OF dev(2) held_sub [OF h]])
    then show thesis
      using failed [of "- E_INVAL" None "[]" k3] dev True by (simp add: vfs_lookup_parent_def)
  next
    case False
    obtain r m q k2 where op: "op_lookup_parent ops n (subpath path) k1 = Some (r, m, q, k2)"
        "r = 0 \<longrightarrow> m \<noteq> None \<and> path_ok q \<and> q \<noteq> []" "fs_step fsinv is_fs (if r = 0 then m else None) k1 k2"
      using lookup_parent [OF held_inv [OF dev(2)] held_counts [OF dev(2)] held_pos [OF dev(2)] p False] by blast
    show thesis
    proof (cases "r = 0")
      case True
      then obtain a where a: "m = Some a" using op(2) by blast
      then have "held k0 (add_mset a (add_mset n ns)) os k2"
        using held_gotE [OF dev(2)] op(3) True s by simp
      then obtain k3 where "ref_dec ops n k2 = Some k3" "held k0 (add_mset a ns) os k3"
        by (rule held_drop2 [OF _ held_sub [OF h]])
      then show thesis
        using found [of a q k3] dev(1) False op(1,2) True a held_check [OF dev(2)] by (simp add: vfs_lookup_parent_def)
    next
      case r: False
      then have "held k0 (add_mset n ns) os k2"
        using held_opE [OF dev(2)] op(3) by simp
      then obtain k3 where "ref_dec ops n k2 = Some k3" "held k0 ns os k3"
        by (rule held_drop [OF _ held_sub [OF h]])
      then show thesis
        using failed [of r m q k3] dev(1) False op(1) r held_check [OF dev(2)] by (simp add: vfs_lookup_parent_def)
    qed
  qed
next
  case dev: (failed r p k')
  then show thesis
    using failed [of r None "[]" k'] by (simp add: vfs_lookup_parent_def)
qed

text \<open>The operations on one parent directory, on two path names and on a symbolic link give back every reference they took.\<close>

lemma in_parent_held:
  assumes h: "held k0 ns os k" and s: "size ns < 7" and p: "path_ok (subpath path)"
    and f: "\<And>n q k. fsinv k \<Longrightarrow> counts_ok k \<Longrightarrow> 0 < refs k n \<Longrightarrow> path_ok q \<Longrightarrow>
      \<exists>r k'. f n q k = Some (r, k') \<and> fs_step fsinv is_fs None k k'"
  shows "\<exists>r k'. in_parent ops f path k = Some (r, k') \<and> held k0 ns os k'"
  using h s p
proof (cases rule: lookup_parent_held)
  case (found n q k1)
  obtain r k2 where k2: "f n q k1 = Some (r, k2)" "fs_step fsinv is_fs None k1 k2"
    using f [OF held_inv [OF found(2)] held_counts [OF found(2)] held_pos [OF found(2)] found(3)] by blast
  obtain k3 where "ref_dec ops n k2 = Some k3" "held k0 ns os k3"
    by (rule held_drop [OF held_opE [OF found(2) k2(2)] held_sub [OF h]])
  then show ?thesis
    using found(1) k2(1) held_check [OF found(2)] by (simp add: in_parent_def)
next
  case (failed r m q k')
  then show ?thesis by (simp add: in_parent_def)
qed

lemma held_same_fs:
  assumes "held k0 (add_mset m (add_mset n ns)) os k"
  shows "\<exists>b. same_fs n m k = Some b" "\<exists>b. same_fs m n k = Some b"
proof -
  have "0 < refs k m" "0 < refs k n"
    using held_pos [of k0 m "add_mset n ns" os k] held_pos [of k0 n "add_mset m ns" os k] assms by (simp_all add: add_mset_commute)
  then show "\<exists>b. same_fs n m k = Some b" "\<exists>b. same_fs m n k = Some b"
    using refs_pos [of k m] refs_pos [of k n] by (auto simp: same_fs_def)
qed

lemma rename_held:
  assumes h: "held k0 ns os k" and s: "size ns < 6" and p: "path_ok (subpath path)" "path_ok (subpath path')"
  shows "\<exists>r k'. vfs_rename ops path path' k = Some (r, k') \<and> held k0 ns os k'"
proof -
  have s7: "size ns < 7" using s by simp
  from h s7 p(1) show ?thesis
  proof (cases rule: lookup_parent_held)
    case old: (found n q k1)
    have s6: "size (add_mset n ns) < 7" using s by simp
    from old(2) s6 p(2) show ?thesis
    proof (cases rule: lookup_parent_held)
      case new: (found m q' k2)
      obtain b where b: "same_fs n m k2 = Some b"
        using held_same_fs(1) [OF new(2)] by blast
      have pos: "0 < refs k2 n" "inode_check n k2 = Some ()"
        using held_pos [of k0 n "add_mset m ns"] held_check [of k0 n "add_mset m ns"] new(2) by (simp_all add: add_mset_commute)
      obtain r k3 where k3: "op_rename ops n q m q' k2 = Some (r, k3)" "fs_step fsinv is_fs None k2 k3"
        using rename [OF held_inv [OF new(2)] held_counts [OF new(2)] pos(1) held_pos [OF new(2)] old(3) new(3)] by blast
      define kk where "kk = (if b then k3 else k2)"
      have "held k0 (add_mset m (add_mset n ns)) os kk"
        using new(2) held_opE [OF new(2) k3(2)] by (simp add: kk_def)
      then obtain k4 where k4: "ref_dec ops n kk = Some k4" "held k0 (add_mset m ns) os k4"
        by (rule held_drop2 [OF _ held_sub [OF h]])
      obtain k5 where "ref_dec ops m k4 = Some k5" "held k0 ns os k5"
        by (rule held_drop [OF k4(2) held_sub [OF h]])
      then show ?thesis
        using old(1) new(1) b pos(2) k3(1) k4(1) by (cases b) (simp_all add: vfs_rename_def kk_def)
    next
      case new: (failed r m q' k2)
      obtain k3 where "ref_dec ops n k2 = Some k3" "held k0 ns os k3"
        by (rule held_drop [OF new(3) held_sub [OF h]])
      then show ?thesis using old(1) new(1,2) by (simp add: vfs_rename_def)
    qed
  next
    case (failed r m q k')
    then show ?thesis by (simp add: vfs_rename_def)
  qed
qed

lemma link_held:
  assumes h: "held k0 ns os k" and s: "size ns < 6" and p: "path_ok (subpath path)" "path_ok (subpath path')"
  shows "\<exists>r k'. vfs_link ops path path' k = Some (r, k') \<and> held k0 ns os k'"
proof -
  have s7: "size ns < 7" using s by simp
  from h s7 p(1) show ?thesis
  proof (cases rule: lookup_held)
    case old: (found n k1)
    have s6: "size (add_mset n ns) < 7" using s by simp
    from old(2) s6 p(2) show ?thesis
    proof (cases rule: lookup_parent_held)
      case new: (found m q' k2)
      obtain b where b: "same_fs n m k2 = Some b"
        using held_same_fs(1) [OF new(2)] by blast
      have pos: "0 < refs k2 n"
        using held_pos [of k0 n "add_mset m ns"] new(2) by (simp add: add_mset_commute)
      obtain r k3 where k3: "op_link ops m q' n k2 = Some (r, k3)" "fs_step fsinv is_fs None k2 k3"
        using link [OF held_inv [OF new(2)] held_counts [OF new(2)] held_pos [OF new(2)] pos new(3)] by blast
      define kk where "kk = (if b then k3 else k2)"
      have "held k0 (add_mset m (add_mset n ns)) os kk"
        using new(2) held_opE [OF new(2) k3(2)] by (simp add: kk_def)
      then obtain k4 where k4: "ref_dec ops n kk = Some k4" "held k0 (add_mset m ns) os k4"
        by (rule held_drop2 [OF _ held_sub [OF h]])
      obtain k5 where "ref_dec ops m k4 = Some k5" "held k0 ns os k5"
        by (rule held_drop [OF k4(2) held_sub [OF h]])
      then show ?thesis
        using old(1) new(1) b k3(1) k4(1) held_check [OF new(2)] by (cases b) (simp_all add: vfs_link_def kk_def)
    next
      case new: (failed r m q' k2)
      obtain k3 where "ref_dec ops n k2 = Some k3" "held k0 ns os k3"
        by (rule held_drop [OF new(3) held_sub [OF h]])
      then show ?thesis using old(1) new(1,2) by (simp add: vfs_link_def)
    qed
  next
    case (failed r m k')
    then show ?thesis by (simp add: vfs_link_def)
  qed
qed

lemma readlink_held:
  assumes h: "held k0 ns os k" and s: "size ns < 7" and p: "path_ok (subpath path)"
  shows "\<exists>r iob' k'. vfs_readlink ops path iob k = Some (r, iob', k') \<and> (\<exists>m. advanced iob m iob') \<and> held k0 ns os k'"
  using h s p
proof (cases rule: lookup_held)
  case (found n k1)
  obtain r iob' k2 where k2: "op_readlink ops n iob k1 = Some (r, iob', k2)" "\<exists>m. advanced iob m iob'" "fs_step fsinv is_fs None k1 k2"
    using readlink [OF held_inv [OF found(2)] held_counts [OF found(2)] held_pos [OF found(2)]] by blast
  obtain k3 where "ref_dec ops n k2 = Some k3" "held k0 ns os k3"
    by (rule held_drop [OF held_opE [OF found(2) k2(3)] held_sub [OF h]])
  then show ?thesis
    using found(1) k2(1,2) held_check [OF found(2)] by (simp add: vfs_readlink_def)
next
  case (failed r m k')
  moreover have "advanced iob 0 iob" by (simp add: advanced_def)
  ultimately show ?thesis by (auto simp: vfs_readlink_def)
qed

text \<open>Opening adds one reference and one opening to the inode it hands back; when it fails, nothing.\<close>

lemma create_held:
  assumes h: "held k0 ns os k" and s: "size ns < 7" and p: "path_ok (subpath path)"
  obtains (found) n k' where "vfs_open_lookup ops path fl k = Some (0, Some n, k')" "held k0 (add_mset n ns) os k'"
  | (failed) r m k' where "r \<noteq> 0" "vfs_open_lookup ops path fl k = Some (r, m, k')" "held k0 ns os k'"
proof (cases "fl AND O_CREAT = 0")
  case True
  from h s p show thesis
    by (cases rule: lookup_held) (use True that in \<open>auto simp: vfs_open_lookup_def\<close>)
next
  case False
  from h s p show thesis
  proof (cases rule: lookup_parent_held)
    case par: (found n q k1)
    obtain r m k2 where op: "op_create ops n q (fl AND O_EXCL \<noteq> 0) k1 = Some (r, m, k2)" "r = 0 \<longrightarrow> m \<noteq> None"
        "fs_step fsinv is_fs (if r = 0 then m else None) k1 k2"
      using create [OF held_inv [OF par(2)] held_counts [OF par(2)] held_pos [OF par(2)] par(3,4)] by blast
    show thesis
    proof (cases "r = 0")
      case True
      then obtain a where a: "m = Some a" using op(2) by blast
      then have "held k0 (add_mset a (add_mset n ns)) os k2"
        using held_gotE [OF par(2)] op(3) True s by simp
      then obtain k3 where "ref_dec ops n k2 = Some k3" "held k0 (add_mset a ns) os k3"
        by (rule held_drop2 [OF _ held_sub [OF h]])
      then show thesis
        using found [of a k3] par(1) False op(1,2) True a held_check [OF par(2)] by (simp add: vfs_open_lookup_def)
    next
      case r: False
      then have "held k0 (add_mset n ns) os k2"
        using held_opE [OF par(2)] op(3) by simp
      then obtain k3 where "ref_dec ops n k2 = Some k3" "held k0 ns os k3"
        by (rule held_drop [OF _ held_sub [OF h]])
      then show thesis
        using failed [of r m k3] par(1) False op(1) r held_check [OF par(2)] by (simp add: vfs_open_lookup_def)
    qed
  next
    case (failed r m q k')
    then show thesis using that(2) [of r None k'] False by (simp add: vfs_open_lookup_def)
  qed
qed

definition opened :: "'a vfs_scheme \<Rightarrow> addr multiset \<Rightarrow> addr multiset \<Rightarrow> int \<times> addr option \<times> 'a vfs_scheme \<Rightarrow> bool" where
  "opened k0 ns os res \<longleftrightarrow> (\<exists>n k'. res = (0, Some n, k') \<and> held k0 (add_mset n ns) (add_mset n os) k') \<or>
     (\<exists>r k'. r \<noteq> 0 \<and> res = (r, None, k') \<and> held k0 ns os k')"

lemma open_node_held:
  assumes h: "held k0 (add_mset n ns) os k" and os: "os \<subseteq># ns"
  shows "\<exists>res. vfs_open_node ops n fl k = Some res \<and> opened k0 ns os res"
proof -
  obtain r k1 where k1: "op_open ops n fl k = Some (r, k1)" "fs_step fsinv is_fs None k k1"
    using open' [OF held_inv [OF h] held_counts [OF h] held_pos [OF h]] by blast
  have h1: "held k0 (add_mset n ns) os k1"
    by (rule held_opE [OF h k1(2)])
  show ?thesis
  proof (cases "r = 0")
    case False
    obtain k2 where "ref_dec ops n k1 = Some k2" "held k0 ns os k2"
      by (rule held_drop [OF h1 os])
    then show ?thesis
      using k1(1) held_check [OF h] False unfolding vfs_open_node_def opened_def by simp
  next
    case True
    have "add_mset n os \<subseteq># add_mset n ns" using os by simp
    then obtain x k2 where k2: "inode_open_inc n k1 = Some (x, k2)" "held k0 (add_mset n ns) (add_mset n os) k2"
      using held_open_inc [OF h1] by blast
    show ?thesis
    proof (cases "fl AND O_TRUNC = 0")
      case notrunc: True
      then show ?thesis
        using k1(1) k2 held_check [OF h] True unfolding vfs_open_node_def opened_def by simp
    next
      case trunc: False
      obtain r' k3 where k3: "op_truncate ops n 0 k2 = Some (r', k3)" "fs_step fsinv is_fs None k2 k3"
        using truncate [OF held_inv [OF k2(2)] held_counts [OF k2(2)] held_pos [OF k2(2)]] by blast
      have h3: "held k0 (add_mset n ns) (add_mset n os) k3"
        by (rule held_opE [OF k2(2) k3(2)])
      obtain y k4 where k4: "inode_open_dec ops n k3 = Some (y, k4)" "held k0 (add_mset n ns) os k4"
        using held_open_dec [OF h3] by blast
      obtain k5 where k5: "ref_dec ops n k4 = Some k5" "held k0 ns os k5"
        by (rule held_drop [OF k4(2) os])
      show ?thesis
        using k1(1) k2(1) k3(1) k4(1) k5 h3 held_check [OF h] held_check [OF k2(2)] True trunc
        unfolding vfs_open_node_def opened_def by (cases "r' = 0") simp_all
    qed
  qed
qed

lemma vfs_open_held:
  assumes h: "held k0 ns os k" and s: "size ns < 7" and p: "path_ok (subpath path)"
  shows "\<exists>res. vfs_open ops path fl k = Some res \<and> opened k0 ns os res"
proof (cases "(fl AND O_ACCMODE \<noteq> O_RDONLY \<and> fl AND O_ACCMODE \<noteq> O_WRONLY \<and> fl AND O_ACCMODE \<noteq> O_RDWR) \<or>
    (fl AND O_TRUNC \<noteq> 0 \<and> fl AND O_ACCMODE \<noteq> O_WRONLY \<and> fl AND O_ACCMODE \<noteq> O_RDWR)")
  case True
  then have "vfs_open ops path fl k = Some (- E_INVAL, None, k)"
    by (auto simp: vfs_open_def Let_def)
  then show ?thesis
    using h by (simp add: opened_def)
next
  case False
  from h s p show ?thesis
  proof (cases rule: create_held [where fl = fl])
    case (found n k1)
    show ?thesis
      using open_node_held [OF found(2) held_sub [OF h], of fl] False found(1) by (auto simp: vfs_open_def Let_def)
  next
    case (failed r m k')
    then show ?thesis
      using False by (auto simp: vfs_open_def opened_def Let_def)
  qed
qed

text \<open>In terms of the counts.\<close>

lemma held_done:
  assumes "held k {#} {#} k'"
  shows "fsinv k' \<and> starts_ok is_fs k' \<and> vfs_frame k k' \<and> refs k' = refs k \<and> opens k' = opens k"
  using assms by (simp add: held_def)

lemma opened_done:
  assumes "opened k {#} {#} (r, m, k')"
  shows "fsinv k' \<and> starts_ok is_fs k' \<and> vfs_frame k k' \<and>
    (if r = 0 then \<exists>n. m = Some n \<and> refs k' = (refs k)(n := refs k n + 1) \<and> opens k' = (opens k)(n := opens k n + 1)
     else m = None \<and> refs k' = refs k \<and> opens k' = opens k)"
  using assms unfolding opened_def held_def by (auto simp: fun_eq_iff)

end

end
