(* ===== verification/Pipe.thy ===== *)
theory Pipe
  imports Iobuf
begin

text \<open>
  Pipes (\<^verbatim>\<open>kern/fs/pipe/pipe_state.c\<close>).

  The caller's buffer is memory as in \<open>Cstring\<close>.  A pipe operation is split where it blocks: one call of \<open>pipe_read_section\<close>
  or \<open>pipe_write_section\<close> is the part of \<open>pipe_state_read\<close> and \<open>pipe_state_write\<close> between \<open>lock_state\<close> and \<open>unlock_state\<close>; its
  outcome says whether the function returns, or waits for the other side and starts over, and which side it woke up.  The
  function itself runs a list of what happened to the pipe in between (the sections other processes ran) for each wait.
  Positions are 32-bit words (\<^verbatim>\<open>off_t\<close>, converted to \<^verbatim>\<open>size_t\<close> by the operations with \<open>PIPE_BUFSIZE\<close>).
\<close>

subsection \<open>The ring buffer of a pipe\<close>

text \<open>\<open>PIPE_BUFSIZE\<close> is what a page leaves behind the 56 bytes of \<^verbatim>\<open>struct pipe_state\<close>.\<close>

abbreviation PIPE_BUFSIZE :: u32 where "PIPE_BUFSIZE \<equiv> 4040"

record pipe_state =
  p_rpos :: u32
  p_wpos :: u32
  buf :: "u32 \<Rightarrow> u8"
  isclosed :: bool
  ref_count :: int

text \<open>The argument is the block \<^verbatim>\<open>kmalloc\<close> returns, with whatever it contains.\<close>

definition pipe_state_create :: "(u32 \<Rightarrow> u8) option \<Rightarrow> pipe_state option" where
  "pipe_state_create block =
     (case block of None \<Rightarrow> None
      | Some b \<Rightarrow> Some \<lparr>p_rpos = 0, p_wpos = 0, buf = b, isclosed = False, ref_count = 1\<rparr>)"

definition is_empty :: "pipe_state \<Rightarrow> bool" where
  "is_empty p \<longleftrightarrow> p_rpos p = p_wpos p"

definition is_full :: "pipe_state \<Rightarrow> bool" where
  "is_full p \<longleftrightarrow> p_wpos p - p_rpos p \<ge> PIPE_BUFSIZE"

definition pipe_state_acquire :: "pipe_state \<Rightarrow> pipe_state option" where
  "pipe_state_acquire p = do { kassert (ref_count p > 0); Some (p\<lparr>ref_count := ref_count p + 1\<rparr>) }"

text \<open>\<open>readers\<close> and \<open>writers\<close> tell whether processes wait in the queues; the result is \<^const>\<open>None\<close> inside if the state was freed.\<close>

definition pipe_state_release :: "bool \<Rightarrow> bool \<Rightarrow> pipe_state \<Rightarrow> pipe_state option option" where
  "pipe_state_release readers writers p = do {
     kassert (ref_count p > 0);
     (let p = p\<lparr>ref_count := ref_count p - 1\<rparr> in
      if ref_count p = 0 then do { kassert (\<not> readers); kassert (\<not> writers); Some None } else Some (Some p))
   }"

text \<open>Closing wakes up both queues.\<close>

definition pipe_state_close :: "pipe_state \<Rightarrow> pipe_state option" where
  "pipe_state_close p = do { kassert (ref_count p > 0); Some (p\<lparr>isclosed := True\<rparr>) }"

definition pipe_state_size :: "pipe_state \<Rightarrow> bool \<Rightarrow> u32" where
  "pipe_state_size p w = (if w then if isclosed p then 0 else PIPE_BUFSIZE - (p_wpos p - p_rpos p) else p_wpos p - p_rpos p)"

datatype outcome = Returns | Waits

text \<open>The loops of the two sections; the last argument is the number of bytes still wanted.\<close>

fun read_loop :: "mem \<Rightarrow> addr \<Rightarrow> nat \<Rightarrow> pipe_state \<Rightarrow> nat \<Rightarrow> nat \<times> mem \<times> pipe_state" where
  "read_loop m b ret p 0 = (ret, m, p)"
| "read_loop m b ret p (Suc n) =
     (if is_empty p then (ret, m, p)
      else read_loop (m(b + ret := buf p (p_rpos p mod PIPE_BUFSIZE))) b (ret + 1) (p\<lparr>p_rpos := p_rpos p + 1\<rparr>) n)"

fun write_loop :: "mem \<Rightarrow> addr \<Rightarrow> nat \<Rightarrow> pipe_state \<Rightarrow> nat \<Rightarrow> outcome \<times> nat \<times> pipe_state" where
  "write_loop m b ret p 0 = (Returns, ret, p)"
| "write_loop m b ret p (Suc n) =
     (if is_full p then (Waits, ret, p)
      else write_loop m b (ret + 1)
             (p\<lparr>buf := (buf p)(p_wpos p mod PIPE_BUFSIZE := m (b + ret)), p_wpos := p_wpos p + 1\<rparr>) n)"

text \<open>The results are the outcome, the number of bytes transferred so far, the caller's memory and the state, and whether
  the other side was woken up.\<close>

definition pipe_read_section :: "mem \<Rightarrow> addr \<Rightarrow> nat \<Rightarrow> pipe_state \<Rightarrow> outcome \<times> nat \<times> mem \<times> pipe_state \<times> bool" where
  "pipe_read_section m b n p =
     (if is_empty p then (if isclosed p then Returns else Waits, 0, m, p, False)
      else let (ret, m, p) = read_loop m b 0 p n in (Returns, ret, m, p, ret \<noteq> 0))"

definition pipe_write_section :: "mem \<Rightarrow> addr \<Rightarrow> nat \<Rightarrow> nat \<Rightarrow> pipe_state \<Rightarrow> outcome \<times> nat \<times> pipe_state \<times> bool" where
  "pipe_write_section m b ret n p =
     (if isclosed p then (Returns, ret, p, False)
      else let (oc, ret', p) = write_loop m b ret p (n - ret) in (oc, ret', p, oc = Waits \<or> ret' \<noteq> ret))"

text \<open>The whole functions: \<open>between\<close> lists, for each time the function has to wait, whether it is woken up by the other side
  (\<^verbatim>\<open>WT_PIPE\<close>) and what the others made of the pipe meanwhile; the list ends when the function is not woken up in the
  time considered, which is the outcome \<open>Waits\<close>.\<close>

fun pipe_state_read :: "mem \<Rightarrow> addr \<Rightarrow> nat \<Rightarrow> pipe_state \<Rightarrow> (bool \<times> (pipe_state \<Rightarrow> pipe_state)) list \<Rightarrow> outcome \<times> nat \<times> mem \<times> pipe_state" where
  "pipe_state_read m b n p bs =
     (case pipe_read_section m b n p of
        (Returns, ret, m, p, _) \<Rightarrow> (Returns, ret, m, p)
      | (Waits, ret, m, p, _) \<Rightarrow>
          (case bs of [] \<Rightarrow> (Waits, ret, m, p)
           | (ok, f) # bs \<Rightarrow> if ok then pipe_state_read m b n (f p) bs else (Returns, ret, m, f p)))"

fun pipe_state_write :: "mem \<Rightarrow> addr \<Rightarrow> nat \<Rightarrow> nat \<Rightarrow> pipe_state \<Rightarrow> (bool \<times> (pipe_state \<Rightarrow> pipe_state)) list \<Rightarrow> outcome \<times> nat \<times> pipe_state" where
  "pipe_state_write m b ret n p bs =
     (case pipe_write_section m b ret n p of
        (Returns, ret, p, _) \<Rightarrow> (Returns, ret, p)
      | (Waits, ret, p, _) \<Rightarrow>
          (case bs of [] \<Rightarrow> (Waits, ret, p)
           | (ok, f) # bs \<Rightarrow> if ok then pipe_state_write m b ret n (f p) bs else (Returns, ret, f p)))"


subsection \<open>A pipe is a bounded queue\<close>

definition pipe_ok :: "pipe_state \<Rightarrow> bool" where
  "pipe_ok p \<longleftrightarrow> p_rpos p \<le> p_wpos p \<and> unat (p_wpos p) - unat (p_rpos p) \<le> 4040"

definition contents :: "pipe_state \<Rightarrow> u8 list" where
  "contents p = map (\<lambda>i. buf p (of_nat (i mod 4040))) [unat (p_rpos p)..<unat (p_wpos p)]"

lemma pos_index: "(w::u32) mod PIPE_BUFSIZE = of_nat (unat w mod 4040)"
proof -
  have "unat (w mod PIPE_BUFSIZE) = unat w mod 4040"
    by (simp add: unat_mod)
  then show ?thesis
    by (metis of_nat_unat ucast_id)
qed

lemma length_contents [simp]: "length (contents p) = unat (p_wpos p) - unat (p_rpos p)"
  by (simp add: contents_def)

lemma is_empty_iff: "pipe_ok p \<Longrightarrow> is_empty p \<longleftrightarrow> contents p = []"
  by (auto simp: is_empty_def contents_def pipe_ok_def word_le_nat_alt word_unat_eq_iff)

lemma is_full_iff: "pipe_ok p \<Longrightarrow> is_full p \<longleftrightarrow> length (contents p) = 4040"
  by (auto simp: is_full_def pipe_ok_def word_le_nat_alt unat_sub)

lemma read_step:
  assumes "pipe_ok p" "\<not> is_empty p"
  shows "contents p = buf p (p_rpos p mod PIPE_BUFSIZE) # contents (p\<lparr>p_rpos := p_rpos p + 1\<rparr>)"
    and "pipe_ok (p\<lparr>p_rpos := p_rpos p + 1\<rparr>)"
proof -
  have lt: "unat (p_rpos p) < unat (p_wpos p)"
    using assms by (auto simp: is_empty_def pipe_ok_def word_le_nat_alt word_unat_eq_iff)
  have "unat (p_rpos p) + unat (1::u32) < 2 ^ LENGTH(32)"
    using lt unat_bound [of "p_wpos p"] by simp
  then have s: "unat (p_rpos p + 1) = Suc (unat (p_rpos p))"
    using unat_add_lt [of "p_rpos p" 1] by simp
  show "contents p = buf p (p_rpos p mod PIPE_BUFSIZE) # contents (p\<lparr>p_rpos := p_rpos p + 1\<rparr>)"
    using lt by (simp add: contents_def s pos_index upt_rec)
  show "pipe_ok (p\<lparr>p_rpos := p_rpos p + 1\<rparr>)"
    using assms(1) lt by (auto simp: pipe_ok_def s word_le_nat_alt)
qed

lemma mod_window: "i < b \<Longrightarrow> b - i < 4040 \<Longrightarrow> i mod 4040 \<noteq> b mod (4040::nat)"
proof
  assume "i < b" "b - i < 4040" "i mod 4040 = b mod 4040"
  then have "(b - i) mod 4040 = 0"
    by (simp add: mod_eq_dvd_iff_nat [symmetric])
  then show False
    using \<open>i < b\<close> \<open>b - i < 4040\<close> by simp
qed

lemma write_step:
  assumes "pipe_ok p" "\<not> is_full p" "unat (p_wpos p) + 1 < 2 ^ 32"
  shows "contents (p\<lparr>buf := (buf p)(p_wpos p mod PIPE_BUFSIZE := c), p_wpos := p_wpos p + 1\<rparr>) = contents p @ [c]"
    and "pipe_ok (p\<lparr>buf := (buf p)(p_wpos p mod PIPE_BUFSIZE := c), p_wpos := p_wpos p + 1\<rparr>)"
proof -
  let ?r = "unat (p_rpos p)" and ?w = "unat (p_wpos p)"
  have le: "?r \<le> ?w" and sz: "?w - ?r < 4040"
    using assms(1,2) is_full_iff [OF assms(1)] by (auto simp: pipe_ok_def word_le_nat_alt)
  have s: "unat (p_wpos p + 1) = Suc ?w"
    using unat_add_lt [of "p_wpos p" 1] assms(3) by simp
  have idx: "(of_nat (i mod 4040) :: u32) \<noteq> of_nat (?w mod 4040)" if "?r \<le> i" "i < ?w" for i
  proof
    assume "(of_nat (i mod 4040) :: u32) = of_nat (?w mod 4040)"
    then have "unat (of_nat (i mod 4040) :: u32) = unat (of_nat (?w mod 4040) :: u32)"
      by simp
    then have "i mod 4040 = ?w mod 4040"
      by (simp add: unat_of_nat take_bit_nat_eq_self)
    then show False
      using mod_window [of i ?w] that sz by simp
  qed
  show "contents (p\<lparr>buf := (buf p)(p_wpos p mod PIPE_BUFSIZE := c), p_wpos := p_wpos p + 1\<rparr>) = contents p @ [c]"
    using le idx by (auto simp: contents_def s pos_index)
  show "pipe_ok (p\<lparr>buf := (buf p)(p_wpos p mod PIPE_BUFSIZE := c), p_wpos := p_wpos p + 1\<rparr>)"
    using le sz by (simp add: pipe_ok_def s word_le_nat_alt)
qed


lemma read_loop_correct:
  assumes "pipe_ok p"
  shows "\<exists>p'. read_loop m b ret p n = (ret + min n (length (contents p)),
      (\<lambda>x. if b + ret \<le> x \<and> x < b + ret + min n (length (contents p)) then contents p ! (x - b - ret) else m x), p') \<and>
    pipe_ok p' \<and> contents p' = drop n (contents p) \<and> isclosed p' = isclosed p \<and> p_wpos p' = p_wpos p"
  using assms
proof (induction n arbitrary: m ret p)
  case 0
  then show ?case by (auto simp: fun_eq_iff)
next
  case (Suc n)
  show ?case
  proof (cases "is_empty p")
    case True
    then have "contents p = []"
      using is_empty_iff [OF Suc.prems] by simp
    then show ?thesis
      using True Suc.prems by (auto simp: fun_eq_iff simp del: length_contents)
  next
    case False
    let ?c = "buf p (p_rpos p mod PIPE_BUFSIZE)" and ?p = "p\<lparr>p_rpos := p_rpos p + 1\<rparr>"
    have c: "contents p = ?c # contents ?p" and ok: "pipe_ok ?p"
      using read_step [OF Suc.prems False] by auto
    obtain p' where p': "read_loop (m(b + ret := ?c)) b (ret + 1) ?p n = (ret + 1 + min n (length (contents ?p)),
        (\<lambda>x. if b + (ret + 1) \<le> x \<and> x < b + (ret + 1) + min n (length (contents ?p)) then contents ?p ! (x - b - (ret + 1))
             else (m(b + ret := ?c)) x), p')"
      "pipe_ok p'" "contents p' = drop n (contents ?p)" "isclosed p' = isclosed ?p" "p_wpos p' = p_wpos ?p"
      using Suc.IH [OF ok, of "m(b + ret := ?c)" "ret + 1"] by blast
    have "(if b + (ret + 1) \<le> x \<and> x < b + (ret + 1) + min n (length (contents ?p)) then contents ?p ! (x - b - (ret + 1))
             else (m(b + ret := ?c)) x) =
          (if b + ret \<le> x \<and> x < b + ret + min (Suc n) (length (contents p)) then contents p ! (x - b - ret) else m x)" for x
    proof (cases "x \<le> b + ret")
      case True
      then show ?thesis unfolding c by (cases "x = b + ret") auto
    next
      case False
      then have "x - b - ret = Suc (x - b - (ret + 1))" by simp
      then show ?thesis unfolding c using False by (simp del: length_contents)
    qed
    then show ?thesis
      using p' False unfolding c by (simp del: length_contents)
  qed
qed

lemma write_loop_correct:
  assumes "pipe_ok p" "unat (p_wpos p) + n < 2 ^ 32"
  shows "\<exists>p'. write_loop m b ret p n =
      (if n \<le> 4040 - length (contents p) then Returns else Waits, ret + min n (4040 - length (contents p)), p') \<and>
    pipe_ok p' \<and> contents p' = contents p @ map (\<lambda>i. m (b + ret + i)) [0..<min n (4040 - length (contents p))] \<and>
    isclosed p' = isclosed p \<and> p_rpos p' = p_rpos p"
  using assms
proof (induction n arbitrary: ret p)
  case 0
  then show ?case by simp
next
  case (Suc n)
  show ?case
  proof (cases "is_full p")
    case True
    then show ?thesis
      using Suc.prems is_full_iff [OF Suc.prems(1)] by (simp del: length_contents)
  next
    case False
    let ?p = "p\<lparr>buf := (buf p)(p_wpos p mod PIPE_BUFSIZE := m (b + ret)), p_wpos := p_wpos p + 1\<rparr>"
    have c: "contents ?p = contents p @ [m (b + ret)]" and ok: "pipe_ok ?p"
      using write_step [OF Suc.prems(1) False] Suc.prems(2) by auto
    have "unat (p_wpos ?p) = Suc (unat (p_wpos p))"
      using unat_add_lt [of "p_wpos p" 1] Suc.prems(2) by simp
    then have n: "unat (p_wpos ?p) + n < 2 ^ 32"
      using Suc.prems(2) by simp
    have room: "length (contents p) < 4040"
      using False is_full_iff [OF Suc.prems(1)] Suc.prems(1) by (auto simp: pipe_ok_def)
    define k where "k = min n (4040 - length (contents ?p))"
    have k: "min (Suc n) (4040 - length (contents p)) = Suc k" "n \<le> 4040 - length (contents ?p) \<longleftrightarrow> Suc n \<le> 4040 - length (contents p)"
      using room unfolding k_def c by (auto simp del: length_contents)
    have "map (\<lambda>i. m (b + ret + i)) [0..<Suc k] = m (b + ret) # map (\<lambda>i. m (b + (ret + 1) + i)) [0..<k]"
      by (simp add: upt_conv_Cons map_Suc_upt [symmetric] del: upt_Suc)
    then show ?thesis
      using Suc.IH [OF ok n, of "ret + 1"] False k unfolding k_def [symmetric] by (simp add: c del: length_contents upt_Suc)
  qed
qed

text \<open>C31: A pipe is a bounded first-in first-out queue of bytes, while less than 4 GiB have gone through it.  A section of
  \<open>pipe_state_write\<close> appends as many bytes as there is room for and then returns or waits for a reader, a section of
  \<open>pipe_state_read\<close> takes the oldest bytes in order, waits if there are none, and returns 0 on a closed empty pipe.  A section wakes up the other side whenever it
  moved a byte, and a writer also before it waits.\<close>

theorem pipe_fifo:
  assumes "pipe_ok p" "unat (p_wpos p) + n < 2 ^ 32"
  shows "(\<exists>p'. pipe_write_section m b 0 n p =
       (if isclosed p then (Returns, 0, p', False)
        else (if n \<le> 4040 - length (contents p) then Returns else Waits, min n (4040 - length (contents p)), p', n > 0)) \<and>
       pipe_ok p' \<and> isclosed p' = isclosed p \<and>
       contents p' = contents p @ (if isclosed p then [] else map (\<lambda>i. m (b + i)) [0..<min n (4040 - length (contents p))])) \<and>
     (\<exists>p'. pipe_read_section m b n p =
       (if contents p = [] \<and> \<not> isclosed p then Waits else Returns, min n (length (contents p)),
        (\<lambda>x. if b \<le> x \<and> x < b + min n (length (contents p)) then contents p ! (x - b) else m x), p',
        min n (length (contents p)) > 0) \<and>
       pipe_ok p' \<and> isclosed p' = isclosed p \<and> contents p' = drop n (contents p))"
proof (rule conjI)
  show "\<exists>p'. pipe_write_section m b 0 n p =
       (if isclosed p then (Returns, 0, p', False)
        else (if n \<le> 4040 - length (contents p) then Returns else Waits, min n (4040 - length (contents p)), p', n > 0)) \<and>
       pipe_ok p' \<and> isclosed p' = isclosed p \<and>
       contents p' = contents p @ (if isclosed p then [] else map (\<lambda>i. m (b + i)) [0..<min n (4040 - length (contents p))])"
  proof (cases "isclosed p")
    case True
    then show ?thesis
      using assms(1) by (intro exI [of _ p]) (simp add: pipe_write_section_def)
  next
    case False
    then show ?thesis
      using write_loop_correct [OF assms, of m b 0] by (auto simp: pipe_write_section_def simp del: length_contents)
  qed
next
  show "\<exists>p'. pipe_read_section m b n p =
       (if contents p = [] \<and> \<not> isclosed p then Waits else Returns, min n (length (contents p)),
        (\<lambda>x. if b \<le> x \<and> x < b + min n (length (contents p)) then contents p ! (x - b) else m x), p',
        min n (length (contents p)) > 0) \<and>
       pipe_ok p' \<and> isclosed p' = isclosed p \<and> contents p' = drop n (contents p)"
  proof (cases "contents p = []")
    case True
    then show ?thesis
      using assms(1) is_empty_iff [OF assms(1)] by (auto simp: pipe_read_section_def fun_eq_iff simp del: length_contents)
  next
    case False
    then show ?thesis
      using read_loop_correct [OF assms(1), of m b 0 n, unfolded diff_zero] is_empty_iff [OF assms(1)]
      by (auto simp: pipe_read_section_def simp del: length_contents)
  qed
qed

definition demo_pipe :: pipe_state where
  "demo_pipe = \<lparr>p_rpos = 4039, p_wpos = 4042, buf = (\<lambda>i. if i = 4039 then 7 else if i = 0 then 8 else 9), isclosed = False, ref_count = 2\<rparr>"

theorem pipe_fifo_witness:
  "contents demo_pipe = [7, 8, 9] \<and>
   (\<exists>p'. pipe_read_section (\<lambda>_. 0) 100 2 demo_pipe = (Returns, 2, (\<lambda>x. if 100 \<le> x \<and> x < 102 then [7, 8, 9] ! (x - 100) else 0), p', True) \<and>
      contents p' = [9])"
proof -
  have c: "contents demo_pipe = [7, 8, 9]"
    by (simp add: contents_def demo_pipe_def upt_rec)
  have "pipe_ok demo_pipe" "unat (p_wpos demo_pipe) + 2 < 2 ^ 32"
    by (simp_all add: pipe_ok_def demo_pipe_def)
  from pipe_fifo [OF this, of "\<lambda>_. 0" 100] show ?thesis
    unfolding c by (auto simp: demo_pipe_def)
qed

text \<open>The positions are not reduced modulo the size of the buffer, and 2^32 is no multiple of it: when they wrap around, a
  byte written to a pipe that is far from full can overwrite one that was not read yet.\<close>

lemma pipe_wraparound_overwrites:
  assumes "p_rpos p = - 2896" "p_wpos p = 1"
  shows "\<not> is_full p \<and> p_wpos p mod PIPE_BUFSIZE = (p_rpos p + 1) mod PIPE_BUFSIZE"
  using assms by (simp add: is_full_def)

end
