(* ===== verification/Pipe_Fs.thy ===== *)
theory Pipe_Fs
  imports Vfs Pipe
begin

text \<open>
  The file system of pipes (\<^verbatim>\<open>kern/fs/pipe/pipe.c\<close>, \<^verbatim>\<open>pipe_root.c\<close>, \<^verbatim>\<open>pipe_inode.c\<close>): anonymous pipes, and named ones that are
  looked up in the root directory.  It provides the operations of the virtual file system layer for its inodes; the
  interpretation of \<open>inode_ops\<close> at the end shows that it keeps the layer's contract.

  \<open>pipe_vfs\<close> extends the state of the layer.  \<open>kblocks\<close> lists the results of the calls of \<^verbatim>\<open>kmalloc\<close> to come.  A pipe's semaphore
  and wait queues are those of \<open>Pipe\<close>: one process runs here, and a wait that nobody ends is interrupted.  \<open>pipe_locked\<close> is the
  semaphore \<^verbatim>\<open>pipe_sem\<close>; taking it a second time never returns, which is \<^const>\<open>None\<close>.
\<close>

datatype pin_type = PIN_RDONLY | PIN_WRONLY

record pipe_inode =
  pin_type :: pin_type
  pname :: "string option"
  reclaim_count :: int
  pstate :: addr

record pipe_vfs = vfs +
  pins :: "addr \<Rightarrow> pipe_inode"
  pstates :: "addr \<Rightarrow> pipe_state option"
  pipe_fs :: addr
  proot :: addr
  pipe_list :: "addr list"
  pipe_locked :: bool
  kblocks :: "addr option list"

type_synonym 'a pk = "'a pipe_vfs_scheme"

abbreviation upd_pin :: "addr \<Rightarrow> (pipe_inode \<Rightarrow> pipe_inode) \<Rightarrow> 'a pk \<Rightarrow> 'a pk" where
  "upd_pin n f k \<equiv> k\<lparr>pins := (pins k)(n := f (pins k n))\<rparr>"

definition kmalloc :: "'a pk \<Rightarrow> addr option \<times> 'a pk" where
  "kmalloc k = (case kblocks k of [] \<Rightarrow> (None, k) | b # bs \<Rightarrow> (b, k\<lparr>kblocks := bs\<rparr>))"

definition lock_pipe :: "'a pk \<Rightarrow> 'a pk option" where
  "lock_pipe k = (if pipe_locked k then None else Some (k\<lparr>pipe_locked := True\<rparr>))"

definition unlock_pipe :: "'a pk \<Rightarrow> 'a pk" where
  "unlock_pipe k = k\<lparr>pipe_locked := False\<rparr>"

subsection \<open>The states of the pipes\<close>

definition new_pipe_state :: "'a pk \<Rightarrow> addr option \<times> 'a pk" where
  "new_pipe_state k =
     (case kmalloc k of
        (None, k) \<Rightarrow> (None, k)
      | (Some s, k) \<Rightarrow> (Some s, k\<lparr>pstates := (pstates k)(s := pipe_state_create (Some (\<lambda>_. 0)))\<rparr>))"

definition acquire_state :: "addr \<Rightarrow> 'a pk \<Rightarrow> 'a pk option" where
  "acquire_state s k = do { p \<leftarrow> pstates k s; p \<leftarrow> pipe_state_acquire p; Some (k\<lparr>pstates := (pstates k)(s \<mapsto> p)\<rparr>) }"

definition release_state :: "addr \<Rightarrow> 'a pk \<Rightarrow> 'a pk option" where
  "release_state s k = do { p \<leftarrow> pstates k s; r \<leftarrow> pipe_state_release False False p; Some (k\<lparr>pstates := (pstates k)(s := r)\<rparr>) }"

subsection \<open>Pipe inodes\<close>

text \<open>\<open>vop_info(node, pipe_inode)\<close> checks the type of the inode.\<close>

definition vop_pin :: "addr \<Rightarrow> 'a pk \<Rightarrow> pipe_inode option" where
  "vop_pin n k = do { i \<leftarrow> inodes k n; kassert (in_type i = pipe_inode_info); Some (pins k n) }"

definition pipe_inode_open :: "addr \<Rightarrow> u32 \<Rightarrow> 'a pk \<Rightarrow> (int \<times> 'a pk) option" where
  "pipe_inode_open n open_flags k =
     (if open_flags AND (O_TRUNC OR O_APPEND) \<noteq> 0 then Some (- E_INVAL, k)
      else do {
        pin \<leftarrow> vop_pin n k;
        (let acc = open_flags AND O_ACCMODE in
         Some (if acc = O_RDONLY then if pin_type pin = PIN_RDONLY then 0 else - E_INVAL
               else if acc = O_WRONLY then if pin_type pin = PIN_WRONLY then 0 else - E_INVAL
               else - E_INVAL, k))
      })"

definition pipe_inode_close :: "addr \<Rightarrow> 'a pk \<Rightarrow> (int \<times> 'a pk) option" where
  "pipe_inode_close n k = do {
     pin \<leftarrow> vop_pin n k;
     p \<leftarrow> pstates k (pstate pin);
     p \<leftarrow> pipe_state_close p;
     Some (0, k\<lparr>pstates := (pstates k)(pstate pin \<mapsto> p)\<rparr>)
   }"

definition pipe_inode_read :: "addr \<Rightarrow> iobuf \<Rightarrow> 'a pk \<Rightarrow> (int \<times> iobuf \<times> 'a pk) option" where
  "pipe_inode_read n iob k = do {
     pin \<leftarrow> vop_pin n k;
     (if pin_type pin \<noteq> PIN_RDONLY then Some (- E_INVAL, iob, k)
      else do {
        p \<leftarrow> pstates k (pstate pin);
        (let (_, ret, m, p) = pipe_state_read (kmem k) (io_base iob) (io_resid iob) p [(False, id)];
             k = k\<lparr>kmem := m, pstates := (pstates k)(pstate pin \<mapsto> p)\<rparr>
         in do {
           iob \<leftarrow> (if ret \<noteq> 0 then iobuf_skip iob ret else Some iob);
           Some (0, iob, k)
         })
      })
   }"

definition pipe_inode_write :: "addr \<Rightarrow> iobuf \<Rightarrow> 'a pk \<Rightarrow> (int \<times> iobuf \<times> 'a pk) option" where
  "pipe_inode_write n iob k = do {
     pin \<leftarrow> vop_pin n k;
     (if pin_type pin \<noteq> PIN_WRONLY then Some (- E_INVAL, iob, k)
      else do {
        p \<leftarrow> pstates k (pstate pin);
        (let (_, ret, p) = pipe_state_write (kmem k) (io_base iob) 0 (io_resid iob) p [(False, id)];
             k = k\<lparr>pstates := (pstates k)(pstate pin \<mapsto> p)\<rparr>
         in do {
           iob \<leftarrow> (if ret \<noteq> 0 then iobuf_skip iob ret else Some iob);
           Some (0, iob, k)
         })
      })
   }"

abbreviation S_IFCHR :: u32 where "S_IFCHR \<equiv> 0x4000"

definition pipe_inode_gettype :: "addr \<Rightarrow> 'a pk \<Rightarrow> (int \<times> u32 \<times> 'a pk) option" where
  "pipe_inode_gettype n k = Some (0, S_IFCHR, k)"

definition pipe_inode_fstat :: "addr \<Rightarrow> 'a pk \<Rightarrow> (int \<times> stat \<times> 'a pk) option" where
  "pipe_inode_fstat n k = do {
     inode_check n k;
     (ret, mode, k) \<leftarrow> pipe_inode_gettype n k;
     (if ret \<noteq> 0 then Some (ret, \<lparr>st_mode = mode, st_nlinks = 0, st_blocks = 0, st_size = 0\<rparr>, k)
      else do {
        pin \<leftarrow> vop_pin n k;
        p \<leftarrow> pstates k (pstate pin);
        Some (0, \<lparr>st_mode = mode, st_nlinks = 1, st_blocks = 0, st_size = unat (pipe_state_size p (pin_type pin = PIN_WRONLY))\<rparr>, k)
      })
   }"

text \<open>Both the name and the zero behind it are copied, without \<open>iobuf_move\<close>.\<close>

definition pipe_inode_namefile :: "addr \<Rightarrow> iobuf \<Rightarrow> 'a pk \<Rightarrow> (int \<times> iobuf \<times> 'a pk) option" where
  "pipe_inode_namefile n iob k = do {
     pin \<leftarrow> vop_pin n k;
     (let bs = (case pname pin of None \<Rightarrow> [] | Some s \<Rightarrow> map of_char s); len = length bs in
      if io_resid iob < len + 1 then Some (- E_NO_MEM, iob, k)
      else let k = k\<lparr>kmem := (\<lambda>x. if io_base iob \<le> x \<and> x < io_base iob + len + 1
                                  then (bs @ [0]) ! (x - io_base iob) else kmem k x)\<rparr>
      in do { iob \<leftarrow> iobuf_skip iob (len + 1); Some (0, iob, k) })
   }"

definition pipe_inode_reclaim :: "addr \<Rightarrow> 'a pk \<Rightarrow> (int \<times> 'a pk) option" where
  "pipe_inode_reclaim n k = do {
     pin \<leftarrow> vop_pin n k;
     (busy, k) \<leftarrow>
       (if pname pin \<noteq> None then do {
          k \<leftarrow> lock_pipe k;
          kassert (reclaim_count (pins k n) > 0);
          (let k = upd_pin n (\<lambda>pin. pin\<lparr>reclaim_count := reclaim_count pin - 1\<rparr>) k in do {
             i \<leftarrow> inodes k n;
             Some (if reclaim_count (pins k n) \<noteq> 0 \<or> inode_ref_count i \<noteq> 0
                   then (True, unlock_pipe k)
                   else (False, unlock_pipe (k\<lparr>pipe_list := remove1 n (pipe_list k)\<rparr>)))
           })
        }
        else Some (False, k));
     (if busy then Some (- E_BUSY, k)
      else do {
        k \<leftarrow> release_state (pstate (pins k n)) k;
        k \<leftarrow> inode_kill n k;
        Some (0, k)
      })
   }"

definition pipe_inode_init :: "addr \<Rightarrow> string option \<Rightarrow> addr \<Rightarrow> bool \<Rightarrow> 'a pk \<Rightarrow> 'a pk" where
  "pipe_inode_init n name state readonly k =
     k\<lparr>pins := (pins k)(n := \<lparr>pin_type = (if readonly then PIN_RDONLY else PIN_WRONLY), pname = name, reclaim_count = 1, pstate = state\<rparr>)\<rparr>"

text \<open>The copy of the name and the inode are allocated.\<close>

definition pipe_create_inode :: "addr \<Rightarrow> string option \<Rightarrow> addr \<Rightarrow> bool \<Rightarrow> 'a pk \<Rightarrow> (addr option \<times> 'a pk) option" where
  "pipe_create_inode fs name state readonly k =
     (let (named, k) = (case name of None \<Rightarrow> (True, k) | Some s \<Rightarrow> let (b, k) = kmalloc k in (b \<noteq> None, k)) in
      if \<not> named then Some (None, k)
      else case kmalloc k of
        (None, k) \<Rightarrow> Some (None, k)
      | (Some n, k) \<Rightarrow> do {
          let k = snd (alloc_inode pipe_inode_info (Some n) k);
          k \<leftarrow> inode_init n (Some fs) k;
          Some (Some n, pipe_inode_init n name state readonly k)
        })"

subsection \<open>The root directory\<close>

fun lookup_loop :: "string \<Rightarrow> addr list \<Rightarrow> addr option \<times> addr option \<times> 'a pk \<Rightarrow> (addr option \<times> addr option \<times> 'a pk) option" where
  "lookup_loop name [] s = Some s"
| "lookup_loop name (n # ns) (rnode, wnode, k) =
     (if pname (pins k n) = Some name then do {
        (rnode, wnode) \<leftarrow> (case pin_type (pins k n) of
            PIN_RDONLY \<Rightarrow> do { kassert (rnode = None); Some (Some n, wnode) }
          | PIN_WRONLY \<Rightarrow> do { kassert (wnode = None); Some (rnode, Some n) });
        (c, k) \<leftarrow> inode_ref_inc n k;
        lookup_loop name ns (rnode, wnode, if c = 1 then upd_pin n (\<lambda>pin. pin\<lparr>reclaim_count := reclaim_count pin + 1\<rparr>) k else k)
      }
      else lookup_loop name ns (rnode, wnode, k))"

definition lookup_pipe_nolock :: "string \<Rightarrow> 'a pk \<Rightarrow> (addr option \<times> addr option \<times> 'a pk) option" where
  "lookup_pipe_nolock name k = lookup_loop name (pipe_list k) (None, None, k)"

definition pipe_path_ok :: "string \<Rightarrow> bool" where
  "pipe_path_ok s \<longleftrightarrow> (case s of c # d # _ \<Rightarrow> (c = CHR ''r'' \<or> c = CHR ''w'') \<and> d = CHR ''_'' | _ \<Rightarrow> False)"

text \<open>The operations of the inodes other than those of the root directory; \<open>inode_ref_dec\<close>, which these call, needs
  \<open>op_reclaim\<close> only.  The null operations \<^verbatim>\<open>NULL_VOP_PASS\<close>, \<^verbatim>\<open>NULL_VOP_INVAL\<close> and \<^verbatim>\<open>NULL_VOP_NOTDIR\<close> return a constant.\<close>

definition is_pin :: "addr \<Rightarrow> 'a pk \<Rightarrow> bool" where
  "is_pin n k \<longleftrightarrow> (case inodes k n of None \<Rightarrow> False | Some i \<Rightarrow> in_type i = pipe_inode_info)"

definition null_vop :: "addr \<Rightarrow> int \<Rightarrow> 'a pk \<Rightarrow> (int \<times> 'a pk) option" where
  "null_vop n e k = Some (if is_pin n k then e else - E_INVAL, k)"

definition pipe_node_ops :: "'a pk vfs_ops" where
  "pipe_node_ops =
     \<lparr>op_open = (\<lambda>n fl k. if is_pin n k then pipe_inode_open n fl k else Some (- E_INVAL, k)),
      op_close = (\<lambda>n k. if is_pin n k then pipe_inode_close n k else Some (- E_INVAL, k)),
      op_read = (\<lambda>n iob k. if is_pin n k then pipe_inode_read n iob k else Some (- E_INVAL, iob, k)),
      op_write = (\<lambda>n iob k. if is_pin n k then pipe_inode_write n iob k else Some (- E_INVAL, iob, k)),
      op_fstat = (\<lambda>n k. if is_pin n k then pipe_inode_fstat n k
                        else Some (- E_INVAL, \<lparr>st_mode = 0, st_nlinks = 0, st_blocks = 0, st_size = 0\<rparr>, k)),
      op_fsync = (\<lambda>n. null_vop n 0),
      op_mkdir = (\<lambda>n s. null_vop n (- E_NOTDIR)),
      op_link = (\<lambda>n s m. null_vop n (- E_NOTDIR)),
      op_rename = (\<lambda>n s m t. null_vop n (- E_NOTDIR)),
      op_readlink = (\<lambda>n iob k. Some (- E_INVAL, iob, k)),
      op_symlink = (\<lambda>n s t. null_vop n (- E_NOTDIR)),
      op_namefile = (\<lambda>n iob k. if is_pin n k then pipe_inode_namefile n iob k else Some (- E_INVAL, iob, k)),
      op_getdirentry = (\<lambda>n iob k. Some (- E_INVAL, iob, k)),
      op_reclaim = (\<lambda>n k. if is_pin n k then pipe_inode_reclaim n k else Some (- E_INVAL, k)),
      op_gettype = (\<lambda>n k. if is_pin n k then pipe_inode_gettype n k else Some (- E_INVAL, 0, k)),
      op_tryseek = (\<lambda>n off. null_vop n (- E_INVAL)),
      op_truncate = (\<lambda>n len. null_vop n (- E_INVAL)),
      op_create = (\<lambda>n s excl k. Some (- E_NOTDIR, None, k)),
      op_unlink = (\<lambda>n s. null_vop n (- E_NOTDIR)),
      op_lookup = (\<lambda>n s k. Some (- E_NOTDIR, None, k)),
      op_lookup_parent = (\<lambda>n s k. Some (- E_NOTDIR, None, [], k)),
      fs_sync = (\<lambda>fs k. Some (0, k)),
      fs_get_root = (\<lambda>fs k. if fs = pipe_fs k then do { k \<leftarrow> ref_inc (proot k) k; Some (Some (proot k), k) } else None),
      fs_unmount = (\<lambda>fs k. Some (- E_INVAL, k)),
      fs_cleanup = (\<lambda>fs k. Some k)\<rparr>"

text \<open>The part of \<open>pipe_root_create\<close> that makes a new inode for a new pipe, or for the pipe whose other end is \<open>node1\<close>.\<close>

definition pipe_root_new :: "addr \<Rightarrow> string \<Rightarrow> bool \<Rightarrow> addr option \<Rightarrow> 'a pk \<Rightarrow> (int \<times> addr option \<times> 'a pk) option" where
  "pipe_root_new fs name readonly node1 k = do {
     (state, k) \<leftarrow>
       (case node1 of
          None \<Rightarrow> Some (new_pipe_state k)
        | Some m \<Rightarrow> do {
            pin \<leftarrow> vop_pin m k;
            k \<leftarrow> acquire_state (pstate pin) k;
            Some (Some (pstate pin), k)
          });
     (case state of
        None \<Rightarrow> Some (- E_NO_MEM, None, k)
      | Some s \<Rightarrow> do {
          (new_node, k) \<leftarrow> pipe_create_inode fs (Some name) s readonly k;
          (case new_node of
             None \<Rightarrow> do { k \<leftarrow> release_state s k; Some (- E_NO_MEM, None, k) }
           | Some n \<Rightarrow> Some (0, Some n, k\<lparr>pipe_list := n # pipe_list k\<rparr>))
        })
   }"

definition pipe_root_create :: "addr \<Rightarrow> string \<Rightarrow> bool \<Rightarrow> 'a pk \<Rightarrow> (int \<times> addr option \<times> 'a pk) option" where
  "pipe_root_create dir name excl k = do {
     kassert (pipe_path_ok name);
     i \<leftarrow> inodes k dir;
     fs \<leftarrow> in_fs i;
     let readonly = (hd name = CHR ''r'');
     let name = drop 2 name;
     k \<leftarrow> lock_pipe k;
     (rnode, wnode, k) \<leftarrow> lookup_pipe_nolock name k;
     let node0 = (if readonly then rnode else wnode);
     let node1 = (if readonly then wnode else rnode);
     (ret, node, k) \<leftarrow>
       (case node0 of
          Some n \<Rightarrow>
            if excl then do { k \<leftarrow> ref_dec pipe_node_ops n k; Some (- E_EXISTS, None, k) }
            else Some (0, Some n, k)
        | None \<Rightarrow> pipe_root_new fs name readonly node1 k);
     let k = unlock_pipe k;
     k \<leftarrow> (case node1 of None \<Rightarrow> Some k | Some m \<Rightarrow> ref_dec pipe_node_ops m k);
     Some (ret, node, k)
   }"

definition pipe_root_lookup :: "addr \<Rightarrow> string \<Rightarrow> 'a pk \<Rightarrow> (int \<times> addr option \<times> 'a pk) option" where
  "pipe_root_lookup dir path k = do {
     kassert (pipe_path_ok path);
     k \<leftarrow> lock_pipe k;
     (rnode, wnode, k) \<leftarrow> lookup_pipe_nolock (drop 2 path) k;
     let k = unlock_pipe k;
     let node0 = (if hd path = CHR ''r'' then rnode else wnode);
     let node1 = (if hd path = CHR ''r'' then wnode else rnode);
     k \<leftarrow> (case node1 of None \<Rightarrow> Some k | Some m \<Rightarrow> ref_dec pipe_node_ops m k);
     Some (if node0 = None then (- E_NOENT, None, k) else (0, node0, k))
   }"

definition pipe_root_lookup_parent :: "addr \<Rightarrow> string \<Rightarrow> 'a pk \<Rightarrow> (int \<times> addr option \<times> string \<times> 'a pk) option" where
  "pipe_root_lookup_parent dir path k = do {
     kassert (pipe_path_ok path);
     k \<leftarrow> ref_inc dir k;
     Some (0, Some dir, path, k)
   }"

text \<open>All operations: those of the root directory and the others.\<close>

definition pipe_ops :: "'a pk vfs_ops" where
  "pipe_ops = pipe_node_ops
     \<lparr>op_create := (\<lambda>n s excl k. if is_pin n k then Some (- E_NOTDIR, None, k) else pipe_root_create n s excl k),
      op_lookup := (\<lambda>n s k. if is_pin n k then Some (- E_NOTDIR, None, k) else pipe_root_lookup n s k),
      op_lookup_parent := (\<lambda>n s k. if is_pin n k then Some (- E_NOTDIR, None, [], k) else pipe_root_lookup_parent n s k)\<rparr>"

subsection \<open>Starting the file system, anonymous pipes\<close>

definition pipe_create_root :: "addr \<Rightarrow> 'a pk \<Rightarrow> (addr option \<times> 'a pk) option" where
  "pipe_create_root fs k =
     (case kmalloc k of
        (None, k) \<Rightarrow> Some (None, k)
      | (Some n, k) \<Rightarrow> do {
          let k = snd (alloc_inode pipe_root_info (Some n) k);
          k \<leftarrow> inode_init n (Some fs) k;
          Some (Some n, k)
        })"

definition pipe_fs_init :: "addr \<Rightarrow> 'a pk \<Rightarrow> 'a pk option" where
  "pipe_fs_init fs k = do {
     (root, k) \<leftarrow> pipe_create_root fs k;
     root \<leftarrow> root;
     Some (k\<lparr>pipe_fs := fs, proot := root, pipe_locked := False, pipe_list := []\<rparr>)
   }"

definition pipe_init :: "'a pk \<Rightarrow> 'a pk option" where
  "pipe_init k =
     (let (fs, k) = kmalloc k in do {
        fs \<leftarrow> fs;
        k \<leftarrow> pipe_fs_init fs k;
        (let (b1, k) = kmalloc k; (b2, k) = kmalloc k in do {
           (ret, k) \<leftarrow> vfs_add_fs ''pipe'' (Some fs) (b1 \<noteq> None) b2 k;
           kassert (ret = 0);
           Some k
         })
      })"

definition pipe_open :: "'a pk \<Rightarrow> (int \<times> (addr \<times> addr) option \<times> 'a pk) option" where
  "pipe_open k = do {
     (ret, root, k) \<leftarrow> vfs_get_root pipe_ops ''pipe'' k;
     (if ret \<noteq> 0 then Some (ret, None, k)
      else do {
        root \<leftarrow> root;
        (ret, nodes, k) \<leftarrow>
          (case new_pipe_state k of
             (None, k) \<Rightarrow> Some (- E_NO_MEM, None, k)
           | (Some s, k) \<Rightarrow> do {
               i \<leftarrow> inodes k root;
               fs \<leftarrow> in_fs i;
               (node0, k) \<leftarrow> pipe_create_inode fs None s True k;
               (case node0 of
                  None \<Rightarrow> do { k \<leftarrow> release_state s k; Some (- E_NO_MEM, None, k) }
                | Some r \<Rightarrow> do {
                    k \<leftarrow> acquire_state s k;
                    (node1, k) \<leftarrow> pipe_create_inode fs None s False k;
                    (case node1 of
                       None \<Rightarrow> do {
                         k \<leftarrow> ref_dec pipe_ops r k;
                         k \<leftarrow> release_state s k;
                         Some (- E_NO_MEM, None, k)
                       }
                     | Some w \<Rightarrow> do {
                         (_, k) \<leftarrow> inode_open_inc r k;
                         (_, k) \<leftarrow> inode_open_inc w k;
                         Some (0, Some (r, w), k)
                       })
                  })
             });
        k \<leftarrow> ref_dec pipe_ops root k;
        Some (ret, nodes, k)
      })
   }"

subsection \<open>The invariant of the file system\<close>

definition sharers :: "'a pk \<Rightarrow> addr \<Rightarrow> addr set" where
  "sharers k s = {n. is_pin n k \<and> pstate (pins k n) = s}"

text \<open>Inodes are the root directory or pipe inodes with a reference.\<close>

definition nodes_ok :: "'a pk \<Rightarrow> bool" where
  "nodes_ok k \<longleftrightarrow> (\<forall>n i. inodes k n = Some i \<longrightarrow> in_fs i = Some (pipe_fs k) \<and>
       (n = proot k \<and> in_type i = pipe_root_info \<or> n \<noteq> proot k \<and> in_type i = pipe_inode_info \<and> 0 < inode_ref_count i)) \<and>
     inodes k (proot k) \<noteq> None \<and> finite {n. is_pin n k}"

text \<open>The count of a pipe's state is the number of inodes that share it.\<close>

definition shares_ok :: "'a pk \<Rightarrow> bool" where
  "shares_ok k \<longleftrightarrow> (\<forall>s. case pstates k s of None \<Rightarrow> sharers k s = {} | Some p \<Rightarrow> ref_count p = int (card (sharers k s)))"

text \<open>The root directory lists the named inodes, at most one for each name and direction.\<close>

definition names_ok :: "'a pk \<Rightarrow> bool" where
  "names_ok k \<longleftrightarrow> set (pipe_list k) = {n. is_pin n k \<and> pname (pins k n) \<noteq> None} \<and> distinct (pipe_list k) \<and>
     (\<forall>n. is_pin n k \<longrightarrow> reclaim_count (pins k n) = 1) \<and>
     inj_on (\<lambda>n. (pname (pins k n), pin_type (pins k n))) (set (pipe_list k))"

definition blocks_ok :: "'a pk \<Rightarrow> bool" where
  "blocks_ok k \<longleftrightarrow> distinct (filter (\<lambda>b. b \<noteq> None) (kblocks k)) \<and>
     (\<forall>b. Some b \<in> set (kblocks k) \<longrightarrow> inodes k b = None \<and> pstates k b = None)"

definition pipe_inv0 :: "'a pk \<Rightarrow> bool" where
  "pipe_inv0 k \<longleftrightarrow> nodes_ok k \<and> shares_ok k \<and> names_ok k \<and> blocks_ok k"

definition pipe_inv :: "'a pk \<Rightarrow> bool" where
  "pipe_inv k \<longleftrightarrow> pipe_inv0 k \<and> \<not> pipe_locked k"

definition is_pipe_fs :: "addr \<Rightarrow> 'a pk \<Rightarrow> bool" where
  "is_pipe_fs fs k \<longleftrightarrow> fs = pipe_fs k"

definition pipe_subpath_ok :: "string \<Rightarrow> bool" where
  "pipe_subpath_ok s \<longleftrightarrow> s = [] \<or> pipe_path_ok s"

lemma more_pipe:
  assumes "vfs.more k' = vfs.more (k :: 'a pk)"
  shows "pins k' = pins k" "pstates k' = pstates k" "pipe_fs k' = pipe_fs k" "proot k' = proot k" "pipe_list k' = pipe_list k"
    "pipe_locked k' = pipe_locked k" "kblocks k' = kblocks k"
  using assms by (cases k; cases k'; simp)+

lemma is_pin_static:
  assumes "same_static k (k' :: 'a pk)"
  shows "is_pin n k' \<longleftrightarrow> is_pin n k" "inodes k' n = None \<longleftrightarrow> inodes k n = None"
proof -
  have "map_option (\<lambda>i. (in_type i, in_fs i)) (inodes k' n) = map_option (\<lambda>i. (in_type i, in_fs i)) (inodes k n)"
    using assms by (simp add: same_static_def)
  then show "is_pin n k' \<longleftrightarrow> is_pin n k" "inodes k' n = None \<longleftrightarrow> inodes k n = None"
    by (auto simp: is_pin_def split: option.splits)
qed

lemma node_okD:
  assumes "nodes_ok k" "inodes k n = Some i"
  shows "in_fs i = Some (pipe_fs k)" "n = proot k \<and> in_type i = pipe_root_info \<or> n \<noteq> proot k \<and> in_type i = pipe_inode_info \<and> 0 < inode_ref_count i"
  using assms by (auto simp: nodes_ok_def)

lemma nodes_ok_static:
  assumes "nodes_ok k" "same_static k (k' :: 'a pk)"
  shows "nodes_ok k'"
proof -
  have m: "vfs.more k' = vfs.more k"
    using assms(2) by (simp add: same_static_def)
  have "in_fs i = Some (pipe_fs k) \<and> (n = proot k \<and> in_type i = pipe_root_info \<or> n \<noteq> proot k \<and> in_type i = pipe_inode_info \<and> 0 < inode_ref_count i)"
    if i: "inodes k' n = Some i" for n i
  proof -
    have "map_option (\<lambda>i. (in_type i, in_fs i)) (inodes k n) = Some (in_type i, in_fs i)" "0 < refs k' n \<longleftrightarrow> 0 < refs k n"
      using assms(2) i unfolding same_static_def by (metis option.simps(9)) (use assms(2) in \<open>simp add: same_static_def\<close>)
    then obtain j where j: "inodes k n = Some j" "in_type j = in_type i" "in_fs j = in_fs i" "0 < inode_ref_count i \<longleftrightarrow> 0 < inode_ref_count j"
      using i by (auto simp: refs_def)
    show ?thesis
      using node_okD [OF assms(1) j(1)] j(2-4) by auto
  qed
  then show ?thesis
    using assms(1) is_pin_static [OF assms(2)] more_pipe [OF m] by (simp add: nodes_ok_def)
qed

lemma pipe_inv0_static:
  assumes "pipe_inv0 k" "same_static k (k' :: 'a pk)"
  shows "pipe_inv0 k'"
proof -
  have m: "vfs.more k' = vfs.more k"
    using assms(2) by (simp add: same_static_def)
  note e = more_pipe [OF m] is_pin_static [OF assms(2)]
  have "sharers k' = sharers k"
    by (rule ext) (simp add: sharers_def e)
  then show ?thesis
    using assms(1) nodes_ok_static [OF _ assms(2)]
    unfolding pipe_inv0_def shares_ok_def names_ok_def blocks_ok_def e by metis
qed

lemma pipe_inv_static:
  assumes "pipe_inv k" "same_static k (k' :: 'a pk)"
  shows "pipe_inv k'"
proof -
  have "vfs.more k' = vfs.more k"
    using assms(2) by (simp add: same_static_def)
  then show ?thesis
    using pipe_inv0_static [OF _ assms(2)] assms(1) more_pipe(6) by (auto simp: pipe_inv_def)
qed

lemma is_pinD: "is_pin n k \<Longrightarrow> \<exists>i. inodes k n = Some i \<and> in_type i = pipe_inode_info"
  by (auto simp: is_pin_def split: option.splits)

lemma vop_pin_eq: "is_pin n k \<Longrightarrow> vop_pin n k = Some (pins k n)"
  by (auto simp: vop_pin_def dest: is_pinD)

lemma pin_state:
  assumes "pipe_inv0 k" "is_pin n k"
  obtains p where "pstates k (pstate (pins k n)) = Some p" "0 < ref_count p"
    "ref_count p = int (card (sharers k (pstate (pins k n))))"
proof -
  have mem: "n \<in> sharers k (pstate (pins k n))"
    using assms(2) by (simp add: sharers_def)
  have "case pstates k (pstate (pins k n)) of None \<Rightarrow> sharers k (pstate (pins k n)) = {}
      | Some p \<Rightarrow> ref_count p = int (card (sharers k (pstate (pins k n))))"
    using assms(1) unfolding pipe_inv0_def shares_ok_def by blast
  then obtain p where p: "pstates k (pstate (pins k n)) = Some p" "ref_count p = int (card (sharers k (pstate (pins k n))))"
    using mem by (cases "pstates k (pstate (pins k n))") auto
  have "finite (sharers k (pstate (pins k n)))"
    using assms(1) by (auto simp: pipe_inv0_def nodes_ok_def sharers_def intro: finite_subset [of _ "{n. is_pin n k}"])
  then have "0 < card (sharers k (pstate (pins k n)))"
    using mem card_gt_0_iff by blast
  then show thesis using that p by simp
qed

text \<open>Changing the contents of a pipe.\<close>

lemma pipe_data_step:
  fixes k :: "'a pk"
  assumes "pipe_inv k" "pstates k s = Some p" "ref_count p' = ref_count p"
  shows "fs_step pipe_inv is_pipe_fs None k (k\<lparr>kmem := m, pstates := (pstates k)(s \<mapsto> p')\<rparr>)"
    "fs_step pipe_inv is_pipe_fs None k (k\<lparr>pstates := (pstates k)(s \<mapsto> p')\<rparr>)"
proof -
  have *: "fs_step pipe_inv is_pipe_fs None k k'" if k': "k' = k\<lparr>kmem := m', pstates := (pstates k)(s \<mapsto> p')\<rparr>" for k' m'
  proof -
    have pin: "is_pin n k' = is_pin n k" for n by (simp add: is_pin_def k')
    have f: "inodes k' = inodes k" "pins k' = pins k" "pipe_fs k' = pipe_fs k" "proot k' = proot k" "pipe_list k' = pipe_list k"
        "pipe_locked k' = pipe_locked k" "kblocks k' = kblocks k" "pstates k' = (pstates k)(s \<mapsto> p')"
      by (simp_all add: k')
    have sh: "sharers k' = sharers k" by (rule ext) (simp only: sharers_def pin f)
    have "shares_ok k'"
      unfolding shares_ok_def sh f
    proof
      fix x
      show "case ((pstates k)(s \<mapsto> p')) x of None \<Rightarrow> sharers k x = {} | Some p \<Rightarrow> ref_count p = int (card (sharers k x))"
        using assms spec [of _ x] by (cases "x = s") (auto simp: pipe_inv_def pipe_inv0_def shares_ok_def dest: spec [of _ x])
    qed
    then have "pipe_inv k'"
      using assms(1,2) unfolding pipe_inv_def pipe_inv0_def nodes_ok_def names_ok_def blocks_ok_def pin f by auto
    then show ?thesis
      by (auto simp: fs_step_def cnt_step_def vfs_frame_def keeps_fs_def is_pipe_fs_def k' refs_def opens_def fs_of_def)
  qed
  show "fs_step pipe_inv is_pipe_fs None k (k\<lparr>kmem := m, pstates := (pstates k)(s \<mapsto> p')\<rparr>)"
    by (rule *) (rule refl)
  show "fs_step pipe_inv is_pipe_fs None k (k\<lparr>pstates := (pstates k)(s \<mapsto> p')\<rparr>)"
    by (rule * [of _ "kmem k"]) simp
qed

lemma fs_step_refl: "fsinv k \<Longrightarrow> fs_step fsinv is_fs None k k"
  by (simp add: fs_step_def cnt_step_def vfs_frame_def keeps_fs_def)

subsection \<open>Operations on one inode\<close>

lemma read_loop_bounds:
  "read_loop m b ret p n = (r, m', p') \<Longrightarrow> r \<le> ret + n \<and> ref_count p' = ref_count p"
  by (induction m b ret p n rule: read_loop.induct) (auto split: if_splits)

lemma write_loop_bounds:
  "write_loop m b ret p n = (oc, r, p') \<Longrightarrow> r \<le> ret + n \<and> ref_count p' = ref_count p"
  by (induction m b ret p n rule: write_loop.induct) (auto split: if_splits)

lemma pipe_state_read_bounds:
  assumes "pipe_state_read m b n p [(False, id)] = (oc, r, m', p')"
  shows "r \<le> n \<and> ref_count p' = ref_count p"
proof -
  obtain r1 m1 p1 where l: "read_loop m b 0 p n = (r1, m1, p1)" by (cases "read_loop m b 0 p n") auto
  show ?thesis
    using assms read_loop_bounds [OF l] by (auto simp: pipe_read_section_def l split: if_splits)
qed

lemma pipe_state_write_bounds:
  assumes "pipe_state_write m b 0 n p [(False, id)] = (oc, r, p')"
  shows "r \<le> n \<and> ref_count p' = ref_count p"
proof -
  obtain oc1 r1 p1 where l: "write_loop m b 0 p n = (oc1, r1, p1)" by (cases "write_loop m b 0 p n") auto
  show ?thesis
    using assms write_loop_bounds [OF l] by (cases oc1) (auto simp: pipe_write_section_def l split: if_splits)
qed

lemma skip_advanced:
  assumes "r \<le> io_resid iob"
  shows "\<exists>iob' m. (if r \<noteq> 0 then iobuf_skip iob r else Some iob) = Some iob' \<and> advanced iob m iob'"
proof (cases "r = 0")
  case True
  have "advanced iob 0 iob" by (simp add: advanced_def)
  then show ?thesis using True by auto
next
  case False
  have "iobuf_skip iob r = Some (iob\<lparr>io_base := io_base iob + r, io_offset := io_offset iob + int r, io_resid := io_resid iob - r\<rparr>)"
    using assms by (simp add: iobuf_skip_def)
  moreover from this have "advanced iob r (iob\<lparr>io_base := io_base iob + r, io_offset := io_offset iob + int r, io_resid := io_resid iob - r\<rparr>)"
    by (simp add: iobuf_skip_advanced)
  ultimately show ?thesis using False by auto
qed

lemma pin_state_ex:
  assumes "pipe_inv k" "is_pin n k"
  shows "\<exists>p. pstates k (pstate (pins k n)) = Some p \<and> 0 < ref_count p"
  using pin_state [of k n thesis for thesis] assms unfolding pipe_inv_def by blast

lemma pipe_read_ok:
  assumes "pipe_inv k" "is_pin n k"
  shows "\<exists>r iob' k'. pipe_inode_read n iob k = Some (r, iob', k') \<and> (\<exists>m. advanced iob m iob') \<and> fs_step pipe_inv is_pipe_fs None k k'"
proof -
  obtain p where p: "pstates k (pstate (pins k n)) = Some p"
    using pin_state_ex [OF assms] by blast
  obtain oc r m p' where rd: "pipe_state_read (kmem k) (io_base iob) (io_resid iob) p [(False, id)] = (oc, r, m, p')"
    by (cases "pipe_state_read (kmem k) (io_base iob) (io_resid iob) p [(False, id)]") auto
  note b = pipe_state_read_bounds [OF rd]
  obtain iob' q where iob': "(if r \<noteq> 0 then iobuf_skip iob r else Some iob) = Some iob'" "advanced iob q iob'"
    using skip_advanced b by blast
  show ?thesis
  proof (cases "pin_type (pins k n) = PIN_RDONLY")
    case True
    then have "pipe_inode_read n iob k = Some (0, iob', k\<lparr>kmem := m, pstates := (pstates k)(pstate (pins k n) \<mapsto> p')\<rparr>)"
      using iob'(1) unfolding pipe_inode_read_def vop_pin_eq [OF assms(2)] by (simp add: p rd del: pipe_state_read.simps)
    then show ?thesis
      using pipe_data_step(1) [OF assms(1) p, of p' m] b iob'(2) by auto
  next
    case False
    have "advanced iob 0 iob" by (simp add: advanced_def)
    then show ?thesis
      using False fs_step_refl [of pipe_inv, OF assms(1)] by (auto simp: pipe_inode_read_def vop_pin_eq [OF assms(2)])
  qed
qed

lemma pipe_write_ok:
  assumes "pipe_inv k" "is_pin n k"
  shows "\<exists>r iob' k'. pipe_inode_write n iob k = Some (r, iob', k') \<and> (\<exists>m. advanced iob m iob') \<and> fs_step pipe_inv is_pipe_fs None k k'"
proof -
  obtain p where p: "pstates k (pstate (pins k n)) = Some p"
    using pin_state_ex [OF assms] by blast
  obtain oc r p' where wr: "pipe_state_write (kmem k) (io_base iob) 0 (io_resid iob) p [(False, id)] = (oc, r, p')"
    by (cases "pipe_state_write (kmem k) (io_base iob) 0 (io_resid iob) p [(False, id)]") auto
  note b = pipe_state_write_bounds [OF wr]
  obtain iob' q where iob': "(if r \<noteq> 0 then iobuf_skip iob r else Some iob) = Some iob'" "advanced iob q iob'"
    using skip_advanced b by blast
  show ?thesis
  proof (cases "pin_type (pins k n) = PIN_WRONLY")
    case True
    then have "pipe_inode_write n iob k = Some (0, iob', k\<lparr>pstates := (pstates k)(pstate (pins k n) \<mapsto> p')\<rparr>)"
      using iob'(1) unfolding pipe_inode_write_def vop_pin_eq [OF assms(2)] by (simp add: p wr del: pipe_state_write.simps)
    then show ?thesis
      using pipe_data_step(2) [OF assms(1) p, of p'] b iob'(2) by auto
  next
    case False
    have "advanced iob 0 iob" by (simp add: advanced_def)
    then show ?thesis
      using False fs_step_refl [of pipe_inv, OF assms(1)] by (auto simp: pipe_inode_write_def vop_pin_eq [OF assms(2)])
  qed
qed

lemma pipe_close_ok:
  assumes "pipe_inv k" "is_pin n k"
  shows "\<exists>r k'. pipe_inode_close n k = Some (r, k') \<and> fs_step pipe_inv is_pipe_fs None k k'"
proof -
  obtain p where p: "pstates k (pstate (pins k n)) = Some p" "0 < ref_count p"
    using pin_state_ex [OF assms] by blast
  then have "pipe_inode_close n k = Some (0, k\<lparr>pstates := (pstates k)(pstate (pins k n) \<mapsto> p\<lparr>isclosed := True\<rparr>)\<rparr>)"
    by (simp add: pipe_inode_close_def vop_pin_eq [OF assms(2)] pipe_state_close_def)
  then show ?thesis
    using pipe_data_step(2) [OF assms(1) p(1), of "p\<lparr>isclosed := True\<rparr>"] by simp
qed

lemma pipe_open_ok: "is_pin n k \<Longrightarrow> \<exists>r. pipe_inode_open n fl k = Some (r, k)"
  by (auto simp: pipe_inode_open_def vop_pin_eq Let_def)

lemma pipe_fstat_ok:
  assumes "pipe_inv k" "counts_ok k" "0 < refs k n" "is_pin n k"
  shows "\<exists>r st. pipe_inode_fstat n k = Some (r, st, k)"
proof -
  obtain p where "pstates k (pstate (pins k n)) = Some p"
    using pin_state_ex [OF assms(1,4)] by blast
  then show ?thesis
    using inode_check_ok [OF assms(2,3)] by (simp add: pipe_inode_fstat_def pipe_inode_gettype_def vop_pin_eq [OF assms(4)])
qed

subsection \<open>Releasing an inode\<close>

lemma sharers_finite: "nodes_ok k \<Longrightarrow> finite (sharers k s)"
  by (auto simp: nodes_ok_def sharers_def intro: finite_subset [of _ "{n. is_pin n k}"])

text \<open>What \<open>pipe_inode_reclaim\<close> leaves, field by field.\<close>

lemma reclaim_inv:
  fixes k :: "'a pk"
  assumes k: "pipe_inv k" and n: "is_pin n k"
    and p: "pstates k (pstate (pins k n)) = Some p"
    and f: "inodes k' = (inodes k)(n := None)" "\<And>m. m \<noteq> n \<Longrightarrow> pins k' m = pins k m" "pipe_fs k' = pipe_fs k" "proot k' = proot k"
      "pipe_list k' = remove1 n (pipe_list k)" "pipe_locked k' = pipe_locked k" "kblocks k' = kblocks k"
      "pstates k' = (pstates k)(pstate (pins k n) := (if ref_count p = 1 then None else Some (p\<lparr>ref_count := ref_count p - 1\<rparr>)))"
  shows "pipe_inv k'"
proof -
  let ?s = "pstate (pins k n)"
  have inv: "nodes_ok k" "shares_ok k" "names_ok k" "blocks_ok k" "\<not> pipe_locked k"
    using k by (auto simp: pipe_inv_def pipe_inv0_def)
  have pin: "is_pin m k' \<longleftrightarrow> is_pin m k \<and> m \<noteq> n" for m
    by (auto simp: is_pin_def f(1))
  have nroot: "n \<noteq> proot k"
    using is_pinD [OF n] node_okD(2) [OF inv(1)] by fastforce
  have "nodes_ok k'"
  proof -
    have "{m. is_pin m k'} \<subseteq> {m. is_pin m k}" using pin by auto
    then have "finite {m. is_pin m k'}"
      using inv(1) finite_subset by (auto simp: nodes_ok_def)
    then show ?thesis
      using inv(1) nroot unfolding nodes_ok_def f by auto
  qed
  moreover have sh: "sharers k' s = sharers k s - {n}" for s
    using f(2) by (auto simp: sharers_def pin)
  have "shares_ok k'"
    unfolding shares_ok_def
  proof
    fix s
    have old: "case pstates k s of None \<Rightarrow> sharers k s = {} | Some p \<Rightarrow> ref_count p = int (card (sharers k s))"
      using inv(2) by (simp add: shares_ok_def)
    have fin: "finite (sharers k s)" by (rule sharers_finite [OF inv(1)])
    show "case pstates k' s of None \<Rightarrow> sharers k' s = {} | Some p \<Rightarrow> ref_count p = int (card (sharers k' s))"
    proof (cases "s = ?s")
      case True
      have mem: "n \<in> sharers k s" using n True by (simp add: sharers_def)
      have c: "ref_count p = int (card (sharers k s))" using old p True by simp
      have d: "card (sharers k s - {n}) = card (sharers k s) - 1" "0 < card (sharers k s)"
        using mem fin card_gt_0_iff by (auto simp: card_Diff_singleton)
      show ?thesis
      proof (cases "ref_count p = 1")
        case one: True
        then have "card (sharers k s - {n}) = 0" using c d by simp
        then have "sharers k s - {n} = {}" using fin by simp
        then show ?thesis using True one by (simp add: f sh)
      next
        case False
        then show ?thesis using True c d by (simp add: f sh of_nat_diff)
      qed
    next
      case False
      then have "n \<notin> sharers k s" by (simp add: sharers_def)
      then have same: "sharers k' s = sharers k s" by (simp add: sh)
      show ?thesis using False old unfolding same by (simp add: f)
    qed
  qed
  moreover have "names_ok k'"
  proof -
    have d: "distinct (pipe_list k)" and s: "set (pipe_list k) = {m. is_pin m k \<and> pname (pins k m) \<noteq> None}"
      using inv(3) by (auto simp: names_ok_def)
    have eq: "pins k' m = pins k m" if "m \<in> set (remove1 n (pipe_list k))" for m
      using that d f(2) by auto
    have "set (pipe_list k') = {m. is_pin m k' \<and> pname (pins k' m) \<noteq> None}"
      using d s f(2) by (auto simp: f(5) pin)
    moreover have "inj_on (\<lambda>m. (pname (pins k' m), pin_type (pins k' m))) (set (pipe_list k'))"
      using inv(3) d eq unfolding names_ok_def f(5) by (auto simp: inj_on_def)
    ultimately show ?thesis
      using inv(3) d f(2) unfolding names_ok_def by (auto simp: f(5) pin)
  qed
  moreover have "blocks_ok k'"
  proof -
    have "pstates k' b = None" "inodes k' b = None" if "Some b \<in> set (kblocks k)" for b
      using inv(4) that p by (auto simp: blocks_ok_def f(1,8))
    then show ?thesis using inv(4) by (simp add: blocks_ok_def f(7))
  qed
  ultimately show ?thesis
    using inv(5) f(6) by (simp add: pipe_inv_def pipe_inv0_def)
qed

lemma pipe_reclaim_ok:
  fixes k :: "'a pk"
  assumes k: "pipe_inv k" and i: "inodes k n = Some i" "inode_open_count i = 0" and n: "is_pin n k"
  defines "k0 \<equiv> upd_inode n (\<lambda>i. i\<lparr>inode_ref_count := 0\<rparr>) k"
  shows "\<exists>k'. pipe_inode_reclaim n k0 = Some (0, k') \<and>
    cnt_step pipe_inv is_pipe_fs ((refs k)(n := 0)) (opens k) k k'"
proof -
  obtain p where p: "pstates k (pstate (pins k n)) = Some p" "0 < ref_count p"
    using pin_state_ex [OF k n] by blast
  have nk: "reclaim_count (pins k n) = 1" "\<not> pipe_locked k" "(pname (pins k n) \<noteq> None) = (n \<in> set (pipe_list k))"
    using k n by (auto simp: pipe_inv_def pipe_inv0_def names_ok_def)
  have pin: "vop_pin n k0 = Some (pins k n)"
    using i(1) is_pinD [OF n] by (auto simp: vop_pin_def k0_def)
  let ?st = "(pstates k)(pstate (pins k n) := (if ref_count p = 1 then None else Some (p\<lparr>ref_count := ref_count p - 1\<rparr>)))"
  define k' where "k' = (if pname (pins k n) = None then k\<lparr>inodes := (inodes k)(n := None), pstates := ?st\<rparr>
    else k\<lparr>inodes := (inodes k)(n := None), pstates := ?st, pins := (pins k)(n := (pins k n)\<lparr>reclaim_count := 0\<rparr>),
           pipe_list := remove1 n (pipe_list k)\<rparr>)"
  have run: "pipe_inode_reclaim n k0 = Some (0, k')"
  proof (cases "pname (pins k n) = None")
    case True
    then show ?thesis
      using p i unfolding pipe_inode_reclaim_def pin
      by (simp add: k0_def k'_def release_state_def pipe_state_release_def inode_kill_def Let_def)
  next
    case False
    then show ?thesis
      using p i nk unfolding pipe_inode_reclaim_def pin lock_pipe_def
      by (cases k) (auto simp: k0_def k'_def release_state_def pipe_state_release_def inode_kill_def Let_def unlock_pipe_def)
  qed
  have "pipe_inv k'"
  proof (rule reclaim_inv [OF k n p(1)])
    show "pipe_list k' = remove1 n (pipe_list k)"
      using nk(3) by (auto simp: k'_def remove1_idem)
  qed (auto simp: k'_def)
  moreover have "refs k' = (refs k)(n := 0)" "opens k' = opens k" "vfs_frame k k'" "keeps_fs k k'" "pipe_fs k' = pipe_fs k"
    using i by (auto simp: k'_def refs_def opens_def fun_eq_iff vfs_frame_def keeps_fs_def fs_of_def)
  ultimately show ?thesis
    using run by (auto simp: cnt_step_def is_pipe_fs_def)
qed

subsection \<open>Looking up a name\<close>

text \<open>One reference more for the inodes in \<open>S\<close>.\<close>

definition bump :: "addr set \<Rightarrow> 'a pk \<Rightarrow> 'a pk" where
  "bump S k = k\<lparr>inodes := (\<lambda>n. if n \<in> S then map_option (\<lambda>i. i\<lparr>inode_ref_count := inode_ref_count i + 1\<rparr>) (inodes k n) else inodes k n)\<rparr>"

lemma bump_fields [simp]:
  "pins (bump S k) = pins k" "pstates (bump S k) = pstates k" "pipe_fs (bump S k) = pipe_fs k" "proot (bump S k) = proot k"
  "pipe_list (bump S k) = pipe_list k" "pipe_locked (bump S k) = pipe_locked k" "kblocks (bump S k) = kblocks k" "bump {} k = k"
  "vfs.more (bump S k) = vfs.more k"
  by (cases k; simp add: bump_def)+

lemma bump_Un: "S \<inter> T = {} \<Longrightarrow> bump S (bump T k) = bump (S \<union> T) k"
  by (cases k) (auto simp: bump_def fun_eq_iff)

lemma bump_one: "inodes k n = Some i \<Longrightarrow> inode_ref_inc n k = Some (inode_ref_count i + 1, bump {n} k)"
  by (cases k) (auto simp: inode_ref_inc_def bump_def fun_eq_iff)

lemma refs_bump: "refs (bump S k) n = refs k n + (if n \<in> S \<and> inodes k n \<noteq> None then 1 else 0)"
  "opens (bump S k) = opens k"
  by (auto simp: refs_def opens_def bump_def fun_eq_iff split: option.splits)

lemma bump_static:
  assumes "\<And>n. n \<in> S \<Longrightarrow> 0 < refs k n"
  shows "same_static k (bump S k)" "vfs_frame k (bump S k)" "keeps_fs k (bump S k)"
proof -
  have pos: "0 < refs (bump S k) n \<longleftrightarrow> 0 < refs k n" for n
    using assms [of n] by (auto simp: refs_bump)
  show "same_static k (bump S k)"
    unfolding same_static_def pos by (simp add: bump_def option.map_comp comp_def)
  show "vfs_frame k (bump S k)" "keeps_fs k (bump S k)"
    by (auto simp: bump_def vfs_frame_def keeps_fs_def fs_of_def split: option.splits)
qed

definition matches :: "string \<Rightarrow> pin_type \<Rightarrow> 'a pk \<Rightarrow> addr \<Rightarrow> bool" where
  "matches name d k n \<longleftrightarrow> pname (pins k n) = Some name \<and> pin_type (pins k n) = d"

lemma lookup_loop_eq:
  assumes "\<And>n. n \<in> set ns \<Longrightarrow> 0 < refs k n" "distinct ns"
    "inj_on (\<lambda>n. (pname (pins k n), pin_type (pins k n))) (set ns)"
    "r \<noteq> None \<Longrightarrow> \<forall>n\<in>set ns. \<not> matches name PIN_RDONLY k n" "w \<noteq> None \<Longrightarrow> \<forall>n\<in>set ns. \<not> matches name PIN_WRONLY k n"
  shows "lookup_loop name ns (r, w, k) =
    Some (if r \<noteq> None then r else find (matches name PIN_RDONLY k) ns, if w \<noteq> None then w else find (matches name PIN_WRONLY k) ns,
          bump {n \<in> set ns. pname (pins k n) = Some name} k)"
  using assms
proof (induction ns arbitrary: r w k)
  case Nil
  then show ?case by simp
next
  case (Cons n ns)
  have pos: "0 < refs k n" using Cons.prems(1) by simp
  obtain i where i: "inodes k n = Some i" "0 < inode_ref_count i"
    using refs_pos [OF pos] pos by (auto simp: refs_def)
  have ninj: "\<not> matches name (pin_type (pins k n)) k m" if "m \<in> set ns" "pname (pins k n) = Some name" for m
    using that Cons.prems(2,3) by (auto simp: matches_def inj_on_def)
  show ?case
  proof (cases "pname (pins k n) = Some name")
    case False
    then have nm: "\<not> matches name d k n" for d by (simp add: matches_def)
    have "{m \<in> set (n # ns). pname (pins k m) = Some name} = {m \<in> set ns. pname (pins k m) = Some name}"
      using False by auto
    then show ?thesis
      using Cons.IH [of k r w] Cons.prems False nm by (simp add: inj_on_def)
  next
    case True
    let ?k = "bump {n} k"
    have posk: "0 < refs ?k m" if "m \<in> set ns" for m
      using Cons.prems(1) [of m] that by (auto simp: refs_bump)
    have mk: "matches name d ?k = matches name d k" for d
      by (simp add: matches_def fun_eq_iff)
    have S: "bump {m \<in> set ns. pname (pins k m) = Some name} ?k = bump {m \<in> set (n # ns). pname (pins k m) = Some name} k"
    proof -
      have d: "{m \<in> set ns. pname (pins k m) = Some name} \<inter> {n} = {}"
        using Cons.prems(2) by auto
      have u: "{m \<in> set ns. pname (pins k m) = Some name} \<union> {n} = {m \<in> set (n # ns). pname (pins k m) = Some name}"
        using True by auto
      show ?thesis
        using bump_Un [OF d, of k] by (simp only: u)
    qed
    have inj: "inj_on (\<lambda>n. (pname (pins ?k n), pin_type (pins ?k n))) (set ns)" "distinct ns"
      using Cons.prems(2,3) by (simp_all add: inj_on_def)
    show ?thesis
    proof (cases "pin_type (pins k n)")
      case PIN_RDONLY
      then have m: "matches name PIN_RDONLY k n" "\<not> matches name PIN_WRONLY k n" "r = None"
        using True Cons.prems(4) by (auto simp: matches_def simp del: not_None_eq)
      have none: "\<forall>m\<in>set ns. \<not> matches name PIN_RDONLY k m"
        using ninj True PIN_RDONLY by metis
      have "lookup_loop name ns (Some n, w, ?k) =
          Some (Some n, if w \<noteq> None then w else find (matches name PIN_WRONLY k) ns, bump {m \<in> set (n # ns). pname (pins k m) = Some name} k)"
        using Cons.IH [of ?k "Some n" w] posk inj Cons.prems(5) none by (simp add: mk S)
      then show ?thesis
        using True PIN_RDONLY m i by (simp add: bump_one [OF i(1)] kassert_def)
    next
      case PIN_WRONLY
      then have m: "matches name PIN_WRONLY k n" "\<not> matches name PIN_RDONLY k n" "w = None"
        using True Cons.prems(5) by (auto simp: matches_def simp del: not_None_eq)
      have none: "\<forall>m\<in>set ns. \<not> matches name PIN_WRONLY k m"
        using ninj True PIN_WRONLY by metis
      have "lookup_loop name ns (r, Some n, ?k) =
          Some (if r \<noteq> None then r else find (matches name PIN_RDONLY k) ns, Some n, bump {m \<in> set (n # ns). pname (pins k m) = Some name} k)"
        using Cons.IH [of ?k r "Some n"] posk inj Cons.prems(4) none by (simp add: mk S)
      then show ?thesis
        using True PIN_WRONLY m i by (simp add: bump_one [OF i(1)] kassert_def)
    qed
  qed
qed

lemma pin_refs_pos: "nodes_ok k \<Longrightarrow> is_pin n k \<Longrightarrow> 0 < refs k n"
  using is_pinD node_okD(2) by (fastforce simp: refs_def)

lemma lookup_pipe_ok:
  assumes "pipe_inv0 k"
  obtains r w where "lookup_pipe_nolock name k = Some (r, w, bump (set_option r \<union> set_option w) k)"
    "\<And>n. r = Some n \<longleftrightarrow> is_pin n k \<and> matches name PIN_RDONLY k n" "\<And>n. w = Some n \<longleftrightarrow> is_pin n k \<and> matches name PIN_WRONLY k n"
proof -
  have inv: "nodes_ok k" "names_ok k"
    using assms by (auto simp: pipe_inv0_def)
  have s: "set (pipe_list k) = {n. is_pin n k \<and> pname (pins k n) \<noteq> None}" "distinct (pipe_list k)"
      "inj_on (\<lambda>n. (pname (pins k n), pin_type (pins k n))) (set (pipe_list k))"
    using inv(2) by (auto simp: names_ok_def)
  let ?f = "\<lambda>d. find (matches name d k) (pipe_list k)"
  have f: "?f d = Some n \<longleftrightarrow> is_pin n k \<and> matches name d k n" for d n
  proof
    assume "?f d = Some n"
    then have "n \<in> set (pipe_list k)" "matches name d k n"
      by (auto simp: find_Some_iff)
    then show "is_pin n k \<and> matches name d k n" using s(1) by auto
  next
    assume n: "is_pin n k \<and> matches name d k n"
    then have mem: "n \<in> set (pipe_list k)" using s(1) by (auto simp: matches_def)
    then obtain m where m: "?f d = Some m"
      using n by (cases "?f d") (auto simp: find_None_iff)
    then have "m \<in> set (pipe_list k)" "matches name d k m"
      by (auto simp: find_Some_iff)
    then show "?f d = Some n"
      using m n mem s(3) by (auto simp: matches_def inj_on_def)
  qed
  have "{n \<in> set (pipe_list k). pname (pins k n) = Some name} = set_option (?f PIN_RDONLY) \<union> set_option (?f PIN_WRONLY)"
  proof (intro set_eqI iffI)
    fix n assume "n \<in> {n \<in> set (pipe_list k). pname (pins k n) = Some name}"
    then show "n \<in> set_option (?f PIN_RDONLY) \<union> set_option (?f PIN_WRONLY)"
      using s(1) f by (cases "pin_type (pins k n)") (auto simp: matches_def)
  next
    fix n assume "n \<in> set_option (?f PIN_RDONLY) \<union> set_option (?f PIN_WRONLY)"
    then show "n \<in> {n \<in> set (pipe_list k). pname (pins k n) = Some name}"
      using s(1) f by (auto simp: matches_def)
  qed
  moreover have "\<And>n. n \<in> set (pipe_list k) \<Longrightarrow> 0 < refs k n"
    using s(1) pin_refs_pos [OF inv(1)] by auto
  ultimately have "lookup_pipe_nolock name k = Some (?f PIN_RDONLY, ?f PIN_WRONLY, bump (set_option (?f PIN_RDONLY) \<union> set_option (?f PIN_WRONLY)) k)"
    unfolding lookup_pipe_nolock_def using s(2,3) by (subst lookup_loop_eq) simp_all
  then show thesis
    using that f by blast
qed

lemma ref_dec_shared:
  assumes "inodes k m = Some i" "1 < inode_ref_count i"
  shows "ref_dec ops m k = Some (upd_inode m (\<lambda>i. i\<lparr>inode_ref_count := inode_ref_count i - 1\<rparr>) k)"
  using assms by (simp add: ref_dec_def inode_ref_dec_def kassert_def Let_def)

lemma upd_inode_bump: "m \<in> S \<Longrightarrow> upd_inode m (\<lambda>i. i\<lparr>inode_ref_count := inode_ref_count i - 1\<rparr>) (bump S k) = bump (S - {m}) k"
  by (cases k) (auto simp: bump_def fun_eq_iff option.map_comp comp_def option.map_ident)

lemma ref_dec_bump:
  assumes "m \<in> S" "0 < refs k m"
  shows "ref_dec ops m (bump S k) = Some (bump (S - {m}) k)"
proof -
  obtain i where i: "inodes k m = Some i" "0 < inode_ref_count i"
    using refs_pos [OF assms(2)] assms(2) by (auto simp: refs_def)
  have "inodes (bump S k) m = Some (i\<lparr>inode_ref_count := inode_ref_count i + 1\<rparr>)"
    using assms(1) i(1) by (simp add: bump_def)
  then show ?thesis
    unfolding upd_inode_bump [OF assms(1), symmetric] by (rule ref_dec_shared) (use i(2) in simp)
qed

lemma bump_step:
  assumes "pipe_inv k" "\<And>n. got = Some n \<Longrightarrow> 0 < refs k n"
  shows "fs_step pipe_inv is_pipe_fs got k (bump (set_option got) k)"
proof -
  have pos: "\<And>n. n \<in> set_option got \<Longrightarrow> 0 < refs k n"
    using assms(2) by (cases got) auto
  have bs: "same_static k (bump (set_option got) k)" "vfs_frame k (bump (set_option got) k)" "keeps_fs k (bump (set_option got) k)"
    by (rule bump_static, erule pos)+
  have "refs (bump (set_option got) k) = (case got of None \<Rightarrow> refs k | Some n \<Rightarrow> (refs k)(n := refs k n + 1))"
    using assms(2) by (cases got) (auto simp: refs_bump fun_eq_iff dest: refs_pos)
  then show ?thesis
    using pipe_inv_static [OF assms(1) bs(1)] bs(2,3)
    by (simp add: fs_step_def cnt_step_def is_pipe_fs_def refs_bump)
qed

lemma unlock_bump: "\<not> pipe_locked k \<Longrightarrow> unlock_pipe (bump S (k\<lparr>pipe_locked := True\<rparr>)) = bump S k"
  by (cases k) (auto simp: bump_def unlock_pipe_def fun_eq_iff)

lemma pipe_inv0_cong:
  assumes "inodes k' = inodes k" "pins k' = pins k" "pstates k' = pstates k" "pipe_fs k' = pipe_fs k" "proot k' = proot k"
    "pipe_list k' = pipe_list k" "kblocks k' = kblocks k"
  shows "pipe_inv0 k' \<longleftrightarrow> pipe_inv0 k"
proof -
  have pin: "is_pin n k' = is_pin n k" for n by (simp add: is_pin_def assms)
  have sh: "sharers k' s = sharers k s" for s by (simp add: sharers_def pin assms)
  show ?thesis
    unfolding pipe_inv0_def nodes_ok_def shares_ok_def names_ok_def blocks_ok_def pin sh assms by (rule refl)
qed

lemma lock_ok:
  assumes "pipe_inv k"
  shows "lock_pipe k = Some (k\<lparr>pipe_locked := True\<rparr>)" "pipe_inv0 (k\<lparr>pipe_locked := True\<rparr>)" "\<not> pipe_locked k"
  using assms pipe_inv0_cong [of "k\<lparr>pipe_locked := True\<rparr>" k] by (auto simp: lock_pipe_def pipe_inv_def)

lemma is_pin_locked [simp]: "is_pin n (k\<lparr>pipe_locked := b\<rparr>) = is_pin n k"
  by (simp add: is_pin_def)

lemma matches_locked [simp]: "matches name d (k\<lparr>pipe_locked := b\<rparr>) = matches name d k"
  by (simp add: matches_def fun_eq_iff)

lemma refs_locked [simp]: "refs (k\<lparr>pipe_locked := b\<rparr>) = refs k"
  by (simp add: refs_def fun_eq_iff)

lemma lookup_locked:
  fixes k :: "'a pk"
  assumes "pipe_inv k"
  obtains r w where "lookup_pipe_nolock name (k\<lparr>pipe_locked := True\<rparr>) = Some (r, w, bump (set_option r \<union> set_option w) (k\<lparr>pipe_locked := True\<rparr>))"
    "\<And>n. r = Some n \<longleftrightarrow> is_pin n k \<and> matches name PIN_RDONLY k n" "\<And>n. w = Some n \<longleftrightarrow> is_pin n k \<and> matches name PIN_WRONLY k n"
    "\<And>n. r = Some n \<Longrightarrow> 0 < refs k n" "\<And>n. w = Some n \<Longrightarrow> 0 < refs k n" "set_option r \<inter> set_option w = {}"
proof (rule lookup_pipe_ok [OF lock_ok(2) [OF assms], of name])
  fix r w
  assume l: "lookup_pipe_nolock name (k\<lparr>pipe_locked := True\<rparr>) = Some (r, w, bump (set_option r \<union> set_option w) (k\<lparr>pipe_locked := True\<rparr>))"
    and r: "\<And>n. r = Some n \<longleftrightarrow> is_pin n (k\<lparr>pipe_locked := True\<rparr>) \<and> matches name PIN_RDONLY (k\<lparr>pipe_locked := True\<rparr>) n"
    and w: "\<And>n. w = Some n \<longleftrightarrow> is_pin n (k\<lparr>pipe_locked := True\<rparr>) \<and> matches name PIN_WRONLY (k\<lparr>pipe_locked := True\<rparr>) n"
  have "nodes_ok k"
    using assms by (simp add: pipe_inv_def pipe_inv0_def)
  moreover have "r = Some x \<Longrightarrow> w \<noteq> Some x" for x
    using r [of x] w [of x] by (simp add: matches_def)
  then have "set_option r \<inter> set_option w = {}"
    by (cases r) auto
  ultimately show thesis
    using r w pin_refs_pos by (intro that [OF l]) auto
qed

lemma pipe_root_lookup_ok:
  assumes k: "pipe_inv k" and p: "pipe_path_ok path"
  shows "\<exists>r m k'. pipe_root_lookup dir path k = Some (r, m, k') \<and> (r = 0 \<longrightarrow> m \<noteq> None) \<and>
    fs_step pipe_inv is_pipe_fs (if r = 0 then m else None) k k'"
proof (rule lookup_locked [OF k, of "drop 2 path"])
  fix r w
  assume l: "lookup_pipe_nolock (drop 2 path) (k\<lparr>pipe_locked := True\<rparr>) = Some (r, w, bump (set_option r \<union> set_option w) (k\<lparr>pipe_locked := True\<rparr>))"
    and pos: "\<And>n. r = Some n \<Longrightarrow> 0 < refs k n" "\<And>n. w = Some n \<Longrightarrow> 0 < refs k n" and disj: "set_option r \<inter> set_option w = {}"
  define node0 where "node0 = (if hd path = CHR ''r'' then r else w)"
  define node1 where "node1 = (if hd path = CHR ''r'' then w else r)"
  have S: "set_option r \<union> set_option w = set_option node0 \<union> set_option node1" "set_option node0 \<inter> set_option node1 = {}"
    using disj by (auto simp: node0_def node1_def)
  have pos0: "\<And>n. node0 = Some n \<Longrightarrow> 0 < refs k n" "\<And>n. node1 = Some n \<Longrightarrow> 0 < refs k n"
    using pos by (auto simp: node0_def node1_def split: if_splits)
  have drop: "(case node1 of None \<Rightarrow> Some (bump (set_option r \<union> set_option w) k)
      | Some m \<Rightarrow> ref_dec pipe_node_ops m (bump (set_option r \<union> set_option w) k)) = Some (bump (set_option node0) k)"
  proof (cases node1)
    case None
    then show ?thesis using S(1) by simp
  next
    case (Some m)
    then have "set_option r \<union> set_option w - {m} = set_option node0"
      using S by auto
    then show ?thesis
      using ref_dec_bump [of m "set_option r \<union> set_option w" k] pos0(2) Some S(1) by simp
  qed
  have ka: "kassert (pipe_path_ok path) = Some ()"
    using p by simp
  have "pipe_root_lookup dir path k = Some (if node0 = None then (- E_NOENT, None, bump (set_option node0) k) else (0, node0, bump (set_option node0) k))"
    unfolding pipe_root_lookup_def ka Let_def Option.bind.simps lock_ok(1) [OF k] l prod.case unlock_bump [OF lock_ok(3) [OF k]]
      node0_def [symmetric] node1_def [symmetric] drop by (rule refl)
  then show ?thesis
    using bump_step [OF k, of node0] pos0(1) by (cases node0) auto
qed

subsection \<open>Creating an inode\<close>

lemma kmalloc_cases:
  obtains (none) bs where "kmalloc k = (None, k\<lparr>kblocks := bs\<rparr>)" "\<exists>pre. kblocks k = pre @ bs"
  | (some) b bs where "kmalloc k = (Some b, k\<lparr>kblocks := bs\<rparr>)" "kblocks k = Some b # bs"
proof (cases "kblocks k")
  case Nil
  then have "kmalloc k = (None, k\<lparr>kblocks := []\<rparr>)"
    by (cases k) (simp add: kmalloc_def)
  then show thesis using none Nil by simp
next
  case (Cons b bs)
  then show thesis
    using none [of bs] some [of _ bs] by (cases b) (simp_all add: kmalloc_def)
qed

text \<open>What creating an inode does: nothing but using up blocks, or a new inode.\<close>

definition new_inode :: "addr \<Rightarrow> inode" where
  "new_inode fs = \<lparr>in_type = pipe_inode_info, inode_ref_count = 1, inode_open_count = 0, in_fs = Some fs\<rparr>"

definition new_pin :: "string option \<Rightarrow> addr \<Rightarrow> bool \<Rightarrow> pipe_inode" where
  "new_pin name s ro = \<lparr>pin_type = (if ro then PIN_RDONLY else PIN_WRONLY), pname = name, reclaim_count = 1, pstate = s\<rparr>"

lemma create_inode_cases:
  obtains (failed) bs where "pipe_create_inode fs name s ro k = Some (None, k\<lparr>kblocks := bs\<rparr>)" "\<exists>pre. kblocks k = pre @ bs"
  | (created) n bs where "pipe_create_inode fs name s ro k =
        Some (Some n, k\<lparr>kblocks := bs, inodes := (inodes k)(n \<mapsto> new_inode fs), pins := (pins k)(n := new_pin name s ro)\<rparr>)"
      "\<exists>pre. kblocks k = pre @ Some n # bs"
proof -
  have tail: thesis if "named = True \<Longrightarrow> pipe_create_inode fs name s ro k = (case kmalloc k1 of
        (None, k) \<Rightarrow> Some (None, k)
      | (Some n, k) \<Rightarrow> do {
          let k = snd (alloc_inode pipe_inode_info (Some n) k);
          k \<leftarrow> inode_init n (Some fs) k;
          Some (Some n, pipe_inode_init n name s ro k)
        })" "named = False \<Longrightarrow> pipe_create_inode fs name s ro k = Some (None, k1)"
      "k1 = k\<lparr>kblocks := bs1\<rparr>" "kblocks k = pre @ bs1" for named k1 bs1 pre
  proof (cases named)
    case False
    then show thesis using failed [of bs1] that(2-4) by auto
  next
    case True
    show thesis
    proof (cases rule: kmalloc_cases [of k1])
      case (none bs)
      then show thesis using failed [of bs] that(1,3,4) True by auto
    next
      case (some n bs)
      then have "pipe_create_inode fs name s ro k =
          Some (Some n, k\<lparr>kblocks := bs, inodes := (inodes k)(n \<mapsto> new_inode fs), pins := (pins k)(n := new_pin name s ro)\<rparr>)"
        using that(1,3) True by (simp add: alloc_inode_def inode_init_def inode_ref_inc_def pipe_inode_init_def new_inode_def new_pin_def)
      then show thesis using created [of n bs] that(3,4) some(2) by auto
    qed
  qed
  show thesis
  proof (cases name)
    case None
    then show thesis
      by (intro tail [of True k "kblocks k" "[]"]) (auto simp: pipe_create_inode_def)
  next
    case (Some nm)
    show thesis
    proof (cases rule: kmalloc_cases [of k])
      case (none bs)
      then obtain pre where "kblocks k = pre @ bs" by blast
      then show thesis
        using Some none(1) by (intro tail [of False "k\<lparr>kblocks := bs\<rparr>" bs pre]) (auto simp: pipe_create_inode_def)
    next
      case (some b bs)
      then show thesis
        using Some by (intro tail [of True "k\<lparr>kblocks := bs\<rparr>" bs "[Some b]"]) (auto simp: pipe_create_inode_def)
    qed
  qed
qed

lemma blocks_suffix:
  assumes "blocks_ok k" "kblocks k = pre @ bs" "inodes k' = inodes k" "pstates k' = pstates k" "kblocks k' = bs"
  shows "blocks_ok k'"
  using assms by (auto simp: blocks_ok_def)

lemma blocks_fresh:
  assumes "blocks_ok k" "kblocks k = pre @ Some n # bs"
  shows "inodes k n = None" "pstates k n = None" "Some n \<notin> set bs" "Some n \<notin> set pre"
  using assms by (auto simp: blocks_ok_def)

lemma pipe_inv_blocks:
  assumes "pipe_inv k" "kblocks k = pre @ bs"
  shows "fs_step pipe_inv is_pipe_fs None k (k\<lparr>kblocks := bs\<rparr>)"
proof -
  let ?k = "k\<lparr>kblocks := bs\<rparr>"
  have pin: "is_pin n ?k = is_pin n k" for n by (simp add: is_pin_def)
  have sh: "sharers ?k s = sharers k s" for s by (simp add: sharers_def pin)
  have "nodes_ok ?k = nodes_ok k" "shares_ok ?k = shares_ok k" "names_ok ?k = names_ok k"
    unfolding nodes_ok_def shares_ok_def names_ok_def pin sh by simp_all
  moreover have "blocks_ok ?k"
    using assms blocks_suffix [of k pre bs ?k] by (simp add: pipe_inv_def pipe_inv0_def)
  ultimately have "pipe_inv ?k"
    using assms(1) by (simp add: pipe_inv_def pipe_inv0_def)
  then show ?thesis
    by (simp add: fs_step_def cnt_step_def vfs_frame_def keeps_fs_def is_pipe_fs_def refs_def opens_def fs_of_def fun_eq_iff)
qed

text \<open>A new inode in the root directory that shares the state \<open>s\<close>.\<close>

lemma create_inv:
  fixes k :: "'a pk"
  assumes k: "pipe_inv k" and bs: "kblocks k = pre @ Some n # bs"
    and p: "pstates k s = Some p \<or> pstates k s = None \<and> Some s \<in> set pre"
    and p': "ref_count p' = int (card (sharers k s)) + 1"
    and unique: "\<And>m. is_pin m k \<Longrightarrow> \<not> matches name (if ro then PIN_RDONLY else PIN_WRONLY) k m"
    and f: "inodes k' = (inodes k)(n \<mapsto> new_inode (pipe_fs k))" "pins k' = (pins k)(n := new_pin (Some name) s ro)"
      "pipe_fs k' = pipe_fs k" "proot k' = proot k" "pipe_list k' = n # pipe_list k" "\<not> pipe_locked k'" "kblocks k' = bs"
      "pstates k' = (pstates k)(s \<mapsto> p')"
  shows "pipe_inv k'"
proof -
  have inv: "nodes_ok k" "shares_ok k" "names_ok k" "blocks_ok k"
    using k by (auto simp: pipe_inv_def pipe_inv0_def)
  note fresh = blocks_fresh [OF inv(4) bs]
  have pin: "is_pin m k' \<longleftrightarrow> is_pin m k \<or> m = n" for m
    by (auto simp: is_pin_def f(1) new_inode_def)
  have npin: "\<not> is_pin n k"
    using fresh(1) by (simp add: is_pin_def)
  have nroot: "n \<noteq> proot k"
    using inv(1) fresh(1) by (auto simp: nodes_ok_def)
  have "{m. is_pin m k'} = insert n {m. is_pin m k}" using pin by auto
  then have "nodes_ok k'"
    using inv(1) nroot unfolding nodes_ok_def f by (auto simp: new_inode_def)
  moreover have sh: "sharers k' x = (if x = s then insert n (sharers k x) else sharers k x)" for x
    using npin by (auto simp: sharers_def pin f(2) new_pin_def)
  have "shares_ok k'"
    unfolding shares_ok_def
  proof
    fix x
    have old: "case pstates k x of None \<Rightarrow> sharers k x = {} | Some p \<Rightarrow> ref_count p = int (card (sharers k x))"
      using inv(2) by (simp add: shares_ok_def)
    have "n \<notin> sharers k x" using npin by (simp add: sharers_def)
    then have c: "card (insert n (sharers k x)) = card (sharers k x) + 1"
      using sharers_finite [OF inv(1)] by simp
    show "case pstates k' x of None \<Rightarrow> sharers k' x = {} | Some p \<Rightarrow> ref_count p = int (card (sharers k' x))"
    proof (cases "x = s")
      case True
      then show ?thesis using p' c unfolding sh f(8) by simp
    next
      case False
      then have same: "sharers k' x = sharers k x" by (simp add: sh)
      show ?thesis using False old unfolding same by (simp add: f(8))
    qed
  qed
  moreover have "names_ok k'"
  proof -
    have s: "set (pipe_list k) = {m. is_pin m k \<and> pname (pins k m) \<noteq> None}" and d: "distinct (pipe_list k)"
        and i: "inj_on (\<lambda>m. (pname (pins k m), pin_type (pins k m))) (set (pipe_list k))"
      using inv(3) by (auto simp: names_ok_def)
    have nl: "n \<notin> set (pipe_list k)" using s npin by auto
    have "set (pipe_list k') = {m. is_pin m k' \<and> pname (pins k' m) \<noteq> None}"
      using s npin by (auto simp: f(2,5) pin new_pin_def)
    moreover have "inj_on (\<lambda>m. (pname (pins k' m), pin_type (pins k' m))) (set (pipe_list k'))"
    proof -
      have e: "(pname (pins k' m), pin_type (pins k' m)) = (pname (pins k m), pin_type (pins k m))" if "m \<in> set (pipe_list k)" for m
        using that nl by (auto simp: f(2))
      then have "inj_on (\<lambda>m. (pname (pins k' m), pin_type (pins k' m))) (set (pipe_list k))"
        using i by (auto simp: inj_on_def)
      moreover have "(Some name, if ro then PIN_RDONLY else PIN_WRONLY) \<notin> (\<lambda>m. (pname (pins k' m), pin_type (pins k' m))) ` set (pipe_list k)"
      proof
        assume "(Some name, if ro then PIN_RDONLY else PIN_WRONLY) \<in> (\<lambda>m. (pname (pins k' m), pin_type (pins k' m))) ` set (pipe_list k)"
        then obtain m where m: "m \<in> set (pipe_list k)" "(Some name, if ro then PIN_RDONLY else PIN_WRONLY) = (pname (pins k m), pin_type (pins k m))"
          using e by force
        then show False
          using unique [of m] s by (auto simp: matches_def)
      qed
      moreover have "(pname (pins k' n), pin_type (pins k' n)) = (Some name, if ro then PIN_RDONLY else PIN_WRONLY)"
        by (simp add: f(2) new_pin_def)
      ultimately show ?thesis
        unfolding f(5) list.set(2) inj_on_insert by (simp only:) blast
    qed
    ultimately show ?thesis
      using inv(3) d nl npin unfolding names_ok_def by (auto simp: f(2,5) pin new_pin_def)
  qed
  moreover have "blocks_ok k'"
  proof -
    have "s \<noteq> b" if "Some b \<in> set bs" for b
      using p that inv(4) bs by (auto simp: blocks_ok_def)
    then show ?thesis
      using inv(4) fresh unfolding blocks_ok_def f(1,7,8) bs by auto
  qed
  ultimately show ?thesis
    using f(6) by (simp add: pipe_inv_def pipe_inv0_def)
qed

lemma sharers_empty:
  assumes "pipe_inv k" "pstates k s = None"
  shows "sharers k s = {}"
proof -
  have "case pstates k s of None \<Rightarrow> sharers k s = {} | Some p \<Rightarrow> ref_count p = int (card (sharers k s))"
    using assms(1) unfolding pipe_inv_def pipe_inv0_def shares_ok_def by blast
  then show ?thesis using assms(2) by simp
qed

lemma created_step:
  fixes k :: "'a pk"
  assumes k': "pipe_inv k'" and k: "pipe_inv k" "inodes k n = None" and f: "inodes k' = (inodes k)(n \<mapsto> new_inode fs)"
    and fr: "vfs_frame k k'" "pipe_fs k' = pipe_fs k"
  shows "fs_step pipe_inv is_pipe_fs (Some n) k k'"
  using k' k(2) fr by (auto simp: fs_step_def cnt_step_def is_pipe_fs_def keeps_fs_def refs_def opens_def fs_of_def f new_inode_def fun_eq_iff)

text \<open>A new pipe.\<close>

lemma root_new_fresh:
  fixes k :: "'a pk"
  assumes k: "pipe_inv k" and u: "\<And>m. is_pin m k \<Longrightarrow> \<not> matches name (if ro then PIN_RDONLY else PIN_WRONLY) k m"
  shows "\<exists>r m k1 k'. pipe_root_new (pipe_fs k) name ro None (k\<lparr>pipe_locked := True\<rparr>) = Some (r, m, k1) \<and>
    unlock_pipe k1 = k' \<and> (r = 0 \<longrightarrow> m \<noteq> None) \<and> fs_step pipe_inv is_pipe_fs (if r = 0 then m else None) k k'"
proof -
  let ?K = "k\<lparr>pipe_locked := True\<rparr>"
  have unlocked: "\<not> pipe_locked k" and blk: "blocks_ok k"
    using k by (auto simp: pipe_inv_def pipe_inv0_def)
  have un: "unlock_pipe (?K\<lparr>kblocks := bs\<rparr>) = k\<lparr>kblocks := bs\<rparr>" for bs
    using unlocked by (cases k) (simp add: unlock_pipe_def)
  show ?thesis
  proof (cases rule: kmalloc_cases [of ?K])
    case (none bs)
    then obtain pre where "kblocks k = pre @ bs" by auto
    then have "fs_step pipe_inv is_pipe_fs None k (k\<lparr>kblocks := bs\<rparr>)"
      by (rule pipe_inv_blocks [OF k])
    then show ?thesis
      using none(1) un by (simp add: pipe_root_new_def new_pipe_state_def)
  next
    case (some s bs)
    define P where "P = \<lparr>p_rpos = 0, p_wpos = 0, buf = (\<lambda>_. 0), isclosed = False, ref_count = 1\<rparr>"
    let ?K1 = "?K\<lparr>kblocks := bs, pstates := (pstates k)(s \<mapsto> P)\<rparr>"
    have new: "new_pipe_state ?K = (Some s, ?K1)"
      using some(1) by (simp add: new_pipe_state_def pipe_state_create_def P_def)
    have s: "kblocks k = [] @ Some s # bs" using some(2) by simp
    note fs = blocks_fresh [OF blk s]
    show ?thesis
    proof (cases rule: create_inode_cases [of "pipe_fs k" "Some name" s ro ?K1])
      case (failed bs2)
      then obtain pre where "kblocks k = (Some s # pre) @ bs2" using some(2) by auto
      then have "fs_step pipe_inv is_pipe_fs None k (k\<lparr>kblocks := bs2\<rparr>)"
        by (rule pipe_inv_blocks [OF k])
      moreover have "unlock_pipe (?K1\<lparr>kblocks := bs2, pstates := (pstates k)(s := None)\<rparr>) = k\<lparr>kblocks := bs2\<rparr>"
        using unlocked fs(2) by (cases k) (simp add: unlock_pipe_def fun_upd_idem)
      moreover have "pipe_root_new (pipe_fs k) name ro None ?K = Some (- E_NO_MEM, None, ?K1\<lparr>kblocks := bs2, pstates := (pstates k)(s := None)\<rparr>)"
        using new failed(1) by (simp add: pipe_root_new_def release_state_def pipe_state_release_def P_def)
      ultimately show ?thesis by simp
    next
      case (created n bs2)
      then obtain pre where bs2: "kblocks k = (Some s # pre) @ Some n # bs2" using some(2) by auto
      let ?k1 = "?K1\<lparr>kblocks := bs2, inodes := (inodes k)(n \<mapsto> new_inode (pipe_fs k)), pins := (pins k)(n := new_pin (Some name) s ro),
        pipe_list := n # pipe_list k\<rparr>"
      have run: "pipe_root_new (pipe_fs k) name ro None ?K = Some (0, Some n, ?k1)"
        using new created(1) by (simp add: pipe_root_new_def)
      have "pipe_inv (unlock_pipe ?k1)"
        by (rule create_inv [OF k bs2, of s _ P name ro]) (use fs(2) sharers_empty [OF k fs(2)] u in \<open>auto simp: unlock_pipe_def P_def\<close>)
      then have "fs_step pipe_inv is_pipe_fs (Some n) k (unlock_pipe ?k1)"
        by (rule created_step [OF _ k blocks_fresh(1) [OF blk bs2]]) (simp_all add: unlock_pipe_def vfs_frame_def)
      then show ?thesis using run by simp
    qed
  qed
qed

text \<open>The other end of a pipe.\<close>

lemma root_new_other:
  fixes k :: "'a pk"
  assumes k: "pipe_inv k" and m: "is_pin m k" and u: "\<And>m. is_pin m k \<Longrightarrow> \<not> matches name (if ro then PIN_RDONLY else PIN_WRONLY) k m"
  shows "\<exists>r a k1 k'. pipe_root_new (pipe_fs k) name ro (Some m) (bump {m} (k\<lparr>pipe_locked := True\<rparr>)) = Some (r, a, k1) \<and>
    ref_dec pipe_node_ops m (unlock_pipe k1) = Some k' \<and> (r = 0 \<longrightarrow> a \<noteq> None) \<and>
    fs_step pipe_inv is_pipe_fs (if r = 0 then a else None) k k'"
proof -
  let ?K = "bump {m} (k\<lparr>pipe_locked := True\<rparr>)"
  let ?s = "pstate (pins k m)"
  have unlocked: "\<not> pipe_locked k" and blk: "blocks_ok k" and nodes: "nodes_ok k"
    using k by (auto simp: pipe_inv_def pipe_inv0_def)
  obtain i where i: "inodes k m = Some i" "in_type i = pipe_inode_info" "0 < inode_ref_count i"
    using is_pinD [OF m] node_okD(2) [OF nodes] by fastforce
  obtain p where p: "pstates k ?s = Some p" "0 < ref_count p" "ref_count p = int (card (sharers k ?s))"
    using pin_state [of k m thesis for thesis] k m unfolding pipe_inv_def by blast
  have iK: "inodes ?K m = Some (i\<lparr>inode_ref_count := inode_ref_count i + 1\<rparr>)"
    using i(1) by (simp add: bump_def)
  have vp: "vop_pin m ?K = Some (pins k m)"
    using iK i(2) by (simp add: vop_pin_def)
  let ?P = "p\<lparr>ref_count := ref_count p + 1\<rparr>"
  let ?K1 = "?K\<lparr>pstates := (pstates k)(?s \<mapsto> ?P)\<rparr>"
  have acq: "acquire_state ?s ?K = Some ?K1"
    using p(1,2) by (simp add: acquire_state_def pipe_state_acquire_def)
  show ?thesis
  proof (cases rule: create_inode_cases [of "pipe_fs k" "Some name" ?s ro ?K1])
    case (failed bs)
    then obtain pre where bs: "kblocks k = pre @ bs" by auto
    let ?k1 = "?K1\<lparr>kblocks := bs, pstates := (pstates k)(?s \<mapsto> p)\<rparr>"
    have run: "pipe_root_new (pipe_fs k) name ro (Some m) ?K = Some (- E_NO_MEM, None, ?k1)"
      using vp acq failed(1) p(2) by (cases p) (simp add: pipe_root_new_def release_state_def pipe_state_release_def Let_def)
    have "ref_dec pipe_node_ops m (unlock_pipe ?k1) = Some (upd_inode m (\<lambda>i. i\<lparr>inode_ref_count := inode_ref_count i - 1\<rparr>) (unlock_pipe ?k1))"
      by (rule ref_dec_shared) (use iK i(3) in \<open>auto simp: unlock_pipe_def\<close>)
    moreover have "upd_inode m (\<lambda>i. i\<lparr>inode_ref_count := inode_ref_count i - 1\<rparr>) (unlock_pipe ?k1) = k\<lparr>kblocks := bs\<rparr>"
      using unlocked i(1) p(1) by (cases k) (auto simp: unlock_pipe_def bump_def fun_eq_iff)
    ultimately show ?thesis
      using run pipe_inv_blocks [OF k bs] by simp
  next
    case (created n bs)
    then obtain pre where bs: "kblocks k = pre @ Some n # bs" by auto
    note fresh = blocks_fresh(1) [OF blk bs]
    have nm: "n \<noteq> m" using fresh i(1) by auto
    let ?k1 = "?K1\<lparr>kblocks := bs, inodes := (inodes ?K)(n \<mapsto> new_inode (pipe_fs k)), pins := (pins k)(n := new_pin (Some name) ?s ro),
      pipe_list := n # pipe_list k\<rparr>"
    have run: "pipe_root_new (pipe_fs k) name ro (Some m) ?K = Some (0, Some n, ?k1)"
      using vp acq created(1) by (simp add: pipe_root_new_def)
    let ?k2 = "upd_inode m (\<lambda>i. i\<lparr>inode_ref_count := inode_ref_count i - 1\<rparr>) (unlock_pipe ?k1)"
    have dec: "ref_dec pipe_node_ops m (unlock_pipe ?k1) = Some ?k2"
      by (rule ref_dec_shared) (use iK i(3) nm in \<open>auto simp: unlock_pipe_def\<close>)
    have in2: "inodes ?k2 = (inodes k)(n \<mapsto> new_inode (pipe_fs k))"
      using i(1) nm by (auto simp: unlock_pipe_def bump_def fun_eq_iff)
    have "pipe_inv ?k2"
      by (rule create_inv [OF k bs, of ?s p ?P name ro]) (use in2 p u in \<open>auto simp: unlock_pipe_def\<close>)
    then have "fs_step pipe_inv is_pipe_fs (Some n) k ?k2"
      by (rule created_step [OF _ k fresh in2]) (simp_all add: unlock_pipe_def vfs_frame_def bump_def)
    then show ?thesis using run dec by simp
  qed
qed

lemma pipe_root_create_ok:
  assumes k: "pipe_inv k" and p: "pipe_path_ok path" and dir: "inodes k dir = Some j"
  shows "\<exists>r m k'. pipe_root_create dir path excl k = Some (r, m, k') \<and> (r = 0 \<longrightarrow> m \<noteq> None) \<and>
    fs_step pipe_inv is_pipe_fs (if r = 0 then m else None) k k'"
proof (rule lookup_locked [OF k, of "drop 2 path"])
  fix r w
  assume l: "lookup_pipe_nolock (drop 2 path) (k\<lparr>pipe_locked := True\<rparr>) = Some (r, w, bump (set_option r \<union> set_option w) (k\<lparr>pipe_locked := True\<rparr>))"
    and rw: "\<And>n. r = Some n \<longleftrightarrow> is_pin n k \<and> matches (drop 2 path) PIN_RDONLY k n" "\<And>n. w = Some n \<longleftrightarrow> is_pin n k \<and> matches (drop 2 path) PIN_WRONLY k n"
    and pos: "\<And>n. r = Some n \<Longrightarrow> 0 < refs k n" "\<And>n. w = Some n \<Longrightarrow> 0 < refs k n" and disj: "set_option r \<inter> set_option w = {}"
  let ?K = "k\<lparr>pipe_locked := True\<rparr>"
  define ro where "ro = (hd path = CHR ''r'')"
  define node0 where "node0 = (if ro then r else w)"
  define node1 where "node1 = (if ro then w else r)"
  have S: "set_option r \<union> set_option w = set_option node0 \<union> set_option node1" "set_option node0 \<inter> set_option node1 = {}"
    using disj by (auto simp: node0_def node1_def)
  have pos0: "\<And>n. node0 = Some n \<Longrightarrow> 0 < refs k n" "\<And>n. node1 = Some n \<Longrightarrow> 0 < refs k n"
    using pos by (auto simp: node0_def node1_def split: if_splits)
  have fs: "in_fs j = Some (pipe_fs k)"
    using node_okD(1) [OF _ dir] k by (simp add: pipe_inv_def pipe_inv0_def)
  have ka: "kassert (pipe_path_ok path) = Some ()"
    using p by simp
  define mid where "mid = (case node0 of
          Some n \<Rightarrow>
            if excl then do { k \<leftarrow> ref_dec pipe_node_ops n (bump (set_option r \<union> set_option w) ?K); Some (- E_EXISTS, None, k) }
            else Some (0, Some n, bump (set_option r \<union> set_option w) ?K)
        | None \<Rightarrow> pipe_root_new (pipe_fs k) (drop 2 path) ro node1 (bump (set_option r \<union> set_option w) ?K))"
  have run: "pipe_root_create dir path excl k = do {
      (ret, node, k) \<leftarrow> mid;
      k \<leftarrow> (case node1 of None \<Rightarrow> Some (unlock_pipe k) | Some m \<Rightarrow> ref_dec pipe_node_ops m (unlock_pipe k));
      Some (ret, node, k)
    }"
    unfolding pipe_root_create_def ka Let_def Option.bind.simps dir fs lock_ok(1) [OF k] l prod.case
      ro_def [symmetric] node0_def [symmetric] node1_def [symmetric] mid_def by (rule refl)
  show ?thesis
  proof (cases node0)
    case (Some n)
    define T where "T = (if excl then set_option node1 else insert n (set_option node1))"
    have n1: "n \<notin> set_option node1" using S(2) Some by auto
    have mid: "mid = Some (if excl then (- E_EXISTS, None, bump T ?K) else (0, Some n, bump T ?K))"
      using ref_dec_bump [of n "set_option r \<union> set_option w" ?K] pos0(1) [OF Some] S(1) Some n1
      by (auto simp: mid_def T_def)
    have drop: "(case node1 of None \<Rightarrow> Some (unlock_pipe (bump T ?K)) | Some m \<Rightarrow> ref_dec pipe_node_ops m (unlock_pipe (bump T ?K))) =
        Some (bump (if excl then {} else {n}) k)"
    proof (cases node1)
      case None
      then show ?thesis using unlock_bump [OF lock_ok(3) [OF k]] by (simp add: T_def)
    next
      case (Some m)
      then show ?thesis
        using unlock_bump [OF lock_ok(3) [OF k]] ref_dec_bump [of m T k] pos0(2) n1 by (auto simp: T_def insert_Diff_if)
    qed
    show ?thesis
      using run mid drop bump_step [OF k, of "if excl then None else Some n"] pos0(1) Some by (cases excl) auto
  next
    case None
    have u: "\<not> matches (drop 2 path) (if ro then PIN_RDONLY else PIN_WRONLY) k m" if "is_pin m k" for m
      using None rw [of m] that by (auto simp: node0_def split: if_splits)
    show ?thesis
    proof (cases node1)
      case n1: None
      then have "mid = pipe_root_new (pipe_fs k) (drop 2 path) ro None ?K"
        using None S(1) by (simp add: mid_def)
      then obtain x a k1 where "mid = Some (x, a, k1)" "x = 0 \<longrightarrow> a \<noteq> None"
          "fs_step pipe_inv is_pipe_fs (if x = 0 then a else None) k (unlock_pipe k1)"
        using root_new_fresh [OF k u] by auto
      moreover from this have "pipe_root_create dir path excl k = Some (x, a, unlock_pipe k1)"
        using run n1 by simp
      ultimately show ?thesis by blast
    next
      case (Some m)
      then have m: "is_pin m k" "mid = pipe_root_new (pipe_fs k) (drop 2 path) ro (Some m) (bump {m} ?K)"
        using None S(1) rw [of m] by (auto simp: mid_def node1_def split: if_splits)
      obtain x a k1 k' where "mid = Some (x, a, k1)" "ref_dec pipe_node_ops m (unlock_pipe k1) = Some k'" "x = 0 \<longrightarrow> a \<noteq> None"
          "fs_step pipe_inv is_pipe_fs (if x = 0 then a else None) k k'"
        using root_new_other [OF k m(1) u] m(2) by auto
      moreover from this have "pipe_root_create dir path excl k = Some (x, a, k')"
        using run Some by simp
      ultimately show ?thesis by blast
    qed
  qed
qed

subsection \<open>The contract of the layer\<close>

lemma ops_node:
  "op_reclaim pipe_ops = op_reclaim pipe_node_ops" "op_close pipe_ops = op_close pipe_node_ops" "op_open pipe_ops = op_open pipe_node_ops"
  by (simp_all add: pipe_ops_def)

lemma fs_step_null: "pipe_inv k \<Longrightarrow> \<exists>r k'. null_vop n e k = Some (r, k') \<and> fs_step pipe_inv is_pipe_fs None k k'"
  using fs_step_refl [of pipe_inv k] by (simp add: null_vop_def)

lemma no_transfer: "pipe_inv k \<Longrightarrow> \<exists>r iob' k'. Some (- E_INVAL, iob, k) = Some (r, iob', k') \<and> (\<exists>m. advanced iob m iob') \<and> fs_step pipe_inv is_pipe_fs None k k'"
proof -
  assume "pipe_inv k"
  moreover have "advanced iob 0 iob" by (simp add: advanced_def)
  ultimately show ?thesis using fs_step_refl [of pipe_inv k] by blast
qed

text \<open>The root directory stays when its last reference is dropped, which is an error that \<open>inode_ref_dec\<close> reports.\<close>

lemma root_reclaim_step:
  fixes k :: "'a pk"
  assumes k: "pipe_inv k" and i: "inodes k n = Some i" and n: "\<not> is_pin n k"
  defines "k0 \<equiv> upd_inode n (\<lambda>i. i\<lparr>inode_ref_count := 0\<rparr>) k"
  shows "cnt_step pipe_inv is_pipe_fs ((refs k)(n := 0)) (opens k) k k0"
proof -
  have pin: "is_pin m k0 = is_pin m k" for m
    using i by (simp add: is_pin_def k0_def)
  have f: "pins k0 = pins k" "pstates k0 = pstates k" "pipe_fs k0 = pipe_fs k" "proot k0 = proot k" "pipe_list k0 = pipe_list k"
      "kblocks k0 = kblocks k" "pipe_locked k0 = pipe_locked k" "inodes k0 = (inodes k)(n \<mapsto> i\<lparr>inode_ref_count := 0\<rparr>)"
    using i by (simp_all add: k0_def)
  have sh: "sharers k0 s = sharers k s" for s
    by (simp add: sharers_def pin f)
  have inv: "nodes_ok k" "shares_ok k" "names_ok k" "blocks_ok k" "\<not> pipe_locked k"
    using k by (auto simp: pipe_inv_def pipe_inv0_def)
  have "n = proot k" "in_type i = pipe_root_info"
    using node_okD(2) [OF inv(1) i] n i by (auto simp: is_pin_def)
  then have "nodes_ok k0"
    using inv(1) node_okD(1) [OF inv(1) i] unfolding nodes_ok_def pin f by auto
  moreover have "shares_ok k0" "names_ok k0"
    using inv(2,3) unfolding shares_ok_def names_ok_def pin sh f by blast+
  moreover have "blocks_ok k0"
    using inv(4) i unfolding blocks_ok_def f by auto
  ultimately have "pipe_inv k0"
    using inv(5) by (simp add: pipe_inv_def pipe_inv0_def f)
  then show ?thesis
    using i by (auto simp: cnt_step_def vfs_frame_def keeps_fs_def is_pipe_fs_def refs_def opens_def fs_of_def k0_def fun_eq_iff)
qed

lemma root_node:
  assumes "pipe_inv k" "0 < refs k n" "\<not> is_pin n k"
  shows "n = proot k" "\<exists>i. inodes k n = Some i"
proof -
  obtain i where i: "inodes k n = Some i" using refs_pos [OF assms(2)] by blast
  then show "\<exists>i. inodes k n = Some i" by blast
  show "n = proot k"
    using node_okD(2) [OF _ i] assms(1,3) i by (auto simp: pipe_inv_def pipe_inv0_def is_pin_def)
qed

lemma root_ref_inc:
  assumes k: "pipe_inv k"
  shows "\<exists>k'. ref_inc (proot k) k = Some k' \<and> proot k' = proot k \<and> fs_step pipe_inv is_pipe_fs (Some (proot k)) k k'"
proof -
  obtain i where i: "inodes k (proot k) = Some i" "in_type i = pipe_root_info"
    using k node_okD(2) by (fastforce simp: pipe_inv_def pipe_inv0_def nodes_ok_def)
  let ?j = "i\<lparr>inode_ref_count := inode_ref_count i + 1\<rparr>"
  let ?k = "k\<lparr>inodes := (inodes k)(proot k \<mapsto> ?j)\<rparr>"
  have run: "ref_inc (proot k) k = Some ?k"
    using i by (simp add: ref_inc_def inode_ref_inc_def)
  have f: "pins ?k = pins k" "pstates ?k = pstates k" "pipe_list ?k = pipe_list k"
    by simp_all
  have pin: "is_pin m ?k = is_pin m k" for m
    using i by (simp add: is_pin_def)
  have sh: "sharers ?k s = sharers k s" for s
    by (simp add: sharers_def pin)
  have inv: "nodes_ok k" "shares_ok k" "names_ok k" "blocks_ok k" "\<not> pipe_locked k"
    using k by (auto simp: pipe_inv_def pipe_inv0_def)
  have "nodes_ok ?k"
    using inv(1) i node_okD(1) [OF inv(1) i(1)] unfolding nodes_ok_def pin by auto
  moreover have "shares_ok ?k" "names_ok ?k"
    using inv(2,3) unfolding shares_ok_def names_ok_def pin sh f by blast+
  moreover have "blocks_ok ?k"
    using inv(4) i by (auto simp: blocks_ok_def)
  ultimately have "pipe_inv ?k"
    using inv(5) by (simp add: pipe_inv_def pipe_inv0_def)
  then have "fs_step pipe_inv is_pipe_fs (Some (proot k)) k ?k"
    using i by (auto simp: fs_step_def cnt_step_def vfs_frame_def keeps_fs_def is_pipe_fs_def refs_def opens_def fs_of_def fun_eq_iff)
  then show ?thesis using run by simp
qed

interpretation pipe: inode_ops "pipe_ops :: 'a pk vfs_ops" pipe_inv is_pipe_fs pipe_subpath_ok
proof (unfold_locales, goal_cases)
  case (1 k k')
  then show ?case by (rule pipe_inv_static)
next
  case (2 k k' fs)
  then show ?case using more_pipe(3) [of k' k] by (simp add: same_static_def is_pipe_fs_def)
next
  case (3 k n i)
  have pin: "is_pin n (upd_inode n (\<lambda>i. i\<lparr>inode_ref_count := 0\<rparr>) k) = is_pin n k"
    using 3(3) by (simp add: is_pin_def)
  show ?case
    using pipe_reclaim_ok [OF 3(1,3,5)] root_reclaim_step [OF 3(1,3)]
    unfolding pipe_ops_def pipe_node_ops_def by (cases "is_pin n k") (auto simp: pin)
next
  case (4 k n)
  then show ?case
    using pipe_close_ok [of k n] fs_step_refl [of pipe_inv k] by (cases "is_pin n k") (auto simp: pipe_ops_def pipe_node_ops_def)
next
  case (5 k n fl)
  then show ?case
    using pipe_open_ok [of n k fl] fs_step_refl [of pipe_inv k] by (cases "is_pin n k") (auto simp: pipe_ops_def pipe_node_ops_def)
next
  case (9 k n)
  then show ?case
    using fs_step_refl [of pipe_inv k] by (cases "is_pin n k") (auto simp: pipe_ops_def pipe_node_ops_def pipe_inode_gettype_def)
next
  case (10 k n)
  then show ?case
    using pipe_fstat_ok [of k n] fs_step_refl [of pipe_inv k] by (cases "is_pin n k") (auto simp: pipe_ops_def pipe_node_ops_def)
next
  case (11 k n iob)
  then show ?case
    using pipe_read_ok [of k n iob] no_transfer [of k iob] by (cases "is_pin n k") (simp_all add: pipe_ops_def pipe_node_ops_def)
next
  case (12 k n iob)
  then show ?case
    using pipe_write_ok [of k n iob] no_transfer [of k iob] by (cases "is_pin n k") (simp_all add: pipe_ops_def pipe_node_ops_def)
next
  case (20 k n p)
  then show ?case
    using pipe_root_lookup_ok [of k p n] fs_step_refl [of pipe_inv k]
    by (cases "is_pin n k") (auto simp: pipe_ops_def pipe_node_ops_def pipe_subpath_ok_def simp del: not_None_eq)
next
  case (21 k n p)
  show ?case
  proof (cases "is_pin n k")
    case True
    then show ?thesis using 21(1) fs_step_refl [of pipe_inv k] by (simp add: pipe_ops_def)
  next
    case False
    then obtain k' where "ref_inc n k = Some k'" "fs_step pipe_inv is_pipe_fs (Some n) k k'"
      using root_node(1) [OF 21(1,3)] root_ref_inc [OF 21(1)] by auto
    then show ?thesis
      using 21 False by (auto simp: pipe_ops_def pipe_root_lookup_parent_def pipe_subpath_ok_def)
  qed
next
  case (22 k n p excl)
  show ?case
  proof (cases "is_pin n k")
    case True
    then show ?thesis using 22(1) fs_step_refl [of pipe_inv k] by (simp add: pipe_ops_def)
  next
    case False
    then obtain i where "inodes k n = Some i"
      using root_node(2) [OF 22(1,3)] by blast
    then show ?thesis
      using pipe_root_create_ok [OF 22(1), of p n i excl] 22(4,5) False
      by (simp add: pipe_ops_def pipe_subpath_ok_def del: not_None_eq)
  qed
next
  case (23 k fs)
  then show ?case
    using root_ref_inc [of k] by (auto simp: pipe_ops_def pipe_node_ops_def is_pipe_fs_def)
qed (auto simp: pipe_ops_def pipe_node_ops_def intro: fs_step_null fs_step_refl advanced_none)

subsection \<open>Opening and the other calls on path names\<close>

text \<open>A kernel with the file system of pipes only, which is also its boot file system: the root directory at address 10, a
  named pipe \<open>p\<close> with the reading end at address 20.\<close>

definition demo_pvfs :: "pipe_vfs" where
  "demo_pvfs = \<lparr>
     inodes = [10 \<mapsto> \<lparr>in_type = pipe_root_info, inode_ref_count = 2, inode_open_count = 0, in_fs = Some 1\<rparr>,
               20 \<mapsto> \<lparr>in_type = pipe_inode_info, inode_ref_count = 1, inode_open_count = 1, in_fs = Some 1\<rparr>],
     kmem = (\<lambda>_. 0), bootfs_node = Some 10,
     vdevs = (\<lambda>_. \<lparr>devname = ''pipe'', devnode = None, dev_fs = Some 1, mountable = False\<rparr>), vdev_list = [5],
     fs_structs = (\<lambda>_. \<lparr>pwd = None, filemap = (\<lambda>i. \<lparr>status = FD_NONE, readable = False, writable = False, fd = int i, pos = 0,
                                                     node = None, fopen_count = 0\<rparr>), fs_count = 1\<rparr>), current_fs = 0,
     pins = (\<lambda>_. \<lparr>pin_type = PIN_RDONLY, pname = Some ''p'', reclaim_count = 1, pstate = 30\<rparr>),
     pstates = [30 \<mapsto> \<lparr>p_rpos = 0, p_wpos = 0, buf = (\<lambda>_. 0), isclosed = False, ref_count = 1\<rparr>],
     pipe_fs = 1, proot = 10, pipe_list = [20], pipe_locked = False, kblocks = [Some 41, Some 42]\<rparr>"

lemma demo_pvfs_refs: "refs demo_pvfs = (\<lambda>_. 0)(10 := 2, 20 := 1)" "opens demo_pvfs = (\<lambda>_. 0)(20 := 1)"
  by (auto simp: demo_pvfs_def refs_def opens_def fun_eq_iff)

lemma demo_pvfs_pin: "is_pin n demo_pvfs \<longleftrightarrow> n = 20"
  by (auto simp: is_pin_def demo_pvfs_def)

lemma demo_pvfs_ok: "pipe_inv demo_pvfs" "starts_ok is_pipe_fs demo_pvfs" "roomy demo_pvfs"
proof -
  have sh: "sharers demo_pvfs s = (if s = 30 then {20} else {})" for s
    by (auto simp: sharers_def demo_pvfs_pin) (auto simp: demo_pvfs_def)
  have "nodes_ok demo_pvfs"
    unfolding nodes_ok_def demo_pvfs_pin by (auto simp: demo_pvfs_def split: if_splits)
  moreover have "shares_ok demo_pvfs"
    unfolding shares_ok_def sh by (auto simp: demo_pvfs_def)
  moreover have "names_ok demo_pvfs"
    unfolding names_ok_def demo_pvfs_pin by (auto simp: demo_pvfs_def)
  moreover have "blocks_ok demo_pvfs"
    by (auto simp: blocks_ok_def demo_pvfs_def)
  ultimately show "pipe_inv demo_pvfs"
    by (simp add: pipe_inv_def pipe_inv0_def demo_pvfs_def)
  show "roomy demo_pvfs"
    by (simp add: roomy_def demo_pvfs_refs)
  show "starts_ok is_pipe_fs demo_pvfs"
    by (auto simp: starts_ok_def demo_pvfs_refs) (auto simp: demo_pvfs_def is_pipe_fs_def)
qed

text \<open>C20: Opening a pipe by name, with any flags, does not panic when the path below the device has the form the file system
  wants and no count of references is near its limit.  When it succeeds, the inode handed back has one reference and one opening more than before, and no other count
  changes; when it fails, no count changes at all, although references to the root directory, to the current directory
  and to both ends of the pipe are taken on the way.  The invariant of the file system is kept.\<close>

theorem vfs_open_counts:
  assumes "pipe_inv k" "starts_ok is_pipe_fs k" "roomy k" "pipe_subpath_ok (subpath path)"
  shows "\<exists>r m k'. vfs_open pipe_ops path fl k = Some (r, m, k') \<and> pipe_inv k' \<and> starts_ok is_pipe_fs k' \<and> vfs_frame k k' \<and>
    (if r = 0 then \<exists>n. m = Some n \<and> refs k' = (refs k)(n := refs k n + 1) \<and> opens k' = (opens k)(n := opens k n + 1)
     else m = None \<and> refs k' = refs k \<and> opens k' = opens k)"
proof -
  have h: "pipe.held k {#} {#} k"
    by (rule pipe.held_refl [OF assms(1-3)])
  obtain r m k' where "vfs_open pipe_ops path fl k = Some (r, m, k')" "pipe.opened k {#} {#} (r, m, k')"
    using pipe.vfs_open_held [OF h _ assms(4), of fl] by auto
  then show ?thesis
    using pipe.opened_done by blast
qed

theorem vfs_open_counts_witness:
  "\<exists>r m k'. vfs_open pipe_ops ''pipe:w_p'' (O_WRONLY OR O_CREAT) demo_pvfs = Some (r, m, k') \<and> pipe_inv k' \<and>
    (if r = 0 then \<exists>n. m = Some n \<and> refs k' = (refs demo_pvfs)(n := refs demo_pvfs n + 1) else refs k' = refs demo_pvfs)"
proof -
  have "pipe_subpath_ok (subpath ''pipe:w_p'')"
    by (simp add: subpath_def skip_slashes_def pipe_subpath_ok_def pipe_path_ok_def)
  from vfs_open_counts [OF demo_pvfs_ok this, of "O_WRONLY OR O_CREAT"] show ?thesis
    by (auto split: if_splits)
qed

text \<open>The calls that change the name space (unlinking, making a directory, a link or a symbolic link, renaming, reading a
  link) give back every reference they took, on every path through them: whatever they return, all counts of references
  and of openings are as before, the invariant is kept and nothing panics.\<close>

theorem vfs_calls_balanced:
  assumes "pipe_inv k" "starts_ok is_pipe_fs k" "roomy k" "pipe_subpath_ok (subpath path)" "pipe_subpath_ok (subpath path')"
  defines "balanced \<equiv> \<lambda>k'. pipe_inv k' \<and> starts_ok is_pipe_fs k' \<and> vfs_frame k k' \<and> refs k' = refs k \<and> opens k' = opens k"
  shows "(\<exists>r k'. vfs_unlink pipe_ops path k = Some (r, k') \<and> balanced k') \<and>
    (\<exists>r k'. vfs_mkdir pipe_ops path k = Some (r, k') \<and> balanced k') \<and>
    (\<exists>r k'. vfs_symlink pipe_ops old path k = Some (r, k') \<and> balanced k') \<and>
    (\<exists>r k'. vfs_rename pipe_ops path path' k = Some (r, k') \<and> balanced k') \<and>
    (\<exists>r k'. vfs_link pipe_ops path path' k = Some (r, k') \<and> balanced k') \<and>
    (\<exists>r iob' k'. vfs_readlink pipe_ops path iob k = Some (r, iob', k') \<and> balanced k')"
proof -
  have h: "pipe.held k {#} {#} k"
    by (rule pipe.held_refl [OF assms(1-3)])
  have b: "balanced k'" if "pipe.held k {#} {#} k'" for k'
    using pipe.held_done [OF that] by (simp add: balanced_def)
  have ip: "\<exists>r k'. in_parent pipe_ops f path k = Some (r, k') \<and> balanced k'"
    if "\<And>n q k. pipe_inv k \<Longrightarrow> counts_ok k \<Longrightarrow> 0 < refs k n \<Longrightarrow> pipe_subpath_ok q \<Longrightarrow>
      \<exists>r k'. f n q k = Some (r, k') \<and> fs_step pipe_inv is_pipe_fs None k k'" for f
    using pipe.in_parent_held [OF h _ assms(4), of f] that b by fastforce
  have "\<exists>r k'. vfs_unlink pipe_ops path k = Some (r, k') \<and> balanced k'"
    unfolding vfs_unlink_def by (rule ip) (rule pipe.unlink)
  moreover have "\<exists>r k'. vfs_mkdir pipe_ops path k = Some (r, k') \<and> balanced k'"
    unfolding vfs_mkdir_def by (rule ip) (rule pipe.mkdir)
  moreover have "\<exists>r k'. vfs_symlink pipe_ops old path k = Some (r, k') \<and> balanced k'"
    unfolding vfs_symlink_def by (rule ip) (rule pipe.symlink)
  moreover have "\<exists>r k'. vfs_rename pipe_ops path path' k = Some (r, k') \<and> balanced k'"
    using pipe.rename_held [OF h _ assms(4,5)] b by auto
  moreover have "\<exists>r k'. vfs_link pipe_ops path path' k = Some (r, k') \<and> balanced k'"
    using pipe.link_held [OF h _ assms(4,5)] b by auto
  moreover have "\<exists>r iob' k'. vfs_readlink pipe_ops path iob k = Some (r, iob', k') \<and> balanced k'"
    using pipe.readlink_held [OF h _ assms(4), of iob] b by auto
  ultimately show ?thesis by blast
qed

theorem vfs_calls_balanced_witness:
  "\<exists>r k'. vfs_rename pipe_ops ''/r_p'' ''pipe:w_p'' demo_pvfs = Some (r, k') \<and> refs k' = refs demo_pvfs \<and> opens k' = opens demo_pvfs"
proof -
  have "pipe_subpath_ok (subpath ''/r_p'')" "pipe_subpath_ok (subpath ''pipe:w_p'')"
    by (simp_all add: subpath_def skip_slashes_def pipe_subpath_ok_def pipe_path_ok_def)
  from vfs_calls_balanced [OF demo_pvfs_ok this, of "''x''" "iobuf_init 0 0 0"] show ?thesis
    by blast
qed

subsection \<open>Two ways to stop the kernel\<close>

text \<open>C23: A path that names the pipe device but not a pipe stops the kernel: opening \<open>pipe:x\<close> for a name \<open>x\<close> that does not start
  with \<open>r_\<close> or \<open>w_\<close> fails the assertion in \<open>pipe_root_lookup\<close> (or \<open>pipe_root_lookup_parent\<close>), which checks a string that comes
  from the user program.\<close>

theorem pipe_bad_name_panics:
  assumes k: "pipe_inv k" "starts_ok is_pipe_fs k" "roomy k"
    and dev: "find_vdev (\<lambda>d. devname d = ''pipe'') (vdevs k) (vdev_list k) = Some v" "dev_fs (vdevs k v) = Some (pipe_fs k)"
    and x: "x \<noteq> []" "hd x \<noteq> CHR ''/''" "\<not> pipe_path_ok x" and fl: "fl AND O_ACCMODE = O_RDONLY \<or> fl AND O_ACCMODE = O_WRONLY" "fl AND O_TRUNC = 0"
  shows "vfs_open pipe_ops (''pipe:'' @ x) fl k = None"
proof -
  have h: "pipe.held k {#} {#} k"
    by (rule pipe.held_refl [OF k])
  obtain k1 where k1: "ref_inc (proot k) k = Some k1" "proot k1 = proot k" "fs_step pipe_inv is_pipe_fs (Some (proot k)) k k1"
    using root_ref_inc [OF k(1)] by blast
  have h1: "pipe.held k {#proot k#} {#} k1"
    using pipe.held_gotE [OF h k1(3)] by simp
  have e: "(\<lambda>d. ''pipe'' = devname d) = (\<lambda>d. devname d = ''pipe'')"
    by (rule ext) (rule eq_commute)
  have name: "find_vdev (\<lambda>d. ''pipe'' = devname d) (vdevs k) (vdev_list k) = Some v"
    unfolding e by (rule dev(1))
  have "fs_get_root pipe_ops (pipe_fs k) k = Some (Some (proot k), k1)"
    using k1 by (simp add: pipe_ops_def pipe_node_ops_def)
  then have root: "vfs_get_root pipe_ops ''pipe'' k = Some (0, Some (proot k), k1)"
    unfolding vfs_get_root_def name by (simp add: dev(2))
  have sep: "first_sep 0 (''pipe:'' @ x) = Some (4, CHR '':'')"
    by simp
  have sub: "skip_slashes x = x"
    using x(1,2) by (cases x) (simp_all add: skip_slashes_def)
  have gd: "get_device pipe_ops (''pipe:'' @ x) k = Some (0, x, Some (proot k), k1)"
    using root sub unfolding get_device_def sep by simp
  have "\<not> is_pin (proot k) k1"
  proof -
    have "nodes_ok k1" using k1(3) by (simp add: fs_step_def cnt_step_def pipe_inv_def pipe_inv0_def)
    then show ?thesis
      using k1(2) node_okD(2) [of k1 "proot k1"] by (auto simp: is_pin_def split: option.splits)
  qed
  then have "op_lookup pipe_ops (proot k) x k1 = None" "op_lookup_parent pipe_ops (proot k) x k1 = None"
    using x(3) by (simp_all add: pipe_ops_def pipe_root_lookup_def pipe_root_lookup_parent_def kassert_def)
  then have "vfs_lookup pipe_ops (''pipe:'' @ x) k = None" "vfs_lookup_parent pipe_ops (''pipe:'' @ x) k = None"
    using gd x(1) pipe.held_check [OF h1] unfolding vfs_lookup_def vfs_lookup_parent_def gd by simp_all
  then have "vfs_open_lookup pipe_ops (''pipe:'' @ x) fl k = None"
    unfolding vfs_open_lookup_def by simp
  then show ?thesis
    using fl unfolding vfs_open_def Let_def by auto
qed

theorem pipe_bad_name_panics_witness:
  "vfs_open pipe_ops ''pipe:x'' 0 demo_pvfs = None"
proof -
  have "find_vdev (\<lambda>d. devname d = ''pipe'') (vdevs demo_pvfs) (vdev_list demo_pvfs) = Some 5"
    "dev_fs (vdevs demo_pvfs 5) = Some (pipe_fs demo_pvfs)"
    by (simp_all add: demo_pvfs_def)
  from pipe_bad_name_panics [OF demo_pvfs_ok this, of "''x''" 0] show ?thesis
    by (simp add: pipe_path_ok_def)
qed

text \<open>C24: Creating a named pipe exclusively can lock up the kernel: while another process is between dropping the last reference
  to the inode of that name and taking the lock in \<open>pipe_inode_reclaim\<close>, so that the inode is still listed with the count 0,
  \<open>pipe_root_create\<close> with \<open>excl\<close> finds it, drops the reference it took, and so calls \<open>pipe_inode_reclaim\<close> while it holds the lock
  itself: it waits for itself forever.  Without \<open>excl\<close> the same call returns the inode.\<close>

theorem pipe_excl_deadlock:
  assumes dir: "inodes k dir = Some d" "in_fs d = Some (pipe_fs k)" and k: "\<not> pipe_locked k" "pipe_list k = [n]"
    and n: "inodes k n = Some i" "in_type i = pipe_inode_info" "inode_ref_count i = 0" "inode_open_count i = 0"
    and pin: "pins k n = \<lparr>pin_type = PIN_RDONLY, pname = Some name, reclaim_count = 1, pstate = s\<rparr>"
  shows "pipe_root_create dir (''r_'' @ name) True k = None \<and> (\<exists>k'. pipe_root_create dir (''r_'' @ name) False k = Some (0, Some n, k'))"
proof -
  have ok: "pipe_path_ok (''r_'' @ name)" by (simp add: pipe_path_ok_def)
  let ?K = "k\<lparr>pipe_locked := True\<rparr>"
  let ?K1 = "?K\<lparr>inodes := (inodes k)(n \<mapsto> i\<lparr>inode_ref_count := 1\<rparr>), pins := (pins k)(n := (pins k n)\<lparr>reclaim_count := 2\<rparr>)\<rparr>"
  have l: "lookup_pipe_nolock name ?K = Some (Some n, None, ?K1)"
    using k n pin by (simp add: lookup_pipe_nolock_def inode_ref_inc_def kassert_def)
  have "pipe_inode_reclaim n (?K1\<lparr>inodes := (inodes k)(n \<mapsto> i\<lparr>inode_ref_count := 0\<rparr>)\<rparr>) = None"
    using n pin by (simp add: pipe_inode_reclaim_def vop_pin_def lock_pipe_def kassert_def)
  then have "ref_dec pipe_node_ops n ?K1 = None"
    using n by (simp add: ref_dec_def inode_ref_dec_def inode_check_def pipe_node_ops_def is_pin_def kassert_def Let_def)
  then show ?thesis
    using ok dir k(1) l by (simp add: pipe_root_create_def lock_pipe_def kassert_def Let_def)
qed

text \<open>The demonstration state with the reading end about to be reclaimed.\<close>

definition demo_zombie :: pipe_vfs where
  "demo_zombie = demo_pvfs\<lparr>inodes := (inodes demo_pvfs)(20 \<mapsto>
     \<lparr>in_type = pipe_inode_info, inode_ref_count = 0, inode_open_count = 0, in_fs = Some 1\<rparr>)\<rparr>"

theorem pipe_excl_deadlock_witness: "pipe_root_create 10 ''r_p'' True demo_zombie = None"
  using pipe_excl_deadlock [of demo_zombie 10 "\<lparr>in_type = pipe_root_info, inode_ref_count = 2, inode_open_count = 0, in_fs = Some 1\<rparr>"
      20 "\<lparr>in_type = pipe_inode_info, inode_ref_count = 0, inode_open_count = 0, in_fs = Some 1\<rparr>" "''p''" 30]
  by (simp add: demo_zombie_def demo_pvfs_def)

end
