(* ===== verification/File.thy ===== *)
theory File
  imports Pipe_Fs
begin

text \<open>
  Open files (\<^verbatim>\<open>kern/fs/file.c\<close>) and the table of open files that the threads of a process share (\<^verbatim>\<open>kern/fs/fs.c\<close>).

  A \<^verbatim>\<open>struct file *\<close> is a pair of the table (an address in \<open>fs_structs\<close>) and an index.  The operations that may block in the file
  system (reading, writing and the others) are a composition of an entering part, which checks the descriptor and takes the
  file, the call of the inode's operation, and a leaving part, which moves the position and gives the file back; other
  threads run between the parts.  Positions are of type \<^verbatim>\<open>off_t\<close>, a signed 32-bit integer.
\<close>

type_synonym fptr = "addr \<times> nat"

abbreviation FS_STRUCT_NENTRY :: nat where "FS_STRUCT_NENTRY \<equiv> 145"
abbreviation NO_FD :: int where "NO_FD \<equiv> - 0x9527"
abbreviation LSEEK_SET :: int where "LSEEK_SET \<equiv> 0"
abbreviation LSEEK_CUR :: int where "LSEEK_CUR \<equiv> 1"
abbreviation LSEEK_END :: int where "LSEEK_END \<equiv> 2"

definition off_t :: "int \<Rightarrow> int" where
  "off_t x = sint (word_of_int x :: u32)"

definition testfd :: "int \<Rightarrow> bool" where
  "testfd fd' \<longleftrightarrow> fd' \<ge> 0 \<and> fd' < int FS_STRUCT_NENTRY"

definition file_at :: "fptr \<Rightarrow> 'a vfs_scheme \<Rightarrow> file_struct" where
  "file_at p k = filemap (fs_structs k (fst p)) (snd p)"

definition upd_file :: "fptr \<Rightarrow> (file_struct \<Rightarrow> file_struct) \<Rightarrow> 'a vfs_scheme \<Rightarrow> 'a vfs_scheme" where
  "upd_file p g k = k\<lparr>fs_structs := (fs_structs k)(fst p := (fs_structs k (fst p))
     \<lparr>filemap := (filemap (fs_structs k (fst p)))(snd p := g (filemap (fs_structs k (fst p)) (snd p)))\<rparr>)\<rparr>"

subsection \<open>The table\<close>

definition get_filemap :: "'a vfs_scheme \<Rightarrow> addr option" where
  "get_filemap k = do { kassert (fs_count (fs_structs k (current_fs k)) > 0); Some (current_fs k) }"

definition filemap_init :: "(nat \<Rightarrow> file_struct) \<Rightarrow> (nat \<Rightarrow> file_struct)" where
  "filemap_init m = (\<lambda>i. if i < FS_STRUCT_NENTRY then (m i)\<lparr>fopen_count := 0, status := FD_NONE, fd := int i\<rparr> else m i)"

text \<open>The end of \<open>filemap_alloc\<close>, at the label \<open>found\<close>.\<close>

definition filemap_found :: "fptr \<Rightarrow> 'a vfs_scheme \<Rightarrow> (int \<times> fptr option \<times> 'a vfs_scheme) option" where
  "filemap_found p k = do {
     kassert (fopen_count (file_at p k) = 0);
     Some (0, Some p, upd_file p (\<lambda>f. f\<lparr>status := FD_INIT, node := None\<rparr>) k)
   }"

definition filemap_alloc :: "int \<Rightarrow> 'a vfs_scheme \<Rightarrow> (int \<times> fptr option \<times> 'a vfs_scheme) option" where
  "filemap_alloc fd' k = do {
     f \<leftarrow> get_filemap k;
     (if fd' = NO_FD then
        (case find (\<lambda>i. status (file_at (f, i) k) = FD_NONE) [0..<FS_STRUCT_NENTRY] of
           Some i \<Rightarrow> filemap_found (f, i) k
         | None \<Rightarrow> Some (- E_MAX_OPEN, None, k))
      else if testfd fd' then
        if status (file_at (f, nat fd') k) = FD_NONE then filemap_found (f, nat fd') k
        else Some (- E_BUSY, None, k)
      else Some (- E_INVAL, None, k))
   }"

definition filemap_free :: "'a vfs_scheme vfs_ops \<Rightarrow> fptr \<Rightarrow> 'a vfs_scheme \<Rightarrow> 'a vfs_scheme option" where
  "filemap_free ops p k = do {
     kassert (status (file_at p k) = FD_INIT \<or> status (file_at p k) = FD_CLOSED);
     kassert (fopen_count (file_at p k) = 0);
     k \<leftarrow> (if status (file_at p k) = FD_CLOSED
           then do { n \<leftarrow> node (file_at p k); (_, k) \<leftarrow> vfs_close ops n k; Some k } else Some k);
     Some (upd_file p (\<lambda>f. f\<lparr>status := FD_NONE\<rparr>) k)
   }"

definition filemap_acquire :: "fptr \<Rightarrow> 'a vfs_scheme \<Rightarrow> 'a vfs_scheme option" where
  "filemap_acquire p k = do {
     kassert (status (file_at p k) = FD_OPENED);
     Some (upd_file p (\<lambda>f. f\<lparr>fopen_count := fopen_count f + 1\<rparr>) k)
   }"

definition filemap_release :: "'a vfs_scheme vfs_ops \<Rightarrow> fptr \<Rightarrow> 'a vfs_scheme \<Rightarrow> 'a vfs_scheme option" where
  "filemap_release ops p k = do {
     kassert (status (file_at p k) = FD_OPENED \<or> status (file_at p k) = FD_CLOSED);
     kassert (fopen_count (file_at p k) > 0);
     (let k = upd_file p (\<lambda>f. f\<lparr>fopen_count := fopen_count f - 1\<rparr>) k in
      if fopen_count (file_at p k) = 0 then filemap_free ops p k else Some k)
   }"

definition filemap_open :: "fptr \<Rightarrow> 'a vfs_scheme \<Rightarrow> 'a vfs_scheme option" where
  "filemap_open p k = do {
     kassert (status (file_at p k) = FD_INIT \<and> node (file_at p k) \<noteq> None);
     Some (upd_file p (\<lambda>f. f\<lparr>status := FD_OPENED, fopen_count := fopen_count f + 1\<rparr>) k)
   }"

definition filemap_close :: "'a vfs_scheme vfs_ops \<Rightarrow> fptr \<Rightarrow> 'a vfs_scheme \<Rightarrow> 'a vfs_scheme option" where
  "filemap_close ops p k = do {
     kassert (status (file_at p k) = FD_OPENED);
     kassert (fopen_count (file_at p k) > 0);
     (let k = upd_file p (\<lambda>f. f\<lparr>status := FD_CLOSED, fopen_count := fopen_count f - 1\<rparr>) k in
      if fopen_count (file_at p k) = 0 then filemap_free ops p k else Some k)
   }"

definition filemap_dup :: "fptr \<Rightarrow> fptr \<Rightarrow> 'a vfs_scheme \<Rightarrow> 'a vfs_scheme option" where
  "filemap_dup to from k = do {
     kassert (status (file_at to k) = FD_INIT \<and> status (file_at from k) = FD_OPENED);
     let k = upd_file to (\<lambda>f. f\<lparr>pos := pos (file_at from k), readable := readable (file_at from k), writable := writable (file_at from k)\<rparr>) k;
     n \<leftarrow> node (file_at from k);
     k \<leftarrow> ref_inc n k;
     (_, k) \<leftarrow> inode_open_inc n k;
     filemap_open to (upd_file to (\<lambda>f. f\<lparr>node := Some n\<rparr>) k)
   }"

definition fd2file :: "int \<Rightarrow> 'a vfs_scheme \<Rightarrow> (int \<times> fptr option) option" where
  "fd2file fd' k =
     (if testfd fd' then do {
        f \<leftarrow> get_filemap k;
        Some (if status (file_at (f, nat fd') k) = FD_OPENED \<and> fd (file_at (f, nat fd') k) = fd'
              then (0, Some (f, nat fd')) else (- E_INVAL, None))
      }
      else Some (- E_INVAL, None))"

definition file_testfd :: "int \<Rightarrow> bool \<Rightarrow> bool \<Rightarrow> 'a vfs_scheme \<Rightarrow> bool option" where
  "file_testfd fd' readable' writable' k = do {
     (ret, p) \<leftarrow> fd2file fd' k;
     (case p of
        None \<Rightarrow> Some False
      | Some p \<Rightarrow> Some (if readable' \<and> \<not> readable (file_at p k) then False
                        else if writable' \<and> \<not> writable (file_at p k) then False else True))
   }"

subsection \<open>Opening and closing\<close>

text \<open>The part of \<open>file_open\<close> after \<open>vfs_open\<close> returned the inode \<open>n\<close>.\<close>

definition file_open_finish :: "'a vfs_scheme vfs_ops \<Rightarrow> fptr \<Rightarrow> addr \<Rightarrow> u32 \<Rightarrow> 'a vfs_scheme \<Rightarrow> (int \<times> 'a vfs_scheme) option" where
  "file_open_finish ops p n open_flags k = do {
     let acc = open_flags AND O_ACCMODE;
     let k = upd_file p (\<lambda>f. f\<lparr>pos := 0\<rparr>) k;
     (ret, k) \<leftarrow>
       (if open_flags AND O_APPEND \<noteq> 0 then do {
          inode_check n k;
          (ret, stat, k) \<leftarrow> op_fstat ops n k;
          (if ret \<noteq> 0 then do { (_, k) \<leftarrow> vfs_close ops n k; k \<leftarrow> filemap_free ops p k; Some (ret, k) }
           else Some (0, upd_file p (\<lambda>f. f\<lparr>pos := off_t (int (st_size stat))\<rparr>) k))
        }
        else Some (0, k));
     (if ret \<noteq> 0 then Some (ret, k)
      else do {
        k \<leftarrow> filemap_open p (upd_file p (\<lambda>f. f\<lparr>node := Some n, readable := (acc = O_RDONLY \<or> acc = O_RDWR),
                                               writable := (acc = O_WRONLY \<or> acc = O_RDWR)\<rparr>) k);
        Some (fd (file_at p k), k)
      })
   }"

definition file_open :: "'a vfs_scheme vfs_ops \<Rightarrow> string \<Rightarrow> u32 \<Rightarrow> 'a vfs_scheme \<Rightarrow> (int \<times> 'a vfs_scheme) option" where
  "file_open ops path open_flags k =
     (let acc = open_flags AND O_ACCMODE in
      if acc \<noteq> O_RDONLY \<and> acc \<noteq> O_WRONLY \<and> acc \<noteq> O_RDWR then Some (- E_INVAL, k)
      else do {
        (ret, p, k) \<leftarrow> filemap_alloc NO_FD k;
        (case p of
           None \<Rightarrow> Some (ret, k)
         | Some p \<Rightarrow> do {
             (ret, n, k) \<leftarrow> vfs_open ops path open_flags k;
             (if ret \<noteq> 0 then do { k \<leftarrow> filemap_free ops p k; Some (ret, k) }
              else do { n \<leftarrow> n; file_open_finish ops p n open_flags k })
           })
      })"

definition file_close :: "'a vfs_scheme vfs_ops \<Rightarrow> int \<Rightarrow> 'a vfs_scheme \<Rightarrow> (int \<times> 'a vfs_scheme) option" where
  "file_close ops fd' k = do {
     (ret, p) \<leftarrow> fd2file fd' k;
     (case p of None \<Rightarrow> Some (ret, k) | Some p \<Rightarrow> do { k \<leftarrow> filemap_close ops p k; Some (0, k) })
   }"

definition file_dup :: "int \<Rightarrow> int \<Rightarrow> 'a vfs_scheme \<Rightarrow> (int \<times> 'a vfs_scheme) option" where
  "file_dup fd1 fd2 k = do {
     (ret, p1) \<leftarrow> fd2file fd1 k;
     (case p1 of
        None \<Rightarrow> Some (ret, k)
      | Some p1 \<Rightarrow> do {
          (ret, p2, k) \<leftarrow> filemap_alloc fd2 k;
          (case p2 of
             None \<Rightarrow> Some (ret, k)
           | Some p2 \<Rightarrow> do { k \<leftarrow> filemap_dup p2 p1 k; Some (fd (file_at p2 k), k) })
        })
   }"

subsection \<open>Transfers\<close>

text \<open>Entering: \<^const>\<open>Inl\<close> is an error, \<^const>\<open>Inr\<close> the file that was taken.  \<open>ok\<close> is the check of the descriptor's mode.\<close>

definition file_enter :: "(file_struct \<Rightarrow> bool) \<Rightarrow> int \<Rightarrow> 'a vfs_scheme \<Rightarrow> ((int + fptr) \<times> 'a vfs_scheme) option" where
  "file_enter ok fd' k = do {
     (ret, p) \<leftarrow> fd2file fd' k;
     (case p of
        None \<Rightarrow> Some (Inl ret, k)
      | Some p \<Rightarrow> if \<not> ok (file_at p k) then Some (Inl (- E_INVAL), k)
                  else do { k \<leftarrow> filemap_acquire p k; Some (Inr p, k) })
   }"

definition file_leave :: "'a vfs_scheme vfs_ops \<Rightarrow> fptr \<Rightarrow> nat \<Rightarrow> 'a vfs_scheme \<Rightarrow> 'a vfs_scheme option" where
  "file_leave ops p copied k =
     (let k = (if status (file_at p k) = FD_OPENED then upd_file p (\<lambda>f. f\<lparr>pos := off_t (pos f + int copied)\<rparr>) k else k)
      in filemap_release ops p k)"

text \<open>The results are the return value, the number of bytes copied and the state.\<close>

definition file_rw :: "(file_struct \<Rightarrow> bool) \<Rightarrow> (addr \<Rightarrow> iobuf \<Rightarrow> 'a vfs_scheme \<Rightarrow> (int \<times> iobuf \<times> 'a vfs_scheme) option) \<Rightarrow> 'a vfs_scheme vfs_ops \<Rightarrow>
    int \<Rightarrow> addr \<Rightarrow> nat \<Rightarrow> 'a vfs_scheme \<Rightarrow> (int \<times> nat \<times> 'a vfs_scheme) option" where
  "file_rw ok vop ops fd' base len k = do {
     (r, k) \<leftarrow> file_enter ok fd' k;
     (case r of
        Inl ret \<Rightarrow> Some (ret, 0, k)
      | Inr p \<Rightarrow> do {
          n \<leftarrow> node (file_at p k);
          inode_check n k;
          (ret, iob, k) \<leftarrow> vop n (iobuf_init base len (pos (file_at p k))) k;
          k \<leftarrow> file_leave ops p (iobuf_used iob) k;
          Some (ret, iobuf_used iob, k)
        })
   }"

definition file_read :: "'a vfs_scheme vfs_ops \<Rightarrow> int \<Rightarrow> addr \<Rightarrow> nat \<Rightarrow> 'a vfs_scheme \<Rightarrow> (int \<times> nat \<times> 'a vfs_scheme) option" where
  "file_read ops = file_rw readable (op_read ops) ops"

definition file_write :: "'a vfs_scheme vfs_ops \<Rightarrow> int \<Rightarrow> addr \<Rightarrow> nat \<Rightarrow> 'a vfs_scheme \<Rightarrow> (int \<times> nat \<times> 'a vfs_scheme) option" where
  "file_write ops = file_rw writable (op_write ops) ops"

text \<open>The operations that do not transfer data only take the file and give it back.\<close>

definition file_call :: "'a vfs_scheme vfs_ops \<Rightarrow> int \<Rightarrow> (fptr \<Rightarrow> addr \<Rightarrow> 'a vfs_scheme \<Rightarrow> (int \<times> 'b \<times> 'a vfs_scheme) option) \<Rightarrow> 'b \<Rightarrow>
    'a vfs_scheme \<Rightarrow> (int \<times> 'b \<times> 'a vfs_scheme) option" where
  "file_call ops fd' body dflt k = do {
     (r, k) \<leftarrow> file_enter (\<lambda>_. True) fd' k;
     (case r of
        Inl ret \<Rightarrow> Some (ret, dflt, k)
      | Inr p \<Rightarrow> do {
          n \<leftarrow> node (file_at p k);
          (ret, x, k) \<leftarrow> body p n k;
          k \<leftarrow> filemap_release ops p k;
          Some (ret, x, k)
        })
   }"

definition file_fstat :: "'a vfs_scheme vfs_ops \<Rightarrow> int \<Rightarrow> stat \<Rightarrow> 'a vfs_scheme \<Rightarrow> (int \<times> stat \<times> 'a vfs_scheme) option" where
  "file_fstat ops fd' st k = file_call ops fd' (\<lambda>p n k. do { inode_check n k; op_fstat ops n k }) st k"

definition file_fsync :: "'a vfs_scheme vfs_ops \<Rightarrow> int \<Rightarrow> 'a vfs_scheme \<Rightarrow> (int \<times> unit \<times> 'a vfs_scheme) option" where
  "file_fsync ops fd' k =
     file_call ops fd' (\<lambda>p n k. do { inode_check n k; (ret, k) \<leftarrow> op_fsync ops n k; Some (ret, (), k) }) () k"

text \<open>The buffer is the name field of the directory entry, of \<open>namelen\<close> bytes; the result is the entry's new offset.\<close>

definition file_getdirentry :: "'a vfs_scheme vfs_ops \<Rightarrow> int \<Rightarrow> addr \<Rightarrow> nat \<Rightarrow> int \<Rightarrow> 'a vfs_scheme \<Rightarrow> (int \<times> int \<times> 'a vfs_scheme) option" where
  "file_getdirentry ops fd' name namelen offset k =
     file_call ops fd' (\<lambda>p n k. do {
       inode_check n k;
       (ret, iob, k) \<leftarrow> op_getdirentry ops n (iobuf_init name namelen offset) k;
       Some (ret, if ret = 0 then off_t (offset + int (iobuf_used iob)) else offset, k)
     }) offset k"

definition file_seek :: "'a vfs_scheme vfs_ops \<Rightarrow> int \<Rightarrow> int \<Rightarrow> int \<Rightarrow> 'a vfs_scheme \<Rightarrow> (int \<times> unit \<times> 'a vfs_scheme) option" where
  "file_seek ops fd' pos' whence k =
     file_call ops fd' (\<lambda>p n k. do {
       (ret, pos', k) \<leftarrow>
         (if whence = LSEEK_SET then Some (0, pos', k)
          else if whence = LSEEK_CUR then Some (0, off_t (pos' + pos (file_at p k)), k)
          else if whence = LSEEK_END then do {
            inode_check n k;
            (ret, stat, k) \<leftarrow> op_fstat ops n k;
            Some (ret, if ret = 0 then off_t (pos' + int (st_size stat)) else pos', k)
          }
          else Some (- E_INVAL, pos', k));
       (if ret = 0 then do {
          inode_check n k;
          (ret, k) \<leftarrow> op_tryseek ops n pos' k;
          Some (ret, (), if ret = 0 then upd_file p (\<lambda>f. f\<lparr>pos := pos'\<rparr>) k else k)
        }
        else Some (ret, (), k))
     }) () k"

subsection \<open>Pipes\<close>

text \<open>The failing exit of \<open>file_pipe\<close> frees the entries that were allocated.\<close>

definition free_entries :: "'a vfs_scheme vfs_ops \<Rightarrow> fptr list \<Rightarrow> 'a vfs_scheme \<Rightarrow> 'a vfs_scheme option" where
  "free_entries ops ps k = fold (\<lambda>p k. do { k \<leftarrow> k; filemap_free ops p k }) ps (Some k)"

definition file_pipe :: "'a pk \<Rightarrow> (int \<times> (int \<times> int) option \<times> 'a pk) option" where
  "file_pipe k = do {
     (ret, p0, k) \<leftarrow> filemap_alloc NO_FD k;
     (case p0 of
        None \<Rightarrow> Some (ret, None, k)
      | Some p0 \<Rightarrow> do {
          (ret, p1, k) \<leftarrow> filemap_alloc NO_FD k;
          (case p1 of
             None \<Rightarrow> do { k \<leftarrow> free_entries pipe_ops [p0] k; Some (ret, None, k) }
           | Some p1 \<Rightarrow> do {
               (ret, nodes, k) \<leftarrow> pipe_open k;
               (case nodes of
                  None \<Rightarrow> do { k \<leftarrow> free_entries pipe_ops [p0, p1] k; Some (ret, None, k) }
                | Some (r, w) \<Rightarrow> do {
                    k \<leftarrow> filemap_open p0 (upd_file p0 (\<lambda>f. f\<lparr>node := Some r, pos := 0, readable := True, writable := False\<rparr>) k);
                    k \<leftarrow> filemap_open p1 (upd_file p1 (\<lambda>f. f\<lparr>node := Some w, pos := 0, readable := False, writable := True\<rparr>) k);
                    Some (0, Some (fd (file_at p0 k), fd (file_at p1 k)), k)
                  })
             })
        })
   }"

text \<open>\<open>name_ok\<close> tells whether \<open>stradd\<close> gets memory for the name.\<close>

definition file_mkfifo :: "'a vfs_scheme vfs_ops \<Rightarrow> string \<Rightarrow> u32 \<Rightarrow> bool \<Rightarrow> 'a vfs_scheme \<Rightarrow> (int \<times> 'a vfs_scheme) option" where
  "file_mkfifo ops name open_flags name_ok k =
     (let acc = open_flags AND O_ACCMODE; readonly = (acc = O_RDONLY) in
      if acc \<noteq> O_RDONLY \<and> acc \<noteq> O_WRONLY then Some (- E_INVAL, k)
      else do {
        (ret, p, k) \<leftarrow> filemap_alloc NO_FD k;
        (case p of
           None \<Rightarrow> Some (ret, k)
         | Some p \<Rightarrow>
             if \<not> name_ok then do { k \<leftarrow> filemap_free ops p k; Some (- E_NO_MEM, k) }
             else do {
               (ret, n, k) \<leftarrow> vfs_open ops ((if readonly then ''pipe:r_'' else ''pipe:w_'') @ name) open_flags k;
               (if ret \<noteq> 0 then do { k \<leftarrow> filemap_free ops p k; Some (ret, k) }
                else do {
                  k \<leftarrow> filemap_open p (upd_file p (\<lambda>f. f\<lparr>node := n, pos := 0, readable := readonly, writable := \<not> readonly\<rparr>) k);
                  Some (fd (file_at p k), k)
                })
             })
      })"

subsection \<open>Creating, copying and destroying a table\<close>

text \<open>The argument is the block that \<^verbatim>\<open>kmalloc\<close> returns, with the entries it contains.\<close>

definition fs_create :: "(addr \<times> (nat \<Rightarrow> file_struct)) option \<Rightarrow> 'a vfs_scheme \<Rightarrow> addr option \<times> 'a vfs_scheme" where
  "fs_create block k =
     (case block of
        None \<Rightarrow> (None, k)
      | Some (f, m) \<Rightarrow> (Some f, k\<lparr>fs_structs := (fs_structs k)(f := \<lparr>pwd = None, filemap = filemap_init m, fs_count = 0\<rparr>)\<rparr>))"

fun close_loop :: "'a vfs_scheme vfs_ops \<Rightarrow> bool \<Rightarrow> addr \<Rightarrow> nat list \<Rightarrow> 'a vfs_scheme \<Rightarrow> 'a vfs_scheme option" where
  "close_loop ops strict f [] k = Some k"
| "close_loop ops strict f (i # is) k = do {
     k \<leftarrow> (if status (file_at (f, i) k) = FD_OPENED then filemap_close ops (f, i) k else Some k);
     kassert (strict \<longrightarrow> status (file_at (f, i) k) = FD_NONE);
     close_loop ops strict f is k
   }"

definition fs_destroy :: "'a vfs_scheme vfs_ops \<Rightarrow> addr \<Rightarrow> 'a vfs_scheme \<Rightarrow> 'a vfs_scheme option" where
  "fs_destroy ops f k = do {
     kassert (fs_count (fs_structs k f) = 0);
     k \<leftarrow> (case pwd (fs_structs k f) of None \<Rightarrow> Some k | Some d \<Rightarrow> ref_dec ops d k);
     close_loop ops True f [0..<FS_STRUCT_NENTRY] k
   }"

definition fs_closeall :: "'a vfs_scheme vfs_ops \<Rightarrow> addr \<Rightarrow> 'a vfs_scheme \<Rightarrow> 'a vfs_scheme option" where
  "fs_closeall ops f k = do {
     kassert (fs_count (fs_structs k f) > 0);
     close_loop ops False f [2..<FS_STRUCT_NENTRY] k
   }"

fun fs_dup_loop :: "addr \<Rightarrow> addr \<Rightarrow> nat list \<Rightarrow> 'a vfs_scheme \<Rightarrow> 'a vfs_scheme option" where
  "fs_dup_loop to from [] k = Some k"
| "fs_dup_loop to from (i # is) k = do {
     k \<leftarrow> (if status (file_at (from, i) k) = FD_OPENED
           then filemap_dup (to, i) (from, i) (upd_file (to, i) (\<lambda>f. f\<lparr>status := FD_INIT\<rparr>) k) else Some k);
     fs_dup_loop to from is k
   }"

definition dup_fs :: "addr \<Rightarrow> addr \<Rightarrow> 'a vfs_scheme \<Rightarrow> (int \<times> 'a vfs_scheme) option" where
  "dup_fs to from k = do {
     kassert (fs_count (fs_structs k to) = 0 \<and> fs_count (fs_structs k from) > 0);
     let d = pwd (fs_structs k from);
     let k = k\<lparr>fs_structs := (fs_structs k)(to := (fs_structs k to)\<lparr>pwd := d\<rparr>)\<rparr>;
     k \<leftarrow> (case d of None \<Rightarrow> Some k | Some n \<Rightarrow> ref_inc n k);
     k \<leftarrow> fs_dup_loop to from [0..<FS_STRUCT_NENTRY] k;
     Some (0, k)
   }"

end
