(* ===== verification/File_Inv.thy ===== *)
theory File_Inv
  imports File
begin

text \<open>
  The table of open files under interleaving.  The threads that share a table may be inside several operations on the same
  file at once; \<open>busy\<close> lists the files of the operations that have taken their file and not given it back.  The invariant
  says that the count of every entry is the number of those operations, plus one while the descriptor is open, and that
  the entries account for references and openings of their inodes.  Every operation, and every part of one between two
  points where other threads can run, keeps it and fails no assertion.  \<open>starting\<close> lists the entries that a call of
  \<^verbatim>\<open>file_open\<close> has allocated and not yet finished with, together with the inode once \<open>vfs_open\<close> has returned it.
\<close>

subsection \<open>Entries and the inodes they hold\<close>

abbreviation cur_file :: "nat \<Rightarrow> 'a vfs_scheme \<Rightarrow> file_struct" where
  "cur_file i k \<equiv> file_at (current_fs k, i) k"

definition holds :: "file_struct \<Rightarrow> addr \<Rightarrow> bool" where
  "holds f n \<longleftrightarrow> (status f = FD_OPENED \<or> status f = FD_CLOSED) \<and> node f = Some n"

definition slots :: "'a vfs_scheme \<Rightarrow> addr \<Rightarrow> nat set" where
  "slots k n = {i. i < FS_STRUCT_NENTRY \<and> holds (cur_file i k) n}"

definition entry_ok :: "file_struct \<Rightarrow> nat \<Rightarrow> nat \<Rightarrow> bool" where
  "entry_ok f i use \<longleftrightarrow> fd f = int i \<and>
     (case status f of
        FD_NONE \<Rightarrow> fopen_count f = 0 \<and> use = 0
      | FD_INIT \<Rightarrow> fopen_count f = 0 \<and> use = 0
      | FD_OPENED \<Rightarrow> fopen_count f = int use + 1 \<and> node f \<noteq> None
      | FD_CLOSED \<Rightarrow> fopen_count f = int use \<and> 0 < use \<and> node f \<noteq> None)"

text \<open>The inodes that the kernel itself keeps for the start of path names.\<close>

definition start_nodes :: "'a vfs_scheme \<Rightarrow> addr set" where
  "start_nodes k = set_option (get_cwd k) \<union> set_option (bootfs_node k) \<union>
     {n. \<exists>v\<in>set (vdev_list k). dev_fs (vdevs k v) = None \<and> devnode (vdevs k v) = Some n}"

type_synonym pending = "(nat \<times> addr option) list"

definition pend :: "pending \<Rightarrow> addr \<Rightarrow> int" where
  "pend starting n = int (count_list (map snd starting) (Some n))"

definition table_ok :: "fptr list \<Rightarrow> pending \<Rightarrow> 'a vfs_scheme \<Rightarrow> bool" where
  "table_ok busy starting k \<longleftrightarrow> 0 < fs_count (fs_structs k (current_fs k)) \<and>
     (\<forall>i < FS_STRUCT_NENTRY. entry_ok (cur_file i k) i (count_list busy (current_fs k, i))) \<and>
     (\<forall>p\<in>set busy. fst p = current_fs k \<and> snd p < FS_STRUCT_NENTRY) \<and>
     distinct (map fst starting) \<and> (\<forall>i\<in>set (map fst starting). i < FS_STRUCT_NENTRY \<and> status (cur_file i k) = FD_INIT) \<and>
     (\<forall>n. int (card (slots k n)) + pend starting n \<le> opens k n) \<and>
     (\<forall>n. int (card (slots k n)) + pend starting n + of_bool (n \<in> start_nodes k) \<le> refs k n)"

lemma table_okD:
  assumes "table_ok busy starting k"
  shows "0 < fs_count (fs_structs k (current_fs k))"
    "i < FS_STRUCT_NENTRY \<Longrightarrow> entry_ok (cur_file i k) i (count_list busy (current_fs k, i))"
    "p \<in> set busy \<Longrightarrow> fst p = current_fs k \<and> snd p < FS_STRUCT_NENTRY"
    "int (card (slots k n)) + pend starting n \<le> opens k n"
    "int (card (slots k n)) + pend starting n + of_bool (n \<in> start_nodes k) \<le> refs k n"
    "distinct (map fst starting)" "j \<in> set (map fst starting) \<Longrightarrow> j < FS_STRUCT_NENTRY \<and> status (cur_file j k) = FD_INIT"
  using assms unfolding table_ok_def by blast+

lemma file_at_upd [simp]: "file_at p (upd_file p g k) = g (file_at p k)"
  by (simp add: file_at_def upd_file_def)

lemma file_at_upd_other: "p \<noteq> q \<Longrightarrow> file_at q (upd_file p g k) = file_at q k"
  by (cases p; cases q) (auto simp: file_at_def upd_file_def)

lemma upd_file_fields [simp]:
  "inodes (upd_file p g k) = inodes k" "current_fs (upd_file p g k) = current_fs k" "bootfs_node (upd_file p g k) = bootfs_node k"
  "vdevs (upd_file p g k) = vdevs k" "vdev_list (upd_file p g k) = vdev_list k" "vfs.more (upd_file p g k) = vfs.more k"
  "refs (upd_file p g k) = refs k" "opens (upd_file p g k) = opens k" "fs_of (upd_file p g k) = fs_of k"
  "pwd (fs_structs (upd_file p g k) a) = pwd (fs_structs k a)" "fs_count (fs_structs (upd_file p g k) a) = fs_count (fs_structs k a)"
  "start_nodes (upd_file p g k) = start_nodes k"
  by (auto simp: upd_file_def refs_def opens_def fs_of_def fun_eq_iff start_nodes_def)

lemma upd_file_comp: "upd_file p g (upd_file p h k) = upd_file p (\<lambda>f. g (h f)) k"
  by (cases p) (simp add: upd_file_def)

lemma upd_file_static: "same_static k (upd_file p g k)"
  by (simp add: same_static_def)

lemma frame_file_at: "vfs_frame k k' \<Longrightarrow> file_at p k' = file_at p k"
  by (simp add: vfs_frame_def file_at_def)

lemma frame_start_nodes: "vfs_frame k k' \<Longrightarrow> start_nodes k' = start_nodes k"
  by (simp add: vfs_frame_def start_nodes_def)

lemma frame_upd_file: "vfs_frame k k' \<Longrightarrow> vfs_frame (upd_file p g k) (upd_file p g k')"
  by (simp add: vfs_frame_def upd_file_def)

lemma slots_finite [simp]: "finite (slots k n)"
  by (simp add: slots_def)

lemma card_slots_upd:
  assumes "i < FS_STRUCT_NENTRY" "vfs_frame (upd_file (current_fs k, i) g k) k'"
  shows "int (card (slots k' n)) = int (card (slots k n)) - of_bool (holds (cur_file i k) n) + of_bool (holds (g (cur_file i k)) n)"
proof -
  have at: "cur_file j k' = (if j = i then g (cur_file i k) else cur_file j k)" for j
    using assms(2) frame_file_at [OF assms(2), of "(current_fs k, j)"] by (auto simp: vfs_frame_def file_at_upd_other)
  have "slots k' n = (if holds (g (cur_file i k)) n then insert i (slots k n) else slots k n - {i})"
    using assms(1) by (auto simp: slots_def at split: if_splits)
  moreover have "i \<in> slots k n \<longleftrightarrow> holds (cur_file i k) n"
    using assms(1) by (simp add: slots_def)
  moreover have "int (card (slots k n - {i})) = int (card (slots k n)) - of_bool (i \<in> slots k n)"
  proof (cases "i \<in> slots k n")
    case True
    then have "0 < card (slots k n)" by (auto simp: card_gt_0_iff)
    then show ?thesis using True by simp
  qed simp
  ultimately show ?thesis by (simp add: card_insert_if)
qed

lemma starts_ok_nodes:
  assumes "starts_ok is_fs k"
    and eq: "get_cwd k' = get_cwd k" "bootfs_node k' = bootfs_node k" "vdevs k' = vdevs k" "vdev_list k' = vdev_list k"
    and "keeps_fs k k'" "\<And>fs. is_fs fs k' \<longleftrightarrow> is_fs fs k" "\<And>n. n \<in> start_nodes k \<Longrightarrow> 0 < refs k' n"
  shows "starts_ok is_fs k'"
proof -
  have "0 < refs k' d \<and> (\<exists>fs. fs_of k' d = Some fs \<and> is_fs fs k')" if "get_cwd k = Some d" for d
  proof -
    have "0 < refs k d" "\<exists>fs. fs_of k d = Some fs \<and> is_fs fs k" using assms(1) that by (auto simp: starts_ok_def)
    moreover have "0 < refs k' d" using assms(8) [of d] that by (simp add: start_nodes_def)
    ultimately show ?thesis using assms(6,7) by (auto simp: keeps_fs_def)
  qed
  moreover have "0 < refs k' d" if "bootfs_node k = Some d" for d
    using assms(8) [of d] that by (simp add: start_nodes_def)
  moreover have "case dev_fs (vdevs k v) of Some fs \<Rightarrow> is_fs fs k'
      | None \<Rightarrow> mountable (vdevs k v) \<or> (\<exists>n. devnode (vdevs k v) = Some n \<and> 0 < refs k' n)" if v: "v \<in> set (vdev_list k)" for v
  proof -
    have old: "case dev_fs (vdevs k v) of Some fs \<Rightarrow> is_fs fs k
      | None \<Rightarrow> mountable (vdevs k v) \<or> (\<exists>n. devnode (vdevs k v) = Some n \<and> 0 < refs k n)"
      using assms(1) v by (simp add: starts_ok_def)
    show ?thesis
    proof (cases "dev_fs (vdevs k v)")
      case None
      then have "\<And>n. devnode (vdevs k v) = Some n \<Longrightarrow> 0 < refs k' n"
        using assms(8) v by (auto simp: start_nodes_def)
      then show ?thesis using old None by auto
    next
      case (Some fs)
      then show ?thesis using old assms(7) by simp
    qed
  qed
  ultimately show ?thesis
    unfolding starts_ok_def eq by blast
qed

definition file_inv :: "('a vfs_scheme \<Rightarrow> bool) \<Rightarrow> (addr \<Rightarrow> 'a vfs_scheme \<Rightarrow> bool) \<Rightarrow> fptr list \<Rightarrow> pending \<Rightarrow> 'a vfs_scheme \<Rightarrow> bool" where
  "file_inv fsinv is_fs busy starting k \<longleftrightarrow> fsinv k \<and> starts_ok is_fs k \<and> counts_ok k \<and> table_ok busy starting k"

lemma pend_nonneg: "0 \<le> pend starting n"
  by (simp add: pend_def)

lemma entry_holds: "entry_ok f i use \<Longrightarrow> status f = FD_OPENED \<or> status f = FD_CLOSED \<Longrightarrow> \<exists>n. node f = Some n \<and> holds f n"
  by (auto simp: entry_ok_def holds_def)

context inode_ops
begin

text \<open>One entry changes by \<open>g\<close>, and the counts change by what the entry holds before and after.\<close>

lemma file_inv_step:
  assumes inv: "file_inv fsinv is_fs busy starting k" and i: "i < FS_STRUCT_NENTRY" "c = current_fs k" and fr: "vfs_frame (upd_file (c, i) g k) k'"
    and k': "fsinv k'" "counts_ok k'" "keeps_fs k k'" "\<And>fs. is_fs fs k' \<longleftrightarrow> is_fs fs k"
    and e: "entry_ok (g (cur_file i k)) i (count_list busy' (c, i))"
    and b: "\<And>p. p \<noteq> (c, i) \<Longrightarrow> count_list busy' p = count_list busy p"
    and p: "distinct (map fst starting')" "\<And>j. j \<noteq> i \<Longrightarrow> j \<in> set (map fst starting') \<Longrightarrow> j \<in> set (map fst starting)"
      "i \<in> set (map fst starting') \<Longrightarrow> status (g (cur_file i k)) = FD_INIT"
    and r: "\<And>n. refs k' n - of_bool (holds (g (cur_file i k)) n) - pend starting' n = refs k n - of_bool (holds (cur_file i k) n) - pend starting n"
    and o: "\<And>n. opens k' n - of_bool (holds (g (cur_file i k)) n) - pend starting' n = opens k n - of_bool (holds (cur_file i k) n) - pend starting n"
  shows "file_inv fsinv is_fs busy' starting' k'"
proof -
  have t: "table_ok busy starting k" and st: "starts_ok is_fs k"
    using inv by (auto simp: file_inv_def)
  have cur: "current_fs k' = current_fs k" "fs_count (fs_structs k' a) = fs_count (fs_structs k a)" for a
    using fr by (auto simp: vfs_frame_def)
  have at: "cur_file j k' = (if j = i then g (cur_file i k) else cur_file j k)" for j
    using frame_file_at [OF fr, of "(current_fs k, j)"] cur(1) i(2) by (auto simp: file_at_upd_other)
  have starts: "start_nodes k' = start_nodes k"
    using frame_start_nodes [OF fr] by simp
  have slots: "int (card (slots k' n)) = int (card (slots k n)) - of_bool (holds (cur_file i k) n) + of_bool (holds (g (cur_file i k)) n)" for n
    using card_slots_upd [OF i(1), of k g k'] fr i(2) by simp
  have entry: "entry_ok (cur_file j k') j (count_list busy' (current_fs k, j))" if "j < FS_STRUCT_NENTRY" for j
    using table_okD(2) [OF t that] e b [of "(current_fs k, j)"] by (cases "j = i") (simp_all add: at i(2))
  have opens': "int (card (slots k' n)) + pend starting' n \<le> opens k' n" for n
    using table_okD(4) [OF t, of n] o [of n] slots [of n] by simp
  have refs': "int (card (slots k' n)) + pend starting' n + of_bool (n \<in> start_nodes k') \<le> refs k' n" for n
    using table_okD(5) [OF t, of n] r [of n] slots [of n] starts by simp
  have pending: "j < FS_STRUCT_NENTRY \<and> status (cur_file j k') = FD_INIT" if j: "j \<in> set (map fst starting')" for j
    using p(2) [of j] p(3) table_okD(7) [OF t, of j] i(1) j by (cases "j = i") (simp_all add: at)
  have busy: "fst p = current_fs k \<and> snd p < FS_STRUCT_NENTRY" if p': "p \<in> set busy'" for p
  proof (cases "p = (c, i)")
    case False
    then have "count_list busy p \<noteq> 0" using b [OF False] p' by (metis count_list_0_iff)
    then show ?thesis using table_okD(3) [OF t, of p] by (auto simp: count_list_0_iff)
  qed (simp add: i)
  have table: "table_ok busy' starting' k'"
    unfolding table_ok_def cur using table_okD(1) [OF t] entry [unfolded cur] busy p(1) pending [unfolded cur] opens' refs' by blast
  have pos: "0 < refs k' n" if "n \<in> start_nodes k" for n
    using refs' [of n] that starts pend_nonneg [of starting' n] by simp
  have "starts_ok is_fs k'"
    by (rule starts_ok_nodes [OF st _ _ _ _ k'(3,4) pos]) (use fr in \<open>simp_all add: vfs_frame_def\<close>)
  then show ?thesis
    using k'(1,2) table by (simp add: file_inv_def)
qed

text \<open>The common case of a change that touches no inode.\<close>

lemma file_inv_upd:
  assumes inv: "file_inv fsinv is_fs busy starting k" and i: "i < FS_STRUCT_NENTRY" "c = current_fs k"
    and e: "entry_ok (g (cur_file i k)) i (count_list busy' (c, i))" and h: "\<And>n. holds (g (cur_file i k)) n \<longleftrightarrow> holds (cur_file i k) n"
    and b: "\<And>p. p \<noteq> (c, i) \<Longrightarrow> count_list busy' p = count_list busy p"
    and p: "distinct (map fst starting')" "\<And>j. j \<noteq> i \<Longrightarrow> j \<in> set (map fst starting') \<Longrightarrow> j \<in> set (map fst starting)"
      "i \<in> set (map fst starting') \<Longrightarrow> status (g (cur_file i k)) = FD_INIT" "pend starting' = pend starting"
  shows "file_inv fsinv is_fs busy' starting' (upd_file (c, i) g k)"
proof (rule file_inv_step [where g = g, OF inv i _ _ _ _ _ e b p(1-3)])
  show "vfs_frame (upd_file (c, i) g k) (upd_file (c, i) g k)" by (simp add: vfs_frame_def)
  show "fsinv (upd_file (c, i) g k)"
    using inv fsinv_layer [OF _ upd_file_static] by (simp add: file_inv_def)
  show "is_fs fs (upd_file (c, i) g k) \<longleftrightarrow> is_fs fs k" for fs
    by (rule isfs_layer [OF upd_file_static])
  show "counts_ok (upd_file (c, i) g k)" using inv by (simp add: file_inv_def counts_ok_def)
qed (simp_all add: keeps_fs_def h p(4))

lemma file_inv_pend:
  assumes "file_inv fsinv is_fs busy starting k"
  shows "distinct (map fst starting)" "status (cur_file i k) \<noteq> FD_INIT \<Longrightarrow> i \<notin> fst ` set starting"
  using assms table_okD(6,7) [of busy starting k] by (auto simp: file_inv_def)

lemma file_inv_cnt_step:
  assumes inv: "file_inv fsinv is_fs busy starting k" and st: "fs_step fsinv is_fs None k k'"
  shows "file_inv fsinv is_fs busy starting k'"
proof -
  have f: "fsinv k'" "vfs_frame k k'" "keeps_fs k k'" "\<And>fs. is_fs fs k' \<longleftrightarrow> is_fs fs k" "refs k' = refs k" "opens k' = opens k"
    using st by (auto simp: fs_step_def cnt_step_def)
  have "starts_ok is_fs k'"
    by (rule starts_ok_mono [OF _ f(2-4)]) (use inv f(5) in \<open>auto simp: file_inv_def\<close>)
  moreover have "slots k' = slots k" "start_nodes k' = start_nodes k" "cur_file i k' = cur_file i k" for i
    using f(2) frame_file_at [OF f(2)] by (auto simp: vfs_frame_def slots_def start_nodes_def fun_eq_iff)
  ultimately show ?thesis
    using inv f by (auto simp: file_inv_def table_ok_def counts_ok_def vfs_frame_def)
qed

end

subsection \<open>The operations keep the invariant\<close>

lemma fd2file_cases:
  assumes "table_ok busy starting k"
  obtains (found) i where "fd2file fd' k = Some (0, Some (current_fs k, i))" "i < FS_STRUCT_NENTRY" "fd' = int i" "status (cur_file i k) = FD_OPENED"
  | (bad) "fd2file fd' k = Some (- E_INVAL, None)"
proof (cases "testfd fd' \<and> status (cur_file (nat fd') k) = FD_OPENED")
  case True
  then have i: "nat fd' < FS_STRUCT_NENTRY" "fd' = int (nat fd')"
    by (auto simp: testfd_def)
  then have "fd (cur_file (nat fd') k) = fd'"
    using table_okD(2) [OF assms i(1)] by (simp add: entry_ok_def)
  then show thesis
    using found [of "nat fd'"] True i table_okD(1) [OF assms] by (simp add: fd2file_def get_filemap_def)
next
  case False
  then show thesis
    using bad table_okD(1) [OF assms] by (auto simp: fd2file_def get_filemap_def)
qed

abbreviation init_entry :: "file_struct \<Rightarrow> file_struct" where
  "init_entry \<equiv> \<lambda>f. f\<lparr>status := FD_INIT, node := None\<rparr>"

lemma filemap_alloc_cases:
  assumes "table_ok busy starting k"
  obtains (entry) i where "filemap_alloc fd' k = Some (0, Some (current_fs k, i), upd_file (current_fs k, i) init_entry k)"
      "i < FS_STRUCT_NENTRY" "status (cur_file i k) = FD_NONE" "fd' = NO_FD \<longrightarrow> (\<forall>j < i. status (cur_file j k) \<noteq> FD_NONE)" "fd' \<noteq> NO_FD \<longrightarrow> fd' = int i"
  | (full) r where "filemap_alloc fd' k = Some (r, None, k)" "r \<noteq> 0"
      "fd' = NO_FD \<longrightarrow> r = - E_MAX_OPEN \<and> (\<forall>j < FS_STRUCT_NENTRY. status (cur_file j k) \<noteq> FD_NONE)"
proof -
  have fm: "get_filemap k = Some (current_fs k)"
    using table_okD(1) [OF assms] by (simp add: get_filemap_def)
  have found: "filemap_found (current_fs k, i) k = Some (0, Some (current_fs k, i), upd_file (current_fs k, i) init_entry k)"
    if "i < FS_STRUCT_NENTRY" "status (cur_file i k) = FD_NONE" for i
    using table_okD(2) [OF assms that(1)] that(2) by (simp add: filemap_found_def entry_ok_def)
  show thesis
  proof (cases "fd' = NO_FD")
    case True
    show thesis
    proof (cases "find (\<lambda>i. status (cur_file i k) = FD_NONE) [0..<FS_STRUCT_NENTRY]")
      case None
      then have "\<forall>j < FS_STRUCT_NENTRY. status (cur_file j k) \<noteq> FD_NONE"
        unfolding find_None_iff set_upt by simp
      moreover have "filemap_alloc fd' k = Some (- E_MAX_OPEN, None, k)"
        unfolding filemap_alloc_def fm Option.bind.simps None using True by simp
      ultimately show thesis using full by simp
    next
      case (Some i)
      then obtain j where "i = [0..<FS_STRUCT_NENTRY] ! j" "j < length [0..<FS_STRUCT_NENTRY]" "status (cur_file ([0..<FS_STRUCT_NENTRY] ! j) k) = FD_NONE"
          "\<forall>l<j. status (cur_file ([0..<FS_STRUCT_NENTRY] ! l) k) \<noteq> FD_NONE"
        unfolding find_Some_iff by blast
      then have i: "i < FS_STRUCT_NENTRY" "status (cur_file i k) = FD_NONE" "\<forall>j < i. status (cur_file j k) \<noteq> FD_NONE"
        by (auto simp del: upt_rec_numeral)
      moreover have "filemap_alloc fd' k = filemap_found (current_fs k, i) k"
        unfolding filemap_alloc_def fm Option.bind.simps Some using True by simp
      ultimately show thesis using entry [of i] found True by simp
    qed
  next
    case False
    show thesis
    proof (cases "testfd fd' \<and> status (cur_file (nat fd') k) = FD_NONE")
      case True
      then have "nat fd' < FS_STRUCT_NENTRY" by (auto simp: testfd_def)
      then show thesis
        using entry [of "nat fd'"] found [of "nat fd'"] True False by (simp add: filemap_alloc_def fm testfd_def)
    next
      case busy: False
      then show thesis
        using full [of "if testfd fd' then - E_BUSY else - E_INVAL"] False by (auto simp: filemap_alloc_def fm)
    qed
  qed
qed

context inode_ops
begin

lemma entry_opens:
  assumes "file_inv fsinv is_fs busy starting k" "i < FS_STRUCT_NENTRY" "holds (cur_file i k) n"
  shows "0 < opens k n" "0 < refs k n"
proof -
  have "i \<in> slots k n" using assms(2,3) by (simp add: slots_def)
  then have "0 < card (slots k n)" by (auto simp: card_gt_0_iff)
  moreover have "int (card (slots k n)) \<le> opens k n" "opens k n \<le> refs k n"
    using assms(1) table_okD(4) [of busy starting k n] counts_okD(2) [of k n] pend_nonneg [of starting n] by (auto simp: file_inv_def)
  ultimately show "0 < opens k n" "0 < refs k n" by linarith+
qed

lemma file_inv_entry: "file_inv fsinv is_fs busy starting k \<Longrightarrow> i < FS_STRUCT_NENTRY \<Longrightarrow> entry_ok (cur_file i k) i (count_list busy (current_fs k, i))"
  by (auto simp: file_inv_def dest: table_okD(2))

text \<open>Freeing the entry of a file that was closed closes its inode.\<close>

lemma free_closed:
  assumes inv: "file_inv fsinv is_fs busy starting k" and i: "i < FS_STRUCT_NENTRY" "c = current_fs k" and n: "holds (cur_file i k) n"
    and h: "status (h (cur_file i k)) = FD_CLOSED" "fopen_count (h (cur_file i k)) = 0" "node (h (cur_file i k)) = Some n" "fd (h (cur_file i k)) = int i"
    and b: "count_list busy' (c, i) = 0" "\<And>p. p \<noteq> (c, i) \<Longrightarrow> count_list busy' p = count_list busy p"
  shows "\<exists>k'. filemap_free ops (c, i) (upd_file (c, i) h k) = Some k' \<and> file_inv fsinv is_fs busy' starting k'"
proof -
  let ?k1 = "upd_file (c, i) h k"
  have inv': "fsinv k" "counts_ok k" using inv by (auto simp: file_inv_def)
  have "fsinv ?k1" "counts_ok ?k1" "0 < opens ?k1 n"
    using inv' fsinv_layer [OF _ upd_file_static] entry_opens [OF inv i(1) n] by (simp_all add: counts_ok_def)
  then obtain k2 where k2: "vfs_close ops n ?k1 = Some (0, k2)"
      "cnt_step fsinv is_fs ((refs ?k1)(n := refs ?k1 n - 1)) ((opens ?k1)(n := opens ?k1 n - 1)) ?k1 k2"
    using vfs_close_ok by blast
  have f: "fsinv k2" "vfs_frame ?k1 k2" "keeps_fs ?k1 k2" "\<And>fs. is_fs fs k2 \<longleftrightarrow> is_fs fs ?k1"
      "refs k2 = (refs k)(n := refs k n - 1)" "opens k2 = (opens k)(n := opens k n - 1)"
    using k2(2) by (auto simp: cnt_step_def)
  let ?g = "\<lambda>f. (h f)\<lparr>status := FD_NONE\<rparr>"
  let ?k' = "upd_file (c, i) (\<lambda>f. f\<lparr>status := FD_NONE\<rparr>) k2"
  have run: "filemap_free ops (c, i) ?k1 = Some ?k'"
    using h i(2) k2(1) by (simp add: filemap_free_def)
  have "file_inv fsinv is_fs busy' starting ?k'"
  proof (rule file_inv_step [where g = ?g, OF inv i _ _ _ _ _ _ b(2) file_inv_pend(1) [OF inv]])
    show "vfs_frame (upd_file (c, i) ?g k) ?k'"
      using frame_upd_file [OF f(2), of "(c, i)" "\<lambda>f. f\<lparr>status := FD_NONE\<rparr>"] by (simp add: upd_file_comp)
    show "fsinv ?k'" by (rule fsinv_layer [OF f(1) upd_file_static])
    show "is_fs fs ?k' \<longleftrightarrow> is_fs fs k" for fs
      using isfs_layer [OF upd_file_static, of fs] f(4) by blast
    show "keeps_fs k ?k'" using f(3) by (simp add: keeps_fs_def)
    show "counts_ok ?k'"
      unfolding counts_ok_def
    proof
      fix m
      show "0 \<le> opens ?k' m \<and> opens ?k' m \<le> refs ?k' m \<and> refs ?k' m < MAX_INODE_COUNT"
        using counts_okD [OF inv'(2), of m] entry_opens [OF inv i(1) n] by (cases "m = n") (simp_all add: f(5,6))
    qed
    have hn: "holds (cur_file i k) m \<longleftrightarrow> m = n" for m using n by (auto simp: holds_def)
    show "refs ?k' m - of_bool (holds (?g (cur_file i k)) m) - pend starting m = refs k m - of_bool (holds (cur_file i k) m) - pend starting m"
      and "opens ?k' m - of_bool (holds (?g (cur_file i k)) m) - pend starting m = opens k m - of_bool (holds (cur_file i k) m) - pend starting m" for m
      by (simp_all add: f(5,6) hn) (simp_all add: holds_def)
    show "i \<in> set (map fst starting) \<Longrightarrow> status (?g (cur_file i k)) = FD_INIT"
      using file_inv_pend(2) [OF inv, of i] n by (auto simp: holds_def)
    show "entry_ok (?g (cur_file i k)) i (count_list busy' (c, i))"
      using h b(1) by (simp add: entry_ok_def)
  qed
  then show ?thesis using run by blast
qed

lemma filemap_close_ok:
  assumes inv: "file_inv fsinv is_fs busy starting k" and i: "i < FS_STRUCT_NENTRY" "status (cur_file i k) = FD_OPENED"
  shows "\<exists>k'. filemap_close ops (current_fs k, i) k = Some k' \<and> file_inv fsinv is_fs busy starting k'"
proof -
  let ?h = "\<lambda>f. f\<lparr>status := FD_CLOSED, fopen_count := fopen_count f - 1\<rparr>"
  have e: "entry_ok (cur_file i k) i (count_list busy (current_fs k, i))" by (rule file_inv_entry [OF inv i(1)])
  obtain n where n: "node (cur_file i k) = Some n" "holds (cur_file i k) n"
    using entry_holds [OF e] i(2) by auto
  have run: "filemap_close ops (current_fs k, i) k = (if fopen_count (cur_file i k) = 1 then filemap_free ops (current_fs k, i) (upd_file (current_fs k, i) ?h k)
      else Some (upd_file (current_fs k, i) ?h k))"
    using e i(2) by (simp add: filemap_close_def entry_ok_def Let_def)
  show ?thesis
  proof (cases "fopen_count (cur_file i k) = 1")
    case True
    then show ?thesis
      using free_closed [where h = ?h and busy' = busy, OF inv i(1) refl n(2)] e i(2) n run by (simp add: entry_ok_def)
  next
    case False
    have "file_inv fsinv is_fs busy starting (upd_file (current_fs k, i) ?h k)"
      by (rule file_inv_upd [where g = ?h, OF inv i(1) refl _ _ _ file_inv_pend(1) [OF inv]]) (use file_inv_pend(2) [OF inv, of i] e i(2) n False in \<open>auto simp: entry_ok_def holds_def\<close>)
    then show ?thesis using run False by simp
  qed
qed

lemma filemap_release_ok:
  assumes inv: "file_inv fsinv is_fs busy starting k" and p: "p \<in> set busy"
  shows "\<exists>k'. filemap_release ops p k = Some k' \<and> file_inv fsinv is_fs (remove1 p busy) starting k'"
proof -
  obtain i where i: "p = (current_fs k, i)" "i < FS_STRUCT_NENTRY"
    using inv p by (cases p) (auto simp: file_inv_def dest: table_okD(3))
  let ?h = "\<lambda>f. f\<lparr>fopen_count := fopen_count f - 1\<rparr>"
  have e: "entry_ok (cur_file i k) i (count_list busy p)" using file_inv_entry [OF inv i(2)] i(1) by simp
  have c: "count_list busy p = Suc (count_list (remove1 p busy) p)"
    using p by (induction busy) auto
  have c': "q \<noteq> p \<Longrightarrow> count_list (remove1 p busy) q = count_list busy q" for q
    by (induction busy) auto
  have u: "0 < count_list busy p" unfolding c by simp
  have s: "status (cur_file i k) = FD_OPENED \<or> status (cur_file i k) = FD_CLOSED"
    using e u by (cases "status (cur_file i k)") (simp_all add: entry_ok_def)
  obtain n where n: "node (cur_file i k) = Some n" "holds (cur_file i k) n"
    using entry_holds [OF e s] by auto
  have run: "filemap_release ops p k = (if fopen_count (cur_file i k) = 1 then filemap_free ops p (upd_file p ?h k) else Some (upd_file p ?h k))"
    using e s u i(1) by (auto simp: filemap_release_def entry_ok_def Let_def)
  show ?thesis
  proof (cases "fopen_count (cur_file i k) = 1")
    case True
    then have closed: "status (cur_file i k) = FD_CLOSED" using e s u by (auto simp: entry_ok_def)
    then have "count_list busy p = 1" using e True by (simp add: entry_ok_def)
    then have none: "count_list (remove1 p busy) p = 0" using c by linarith
    have "\<exists>k'. filemap_free ops (current_fs k, i) (upd_file (current_fs k, i) ?h k) = Some k' \<and> file_inv fsinv is_fs (remove1 p busy) starting k'"
      by (rule free_closed [where h = ?h, OF inv i(2) refl n(2)]) (use closed none e n True c' i(1) in \<open>simp_all add: entry_ok_def\<close>)
    then show ?thesis using run True i(1) by simp
  next
    case False
    have e': "entry_ok (cur_file i k) i (Suc (count_list (remove1 p busy) (current_fs k, i)))"
      using e i(1) unfolding c by simp
    have "file_inv fsinv is_fs (remove1 p busy) starting (upd_file (current_fs k, i) ?h k)"
      by (rule file_inv_upd [where g = ?h, OF inv i(2) refl _ _ _ file_inv_pend(1) [OF inv]]) (use file_inv_pend(2) [OF inv, of i] e' s c' n False i(1) in \<open>auto simp: entry_ok_def holds_def\<close>)
    then show ?thesis using run False i(1) by simp
  qed
qed

end

lemma pend_Cons [simp]: "pend ((i, m) # st) n = pend st n + of_bool (m = Some n)"
  by (simp add: pend_def)

lemma pend_remove1:
  assumes "(i, m) \<in> set st"
  shows "pend (remove1 (i, m) st) n = pend st n - of_bool (m = Some n)"
proof -
  have "count_list (map snd st) (Some n) = count_list (map snd (remove1 (i, m) st)) (Some n) + of_bool (m = Some n)"
    using assms by (induction st) auto
  then show ?thesis by (simp add: pend_def)
qed

lemma map_fst_remove1:
  assumes "distinct (map fst st)" "(i, m) \<in> set st"
  shows "distinct (map fst (remove1 (i, m) st))" "fst ` set (remove1 (i, m) st) = fst ` set st - {i}"
proof -
  show "distinct (map fst (remove1 (i, m) st))"
    using assms(1) by (auto simp: distinct_map intro: inj_on_subset)
  show "fst ` set (remove1 (i, m) st) = fst ` set st - {i}"
    using assms by (induction st) force+
qed

context inode_ops
begin

lemma file_enter_ok:
  assumes inv: "file_inv fsinv is_fs busy starting k"
  shows "\<exists>r k'. file_enter ok fd' k = Some (r, k') \<and>
    (case r of Inl e \<Rightarrow> e = - E_INVAL \<and> k' = k | Inr p \<Rightarrow> file_inv fsinv is_fs (p # busy) starting k')"
proof -
  have t: "table_ok busy starting k" using inv by (simp add: file_inv_def)
  from t show ?thesis
  proof (cases rule: fd2file_cases [of _ _ _ fd'])
    case bad
    then show ?thesis by (simp add: file_enter_def)
  next
    case (found i)
    let ?g = "\<lambda>f. f\<lparr>fopen_count := fopen_count f + 1\<rparr>"
    have "file_inv fsinv is_fs ((current_fs k, i) # busy) starting (upd_file (current_fs k, i) ?g k)"
      by (rule file_inv_upd [where g = ?g, OF inv found(2) refl _ _ _ file_inv_pend(1) [OF inv]])
        (use file_inv_pend(2) [OF inv, of i] file_inv_entry [OF inv found(2)] found(4) in \<open>auto simp: entry_ok_def holds_def\<close>)
    then show ?thesis
      using found(1,4) by (auto simp: file_enter_def filemap_acquire_def)
  qed
qed

lemma busy_status:
  assumes inv: "file_inv fsinv is_fs busy starting k" and p: "p \<in> set busy"
  obtains i n where "p = (current_fs k, i)" "i < FS_STRUCT_NENTRY" "node (cur_file i k) = Some n" "holds (cur_file i k) n"
    "status (cur_file i k) = FD_OPENED \<or> status (cur_file i k) = FD_CLOSED"
proof -
  obtain i where i: "p = (current_fs k, i)" "i < FS_STRUCT_NENTRY"
    using inv p by (cases p) (auto simp: file_inv_def dest: table_okD(3))
  have "count_list busy p \<noteq> 0" using p by (simp add: count_list_0_iff)
  then have "status (cur_file i k) = FD_OPENED \<or> status (cur_file i k) = FD_CLOSED"
    using file_inv_entry [OF inv i(2)] i(1) by (cases "status (cur_file i k)") (simp_all add: entry_ok_def)
  then show thesis
    using that i entry_holds [OF file_inv_entry [OF inv i(2)]] by blast
qed

lemma file_leave_ok:
  assumes inv: "file_inv fsinv is_fs busy starting k" and p: "p \<in> set busy"
  shows "\<exists>k'. file_leave ops p copied k = Some k' \<and> file_inv fsinv is_fs (remove1 p busy) starting k'"
proof -
  let ?g = "\<lambda>f. f\<lparr>pos := off_t (pos f + int copied)\<rparr>"
  obtain i where i: "p = (current_fs k, i)" "i < FS_STRUCT_NENTRY" "status (cur_file i k) = FD_OPENED \<or> status (cur_file i k) = FD_CLOSED"
    using busy_status [OF inv p] by metis
  have "file_inv fsinv is_fs busy starting (upd_file (current_fs k, i) ?g k)"
    by (rule file_inv_upd [where g = ?g, OF inv i(2) refl _ _ _ file_inv_pend(1) [OF inv]])
      (use file_inv_pend(2) [OF inv, of i] file_inv_entry [OF inv i(2)] i(3) in \<open>auto simp: entry_ok_def holds_def\<close>)
  then show ?thesis
    using filemap_release_ok [OF inv p] filemap_release_ok [OF _ p, of starting "upd_file p ?g k"] i(1)
    by (simp add: file_leave_def Let_def)
qed

lemma filemap_alloc_ok:
  assumes inv: "file_inv fsinv is_fs busy starting k"
  shows "(\<exists>r. r \<noteq> 0 \<and> filemap_alloc fd' k = Some (r, None, k)) \<or>
    (\<exists>i. filemap_alloc fd' k = Some (0, Some (current_fs k, i), upd_file (current_fs k, i) init_entry k) \<and> i < FS_STRUCT_NENTRY \<and>
       i \<notin> fst ` set starting \<and> status (cur_file i k) = FD_NONE \<and>
       file_inv fsinv is_fs busy ((i, None) # starting) (upd_file (current_fs k, i) init_entry k))"
proof -
  have t: "table_ok busy starting k" using inv by (simp add: file_inv_def)
  from t show ?thesis
  proof (cases rule: filemap_alloc_cases [of _ _ _ fd'])
    case (full r)
    then show ?thesis by blast
  next
    case (entry i)
    have i: "i \<notin> fst ` set starting" using file_inv_pend(2) [OF inv, of i] entry(3) by simp
    have "file_inv fsinv is_fs busy ((i, None) # starting) (upd_file (current_fs k, i) init_entry k)"
      by (rule file_inv_upd [where g = init_entry, OF inv entry(2) refl])
        (use i file_inv_pend(1) [OF inv] file_inv_entry [OF inv entry(2)] entry(3) in \<open>auto simp: entry_ok_def holds_def\<close>)
    then show ?thesis using entry i by blast
  qed
qed

lemma filemap_free_ok:
  assumes inv: "file_inv fsinv is_fs busy starting k" and i: "(i, None) \<in> set starting"
  shows "\<exists>k'. filemap_free ops (current_fs k, i) k = Some k' \<and> file_inv fsinv is_fs busy (remove1 (i, None) starting) k'"
proof -
  have t: "i < FS_STRUCT_NENTRY" "status (cur_file i k) = FD_INIT"
    using inv i table_okD(7) [of busy starting k i] by (force simp: file_inv_def)+
  let ?g = "\<lambda>f. f\<lparr>status := FD_NONE\<rparr>"
  have "file_inv fsinv is_fs busy (remove1 (i, None) starting) (upd_file (current_fs k, i) ?g k)"
    by (rule file_inv_upd [where g = ?g, OF inv t(1) refl])
      (use map_fst_remove1 [OF file_inv_pend(1) [OF inv] i] pend_remove1 [OF i] file_inv_entry [OF inv t(1)] t(2)
        in \<open>auto simp: entry_ok_def holds_def fun_eq_iff\<close>)
  then show ?thesis
    using file_inv_entry [OF inv t(1)] t(2) by (simp add: filemap_free_def entry_ok_def)
qed

text \<open>One more reference to \<open>n\<close> and one more opening of it, for the entry \<open>i\<close>.\<close>

lemma file_inv_got:
  assumes inv: "file_inv fsinv is_fs busy starting k" and i: "(i, None) \<in> set starting" and fr: "vfs_frame k k'"
    and k': "fsinv k'" "starts_ok is_fs k'" "counts_ok k'"
    and n: "refs k' = (refs k)(n := refs k n + 1)" "opens k' = (opens k)(n := opens k n + 1)"
  shows "file_inv fsinv is_fs busy ((i, Some n) # remove1 (i, None) starting) k'"
proof -
  let ?st = "(i, Some n) # remove1 (i, None) starting"
  have t: "table_ok busy starting k" using inv by (simp add: file_inv_def)
  have eq: "slots k' = slots k" "start_nodes k' = start_nodes k" "\<And>p. file_at p k' = file_at p k" "current_fs k' = current_fs k"
      "\<And>a. fs_structs k' a = fs_structs k a"
    using frame_file_at [OF fr] frame_start_nodes [OF fr] fr by (auto simp: slots_def fun_eq_iff vfs_frame_def)
  have p: "pend ?st a = pend starting a + of_bool (a = n)" for a
    using pend_remove1 [OF i, of a] by auto
  have d: "distinct (map fst ?st)" "set (map fst ?st) = set (map fst starting)"
    using map_fst_remove1 [OF file_inv_pend(1) [OF inv] i] i by force+
  have "int (card (slots k a)) + pend ?st a \<le> opens k' a" "int (card (slots k a)) + pend ?st a + of_bool (a \<in> start_nodes k) \<le> refs k' a" for a
    using table_okD(4,5) [OF t, of a] unfolding p n by (cases "a = n"; simp)+
  then have "table_ok busy ?st k'"
    using t d unfolding table_ok_def eq by simp
  then show ?thesis
    using k' by (simp add: file_inv_def)
qed

lemma counts_ok_room:
  assumes "roomy k" "refs k' = (refs k)(n := refs k n + 1)" "opens k' = (opens k)(n := opens k n + x)" "0 \<le> x" "x \<le> 1"
  shows "counts_ok k'"
  unfolding counts_ok_def
proof
  fix m
  have "0 \<le> opens k m \<and> opens k m \<le> refs k m \<and> refs k m + 8 < MAX_INODE_COUNT" using assms(1) by (simp add: roomy_def)
  then show "0 \<le> opens k' m \<and> opens k' m \<le> refs k' m \<and> refs k' m < MAX_INODE_COUNT"
    using assms(4,5) unfolding assms(2,3) by (cases "m = n"; simp)
qed

text \<open>\<open>vfs_open\<close> returns such an inode, or fails and changes no count.\<close>

lemma vfs_open_inv:
  assumes inv: "file_inv fsinv is_fs busy starting k" and i: "(i, None) \<in> set starting" and room: "roomy k" and path: "path_ok (subpath path)"
  shows "(\<exists>r k'. r \<noteq> 0 \<and> vfs_open ops path fl k = Some (r, None, k') \<and> vfs_frame k k' \<and> file_inv fsinv is_fs busy starting k') \<or>
    (\<exists>n k'. vfs_open ops path fl k = Some (0, Some n, k') \<and> vfs_frame k k' \<and>
       file_inv fsinv is_fs busy ((i, Some n) # remove1 (i, None) starting) k')"
proof -
  have h: "held k {#} {#} k"
    using inv room by (intro held_refl) (auto simp: file_inv_def)
  obtain r m k' where run: "vfs_open ops path fl k = Some (r, m, k')" "opened k {#} {#} (r, m, k')"
    using vfs_open_held [OF h _ path, of fl] by auto
  note f = opened_done [OF run(2)]
  have fr: "vfs_frame k k'" using f by blast
  show ?thesis
  proof (cases "r = 0")
    case False
    then have same: "m = None" "refs k' = refs k" "opens k' = opens k" "fsinv k'" "starts_ok is_fs k'" using f by auto
    have eq: "slots k' = slots k" "start_nodes k' = start_nodes k" "\<And>p. file_at p k' = file_at p k" "current_fs k' = current_fs k"
        "\<And>a. fs_structs k' a = fs_structs k a"
      using frame_file_at [OF fr] frame_start_nodes [OF fr] fr by (auto simp: slots_def fun_eq_iff vfs_frame_def)
    have "file_inv fsinv is_fs busy starting k'"
      using inv same unfolding file_inv_def table_ok_def eq by (simp add: counts_ok_def)
    then show ?thesis using run(1) False same(1) fr by blast
  next
    case True
    then obtain n where n: "m = Some n" "refs k' = (refs k)(n := refs k n + 1)" "opens k' = (opens k)(n := opens k n + 1)"
        "fsinv k'" "starts_ok is_fs k'" using f by auto
    show ?thesis
      using file_inv_got [OF inv i fr n(4,5) counts_ok_room [OF room n(2,3)] n(2,3)] run(1) True n(1) fr by auto
  qed
qed

end

context inode_ops
begin

text \<open>The entry that was waiting for the inode \<open>n\<close> takes it over: \<open>g\<close> is everything that \<open>file_open\<close> stores in the entry.\<close>

lemma file_inv_opened:
  assumes inv: "file_inv fsinv is_fs busy starting k" and i: "(i, Some n) \<in> set starting"
    and g: "status (g (cur_file i k)) = FD_OPENED" "fopen_count (g (cur_file i k)) = 1" "node (g (cur_file i k)) = Some n" "fd (g (cur_file i k)) = int i"
  shows "file_inv fsinv is_fs busy (remove1 (i, Some n) starting) (upd_file (current_fs k, i) g k)"
proof -
  have t: "i < FS_STRUCT_NENTRY" "status (cur_file i k) = FD_INIT"
    using inv i table_okD(7) [of busy starting k i] by (force simp: file_inv_def)+
  have h: "\<not> holds (cur_file i k) a" "holds (g (cur_file i k)) a \<longleftrightarrow> a = n" for a
    using t(2) g by (auto simp: holds_def)
  show ?thesis
  proof (rule file_inv_step [where g = g, OF inv t(1) refl])
    show "vfs_frame (upd_file (current_fs k, i) g k) (upd_file (current_fs k, i) g k)" by (simp add: vfs_frame_def)
    show "fsinv (upd_file (current_fs k, i) g k)"
      using inv fsinv_layer [OF _ upd_file_static] by (simp add: file_inv_def)
    show "is_fs fs (upd_file (current_fs k, i) g k) \<longleftrightarrow> is_fs fs k" for fs
      by (rule isfs_layer [OF upd_file_static])
    show "counts_ok (upd_file (current_fs k, i) g k)" using inv by (simp add: file_inv_def counts_ok_def)
    show "entry_ok (g (cur_file i k)) i (count_list busy (current_fs k, i))"
      using file_inv_entry [OF inv t(1)] t(2) g by (simp add: entry_ok_def)
  qed (use map_fst_remove1 [OF file_inv_pend(1) [OF inv] i] pend_remove1 [OF i] in \<open>auto simp: keeps_fs_def h\<close>)
qed

text \<open>The reference is given back and the entry freed.\<close>

lemma file_inv_abandoned:
  assumes inv: "file_inv fsinv is_fs busy starting k" and i: "(i, Some n) \<in> set starting"
  shows "\<exists>k1 k2. vfs_close ops n k = Some (0, k1) \<and> filemap_free ops (current_fs k, i) k1 = Some k2 \<and>
    file_inv fsinv is_fs busy (remove1 (i, Some n) starting) k2"
proof -
  have t: "i < FS_STRUCT_NENTRY" "status (cur_file i k) = FD_INIT"
    using inv i table_okD(7) [of busy starting k i] by (force simp: file_inv_def)+
  have inv': "fsinv k" "counts_ok k" "table_ok busy starting k" using inv by (auto simp: file_inv_def)
  have pn: "1 \<le> pend starting n"
    using pend_remove1 [OF i, of n] pend_nonneg [of "remove1 (i, Some n) starting" n] by simp
  then have pos: "0 < opens k n" using table_okD(4) [OF inv'(3), of n] by linarith
  obtain k1 where k1: "vfs_close ops n k = Some (0, k1)"
      "cnt_step fsinv is_fs ((refs k)(n := refs k n - 1)) ((opens k)(n := opens k n - 1)) k k1"
    using vfs_close_ok [OF inv'(1,2) pos] by blast
  have f: "fsinv k1" "vfs_frame k k1" "keeps_fs k k1" "\<And>fs. is_fs fs k1 \<longleftrightarrow> is_fs fs k"
      "refs k1 = (refs k)(n := refs k n - 1)" "opens k1 = (opens k)(n := opens k n - 1)"
    using k1(2) by (auto simp: cnt_step_def)
  let ?g = "\<lambda>f. f\<lparr>status := FD_NONE\<rparr>"
  have at: "cur_file i k1 = cur_file i k" "current_fs k1 = current_fs k" 
    using frame_file_at [OF f(2)] f(2) by (simp_all add: vfs_frame_def)
  have run: "filemap_free ops (current_fs k, i) k1 = Some (upd_file (current_fs k, i) ?g k1)"
    using at file_inv_entry [OF inv t(1)] t(2) by (simp add: filemap_free_def entry_ok_def)
  have h: "\<not> holds (cur_file i k) a" "\<not> holds (?g (cur_file i k)) a" for a
    using t(2) by (auto simp: holds_def)
  have "file_inv fsinv is_fs busy (remove1 (i, Some n) starting) (upd_file (current_fs k, i) ?g k1)"
  proof (rule file_inv_step [where g = ?g, OF inv t(1) refl])
    show "vfs_frame (upd_file (current_fs k, i) ?g k) (upd_file (current_fs k, i) ?g k1)"
      by (rule frame_upd_file [OF f(2)])
    show "fsinv (upd_file (current_fs k, i) ?g k1)" by (rule fsinv_layer [OF f(1) upd_file_static])
    show "is_fs fs (upd_file (current_fs k, i) ?g k1) \<longleftrightarrow> is_fs fs k" for fs
      using isfs_layer [OF upd_file_static, of fs] f(4) by blast
    show "keeps_fs k (upd_file (current_fs k, i) ?g k1)" using f(3) by (simp add: keeps_fs_def)
    show "counts_ok (upd_file (current_fs k, i) ?g k1)"
      unfolding counts_ok_def
    proof
      fix m
      show "0 \<le> opens (upd_file (current_fs k, i) ?g k1) m \<and> opens (upd_file (current_fs k, i) ?g k1) m \<le> refs (upd_file (current_fs k, i) ?g k1) m \<and>
          refs (upd_file (current_fs k, i) ?g k1) m < MAX_INODE_COUNT"
        using counts_okD [OF inv'(2), of m] pos by (cases "m = n") (simp_all add: f(5,6))
    qed
    show "entry_ok (?g (cur_file i k)) i (count_list busy (current_fs k, i))"
      using file_inv_entry [OF inv t(1)] t(2) by (simp add: entry_ok_def)
  qed (use map_fst_remove1 [OF file_inv_pend(1) [OF inv] i] pend_remove1 [OF i] in \<open>auto simp: f(5,6) h\<close>)
  then show ?thesis using k1(1) run by blast
qed

lemma file_open_finish_ok:
  assumes inv: "file_inv fsinv is_fs busy starting k" and i: "(i, Some n) \<in> set starting"
  shows "\<exists>r k'. file_open_finish ops (current_fs k, i) n fl k = Some (r, k') \<and> file_inv fsinv is_fs busy (remove1 (i, Some n) starting) k'"
proof -
  let ?p = "(current_fs k, i)" and ?acc = "fl AND O_ACCMODE"
  let ?g = "\<lambda>f. f\<lparr>node := Some n, readable := (?acc = O_RDONLY \<or> ?acc = O_RDWR), writable := (?acc = O_WRONLY \<or> ?acc = O_RDWR)\<rparr>"
  have t: "i < FS_STRUCT_NENTRY" "status (cur_file i k) = FD_INIT"
    using inv i table_okD(7) [of busy starting k i] by (force simp: file_inv_def)+
  note e = file_inv_entry [OF inv t(1)]
  have pos_inv: "file_inv fsinv is_fs busy starting (upd_file ?p (\<lambda>f. f\<lparr>pos := x\<rparr>) k')"
    if "file_inv fsinv is_fs busy starting k'" "cur_file i k' = f" "status f = FD_INIT" "current_fs k' = current_fs k" for k' x f
    by (rule file_inv_upd [where g = "\<lambda>f. f\<lparr>pos := x\<rparr>", OF that(1) t(1) that(4) [symmetric] _ _ _ file_inv_pend(1) [OF that(1)]])
      (use file_inv_entry [OF that(1) t(1)] that in \<open>auto simp: entry_ok_def holds_def\<close>)
  have fin: "filemap_open ?p (upd_file ?p ?g k') = Some k'' \<and> file_inv fsinv is_fs busy (remove1 (i, Some n) starting) k''"
    if inv': "file_inv fsinv is_fs busy starting k'" and eq: "current_fs k' = current_fs k" "status (cur_file i k') = FD_INIT"
      and k'': "k'' = upd_file ?p (\<lambda>f. (?g f)\<lparr>status := FD_OPENED, fopen_count := fopen_count f + 1\<rparr>) k'" for k' k''
  proof -
    have "file_inv fsinv is_fs busy (remove1 (i, Some n) starting) k''"
      unfolding k'' eq(1) [symmetric]
      by (rule file_inv_opened [OF inv' i]) (use file_inv_entry [OF inv' t(1)] eq in \<open>simp_all add: entry_ok_def\<close>)
    then show ?thesis
      using eq by (simp add: filemap_open_def k'' upd_file_comp)
  qed
  let ?k0 = "upd_file ?p (\<lambda>f. f\<lparr>pos := 0\<rparr>) k"
  have inv0: "file_inv fsinv is_fs busy starting ?k0" by (rule pos_inv [OF inv refl t(2) refl])
  show ?thesis
  proof (cases "fl AND O_APPEND = 0")
    case True
    then show ?thesis
      using fin [OF inv0 _ _ refl] t(2) by (simp add: file_open_finish_def Let_def)
  next
    case False
    have t0: "fsinv ?k0" "counts_ok ?k0" "table_ok busy starting ?k0" using inv0 by (auto simp: file_inv_def)
    have "1 \<le> pend starting n"
      using pend_remove1 [OF i, of n] pend_nonneg [of "remove1 (i, Some n) starting" n] by simp
    then have pos: "0 < refs ?k0 n" using table_okD(4) [OF t0(3), of n] counts_okD(2) [OF t0(2), of n] by linarith
    obtain r st k1 where k1: "op_fstat ops n ?k0 = Some (r, st, k1)" "fs_step fsinv is_fs None ?k0 k1"
      using fstat [OF t0(1,2) pos] by blast
    have inv1: "file_inv fsinv is_fs busy starting k1" by (rule file_inv_cnt_step [OF inv0 k1(2)])
    have fr: "vfs_frame ?k0 k1" using k1(2) by (auto simp: fs_step_def cnt_step_def)
    have at: "current_fs k1 = current_fs k" "status (cur_file i k1) = FD_INIT"
      using frame_file_at [OF fr] fr t(2) by (simp_all add: vfs_frame_def)
    note chk = inode_check_ok [OF t0(2) pos]
    show ?thesis
    proof (cases "r = 0")
      case True
      have inv2: "file_inv fsinv is_fs busy starting (upd_file ?p (\<lambda>f. f\<lparr>pos := off_t (int (st_size st))\<rparr>) k1)"
        by (rule pos_inv [OF inv1 refl at(2,1)])
      show ?thesis
        using fin [OF inv2 _ _ refl] at False True chk k1(1) by (simp add: file_open_finish_def Let_def)
    next
      case err: False
      show ?thesis
        using file_inv_abandoned [OF inv1 i] at(1) False err chk k1(1) by (auto simp: file_open_finish_def Let_def)
    qed
  qed
qed

end

context inode_ops
begin

lemma filemap_dup_ok:
  assumes inv: "file_inv fsinv is_fs busy starting k" and j: "(j, None) \<in> set starting" and room: "roomy k"
    and i: "i < FS_STRUCT_NENTRY" "status (cur_file i k) = FD_OPENED"
  shows "\<exists>k'. filemap_dup (current_fs k, j) (current_fs k, i) k = Some k' \<and> file_inv fsinv is_fs busy (remove1 (j, None) starting) k'"
proof -
  let ?to = "(current_fs k, j)" and ?from = "(current_fs k, i)"
  have t: "j < FS_STRUCT_NENTRY" "status (cur_file j k) = FD_INIT"
    using inv j table_okD(7) [of busy starting k j] by (force simp: file_inv_def)+
  have ij: "?to \<noteq> ?from" using i(2) t(2) by auto
  obtain n where n: "node (cur_file i k) = Some n" "holds (cur_file i k) n"
    using entry_holds [OF file_inv_entry [OF inv i(1)]] i(2) by blast
  let ?g = "\<lambda>f. f\<lparr>pos := pos (cur_file i k), readable := readable (cur_file i k), writable := writable (cur_file i k)\<rparr>"
  let ?k1 = "upd_file ?to ?g k"
  have inv1: "file_inv fsinv is_fs busy starting ?k1"
    by (rule file_inv_upd [where g = ?g, OF inv t(1) refl _ _ _ file_inv_pend(1) [OF inv]])
      (use file_inv_entry [OF inv t(1)] t(2) in \<open>auto simp: entry_ok_def holds_def\<close>)
  then have inv1': "fsinv ?k1" "starts_ok is_fs ?k1" by (auto simp: file_inv_def)
  have room1: "roomy ?k1" using room by (simp add: roomy_def)
  have pos: "0 < refs ?k1 n" using entry_opens [OF inv i(1) n(2)] by simp
  obtain k2 where k2: "ref_inc n ?k1 = Some k2" "cnt_step fsinv is_fs ((refs ?k1)(n := refs ?k1 n + 1)) (opens ?k1) ?k1 k2"
    using ref_inc_ok [OF inv1'(1) pos] by blast
  have f2: "fsinv k2" "refs k2 = (refs k)(n := refs k n + 1)" "opens k2 = opens k" "0 < refs k2 n"
    using k2(2) pos by (auto simp: cnt_step_def)
  obtain r k3 where k3: "inode_open_inc n k2 = Some (r, k3)" "cnt_step fsinv is_fs (refs k2) ((opens k2)(n := opens k2 n + 1)) k2 k3"
    using open_inc_ok [OF f2(1,4)] by blast
  have st: "cnt_step fsinv is_fs (refs k2) ((opens k2)(n := opens k2 n + 1)) ?k1 k3"
    by (rule cnt_step_trans [OF k2(2) k3(2)]) (use f2(2) in auto)
  then have f3: "fsinv k3" "vfs_frame ?k1 k3" "keeps_fs ?k1 k3" "\<And>fs. is_fs fs k3 \<longleftrightarrow> is_fs fs ?k1"
      "refs k3 = (refs ?k1)(n := refs ?k1 n + 1)" "opens k3 = (opens ?k1)(n := opens ?k1 n + 1)"
    using f2 by (auto simp: cnt_step_def)
  have "starts_ok is_fs k3"
    by (rule starts_ok_mono [OF inv1'(2) f3(2-4)]) (use pos in \<open>auto simp: f3(5)\<close>)
  then have inv3: "file_inv fsinv is_fs busy ((j, Some n) # remove1 (j, None) starting) k3"
    using file_inv_got [OF inv1 j f3(2,1) _ _ f3(5,6)] counts_ok_room [OF room1 f3(5,6)] by simp
  have at: "current_fs k3 = current_fs k" "cur_file j k3 = ?g (cur_file j k)"
    using frame_file_at [OF f3(2), of ?to] f3(2) by (simp_all add: vfs_frame_def)
  let ?h = "\<lambda>f. f\<lparr>node := Some n, status := FD_OPENED, fopen_count := fopen_count f + 1\<rparr>"
  have "file_inv fsinv is_fs busy (remove1 (j, Some n) ((j, Some n) # remove1 (j, None) starting)) (upd_file (current_fs k3, j) ?h k3)"
    by (rule file_inv_opened [OF inv3]) (use file_inv_entry [OF inv t(1)] t(2) at in \<open>simp_all add: entry_ok_def\<close>)
  moreover have "filemap_dup ?to ?from k = Some (upd_file ?to ?h k3)"
    using t(2) i(2) n(1) k2(1) k3(1) at ij by (simp add: filemap_dup_def Let_def file_at_upd_other filemap_open_def upd_file_comp)
  ultimately show ?thesis using at(1) by simp
qed

lemma file_dup_ok:
  assumes inv: "file_inv fsinv is_fs busy starting k" and room: "roomy k"
  shows "\<exists>r k'. file_dup fd1 fd2 k = Some (r, k') \<and> file_inv fsinv is_fs busy starting k'"
proof -
  have t: "table_ok busy starting k" using inv by (simp add: file_inv_def)
  from t show ?thesis
  proof (cases rule: fd2file_cases [of _ _ _ fd1])
    case bad
    then show ?thesis using inv by (simp add: file_dup_def)
  next
    case (found i)
    consider (full) r where "r \<noteq> 0" "filemap_alloc fd2 k = Some (r, None, k)"
      | (entry) j k1 where "filemap_alloc fd2 k = Some (0, Some (current_fs k, j), k1)" "k1 = upd_file (current_fs k, j) init_entry k"
        "status (cur_file j k) = FD_NONE" "file_inv fsinv is_fs busy ((j, None) # starting) k1"
      using filemap_alloc_ok [OF inv, of fd2] by blast
    then show ?thesis
    proof cases
      case full
      then show ?thesis using found(1) inv by (simp add: file_dup_def)
    next
      case (entry j k1)
      have "(current_fs k, j) \<noteq> (current_fs k, i)" using entry(3) found(4) by auto
      then have at: "current_fs k1 = current_fs k" "status (cur_file i k1) = FD_OPENED" "roomy k1"
        using found(4) room unfolding entry(2) by (simp_all add: file_at_upd_other roomy_def)
      have "(j, None) \<in> set ((j, None) # starting)" by simp
      from filemap_dup_ok [OF entry(4) this at(3) found(2) at(2)] show ?thesis
        using found(1) entry(1) at(1) by (auto simp: file_dup_def)
    qed
  qed
qed

lemma file_close_ok:
  assumes inv: "file_inv fsinv is_fs busy starting k"
  shows "\<exists>r k'. file_close ops fd' k = Some (r, k') \<and> file_inv fsinv is_fs busy starting k'"
proof -
  have t: "table_ok busy starting k" using inv by (simp add: file_inv_def)
  from t show ?thesis
  proof (cases rule: fd2file_cases [of _ _ _ fd'])
    case bad
    then show ?thesis using inv by (simp add: file_close_def)
  next
    case (found i)
    then show ?thesis using filemap_close_ok [OF inv found(2,4)] by (auto simp: file_close_def)
  qed
qed

end

subsection \<open>Interleaved operations\<close>

text \<open>What the threads that share a table can do next.  Opening is three steps (an entry, the inode, the rest of
  \<open>file_open\<close>); an operation on an open file is entering, calls of the inode's operations, and leaving.  The states are the
  files taken, the entries of unfinished openings and the state of the kernel; \<^const>\<open>None\<close> is a panic.\<close>

datatype vcall = VRead iobuf | VWrite iobuf | VGetdirentry iobuf | VFstat | VFsync | VTryseek int

datatype file_ev =
    EvAlloc
  | EvLookup nat string u32
  | EvFinish nat u32
  | EvClose int
  | EvDup int int
  | EvEnter "file_struct \<Rightarrow> bool" int
  | EvCall fptr vcall
  | EvLeave fptr nat

fun vcall_run :: "'k vfs_ops \<Rightarrow> vcall \<Rightarrow> addr \<Rightarrow> 'k \<Rightarrow> 'k option" where
  "vcall_run ops (VRead iob) n k = do { (_, _, k) \<leftarrow> op_read ops n iob k; Some k }"
| "vcall_run ops (VWrite iob) n k = do { (_, _, k) \<leftarrow> op_write ops n iob k; Some k }"
| "vcall_run ops (VGetdirentry iob) n k = do { (_, _, k) \<leftarrow> op_getdirentry ops n iob k; Some k }"
| "vcall_run ops VFstat n k = do { (_, _, k) \<leftarrow> op_fstat ops n k; Some k }"
| "vcall_run ops VFsync n k = do { (_, k) \<leftarrow> op_fsync ops n k; Some k }"
| "vcall_run ops (VTryseek off) n k = do { (_, k) \<leftarrow> op_tryseek ops n off k; Some k }"

fun file_event :: "'a vfs_scheme vfs_ops \<Rightarrow> file_ev \<Rightarrow> fptr list \<times> pending \<times> 'a vfs_scheme \<Rightarrow> (fptr list \<times> pending \<times> 'a vfs_scheme) option" where
  "file_event ops EvAlloc (busy, starting, k) = do {
     (_, p, k) \<leftarrow> filemap_alloc NO_FD k;
     Some (busy, case p of None \<Rightarrow> starting | Some p \<Rightarrow> (snd p, None) # starting, k)
   }"
| "file_event ops (EvLookup i path fl) (busy, starting, k) =
     (if (i, None) \<in> set starting then do {
        (ret, n, k) \<leftarrow> vfs_open ops path fl k;
        (if ret = 0 then Some (busy, (i, n) # remove1 (i, None) starting, k)
         else do { k \<leftarrow> filemap_free ops (current_fs k, i) k; Some (busy, remove1 (i, None) starting, k) })
      }
      else Some (busy, starting, k))"
| "file_event ops (EvFinish i fl) (busy, starting, k) =
     (case map_of starting i of
        Some (Some n) \<Rightarrow> do {
          (_, k) \<leftarrow> file_open_finish ops (current_fs k, i) n fl k;
          Some (busy, remove1 (i, Some n) starting, k)
        }
      | _ \<Rightarrow> Some (busy, starting, k))"
| "file_event ops (EvClose fd') (busy, starting, k) = do { (_, k) \<leftarrow> file_close ops fd' k; Some (busy, starting, k) }"
| "file_event ops (EvDup fd1 fd2) (busy, starting, k) = do { (_, k) \<leftarrow> file_dup fd1 fd2 k; Some (busy, starting, k) }"
| "file_event ops (EvEnter ok fd') (busy, starting, k) = do {
     (r, k) \<leftarrow> file_enter ok fd' k;
     Some (case r of Inl _ \<Rightarrow> busy | Inr p \<Rightarrow> p # busy, starting, k)
   }"
| "file_event ops (EvCall p c) (busy, starting, k) =
     (if p \<in> set busy then do {
        n \<leftarrow> node (file_at p k);
        inode_check n k;
        k \<leftarrow> vcall_run ops c n k;
        Some (busy, starting, k)
      }
      else Some (busy, starting, k))"
| "file_event ops (EvLeave p copied) (busy, starting, k) =
     (if p \<in> set busy then do { k \<leftarrow> file_leave ops p copied k; Some (remove1 p busy, starting, k) }
      else Some (busy, starting, k))"

fun ev_path :: "(string \<Rightarrow> bool) \<Rightarrow> file_ev \<Rightarrow> bool" where
  "ev_path pok (EvLookup i path fl) = pok (subpath path)"
| "ev_path pok _ = True"

inductive file_reach :: "'a vfs_scheme vfs_ops \<Rightarrow> (string \<Rightarrow> bool) \<Rightarrow> fptr list \<times> pending \<times> 'a vfs_scheme \<Rightarrow>
    fptr list \<times> pending \<times> 'a vfs_scheme \<Rightarrow> bool" for ops pok s0 where
  start: "file_reach ops pok s0 s0"
| step: "file_reach ops pok s0 s \<Longrightarrow> roomy (snd (snd s)) \<Longrightarrow> ev_path pok ev \<Longrightarrow> file_event ops ev s = Some s' \<Longrightarrow> file_reach ops pok s0 s'"

context inode_ops
begin

lemma vcall_run_ok:
  assumes "fsinv k" "counts_ok k" "0 < refs k n"
  shows "\<exists>k'. vcall_run ops c n k = Some k' \<and> fs_step fsinv is_fs None k k'"
proof (cases c)
  case (VRead iob)
  then show ?thesis using read [OF assms, of iob] by auto
next
  case (VWrite iob)
  then show ?thesis using write' [OF assms, of iob] by auto
next
  case (VGetdirentry iob)
  then show ?thesis using getdirentry [OF assms, of iob] by auto
next
  case VFstat
  then show ?thesis using fstat [OF assms] by auto
next
  case VFsync
  then show ?thesis using fsync [OF assms] by auto
next
  case (VTryseek off)
  then show ?thesis using tryseek [OF assms, of off] by auto
qed

lemma file_event_ok:
  assumes inv: "file_inv fsinv is_fs busy starting k" and room: "roomy k" and path: "ev_path path_ok ev"
  shows "\<exists>busy' starting' k'. file_event ops ev (busy, starting, k) = Some (busy', starting', k') \<and> file_inv fsinv is_fs busy' starting' k'"
proof (cases ev)
  case EvAlloc
  then show ?thesis using filemap_alloc_ok [OF inv, of NO_FD] inv by auto
next
  case (EvLookup i path fl)
  show ?thesis
  proof (cases "(i, None) \<in> set starting")
    case True
    have "path_ok (subpath path)" using path EvLookup by simp
    from vfs_open_inv [OF inv True room this, of fl] show ?thesis
    proof (elim disjE exE conjE)
      fix r k' assume r: "r \<noteq> 0" "vfs_open ops path fl k = Some (r, None, k')" "file_inv fsinv is_fs busy starting k'"
      from filemap_free_ok [OF r(3) True] show ?thesis
        using EvLookup True r(1,2) by auto
    next
      fix n k' assume "vfs_open ops path fl k = Some (0, Some n, k')" "file_inv fsinv is_fs busy ((i, Some n) # remove1 (i, None) starting) k'"
      then show ?thesis using EvLookup True by simp
    qed
  qed (use EvLookup inv in simp)
next
  case (EvFinish i fl)
  show ?thesis
  proof (cases "map_of starting i")
    case (Some m)
    show ?thesis
    proof (cases m)
      case None
      then show ?thesis using Some EvFinish inv by simp
    next
      case n: (Some n)
      then have "(i, Some n) \<in> set starting" using Some map_of_SomeD by fastforce
      from file_open_finish_ok [OF inv this, of fl] show ?thesis
        using Some n EvFinish by auto
    qed
  qed (use EvFinish inv in simp)
next
  case (EvClose fd')
  then show ?thesis using file_close_ok [OF inv, of fd'] by auto
next
  case (EvDup fd1 fd2)
  then show ?thesis using file_dup_ok [OF inv room, of fd1 fd2] by auto
next
  case (EvEnter ok fd')
  obtain r k' where "file_enter ok fd' k = Some (r, k')"
      "case r of Inl e \<Rightarrow> e = - E_INVAL \<and> k' = k | Inr p \<Rightarrow> file_inv fsinv is_fs (p # busy) starting k'"
    using file_enter_ok [OF inv, of ok fd'] by blast
  then show ?thesis using EvEnter inv by (cases r) simp_all
next
  case (EvCall p c)
  show ?thesis
  proof (cases "p \<in> set busy")
    case True
    then obtain i n where i: "p = (current_fs k, i)" "i < FS_STRUCT_NENTRY" "node (cur_file i k) = Some n" "holds (cur_file i k) n"
      using busy_status [OF inv True] by metis
    have k: "fsinv k" "counts_ok k" "0 < refs k n" using inv entry_opens [OF inv i(2,4)] by (auto simp: file_inv_def)
    obtain k' where "vcall_run ops c n k = Some k'" "fs_step fsinv is_fs None k k'" using vcall_run_ok [OF k] by blast
    then show ?thesis
      using EvCall True i(1,3) inode_check_ok [OF k(2,3)] file_inv_cnt_step [OF inv] by auto
  qed (use EvCall inv in simp)
next
  case (EvLeave p copied)
  then show ?thesis using file_leave_ok [OF inv, of p copied] inv by auto
qed

lemma file_reach_inv:
  assumes "file_reach ops path_ok ([], [], k0) s" "file_inv fsinv is_fs [] [] k0"
  shows "case s of (busy, starting, k) \<Rightarrow> file_inv fsinv is_fs busy starting k"
  using assms
proof (induction rule: file_reach.induct)
  case (step s ev s')
  obtain busy starting k where s: "s = (busy, starting, k)" by (cases s)
  from file_event_ok [of busy starting k ev] step s show ?case by auto
qed simp

end

lemma demo_pvfs_table: "file_inv pipe_inv is_pipe_fs [] [] demo_pvfs"
proof -
  have at: "file_at p demo_pvfs = \<lparr>status = FD_NONE, readable = False, writable = False, fd = int (snd p), pos = 0, node = None, fopen_count = 0\<rparr>" for p
    by (simp add: file_at_def demo_pvfs_def)
  have slots: "slots demo_pvfs n = {}" for n
    by (simp add: slots_def at holds_def)
  have starts: "start_nodes demo_pvfs = {10}"
    by (auto simp: start_nodes_def demo_pvfs_def)
  have "table_ok [] [] demo_pvfs"
    unfolding table_ok_def slots starts demo_pvfs_refs at pend_def entry_ok_def by (simp add: demo_pvfs_def)
  moreover have "counts_ok demo_pvfs"
    by (simp add: counts_ok_def demo_pvfs_refs)
  ultimately show ?thesis
    using demo_pvfs_ok by (simp add: file_inv_def)
qed

text \<open>C19: The open files of a process are safe under any interleaving of its threads: starting from a table without open files,
  whatever sequence of allocations, lookups, completed openings, closes, duplications, and operations that enter, call the
  inode and leave has happened, no step can fail an assertion or use a freed inode, as long as no inode has close to
  \<open>0x10000\<close> references.  Every entry's count is the number of operations in it, plus one while its descriptor is open, a
  closed file keeps its inode until the last operation leaves, and the inodes' counts cover all the entries.\<close>

theorem file_table_safe:
  assumes "file_inv pipe_inv is_pipe_fs [] [] k0" "file_reach pipe_ops pipe_subpath_ok ([], [], k0) (busy, starting, k)"
  shows "file_inv pipe_inv is_pipe_fs busy starting k \<and>
    (\<forall>i < FS_STRUCT_NENTRY. status (cur_file i k) = FD_OPENED \<longrightarrow> fopen_count (cur_file i k) = int (count_list busy (current_fs k, i)) + 1) \<and>
    (\<forall>i < FS_STRUCT_NENTRY. status (cur_file i k) = FD_CLOSED \<longrightarrow> fopen_count (cur_file i k) = int (count_list busy (current_fs k, i)) \<and>
       (\<exists>n. node (cur_file i k) = Some n \<and> 0 < opens k n)) \<and>
    (roomy k \<longrightarrow> (\<forall>ev. ev_path pipe_subpath_ok ev \<longrightarrow> file_event pipe_ops ev (busy, starting, k) \<noteq> None))"
proof -
  have inv: "file_inv pipe_inv is_pipe_fs busy starting k"
    using pipe.file_reach_inv [OF assms(2,1)] by simp
  have e: "entry_ok (cur_file i k) i (count_list busy (current_fs k, i))" if "i < FS_STRUCT_NENTRY" for i
    by (rule pipe.file_inv_entry [OF inv that])
  have "\<exists>n. node (cur_file i k) = Some n \<and> 0 < opens k n" if "i < FS_STRUCT_NENTRY" "status (cur_file i k) = FD_CLOSED" for i
    using entry_holds [OF e [OF that(1)]] pipe.entry_opens(1) [OF inv that(1)] that(2) by blast
  then show ?thesis
    using inv e pipe.file_event_ok [OF inv] by (fastforce simp: entry_ok_def)
qed

theorem file_table_safe_witness:
  "file_event pipe_ops (EvLeave (0, 0) 0) ([], [], demo_pvfs) \<noteq> None \<and>
   (\<exists>s. file_event pipe_ops EvAlloc ([], [], demo_pvfs) = Some s \<and> file_event pipe_ops (EvLookup 0 ''pipe:r_p'' 0) s \<noteq> None)"
proof -
  obtain busy starting k where s: "file_event pipe_ops EvAlloc ([], [], demo_pvfs) = Some (busy, starting, k)"
    using file_table_safe [OF demo_pvfs_table file_reach.start] demo_pvfs_ok(3) by (metis ev_path.simps(2) not_Some_eq prod_cases3)
  have r: "roomy k"
    using s demo_pvfs_ok(3) by (auto simp: filemap_alloc_def filemap_found_def roomy_def Let_def split: option.splits if_splits bind_splits)
  have "file_reach pipe_ops pipe_subpath_ok ([], [], demo_pvfs) (busy, starting, k)"
    by (rule file_reach.step [OF file_reach.start _ _ s]) (simp_all add: demo_pvfs_ok(3))
  moreover have "pipe_subpath_ok (subpath ''pipe:r_p'')"
    by (simp add: subpath_def skip_slashes_def pipe_subpath_ok_def pipe_path_ok_def)
  ultimately show ?thesis
    using file_table_safe [OF demo_pvfs_table] r s by (metis ev_path.simps(1) file_event.simps(8) empty_iff list.set(1) option.distinct(1))
qed

end
