(* ===== verification/Fs_Table.thy ===== *)
theory Fs_Table
  imports File_Inv
begin

text \<open>
  Copying and destroying a table of open files, which is what forking and exiting do to it (\<open>dup_fs\<close>, \<open>fs_destroy\<close> of
  \<^verbatim>\<open>kern/fs/fs.c\<close>): the copy has the same open files, and destroying it takes back exactly the references that copying took.
\<close>

subsection \<open>Counting the open files of a table\<close>

definition opened_on :: "addr \<Rightarrow> 'a vfs_scheme \<Rightarrow> addr \<Rightarrow> nat \<Rightarrow> bool" where
  "opened_on f k n i \<longleftrightarrow> status (file_at (f, i) k) = FD_OPENED \<and> node (file_at (f, i) k) = Some n"

definition opened_in :: "addr \<Rightarrow> nat list \<Rightarrow> 'a vfs_scheme \<Rightarrow> addr \<Rightarrow> int" where
  "opened_in f is k n = int (length (filter (opened_on f k n) is))"

lemma opened_in_Nil [simp]: "opened_in f [] k n = 0"
  by (simp add: opened_in_def)

lemma opened_in_Cons: "opened_in f (i # is) k n = of_bool (opened_on f k n i) + opened_in f is k n"
  by (simp add: opened_in_def)

lemma opened_in_nonneg: "0 \<le> opened_in f is k n"
  by (simp add: opened_in_def)

lemma opened_in_le: "opened_in f is k n \<le> int (length is)"
  by (simp add: opened_in_def)

lemma opened_in_cong: "(\<And>i. i \<in> set is \<Longrightarrow> file_at (f, i) k' = file_at (f', i) k) \<Longrightarrow> opened_in f is k' n = opened_in f' is k n"
  by (simp add: opened_in_def opened_on_def cong: filter_cong)

text \<open>An entry of a table that no operation is in.\<close>

definition idle :: "file_struct \<Rightarrow> bool" where
  "idle e \<longleftrightarrow> status e = FD_NONE \<and> fopen_count e = 0 \<or> status e = FD_OPENED \<and> fopen_count e = 1 \<and> node e \<noteq> None"

context inode_ops
begin

lemma close_idle:
  assumes k: "fsinv k" "counts_ok k" and e: "status (file_at p k) = FD_OPENED" "fopen_count (file_at p k) = 1" "node (file_at p k) = Some n"
    and pos: "0 < opens k n"
  shows "\<exists>k'. filemap_close ops p k = Some k' \<and> fsinv k' \<and> counts_ok k' \<and>
    refs k' = (refs k)(n := refs k n - 1) \<and> opens k' = (opens k)(n := opens k n - 1) \<and>
    (\<forall>q. q \<noteq> p \<longrightarrow> file_at q k' = file_at q k) \<and> status (file_at p k') = FD_NONE"
proof -
  let ?k1 = "upd_file p (\<lambda>f. f\<lparr>status := FD_CLOSED, fopen_count := fopen_count f - 1\<rparr>) k"
  have "fsinv ?k1" "counts_ok ?k1" "0 < opens ?k1 n"
    using k pos fsinv_layer [OF _ upd_file_static] by (simp_all add: counts_ok_def)
  then obtain k2 where k2: "vfs_close ops n ?k1 = Some (0, k2)"
      "cnt_step fsinv is_fs ((refs ?k1)(n := refs ?k1 n - 1)) ((opens ?k1)(n := opens ?k1 n - 1)) ?k1 k2"
    using vfs_close_ok by blast
  have f: "fsinv k2" "vfs_frame ?k1 k2" "refs k2 = (refs k)(n := refs k n - 1)" "opens k2 = (opens k)(n := opens k n - 1)"
    using k2(2) by (auto simp: cnt_step_def)
  let ?k' = "upd_file p (\<lambda>f. f\<lparr>status := FD_NONE\<rparr>) k2"
  have "filemap_close ops p k = Some ?k'"
    using e k2(1) by (simp add: filemap_close_def filemap_free_def Let_def)
  moreover have "fsinv ?k'" by (rule fsinv_layer [OF f(1) upd_file_static])
  moreover have "counts_ok ?k'"
    unfolding counts_ok_def
  proof
    fix m
    show "0 \<le> opens ?k' m \<and> opens ?k' m \<le> refs ?k' m \<and> refs ?k' m < MAX_INODE_COUNT"
      using counts_okD [OF k(2), of m] pos by (cases "m = n") (simp_all add: f(3,4))
  qed
  moreover have "file_at q ?k' = file_at q k" if "q \<noteq> p" for q
    using frame_file_at [OF f(2)] that by (simp add: file_at_upd_other)
  ultimately show ?thesis
    using f(3,4) by simp
qed

lemma close_loop_ok:
  assumes "distinct is" "fsinv k" "counts_ok k" "\<forall>i\<in>set is. idle (file_at (f, i) k)"
    "\<And>n. refs k n = r n + opened_in f is k n" "\<And>n. opens k n = o' n + opened_in f is k n" "\<And>n. 0 \<le> o' n"
  shows "\<exists>k'. close_loop ops strict f is k = Some k' \<and> fsinv k' \<and> refs k' = r \<and> opens k' = o' \<and>
    (\<forall>i\<in>set is. status (file_at (f, i) k') = FD_NONE) \<and> (\<forall>q. q \<notin> Pair f ` set is \<longrightarrow> file_at q k' = file_at q k)"
  using assms
proof (induction "is" arbitrary: k)
  case Nil
  then show ?case by (simp add: fun_eq_iff)
next
  case (Cons i "is")
  have idle: "idle (file_at (f, i) k)" using Cons.prems(4) by simp
  have i: "i \<notin> set is" using Cons.prems(1) by simp
  obtain k1 where k1: "(if status (file_at (f, i) k) = FD_OPENED then filemap_close ops (f, i) k else Some k) = Some k1"
      "fsinv k1" "counts_ok k1" "status (file_at (f, i) k1) = FD_NONE" "\<And>q. q \<noteq> (f, i) \<Longrightarrow> file_at q k1 = file_at q k"
      "\<And>n. refs k1 n = r n + opened_in f is k n" "\<And>n. opens k1 n = o' n + opened_in f is k n"
  proof (cases "status (file_at (f, i) k) = FD_OPENED")
    case False
    then show thesis
      using that [of k] Cons.prems idle by (simp add: opened_in_Cons opened_on_def idle_def)
  next
    case True
    then obtain m where m: "node (file_at (f, i) k) = Some m" "fopen_count (file_at (f, i) k) = 1" using idle by (auto simp: idle_def)
    have on: "opened_on f k n i \<longleftrightarrow> n = m" for n using True m(1) by (auto simp: opened_on_def)
    have "0 < opens k m" using Cons.prems(6,7) [of m] opened_in_nonneg [of f "is" k m] on by (simp add: opened_in_Cons)
    from close_idle [OF Cons.prems(2,3) True m(2,1) this] show thesis
      using True that Cons.prems(5,6) on by (auto simp: opened_in_Cons)
  qed
  have at: "file_at (f, j) k1 = file_at (f, j) k" if "j \<in> set is" for j
    using k1(5) [of "(f, j)"] that i by auto
  have same: "opened_in f is k1 n = opened_in f is k n" for n
    by (rule opened_in_cong) (rule at)
  have "\<exists>k'. close_loop ops strict f is k1 = Some k' \<and> fsinv k' \<and> refs k' = r \<and> opens k' = o' \<and>
    (\<forall>i\<in>set is. status (file_at (f, i) k') = FD_NONE) \<and> (\<forall>q. q \<notin> Pair f ` set is \<longrightarrow> file_at q k' = file_at q k1)"
  proof (rule Cons.IH)
    show "\<forall>j\<in>set is. idle (file_at (f, j) k1)"
      using Cons.prems(4) at by simp
  qed (use Cons.prems(1,7) k1 same in auto)
  then obtain k' where k': "close_loop ops strict f is k1 = Some k'" "fsinv k'" "refs k' = r" "opens k' = o'"
      "\<forall>i\<in>set is. status (file_at (f, i) k') = FD_NONE" "\<forall>q. q \<notin> Pair f ` set is \<longrightarrow> file_at q k' = file_at q k1"
    by blast
  have "(f, i) \<notin> Pair f ` set is" using i by auto
  then have "status (file_at (f, i) k') = FD_NONE"
    using k'(6) k1(4) by simp
  then show ?case
    using k' k1(1,4,5) by (auto simp: image_iff)
qed

end

subsection \<open>Copying\<close>

lemma fs_of_dup: "filemap_dup to from k = Some k' \<Longrightarrow> fs_count (fs_structs k' a) = fs_count (fs_structs k a)"
  by (auto simp: filemap_dup_def filemap_open_def ref_inc_def inode_ref_inc_def inode_open_inc_def Let_def upd_file_def split: option.splits bind_splits)

context inode_ops
begin

text \<open>One entry.\<close>

lemma dup_entry:
  assumes k: "fsinv k" "status (file_at from k) = FD_OPENED" "node (file_at from k) = Some n" "0 < refs k n" and ne: "to \<noteq> from"
  shows "\<exists>k'. filemap_dup to from (upd_file to (\<lambda>f. f\<lparr>status := FD_INIT\<rparr>) k) = Some k' \<and> fsinv k' \<and>
    refs k' = (refs k)(n := refs k n + 1) \<and> opens k' = (opens k)(n := opens k n + 1) \<and>
    (\<forall>q. q \<noteq> to \<longrightarrow> file_at q k' = file_at q k) \<and>
    file_at to k' = (file_at from k)\<lparr>fd := fd (file_at to k), fopen_count := fopen_count (file_at to k) + 1\<rparr> \<and>
    (\<forall>a. pwd (fs_structs k' a) = pwd (fs_structs k a) \<and> fs_count (fs_structs k' a) = fs_count (fs_structs k a))"
proof -
  let ?g = "\<lambda>f. f\<lparr>status := FD_INIT, pos := pos (file_at from k), readable := readable (file_at from k), writable := writable (file_at from k)\<rparr>"
  let ?k1 = "upd_file to ?g k"
  have inv1: "fsinv ?k1" by (rule fsinv_layer [OF k(1) upd_file_static])
  have pos: "0 < refs ?k1 n" using k(4) by simp
  obtain k2 where k2: "ref_inc n ?k1 = Some k2" "cnt_step fsinv is_fs ((refs ?k1)(n := refs ?k1 n + 1)) (opens ?k1) ?k1 k2"
    using ref_inc_ok [OF inv1 pos] by blast
  have f2: "fsinv k2" "refs k2 = (refs k)(n := refs k n + 1)" "opens k2 = opens k" "0 < refs k2 n" "vfs_frame ?k1 k2"
    using k2(2) pos by (auto simp: cnt_step_def)
  obtain r k3 where k3: "inode_open_inc n k2 = Some (r, k3)" "cnt_step fsinv is_fs (refs k2) ((opens k2)(n := opens k2 n + 1)) k2 k3"
    using open_inc_ok [OF f2(1,4)] by blast
  have f3: "fsinv k3" "vfs_frame ?k1 k3" "refs k3 = (refs k)(n := refs k n + 1)" "opens k3 = (opens k)(n := opens k n + 1)"
    using k3(2) f2 by (auto simp: cnt_step_def vfs_frame_def)
  let ?h = "\<lambda>f. f\<lparr>node := Some n, status := FD_OPENED, fopen_count := fopen_count f + 1\<rparr>"
  let ?k' = "upd_file to ?h k3"
  have "filemap_dup to from (upd_file to (\<lambda>f. f\<lparr>status := FD_INIT\<rparr>) k) = Some ?k'"
    using k(2,3) ne k2(1) k3(1) frame_file_at [OF f3(2)]
    by (simp add: filemap_dup_def Let_def file_at_upd_other filemap_open_def upd_file_comp)
  moreover have "fsinv ?k'" by (rule fsinv_layer [OF f3(1) upd_file_static])
  moreover have "file_at q ?k' = file_at q k" if "q \<noteq> to" for q
    using frame_file_at [OF f3(2), of q] that by (simp add: file_at_upd_other)
  moreover have "file_at to ?k' = (file_at from k)\<lparr>fd := fd (file_at to k), fopen_count := fopen_count (file_at to k) + 1\<rparr>"
    using frame_file_at [OF f3(2), of to] k(2,3) by simp
  moreover have "pwd (fs_structs ?k' a) = pwd (fs_structs k a) \<and> fs_count (fs_structs ?k' a) = fs_count (fs_structs k a)" for a
  proof -
    have "fs_structs k3 = fs_structs ?k1" using f3(2) by (simp add: vfs_frame_def)
    then show ?thesis by simp
  qed
  ultimately show ?thesis
    using f3(3,4) by simp
qed

lemma dup_loop_ok:
  assumes "distinct is" "to \<noteq> from" "fsinv k"
    "\<forall>i\<in>set is. status (file_at (from, i) k) = FD_OPENED \<longrightarrow> (\<exists>n. node (file_at (from, i) k) = Some n \<and> 0 < refs k n)"
  shows "\<exists>k'. fs_dup_loop to from is k = Some k' \<and> fsinv k' \<and>
    (\<forall>n. refs k' n = refs k n + opened_in from is k n \<and> opens k' n = opens k n + opened_in from is k n) \<and>
    (\<forall>q. q \<notin> Pair to ` set is \<longrightarrow> file_at q k' = file_at q k) \<and>
    (\<forall>i\<in>set is. file_at (to, i) k' = (if status (file_at (from, i) k) = FD_OPENED
       then (file_at (from, i) k)\<lparr>fd := fd (file_at (to, i) k), fopen_count := fopen_count (file_at (to, i) k) + 1\<rparr> else file_at (to, i) k)) \<and>
    (\<forall>a. pwd (fs_structs k' a) = pwd (fs_structs k a) \<and> fs_count (fs_structs k' a) = fs_count (fs_structs k a))"
  using assms
proof (induction "is" arbitrary: k)
  case Nil
  then show ?case by simp
next
  case (Cons i "is")
  have i: "i \<notin> set is" using Cons.prems(1) by simp
  let ?new = "\<lambda>k j. if status (file_at (from, j) k) = FD_OPENED
       then (file_at (from, j) k)\<lparr>fd := fd (file_at (to, j) k), fopen_count := fopen_count (file_at (to, j) k) + 1\<rparr> else file_at (to, j) k"
  obtain k1 where k1: "(if status (file_at (from, i) k) = FD_OPENED
        then filemap_dup (to, i) (from, i) (upd_file (to, i) (\<lambda>f. f\<lparr>status := FD_INIT\<rparr>) k) else Some k) = Some k1"
      "fsinv k1" "\<And>n. refs k1 n = refs k n + of_bool (opened_on from k n i)" "\<And>n. opens k1 n = opens k n + of_bool (opened_on from k n i)"
      "\<And>q. q \<noteq> (to, i) \<Longrightarrow> file_at q k1 = file_at q k" "file_at (to, i) k1 = ?new k i"
      "\<And>a. pwd (fs_structs k1 a) = pwd (fs_structs k a) \<and> fs_count (fs_structs k1 a) = fs_count (fs_structs k a)"
  proof (cases "status (file_at (from, i) k) = FD_OPENED")
    case False
    then show thesis
      using that [of k] Cons.prems(3) by (simp add: opened_on_def)
  next
    case True
    then obtain n where n: "node (file_at (from, i) k) = Some n" "0 < refs k n" using Cons.prems(4) by auto
    have on: "opened_on from k a i \<longleftrightarrow> a = n" for a using True n(1) by (auto simp: opened_on_def)
    have ne: "(to, i) \<noteq> (from, i)" using Cons.prems(2) by simp
    obtain k1 where "filemap_dup (to, i) (from, i) (upd_file (to, i) (\<lambda>f. f\<lparr>status := FD_INIT\<rparr>) k) = Some k1" "fsinv k1"
        "refs k1 = (refs k)(n := refs k n + 1)" "opens k1 = (opens k)(n := opens k n + 1)" "\<forall>q. q \<noteq> (to, i) \<longrightarrow> file_at q k1 = file_at q k"
        "file_at (to, i) k1 = ?new k i"
        "\<forall>a. pwd (fs_structs k1 a) = pwd (fs_structs k a) \<and> fs_count (fs_structs k1 a) = fs_count (fs_structs k a)"
      using dup_entry [OF Cons.prems(3) True n ne] True by auto
    then show thesis
      by (intro that [of k1]) (use True on in auto)
  qed
  have src: "file_at (from, j) k1 = file_at (from, j) k" for j
    using k1(5) [of "(from, j)"] Cons.prems(2) by simp
  have dst: "file_at (to, j) k1 = file_at (to, j) k" if "j \<in> set is" for j
    using k1(5) [of "(to, j)"] that i by auto
  have "\<exists>n. node (file_at (from, j) k1) = Some n \<and> 0 < refs k1 n" if j: "j \<in> set is" "status (file_at (from, j) k1) = FD_OPENED" for j
  proof -
    obtain n where "node (file_at (from, j) k) = Some n" "0 < refs k n" using Cons.prems(4) j src by auto
    then show ?thesis using k1(3) [of n] src by simp
  qed
  then have "\<forall>i\<in>set is. status (file_at (from, i) k1) = FD_OPENED \<longrightarrow> (\<exists>n. node (file_at (from, i) k1) = Some n \<and> 0 < refs k1 n)"
    by blast
  from Cons.IH [OF _ Cons.prems(2) k1(2) this] Cons.prems(1) obtain k' where k': "fs_dup_loop to from is k1 = Some k'" "fsinv k'"
      "\<forall>n. refs k' n = refs k1 n + opened_in from is k1 n \<and> opens k' n = opens k1 n + opened_in from is k1 n"
      "\<forall>q. q \<notin> Pair to ` set is \<longrightarrow> file_at q k' = file_at q k1" "\<forall>i\<in>set is. file_at (to, i) k' = ?new k1 i"
      "\<forall>a. pwd (fs_structs k' a) = pwd (fs_structs k1 a) \<and> fs_count (fs_structs k' a) = fs_count (fs_structs k1 a)"
    by auto
  have same: "opened_in from is k1 n = opened_in from is k n" for n
    by (rule opened_in_cong) (rule src)
  have "file_at (to, j) k' = ?new k j" if "j \<in> set (i # is)" for j
  proof (cases "j = i")
    case True
    have "(to, i) \<notin> Pair to ` set is" using i by auto
    then have "file_at (to, i) k' = file_at (to, i) k1" using k'(4) by blast
    then show ?thesis using k1(6) True by simp
  next
    case False
    then have "j \<in> set is" using that by simp
    then show ?thesis using k'(5) src dst by simp
  qed
  moreover have "file_at q k' = file_at q k" if "q \<notin> Pair to ` set (i # is)" for q
    using k'(4) [rule_format, of q] k1(5) [of q] that by simp
  moreover have "refs k' n = refs k n + opened_in from (i # is) k n \<and> opens k' n = opens k n + opened_in from (i # is) k n" for n
    using k'(3) k1(3,4) same by (simp add: opened_in_Cons)
  ultimately show ?case
    using k1(1,7) k'(1,2,6) by simp
qed

end

context inode_ops
begin

lemma dup_destroy:
  assumes k: "fsinv k" "\<And>n. 0 \<le> opens k n \<and> opens k n \<le> refs k n \<and> refs k n + 146 < MAX_INODE_COUNT"
    and to: "to \<noteq> from" "fs_count (fs_structs k to) = 0" "\<And>i. i < FS_STRUCT_NENTRY \<Longrightarrow> status (file_at (to, i) k) = FD_NONE \<and> fopen_count (file_at (to, i) k) = 0"
    and src: "0 < fs_count (fs_structs k from)" "\<And>d. pwd (fs_structs k from) = Some d \<Longrightarrow> 0 < refs k d"
      "\<And>i. i < FS_STRUCT_NENTRY \<Longrightarrow> status (file_at (from, i) k) = FD_OPENED \<Longrightarrow> \<exists>n. node (file_at (from, i) k) = Some n \<and> 0 < refs k n"
  shows "\<exists>k1 k2. dup_fs to from k = Some (0, k1) \<and> fs_destroy ops to k1 = Some k2 \<and>
    (\<forall>i < FS_STRUCT_NENTRY. file_at (to, i) k1 = (if status (file_at (from, i) k) = FD_OPENED
       then (file_at (from, i) k)\<lparr>fd := fd (file_at (to, i) k), fopen_count := 1\<rparr> else file_at (to, i) k)) \<and>
    pwd (fs_structs k1 to) = pwd (fs_structs k from) \<and> (\<forall>i. file_at (from, i) k1 = file_at (from, i) k) \<and>
    fsinv k2 \<and> refs k2 = refs k \<and> opens k2 = opens k"
proof -
  let ?is = "[0..<FS_STRUCT_NENTRY]" and ?d = "pwd (fs_structs k from)"
  let ?k0 = "k\<lparr>fs_structs := (fs_structs k)(to := (fs_structs k to)\<lparr>pwd := ?d\<rparr>)\<rparr>"
  have inv0: "fsinv ?k0" by (rule fsinv_layer [OF k(1)]) (simp add: same_static_def refs_def)
  have r0: "refs ?k0 = refs k" "opens ?k0 = opens k" by (simp_all add: refs_def opens_def fun_eq_iff)
  have at0: "file_at q ?k0 = file_at q k" for q by (auto simp: file_at_def)
  obtain k1 where k1: "(case ?d of None \<Rightarrow> Some ?k0 | Some n \<Rightarrow> ref_inc n ?k0) = Some k1" "fsinv k1"
      "\<And>n. refs k1 n = refs k n + of_bool (?d = Some n)" "opens k1 = opens k" "vfs_frame ?k0 k1"
  proof (cases ?d)
    case None
    then show thesis using that [of ?k0] inv0 r0 by (simp add: vfs_frame_def)
  next
    case (Some d)
    have pos: "0 < refs ?k0 d" using src(2) [OF Some] r0 by simp
    obtain k1 where k1: "ref_inc d ?k0 = Some k1" "cnt_step fsinv is_fs ((refs ?k0)(d := refs ?k0 d + 1)) (opens ?k0) ?k0 k1"
      using ref_inc_ok [OF inv0 pos] by blast
    then show thesis
      by (intro that [of k1]) (use Some r0 in \<open>auto simp: cnt_step_def\<close>)
  qed
  have at1: "file_at q k1 = file_at q k" for q using frame_file_at [OF k1(5)] at0 by simp
  have fs1: "fs_structs k1 = fs_structs ?k0" using k1(5) by (simp add: vfs_frame_def)
  have n1: "\<exists>n. node (file_at (from, i) k1) = Some n \<and> 0 < refs k1 n" if i: "i \<in> set ?is" "status (file_at (from, i) k1) = FD_OPENED" for i
  proof -
    have "i < FS_STRUCT_NENTRY" using i(1) by (simp only: set_upt atLeastLessThan_iff)
    then obtain n where "node (file_at (from, i) k) = Some n" "0 < refs k n" using src(3) i(2) at1 by metis
    then show ?thesis using k1(3) [of n] at1 by simp
  qed
  obtain k2 where k2: "fs_dup_loop to from ?is k1 = Some k2" "fsinv k2"
      "\<forall>n. refs k2 n = refs k1 n + opened_in from ?is k1 n \<and> opens k2 n = opens k1 n + opened_in from ?is k1 n"
      "\<forall>q. q \<notin> Pair to ` set ?is \<longrightarrow> file_at q k2 = file_at q k1"
      "\<forall>i\<in>set ?is. file_at (to, i) k2 = (if status (file_at (from, i) k1) = FD_OPENED
       then (file_at (from, i) k1)\<lparr>fd := fd (file_at (to, i) k1), fopen_count := fopen_count (file_at (to, i) k1) + 1\<rparr> else file_at (to, i) k1)"
      "\<forall>a. pwd (fs_structs k2 a) = pwd (fs_structs k1 a) \<and> fs_count (fs_structs k2 a) = fs_count (fs_structs k1 a)"
    using dup_loop_ok [OF distinct_upt [of 0 FS_STRUCT_NENTRY] to(1) k1(2)] n1 by blast
  have run: "dup_fs to from k = Some (0, k2)"
    using to(2) src(1) k1(1) k2(1) by (simp add: dup_fs_def Let_def del: upt_rec_numeral)
  have at2: "file_at (to, i) k2 = (if status (file_at (from, i) k) = FD_OPENED
       then (file_at (from, i) k)\<lparr>fd := fd (file_at (to, i) k), fopen_count := 1\<rparr> else file_at (to, i) k)" if "i < FS_STRUCT_NENTRY" for i
    using k2(5) to(3) [OF that] that at1 by (simp del: upt_rec_numeral)
  have same: "opened_in to ?is k2 n = opened_in from ?is k1 n" for n
    unfolding opened_in_def
    by (rule arg_cong [where f = int], rule arg_cong [where f = length], rule filter_cong)
      (use at2 at1 to(3) in \<open>auto simp: opened_on_def simp del: upt_rec_numeral\<close>)
  have bound: "opened_in from ?is k1 n \<le> 145" for n using opened_in_le [of "from" ?is k1 n] by (simp del: upt_rec_numeral)
  have c2: "counts_ok k2"
    unfolding counts_ok_def
  proof
    fix n
    show "0 \<le> opens k2 n \<and> opens k2 n \<le> refs k2 n \<and> refs k2 n < MAX_INODE_COUNT"
      using k(2) [of n] k2(3) k1(3) [of n] k1(4) bound [of n] opened_in_nonneg [of "from" ?is k1 n] by (cases "?d = Some n") simp_all
  qed
  have p2: "pwd (fs_structs k2 to) = ?d" "fs_count (fs_structs k2 to) = 0" using k2(6) fs1 to(2) by simp_all
  obtain k3 where k3: "(case ?d of None \<Rightarrow> Some k2 | Some d \<Rightarrow> ref_dec ops d k2) = Some k3" "fsinv k3" "vfs_frame k2 k3"
      "\<And>n. refs k3 n = refs k n + opened_in from ?is k1 n" "\<And>n. opens k3 n = opens k n + opened_in from ?is k1 n"
  proof (cases ?d)
    case None
    then show thesis using that [of k2] k2(2,3) k1(3,4) by (simp add: vfs_frame_def)
  next
    case (Some d)
    have "opens k2 d < refs k2 d" using k(2) [of d] k2(3) k1(3) [of d] k1(4) Some by simp
    then obtain k3 where "ref_dec ops d k2 = Some k3" "cnt_step fsinv is_fs ((refs k2)(d := refs k2 d - 1)) (opens k2) k2 k3"
      using ref_dec_ok [OF k2(2) c2] by blast
    then show thesis
      by (intro that [of k3]) (use Some k2(3) k1(3,4) in \<open>auto simp: cnt_step_def\<close>)
  qed
  have at3: "file_at q k3 = file_at q k2" for q by (rule frame_file_at [OF k3(3)])
  have same3: "opened_in to ?is k3 n = opened_in from ?is k1 n" for n
    using opened_in_cong [of ?is to k3 to k2 n] at3 same by simp
  have c3: "counts_ok k3"
    unfolding counts_ok_def
  proof
    fix n
    show "0 \<le> opens k3 n \<and> opens k3 n \<le> refs k3 n \<and> refs k3 n < MAX_INODE_COUNT"
      using k(2) [of n] k3(4,5) [of n] bound [of n] opened_in_nonneg [of "from" ?is k1 n] by simp
  qed
  have idle: "\<forall>i\<in>set ?is. idle (file_at (to, i) k3)"
  proof
    fix i assume "i \<in> set ?is"
    then have i: "i < FS_STRUCT_NENTRY" by (simp only: set_upt atLeastLessThan_iff)
    show "idle (file_at (to, i) k3)" unfolding at3 at2 [OF i] idle_def using to(3) [OF i] src(3) [OF i] by auto
  qed
  obtain k4 where k4: "close_loop ops True to ?is k3 = Some k4" "fsinv k4" "refs k4 = refs k" "opens k4 = opens k"
    using close_loop_ok [OF distinct_upt k3(2) c3 idle, where r = "refs k" and o' = "opens k" and strict = True] k3(4,5) same3 k(2)
    by (simp del: upt_rec_numeral) blast
  have "fs_destroy ops to k2 = Some k4"
    using p2 k3(1) k4(1) by (simp add: fs_destroy_def del: upt_rec_numeral)
  moreover have "file_at (from, i) k2 = file_at (from, i) k" for i
    using k2(4) [rule_format, of "(from, i)"] at1 to(1) by auto
  ultimately show ?thesis
    using run at2 p2(1) k4 by blast
qed

end

subsection \<open>Forking and exiting\<close>

text \<open>C22: Forking copies the table of open files and exiting destroys the copy, where no count of references is near its limit: the copy has the same current directory and, for
  every open descriptor of the parent, a file with the same inode, position and mode that is open once; the parent's table
  is unchanged.  Destroying the copy fails no assertion and takes back every reference and every opening that copying
  took, so all counts are as they were before the fork.\<close>

theorem fork_exit_files:
  assumes "pipe_inv k" "\<forall>n. 0 \<le> opens k n \<and> opens k n \<le> refs k n \<and> refs k n + 146 < MAX_INODE_COUNT"
    and "child \<noteq> parent" "fs_count (fs_structs k child) = 0"
      "\<forall>i < FS_STRUCT_NENTRY. status (file_at (child, i) k) = FD_NONE \<and> fopen_count (file_at (child, i) k) = 0"
    and "0 < fs_count (fs_structs k parent)" "\<forall>d. pwd (fs_structs k parent) = Some d \<longrightarrow> 0 < refs k d"
      "\<forall>i < FS_STRUCT_NENTRY. status (file_at (parent, i) k) = FD_OPENED \<longrightarrow> (\<exists>n. node (file_at (parent, i) k) = Some n \<and> 0 < refs k n)"
  shows "\<exists>k1 k2. dup_fs child parent k = Some (0, k1) \<and> fs_destroy pipe_ops child k1 = Some k2 \<and>
    (\<forall>i < FS_STRUCT_NENTRY. file_at (child, i) k1 = (if status (file_at (parent, i) k) = FD_OPENED
       then (file_at (parent, i) k)\<lparr>fd := fd (file_at (child, i) k), fopen_count := 1\<rparr> else file_at (child, i) k)) \<and>
    pwd (fs_structs k1 child) = pwd (fs_structs k parent) \<and> (\<forall>i. file_at (parent, i) k1 = file_at (parent, i) k) \<and>
    pipe_inv k2 \<and> refs k2 = refs k \<and> opens k2 = opens k"
  by (rule pipe.dup_destroy) (use assms in blast)+

text \<open>The process of \<^const>\<open>demo_pvfs\<close> with the reading end of the pipe open as descriptor 0, and a new table at address 7.\<close>

definition demo_fork :: pipe_vfs where
  "demo_fork = demo_pvfs\<lparr>fs_structs := (\<lambda>a. \<lparr>pwd = None, filemap = (\<lambda>i. \<lparr>status = (if a = 0 \<and> i = 0 then FD_OPENED else FD_NONE), readable = True, writable = False,
     fd = int i, pos = 3, node = Some 20, fopen_count = (if a = 0 \<and> i = 0 then 1 else 0)\<rparr>), fs_count = (if a = 0 then 1 else 0)\<rparr>)\<rparr>"

theorem fork_exit_files_witness:
  "\<exists>k1 k2. dup_fs 7 0 demo_fork = Some (0, k1) \<and> fs_destroy pipe_ops 7 k1 = Some k2 \<and>
     status (file_at (7, 0) k1) = FD_OPENED \<and> pos (file_at (7, 0) k1) = 3 \<and> refs k2 20 = 1 \<and> opens k2 20 = 1"
proof -
  have r: "refs demo_fork = (\<lambda>_. 0)(10 := 2, 20 := 1)" "opens demo_fork = (\<lambda>_. 0)(20 := 1)"
    by (auto simp: demo_fork_def demo_pvfs_def refs_def opens_def fun_eq_iff)
  have inv: "pipe_inv demo_fork"
    by (rule pipe.fsinv_layer [OF demo_pvfs_ok(1)]) (simp add: demo_fork_def same_static_def refs_def)
  have at: "file_at (a, i) demo_fork = \<lparr>status = (if a = 0 \<and> i = 0 then FD_OPENED else FD_NONE), readable = True, writable = False,
     fd = int i, pos = 3, node = Some 20, fopen_count = (if a = 0 \<and> i = 0 then 1 else 0)\<rparr>" for a i
    by (simp add: demo_fork_def file_at_def)
  have fs: "fs_count (fs_structs demo_fork 7) = 0" "0 < fs_count (fs_structs demo_fork 0)" "pwd (fs_structs demo_fork 0) = None"
    by (simp_all add: demo_fork_def)
  have p: "\<forall>n. 0 \<le> opens demo_fork n \<and> opens demo_fork n \<le> refs demo_fork n \<and> refs demo_fork n + 146 < MAX_INODE_COUNT" "(7 :: addr) \<noteq> 0"
      "\<forall>i < FS_STRUCT_NENTRY. status (file_at (7, i) demo_fork) = FD_NONE \<and> fopen_count (file_at (7, i) demo_fork) = 0"
      "\<forall>d. pwd (fs_structs demo_fork 0) = Some d \<longrightarrow> 0 < refs demo_fork d"
      "\<forall>i < FS_STRUCT_NENTRY. status (file_at (0, i) demo_fork) = FD_OPENED \<longrightarrow> (\<exists>n. node (file_at (0, i) demo_fork) = Some n \<and> 0 < refs demo_fork n)"
    unfolding at r fs by simp_all
  obtain k1 k2 where k: "dup_fs 7 0 demo_fork = Some (0, k1)" "fs_destroy pipe_ops 7 k1 = Some k2"
      "\<forall>i < FS_STRUCT_NENTRY. file_at (7, i) k1 = (if status (file_at (0, i) demo_fork) = FD_OPENED
         then (file_at (0, i) demo_fork)\<lparr>fd := fd (file_at (7, i) demo_fork), fopen_count := 1\<rparr> else file_at (7, i) demo_fork)"
      "refs k2 = refs demo_fork" "opens k2 = opens demo_fork"
    using fork_exit_files [OF inv p(1,2) fs(1) p(3) fs(2) p(4,5)] by blast
  from k(3) [rule_format, of 0] have "status (file_at (7, 0) k1) = FD_OPENED \<and> pos (file_at (7, 0) k1) = 3"
    by (simp add: at)
  then show ?thesis using k(1,2,4,5) r by auto
qed

end
