(* ===== verification/Pipe_Io.thy ===== *)
theory Pipe_Io
  imports File_Inv
begin

text \<open>
  Transfers through descriptors, from \<open>file_write\<close> and \<open>file_read\<close> (\<^verbatim>\<open>kern/fs/file.c\<close>) through the operations of a pipe's
  inodes (\<^verbatim>\<open>kern/fs/pipe/pipe_inode.c\<close>) down to the bytes in the pipe's buffer (\<^verbatim>\<open>pipe_state.c\<close>).
\<close>

subsection \<open>A transfer on an open file\<close>

lemma upd_file_pipe [simp]:
  "pins (upd_file q g k) = pins k" "pstates (upd_file q g k) = pstates k" "kmem (upd_file q g k) = kmem k"
  "is_pin n (upd_file q g k) = is_pin n k"
  by (simp_all add: upd_file_def is_pin_def)

abbreviation taken :: "fptr \<Rightarrow> 'a vfs_scheme \<Rightarrow> 'a vfs_scheme" where
  "taken q \<equiv> upd_file q (\<lambda>f. f\<lparr>fopen_count := fopen_count f + 1\<rparr>)"

abbreviation given_back :: "fptr \<Rightarrow> nat \<Rightarrow> 'a vfs_scheme \<Rightarrow> 'a vfs_scheme" where
  "given_back q used \<equiv> upd_file q (\<lambda>f. f\<lparr>pos := off_t (pos f + int used), fopen_count := fopen_count f - 1\<rparr>)"

context inode_ops
begin

lemma file_rw_run:
  assumes inv: "file_inv fsinv is_fs busy starting k" and i: "i < FS_STRUCT_NENTRY" "q = (current_fs k, i)"
    and e: "status (file_at q k) = FD_OPENED" "ok (file_at q k)" "node (file_at q k) = Some n"
    and ok: "\<And>f c. ok (f\<lparr>fopen_count := c\<rparr>) = ok f"
    and vop: "vop n (iobuf_init b len (pos (file_at q k))) (taken q k) = Some (ret, iob, k2)" "fs_step fsinv is_fs None (taken q k) k2"
  shows "file_rw ok vop ops (int i) b len k = Some (ret, iobuf_used iob, given_back q (iobuf_used iob) k2)"
    "file_inv fsinv is_fs busy starting (given_back q (iobuf_used iob) k2)"
proof -
  have entry: "entry_ok (file_at q k) i (count_list busy q)" using file_inv_entry [OF inv i(1)] i(2) by simp
  have "table_ok busy starting k" using inv by (simp add: file_inv_def)
  then have fd: "fd2file (int i) k = Some (0, Some q)"
    using table_okD(1) e(1) entry i by (simp add: fd2file_def testfd_def get_filemap_def entry_ok_def)
  have enter: "file_enter ok (int i) k = Some (Inr q, taken q k)"
    using fd e by (simp add: file_enter_def filemap_acquire_def)
  have inv1: "file_inv fsinv is_fs (q # busy) starting (taken q k)"
    using file_enter_ok [OF inv, of ok "int i"] enter by auto
  have cnt: "counts_ok (taken q k)" using inv1 by (simp add: file_inv_def)
  have h: "holds (cur_file i k) n" using e i(2) by (simp add: holds_def)
  have chk: "inode_check n (taken q k) = Some ()"
    by (rule inode_check_ok [OF cnt]) (use entry_opens(2) [OF inv i(1) h] in simp)
  have inv2: "file_inv fsinv is_fs (q # busy) starting k2" by (rule file_inv_cnt_step [OF inv1 vop(2)])
  have fr: "vfs_frame (taken q k) k2" using vop(2) by (simp add: fs_step_def cnt_step_def)
  have at2: "file_at q k2 = (file_at q k)\<lparr>fopen_count := fopen_count (file_at q k) + 1\<rparr>"
    using frame_file_at [OF fr, of q] by simp
  have c: "0 < fopen_count (file_at q k)" using entry e(1) by (simp add: entry_ok_def)
  have leave: "file_leave ops q (iobuf_used iob) k2 = Some (given_back q (iobuf_used iob) k2)"
    using at2 e(1) c by (simp add: file_leave_def filemap_release_def Let_def upd_file_comp)
  show "file_rw ok vop ops (int i) b len k = Some (ret, iobuf_used iob, given_back q (iobuf_used iob) k2)"
    using enter e(3) chk vop(1) leave by (simp add: file_rw_def)
  show "file_inv fsinv is_fs busy starting (given_back q (iobuf_used iob) k2)"
    using file_leave_ok [OF inv2, of q "iobuf_used iob"] leave by auto
qed

end

subsection \<open>The ends of a pipe\<close>

text \<open>\<open>n\<close> is the end \<open>d\<close> of a pipe in the state \<open>p\<close> at \<open>s\<close>.\<close>

definition pipe_end :: "addr \<Rightarrow> pin_type \<Rightarrow> addr \<Rightarrow> pipe_state \<Rightarrow> 'a pk \<Rightarrow> bool" where
  "pipe_end n d s p k \<longleftrightarrow> is_pin n k \<and> pin_type (pins k n) = d \<and> pstate (pins k n) = s \<and> pstates k s = Some p"

lemma skip_used:
  assumes "r \<le> len"
  shows "\<exists>iob'. (if r \<noteq> 0 then iobuf_skip (iobuf_init b len x) r else Some (iobuf_init b len x)) = Some iob' \<and> iobuf_used iob' = r"
  using assms by (auto simp: iobuf_skip_def iobuf_init_def iobuf_used_def)

lemma pipe_inode_write_run:
  assumes e: "pipe_end n PIN_WRONLY s p k" and p: "pipe_ok p" "\<not> isclosed p" "len \<le> 4040 - length (contents p)" "unat (p_wpos p) + len < 2 ^ 32"
  shows "\<exists>iob p'. pipe_inode_write n (iobuf_init b len x) k = Some (0, iob, k\<lparr>pstates := (pstates k)(s \<mapsto> p')\<rparr>) \<and> iobuf_used iob = len \<and>
    pipe_ok p' \<and> \<not> isclosed p' \<and> ref_count p' = ref_count p \<and> contents p' = contents p @ map (\<lambda>i. kmem k (b + i)) [0..<len]"
proof -
  obtain p' where w: "write_loop (kmem k) b 0 p len = (Returns, len, p')" "pipe_ok p'" "isclosed p' = isclosed p"
      "contents p' = contents p @ map (\<lambda>i. kmem k (b + i)) [0..<len]"
    using write_loop_correct [OF p(1,4), of "kmem k" b 0] p(3) by (auto simp del: length_contents)
  have wr: "pipe_state_write (kmem k) b 0 len p [(False, id)] = (Returns, len, p')"
    using p(2) by (simp add: pipe_write_section_def w(1))
  obtain iob where iob: "(if len \<noteq> 0 then iobuf_skip (iobuf_init b len x) len else Some (iobuf_init b len x)) = Some iob" "iobuf_used iob = len"
    using skip_used [of len len b x] by blast
  have pin: "vop_pin n k = Some (pins k n)" "pin_type (pins k n) = PIN_WRONLY" "pstate (pins k n) = s" "pstates k s = Some p"
    using e vop_pin_eq by (auto simp: pipe_end_def)
  have fields: "io_base (iobuf_init b len x) = b" "io_resid (iobuf_init b len x) = len" by (simp_all add: iobuf_init_def)
  have "pipe_inode_write n (iobuf_init b len x) k = Some (0, iob, k\<lparr>pstates := (pstates k)(s \<mapsto> p')\<rparr>)"
    unfolding pipe_inode_write_def pin fields using iob(1) by (simp add: pin wr del: pipe_state_write.simps)
  then show ?thesis
    using iob(2) w p(2) pipe_state_write_bounds [OF wr] by auto
qed

lemma pipe_inode_read_run:
  assumes e: "pipe_end n PIN_RDONLY s p k" and p: "pipe_ok p" "contents p \<noteq> []"
  shows "\<exists>iob p'. pipe_inode_read n (iobuf_init b len x) k = Some (0, iob, k\<lparr>kmem := (\<lambda>a. if b \<le> a \<and> a < b + min len (length (contents p)) then contents p ! (a - b) else kmem k a),
      pstates := (pstates k)(s \<mapsto> p')\<rparr>) \<and> iobuf_used iob = min len (length (contents p)) \<and>
    pipe_ok p' \<and> isclosed p' = isclosed p \<and> ref_count p' = ref_count p \<and> contents p' = drop len (contents p)"
proof -
  let ?m = "\<lambda>a. if b \<le> a \<and> a < b + min len (length (contents p)) then contents p ! (a - b) else kmem k a"
  let ?r = "min len (length (contents p))"
  obtain p' where w: "read_loop (kmem k) b 0 p len = (?r, ?m, p')" "pipe_ok p'" "isclosed p' = isclosed p" "contents p' = drop len (contents p)"
    using read_loop_correct [OF p(1), of "kmem k" b 0 len, unfolded diff_zero] by (auto simp del: length_contents)
  have rd: "pipe_state_read (kmem k) b len p [(False, id)] = (Returns, ?r, ?m, p')"
    using p is_empty_iff [OF p(1)] by (simp add: pipe_read_section_def w(1) del: length_contents)
  obtain iob where iob: "(if ?r \<noteq> 0 then iobuf_skip (iobuf_init b len x) ?r else Some (iobuf_init b len x)) = Some iob" "iobuf_used iob = ?r"
    using skip_used [of ?r len b x] by auto
  have pin: "vop_pin n k = Some (pins k n)" "pin_type (pins k n) = PIN_RDONLY" "pstate (pins k n) = s" "pstates k s = Some p"
    using e vop_pin_eq by (auto simp: pipe_end_def)
  have fields: "io_base (iobuf_init b len x) = b" "io_resid (iobuf_init b len x) = len" by (simp_all add: iobuf_init_def)
  have "pipe_inode_read n (iobuf_init b len x) k = Some (0, iob, k\<lparr>kmem := ?m, pstates := (pstates k)(s \<mapsto> p')\<rparr>)"
    unfolding pipe_inode_read_def pin Option.bind.simps fields rd Let_def prod.case iob(1) by simp
  then show ?thesis
    using iob(2) w pipe_state_read_bounds [OF rd] by auto
qed

lemma ops_pin:
  "is_pin n k \<Longrightarrow> op_write pipe_ops n iob k = pipe_inode_write n iob k"
  "is_pin n k \<Longrightarrow> op_read pipe_ops n iob k = pipe_inode_read n iob k"
  by (simp_all add: pipe_ops_def pipe_node_ops_def)

lemma pipe_taken:
  assumes "file_inv pipe_inv is_pipe_fs busy starting k" "pipe_end n d s p k"
  shows "pipe_inv (taken q k)" "pipe_end n d s p (taken q k)" "is_pin n (taken q k)" "pstates (taken q k) s = Some p"
  using assms pipe.fsinv_layer [of k, OF _ upd_file_static [of k q]] by (auto simp: file_inv_def pipe_end_def)

text \<open>Writing and reading through a descriptor.\<close>

lemma pipe_file_write:
  assumes inv: "file_inv pipe_inv is_pipe_fs busy starting k"
    and w: "w < FS_STRUCT_NENTRY" "status (cur_file w k) = FD_OPENED" "writable (cur_file w k)" "node (cur_file w k) = Some n" "pipe_end n PIN_WRONLY s p k"
    and p: "pipe_ok p" "\<not> isclosed p" "len \<le> 4040 - length (contents p)" "unat (p_wpos p) + len < 2 ^ 32"
  shows "\<exists>k' p'. file_write pipe_ops (int w) b len k = Some (0, len, k') \<and> file_inv pipe_inv is_pipe_fs busy starting k' \<and>
    pstates k' s = Some p' \<and> pipe_ok p' \<and> \<not> isclosed p' \<and> contents p' = contents p @ map (\<lambda>i. kmem k (b + i)) [0..<len] \<and>
    kmem k' = kmem k \<and> pins k' = pins k \<and> inodes k' = inodes k \<and> current_fs k' = current_fs k \<and>
    cur_file w k' = (cur_file w k)\<lparr>pos := off_t (pos (cur_file w k) + int len)\<rparr> \<and> (\<forall>j. j \<noteq> w \<longrightarrow> cur_file j k' = cur_file j k)"
proof -
  let ?q = "(current_fs k, w)"
  note t = pipe_taken [OF inv w(5), of ?q]
  obtain iob p' where wr: "pipe_inode_write n (iobuf_init b len (pos (cur_file w k))) (taken ?q k) =
        Some (0, iob, (taken ?q k)\<lparr>pstates := (pstates (taken ?q k))(s \<mapsto> p')\<rparr>)" "iobuf_used iob = len"
      "pipe_ok p'" "\<not> isclosed p'" "ref_count p' = ref_count p" "contents p' = contents p @ map (\<lambda>i. kmem k (b + i)) [0..<len]"
    using pipe_inode_write_run [OF t(2) p, of b "pos (cur_file w k)"] by auto
  let ?k2 = "(taken ?q k)\<lparr>pstates := (pstates (taken ?q k))(s \<mapsto> p')\<rparr>"
  have step: "fs_step pipe_inv is_pipe_fs None (taken ?q k) ?k2" by (rule pipe_data_step(2) [OF t(1,4) wr(5)])
  have op: "op_write pipe_ops n (iobuf_init b len (pos (file_at ?q k))) (taken ?q k) = Some (0, iob, ?k2)"
    using wr(1) ops_pin(1) [OF t(3)] by simp
  let ?k' = "given_back ?q len ?k2"
  have "file_write pipe_ops (int w) b len k = Some (0, len, ?k')" "file_inv pipe_inv is_pipe_fs busy starting ?k'"
    using pipe.file_rw_run [where ok = writable and vop = "op_write pipe_ops", OF inv w(1) refl w(2,3,4) _ op step] by (simp_all add: file_write_def wr(2))
  moreover have "file_at a ?k2 = file_at a (taken ?q k)" for a by (simp add: file_at_def)
  ultimately show ?thesis
    using wr(3,4,6) by (auto simp: file_at_upd_other)
qed

lemma pipe_file_read:
  assumes inv: "file_inv pipe_inv is_pipe_fs busy starting k"
    and r: "r < FS_STRUCT_NENTRY" "status (cur_file r k) = FD_OPENED" "readable (cur_file r k)" "node (cur_file r k) = Some n" "pipe_end n PIN_RDONLY s p k"
    and p: "pipe_ok p" "contents p \<noteq> []"
    and got_def: "got = min len (length (contents p))"
  shows "\<exists>k' p'. file_read pipe_ops (int r) b len k = Some (0, got, k') \<and> file_inv pipe_inv is_pipe_fs busy starting k' \<and>
    pstates k' s = Some p' \<and> pipe_ok p' \<and> isclosed p' = isclosed p \<and> contents p' = drop len (contents p) \<and>
    kmem k' = (\<lambda>a. if b \<le> a \<and> a < b + got then contents p ! (a - b) else kmem k a) \<and> current_fs k' = current_fs k \<and>
    cur_file r k' = (cur_file r k)\<lparr>pos := off_t (pos (cur_file r k) + int got)\<rparr> \<and> (\<forall>j. j \<noteq> r \<longrightarrow> cur_file j k' = cur_file j k)"
proof -
  let ?q = "(current_fs k, r)"
  let ?m = "\<lambda>a. if b \<le> a \<and> a < b + got then contents p ! (a - b) else kmem k a"
  note t = pipe_taken [OF inv r(5), of ?q]
  obtain iob p' where rd: "pipe_inode_read n (iobuf_init b len (pos (cur_file r k))) (taken ?q k) =
        Some (0, iob, (taken ?q k)\<lparr>kmem := ?m, pstates := (pstates (taken ?q k))(s \<mapsto> p')\<rparr>)" "iobuf_used iob = got"
      "pipe_ok p'" "isclosed p' = isclosed p" "ref_count p' = ref_count p" "contents p' = drop len (contents p)"
    using pipe_inode_read_run [OF t(2) p, of b len "pos (cur_file r k)"] unfolding got_def upd_file_pipe by blast
  let ?k2 = "(taken ?q k)\<lparr>kmem := ?m, pstates := (pstates (taken ?q k))(s \<mapsto> p')\<rparr>"
  have step: "fs_step pipe_inv is_pipe_fs None (taken ?q k) ?k2" by (rule pipe_data_step(1) [OF t(1,4) rd(5)])
  have op: "op_read pipe_ops n (iobuf_init b len (pos (file_at ?q k))) (taken ?q k) = Some (0, iob, ?k2)"
    using rd(1) ops_pin(2) [OF t(3)] by simp
  let ?k' = "given_back ?q got ?k2"
  have "file_read pipe_ops (int r) b len k = Some (0, got, ?k')" "file_inv pipe_inv is_pipe_fs busy starting ?k'"
    using pipe.file_rw_run [where ok = readable and vop = "op_read pipe_ops", OF inv r(1) refl r(2,3,4) _ op step] by (simp_all add: file_read_def rd(2))
  moreover have "file_at a ?k2 = file_at a (taken ?q k)" for a by (simp add: file_at_def)
  ultimately show ?thesis
    using rd(3,4,6) by (auto simp: file_at_upd_other)
qed

text \<open>C21: What is written to one end of a pipe is read at the other: with an empty pipe open for writing at one descriptor and for
  reading at another, as long as the positions of the pipe do not wrap around at 2^32, \<open>file_write\<close> of up to 4040 bytes followed by \<open>file_read\<close> of as many transfers them all, the reader's
  buffer holds the writer's bytes in their order and the rest of the memory is unchanged, both positions advance by the
  number of bytes, and the table of open files and the pipe are left consistent.\<close>

theorem pipe_write_read:
  assumes inv: "file_inv pipe_inv is_pipe_fs busy starting k" and ne: "w \<noteq> r"
    and w: "w < FS_STRUCT_NENTRY" "status (cur_file w k) = FD_OPENED" "writable (cur_file w k)" "node (cur_file w k) = Some nw" "pipe_end nw PIN_WRONLY s p k"
    and r: "r < FS_STRUCT_NENTRY" "status (cur_file r k) = FD_OPENED" "readable (cur_file r k)" "node (cur_file r k) = Some nr" "pipe_end nr PIN_RDONLY s p k"
    and p: "pipe_ok p" "\<not> isclosed p" "contents p = []" "0 < len" "len \<le> 4040" "unat (p_wpos p) + len < 2 ^ 32"
  shows "\<exists>k1 k2. file_write pipe_ops (int w) b len k = Some (0, len, k1) \<and> file_read pipe_ops (int r) b' len k1 = Some (0, len, k2) \<and>
    kmem k2 = (\<lambda>a. if b' \<le> a \<and> a < b' + len then kmem k (b + (a - b')) else kmem k a) \<and>
    pos (cur_file w k2) = off_t (pos (cur_file w k) + int len) \<and> pos (cur_file r k2) = off_t (pos (cur_file r k) + int len) \<and>
    file_inv pipe_inv is_pipe_fs busy starting k2"
proof -
  have "len \<le> 4040 - length (contents p)" using p(3,5) by (simp del: length_contents)
  from pipe_file_write [OF inv w p(1,2) this p(6)] obtain k1 p1 where k1: "file_write pipe_ops (int w) b len k = Some (0, len, k1)"
      "file_inv pipe_inv is_pipe_fs busy starting k1" "pstates k1 s = Some p1" "pipe_ok p1" "contents p1 = map (\<lambda>i. kmem k (b + i)) [0..<len]"
      "kmem k1 = kmem k" "pins k1 = pins k" "inodes k1 = inodes k" "current_fs k1 = current_fs k"
      "cur_file w k1 = (cur_file w k)\<lparr>pos := off_t (pos (cur_file w k) + int len)\<rparr>" "\<forall>j. j \<noteq> w \<longrightarrow> cur_file j k1 = cur_file j k"
    unfolding p(3) append_Nil by blast
  have c: "contents p1 \<noteq> []" "min len (length (contents p1)) = len" using k1(5) p(4) by (simp_all del: length_contents)
  have r1: "cur_file r k1 = cur_file r k" "pipe_end nr PIN_RDONLY s p1 k1"
    using k1 ne r(5) by (auto simp: pipe_end_def is_pin_def)
  have r2: "status (cur_file r k1) = FD_OPENED" "readable (cur_file r k1)" "node (cur_file r k1) = Some nr" using r(2-4) r1(1) by simp_all
  from pipe_file_read [OF k1(2) r(1) r2 r1(2) k1(4) c(1) c(2) [symmetric], of b'] obtain k2 where k2:
      "file_read pipe_ops (int r) b' len k1 = Some (0, len, k2)" "file_inv pipe_inv is_pipe_fs busy starting k2"
      "kmem k2 = (\<lambda>a. if b' \<le> a \<and> a < b' + len then contents p1 ! (a - b') else kmem k1 a)" "current_fs k2 = current_fs k1"
      "cur_file r k2 = (cur_file r k1)\<lparr>pos := off_t (pos (cur_file r k1) + int len)\<rparr>" "\<forall>j. j \<noteq> r \<longrightarrow> cur_file j k2 = cur_file j k1"
    by blast
  have "kmem k2 = (\<lambda>a. if b' \<le> a \<and> a < b' + len then kmem k (b + (a - b')) else kmem k a)"
    unfolding k2(3) k1(5,6) by (auto simp: fun_eq_iff)
  then show ?thesis
    using k1(1,10) k2(1,2,5,6) r1(1) ne by auto
qed

text \<open>The pipe of \<^const>\<open>demo_pvfs\<close> with both ends open, the writing end at address 21 as descriptor 1.\<close>

definition demo_both :: pipe_vfs where
  "demo_both = demo_pvfs\<lparr>
     inodes := (inodes demo_pvfs)(21 \<mapsto> \<lparr>in_type = pipe_inode_info, inode_ref_count = 1, inode_open_count = 1, in_fs = Some 1\<rparr>),
     fs_structs := (\<lambda>_. \<lparr>pwd = None, filemap = (\<lambda>i. \<lparr>status = (if i < 2 then FD_OPENED else FD_NONE), readable = (i = 0), writable = (i = 1),
        fd = int i, pos = 0, node = Some (20 + i), fopen_count = (if i < 2 then 1 else 0)\<rparr>), fs_count = 1\<rparr>),
     pins := (\<lambda>n. \<lparr>pin_type = (if n = 20 then PIN_RDONLY else PIN_WRONLY), pname = Some ''p'', reclaim_count = 1, pstate = 30\<rparr>),
     pstates := [30 \<mapsto> \<lparr>p_rpos = 4039, p_wpos = 4039, buf = (\<lambda>_. 0), isclosed = False, ref_count = 2\<rparr>],
     pipe_list := [21, 20], kmem := (\<lambda>a. of_nat a)\<rparr>"

lemma demo_both_pin: "is_pin n demo_both \<longleftrightarrow> n = 20 \<or> n = 21"
  by (auto simp: is_pin_def demo_both_def demo_pvfs_def)

lemma demo_both_refs: "refs demo_both = (\<lambda>_. 0)(10 := 2, 20 := 1, 21 := 1)" "opens demo_both = (\<lambda>_. 0)(20 := 1, 21 := 1)"
  by (auto simp: demo_both_def demo_pvfs_def refs_def opens_def fun_eq_iff)

lemma demo_both_at: "file_at q demo_both = \<lparr>status = (if snd q < 2 then FD_OPENED else FD_NONE), readable = (snd q = 0), writable = (snd q = 1),
        fd = int (snd q), pos = 0, node = Some (20 + snd q), fopen_count = (if snd q < 2 then 1 else 0)\<rparr>"
  by (simp add: file_at_def demo_both_def)

lemma demo_both_inv: "pipe_inv demo_both"
proof -
  have sh: "sharers demo_both s = (if s = 30 then {20, 21} else {})" for s
    by (auto simp: sharers_def demo_both_pin) (auto simp: demo_both_def)
  have "nodes_ok demo_both"
    unfolding nodes_ok_def demo_both_pin by (auto simp: demo_both_def demo_pvfs_def split: if_splits)
  moreover have "shares_ok demo_both"
    unfolding shares_ok_def sh by (auto simp: demo_both_def)
  moreover have "names_ok demo_both"
    unfolding names_ok_def demo_both_pin by (auto simp: demo_both_def demo_pvfs_def)
  moreover have "blocks_ok demo_both"
    by (auto simp: blocks_ok_def demo_both_def demo_pvfs_def)
  ultimately show ?thesis
    by (simp add: pipe_inv_def pipe_inv0_def demo_both_def demo_pvfs_def)
qed

lemma demo_both_table: "file_inv pipe_inv is_pipe_fs [] [] demo_both"
proof -
  have slots: "slots demo_both n = (if n = 20 then {0} else if n = 21 then {1} else {})" for n
    by (auto simp: slots_def demo_both_at holds_def split: if_splits)
  have starts: "start_nodes demo_both = {10}"
    by (auto simp: start_nodes_def demo_both_def demo_pvfs_def)
  have "table_ok [] [] demo_both"
    unfolding table_ok_def slots starts demo_both_refs demo_both_at pend_def entry_ok_def by (simp add: demo_both_def)
  moreover have "counts_ok demo_both"
    by (simp add: counts_ok_def demo_both_refs)
  moreover have "starts_ok is_pipe_fs demo_both"
    by (auto simp: starts_ok_def demo_both_refs) (auto simp: demo_both_def demo_pvfs_def is_pipe_fs_def)
  ultimately show ?thesis
    using demo_both_inv by (simp add: file_inv_def)
qed

theorem pipe_write_read_witness:
  "\<exists>k1 k2. file_write pipe_ops 1 100 3 demo_both = Some (0, 3, k1) \<and> file_read pipe_ops 0 200 3 k1 = Some (0, 3, k2) \<and>
     map (kmem k2) [199, 200, 201, 202, 203] = [199, 100, 101, 102, 203]"
proof -
  let ?p = "\<lparr>p_rpos = 4039, p_wpos = 4039, buf = (\<lambda>_. 0), isclosed = False, ref_count = 2\<rparr> :: pipe_state"
  have e: "pipe_end 21 PIN_WRONLY 30 ?p demo_both" "pipe_end 20 PIN_RDONLY 30 ?p demo_both"
    unfolding pipe_end_def demo_both_pin by (simp_all add: demo_both_def)
  have p: "pipe_ok ?p" "\<not> isclosed ?p" "contents ?p = []" "unat (p_wpos ?p) + 3 < 2 ^ 32"
    by (simp_all add: pipe_ok_def contents_def)
  have m: "kmem demo_both = (\<lambda>a. of_nat a)" by (simp add: demo_both_def)
  from pipe_write_read [OF demo_both_table, of 1 0 21 30 ?p 20 3 100 200] e p show ?thesis
    by (auto simp: demo_both_at m)
qed

end
