(* ===== verification/Swap.thy ===== *)
theory Swap
  imports Buddy Proc
begin

text \<open>
  The swap cache of \<^verbatim>\<open>kern/mm/swap.c\<close>: swap entries and their reference counts (\<^verbatim>\<open>mem_map\<close>), the pages that hold the contents of
  an entry in memory, found by entry through a hash table and kept in the active or the inactive list, and the two scans
  that \<^verbatim>\<open>kswapd\<close> makes over these lists.

  Page frames are numbered as in \<open>Buddy\<close>, whose state is the field \<open>phys\<close>; the field \<^verbatim>\<open>index\<close> of a page descriptor, which the
  allocator does not touch, is \<open>page_index\<close>.  The contents of a page frame are its 1024 words, \<open>frames\<close>; \<open>swap_disk\<close> is the
  contents of the swap device by offset.  A transfer to or from the device that fails leaves the destination with arbitrary
  contents: \<open>disk_io\<close> lists, for the transfers to come, these contents for one that fails and \<^const>\<open>None\<close> for one that succeeds.
  The semaphore \<^verbatim>\<open>swap_in_sem\<close> only makes reading a page in a single step, which it is here.
\<close>

type_synonym u16 = "16 word"
type_synonym page_words = "nat \<Rightarrow> u32"

definition PG_dirty :: nat where "PG_dirty = 3"
definition PG_swap :: nat where "PG_swap = 4"
definition PG_active :: nat where "PG_active = 5"

abbreviation SWAP_UNUSED :: u16 where "SWAP_UNUSED \<equiv> 0xFFFF"
abbreviation MAX_SWAP_REF :: u16 where "MAX_SWAP_REF \<equiv> 0xFFFE"
abbreviation E_SWAP_FAULT :: int where "E_SWAP_FAULT \<equiv> 7"

record vmem =
  phys :: buddy
  frames :: "nat \<Rightarrow> page_words"
  page_index :: "nat \<Rightarrow> u32"
  active_list :: "nat list"
  nr_active_pages :: u32
  inactive_list :: "nat list"
  nr_inactive_pages :: u32
  mem_map :: "nat \<Rightarrow> u16"
  max_swap_offset :: nat
  entry_list :: "nat \<Rightarrow> nat list"
  next_entry :: nat
  swap_disk :: "nat \<Rightarrow> page_words"
  disk_io :: "page_words option list"

subsection \<open>Page descriptors\<close>

abbreviation upd_pg :: "nat \<Rightarrow> (Page \<Rightarrow> Page) \<Rightarrow> vmem \<Rightarrow> vmem" where
  "upd_pg p f k \<equiv> k\<lparr>phys := upd_page p f (phys k)\<rparr>"

abbreviation page_at :: "nat \<Rightarrow> vmem \<Rightarrow> Page" where
  "page_at p k \<equiv> pages (phys k) p"

abbreviation PageSwap :: "nat \<Rightarrow> vmem \<Rightarrow> bool" where "PageSwap p k \<equiv> test_flag PG_swap (page_at p k)"
abbreviation PageActive :: "nat \<Rightarrow> vmem \<Rightarrow> bool" where "PageActive p k \<equiv> test_flag PG_active (page_at p k)"
abbreviation PageDirty :: "nat \<Rightarrow> vmem \<Rightarrow> bool" where "PageDirty p k \<equiv> test_flag PG_dirty (page_at p k)"

definition page_ref :: "nat \<Rightarrow> vmem \<Rightarrow> int" where
  "page_ref p k = ref (page_at p k)"

definition set_page_ref :: "nat \<Rightarrow> int \<Rightarrow> vmem \<Rightarrow> vmem" where
  "set_page_ref p v k = upd_pg p (\<lambda>pg. pg\<lparr>ref := v\<rparr>) k"

definition free_page :: "nat \<Rightarrow> vmem \<Rightarrow> vmem option" where
  "free_page p k = do { b \<leftarrow> buddy_free_pages p 1 (phys k); Some (k\<lparr>phys := b\<rparr>) }"

text \<open>Allocation: when no block is free, \<open>try_free_pages\<close> waits for \<^verbatim>\<open>kswapd\<close> and says whether to try again.  What the system does
  until the caller runs again is the argument \<open>tfp\<close>.\<close>

partial_function (option) alloc_pages :: "(nat \<Rightarrow> vmem \<Rightarrow> bool \<times> vmem) \<Rightarrow> nat \<Rightarrow> vmem \<Rightarrow> (nat option \<times> vmem) option" where
  "alloc_pages tfp n k = do {
     (page, b) \<leftarrow> buddy_alloc_pages n (phys k);
     (let k = k\<lparr>phys := b\<rparr> in
      case page of
        Some p \<Rightarrow> Some (Some p, k)
      | None \<Rightarrow> (case tfp n k of (again, k) \<Rightarrow> if again then alloc_pages tfp n k else Some (None, k)))
   }"

declare alloc_pages.simps [code]

abbreviation alloc_page :: "(nat \<Rightarrow> vmem \<Rightarrow> bool \<times> vmem) \<Rightarrow> vmem \<Rightarrow> (nat option \<times> vmem) option" where
  "alloc_page tfp \<equiv> alloc_pages tfp 1"

subsection \<open>The swap lists\<close>

definition swap_active_list_add :: "nat \<Rightarrow> vmem \<Rightarrow> vmem option" where
  "swap_active_list_add p k = do {
     kassert (PageSwap p k);
     let k = upd_pg p (set_flag PG_active) k;
     Some (k\<lparr>nr_active_pages := nr_active_pages k + 1, active_list := active_list k @ [p]\<rparr>)
   }"

definition swap_inactive_list_add :: "nat \<Rightarrow> vmem \<Rightarrow> vmem option" where
  "swap_inactive_list_add p k = do {
     kassert (PageSwap p k);
     let k = upd_pg p (clear_flag PG_active) k;
     Some (k\<lparr>nr_inactive_pages := nr_inactive_pages k + 1, inactive_list := inactive_list k @ [p]\<rparr>)
   }"

text \<open>\<open>list_del\<close> takes the page out of the list it is in, whatever the flag says.\<close>

definition swap_list_del :: "nat \<Rightarrow> vmem \<Rightarrow> vmem option" where
  "swap_list_del p k = do {
     kassert (PageSwap p k);
     let k = (if PageActive p k then k\<lparr>nr_active_pages := nr_active_pages k - 1\<rparr>
              else k\<lparr>nr_inactive_pages := nr_inactive_pages k - 1\<rparr>);
     Some (k\<lparr>active_list := remove1 p (active_list k), inactive_list := remove1 p (inactive_list k)\<rparr>)
   }"

definition swap_init :: "nat \<Rightarrow> vmem \<Rightarrow> vmem option" where
  "swap_init dev_size k = do {
     let k = k\<lparr>max_swap_offset := dev_size div 8, active_list := [], nr_active_pages := 0, inactive_list := [], nr_inactive_pages := 0\<rparr>;
     kassert (1024 \<le> max_swap_offset k \<and> max_swap_offset k < 2 ^ 24);
     Some (k\<lparr>mem_map := (\<lambda>off. if off < max_swap_offset k then SWAP_UNUSED else mem_map k off), entry_list := (\<lambda>_. [])\<rparr>)
   }"

subsection \<open>Swap entries\<close>

definition swap_offset :: "u32 \<Rightarrow> vmem \<Rightarrow> nat option" where
  "swap_offset entry k =
     (let off = unat (drop_bit 8 entry) in if off > 0 \<and> off < max_swap_offset k then Some off else None)"

definition entry_hashfn :: "u32 \<Rightarrow> nat" where
  "entry_hashfn x = unat (hash32 x 10)"

definition swap_hash_find :: "u32 \<Rightarrow> vmem \<Rightarrow> nat option" where
  "swap_hash_find entry k = find (\<lambda>p. page_index k p = entry) (entry_list k (entry_hashfn entry))"

text \<open>\<open>list_del\<close> of \<^verbatim>\<open>page_link\<close>: the page leaves the bucket it is in.\<close>

definition swap_page_del :: "nat \<Rightarrow> vmem \<Rightarrow> vmem option" where
  "swap_page_del p k = do {
     kassert (PageSwap p k);
     Some ((upd_pg p (clear_flag PG_swap) k)\<lparr>entry_list := (\<lambda>h. remove1 p (entry_list k h))\<rparr>)
   }"

definition swap_free_page :: "nat \<Rightarrow> vmem \<Rightarrow> vmem option" where
  "swap_free_page p k = do {
     kassert (PageSwap p k \<and> page_ref p k = 0);
     k \<leftarrow> swap_page_del p k;
     free_page p k
   }"

text \<open>The loop of \<open>try_alloc_swap_entry\<close>; \<open>stop\<close> is where it started.  It passes every offset at most once, so
  \<^const>\<open>max_swap_offset\<close> is enough fuel.\<close>

fun scan_entries :: "nat \<Rightarrow> vmem \<Rightarrow> nat \<Rightarrow> nat \<Rightarrow> nat \<Rightarrow> nat \<Rightarrow> (nat \<times> nat \<times> nat) option" where
  "scan_entries 0 k stop emp zero next = None"
| "scan_entries (Suc fuel) k stop emp zero next =
     (let emp = (if mem_map k next = SWAP_UNUSED then next else emp);
          zero = (if mem_map k next = 0 \<and> zero = 0 then next else zero);
          next = (if next + 1 = max_swap_offset k then 1 else next + 1)
      in if emp = 0 \<and> next \<noteq> stop then scan_entries fuel k stop emp zero next else Some (emp, zero, next))"

definition try_alloc_swap_entry :: "vmem \<Rightarrow> (u32 \<times> vmem) option" where
  "try_alloc_swap_entry k = do {
     (emp, zero, next) \<leftarrow> scan_entries (max_swap_offset k) k (next_entry k) 0 0 (next_entry k);
     let k = k\<lparr>next_entry := next\<rparr>;
     (if emp \<noteq> 0 then Some (push_bit 8 (of_nat emp), k)
      else if zero \<noteq> 0 then do {
        let entry = push_bit 8 (of_nat zero);
        p \<leftarrow> swap_hash_find entry k;
        kassert (PageSwap p k);
        k \<leftarrow> swap_list_del p k;
        k \<leftarrow> (if page_ref p k = 0 then swap_free_page p k else swap_page_del p k);
        Some (entry, k\<lparr>mem_map := (mem_map k)(zero := SWAP_UNUSED)\<rparr>)
      }
      else Some (0, k))
   }"

definition swap_page_add :: "nat \<Rightarrow> u32 \<Rightarrow> vmem \<Rightarrow> (bool \<times> vmem) option" where
  "swap_page_add p entry k = do {
     kassert (\<not> PageSwap p k);
     (entry, k) \<leftarrow>
       (if entry = 0 then do {
          (entry, k) \<leftarrow> try_alloc_swap_entry k;
          (if entry = 0 then Some (0, k)
           else do {
             off \<leftarrow> swap_offset entry k;
             kassert (mem_map k off = SWAP_UNUSED);
             Some (entry, upd_pg p (set_flag PG_dirty) (k\<lparr>mem_map := (mem_map k)(off := 0)\<rparr>))
           })
        }
        else Some (entry, k));
     (if entry = 0 then Some (False, k)
      else Some (True, (upd_pg p (set_flag PG_swap) k)\<lparr>page_index := (page_index k)(p := entry),
                  entry_list := (entry_list k)(entry_hashfn entry := p # entry_list k (entry_hashfn entry))\<rparr>))
   }"

definition swap_remove_entry :: "u32 \<Rightarrow> vmem \<Rightarrow> vmem option" where
  "swap_remove_entry entry k = do {
     off \<leftarrow> swap_offset entry k;
     kassert (mem_map k off > 0);
     let k = k\<lparr>mem_map := (mem_map k)(off := mem_map k off - 1)\<rparr>;
     (if mem_map k off = 0 then
        (case swap_hash_find entry k of
           Some p \<Rightarrow>
             if page_ref p k \<noteq> 0 then Some k
             else do {
               k \<leftarrow> swap_list_del p k;
               k \<leftarrow> swap_free_page p k;
               Some (k\<lparr>mem_map := (mem_map k)(off := SWAP_UNUSED)\<rparr>)
             }
         | None \<Rightarrow> Some (k\<lparr>mem_map := (mem_map k)(off := SWAP_UNUSED)\<rparr>))
      else Some k)
   }"

definition swap_page_count :: "nat \<Rightarrow> vmem \<Rightarrow> int option" where
  "swap_page_count p k =
     (if \<not> PageSwap p k then Some 0 else do { off \<leftarrow> swap_offset (page_index k p) k; Some (int (unat (mem_map k off))) })"

definition swap_duplicate :: "u32 \<Rightarrow> vmem \<Rightarrow> vmem option" where
  "swap_duplicate entry k = do {
     off \<leftarrow> swap_offset entry k;
     kassert (mem_map k off < MAX_SWAP_REF);
     Some (k\<lparr>mem_map := (mem_map k)(off := mem_map k off + 1)\<rparr>)
   }"

subsection \<open>Reading and writing pages\<close>

definition io_result :: "vmem \<Rightarrow> page_words option \<times> vmem" where
  "io_result k = (case disk_io k of [] \<Rightarrow> (None, k) | r # rs \<Rightarrow> (r, k\<lparr>disk_io := rs\<rparr>))"

definition swapfs_read :: "u32 \<Rightarrow> nat \<Rightarrow> vmem \<Rightarrow> (bool \<times> vmem) option" where
  "swapfs_read entry p k = do {
     off \<leftarrow> swap_offset entry k;
     let (r, k) = io_result k;
     Some (r = None, k\<lparr>frames := (frames k)(p := (case r of None \<Rightarrow> swap_disk k off | Some junk \<Rightarrow> junk))\<rparr>)
   }"

definition swapfs_write :: "u32 \<Rightarrow> nat \<Rightarrow> vmem \<Rightarrow> (bool \<times> vmem) option" where
  "swapfs_write entry p k = do {
     off \<leftarrow> swap_offset entry k;
     let (r, k) = io_result k;
     Some (r = None, k\<lparr>swap_disk := (swap_disk k)(off := (case r of None \<Rightarrow> frames k p | Some junk \<Rightarrow> junk))\<rparr>)
   }"

text \<open>The result is the return value and the page; the test of \<^verbatim>\<open>pagep\<close> against \<^verbatim>\<open>NULL\<close> is left out, as is the one of \<^verbatim>\<open>store\<close> below: every caller
  passes the address of a variable.\<close>

definition swap_in_page :: "(nat \<Rightarrow> vmem \<Rightarrow> bool \<times> vmem) \<Rightarrow> u32 \<Rightarrow> vmem \<Rightarrow> (int \<times> nat option \<times> vmem) option" where
  "swap_in_page tfp entry k = do {
     off \<leftarrow> swap_offset entry k;
     (case swap_hash_find entry k of
        Some p \<Rightarrow> Some (0, Some p, k)
      | None \<Rightarrow> do {
          (newpage, k) \<leftarrow> alloc_page tfp k;
          (case swap_hash_find entry k of
             Some p \<Rightarrow> do {
               k \<leftarrow> (case newpage of None \<Rightarrow> Some k | Some np \<Rightarrow> free_page np k);
               Some (0, Some p, k)
             }
           | None \<Rightarrow>
               (case newpage of
                  None \<Rightarrow> Some (- E_NO_MEM, None, k)
                | Some p \<Rightarrow> do {
                    (ok, k) \<leftarrow> swapfs_read entry p k;
                    (if \<not> ok then do { k \<leftarrow> free_page p k; Some (- E_SWAP_FAULT, None, k) }
                     else do {
                       (_, k) \<leftarrow> swap_page_add p entry k;
                       k \<leftarrow> swap_active_list_add p k;
                       Some (0, Some p, k)
                     })
                  }))
        })
   }"

text \<open>The result is the return value and the new entry.\<close>

definition swap_copy_entry :: "(nat \<Rightarrow> vmem \<Rightarrow> bool \<times> vmem) \<Rightarrow> u32 \<Rightarrow> vmem \<Rightarrow> (int \<times> u32 option \<times> vmem) option" where
  "swap_copy_entry tfp entry k = do {
     k \<leftarrow> swap_duplicate entry k;
     (newpage, k) \<leftarrow> alloc_page tfp k;
     (ret, store, k) \<leftarrow>
       (case newpage of
          None \<Rightarrow> Some (- E_NO_MEM, None, k)
        | Some np \<Rightarrow> do {
            (ret, page, k) \<leftarrow> swap_in_page tfp entry k;
            (if ret \<noteq> 0 then do { k \<leftarrow> free_page np k; Some (ret, None, k) }
             else do {
               (ok, k) \<leftarrow> swap_page_add np 0 k;
               (if \<not> ok then do { k \<leftarrow> free_page np k; Some (- E_NO_MEM, None, k) }
                else do {
                  k \<leftarrow> swap_active_list_add np k;
                  p \<leftarrow> page;
                  let k = k\<lparr>frames := (frames k)(np := frames k p)\<rparr>;
                  Some (0, Some (page_index k np), k)
                })
             })
          });
     k \<leftarrow> swap_remove_entry entry k;
     Some (ret, store, k)
   }"

definition try_free_swap_entry :: "u32 \<Rightarrow> vmem \<Rightarrow> (bool \<times> vmem) option" where
  "try_free_swap_entry entry k = do {
     off \<leftarrow> swap_offset entry k;
     Some (if mem_map k off = 0 then (True, k\<lparr>mem_map := (mem_map k)(off := SWAP_UNUSED)\<rparr>) else (False, k))
   }"

text \<open>A page table entry that refers to \<open>p\<close> goes away (\<^verbatim>\<open>page_remove_pte\<close> of \<^verbatim>\<open>pmm.c\<close>); \<open>d\<close> is its bit \<^verbatim>\<open>PTE_D\<close>.\<close>

definition page_unmap :: "nat \<Rightarrow> bool \<Rightarrow> vmem \<Rightarrow> vmem option" where
  "page_unmap p d k =
     (if \<not> PageSwap p k then
        let k = set_page_ref p (page_ref p k - 1) k in
        if page_ref p k = 0 then free_page p k else Some k
      else
        let k = (if d then upd_pg p (set_flag PG_dirty) k else k) in
        Some (set_page_ref p (page_ref p k - 1) k))"

text \<open>The part of \<open>swap_out_vma\<close> for a page \<open>p\<close> that a page table entry refers to; \<open>d\<close> is the bit \<^verbatim>\<open>PTE_D\<close> of the entry.  The result is
  what the page table entry becomes, \<^const>\<open>None\<close> when it stays.\<close>

definition swap_out_page :: "nat \<Rightarrow> bool \<Rightarrow> vmem \<Rightarrow> (u32 option \<times> vmem) option" where
  "swap_out_page p d k = do {
     (cached, k) \<leftarrow>
       (if \<not> PageSwap p k then do {
          (ok, k) \<leftarrow> swap_page_add p 0 k;
          (if \<not> ok then Some (False, k) else do { k \<leftarrow> swap_active_list_add p k; Some (True, k) })
        }
        else Some (True, if d then upd_pg p (set_flag PG_dirty) k else k));
     (if \<not> cached then Some (None, k)
      else do {
        let entry = page_index k p;
        k \<leftarrow> swap_duplicate entry k;
        Some (Some entry, set_page_ref p (page_ref p k - 1) k)
      })
   }"

subsection \<open>The scans of kswapd\<close>

text \<open>One round of the loop of \<open>page_launder\<close>, for the page \<open>p\<close>; the result says whether the page was freed.\<close>

definition launder_page :: "nat \<Rightarrow> vmem \<Rightarrow> (bool \<times> vmem) option" where
  "launder_page p k = do {
     kassert (PageSwap p k \<and> \<not> PageActive p k);
     k \<leftarrow> swap_list_del p k;
     (if page_ref p k \<noteq> 0 then do { k \<leftarrow> swap_active_list_add p k; Some (False, k) }
      else do {
        let entry = page_index k p;
        (freed, k) \<leftarrow> try_free_swap_entry entry k;
        (if \<not> freed \<and> PageDirty p k then do {
           let k = upd_pg p (clear_flag PG_dirty) k;
           k \<leftarrow> swap_duplicate entry k;
           (ok, k) \<leftarrow> swapfs_write entry p k;
           let k = (if \<not> ok then upd_pg p (set_flag PG_dirty) k else k);
           off \<leftarrow> swap_offset entry k;
           let k = k\<lparr>mem_map := (mem_map k)(off := mem_map k off - 1)\<rparr>;
           (if page_ref p k \<noteq> 0 then do { k \<leftarrow> swap_active_list_add p k; Some (False, k) }
            else if PageDirty p k then do { k \<leftarrow> swap_inactive_list_add p k; Some (False, k) }
            else do { (_, k) \<leftarrow> try_free_swap_entry entry k; k \<leftarrow> swap_free_page p k; Some (True, k) })
         }
         else do { k \<leftarrow> swap_free_page p k; Some (True, k) })
      })
   }"

text \<open>The loop visits the pages that are in the list when it starts, in their order: what it adds goes to the end, and it makes
  at most \<^verbatim>\<open>maxscan\<close> rounds.\<close>

fun launder_loop :: "nat list \<Rightarrow> nat \<Rightarrow> vmem \<Rightarrow> (nat \<times> vmem) option" where
  "launder_loop [] count k = Some (count, k)"
| "launder_loop (p # ps) count k = do {
     (freed, k) \<leftarrow> launder_page p k;
     launder_loop ps (if freed then count + 1 else count) k
   }"

definition page_launder :: "vmem \<Rightarrow> (nat \<times> vmem) option" where
  "page_launder k = launder_loop (take (unat (nr_inactive_pages k)) (inactive_list k)) 0 k"

fun refill_loop :: "nat list \<Rightarrow> vmem \<Rightarrow> vmem option" where
  "refill_loop [] k = Some k"
| "refill_loop (p # ps) k = do {
     kassert (PageSwap p k \<and> PageActive p k);
     k \<leftarrow> (if page_ref p k = 0 then do { k \<leftarrow> swap_list_del p k; swap_inactive_list_add p k } else Some k);
     refill_loop ps k
   }"

definition refill_inactive_scan :: "vmem \<Rightarrow> vmem option" where
  "refill_inactive_scan k = refill_loop (take (unat (nr_active_pages k)) (active_list k)) k"

end
