(* ===== verification/Swap_Inv.thy ===== *)
theory Swap_Inv
  imports Swap
begin

text \<open>
  The invariant of the swap cache and its preservation by the operations of \<open>Swap\<close>, with what they mean for the contents of
  pages that were swapped out.
\<close>

subsection \<open>What the page allocator leaves alone\<close>

text \<open>The part of a descriptor that belongs to the user of the page: the count and the flags above \<^verbatim>\<open>PG_property\<close>.\<close>

definition user_part :: "Page \<Rightarrow> int \<times> u32" where
  "user_part pg = (ref pg, drop_bit 2 (flags pg))"

lemma PG_user [simp]:
  "PG_swap \<noteq> PG_property" "PG_swap \<noteq> PG_reserved" "PG_active \<noteq> PG_property" "PG_active \<noteq> PG_reserved" "PG_dirty \<noteq> PG_property" "PG_dirty \<noteq> PG_reserved"
  "PG_swap \<noteq> PG_active" "PG_active \<noteq> PG_swap" "PG_swap \<noteq> PG_dirty" "PG_dirty \<noteq> PG_swap" "PG_active \<noteq> PG_dirty" "PG_dirty \<noteq> PG_active"
  "PG_property \<noteq> PG_swap" "PG_reserved \<noteq> PG_swap" "PG_property \<noteq> PG_active" "PG_reserved \<noteq> PG_active" "PG_property \<noteq> PG_dirty" "PG_reserved \<noteq> PG_dirty"
  "PG_swap < 32" "PG_active < 32" "PG_dirty < 32"
  by (simp_all add: PG_swap_def PG_active_def PG_dirty_def PG_property_def PG_reserved_def)

lemma user_part_eqD:
  assumes "user_part a = user_part b"
  shows "ref a = ref b" "test_flag PG_swap a = test_flag PG_swap b" "test_flag PG_active a = test_flag PG_active b"
    "test_flag PG_dirty a = test_flag PG_dirty b"
proof -
  have d: "drop_bit 2 (flags a) = drop_bit 2 (flags b)" and r: "ref a = ref b"
    using assms by (auto simp: user_part_def)
  have "bit (flags a) (2 + n) = bit (flags b) (2 + n)" for n
    using arg_cong [OF d, of "\<lambda>w. bit w n"] by (simp add: bit_drop_bit_eq)
  from this [of 1] this [of 2] this [of 3] r show "ref a = ref b" "test_flag PG_swap a = test_flag PG_swap b" "test_flag PG_active a = test_flag PG_active b"
    "test_flag PG_dirty a = test_flag PG_dirty b"
    by (simp_all add: test_flag_def PG_swap_def PG_active_def PG_dirty_def)
qed

lemma user_part_property [simp]:
  "user_part (set_flag PG_property pg) = user_part pg" "user_part (clear_flag PG_property pg) = user_part pg"
  "user_part (pg\<lparr>property := x\<rparr>) = user_part pg" "user_part (pg\<lparr>flags := 0, ref := 0\<rparr>) = (0, 0)"
  by (auto simp: user_part_def set_flag_def clear_flag_def PG_property_def intro!: bit_eqI simp: bit_drop_bit_eq bit_set_bit_iff bit_unset_bit_iff)

lemma split_block_user: "user_part (pages (split_block cur order page s) q) = user_part (pages s q)"
  by (induction cur order page s rule: split_block.induct) auto

lemma alloc_search_user: "alloc_search cur order s = (r, t) \<Longrightarrow> user_part (pages t q) = user_part (pages s q)"
proof (induction cur order s rule: alloc_search.induct)
  case (1 cur order s)
  then show ?case
    by (subst (asm) (2) alloc_search.simps) (auto split: if_splits list.splits simp: split_block_user)
qed

lemma getorder_1: "getorder 1 = Some 0"
  by (subst getorder_def, subst getorder_from.simps) simp

lemma buddy_alloc_user: "buddy_alloc_pages 1 s = Some (r, t) \<Longrightarrow> user_part (pages t q) = user_part (pages s q)"
  using alloc_search_user [of 0 0 s] unfolding buddy_alloc_pages_def getorder_1 buddy_alloc_pages_sub_def
  by (cases "alloc_search 0 0 s") (auto split: option.splits)

lemma merge_block_user: "merge_block z i order s = (i', order', t) \<Longrightarrow> user_part (pages t q) = user_part (pages s q)"
proof (induction z i order s rule: merge_block.induct)
  case (1 z i order s)
  then show ?case
    by (subst (asm) (2) merge_block.simps) (auto split: if_splits simp: Let_def)
qed

lemma buddy_free_user:
  assumes "buddy_free_pages p 1 s = Some t"
  shows "user_part (pages t q) = (if q = p then (0, 0) else user_part (pages s q))"
proof -
  obtain i order u where m: "merge_block (zone_num (pages (upd_page p (\<lambda>pg. pg\<lparr>flags := 0, ref := 0\<rparr>) s) p)) (page2idx p s) 0 (upd_page p (\<lambda>pg. pg\<lparr>flags := 0, ref := 0\<rparr>) s) = (i, order, u)"
    by (cases "merge_block (zone_num (pages (upd_page p (\<lambda>pg. pg\<lparr>flags := 0, ref := 0\<rparr>) s) p)) (page2idx p s) 0 (upd_page p (\<lambda>pg. pg\<lparr>flags := 0, ref := 0\<rparr>) s)") auto
  have "t = put_block (idx2page (zone_num (pages (upd_page p (\<lambda>pg. pg\<lparr>flags := 0, ref := 0\<rparr>) s) p)) i u) order u"
    using assms m by (auto simp: buddy_free_pages_def buddy_free_pages_sub_def Let_def)
  then have "user_part (pages t q) = user_part (pages u q)" by auto
  also have "\<dots> = user_part (pages (upd_page p (\<lambda>pg. pg\<lparr>flags := 0, ref := 0\<rparr>) s) q)"
    by (rule merge_block_user [OF m])
  finally show ?thesis by simp
qed

text \<open>Changes of the user's part do not concern the allocator.\<close>

definition user_change :: "(Page \<Rightarrow> Page) \<Rightarrow> bool" where
  "user_change f \<longleftrightarrow> (\<forall>pg. property (f pg) = property pg \<and> zone_num (f pg) = zone_num pg \<and>
     PageReserved (f pg) = PageReserved pg \<and> PageProperty (f pg) = PageProperty pg)"

lemma test_flag_ref [simp]: "test_flag n (pg\<lparr>ref := v\<rparr>) = test_flag n pg"
  by (simp add: test_flag_def)

lemma user_changes [simp]:
  "user_change (set_flag PG_swap)" "user_change (set_flag PG_active)" "user_change (set_flag PG_dirty)"
  "user_change (clear_flag PG_swap)" "user_change (clear_flag PG_active)" "user_change (clear_flag PG_dirty)"
  "user_change (\<lambda>pg. pg\<lparr>ref := v\<rparr>)" "user_change (\<lambda>pg. pg\<lparr>ref := g (ref pg)\<rparr>)"
  by (auto simp: user_change_def)

lemma user_change_layout: "user_change f \<Longrightarrow> same_layout s (upd_page p f s)"
  by (simp add: user_change_def same_layout_def)

lemma user_change_free: "free_pages_of (upd_page p f s) = free_pages_of s"
  by (simp add: free_pages_of_def)

lemma user_change_inv:
  assumes "user_change f" "buddy_inv s"
  shows "buddy_inv (upd_page p f s)"
proof -
  let ?t = "upd_page p f s"
  have a: "property (pages ?t q) = property (pages s q)" "zone_num (pages ?t q) = zone_num (pages s q)"
      "PageReserved (pages ?t q) = PageReserved (pages s q)" "PageProperty (pages ?t q) = PageProperty (pages s q)" for q
    using assms(1) by (auto simp: user_change_def)
  have f: "free_list ?t = free_list s" "nr_free ?t = nr_free s" "npage ?t = npage s" "zone_cnt ?t = zone_cnt s" "zones ?t = zones s"
    by simp_all
  show ?thesis
    using assms(2) unfolding buddy_wf_def a f valid_blk_layout [OF user_change_layout [OF assms(1)]] .
qed

lemma managed_layout: "same_layout s t \<Longrightarrow> managed_frames t p n = managed_frames s p n"
  by (simp add: managed_frames_def region_layout) (simp add: same_layout_def)

subsection \<open>Swap entries and offsets\<close>

definition entry_of :: "nat \<Rightarrow> u32" where
  "entry_of off = push_bit 8 (of_nat off)"

lemma drop_entry_of:
  assumes "off < 2 ^ 24"
  shows "unat (drop_bit 8 (entry_of off)) = off"
proof -
  have u: "unat (of_nat off :: u32) = off"
    using assms by (simp add: unat_of_nat take_bit_nat_eq_self_iff)
  have "unat (entry_of off) = off * 2 ^ 8"
    using assms u by (simp add: entry_of_def push_bit_eq_mult unat_word_ariths)
  then show ?thesis
    by (simp add: drop_bit_eq_div unat_div_distrib)
qed

lemma swap_offset_entry: "max_swap_offset k < 2 ^ 24 \<Longrightarrow> 0 < off \<Longrightarrow> off < max_swap_offset k \<Longrightarrow> swap_offset (entry_of off) k = Some off"
  using drop_entry_of [of off] by (simp add: swap_offset_def)

lemma entry_of_inj: "a < 2 ^ 24 \<Longrightarrow> b < 2 ^ 24 \<Longrightarrow> entry_of a = entry_of b \<longleftrightarrow> a = b"
  using drop_entry_of by metis

lemma entry_of_0: "off < 2 ^ 24 \<Longrightarrow> entry_of off = 0 \<longleftrightarrow> off = 0"
  using entry_of_inj [of off 0] by (simp add: entry_of_def)

subsection \<open>The invariant\<close>

text \<open>\<open>X\<close> holds pages that are between the lists, \<open>Y\<close> offsets whose count and whose page in the cache are being changed.\<close>

definition cached :: "vmem \<Rightarrow> nat \<Rightarrow> nat \<Rightarrow> bool" where
  "cached k off p \<longleftrightarrow> PageSwap p k \<and> page_index k p = entry_of off"

abbreviation valid_off :: "vmem \<Rightarrow> nat \<Rightarrow> bool" where
  "valid_off k off \<equiv> 0 < off \<and> off < max_swap_offset k"

definition frames_ok :: "vmem \<Rightarrow> bool" where
  "frames_ok k \<longleftrightarrow> buddy_inv (phys k) \<and> npage (phys k) < 2 ^ 32 \<and> (\<forall>p\<in>free_pages_of (phys k). user_part (page_at p k) = (0, 0)) \<and>
     (\<forall>p. PageSwap p k \<longrightarrow> p \<notin> free_pages_of (phys k) \<and> managed_frames (phys k) p 1)"

definition cache_ok :: "nat set \<Rightarrow> vmem \<Rightarrow> bool" where
  "cache_ok Y k \<longleftrightarrow> 1024 \<le> max_swap_offset k \<and> max_swap_offset k < 2 ^ 24 \<and> valid_off k (next_entry k) \<and>
     (\<forall>p. PageSwap p k \<longrightarrow> (\<exists>off. valid_off k off \<and> page_index k p = entry_of off \<and> (off \<in> Y \<or> mem_map k off \<noteq> SWAP_UNUSED))) \<and>
     inj_on (page_index k) {p. PageSwap p k} \<and>
     (\<forall>h. distinct (entry_list k h) \<and> set (entry_list k h) = {p. PageSwap p k \<and> entry_hashfn (page_index k p) = h}) \<and>
     (\<forall>off. valid_off k off \<and> off \<notin> Y \<and> mem_map k off = 0 \<longrightarrow> (\<exists>p. cached k off p))"

definition lists_ok :: "nat set \<Rightarrow> vmem \<Rightarrow> bool" where
  "lists_ok X k \<longleftrightarrow> distinct (active_list k) \<and> set (active_list k) = {p. PageSwap p k \<and> PageActive p k \<and> p \<notin> X} \<and>
     nr_active_pages k = of_nat (length (active_list k)) \<and>
     distinct (inactive_list k) \<and> set (inactive_list k) = {p. PageSwap p k \<and> \<not> PageActive p k \<and> p \<notin> X} \<and>
     nr_inactive_pages k = of_nat (length (inactive_list k))"

definition swap_wf :: "nat set \<Rightarrow> nat set \<Rightarrow> vmem \<Rightarrow> bool" where
  "swap_wf X Y k \<longleftrightarrow> frames_ok k \<and> cache_ok Y k \<and> lists_ok X k"

lemma cache_okD:
  assumes "cache_ok Y k"
  shows "1024 \<le> max_swap_offset k" "max_swap_offset k < 2 ^ 24" "0 < next_entry k" "next_entry k < max_swap_offset k"
    "PageSwap p k \<Longrightarrow> \<exists>off. valid_off k off \<and> page_index k p = entry_of off \<and> (off \<in> Y \<or> mem_map k off \<noteq> SWAP_UNUSED)"
    "PageSwap p k \<Longrightarrow> PageSwap q k \<Longrightarrow> page_index k p = page_index k q \<Longrightarrow> p = q"
    "distinct (entry_list k h)" "set (entry_list k h) = {p. PageSwap p k \<and> entry_hashfn (page_index k p) = h}"
    "valid_off k off \<Longrightarrow> off \<notin> Y \<Longrightarrow> mem_map k off = 0 \<Longrightarrow> \<exists>p. cached k off p"
  using assms unfolding cache_ok_def inj_on_def by blast+

lemma cache_okI:
  assumes "1024 \<le> max_swap_offset k" "max_swap_offset k < 2 ^ 24" "0 < next_entry k" "next_entry k < max_swap_offset k"
    "\<And>p. PageSwap p k \<Longrightarrow> \<exists>off. valid_off k off \<and> page_index k p = entry_of off \<and> (off \<in> Y \<or> mem_map k off \<noteq> SWAP_UNUSED)"
    "\<And>p q. PageSwap p k \<Longrightarrow> PageSwap q k \<Longrightarrow> page_index k p = page_index k q \<Longrightarrow> p = q"
    "\<And>h. distinct (entry_list k h)" "\<And>h. set (entry_list k h) = {p. PageSwap p k \<and> entry_hashfn (page_index k p) = h}"
    "\<And>off. valid_off k off \<Longrightarrow> off \<notin> Y \<Longrightarrow> mem_map k off = 0 \<Longrightarrow> \<exists>p. cached k off p"
  shows "cache_ok Y k"
  using assms unfolding cache_ok_def inj_on_def by blast

lemma swap_hash_find_iff:
  assumes "cache_ok Y k"
  shows "swap_hash_find (entry_of off) k = Some p \<longleftrightarrow> cached k off p"
proof
  assume "swap_hash_find (entry_of off) k = Some p"
  then have "p \<in> set (entry_list k (entry_hashfn (entry_of off)))" "page_index k p = entry_of off"
    by (auto simp: swap_hash_find_def find_Some_iff)
  then show "cached k off p" using cache_okD(8) [OF assms] by (auto simp: cached_def)
next
  assume c: "cached k off p"
  then have "p \<in> set (entry_list k (entry_hashfn (entry_of off)))" using cache_okD(8) [OF assms] by (auto simp: cached_def)
  then have "swap_hash_find (entry_of off) k \<noteq> None"
    using c by (auto simp: swap_hash_find_def find_None_iff cached_def)
  then obtain q where q: "swap_hash_find (entry_of off) k = Some q" by blast
  then have "q \<in> set (entry_list k (entry_hashfn (entry_of off)))" "page_index k q = entry_of off"
    by (auto simp: swap_hash_find_def find_Some_iff)
  then have "q = p" using cache_okD(6,8) [OF assms] c by (auto simp: cached_def)
  then show "swap_hash_find (entry_of off) k = Some p" using q by simp
qed

lemma swap_hash_find_None:
  assumes "cache_ok Y k"
  shows "swap_hash_find (entry_of off) k = None \<longleftrightarrow> (\<nexists>p. cached k off p)"
  using swap_hash_find_iff [OF assms, of off] by (metis not_None_eq)

lemma cached_unique: "cache_ok Y k \<Longrightarrow> cached k off p \<Longrightarrow> cached k off q \<Longrightarrow> p = q"
  by (metis option.inject swap_hash_find_iff)

text \<open>The invariant reads only these parts of the state.\<close>

lemma frames_ok_cong:
  assumes "phys k' = phys k"
  shows "frames_ok k' = frames_ok k"
  by (simp add: frames_ok_def assms)

lemma cache_ok_cong:
  assumes "\<And>p. PageSwap p k' = PageSwap p k" "page_index k' = page_index k" "max_swap_offset k' = max_swap_offset k" "next_entry k' = next_entry k"
    "mem_map k' = mem_map k" "entry_list k' = entry_list k"
  shows "cache_ok Y k' = cache_ok Y k"
  unfolding cache_ok_def cached_def assms ..

lemma lists_ok_cong:
  assumes "\<And>p. PageSwap p k' = PageSwap p k" "\<And>p. PageActive p k' = PageActive p k" "active_list k' = active_list k" "inactive_list k' = inactive_list k"
    "nr_active_pages k' = nr_active_pages k" "nr_inactive_pages k' = nr_inactive_pages k"
  shows "lists_ok X k' = lists_ok X k"
  unfolding lists_ok_def assms ..

text \<open>A change of the user's part of a page that is not free.\<close>

lemma frames_ok_user:
  assumes "frames_ok k" "user_change f" "p \<notin> free_pages_of (phys k)" "test_flag PG_swap (f (page_at p k)) \<Longrightarrow> managed_frames (phys k) p 1"
  shows "frames_ok (upd_pg p f k)"
proof -
  have "managed_frames (upd_page p f (phys k)) q 1 = managed_frames (phys k) q 1" for q
    by (rule managed_layout [OF user_change_layout [OF assms(2)]])
  then show ?thesis
    using assms user_change_inv [OF assms(2)] user_change_free [of p f "phys k"] by (auto simp: frames_ok_def)
qed

subsection \<open>Moving pages between the lists\<close>

text \<open>Only the lists and the flag \<^verbatim>\<open>PG_active\<close> differ.\<close>

definition shuffled :: "vmem \<Rightarrow> vmem \<Rightarrow> bool" where
  "shuffled k k' \<longleftrightarrow> frames k' = frames k \<and> page_index k' = page_index k \<and> mem_map k' = mem_map k \<and> max_swap_offset k' = max_swap_offset k \<and>
     entry_list k' = entry_list k \<and> next_entry k' = next_entry k \<and> swap_disk k' = swap_disk k \<and> disk_io k' = disk_io k \<and>
     free_pages_of (phys k') = free_pages_of (phys k) \<and> same_layout (phys k) (phys k') \<and>
     (\<forall>q. page_ref q k' = page_ref q k \<and> PageSwap q k' = PageSwap q k \<and> PageDirty q k' = PageDirty q k)"

lemma shuffled_trans: "shuffled k k' \<Longrightarrow> shuffled k' k'' \<Longrightarrow> shuffled k k''"
  using same_layout_trans by (auto simp: shuffled_def)

lemma shuffled_cache: "shuffled k k' \<Longrightarrow> cache_ok Y k' = cache_ok Y k"
  by (rule cache_ok_cong) (auto simp: shuffled_def)

lemma shuffled_cached: "shuffled k k' \<Longrightarrow> cached k' off p = cached k off p"
  by (simp add: shuffled_def cached_def)

lemma swap_wf_page:
  assumes "swap_wf X Y k" "PageSwap p k"
  shows "p \<notin> free_pages_of (phys k)" "managed_frames (phys k) p 1" "p < npage (phys k)"
  using assms by (auto simp: swap_wf_def frames_ok_def managed_frames_def region_def)

lemma length_remove1_word: "p \<in> set xs \<Longrightarrow> (of_nat (length xs) - 1 :: u32) = of_nat (length (remove1 p xs))"
  using of_nat_pred [of "length xs", where ?'a = 32] length_pos_if_in_set [of p xs] by (simp add: length_remove1)

lemma swap_list_del_ok:
  assumes wf: "swap_wf X Y k" and p: "PageSwap p k" "p \<notin> X"
  shows "\<exists>k'. swap_list_del p k = Some k' \<and> swap_wf (insert p X) Y k' \<and> shuffled k k' \<and> phys k' = phys k \<and>
    active_list k' = remove1 p (active_list k) \<and> inactive_list k' = remove1 p (inactive_list k)"
proof -
  have l: "lists_ok X k" and f: "frames_ok k" and c: "cache_ok Y k" using wf by (auto simp: swap_wf_def)
  let ?k1 = "if PageActive p k then k\<lparr>nr_active_pages := nr_active_pages k - 1\<rparr> else k\<lparr>nr_inactive_pages := nr_inactive_pages k - 1\<rparr>"
  let ?k' = "?k1\<lparr>active_list := remove1 p (active_list k), inactive_list := remove1 p (inactive_list k)\<rparr>"
  have run: "swap_list_del p k = Some ?k'"
    using p(1) by (simp add: swap_list_del_def Let_def)
  have same: "phys ?k' = phys k" "page_index ?k' = page_index k" "max_swap_offset ?k' = max_swap_offset k" "next_entry ?k' = next_entry k"
      "mem_map ?k' = mem_map k" "entry_list ?k' = entry_list k" "frames ?k' = frames k" "swap_disk ?k' = swap_disk k" "disk_io ?k' = disk_io k"
    by simp_all
  have s: "shuffled k ?k'"
    by (simp add: shuffled_def page_ref_def)
  have "cache_ok Y ?k'" using shuffled_cache [OF s] c by blast
  moreover have "frames_ok ?k'" using frames_ok_cong [OF same(1)] f by blast
  moreover have "lists_ok (insert p X) ?k'"
  proof (cases "PageActive p k")
    case True
    then have "p \<in> set (active_list k)" "p \<notin> set (inactive_list k)" using l p by (auto simp: lists_ok_def)
    then show ?thesis using l True unfolding lists_ok_def by (auto simp: length_remove1_word remove1_idem)
  next
    case False
    then have "p \<notin> set (active_list k)" "p \<in> set (inactive_list k)" using l p by (auto simp: lists_ok_def)
    then show ?thesis using l False unfolding lists_ok_def by (auto simp: length_remove1_word remove1_idem)
  qed
  ultimately show ?thesis
    using run s by (auto simp: swap_wf_def)
qed

lemma list_add_ok:
  assumes wf: "swap_wf X Y k" and p: "PageSwap p k" "p \<in> X"
  shows "\<exists>k'. swap_active_list_add p k = Some k' \<and> swap_wf (X - {p}) Y k' \<and> shuffled k k' \<and> active_list k' = active_list k @ [p] \<and> inactive_list k' = inactive_list k \<and>
      (\<forall>q. PageActive q k' \<longleftrightarrow> q = p \<or> PageActive q k)"
    "\<exists>k'. swap_inactive_list_add p k = Some k' \<and> swap_wf (X - {p}) Y k' \<and> shuffled k k' \<and> active_list k' = active_list k \<and> inactive_list k' = inactive_list k @ [p] \<and>
      (\<forall>q. PageActive q k' \<longleftrightarrow> q \<noteq> p \<and> PageActive q k)"
proof -
  have l: "lists_ok X k" and f: "frames_ok k" and c: "cache_ok Y k" using wf by (auto simp: swap_wf_def)
  note pg = swap_wf_page [OF wf p(1)]
  let ?a = "(upd_pg p (set_flag PG_active) k)\<lparr>nr_active_pages := nr_active_pages k + 1, active_list := active_list k @ [p]\<rparr>"
  let ?i = "(upd_pg p (clear_flag PG_active) k)\<lparr>nr_inactive_pages := nr_inactive_pages k + 1, inactive_list := inactive_list k @ [p]\<rparr>"
  have lay: "same_layout (phys k) (phys ?a)" "same_layout (phys k) (phys ?i)"
    using user_change_layout [OF user_changes(2)] user_change_layout [OF user_changes(5)] by simp_all
  have ref: "ref (set_flag n pg) = ref pg" "ref (clear_flag n pg) = ref pg" for n pg by (simp_all add: set_flag_def clear_flag_def)
  have s: "shuffled k ?a" "shuffled k ?i"
    using lay by (simp_all add: shuffled_def page_ref_def user_change_free ref)
  have fr: "frames_ok ?a" "frames_ok ?i"
    using frames_ok_user [OF f user_changes(2) pg(1)] frames_ok_user [OF f user_changes(5) pg(1)] pg(2)
      frames_ok_cong [of ?a "upd_pg p (set_flag PG_active) k"] frames_ok_cong [of ?i "upd_pg p (clear_flag PG_active) k"] by auto
  have li: "lists_ok (X - {p}) ?a" "lists_ok (X - {p}) ?i"
    using l p unfolding lists_ok_def by auto
  show "\<exists>k'. swap_active_list_add p k = Some k' \<and> swap_wf (X - {p}) Y k' \<and> shuffled k k' \<and> active_list k' = active_list k @ [p] \<and> inactive_list k' = inactive_list k \<and>
      (\<forall>q. PageActive q k' \<longleftrightarrow> q = p \<or> PageActive q k)"
    using p(1) s(1) fr(1) li(1) shuffled_cache [OF s(1)] c by (auto simp: swap_active_list_add_def Let_def swap_wf_def)
  show "\<exists>k'. swap_inactive_list_add p k = Some k' \<and> swap_wf (X - {p}) Y k' \<and> shuffled k k' \<and> active_list k' = active_list k \<and> inactive_list k' = inactive_list k @ [p] \<and>
      (\<forall>q. PageActive q k' \<longleftrightarrow> q \<noteq> p \<and> PageActive q k)"
    using p(1) s(2) fr(2) li(2) shuffled_cache [OF s(2)] c by (auto simp: swap_inactive_list_add_def Let_def swap_wf_def)
qed

subsection \<open>Counts of entries\<close>

abbreviation set_map :: "nat \<Rightarrow> u16 \<Rightarrow> vmem \<Rightarrow> vmem" where
  "set_map off v k \<equiv> k\<lparr>mem_map := (mem_map k)(off := v)\<rparr>"

lemma swap_wf_mono:
  assumes "swap_wf X Y k" "Y \<subseteq> Y'"
  shows "swap_wf X Y' k"
proof -
  have c: "cache_ok Y k" using assms(1) by (simp add: swap_wf_def)
  have "cache_ok Y' k"
  proof (rule cache_okI)
    fix p assume "PageSwap p k"
    from cache_okD(5) [OF c this] assms(2)
    show "\<exists>off. valid_off k off \<and> page_index k p = entry_of off \<and> (off \<in> Y' \<or> mem_map k off \<noteq> SWAP_UNUSED)" by blast
  next
    fix off assume "valid_off k off" "off \<notin> Y'" "mem_map k off = 0"
    then show "\<exists>p. cached k off p" using cache_okD(9) [OF c, of off] assms(2) by blast
  qed (use cache_okD [OF c] in auto)
  then show ?thesis using assms(1) by (simp add: swap_wf_def)
qed

lemma swap_wf_set_map:
  assumes "swap_wf X Y k"
  shows "swap_wf X (insert off Y) (set_map off v k)"
proof -
  have "cache_ok (insert off Y) (set_map off v k)"
  proof -
    have c: "cache_ok Y k" using assms by (simp add: swap_wf_def)
    have e: "cached (set_map off v k) = cached k" by (simp add: cached_def fun_eq_iff)
    show ?thesis
    proof (rule cache_okI)
      fix p assume "PageSwap p (set_map off v k)"
      then show "\<exists>o'. valid_off (set_map off v k) o' \<and> page_index (set_map off v k) p = entry_of o' \<and> (o' \<in> insert off Y \<or> mem_map (set_map off v k) o' \<noteq> SWAP_UNUSED)"
        using cache_okD(5) [OF c, of p] by auto
    next
      fix o' assume "valid_off (set_map off v k) o'" "o' \<notin> insert off Y" "mem_map (set_map off v k) o' = 0"
      then show "\<exists>p. cached (set_map off v k) o' p" using cache_okD(9) [OF c, of o'] unfolding e by auto
    qed (use cache_okD [OF c] in auto)
  qed
  then show ?thesis
    using assms frames_ok_cong [of "set_map off v k" k] lists_ok_cong [of "set_map off v k" k] by (simp add: swap_wf_def)
qed

lemma swap_wf_close:
  assumes wf: "swap_wf X (insert off Y) k" and off: "off < 2 ^ 24" and u: "\<And>p. cached k off p \<Longrightarrow> mem_map k off \<noteq> SWAP_UNUSED"
    and z: "mem_map k off = 0 \<Longrightarrow> \<exists>p. cached k off p"
  shows "swap_wf X Y k"
proof -
  have c: "cache_ok (insert off Y) k" using wf by (simp add: swap_wf_def)
  have "\<exists>o'. valid_off k o' \<and> page_index k p = entry_of o' \<and> (o' \<in> Y \<or> mem_map k o' \<noteq> SWAP_UNUSED)" if p: "PageSwap p k" for p
  proof -
    obtain o' where o': "valid_off k o'" "page_index k p = entry_of o'" "o' \<in> insert off Y \<or> mem_map k o' \<noteq> SWAP_UNUSED"
      using cache_okD(5) [OF c p] by blast
    then show ?thesis using u [of p] p by (cases "o' = off") (auto simp: cached_def)
  qed
  moreover have "\<exists>p. cached k o' p" if "valid_off k o' \<and> o' \<notin> Y \<and> mem_map k o' = 0" for o'
    using cache_okD(9) [OF c, of o'] that z by (cases "o' = off") auto
  ultimately have "cache_ok Y k"
    using c unfolding cache_ok_def by blast
  then show ?thesis using wf by (simp add: swap_wf_def)
qed

text \<open>Changing the count of an entry between values that are neither 0 nor \<^const>\<open>SWAP_UNUSED\<close>, or of one that is in the cache.\<close>

lemma swap_wf_recount:
  assumes wf: "swap_wf X Y k" and off: "off < 2 ^ 24" and v: "v \<noteq> SWAP_UNUSED" "v = 0 \<Longrightarrow> \<exists>p. cached k off p"
  shows "swap_wf X Y (set_map off v k)"
  by (rule swap_wf_close [OF swap_wf_set_map [OF wf] off]) (use v in \<open>auto simp: cached_def\<close>)

subsection \<open>Pages leaving the cache\<close>

definition left_cache :: "nat \<Rightarrow> vmem \<Rightarrow> vmem \<Rightarrow> bool" where
  "left_cache p k k' \<longleftrightarrow> frames k' = frames k \<and> page_index k' = page_index k \<and> mem_map k' = mem_map k \<and> max_swap_offset k' = max_swap_offset k \<and>
     next_entry k' = next_entry k \<and> swap_disk k' = swap_disk k \<and> disk_io k' = disk_io k \<and> active_list k' = active_list k \<and> inactive_list k' = inactive_list k \<and>
     same_layout (phys k) (phys k') \<and> \<not> PageSwap p k' \<and> (\<forall>q. q \<noteq> p \<longrightarrow> user_part (page_at q k') = user_part (page_at q k))"

lemma left_cacheD:
  assumes "left_cache p k k'" "q \<noteq> p"
  shows "PageSwap q k' = PageSwap q k" "PageActive q k' = PageActive q k" "PageDirty q k' = PageDirty q k" "page_ref q k' = page_ref q k"
    "cached k' off q = cached k off q"
  using assms user_part_eqD [of "page_at q k'" "page_at q k"] by (auto simp: left_cache_def page_ref_def cached_def)

lemma swap_page_del_ok:
  assumes wf: "swap_wf X Y k" and p: "cached k off p" "off \<in> Y" "p \<in> X" and v: "valid_off k off"
  shows "\<exists>k'. swap_page_del p k = Some k' \<and> swap_wf (X - {p}) Y k' \<and> left_cache p k k' \<and> free_pages_of (phys k') = free_pages_of (phys k) \<and> page_ref p k' = page_ref p k"
proof -
  have l: "lists_ok X k" and f: "frames_ok k" and c: "cache_ok Y k" using wf by (auto simp: swap_wf_def)
  have ps: "PageSwap p k" using p(1) by (simp add: cached_def)
  note pg = swap_wf_page [OF wf ps]
  let ?k' = "(upd_pg p (clear_flag PG_swap) k)\<lparr>entry_list := (\<lambda>h. remove1 p (entry_list k h))\<rparr>"
  have sw: "PageSwap q ?k' \<longleftrightarrow> q \<noteq> p \<and> PageSwap q k" "PageActive q ?k' = PageActive q k" for q by auto
  have "frames_ok ?k'"
    using frames_ok_user [OF f user_changes(4) pg(1)] frames_ok_cong [of ?k' "upd_pg p (clear_flag PG_swap) k"] by simp
  moreover have "lists_ok (X - {p}) ?k'"
    using l p(3) unfolding lists_ok_def sw by auto
  moreover have "cache_ok Y ?k'"
  proof -
    show ?thesis
    proof (rule cache_okI)
      show "\<exists>o'. valid_off ?k' o' \<and> page_index ?k' q = entry_of o' \<and> (o' \<in> Y \<or> mem_map ?k' o' \<noteq> SWAP_UNUSED)" if "PageSwap q ?k'" for q
        using cache_okD(5) [OF c, of q] that unfolding sw by simp
      show "q = q'" if "PageSwap q ?k'" "PageSwap q' ?k'" "page_index ?k' q = page_index ?k' q'" for q q'
        using cache_okD(6) [OF c, of q q'] that unfolding sw by simp
      show "set (entry_list ?k' h) = {q. PageSwap q ?k' \<and> entry_hashfn (page_index ?k' q) = h}" for h
        unfolding sw using cache_okD(7,8) [OF c, of h] by auto
      show "\<exists>q. cached ?k' o' q" if "valid_off ?k' o'" "o' \<notin> Y" "mem_map ?k' o' = 0" for o'
      proof -
        have o': "valid_off k o'" "o' \<notin> Y" "mem_map k o' = 0" using that by simp_all
        then obtain q where q: "cached k o' q" using cache_okD(9) [OF c, of o'] by blast
        then have "q \<noteq> p"
          using p(1,2) o' v entry_of_inj [of o' off] cache_okD(2) [OF c] by (auto simp: cached_def)
        then show ?thesis using q by (auto simp: cached_def)
      qed
    qed (use cache_okD [OF c] in \<open>auto simp: distinct_remove1\<close>)
  qed
  ultimately have "swap_wf (X - {p}) Y ?k'" by (simp add: swap_wf_def)
  moreover have "swap_page_del p k = Some ?k'" using ps by (simp add: swap_page_del_def)
  moreover have "left_cache p k ?k'"
    using user_change_layout [OF user_changes(4)] by (simp add: left_cache_def)
  moreover have "page_ref p ?k' = page_ref p k" by (simp add: page_ref_def clear_flag_def)
  ultimately show ?thesis by (auto simp: user_change_free)
qed

lemma free_page_ok:
  assumes wf: "swap_wf X Y k" and p: "\<not> PageSwap p k" "p \<notin> free_pages_of (phys k)" "managed_frames (phys k) p 1"
  shows "\<exists>k'. free_page p k = Some k' \<and> swap_wf X Y k' \<and> left_cache p k k' \<and> entry_list k' = entry_list k \<and> free_pages_of (phys k') = insert p (free_pages_of (phys k))"
proof -
  have l: "lists_ok X k" and f: "frames_ok k" and c: "cache_ok Y k" using wf by (auto simp: swap_wf_def)
  have inv: "buddy_inv (phys k)" using f by (simp add: frames_ok_def)
  have "region (phys k) (zone_num (pages (phys k) p)) p 1" using p(3) by (simp add: managed_frames_def)
  then obtain b where b: "buddy_free_pages p 1 (phys k) = Some b" "buddy_inv b" "same_layout (phys k) b" "free_pages_of b = insert p (free_pages_of (phys k))"
    using buddy_free_pages_wf [OF inv, of _ p 1] p(2) by auto
  let ?k' = "k\<lparr>phys := b\<rparr>"
  have up: "user_part (pages b q) = (if q = p then (0, 0) else user_part (page_at q k))" for q by (rule buddy_free_user [OF b(1)])
  have np: "\<not> PageSwap p ?k'"
    using up [of p] user_part_eqD(2) [of "pages b p" "page_at p k\<lparr>flags := 0, ref := 0\<rparr>"] by (simp add: test_flag_def)
  have sw: "PageSwap q ?k' = PageSwap q k" for q
    using up [of q] user_part_eqD(2) [of "pages b q" "page_at q k"] np p(1) by (cases "q = p") auto
  have ac: "PageActive q ?k' = PageActive q k" if "PageSwap q k" for q
    using up [of q] user_part_eqD(3) [of "pages b q" "page_at q k"] that p(1) by (cases "q = p") auto
  have "frames_ok ?k'"
    using f b up sw p(1) by (auto simp: frames_ok_def managed_layout [OF b(3)] same_layout_def)
  moreover have "cache_ok Y ?k'" using cache_ok_cong [of ?k' k Y] sw c by simp
  moreover have "lists_ok X ?k'"
  proof -
    have "{q. PageSwap q ?k' \<and> PageActive q ?k' \<and> q \<notin> X} = {q. PageSwap q k \<and> PageActive q k \<and> q \<notin> X}"
      "{q. PageSwap q ?k' \<and> \<not> PageActive q ?k' \<and> q \<notin> X} = {q. PageSwap q k \<and> \<not> PageActive q k \<and> q \<notin> X}"
      using sw ac by blast+
    then show ?thesis using l unfolding lists_ok_def by simp
  qed
  moreover have "left_cache p k ?k'" using b(3) up np by (simp add: left_cache_def)
  ultimately show ?thesis
    using b by (simp add: free_page_def swap_wf_def)
qed

lemma left_cache_trans: "left_cache p k k' \<Longrightarrow> left_cache p k' k'' \<Longrightarrow> left_cache p k k''"
  using same_layout_trans by (auto simp: left_cache_def)

lemma swap_free_page_ok:
  assumes wf: "swap_wf X Y k" and p: "cached k off p" "off \<in> Y" "p \<in> X" "page_ref p k = 0" and v: "valid_off k off"
  shows "\<exists>k'. swap_free_page p k = Some k' \<and> swap_wf (X - {p}) Y k' \<and> left_cache p k k' \<and> free_pages_of (phys k') = insert p (free_pages_of (phys k))"
proof -
  have ps: "PageSwap p k" using p(1) by (simp add: cached_def)
  obtain k1 where k1: "swap_page_del p k = Some k1" "swap_wf (X - {p}) Y k1" "left_cache p k k1" "free_pages_of (phys k1) = free_pages_of (phys k)"
    using swap_page_del_ok [OF wf p(1-3) v] by blast
  have m: "\<not> PageSwap p k1" "p \<notin> free_pages_of (phys k1)" "managed_frames (phys k1) p 1"
    using k1(3,4) swap_wf_page [OF wf ps] managed_layout by (auto simp: left_cache_def)
  obtain k' where k': "free_page p k1 = Some k'" "swap_wf (X - {p}) Y k'" "left_cache p k1 k'" "free_pages_of (phys k') = insert p (free_pages_of (phys k1))"
    using free_page_ok [OF k1(2) m] by blast
  show ?thesis
    using k1 k' ps p(4) left_cache_trans [OF k1(3) k'(3)] by (simp add: swap_free_page_def)
qed

subsection \<open>Pages entering the cache\<close>

abbreviation put_cache :: "nat \<Rightarrow> u32 \<Rightarrow> vmem \<Rightarrow> vmem" where
  "put_cache p entry k \<equiv> (upd_pg p (set_flag PG_swap) k)\<lparr>page_index := (page_index k)(p := entry),
     entry_list := (entry_list k)(entry_hashfn entry := p # entry_list k (entry_hashfn entry))\<rparr>"

lemma put_cache_ok:
  assumes wf: "swap_wf X Y k" and p: "\<not> PageSwap p k" "p \<notin> free_pages_of (phys k)" "managed_frames (phys k) p 1"
    and off: "valid_off k off" "off \<in> Y" "\<And>q. \<not> cached k off q"
  shows "swap_wf (insert p X) Y (put_cache p (entry_of off) k)"
proof -
  have l: "lists_ok X k" and f: "frames_ok k" and c: "cache_ok Y k" using wf by (auto simp: swap_wf_def)
  let ?k' = "put_cache p (entry_of off) k"
  have sw: "PageSwap q ?k' \<longleftrightarrow> q = p \<or> PageSwap q k" "PageActive q ?k' = PageActive q k" for q by auto
  have "frames_ok ?k'"
    using frames_ok_user [OF f user_changes(1) p(2)] p(3) frames_ok_cong [of ?k' "upd_pg p (set_flag PG_swap) k"] by simp
  moreover have "lists_ok (insert p X) ?k'"
  proof -
    have "p \<notin> set (active_list k)" "p \<notin> set (inactive_list k)" using l p(1) by (auto simp: lists_ok_def)
    then show ?thesis using l p(1) unfolding lists_ok_def sw by auto
  qed
  moreover have "cache_ok Y ?k'"
  proof (rule cache_okI)
    show "\<exists>o'. valid_off ?k' o' \<and> page_index ?k' q = entry_of o' \<and> (o' \<in> Y \<or> mem_map ?k' o' \<noteq> SWAP_UNUSED)" if "PageSwap q ?k'" for q
      using cache_okD(5) [OF c, of q] that off(1,2) unfolding sw by (cases "q = p") auto
    show "q = q'" if "PageSwap q ?k'" "PageSwap q' ?k'" "page_index ?k' q = page_index ?k' q'" for q q'
      using cache_okD(6) [OF c, of q q'] that off(3) [of q] off(3) [of q'] unfolding sw cached_def by (auto split: if_splits)
    show "set (entry_list ?k' h) = {q. PageSwap q ?k' \<and> entry_hashfn (page_index ?k' q) = h}" for h
      unfolding sw using cache_okD(8) [OF c, of h] p(1) by auto
    show "distinct (entry_list ?k' h)" for h
      using cache_okD(7,8) [OF c, of h] p(1) by auto
    show "\<exists>q. cached ?k' o' q" if o': "valid_off ?k' o'" "o' \<notin> Y" "mem_map ?k' o' = 0" for o'
    proof -
      have "\<exists>q. cached k o' q" using cache_okD(9) [OF c, of o'] o' by simp
      then obtain q where "cached k o' q" by blast
      then show ?thesis using p(1) by (intro exI [of _ q]) (auto simp: cached_def)
    qed
  qed (use cache_okD [OF c] in auto)
  ultimately show ?thesis by (simp add: swap_wf_def)
qed

lemma put_cache_cached: "\<not> PageSwap p k \<Longrightarrow> cached (put_cache p e k) off q \<longleftrightarrow> (if q = p then e = entry_of off else cached k off q)"
  by (auto simp: cached_def)

subsection \<open>Allocating an entry\<close>

definition arc :: "vmem \<Rightarrow> nat \<Rightarrow> nat \<Rightarrow> nat set" where
  "arc k from to = (if from < to then {from..<to} else {from..<max_swap_offset k} \<union> {1..<to})"

definition steps :: "vmem \<Rightarrow> nat \<Rightarrow> nat \<Rightarrow> nat" where
  "steps k from to = (if from < to then to - from else max_swap_offset k - 1 - from + to)"

lemma scan_entries_ok:
  assumes "2 \<le> max_swap_offset k" "valid_off k next" "valid_off k stop" "steps k next stop \<le> fuel"
  shows "\<exists>emp zero' next'. scan_entries fuel k stop 0 zero next = Some (emp, zero', next') \<and> valid_off k next' \<and>
    (emp \<noteq> 0 \<longrightarrow> valid_off k emp \<and> mem_map k emp = SWAP_UNUSED) \<and>
    (zero' \<noteq> zero \<longrightarrow> zero = 0 \<and> valid_off k zero' \<and> mem_map k zero' = 0) \<and>
    (emp = 0 \<longrightarrow> (\<forall>off\<in>arc k next stop. mem_map k off \<noteq> SWAP_UNUSED \<and> (zero' = 0 \<longrightarrow> mem_map k off \<noteq> 0)))"
  using assms
proof (induction fuel arbitrary: zero "next")
  case 0
  then show ?case by (auto simp: steps_def split: if_splits)
next
  case (Suc fuel)
  let ?n = "if next + 1 = max_swap_offset k then 1 else next + 1"
  have n: "valid_off k ?n" using Suc.prems(1,2) by auto
  show ?case
  proof (cases "mem_map k next = SWAP_UNUSED")
    case True
    then show ?thesis using Suc.prems(2) n by (auto simp: Let_def)
  next
    case False
    let ?z = "if mem_map k next = 0 \<and> zero = 0 then next else zero"
    show ?thesis
    proof (cases "?n = stop")
      case True
      have "arc k next stop = {next}"
        using True Suc.prems(1-3) by (auto simp: arc_def split: if_splits)
      then show ?thesis
        using True False n Suc.prems(2) by (auto simp: Let_def)
    next
      case ne: False
      have st: "steps k ?n stop \<le> fuel" and arc: "arc k next stop = insert next (arc k ?n stop)"
        using ne Suc.prems by (auto simp: steps_def arc_def split: if_splits)
      obtain emp zero' next' where r: "scan_entries fuel k stop 0 ?z ?n = Some (emp, zero', next')" "valid_off k next'"
          "emp \<noteq> 0 \<longrightarrow> valid_off k emp \<and> mem_map k emp = SWAP_UNUSED" "zero' \<noteq> ?z \<longrightarrow> ?z = 0 \<and> valid_off k zero' \<and> mem_map k zero' = 0"
          "emp = 0 \<longrightarrow> (\<forall>off\<in>arc k ?n stop. mem_map k off \<noteq> SWAP_UNUSED \<and> (zero' = 0 \<longrightarrow> mem_map k off \<noteq> 0))"
        using Suc.IH [OF Suc.prems(1) n Suc.prems(3) st, of ?z] by blast
      have run: "scan_entries (Suc fuel) k stop 0 zero next = Some (emp, zero', next')"
        using r(1) False ne by (simp add: Let_def)
      have z: "zero' = 0 \<longrightarrow> mem_map k next \<noteq> 0"
        using r(4) Suc.prems(2) by (auto split: if_splits)
      have "zero' \<noteq> zero \<longrightarrow> zero = 0 \<and> valid_off k zero' \<and> mem_map k zero' = 0"
        using r(4) Suc.prems(2) by (auto split: if_splits)
      then show ?thesis
        unfolding run arc using r(2,3,5) False z by simp
    qed
  qed
qed

text \<open>An entry that nobody counts is found, one whose contents are only in memory is taken away from its page, or there is none.\<close>

definition entry_freed :: "vmem \<Rightarrow> vmem \<Rightarrow> bool" where
  "entry_freed k k' \<longleftrightarrow> frames k' = frames k \<and> page_index k' = page_index k \<and> max_swap_offset k' = max_swap_offset k \<and> swap_disk k' = swap_disk k \<and> disk_io k' = disk_io k \<and>
     same_layout (phys k) (phys k') \<and> free_pages_of (phys k) \<subseteq> free_pages_of (phys k') \<and>
     (\<forall>off. mem_map k' off = mem_map k off \<or> mem_map k off = 0 \<and> mem_map k' off = SWAP_UNUSED) \<and>
     (\<forall>off q. valid_off k off \<and> mem_map k off \<noteq> 0 \<longrightarrow> cached k' off q = cached k off q) \<and>
     (\<forall>q. PageSwap q k' \<longrightarrow> PageSwap q k) \<and>
     (\<forall>q. PageSwap q k' \<or> \<not> PageSwap q k \<and> q \<notin> free_pages_of (phys k) \<longrightarrow> user_part (page_at q k') = user_part (page_at q k) \<and> q \<notin> free_pages_of (phys k'))"

lemma entry_freed_refl: "swap_wf X Y k \<Longrightarrow> k' = k\<lparr>next_entry := x\<rparr> \<Longrightarrow> entry_freed k k'"
  using swap_wf_page(1) by (auto simp: entry_freed_def cached_def)

lemma try_alloc_swap_entry_ok:
  assumes wf: "swap_wf {} {} k"
  shows "\<exists>e k'. try_alloc_swap_entry k = Some (e, k') \<and> swap_wf {} {} k' \<and> entry_freed k k' \<and>
    (if e = 0 then \<forall>off. valid_off k off \<longrightarrow> mem_map k off \<noteq> SWAP_UNUSED \<and> mem_map k off \<noteq> 0
     else \<exists>off. valid_off k' off \<and> e = entry_of off \<and> mem_map k' off = SWAP_UNUSED)"
proof -
  have c: "cache_ok {} k" using wf by (simp add: swap_wf_def)
  note m = cache_okD(1-4) [OF c]
  obtain emp zero nxt where s: "scan_entries (max_swap_offset k) k (next_entry k) 0 0 (next_entry k) = Some (emp, zero, nxt)" "valid_off k nxt"
      "emp \<noteq> 0 \<longrightarrow> valid_off k emp \<and> mem_map k emp = SWAP_UNUSED" "zero \<noteq> 0 \<longrightarrow> valid_off k zero \<and> mem_map k zero = 0"
      "emp = 0 \<longrightarrow> (\<forall>off\<in>arc k (next_entry k) (next_entry k). mem_map k off \<noteq> SWAP_UNUSED \<and> (zero = 0 \<longrightarrow> mem_map k off \<noteq> 0))"
    using scan_entries_ok [of k "next_entry k" "next_entry k" "max_swap_offset k" 0] m by (auto simp: steps_def)
  let ?k = "k\<lparr>next_entry := nxt\<rparr>"
  have wf': "swap_wf {} {} ?k"
  proof -
    have "cache_ok {} ?k"
      using cache_okD [OF c] s(2) by (intro cache_okI) (auto simp: cached_def)
    then show ?thesis
      using wf frames_ok_cong [of ?k k] lists_ok_cong [of ?k k] by (simp add: swap_wf_def)
  qed
  consider (emp) "emp \<noteq> 0" | (zero) "emp = 0" "zero \<noteq> 0" | (none) "emp = 0" "zero = 0" by blast
  then show ?thesis
  proof cases
    case emp
    then have "try_alloc_swap_entry k = Some (entry_of emp, ?k)" "entry_of emp \<noteq> 0"
      using s(1,3) m(2) entry_of_0 [of emp] by (simp_all add: try_alloc_swap_entry_def entry_of_def)
    then show ?thesis
      using wf' entry_freed_refl [OF wf refl] emp s(3) by fastforce
  next
    case none
    then have "try_alloc_swap_entry k = Some (0, ?k)"
      using s(1) by (simp add: try_alloc_swap_entry_def)
    moreover have "valid_off k off \<Longrightarrow> off \<in> arc k (next_entry k) (next_entry k)" for off
      by (auto simp: arc_def)
    ultimately show ?thesis
      using wf' entry_freed_refl [OF wf refl] none s(5) by auto
  next
    case zero
    have v: "valid_off ?k zero" "mem_map ?k zero = 0" "zero < 2 ^ 24" using zero s(4) m(2) by auto
    have c': "cache_ok {} ?k" using wf' by (simp add: swap_wf_def)
    obtain p where p: "cached ?k zero p" using cache_okD(9) [OF c' v(1)] v(2) by blast
    have ps: "PageSwap p ?k" using p by (simp add: cached_def)
    obtain k1 where k1: "swap_list_del p ?k = Some k1" "swap_wf {p} {} k1" "shuffled ?k k1" "phys k1 = phys k"
      using swap_list_del_ok [OF wf' ps] by auto
    have p1: "cached k1 zero p" "valid_off k1 zero" "page_ref p k1 = page_ref p k"
      using p k1(3) v(1) shuffled_cached [OF k1(3)] by (auto simp: shuffled_def page_ref_def)
    have wf1: "swap_wf {p} {zero} k1" using swap_wf_mono [OF k1(2)] by blast
    have "\<exists>k2. (if page_ref p k1 = 0 then swap_free_page p k1 else swap_page_del p k1) = Some k2 \<and> swap_wf {} {zero} k2 \<and> left_cache p k1 k2 \<and>
        free_pages_of (phys k2) \<subseteq> insert p (free_pages_of (phys k1)) \<and> free_pages_of (phys k1) \<subseteq> free_pages_of (phys k2)"
    proof (cases "page_ref p k1 = 0")
      case True
      then show ?thesis using swap_free_page_ok [OF wf1 p1(1) _ _ True p1(2)] by auto
    next
      case False
      then show ?thesis using swap_page_del_ok [OF wf1 p1(1) _ _ p1(2)] by auto
    qed
    then obtain k2 where k2: "(if page_ref p k1 = 0 then swap_free_page p k1 else swap_page_del p k1) = Some k2" "swap_wf {} {zero} k2" "left_cache p k1 k2"
        "free_pages_of (phys k2) \<subseteq> insert p (free_pages_of (phys k1))" "free_pages_of (phys k1) \<subseteq> free_pages_of (phys k2)" by blast
    let ?k3 = "set_map zero SWAP_UNUSED k2"
    have nc: "\<not> cached k2 zero q" for q
    proof
      assume q: "cached k2 zero q"
      then have "q \<noteq> p" using k2(3) by (auto simp: left_cache_def cached_def)
      then have "cached k1 zero q" using q left_cacheD(5) [OF k2(3)] by blast
      then show False using cached_unique p1(1) k1(2) \<open>q \<noteq> p\<close> by (auto simp: swap_wf_def)
    qed
    have nc3: "\<not> cached ?k3 zero q" for q using nc [of q] by (simp add: cached_def)
    have wf3: "swap_wf {} {} ?k3"
      by (rule swap_wf_close [OF _ v(3)]) (use swap_wf_set_map [OF k2(2), of zero SWAP_UNUSED] nc3 in auto)
    have run: "try_alloc_swap_entry k = Some (entry_of zero, ?k3)"
      using zero s(1) swap_hash_find_iff [OF c', of zero p] p ps k1(1) k2(1) by (simp add: try_alloc_swap_entry_def entry_of_def)
    have fields: "frames k2 = frames k" "page_index k2 = page_index k" "max_swap_offset k2 = max_swap_offset k" "swap_disk k2 = swap_disk k" "disk_io k2 = disk_io k"
        "mem_map k2 = mem_map k" "same_layout (phys k) (phys k2)" "free_pages_of (phys k1) = free_pages_of (phys k)"
      using k1(3) k2(3) same_layout_trans by (auto simp: shuffled_def left_cache_def)
    have up: "PageSwap q k2 = PageSwap q k" if "q \<noteq> p" for q
      using left_cacheD(1) [OF k2(3) that] k1(3) by (auto simp: shuffled_def)
    have fr: "\<not> PageSwap q k2 \<Longrightarrow> q \<noteq> p \<Longrightarrow> q \<notin> free_pages_of (phys k) \<Longrightarrow> q \<notin> free_pages_of (phys k2)" for q
      using k2(4) fields(8) by blast
    have fr': "PageSwap q k2 \<Longrightarrow> q \<notin> free_pages_of (phys k2)" for q using swap_wf_page(1) [OF k2(2)] by blast
    have ca: "cached k2 off q = cached k off q" if "valid_off k off" "mem_map k off \<noteq> 0" for off q
    proof (cases "q = p")
      case True
      have "off \<noteq> zero" using that v(2) by auto
      then have "\<not> cached k off p" using p that(1) m(2) entry_of_inj [of off zero] v(3) by (auto simp: cached_def)
      then show ?thesis using True k2(3) by (auto simp: left_cache_def cached_def)
    next
      case False
      then show ?thesis using up [OF False] fields(2) by (simp add: cached_def)
    qed
    have us: "user_part (page_at q k2) = user_part (page_at q k1)" if "q \<noteq> p" for q
      using k2(3) that by (simp add: left_cache_def)
    have np: "\<not> PageSwap p k2" using k2(3) by (simp add: left_cache_def)
    have sw: "PageSwap q k2 \<longrightarrow> PageSwap q k" for q using up [of q] np by (cases "q = p") auto
    have rest: "PageSwap q k2 \<or> \<not> PageSwap q k \<and> q \<notin> free_pages_of (phys k) \<longrightarrow>
        user_part (page_at q k2) = user_part (page_at q k) \<and> q \<notin> free_pages_of (phys k2)" for q
      using us [of q] k1(4) fr [of q] fr' [of q] np ps up [of q] by (cases "q = p") auto
    have "entry_freed k ?k3"
      unfolding entry_freed_def using fields k2(5) ca sw rest v(2) by (simp add: cached_def)
    then show ?thesis
      using run wf3 v entry_of_0 [OF v(3)] fields(3) by auto
  qed
qed

end
