(* ===== verification/Swap_Safe.thy ===== *)
theory Swap_Safe
  imports Swap_Inv
begin

text \<open>
  What the scans of \<^verbatim>\<open>kswapd\<close> and the calls on swap entries mean for the contents of pages that were swapped out: whatever is
  written to the device, freed and read again, whether or not the transfers succeed, an entry that is still counted keeps its contents.
\<close>

subsection \<open>The contents of an entry\<close>

definition entry_data :: "vmem \<Rightarrow> nat \<Rightarrow> page_words" where
  "entry_data k off = (case swap_hash_find (entry_of off) k of Some p \<Rightarrow> frames k p | None \<Rightarrow> swap_disk k off)"

abbreviation live :: "vmem \<Rightarrow> nat \<Rightarrow> bool" where
  "live k off \<equiv> valid_off k off \<and> mem_map k off \<noteq> 0 \<and> mem_map k off \<noteq> SWAP_UNUSED"

text \<open>A page of the cache that no page table refers to and that is not dirty has a copy on the device.\<close>

definition clean :: "vmem \<Rightarrow> bool" where
  "clean k \<longleftrightarrow> (\<forall>off p. valid_off k off \<and> cached k off p \<and> \<not> PageDirty p k \<and> page_ref p k = 0 \<longrightarrow> frames k p = swap_disk k off)"

text \<open>No entry has as many references as \<^verbatim>\<open>swap_duplicate\<close> refuses to count.\<close>

definition counts_ok :: "vmem \<Rightarrow> bool" where
  "counts_ok k \<longleftrightarrow> (\<forall>off. valid_off k off \<longrightarrow> mem_map k off \<noteq> MAX_SWAP_REF)"

definition swap_ok :: "vmem \<Rightarrow> bool" where
  "swap_ok k \<longleftrightarrow> swap_wf {} {} k \<and> clean k \<and> counts_ok k"

lemma entry_data_cached: "swap_wf X Y k \<Longrightarrow> cached k off p \<Longrightarrow> entry_data k off = frames k p"
  using swap_hash_find_iff [of Y k off p] by (simp add: entry_data_def swap_wf_def)

lemma entry_data_disk: "swap_wf X Y k \<Longrightarrow> (\<And>p. \<not> cached k off p) \<Longrightarrow> entry_data k off = swap_disk k off"
  using swap_hash_find_None [of Y k off] by (simp add: entry_data_def swap_wf_def)

lemma shuffled_data: "shuffled k k' \<Longrightarrow> entry_data k' off = entry_data k off"
  by (simp add: shuffled_def entry_data_def swap_hash_find_def split: option.split)

lemma shuffled_clean: "shuffled k k' \<Longrightarrow> clean k \<Longrightarrow> clean k'"
  by (simp add: shuffled_def clean_def cached_def)

lemma shuffled_counts: "shuffled k k' \<Longrightarrow> counts_ok k' = counts_ok k"
  by (simp add: shuffled_def counts_ok_def)

lemma cached_off_unique: "max_swap_offset k < 2 ^ 24 \<Longrightarrow> valid_off k off \<Longrightarrow> valid_off k off' \<Longrightarrow> cached k off p \<Longrightarrow> cached k off' p \<Longrightarrow> off' = off"
  using entry_of_inj [of off off'] by (simp add: cached_def)

lemma left_cache_data:
  assumes wf: "swap_wf X Y k" "swap_wf X' Y' k'" and l: "left_cache p k k'" and c: "cached k off p" "valid_off k off"
  shows "valid_off k off' \<Longrightarrow> entry_data k' off' = (if off' = off then swap_disk k off else entry_data k off')"
proof -
  assume v: "valid_off k off'"
  have m: "max_swap_offset k < 2 ^ 24" using wf(1) by (simp add: swap_wf_def cache_ok_def)
  have same: "frames k' = frames k" "swap_disk k' = swap_disk k" and np: "\<not> cached k' off' p" using l by (auto simp: left_cache_def cached_def)
  show ?thesis
  proof (cases "off' = off")
    case True
    have "\<not> cached k' off q" for q
    proof (cases "q = p")
      case False
      then have "\<not> cached k off q" using cached_unique [of Y k off p q] c(1) wf(1) by (auto simp: swap_wf_def)
      then show ?thesis using left_cacheD(5) [OF l False] by blast
    qed (use np True in auto)
    then show ?thesis using entry_data_disk [OF wf(2)] same True by simp
  next
    case False
    have kp: "\<not> cached k off' p" using cached_off_unique [OF m c(2) v c(1)] False by blast
    have e: "cached k' off' q = cached k off' q" for q
      using left_cacheD(5) [OF l] kp np by (cases "q = p") auto
    show ?thesis
    proof (cases "\<exists>q. cached k off' q")
      case True
      then obtain q where q: "cached k off' q" by blast
      then show ?thesis using entry_data_cached [OF wf(1) q] entry_data_cached [OF wf(2)] e same False by simp
    next
      case no: False
      then show ?thesis using entry_data_disk [OF wf(1)] entry_data_disk [OF wf(2)] e same False by simp
    qed
  qed
qed

lemma left_cache_clean:
  assumes "left_cache p k k'" "clean k"
  shows "clean k'"
proof -
  have n: "\<not> cached k' off p" for off using assms(1) by (auto simp: left_cache_def cached_def)
  have s: "frames k' = frames k" "swap_disk k' = swap_disk k" "max_swap_offset k' = max_swap_offset k" using assms(1) by (simp_all add: left_cache_def)
  show ?thesis
    unfolding clean_def s
  proof (intro allI impI)
    fix off q assume h: "valid_off k off \<and> cached k' off q \<and> \<not> PageDirty q k' \<and> page_ref q k' = 0"
    then have "q \<noteq> p" using n by blast
    from left_cacheD [OF assms(1) this] h assms(2) show "frames k q = swap_disk k off" by (simp add: clean_def)
  qed
qed

lemma left_cache_counts: "left_cache p k k' \<Longrightarrow> counts_ok k' = counts_ok k"
  by (simp add: left_cache_def counts_ok_def)

text \<open>A page that leaves the cache and the memory; its entry has a count, or is not in use any more.\<close>

lemma drop_page_ok:
  assumes wf: "swap_wf {p} {off} k" and p: "cached k off p" "page_ref p k = 0" and v: "valid_off k off" and m: "mem_map k off \<noteq> 0"
  shows "\<exists>k'. swap_free_page p k = Some k' \<and> swap_wf {} {} k' \<and> left_cache p k k' \<and> free_pages_of (phys k') = insert p (free_pages_of (phys k))"
proof -
  obtain k' where k': "swap_free_page p k = Some k'" "swap_wf {} {off} k'" "left_cache p k k'" "free_pages_of (phys k') = insert p (free_pages_of (phys k))"
    using swap_free_page_ok [OF wf p(1) _ _ p(2) v] by auto
  have "\<not> cached k' off q" for q
    using left_cacheD(5) [OF k'(3), of q off] k'(3) cached_unique [of "{off}" k off p q] p(1) wf
    by (cases "q = p") (auto simp: left_cache_def cached_def swap_wf_def)
  moreover have "off < 2 ^ 24" using v wf by (simp add: swap_wf_def cache_ok_def)
  moreover have "mem_map k' off \<noteq> 0" using k'(3) m by (simp add: left_cache_def)
  ultimately have "swap_wf {} {} k'" using swap_wf_close [of "{}" off "{}" k'] k'(2) by blast
  then show ?thesis using k' by blast
qed

text \<open>Writing a page to the device.\<close>

lemma dirty_change_ok:
  assumes wf: "swap_wf X Y k" and p: "PageSwap p k" and f: "f = set_flag PG_dirty \<or> f = clear_flag PG_dirty"
  shows "swap_wf X Y (k\<lparr>phys := upd_page p f (phys k), disk_io := io, swap_disk := d\<rparr>)"
proof -
  let ?k' = "k\<lparr>phys := upd_page p f (phys k), disk_io := io, swap_disk := d\<rparr>"
  note pg = swap_wf_page [OF wf p]
  have uc: "user_change f" using f by auto
  have s: "PageSwap q ?k' = PageSwap q k" "PageActive q ?k' = PageActive q k" for q using f by auto
  have "frames_ok (upd_pg p f k)" using frames_ok_user [OF _ uc pg(1)] pg(2) wf by (auto simp: swap_wf_def)
  then have "frames_ok ?k'" using frames_ok_cong [of ?k' "upd_pg p f k"] by simp
  moreover have "cache_ok Y ?k'" using cache_ok_cong [of ?k' k Y] s wf by (simp add: swap_wf_def)
  moreover have "lists_ok X ?k'" using lists_ok_cong [of ?k' k X] s wf by (simp add: swap_wf_def)
  ultimately show ?thesis by (simp add: swap_wf_def)
qed

subsection \<open>Laundering\<close>

text \<open>What a scan may change: pages leave the cache, entries that nobody counts are freed.\<close>

definition laundered :: "vmem \<Rightarrow> vmem \<Rightarrow> bool" where
  "laundered k k' \<longleftrightarrow> frames k' = frames k \<and> page_index k' = page_index k \<and> max_swap_offset k' = max_swap_offset k \<and> same_layout (phys k) (phys k') \<and>
     (\<forall>off. live k off \<longrightarrow> mem_map k' off = mem_map k off \<and> entry_data k' off = entry_data k off) \<and>
     (\<forall>off. mem_map k' off \<noteq> mem_map k off \<longrightarrow> mem_map k off = 0 \<and> mem_map k' off = SWAP_UNUSED) \<and>
     (\<forall>q. PageSwap q k' \<longrightarrow> PageSwap q k \<and> page_ref q k' = page_ref q k) \<and>
     (\<forall>q. PageSwap q k \<and> page_ref q k \<noteq> 0 \<longrightarrow> PageSwap q k') \<and>
     (\<forall>q. \<not> PageSwap q k \<longrightarrow> user_part (page_at q k') = user_part (page_at q k)) \<and>
     free_pages_of (phys k) \<subseteq> free_pages_of (phys k') \<and> free_pages_of (phys k') \<subseteq> free_pages_of (phys k) \<union> {q. PageSwap q k \<and> page_ref q k = 0}"

lemma launderedD:
  assumes "laundered k k'"
  shows "frames k' = frames k" "page_index k' = page_index k" "max_swap_offset k' = max_swap_offset k" "same_layout (phys k) (phys k')"
    "live k off \<Longrightarrow> mem_map k' off = mem_map k off" "live k off \<Longrightarrow> entry_data k' off = entry_data k off"
    "mem_map k' off = mem_map k off \<or> mem_map k off = 0 \<and> mem_map k' off = SWAP_UNUSED"
    "PageSwap q k' \<Longrightarrow> PageSwap q k" "PageSwap q k' \<Longrightarrow> page_ref q k' = page_ref q k" "PageSwap q k \<Longrightarrow> page_ref q k \<noteq> 0 \<Longrightarrow> PageSwap q k'"
    "\<not> PageSwap q k \<Longrightarrow> user_part (page_at q k') = user_part (page_at q k)"
    "free_pages_of (phys k) \<subseteq> free_pages_of (phys k')" "q \<in> free_pages_of (phys k') \<Longrightarrow> q \<in> free_pages_of (phys k) \<or> PageSwap q k \<and> page_ref q k = 0"
  using assms unfolding laundered_def by (blast+)

lemma laundered_trans:
  assumes a: "laundered k k1" and b: "laundered k1 k2"
  shows "laundered k k2"
proof -
  have m: "max_swap_offset k1 = max_swap_offset k" using launderedD(3) [OF a] .
  have l: "live k1 off" if "live k off" for off using that launderedD(5) [OF a that] m by simp
  have "live k off \<longrightarrow> mem_map k2 off = mem_map k off \<and> entry_data k2 off = entry_data k off" for off
    using launderedD(5,6) [OF a, of off] launderedD(5,6) [OF b, of off] l by simp
  moreover have "mem_map k2 off \<noteq> mem_map k off \<longrightarrow> mem_map k off = 0 \<and> mem_map k2 off = SWAP_UNUSED" for off
    using launderedD(7) [OF a, of off] launderedD(7) [OF b, of off] by auto
  moreover have "(PageSwap q k2 \<longrightarrow> PageSwap q k \<and> page_ref q k2 = page_ref q k) \<and> (PageSwap q k \<and> page_ref q k \<noteq> 0 \<longrightarrow> PageSwap q k2)" for q
    using launderedD(8-10) [OF a, of q] launderedD(8-10) [OF b, of q] by metis
  moreover have "\<not> PageSwap q k \<longrightarrow> user_part (page_at q k2) = user_part (page_at q k)" for q
    using launderedD(8,11) [OF a, of q] launderedD(11) [OF b, of q] by metis
  moreover have "free_pages_of (phys k2) \<subseteq> free_pages_of (phys k) \<union> {q. PageSwap q k \<and> page_ref q k = 0}"
  proof
    fix q assume "q \<in> free_pages_of (phys k2)"
    then show "q \<in> free_pages_of (phys k) \<union> {q. PageSwap q k \<and> page_ref q k = 0}"
      using launderedD(13) [OF b, of q] launderedD(8,9,13) [OF a, of q] by (metis (mono_tags, lifting) UnI1 UnI2 mem_Collect_eq)
  qed
  moreover have "frames k2 = frames k" "page_index k2 = page_index k" "max_swap_offset k2 = max_swap_offset k"
    using launderedD(1-3) [OF a] launderedD(1-3) [OF b] by simp_all
  moreover have "same_layout (phys k) (phys k2)" "free_pages_of (phys k) \<subseteq> free_pages_of (phys k2)"
    using launderedD(4,12) [OF a] launderedD(4,12) [OF b] same_layout_trans by blast+
  ultimately show ?thesis unfolding laundered_def by blast
qed

lemma shuffled_phys_laundered:
  assumes "shuffled k k'" "\<And>q. \<not> PageSwap q k \<Longrightarrow> user_part (page_at q k') = user_part (page_at q k)"
  shows "laundered k k'"
  using assms shuffled_data [OF assms(1)] by (auto simp: laundered_def shuffled_def)

text \<open>A page that is dropped from the cache: its contents are on the device, or its entry is not in use any more.\<close>

lemma drop_laundered:
  assumes wf: "swap_wf {p} {off} k" "swap_wf {} {} k'" and l: "left_cache p k k'" and c: "cached k off p" "valid_off k off" "page_ref p k = 0"
    and d: "live k off \<Longrightarrow> swap_disk k off = frames k p" and fr: "free_pages_of (phys k') = insert p (free_pages_of (phys k))"
  shows "laundered k k'"
proof -
  have ed: "live k off' \<longrightarrow> entry_data k' off' = entry_data k off'" for off'
    using left_cache_data [OF wf l c(1,2), of off'] d entry_data_cached [OF wf(1) c(1)] by auto
  have sw: "(PageSwap q k' \<longrightarrow> PageSwap q k \<and> page_ref q k' = page_ref q k) \<and> (PageSwap q k \<and> page_ref q k \<noteq> 0 \<longrightarrow> PageSwap q k')" for q
    using left_cacheD [OF l, of q] c(3) l by (cases "q = p") (auto simp: left_cache_def)
  have ps: "PageSwap p k" using c(1) by (simp add: cached_def)
  have up: "\<not> PageSwap q k \<longrightarrow> user_part (page_at q k') = user_part (page_at q k)" for q
    using l ps by (cases "q = p") (auto simp: left_cache_def)
  show ?thesis
    using ed sw up l fr ps c(3) unfolding laundered_def left_cache_def by auto
qed

definition launder_post :: "nat \<Rightarrow> vmem \<Rightarrow> bool \<Rightarrow> vmem \<Rightarrow> bool" where
  "launder_post p k freed k' \<longleftrightarrow> swap_ok k' \<and> laundered k k' \<and>
     free_pages_of (phys k') = (if freed then insert p (free_pages_of (phys k)) else free_pages_of (phys k)) \<and>
     (\<forall>q\<in>set (inactive_list k). q \<noteq> p \<longrightarrow> q \<in> set (inactive_list k'))"

lemma launder_move:
  assumes wf: "swap_wf {p} {} k1" and p: "PageSwap p k1" and c: "clean k1" "counts_ok k1"
  shows "\<exists>k'. swap_active_list_add p k1 = Some k' \<and> launder_post p k1 False k'" "\<exists>k'. swap_inactive_list_add p k1 = Some k' \<and> launder_post p k1 False k'"
proof -
  obtain ka where a: "swap_active_list_add p k1 = Some ka" "swap_wf {} {} ka" "shuffled k1 ka" "inactive_list ka = inactive_list k1"
    using list_add_ok(1) [OF wf p] by auto
  obtain ki where i: "swap_inactive_list_add p k1 = Some ki" "swap_wf {} {} ki" "shuffled k1 ki" "inactive_list ki = inactive_list k1 @ [p]"
    using list_add_ok(2) [OF wf p] by auto
  have u: "user_part (page_at q ka) = user_part (page_at q k1)" "user_part (page_at q ki) = user_part (page_at q k1)" if "\<not> PageSwap q k1" for q
    using that p a(1) i(1) by (auto simp: swap_active_list_add_def swap_inactive_list_add_def Let_def)
  have "laundered k1 ka" by (rule shuffled_phys_laundered [OF a(3) u(1)])
  moreover have "laundered k1 ki" by (rule shuffled_phys_laundered [OF i(3) u(2)])
  moreover have "clean ka" "counts_ok ka" "clean ki" "counts_ok ki"
    using shuffled_clean [OF a(3) c(1)] shuffled_clean [OF i(3) c(1)] shuffled_counts [OF a(3)] shuffled_counts [OF i(3)] c(2) by simp_all
  moreover have "free_pages_of (phys ka) = free_pages_of (phys k1)" "free_pages_of (phys ki) = free_pages_of (phys k1)"
    using a(3) i(3) by (simp_all add: shuffled_def)
  ultimately show "\<exists>k'. swap_active_list_add p k1 = Some k' \<and> launder_post p k1 False k'" "\<exists>k'. swap_inactive_list_add p k1 = Some k' \<and> launder_post p k1 False k'"
    using a(1,2,4) i(1,2,4) unfolding launder_post_def swap_ok_def by simp_all
qed

lemma launder_drop:
  assumes wf: "swap_wf {p} {off} k1" and p: "cached k1 off p" "page_ref p k1 = 0" and v: "valid_off k1 off" "mem_map k1 off \<noteq> 0" and c: "clean k1" "counts_ok k1"
    and d: "live k1 off \<Longrightarrow> swap_disk k1 off = frames k1 p"
  shows "\<exists>k'. swap_free_page p k1 = Some k' \<and> launder_post p k1 True k'"
proof -
  obtain k' where k': "swap_free_page p k1 = Some k'" "swap_wf {} {} k'" "left_cache p k1 k'" "free_pages_of (phys k') = insert p (free_pages_of (phys k1))"
    using drop_page_ok [OF wf p v] by blast
  have "laundered k1 k'" by (rule drop_laundered [OF wf k'(2,3) p(1) v(1) p(2) d k'(4)])
  moreover have "clean k'" "counts_ok k'" using left_cache_clean [OF k'(3) c(1)] left_cache_counts [OF k'(3)] c(2) by simp_all
  moreover have "inactive_list k' = inactive_list k1" using k'(3) by (simp add: left_cache_def)
  ultimately show ?thesis using k'(1,2,4) unfolding launder_post_def swap_ok_def by auto
qed

definition next_io :: "vmem \<Rightarrow> page_words option" where
  "next_io k = (case disk_io k of [] \<Rightarrow> None | r # _ \<Rightarrow> r)"

lemma io_result_eq: "io_result k = (next_io k, k\<lparr>disk_io := tl (disk_io k)\<rparr>)"
  by (cases "disk_io k") (auto simp: io_result_def next_io_def)

text \<open>The page is written: the state just after the transfer, with the entry counted as before.\<close>

lemma launder_write:
  assumes wf: "swap_wf {p} {} k1" and p: "cached k1 off p" "PageDirty p k1" "page_ref p k1 = 0" and v: "live k1 off" and c: "clean k1" "counts_ok k1"
    and k2: "k2 = k1\<lparr>phys := upd_page p (if r = None then clear_flag PG_dirty else set_flag PG_dirty) (phys k1), disk_io := io, swap_disk := (swap_disk k1)(off := (case r of None \<Rightarrow> frames k1 p | Some junk \<Rightarrow> junk))\<rparr>"
  shows "swap_wf {p} {} k2" "clean k2" "counts_ok k2" "laundered k1 k2" "cached k2 off p" "PageDirty p k2 \<longleftrightarrow> r \<noteq> None" "page_ref p k2 = 0" "live k2 off"
    "r = None \<Longrightarrow> swap_disk k2 off = frames k2 p" "free_pages_of (phys k2) = free_pages_of (phys k1)" "inactive_list k2 = inactive_list k1"
proof -
  have ps: "PageSwap p k1" using p(1) by (simp add: cached_def)
  show wf2: "swap_wf {p} {} k2" unfolding k2 by (rule dirty_change_ok [OF wf ps]) auto
  have rf: "ref (set_flag n pg) = ref pg" "ref (clear_flag n pg) = ref pg" for n pg by (simp_all add: set_flag_def clear_flag_def)
  have s: "PageSwap q k2 = PageSwap q k1" "page_ref q k2 = page_ref q k1" "cached k2 o' q = cached k1 o' q" for q o' by (auto simp: k2 rf page_ref_def cached_def)
  have dq: "PageDirty q k2 = PageDirty q k1" if "q \<noteq> p" for q using that by (simp add: k2)
  have eq: "frames k2 = frames k1" "page_index k2 = page_index k1" "max_swap_offset k2 = max_swap_offset k1" "mem_map k2 = mem_map k1" by (simp_all add: k2)
  have m: "max_swap_offset k1 < 2 ^ 24" using wf by (simp add: swap_wf_def cache_ok_def)
  show "cached k2 off p" "page_ref p k2 = 0" "live k2 off" "counts_ok k2" using p v c(2) s eq by (auto simp: counts_ok_def)
  show d2: "PageDirty p k2 \<longleftrightarrow> r \<noteq> None" "free_pages_of (phys k2) = free_pages_of (phys k1)" "inactive_list k2 = inactive_list k1" by (auto simp: k2 user_change_free)
  show dd: "r = None \<Longrightarrow> swap_disk k2 off = frames k2 p" by (simp add: k2)
  have oth: "swap_disk k2 o' = swap_disk k1 o'" if "o' \<noteq> off" for o' using that by (simp add: k2)
  show "clean k2"
    unfolding clean_def
  proof (intro allI impI)
    fix o' q assume h: "valid_off k2 o' \<and> cached k2 o' q \<and> \<not> PageDirty q k2 \<and> page_ref q k2 = 0"
    show "frames k2 q = swap_disk k2 o'"
    proof (cases "q = p")
      case True
      have "o' = off" using cached_off_unique [OF m, of off o' p] h v p(1) True s(3) eq(3) by simp
      then show ?thesis using dd d2(1) h True by auto
    next
      case False
      have "o' \<noteq> off" using cached_unique [of "{}" k1 off p q] p(1) h s(3) False wf by (auto simp: swap_wf_def)
      then show ?thesis using h c(1) s dq [OF False] oth eq by (simp add: clean_def)
    qed
  qed
  have ed: "entry_data k2 o' = entry_data k1 o'" if "valid_off k1 o'" for o'
  proof (cases "\<exists>q. cached k1 o' q")
    case True
    then obtain q where q: "cached k1 o' q" by blast
    then show ?thesis using entry_data_cached [OF wf q] entry_data_cached [OF wf2, of o' q] s(3) eq by simp
  next
    case False
    then have "o' \<noteq> off" using p(1) by blast
    then show ?thesis using False entry_data_disk [OF wf] entry_data_disk [OF wf2] s(3) oth by simp
  qed
  have "same_layout (phys k1) (phys k2)" using user_change_layout [OF user_changes(6)] user_change_layout [OF user_changes(3)] by (simp add: k2)
  moreover have "user_part (page_at q k2) = user_part (page_at q k1)" if "\<not> PageSwap q k1" for q using that ps by (auto simp: k2)
  ultimately show "laundered k1 k2"
    unfolding laundered_def using ed s eq d2(2) by auto
qed

lemma set_clear_flag: "set_flag n (clear_flag n pg) = set_flag n pg"
proof -
  have "set_bit n (unset_bit n (flags pg)) = set_bit n (flags pg)"
    by (rule bit_eqI) (auto simp: bit_set_bit_iff bit_unset_bit_iff)
  then show ?thesis by (simp add: set_flag_def clear_flag_def)
qed

lemma upd_page_set_clear: "upd_page p (set_flag n) (upd_page p (clear_flag n) s) = upd_page p (set_flag n) s"
  by (simp add: set_clear_flag)

lemma launder_post_comp:
  assumes "laundered k k1" "free_pages_of (phys k1) = free_pages_of (phys k)" "\<forall>q\<in>set (inactive_list k). q \<noteq> p \<longrightarrow> q \<in> set (inactive_list k1)" "launder_post p k1 b k'"
  shows "launder_post p k b k'"
  using assms laundered_trans [OF assms(1)] by (auto simp: launder_post_def)

lemma below_max: "v \<noteq> SWAP_UNUSED \<Longrightarrow> v \<noteq> MAX_SWAP_REF \<Longrightarrow> v < MAX_SWAP_REF"
  for v :: u16
proof -
  assume h: "v \<noteq> SWAP_UNUSED" "v \<noteq> MAX_SWAP_REF"
  have "unat v < 65536" using unsigned_less [of v] by simp
  moreover have "unat v \<noteq> 65535" "unat v \<noteq> 65534"
    using h word_unat_eq_iff [of v SWAP_UNUSED] word_unat_eq_iff [of v MAX_SWAP_REF] by simp_all
  ultimately show "v < MAX_SWAP_REF" by (simp add: word_less_nat_alt)
qed

lemma launder_write_run:
  assumes ref: "page_ref p k1 = 0" and e: "page_index k1 p = entry_of off" and d: "live k1 off" "PageDirty p k1" and so: "swap_offset (entry_of off) k1 = Some off"
    and lt: "mem_map k1 off < MAX_SWAP_REF" and r: "r = next_io k1" and io: "io = tl (disk_io k1)"
    and k2: "k2 = k1\<lparr>phys := upd_page p (if r = None then clear_flag PG_dirty else set_flag PG_dirty) (phys k1), disk_io := io, swap_disk := (swap_disk k1)(off := (case r of None \<Rightarrow> frames k1 p | Some junk \<Rightarrow> junk))\<rparr>"
  shows "(if page_ref p k1 \<noteq> 0 then do { k \<leftarrow> swap_active_list_add p k1; Some (False, k) }
      else do {
        let entry = page_index k1 p;
        (freed, k) \<leftarrow> try_free_swap_entry entry k1;
        (if \<not> freed \<and> PageDirty p k then do {
           let k = upd_pg p (clear_flag PG_dirty) k;
           k \<leftarrow> swap_duplicate entry k;
           (ok, k) \<leftarrow> swapfs_write entry p k;
           let k = (if \<not> ok then upd_pg p (set_flag PG_dirty) k else k);
           off \<leftarrow> swap_offset entry k;
           let k = k\<lparr>mem_map := (mem_map k)(off := mem_map k off - 1)\<rparr>;
           (if page_ref p k \<noteq> 0 then do { k \<leftarrow> swap_active_list_add p k; Some (False, k) }
            else if PageDirty p k then do { k \<leftarrow> swap_inactive_list_add p k; Some (False, k) }
            else do { (_, k) \<leftarrow> try_free_swap_entry entry k; k \<leftarrow> swap_free_page p k; Some (True, k) })
         }
         else do { k \<leftarrow> swap_free_page p k; Some (True, k) })
      }) = (if r = None then do { k \<leftarrow> swap_free_page p k2; Some (True, k) } else do { k \<leftarrow> swap_inactive_list_add p k2; Some (False, k) })"
proof -
  have so': "swap_offset (entry_of off) k' = Some off" if "max_swap_offset k' = max_swap_offset k1" for k'
    using so that by (simp add: swap_offset_def)
  have rf: "ref (set_flag n pg) = ref pg" "ref (clear_flag n pg) = ref pg" for n pg by (simp_all add: set_flag_def clear_flag_def)
  let ?d = "upd_pg p (clear_flag PG_dirty) k1" and ?v = "mem_map k1 off"
  have ord: "k1\<lparr>disk_io := x, swap_disk := y, phys := z\<rparr> = k1\<lparr>phys := z, disk_io := x, swap_disk := y\<rparr>" for x y z by simp
  have mm: "(mem_map k1)(off := ?v + 1, off := ?v) = mem_map k1" by simp
  show ?thesis
  proof (cases r)
    case None
    then show ?thesis
      using ref e d lt so' r io unfolding k2
      by (simp add: try_free_swap_entry_def swap_duplicate_def swapfs_write_def Let_def page_ref_def rf mm io_result_eq next_io_def)
  next
    case (Some junk)
    then show ?thesis
      using ref e d lt so' r io unfolding k2
      by (simp add: try_free_swap_entry_def swap_duplicate_def swapfs_write_def Let_def page_ref_def rf mm upd_page_set_clear ord io_result_eq next_io_def)
  qed
qed

lemma launder_page_ok:
  assumes ok: "swap_ok k" and p: "p \<in> set (inactive_list k)"
  shows "\<exists>freed k'. launder_page p k = Some (freed, k') \<and> launder_post p k freed k'"
proof -
  have wf: "swap_wf {} {} k" and c: "clean k" "counts_ok k" using ok by (auto simp: swap_ok_def)
  have ps: "PageSwap p k" "\<not> PageActive p k" using wf p by (auto simp: swap_wf_def lists_ok_def)
  obtain k1 where k1: "swap_list_del p k = Some k1" "swap_wf {p} {} k1" "shuffled k k1" "phys k1 = phys k" "inactive_list k1 = remove1 p (inactive_list k)"
    using swap_list_del_ok [OF wf ps(1)] by auto
  have lk: "laundered k k1" by (rule shuffled_phys_laundered [OF k1(3)]) (simp add: k1(4))
  have same: "mem_map k1 = mem_map k" "page_index k1 = page_index k" "max_swap_offset k1 = max_swap_offset k" "free_pages_of (phys k1) = free_pages_of (phys k)" using k1(3,4) by (simp_all add: shuffled_def)
  have il: "\<forall>q\<in>set (inactive_list k). q \<noteq> p \<longrightarrow> q \<in> set (inactive_list k1)" by (simp add: k1(5))
  have c1: "clean k1" "counts_ok k1" using shuffled_clean [OF k1(3) c(1)] shuffled_counts [OF k1(3)] c(2) by simp_all
  note comp = launder_post_comp [OF lk same(4) il]
  have ps1: "PageSwap p k1" using ps k1(4) by simp
  obtain off where off: "valid_off k1 off" "page_index k1 p = entry_of off" "mem_map k1 off \<noteq> SWAP_UNUSED"
    using cache_okD(5) [of "{}" k1 p] k1(2) ps1 by (auto simp: swap_wf_def)
  have cp: "cached k1 off p" using ps1 off(2) by (simp add: cached_def)
  have m: "max_swap_offset k1 < 2 ^ 24" using k1(2) by (simp add: swap_wf_def cache_ok_def)
  have so: "swap_offset (entry_of off) k' = Some off" if "max_swap_offset k' = max_swap_offset k1" for k'
    using swap_offset_entry [of k' off] off(1) m that by simp
  show ?thesis
  proof (cases "page_ref p k1 = 0")
    case False
    obtain k' where "swap_active_list_add p k1 = Some k'" "launder_post p k1 False k'" using launder_move(1) [OF k1(2) ps1 c1] by blast
    then show ?thesis using k1(1) ps False comp by (auto simp: launder_page_def)
  next
    case ref: True
    consider (zero) "mem_map k1 off = 0" | (clean) "live k1 off" "\<not> PageDirty p k1" | (dirty) "live k1 off" "PageDirty p k1" using off by blast
    then show ?thesis
    proof cases
      case zero
      let ?k2 = "set_map off SWAP_UNUSED k1"
      have wf2: "swap_wf {p} {off} ?k2" using swap_wf_set_map [OF k1(2), of off SWAP_UNUSED] by simp
      have c2: "cached ?k2 off p" "page_ref p ?k2 = 0" "valid_off ?k2 off" "clean ?k2" "counts_ok ?k2"
        using cp ref off(1) c1 by (auto simp: cached_def page_ref_def clean_def counts_ok_def)
      have nl: "live k1 o' \<Longrightarrow> o' \<noteq> off" for o' using zero by blast
      have "laundered k1 ?k2"
        using nl zero by (auto simp: laundered_def page_ref_def entry_data_def swap_hash_find_def split: option.split)
      moreover obtain k' where k': "swap_free_page p ?k2 = Some k'" "launder_post p ?k2 True k'"
        using launder_drop [OF wf2 c2(1-3) _ c2(4,5)] by auto
      ultimately have "launder_post p k1 True k'" using launder_post_comp [of k1 ?k2 p True k'] by simp
      then have "launder_post p k True k'" by (rule comp)
      moreover have "launder_page p k = Some (True, k')"
        using k1(1) ps ref off(2) so [OF refl] zero k'(1) by (simp add: launder_page_def try_free_swap_entry_def Let_def)
      ultimately show ?thesis by blast
    next
      case clean
      have "swap_disk k1 off = frames k1 p" using c1(1) cp ref off(1) clean(2) unfolding clean_def by metis
      then obtain k' where k': "swap_free_page p k1 = Some k'" "launder_post p k1 True k'"
        using launder_drop [OF swap_wf_mono [OF k1(2)] cp ref off(1) _ c1] clean(1) by auto
      moreover have "launder_page p k = Some (True, k')"
        using k1(1) ps ref off(2) so [OF refl] clean k'(1) by (simp add: launder_page_def try_free_swap_entry_def Let_def)
      ultimately show ?thesis using comp by blast
    next
      case dirty
      define r io where rio: "r = next_io k1" "io = tl (disk_io k1)"
      define k2 where "k2 = k1\<lparr>phys := upd_page p (if r = None then clear_flag PG_dirty else set_flag PG_dirty) (phys k1),
        disk_io := io, swap_disk := (swap_disk k1)(off := (case r of None \<Rightarrow> frames k1 p | Some junk \<Rightarrow> junk))\<rparr>"
      note w = launder_write [OF k1(2) cp dirty(2) ref dirty(1) c1 k2_def]
      note comp2 = comp [OF launder_post_comp [OF w(4,10)]]
      have lt: "mem_map k1 off < MAX_SWAP_REF" using below_max [of "mem_map k1 off"] off(1,3) c1(2) by (simp add: counts_ok_def)
      have run: "launder_page p k = (if r = None then do { k \<leftarrow> swap_free_page p k2; Some (True, k) } else do { k \<leftarrow> swap_inactive_list_add p k2; Some (False, k) })"
        using k1(1) ps launder_write_run [OF ref off(2) dirty so [OF refl] lt rio k2_def] by (simp add: launder_page_def)
      show ?thesis
      proof (cases "r = None")
        case True
        obtain k' where "swap_free_page p k2 = Some k'" "launder_post p k2 True k'"
          using launder_drop [OF swap_wf_mono [OF w(1)] w(5,7) _ _ w(2,3)] w(8,9) True by auto
        then show ?thesis using run True comp2 w(11) by auto
      next
        case False
        obtain k' where "swap_inactive_list_add p k2 = Some k'" "launder_post p k2 False k'"
          using launder_move(2) [OF w(1) _ w(2,3)] w(5) by (auto simp: cached_def)
        then show ?thesis using run False comp2 w(11) by auto
      qed
    qed
  qed
qed

text \<open>When the transfers succeed, a page that nobody refers to is freed.\<close>

lemma disk_io_kept:
  "swap_list_del p k = Some k' \<Longrightarrow> disk_io k' = disk_io k \<and> phys k' = phys k"
  "swap_free_page p k = Some k' \<Longrightarrow> disk_io k' = disk_io k"
  "swap_active_list_add p k = Some k' \<Longrightarrow> disk_io k' = disk_io k"
  "swap_inactive_list_add p k = Some k' \<Longrightarrow> disk_io k' = disk_io k"
  "try_free_swap_entry e k = Some (b, k') \<Longrightarrow> disk_io k' = disk_io k \<and> phys k' = phys k"
  "swap_duplicate e k = Some k' \<Longrightarrow> disk_io k' = disk_io k \<and> phys k' = phys k"
  by (auto simp: swap_list_del_def swap_free_page_def swap_page_del_def free_page_def swap_active_list_add_def swap_inactive_list_add_def
      try_free_swap_entry_def swap_duplicate_def Let_def split: Option.bind_splits if_splits)

lemma launder_page_frees:
  assumes run: "launder_page p k = Some (freed, k')" and io: "set (disk_io k) \<subseteq> {None}"
  shows "set (disk_io k') \<subseteq> {None}" "page_ref p k = 0 \<Longrightarrow> freed"
proof -
  have n: "next_io j = None \<and> set (tl (disk_io j)) \<subseteq> {None}" if "set (disk_io j) \<subseteq> {None}" for j
    using that by (cases "disk_io j") (auto simp: next_io_def)
  have rf: "ref (set_flag n pg) = ref pg" "ref (clear_flag n pg) = ref pg" for n pg by (simp_all add: set_flag_def clear_flag_def)
  have w: "b \<and> set (disk_io j') \<subseteq> {None} \<and> phys j' = phys j" if "swapfs_write e p j = Some (b, j')" "set (disk_io j) \<subseteq> {None}" for e j b j'
    using that n [of j] by (auto simp: swapfs_write_def io_result_eq split: Option.bind_splits)
  obtain k1 where k1: "swap_list_del p k = Some k1" using run by (auto simp: launder_page_def split: Option.bind_splits if_splits)
  note kept = disk_io_kept(1) [OF k1]
  note body = run [unfolded launder_page_def k1 bind.bind_lunit Let_def]
  have "set (disk_io k') \<subseteq> {None} \<and> (page_ref p k = 0 \<longrightarrow> freed)"
  proof (cases "page_ref p k1 = 0")
    case False
    then show ?thesis using body kept io by (auto simp: page_ref_def dest!: disk_io_kept split: Option.bind_splits if_splits)
  next
    case ref: True
    obtain b k2 where k2: "try_free_swap_entry (page_index k1 p) k1 = Some (b, k2)" using body ref by (auto split: Option.bind_splits if_splits)
    note kept2 = disk_io_kept(5) [OF k2]
    note body2 = body [unfolded k2 bind.bind_lunit prod.case]
    show ?thesis
    proof (cases "\<not> b \<and> PageDirty p k2")
      case False
      then show ?thesis using body2 ref kept kept2 io by (auto dest!: disk_io_kept split: Option.bind_splits if_splits)
    next
      case True
      obtain k3 where k3: "swap_duplicate (page_index k1 p) (upd_pg p (clear_flag PG_dirty) k2) = Some k3" using body2 ref True by (auto split: Option.bind_splits if_splits)
      note kept3 = disk_io_kept(6) [OF k3]
      obtain c k4 where k4: "swapfs_write (page_index k1 p) p k3 = Some (c, k4)" using body2 ref True k3 by (auto split: Option.bind_splits if_splits)
      have w4: "c" "\<forall>x\<in>set (disk_io k4). x = None" "phys k4 = phys k3" using w [OF k4] kept3 kept2 kept io by auto
      show ?thesis
        using body2 ref True k3 k4 w4 kept3 kept2 kept by (auto simp: page_ref_def rf dest!: disk_io_kept split: Option.bind_splits if_splits)
    qed
  qed
  then show "set (disk_io k') \<subseteq> {None}" "page_ref p k = 0 \<Longrightarrow> freed" by simp_all
qed

subsection \<open>Contents that must survive\<close>

definition contents_kept :: "vmem \<Rightarrow> vmem \<Rightarrow> bool" where
  "contents_kept k k' \<longleftrightarrow> max_swap_offset k' = max_swap_offset k \<and> (\<forall>off. live k off \<longrightarrow> live k' off \<and> entry_data k' off = entry_data k off)"

lemma contents_kept_trans: "contents_kept k k1 \<Longrightarrow> contents_kept k1 k2 \<Longrightarrow> contents_kept k k2"
  by (simp add: contents_kept_def)

lemma laundered_kept: "laundered k k' \<Longrightarrow> contents_kept k k'"
  using launderedD(3,5,6) by (simp add: contents_kept_def)

lemma shuffled_kept: "shuffled k k' \<Longrightarrow> contents_kept k k'"
  using shuffled_data by (simp add: contents_kept_def shuffled_def)

text \<open>The contents depend on the cache, the frames of its pages and the device.\<close>

lemma entry_data_eqI:
  assumes wf: "swap_wf X Y k" "swap_wf X' Y' k'" and c: "\<And>q. cached k' off q = cached k off q" and f: "\<And>q. cached k off q \<Longrightarrow> frames k' q = frames k q"
    and d: "swap_disk k' off = swap_disk k off"
  shows "entry_data k' off = entry_data k off"
proof (cases "\<exists>q. cached k off q")
  case True
  then obtain q where q: "cached k off q" by blast
  then show ?thesis using entry_data_cached [OF wf(1) q] entry_data_cached [OF wf(2), of off q] c f by simp
next
  case False
  then show ?thesis using entry_data_disk [OF wf(1)] entry_data_disk [OF wf(2)] c d by simp
qed

subsection \<open>A page enters the cache\<close>

lemma entry_freed_ok:
  assumes wf: "swap_wf {} {} k" "swap_wf {} {} k1" and e: "entry_freed k k1" and c: "clean k" "counts_ok k"
  shows "clean k1" "counts_ok k1" "contents_kept k k1"
proof -
  have s: "frames k1 = frames k" "page_index k1 = page_index k" "max_swap_offset k1 = max_swap_offset k" "swap_disk k1 = swap_disk k"
    and mm: "mem_map k1 off = mem_map k off \<or> mem_map k off = 0 \<and> mem_map k1 off = SWAP_UNUSED" 
    and ca: "valid_off k off \<and> mem_map k off \<noteq> 0 \<Longrightarrow> cached k1 off q = cached k off q"
    and sw: "PageSwap q k1 \<Longrightarrow> PageSwap q k" and us: "PageSwap q k1 \<Longrightarrow> user_part (page_at q k1) = user_part (page_at q k)" for off q
    using e unfolding entry_freed_def by blast+
  have cc: "cached k off q \<and> PageDirty q k1 = PageDirty q k \<and> page_ref q k1 = page_ref q k" if "cached k1 off q" for off q
    using that sw [of q] us [of q] s(2) user_part_eqD [of "page_at q k1" "page_at q k"] by (auto simp: cached_def page_ref_def)
  show "clean k1"
    unfolding clean_def s
  proof (intro allI impI)
    fix off q assume h: "valid_off k off \<and> cached k1 off q \<and> \<not> PageDirty q k1 \<and> page_ref q k1 = 0"
    then show "frames k q = swap_disk k off" using cc [of off q] c(1) unfolding clean_def by simp
  qed
  show "counts_ok k1"
    unfolding counts_ok_def s
  proof (intro allI impI)
    fix off assume "valid_off k off"
    then show "mem_map k1 off \<noteq> MAX_SWAP_REF" using mm [of off] c(2) by (auto simp: counts_ok_def)
  qed
  have "live k1 off \<and> entry_data k1 off = entry_data k off" if "live k off" for off
    using that mm [of off] s entry_data_eqI [OF wf, of off] ca by simp
  then show "contents_kept k k1" by (simp add: contents_kept_def s)
qed

lemma put_cache_kept:
  assumes wf: "swap_wf X Y k" "swap_wf X' Y' (put_cache p (entry_of off) k)" and p: "\<not> PageSwap p k" and off: "valid_off k off" "\<not> live k off"
  shows "contents_kept k (put_cache p (entry_of off) k)"
proof -
  let ?k = "put_cache p (entry_of off) k"
  have m: "max_swap_offset k < 2 ^ 24" using wf(1) by (simp add: swap_wf_def cache_ok_def)
  have "entry_data ?k o' = entry_data k o'" if "live k o'" for o'
  proof (rule entry_data_eqI [OF wf])
    have "o' \<noteq> off" using that off(2) by blast
    then have "entry_of off \<noteq> entry_of o'" using entry_of_inj [of off o'] off(1) that m by simp
    then show "cached ?k o' q = cached k o' q" for q
      using put_cache_cached [OF p, of "entry_of off" o' q] p by (auto simp: cached_def)
  qed simp_all
  then show ?thesis by (simp add: contents_kept_def)
qed

lemma swap_page_add_new_ok:
  assumes ok: "swap_ok k" and p: "\<not> PageSwap p k" "p \<notin> free_pages_of (phys k)" "managed_frames (phys k) p 1"
  shows "\<exists>b k'. swap_page_add p 0 k = Some (b, k') \<and> swap_wf (if b then {p} else {}) {} k' \<and> clean k' \<and> counts_ok k' \<and> contents_kept k k' \<and>
    frames k' = frames k \<and> page_ref p k' = page_ref p k \<and> PageSwap p k' = b \<and>
    (b \<longrightarrow> (\<exists>off. valid_off k' off \<and> cached k' off p \<and> mem_map k' off = 0))"
proof -
  have wf: "swap_wf {} {} k" and c: "clean k" "counts_ok k" using ok by (auto simp: swap_ok_def)
  obtain e k1 where k1: "try_alloc_swap_entry k = Some (e, k1)" "swap_wf {} {} k1" "entry_freed k k1"
      "if e = 0 then \<forall>off. valid_off k off \<longrightarrow> mem_map k off \<noteq> SWAP_UNUSED \<and> mem_map k off \<noteq> 0
       else \<exists>off. valid_off k1 off \<and> e = entry_of off \<and> mem_map k1 off = SWAP_UNUSED"
    using try_alloc_swap_entry_ok [OF wf] by blast
  note f = entry_freed_ok [OF wf k1(2,3) c]
  have p1: "\<not> PageSwap p k1" "p \<notin> free_pages_of (phys k1)" "managed_frames (phys k1) p 1" "user_part (page_at p k1) = user_part (page_at p k)" "frames k1 = frames k"
    using k1(3) p managed_layout [of "phys k" "phys k1"] unfolding entry_freed_def by blast+
  have r1: "page_ref p k1 = page_ref p k" using user_part_eqD(1) [OF p1(4)] by (simp add: page_ref_def)
  show ?thesis
  proof (cases "e = 0")
    case True
    then have "swap_page_add p 0 k = Some (False, k1)" using p(1) k1(1) by (simp add: swap_page_add_def)
    then show ?thesis using k1(2) f p1 r1 by auto
  next
    case False
    then obtain off where off: "valid_off k1 off" "e = entry_of off" "mem_map k1 off = SWAP_UNUSED" using k1(4) by auto
    have m: "max_swap_offset k1 < 2 ^ 24" and cok: "cache_ok {} k1" using k1(2) by (simp_all add: swap_wf_def cache_ok_def)
    have so: "swap_offset (entry_of off) k1 = Some off" using swap_offset_entry [OF m] off(1) by simp
    let ?k2 = "upd_pg p (set_flag PG_dirty) (set_map off 0 k1)"
    let ?k' = "put_cache p (entry_of off) ?k2"
    have run: "swap_page_add p 0 k = Some (True, ?k')"
      using p(1) k1(1) False so off(2,3) by (simp add: swap_page_add_def)
    have nc: "\<not> cached k1 off q" for q
    proof
      assume q: "cached k1 off q"
      then obtain o' where "valid_off k1 o'" "page_index k1 q = entry_of o'" "mem_map k1 o' \<noteq> SWAP_UNUSED"
        using cache_okD(5) [OF cok, of q] by (auto simp: cached_def)
      then show False using q off(1,3) entry_of_inj [of o' off] m by (simp add: cached_def)
    qed
    have s2: "PageSwap q ?k2 = PageSwap q k1" "PageActive q ?k2 = PageActive q k1" "cached ?k2 o' q = cached k1 o' q" for q o' by (auto simp: cached_def)
    have wf2: "swap_wf {} {off} ?k2"
    proof -
      have w: "swap_wf {} {off} (set_map off 0 k1)" by (rule swap_wf_set_map [OF k1(2)])
      have "frames_ok ?k2" using frames_ok_user [of "set_map off 0 k1" "set_flag PG_dirty" p] w p1(2,3) by (auto simp: swap_wf_def)
      moreover have "cache_ok {off} ?k2" "lists_ok {} ?k2"
        using cache_ok_cong [of ?k2 "set_map off 0 k1"] lists_ok_cong [of ?k2 "set_map off 0 k1"] s2 w by (simp_all add: swap_wf_def)
      ultimately show ?thesis by (simp add: swap_wf_def)
    qed
    have man: "managed_frames (phys ?k2) p 1" using managed_layout [OF user_change_layout [OF user_changes(3)]] p1(3) by simp
    have np2: "\<not> PageSwap p ?k2" using p1(1) by simp
    have "swap_wf {p} {off} ?k'"
      by (rule put_cache_ok [OF wf2 np2]) (use man nc s2 off(1) p1(2) in \<open>auto simp: user_change_free\<close>)
    moreover have cp: "cached ?k' off p" by (simp add: cached_def)
    moreover have o24: "off < 2 ^ 24" using off(1) m by simp
    ultimately have wf': "swap_wf {p} {} ?k'" using swap_wf_close [of "{p}" off "{}" ?k'] by auto
    have kd: "contents_kept ?k2 ?k'" using put_cache_kept [OF wf2 wf' np2] off(1) by simp
    have "contents_kept k1 ?k2"
    proof -
      have "live k1 o' \<Longrightarrow> o' \<noteq> off" for o' using off(3) by blast
      moreover have "entry_data ?k2 o' = entry_data k1 o'" for o'
        by (simp add: entry_data_def swap_hash_find_def split: option.split)
      ultimately show ?thesis by (auto simp: contents_kept_def)
    qed
    then have kept: "contents_kept k ?k'" using contents_kept_trans f(3) kd by blast
    have cl: "clean ?k'"
      unfolding clean_def
    proof (intro allI impI)
      fix o' q assume h: "valid_off ?k' o' \<and> cached ?k' o' q \<and> \<not> PageDirty q ?k' \<and> page_ref q ?k' = 0"
      then have "q \<noteq> p" by auto
      then show "frames ?k' q = swap_disk ?k' o'"
        using h f(1) unfolding clean_def by (auto simp: cached_def page_ref_def)
    qed
    have "counts_ok ?k'" using f(2) by (auto simp: counts_ok_def)
    moreover have "page_ref p ?k' = page_ref p k" using r1 by (simp add: page_ref_def set_flag_def)
    ultimately show ?thesis
      using run wf' kept cl cp off(1) p1(5) by auto
  qed
qed

end
