(* ===== verification/Swap_Run.thy ===== *)
theory Swap_Run
  imports Swap_Safe
begin

text \<open>
  The swap cache under every sequence of operations: the scans of \<^verbatim>\<open>kswapd\<close>, pages swapped out and in, entries duplicated and
  removed, pages allocated, freed, mapped, unmapped and written.
\<close>

subsection \<open>The scans\<close>

lemma finite_free: "frames_ok k \<Longrightarrow> finite (free_pages_of (phys k))"
proof -
  assume "frames_ok k"
  then have inv: "buddy_inv (phys k)" by (simp add: frames_ok_def)
  have "free_pages_of (phys k) \<subseteq> {..<npage (phys k)}"
  proof
    fix q assume "q \<in> free_pages_of (phys k)"
    then obtain j p where "p \<in> set (free_list (phys k) j)" "q \<in> span p j" unfolding in_free_pages by blast
    then show "q \<in> {..<npage (phys k)}" using valid_blkD(4) [OF wf_heads(1) [OF inv]] by blast
  qed
  then show "finite (free_pages_of (phys k))" using finite_subset by blast
qed

lemma launder_loop_ok:
  assumes "swap_ok k" "distinct ps" "set ps \<subseteq> set (inactive_list k)"
  shows "\<exists>n k'. launder_loop ps c k = Some (c + n, k') \<and> swap_ok k' \<and> laundered k k' \<and> card (free_pages_of (phys k')) = card (free_pages_of (phys k)) + n \<and>
    (set (disk_io k) \<subseteq> {None} \<longrightarrow> (\<forall>p\<in>set ps. page_ref p k = 0 \<longrightarrow> p \<in> free_pages_of (phys k')))"
  using assms
proof (induction ps arbitrary: c k)
  case Nil
  then show ?case by (auto simp: laundered_def)
next
  case (Cons p ps)
  have wf: "swap_wf {} {} k" using Cons.prems(1) by (simp add: swap_ok_def)
  have ps: "PageSwap q k" if "q \<in> set (p # ps)" for q using that Cons.prems(3) wf by (auto simp: swap_wf_def lists_ok_def)
  have pf: "p \<notin> free_pages_of (phys k)" using swap_wf_page(1) [OF wf] ps by simp
  obtain b k1 where k1: "launder_page p k = Some (b, k1)" "launder_post p k b k1"
    using launder_page_ok [OF Cons.prems(1), of p] Cons.prems(3) by auto
  have sub: "set ps \<subseteq> set (inactive_list k1)" using k1(2) Cons.prems(2,3) by (auto simp: launder_post_def)
  have ok1: "swap_ok k1" and l1: "laundered k k1" and f1: "free_pages_of (phys k1) = (if b then insert p (free_pages_of (phys k)) else free_pages_of (phys k))"
    using k1(2) by (auto simp: launder_post_def)
  obtain n k' where k': "launder_loop ps (if b then c + 1 else c) k1 = Some ((if b then c + 1 else c) + n, k')" "swap_ok k'" "laundered k1 k'"
      "card (free_pages_of (phys k')) = card (free_pages_of (phys k1)) + n"
      "set (disk_io k1) \<subseteq> {None} \<longrightarrow> (\<forall>p\<in>set ps. page_ref p k1 = 0 \<longrightarrow> p \<in> free_pages_of (phys k'))"
    using Cons.IH [OF ok1 _ sub, of "if b then c + 1 else c"] Cons.prems(2) by auto
  have "card (free_pages_of (phys k1)) = card (free_pages_of (phys k)) + (if b then 1 else 0)"
    using f1 pf finite_free [of k] wf by (simp add: swap_wf_def)
  then have card: "card (free_pages_of (phys k')) = card (free_pages_of (phys k)) + ((if b then 1 else 0) + n)" using k'(4) by simp
  have fr: "q \<in> free_pages_of (phys k')" if io: "set (disk_io k) \<subseteq> {None}" and q: "q \<in> set (p # ps)" "page_ref q k = 0" for q
  proof -
    note f = launder_page_frees [OF k1(1) io]
    show ?thesis
    proof (cases "q = p")
      case True
      then have "q \<in> free_pages_of (phys k1)" using f(2) q(2) f1 by simp
      then show ?thesis using launderedD(12) [OF k'(3)] by blast
    next
      case False
      then have "q \<in> set ps" using q(1) by simp
      moreover have "page_ref q k1 = 0"
      proof -
        have "PageSwap q k1" using \<open>q \<in> set ps\<close> sub ok1 by (auto simp: swap_ok_def swap_wf_def lists_ok_def)
        from launderedD(9) [OF l1 this] q(2) show ?thesis by simp
      qed
      ultimately show ?thesis using k'(5) f(1) by blast
    qed
  qed
  have run: "launder_loop (p # ps) c k = Some (c + ((if b then 1 else 0) + n), k')" using k1(1) k'(1) by simp
  show ?case
    using run k'(2) laundered_trans [OF l1 k'(3)] card fr by (intro exI [of _ "(if b then 1 else 0) + n"] exI [of _ k']) blast
qed

lemma list_lengths:
  assumes "swap_wf X Y k"
  shows "take (unat (nr_inactive_pages k)) (inactive_list k) = inactive_list k" "take (unat (nr_active_pages k)) (active_list k) = active_list k"
proof -
  have n: "npage (phys k) < 2 ^ 32" using assms by (simp add: swap_wf_def frames_ok_def)
  have "length xs < 2 ^ 32" if "distinct xs" "set xs \<subseteq> {p. PageSwap p k}" for xs
  proof -
    have "set xs \<subseteq> {..<npage (phys k)}" using that(2) swap_wf_page(3) [OF assms] by blast
    then have "card (set xs) \<le> npage (phys k)" using card_mono [of "{..<npage (phys k)}" "set xs"] by simp
    then show ?thesis using n distinct_card [OF that(1)] by simp
  qed
  then have "length (active_list k) < 2 ^ 32" "length (inactive_list k) < 2 ^ 32" using assms by (auto simp: swap_wf_def lists_ok_def)
  then have "unat (nr_inactive_pages k) = length (inactive_list k)" "unat (nr_active_pages k) = length (active_list k)"
    using assms by (simp_all add: swap_wf_def lists_ok_def unat_of_nat take_bit_nat_eq_self_iff)
  then show "take (unat (nr_inactive_pages k)) (inactive_list k) = inactive_list k" "take (unat (nr_active_pages k)) (active_list k) = active_list k"
    by simp_all
qed

lemma page_launder_ok:
  assumes ok: "swap_ok k"
  shows "\<exists>n k'. page_launder k = Some (n, k') \<and> swap_ok k' \<and> laundered k k' \<and> card (free_pages_of (phys k')) = card (free_pages_of (phys k)) + n \<and>
    (set (disk_io k) \<subseteq> {None} \<longrightarrow> (\<forall>p\<in>set (inactive_list k). page_ref p k = 0 \<longrightarrow> p \<in> free_pages_of (phys k')))"
proof -
  have wf: "swap_wf {} {} k" using ok by (simp add: swap_ok_def)
  then have d: "distinct (inactive_list k)" by (simp add: swap_wf_def lists_ok_def)
  show ?thesis
    using launder_loop_ok [OF ok d, of 0] by (simp add: page_launder_def list_lengths [OF wf])
qed

lemma refill_loop_ok:
  assumes "swap_ok k" "distinct ps" "set ps \<subseteq> set (active_list k)"
  shows "\<exists>k'. refill_loop ps k = Some k' \<and> swap_ok k' \<and> shuffled k k' \<and>
    set (active_list k') = set (active_list k) - {p \<in> set ps. page_ref p k = 0} \<and> set (inactive_list k') = set (inactive_list k) \<union> {p \<in> set ps. page_ref p k = 0}"
  using assms
proof (induction ps arbitrary: k)
  case Nil
  then show ?case by (auto simp: shuffled_def)
next
  case (Cons p ps)
  have wf: "swap_wf {} {} k" and c: "clean k" "counts_ok k" using Cons.prems(1) by (auto simp: swap_ok_def)
  have ps: "PageSwap p k" "PageActive p k" using Cons.prems(3) wf by (auto simp: swap_wf_def lists_ok_def)
  show ?case
  proof (cases "page_ref p k = 0")
    case False
    have "distinct ps" "set ps \<subseteq> set (active_list k)" using Cons.prems by auto
    from Cons.IH [OF Cons.prems(1) this] False ps show ?thesis by auto
  next
    case True
    have da: "distinct (active_list k)" using wf by (simp add: swap_wf_def lists_ok_def)
    have pi: "p \<notin> set (inactive_list k)" using wf ps by (simp add: swap_wf_def lists_ok_def)
    obtain k1 where k1: "swap_list_del p k = Some k1" "swap_wf {p} {} k1" "shuffled k k1" "phys k1 = phys k"
        "active_list k1 = remove1 p (active_list k)" "inactive_list k1 = remove1 p (inactive_list k)"
      using swap_list_del_ok [OF wf ps(1)] by auto
    have ps1: "PageSwap p k1" using ps k1(4) by simp
    obtain k2 where k2: "swap_inactive_list_add p k1 = Some k2" "swap_wf {} {} k2" "shuffled k1 k2" "active_list k2 = active_list k1" "inactive_list k2 = inactive_list k1 @ [p]"
      using list_add_ok(2) [OF k1(2) ps1] by auto
    have s: "shuffled k k2" by (rule shuffled_trans [OF k1(3) k2(3)])
    have ok2: "swap_ok k2" using k2(2) shuffled_clean [OF s c(1)] shuffled_counts [OF s] c(2) by (simp add: swap_ok_def)
    have l2: "set (active_list k2) = set (active_list k) - {p}" "set (inactive_list k2) = insert p (set (inactive_list k))"
      using k1(5,6) k2(4,5) da pi by (auto simp: remove1_idem)
    have sub: "set ps \<subseteq> set (active_list k2)" using Cons.prems(2,3) l2 by auto
    obtain k' where k': "refill_loop ps k2 = Some k'" "swap_ok k'" "shuffled k2 k'" "set (active_list k') = set (active_list k2) - {p \<in> set ps. page_ref p k2 = 0}"
        "set (inactive_list k') = set (inactive_list k2) \<union> {p \<in> set ps. page_ref p k2 = 0}"
      using Cons.IH [OF ok2 _ sub] Cons.prems(2) by auto
    have rf: "page_ref q k2 = page_ref q k" for q using s by (simp add: shuffled_def)
    show ?thesis
      using k1(1) k2(1) k'(1,2) ps True shuffled_trans [OF s k'(3)] k'(4,5) l2 rf by auto
  qed
qed

lemma refill_inactive_scan_ok:
  assumes ok: "swap_ok k"
  shows "\<exists>k'. refill_inactive_scan k = Some k' \<and> swap_ok k' \<and> shuffled k k' \<and>
    set (active_list k') = {p \<in> set (active_list k). page_ref p k \<noteq> 0} \<and> set (inactive_list k') = set (inactive_list k) \<union> {p \<in> set (active_list k). page_ref p k = 0}"
proof -
  have wf: "swap_wf {} {} k" using ok by (simp add: swap_ok_def)
  then have d: "distinct (active_list k)" by (simp add: swap_wf_def lists_ok_def)
  obtain k' where k': "refill_loop (active_list k) k = Some k'" "swap_ok k'" "shuffled k k'" "set (active_list k') = set (active_list k) - {p \<in> set (active_list k). page_ref p k = 0}"
      "set (inactive_list k') = set (inactive_list k) \<union> {p \<in> set (active_list k). page_ref p k = 0}"
    using refill_loop_ok [OF ok d] by blast
  then show ?thesis
    by (auto simp: refill_inactive_scan_def list_lengths [OF wf])
qed

subsection \<open>Counting references to entries\<close>

lemma data_map [simp]: "entry_data (set_map off v k) o' = entry_data k o'"
  by (simp add: entry_data_def swap_hash_find_def split: option.split)

lemma clean_map [simp]: "clean (set_map off v k) = clean k"
  by (simp add: clean_def cached_def page_ref_def)

lemma swap_max: "swap_wf X Y k \<Longrightarrow> max_swap_offset k < 2 ^ 24"
  by (simp add: swap_wf_def cache_ok_def)

lemma swap_offset_valid: "swap_wf X Y k \<Longrightarrow> valid_off k off \<Longrightarrow> swap_offset (entry_of off) k = Some off"
  using swap_offset_entry [of k off] swap_max [of X Y k] by simp

lemma recount_ok:
  assumes ok: "swap_ok k" and off: "valid_off k off" and v: "v \<noteq> SWAP_UNUSED" "v \<noteq> MAX_SWAP_REF" "v = 0 \<Longrightarrow> \<exists>p. cached k off p"
  shows "swap_ok (set_map off v k)"
proof -
  have wf: "swap_wf {} {} k" and c: "clean k" "counts_ok k" using ok by (auto simp: swap_ok_def)
  have "off < 2 ^ 24" using off swap_max [OF wf] by simp
  then have "swap_wf {} {} (set_map off v k)" by (rule swap_wf_recount [OF wf _ v(1,3)])
  moreover have "counts_ok (set_map off v k)" using c(2) v(2) by (simp add: counts_ok_def)
  ultimately show ?thesis using c(1) by (simp add: swap_ok_def)
qed

lemma succ_count:
  fixes v :: u16
  assumes "v \<noteq> SWAP_UNUSED" "v \<noteq> MAX_SWAP_REF"
  shows "v + 1 \<noteq> SWAP_UNUSED" "v + 1 \<noteq> 0" "v < MAX_SWAP_REF"
proof -
  show "v < MAX_SWAP_REF" using below_max [OF assms] .
  have e: "v + 1 = c \<longleftrightarrow> v = c - 1" for c by (rule eq_diff_eq [symmetric])
  have "SWAP_UNUSED - 1 = MAX_SWAP_REF" "(0 :: u16) - 1 = SWAP_UNUSED" by simp_all
  then show "v + 1 \<noteq> SWAP_UNUSED" "v + 1 \<noteq> 0" using assms e [of SWAP_UNUSED] e [of 0] by argo+
qed

lemma swap_duplicate_ok:
  assumes ok: "swap_ok k" and off: "valid_off k off" "mem_map k off \<noteq> SWAP_UNUSED" "mem_map k off + 1 \<noteq> MAX_SWAP_REF"
  shows "swap_duplicate (entry_of off) k = Some (set_map off (mem_map k off + 1) k)" "swap_ok (set_map off (mem_map k off + 1) k)"
    "contents_kept k (set_map off (mem_map k off + 1) k)" "live (set_map off (mem_map k off + 1) k) off"
proof -
  have wf: "swap_wf {} {} k" and c: "counts_ok k" using ok by (auto simp: swap_ok_def)
  have m: "mem_map k off \<noteq> MAX_SWAP_REF" using c off(1) by (simp add: counts_ok_def)
  note s = succ_count [OF off(2) m]
  show "swap_duplicate (entry_of off) k = Some (set_map off (mem_map k off + 1) k)"
    using swap_offset_valid [OF wf off(1)] s(3) by (simp add: swap_duplicate_def)
  show "swap_ok (set_map off (mem_map k off + 1) k)" using recount_ok [OF ok off(1) s(1) off(3)] s(2) by blast
  show "contents_kept k (set_map off (mem_map k off + 1) k)" "live (set_map off (mem_map k off + 1) k) off"
    using s off(1) by (auto simp: contents_kept_def)
qed

text \<open>Removing a reference: what other entries hold is kept, and what this one holds when it was not the last reference.\<close>

definition kept_but :: "nat \<Rightarrow> vmem \<Rightarrow> vmem \<Rightarrow> bool" where
  "kept_but off k k' \<longleftrightarrow> max_swap_offset k' = max_swap_offset k \<and> (\<forall>o'. o' \<noteq> off \<and> live k o' \<longrightarrow> live k' o' \<and> entry_data k' o' = entry_data k o')"

lemma kept_but_trans: "kept_but off k k1 \<Longrightarrow> kept_but off k1 k2 \<Longrightarrow> kept_but off k k2"
  by (simp add: kept_but_def)

lemma kept_kept_but: "contents_kept k k' \<Longrightarrow> kept_but off k k'"
  by (simp add: contents_kept_def kept_but_def)

lemma unused_ok:
  assumes wf: "swap_wf {} {off} k" and n: "\<And>p. \<not> cached k off p" and c: "clean k" "counts_ok k" and off: "off < 2 ^ 24"
  shows "swap_ok (set_map off SWAP_UNUSED k)"
proof -
  have "swap_wf {} {off} (set_map off SWAP_UNUSED k)" using swap_wf_set_map [OF wf, of off SWAP_UNUSED] by simp
  moreover have "\<not> cached (set_map off SWAP_UNUSED k) off p" for p using n [of p] by (simp add: cached_def)
  ultimately have "swap_wf {} {} (set_map off SWAP_UNUSED k)" using swap_wf_close [of "{}" off "{}" "set_map off SWAP_UNUSED k"] off by simp
  then show ?thesis using c by (simp add: swap_ok_def counts_ok_def)
qed

lemma swap_remove_entry_ok:
  assumes ok: "swap_ok k" and off: "live k off"
  shows "\<exists>k'. swap_remove_entry (entry_of off) k = Some k' \<and> swap_ok k' \<and> kept_but off k k' \<and> same_layout (phys k) (phys k') \<and>
    free_pages_of (phys k') = free_pages_of (phys k) \<union> (if mem_map k off = 1 then {q. cached k off q \<and> page_ref q k = 0} else {}) \<and>
    (\<forall>q. PageSwap q k' \<longleftrightarrow> PageSwap q k \<and> q \<notin> free_pages_of (phys k')) \<and>
    (if mem_map k off = 1 then mem_map k' off \<in> {0, SWAP_UNUSED} else mem_map k' off = mem_map k off - 1 \<and> live k' off \<and> entry_data k' off = entry_data k off)"
proof -
  have wf: "swap_wf {} {} k" and c: "clean k" "counts_ok k" using ok by (auto simp: swap_ok_def)
  have o24: "off < 2 ^ 24" using off swap_max [OF wf] by simp
  have so: "swap_offset (entry_of off) k = Some off" using swap_offset_valid [OF wf] off by blast
  have pos: "mem_map k off > 0" using off by (simp add: word_neq_0_conv)
  let ?v = "mem_map k off - 1"
  have v: "?v \<noteq> SWAP_UNUSED" "?v \<noteq> MAX_SWAP_REF"
  proof -
    have e: "?v = c \<longleftrightarrow> mem_map k off = c + 1" for c by (rule diff_eq_eq)
    have "SWAP_UNUSED + 1 = (0 :: u16)" "MAX_SWAP_REF + 1 = SWAP_UNUSED" by simp_all
    then show "?v \<noteq> SWAP_UNUSED" "?v \<noteq> MAX_SWAP_REF" using off e [of SWAP_UNUSED] e [of MAX_SWAP_REF] by argo+
  qed
  have one: "?v = 0 \<longleftrightarrow> mem_map k off = 1" by simp
  have nf: "q \<notin> free_pages_of (phys k)" if "PageSwap q k" for q using swap_wf_page(1) [OF wf that] .
  let ?k1 = "set_map off ?v k"
  show ?thesis
  proof (cases "mem_map k off = 1")
    case False
    have "swap_remove_entry (entry_of off) k = Some ?k1" using so pos False by (simp add: swap_remove_entry_def)
    moreover have "swap_ok ?k1" using recount_ok [OF ok _ v] off False by auto
    ultimately show ?thesis using off v False one nf by (auto simp: kept_but_def)
  next
    case True
    then have v0: "?v = 0" by simp
    have find: "swap_hash_find (entry_of off) ?k1 = swap_hash_find (entry_of off) k" by (simp add: swap_hash_find_def)
    have ck: "cache_ok {} k" using wf by (simp add: swap_wf_def)
    show ?thesis
    proof (cases "\<exists>p. cached k off p")
      case False
      have fn: "swap_hash_find (entry_of off) ?k1 = None" using swap_hash_find_None [OF ck] False find by simp
      have "swap_remove_entry (entry_of off) k = Some (set_map off SWAP_UNUSED k)"
        using so pos v0 fn by (simp add: swap_remove_entry_def)
      moreover have "swap_ok (set_map off SWAP_UNUSED k)" using unused_ok [OF swap_wf_mono [OF wf] _ c o24] False by auto
      ultimately show ?thesis using True False nf by (auto simp: kept_but_def)
    next
      case ex: True
      then obtain p where p: "cached k off p" by blast
      have fp: "swap_hash_find (entry_of off) ?k1 = Some p" using swap_hash_find_iff [OF ck] p find by simp
      have only: "q = p" if "cached k off q" for q using cached_unique [OF ck p that] by simp
      have ok1: "swap_ok ?k1" using recount_ok [OF ok _ v] off ex by blast
      show ?thesis
      proof (cases "page_ref p k = 0")
        case False
        have "swap_remove_entry (entry_of off) k = Some ?k1" using so pos v0 fp False by (simp add: swap_remove_entry_def page_ref_def)
        moreover have "{q. cached k off q \<and> page_ref q k = 0} = {}" using False by (auto dest: only)
        ultimately show ?thesis using ok1 True nf by (auto simp: kept_but_def)
      next
        case ref: True
        have wf1: "swap_wf {} {} ?k1" using ok1 by (simp add: swap_ok_def)
        have p1: "cached ?k1 off p" "PageSwap p ?k1" using p by (simp_all add: cached_def)
        obtain k2 where k2: "swap_list_del p ?k1 = Some k2" "swap_wf {p} {} k2" "shuffled ?k1 k2"
          using swap_list_del_ok [OF wf1 p1(2)] by auto
        have p2: "cached k2 off p" "page_ref p k2 = 0" "valid_off k2 off" "mem_map k2 = (mem_map k)(off := ?v)"
          using shuffled_cached [OF k2(3)] p1(1) k2(3) ref off by (auto simp: shuffled_def page_ref_def)
        obtain k3 where k3: "swap_free_page p k2 = Some k3" "swap_wf {} {off} k3" "left_cache p k2 k3" "free_pages_of (phys k3) = insert p (free_pages_of (phys k2))"
          using swap_free_page_ok [OF swap_wf_mono [OF k2(2)] p2(1) _ _ p2(2,3), of "{off}"] by auto
        have nc: "\<not> cached k3 off q" for q
          using left_cacheD(5) [OF k3(3), of q off] k3(3) cached_unique [of "{}" k2 off p q] p2(1) k2(2)
          by (cases "q = p") (auto simp: left_cache_def cached_def swap_wf_def)
        have c3: "clean k3" "counts_ok k3"
          using left_cache_clean [OF k3(3)] left_cache_counts [OF k3(3)] shuffled_clean [OF k2(3)] shuffled_counts [OF k2(3)] ok1 by (simp_all add: swap_ok_def)
        let ?k' = "set_map off SWAP_UNUSED k3"
        have run: "swap_remove_entry (entry_of off) k = Some ?k'"
          using so pos v0 fp ref k2(1) k3(1) by (simp add: swap_remove_entry_def page_ref_def)
        have "kept_but off k2 k3"
        proof -
          have "entry_data k3 o' = entry_data k2 o'" if "o' \<noteq> off" "valid_off k2 o'" for o'
            using left_cache_data [OF k2(2) k3(2,3) p2(1,3) that(2)] that(1) by simp
          then show ?thesis using k3(3) by (auto simp: kept_but_def left_cache_def)
        qed
        moreover have "kept_but off k ?k1" "kept_but off k3 ?k'" by (auto simp: kept_but_def)
        moreover have "kept_but off ?k1 k2" by (rule kept_kept_but [OF shuffled_kept [OF k2(3)]])
        ultimately have "kept_but off k ?k'" using kept_but_trans by blast
        moreover have "same_layout (phys k) (phys ?k')" "free_pages_of (phys ?k') = insert p (free_pages_of (phys k))"
          using k2(3) k3(3,4) same_layout_trans by (auto simp: shuffled_def left_cache_def)
        moreover have "{q. cached k off q \<and> page_ref q k = 0} = {p}" using p ref by (auto dest: only)
        moreover have "PageSwap q ?k' \<longleftrightarrow> PageSwap q k \<and> q \<notin> insert p (free_pages_of (phys k))" for q
        proof (cases "q = p")
          case False
          have "PageSwap q k2 = PageSwap q k" using k2(3) by (simp add: shuffled_def)
          then show ?thesis using left_cacheD(1) [OF k3(3) False] nf [of q] False by auto
        qed (use k3(3) in \<open>simp add: left_cache_def\<close>)
        ultimately show ?thesis using run unused_ok [OF k3(2) nc c3 o24] True by simp
      qed
    qed
  qed
qed

subsection \<open>Pages of the users\<close>

text \<open>A page that was allocated and is not in the cache.\<close>

definition in_use :: "nat \<Rightarrow> vmem \<Rightarrow> bool" where
  "in_use p k \<longleftrightarrow> \<not> PageSwap p k \<and> p \<notin> free_pages_of (phys k) \<and> managed_frames (phys k) p 1"

lemma same_cache_ok:
  assumes ok: "swap_ok k" and f: "frames_ok k'" and e: "\<And>q. PageSwap q k' = PageSwap q k" "page_index k' = page_index k" "max_swap_offset k' = max_swap_offset k" "next_entry k' = next_entry k"
    "mem_map k' = mem_map k" "entry_list k' = entry_list k" "active_list k' = active_list k" "inactive_list k' = inactive_list k" "nr_active_pages k' = nr_active_pages k"
    "nr_inactive_pages k' = nr_inactive_pages k" "swap_disk k' = swap_disk k"
    and a: "\<And>q. PageSwap q k \<Longrightarrow> PageActive q k' = PageActive q k"
    and c: "\<And>q off. cached k off q \<Longrightarrow> valid_off k off \<Longrightarrow> \<not> PageDirty q k' \<Longrightarrow> page_ref q k' = 0 \<Longrightarrow> frames k' q = swap_disk k off"
    and l: "\<And>q off. cached k off q \<Longrightarrow> live k off \<Longrightarrow> frames k' q = frames k q"
  shows "swap_ok k'" "contents_kept k k'"
proof -
  have wf: "swap_wf {} {} k" and co: "counts_ok k" using ok by (auto simp: swap_ok_def)
  have cc: "cached k' off q = cached k off q" for off q using e by (simp add: cached_def)
  have "lists_ok {} k'"
  proof -
    have "{q. PageSwap q k' \<and> PageActive q k' \<and> q \<notin> {}} = {q. PageSwap q k \<and> PageActive q k \<and> q \<notin> {}}"
      "{q. PageSwap q k' \<and> \<not> PageActive q k' \<and> q \<notin> {}} = {q. PageSwap q k \<and> \<not> PageActive q k \<and> q \<notin> {}}" using e(1) a by blast+
    then show ?thesis using wf unfolding swap_wf_def lists_ok_def e by simp
  qed
  moreover have "cache_ok {} k'" using cache_ok_cong [of k' k "{}"] e wf by (simp add: swap_wf_def)
  ultimately have wf': "swap_wf {} {} k'" using f by (simp add: swap_wf_def)
  moreover have "clean k'" using c unfolding clean_def cc e by blast
  moreover have "counts_ok k'" using co e by (simp add: counts_ok_def)
  ultimately show "swap_ok k'" by (simp add: swap_ok_def)
  have "entry_data k' off = entry_data k off" if "live k off" for off
    by (rule entry_data_eqI [OF wf wf' cc]) (use l that e in auto)
  then show "contents_kept k k'" using e by (simp add: contents_kept_def)
qed

lemma alloc_one_ok:
  assumes ok: "swap_ok k"
  shows "\<exists>r b. buddy_alloc_pages 1 (phys k) = Some (r, b) \<and> swap_ok (k\<lparr>phys := b\<rparr>) \<and> contents_kept k (k\<lparr>phys := b\<rparr>) \<and>
    (\<forall>p. r = Some p \<longrightarrow> in_use p (k\<lparr>phys := b\<rparr>) \<and> page_ref p (k\<lparr>phys := b\<rparr>) = 0) \<and> (\<forall>q. cached (k\<lparr>phys := b\<rparr>) = cached k)"
proof -
  have wf: "swap_wf {} {} k" and cl: "clean k" using ok by (auto simp: swap_ok_def)
  then have f: "frames_ok k" by (simp add: swap_wf_def)
  then have inv: "buddy_inv (phys k)" by (simp add: frames_ok_def)
  have n1: "0 < (1::nat)" "(1::nat) \<le> 2 ^ MAX_ORDER" by simp_all
  show ?thesis
  proof (rule buddy_alloc_pages_cases [OF inv n1])
    fix order assume "buddy_alloc_pages 1 (phys k) = Some (None, phys k)"
    then show ?thesis using ok by (auto simp: contents_kept_def)
  next
    fix order p b
    assume b: "buddy_alloc_pages 1 (phys k) = Some (Some p, b)" "buddy_inv b" "same_layout (phys k) b" "valid_blk (phys k) (zone_num (page_at p k)) p order"
      "{p..<p + 1} \<subseteq> free_pages_of (phys k)" "free_pages_of b = free_pages_of (phys k) - {p..<p + 1}"
    let ?k' = "k\<lparr>phys := b\<rparr>"
    have u: "user_part (page_at q ?k') = user_part (page_at q k)" for q using buddy_alloc_user [OF b(1)] by simp
    note ue = user_part_eqD [OF u]
    have man: "managed_frames b q 1 = managed_frames (phys k) q 1" for q by (rule managed_layout [OF b(3)])
    have f': "frames_ok ?k'" using f b(2,3,6) u ue man by (auto simp: frames_ok_def same_layout_def)
    have rf: "page_ref q ?k' = page_ref q k" for q using ue(1) by (simp add: page_ref_def)
    have c': "frames ?k' q = swap_disk k off" if "cached k off q" "valid_off k off" "\<not> PageDirty q ?k'" "page_ref q ?k' = 0" for q off
    proof -
      have "\<not> PageDirty q k" "page_ref q k = 0" using that(3,4) unfolding ue(4) rf by simp_all
      then show ?thesis using cl that(1,2) unfolding clean_def by simp
    qed
    have "swap_ok ?k'" by (rule same_cache_ok(1) [OF ok f' ue(2) _ _ _ _ _ _ _ _ _ _ ue(3) c']) simp_all
    moreover have "contents_kept k ?k'" by (rule same_cache_ok(2) [OF ok f' ue(2) _ _ _ _ _ _ _ _ _ _ ue(3) c']) simp_all
    moreover have "in_use p ?k'"
    proof -
      have pf: "p \<in> free_pages_of (phys k)" using b(5) by auto
      then have "\<not> PageSwap p k" using swap_wf_page(1) [OF wf] by blast
      moreover have "region (phys k) (zone_num (page_at p k)) p 1"
      proof -
        have "region (phys k) (zone_num (page_at p k)) p (2 ^ order)" using b(4) by (simp add: valid_blk_def)
        moreover have "{p..<p + 1} \<subseteq> {p..<p + 2 ^ order}" by simp
        ultimately show ?thesis unfolding region_def by blast
      qed
      ultimately show ?thesis using b(6) ue(2) man by (auto simp: in_use_def managed_frames_def)
    qed
    moreover have "page_ref p ?k' = 0"
    proof -
      have "user_part (page_at p k) = (0, 0)" using f b(5) by (auto simp: frames_ok_def)
      then show ?thesis using rf [of p] by (simp add: page_ref_def user_part_def)
    qed
    moreover have "cached ?k' = cached k" using ue(2) by (auto simp: cached_def fun_eq_iff)
    ultimately show ?thesis using b(1) by auto
  qed
qed

lemma free_one_ok:
  assumes ok: "swap_ok k" and p: "in_use p k"
  shows "\<exists>k'. free_page p k = Some k' \<and> swap_ok k' \<and> contents_kept k k' \<and> frames k' = frames k \<and> cached k' = cached k \<and> free_pages_of (phys k') = insert p (free_pages_of (phys k)) \<and> same_layout (phys k) (phys k')"
proof -
  have wf: "swap_wf {} {} k" and cl: "clean k" "counts_ok k" using ok by (auto simp: swap_ok_def)
  obtain k' where k': "free_page p k = Some k'" "swap_wf {} {} k'" "left_cache p k k'" "free_pages_of (phys k') = insert p (free_pages_of (phys k))"
    using free_page_ok [OF wf] p by (auto simp: in_use_def)
  have ca: "cached k' off q = cached k off q" for off q
    using left_cacheD(5) [OF k'(3), of q off] p k'(3) by (cases "q = p") (auto simp: in_use_def cached_def left_cache_def)
  have e: "frames k' = frames k" "swap_disk k' = swap_disk k" "mem_map k' = mem_map k" "max_swap_offset k' = max_swap_offset k" using k'(3) by (simp_all add: left_cache_def)
  have "entry_data k' off = entry_data k off" for off by (rule entry_data_eqI [OF wf k'(2) ca]) (simp_all add: e)
  moreover have "swap_ok k'" using k'(2) left_cache_clean [OF k'(3) cl(1)] left_cache_counts [OF k'(3)] cl(2) by (simp add: swap_ok_def)
  moreover have "same_layout (phys k) (phys k')" using k'(3) by (simp add: left_cache_def)
  ultimately show ?thesis using k'(1,4) e ca by (auto simp: contents_kept_def fun_eq_iff)
qed

text \<open>Changes of the count of a page, with the flag \<^verbatim>\<open>PG_dirty\<close> and new contents.\<close>

lemma user_update_ok:
  assumes ok: "swap_ok k" and p: "p \<notin> free_pages_of (phys k)" "PageSwap p k \<Longrightarrow> managed_frames (phys k) p 1" and f: "user_change f"
    "test_flag PG_swap (f (page_at p k)) = PageSwap p k" "test_flag PG_active (f (page_at p k)) = PageActive p k"
    and c: "\<And>off. cached k off p \<Longrightarrow> valid_off k off \<Longrightarrow> \<not> test_flag PG_dirty (f (page_at p k)) \<Longrightarrow> ref (f (page_at p k)) = 0 \<Longrightarrow> w = swap_disk k off"
    and l: "\<And>off. cached k off p \<Longrightarrow> live k off \<Longrightarrow> w = frames k p"
  shows "swap_ok (k\<lparr>phys := upd_page p f (phys k), frames := (frames k)(p := w)\<rparr>)" "contents_kept k (k\<lparr>phys := upd_page p f (phys k), frames := (frames k)(p := w)\<rparr>)"
proof -
  let ?k' = "k\<lparr>phys := upd_page p f (phys k), frames := (frames k)(p := w)\<rparr>"
  have wf: "swap_wf {} {} k" and cl: "clean k" using ok by (auto simp: swap_ok_def)
  have "frames_ok (upd_pg p f k)" using frames_ok_user [OF _ f(1) p(1)] p(2) f(2) wf by (simp add: swap_wf_def)
  then have fo: "frames_ok ?k'" using frames_ok_cong [of ?k' "upd_pg p f k"] by simp
  have cq: "frames ?k' q = swap_disk k off" if "cached k off q" "valid_off k off" "\<not> PageDirty q ?k'" "page_ref q ?k' = 0" for q off
    using that c cl unfolding clean_def by (cases "q = p") (auto simp: page_ref_def)
  have s: "PageSwap q ?k' = PageSwap q k" "PageActive q ?k' = PageActive q k" for q using f(2,3) by auto
  have lq: "frames ?k' q = frames k q" if "cached k off q" "live k off" for q off using l that by (cases "q = p") auto
  show "swap_ok ?k'" by (rule same_cache_ok(1) [OF ok fo _ _ _ _ _ _ _ _ _ _ _ _ cq lq]) (simp_all only: s, simp_all)
  show "contents_kept k ?k'" by (rule same_cache_ok(2) [OF ok fo _ _ _ _ _ _ _ _ _ _ _ _ cq lq]) (simp_all only: s, simp_all)
qed

subsection \<open>Swapping in and out\<close>

lemma swap_in_read_ok:
  assumes ok: "swap_ok k" and off: "live k off" "\<And>q. \<not> cached k off q" and p: "in_use p k" and io: "next_io k = None"
  shows "\<exists>k2 k'. swapfs_read (entry_of off) p k = Some (True, k2) \<and> swap_page_add p (entry_of off) k2 = Some (True, put_cache p (entry_of off) k2) \<and>
    swap_active_list_add p (put_cache p (entry_of off) k2) = Some k' \<and> swap_ok k' \<and> contents_kept k k' \<and> cached k' off p \<and> frames k' p = entry_data k off \<and> page_ref p k' = page_ref p k"
proof -
  have wf: "swap_wf {} {} k" and c: "clean k" "counts_ok k" using ok by (auto simp: swap_ok_def)
  have o24: "off < 2 ^ 24" using off(1) swap_max [OF wf] by simp
  have so: "swap_offset (entry_of off) k = Some off" using swap_offset_valid [OF wf] off(1) by blast
  have e0: "entry_of off \<noteq> 0" using entry_of_0 [OF o24] off(1) by simp
  have np: "\<not> PageSwap p k" using p by (simp add: in_use_def)
  let ?k2 = "k\<lparr>disk_io := tl (disk_io k), frames := (frames k)(p := swap_disk k off)\<rparr>"
  have rd: "swapfs_read (entry_of off) p k = Some (True, ?k2)" using so io by (simp add: swapfs_read_def io_result_eq)
  have ncp: "\<not> cached k o' p" for o' using np by (simp add: cached_def)
  have fo: "frames_ok ?k2" using frames_ok_cong [of ?k2 k] wf by (simp add: swap_wf_def)
  have cq: "frames ?k2 q = swap_disk k o'" if "cached k o' q" "valid_off k o'" "\<not> PageDirty q ?k2" "page_ref q ?k2 = 0" for q o'
    using that ncp [of o'] c(1) unfolding clean_def by (cases "q = p") (auto simp: page_ref_def)
  have lq: "frames ?k2 q = frames k q" if "cached k o' q" "live k o'" for q o' using that ncp [of o'] by (cases "q = p") auto
  have ok2: "swap_ok ?k2" by (rule same_cache_ok(1) [OF ok fo _ _ _ _ _ _ _ _ _ _ _ _ cq lq]) simp_all
  have kept2: "contents_kept k ?k2" by (rule same_cache_ok(2) [OF ok fo _ _ _ _ _ _ _ _ _ _ _ _ cq lq]) simp_all
  have wf2: "swap_wf {} {} ?k2" and c2: "clean ?k2" "counts_ok ?k2" using ok2 by (auto simp: swap_ok_def)
  let ?k3 = "put_cache p (entry_of off) ?k2"
  have nc2: "\<not> cached ?k2 off q" for q using off(2) [of q] by (simp add: cached_def)
  have np2: "\<not> PageSwap p ?k2" using np by simp
  have wf3: "swap_wf {p} {off} ?k3"
    by (rule put_cache_ok [OF swap_wf_mono [OF wf2] np2 _ _ _ _ nc2]) (use p off(1) in \<open>auto simp: in_use_def\<close>)
  have cp: "cached ?k3 off p" by (simp add: cached_def)
  have wf3': "swap_wf {p} {} ?k3" by (rule swap_wf_close [OF wf3 o24]) (use off(1) in auto)
  have c3: "clean ?k3"
    unfolding clean_def
  proof (intro allI impI)
    fix o' q assume h: "valid_off ?k3 o' \<and> cached ?k3 o' q \<and> \<not> PageDirty q ?k3 \<and> page_ref q ?k3 = 0"
    show "frames ?k3 q = swap_disk ?k3 o'"
    proof (cases "q = p")
      case True
      then have "entry_of o' = entry_of off" using h by (simp add: cached_def)
      then have "o' = off" using entry_of_inj [of o' off] h o24 swap_max [OF wf] by simp
      then show ?thesis using True by simp
    next
      case False
      then have "valid_off ?k2 o' \<and> cached ?k2 o' q \<and> \<not> PageDirty q ?k2 \<and> page_ref q ?k2 = 0" using h by (simp add: cached_def page_ref_def)
      then have "frames ?k2 q = swap_disk ?k2 o'" using c2(1) unfolding clean_def by blast
      then show ?thesis using False by simp
    qed
  qed
  have kept3: "kept_but off ?k2 ?k3"
  proof -
    have "entry_data ?k3 o' = entry_data ?k2 o'" if "o' \<noteq> off" "live ?k2 o'" for o'
    proof (rule entry_data_eqI [OF wf2 wf3])
      have "entry_of off \<noteq> entry_of o'" using entry_of_inj [of off o'] o24 that swap_max [OF wf] by simp
      then show "cached ?k3 o' q = cached ?k2 o' q" for q
        using put_cache_cached [OF np2, of "entry_of off" o' q] np2 by (auto simp: cached_def)
    qed simp_all
    then show ?thesis by (simp add: kept_but_def)
  qed
  have ps3: "PageSwap p ?k3" by simp
  obtain k' where k': "swap_active_list_add p ?k3 = Some k'" "swap_wf {} {} k'" "shuffled ?k3 k'"
    using list_add_ok(1) [OF wf3' ps3] by auto
  have c': "clean k'" "counts_ok k'" using shuffled_clean [OF k'(3) c3] shuffled_counts [OF k'(3)] c2(2) by (auto simp: counts_ok_def)
  have cp': "cached k' off p" using shuffled_cached [OF k'(3)] cp by simp
  have fr: "frames k' p = swap_disk k off" using k'(3) by (simp add: shuffled_def)
  have ed: "entry_data k off = swap_disk k off" by (rule entry_data_disk [OF wf off(2)])
  have "entry_data k' off = entry_data k off" using entry_data_cached [OF k'(2) cp'] fr ed by simp
  moreover have "live k' off" using k'(3) off(1) by (simp add: shuffled_def)
  moreover have "kept_but off k k'"
    using kept_but_trans [OF kept_but_trans [OF kept_kept_but [OF kept2] kept3] kept_kept_but [OF shuffled_kept [OF k'(3)]]] .
  ultimately have kept: "contents_kept k k'" unfolding contents_kept_def kept_but_def by metis
  have rf: "page_ref p k' = page_ref p k" using k'(3) by (simp add: shuffled_def page_ref_def set_flag_def)
  have add: "swap_page_add p (entry_of off) ?k2 = Some (True, ?k3)" using np2 e0 by (simp add: swap_page_add_def)
  show ?thesis
    using rd add k'(1,2) c' kept cp' fr ed rf unfolding swap_ok_def by (intro exI [of _ ?k2] exI [of _ k']) simp
qed

text \<open>What the caller gets: the page with the contents of the entry, or an error.\<close>

definition swap_in_post :: "nat \<Rightarrow> vmem \<Rightarrow> int \<Rightarrow> nat option \<Rightarrow> vmem \<Rightarrow> bool" where
  "swap_in_post off k ret page k' \<longleftrightarrow> swap_ok k' \<and> contents_kept k k' \<and>
     (case page of Some p \<Rightarrow> ret = 0 \<and> cached k' off p \<and> frames k' p = entry_data k off | None \<Rightarrow> ret \<in> {- E_NO_MEM, - E_SWAP_FAULT})"

lemma swap_in_page_ok:
  assumes ok: "swap_ok k" and off: "live k off"
    and al: "alloc_page tfp k = Some (np, k1)" "swap_ok k1" "contents_kept k k1" "\<forall>p. np = Some p \<longrightarrow> in_use p k1"
  shows "\<exists>ret page k'. swap_in_page tfp (entry_of off) k = Some (ret, page, k') \<and> swap_in_post off k ret page k' \<and>
    (np \<noteq> None \<and> next_io k1 = None \<longrightarrow> ret = 0)"
proof -
  have wf: "swap_wf {} {} k" and wf1: "swap_wf {} {} k1" using ok al(2) by (auto simp: swap_ok_def)
  have so: "swap_offset (entry_of off) k = Some off" using swap_offset_valid [OF wf] off by blast
  have live1: "live k1 off" and d1: "entry_data k1 off = entry_data k off" using al(3) off by (auto simp: contents_kept_def)
  have ck: "cache_ok {} k" "cache_ok {} k1" using wf wf1 by (auto simp: swap_wf_def)
  show ?thesis
  proof (cases "swap_hash_find (entry_of off) k")
    case (Some p)
    then have "cached k off p" using swap_hash_find_iff [OF ck(1)] by simp
    then show ?thesis using Some so ok entry_data_cached [OF wf] by (auto simp: swap_in_page_def swap_in_post_def contents_kept_def)
  next
    case none: None
    show ?thesis
    proof (cases "swap_hash_find (entry_of off) k1")
      case (Some p)
      then have cp: "cached k1 off p" using swap_hash_find_iff [OF ck(2)] by simp
      show ?thesis
      proof (cases np)
        case None
        then show ?thesis
          using so none Some al cp entry_data_cached [OF wf1 cp] d1 by (simp add: swap_in_page_def swap_in_post_def)
      next
        case (Some q)
        then obtain k' where k': "free_page q k1 = Some k'" "swap_ok k'" "contents_kept k1 k'" "frames k' = frames k1" "cached k' = cached k1"
          using free_one_ok [OF al(2)] al(4) by blast
        then show ?thesis
          using so none \<open>swap_hash_find (entry_of off) k1 = Some p\<close> Some al(1) cp entry_data_cached [OF wf1 cp] d1 contents_kept_trans [OF al(3) k'(3)]
          by (simp add: swap_in_page_def swap_in_post_def)
      qed
    next
      case none1: None
      have nc: "\<not> cached k1 off q" for q using swap_hash_find_None [OF ck(2)] none1 by simp
      show ?thesis
      proof (cases np)
        case None
        then show ?thesis using so none none1 al by (simp add: swap_in_page_def swap_in_post_def)
      next
        case (Some p)
        then have p: "in_use p k1" using al(4) by simp
        show ?thesis
        proof (cases "next_io k1")
          case io: None
          obtain k2 k' where r: "swapfs_read (entry_of off) p k1 = Some (True, k2)" "swap_page_add p (entry_of off) k2 = Some (True, put_cache p (entry_of off) k2)"
              "swap_active_list_add p (put_cache p (entry_of off) k2) = Some k'" "swap_ok k'" "contents_kept k1 k'" "cached k' off p" "frames k' p = entry_data k1 off"
            using swap_in_read_ok [OF al(2) live1 nc p io] by blast
          have "swap_in_page tfp (entry_of off) k = Some (0, Some p, k')" using so none none1 al(1) Some r(1-3) by (simp add: swap_in_page_def)
          then show ?thesis using r(4-7) d1 contents_kept_trans [OF al(3)] by (simp add: swap_in_post_def)
        next
          case io: (Some junk)
          let ?k2 = "k1\<lparr>disk_io := tl (disk_io k1), frames := (frames k1)(p := junk)\<rparr>"
          have ncp: "\<not> cached k1 o' p" for o' using p by (simp add: cached_def in_use_def)
          have fo: "frames_ok ?k2" using frames_ok_cong [of ?k2 k1] wf1 by (simp add: swap_wf_def)
          have cl: "clean k1" using al(2) by (simp add: swap_ok_def)
          have cq: "frames ?k2 q = swap_disk k1 o'" if "cached k1 o' q" "valid_off k1 o'" "\<not> PageDirty q ?k2" "page_ref q ?k2 = 0" for q o'
            using that ncp [of o'] cl unfolding clean_def by (cases "q = p") (auto simp: page_ref_def)
          have lq: "frames ?k2 q = frames k1 q" if "cached k1 o' q" "live k1 o'" for q o' using that ncp [of o'] by (cases "q = p") auto
          have ok2: "swap_ok ?k2" by (rule same_cache_ok(1) [OF al(2) fo _ _ _ _ _ _ _ _ _ _ _ _ cq lq]) simp_all
          have kept2: "contents_kept k1 ?k2" by (rule same_cache_ok(2) [OF al(2) fo _ _ _ _ _ _ _ _ _ _ _ _ cq lq]) simp_all
          have p2: "in_use p ?k2" using p by (simp add: in_use_def)
          obtain k' where k': "free_page p ?k2 = Some k'" "swap_ok k'" "contents_kept ?k2 k'" using free_one_ok [OF ok2 p2] by blast
          have so1: "swap_offset (entry_of off) k1 = Some off" using swap_offset_valid [OF wf1] live1 by blast
          have rd: "swapfs_read (entry_of off) p k1 = Some (False, ?k2)" using so1 io by (simp add: swapfs_read_def io_result_eq)
          have "swap_in_page tfp (entry_of off) k = Some (- E_SWAP_FAULT, None, k')"
            using so none none1 al(1) Some rd k'(1) by (simp add: swap_in_page_def)
          then show ?thesis
            using io k'(2) contents_kept_trans [OF al(3) contents_kept_trans [OF kept2 k'(3)]] by (simp add: swap_in_post_def)
        qed
      qed
    qed
  qed
qed

text \<open>A page with a reference from a page table.  When the last reference goes away without the dirty bits set, the contents are on the
  device: the processor sets \<^verbatim>\<open>PTE_D\<close> when it writes.\<close>

definition mapped :: "nat \<Rightarrow> vmem \<Rightarrow> bool" where
  "mapped p k \<longleftrightarrow> p \<notin> free_pages_of (phys k) \<and> managed_frames (phys k) p 1 \<and> page_ref p k > 0"

definition dirty_seen :: "nat \<Rightarrow> bool \<Rightarrow> vmem \<Rightarrow> bool" where
  "dirty_seen p d k \<longleftrightarrow> d \<or> PageDirty p k \<or> page_ref p k > 1 \<or> (\<forall>off. valid_off k off \<and> cached k off p \<longrightarrow> frames k p = swap_disk k off)"

lemma set_flag_ref [simp]: "ref (set_flag n pg) = ref pg" "ref (clear_flag n pg) = ref pg"
  by (simp_all add: set_flag_def clear_flag_def)

lemma page_unref_ok:
  assumes ok: "swap_ok k" and p: "mapped p k" "dirty_seen p d k"
  defines "k' \<equiv> k\<lparr>phys := upd_page p (\<lambda>pg. (if d then set_flag PG_dirty pg else pg)\<lparr>ref := ref pg - 1\<rparr>) (phys k)\<rparr>"
  shows "swap_ok k'" "contents_kept k k'"
proof -
  let ?f = "\<lambda>pg. (if d then set_flag PG_dirty pg else pg)\<lparr>ref := ref pg - 1\<rparr>"
  have k': "k' = k\<lparr>phys := upd_page p ?f (phys k), frames := (frames k)(p := frames k p)\<rparr>" by (simp add: k'_def)
  have uc: "user_change ?f" using user_changes(3) by (auto simp: user_change_def)
  have t: "test_flag n (?f pg) = test_flag n (if d then set_flag PG_dirty pg else pg)" for n pg by simp
  have t1: "test_flag PG_swap (?f (page_at p k)) = PageSwap p k" "test_flag PG_active (?f (page_at p k)) = PageActive p k" by (auto simp: t)
  have c: "frames k p = swap_disk k off" if "cached k off p" "valid_off k off" "\<not> test_flag PG_dirty (?f (page_at p k))" "ref (?f (page_at p k)) = 0" for off
  proof -
    have "\<not> d" "\<not> PageDirty p k" using that(3) by (auto simp: t split: if_splits)
    moreover have "\<not> page_ref p k > 1" using that(4) by (auto simp: page_ref_def split: if_splits)
    ultimately show ?thesis using p(2) that(1,2) by (auto simp: dirty_seen_def)
  qed
  have "p \<notin> free_pages_of (phys k)" "PageSwap p k \<Longrightarrow> managed_frames (phys k) p 1" using p(1) by (auto simp: mapped_def)
  note u = user_update_ok [OF ok this uc t1, of "frames k p"]
  show "swap_ok k'" unfolding k' by (rule u(1)) (use c in auto)
  show "contents_kept k k'" unfolding k' by (rule u(2)) (use c in auto)
qed

lemma upd_pg_ref:
  "set_page_ref p (page_ref p k - 1) k = k\<lparr>phys := upd_page p (\<lambda>pg. (if False then set_flag PG_dirty pg else pg)\<lparr>ref := ref pg - 1\<rparr>) (phys k)\<rparr>"
  "set_page_ref p (page_ref p k - 1) (upd_pg p (set_flag PG_dirty) k) = k\<lparr>phys := upd_page p (\<lambda>pg. (if True then set_flag PG_dirty pg else pg)\<lparr>ref := ref pg - 1\<rparr>) (phys k)\<rparr>"
  by (simp_all add: set_page_ref_def page_ref_def upd_page_def)

lemma page_unmap_ok:
  assumes ok: "swap_ok k" and p: "mapped p k" "dirty_seen p d k"
  shows "\<exists>k'. page_unmap p d k = Some k' \<and> swap_ok k' \<and> contents_kept k k' \<and> frames k' = frames k \<and> mem_map k' = mem_map k \<and> same_layout (phys k) (phys k') \<and>
    (if \<not> PageSwap p k \<and> page_ref p k = 1 then free_pages_of (phys k') = insert p (free_pages_of (phys k)) else free_pages_of (phys k') = free_pages_of (phys k) \<and> page_ref p k' = page_ref p k - 1)"
proof (cases "PageSwap p k")
  case True
  let ?k' = "k\<lparr>phys := upd_page p (\<lambda>pg. (if d then set_flag PG_dirty pg else pg)\<lparr>ref := ref pg - 1\<rparr>) (phys k)\<rparr>"
  have "page_unmap p d k = Some ?k'" using True upd_pg_ref [of p k] by (cases d) (simp_all add: page_unmap_def Let_def page_ref_def)
  moreover have "user_change (\<lambda>pg. (if d then set_flag PG_dirty pg else pg)\<lparr>ref := ref pg - 1\<rparr>)" using user_changes(3) by (auto simp: user_change_def)
  ultimately show ?thesis using page_unref_ok [OF ok p] True user_change_layout by (simp add: user_change_free page_ref_def)
next
  case False
  have nc: "\<not> cached k off p" for off using False by (simp add: cached_def)
  have ds: "dirty_seen p False k" using nc by (simp add: dirty_seen_def)
  let ?k' = "set_page_ref p (page_ref p k - 1) k"
  note u = page_unref_ok [OF ok p(1) ds, folded upd_pg_ref(1)]
  have e: "frames ?k' = frames k" "mem_map ?k' = mem_map k" "free_pages_of (phys ?k') = free_pages_of (phys k)" "page_ref p ?k' = page_ref p k - 1"
    by (simp_all add: set_page_ref_def page_ref_def user_change_free)
  have lay: "same_layout (phys k) (phys ?k')" using user_change_layout [OF user_changes(7)] by (simp add: set_page_ref_def)
  show ?thesis
  proof (cases "page_ref p k = 1")
    case True
    have "in_use p ?k'" using p(1) False managed_layout [OF user_change_layout [OF user_changes(7)]]
      by (simp add: in_use_def mapped_def set_page_ref_def user_change_free)
    then obtain k2 where k2: "free_page p ?k' = Some k2" "swap_ok k2" "contents_kept ?k' k2" "frames k2 = frames ?k'" "free_pages_of (phys k2) = insert p (free_pages_of (phys ?k'))" "same_layout (phys ?k') (phys k2)"
      using free_one_ok [OF u(1)] by blast
    have mm: "mem_map k2 = mem_map ?k'" using k2(1) by (auto simp: free_page_def split: Option.bind_splits)
    have "page_unmap p d k = Some k2" using False True k2(1) e(4) by (simp add: page_unmap_def)
    then show ?thesis using k2 e mm contents_kept_trans [OF u(2) k2(3)] False True same_layout_trans [OF lay k2(6)] by simp
  next
    case ne: False
    then have "page_unmap p d k = Some ?k'" using False e(4) by (simp add: page_unmap_def)
    then show ?thesis using u e ne False lay by simp
  qed
qed

lemma swap_out_page_ok:
  assumes ok: "swap_ok k" and p: "mapped p k" "dirty_seen p d k" and cnt: "\<forall>off. valid_off k off \<and> cached k off p \<longrightarrow> mem_map k off + 1 \<noteq> MAX_SWAP_REF"
  shows "\<exists>r k'. swap_out_page p d k = Some (r, k') \<and> swap_ok k' \<and> contents_kept k k' \<and> frames k' = frames k \<and>
    (case r of None \<Rightarrow> page_ref p k' = page_ref p k
     | Some e \<Rightarrow> \<exists>off. e = entry_of off \<and> live k' off \<and> entry_data k' off = frames k p \<and> page_ref p k' = page_ref p k - 1)"
proof -
  have step: "\<exists>off. swap_duplicate (page_index j p) j = Some (set_map off (mem_map j off + 1) j) \<and> page_index j p = entry_of off \<and>
      swap_ok (set_page_ref p (page_ref p j - 1) (set_map off (mem_map j off + 1) j)) \<and> contents_kept j (set_page_ref p (page_ref p j - 1) (set_map off (mem_map j off + 1) j)) \<and>
      live (set_page_ref p (page_ref p j - 1) (set_map off (mem_map j off + 1) j)) off \<and> entry_data (set_page_ref p (page_ref p j - 1) (set_map off (mem_map j off + 1) j)) off = frames j p"
    if j: "swap_ok j" "PageSwap p j" "mapped p j" "dirty_seen p False j" "\<forall>off. valid_off j off \<and> cached j off p \<longrightarrow> mem_map j off + 1 \<noteq> MAX_SWAP_REF" for j
  proof -
    have wj: "swap_wf {} {} j" using j(1) by (simp add: swap_ok_def)
    obtain off where off: "valid_off j off" "page_index j p = entry_of off" "mem_map j off \<noteq> SWAP_UNUSED"
      using cache_okD(5) [of "{}" j p] wj j(2) by (auto simp: swap_wf_def)
    have cp: "cached j off p" using off(2) j(2) by (simp add: cached_def)
    let ?j1 = "set_map off (mem_map j off + 1) j"
    note dup = swap_duplicate_ok [OF j(1) off(1,3)]
    have m1: "mem_map j off + 1 \<noteq> MAX_SWAP_REF" using j(5) cp off(1) by blast
    have pj: "mapped p ?j1" "dirty_seen p False ?j1" using j(3,4) by (auto simp: mapped_def dirty_seen_def page_ref_def cached_def)
    have rf: "page_ref p ?j1 = page_ref p j" by (simp add: page_ref_def)
    note u = page_unref_ok [OF dup(2) [OF m1] pj, folded upd_pg_ref(1), unfolded rf]
    have "live (set_page_ref p (page_ref p j - 1) ?j1) off" using dup(4) [OF m1] u(2) by (simp add: contents_kept_def)
    moreover have "entry_data (set_page_ref p (page_ref p j - 1) ?j1) off = entry_data ?j1 off" using dup(4) [OF m1] u(2) by (simp add: contents_kept_def)
    ultimately show ?thesis
      using dup(1) [OF m1] off(2) u contents_kept_trans [OF dup(3) [OF m1] u(2)] entry_data_cached [OF wj cp] by auto
  qed
  show ?thesis
  proof (cases "PageSwap p k")
    case True
    let ?j = "if d then upd_pg p (set_flag PG_dirty) k else k"
    have "swap_ok ?j \<and> contents_kept k ?j"
    proof (cases d)
      case True
      have "p \<notin> free_pages_of (phys k)" "PageSwap p k \<Longrightarrow> managed_frames (phys k) p 1" using p(1) by (auto simp: mapped_def)
      note u = user_update_ok [OF ok this user_changes(3), of "frames k p"]
      have "swap_ok (k\<lparr>phys := upd_page p (set_flag PG_dirty) (phys k), frames := (frames k)(p := frames k p)\<rparr>)" by (rule u(1)) auto
      moreover have "contents_kept k (k\<lparr>phys := upd_page p (set_flag PG_dirty) (phys k), frames := (frames k)(p := frames k p)\<rparr>)" by (rule u(2)) auto
      ultimately show ?thesis using True by simp
    qed (use ok in \<open>auto simp: contents_kept_def\<close>)
    moreover have "mapped p ?j" using p(1) managed_layout [OF user_change_layout [OF user_changes(3)]] by (auto simp: mapped_def user_change_free page_ref_def)
    moreover have "dirty_seen p False ?j" using p(2) by (auto simp: dirty_seen_def cached_def page_ref_def)
    moreover have "\<forall>off. valid_off ?j off \<and> cached ?j off p \<longrightarrow> mem_map ?j off + 1 \<noteq> MAX_SWAP_REF" using cnt by (auto simp: cached_def)
    moreover have ps: "PageSwap p ?j" using True by auto
    ultimately obtain off where o': "swap_duplicate (page_index ?j p) ?j = Some (set_map off (mem_map ?j off + 1) ?j)" "page_index ?j p = entry_of off"
        "swap_ok (set_page_ref p (page_ref p ?j - 1) (set_map off (mem_map ?j off + 1) ?j))" "contents_kept ?j (set_page_ref p (page_ref p ?j - 1) (set_map off (mem_map ?j off + 1) ?j))"
        "live (set_page_ref p (page_ref p ?j - 1) (set_map off (mem_map ?j off + 1) ?j)) off" "entry_data (set_page_ref p (page_ref p ?j - 1) (set_map off (mem_map ?j off + 1) ?j)) off = frames ?j p" "contents_kept k ?j"
      using step [of ?j] by blast
    let ?k' = "set_page_ref p (page_ref p ?j - 1) (set_map off (mem_map ?j off + 1) ?j)"
    have "swap_out_page p d k = Some (Some (entry_of off), ?k')" using True o'(1,2) by (simp add: swap_out_page_def Let_def page_ref_def)
    then show ?thesis using o'(3-6) contents_kept_trans [OF o'(7) o'(4)] by (auto simp: set_page_ref_def page_ref_def)
  next
    case False
    have "in_use p k" using p(1) False by (simp add: mapped_def in_use_def)
    then obtain b k1 where k1: "swap_page_add p 0 k = Some (b, k1)" "swap_wf (if b then {p} else {}) {} k1" "clean k1" "counts_ok k1" "contents_kept k k1" "frames k1 = frames k"
        "page_ref p k1 = page_ref p k" "PageSwap p k1 = b" "b \<longrightarrow> (\<exists>off. valid_off k1 off \<and> cached k1 off p \<and> mem_map k1 off = 0)"
      using swap_page_add_new_ok [OF ok False] by (auto simp: in_use_def)
    show ?thesis
    proof (cases b)
      case False
      then have "swap_out_page p d k = Some (None, k1)" using \<open>\<not> PageSwap p k\<close> k1(1) by (simp add: swap_out_page_def)
      then show ?thesis using k1 False by (simp add: swap_ok_def)
    next
      case True
      have ps1: "PageSwap p k1" using k1(8) True by simp
      have wf1: "swap_wf {p} {} k1" using k1(2) True by simp
      obtain j where j: "swap_active_list_add p k1 = Some j" "swap_wf {} {} j" "shuffled k1 j" using list_add_ok(1) [OF wf1 ps1] by auto
      have "swap_ok j" using j(2) shuffled_clean [OF j(3) k1(3)] shuffled_counts [OF j(3)] k1(4) by (simp add: swap_ok_def)
      moreover have psj: "PageSwap p j" "page_ref p j = page_ref p k" "frames j = frames k" using j(3) ps1 k1(6,7) by (simp_all add: shuffled_def)
      moreover have "mapped p j" using swap_wf_page [OF j(2) psj(1)] p(1) psj(2) by (simp add: mapped_def)
      moreover have "dirty_seen p False j"
      proof -
        have "PageDirty p k1" using k1(1) True False by (auto simp: swap_page_add_def split: Option.bind_splits if_splits)
        then show ?thesis using j(3) by (simp add: dirty_seen_def shuffled_def)
      qed
      moreover have "\<forall>off. valid_off j off \<and> cached j off p \<longrightarrow> mem_map j off + 1 \<noteq> MAX_SWAP_REF"
      proof (intro allI impI)
        fix off assume c: "valid_off j off \<and> cached j off p"
        obtain o' where o': "valid_off k1 o'" "cached k1 o' p" "mem_map k1 o' = 0" using k1(9) True by blast
        then have "mem_map j o' = 0" "cached j o' p" "valid_off j o'" using j(3) shuffled_cached [OF j(3)] by (auto simp: shuffled_def)
        moreover have "off = o'" using cached_off_unique [OF swap_max [OF j(2)] calculation(3) _ calculation(2)] c by blast
        ultimately show "mem_map j off + 1 \<noteq> MAX_SWAP_REF" by simp
      qed
      ultimately obtain off where o': "swap_duplicate (page_index j p) j = Some (set_map off (mem_map j off + 1) j)" "page_index j p = entry_of off"
          "swap_ok (set_page_ref p (page_ref p j - 1) (set_map off (mem_map j off + 1) j))" "contents_kept j (set_page_ref p (page_ref p j - 1) (set_map off (mem_map j off + 1) j))"
          "live (set_page_ref p (page_ref p j - 1) (set_map off (mem_map j off + 1) j)) off" "entry_data (set_page_ref p (page_ref p j - 1) (set_map off (mem_map j off + 1) j)) off = frames j p"
        using step [of j] by blast
      let ?k' = "set_page_ref p (page_ref p j - 1) (set_map off (mem_map j off + 1) j)"
      have "swap_out_page p d k = Some (Some (entry_of off), ?k')"
        using False True k1(1) j(1) o'(1,2) by (simp add: swap_out_page_def Let_def page_ref_def)
      then show ?thesis
        using o'(3-6) psj(2,3) contents_kept_trans [OF k1(5) contents_kept_trans [OF shuffled_kept [OF j(3)] o'(4)]] by (auto simp: set_page_ref_def page_ref_def)
    qed
  qed
qed

subsection \<open>All operations together\<close>

definition no_retry :: "nat \<Rightarrow> vmem \<Rightarrow> bool \<times> vmem" where
  "no_retry n k = (False, k)"

datatype swap_event = Launder | Refill | Swap_Out nat bool | Swap_In nat | Duplicate nat | Remove nat | Alloc | Free nat | Map nat | Unmap nat bool | Store nat page_words

fun swap_exec :: "swap_event \<Rightarrow> vmem \<Rightarrow> vmem option" where
  "swap_exec Launder k = map_option snd (page_launder k)"
| "swap_exec Refill k = refill_inactive_scan k"
| "swap_exec (Swap_Out p d) k = map_option snd (swap_out_page p d k)"
| "swap_exec (Swap_In off) k = map_option (snd \<circ> snd) (swap_in_page no_retry (entry_of off) k)"
| "swap_exec (Duplicate off) k = swap_duplicate (entry_of off) k"
| "swap_exec (Remove off) k = swap_remove_entry (entry_of off) k"
| "swap_exec Alloc k = map_option snd (alloc_page no_retry k)"
| "swap_exec (Free p) k = free_page p k"
| "swap_exec (Map p) k = Some (set_page_ref p (page_ref p k + 1) k)"
| "swap_exec (Unmap p d) k = page_unmap p d k"
| "swap_exec (Store p w) k = Some (k\<lparr>frames := (frames k)(p := w)\<rparr>)"

text \<open>When the kernel makes the calls, while somebody holds a reference to the entry \<open>held\<close>: that reference is not removed, and a page
  is written only by those who have mapped it, after a copy was made if the entry has references as well (\<^verbatim>\<open>do_pgfault\<close>).\<close>

fun swap_enabled :: "nat \<Rightarrow> swap_event \<Rightarrow> vmem \<Rightarrow> bool" where
  "swap_enabled held (Swap_Out p d) k \<longleftrightarrow> mapped p k \<and> dirty_seen p d k \<and> (\<forall>off. valid_off k off \<and> cached k off p \<longrightarrow> mem_map k off + 1 \<noteq> MAX_SWAP_REF)"
| "swap_enabled held (Swap_In off) k \<longleftrightarrow> live k off"
| "swap_enabled held (Duplicate off) k \<longleftrightarrow> valid_off k off \<and> mem_map k off \<noteq> SWAP_UNUSED \<and> mem_map k off + 1 \<noteq> MAX_SWAP_REF"
| "swap_enabled held (Remove off) k \<longleftrightarrow> live k off \<and> (off = held \<longrightarrow> mem_map k off \<noteq> 1)"
| "swap_enabled held (Free p) k \<longleftrightarrow> in_use p k"
| "swap_enabled held (Map p) k \<longleftrightarrow> p \<notin> free_pages_of (phys k) \<and> managed_frames (phys k) p 1 \<and> page_ref p k \<ge> 0"
| "swap_enabled held (Unmap p d) k \<longleftrightarrow> mapped p k \<and> dirty_seen p d k"
| "swap_enabled held (Store p w) k \<longleftrightarrow> p \<notin> free_pages_of (phys k) \<and> managed_frames (phys k) p 1 \<and>
     (PageSwap p k \<longrightarrow> page_ref p k \<noteq> 0 \<and> (\<forall>off. valid_off k off \<and> cached k off p \<longrightarrow> mem_map k off = 0))"
| "swap_enabled held _ k \<longleftrightarrow> True"

lemma no_retry_alloc:
  assumes ok: "swap_ok k"
  obtains np k1 where "alloc_page no_retry k = Some (np, k1)" "swap_ok k1" "contents_kept k k1" "\<forall>p. np = Some p \<longrightarrow> in_use p k1"
proof -
  obtain r b where b: "buddy_alloc_pages 1 (phys k) = Some (r, b)" "swap_ok (k\<lparr>phys := b\<rparr>)" "contents_kept k (k\<lparr>phys := b\<rparr>)" "\<forall>p. r = Some p \<longrightarrow> in_use p (k\<lparr>phys := b\<rparr>)"
    using alloc_one_ok [OF ok] by blast
  have "alloc_page no_retry k = Some (r, k\<lparr>phys := b\<rparr>)"
    by (subst alloc_pages.simps) (use b(1) in \<open>simp add: no_retry_def Let_def split: option.split\<close>)
  then show ?thesis using b(2-4) that by blast
qed

lemma swap_exec_ok:
  assumes ok: "swap_ok k" and held: "live k held" and en: "swap_enabled held ev k"
  shows "\<exists>k'. swap_exec ev k = Some k' \<and> swap_ok k' \<and> live k' held \<and> entry_data k' held = entry_data k held"
proof -
  have kept: "live k' held \<and> entry_data k' held = entry_data k held" if "contents_kept k k'" for k'
    using that held by (simp add: contents_kept_def)
  show ?thesis
  proof (cases ev)
    case Launder
    obtain n k' where "page_launder k = Some (n, k')" "swap_ok k'" "laundered k k'" using page_launder_ok [OF ok] by blast
    then show ?thesis using Launder kept [OF laundered_kept] by simp
  next
    case Refill
    obtain k' where "refill_inactive_scan k = Some k'" "swap_ok k'" "shuffled k k'" using refill_inactive_scan_ok [OF ok] by blast
    then show ?thesis using Refill kept [OF shuffled_kept] by simp
  next
    case (Swap_Out p d)
    then obtain r k' where "swap_out_page p d k = Some (r, k')" "swap_ok k'" "contents_kept k k'" using swap_out_page_ok [OF ok, of p d] en by auto
    then show ?thesis using Swap_Out kept by simp
  next
    case (Swap_In off)
    obtain np k1 where "alloc_page no_retry k = Some (np, k1)" "swap_ok k1" "contents_kept k k1" "\<forall>p. np = Some p \<longrightarrow> in_use p k1"
      by (rule no_retry_alloc [OF ok])
    moreover have "live k off" using Swap_In en by simp
    ultimately obtain ret page k' where "swap_in_page no_retry (entry_of off) k = Some (ret, page, k')" "swap_in_post off k ret page k'"
      using swap_in_page_ok [OF ok] by blast
    then show ?thesis using Swap_In kept by (auto simp: swap_in_post_def)
  next
    case (Duplicate off)
    then have off: "valid_off k off" "mem_map k off \<noteq> SWAP_UNUSED" "mem_map k off + 1 \<noteq> MAX_SWAP_REF" using en by simp_all
    note d = swap_duplicate_ok [OF ok off]
    show ?thesis using Duplicate d(1,2) kept [OF d(3)] by (simp only: swap_exec.simps) blast
  next
    case (Remove off)
    then have off: "live k off" using en by simp
    obtain k' where k': "swap_remove_entry (entry_of off) k = Some k'" "swap_ok k'" "kept_but off k k'"
        "if mem_map k off = 1 then mem_map k' off \<in> {0, SWAP_UNUSED} else mem_map k' off = mem_map k off - 1 \<and> live k' off \<and> entry_data k' off = entry_data k off"
      using swap_remove_entry_ok [OF ok off] by blast
    have "live k' held \<and> entry_data k' held = entry_data k held"
      using k'(3,4) held Remove en by (cases "off = held") (auto simp: kept_but_def)
    then show ?thesis using k'(1,2) Remove by simp
  next
    case Alloc
    obtain np k1 where "alloc_page no_retry k = Some (np, k1)" "swap_ok k1" "contents_kept k k1"
      by (rule no_retry_alloc [OF ok])
    then show ?thesis using Alloc kept by simp
  next
    case (Free p)
    then obtain k' where "free_page p k = Some k'" "swap_ok k'" "contents_kept k k'" using free_one_ok [OF ok] en by auto
    then show ?thesis using Free kept by simp
  next
    case (Map p)
    have p: "p \<notin> free_pages_of (phys k)" "PageSwap p k \<Longrightarrow> managed_frames (phys k) p 1" "page_ref p k \<ge> 0" using Map en by auto
    have e: "set_page_ref p (page_ref p k + 1) k = k\<lparr>phys := upd_page p (\<lambda>pg. pg\<lparr>ref := page_ref p k + 1\<rparr>) (phys k), frames := (frames k)(p := frames k p)\<rparr>"
      by (simp add: set_page_ref_def)
    note u = user_update_ok [OF ok p(1,2) user_changes(7) [of "page_ref p k + 1"], of "frames k p"]
    have "swap_ok (set_page_ref p (page_ref p k + 1) k)" unfolding e by (rule u(1)) (use p(3) in auto)
    moreover have "contents_kept k (set_page_ref p (page_ref p k + 1) k)" unfolding e by (rule u(2)) (use p(3) in auto)
    ultimately show ?thesis using Map kept by simp
  next
    case (Unmap p d)
    then obtain k' where "page_unmap p d k = Some k'" "swap_ok k'" "contents_kept k k'" using page_unmap_ok [OF ok, of p d] en by auto
    then show ?thesis using Unmap kept by simp
  next
    case (Store p w)
    have p: "p \<notin> free_pages_of (phys k)" "PageSwap p k \<Longrightarrow> managed_frames (phys k) p 1" using Store en by auto
    have st: "cached k off p \<Longrightarrow> valid_off k off \<Longrightarrow> page_ref p k \<noteq> 0 \<and> mem_map k off = 0" for off using Store en by (auto simp: cached_def)
    have uc: "user_change (\<lambda>pg. pg)" by (simp add: user_change_def)
    have e: "k\<lparr>frames := (frames k)(p := w)\<rparr> = k\<lparr>phys := upd_page p (\<lambda>pg. pg) (phys k), frames := (frames k)(p := w)\<rparr>" by (simp add: upd_page_def)
    note u = user_update_ok [OF ok p uc, of w]
    have "swap_ok (k\<lparr>frames := (frames k)(p := w)\<rparr>)" unfolding e by (rule u(1)) (use st in \<open>auto simp: page_ref_def\<close>)
    moreover have "contents_kept k (k\<lparr>frames := (frames k)(p := w)\<rparr>)" unfolding e by (rule u(2)) (use st in \<open>auto simp: page_ref_def\<close>)
    ultimately show ?thesis using Store kept by (simp only: swap_exec.simps) blast
  qed
qed

inductive swap_reach :: "nat \<Rightarrow> vmem \<Rightarrow> vmem \<Rightarrow> bool" for held k where
  start: "swap_reach held k k"
| step: "swap_reach held k k1 \<Longrightarrow> swap_enabled held ev k1 \<Longrightarrow> swap_exec ev k1 = Some k2 \<Longrightarrow> swap_reach held k k2"

inductive_cases swap_reachE: "swap_reach held k k'"

text \<open>C25: Swapped pages.  As long as one reference to a swap entry is kept, no sequence of scans of \<^verbatim>\<open>kswapd\<close>, swapping in and out, duplications and
  removals of references, allocations and changes of page tables changes what the entry stands for, whether or not the transfers
  to and from the device succeed; the invariant of the cache holds all the time and no call that the kernel may make next panics.  The calls are those of \<open>swap_enabled\<close>: the
  count of an entry stays below \<^verbatim>\<open>MAX_SWAP_REF\<close>, and a page whose entry has other references is copied before it is written.\<close>

theorem swap_contents_safe:
  assumes "swap_ok k" "live k held" "swap_reach held k k'"
  shows "swap_ok k' \<and> live k' held \<and> entry_data k' held = entry_data k held \<and> (\<forall>ev. swap_enabled held ev k' \<longrightarrow> (\<exists>k2. swap_exec ev k' = Some k2))"
proof -
  have inv: "swap_ok k' \<and> live k' held \<and> entry_data k' held = entry_data k held"
    using assms(3)
  proof (induction rule: swap_reach.induct)
    case start
    then show ?case using assms(1,2) by simp
  next
    case (step k1 ev k2)
    then show ?case using swap_exec_ok [of k1 held ev] by force
  qed
  then show ?thesis using swap_exec_ok [of k' held] by blast
qed

text \<open>C27: Swapping in.  \<^verbatim>\<open>swap_in_page\<close> of an entry in use never panics.  It returns 0 and a page of the cache that holds the contents of the entry,
  also when another process brought it in while the caller waited for a page, or \<^verbatim>\<open>-E_NO_MEM\<close> or \<^verbatim>\<open>-E_SWAP_FAULT\<close>; all other
  contents are kept.  With a page and a transfer that succeeds, it returns 0.\<close>

theorem swap_in_page_correct:
  assumes "swap_ok k" "live k off"
    and "alloc_page tfp k = Some (np, k1)" "swap_ok k1" "contents_kept k k1" "\<forall>p. np = Some p \<longrightarrow> in_use p k1"
  shows "\<exists>ret page k'. swap_in_page tfp (entry_of off) k = Some (ret, page, k') \<and> swap_in_post off k ret page k' \<and> (np \<noteq> None \<and> next_io k1 = None \<longrightarrow> ret = 0)"
  by (rule swap_in_page_ok [OF assms])

text \<open>C26: Laundering.  One scan of the inactive list never panics and keeps the invariant; the number it returns is the number of page frames it
  freed, every entry that is counted keeps its count and its contents, and when the transfers succeed every page of the list without references is freed.\<close>

theorem page_launder_correct:
  assumes "swap_ok k"
  shows "\<exists>n k'. page_launder k = Some (n, k') \<and> swap_ok k' \<and> card (free_pages_of (phys k')) = card (free_pages_of (phys k)) + n \<and>
    (\<forall>off. live k off \<longrightarrow> mem_map k' off = mem_map k off \<and> entry_data k' off = entry_data k off) \<and>
    (\<forall>p. PageSwap p k \<and> page_ref p k \<noteq> 0 \<longrightarrow> PageSwap p k' \<and> p \<notin> free_pages_of (phys k') \<and> frames k' p = frames k p) \<and>
    (set (disk_io k) \<subseteq> {None} \<longrightarrow> (\<forall>p\<in>set (inactive_list k). page_ref p k = 0 \<longrightarrow> p \<in> free_pages_of (phys k')))"
proof -
  obtain n k' where k': "page_launder k = Some (n, k')" "swap_ok k'" "laundered k k'" "card (free_pages_of (phys k')) = card (free_pages_of (phys k)) + n"
      "set (disk_io k) \<subseteq> {None} \<longrightarrow> (\<forall>p\<in>set (inactive_list k). page_ref p k = 0 \<longrightarrow> p \<in> free_pages_of (phys k'))"
    using page_launder_ok [OF assms] by blast
  have "p \<notin> free_pages_of (phys k')" if "PageSwap p k'" for p using swap_wf_page(1) that k'(2) by (auto simp: swap_ok_def)
  then show ?thesis using k' launderedD [OF k'(3)] by (intro exI [of _ n] exI [of _ k']) auto
qed

subsection \<open>A small system\<close>

lemma memmap_user:
  "memmap_reset z p n s = Some t \<Longrightarrow> \<forall>q. user_part (pages s q) = (0, 0) \<Longrightarrow> user_part (pages t q) = (0, 0)"
  by (induction n arbitrary: p s) (auto simp: user_part_def split: Option.bind_splits if_splits)

lemma put_block_user: "user_part (pages (put_block p order s) q) = user_part (pages s q)"
  by auto

lemma memmap_blocks_user: "user_part (pages (memmap_blocks order p n s) q) = user_part (pages s q)"
proof (induction order p n s rule: memmap_blocks.induct)
  case (1 order p n s)
  then show ?case by (subst memmap_blocks.simps) (auto simp: put_block_user simp del: put_block_def)
qed

lemma init_memmap_user:
  assumes "buddy_init_memmap p n s = Some t" "\<forall>q. user_part (pages s q) = (0, 0)"
  shows "user_part (pages t q) = (0, 0)"
  using assms memmap_user [of "zone_cnt s" p n s _ q] by (auto simp: buddy_init_memmap_def memmap_blocks_user Let_def split: Option.bind_splits if_splits)

definition demo_phys :: buddy where
  "demo_phys = the (buddy_init_memmap 0 4 boot4)"

definition swap_demo :: vmem where
  "swap_demo = \<lparr>phys = demo_phys, frames = (\<lambda>_ _. 0), page_index = (\<lambda>_. 0), active_list = [], nr_active_pages = 0, inactive_list = [], nr_inactive_pages = 0,
     mem_map = (\<lambda>off. if off = 1 then 1 else SWAP_UNUSED), max_swap_offset = 1024, entry_list = (\<lambda>_. []), next_entry = 1, swap_disk = (\<lambda>_ _. 7), disk_io = []\<rparr>"

lemma demo_phys_facts: "buddy_inv demo_phys" "free_pages_of demo_phys = {0..<4}" "npage demo_phys = 4" "user_part (pages demo_phys q) = (0, 0)"
proof -
  obtain t where t: "buddy_init_memmap 0 4 boot4 = Some t" "buddy_inv t" "free_pages_of t = {0..<4}" by (rule boot4_memmap)
  have d: "demo_phys = t" by (simp add: demo_phys_def t(1))
  have "map_option npage (buddy_init_memmap 0 4 boot4) = Some 4" by code_simp
  then show "npage demo_phys = 4" by (simp add: t(1) d)
  have "user_part (pages boot4 q) = (0, 0)" for q by (simp add: boot4_def user_part_def drop_bit_eq_div)
  then show "user_part (pages demo_phys q) = (0, 0)" using init_memmap_user [OF t(1)] d by blast
  show "buddy_inv demo_phys" "free_pages_of demo_phys = {0..<4}" using t d by simp_all
qed

lemma no_flags: "user_part pg = (0, 0) \<Longrightarrow> \<not> test_flag PG_swap pg"
  using user_part_eqD(2) [of pg "pg\<lparr>flags := 0, ref := 0\<rparr>"] by (simp add: test_flag_def)

lemma swap_demo_ok: "swap_ok swap_demo" "live swap_demo 1" "entry_data swap_demo 1 = (\<lambda>_. 7)"
proof -
  have n: "\<not> PageSwap p swap_demo" for p using no_flags [OF demo_phys_facts(4)] by (simp add: swap_demo_def)
  then have nc: "\<not> cached swap_demo off p" for off p by (simp add: cached_def)
  have "frames_ok swap_demo" using demo_phys_facts n by (simp add: frames_ok_def swap_demo_def)
  moreover have "cache_ok {} swap_demo" unfolding cache_ok_def using n by (auto simp: swap_demo_def inj_on_def)
  moreover have "lists_ok {} swap_demo" unfolding lists_ok_def using n by (auto simp: swap_demo_def)
  moreover have "clean swap_demo" using nc by (simp add: clean_def)
  moreover have "counts_ok swap_demo" by (simp add: counts_ok_def swap_demo_def)
  ultimately show "swap_ok swap_demo" by (simp add: swap_ok_def swap_wf_def)
  show "live swap_demo 1" by (simp add: swap_demo_def)
  show "entry_data swap_demo 1 = (\<lambda>_. 7)" by (simp add: entry_data_def swap_hash_find_def swap_demo_def)
qed

lemma swap_demo_alloc:
  obtains p b where "buddy_alloc_pages 1 demo_phys = Some (Some p, b)"
proof -
  have n1: "0 < (1::nat)" "(1::nat) \<le> 2 ^ MAX_ORDER" by simp_all
  show ?thesis
  proof (rule buddy_alloc_pages_cases [OF demo_phys_facts(1) n1])
    fix order assume o: "getorder 1 = Some order" "\<And>k. order \<le> k \<Longrightarrow> k \<le> MAX_ORDER \<Longrightarrow> free_list demo_phys k = []"
    have "0 \<in> free_pages_of demo_phys" using demo_phys_facts(2) by simp
    then obtain k p where kp: "p \<in> set (free_list demo_phys k)" unfolding in_free_pages by blast
    have "k \<le> MAX_ORDER" using valid_blkD(1) [OF wf_heads(1) [OF demo_phys_facts(1) kp]] by simp
    then show ?thesis using o kp getorder_1 by auto
  next
    fix order p b assume "buddy_alloc_pages 1 demo_phys = Some (Some p, b)"
    then show ?thesis using that by blast
  qed
qed

theorem swap_contents_safe_witness:
  "\<exists>k1 k2 k3. swap_exec (Swap_In 1) swap_demo = Some k1 \<and> swap_exec Refill k1 = Some k2 \<and> swap_exec Launder k2 = Some k3 \<and> entry_data k3 1 = (\<lambda>_. 7)"
proof -
  obtain k1 where k1: "swap_exec (Swap_In 1) swap_demo = Some k1" "swap_ok k1" "live k1 1"
    using swap_exec_ok [OF swap_demo_ok(1,2), of "Swap_In 1"] swap_demo_ok(2) by auto
  obtain k2 where k2: "swap_exec Refill k1 = Some k2" "swap_ok k2" "live k2 1" using swap_exec_ok [OF k1(2,3), of Refill] by auto
  obtain k3 where k3: "swap_exec Launder k2 = Some k3" using swap_exec_ok [OF k2(2,3), of Launder] by auto
  have e: "swap_enabled 1 (Swap_In 1) swap_demo" using swap_demo_ok(2) by simp
  have "swap_reach 1 swap_demo k1" by (rule swap_reach.step [OF swap_reach.start e k1(1)])
  then have "swap_reach 1 swap_demo k2" using swap_reach.step [OF _ _ k2(1)] by simp
  then have "swap_reach 1 swap_demo k3" using swap_reach.step [OF _ _ k3] by simp
  then have "entry_data k3 1 = (\<lambda>_. 7)" using swap_contents_safe [OF swap_demo_ok(1,2)] swap_demo_ok(3) by simp
  then show ?thesis using k1(1) k2(1) k3 by blast
qed

theorem swap_in_page_correct_witness:
  "\<exists>p k'. swap_in_page no_retry (entry_of 1) swap_demo = Some (0, Some p, k') \<and> frames k' p = (\<lambda>_. 7)"
proof -
  obtain np k1 where a: "alloc_page no_retry swap_demo = Some (np, k1)" "swap_ok k1" "contents_kept swap_demo k1" "\<forall>p. np = Some p \<longrightarrow> in_use p k1"
    by (rule no_retry_alloc [OF swap_demo_ok(1)])
  obtain p b where b: "buddy_alloc_pages 1 demo_phys = Some (Some p, b)" by (rule swap_demo_alloc)
  have "alloc_page no_retry swap_demo = Some (Some p, swap_demo\<lparr>phys := b\<rparr>)"
    by (subst alloc_pages.simps) (use b in \<open>simp add: swap_demo_def\<close>)
  then have "np = Some p" "next_io k1 = None" using a(1) by (auto simp: next_io_def swap_demo_def)
  then show ?thesis
    using swap_in_page_correct [OF swap_demo_ok(1,2) a] swap_demo_ok(3) by (auto simp: swap_in_post_def split: option.splits)
qed

lemma swap_demo_launder: "map_option fst (swap_exec (Swap_In 1) swap_demo \<bind> swap_exec Refill \<bind> page_launder) = Some 1"
  by code_simp

theorem page_launder_correct_witness:
  "\<exists>k k'. swap_ok k \<and> page_launder k = Some (1, k') \<and> swap_ok k' \<and> card (free_pages_of (phys k')) = card (free_pages_of (phys k)) + 1 \<and> entry_data k' 1 = (\<lambda>_. 7)"
proof -
  obtain k1 where k1: "swap_exec (Swap_In 1) swap_demo = Some k1" "swap_ok k1" "live k1 1" "entry_data k1 1 = (\<lambda>_. 7)"
    using swap_exec_ok [OF swap_demo_ok(1,2), of "Swap_In 1"] swap_demo_ok(2,3) by auto
  obtain k2 where k2: "swap_exec Refill k1 = Some k2" "swap_ok k2" "live k2 1" "entry_data k2 1 = (\<lambda>_. 7)" using swap_exec_ok [OF k1(2,3), of Refill] k1(4) by auto
  have "map_option fst (page_launder k2) = Some 1" using swap_demo_launder unfolding k1(1) by (simp only: bind.bind_lunit k2(1))
  then show ?thesis using page_launder_correct [OF k2(2)] k2 by auto
qed

end
