(* ===== verification/Page_Table.thy ===== *)
theory Page_Table
  imports Swap_Run Vmm
begin

text \<open>
  Page tables (\<^verbatim>\<open>kern/mm/pmm.c\<close>).  A page directory and its page tables are page frames, whose words are in the field \<open>frames\<close> of the state of
  \<open>Swap\<close>; a directory is given by the number of its frame.  \<^verbatim>\<open>get_pte\<close> and its callers use the bits of a linear address above the offset in
  the page only, so an address is the number \<open>v\<close> of its page here, \<^verbatim>\<open>PDX\<close> is \<open>v div 1024\<close> and \<^verbatim>\<open>PTX\<close> is \<open>v mod 1024\<close>; the loops over user
  ranges stay below \<^verbatim>\<open>USERTOP\<close>, so that nothing wraps around and the test \<^verbatim>\<open>start != 0\<close> never ends them.  A pointer to an entry
  is the frame and the index.  Invalidating the TLB has no effect on the tables.  As in \<open>Swap\<close>, \<open>tfp\<close> is what happens while an allocation waits.
\<close>

abbreviation PTE_P :: u32 where "PTE_P \<equiv> 1"
abbreviation PTE_W :: u32 where "PTE_W \<equiv> 2"
abbreviation PTE_U :: u32 where "PTE_U \<equiv> 4"
abbreviation PTE_A :: u32 where "PTE_A \<equiv> 0x20"
abbreviation PTE_D :: u32 where "PTE_D \<equiv> 0x40"
abbreviation PTE_SWAP :: u32 where "PTE_SWAP \<equiv> 0x60"
abbreviation PTE_USER :: u32 where "PTE_USER \<equiv> 7"

type_synonym tfp_t = "nat \<Rightarrow> vmem \<Rightarrow> bool \<times> vmem"

definition pte_ppn :: "u32 \<Rightarrow> nat" where
  "pte_ppn e = unat (drop_bit 12 e)"

definition present :: "u32 \<Rightarrow> bool" where
  "present e \<longleftrightarrow> bit e 0"

definition page2pa :: "nat \<Rightarrow> u32" where
  "page2pa p = push_bit 12 (of_nat p)"

definition pa2page :: "u32 \<Rightarrow> vmem \<Rightarrow> nat option" where
  "pa2page e k = (if pte_ppn e < npage (phys k) then Some (pte_ppn e) else None)"

definition pte2page :: "u32 \<Rightarrow> vmem \<Rightarrow> nat option" where
  "pte2page e k = (if present e then pa2page e k else None)"

definition set_word :: "nat \<Rightarrow> nat \<Rightarrow> u32 \<Rightarrow> vmem \<Rightarrow> vmem" where
  "set_word f i w k = k\<lparr>frames := (frames k)(f := (frames k f)(i := w))\<rparr>"

subsection \<open>Entries\<close>

definition get_pte :: "tfp_t \<Rightarrow> nat \<Rightarrow> nat \<Rightarrow> bool \<Rightarrow> vmem \<Rightarrow> ((nat \<times> nat) option \<times> vmem) option" where
  "get_pte tfp pd v create k = do {
     (found, k) \<leftarrow>
       (if present (frames k pd (v div 1024)) then Some (True, k)
        else if \<not> create then Some (False, k)
        else do {
          (page, k) \<leftarrow> alloc_page tfp k;
          (case page of
             None \<Rightarrow> Some (False, k)
           | Some p \<Rightarrow>
               let k = set_page_ref p 1 k;
                   k = k\<lparr>frames := (frames k)(p := (\<lambda>_. 0))\<rparr>
               in Some (True, set_word pd (v div 1024) (page2pa p OR PTE_U OR PTE_W OR PTE_P) k))
        });
     (if \<not> found then Some (None, k)
      else do {
        t \<leftarrow> pa2page (frames k pd (v div 1024)) k;
        Some (Some (t, v mod 1024), k)
      })
   }"

definition get_page :: "nat \<Rightarrow> nat \<Rightarrow> vmem \<Rightarrow> (nat option \<times> (nat \<times> nat) option) option" where
  "get_page pd v k = do {
     (ptep, k) \<leftarrow> get_pte no_retry pd v False k;
     (case ptep of
        None \<Rightarrow> Some (None, None)
      | Some (f, i) \<Rightarrow>
          if present (frames k f i) then do { p \<leftarrow> pa2page (frames k f i) k; Some (Some p, ptep) }
          else Some (None, ptep))
   }"

definition page_remove_pte :: "nat \<times> nat \<Rightarrow> vmem \<Rightarrow> vmem option" where
  "page_remove_pte ptep k =
     (case ptep of (f, i) \<Rightarrow>
        if present (frames k f i) then do {
          p \<leftarrow> pte2page (frames k f i) k;
          k \<leftarrow> page_unmap p (bit (frames k f i) 6) k;
          Some (set_word f i 0 k)
        }
        else if frames k f i \<noteq> 0 then do {
          k \<leftarrow> swap_remove_entry (frames k f i) k;
          Some (set_word f i 0 k)
        }
        else Some k)"

definition page_remove :: "nat \<Rightarrow> nat \<Rightarrow> vmem \<Rightarrow> vmem option" where
  "page_remove pd v k = do {
     (ptep, k) \<leftarrow> get_pte no_retry pd v False k;
     (case ptep of None \<Rightarrow> Some k | Some x \<Rightarrow> page_remove_pte x k)
   }"

definition page_insert :: "tfp_t \<Rightarrow> nat \<Rightarrow> nat \<Rightarrow> nat \<Rightarrow> u32 \<Rightarrow> vmem \<Rightarrow> (int \<times> vmem) option" where
  "page_insert tfp pd p v perm k = do {
     (ptep, k) \<leftarrow> get_pte tfp pd v True k;
     (case ptep of
        None \<Rightarrow> Some (- E_NO_MEM, k)
      | Some (f, i) \<Rightarrow> do {
          let k = set_page_ref p (page_ref p k + 1) k;
          k \<leftarrow> (if frames k f i \<noteq> 0 then do {
                 same \<leftarrow> (if present (frames k f i) then do { q \<leftarrow> pte2page (frames k f i) k; Some (q = p) } else Some False);
                 (if same then Some (set_page_ref p (page_ref p k - 1) k) else page_remove_pte (f, i) k)
               }
               else Some k);
          Some (0, set_word f i (page2pa p OR PTE_P OR perm) k)
        })
   }"

definition pgdir_alloc_page :: "tfp_t \<Rightarrow> nat \<Rightarrow> nat \<Rightarrow> u32 \<Rightarrow> vmem \<Rightarrow> (nat option \<times> vmem) option" where
  "pgdir_alloc_page tfp pd v perm k = do {
     (page, k) \<leftarrow> alloc_page tfp k;
     (case page of
        None \<Rightarrow> Some (None, k)
      | Some p \<Rightarrow> do {
          (ret, k) \<leftarrow> page_insert tfp pd p v perm k;
          (if ret \<noteq> 0 then do { k \<leftarrow> free_page p k; Some (None, k) } else Some (Some p, k))
        })
   }"

subsection \<open>Ranges\<close>

text \<open>One round of the loop of \<open>unmap_range\<close>: where it goes on, and the state.\<close>

definition unmap_step :: "nat \<Rightarrow> nat \<Rightarrow> vmem \<Rightarrow> (nat \<times> vmem) option" where
  "unmap_step pd v k = do {
     (ptep, k) \<leftarrow> get_pte no_retry pd v False k;
     (case ptep of
        None \<Rightarrow> Some ((v div 1024 + 1) * 1024, k)
      | Some (f, i) \<Rightarrow> do {
          k \<leftarrow> (if frames k f i \<noteq> 0 then page_remove_pte (f, i) k else Some k);
          Some (v + 1, k)
        })
   }"

lemma next_table: "v < (v div 1024 + 1) * 1024" for v :: nat
  by (metis Suc_eq_plus1 add.commute dividend_less_div_times zero_less_numeral mult.commute mult_Suc)

lemma unmap_step_next: "unmap_step pd v k = Some (n, k') \<Longrightarrow> v < n"
  using next_table [of v] by (auto simp: unmap_step_def split: Option.bind_splits option.splits prod.splits)

function unmap_range_loop :: "nat \<Rightarrow> nat \<Rightarrow> nat \<Rightarrow> vmem \<Rightarrow> vmem option" where
  "unmap_range_loop pd e v k =
     (case unmap_step pd v k of
        None \<Rightarrow> None
      | Some (n, k) \<Rightarrow> if n < e then unmap_range_loop pd e n k else Some k)"
  by pat_completeness auto
termination
  by (relation "measure (\<lambda>(pd, e, v, k). e - v)") (auto dest!: unmap_step_next)

declare unmap_range_loop.simps [simp del]

definition unmap_range :: "nat \<Rightarrow> u32 \<Rightarrow> u32 \<Rightarrow> vmem \<Rightarrow> vmem option" where
  "unmap_range pd start end' k = do {
     kassert (start mod PGSIZE = 0 \<and> end' mod PGSIZE = 0);
     kassert (USER_ACCESS start end');
     unmap_range_loop pd (unat end' div 4096) (unat start div 4096) k
   }"

text \<open>\<open>exit_range\<close> goes over directory entries; \<open>d\<close> is the index of the entry.\<close>

function exit_range_loop :: "nat \<Rightarrow> nat \<Rightarrow> nat \<Rightarrow> vmem \<Rightarrow> vmem option" where
  "exit_range_loop pd e d k = do {
     k \<leftarrow> (if present (frames k pd d) then do {
            p \<leftarrow> pa2page (frames k pd d) k;
            k \<leftarrow> free_page p k;
            Some (set_word pd d 0 k)
          }
          else Some k);
     (if (d + 1) * 1024 < e then exit_range_loop pd e (d + 1) k else Some k)
   }"
  by pat_completeness auto
termination
  by (relation "measure (\<lambda>(pd, e, d, k). e - d)") auto

declare exit_range_loop.simps [simp del]

definition exit_range :: "nat \<Rightarrow> u32 \<Rightarrow> u32 \<Rightarrow> vmem \<Rightarrow> vmem option" where
  "exit_range pd start end' k = do {
     kassert (start mod PGSIZE = 0 \<and> end' mod PGSIZE = 0);
     kassert (USER_ACCESS start end');
     exit_range_loop pd (unat end' div 4096) (unat start div 4194304) k
   }"

text \<open>One round of the loop of \<open>copy_range\<close>; \<^const>\<open>None\<close> as the next position means \<^verbatim>\<open>-E_NO_MEM\<close>.\<close>

definition copy_step :: "tfp_t \<Rightarrow> nat \<Rightarrow> nat \<Rightarrow> bool \<Rightarrow> nat \<Rightarrow> vmem \<Rightarrow> (nat option \<times> vmem) option" where
  "copy_step tfp to frm share v k = do {
     (ptep, k) \<leftarrow> get_pte tfp frm v False k;
     (case ptep of
        None \<Rightarrow> Some (Some ((v div 1024 + 1) * 1024), k)
      | Some (f, i) \<Rightarrow>
          if frames k f i = 0 then Some (Some (v + 1), k)
          else do {
            (nptep, k) \<leftarrow> get_pte tfp to v True k;
            (case nptep of
               None \<Rightarrow> Some (None, k)
             | Some (nf, ni) \<Rightarrow> do {
                 kassert (frames k f i \<noteq> 0 \<and> frames k nf ni = 0);
                 k \<leftarrow>
                   (if present (frames k f i) then do {
                      let e = frames k f i;
                      p \<leftarrow> pte2page e k;
                      (perm, k) \<leftarrow>
                        (if \<not> share \<and> bit e 1 then do {
                           let perm = (e AND PTE_USER) AND NOT PTE_W;
                           (_, k) \<leftarrow> page_insert tfp frm p v (perm OR (e AND PTE_SWAP)) k;
                           Some (perm, k)
                         }
                         else Some (e AND PTE_USER, k));
                      (ret, k) \<leftarrow> page_insert tfp to p v perm k;
                      kassert (ret = 0);
                      Some k
                    }
                    else do {
                      k \<leftarrow> swap_duplicate (frames k f i) k;
                      Some (set_word nf ni (frames k f i) k)
                    });
                 Some (Some (v + 1), k)
               })
          })
   }"

lemma copy_step_next: "copy_step tfp to frm share v k = Some (Some n, k') \<Longrightarrow> v < n"
  using next_table [of v] by (auto simp: copy_step_def Let_def split: Option.bind_splits option.splits prod.splits if_splits)

function copy_range_loop :: "tfp_t \<Rightarrow> nat \<Rightarrow> nat \<Rightarrow> bool \<Rightarrow> nat \<Rightarrow> nat \<Rightarrow> vmem \<Rightarrow> (int \<times> vmem) option" where
  "copy_range_loop tfp to frm share e v k =
     (case copy_step tfp to frm share v k of
        None \<Rightarrow> None
      | Some (None, k) \<Rightarrow> Some (- E_NO_MEM, k)
      | Some (Some n, k) \<Rightarrow> if n < e then copy_range_loop tfp to frm share e n k else Some (0, k))"
  by pat_completeness auto
termination
  by (relation "measure (\<lambda>(tfp, to, frm, share, e, v, k). e - v)") (auto dest!: copy_step_next)

declare copy_range_loop.simps [simp del]

definition copy_range :: "tfp_t \<Rightarrow> nat \<Rightarrow> nat \<Rightarrow> u32 \<Rightarrow> u32 \<Rightarrow> bool \<Rightarrow> vmem \<Rightarrow> (int \<times> vmem) option" where
  "copy_range tfp to frm start end' share k = do {
     kassert (start mod PGSIZE = 0 \<and> end' mod PGSIZE = 0);
     kassert (USER_ACCESS start end');
     copy_range_loop tfp to frm share (unat end' div 4096) (unat start div 4096) k
   }"

end
