(* ===== verification/Page_Inv.thy ===== *)
theory Page_Inv
  imports Page_Table
begin

text \<open>
  What a page directory says about user pages, and how the operations on ranges change it together with the counts of pages and swap entries.
\<close>

subsection \<open>The entries of a directory\<close>

abbreviation USER_PAGES :: nat where "USER_PAGES \<equiv> 720896"

definition pte_view :: "nat \<Rightarrow> vmem \<Rightarrow> nat \<Rightarrow> u32" where
  "pte_view pd k v = (if present (frames k pd (v div 1024)) then frames k (pte_ppn (frames k pd (v div 1024))) (v mod 1024) else 0)"

definition maps :: "u32 \<Rightarrow> nat \<Rightarrow> bool" where
  "maps e p \<longleftrightarrow> present e \<and> pte_ppn e = p"

definition tables :: "nat \<Rightarrow> vmem \<Rightarrow> nat set" where
  "tables pd k = {pte_ppn (frames k pd d) |d. d < 704 \<and> present (frames k pd d)}"

definition tables_ok :: "nat \<Rightarrow> vmem \<Rightarrow> bool" where
  "tables_ok pd k \<longleftrightarrow> (\<forall>t\<in>tables pd k. t < npage (phys k) \<and> t \<noteq> pd \<and> in_use t k) \<and>
     inj_on (\<lambda>d. pte_ppn (frames k pd d)) {d. d < 704 \<and> present (frames k pd d)}"

lemma not_present_entry [simp]: "\<not> present (entry_of off)"
  by (simp add: present_def entry_of_def bit_push_bit_iff)

lemma not_present_0 [simp]: "\<not> present 0"
  by (simp add: present_def)

lemma view_set_word:
  assumes t: "tables_ok pd k" and v: "v < USER_PAGES" "w < USER_PAGES" and p: "present (frames k pd (v div 1024))"
  shows "pte_view pd (set_word (pte_ppn (frames k pd (v div 1024))) (v mod 1024) e k) w = (if w = v then e else pte_view pd k w)"
proof -
  let ?t = "pte_ppn (frames k pd (v div 1024))"
  have d: "v div 1024 < 704" "w div 1024 < 704" using v by simp_all
  have ne: "?t \<noteq> pd" using t d(1) p by (auto simp: tables_ok_def tables_def)
  have inj: "w div 1024 = v div 1024" if "present (frames k pd (w div 1024))" "pte_ppn (frames k pd (w div 1024)) = ?t"
    using t that d p unfolding tables_ok_def inj_on_def by blast
  have eq: "w div 1024 = v div 1024 \<Longrightarrow> w mod 1024 = v mod 1024 \<Longrightarrow> w = v" by (metis div_mult_mod_eq)
  show ?thesis
    using ne inj p eq by (auto simp: pte_view_def set_word_def)
qed

lemma in_use_set_word [simp]: "in_use t (set_word f i e k) = in_use t k"
  by (simp add: in_use_def set_word_def)

lemma set_word_tables:
  assumes "tables_ok pd k" "f \<noteq> pd"
  shows "tables_ok pd (set_word f i e k)"
proof -
  have "frames (set_word f i e k) pd = frames k pd" "phys (set_word f i e k) = phys k" using assms(2) by (simp_all add: set_word_def)
  then show ?thesis using assms(1) by (simp add: tables_ok_def tables_def)
qed

lemma tables_ok_step:
  assumes t: "tables_ok pd k" and f: "frames k' pd = frames k pd" and l: "same_layout (phys k) (phys k')"
    and u: "\<And>t. t \<in> tables pd k \<Longrightarrow> in_use t k \<Longrightarrow> \<not> PageSwap t k' \<and> t \<notin> free_pages_of (phys k')"
  shows "tables_ok pd k'" "tables pd k' = tables pd k"
proof -
  show e: "tables pd k' = tables pd k" by (simp add: tables_def f)
  have "npage (phys k') = npage (phys k)" using l by (simp add: same_layout_def)
  moreover have "in_use q k'" if "q \<in> tables pd k" for q
    using t u [OF that] that managed_layout [OF l] by (auto simp: tables_ok_def in_use_def)
  ultimately show "tables_ok pd k'" using t unfolding tables_ok_def e f by auto
qed

lemma pte_view_cong: "frames k' = frames k \<Longrightarrow> pte_view pd k' = pte_view pd k"
  by (simp add: pte_view_def fun_eq_iff)

lemma get_pte_found:
  assumes "tables_ok pd k" "v < USER_PAGES" "present (frames k pd (v div 1024))"
  shows "get_pte tfp pd v create k = Some (Some (pte_ppn (frames k pd (v div 1024)), v mod 1024), k)"
proof -
  have "v div 1024 < 704" using assms(2) by simp
  then have "pte_ppn (frames k pd (v div 1024)) \<in> tables pd k" using assms(3) by (auto simp: tables_def)
  then show ?thesis using assms(1,3) by (simp add: get_pte_def pa2page_def tables_ok_def)
qed

lemma get_pte_absent: "\<not> present (frames k pd (v div 1024)) \<Longrightarrow> get_pte tfp pd v False k = Some (None, k)"
  by (simp add: get_pte_def)

subsection \<open>Counting references\<close>

definition npt :: "nat \<Rightarrow> vmem \<Rightarrow> nat set \<Rightarrow> nat \<Rightarrow> nat" where
  "npt pd k W p = card {w \<in> W. maps (pte_view pd k w) p}"

definition nsw :: "nat \<Rightarrow> vmem \<Rightarrow> nat set \<Rightarrow> nat \<Rightarrow> nat" where
  "nsw pd k W off = card {w \<in> W. pte_view pd k w = entry_of off}"

text \<open>The entries of the pages \<open>W\<close> refer to pages and swap entries that count these references; a page of the cache that differs from the device
  and is referred to by these entries only is known to be dirty.\<close>

definition range_ok :: "nat \<Rightarrow> nat set \<Rightarrow> vmem \<Rightarrow> bool" where
  "range_ok pd W k \<longleftrightarrow> finite W \<and>
     (\<forall>w\<in>W. pte_view pd k w = 0 \<or>
        present (pte_view pd k w) \<and> pte_ppn (pte_view pd k w) \<notin> free_pages_of (phys k) \<union> tables pd k \<and> managed_frames (phys k) (pte_ppn (pte_view pd k w)) 1 \<or>
        (\<exists>off. pte_view pd k w = entry_of off \<and> live k off)) \<and>
     (\<forall>p. int (npt pd k W p) \<le> page_ref p k) \<and>
     (\<forall>off. live k off \<longrightarrow> nsw pd k W off \<le> unat (mem_map k off)) \<and>
     (\<forall>p. PageSwap p k \<and> npt pd k W p \<noteq> 0 \<longrightarrow> PageDirty p k \<or> page_ref p k > int (npt pd k W p) \<or>
        (\<exists>w\<in>W. maps (pte_view pd k w) p \<and> bit (pte_view pd k w) 6) \<or> (\<forall>off. valid_off k off \<and> cached k off p \<longrightarrow> frames k p = swap_disk k off))"

lemma range_okD:
  assumes "range_ok pd W k"
  shows "finite W" "int (npt pd k W p) \<le> page_ref p k" "live k off \<Longrightarrow> nsw pd k W off \<le> unat (mem_map k off)"
    "w \<in> W \<Longrightarrow> present (pte_view pd k w) \<Longrightarrow> pte_ppn (pte_view pd k w) \<notin> free_pages_of (phys k) \<union> tables pd k \<and> managed_frames (phys k) (pte_ppn (pte_view pd k w)) 1"
    "w \<in> W \<Longrightarrow> \<not> present (pte_view pd k w) \<Longrightarrow> pte_view pd k w \<noteq> 0 \<Longrightarrow> \<exists>off. pte_view pd k w = entry_of off \<and> live k off"
    "PageSwap p k \<Longrightarrow> npt pd k W p \<noteq> 0 \<Longrightarrow> PageDirty p k \<or> page_ref p k > int (npt pd k W p) \<or>
       (\<exists>w\<in>W. maps (pte_view pd k w) p \<and> bit (pte_view pd k w) 6) \<or> (\<forall>off. valid_off k off \<and> cached k off p \<longrightarrow> frames k p = swap_disk k off)"
  using assms not_present_0 not_present_entry unfolding range_ok_def by (blast, blast, blast, metis, blast, blast)

lemma maps_0 [simp]: "\<not> maps 0 p"
  by (simp add: maps_def)

lemma npt_remove:
  assumes "finite W" "v \<in> W"
  shows "npt pd k W p = npt pd k (W - {v}) p + (if maps (pte_view pd k v) p then 1 else 0)"
    "nsw pd k W off = nsw pd k (W - {v}) off + (if pte_view pd k v = entry_of off then 1 else 0)"
proof -
  have "{w \<in> W. maps (pte_view pd k w) p} = (if maps (pte_view pd k v) p then insert v {w \<in> W - {v}. maps (pte_view pd k w) p} else {w \<in> W - {v}. maps (pte_view pd k w) p})"
    "{w \<in> W. pte_view pd k w = entry_of off} = (if pte_view pd k v = entry_of off then insert v {w \<in> W - {v}. pte_view pd k w = entry_of off} else {w \<in> W - {v}. pte_view pd k w = entry_of off})"
    using assms(2) by auto
  then show "npt pd k W p = npt pd k (W - {v}) p + (if maps (pte_view pd k v) p then 1 else 0)"
    "nsw pd k W off = nsw pd k (W - {v}) off + (if pte_view pd k v = entry_of off then 1 else 0)"
    using assms(1) by (simp_all add: npt_def nsw_def)
qed

lemma npt_cong: "(\<And>w. w \<in> W \<Longrightarrow> pte_view pd k' w = pte_view pd k w) \<Longrightarrow> npt pd k' W p = npt pd k W p \<and> nsw pd k' W off = nsw pd k W off"
  by (auto simp: npt_def nsw_def intro!: arg_cong [where f = card])

subsection \<open>Removing one entry\<close>

lemma set_word_ok:
  assumes ok: "swap_ok k" and f: "in_use f k"
  shows "swap_ok (set_word f i e k)" "contents_kept k (set_word f i e k)"
proof -
  have uc: "user_change (\<lambda>pg. pg)" by (simp add: user_change_def)
  have n: "\<not> cached k off f" for off using f by (simp add: in_use_def cached_def)
  have e: "set_word f i e k = k\<lparr>phys := upd_page f (\<lambda>pg. pg) (phys k), frames := (frames k)(f := (frames k f)(i := e))\<rparr>" by (simp add: set_word_def upd_page_def)
  have p: "f \<notin> free_pages_of (phys k)" "PageSwap f k \<Longrightarrow> managed_frames (phys k) f 1" using f by (auto simp: in_use_def)
  note u = user_update_ok [OF ok p uc, of "(frames k f)(i := e)"]
  show "swap_ok (set_word f i e k)" unfolding e by (rule u(1)) (use n in auto)
  show "contents_kept k (set_word f i e k)" unfolding e by (rule u(2)) (use n in auto)
qed

lemma page_unmap_frame:
  assumes "page_unmap p d k = Some k'"
  shows "page_index k' = page_index k" "swap_disk k' = swap_disk k" "max_swap_offset k' = max_swap_offset k" "q \<noteq> p \<Longrightarrow> user_part (page_at q k') = user_part (page_at q k)"
    "PageSwap p k' = PageSwap p k" "PageSwap p k \<Longrightarrow> PageDirty p k' \<longleftrightarrow> d \<or> PageDirty p k" "page_ref p k' = page_ref p k - 1"
proof -
  have fr: "page_index k' = page_index k \<and> swap_disk k' = swap_disk k \<and> max_swap_offset k' = max_swap_offset k \<and>
      (q \<noteq> p \<longrightarrow> user_part (page_at q k') = user_part (page_at q k)) \<and> \<not> test_flag PG_swap (page_at p k') \<and> page_ref p k' = 0"
    if h: "free_page p (set_page_ref p (page_ref p k - 1) k) = Some k'"
  proof -
    obtain b where b: "buddy_free_pages p 1 (upd_page p (\<lambda>pg. pg\<lparr>ref := page_ref p k - 1\<rparr>) (phys k)) = Some b" "k' = (set_page_ref p (page_ref p k - 1) k)\<lparr>phys := b\<rparr>"
      using h by (auto simp: free_page_def set_page_ref_def Option.bind_eq_Some_conv)
    have "user_part (pages b p) = (0, 0)" using buddy_free_user [OF b(1), of p] by simp
    then show ?thesis using b(2) buddy_free_user [OF b(1), of q] no_flags by (auto simp: set_page_ref_def page_ref_def user_part_def)
  qed
  show "page_index k' = page_index k" "swap_disk k' = swap_disk k" "max_swap_offset k' = max_swap_offset k" "q \<noteq> p \<Longrightarrow> user_part (page_at q k') = user_part (page_at q k)"
    "PageSwap p k' = PageSwap p k" "PageSwap p k \<Longrightarrow> PageDirty p k' \<longleftrightarrow> d \<or> PageDirty p k" "page_ref p k' = page_ref p k - 1"
    using assms fr by (auto simp: page_unmap_def Let_def set_page_ref_def page_ref_def split: if_splits)
qed

lemma swap_remove_entry_frame:
  assumes "swap_remove_entry e k = Some k'"
  shows "frames k' = frames k" "page_index k' = page_index k" "swap_disk k' = swap_disk k" "max_swap_offset k' = max_swap_offset k"
    "user_part (page_at q k') = user_part (page_at q k) \<or> page_ref q k = 0 \<and> PageSwap q k \<and> user_part (page_at q k') = (0, 0)"
    "swap_offset e k = Some off \<Longrightarrow> o' \<noteq> off \<Longrightarrow> mem_map k' o' = mem_map k o'"
proof -
  have fr: "frames k2 = frames k1 \<and> page_index k2 = page_index k1 \<and> swap_disk k2 = swap_disk k1 \<and> max_swap_offset k2 = max_swap_offset k1 \<and> mem_map k2 = mem_map k1 \<and>
      (user_part (page_at q k2) = user_part (page_at q k1) \<or> page_ref q k1 = 0 \<and> PageSwap q k1 \<and> user_part (page_at q k2) = (0, 0))"
    if h: "swap_free_page p k1 = Some k2" for p k1 k2
  proof -
    obtain b where b: "buddy_free_pages p 1 (upd_page p (clear_flag PG_swap) (phys k1)) = Some b" "PageSwap p k1" "page_ref p k1 = 0"
        "k2 = (upd_pg p (clear_flag PG_swap) k1)\<lparr>entry_list := (\<lambda>h. remove1 p (entry_list k1 h)), phys := b\<rparr>"
      using h by (auto simp: swap_free_page_def swap_page_del_def free_page_def Option.bind_eq_Some_conv)
    then show ?thesis using buddy_free_user [OF b(1), of q] by (cases "q = p") auto
  qed
  have ld: "frames k2 = frames k1 \<and> page_index k2 = page_index k1 \<and> swap_disk k2 = swap_disk k1 \<and> max_swap_offset k2 = max_swap_offset k1 \<and> mem_map k2 = mem_map k1 \<and> phys k2 = phys k1"
    if "swap_list_del p k1 = Some k2" for p k1 k2
    using that by (auto simp: swap_list_del_def Let_def split: Option.bind_splits if_splits)
  have "frames k' = frames k \<and> page_index k' = page_index k \<and> swap_disk k' = swap_disk k \<and> max_swap_offset k' = max_swap_offset k \<and>
      (user_part (page_at q k') = user_part (page_at q k) \<or> page_ref q k = 0 \<and> PageSwap q k \<and> user_part (page_at q k') = (0, 0)) \<and>
      (swap_offset e k = Some off \<longrightarrow> o' \<noteq> off \<longrightarrow> mem_map k' o' = mem_map k o')"
    using assms by (auto simp: swap_remove_entry_def Let_def page_ref_def dest!: ld fr split: Option.bind_splits option.splits if_splits)
  then show "frames k' = frames k" "page_index k' = page_index k" "swap_disk k' = swap_disk k" "max_swap_offset k' = max_swap_offset k"
    "user_part (page_at q k') = user_part (page_at q k) \<or> page_ref q k = 0 \<and> PageSwap q k \<and> user_part (page_at q k') = (0, 0)"
    "swap_offset e k = Some off \<Longrightarrow> o' \<noteq> off \<Longrightarrow> mem_map k' o' = mem_map k o'"
    by blast+
qed

text \<open>A swap entry all of whose references are in the range; a page that nothing refers to after it: outside of the cache its last entry was in the range, in the
  cache no reference to its swap entry is left either.\<close>

definition dropped :: "nat \<Rightarrow> nat set \<Rightarrow> vmem \<Rightarrow> nat \<Rightarrow> bool" where
  "dropped pd W k off \<longleftrightarrow> live k off \<and> unat (mem_map k off) \<le> nsw pd k W off"

definition released :: "nat \<Rightarrow> nat set \<Rightarrow> vmem \<Rightarrow> nat \<Rightarrow> bool" where
  "released pd W k p \<longleftrightarrow> page_ref p k = int (npt pd k W p) \<and>
     (if PageSwap p k then \<exists>off. cached k off p \<and> dropped pd W k off else 0 < npt pd k W p)"

text \<open>What is freed.  A page of the cache whose last reference was an entry of the range may stay there: the scans of \<^verbatim>\<open>kswapd\<close> free it.\<close>

definition given_up :: "nat \<Rightarrow> nat set \<Rightarrow> vmem \<Rightarrow> vmem \<Rightarrow> bool" where
  "given_up pd W k k' \<longleftrightarrow> max_swap_offset k' = max_swap_offset k \<and> page_index k' = page_index k \<and>
     (\<forall>off. dropped pd W k off \<longrightarrow> mem_map k' off \<in> {0, SWAP_UNUSED}) \<and>
     (\<forall>off. valid_off k off \<and> \<not> live k off \<longrightarrow> mem_map k' off = mem_map k off) \<and>
     (\<forall>p. PageSwap p k' \<longleftrightarrow> PageSwap p k \<and> p \<notin> free_pages_of (phys k')) \<and>
     free_pages_of (phys k) \<subseteq> free_pages_of (phys k') \<and> (\<forall>p\<in>free_pages_of (phys k') - free_pages_of (phys k). released pd W k p) \<and>
     (\<forall>p. released pd W k p \<and> (PageSwap p k \<longrightarrow> npt pd k W p = 0) \<longrightarrow> p \<in> free_pages_of (phys k'))"

lemma given_upD:
  assumes "given_up pd W k k'"
  shows "max_swap_offset k' = max_swap_offset k" "page_index k' = page_index k" "dropped pd W k off \<Longrightarrow> mem_map k' off \<in> {0, SWAP_UNUSED}"
    "valid_off k off \<Longrightarrow> \<not> live k off \<Longrightarrow> mem_map k' off = mem_map k off" "PageSwap p k' \<longleftrightarrow> PageSwap p k \<and> p \<notin> free_pages_of (phys k')"
    "p \<in> free_pages_of (phys k) \<Longrightarrow> p \<in> free_pages_of (phys k')" "p \<in> free_pages_of (phys k') \<Longrightarrow> p \<notin> free_pages_of (phys k) \<Longrightarrow> released pd W k p"
    "released pd W k p \<Longrightarrow> (PageSwap p k \<Longrightarrow> npt pd k W p = 0) \<Longrightarrow> p \<in> free_pages_of (phys k')"
  using assms unfolding given_up_def by blast+

lemma given_upI:
  assumes "max_swap_offset k' = max_swap_offset k" "page_index k' = page_index k" "\<And>off. dropped pd W k off \<Longrightarrow> mem_map k' off \<in> {0, SWAP_UNUSED}"
    "\<And>off. valid_off k off \<Longrightarrow> \<not> live k off \<Longrightarrow> mem_map k' off = mem_map k off" "\<And>p. PageSwap p k' \<longleftrightarrow> PageSwap p k \<and> p \<notin> free_pages_of (phys k')"
    "\<And>p. p \<in> free_pages_of (phys k) \<Longrightarrow> p \<in> free_pages_of (phys k')" "\<And>p. p \<in> free_pages_of (phys k') \<Longrightarrow> p \<notin> free_pages_of (phys k) \<Longrightarrow> released pd W k p"
    "\<And>p. released pd W k p \<Longrightarrow> (PageSwap p k \<Longrightarrow> npt pd k W p = 0) \<Longrightarrow> p \<in> free_pages_of (phys k')"
  shows "given_up pd W k k'"
  unfolding given_up_def using assms by blast

text \<open>What the removal of the entries of the pages \<open>W\<close> does.\<close>

definition unmapped :: "nat \<Rightarrow> nat set \<Rightarrow> vmem \<Rightarrow> vmem \<Rightarrow> bool" where
  "unmapped pd W k k' \<longleftrightarrow> swap_ok k' \<and> tables_ok pd k' \<and> tables pd k' = tables pd k \<and> (\<forall>f. f \<notin> tables pd k \<longrightarrow> frames k' f = frames k f) \<and>
     (\<forall>w<USER_PAGES. pte_view pd k' w = (if w \<in> W then 0 else pte_view pd k w)) \<and>
     (\<forall>p. page_ref p k' = page_ref p k - int (npt pd k W p)) \<and>
     (\<forall>off. live k off \<and> nsw pd k W off < unat (mem_map k off) \<longrightarrow>
        live k' off \<and> unat (mem_map k' off) = unat (mem_map k off) - nsw pd k W off \<and> entry_data k' off = entry_data k off) \<and>
     given_up pd W k k'"

lemma table_of:
  assumes "tables_ok pd k" "v < USER_PAGES" "pte_view pd k v \<noteq> 0"
  shows "present (frames k pd (v div 1024))" "pte_ppn (frames k pd (v div 1024)) \<in> tables pd k" "in_use (pte_ppn (frames k pd (v div 1024))) k"
    "pte_ppn (frames k pd (v div 1024)) \<noteq> pd" "frames k (pte_ppn (frames k pd (v div 1024))) (v mod 1024) = pte_view pd k v"
proof -
  show p: "present (frames k pd (v div 1024))" using assms(3) by (auto simp: pte_view_def split: if_splits)
  have "v div 1024 < 704" using assms(2) by simp
  then show t: "pte_ppn (frames k pd (v div 1024)) \<in> tables pd k" using p by (auto simp: tables_def)
  then show "in_use (pte_ppn (frames k pd (v div 1024))) k" "pte_ppn (frames k pd (v div 1024)) \<noteq> pd" using assms(1) by (auto simp: tables_ok_def)
  show "frames k (pte_ppn (frames k pd (v div 1024))) (v mod 1024) = pte_view pd k v" using p by (simp add: pte_view_def)
qed

text \<open>The common end of both cases: the entry is cleared.\<close>

lemma clear_entry:
  assumes t: "tables_ok pd k" and v: "v < USER_PAGES" "pte_view pd k v \<noteq> 0" and f: "f = pte_ppn (frames k pd (v div 1024))"
    and k1: "swap_ok k1" "frames k1 = frames k" "same_layout (phys k) (phys k1)"
    and u: "\<And>q. q \<in> tables pd k \<Longrightarrow> in_use q k \<Longrightarrow> \<not> PageSwap q k1 \<and> q \<notin> free_pages_of (phys k1)"
  defines "k' \<equiv> set_word f (v mod 1024) 0 k1"
  shows "swap_ok k'" "contents_kept k1 k'" "tables_ok pd k'" "tables pd k' = tables pd k" "\<And>g. g \<notin> tables pd k \<Longrightarrow> frames k' g = frames k g"
    "\<And>w. w < USER_PAGES \<Longrightarrow> pte_view pd k' w = (if w = v then 0 else pte_view pd k w)" "mem_map k' = mem_map k1" "phys k' = phys k1"
    "max_swap_offset k' = max_swap_offset k1" "page_index k' = page_index k1" "swap_disk k' = swap_disk k1"
proof -
  note tb = table_of [OF t v, folded f]
  have fr: "frames k1 pd = frames k pd" using k1(2) by simp
  note t1 = tables_ok_step [OF t fr k1(3) u]
  have fu: "in_use f k1" using t1 tb(2) by (simp add: tables_ok_def)
  show "swap_ok k'" "contents_kept k1 k'" using set_word_ok [OF k1(1) fu] by (simp_all add: k'_def)
  show "tables_ok pd k'" unfolding k'_def by (rule set_word_tables [OF t1(1) tb(4)])
  show "tables pd k' = tables pd k" using tb(4) t1(2) by (simp add: k'_def tables_def set_word_def)
  show "frames k' g = frames k g" if "g \<notin> tables pd k" for g using that tb(2) k1(2) by (auto simp: k'_def set_word_def)
  show "pte_view pd k' w = (if w = v then 0 else pte_view pd k w)" if "w < USER_PAGES" for w
  proof -
    have "pte_view pd (set_word (pte_ppn (frames k1 pd (v div 1024))) (v mod 1024) 0 k1) w = (if w = v then 0 else pte_view pd k1 w)"
      using view_set_word [OF t1(1) v(1) that] tb(1) k1(2) by simp
    then show ?thesis using pte_view_cong [OF k1(2)] k1(2) f by (simp add: k'_def)
  qed
  show "mem_map k' = mem_map k1" "phys k' = phys k1" "max_swap_offset k' = max_swap_offset k1" "page_index k' = page_index k1" "swap_disk k' = swap_disk k1"
    by (simp_all add: k'_def set_word_def)
qed

lemma swap_page_free: "swap_ok k \<Longrightarrow> PageSwap q k \<Longrightarrow> q \<notin> free_pages_of (phys k)"
  using swap_wf_page(1) [of "{}" "{}" k q] by (simp add: swap_ok_def)

lemma single_counts:
  "npt pd k {v} p = (if maps (pte_view pd k v) p then 1 else 0)" "nsw pd k {v} off = (if pte_view pd k v = entry_of off then 1 else 0)"
  using npt_remove(1) [of "{v}" v pd k p] npt_remove(2) [of "{v}" v pd k off] by (simp_all add: npt_def nsw_def)

lemma remove_present:
  assumes ok: "swap_ok k" and t: "tables_ok pd k" and r: "range_ok pd W k" and v: "v \<in> W" "W \<subseteq> {..<USER_PAGES}" and e: "present (pte_view pd k v)"
  shows "\<exists>k'. page_remove_pte (pte_ppn (frames k pd (v div 1024)), v mod 1024) k = Some k' \<and> unmapped pd {v} k k' \<and> range_ok pd (W - {v}) k'"
proof -
  let ?e = "pte_view pd k v" and ?f = "pte_ppn (frames k pd (v div 1024))"
  let ?p = "pte_ppn ?e"
  have vu: "v < USER_PAGES" using v by auto
  have nz: "?e \<noteq> 0" using e by auto
  note tb = table_of [OF t vu nz]
  have mp: "maps ?e ?p" using e by (simp add: maps_def)
  have pf: "?p \<notin> free_pages_of (phys k)" "?p \<notin> tables pd k" "managed_frames (phys k) ?p 1" using range_okD(4) [OF r v(1) e] by auto
  have cnt: "npt pd k W ?p = npt pd k (W - {v}) ?p + 1" using npt_remove(1) [OF range_okD(1) [OF r] v(1)] mp by simp
  have ge: "page_ref ?p k \<ge> int (npt pd k (W - {v}) ?p) + 1" using range_okD(2) [OF r, of ?p] cnt by simp
  have m: "mapped ?p k" using pf ge by (simp add: mapped_def)
  have ds: "dirty_seen ?p (bit ?e 6) k"
  proof (cases "PageSwap ?p k \<and> page_ref ?p k = 1")
    case False
    then show ?thesis using ge by (auto simp: dirty_seen_def cached_def)
  next
    case True
    then have z: "npt pd k (W - {v}) ?p = 0" using ge by simp
    have fin: "finite {w \<in> W - {v}. maps (pte_view pd k w) ?p}" using range_okD(1) [OF r] by simp
    have only: "w = v" if "w \<in> W" "maps (pte_view pd k w) ?p" for w using z that fin by (auto simp: npt_def)
    from range_okD(6) [OF r, of ?p] True cnt z
    have "PageDirty ?p k \<or> (\<exists>w\<in>W. maps (pte_view pd k w) ?p \<and> bit (pte_view pd k w) 6) \<or> (\<forall>off. valid_off k off \<and> cached k off ?p \<longrightarrow> frames k ?p = swap_disk k off)" by auto
    then show ?thesis using only by (auto simp: dirty_seen_def)
  qed
  obtain k1 where k1: "page_unmap ?p (bit ?e 6) k = Some k1" "swap_ok k1" "contents_kept k k1" "frames k1 = frames k" "mem_map k1 = mem_map k" "same_layout (phys k) (phys k1)"
      "if \<not> PageSwap ?p k \<and> page_ref ?p k = 1 then free_pages_of (phys k1) = insert ?p (free_pages_of (phys k)) else free_pages_of (phys k1) = free_pages_of (phys k) \<and> page_ref ?p k1 = page_ref ?p k - 1"
    using page_unmap_ok [OF ok m ds] by blast
  note fr = page_unmap_frame [OF k1(1)]
  have sw: "PageSwap q k1 = PageSwap q k" "q \<noteq> ?p \<Longrightarrow> PageDirty q k1 = PageDirty q k" "page_ref q k1 = page_ref q k - (if q = ?p then 1 else 0)" for q
    using fr(4) [of q] fr(5,7) user_part_eqD [of "page_at q k1" "page_at q k"] by (cases "q = ?p"; auto simp: page_ref_def)+
  have free1: "free_pages_of (phys k1) \<subseteq> insert ?p (free_pages_of (phys k))" "npt pd k (W - {v}) ?p \<noteq> 0 \<Longrightarrow> ?p \<notin> free_pages_of (phys k1)"
    using k1(7) pf(1) ge by (auto split: if_splits)
  have u: "\<not> PageSwap q k1 \<and> q \<notin> free_pages_of (phys k1)" if "q \<in> tables pd k" "in_use q k" for q
    using that sw(1) [of q] free1(1) pf(2) by (auto simp: in_use_def)
  note ce = clear_entry [OF t vu nz refl k1(2,4,6) u]
  let ?k' = "set_word ?f (v mod 1024) 0 k1"
  have np: "?p < npage (phys k)" using pf(3) by (auto simp: managed_frames_def region_def)
  have run: "page_remove_pte (?f, v mod 1024) k = Some ?k'"
    using tb(5) e np k1(1) by (simp add: page_remove_pte_def pte2page_def pa2page_def)
  have rf: "page_ref q ?k' = page_ref q k - (if q = ?p then 1 else 0)" for q using sw(3) [of q] ce(8) by (simp add: page_ref_def)
  have gu: "given_up pd {v} k ?k'"
  proof (rule given_upI)
    have z: "\<not> dropped pd {v} k off" for off using e by (auto simp: dropped_def single_counts unat_eq_zero)
    then show "dropped pd {v} k off \<Longrightarrow> mem_map ?k' off \<in> {0, SWAP_UNUSED}" for off by blast
    have one: "released pd {v} k q \<longleftrightarrow> \<not> PageSwap ?p k \<and> page_ref ?p k = 1 \<and> q = ?p" for q
      using z mp by (auto simp: released_def single_counts maps_def)
    have fe: "free_pages_of (phys ?k') = free_pages_of (phys k) \<union> {q. released pd {v} k q}"
    proof (cases "\<not> PageSwap ?p k \<and> page_ref ?p k = 1")
      case True
      then have "{q. released pd {v} k q} = {?p}" unfolding one by blast
      then show ?thesis using k1(7) True ce(8) by simp
    next
      case False
      then have "{q. released pd {v} k q} = {}" unfolding one by blast
      then show ?thesis using k1(7) False ce(8) by simp
    qed
    show "q \<in> free_pages_of (phys k) \<Longrightarrow> q \<in> free_pages_of (phys ?k')" "q \<in> free_pages_of (phys ?k') \<Longrightarrow> q \<notin> free_pages_of (phys k) \<Longrightarrow> released pd {v} k q"
      "released pd {v} k q \<Longrightarrow> q \<in> free_pages_of (phys ?k')" for q using fe by blast+
    show "PageSwap q ?k' \<longleftrightarrow> PageSwap q k \<and> q \<notin> free_pages_of (phys ?k')" for q
      using sw(1) [of q] swap_page_free [OF ce(1), of q] ce(8) by auto
  qed (use ce(7,9,10) k1(5) fr(1,3) in simp_all)
  have "unmapped pd {v} k ?k'"
    unfolding unmapped_def
  proof (intro conjI allI impI)
    show "given_up pd {v} k ?k'" by (rule gu)
    show "page_ref q ?k' = page_ref q k - int (npt pd k {v} q)" for q using rf [of q] mp by (auto simp: single_counts maps_def)
    fix off assume o: "live k off \<and> nsw pd k {v} off < unat (mem_map k off)"
    have "?e \<noteq> entry_of off" using e by auto
    then have z: "nsw pd k {v} off = 0" by (simp add: single_counts)
    have "contents_kept k ?k'" by (rule contents_kept_trans [OF k1(3) ce(2)])
    then show "unat (mem_map ?k' off) = unat (mem_map k off) - nsw pd k {v} off" "entry_data ?k' off = entry_data k off"
      "0 < off" "off < max_swap_offset ?k'" "mem_map ?k' off \<noteq> 0" "mem_map ?k' off \<noteq> SWAP_UNUSED"
      using o z ce(7) k1(5) by (auto simp: contents_kept_def)
  qed (use ce in auto)
  moreover have "range_ok pd (W - {v}) ?k'"
  proof -
    have vw: "pte_view pd ?k' w = pte_view pd k w" if "w \<in> W - {v}" for w using that ce(6) [of w] v(2) by auto
    have n: "npt pd ?k' (W - {v}) q = npt pd k (W - {v}) q" "nsw pd ?k' (W - {v}) off = nsw pd k (W - {v}) off" for q off using npt_cong [of "W - {v}" pd ?k' k q off] vw by auto
    have fk: "frames ?k' q = frames k q" if "PageSwap q k" for q using that ce(5) [of q] t by (auto simp: tables_ok_def in_use_def)
    have ca: "cached ?k' off q = cached k off q" for off q using sw(1) [of q] ce(8,10) fr(1) by (simp add: cached_def)
    have lv: "live ?k' off = live k off" for off using ce(7,9) k1(5) fr(3) by simp
    show ?thesis
      unfolding range_ok_def
    proof (intro conjI ballI allI impI)
      show "finite (W - {v})" using range_okD(1) [OF r] by simp
      show "int (npt pd ?k' (W - {v}) q) \<le> page_ref q ?k'" for q
        using range_okD(2) [OF r, of q] ge rf [of q] n(1) [of q] npt_remove(1) [OF range_okD(1) [OF r] v(1), of pd k q] by auto
      show "nsw pd ?k' (W - {v}) off \<le> unat (mem_map ?k' off)" if "live ?k' off" for off
        using range_okD(3) [OF r, of off] that lv [of off] n(2) [of off] ce(7) k1(5) npt_remove(2) [OF range_okD(1) [OF r] v(1), of pd k off] by auto
      fix w assume w: "w \<in> W - {v}"
      show "pte_view pd ?k' w = 0 \<or> present (pte_view pd ?k' w) \<and> pte_ppn (pte_view pd ?k' w) \<notin> free_pages_of (phys ?k') \<union> tables pd ?k' \<and> managed_frames (phys ?k') (pte_ppn (pte_view pd ?k' w)) 1 \<or>
          (\<exists>off. pte_view pd ?k' w = entry_of off \<and> live ?k' off)"
      proof (cases "present (pte_view pd k w)")
        case False
        then show ?thesis using range_okD(5) [OF r, of w] w vw lv by auto
      next
        case True
        let ?q = "pte_ppn (pte_view pd k w)"
        have q: "?q \<notin> free_pages_of (phys k) \<union> tables pd k" "managed_frames (phys k) ?q 1" using range_okD(4) [OF r _ True] w by auto
        have "?q \<notin> free_pages_of (phys k1)"
        proof (cases "?q = ?p")
          case True
          then have "w \<in> {w \<in> W - {v}. maps (pte_view pd k w) ?p}" using w \<open>present (pte_view pd k w)\<close> by (simp add: maps_def)
          then have "npt pd k (W - {v}) ?p \<noteq> 0" using range_okD(1) [OF r] by (auto simp: npt_def card_eq_0_iff)
          then show ?thesis using free1(2) True by simp
        qed (use q(1) free1(1) in auto)
        then show ?thesis using True q vw [OF w] ce(4,8) managed_layout [OF k1(6)] by simp
      qed
    next
      fix q assume h: "PageSwap q ?k' \<and> npt pd ?k' (W - {v}) q \<noteq> 0"
      then have qs: "PageSwap q k" "npt pd k W q \<noteq> 0" using sw(1) [of q] ce(8) n(1) npt_remove(1) [OF range_okD(1) [OF r] v(1), of pd k q] by auto
      have dk: "PageDirty q k \<Longrightarrow> PageDirty q ?k'" using sw(2) [of q] fr(6) qs(1) ce(8) by (cases "q = ?p") auto
      have dv: "q = ?p \<Longrightarrow> bit ?e 6 \<Longrightarrow> PageDirty q ?k'" using fr(6) qs(1) ce(8) by auto
      have sd: "swap_disk ?k' = swap_disk k" "max_swap_offset ?k' = max_swap_offset k" using ce(9,11) fr(2,3) by simp_all
      from range_okD(6) [OF r qs]
      show "PageDirty q ?k' \<or> page_ref q ?k' > int (npt pd ?k' (W - {v}) q) \<or> (\<exists>w\<in>W - {v}. maps (pte_view pd ?k' w) q \<and> bit (pte_view pd ?k' w) 6) \<or>
          (\<forall>off. valid_off ?k' off \<and> cached ?k' off q \<longrightarrow> frames ?k' q = swap_disk ?k' off)"
      proof (elim disjE)
        assume "PageDirty q k"
        then show ?thesis using dk by blast
      next
        assume "page_ref q k > int (npt pd k W q)"
        then show ?thesis using rf [of q] n(1) [of q] npt_remove(1) [OF range_okD(1) [OF r] v(1), of pd k q] mp by (auto simp: maps_def)
      next
        assume "\<exists>w\<in>W. maps (pte_view pd k w) q \<and> bit (pte_view pd k w) 6"
        then obtain w where w: "w \<in> W" "maps (pte_view pd k w) q" "bit (pte_view pd k w) 6" by blast
        show ?thesis
        proof (cases "w = v")
          case True
          then show ?thesis using dv w by (auto simp: maps_def)
        next
          case False
          then have "w \<in> W - {v}" using w(1) by simp
          then show ?thesis using w(2,3) vw by metis
        qed
      next
        assume "\<forall>off. valid_off k off \<and> cached k off q \<longrightarrow> frames k q = swap_disk k off"
        then show ?thesis unfolding ca fk [OF qs(1)] sd by blast
      qed
    qed
  qed
  ultimately show ?thesis using run by blast
qed

lemma remove_swapped:
  assumes ok: "swap_ok k" and t: "tables_ok pd k" and r: "range_ok pd W k" and v: "v \<in> W" "W \<subseteq> {..<USER_PAGES}" and e: "pte_view pd k v = entry_of off" "live k off"
  shows "\<exists>k'. page_remove_pte (pte_ppn (frames k pd (v div 1024)), v mod 1024) k = Some k' \<and> unmapped pd {v} k k' \<and> range_ok pd (W - {v}) k'"
proof -
  let ?f = "pte_ppn (frames k pd (v div 1024))"
  have wf: "swap_wf {} {} k" using ok by (simp add: swap_ok_def)
  have vu: "v < USER_PAGES" using v by auto
  have inj: "entry_of o' = entry_of off \<longleftrightarrow> o' = off" if "valid_off k o'" for o' using entry_of_inj [of o' off] that e(2) swap_max [OF wf] by simp
  have nz: "pte_view pd k v \<noteq> 0" using entry_of_0 [of off] e swap_max [OF wf] by simp
  note tb = table_of [OF t vu nz]
  obtain k1 where k1: "swap_remove_entry (entry_of off) k = Some k1" "swap_ok k1" "kept_but off k k1" "same_layout (phys k) (phys k1)"
      "free_pages_of (phys k1) = free_pages_of (phys k) \<union> (if mem_map k off = 1 then {q. cached k off q \<and> page_ref q k = 0} else {})"
      "if mem_map k off = 1 then mem_map k1 off \<in> {0, SWAP_UNUSED} else mem_map k1 off = mem_map k off - 1 \<and> live k1 off \<and> entry_data k1 off = entry_data k off"
      "\<forall>q. PageSwap q k1 \<longleftrightarrow> PageSwap q k \<and> q \<notin> free_pages_of (phys k1)"
    using swap_remove_entry_ok [OF ok e(2)] by blast
  note fr = swap_remove_entry_frame [OF k1(1)]
  have so: "swap_offset (entry_of off) k = Some off" using swap_offset_valid [OF wf] e(2) by blast
  have rf1: "page_ref q k1 = page_ref q k" for q
    using fr(5) [of q] user_part_eqD(1) [of "page_at q k1" "page_at q k"] by (auto simp: page_ref_def user_part_def)
  have sw1: "PageSwap q k1 \<Longrightarrow> PageSwap q k \<and> PageDirty q k1 = PageDirty q k" for q
    using fr(5) [of q] user_part_eqD [of "page_at q k1" "page_at q k"] no_flags [of "page_at q k1"] by auto
  have u: "\<not> PageSwap q k1 \<and> q \<notin> free_pages_of (phys k1)" if "q \<in> tables pd k" "in_use q k" for q
    using that sw1 [of q] k1(5) by (auto simp: in_use_def cached_def)
  note ce = clear_entry [OF t vu nz refl k1(2) fr(1) k1(4) u]
  let ?k' = "set_word ?f (v mod 1024) 0 k1"
  have run: "page_remove_pte (?f, v mod 1024) k = Some ?k'"
    using tb(5) e nz k1(1) by (simp add: page_remove_pte_def)
  have rf: "page_ref q ?k' = page_ref q k" for q using rf1 [of q] ce(8) by (simp add: page_ref_def)
  have nm: "\<not> maps (pte_view pd k v) q" for q using e(1) by (simp add: maps_def)
  have lv: "live k1 o' \<and> unat (mem_map k1 o') = unat (mem_map k o') - nsw pd k {v} o' \<and> entry_data k1 o' = entry_data k o'"
    if o': "live k o'" "nsw pd k {v} o' < unat (mem_map k o')" for o'
  proof (cases "o' = off")
    case True
    then have "mem_map k off \<noteq> 1" using o'(2) e(1) by (auto simp: single_counts)
    then have l: "live k1 off" "mem_map k1 off = mem_map k off - 1" "entry_data k1 off = entry_data k off" using k1(6) by metis+
    have "unat (mem_map k off - 1) = unat (mem_map k off) - 1" using e(2) by (simp add: unat_minus_one)
    then have "unat (mem_map k1 off) = unat (mem_map k off) - nsw pd k {v} off" using l(2) e(1) by (simp add: single_counts)
    then show ?thesis using l(1,3) True by blast
  next
    case False
    then have "nsw pd k {v} o' = 0" using e(1) inj [of o'] o'(1) by (simp add: single_counts)
    then show ?thesis using k1(3) o'(1) False fr(6) [OF so False] by (simp add: kept_but_def)
  qed
  have lv': "live ?k' o' \<and> unat (mem_map ?k' o') = unat (mem_map k o') - nsw pd k {v} o' \<and> entry_data ?k' o' = entry_data k o'"
    if o': "live k o'" "nsw pd k {v} o' < unat (mem_map k o')" for o'
    using lv [OF o'] ce(2,7) by (simp add: contents_kept_def)
  have gu: "given_up pd {v} k ?k'"
  proof (rule given_upI)
    have d: "dropped pd {v} k o' \<longleftrightarrow> o' = off \<and> mem_map k off = 1" for o'
    proof -
      have "unat (mem_map k off) \<le> 1 \<longleftrightarrow> mem_map k off = 1" using e(2) word_unat_eq_iff [of "mem_map k off" 1] unat_eq_zero [of "mem_map k off"] by auto
      then show ?thesis using e inj [of o'] unat_eq_zero [of "mem_map k o'"] by (auto simp: dropped_def single_counts)
    qed
    then show "dropped pd {v} k o' \<Longrightarrow> mem_map ?k' o' \<in> {0, SWAP_UNUSED}" for o' using k1(6) ce(7) by simp
    have one: "released pd {v} k q \<longleftrightarrow> mem_map k off = 1 \<and> cached k off q \<and> page_ref q k = 0" for q
      unfolding released_def d using nm by (auto simp: single_counts cached_def)
    have fe: "free_pages_of (phys ?k') = free_pages_of (phys k) \<union> {q. released pd {v} k q}" using k1(5) ce(8) unfolding one by auto
    show "q \<in> free_pages_of (phys k) \<Longrightarrow> q \<in> free_pages_of (phys ?k')" "q \<in> free_pages_of (phys ?k') \<Longrightarrow> q \<notin> free_pages_of (phys k) \<Longrightarrow> released pd {v} k q"
      "released pd {v} k q \<Longrightarrow> q \<in> free_pages_of (phys ?k')" for q using fe by blast+
    show "PageSwap q ?k' \<longleftrightarrow> PageSwap q k \<and> q \<notin> free_pages_of (phys ?k')" for q using k1(7) ce(8) by simp
    show "mem_map ?k' o' = mem_map k o'" if "valid_off k o'" "\<not> live k o'" for o'
    proof -
      have "o' \<noteq> off" using that e(2) by auto
      then show ?thesis using fr(6) [OF so] ce(7) by simp
    qed
  qed (use ce(9,10) fr(2,4) in simp_all)
  have "unmapped pd {v} k ?k'"
    unfolding unmapped_def using ce(1,3-6) rf nm lv' gu by (auto simp: single_counts)
  moreover have "range_ok pd (W - {v}) ?k'"
  proof -
    have vw: "pte_view pd ?k' w = pte_view pd k w" if "w \<in> W - {v}" for w using that ce(6) [of w] v(2) by auto
    have n: "npt pd ?k' (W - {v}) q = npt pd k W q" "nsw pd ?k' (W - {v}) o' = nsw pd k (W - {v}) o'" for q o'
      using npt_cong [of "W - {v}" pd ?k' k q o'] vw npt_remove(1) [OF range_okD(1) [OF r] v(1), of pd k q] nm by auto
    have fk: "frames ?k' q = frames k q" if "PageSwap q k" for q using that ce(5) [of q] t by (auto simp: tables_ok_def in_use_def)
    show ?thesis
      unfolding range_ok_def
    proof (intro conjI ballI allI impI)
      show "finite (W - {v})" using range_okD(1) [OF r] by simp
      show "int (npt pd ?k' (W - {v}) q) \<le> page_ref q ?k'" for q using range_okD(2) [OF r, of q] rf [of q] n(1) [of q] by simp
      show "nsw pd ?k' (W - {v}) o' \<le> unat (mem_map ?k' o')" if o': "live ?k' o'" for o'
      proof -
        have lk: "live k o'"
        proof (cases "o' = off")
          case False
          then show ?thesis using o' ce(7,9) fr(4,6) so by auto
        qed (use e in simp)
        have le: "nsw pd k (W - {v}) o' + nsw pd k {v} o' \<le> unat (mem_map k o')"
          using range_okD(3) [OF r lk] npt_remove(2) [OF range_okD(1) [OF r] v(1), of pd k o'] by (simp add: single_counts)
        show ?thesis
        proof (cases "nsw pd k {v} o' < unat (mem_map k o')")
          case True
          then show ?thesis using lv' [OF lk True] le n(2) [of o'] by simp
        next
          case False
          then show ?thesis using le n(2) [of o'] by simp
        qed
      qed
      fix w assume w: "w \<in> W - {v}"
      show "pte_view pd ?k' w = 0 \<or> present (pte_view pd ?k' w) \<and> pte_ppn (pte_view pd ?k' w) \<notin> free_pages_of (phys ?k') \<union> tables pd ?k' \<and> managed_frames (phys ?k') (pte_ppn (pte_view pd ?k' w)) 1 \<or>
          (\<exists>o'. pte_view pd ?k' w = entry_of o' \<and> live ?k' o')"
      proof (cases "present (pte_view pd k w) \<or> pte_view pd k w = 0")
        case False
        then obtain o' where o': "pte_view pd k w = entry_of o'" "live k o'" using range_okD(5) [OF r, of w] w by auto
        have "w \<in> {w \<in> W - {v}. pte_view pd k w = entry_of o'}" using w o'(1) by simp
        then have "nsw pd k (W - {v}) o' \<noteq> 0" using range_okD(1) [OF r] by (auto simp: nsw_def card_eq_0_iff)
        then have "nsw pd k {v} o' < unat (mem_map k o')"
          using range_okD(3) [OF r o'(2)] npt_remove(2) [OF range_okD(1) [OF r] v(1), of pd k o'] by (auto simp: single_counts split: if_splits)
        then show ?thesis using lv' [OF o'(2)] vw [OF w] o'(1) by auto
      next
        case True
        show ?thesis
        proof (cases "pte_view pd k w = 0")
          case False
          then have pr: "present (pte_view pd k w)" using True by simp
          let ?q = "pte_ppn (pte_view pd k w)"
          have q: "?q \<notin> free_pages_of (phys k) \<union> tables pd k" "managed_frames (phys k) ?q 1" using range_okD(4) [OF r _ pr] w by auto
          have "w \<in> {w \<in> W. maps (pte_view pd k w) ?q}" using w pr by (simp add: maps_def)
          then have "npt pd k W ?q \<noteq> 0" using range_okD(1) [OF r] by (auto simp: npt_def card_eq_0_iff)
          then have "page_ref ?q k \<noteq> 0" using range_okD(2) [OF r, of ?q] by auto
          then have "?q \<notin> free_pages_of (phys k1)" using k1(5) q(1) by auto
          then show ?thesis using pr q vw [OF w] ce(4,8) managed_layout [OF k1(4)] by simp
        qed (use vw [OF w] in simp)
      qed
    next
      fix q assume h: "PageSwap q ?k' \<and> npt pd ?k' (W - {v}) q \<noteq> 0"
      then have qs: "PageSwap q k" "npt pd k W q \<noteq> 0" "PageDirty q ?k' = PageDirty q k" using sw1 [of q] ce(8) n(1) by auto
      have sd: "swap_disk ?k' = swap_disk k" "max_swap_offset ?k' = max_swap_offset k" using ce(9,11) fr(3,4) by simp_all
      have ca: "cached ?k' o' q \<Longrightarrow> cached k o' q" for o' using qs(1) ce(10) fr(2) by (simp add: cached_def)
      have ex: "(\<exists>w\<in>W - {v}. maps (pte_view pd ?k' w) q \<and> bit (pte_view pd ?k' w) 6) \<longleftrightarrow> (\<exists>w\<in>W. maps (pte_view pd k w) q \<and> bit (pte_view pd k w) 6)"
        using vw nm by (metis DiffD1 DiffI singletonD)
      show "PageDirty q ?k' \<or> page_ref q ?k' > int (npt pd ?k' (W - {v}) q) \<or> (\<exists>w\<in>W - {v}. maps (pte_view pd ?k' w) q \<and> bit (pte_view pd ?k' w) 6) \<or>
          (\<forall>o'. valid_off ?k' o' \<and> cached ?k' o' q \<longrightarrow> frames ?k' q = swap_disk ?k' o')"
        using range_okD(6) [OF r qs(1,2)] ca unfolding ex qs(3) rf n(1) fk [OF qs(1)] sd by blast
    qed
  qed
  ultimately show ?thesis using run by blast
qed

lemma remove_entry_ok:
  assumes ok: "swap_ok k" and t: "tables_ok pd k" and r: "range_ok pd W k" and v: "v \<in> W" "W \<subseteq> {..<USER_PAGES}" and nz: "pte_view pd k v \<noteq> 0"
  shows "\<exists>k'. page_remove_pte (pte_ppn (frames k pd (v div 1024)), v mod 1024) k = Some k' \<and> unmapped pd {v} k k' \<and> range_ok pd (W - {v}) k'"
proof (cases "present (pte_view pd k v)")
  case True
  then show ?thesis by (rule remove_present [OF ok t r v])
next
  case False
  then obtain off where "pte_view pd k v = entry_of off" "live k off" using range_okD(5) [OF r v(1) _ nz] by blast
  then show ?thesis by (rule remove_swapped [OF ok t r v])
qed

subsection \<open>Unmapping a range\<close>

lemma counts_union:
  assumes "finite A" "finite B" "A \<inter> B = {}"
  shows "npt pd k (A \<union> B) p = npt pd k A p + npt pd k B p" "nsw pd k (A \<union> B) off = nsw pd k A off + nsw pd k B off"
proof -
  have "{w \<in> A \<union> B. maps (pte_view pd k w) p} = {w \<in> A. maps (pte_view pd k w) p} \<union> {w \<in> B. maps (pte_view pd k w) p}"
    "{w \<in> A \<union> B. pte_view pd k w = entry_of off} = {w \<in> A. pte_view pd k w = entry_of off} \<union> {w \<in> B. pte_view pd k w = entry_of off}" by auto
  then show "npt pd k (A \<union> B) p = npt pd k A p + npt pd k B p" "nsw pd k (A \<union> B) off = nsw pd k A off + nsw pd k B off"
    using assms unfolding npt_def nsw_def by (simp_all, (subst card_Un_disjoint; auto)+)
qed

lemma given_up_trans:
  assumes a: "unmapped pd A k k1" and b: "unmapped pd B k1 k2" and d: "finite A" "finite B" "A \<inter> B = {}"
    and nb: "\<And>p. npt pd k1 B p = npt pd k B p" "\<And>off. nsw pd k1 B off = nsw pd k B off" and r: "\<And>p. int (npt pd k1 B p) \<le> page_ref p k1"
  shows "given_up pd (A \<union> B) k k2"
proof -
  have ga: "given_up pd A k k1" and gb: "given_up pd B k1 k2" using a b by (simp_all add: unmapped_def)
  note A = given_upD [OF ga] and B = given_upD [OF gb]
  note un = counts_union [OF d]
  have ref: "page_ref p k1 = page_ref p k - int (npt pd k A p)" for p using a unfolding unmapped_def by blast
  have cnt: "unat (mem_map k1 off) = unat (mem_map k off) - nsw pd k A off" "live k1 off" if "live k off" "\<not> dropped pd A k off" for off
    using a that unfolding unmapped_def dropped_def by (meson not_le)+
  have alive: "live k off \<and> \<not> dropped pd A k off" if "live k1 off" for off
    using that A(1) A(3,4) [of off] by (metis empty_iff insert_iff)
  have drop: "dropped pd (A \<union> B) k off \<longleftrightarrow> dropped pd A k off \<or> dropped pd B k1 off" for off
  proof (cases "live k off \<and> \<not> dropped pd A k off")
    case True
    then show ?thesis using cnt [of off] un(2) [of pd k off] nb(2) [of off] by (auto simp: dropped_def)
  next
    case False
    then show ?thesis using alive [of off] un(2) [of pd k off] by (auto simp: dropped_def)
  qed
  have mm: "mem_map k2 off = mem_map k1 off" if "valid_off k off" "\<not> live k1 off" for off using B(4) [of off] A(1) that by simp
  have rel: "released pd (A \<union> B) k p" if h: "released pd A k p \<or> released pd B k1 p \<and> p \<notin> free_pages_of (phys k1)" for p
  proof -
    consider (a) "released pd A k p" | (b) "released pd B k1 p" "p \<notin> free_pages_of (phys k1)" using h by blast
    then show ?thesis
    proof cases
      case a
      then have "npt pd k B p = 0" using r [of p] ref [of p] nb(1) [of p] by (simp add: released_def)
      then show ?thesis using a un(1) [of pd k p] drop unfolding released_def by (auto split: if_splits)
    next
      case b
      then show ?thesis using ref [of p] un(1) [of pd k p] nb(1) [of p] A(2) A(5) [of p] drop unfolding released_def cached_def by (auto split: if_splits)
    qed
  qed
  show ?thesis
  proof (rule given_upI)
    show "max_swap_offset k2 = max_swap_offset k" "page_index k2 = page_index k" using A(1,2) B(1,2) by simp_all
    show "mem_map k2 off \<in> {0, SWAP_UNUSED}" if "dropped pd (A \<union> B) k off" for off
    proof (cases "dropped pd B k1 off")
      case False
      then have d: "dropped pd A k off" using that drop by blast
      then have "\<not> live k1 off" "valid_off k off" using alive [of off] by (auto simp: dropped_def)
      then show ?thesis using mm [of off] A(3) [OF d] by simp
    qed (use B(3) in blast)
    show "mem_map k2 off = mem_map k off" if "valid_off k off" "\<not> live k off" for off
      using mm [of off] alive [of off] A(4) [of off] that by metis
    show "PageSwap p k2 \<longleftrightarrow> PageSwap p k \<and> p \<notin> free_pages_of (phys k2)" for p using A(5) [of p] B(5,6) [of p] by blast
    show "p \<in> free_pages_of (phys k) \<Longrightarrow> p \<in> free_pages_of (phys k2)" for p using A(6) B(6) by blast
    show "p \<in> free_pages_of (phys k2) \<Longrightarrow> p \<notin> free_pages_of (phys k) \<Longrightarrow> released pd (A \<union> B) k p" for p using A(7) [of p] B(7) [of p] rel [of p] by blast
    fix p assume p: "released pd (A \<union> B) k p" "PageSwap p k \<Longrightarrow> npt pd k (A \<union> B) p = 0"
    show "p \<in> free_pages_of (phys k2)"
    proof (cases "released pd A k p \<or> p \<in> free_pages_of (phys k1)")
      case True
      then show ?thesis using A(8) [of p] B(6) [of p] p(2) un(1) [of pd k p] by auto
    next
      case False
      then have "released pd B k1 p"
        using p(1) ref [of p] un(1) [of pd k p] nb(1) [of p] A(2) A(5) [of p] p(2) drop unfolding released_def cached_def by (auto split: if_splits)
      then show ?thesis using B(8) [of p] A(5) [of p] p(2) nb(1) [of p] un(1) [of pd k p] by auto
    qed
  qed
qed

lemma unmapped_trans:
  assumes a: "unmapped pd A k k1" and b: "unmapped pd B k1 k2" and d: "finite A" "finite B" "A \<inter> B = {}" "B \<subseteq> {..<USER_PAGES}" and r: "range_ok pd B k1"
  shows "unmapped pd (A \<union> B) k k2"
proof -
  have vb: "pte_view pd k1 w = pte_view pd k w" if "w \<in> B" for w
  proof -
    have "w < USER_PAGES" "w \<notin> A" using that d(3,4) by auto
    then show ?thesis using a unfolding unmapped_def by simp
  qed
  have nb: "npt pd k1 B p = npt pd k B p" "nsw pd k1 B off = nsw pd k B off" for p off using npt_cong [of B pd k1 k p off] vb by auto
  note un = counts_union [OF d(1-3)]
  have "live k2 off \<and> unat (mem_map k2 off) = unat (mem_map k off) - nsw pd k (A \<union> B) off \<and> entry_data k2 off = entry_data k off"
    if h: "live k off \<and> nsw pd k (A \<union> B) off < unat (mem_map k off)" for off
  proof -
    have l1: "live k1 off \<and> unat (mem_map k1 off) = unat (mem_map k off) - nsw pd k A off \<and> entry_data k1 off = entry_data k off"
      using a h un(2) [of pd k off] unfolding unmapped_def by (metis add_lessD1)
    then have "live k1 off \<and> nsw pd k1 B off < unat (mem_map k1 off)" using h un(2) [of pd k off] nb(2) [of off] by auto
    then have "live k2 off \<and> unat (mem_map k2 off) = unat (mem_map k1 off) - nsw pd k1 B off \<and> entry_data k2 off = entry_data k1 off"
      using b unfolding unmapped_def by blast
    then show ?thesis using l1 nb(2) [of off] un(2) [of pd k off] by simp
  qed
  moreover have "page_ref p k2 = page_ref p k - int (npt pd k (A \<union> B) p)" for p
    using a b nb(1) [of p] un(1) [of pd k p] unfolding unmapped_def by simp
  moreover have "pte_view pd k2 w = (if w \<in> A \<union> B then 0 else pte_view pd k w)" if "w < USER_PAGES" for w
    using a b that unfolding unmapped_def by simp
  moreover have "given_up pd (A \<union> B) k k2" by (rule given_up_trans [OF a b d(1-3) nb range_okD(2) [OF r]])
  ultimately show ?thesis using a b unfolding unmapped_def by simp
qed

lemma zero_counts:
  assumes "\<forall>w\<in>A. pte_view pd k w = 0"
  shows "npt pd k A p = 0" "0 < off \<Longrightarrow> off < 2 ^ 24 \<Longrightarrow> nsw pd k A off = 0"
proof -
  have "{w \<in> A. maps (pte_view pd k w) p} = {}" using assms by (auto simp: maps_def)
  then show "npt pd k A p = 0" unfolding npt_def by (simp only: card.empty)
  assume "0 < off" "off < 2 ^ 24"
  then have "entry_of off \<noteq> 0" using entry_of_0 [of off] by simp
  then have "{w \<in> A. pte_view pd k w = entry_of off} = {}" using assms by auto
  then show "nsw pd k A off = 0" unfolding nsw_def by (simp only: card.empty)
qed

lemma unmapped_zero:
  assumes "swap_ok k" "tables_ok pd k" "\<forall>w\<in>A. pte_view pd k w = 0"
  shows "unmapped pd A k k"
proof -
  have m: "max_swap_offset k < 2 ^ 24" using assms(1) swap_max by (auto simp: swap_ok_def)
  have z: "\<not> dropped pd A k off" "\<not> released pd A k p" for off p
    using zero_counts [OF assms(3)] m by (auto simp: dropped_def released_def unat_eq_zero split: if_splits)
  have "given_up pd A k k" using z swap_page_free [OF assms(1)] by (auto intro: given_upI)
  then show ?thesis
    using assms zero_counts [OF assms(3)] m unfolding unmapped_def by auto
qed

lemma range_ok_skip:
  assumes ok: "swap_ok k" and r: "range_ok pd W k" and s: "W' \<subseteq> W" "\<forall>w\<in>W - W'. pte_view pd k w = 0"
  shows "range_ok pd W' k"
proof -
  have fin: "finite W'" "finite (W - W')" using range_okD(1) [OF r] s(1) finite_subset by auto
  have W: "W = W' \<union> (W - W')" using s(1) by auto
  have m: "max_swap_offset k < 2 ^ 24" using ok swap_max by (auto simp: swap_ok_def)
  have n: "npt pd k W p = npt pd k W' p" for p using counts_union(1) [OF fin, of pd k p] zero_counts(1) [OF s(2)] W by simp
  have n2: "live k off \<Longrightarrow> nsw pd k W off = nsw pd k W' off" for off using counts_union(2) [OF fin, of pd k off] zero_counts(2) [OF s(2), of off] W m by simp
  have ex: "(\<exists>w\<in>W. maps (pte_view pd k w) p \<and> bit (pte_view pd k w) 6) \<longleftrightarrow> (\<exists>w\<in>W'. maps (pte_view pd k w) p \<and> bit (pte_view pd k w) 6)" for p
    using s by (metis DiffI maps_0 subsetD)
  show ?thesis
    using r fin(1) s(1) n2 unfolding range_ok_def n ex by (auto; blast)
qed

lemma unmap_loop_ok:
  assumes "swap_ok k" "tables_ok pd k" "range_ok pd {v..<e} k" "v < e" "e \<le> USER_PAGES"
  shows "\<exists>k'. unmap_range_loop pd e v k = Some k' \<and> unmapped pd {v..<e} k k'"
  using assms
proof (induction pd e v k rule: unmap_range_loop.induct)
  case (1 pd e v k)
  have vu: "v < USER_PAGES" using "1.prems"(4,5) by simp
  have go: ?case if s: "unmap_step pd v k = Some (n, k1)" "unmapped pd {v..<min n e} k k1" "range_ok pd {n..<e} k1" "v < n" for n k1
  proof (cases "n < e")
    case False
    then have "unmap_range_loop pd e v k = Some k1" using s(1) by (subst unmap_range_loop.simps) simp
    then show ?thesis using s(2) False by (auto simp: min_def split: if_splits)
  next
    case True
    have o1: "swap_ok k1" "tables_ok pd k1" using s(2) by (simp_all add: unmapped_def)
    obtain k2 where k2: "unmap_range_loop pd e n k1 = Some k2" "unmapped pd {n..<e} k1 k2"
      using "1.IH" [OF s(1) _ True o1 s(3) True "1.prems"(5)] by auto
    have mn: "min n e = n" using True by simp
    have "{n..<e} \<subseteq> {..<USER_PAGES}" using "1.prems"(5) by (auto intro: less_le_trans)
    then have "unmapped pd ({v..<n} \<union> {n..<e}) k k2"
      using unmapped_trans [OF s(2) k2(2) _ _ _ _ s(3)] unfolding mn by auto
    moreover have "{v..<n} \<union> {n..<e} = {v..<e}" using s(4) True by auto
    moreover have "unmap_range_loop pd e v k = Some k2" using s(1) True k2(1) by (subst unmap_range_loop.simps) simp
    ultimately show ?thesis by auto
  qed
  show ?case
  proof (cases "present (frames k pd (v div 1024))")
    case False
    let ?n = "(v div 1024 + 1) * 1024"
    have z: "pte_view pd k w = 0" if "w \<in> {v..<?n}" for w
    proof -
      have "w div 1024 = v div 1024" using that by (intro div_nat_eqI) (auto intro: order_trans [OF times_div_less_eq_dividend])
      then show ?thesis using False by (simp add: pte_view_def)
    qed
    have "unmap_step pd v k = Some (?n, k)" using get_pte_absent [OF False] by (simp add: unmap_step_def)
    moreover have "unmapped pd {v..<min ?n e} k k" by (rule unmapped_zero [OF "1.prems"(1,2)]) (use z in auto)
    moreover have "range_ok pd {?n..<e} k" by (rule range_ok_skip [OF "1.prems"(1,3)]) (use z next_table [of v] in auto)
    ultimately show ?thesis using go next_table by blast
  next
    case pr: True
    let ?f = "pte_ppn (frames k pd (v div 1024))"
    note gp = get_pte_found [OF "1.prems"(2) vu pr]
    have fv: "frames k ?f (v mod 1024) = pte_view pd k v" using pr by (simp add: pte_view_def)
    have m1: "min (v + 1) e = v + 1" "{v..<v + 1} = {v}" "{v..<e} - {v} = {v + 1..<e}" using "1.prems"(4) by auto
    show ?thesis
    proof (cases "pte_view pd k v = 0")
      case True
      have "unmap_step pd v k = Some (v + 1, k)" using gp fv True by (simp add: unmap_step_def)
      moreover have "unmapped pd {v..<min (v + 1) e} k k" unfolding m1 by (rule unmapped_zero [OF "1.prems"(1,2)]) (use True in simp)
      moreover have "range_ok pd {v + 1..<e} k" by (rule range_ok_skip [OF "1.prems"(1,3)]) (use True in \<open>auto simp: le_less Suc_le_eq\<close>)
      ultimately show ?thesis using go [of "v + 1" k] by simp
    next
      case False
      have sub: "{v..<e} \<subseteq> {..<USER_PAGES}" using "1.prems"(5) by (auto intro: less_le_trans)
      obtain k1 where k1: "page_remove_pte (?f, v mod 1024) k = Some k1" "unmapped pd {v} k k1" "range_ok pd ({v..<e} - {v}) k1"
        using remove_entry_ok [OF "1.prems"(1-3) _ sub False] "1.prems"(4) by auto
      have "unmap_step pd v k = Some (v + 1, k1)" using gp fv False k1(1) by (simp add: unmap_step_def)
      then show ?thesis using go [of "v + 1" k1] k1(2,3) unfolding m1 by simp
    qed
  qed
qed

text \<open>C28: Unmapping.  \<^verbatim>\<open>unmap_range\<close> on a range of user pages whose entries are counted by what they refer to never panics, clears exactly the entries
  of the range, and takes every page's and every swap entry's count down by the number of its entries in the range.  A swap entry that has a reference
  elsewhere keeps its contents; one that has none is not in use any more.  A page is freed only when no reference to it is left; outside of the
  swap cache it is freed then, and in the cache when its swap entry had its last reference in the range and no page table referred to
  it.  The invariant of the swap cache and the page tables themselves stay as they are.\<close>

theorem unmap_range_correct:
  assumes "swap_ok k" "tables_ok pd k" "start mod PGSIZE = 0" "end' mod PGSIZE = 0" "USER_ACCESS start end'"
    and "range_ok pd {unat start div 4096..<unat end' div 4096} k"
  shows "\<exists>k'. unmap_range pd start end' k = Some k' \<and> unmapped pd {unat start div 4096..<unat end' div 4096} k k'"
proof -
  have s: "unat start mod 4096 = 0" "unat end' mod 4096 = 0"
    using arg_cong [OF assms(3), of unat] arg_cong [OF assms(4), of unat] by (simp_all add: unat_mod)
  have "unat start < unat end'" "unat end' \<le> 2952790016" using assms(5) by (simp_all add: USER_ACCESS_def word_less_nat_alt word_le_nat_alt)
  then have "unat start div 4096 < unat end' div 4096" "unat end' div 4096 \<le> USER_PAGES" using s by auto
  from unmap_loop_ok [OF assms(1,2,6) this] show ?thesis using assms(3-5) by (simp add: unmap_range_def)
qed

text \<open>A directory in frame 7 with one table, in frame 0, whose first entry is a page that was swapped out.\<close>

definition pt_demo :: vmem where
  "pt_demo = swap_demo\<lparr>phys := snd (the (buddy_alloc_pages 1 demo_phys)), frames := (\<lambda>f i. if f = 7 \<and> i = 1 then 7 else if f = 0 \<and> i = 0 then entry_of 1 else 0)\<rparr>"

lemma pt_demo_view: "pte_view 7 pt_demo 1024 = entry_of 1" "tables 7 pt_demo = {0}"
proof -
  have p: "present (7 :: u32)" "pte_ppn 7 = 0" by (simp_all add: present_def pte_ppn_def drop_bit_eq_div)
  show "pte_view 7 pt_demo 1024 = entry_of 1" using p by (simp add: pte_view_def pt_demo_def)
  have d: "present (frames pt_demo 7 d) \<longleftrightarrow> d = 1" for d using p by (simp add: pt_demo_def)
  have "pte_ppn (frames pt_demo 7 1) = 0" using p by (simp add: pt_demo_def)
  then show "tables 7 pt_demo = {0}" unfolding tables_def d by auto
qed

lemma pt_demo_ok: "swap_ok pt_demo" "tables_ok 7 pt_demo" "range_ok 7 {1024..<1025} pt_demo" "live pt_demo 1"
proof -
  obtain p b where b: "buddy_alloc_pages 1 demo_phys = Some (Some p, b)" by (rule swap_demo_alloc)
  have "map_option fst (buddy_alloc_pages 1 demo_phys) = Some (Some 0)" by code_simp
  then have p0: "p = 0" using b by simp
  have ph: "phys swap_demo = demo_phys" by (simp add: swap_demo_def)
  let ?k = "swap_demo\<lparr>phys := b\<rparr>"
  have k: "swap_ok ?k" "in_use 0 ?k" using alloc_one_ok [OF swap_demo_ok(1)] b p0 unfolding ph by auto
  have up: "user_part (pages b q) = (0, 0)" for q using buddy_alloc_user [of demo_phys "Some p" b] b demo_phys_facts(4) by simp
  have nps: "\<not> PageSwap q ?k" for q using no_flags [OF up] by simp
  have pt: "pt_demo = ?k\<lparr>frames := (\<lambda>f i. if f = 7 \<and> i = 1 then 7 else if f = 0 \<and> i = 0 then entry_of 1 else 0)\<rparr>" unfolding pt_demo_def b by simp
  have nc: "\<not> cached ?k off q" for off q using nps by (simp add: cached_def)
  have fo: "frames_ok pt_demo" using frames_ok_cong [of pt_demo ?k] k(1) by (simp add: pt swap_ok_def swap_wf_def)
  show "swap_ok pt_demo" by (rule same_cache_ok(1) [OF k(1) fo]) (use nc in \<open>simp_all add: pt\<close>)
  have iu: "in_use 0 pt_demo" using k(2) by (simp add: pt in_use_def)
  have "npage (phys pt_demo) > 0" using iu by (auto simp: in_use_def managed_frames_def region_def)
  moreover have d: "{d. d < 704 \<and> present (frames pt_demo 7 d)} \<subseteq> {1}" by (auto simp: pt present_def split: if_splits)
  ultimately show "tables_ok 7 pt_demo"
    using iu subset_singletonD [OF d] unfolding tables_ok_def pt_demo_view(2) by (auto simp: inj_on_def)
  show lv: "live pt_demo 1" by (simp add: pt swap_demo_def)
  have W: "{1024..<1025} = {1024::nat}" by auto
  have rf: "page_ref q pt_demo = 0" for q using up [of q] by (simp add: page_ref_def pt user_part_def)
  have sw: "\<not> PageSwap q pt_demo" for q using nps by (simp add: pt)
  have "nsw 7 pt_demo {1024} off \<le> unat (mem_map pt_demo off)" if "live pt_demo off" for off
  proof -
    have "off = 1" using that by (simp add: pt swap_demo_def split: if_splits)
    then show ?thesis by (simp add: single_counts pt swap_demo_def)
  qed
  then show "range_ok 7 {1024..<1025} pt_demo"
    unfolding range_ok_def W using pt_demo_view(1) lv rf sw by (auto simp: single_counts maps_def)
qed

theorem unmap_range_correct_witness:
  "\<exists>k'. pte_view 7 pt_demo 1024 = entry_of 1 \<and> unmap_range 7 0x400000 0x401000 pt_demo = Some k' \<and> pte_view 7 k' 1024 = 0 \<and> swap_ok k' \<and>
     mem_map pt_demo 1 = 1 \<and> mem_map k' 1 \<in> {0, SWAP_UNUSED}"
proof -
  have u: "unat (0x400000 :: u32) div 4096 = 1024" "unat (0x401000 :: u32) div 4096 = 1025" by simp_all
  have "\<exists>k'. unmap_range 7 0x400000 0x401000 pt_demo = Some k' \<and> unmapped 7 {1024..<1025} pt_demo k'"
    using unmap_range_correct [OF pt_demo_ok(1,2), of "0x400000" "0x401000"] pt_demo_ok(3) unfolding u by (simp add: USER_ACCESS_def)
  then obtain k' where k': "unmap_range 7 0x400000 0x401000 pt_demo = Some k'" "unmapped 7 {1024..<1025} pt_demo k'" by blast
  have m: "mem_map pt_demo 1 = 1" by (simp add: pt_demo_def swap_demo_def)
  have "{1024..<1025} = {1024 :: nat}" by auto
  then have "dropped 7 {1024..<1025} pt_demo 1" using pt_demo_ok(4) pt_demo_view(1) m by (simp add: dropped_def single_counts)
  then have "mem_map k' 1 \<in> {0, SWAP_UNUSED}" using k'(2) given_upD(3) unfolding unmapped_def by blast
  then show ?thesis using k' m pt_demo_view(1) unfolding unmapped_def by auto
qed

end
