(* ===== verification/Proc_Life.thy ===== *)
theory Proc_Life
  imports Proc Wait_Queue
begin

text \<open>
  The life of a process (\<^verbatim>\<open>kern/process/proc.c\<close>): \<open>do_fork\<close>, \<open>do_exit\<close>, \<open>do_wait\<close> and \<open>do_kill\<close> on top of the process table of \<open>Proc\<close>, the
  scheduler of \<open>Sched\<close> and the wait queues of \<open>Wait_Queue\<close>.

  The state extends the kernel of \<open>Wait_Queue\<close>, whose descriptors have the fields the scheduler uses, by the table \<open>tab\<close> with number and relatives, the
  links of the thread groups, flags and exit codes, and for each of the three resources a process can share (address space, files,
  undo records of semaphores) the object it uses and the objects' counts of users.  What is inside these objects is the matter of \<open>Vmm\<close>, \<open>Fs_Table\<close> and
  \<open>Sem\<close>: here an object is created or not, which is an argument, and given up when its count drops to 0.  \<open>allocated\<close> and \<open>kstacks\<close> are the descriptors and
  kernel stacks that were allocated; freeing one that was not is an error.  Stack, trap frame and context of the new process are not modelled.
\<close>

abbreviation E_BAD_PROC :: int where "E_BAD_PROC \<equiv> 2"
abbreviation E_NO_FREE_PROC :: int where "E_NO_FREE_PROC \<equiv> 5"
abbreviation E_KILLED :: int where "E_KILLED \<equiv> 9"

definition WT_CHILD :: u32 where "WT_CHILD = 0x1 OR WT_INTERRUPTED"

record life = wait_kernel +
  tab :: ptable
  tg_next :: "nat \<Rightarrow> nat"
  tg_prev :: "nat \<Rightarrow> nat"
  exiting :: "nat \<Rightarrow> bool"
  exit_code :: "nat \<Rightarrow> int"
  initproc :: nat
  mm_of :: "nat \<Rightarrow> nat option"
  mm_count :: "nat \<Rightarrow> int"
  fs_of :: "nat \<Rightarrow> nat option"
  fs_count :: "nat \<Rightarrow> int"
  sem_of :: "nat \<Rightarrow> nat option"
  sem_count :: "nat \<Rightarrow> int"
  allocated :: "nat set"
  kstacks :: "nat set"

abbreviation desc :: "nat \<Rightarrow> life \<Rightarrow> proc_struct" where "desc p k \<equiv> kernel.procs k p"
abbreviation links :: "nat \<Rightarrow> life \<Rightarrow> proc_links" where "links p k \<equiv> ptable.procs (tab k) p"

definition upd_links :: "nat \<Rightarrow> (proc_links \<Rightarrow> proc_links) \<Rightarrow> life \<Rightarrow> life" where
  "upd_links p f k = k\<lparr>tab := Proc.upd_proc p f (tab k)\<rparr>"

subsection \<open>Descriptors\<close>

text \<open>The address \<open>a\<close> that \<^verbatim>\<open>kmalloc\<close> returned.\<close>

definition alloc_proc :: "nat \<Rightarrow> life \<Rightarrow> life" where
  "alloc_proc a k =
     (let k = k\<lparr>allocated := insert a (allocated k)\<rparr>;
          k = Sched.upd_proc a (\<lambda>_. \<lparr>state = PROC_UNINIT, runs = 0, need_resched = False, wait_state = 0, rq = None, time_slice = 0\<rparr>) k;
          k = upd_links a (\<lambda>_. \<lparr>pid = - 1, parent = None, cptr = None, yptr = None, optr = None\<rparr>) k;
          k = k\<lparr>exiting := (exiting k)(a := False), mm_of := (mm_of k)(a := None), sem_of := (sem_of k)(a := None), fs_of := (fs_of k)(a := None),
                tg_next := (tg_next k)(a := a), tg_prev := (tg_prev k)(a := a)\<rparr>
      in wait_queue_init (Event_wq a) k)"

definition kfree_proc :: "nat \<Rightarrow> life \<Rightarrow> life option" where
  "kfree_proc a k = do { kassert (a \<in> allocated k); Some (k\<lparr>allocated := allocated k - {a}\<rparr>) }"

definition put_kstack :: "nat \<Rightarrow> life \<Rightarrow> life option" where
  "put_kstack a k = do { kassert (a \<in> kstacks k); Some (k\<lparr>kstacks := kstacks k - {a}\<rparr>) }"

subsection \<open>Thread groups\<close>

definition next_thread :: "nat \<Rightarrow> life \<Rightarrow> nat" where
  "next_thread p k = tg_next k p"

definition de_thread :: "nat \<Rightarrow> life \<Rightarrow> life" where
  "de_thread p k =
     (if tg_next k p \<noteq> p then
        let k = k\<lparr>tg_next := (tg_next k)(tg_prev k p := tg_next k p), tg_prev := (tg_prev k)(tg_next k p := tg_prev k p)\<rparr>
        in k\<lparr>tg_next := (tg_next k)(p := p), tg_prev := (tg_prev k)(p := p)\<rparr>
      else k)"

text \<open>\<open>list_add_before\<close> on the links of two threads.\<close>

definition join_thread :: "nat \<Rightarrow> nat \<Rightarrow> life \<Rightarrow> life" where
  "join_thread q p k =
     (let prev = tg_prev k q in
      k\<lparr>tg_prev := (tg_prev k)(q := p, p := prev), tg_next := (tg_next k)(prev := p, p := q)\<rparr>)"

subsection \<open>Shared resources\<close>

text \<open>What the three \<open>copy\<close> functions have in common: the object of the new process and the counts; \<open>new\<close> is the copy, \<^const>\<open>None\<close> when an
  allocation on the way failed.\<close>

definition share_or_copy :: "bool \<Rightarrow> nat option \<Rightarrow> nat \<Rightarrow> (nat \<Rightarrow> int) \<Rightarrow> (nat \<times> (nat \<Rightarrow> int)) option" where
  "share_or_copy share new old cnt =
     (if share then Some (old, cnt(old := cnt old + 1))
      else (case new of None \<Rightarrow> None | Some n \<Rightarrow> Some (n, cnt(n := 1))))"

definition copy_sem :: "bool \<Rightarrow> nat option \<Rightarrow> nat \<Rightarrow> life \<Rightarrow> int \<times> life" where
  "copy_sem share new p k =
     (case sem_of k (current k) of
        None \<Rightarrow> (0, k)
      | Some old \<Rightarrow>
          (case share_or_copy share new old (sem_count k) of
             None \<Rightarrow> (- E_NO_MEM, k)
           | Some (n, c) \<Rightarrow> (0, k\<lparr>sem_count := c, sem_of := (sem_of k)(p := Some n)\<rparr>)))"

definition put_sem_queue :: "nat \<Rightarrow> life \<Rightarrow> life" where
  "put_sem_queue p k = (case sem_of k p of None \<Rightarrow> k | Some s \<Rightarrow> k\<lparr>sem_count := (sem_count k)(s := sem_count k s - 1)\<rparr>)"

definition copy_fs :: "bool \<Rightarrow> nat option \<Rightarrow> nat \<Rightarrow> life \<Rightarrow> (int \<times> life) option" where
  "copy_fs share new p k = do {
     old \<leftarrow> fs_of k (current k);
     Some (case share_or_copy share new old (fs_count k) of
             None \<Rightarrow> (- E_NO_MEM, k)
           | Some (n, c) \<Rightarrow> (0, k\<lparr>fs_count := c, fs_of := (fs_of k)(p := Some n)\<rparr>))
   }"

definition put_fs :: "nat \<Rightarrow> life \<Rightarrow> life" where
  "put_fs p k = (case fs_of k p of None \<Rightarrow> k | Some s \<Rightarrow> k\<lparr>fs_count := (fs_count k)(s := fs_count k s - 1)\<rparr>)"

definition copy_mm :: "bool \<Rightarrow> nat option \<Rightarrow> nat \<Rightarrow> life \<Rightarrow> int \<times> life" where
  "copy_mm share new p k =
     (case mm_of k (current k) of
        None \<Rightarrow> (0, k)
      | Some old \<Rightarrow>
          (case share_or_copy share new old (mm_count k) of
             None \<Rightarrow> (- E_NO_MEM, k)
           | Some (n, c) \<Rightarrow> (0, k\<lparr>mm_count := c, mm_of := (mm_of k)(p := Some n)\<rparr>)))"

subsection \<open>Fork\<close>

text \<open>The results of the allocations: the descriptor, the kernel stack, and the three copies.\<close>

record fork_args =
  new_proc :: "nat option"
  new_stack :: bool
  new_sem :: "nat option"
  new_fs :: "nat option"
  new_mm :: "nat option"

text \<open>Bits 8 to 11 of \<^verbatim>\<open>clone_flags\<close> are \<^verbatim>\<open>CLONE_VM\<close>, \<^verbatim>\<open>CLONE_THREAD\<close>, \<^verbatim>\<open>CLONE_SEM\<close> and \<^verbatim>\<open>CLONE_FS\<close>.\<close>

definition init_child :: "nat \<Rightarrow> life \<Rightarrow> life option" where
  "init_child p k = do {
     let k = upd_links p (\<lambda>q. q\<lparr>parent := Some (current k)\<rparr>) k;
     let k = k\<lparr>tg_next := (tg_next k)(p := p), tg_prev := (tg_prev k)(p := p)\<rparr>;
     kassert (wait_state (desc (current k) k) = 0);
     kassert (time_slice (desc (current k) k) \<ge> 0);
     let k = Sched.upd_proc p (\<lambda>q. q\<lparr>time_slice := time_slice (desc (current k) k) div 2\<rparr>) k;
     Some (Sched.upd_proc (current k) (\<lambda>q. q\<lparr>time_slice := time_slice q - time_slice (desc p k)\<rparr>) k)
   }"

definition link_child :: "u32 \<Rightarrow> nat \<Rightarrow> life \<Rightarrow> (int \<times> life) option" where
  "link_child clone_flags p k = do {
     (n, t) \<leftarrow> get_pid (tab k);
     let k = upd_links p (\<lambda>q. q\<lparr>pid := n\<rparr>) (k\<lparr>tab := t\<rparr>);
     let k = k\<lparr>tab := hash_proc p (tab k)\<rparr>;
     t \<leftarrow> set_links p (tab k);
     let k = k\<lparr>tab := t\<rparr>;
     let k = (if bit clone_flags 9 then join_thread (current k) p k else k);
     k \<leftarrow> wakeup_proc p k;
     Some (pid (links p k), k)
   }"

definition do_fork :: "u32 \<Rightarrow> fork_args \<Rightarrow> life \<Rightarrow> (int \<times> life) option" where
  "do_fork clone_flags args k =
     (if nr_process (tab k) \<ge> MAX_PROCESS then Some (- E_NO_FREE_PROC, k)
      else (case new_proc args of
         None \<Rightarrow> Some (- E_NO_MEM, k)
       | Some p \<Rightarrow> do {
           k \<leftarrow> init_child p (alloc_proc p k);
           (if \<not> new_stack args then do { k \<leftarrow> kfree_proc p k; Some (- E_NO_MEM, k) }
            else do {
              let k = k\<lparr>kstacks := insert p (kstacks k)\<rparr>;
              let (ret, k) = copy_sem (bit clone_flags 10) (new_sem args) p k;
              (if ret \<noteq> 0 then do { k \<leftarrow> put_kstack p k; k \<leftarrow> kfree_proc p k; Some (- E_NO_MEM, k) }
               else do {
                 (ret, k) \<leftarrow> copy_fs (bit clone_flags 11) (new_fs args) p k;
                 (if ret \<noteq> 0 then do { let k = put_sem_queue p k; k \<leftarrow> put_kstack p k; k \<leftarrow> kfree_proc p k; Some (- E_NO_MEM, k) }
                  else do {
                    let (ret, k) = copy_mm (bit clone_flags 8) (new_mm args) p k;
                    (if ret \<noteq> 0 then do {
                       let k = put_fs p k;
                       let k = put_sem_queue p k;
                       k \<leftarrow> put_kstack p k;
                       k \<leftarrow> kfree_proc p k;
                       Some (- E_NO_MEM, k)
                     }
                     else link_child clone_flags p k)
                  })
               })
            })
         }))"

subsection \<open>Exit and kill\<close>

text \<open>The loop that wakes the threads of the parent that wait for a child; it ends when it is back at the first.\<close>

partial_function (option) wake_waiters :: "nat \<Rightarrow> nat \<Rightarrow> life \<Rightarrow> life option" where
  "wake_waiters first p k = do {
     k \<leftarrow> (if wait_state (desc p k) = WT_CHILD then wakeup_proc p k else Some k);
     (let p = next_thread p k in if p \<noteq> first then wake_waiters first p k else Some k)
   }"

text \<open>The loop that gives the children of the process \<open>c\<close> to \<open>q\<close>.\<close>

partial_function (option) reparent :: "nat \<Rightarrow> nat \<Rightarrow> life \<Rightarrow> life option" where
  "reparent c q k =
     (case cptr (links c k) of
        None \<Rightarrow> Some k
      | Some p \<Rightarrow> do {
          let k = upd_links c (\<lambda>l. l\<lparr>cptr := optr (links p k)\<rparr>) k;
          let k = upd_links p (\<lambda>l. l\<lparr>yptr := None, optr := cptr (links q k)\<rparr>) k;
          let k = (case cptr (links q k) of None \<Rightarrow> k | Some o' \<Rightarrow> upd_links o' (\<lambda>l. l\<lparr>yptr := Some p\<rparr>) k);
          let k = upd_links p (\<lambda>l. l\<lparr>parent := Some q\<rparr>) k;
          let k = upd_links q (\<lambda>l. l\<lparr>cptr := Some p\<rparr>) k;
          k \<leftarrow> (if state (desc p k) = PROC_ZOMBIE \<and> wait_state (desc q k) = WT_CHILD then wakeup_proc q k else Some k);
          reparent c q k
        })"

declare wake_waiters.simps [code] reparent.simps [code]

definition put_mm :: "nat \<Rightarrow> life \<Rightarrow> life" where
  "put_mm p k = (case mm_of k p of None \<Rightarrow> k | Some m \<Rightarrow> k\<lparr>mm_count := (mm_count k)(m := mm_count k m - 1), mm_of := (mm_of k)(p := None)\<rparr>)"

text \<open>\<^verbatim>\<open>__do_exit\<close> up to the call of \<open>schedule\<close>, from which the process does not come back.\<close>

definition do_exit_current :: "life \<Rightarrow> life option" where
  "do_exit_current k = do {
     let c = current k;
     kassert (c \<noteq> idleproc k \<and> c \<noteq> initproc k);
     let k = put_sem_queue c (put_fs c (put_mm c k));
     let k = Sched.upd_proc c (\<lambda>q. q\<lparr>state := PROC_ZOMBIE\<rparr>) k;
     q \<leftarrow> parent (links c k);
     k \<leftarrow> wake_waiters q q k;
     let q = (if next_thread c k = c then initproc k else next_thread c k);
     let k = de_thread c k;
     k \<leftarrow> reparent c q k;
     k \<leftarrow> wakeup_queue (Event_wq c) WT_INTERRUPTED True k;
     schedule k
   }"

definition kill_proc :: "nat \<Rightarrow> int \<Rightarrow> life \<Rightarrow> (int \<times> life) option" where
  "kill_proc p error_code k =
     (if \<not> exiting k p then do {
        let k = k\<lparr>exiting := (exiting k)(p := True), exit_code := (exit_code k)(p := error_code)\<rparr>;
        k \<leftarrow> (if bit (wait_state (desc p k)) 31 then wakeup_proc p k else Some k);
        Some (0, k)
      }
      else Some (- E_KILLED, k))"

definition do_kill :: "int \<Rightarrow> int \<Rightarrow> life \<Rightarrow> (int \<times> life) option" where
  "do_kill n error_code k = (case find_proc n (tab k) of Some p \<Rightarrow> kill_proc p error_code k | None \<Rightarrow> Some (- E_INVAL, k))"

definition do_exit_thread :: "int \<Rightarrow> life \<Rightarrow> life option" where
  "do_exit_thread error_code k = do_exit_current (k\<lparr>exit_code := (exit_code k)(current k := error_code)\<rparr>)"

text \<open>The other threads of the group, from \<open>p\<close> on.\<close>

partial_function (option) kill_group :: "nat \<Rightarrow> nat \<Rightarrow> int \<Rightarrow> life \<Rightarrow> life option" where
  "kill_group first p error_code k =
     (if p = first then Some k
      else do {
        (_, k) \<leftarrow> kill_proc p error_code k;
        kill_group first (next_thread p k) error_code k
      })"

declare kill_group.simps [code]

definition do_exit :: "int \<Rightarrow> life \<Rightarrow> life option" where
  "do_exit error_code k = do {
     k \<leftarrow> kill_group (current k) (next_thread (current k) k) error_code k;
     do_exit_thread error_code k
   }"

definition may_killed :: "life \<Rightarrow> life option" where
  "may_killed k = (if exiting k (current k) then do_exit_current k else Some k)"

subsection \<open>Wait\<close>

text \<open>The searches of \<open>do_wait\<close>: whether there is a child, and the first child that is a zombie.\<close>

partial_function (option) zombie_child :: "nat option \<Rightarrow> bool \<Rightarrow> life \<Rightarrow> (bool \<times> nat option) option" where
  "zombie_child p haskid k =
     (case p of
        None \<Rightarrow> Some (haskid, None)
      | Some p \<Rightarrow> if state (desc p k) = PROC_ZOMBIE then Some (True, Some p) else zombie_child (optr (links p k)) True k)"

partial_function (option) zombie_of_threads :: "nat \<Rightarrow> nat \<Rightarrow> bool \<Rightarrow> life \<Rightarrow> (bool \<times> nat option) option" where
  "zombie_of_threads first c haskid k = do {
     (haskid, z) \<leftarrow> zombie_child (cptr (links c k)) haskid k;
     (case z of
        Some p \<Rightarrow> Some (haskid, Some p)
      | None \<Rightarrow> let c = next_thread c k in if c \<noteq> first then zombie_of_threads first c haskid k else Some (haskid, None))
   }"

partial_function (option) child_of_threads :: "nat \<Rightarrow> nat \<Rightarrow> nat \<Rightarrow> life \<Rightarrow> bool option" where
  "child_of_threads first c p k =
     (if parent (links p k) = Some c then Some True
      else let c = next_thread c k in if c \<noteq> first then child_of_threads first c p k else Some False)"

declare zombie_child.simps [code] zombie_of_threads.simps [code] child_of_threads.simps [code]

definition wait_search :: "int \<Rightarrow> life \<Rightarrow> (bool \<times> nat option) option" where
  "wait_search n k =
     (if n \<noteq> 0 then
        (case find_proc n (tab k) of
           None \<Rightarrow> Some (False, None)
         | Some p \<Rightarrow> do {
             b \<leftarrow> child_of_threads (current k) (current k) p k;
             Some (b, if b \<and> state (desc p k) = PROC_ZOMBIE then Some p else None)
           })
      else zombie_of_threads (current k) (current k) False k)"

text \<open>The result of a round: the child that was freed with the value returned and the exit code that was stored, another return, or the process sleeps.\<close>

datatype wait_result = Reaped nat int "int option" | Returned int | Sleeping

text \<open>A round of the loop of \<open>do_wait\<close>; \<open>store\<close> tells whether the caller gave an address for the exit code, \<open>copied\<close> whether it could be written there.\<close>

definition wait_round :: "int \<Rightarrow> bool \<Rightarrow> bool \<Rightarrow> life \<Rightarrow> (wait_result \<times> life) option" where
  "wait_round n store copied k = do {
     (haskid, z) \<leftarrow> wait_search n k;
     (case z of
        Some p \<Rightarrow> do {
          kassert (p \<noteq> idleproc k \<and> p \<noteq> initproc k);
          let code = exit_code k p;
          let k = k\<lparr>tab := unhash_proc p (tab k)\<rparr>;
          t \<leftarrow> remove_links p (tab k);
          let k = k\<lparr>tab := t\<rparr>;
          k \<leftarrow> put_kstack p k;
          k \<leftarrow> kfree_proc p k;
          Some (if store then (if copied then Reaped p 0 (Some code) else Reaped p (- E_INVAL) None) else Reaped p 0 None, k)
        }
      | None \<Rightarrow>
          if haskid then do {
            let k = Sched.upd_proc (current k) (\<lambda>q. q\<lparr>state := PROC_SLEEPING, wait_state := WT_CHILD\<rparr>) k;
            k \<leftarrow> schedule k;
            Some (Sleeping, k)
          }
          else Some (Returned (- E_BAD_PROC), k))
   }"

text \<open>\<open>addr\<close> is \<^const>\<open>None\<close> for a null pointer, and otherwise what \<open>user_mem_check\<close> says of the address.\<close>

definition do_wait :: "int \<Rightarrow> bool option \<Rightarrow> bool \<Rightarrow> life \<Rightarrow> (wait_result \<times> life) option" where
  "do_wait n addr copied k =
     (if addr = Some False then Some (Returned (- E_INVAL), k) else wait_round n (addr \<noteq> None) copied k)"

text \<open>After it was woken the process runs again, with \<open>current\<close> its descriptor; when it was killed meanwhile it exits, otherwise it goes round again.\<close>

definition do_wait_resume :: "int \<Rightarrow> bool \<Rightarrow> bool \<Rightarrow> life \<Rightarrow> (wait_result option \<times> life) option" where
  "do_wait_resume n store copied k =
     (if exiting k (current k) then do { k \<leftarrow> do_exit_current k; Some (None, k) }
      else do { (r, k) \<leftarrow> wait_round n store copied k; Some (Some r, k) })"

subsection \<open>Boot\<close>

definition kernel_thread :: "fork_args \<Rightarrow> u32 \<Rightarrow> life \<Rightarrow> (int \<times> life) option" where
  "kernel_thread args clone_flags k = do_fork (clone_flags OR 0x100) args k"

text \<open>The idle process: the descriptor at \<open>a\<close>, the table of open files \<open>s\<close>, whose count is 0 when it is created.\<close>

definition init_idle :: "nat \<Rightarrow> nat \<Rightarrow> life \<Rightarrow> life" where
  "init_idle a s k =
     (let k = (alloc_proc a k)\<lparr>idleproc := a\<rparr>;
          k = upd_links a (\<lambda>l. l\<lparr>pid := 0\<rparr>) k;
          k = Sched.upd_proc a (\<lambda>q. q\<lparr>state := PROC_RUNNABLE, need_resched := True\<rparr>) k;
          k = k\<lparr>fs_of := (fs_of k)(a := Some s), fs_count := (fs_count k)(s := 1)\<rparr>;
          k = k\<lparr>tab := (tab k)\<lparr>nr_process := nr_process (tab k) + 1\<rparr>\<rparr>
      in k\<lparr>current := a\<rparr>)"

definition proc_init :: "nat option \<Rightarrow> nat option \<Rightarrow> fork_args \<Rightarrow> life \<Rightarrow> life option" where
  "proc_init idle fs args k = do {
     let k = k\<lparr>tab := (tab k)\<lparr>proc_list := [], hash_list := (\<lambda>_. [])\<rparr>\<rparr>;
     a \<leftarrow> idle;
     s \<leftarrow> fs;
     let k = init_idle a s k;
     (n, k) \<leftarrow> kernel_thread args 0 k;
     kassert (n > 0);
     p \<leftarrow> find_proc n (tab k);
     let k = k\<lparr>initproc := p\<rparr>;
     kassert (pid (links (idleproc k) k) = 0);
     kassert (pid (links p k) = 1);
     Some k
   }"

end
