(* ===== verification/Proc_Inv.thy ===== *)
theory Proc_Inv
  imports Proc_Life
begin

text \<open>
  What holds of the processes at every point between two events: the table, the family tree, the thread groups and the counts of shared
  objects agree, and the scheduler runs, queues and wakes live processes only.  Each part is a predicate of its own over the fields
  it depends on, the set \<open>L\<close> of the processes and the set \<open>Z\<close> of zombies.
\<close>

definition living :: "life \<Rightarrow> nat set" where
  "living k = insert (idleproc k) (set (proc_list (tab k)))"

definition zombies :: "life \<Rightarrow> nat set" where
  "zombies k = {p. state (desc p k) = PROC_ZOMBIE}"

subsection \<open>Numbers\<close>

definition ids_ok :: "ptable \<Rightarrow> bool" where
  "ids_ok t \<longleftrightarrow> hash_inv t \<and> hashed t = set (proc_list t) \<and> pid_inv t \<and> distinct (proc_list t) \<and>
     nr_process t = int (length (proc_list t)) + 1 \<and> (\<forall>p\<in>set (proc_list t). 0 < pid (ptable.procs t p) \<and> pid (ptable.procs t p) < MAX_PID)"

lemma hash_inv_cong:
  assumes "hash_list t' = hash_list t" "\<And>p. p \<in> hashed t \<Longrightarrow> pid (ptable.procs t' p) = pid (ptable.procs t p)"
  shows "hash_inv t' = hash_inv t" "hashed t' = hashed t"
proof -
  show "hashed t' = hashed t" using assms(1) by (simp add: hashed_def)
  have "pid (ptable.procs t' p) = pid (ptable.procs t p)" if "p \<in> set (hash_list t h)" for p h
    using assms(2) that by (auto simp: hashed_def)
  then show "hash_inv t' = hash_inv t" unfolding hash_inv_def assms(1) by (simp cong: ball_cong)
qed

text \<open>The table looks at numbers only, so other fields of the descriptors may change.\<close>

lemma ids_ok_cong:
  assumes "ids_ok t" "hash_list t' = hash_list t" "proc_list t' = proc_list t" "nr_process t' = nr_process t" "next_safe t' = next_safe t"
    "last_pid t' = last_pid t" and p: "\<And>p. p \<in> set (proc_list t) \<Longrightarrow> pid (ptable.procs t' p) = pid (ptable.procs t p)"
  shows "ids_ok t'"
proof -
  have h: "hash_inv t' = hash_inv t" "hashed t' = hashed t"
    using hash_inv_cong [OF assms(2)] p assms(1) by (auto simp: ids_ok_def)
  have "pids t' = pids t" using p assms(3) by (simp add: pids_def)
  then show ?thesis using assms h by (simp add: ids_ok_def pid_inv_def)
qed

lemma find_proc_iff:
  assumes "ids_ok t"
  shows "find_proc n t = Some p \<longleftrightarrow> p \<in> set (proc_list t) \<and> pid (ptable.procs t p) = n"
proof (cases "0 < n \<and> n < MAX_PID")
  case True
  then show ?thesis using find_proc_correct [of t n p] assms by (simp add: ids_ok_def)
next
  case False
  then show ?thesis using assms by (auto simp: find_proc_def ids_ok_def)
qed

subsection \<open>The family tree\<close>

definition kids :: "ptable \<Rightarrow> nat \<Rightarrow> nat set" where
  "kids t q = {p \<in> set (proc_list t). parent (ptable.procs t p) = Some q}"

definition tree_ok :: "ptable \<Rightarrow> nat set \<Rightarrow> nat set \<Rightarrow> bool" where
  "tree_ok t L Z \<longleftrightarrow> (\<forall>q\<in>L. \<exists>xs. children (ptable.procs t) q xs \<and> set xs = kids t q) \<and>
     (\<forall>p\<in>set (proc_list t). \<exists>q\<in>L - Z. parent (ptable.procs t p) = Some q)"

lemma tree_okD:
  assumes "tree_ok t L Z"
  shows "q \<in> L \<Longrightarrow> \<exists>xs. children (ptable.procs t) q xs \<and> set xs = kids t q"
    and "p \<in> set (proc_list t) \<Longrightarrow> \<exists>q\<in>L - Z. parent (ptable.procs t p) = Some q"
    and "q \<in> Z \<Longrightarrow> kids t q = {}"
  using assms by (auto simp: tree_ok_def kids_def)

subsection \<open>Thread groups\<close>

definition group_ok :: "(nat \<Rightarrow> nat) \<Rightarrow> (nat \<Rightarrow> nat) \<Rightarrow> nat set \<Rightarrow> nat set \<Rightarrow> bool" where
  "group_ok nx pv L Z \<longleftrightarrow> (\<forall>p\<in>L. nx p \<in> L \<and> pv p \<in> L \<and> pv (nx p) = p \<and> nx (pv p) = p) \<and> (\<forall>p\<in>L \<inter> Z. nx p = p)"

lemma group_okD:
  assumes "group_ok nx pv L Z"
  shows "p \<in> L \<Longrightarrow> nx p \<in> L" and "p \<in> L \<Longrightarrow> pv p \<in> L" and "p \<in> L \<Longrightarrow> pv (nx p) = p" and "p \<in> L \<Longrightarrow> nx (pv p) = p"
    and "p \<in> L \<Longrightarrow> p \<in> Z \<Longrightarrow> nx p = p"
  using assms by (auto simp: group_ok_def)

text \<open>The threads of the group of a process.\<close>

definition threads :: "(nat \<Rightarrow> nat) \<Rightarrow> nat \<Rightarrow> nat set" where
  "threads nx p = {(nx ^^ n) p |n. True}"

lemma group_funpow: "group_ok nx pv L Z \<Longrightarrow> p \<in> L \<Longrightarrow> (nx ^^ n) p \<in> L"
  by (induction n) (auto simp: group_ok_def)

lemma funpow_back: "group_ok nx pv L Z \<Longrightarrow> p \<in> L \<Longrightarrow> (pv ^^ n) ((nx ^^ n) p) = p"
proof (induction n arbitrary: p)
  case (Suc n)
  have "(pv ^^ n) ((nx ^^ n) (nx p)) = nx p" using Suc group_okD(1) [OF Suc.prems] by blast
  moreover have "(pv ^^ Suc n) ((nx ^^ Suc n) p) = pv ((pv ^^ n) ((nx ^^ n) (nx p)))" by (simp only: funpow.simps comp_apply funpow_swap1)
  ultimately show ?case using group_okD(3) [OF Suc.prems] by simp
qed simp

text \<open>Following the links leads back to the start.\<close>

lemma group_cycle:
  assumes g: "group_ok nx pv L Z" and L: "finite L" and p: "p \<in> L"
  obtains n where "0 < n" "(nx ^^ n) p = p" "\<And>j. 0 < j \<Longrightarrow> j < n \<Longrightarrow> (nx ^^ j) p \<noteq> p"
proof -
  have "range (\<lambda>n. (nx ^^ n) p) \<subseteq> L" using group_funpow [OF g p] by auto
  then have "\<not> inj (\<lambda>n. (nx ^^ n) p)" using finite_subset [OF _ L] finite_imageD [of "\<lambda>n. (nx ^^ n) p" UNIV] by auto
  then obtain i j where ij: "(nx ^^ i) p = (nx ^^ j) p" "i < j" unfolding inj_def by (metis linorder_neqE_nat)
  have "(nx ^^ j) p = (nx ^^ i) ((nx ^^ (j - i)) p)" using ij(2) using funpow_add [of i "j - i" nx] by simp
  then have "(nx ^^ (j - i)) p = p"
    using ij(1) funpow_back [OF g p, of i] funpow_back [OF g group_funpow [OF g p, of "j - i"], of i] by metis
  then have ex: "\<exists>n. 0 < n \<and> (nx ^^ n) p = p" using ij(2) by (intro exI [of _ "j - i"]) simp
  define n where "n = (LEAST n. 0 < n \<and> (nx ^^ n) p = p)"
  have "0 < n \<and> (nx ^^ n) p = p" unfolding n_def by (rule LeastI_ex [OF ex])
  moreover have "(nx ^^ j) p \<noteq> p" if "0 < j" "j < n" for j using not_less_Least that unfolding n_def by blast
  ultimately show thesis using that by blast
qed

lemma group_cycle_set:
  assumes "(nx ^^ n) p = p" "0 < n"
  shows "threads nx p = (\<lambda>j. (nx ^^ j) p) ` {..<n}"
proof -
  have "(nx ^^ m) p \<in> (\<lambda>j. (nx ^^ j) p) ` {..<n}" for m
    using funpow_mod_eq [OF assms(1), of m] mod_less_divisor [OF assms(2), of m] by (metis image_eqI lessThan_iff)
  then show ?thesis by (auto simp: threads_def)
qed

lemma group_single:
  assumes "group_ok nx pv L Z" "p \<notin> L"
  shows "group_ok (nx(p := p)) (pv(p := p)) (insert p L) Z"
  using assms unfolding group_ok_def by (auto split: if_splits)

lemma group_join:
  assumes g: "group_ok nx pv L Z" and "q \<in> L" "q \<notin> Z" "p \<notin> L" "p \<notin> Z"
  shows "group_ok (nx(pv q := p, p := q)) (pv(q := p, p := pv q)) (insert p L) Z"
proof -
  have "pv q \<notin> Z" using group_okD(2,4,5) [OF g, of q] group_okD(5) [OF g, of "pv q"] assms(2,3) by metis
  moreover have "nx x \<noteq> q" if "x \<in> L" "x \<noteq> pv q" for x using group_okD(3) [OF g that(1)] that(2) by auto
  moreover have "pv x \<noteq> pv q" if "x \<in> L" "x \<noteq> q" for x using group_okD(4) [OF g that(1)] group_okD(4) [OF g assms(2)] that(2) by metis
  ultimately show ?thesis
    using assms group_okD [OF g] unfolding group_ok_def by (intro conjI ballI) auto
qed

text \<open>A thread that leaves its group is alone.\<close>

lemma group_leave:
  assumes g: "group_ok nx pv L Z" and p: "p \<in> L"
  shows "group_ok (nx(pv p := nx p, p := p)) (pv(nx p := pv p, p := p)) L (insert p Z)"
proof -
  have n: "nx x \<noteq> p" if "x \<in> L" "x \<noteq> pv p" for x using group_okD(3) [OF g that(1)] that(2) by auto
  have m: "pv x \<noteq> p" if "x \<in> L" "x \<noteq> nx p" for x using group_okD(4) [OF g that(1)] that(2) by auto
  have e: "pv p = p \<longleftrightarrow> nx p = p" using group_okD(3,4) [OF g p] by auto
  have z: "nx x = x" if "x \<in> L" "x \<in> Z" for x using group_okD(5) [OF g] that by blast
  have zp: "x = p" if "x \<in> L" "x \<in> Z" "x = pv p" for x using z [OF that(1,2)] group_okD(4) [OF g p] that(3) by simp
  show ?thesis
    unfolding group_ok_def
  proof (intro conjI ballI)
    fix x assume x: "x \<in> L"
    let ?n = "nx(pv p := nx p, p := p)" and ?v = "pv(nx p := pv p, p := p)"
    show "?n x \<in> L" "?v x \<in> L" using group_okD(1,2) [OF g] x p by auto
    show "?v (?n x) = x" "?n (?v x) = x" using n [OF x] m [OF x] e group_okD(3,4) [OF g x] group_okD(3,4) [OF g p] by (auto split: if_splits)
  next
    fix x assume "x \<in> L \<inter> insert p Z"
    then show "(nx(pv p := nx p, p := p)) x = x" using z zp by auto
  qed
qed

lemma group_reap:
  assumes g: "group_ok nx pv L Z" and "p \<in> L" "p \<in> Z"
  shows "group_ok nx pv (L - {p}) Z"
proof -
  have "nx p = p" "pv p = p" using group_okD(3,5) [OF g assms(2)] assms(3) by auto
  then have "nx x \<noteq> p \<and> pv x \<noteq> p" if "x \<in> L" "x \<noteq> p" for x using group_okD(3,4) [OF g that(1)] that(2) by auto
  then show ?thesis using g by (auto simp: group_ok_def)
qed

subsection \<open>Shared objects\<close>

text \<open>The count of an object is the number of live processes that use it.\<close>

definition shared_ok :: "(nat \<Rightarrow> int) \<Rightarrow> (nat \<Rightarrow> nat option) \<Rightarrow> nat set \<Rightarrow> nat set \<Rightarrow> bool" where
  "shared_ok cnt use L Z \<longleftrightarrow> (\<forall>s. cnt s = int (card {p \<in> L - Z. use p = Some s}))"

lemma shared_new:
  assumes "shared_ok cnt use L Z" "finite L" "p \<notin> L" "p \<notin> Z"
  shows "shared_ok cnt (use(p := None)) (insert p L) Z" and "shared_ok (cnt(s := cnt s + 1)) (use(p := Some s)) (insert p L) Z"
proof -
  have n: "{q \<in> insert p L - Z. (use(p := None)) q = Some r} = {q \<in> L - Z. use q = Some r}" for r using assms(3) by auto
  then show "shared_ok cnt (use(p := None)) (insert p L) Z" using assms(1) by (simp add: shared_ok_def)
  have "{q \<in> insert p L - Z. (use(p := Some s)) q = Some r} = (if r = s then insert p {q \<in> L - Z. use q = Some r} else {q \<in> L - Z. use q = Some r})" for r
    using assms(3,4) by auto
  then show "shared_ok (cnt(s := cnt s + 1)) (use(p := Some s)) (insert p L) Z"
    using assms by (simp add: shared_ok_def)
qed

lemma shared_cong:
  assumes "shared_ok cnt use L Z" "\<And>p. p \<in> L - Z \<Longrightarrow> use' p = use p"
  shows "shared_ok cnt use' L Z"
proof -
  have "{p \<in> L - Z. use' p = Some s} = {p \<in> L - Z. use p = Some s}" for s using assms(2) by auto
  then show ?thesis using assms(1) by (simp add: shared_ok_def)
qed

lemma shared_leave:
  assumes sh: "shared_ok cnt use L Z" and L: "finite L" and p: "p \<in> L" "p \<notin> Z"
  shows "shared_ok (case use p of None \<Rightarrow> cnt | Some s \<Rightarrow> cnt(s := cnt s - 1)) use L (insert p Z)"
  unfolding shared_ok_def
proof
  fix s
  have "{q \<in> L - insert p Z. use q = Some s} = {q \<in> L - Z. use q = Some s} - {p}" by auto
  moreover have "p \<in> {q \<in> L - Z. use q = Some s} \<longleftrightarrow> use p = Some s" using p by auto
  moreover have "finite {q \<in> L - Z. use q = Some s}" using L by simp
  ultimately have "int (card {q \<in> L - Z. use q = Some s}) = int (card {q \<in> L - insert p Z. use q = Some s}) + (if use p = Some s then 1 else 0)"
    using card_Suc_Diff1 [of "{q \<in> L - Z. use q = Some s}" p] by (cases "use p = Some s") simp_all
  then show "(case use p of None \<Rightarrow> cnt | Some s \<Rightarrow> cnt(s := cnt s - 1)) s = int (card {q \<in> L - insert p Z. use q = Some s})"
    using sh by (auto simp: shared_ok_def split: option.splits)
qed

lemma shared_reap: "shared_ok cnt use L Z \<Longrightarrow> p \<in> Z \<Longrightarrow> shared_ok cnt use (L - {p}) Z"
proof -
  assume "shared_ok cnt use L Z" "p \<in> Z"
  moreover have "{q \<in> L - {p} - Z. use q = Some s} = {q \<in> L - Z. use q = Some s}" for s using \<open>p \<in> Z\<close> by auto
  ultimately show ?thesis by (simp add: shared_ok_def)
qed

subsection \<open>Changes of the tree\<close>

lemma set_links_frame:
  assumes "set_links a t = Some t'"
  shows "hash_list t' = hash_list t" "next_safe t' = next_safe t" "last_pid t' = last_pid t"
    "pid (ptable.procs t' p) = pid (ptable.procs t p)" "parent (ptable.procs t' p) = parent (ptable.procs t p)"
    "parent (ptable.procs t a) \<noteq> Some p \<Longrightarrow> cptr (ptable.procs t' p) = cptr (ptable.procs t p)"
proof -
  obtain q where q: "parent (ptable.procs t a) = Some q" using assms by (cases "parent (ptable.procs t a)") (simp_all add: set_links_def)
  let ?c = "cptr (ptable.procs t q)"
  have "hash_list t' = hash_list t \<and> next_safe t' = next_safe t \<and> last_pid t' = last_pid t \<and> pid (ptable.procs t' p) = pid (ptable.procs t p) \<and>
    parent (ptable.procs t' p) = parent (ptable.procs t p) \<and> (q \<noteq> p \<longrightarrow> cptr (ptable.procs t' p) = cptr (ptable.procs t p))"
    using assms q by (cases ?c) (auto simp: set_links_def Let_def)
  then show "hash_list t' = hash_list t" "next_safe t' = next_safe t" "last_pid t' = last_pid t"
    "pid (ptable.procs t' p) = pid (ptable.procs t p)" "parent (ptable.procs t' p) = parent (ptable.procs t p)"
    "parent (ptable.procs t a) \<noteq> Some p \<Longrightarrow> cptr (ptable.procs t' p) = cptr (ptable.procs t p)"
    using q by auto
qed

lemma remove_links_frame:
  assumes "remove_links a t = Some t'"
  shows "hash_list t' = hash_list t" "next_safe t' = next_safe t" "last_pid t' = last_pid t"
    "pid (ptable.procs t' p) = pid (ptable.procs t p)" "parent (ptable.procs t' p) = parent (ptable.procs t p)"
proof -
  have "hash_list t' = hash_list t \<and> next_safe t' = next_safe t \<and> last_pid t' = last_pid t \<and> pid (ptable.procs t' p) = pid (ptable.procs t p) \<and>
    parent (ptable.procs t' p) = parent (ptable.procs t p)"
  proof (cases "optr (ptable.procs t a)")
    case None
    then show ?thesis using assms by (cases "yptr (ptable.procs t a)"; cases "parent (ptable.procs t a)") (auto simp: remove_links_def)
  next
    case (Some b)
    then show ?thesis
      using assms by (cases "b = a"; cases "yptr (ptable.procs t a)"; cases "parent (ptable.procs t a)") (auto simp: remove_links_def)
  qed
  then show "hash_list t' = hash_list t" "next_safe t' = next_safe t" "last_pid t' = last_pid t"
    "pid (ptable.procs t' p) = pid (ptable.procs t p)" "parent (ptable.procs t' p) = parent (ptable.procs t p)" by auto
qed

lemma tree_fork:
  assumes tr: "tree_ok t L Z" and P: "set (proc_list t) \<subseteq> L" and a: "a \<notin> L" "cptr (ptable.procs t a) = None"
    and c: "c \<in> L" "c \<notin> Z" "parent (ptable.procs t a) = Some c"
  obtains t' where "set_links a t = Some t'" "tree_ok t' (insert a L) Z" "proc_list t' = a # proc_list t" "nr_process t' = nr_process t + 1"
    "kids t' c = insert a (kids t c)" "\<exists>xs. children (ptable.procs t') c (a # xs)"
proof -
  obtain xs where xs: "children (ptable.procs t) c xs" "set xs = kids t c" using tree_okD(1) [OF tr c(1)] by blast
  have "a \<notin> set xs" "a \<noteq> c" using xs(2) P a(1) c(1) by (auto simp: kids_def)
  then obtain t' where t': "set_links a t = Some t'" "children (ptable.procs t') c (a # xs)" "proc_list t' = a # proc_list t"
    "nr_process t' = nr_process t + 1"
    "\<And>q ys. children (ptable.procs t) q ys \<Longrightarrow> q \<noteq> c \<Longrightarrow> q \<noteq> a \<Longrightarrow> a \<notin> set ys \<Longrightarrow> children (ptable.procs t') q ys"
    using set_links_correct [OF c(3) xs(1)] by blast
  note f = set_links_frame [OF t'(1)]
  have kids: "kids t' q = (if q = c then insert a (kids t q) else kids t q)" for q
    using c(3) by (auto simp: kids_def t'(3) f(5))
  have "\<exists>ys. children (ptable.procs t') q ys \<and> set ys = kids t' q" if q: "q \<in> insert a L" for q
  proof -
    consider "q = c" | "q = a" | "q \<in> L" "q \<noteq> c" "q \<noteq> a" using q by blast
    then show ?thesis
    proof cases
      case 1
      then show ?thesis using t'(2) xs(2) kids [of c] by (intro exI [of _ "a # xs"]) simp
    next
      case 2
      have "kids t a = {}" using tree_okD(2) [OF tr] a(1) by (fastforce simp: kids_def)
      moreover have "children (ptable.procs t') a []" using f(6) [of a] a(2) c(3) \<open>a \<noteq> c\<close> by (simp add: children_def)
      ultimately show ?thesis using 2 kids [of a] \<open>a \<noteq> c\<close> by (intro exI [of _ "[]"]) simp
    next
      case 3
      then obtain ys where ys: "children (ptable.procs t) q ys" "set ys = kids t q" using tree_okD(1) [OF tr] by blast
      then have "a \<notin> set ys" using P a(1) by (auto simp: kids_def)
      then show ?thesis using t'(5) [OF ys(1)] 3 ys(2) kids [of q] by (intro exI [of _ ys]) simp
    qed
  qed
  then have "tree_ok t' (insert a L) Z"
    using tree_okD(2) [OF tr] c unfolding tree_ok_def t'(3) f(5) by fastforce
  then show thesis using that [OF t'(1) _ t'(3,4)] kids [of c] t'(2) by auto
qed

lemma tree_reap:
  assumes tr: "tree_ok t L Z" and P: "set (proc_list t) \<subseteq> L" "distinct (proc_list t)" and a: "a \<in> set (proc_list t)" "a \<in> Z"
  obtains t' where "remove_links a t = Some t'" "tree_ok t' (L - {a}) Z" "proc_list t' = remove1 a (proc_list t)" "nr_process t' = nr_process t - 1"
proof -
  obtain c where c: "c \<in> L" "c \<notin> Z" "parent (ptable.procs t a) = Some c" using tree_okD(2) [OF tr a(1)] by blast
  obtain xs where xs: "children (ptable.procs t) c xs" "set xs = kids t c" using tree_okD(1) [OF tr c(1)] by blast
  have "a \<in> set xs" using a c xs(2) by (simp add: kids_def)
  then obtain A B where AB: "xs = A @ a # B" by (meson split_list)
  obtain t' where t': "remove_links a t = Some t'" "children (ptable.procs t') c (A @ B)" "proc_list t' = remove1 a (proc_list t)"
    "nr_process t' = nr_process t - 1" "\<And>q ys. children (ptable.procs t) q ys \<Longrightarrow> q \<noteq> c \<Longrightarrow> children (ptable.procs t') q ys"
    using remove_links_correct [of t c A a B] xs(1) unfolding AB by blast
  note f = remove_links_frame [OF t'(1)]
  have P': "set (proc_list t') = set (proc_list t) - {a}" using P(2) t'(3) by simp
  have kids: "kids t' q = kids t q - {a}" for q by (auto simp: kids_def P' f(5))
  have "\<exists>ys. children (ptable.procs t') q ys \<and> set ys = kids t' q" if q: "q \<in> L - {a}" for q
  proof (cases "q = c")
    case True
    have "set (A @ B) = kids t c - {a}" using xs AB by (auto simp: children_def)
    then show ?thesis using True t'(2) kids by metis
  next
    case False
    obtain ys where ys: "children (ptable.procs t) q ys" "set ys = kids t q" using tree_okD(1) [OF tr] q by blast
    moreover have "a \<notin> kids t q" using c(3) False by (simp add: kids_def)
    ultimately show ?thesis using t'(5) False kids [of q] by (intro exI [of _ ys]) simp
  qed
  moreover have "\<exists>q\<in>L - {a} - Z. parent (ptable.procs t' p) = Some q" if "p \<in> set (proc_list t')" for p
    using tree_okD(2) [OF tr, of p] that a(2) P' f(5) by auto
  ultimately show thesis using that [OF t'(1) _ t'(3,4)] by (simp add: tree_ok_def)
qed

subsection \<open>The invariant\<close>

definition procs_ok :: "life \<Rightarrow> bool" where
  "procs_ok k \<longleftrightarrow> ids_ok (tab k) \<and> tree_ok (tab k) (living k) (zombies k) \<and> group_ok (tg_next k) (tg_prev k) (living k) (zombies k) \<and>
     shared_ok (mm_count k) (mm_of k) (living k) (zombies k) \<and> shared_ok (fs_count k) (fs_of k) (living k) (zombies k) \<and>
     shared_ok (sem_count k) (sem_of k) (living k) (zombies k) \<and> (\<forall>p\<in>living k - zombies k. fs_of k p \<noteq> None) \<and>
     allocated k = living k \<and> kstacks k = set (proc_list (tab k)) \<and> idleproc k \<notin> set (proc_list (tab k))"

lemma procs_okD:
  assumes "procs_ok k"
  shows "ids_ok (tab k)" "tree_ok (tab k) (living k) (zombies k)" "group_ok (tg_next k) (tg_prev k) (living k) (zombies k)"
    "shared_ok (mm_count k) (mm_of k) (living k) (zombies k)" "shared_ok (fs_count k) (fs_of k) (living k) (zombies k)"
    "shared_ok (sem_count k) (sem_of k) (living k) (zombies k)" "\<And>p. p \<in> living k \<Longrightarrow> p \<notin> zombies k \<Longrightarrow> fs_of k p \<noteq> None"
    "allocated k = living k" "kstacks k = set (proc_list (tab k))" "idleproc k \<notin> set (proc_list (tab k))"
  using assms by (auto simp: procs_ok_def)

lemma finite_living [simp]: "finite (living k)"
  by (simp add: living_def)

lemma proc_list_living: "set (proc_list (tab k)) \<subseteq> living k"
  by (auto simp: living_def)

lemma more_life:
  assumes "wait_kernel.more k' = wait_kernel.more (k :: life)"
  shows "tab k' = tab k" "tg_next k' = tg_next k" "tg_prev k' = tg_prev k" "exiting k' = exiting k" "exit_code k' = exit_code k"
    "initproc k' = initproc k" "mm_of k' = mm_of k" "mm_count k' = mm_count k" "fs_of k' = fs_of k" "fs_count k' = fs_count k"
    "sem_of k' = sem_of k" "sem_count k' = sem_count k" "allocated k' = allocated k" "kstacks k' = kstacks k"
  using assms by (cases k; cases k'; simp)+

text \<open>Only membership of processes in the set of zombies matters.\<close>

lemma zombies_cong:
  assumes "L \<inter> Z' = L \<inter> Z"
  shows "tree_ok t L Z' = tree_ok t L Z" "group_ok nx pv L Z' = group_ok nx pv L Z" "shared_ok cnt use L Z' = shared_ok cnt use L Z"
proof -
  have "L - Z' = L - Z" using assms by blast
  then show "tree_ok t L Z' = tree_ok t L Z" "group_ok nx pv L Z' = group_ok nx pv L Z" "shared_ok cnt use L Z' = shared_ok cnt use L Z"
    using assms by (simp_all add: tree_ok_def group_ok_def shared_ok_def)
qed

lemma procs_ok_frame:
  assumes "procs_ok k" "wait_kernel.more k' = wait_kernel.more k" "idleproc k' = idleproc k" "living k \<inter> zombies k' = living k \<inter> zombies k"
  shows "procs_ok k'" "living k' = living k"
proof -
  note m = more_life [OF assms(2)]
  show l: "living k' = living k" using m assms(3) by (simp add: living_def)
  have "living k - zombies k' = living k - zombies k" using assms(4) by blast
  then show "procs_ok k'" using assms(1) unfolding procs_ok_def l m assms(3) zombies_cong [OF assms(4)] by simp
qed

text \<open>The scheduler, and the processes it knows.\<close>

definition base_ok :: "life \<Rightarrow> bool" where
  "base_ok k \<longleftrightarrow> kernel_inv k \<and> wait_inv k \<and> state (desc (idleproc k) k) = PROC_RUNNABLE \<and>
     (\<forall>p. state (desc p k) = PROC_RUNNABLE \<longrightarrow> p \<in> living k \<and> wait_state (desc p k) = 0) \<and>
     (\<forall>p\<in>living k. state (desc p k) = PROC_ZOMBIE \<longrightarrow> wait_state (desc p k) = 0) \<and>
     (\<forall>t\<in>set (timer_list k). \<forall>p. tproc (timers k t) = Some p \<longrightarrow> p \<in> living k) \<and>
     (\<forall>q. \<forall>w\<in>set (wqs k q). \<forall>p. wproc (waits k w) = Some p \<longrightarrow> p \<in> living k - zombies k)"

definition run_ok :: "life \<Rightarrow> bool" where
  "run_ok k \<longleftrightarrow> base_ok k \<and> state (desc (current k) k) = PROC_RUNNABLE"

lemma base_okD:
  assumes "base_ok k"
  shows "kernel_inv k" "sched_inv k" "wait_inv k" "state (desc (idleproc k) k) = PROC_RUNNABLE"
    "state (desc p k) = PROC_RUNNABLE \<Longrightarrow> p \<in> living k \<and> wait_state (desc p k) = 0"
    "p \<in> living k \<Longrightarrow> state (desc p k) = PROC_ZOMBIE \<Longrightarrow> wait_state (desc p k) = 0"
    "t \<in> set (timer_list k) \<Longrightarrow> tproc (timers k t) = Some p \<Longrightarrow> p \<in> living k"
    "w \<in> set (wqs k q) \<Longrightarrow> wproc (waits k w) = Some p \<Longrightarrow> p \<in> living k - zombies k"
  using assms unfolding base_ok_def kernel_inv_def by auto

lemma run_okD:
  assumes "run_ok k"
  shows "base_ok k" "state (desc (current k) k) = PROC_RUNNABLE" "current k \<in> living k" "current k \<notin> zombies k" "wait_state (desc (current k) k) = 0"
    "0 \<le> time_slice (desc p k)"
proof -
  show b: "base_ok k" and r: "state (desc (current k) k) = PROC_RUNNABLE" using assms by (simp_all add: run_ok_def)
  show "current k \<in> living k" "current k \<notin> zombies k" "wait_state (desc (current k) k) = 0"
    using base_okD(5) [OF b r] r by (simp_all add: zombies_def)
  show "0 \<le> time_slice (desc p k)" using sched_invD(1) [OF base_okD(2) [OF b]] by (simp add: rq_inv_def)
qed

text \<open>The processes \<open>W\<close> were woken, and nothing else happened to the states.\<close>

definition woke :: "nat set \<Rightarrow> life \<Rightarrow> life \<Rightarrow> bool" where
  "woke W k k' \<longleftrightarrow> (\<forall>r. state (desc r k') = (if r \<in> W then PROC_RUNNABLE else state (desc r k))) \<and>
     (\<forall>r. wait_state (desc r k') = (if r \<in> W \<and> state (desc r k) \<noteq> PROC_RUNNABLE then 0 else wait_state (desc r k))) \<and>
     current k' = current k \<and> idleproc k' = idleproc k \<and> timers k' = timers k \<and> timer_list k' = timer_list k"

lemma woke_refl [simp]: "woke {} k k"
  by (simp add: woke_def)

lemma woke_trans: "woke V k k1 \<Longrightarrow> woke W k1 k2 \<Longrightarrow> woke (V \<union> W) k k2"
  by (auto simp: woke_def)

lemma woke_zombies: "woke W k k' \<Longrightarrow> W \<inter> zombies k = {} \<Longrightarrow> zombies k' = zombies k"
  by (auto simp: woke_def zombies_def split: if_splits)

lemma base_woke:
  assumes b: "base_ok k" and w: "woke W k k'" and W: "W \<subseteq> living k - zombies k" and l: "living k' = living k"
    and i: "kernel_inv k'" "wait_inv k'" and q: "\<And>q. set (wqs k' q) \<subseteq> set (wqs k q)" "\<And>w. wproc (waits k' w) = wproc (waits k w)"
  shows "base_ok k'"
proof -
  have z: "zombies k' = zombies k" using woke_zombies [OF w] W by blast
  have s: "state (desc r k') = (if r \<in> W then PROC_RUNNABLE else state (desc r k))"
    "wait_state (desc r k') = (if r \<in> W \<and> state (desc r k) \<noteq> PROC_RUNNABLE then 0 else wait_state (desc r k))" for r
    using w by (auto simp: woke_def)
  have e: "idleproc k' = idleproc k" "timers k' = timers k" "timer_list k' = timer_list k" using w by (auto simp: woke_def)
  show ?thesis
    unfolding base_ok_def
  proof (intro conjI allI ballI impI)
    show "state (desc (idleproc k') k') = PROC_RUNNABLE" using base_okD(4) [OF b] by (simp add: e s)
    show "wait_state (desc p k') = 0" if "state (desc p k') = PROC_RUNNABLE" for p
      using that base_okD(5) [OF b, of p] by (auto simp: s split: if_splits)
    show "p \<in> living k'" if "state (desc p k') = PROC_RUNNABLE" for p
      using that base_okD(5) [OF b, of p] W by (auto simp: s l split: if_splits)
    show "wait_state (desc p k') = 0" if "p \<in> living k'" "state (desc p k') = PROC_ZOMBIE" for p
      using that base_okD(6) [OF b, of p] by (auto simp: s l split: if_splits)
    show "p \<in> living k'" if "t \<in> set (timer_list k')" "tproc (timers k' t) = Some p" for t p
      using that base_okD(7) [OF b, of t p] by (simp add: e l)
    show "p \<in> living k' - zombies k'" if "v \<in> set (wqs k' r)" "wproc (waits k' v) = Some p" for r v p
      using that base_okD(8) [OF b, of v r p] q by (auto simp: z l)
  qed (use i in auto)
qed

lemma wakeup_life:
  assumes b: "base_ok k" and p: "p \<in> living k" "p \<notin> zombies k"
  obtains k' where "wakeup_proc p k = Some k'" "base_ok k'" "woke {p} k k'" "kernel.more k' = kernel.more k"
proof -
  have z: "state (desc p k) \<noteq> PROC_ZOMBIE" using p(2) by (simp add: zombies_def)
  show thesis
  proof (rule wakeup_proc_ok [OF base_okD(2) [OF b] z])
    fix k' assume k': "wakeup_proc p k = Some k'"
      "\<And>r. state (desc r k') = (if r = p then PROC_RUNNABLE else state (desc r k))"
      "\<And>r. wait_state (desc r k') = (if r = p \<and> state (desc p k) \<noteq> PROC_RUNNABLE then 0 else wait_state (desc r k))"
      "current k' = current k" "idleproc k' = idleproc k" "timers k' = timers k" "timer_list k' = timer_list k"
      "kernel.more k' = kernel.more k"
    have w: "woke {p} k k'" using k' by (auto simp: woke_def)
    have i: "kernel_inv k'" using wakeup_kernel_inv [OF base_okD(1) [OF b] z] k'(1) by (metis option.inject)
    note m = more_waits [OF k'(8)]
    have l: "living k' = living k" using more_life(1) [OF m(3)] k'(5) by (simp add: living_def)
    have "wait_inv k'" using base_okD(3) [OF b] m by (simp add: wait_inv_def)
    then have "base_ok k'" using base_woke [OF b w _ l i] p m by simp
    then show thesis using that k' w by blast
  qed
qed

lemma schedule_life:
  assumes b: "base_ok k"
  obtains k' where "schedule k = Some k'" "run_ok k'" "kernel.more k' = kernel.more k" "idleproc k' = idleproc k" "zombies k' = zombies k"
    "\<And>r. state (desc r k') = state (desc r k)" "\<And>r. wait_state (desc r k') = wait_state (desc r k)"
proof (rule schedule_ok [OF base_okD(2) [OF b]])
  fix k' assume k': "schedule k = Some k'" "idleproc k' = idleproc k" "\<And>r. state (desc r k') = state (desc r k)"
    "\<And>r. wait_state (desc r k') = wait_state (desc r k)" "timers k' = timers k" "timer_list k' = timer_list k" "kernel.more k' = kernel.more k"
  have i: "kernel_inv k'" using schedule_kernel_inv [OF base_okD(1) [OF b]] k'(1) by (metis option.inject)
  note m = more_waits [OF k'(7)]
  have l: "living k' = living k" using more_life(1) [OF m(3)] k'(2) by (simp add: living_def)
  have z: "zombies k' = zombies k" using k'(3) by (simp add: zombies_def)
  have "base_ok k'"
    using b i unfolding base_ok_def k'(2-6) l z m by (simp add: wait_inv_def m)
  moreover have "running_ok k'" using schedule_running(1) [OF base_okD(1) [OF b] k'(1)] .
  ultimately have "run_ok k'" using base_okD(4) [of k'] by (auto simp: run_ok_def running_ok_def)
  then show thesis using that k' z by blast
qed

end
