(* ===== verification/Proc_Fork.thy ===== *)
theory Proc_Fork
  imports Proc_Inv
begin

text \<open>
  \<open>do_fork\<close> on states of the invariant: it never panics; when an allocation fails everything is given back but the time slice, and otherwise the
  new process has a number of its own and its place in the table, in the tree, in its group and in the scheduler.
\<close>

subsection \<open>The new descriptor\<close>

definition fork_new :: "nat \<Rightarrow> life \<Rightarrow> life" where
  "fork_new p k =
     (let k = alloc_proc p k;
          k = upd_links p (\<lambda>q. q\<lparr>parent := Some (current k)\<rparr>) k;
          k = Sched.upd_proc p (\<lambda>q. q\<lparr>time_slice := time_slice (desc (current k) k) div 2\<rparr>) k
      in Sched.upd_proc (current k) (\<lambda>q. q\<lparr>time_slice := time_slice q - time_slice (desc p k)\<rparr>) k)"

lemma fork_new_fields [simp]:
  "current (fork_new p k) = current k" "idleproc (fork_new p k) = idleproc k" "rqs (fork_new p k) = rqs k" "timers (fork_new p k) = timers k"
  "timer_list (fork_new p k) = timer_list k" "waits (fork_new p k) = waits k" "wqs (fork_new p k) = (wqs k)(Event_wq p := [])"
  "tab (fork_new p k) = (tab k)\<lparr>ptable.procs := (ptable.procs (tab k))(p := \<lparr>pid = - 1, parent = Some (current k), cptr = None, yptr = None, optr = None\<rparr>)\<rparr>"
  "tg_next (fork_new p k) = (tg_next k)(p := p)" "tg_prev (fork_new p k) = (tg_prev k)(p := p)" "exiting (fork_new p k) = (exiting k)(p := False)"
  "exit_code (fork_new p k) = exit_code k" "initproc (fork_new p k) = initproc k" "mm_of (fork_new p k) = (mm_of k)(p := None)"
  "fs_of (fork_new p k) = (fs_of k)(p := None)" "sem_of (fork_new p k) = (sem_of k)(p := None)" "mm_count (fork_new p k) = mm_count k"
  "fs_count (fork_new p k) = fs_count k" "sem_count (fork_new p k) = sem_count k" "allocated (fork_new p k) = insert p (allocated k)"
  "kstacks (fork_new p k) = kstacks k"
  by (simp_all add: fork_new_def Let_def alloc_proc_def upd_links_def wait_queue_init_def Sched.upd_proc_def upd_wq_def)

lemma fork_new_desc:
  assumes "p \<noteq> current k"
  shows "state (desc r (fork_new p k)) = (if r = p then PROC_UNINIT else state (desc r k))"
    and "wait_state (desc r (fork_new p k)) = (if r = p then 0 else wait_state (desc r k))"
    and "rq (desc r (fork_new p k)) = (if r = p then None else rq (desc r k))"
    and "time_slice (desc r (fork_new p k)) = (if r = p then time_slice (desc (current k) k) div 2
       else if r = current k then time_slice (desc r k) - time_slice (desc r k) div 2 else time_slice (desc r k))"
  using assms by (simp_all add: fork_new_def Let_def alloc_proc_def upd_links_def wait_queue_init_def Sched.upd_proc_def upd_wq_def)

lemma fork_new_all:
  assumes "p \<noteq> current k"
  shows "desc p (fork_new p k) = \<lparr>state = PROC_UNINIT, runs = 0, need_resched = False, wait_state = 0, rq = None, time_slice = time_slice (desc (current k) k) div 2\<rparr>"
    and "desc (current k) (fork_new p k) = (desc (current k) k)\<lparr>time_slice := time_slice (desc (current k) k) - time_slice (desc (current k) k) div 2\<rparr>"
    and "q \<noteq> p \<Longrightarrow> q \<noteq> current k \<Longrightarrow> desc q (fork_new p k) = desc q k"
  using assms by (simp_all add: fork_new_def Let_def alloc_proc_def upd_links_def wait_queue_init_def Sched.upd_proc_def upd_wq_def)

lemma fork_new_base:
  assumes b: "run_ok k" and p: "p \<notin> living k"
  shows "run_ok (fork_new p k)"
proof -
  have b': "base_ok k" and c: "current k \<in> living k" using run_okD [OF b] by auto
  have pc: "p \<noteq> current k" using c p by auto
  note d = fork_new_desc [OF pc]
  let ?k = "fork_new p k"
  have l: "living ?k = living k" by (simp add: living_def)
  have z: "living k \<inter> zombies ?k = living k \<inter> zombies k" using p d(1) by (auto simp: zombies_def)
  note s = base_okD(2) [OF b']
  have nq: "p \<notin> set (queued k)" "current k \<notin> set (queued k)" using sched_invD(2) [OF s] base_okD(5) [OF b', of p] p by auto
  have q: "queued ?k = queued k" by (simp add: queued_def)
  have rqi: "rq_inv k" by (rule sched_invD(1) [OF s])
  have "rq_inv ?k"
  proof (rule rq_invI)
    show "rqs ?k \<noteq> []" "distinct (queued ?k)" using rq_inv_fields [OF rqi] q by simp_all
    show "queue_ok ?k i" if "i < length (rqs ?k)" for i
    proof -
      have "queue_ok k i" using rqi that by (simp add: rq_inv_def)
      moreover have "r \<noteq> p \<and> r \<noteq> current k" if "r \<in> set (run_list (rqs k ! i))" for r
        using nq that \<open>i < length (rqs ?k)\<close> by (auto simp: queued_member)
      ultimately show ?thesis unfolding queue_ok_def by (simp add: d(3,4))
    qed
    have "x div 2 \<le> x" if "0 \<le> x" for x :: int using that by presburger
    then show "0 \<le> time_slice (desc r ?k)" for r
      using rq_inv_fields(3) [OF rqi, of r] rq_inv_fields(3) [OF rqi, of "current k"] by (auto simp: d(4))
    show "i < length (rqs ?k)" if "rq (desc r ?k) = Some i" for r i using rq_inv_fields(4) [OF rqi, of r i] that by (simp add: d(3) split: if_splits)
  qed
  then have "sched_inv ?k" using sched_invD(2) [OF s] nq(1) unfolding sched_inv_def q by (auto simp: d(1) split: if_splits)
  then have i: "kernel_inv ?k"
    by (rule kernel_inv_frame [OF base_okD(1) [OF b']]) (auto simp: wakeable_def d(1,2))
  have "wait_inv ?k" using base_okD(3) [OF b'] by (auto simp: wait_inv_def)
  moreover have "state (desc (idleproc k) ?k) = PROC_RUNNABLE" using base_okD(4) [OF b'] p by (auto simp: d(1) living_def)
  moreover have "q \<in> zombies ?k \<longleftrightarrow> q \<in> zombies k" if "q \<in> living k" for q using z that by blast
  ultimately have "base_ok ?k"
    using i base_okD(5-8) [OF b'] p unfolding base_ok_def by (auto simp: l d(1,2) split: if_splits)
  then show ?thesis using run_okD(2) [OF b] pc by (simp add: run_ok_def d(1))
qed

subsection \<open>Inherited objects\<close>

definition inherit :: "bool \<Rightarrow> nat option \<Rightarrow> nat option \<Rightarrow> nat option" where
  "inherit share new old = (case old of None \<Rightarrow> None | Some s \<Rightarrow> if share then Some s else new)"

definition can_copy :: "bool \<Rightarrow> nat option \<Rightarrow> nat option \<Rightarrow> bool" where
  "can_copy share new old \<longleftrightarrow> old = None \<or> share \<or> new \<noteq> None"

definition add_user :: "nat option \<Rightarrow> (nat \<Rightarrow> int) \<Rightarrow> nat \<Rightarrow> int" where
  "add_user u cnt = (case u of None \<Rightarrow> cnt | Some s \<Rightarrow> cnt(s := cnt s + 1))"

definition fresh :: "nat option \<Rightarrow> (nat \<Rightarrow> int) \<Rightarrow> bool" where
  "fresh new cnt \<longleftrightarrow> (\<forall>s. new = Some s \<longrightarrow> cnt s = 0)"

lemma share_or_copy_eq:
  assumes "fresh new cnt"
  shows "share_or_copy share new old cnt =
    (if can_copy share new (Some old) then Some (the (inherit share new (Some old)), add_user (inherit share new (Some old)) cnt) else None)"
  using assms by (auto simp: share_or_copy_def can_copy_def inherit_def add_user_def fresh_def split: option.splits)

lemma inherit_Some: "can_copy share new (Some old) \<Longrightarrow> \<exists>s. inherit share new (Some old) = Some s"
  by (auto simp: can_copy_def inherit_def)

lemma copy_sem_eq:
  assumes "fresh new (sem_count k)" "sem_of k p = None"
  shows "copy_sem share new p k =
    (if can_copy share new (sem_of k (current k))
     then let u = inherit share new (sem_of k (current k)) in (0, k\<lparr>sem_count := add_user u (sem_count k), sem_of := (sem_of k)(p := u)\<rparr>)
     else (- E_NO_MEM, k))"
proof (cases "sem_of k (current k)")
  case None
  have "(sem_of k)(p := None) = sem_of k" using assms(2) by auto
  then show ?thesis using None by (simp add: copy_sem_def can_copy_def inherit_def add_user_def)
next
  case (Some old)
  then show ?thesis using share_or_copy_eq [OF assms(1), of share old] inherit_Some [of share new old] by (auto simp: copy_sem_def Let_def)
qed

lemma copy_mm_eq:
  assumes "fresh new (mm_count k)" "mm_of k p = None"
  shows "copy_mm share new p k =
    (if can_copy share new (mm_of k (current k))
     then let u = inherit share new (mm_of k (current k)) in (0, k\<lparr>mm_count := add_user u (mm_count k), mm_of := (mm_of k)(p := u)\<rparr>)
     else (- E_NO_MEM, k))"
proof (cases "mm_of k (current k)")
  case None
  have "(mm_of k)(p := None) = mm_of k" using assms(2) by auto
  then show ?thesis using None by (simp add: copy_mm_def can_copy_def inherit_def add_user_def)
next
  case (Some old)
  then show ?thesis using share_or_copy_eq [OF assms(1), of share old] inherit_Some [of share new old] by (auto simp: copy_mm_def Let_def)
qed

lemma copy_fs_eq:
  assumes "fresh new (fs_count k)" "fs_of k (current k) \<noteq> None"
  shows "copy_fs share new p k = Some
    (if can_copy share new (fs_of k (current k))
     then let u = inherit share new (fs_of k (current k)) in (0, k\<lparr>fs_count := add_user u (fs_count k), fs_of := (fs_of k)(p := u)\<rparr>)
     else (- E_NO_MEM, k))"
proof -
  obtain old where "fs_of k (current k) = Some old" using assms(2) by auto
  then show ?thesis using share_or_copy_eq [OF assms(1), of share old] inherit_Some [of share new old] by (auto simp: copy_fs_def Let_def)
qed

lemma drop_user: "(case u of None \<Rightarrow> add_user u cnt | Some s \<Rightarrow> (add_user u cnt)(s := add_user u cnt s - 1)) = cnt"
  by (auto simp: add_user_def split: option.splits)

lemma shared_add:
  assumes "shared_ok cnt use L Z" "finite L" "p \<notin> L" "p \<notin> Z"
  shows "shared_ok (add_user u cnt) (use(p := u)) (insert p L) Z"
  using shared_new [OF assms] by (cases u) (simp_all add: add_user_def)

subsection \<open>The call up to the point where the process is linked\<close>

text \<open>What the allocators promise: addresses that are not in use.\<close>

definition fork_args_ok :: "fork_args \<Rightarrow> life \<Rightarrow> bool" where
  "fork_args_ok args k \<longleftrightarrow> (\<forall>p. new_proc args = Some p \<longrightarrow> p \<notin> allocated k) \<and>
     fresh (new_sem args) (sem_count k) \<and> fresh (new_fs args) (fs_count k) \<and> fresh (new_mm args) (mm_count k)"

definition fork_possible :: "u32 \<Rightarrow> fork_args \<Rightarrow> life \<Rightarrow> bool" where
  "fork_possible flags args k \<longleftrightarrow> nr_process (tab k) < MAX_PROCESS \<and> new_proc args \<noteq> None \<and> new_stack args \<and>
     can_copy (bit flags 10) (new_sem args) (sem_of k (current k)) \<and> can_copy (bit flags 11) (new_fs args) (fs_of k (current k)) \<and>
     can_copy (bit flags 8) (new_mm args) (mm_of k (current k))"

definition fork_copied :: "u32 \<Rightarrow> fork_args \<Rightarrow> nat \<Rightarrow> life \<Rightarrow> life" where
  "fork_copied flags args p k =
     (let us = inherit (bit flags 10) (new_sem args) (sem_of k (current k));
          uf = inherit (bit flags 11) (new_fs args) (fs_of k (current k));
          um = inherit (bit flags 8) (new_mm args) (mm_of k (current k))
      in (fork_new p k)\<lparr>kstacks := insert p (kstacks k), sem_count := add_user us (sem_count k), sem_of := (sem_of k)(p := us),
            fs_count := add_user uf (fs_count k), fs_of := (fs_of k)(p := uf), mm_count := add_user um (mm_count k), mm_of := (mm_of k)(p := um)\<rparr>)"

lemma init_child_eq:
  assumes "run_ok k" "p \<notin> living k"
  shows "init_child p (alloc_proc p k) = Some (fork_new p k)"
proof -
  note c = run_okD [OF assms(1)]
  have "p \<noteq> current k" using c(3) assms(2) by auto
  then show ?thesis
    using c(5) c(6) [of "current k"]
    by (simp add: init_child_def fork_new_def Let_def alloc_proc_def upd_links_def wait_queue_init_def upd_wq_def Sched.upd_proc_def fun_upd_twist)
qed

lemma do_fork_forms:
  assumes r: "run_ok k" and t: "procs_ok k" and a: "fork_args_ok args k" and n: "nr_process (tab k) < MAX_PROCESS" "new_proc args = Some p"
  shows "fork_possible flags args k \<Longrightarrow> do_fork flags args k = link_child flags p (fork_copied flags args p k)"
    and "\<not> fork_possible flags args k \<Longrightarrow> \<exists>us uf. do_fork flags args k =
      Some (- E_NO_MEM, (fork_new p k)\<lparr>allocated := allocated k, sem_of := (sem_of k)(p := us), fs_of := (fs_of k)(p := uf)\<rparr>)"
proof -
  note c = run_okD [OF r]
  have p: "p \<notin> allocated k" "p \<notin> living k" using a n(2) procs_okD(8) [OF t] by (auto simp: fork_args_ok_def)
  have pc: "p \<noteq> current k" using p(2) c(3) by auto
  have ks: "p \<notin> kstacks k" using p(2) procs_okD(9) [OF t] proc_list_living by blast
  have fr: "fresh (new_sem args) (sem_count k)" "fresh (new_fs args) (fs_count k)" "fresh (new_mm args) (mm_count k)"
    using a by (simp_all add: fork_args_ok_def)
  have fs: "fs_of k (current k) \<noteq> None" using procs_okD(7) [OF t c(3,4)] .
  let ?us = "inherit (bit flags 10) (new_sem args) (sem_of k (current k))" and ?uf = "inherit (bit flags 11) (new_fs args) (fs_of k (current k))"
  let ?um = "inherit (bit flags 8) (new_mm args) (mm_of k (current k))"
  let ?k1 = "fork_new p k"
  let ?k2 = "?k1\<lparr>kstacks := insert p (kstacks k)\<rparr>"
  let ?k3 = "?k2\<lparr>sem_count := add_user ?us (sem_count k), sem_of := (sem_of k)(p := ?us)\<rparr>"
  let ?k4 = "?k3\<lparr>fs_count := add_user ?uf (fs_count k), fs_of := (fs_of k)(p := ?uf)\<rparr>"
  let ?k5 = "?k4\<lparr>mm_count := add_user ?um (mm_count k), mm_of := (mm_of k)(p := ?um)\<rparr>"
  have sem: "copy_sem (bit flags 10) (new_sem args) p ?k2 =
    (if can_copy (bit flags 10) (new_sem args) (sem_of k (current k)) then (0, ?k3) else (- E_NO_MEM, ?k2))"
    using copy_sem_eq [of "new_sem args" ?k2 p "bit flags 10"] fr(1) pc by (simp add: Let_def)
  have fsq: "copy_fs (bit flags 11) (new_fs args) p ?k3 =
    Some (if can_copy (bit flags 11) (new_fs args) (fs_of k (current k)) then (0, ?k4) else (- E_NO_MEM, ?k3))"
    using copy_fs_eq [of "new_fs args" ?k3 "bit flags 11" p] fr(2) fs pc by (simp add: Let_def)
  have mm: "copy_mm (bit flags 8) (new_mm args) p ?k4 =
    (if can_copy (bit flags 8) (new_mm args) (mm_of k (current k)) then (0, ?k5) else (- E_NO_MEM, ?k4))"
    using copy_mm_eq [of "new_mm args" ?k4 p "bit flags 8"] fr(3) pc by (simp add: Let_def)
  note eq = do_fork_def init_child_eq [OF r p(2)] Let_def
  show "do_fork flags args k = link_child flags p (fork_copied flags args p k)" if "fork_possible flags args k"
    using that n sem fsq mm by (simp add: eq fork_possible_def fork_copied_def)
  show "\<exists>us uf. do_fork flags args k =
      Some (- E_NO_MEM, (fork_new p k)\<lparr>allocated := allocated k, sem_of := (sem_of k)(p := us), fs_of := (fs_of k)(p := uf)\<rparr>)" if np: "\<not> fork_possible flags args k"
  proof -
    consider "\<not> new_stack args" | "new_stack args" "\<not> can_copy (bit flags 10) (new_sem args) (sem_of k (current k))"
      | "new_stack args" "can_copy (bit flags 10) (new_sem args) (sem_of k (current k))" "\<not> can_copy (bit flags 11) (new_fs args) (fs_of k (current k))"
      | "new_stack args" "can_copy (bit flags 10) (new_sem args) (sem_of k (current k))" "can_copy (bit flags 11) (new_fs args) (fs_of k (current k))"
        "\<not> can_copy (bit flags 8) (new_mm args) (mm_of k (current k))"
      using np n by (auto simp: fork_possible_def)
    then show ?thesis
    proof cases
      case 1
      then show ?thesis using n p(1) by (intro exI [of _ None]) (simp add: eq kfree_proc_def)
    next
      case 2
      then show ?thesis using n p(1) ks sem by (intro exI [of _ None]) (simp add: eq kfree_proc_def put_kstack_def)
    next
      case 3
      then show ?thesis using n p(1) ks sem fsq drop_user [of ?us "sem_count k"]
        by (intro exI [of _ ?us] exI [of _ None]) (cases ?us; simp add: eq kfree_proc_def put_kstack_def put_sem_queue_def)
    next
      case 4
      then show ?thesis using n p(1) ks sem fsq mm drop_user [of ?us "sem_count k"] drop_user [of ?uf "fs_count k"]
        by (intro exI [of _ ?us] exI [of _ ?uf]) (cases ?us; cases ?uf; simp add: eq kfree_proc_def put_kstack_def put_sem_queue_def put_fs_def)
    qed
  qed
qed

subsection \<open>Linking the new process\<close>

lemma tree_cong:
  assumes tr: "tree_ok t L Z" and P: "proc_list t' = proc_list t" "set (proc_list t) \<subseteq> L"
    and e: "\<And>q. q \<in> L \<Longrightarrow> parent (ptable.procs t' q) = parent (ptable.procs t q) \<and> cptr (ptable.procs t' q) = cptr (ptable.procs t q) \<and>
      yptr (ptable.procs t' q) = yptr (ptable.procs t q) \<and> optr (ptable.procs t' q) = optr (ptable.procs t q)"
  shows "tree_ok t' L Z" "q \<in> L \<Longrightarrow> kids t' q = kids t q"
proof -
  have kids: "kids t' q = kids t q" for q using P e by (auto simp: kids_def)
  show "q \<in> L \<Longrightarrow> kids t' q = kids t q" by (rule kids)
  have "\<exists>xs. children (ptable.procs t') q xs \<and> set xs = kids t' q" if q: "q \<in> L" for q
  proof -
    obtain xs where xs: "children (ptable.procs t) q xs" "set xs = kids t q" using tree_okD(1) [OF tr q] by blast
    have "set xs \<subseteq> L" using xs(2) P(2) by (auto simp: kids_def)
    then have "children (ptable.procs t') q xs" by (intro children_other [OF xs(1)]) (use e q in auto)
    then show ?thesis using xs(2) kids by auto
  qed
  moreover have "\<exists>q\<in>L - Z. parent (ptable.procs t' p) = Some q" if "p \<in> set (proc_list t')" for p
    using tree_okD(2) [OF tr, of p] that P e by auto
  ultimately show "tree_ok t' L Z" by (simp add: tree_ok_def)
qed

text \<open>The part of \<open>link_child\<close> that works on the table.\<close>

lemma table_insert:
  assumes i: "ids_ok t" "nr_process t < MAX_PROCESS" and tr: "tree_ok t L Z" and P: "set (proc_list t) \<subseteq> L" and p: "p \<notin> L"
    and c: "parent (ptable.procs t p) = Some c" "cptr (ptable.procs t p) = None" "c \<in> L" "c \<notin> Z"
  obtains n t1 t' where "get_pid t = Some (n, t1)" "set_links p (hash_proc p (Proc.upd_proc p (\<lambda>q. q\<lparr>pid := n\<rparr>) t1)) = Some t'"
    "ids_ok t'" "tree_ok t' (insert p L) Z" "proc_list t' = p # proc_list t" "pid (ptable.procs t' p) = n" "1 \<le> n" "n < MAX_PID"
    "n \<notin> set (pids t)" "\<And>q. q \<noteq> p \<Longrightarrow> pid (ptable.procs t' q) = pid (ptable.procs t q)" "nr_process t' = nr_process t + 1"
    "\<And>q. parent (ptable.procs t' q) = parent (ptable.procs t q)" "\<exists>xs. children (ptable.procs t') c (p # xs)"
proof -
  have ids: "hash_inv t" "hashed t = set (proc_list t)" "pid_inv t" "distinct (proc_list t)" "nr_process t = int (length (proc_list t)) + 1"
    "\<And>q. q \<in> set (proc_list t) \<Longrightarrow> 0 < pid (ptable.procs t q) \<and> pid (ptable.procs t q) < MAX_PID"
    using i(1) by (auto simp: ids_ok_def)
  have "length (proc_list t) \<le> nat MAX_PROCESS" using ids(5) i(2) by simp
  then obtain n t1 where n: "get_pid t = Some (n, t1)" "1 \<le> n" "n < MAX_PID" "n \<notin> set (pids t)"
    and nx: "\<And>t''. last_pid t'' = last_pid t1 \<Longrightarrow> next_safe t'' = next_safe t1 \<Longrightarrow> set (pids t'') \<subseteq> insert n (set (pids t)) \<Longrightarrow> pid_inv t''"
    using get_pid_ok [OF ids(3)] by blast
  note f1 = get_pid_frame [OF n(1)]
  let ?t2 = "Proc.upd_proc p (\<lambda>q. q\<lparr>pid := n\<rparr>) t1" let ?t3 = "hash_proc p ?t2"
  have pP: "p \<notin> set (proc_list t)" using p P by blast
  have hl: "hash_list ?t2 = hash_list t" using f1 by simp
  have "pid (ptable.procs ?t2 q) = pid (ptable.procs t q)" if "q \<in> hashed t" for q using that pP f1 unfolding ids(2) by auto
  then have h2: "hash_inv ?t2" "hashed ?t2 = set (proc_list t)" using hash_inv_cong [OF hl] ids(1,2) by simp_all
  have "\<forall>b\<in>hashed ?t2. pid (ptable.procs ?t2 b) \<noteq> pid (ptable.procs ?t2 p)"
    using n(4) pP unfolding h2(2) by (auto simp: f1 pids_def)
  then have h3: "hash_inv ?t3" "hashed ?t3 = insert p (set (proc_list t))" using hash_proc_correct [OF h2(1), of p] h2(2) pP by auto
  have f3: "proc_list ?t3 = proc_list t" "ptable.procs ?t3 = (ptable.procs t)(p := (ptable.procs t p)\<lparr>pid := n\<rparr>)" "nr_process ?t3 = nr_process t"
    "next_safe ?t3 = next_safe t1" "last_pid ?t3 = last_pid t1"
    using f1 by (simp_all add: hash_proc_def)
  have t3: "tree_ok ?t3 L Z" by (rule tree_cong(1) [OF tr f3(1) P]) (use p in \<open>auto simp: f3(2)\<close>)
  show thesis
  proof (rule tree_fork [OF t3, of p c])
    show "set (proc_list ?t3) \<subseteq> L" "cptr (ptable.procs ?t3 p) = None" "parent (ptable.procs ?t3 p) = Some c" using P c by (simp_all add: f3)
    fix t' assume t': "set_links p ?t3 = Some t'" "tree_ok t' (insert p L) Z" "proc_list t' = p # proc_list ?t3"
      "nr_process t' = nr_process ?t3 + 1" "\<exists>xs. children (ptable.procs t') c (p # xs)"
    note f = set_links_frame [OF t'(1)]
    have pl: "proc_list t' = p # proc_list t" using t'(3) f3(1) by simp
    have pd: "pid (ptable.procs t' p) = n" "\<And>q. q \<noteq> p \<Longrightarrow> pid (ptable.procs t' q) = pid (ptable.procs t q)" by (simp_all add: f(4) f3(2))
    have h: "hash_inv t'" "hashed t' = insert p (set (proc_list t))" using hash_inv_cong [OF f(1), OF f(4)] h3 by simp_all
    have "pid (ptable.procs t' q) = pid (ptable.procs t q)" if "q \<in> set (proc_list t)" for q using pd(2) [of q] pP that by metis
    then have "pids t' = n # pids t" by (simp add: pids_def pl pd(1))
    then have pi: "pid_inv t'" by (intro nx) (simp_all add: f(2,3) f3(4,5))
    have "0 < pid (ptable.procs t' q) \<and> pid (ptable.procs t' q) < MAX_PID" if "q \<in> set (proc_list t')" for q
      using ids(6) [of q] pd n(2,3) that by (cases "q = p") (auto simp: pl)
    then have "ids_ok t'" using h pi ids(4,5) pP t'(4) f3(3) by (simp add: ids_ok_def pl)
    moreover have "parent (ptable.procs t' q) = parent (ptable.procs t q)" for q by (simp add: f(5) f3(2))
    ultimately show thesis using that [OF n(1) t'(1)] t'(2,4,5) pl pd n(2-4) f3(3) by simp
  qed (use p c in auto)
qed

text \<open>Processes may be added to the table while the scheduler does not know them yet.\<close>

lemma base_grow:
  assumes b: "base_ok k" and e: "kernel.procs k' = kernel.procs k" "current k' = current k" "idleproc k' = idleproc k" "rqs k' = rqs k"
    "timers k' = timers k" "timer_list k' = timer_list k" "waits k' = waits k" "wqs k' = wqs k"
    and l: "living k \<subseteq> living k'" "\<And>p. p \<in> living k' \<Longrightarrow> p \<notin> living k \<Longrightarrow> p \<notin> zombies k"
  shows "base_ok k'"
proof -
  have s: "sched_inv k'" by (rule sched_inv_frame [OF base_okD(2) [OF b] e(1,4,2,3)])
  have "kernel_inv k'" by (rule kernel_inv_frame [OF base_okD(1) [OF b] s e(5,6)]) (simp add: wakeable_def e(1))
  moreover have "wait_inv k'" using base_okD(3) [OF b] by (simp add: wait_inv_def e)
  moreover have "zombies k' = zombies k" by (simp add: zombies_def e(1))
  moreover have "wait_state (desc p k) = 0" if "p \<in> living k'" "state (desc p k) = PROC_ZOMBIE" for p
    using base_okD(6) [OF b, of p] l(2) [of p] that by (auto simp: zombies_def)
  ultimately show ?thesis using base_okD(4,5,7,8) [OF b] l(1) unfolding base_ok_def e by blast
qed

lemma get_pid_cong:
  assumes "pids t' = pids t" "last_pid t' = last_pid t" "next_safe t' = next_safe t"
  shows "map_option fst (get_pid t') = map_option fst (get_pid t)"
  using assms by (auto simp: get_pid_def Let_def split: option.splits prod.splits Option.bind_splits)

text \<open>What the call has done when it succeeds.\<close>

text \<open>The descriptor and the place in the run queues of a process that is woken for the first time: it is last in the first queue, and its time slice is cut
  to the one of this queue, which it also gets when its own is 0.\<close>

definition first_slice :: "int \<Rightarrow> int \<Rightarrow> int" where
  "first_slice m n = (if n = 0 \<or> n > m then m else n)"

lemma wakeup_new:
  assumes w: "wakeup_proc p k = Some k'" and p: "state (Sched.procs k p) = PROC_UNINIT" "rq (Sched.procs k p) = None" "p \<noteq> current k" "p \<noteq> idleproc k"
  shows "Sched.procs k' p = (Sched.procs k p)\<lparr>state := PROC_RUNNABLE, wait_state := 0, rq := Some 0,
      time_slice := first_slice (max_time_slice (rqs k ! 0)) (time_slice (Sched.procs k p))\<rparr>"
    and "rqs k \<noteq> [] \<Longrightarrow> run_list (rqs k' ! 0) = run_list (rqs k ! 0) @ [p]"
proof -
  have "sched_class_enqueue p (Sched.upd_proc p (\<lambda>pr. pr\<lparr>state := PROC_RUNNABLE, wait_state := 0\<rparr>) k) = Some k'"
    using w p by (simp add: wakeup_proc_def Let_def)
  then have e: "RR_enqueue 0 p (Sched.upd_proc p (\<lambda>pr. pr\<lparr>state := PROC_RUNNABLE, wait_state := 0\<rparr>) k) = Some k'"
    using p by (auto simp: sched_class_enqueue_def MLFQ_enqueue_def kassert_def Let_def split: if_splits)
  then show "Sched.procs k' p = (Sched.procs k p)\<lparr>state := PROC_RUNNABLE, wait_state := 0, rq := Some 0,
      time_slice := first_slice (max_time_slice (rqs k ! 0)) (time_slice (Sched.procs k p))\<rparr>"
    by (cases "rqs k") (auto simp: RR_enqueue_def kassert_def Let_def first_slice_def Sched.upd_proc_def upd_rq_def split: if_splits)
  show "run_list (rqs k' ! 0) = run_list (rqs k ! 0) @ [p]" if "rqs k \<noteq> []"
    using e that by (cases "rqs k") (auto simp: RR_enqueue_def kassert_def Let_def Sched.upd_proc_def upd_rq_def split: if_splits)
qed

definition forked :: "u32 \<Rightarrow> fork_args \<Rightarrow> nat \<Rightarrow> int \<Rightarrow> life \<Rightarrow> life \<Rightarrow> bool" where
  "forked flags args p n k k' \<longleftrightarrow>
     map_option fst (get_pid (tab k)) = Some n \<and> 1 \<le> n \<and> n < MAX_PID \<and> find_proc n (tab k) = None \<and> find_proc n (tab k') = Some p \<and>
     (\<forall>m. m \<noteq> n \<longrightarrow> find_proc m (tab k') = find_proc m (tab k)) \<and>
     proc_list (tab k') = p # proc_list (tab k) \<and>
     pid (links p k') = n \<and> (\<forall>q. q \<noteq> p \<longrightarrow> pid (links q k') = pid (links q k)) \<and> parent (links p k') = Some (current k) \<and> cptr (links (current k) k') = Some p \<and>
     (\<forall>q\<in>living k. kids (tab k') q = (if q = current k then insert p (kids (tab k) q) else kids (tab k) q)) \<and>
     current k' = current k \<and> (\<forall>q. q \<noteq> p \<and> q \<noteq> current k \<longrightarrow> desc q k' = desc q k) \<and>
     (let n = time_slice (desc (current k) k) in
        desc (current k) k' = (desc (current k) k)\<lparr>time_slice := n - n div 2\<rparr> \<and>
        desc p k' = \<lparr>state = PROC_RUNNABLE, runs = 0, need_resched = False, wait_state = 0, rq = Some 0,
          time_slice = first_slice (max_time_slice (rqs k ! 0)) (n div 2)\<rparr>) \<and>
     run_list (rqs k' ! 0) = run_list (rqs k ! 0) @ [p] \<and> allocated k' = insert p (allocated k) \<and> kstacks k' = insert p (kstacks k) \<and>
     mm_count k' = add_user (mm_of k' p) (mm_count k) \<and> fs_count k' = add_user (fs_of k' p) (fs_count k) \<and> sem_count k' = add_user (sem_of k' p) (sem_count k) \<and>
     next_thread p k' = (if bit flags 9 then current k else p) \<and>
     mm_of k' = (mm_of k)(p := inherit (bit flags 8) (new_mm args) (mm_of k (current k))) \<and>
     fs_of k' = (fs_of k)(p := inherit (bit flags 11) (new_fs args) (fs_of k (current k))) \<and>
     sem_of k' = (sem_of k)(p := inherit (bit flags 10) (new_sem args) (sem_of k (current k))) \<and>
     exiting k' = (exiting k)(p := False) \<and> exit_code k' = exit_code k \<and> initproc k' = initproc k \<and> idleproc k' = idleproc k \<and>
     waits k' = waits k \<and> wqs k' = (wqs k)(Event_wq p := []) \<and> timers k' = timers k \<and> timer_list k' = timer_list k"

text \<open>Before it is woken the process is complete.\<close>

lemma linked_ok:
  assumes r: "run_ok k" and t: "procs_ok k" and a: "fork_args_ok args k" and f: "fork_possible flags args k" "new_proc args = Some p"
    and t': "ids_ok t'" "tree_ok t' (insert p (living k)) (zombies k)" "proc_list t' = p # proc_list (tab k)"
    and k': "k' = (if bit flags 9 then join_thread (current k) p ((fork_copied flags args p k)\<lparr>tab := t'\<rparr>) else (fork_copied flags args p k)\<lparr>tab := t'\<rparr>)"
  shows "procs_ok k'" "base_ok k'" "living k' = insert p (living k)" "p \<notin> zombies k'"
proof -
  note c = run_okD [OF r]
  have p: "p \<notin> living k" using a f(2) procs_okD(8) [OF t] by (auto simp: fork_args_ok_def)
  have pc: "p \<noteq> current k" using p c(3) by auto
  let ?k1 = "fork_new p k"
  have sel: "kernel.procs k' = kernel.procs ?k1" "current k' = current k" "idleproc k' = idleproc k" "rqs k' = rqs ?k1" "timers k' = timers ?k1"
    "timer_list k' = timer_list ?k1" "waits k' = waits ?k1" "wqs k' = wqs ?k1" "tab k' = t'"
    by (simp_all add: k' join_thread_def Let_def fork_copied_def)
  show l: "living k' = insert p (living k)" by (auto simp: living_def sel t'(3))
  have l1: "living ?k1 = living k" by (simp add: living_def)
  have z1: "p \<notin> zombies ?k1" "living k \<inter> zombies ?k1 = living k \<inter> zombies k" using p fork_new_desc(1) [OF pc] by (auto simp: zombies_def)
  have z: "zombies k' = zombies ?k1" by (simp add: zombies_def sel)
  show "p \<notin> zombies k'" using z1(1) z by simp
  show "base_ok k'"
    by (rule base_grow [OF run_okD(1) [OF fork_new_base [OF r p]]]) (use sel l l1 z1 in auto)
  let ?Z = "zombies k - {p}"
  have zz: "insert p (living k) \<inter> zombies k' = insert p (living k) \<inter> ?Z" using z z1 by auto
  have zk: "living k \<inter> ?Z = living k \<inter> zombies k" using p by auto
  note zc = zombies_cong [OF zk] and nz = p Diff_iff singletonI
  let ?us = "inherit (bit flags 10) (new_sem args) (sem_of k (current k))" and ?uf = "inherit (bit flags 11) (new_fs args) (fs_of k (current k))"
  let ?um = "inherit (bit flags 8) (new_mm args) (mm_of k (current k))"
  have "group_ok ((tg_next k)(p := p)) ((tg_prev k)(p := p)) (insert p (living k)) ?Z" using group_single [OF _ p] procs_okD(3) [OF t] zc(2) by blast
  moreover have "group_ok ((tg_next k)(tg_prev k (current k) := p, p := current k)) ((tg_prev k)(current k := p, p := tg_prev k (current k))) (insert p (living k)) ?Z"
    by (rule group_join) (use procs_okD(3) [OF t] zc(2) c(3,4) p in auto)
  moreover have "tg_next k' = (if bit flags 9 then (tg_next k)(tg_prev k (current k) := p, p := current k) else (tg_next k)(p := p))"
    "tg_prev k' = (if bit flags 9 then (tg_prev k)(current k := p, p := tg_prev k (current k)) else (tg_prev k)(p := p))"
    using pc by (auto simp: k' join_thread_def Let_def fork_copied_def)
  ultimately have g: "group_ok (tg_next k') (tg_prev k') (insert p (living k)) ?Z" by simp
  have sh: "shared_ok (add_user u cnt) (use(p := u)) (insert p (living k)) ?Z" if "shared_ok cnt use (living k) (zombies k)" for u cnt use
    by (rule shared_add) (use that zc(3) p in auto)
  have res: "mm_count k' = add_user ?um (mm_count k)" "mm_of k' = (mm_of k)(p := ?um)" "fs_count k' = add_user ?uf (fs_count k)"
    "fs_of k' = (fs_of k)(p := ?uf)" "sem_count k' = add_user ?us (sem_count k)" "sem_of k' = (sem_of k)(p := ?us)"
    "allocated k' = insert p (allocated k)" "kstacks k' = insert p (kstacks k)"
    by (simp_all add: k' join_thread_def Let_def fork_copied_def)
  have uf: "?uf \<noteq> None" using f(1) procs_okD(7) [OF t c(3,4)] by (auto simp: fork_possible_def can_copy_def inherit_def)
  have tr: "tree_ok t' (insert p (living k)) ?Z"
    using t'(2) p by (fastforce simp: tree_ok_def)
  have "fs_of k q \<noteq> None" if "q \<in> living k" "q \<notin> zombies k'" for q using procs_okD(7) [OF t] that z z1(2) by blast
  then have fs: "\<forall>q\<in>insert p (living k) - zombies k'. ((fs_of k)(p := ?uf)) q \<noteq> None" using uf by auto
  have il: "idleproc k \<in> living k" by (simp add: living_def)
  show "procs_ok k'"
    unfolding procs_ok_def l sel zombies_cong [OF zz] res
    using t'(1) tr g sh procs_okD(4-6,8-10) [OF t] fs p t'(3) il by auto
qed

lemma do_fork_ok:
  assumes r: "run_ok k" and t: "procs_ok k" and a: "fork_args_ok args k" and f: "fork_possible flags args k" "new_proc args = Some p"
  shows "\<exists>n k'. do_fork flags args k = Some (n, k') \<and> run_ok k' \<and> procs_ok k' \<and> forked flags args p n k k'"
proof -
  note c = run_okD [OF r]
  have p: "p \<notin> living k" using a f(2) procs_okD(8) [OF t] by (auto simp: fork_args_ok_def)
  have pc: "p \<noteq> current k" using p c(3) by auto
  have nr: "nr_process (tab k) < MAX_PROCESS" using f(1) by (simp add: fork_possible_def)
  let ?k5 = "fork_copied flags args p k"
  let ?t = "(tab k)\<lparr>ptable.procs := (ptable.procs (tab k))(p := \<lparr>pid = - 1, parent = Some (current k), cptr = None, yptr = None, optr = None\<rparr>)\<rparr>"
  have tab: "tab ?k5 = ?t" by (simp add: fork_copied_def Let_def)
  have P: "set (proc_list (tab k)) \<subseteq> living k" by (rule proc_list_living)
  have pP: "p \<notin> set (proc_list (tab k))" using p P by blast
  have ids: "ids_ok ?t" by (rule ids_ok_cong [OF procs_okD(1) [OF t]]) (use pP in auto)
  have tr: "tree_ok ?t (living k) (zombies k)" by (rule tree_cong(1) [OF procs_okD(2) [OF t] _ P]) (use p in auto)
  have "\<exists>n t1 t'. get_pid ?t = Some (n, t1) \<and> set_links p (hash_proc p (Proc.upd_proc p (\<lambda>q. q\<lparr>pid := n\<rparr>) t1)) = Some t' \<and>
    ids_ok t' \<and> tree_ok t' (insert p (living k)) (zombies k) \<and> proc_list t' = p # proc_list (tab k) \<and> pid (ptable.procs t' p) = n \<and> 1 \<le> n \<and> n < MAX_PID \<and>
    n \<notin> set (pids ?t) \<and> (\<forall>q. q \<noteq> p \<longrightarrow> pid (ptable.procs t' q) = pid (ptable.procs (tab k) q)) \<and>
    (\<forall>q. parent (ptable.procs t' q) = parent (ptable.procs ?t q)) \<and> (\<exists>xs. children (ptable.procs t') (current k) (p # xs))"
    by (rule table_insert [OF ids _ tr, of p "current k"]) (use nr P p c(3,4) in auto)
  then obtain n t1 t' where n: "get_pid ?t = Some (n, t1)" "set_links p (hash_proc p (Proc.upd_proc p (\<lambda>q. q\<lparr>pid := n\<rparr>) t1)) = Some t'"
    and t': "ids_ok t'" "tree_ok t' (insert p (living k)) (zombies k)" "proc_list t' = p # proc_list (tab k)" "pid (ptable.procs t' p) = n"
    and n': "1 \<le> n" "n < MAX_PID" "n \<notin> set (pids ?t)" and pd: "\<And>q. q \<noteq> p \<Longrightarrow> pid (ptable.procs t' q) = pid (ptable.procs (tab k) q)"
    and par: "\<And>q. parent (ptable.procs t' q) = parent (ptable.procs ?t q)" and ch: "\<exists>xs. children (ptable.procs t') (current k) (p # xs)"
    by blast
  define k6 where "k6 = (if bit flags 9 then join_thread (current k) p (?k5\<lparr>tab := t'\<rparr>) else ?k5\<lparr>tab := t'\<rparr>)"
  note l = linked_ok [OF r t a f t'(1-3) k6_def]
  show ?thesis
  proof (rule wakeup_life [OF l(2), of p])
    fix k' assume k': "wakeup_proc p k6 = Some k'" "base_ok k'" "woke {p} k6 k'" "kernel.more k' = kernel.more k6"
    have tg: "upd_links p (\<lambda>q. q\<lparr>pid := n\<rparr>) (?k5\<lparr>tab := t1\<rparr>) = ?k5\<lparr>tab := Proc.upd_proc p (\<lambda>q. q\<lparr>pid := n\<rparr>) t1\<rparr>" by (simp add: upd_links_def)
    note m = more_life [OF more_waits(3) [OF k'(4)]]
    have pk: "pid (links p k') = n" using t'(4) by (simp add: m(1) k6_def join_thread_def Let_def)
    have "current ?k5 = current k" by (simp add: fork_copied_def Let_def)
    then have res: "do_fork flags args k = Some (n, k')"
      using do_fork_forms(1) [OF r t a nr f(2,1)] n k'(1) pk unfolding k6_def
      by (cases "bit flags 9") (simp_all add: link_child_def tab tg Let_def)
    have z: "zombies k' = zombies k6" using woke_zombies [OF k'(3)] l(4) by simp
    have i6: "idleproc k6 = idleproc k" "current k6 = current k" "kernel.procs k6 = kernel.procs (fork_new p k)"
      by (simp_all add: k6_def join_thread_def Let_def fork_copied_def)
    have idle: "idleproc k' = idleproc k6" "current k' = current k" using k'(3) i6 by (simp_all add: woke_def)
    have tk: "procs_ok k'" by (rule procs_ok_frame(1) [OF l(1) more_waits(3) [OF k'(4)] idle(1)]) (simp add: z)
    have cur: "state (desc (current k) k6) = PROC_RUNNABLE" using c(2) pc fork_new_desc(1) [OF pc, of "current k"] by (simp add: i6)
    then have rk: "run_ok k'" using k'(2,3) i6 by (auto simp: run_ok_def woke_def)
    note wf = wakeup_proc_frame [OF k'(1)]
    have d: "desc q k' = desc q (fork_new p k)" if "q \<noteq> p" for q using wf(2) that i6(3) by simp
    note d2 = fork_new_all(3) [OF pc]
    have tabk: "tab k' = t'" using m(1) by (simp add: k6_def join_thread_def Let_def)
    have new: "pid (ptable.procs (tab k) q) \<noteq> n" if "q \<in> set (proc_list (tab k))" for q using n'(3) that pP by (fastforce simp: pids_def)
    have find: "find_proc i (tab k') = Some q \<longleftrightarrow> (if i = n then q = p else find_proc i (tab k) = Some q)" for i q
      using new [of q] pd [of q] t'(4) pP unfolding tabk find_proc_iff [OF t'(1)] find_proc_iff [OF procs_okD(1) [OF t]] t'(3)
      by (cases "q = p") auto
    have none: "find_proc n (tab k) = None" using find_proc_iff [OF procs_okD(1) [OF t]] new by (metis not_Some_eq)
    have kidk: "kids t' q = (if q = current k then insert p (kids (tab k) q) else kids (tab k) q)" for q
      using pP by (auto simp: kids_def t'(3) par)
    have fm: "find_proc i (tab k') = find_proc i (tab k)" if "i \<noteq> n" for i using find [of i] that by (cases "find_proc i (tab k)"; cases "find_proc i (tab k')") auto
    have "forked flags args p n k k'"
      unfolding forked_def
    proof (intro conjI allI impI ballI)
      show "cptr (links (current k) k') = Some p" using ch by (auto simp: tabk children_def)
      have "pids ?t = pids (tab k)" using pP by (auto simp: pids_def)
      then show "map_option fst (get_pid (tab k)) = Some n" using get_pid_cong [of ?t "tab k"] n(1) by simp
      show "pid (links p k') = n" by (rule pk)
      show "pid (links q k') = pid (links q k)" if "q \<noteq> p" for q using pd [OF that] tabk by simp
      show "waits k' = waits k" using more_waits(1) [OF k'(4)] by (simp add: k6_def join_thread_def Let_def fork_copied_def)
      show "wqs k' = (wqs k)(Event_wq p := [])" using more_waits(2) [OF k'(4)] by (simp add: k6_def join_thread_def Let_def fork_copied_def)
      show "timers k' = timers k" "timer_list k' = timer_list k" using k'(3) by (simp_all add: woke_def k6_def join_thread_def Let_def fork_copied_def)
      have pi: "p \<noteq> idleproc k" using p by (auto simp: living_def)
      have r6: "rqs k6 = rqs k" by (simp add: k6_def join_thread_def Let_def fork_copied_def)
      note nd = fork_new_all [OF pc]
      have "state (desc p k6) = PROC_UNINIT" "rq (desc p k6) = None" "p \<noteq> current k6" "p \<noteq> idleproc k6" using nd(1) pc pi i6 by simp_all
      note wn = wakeup_new [OF k'(1) this]
      have q0: "rqs k \<noteq> []" using rq_inv_fields(1) [OF sched_invD(1) [OF base_okD(2) [OF c(1)]]] by simp
      show "let n = time_slice (desc (current k) k) in
          desc (current k) k' = (desc (current k) k)\<lparr>time_slice := n - n div 2\<rparr> \<and>
          desc p k' = \<lparr>state = PROC_RUNNABLE, runs = 0, need_resched = False, wait_state = 0, rq = Some 0,
            time_slice = first_slice (max_time_slice (rqs k ! 0)) (n div 2)\<rparr>"
        using wn(1) nd d [of "current k"] pc by (simp add: Let_def i6 r6)
      show "run_list (rqs k' ! 0) = run_list (rqs k ! 0) @ [p]" using wn(2) q0 by (simp add: r6)
      show "next_thread p k' = (if bit flags 9 then current k else p)" using m(2) by (simp add: next_thread_def k6_def join_thread_def Let_def fork_copied_def)
    qed (use n' none find [of n p] fm t'(3) par kidk d d2 idle i6 in \<open>auto simp: tabk m k6_def join_thread_def Let_def fork_copied_def\<close>)
    then show ?thesis using res rk tk by blast
  qed (use l in auto)
qed

text \<open>What it has done when it fails: nothing before it has a descriptor, and after that the descriptor, which was freed again, has been written and the running
  process has lost half of its time slice, rounded down.\<close>

definition unforked :: "nat option \<Rightarrow> life \<Rightarrow> life \<Rightarrow> bool" where
  "unforked new k k' \<longleftrightarrow> (nr_process (tab k) \<ge> MAX_PROCESS \<or> new = None \<longrightarrow> k' = k) \<and>
     (nr_process (tab k) < MAX_PROCESS \<and> new \<noteq> None \<longrightarrow>
        (let n = time_slice (desc (current k) k) in desc (current k) k' = (desc (current k) k)\<lparr>time_slice := n - n div 2\<rparr>)) \<and>
     allocated k' = allocated k \<and> kstacks k' = kstacks k \<and> mm_count k' = mm_count k \<and> fs_count k' = fs_count k \<and>
     sem_count k' = sem_count k \<and> proc_list (tab k') = proc_list (tab k) \<and> (\<forall>n. find_proc n (tab k') = find_proc n (tab k)) \<and>
     (\<forall>q. new \<noteq> Some q \<longrightarrow> links q k' = links q k \<and> (q \<noteq> current k \<longrightarrow> desc q k' = desc q k) \<and> state (desc q k') = state (desc q k) \<and> mm_of k' q = mm_of k q \<and> fs_of k' q = fs_of k q \<and>
        sem_of k' q = sem_of k q \<and> exiting k' q = exiting k q \<and> next_thread q k' = next_thread q k) \<and>
     current k' = current k \<and> idleproc k' = idleproc k \<and> initproc k' = initproc k \<and> rqs k' = rqs k \<and> exit_code k' = exit_code k \<and>
     timers k' = timers k \<and> timer_list k' = timer_list k"

lemma do_fork_fails:
  assumes r: "run_ok k" and t: "procs_ok k" and a: "fork_args_ok args k" and f: "\<not> fork_possible flags args k"
  shows "\<exists>k'. do_fork flags args k = Some (if nr_process (tab k) \<ge> MAX_PROCESS then - E_NO_FREE_PROC else - E_NO_MEM, k') \<and> run_ok k' \<and> procs_ok k' \<and>
    unforked (new_proc args) k k'"
proof (cases "nr_process (tab k) \<ge> MAX_PROCESS \<or> new_proc args = None")
  case True
  then show ?thesis using r t by (auto simp: do_fork_def unforked_def)
next
  case False
  then obtain p where n: "nr_process (tab k) < MAX_PROCESS" "new_proc args = Some p" by auto
  note c = run_okD [OF r]
  have p: "p \<notin> living k" using a n(2) procs_okD(8) [OF t] by (auto simp: fork_args_ok_def)
  have pc: "p \<noteq> current k" using p c(3) by auto
  have P: "set (proc_list (tab k)) \<subseteq> living k" by (rule proc_list_living)
  obtain us uf where res: "do_fork flags args k =
      Some (- E_NO_MEM, (fork_new p k)\<lparr>allocated := allocated k, sem_of := (sem_of k)(p := us), fs_of := (fs_of k)(p := uf)\<rparr>)"
    using do_fork_forms(2) [OF r t a n f] by blast
  let ?k = "(fork_new p k)\<lparr>allocated := allocated k, sem_of := (sem_of k)(p := us), fs_of := (fs_of k)(p := uf)\<rparr>"
  have l: "living ?k = living k" by (simp add: living_def)
  have b: "run_ok (fork_new p k)" by (rule fork_new_base [OF r p])
  have "base_ok ?k" by (rule base_grow [OF run_okD(1) [OF b]]) (auto simp: living_def)
  then have rk: "run_ok ?k" using run_okD(2) [OF b] by (simp add: run_ok_def)
  have z: "living k \<inter> zombies ?k = living k \<inter> zombies k" using p fork_new_desc(1) [OF pc] by (auto simp: zombies_def)
  have ids: "ids_ok (tab ?k)" by (rule ids_ok_cong [OF procs_okD(1) [OF t]]) (use p P in auto)
  have tr: "tree_ok (tab ?k) (living k) (zombies k)" by (rule tree_cong(1) [OF procs_okD(2) [OF t] _ P]) (use p in auto)
  have g: "group_ok (tg_next ?k) (tg_prev ?k) (living k) (zombies k)"
  proof -
    have "tg_next k q \<noteq> p \<and> tg_prev k q \<noteq> p" if "q \<in> living k" for q using group_okD(1,2) [OF procs_okD(3) [OF t] that] p by metis
    then show ?thesis using procs_okD(3) [OF t] p by (auto simp: group_ok_def)
  qed
  have sh: "shared_ok cnt (use(p := u)) (living k) (zombies k)" if "shared_ok cnt use (living k) (zombies k)" for cnt use u
    by (rule shared_cong [OF that]) (use p in auto)
  have zd: "living k - zombies ?k = living k - zombies k" using z by blast
  have tk: "procs_ok ?k"
    unfolding procs_ok_def l zombies_cong [OF z] zd
    using ids tr g sh procs_okD [OF t] p by auto
  have "find_proc i (tab ?k) = find_proc i (tab k)" for i
  proof -
    have "find_proc i (tab ?k) = Some q \<longleftrightarrow> find_proc i (tab k) = Some q" for q
      unfolding find_proc_iff [OF ids] find_proc_iff [OF procs_okD(1) [OF t]] using p P by auto
    then show ?thesis by (metis not_Some_eq)
  qed
  then have "unforked (Some p) k ?k"
    using n fork_new_desc(1) [OF pc] fork_new_all [OF pc] by (auto simp: unforked_def next_thread_def Let_def)
  then show ?thesis using res rk tk n by auto
qed

end
