(* ===== verification/Proc_Exit.thy ===== *)
theory Proc_Exit
  imports Proc_Fork
begin

text \<open>
  Exit, kill and wait on states of the invariant.  The loops around a thread group end because its links lead back to where they started; the loop
  that gives the children away ends because each round takes one from the list.
\<close>

lemma WT_CHILD_not_0 [simp]: "WT_CHILD \<noteq> 0"
  by (simp add: WT_CHILD_def WT_INTERRUPTED_def)

subsection \<open>Waking the parent\<close>

text \<open>The threads of a group that wait for a child.\<close>

definition child_waiters :: "nat set \<Rightarrow> life \<Rightarrow> nat set" where
  "child_waiters G k = {r \<in> G. wait_state (desc r k) = WT_CHILD}"

lemma waiter_alive:
  assumes "base_ok k" "p \<in> living k" "wait_state (desc p k) = WT_CHILD"
  shows "p \<notin> zombies k" "state (desc p k) \<noteq> PROC_RUNNABLE"
  using base_okD(5) [OF assms(1), of p] base_okD(6) [OF assms(1,2)] assms(3) by (auto simp: zombies_def)

text \<open>One step: the process is woken if it waits for a child.\<close>

lemma wake_one:
  assumes b: "base_ok k" and p: "p \<in> living k"
  obtains k1 where "(if wait_state (desc p k) = WT_CHILD then wakeup_proc p k else Some k) = Some k1" "base_ok k1"
    "woke (child_waiters {p} k) k k1" "kernel.more k1 = kernel.more k"
proof (cases "wait_state (desc p k) = WT_CHILD")
  case True
  then have w: "child_waiters {p} k = {p}" by (auto simp: child_waiters_def)
  show thesis
    by (rule wakeup_life [OF b p waiter_alive(1) [OF b p True]]) (use that True w in auto)
next
  case False
  then have w: "child_waiters {p} k = {}" by (auto simp: child_waiters_def)
  show thesis using that [of k] False w b by simp
qed

lemma living_more: "kernel.more k1 = kernel.more k \<Longrightarrow> idleproc k1 = idleproc k \<Longrightarrow> living k1 = living k"
  using more_life(1) [OF more_waits(3), of k1 k] by (simp add: living_def)

lemma woke_idle: "woke W k k1 \<Longrightarrow> idleproc k1 = idleproc k"
  by (simp add: woke_def)

lemma child_waiters_woke:
  assumes w: "woke (child_waiters V k) k k1" and b: "base_ok k" and V: "V \<subseteq> living k"
  shows "child_waiters V k \<union> child_waiters G k1 = child_waiters (V \<union> G) k"
proof -
  have "wait_state (desc r k1) = (if r \<in> child_waiters V k then 0 else wait_state (desc r k))" for r
    using w waiter_alive(2) [OF b, of r] V by (auto simp: woke_def child_waiters_def)
  then show ?thesis by (auto simp: child_waiters_def split: if_splits)
qed

lemma wake_waiters_loop:
  assumes "base_ok k" "group_ok (tg_next k) pv (living k) Z" "p \<in> living k" "((tg_next k) ^^ m) p = first" "0 < m"
    "\<And>j. 0 < j \<Longrightarrow> j < m \<Longrightarrow> ((tg_next k) ^^ j) p \<noteq> first"
  shows "\<exists>k'. wake_waiters first p k = Some k' \<and> base_ok k' \<and> woke (child_waiters ((\<lambda>j. ((tg_next k) ^^ j) p) ` {..<m}) k) k k' \<and>
    kernel.more k' = kernel.more k"
  using assms
proof (induction m arbitrary: p k)
  case (Suc m)
  let ?nx = "tg_next k"
  show ?case
  proof (rule wake_one [OF Suc.prems(1,3)])
    fix k1 assume k1: "(if wait_state (desc p k) = WT_CHILD then wakeup_proc p k else Some k) = Some k1" "base_ok k1"
      "woke (child_waiters {p} k) k k1" "kernel.more k1 = kernel.more k"
    have nx: "tg_next k1 = ?nx" using more_life(2) [OF more_waits(3) [OF k1(4)]] .
    have l: "living k1 = living k" by (rule living_more [OF k1(4) woke_idle [OF k1(3)]])
    show ?case
    proof (cases "m = 0")
      case True
      then have "?nx p = first" using Suc.prems(4) by simp
      then show ?thesis
        using k1 nx True by (subst wake_waiters.simps) (simp add: next_thread_def lessThan_Suc)
    next
      case False
      have ne: "?nx p \<noteq> first" using Suc.prems(6) [of 1] False by simp
      have "((tg_next k1) ^^ m) (?nx p) = first" using Suc.prems(4) nx by (simp add: funpow_swap1)
      moreover have "((tg_next k1) ^^ j) (?nx p) \<noteq> first" if "0 < j" "j < m" for j
        using Suc.prems(6) [of "Suc j"] that nx by (simp add: funpow_swap1)
      moreover have "?nx p \<in> living k1" using group_okD(1) [OF Suc.prems(2,3)] l by simp
      ultimately obtain k' where k': "wake_waiters first (?nx p) k1 = Some k'" "base_ok k'"
        "woke (child_waiters ((\<lambda>j. (?nx ^^ j) (?nx p)) ` {..<m}) k1) k1 k'" "kernel.more k' = kernel.more k1"
        using Suc.IH [OF k1(2), of "?nx p"] Suc.prems(2) False nx l by auto
      have img: "(\<lambda>j. (?nx ^^ j) p) ` {..<Suc m} = {p} \<union> (\<lambda>j. (?nx ^^ j) (?nx p)) ` {..<m}"
        by (simp add: lessThan_Suc_eq_insert_0 image_image funpow_swap1)
      have "woke (child_waiters ((\<lambda>j. (?nx ^^ j) p) ` {..<Suc m}) k) k k'"
        using woke_trans [OF k1(3) k'(3)] child_waiters_woke [OF k1(3) Suc.prems(1)] Suc.prems(3) unfolding img by simp
      moreover have "wake_waiters first p k = Some k'"
        using k1(1) k'(1) nx ne by (subst wake_waiters.simps) (simp add: next_thread_def)
      ultimately show ?thesis using k'(2,4) k1(4) by simp
    qed
  qed
qed simp

lemma wake_waiters_ok:
  assumes b: "base_ok k" and g: "group_ok (tg_next k) pv (living k) Z" and p: "p \<in> living k"
  obtains k' where "wake_waiters p p k = Some k'" "base_ok k'" "woke (child_waiters (threads (tg_next k) p) k) k k'" "kernel.more k' = kernel.more k"
proof (rule group_cycle [OF g finite_living p])
  fix n assume n: "0 < n" "((tg_next k) ^^ n) p = p" "\<And>j. 0 < j \<Longrightarrow> j < n \<Longrightarrow> ((tg_next k) ^^ j) p \<noteq> p"
  show thesis
    using wake_waiters_loop [OF b g p n(2,1,3)] group_cycle_set [OF n(2,1)] that by auto
qed

subsection \<open>Giving the children away\<close>

text \<open>What one round does to the links.\<close>

definition move_child :: "nat \<Rightarrow> nat \<Rightarrow> nat \<Rightarrow> life \<Rightarrow> life" where
  "move_child c q p k =
     (let k = upd_links c (\<lambda>l. l\<lparr>cptr := optr (links p k)\<rparr>) k;
          k = upd_links p (\<lambda>l. l\<lparr>yptr := None, optr := cptr (links q k)\<rparr>) k;
          k = (case cptr (links q k) of None \<Rightarrow> k | Some o' \<Rightarrow> upd_links o' (\<lambda>l. l\<lparr>yptr := Some p\<rparr>) k);
          k = upd_links p (\<lambda>l. l\<lparr>parent := Some q\<rparr>) k
      in upd_links q (\<lambda>l. l\<lparr>cptr := Some p\<rparr>) k)"

lemma reparent_step:
  "reparent c q k =
     (case cptr (links c k) of
        None \<Rightarrow> Some k
      | Some p \<Rightarrow> do {
          let k = move_child c q p k;
          k \<leftarrow> (if state (desc p k) = PROC_ZOMBIE \<and> wait_state (desc q k) = WT_CHILD then wakeup_proc q k else Some k);
          reparent c q k
        })"
  by (subst reparent.simps) (simp add: move_child_def Let_def split: option.split)

lemma move_child_links:
  assumes "c \<noteq> q" "cptr (links q k) \<noteq> Some p"
  shows "parent (links r (move_child c q p k)) = (if r = p then Some q else parent (links r k))"
    "cptr (links r (move_child c q p k)) = (if r = q then Some p else if r = c then optr (links p k) else cptr (links r k))"
    "optr (links r (move_child c q p k)) = (if r = p then cptr (links q k) else optr (links r k))"
    "yptr (links r (move_child c q p k)) = (if r = p then None else if cptr (links q k) = Some r then Some p else yptr (links r k))"
    "pid (links r (move_child c q p k)) = pid (links r k)"
  using assms by (cases "cptr (links q k)"; auto simp: move_child_def Let_def upd_links_def)+

lemma move_child_frame:
  "kernel.procs (move_child c q p k) = kernel.procs k" "current (move_child c q p k) = current k" "idleproc (move_child c q p k) = idleproc k"
  "rqs (move_child c q p k) = rqs k" "timers (move_child c q p k) = timers k" "timer_list (move_child c q p k) = timer_list k"
  "waits (move_child c q p k) = waits k" "wqs (move_child c q p k) = wqs k"
  "move_child c q p k = k\<lparr>tab := (tab k)\<lparr>ptable.procs := ptable.procs (tab (move_child c q p k))\<rparr>\<rparr>"
  by (cases "cptr (links q (upd_links c (\<lambda>l. l\<lparr>cptr := optr (links p k)\<rparr>) k))"; simp add: move_child_def Let_def upd_links_def split: option.splits)+

text \<open>The link back to a younger sibling in the rest of the list is out of date until the next round.\<close>

lemma move_child_lists:
  assumes ne: "c \<noteq> q" and l: "sib (ptable.procs (tab k)) y (p # xs) None" "distinct (p # xs)"
    and ch: "children (ptable.procs (tab k)) q ys" and dj: "set (p # xs) \<inter> set ys = {}"
  defines "k' \<equiv> move_child c q p k"
  shows "cptr (links c k') = head xs" "sib (ptable.procs (tab k')) (Some p) xs None" "children (ptable.procs (tab k')) q (p # ys)"
    and "r \<noteq> c \<Longrightarrow> r \<noteq> q \<Longrightarrow> children (ptable.procs (tab k)) r zs \<Longrightarrow> p \<notin> set zs \<Longrightarrow> set zs \<inter> set ys = {} \<Longrightarrow> children (ptable.procs (tab k')) r zs"
proof -
  let ?st = "ptable.procs (tab k)" and ?st' = "ptable.procs (tab k')"
  have ys: "distinct ys" "cptr (?st q) = head ys" "sib ?st None ys None" "\<And>x. x \<in> set ys \<Longrightarrow> parent (?st x) = Some q"
    using ch by (auto simp: children_def)
  have hy: "head ys \<noteq> Some x" if "x \<notin> set ys" for x using that by (cases ys) auto
  have "cptr (?st q) \<noteq> Some p" using hy [of p] ys(2) dj by simp
  note m = move_child_links [OF ne this, folded k'_def]
  have op: "optr (?st p) = head xs" using l(1) by (cases xs) auto
  show "cptr (links c k') = head xs" using ne by (simp add: m op)
  have "sib ?st' (Some p) xs None = sib ?st (Some p) xs None"
    by (rule sib_cong) (use l(2) dj hy ys(2) in \<open>auto simp: m\<close>)
  then show "sib ?st' (Some p) xs None" using l(1) by simp
  have "sib ?st' (Some p) ys None"
  proof (cases ys)
    case (Cons z zs)
    have "sib ?st' (Some z) zs None = sib ?st (Some z) zs None"
      by (rule sib_cong) (use ys(1,2) dj Cons in \<open>auto simp: m\<close>)
    then show ?thesis using ys(2,3) dj by (auto simp: Cons m)
  qed simp
  then show "children ?st' q (p # ys)"
    using ys dj by (auto simp: children_def m)
  show "children ?st' r zs" if "r \<noteq> c" "r \<noteq> q" "children ?st r zs" "p \<notin> set zs" "set zs \<inter> set ys = {}"
    by (rule children_other [OF that(3)]) (use that ys(2) hy in \<open>auto simp: m\<close>)
qed

lemma move_child_base:
  assumes "base_ok k"
  shows "base_ok (move_child c q p k)" "living (move_child c q p k) = living k" "zombies (move_child c q p k) = zombies k"
    "tab (move_child c q p k) = (tab k)\<lparr>ptable.procs := ptable.procs (tab (move_child c q p k))\<rparr>"
proof -
  note f = move_child_frame [of c q p k]
  have t: "tab (move_child c q p k) = tab (k\<lparr>tab := (tab k)\<lparr>ptable.procs := ptable.procs (tab (move_child c q p k))\<rparr>\<rparr>)"
    using f(9) by (rule arg_cong)
  then show t': "tab (move_child c q p k) = (tab k)\<lparr>ptable.procs := ptable.procs (tab (move_child c q p k))\<rparr>" by simp
  show l: "living (move_child c q p k) = living k" by (subst living_def) (subst t', simp add: living_def f(3))
  show "zombies (move_child c q p k) = zombies k" by (simp add: zombies_def f(1))
  show "base_ok (move_child c q p k)" by (rule base_grow [OF assms f(1-8)]) (use l in auto)
qed

text \<open>All that \<open>reparent\<close> changes is the links of processes in the table and, perhaps, the state of the new parent.\<close>

definition relinked :: "life \<Rightarrow> life \<Rightarrow> bool" where
  "relinked k k' \<longleftrightarrow> (\<exists>st. wait_kernel.more k' = wait_kernel.more (k\<lparr>tab := (tab k)\<lparr>ptable.procs := st\<rparr>\<rparr>)) \<and> waits k' = waits k \<and> wqs k' = wqs k"

lemma relinked_trans: "relinked k k1 \<Longrightarrow> relinked k1 k2 \<Longrightarrow> relinked k k2"
proof -
  assume a: "relinked k k1" "relinked k1 k2"
  obtain s where s: "wait_kernel.more k1 = wait_kernel.more (k\<lparr>tab := (tab k)\<lparr>ptable.procs := s\<rparr>\<rparr>)" using a(1) by (auto simp: relinked_def)
  obtain s' where s': "wait_kernel.more k2 = wait_kernel.more (k1\<lparr>tab := (tab k1)\<lparr>ptable.procs := s'\<rparr>\<rparr>)" using a(2) by (auto simp: relinked_def)
  have "wait_kernel.more k2 = wait_kernel.more (k\<lparr>tab := (tab k)\<lparr>ptable.procs := s'\<rparr>\<rparr>)"
    unfolding s' using s by (cases k; cases k1) simp
  then show ?thesis using a by (auto simp: relinked_def)
qed

lemma relinked_life:
  assumes "relinked k k'"
  shows "proc_list (tab k') = proc_list (tab k)" "hash_list (tab k') = hash_list (tab k)" "nr_process (tab k') = nr_process (tab k)"
    "next_safe (tab k') = next_safe (tab k)" "last_pid (tab k') = last_pid (tab k)"
    "tg_next k' = tg_next k" "tg_prev k' = tg_prev k" "exiting k' = exiting k" "exit_code k' = exit_code k"
    "initproc k' = initproc k" "mm_of k' = mm_of k" "mm_count k' = mm_count k" "fs_of k' = fs_of k" "fs_count k' = fs_count k"
    "sem_of k' = sem_of k" "sem_count k' = sem_count k" "allocated k' = allocated k" "kstacks k' = kstacks k" "waits k' = waits k" "wqs k' = wqs k"
proof -
  obtain s where s: "wait_kernel.more k' = wait_kernel.more (k\<lparr>tab := (tab k)\<lparr>ptable.procs := s\<rparr>\<rparr>)" using assms by (auto simp: relinked_def)
  show "proc_list (tab k') = proc_list (tab k)" "hash_list (tab k') = hash_list (tab k)" "nr_process (tab k') = nr_process (tab k)"
    "next_safe (tab k') = next_safe (tab k)" "last_pid (tab k') = last_pid (tab k)"
    "tg_next k' = tg_next k" "tg_prev k' = tg_prev k" "exiting k' = exiting k" "exit_code k' = exit_code k"
    "initproc k' = initproc k" "mm_of k' = mm_of k" "mm_count k' = mm_count k" "fs_of k' = fs_of k" "fs_count k' = fs_count k"
    "sem_of k' = sem_of k" "sem_count k' = sem_count k" "allocated k' = allocated k" "kstacks k' = kstacks k"
    using more_life [OF s] by simp_all
  show "waits k' = waits k" "wqs k' = wqs k" using assms by (simp_all add: relinked_def)
qed

lemma relinked_same: "wait_kernel.more k' = wait_kernel.more k \<Longrightarrow> waits k' = waits k \<Longrightarrow> wqs k' = wqs k \<Longrightarrow> relinked k k'"
  by (auto simp: relinked_def intro!: exI [of _ "ptable.procs (tab k)"])

lemma relinked_more: "kernel.more k' = kernel.more k \<Longrightarrow> relinked k k'"
  using more_waits [of k' k] by (simp add: relinked_same)

lemma relinked_move: "relinked k (move_child c q p k)"
proof -
  have "wait_kernel.more (move_child c q p k) = wait_kernel.more (k\<lparr>tab := (tab k)\<lparr>ptable.procs := ptable.procs (tab (move_child c q p k))\<rparr>\<rparr>)"
    using move_child_frame(9) by (rule arg_cong)
  then show ?thesis using move_child_frame(7,8) by (auto simp: relinked_def)
qed

definition adopted :: "nat \<Rightarrow> nat \<Rightarrow> nat list \<Rightarrow> nat list \<Rightarrow> life \<Rightarrow> life \<Rightarrow> bool" where
  "adopted c q xs ys k k' \<longleftrightarrow> children (ptable.procs (tab k')) c [] \<and> children (ptable.procs (tab k')) q (rev xs @ ys) \<and>
     (\<forall>r zs. r \<noteq> c \<and> r \<noteq> q \<and> children (ptable.procs (tab k)) r zs \<and> set zs \<inter> (set xs \<union> set ys) = {} \<longrightarrow> children (ptable.procs (tab k')) r zs) \<and>
     (\<forall>x. parent (links x k') = (if x \<in> set xs then Some q else parent (links x k)) \<and> pid (links x k') = pid (links x k))"

lemma adopted_step:
  assumes "c \<noteq> q" "sib (ptable.procs (tab k)) y (p # xs) None" "distinct (p # xs)" "children (ptable.procs (tab k)) q ys" "set (p # xs) \<inter> set ys = {}"
    and a: "adopted c q xs (p # ys) k1 k'" and t: "tab k1 = tab (move_child c q p k)"
  shows "adopted c q (p # xs) ys k k'"
proof -
  note m = move_child_lists [OF assms(1-5), folded t]
  have "cptr (links q k) \<noteq> Some p" using assms(4,5) by (cases ys) (auto simp: children_def)
  note ml = move_child_links [OF assms(1) this, folded t]
  show ?thesis
    unfolding adopted_def
  proof (intro conjI allI impI)
    show "children (ptable.procs (tab k')) c []" "children (ptable.procs (tab k')) q (rev (p # xs) @ ys)" using a by (simp_all add: adopted_def)
    fix r zs assume h: "r \<noteq> c \<and> r \<noteq> q \<and> children (ptable.procs (tab k)) r zs \<and> set zs \<inter> (set (p # xs) \<union> set ys) = {}"
    then have "children (ptable.procs (tab k1)) r zs" using m(4) [of r zs] by auto
    then show "children (ptable.procs (tab k')) r zs" using a h unfolding adopted_def by auto
  next
    fix x
    show "pid (links x k') = pid (links x k)" using a ml(5) by (simp add: adopted_def)
    show "parent (links x k') = (if x \<in> set (p # xs) then Some q else parent (links x k))" using a ml(1) by (auto simp: adopted_def)
  qed
qed

lemma child_waiters_same: "kernel.procs k1 = kernel.procs k \<Longrightarrow> child_waiters G k1 = child_waiters G k"
  by (simp add: child_waiters_def)

lemma woke_same:
  assumes "kernel.procs k1 = kernel.procs k" "current k1 = current k" "idleproc k1 = idleproc k" "timers k1 = timers k" "timer_list k1 = timer_list k"
  shows "woke W k1 k' = woke W k k'" "woke {} k k1"
  using assms by (simp_all add: woke_def)

lemma reparent_ok:
  assumes "base_ok k" "c \<noteq> q" "q \<in> living k" "cptr (links c k) = head xs" "sib (ptable.procs (tab k)) y xs None" "distinct xs"
    "children (ptable.procs (tab k)) q ys" "set xs \<inter> set ys = {}"
  shows "\<exists>k'. reparent c q k = Some k' \<and> base_ok k' \<and> relinked k k' \<and>
    woke (if set xs \<inter> zombies k = {} then {} else child_waiters {q} k) k k' \<and> adopted c q xs ys k k'"
  using assms
proof (induction xs arbitrary: y ys k)
  case Nil
  have "reparent c q k = Some k" using Nil.prems(4) by (subst reparent_step) simp
  moreover have "adopted c q [] ys k k" using Nil.prems(4,7) by (auto simp: adopted_def children_def)
  ultimately show ?case using Nil.prems(1) relinked_more [of k k] by (intro exI [of _ k]) simp
next
  case (Cons p xs)
  let ?k1 = "move_child c q p k"
  note f = move_child_frame [of c q p k] and mb = move_child_base [OF Cons.prems(1), of c q p]
  note ml = move_child_lists [OF Cons.prems(2,5-8)]
  let ?W = "if p \<in> zombies k then child_waiters {q} k else {}"
  have ql: "q \<in> living ?k1" using Cons.prems(3) mb(2) by simp
  obtain k2 where k2: "(if state (desc p ?k1) = PROC_ZOMBIE \<and> wait_state (desc q ?k1) = WT_CHILD then wakeup_proc q ?k1 else Some ?k1) = Some k2"
    "base_ok k2" "woke ?W k k2" "kernel.more k2 = kernel.more ?k1"
  proof (cases "p \<in> zombies k")
    case True
    then have z: "state (desc p ?k1) = PROC_ZOMBIE" by (simp add: zombies_def f(1))
    show thesis
    proof (rule wake_one [OF mb(1) ql])
      fix k2 assume k2: "(if wait_state (desc q ?k1) = WT_CHILD then wakeup_proc q ?k1 else Some ?k1) = Some k2" "base_ok k2"
        "woke (child_waiters {q} ?k1) ?k1 k2" "kernel.more k2 = kernel.more ?k1"
      show thesis
        by (rule that [OF _ k2(2) _ k2(4)]) (use k2(1,3) z True child_waiters_same [OF f(1)] woke_same(1) [OF f(1-3,5,6)] in simp_all)
    qed
  next
    case False
    then have "state (desc p ?k1) \<noteq> PROC_ZOMBIE" by (simp add: zombies_def f(1))
    then show thesis using that [of ?k1] mb(1) False woke_same(2) [OF f(1-3,5,6)] by simp
  qed
  have Wa: "?W \<inter> zombies k = {}"
    using waiter_alive(1) [OF Cons.prems(1,3)] by (auto simp: child_waiters_def)
  have z2: "zombies k2 = zombies k" by (rule woke_zombies [OF k2(3) Wa])
  have t2: "tab k2 = tab ?k1" by (rule more_life(1) [OF more_waits(3) [OF k2(4)]])
  have l2: "living k2 = living k" using t2 woke_idle [OF k2(3)] f(3) mb(2) by (simp add: living_def)
  have "\<exists>k'. reparent c q k2 = Some k' \<and> base_ok k' \<and> relinked k2 k' \<and>
    woke (if set xs \<inter> zombies k2 = {} then {} else child_waiters {q} k2) k2 k' \<and> adopted c q xs (p # ys) k2 k'"
    by (rule Cons.IH [OF k2(2) Cons.prems(2), of "Some p"]) (use ml(1-3) Cons.prems(3,6,8) l2 t2 in auto)
  then obtain k' where k': "reparent c q k2 = Some k'" "base_ok k'" "relinked k2 k'"
    "woke (if set xs \<inter> zombies k2 = {} then {} else child_waiters {q} k2) k2 k'" "adopted c q xs (p # ys) k2 k'" by blast
  have r: "reparent c q k = Some k'"
    using Cons.prems(4) k2(1) k'(1) by (subst reparent_step) (simp add: Let_def)
  have rl: "relinked k k'" using relinked_trans [OF relinked_trans [OF relinked_move [of k c q p] relinked_more [OF k2(4)]] k'(3)] .
  have ad: "adopted c q (p # xs) ys k k'" by (rule adopted_step [OF Cons.prems(2,5-8) k'(5) t2])
  have cw: "child_waiters {q} k \<union> child_waiters {q} k2 = child_waiters {q} k" if "p \<in> zombies k"
    using child_waiters_woke [of "{q}" k k2 "{q}"] k2(3) that Cons.prems(1,3) by simp
  have cw': "child_waiters {q} k2 = child_waiters {q} k" if "p \<notin> zombies k"
    using k2(3) that by (auto simp: woke_def child_waiters_def)
  have "?W \<union> (if set xs \<inter> zombies k2 = {} then {} else child_waiters {q} k2) = (if set (p # xs) \<inter> zombies k = {} then {} else child_waiters {q} k)"
    using cw cw' z2 by (cases "p \<in> zombies k") auto
  then have "woke (if set (p # xs) \<inter> zombies k = {} then {} else child_waiters {q} k) k k'" using woke_trans [OF k2(3) k'(4)] by simp
  then show ?case using r k'(2) rl ad by blast
qed

subsection \<open>Exit\<close>

text \<open>What a process that exits has given back before: it owns no linked timer and no linked wait record.\<close>

definition can_exit :: "life \<Rightarrow> bool" where
  "can_exit k \<longleftrightarrow> current k \<noteq> idleproc k \<and> current k \<noteq> initproc k \<and> (\<forall>t\<in>set (timer_list k). tproc (timers k t) \<noteq> Some (current k)) \<and>
     (\<forall>q. \<forall>w\<in>set (wqs k q). wproc (waits k w) \<noteq> Some (current k))"

text \<open>The process gives up its objects and becomes a zombie.\<close>

definition exit_first :: "life \<Rightarrow> life" where
  "exit_first k = Sched.upd_proc (current k) (\<lambda>q. q\<lparr>state := PROC_ZOMBIE\<rparr>) (put_sem_queue (current k) (put_fs (current k) (put_mm (current k) k)))"

lemma exit_first_fields:
  "current (exit_first k) = current k" "idleproc (exit_first k) = idleproc k" "rqs (exit_first k) = rqs k" "timers (exit_first k) = timers k"
  "timer_list (exit_first k) = timer_list k" "waits (exit_first k) = waits k" "wqs (exit_first k) = wqs k" "tab (exit_first k) = tab k"
  "kernel.procs (exit_first k) = (kernel.procs k)(current k := (desc (current k) k)\<lparr>state := PROC_ZOMBIE\<rparr>)"
  "tg_next (exit_first k) = tg_next k" "tg_prev (exit_first k) = tg_prev k" "exiting (exit_first k) = exiting k" "exit_code (exit_first k) = exit_code k"
  "initproc (exit_first k) = initproc k" "allocated (exit_first k) = allocated k" "kstacks (exit_first k) = kstacks k"
  "mm_of (exit_first k) = (mm_of k)(current k := None)" "fs_of (exit_first k) = fs_of k" "sem_of (exit_first k) = sem_of k"
  "mm_count (exit_first k) = (case mm_of k (current k) of None \<Rightarrow> mm_count k | Some s \<Rightarrow> (mm_count k)(s := mm_count k s - 1))"
  "fs_count (exit_first k) = (case fs_of k (current k) of None \<Rightarrow> fs_count k | Some s \<Rightarrow> (fs_count k)(s := fs_count k s - 1))"
  "sem_count (exit_first k) = (case sem_of k (current k) of None \<Rightarrow> sem_count k | Some s \<Rightarrow> (sem_count k)(s := sem_count k s - 1))"
proof -
  have u: "(mm_of k)(current k := None) = mm_of k" if "mm_of k (current k) = None" using that by auto
  show "current (exit_first k) = current k" "idleproc (exit_first k) = idleproc k" "rqs (exit_first k) = rqs k" "timers (exit_first k) = timers k"
    "timer_list (exit_first k) = timer_list k" "waits (exit_first k) = waits k" "wqs (exit_first k) = wqs k" "tab (exit_first k) = tab k"
    "kernel.procs (exit_first k) = (kernel.procs k)(current k := (desc (current k) k)\<lparr>state := PROC_ZOMBIE\<rparr>)"
    "tg_next (exit_first k) = tg_next k" "tg_prev (exit_first k) = tg_prev k" "exiting (exit_first k) = exiting k" "exit_code (exit_first k) = exit_code k"
    "initproc (exit_first k) = initproc k" "allocated (exit_first k) = allocated k" "kstacks (exit_first k) = kstacks k"
    "mm_of (exit_first k) = (mm_of k)(current k := None)" "fs_of (exit_first k) = fs_of k" "sem_of (exit_first k) = sem_of k"
    "mm_count (exit_first k) = (case mm_of k (current k) of None \<Rightarrow> mm_count k | Some s \<Rightarrow> (mm_count k)(s := mm_count k s - 1))"
    "fs_count (exit_first k) = (case fs_of k (current k) of None \<Rightarrow> fs_count k | Some s \<Rightarrow> (fs_count k)(s := fs_count k s - 1))"
    "sem_count (exit_first k) = (case sem_of k (current k) of None \<Rightarrow> sem_count k | Some s \<Rightarrow> (sem_count k)(s := sem_count k s - 1))"
    by (simp_all add: exit_first_def put_sem_queue_def put_fs_def put_mm_def Sched.upd_proc_def u split: option.split)
qed

lemma exit_first_base:
  assumes r: "run_ok k" and c: "can_exit k"
  shows "base_ok (exit_first k)" "zombies (exit_first k) = insert (current k) (zombies k)" "living (exit_first k) = living k"
proof -
  note b = run_okD(1) [OF r] and f = exit_first_fields [of k]
  let ?k = "exit_first k"
  show z: "zombies ?k = insert (current k) (zombies k)" by (auto simp: zombies_def f(9))
  show l: "living ?k = living k" by (simp add: living_def f)
  have q: "rq_inv ?k" "queued ?k = queued k" using rq_inv_cong [OF sched_invD(1) [OF base_okD(2) [OF b]], of ?k] by (simp_all add: f(3,9))
  then have "sched_inv ?k" using sched_invD(2) [OF base_okD(2) [OF b]] unfolding sched_inv_def f(1,2) by (auto simp: f(9))
  moreover have "timer_inv ?k" "owners_ok ?k"
    using base_okD(1) [OF b] timer_inv_frame(2) [OF f(4,5)] c
    by (simp_all add: kernel_inv_def owners_ok_def f(4,5)) (auto simp: wakeable_def f(9) can_exit_def)
  ultimately have i: "kernel_inv ?k" by (simp add: kernel_inv_def)
  have w: "wait_inv ?k" using base_okD(3) [OF b] by (simp add: wait_inv_def f)
  have cz: "current k \<noteq> idleproc k" "\<And>q w. w \<in> set (wqs k q) \<Longrightarrow> wproc (waits k w) \<noteq> Some (current k)" using c by (auto simp: can_exit_def)
  show "base_ok ?k"
    unfolding base_ok_def l z f(2,4-7)
  proof (intro conjI allI ballI impI)
    show "state (desc (idleproc k) ?k) = PROC_RUNNABLE" using base_okD(4) [OF b] cz(1) by (simp add: f(9))
    show "wait_state (desc p ?k) = 0" if "p \<in> living k" "state (desc p ?k) = PROC_ZOMBIE" for p
      using base_okD(6) [OF b that(1)] that(2) run_okD(5) [OF r] by (cases "p = current k") (auto simp: f(9))
    show "p \<in> living k - insert (current k) (zombies k)" if "v \<in> set (wqs k q)" "wproc (waits k v) = Some p" for q v p
      using base_okD(8) [OF b that] cz(2) that by auto
  qed (use i w base_okD(5,7) [OF b] in \<open>auto simp: f(9) split: if_splits\<close>)
qed

text \<open>Who gets the children.\<close>

definition heir :: "life \<Rightarrow> nat" where
  "heir k = (if next_thread (current k) k = current k then initproc k else next_thread (current k) k)"

lemma heir_ok:
  assumes r: "run_ok k" and t: "procs_ok k" and c: "can_exit k" and i: "initproc k \<in> living k" "initproc k \<notin> zombies k"
  shows "heir k \<in> living k" "heir k \<notin> zombies k" "heir k \<noteq> current k"
proof -
  note g = procs_okD(3) [OF t] and cl = run_okD(3) [OF r]
  let ?n = "tg_next k (current k)"
  have n: "?n \<in> living k" "tg_prev k ?n = current k" using group_okD(1,3) [OF g cl] by auto
  have "?n \<notin> zombies k" if "?n \<noteq> current k" using group_okD(5) [OF g n(1)] group_okD(3) [OF g n(1)] n(2) that by auto
  then show "heir k \<in> living k" "heir k \<notin> zombies k" "heir k \<noteq> current k"
    using n(1) i c by (auto simp: heir_def next_thread_def can_exit_def)
qed

lemma de_thread_fields:
  "kernel.procs (de_thread p k) = kernel.procs k" "current (de_thread p k) = current k" "idleproc (de_thread p k) = idleproc k"
  "rqs (de_thread p k) = rqs k" "timers (de_thread p k) = timers k" "timer_list (de_thread p k) = timer_list k"
  "waits (de_thread p k) = waits k" "wqs (de_thread p k) = wqs k" "tab (de_thread p k) = tab k" "exiting (de_thread p k) = exiting k"
  "exit_code (de_thread p k) = exit_code k" "initproc (de_thread p k) = initproc k" "mm_of (de_thread p k) = mm_of k" "mm_count (de_thread p k) = mm_count k"
  "fs_of (de_thread p k) = fs_of k" "fs_count (de_thread p k) = fs_count k" "sem_of (de_thread p k) = sem_of k" "sem_count (de_thread p k) = sem_count k"
  "allocated (de_thread p k) = allocated k" "kstacks (de_thread p k) = kstacks k"
  by (simp_all add: de_thread_def Let_def)

lemma de_thread_more: "wait_kernel.more k' = wait_kernel.more k \<Longrightarrow> wait_kernel.more (de_thread p k') = wait_kernel.more (de_thread p k)"
  by (cases k; cases k') (simp add: de_thread_def Let_def)

lemma de_thread_group:
  assumes "group_ok (tg_next k) (tg_prev k) L Z" "p \<in> L"
  shows "group_ok (tg_next (de_thread p k)) (tg_prev (de_thread p k)) L (insert p Z)"
proof (cases "tg_next k p = p")
  case True
  then show ?thesis using assms by (simp add: de_thread_def group_ok_def)
next
  case False
  then show ?thesis using group_leave [OF assms] by (simp add: de_thread_def Let_def)
qed

lemma tree_adopt:
  assumes tr: "tree_ok (tab k) L Z" and P: "proc_list (tab k') = proc_list (tab k)" and q: "q \<in> L" "q \<notin> Z" "q \<noteq> c" and c: "c \<in> L"
    and xs: "set xs = kids (tab k) c" and ys: "set ys = kids (tab k) q" and a: "adopted c q xs ys k k'"
  shows "tree_ok (tab k') L (insert c Z)"
    "kids (tab k') r = (if r = c then {} else if r = q then kids (tab k) c \<union> kids (tab k) q else kids (tab k) r)"
proof -
  have par: "parent (links x k') = (if x \<in> set xs then Some q else parent (links x k))" for x using a by (simp add: adopted_def)
  have kids: "kids (tab k') r = (if r = c then {} else if r = q then kids (tab k) c \<union> kids (tab k) q else kids (tab k) r)" for r
    using q(3) by (auto simp: kids_def P par xs)
  then show "kids (tab k') r = (if r = c then {} else if r = q then kids (tab k) c \<union> kids (tab k) q else kids (tab k) r)" .
  have "\<exists>zs. children (ptable.procs (tab k')) r zs \<and> set zs = kids (tab k') r" if r: "r \<in> L" for r
  proof -
    consider "r = c" | "r = q" | "r \<noteq> c" "r \<noteq> q" by blast
    then show ?thesis
    proof cases
      case 1
      then show ?thesis using a kids [of c] by (intro exI [of _ "[]"]) (simp add: adopted_def)
    next
      case 2
      then show ?thesis using a kids [of q] q(3) xs ys by (intro exI [of _ "rev xs @ ys"]) (simp add: adopted_def)
    next
      case 3
      obtain zs where zs: "children (ptable.procs (tab k)) r zs" "set zs = kids (tab k) r" using tree_okD(1) [OF tr r] by blast
      then have "set zs \<inter> (set xs \<union> set ys) = {}" using 3 by (auto simp: xs ys kids_def)
      then show ?thesis using a zs 3 kids [of r] by (intro exI [of _ zs]) (auto simp: adopted_def)
    qed
  qed
  moreover have "\<exists>r\<in>L - insert c Z. parent (links x k') = Some r" if x: "x \<in> set (proc_list (tab k'))" for x
  proof (cases "x \<in> set xs")
    case True
    then show ?thesis using q by (auto simp: par)
  next
    case False
    obtain r where "r \<in> L - Z" "parent (links x k) = Some r" using tree_okD(2) [OF tr, of x] x unfolding P by blast
    moreover have "r \<noteq> c" using calculation False x by (auto simp: xs kids_def P)
    ultimately show ?thesis using False by (auto simp: par)
  qed
  ultimately show "tree_ok (tab k') L (insert c Z)" by (simp add: tree_ok_def)
qed

text \<open>Whom an exit wakes: the threads of the parent that wait for a child, the heir when it waits and gets a zombie, and who waits for events to be received.\<close>

definition exit_wakes :: "life \<Rightarrow> nat set" where
  "exit_wakes k = child_waiters (threads (tg_next k) (the (parent (links (current k) k)))) k
     \<union> (if kids (tab k) (current k) \<inter> insert (current k) (zombies k) = {} then {} else child_waiters {heir k} k)
     \<union> waiting_procs (wqs k (Event_wq (current k))) k"

definition exited :: "life \<Rightarrow> life \<Rightarrow> bool" where
  "exited k k' \<longleftrightarrow> living k' = living k \<and>
     (\<forall>r. state (desc r k') = (if r = current k then PROC_ZOMBIE else if r \<in> exit_wakes k then PROC_RUNNABLE else state (desc r k))) \<and>
     (\<forall>n. find_proc n (tab k') = find_proc n (tab k)) \<and>
     (\<forall>r. kids (tab k') r = (if r = current k then {} else if r = heir k then kids (tab k) (current k) \<union> kids (tab k) r else kids (tab k) r)) \<and>
     next_thread (current k) k' = current k \<and> tg_next k' = tg_next (de_thread (current k) k) \<and> mm_of k' (current k) = None \<and>
     mm_count k' = (case mm_of k (current k) of None \<Rightarrow> mm_count k | Some s \<Rightarrow> (mm_count k)(s := mm_count k s - 1)) \<and>
     fs_count k' = (case fs_of k (current k) of None \<Rightarrow> fs_count k | Some s \<Rightarrow> (fs_count k)(s := fs_count k s - 1)) \<and>
     sem_count k' = (case sem_of k (current k) of None \<Rightarrow> sem_count k | Some s \<Rightarrow> (sem_count k)(s := sem_count k s - 1)) \<and>
     wqs k' (Event_wq (current k)) = [] \<and> exit_code k' = exit_code k \<and> exiting k' = exiting k \<and> initproc k' = initproc k \<and> idleproc k' = idleproc k"

text \<open>The part between the first steps and \<open>schedule\<close>.\<close>

lemma exit_middle:
  assumes r: "run_ok k" and t: "procs_ok k" and c: "can_exit k" and i: "initproc k \<in> living k" "initproc k \<notin> zombies k"
    and q: "parent (links (current k) k) = Some q" "q \<in> living k"
  shows "\<exists>k3 k5 k6. wake_waiters q q (exit_first k) = Some k3 \<and> next_thread (current k) k3 = next_thread (current k) k \<and> initproc k3 = initproc k \<and>
    reparent (current k) (heir k) (de_thread (current k) k3) = Some k5 \<and> wakeup_queue (Event_wq (current k)) WT_INTERRUPTED True k5 = Some k6 \<and>
    base_ok k6 \<and> woke (exit_wakes k) (exit_first k) k6 \<and> relinked (de_thread (current k) (exit_first k)) k5 \<and> wait_kernel.more k6 = wait_kernel.more k5 \<and>
    wqs k6 (Event_wq (current k)) = [] \<and> living k6 = living k \<and>
    (\<exists>xs ys. set xs = kids (tab k) (current k) \<and> set ys = kids (tab k) (heir k) \<and> adopted (current k) (heir k) xs ys k k5)"
proof -
  let ?c = "current k" and ?k2 = "exit_first k" and ?h = "heir k"
  note f2 = exit_first_fields [of k] and e2 = exit_first_base [OF r c] and h = heir_ok [OF r t c i]
  have g: "group_ok (tg_next ?k2) (tg_prev k) (living ?k2) (zombies k)" using procs_okD(3) [OF t] e2(3) f2(10) by simp
  have ql: "q \<in> living ?k2" using q(2) e2(3) by simp
  obtain k3 where k3: "wake_waiters q q ?k2 = Some k3" "base_ok k3" "woke (child_waiters (threads (tg_next k) q) ?k2) ?k2 k3" "kernel.more k3 = kernel.more ?k2"
    by (rule wake_waiters_ok [OF e2(1) g ql]) (auto simp: f2(10))
  note m3 = more_life [OF more_waits(3) [OF k3(4)]]
  have l3: "living k3 = living k" using living_more [OF k3(4) woke_idle [OF k3(3)]] e2(3) by simp
  let ?k4 = "de_thread ?c k3"
  note f4 = de_thread_fields [of ?c k3]
  have l4: "living ?k4 = living k" using l3 f4(3,9) by (simp add: living_def)
  have b4: "base_ok ?k4" by (rule base_grow [OF k3(2) f4(1-8)]) (use l3 l4 in auto)
  have t4: "tab ?k4 = tab k" using f4(9) m3(1) f2(8) by simp
  obtain xs where xs: "children (ptable.procs (tab k)) ?c xs" "set xs = kids (tab k) ?c" using tree_okD(1) [OF procs_okD(2) [OF t] run_okD(3) [OF r]] by blast
  obtain ys where ys: "children (ptable.procs (tab k)) ?h ys" "set ys = kids (tab k) ?h" using tree_okD(1) [OF procs_okD(2) [OF t] h(1)] by blast
  have dj: "set xs \<inter> set ys = {}" using h(3) by (auto simp: xs(2) ys(2) kids_def)
  let ?W2 = "if set xs \<inter> zombies ?k4 = {} then {} else child_waiters {?h} ?k4"
  have "\<exists>k5. reparent ?c ?h ?k4 = Some k5 \<and> base_ok k5 \<and> relinked ?k4 k5 \<and> woke ?W2 ?k4 k5 \<and> adopted ?c ?h xs ys ?k4 k5"
    by (rule reparent_ok [OF b4, where y = None]) (use h xs(1) ys(1) dj l4 t4 in \<open>auto simp: children_def\<close>)
  then obtain k5 where k5: "reparent ?c ?h ?k4 = Some k5" "base_ok k5" "relinked ?k4 k5" "woke ?W2 ?k4 k5" "adopted ?c ?h xs ys ?k4 k5" by blast
  have ad: "adopted ?c ?h xs ys k k5" using k5(5) t4 by (simp add: adopted_def)
  have l5: "living k5 = living k" using relinked_life(1) [OF k5(3)] woke_idle [OF k5(4)] t4 l4 by (simp add: living_def)
  have al: "waiters_alive (Event_wq ?c) k5" using base_okD(8) [OF k5(2)] by (auto simp: waiters_alive_def zombies_def)
  obtain k6 where k6: "wakeup_queue (Event_wq ?c) WT_INTERRUPTED True k5 = Some k6" "sched_inv k6" "wait_inv k6"
    "wqs k6 = (wqs k5)(Event_wq ?c := [])" "woken WT_INTERRUPTED (wqs k5 (Event_wq ?c)) k5 k6"
    using wakeup_queue_ok [OF base_okD(2,3) [OF k5(2)] al, of WT_INTERRUPTED True] by auto
  have w6: "woke (waiting_procs (wqs k5 (Event_wq ?c)) k5) k5 k6" using k6(5) by (simp add: woken_def woke_def)
  have m6: "wait_kernel.more k6 = wait_kernel.more k5" using k6(5) by (simp add: woken_def)
  have l6: "living k6 = living k5" using more_life(1) [OF m6] woke_idle [OF w6] by (simp add: living_def)
  have b6: "base_ok k6"
  proof (rule base_woke [OF k5(2) w6 _ l6 _ k6(3)])
    show "waiting_procs (wqs k5 (Event_wq ?c)) k5 \<subseteq> living k5 - zombies k5" using base_okD(8) [OF k5(2)] by (fastforce simp: waiting_procs_def)
    show "kernel_inv k6" by (rule woken_kernel_inv [OF base_okD(1) [OF k5(2)] k6(2,5)])
    show "set (wqs k6 r) \<subseteq> set (wqs k5 r)" for r by (simp add: k6(4))
    show "wproc (waits k6 w) = wproc (waits k5 w)" for w using k6(5) by (simp add: woken_def)
  qed
  have wq: "wqs k5 = wqs k" "waits k5 = waits k"
    using relinked_life(19,20) [OF k5(3)] f4(7,8) more_waits(1,2) [OF k3(4)] f2(6,7) by simp_all
  have cw2: "child_waiters G ?k2 = child_waiters G k" for G by (auto simp: child_waiters_def f2(9) split: if_splits)
  have gl: "threads (tg_next k) q \<subseteq> living k" using group_funpow [OF procs_okD(3) [OF t] q(2)] by (auto simp: threads_def)
  have z4: "zombies ?k4 = insert ?c (zombies k)"
  proof -
    have "child_waiters (threads (tg_next k) q) ?k2 \<inter> zombies ?k2 = {}"
      using waiter_alive(1) [OF e2(1)] gl e2(3) by (auto simp: child_waiters_def)
    then show ?thesis using woke_zombies [OF k3(3)] e2(2) f4(1) by (simp add: zombies_def)
  qed
  have cw: "child_waiters (threads (tg_next k) q) ?k2 \<union> ?W2 = child_waiters (threads (tg_next k) q) k \<union>
      (if kids (tab k) ?c \<inter> insert ?c (zombies k) = {} then {} else child_waiters {?h} k)"
  proof -
    have "child_waiters (threads (tg_next k) q) ?k2 \<union> child_waiters {?h} ?k4 = child_waiters (threads (tg_next k) q \<union> {?h}) k"
      using child_waiters_woke [OF k3(3) e2(1), of "{?h}"] gl e2(3) child_waiters_same [OF f4(1)] cw2 by simp
    also have "\<dots> = child_waiters (threads (tg_next k) q) k \<union> child_waiters {?h} k" by (auto simp: child_waiters_def)
    finally show ?thesis unfolding z4 xs(2) cw2 by (auto split: if_splits)
  qed
  have "woke (exit_wakes k) ?k2 k6"
    using woke_trans [OF woke_trans [OF k3(3), of ?W2] w6] k5(4) woke_same(1) [OF f4(1,2,3,5,6)] cw q(1) wq by (simp add: exit_wakes_def waiting_procs_def)
  moreover have "relinked (de_thread ?c ?k2) k5"
  proof -
    have "relinked (de_thread ?c ?k2) ?k4"
      by (rule relinked_same [OF de_thread_more]) (use more_waits [OF k3(4)] in \<open>simp_all add: de_thread_fields\<close>)
    then show ?thesis by (rule relinked_trans [OF _ k5(3)])
  qed
  moreover have "next_thread ?c k3 = next_thread ?c k" "initproc k3 = initproc k" using m3 f2 by (simp_all add: next_thread_def)
  ultimately show ?thesis using k3(1) k5(1) k6(1) b6 m6 k6(4) l6 l5 xs(2) ys(2) ad by auto
qed

lemma exit_procs_ok:
  assumes r: "run_ok k" and t: "procs_ok k" and c: "can_exit k" and i: "initproc k \<in> living k" "initproc k \<notin> zombies k"
    and rl: "relinked (de_thread (current k) (exit_first k)) k5" and ad: "adopted (current k) (heir k) xs ys k k5"
    and xs: "set xs = kids (tab k) (current k)" "set ys = kids (tab k) (heir k)"
    and z: "zombies k5 = insert (current k) (zombies k)" and id: "idleproc k5 = idleproc k"
  shows "procs_ok k5" "kids (tab k5) p = (if p = current k then {} else if p = heir k then kids (tab k) (current k) \<union> kids (tab k) (heir k) else kids (tab k) p)"
    "ids_ok (tab k5)" "proc_list (tab k5) = proc_list (tab k)" "\<And>x. pid (links x k5) = pid (links x k)"
proof -
  let ?c = "current k"
  note f = exit_first_fields [of k] and d = de_thread_fields [of ?c "exit_first k"] and rk = relinked_life [OF rl] and h = heir_ok [OF r t c i]
  have cl: "?c \<in> living k" "?c \<notin> zombies k" using run_okD(3,4) [OF r] by auto
  show pl: "proc_list (tab k5) = proc_list (tab k)" using rk(1) d(9) f(8) by simp
  show pd: "pid (links x k5) = pid (links x k)" for x using ad by (simp add: adopted_def)
  show ids: "ids_ok (tab k5)" by (rule ids_ok_cong [OF procs_okD(1) [OF t]]) (use rk(1-5) d(9) f(8) pd in simp_all)
  note ta = tree_adopt [OF procs_okD(2) [OF t] pl h cl(1) xs ad]
  show "kids (tab k5) p = (if p = ?c then {} else if p = heir k then kids (tab k) ?c \<union> kids (tab k) (heir k) else kids (tab k) p)" by (rule ta(2))
  have l: "living k5 = living k" using pl id by (simp add: living_def)
  have g: "group_ok (tg_next k5) (tg_prev k5) (living k) (insert ?c (zombies k))"
    using de_thread_group [of "exit_first k" "living k" "zombies k" ?c] procs_okD(3) [OF t] cl(1) rk(6,7) f(10,11) by simp
  note sh = shared_leave [OF _ finite_living cl]
  have mm: "shared_ok (mm_count k5) (mm_of k5) (living k) (insert ?c (zombies k))"
    using shared_cong [OF sh [OF procs_okD(4) [OF t]], of "mm_of k5"] rk(11,12) d(13,14) f(17,20) by auto
  have fs: "shared_ok (fs_count k5) (fs_of k5) (living k) (insert ?c (zombies k))" using sh [OF procs_okD(5) [OF t]] rk(13,14) d(15,16) f(18,21) by simp
  have sm: "shared_ok (sem_count k5) (sem_of k5) (living k) (insert ?c (zombies k))" using sh [OF procs_okD(6) [OF t]] rk(15,16) d(17,18) f(19,22) by simp
  have "fs_of k5 = fs_of k" "allocated k5 = allocated k" "kstacks k5 = kstacks k" using rk(13,17,18) d(15,19,20) f(15,16,18) by simp_all
  then show "procs_ok k5"
    using ids ta(1) g mm fs sm procs_okD(7-10) [OF t] unfolding procs_ok_def l z pl id by auto
qed

lemma do_exit_current_ok:
  assumes r: "run_ok k" and t: "procs_ok k" and c: "can_exit k" and i: "initproc k \<in> living k" "initproc k \<notin> zombies k"
  shows "\<exists>k'. do_exit_current k = Some k' \<and> run_ok k' \<and> procs_ok k' \<and> exited k k'"
proof -
  let ?c = "current k"
  note f = exit_first_fields [of k] and e = exit_first_base [OF r c] and d = de_thread_fields [of ?c "exit_first k"] and h = heir_ok [OF r t c i]
  have cl: "?c \<in> living k" "?c \<noteq> idleproc k" "?c \<noteq> initproc k" using run_okD(3) [OF r] c by (auto simp: can_exit_def)
  then obtain q where q: "parent (links ?c k) = Some q" "q \<in> living k" using tree_okD(2) [OF procs_okD(2) [OF t], of ?c] by (auto simp: living_def)
  obtain k3 k5 k6 xs ys where m: "wake_waiters q q (exit_first k) = Some k3" "next_thread ?c k3 = next_thread ?c k" "initproc k3 = initproc k"
    "reparent ?c (heir k) (de_thread ?c k3) = Some k5" "wakeup_queue (Event_wq ?c) WT_INTERRUPTED True k5 = Some k6" "base_ok k6"
    "woke (exit_wakes k) (exit_first k) k6" "relinked (de_thread ?c (exit_first k)) k5" "wait_kernel.more k6 = wait_kernel.more k5"
    "wqs k6 (Event_wq ?c) = []" "living k6 = living k"
    and xs: "set xs = kids (tab k) ?c" "set ys = kids (tab k) (heir k)" "adopted ?c (heir k) xs ys k k5"
    using exit_middle [OF r t c i q] by blast
  have ncw: "p \<notin> child_waiters G k" if "p = ?c \<or> p \<in> living k \<inter> zombies k" for p G
    using that run_okD(5) [OF r] base_okD(6) [OF run_okD(1) [OF r], of p] by (auto simp: child_waiters_def zombies_def)
  have nw: "p \<notin> waiting_procs ws k" if "p = ?c \<or> p \<in> zombies k" "\<exists>s. ws = wqs k s" for p ws
    using that c base_okD(8) [OF run_okD(1) [OF r]] by (fastforce simp: waiting_procs_def can_exit_def)
  have gl: "threads (tg_next k) q \<subseteq> living k" using group_funpow [OF procs_okD(3) [OF t] q(2)] by (auto simp: threads_def)
  have nwk: "exit_wakes k \<inter> insert ?c (zombies k) = {}"
  proof -
    have "p \<notin> exit_wakes k" if p: "p = ?c \<or> p \<in> zombies k" for p
    proof -
      have "p \<in> living k" if "p \<in> child_waiters G k" "G \<subseteq> living k" for G using that by (auto simp: child_waiters_def)
      then have "p \<notin> child_waiters G k" if "G \<subseteq> living k" for G using ncw [of p G] p that by blast
      then show ?thesis using nw [OF p] gl h(1) q(1) by (auto simp: exit_wakes_def)
    qed
    then show ?thesis by auto
  qed
  have z6: "zombies k6 = insert ?c (zombies k)" using woke_zombies [OF m(7)] e(2) nwk by simp
  have id: "idleproc k6 = idleproc k" using m(7) f(2) by (simp add: woke_def)
  have rl: "relinked (de_thread ?c (exit_first k)) (k6\<lparr>waits := waits k5, wqs := wqs k5\<rparr>)"
    using m(8,9) by (simp add: relinked_def)
  let ?k6 = "k6\<lparr>waits := waits k5, wqs := wqs k5\<rparr>"
  have t6: "tab ?k6 = tab k5" using more_life(1) [OF m(9)] by simp
  have ad: "adopted ?c (heir k) xs ys k ?k6" using xs(3) t6 by (simp add: adopted_def)
  have z6': "zombies ?k6 = insert ?c (zombies k)" using z6 by (simp add: zombies_def)
  have id': "idleproc ?k6 = idleproc k" using id by simp
  note tk = exit_procs_ok [OF r t c i rl ad xs(1,2) z6' id']
  have tb6: "procs_ok k6" using procs_ok_frame(1) [OF tk(1), of k6] z6 z6' by simp
  note rk = relinked_life [OF m(8)] and m6 = more_life [OF m(9)]
  obtain k' where k': "schedule k6 = Some k'" "run_ok k'" "kernel.more k' = kernel.more k6" "idleproc k' = idleproc k6" "zombies k' = zombies k6"
    "\<And>r. state (desc r k') = state (desc r k6)" using schedule_life [OF m(6)] by metis
  note m' = more_life [OF more_waits(3) [OF k'(3)]]
  have tb: "procs_ok k'" by (rule procs_ok_frame(1) [OF tb6 more_waits(3) [OF k'(3)] k'(4)]) (simp add: k'(5))
  have pq: "parent (links ?c (exit_first k)) = Some q" using q(1) f(8) by simp
  have "do_exit_current k = Some k'"
    using cl m(1-5) pq k'(1) by (cases "next_thread ?c k = ?c") (simp_all add: do_exit_current_def exit_first_def [symmetric] Let_def heir_def)
  moreover have "exited k k'"
    unfolding exited_def
  proof (intro conjI allI)
    show "living k' = living k" using living_more [OF k'(3,4)] m(11) by simp
    fix r
    show "state (desc r k') = (if r = ?c then PROC_ZOMBIE else if r \<in> exit_wakes k then PROC_RUNNABLE else state (desc r k))"
      using m(7) nwk k'(6) by (auto simp: woke_def f(9))
    show "kids (tab k') r = (if r = ?c then {} else if r = heir k then kids (tab k) ?c \<union> kids (tab k) r else kids (tab k) r)"
      using tk(2) [of r] m'(1) by auto
  next
    fix n
    have "find_proc n (tab k') = Some p \<longleftrightarrow> find_proc n (tab k) = Some p" for p
      using find_proc_iff [OF tk(3)] find_proc_iff [OF procs_okD(1) [OF t]] tk(4,5) m'(1) by simp
    then show "find_proc n (tab k') = find_proc n (tab k)" by (metis not_Some_eq)
  next
    show "next_thread ?c k' = ?c" using group_okD(5) [OF procs_okD(3) [OF tb6], of ?c] m(11) cl(1) z6 m'(2) by (simp add: next_thread_def)
    show "tg_next k' = tg_next (de_thread ?c k)" using m'(2) m6(2) rk(6) f(10,11) by (simp add: de_thread_def Let_def)
    show "wqs k' (Event_wq ?c) = []" using more_waits(2) [OF k'(3)] m(10) by simp
    show "mm_of k' ?c = None" using m' m6 rk d f by simp
    show "mm_count k' = (case mm_of k (current k) of None \<Rightarrow> mm_count k | Some s \<Rightarrow> (mm_count k)(s := mm_count k s - 1))" using m'(8) m6(8) rk(12) d(14) f(20) by simp
    show "fs_count k' = (case fs_of k (current k) of None \<Rightarrow> fs_count k | Some s \<Rightarrow> (fs_count k)(s := fs_count k s - 1))" using m'(10) m6(10) rk(14) d(16) f(21) by simp
    show "sem_count k' = (case sem_of k (current k) of None \<Rightarrow> sem_count k | Some s \<Rightarrow> (sem_count k)(s := sem_count k s - 1))"
      using m'(12) m6(12) rk(16) d(18) f(22) by simp
    show "exit_code k' = exit_code k" "exiting k' = exiting k" "initproc k' = initproc k"
      using m'(4-6) m6(4-6) rk(8-10) d(10-12) f(12-14) by simp_all
    show "idleproc k' = idleproc k" using k'(4) id by simp
  qed
  ultimately show ?thesis using k'(2) tb by blast
qed

end
