(* ===== verification/Proc_Wait.thy ===== *)
theory Proc_Wait
  imports Proc_Exit
begin

text \<open>
  Kill and wait on states of the invariant: \<open>do_kill\<close> marks and wakes its target, \<open>do_exit\<close> takes the whole thread group with it, and \<open>do_wait\<close>
  finds a zombie among the children of the group exactly when there is one and frees it.
\<close>

subsection \<open>Kill\<close>

lemma base_grow_same:
  assumes "base_ok k" "kernel.procs k' = kernel.procs k" "current k' = current k" "idleproc k' = idleproc k" "rqs k' = rqs k"
    "timers k' = timers k" "timer_list k' = timer_list k" "waits k' = waits k" "wqs k' = wqs k" "living k' = living k"
  shows "base_ok k'"
  by (rule base_grow [OF assms(1-9)]) (use assms(10) in auto)

text \<open>Flags and exit codes are not part of the invariant.\<close>

lemma flags_ok:
  assumes "run_ok k" "procs_ok k"
  shows "run_ok (k\<lparr>exiting := e, exit_code := x\<rparr>)" "procs_ok (k\<lparr>exiting := e, exit_code := x\<rparr>)"
    "run_ok (k\<lparr>exit_code := x\<rparr>)" "procs_ok (k\<lparr>exit_code := x\<rparr>)"
proof -
  note b = run_okD(1) [OF assms(1)]
  have "base_ok (k\<lparr>exiting := e, exit_code := x\<rparr>)" by (rule base_grow_same [OF b]) (simp_all add: living_def)
  moreover have "base_ok (k\<lparr>exit_code := x\<rparr>)" by (rule base_grow_same [OF b]) (simp_all add: living_def)
  ultimately show "run_ok (k\<lparr>exiting := e, exit_code := x\<rparr>)" "run_ok (k\<lparr>exit_code := x\<rparr>)" using assms(1) by (simp_all add: run_ok_def)
  show "procs_ok (k\<lparr>exiting := e, exit_code := x\<rparr>)" "procs_ok (k\<lparr>exit_code := x\<rparr>)"
    using assms(2) by (simp_all add: procs_ok_def living_def zombies_def)
qed

definition killed :: "nat set \<Rightarrow> int \<Rightarrow> life \<Rightarrow> life \<Rightarrow> bool" where
  "killed G code k k' \<longleftrightarrow> exiting k' = (\<lambda>p. p \<in> G \<or> exiting k p) \<and> exit_code k' = (\<lambda>p. if p \<in> G \<and> \<not> exiting k p then code else exit_code k p) \<and>
     woke {p \<in> G. \<not> exiting k p \<and> bit (wait_state (desc p k)) 31} k k' \<and>
     wait_kernel.more k' = wait_kernel.more (k\<lparr>exiting := exiting k', exit_code := exit_code k'\<rparr>) \<and> waits k' = waits k \<and> wqs k' = wqs k"

lemma killed_trans:
  assumes "killed V code k k1" "killed W code k1 k2"
  shows "killed (V \<union> W) code k k2"
proof -
  have ws: "wait_state (desc p k1) = (if p \<in> {p \<in> V. \<not> exiting k p \<and> bit (wait_state (desc p k)) 31} \<and> state (desc p k) \<noteq> PROC_RUNNABLE then 0 else wait_state (desc p k))" for p
    using assms(1) by (simp add: killed_def woke_def)
  have e1: "exiting k1 = (\<lambda>p. p \<in> V \<or> exiting k p)" using assms(1) by (simp add: killed_def)
  have "{p \<in> V. \<not> exiting k p \<and> bit (wait_state (desc p k)) 31} \<union> {p \<in> W. \<not> exiting k1 p \<and> bit (wait_state (desc p k1)) 31} =
      {p \<in> V \<union> W. \<not> exiting k p \<and> bit (wait_state (desc p k)) 31}"
    unfolding ws e1 by auto
  moreover have "woke ({p \<in> V. \<not> exiting k p \<and> bit (wait_state (desc p k)) 31} \<union> {p \<in> W. \<not> exiting k1 p \<and> bit (wait_state (desc p k1)) 31}) k k2"
    using assms by (intro woke_trans [of _ k k1]) (simp_all add: killed_def)
  moreover have "wait_kernel.more k2 = wait_kernel.more (k\<lparr>exiting := exiting k2, exit_code := exit_code k2\<rparr>)"
  proof -
    have "wait_kernel.more k1 = wait_kernel.more (k\<lparr>exiting := exiting k1, exit_code := exit_code k1\<rparr>)"
      "wait_kernel.more k2 = wait_kernel.more (k1\<lparr>exiting := exiting k2, exit_code := exit_code k2\<rparr>)" using assms by (simp_all add: killed_def)
    then show ?thesis by (cases k; cases k1; cases k2) simp
  qed
  ultimately show ?thesis using assms by (auto simp: killed_def fun_eq_iff)
qed

lemma killed_life:
  assumes "killed G code k k'"
  shows "tab k' = tab k" "tg_next k' = tg_next k" "initproc k' = initproc k" "current k' = current k" "idleproc k' = idleproc k"
    "timers k' = timers k" "timer_list k' = timer_list k" "waits k' = waits k" "wqs k' = wqs k"
  using more_life [of k' "k\<lparr>exiting := exiting k', exit_code := exit_code k'\<rparr>"] assms by (simp_all add: killed_def woke_def)

lemma kill_proc_ok:
  assumes r: "run_ok k" and t: "procs_ok k" and p: "p \<in> living k"
  shows "\<exists>k'. kill_proc p code k = Some (if exiting k p then - E_KILLED else 0, k') \<and> run_ok k' \<and> procs_ok k' \<and> killed {p} code k k'"
proof (cases "exiting k p")
  case True
  then have "killed {p} code k k" by (auto simp: killed_def fun_eq_iff woke_def)
  then show ?thesis using True r t by (simp add: kill_proc_def)
next
  case False
  let ?k = "k\<lparr>exiting := (exiting k)(p := True), exit_code := (exit_code k)(p := code)\<rparr>"
  note f = flags_ok(1,2) [OF r t, where e = "(exiting k)(p := True)" and x = "(exit_code k)(p := code)"]
  have e: "(exiting k)(p := True) = (\<lambda>q. q \<in> {p} \<or> exiting k q)" "(exit_code k)(p := code) = (\<lambda>q. if q \<in> {p} \<and> \<not> exiting k q then code else exit_code k q)"
    using False by (auto simp: fun_eq_iff)
  show ?thesis
  proof (cases "bit (wait_state (desc p k)) 31")
    case False
    then have "killed {p} code k ?k" using \<open>\<not> exiting k p\<close> by (auto simp: killed_def e fun_eq_iff woke_def)
    then show ?thesis using False \<open>\<not> exiting k p\<close> f by (simp add: kill_proc_def)
  next
    case True
    then have "wait_state (desc p k) \<noteq> 0" by auto
    then have z: "p \<notin> zombies k" using base_okD(6) [OF run_okD(1) [OF r] p] by (auto simp: zombies_def)
    show ?thesis
    proof (rule wakeup_life [OF run_okD(1) [OF f(1)], of p])
      show "p \<in> living ?k" "p \<notin> zombies ?k" using p z by (simp_all add: living_def zombies_def)
      fix k' assume k': "wakeup_proc p ?k = Some k'" "base_ok k'" "woke {p} ?k k'" "kernel.more k' = kernel.more ?k"
      note m = more_waits [OF k'(4)] and ml = more_life [OF more_waits(3) [OF k'(4)]]
      have ex: "exiting k' = (exiting k)(p := True)" "exit_code k' = (exit_code k)(p := code)" using ml(4,5) by simp_all
      have W: "{q \<in> {p}. \<not> exiting k q \<and> bit (wait_state (desc q k)) 31} = {p}" using True \<open>\<not> exiting k p\<close> by auto
      have "woke {p} k k'" using k'(3) woke_same(1) [of ?k k "{p}" k'] by simp
      then have kl: "killed {p} code k k'" unfolding killed_def W using ex e m by simp
      have "run_ok k'" using k'(2,3) run_okD(2) [OF f(1)] by (auto simp: run_ok_def woke_def)
      moreover have "procs_ok k'"
        by (rule procs_ok_frame(1) [OF f(2) m(3)]) (use k'(3) z in \<open>auto simp: woke_def zombies_def split: if_splits\<close>)
      ultimately show ?thesis using k'(1) True \<open>\<not> exiting k p\<close> kl by (auto simp: kill_proc_def)
    qed
  qed
qed

text \<open>All threads of the group but the one that exits are killed.\<close>

lemma kill_group_loop:
  assumes "run_ok k" "procs_ok k" "p \<in> living k" "((tg_next k) ^^ m) p = first" "\<And>j. j < m \<Longrightarrow> ((tg_next k) ^^ j) p \<noteq> first"
  shows "\<exists>k'. kill_group first p code k = Some k' \<and> run_ok k' \<and> procs_ok k' \<and> killed ((\<lambda>j. ((tg_next k) ^^ j) p) ` {..<m}) code k k'"
  using assms
proof (induction m arbitrary: p k)
  case 0
  have "killed {} code k k" by (auto simp: killed_def)
  then show ?case using 0 by (subst kill_group.simps) simp
next
  case (Suc m)
  let ?nx = "tg_next k"
  obtain k1 where k1: "kill_proc p code k = Some (if exiting k p then - E_KILLED else 0, k1)" "run_ok k1" "procs_ok k1" "killed {p} code k k1"
    using kill_proc_ok [OF Suc.prems(1-3)] by blast
  note kl = killed_life [OF k1(4)]
  have l: "living k1 = living k" using kl by (simp add: living_def)
  have "\<exists>k'. kill_group first (?nx p) code k1 = Some k' \<and> run_ok k' \<and> procs_ok k' \<and> killed ((\<lambda>j. ((tg_next k1) ^^ j) (?nx p)) ` {..<m}) code k1 k'"
  proof (rule Suc.IH [OF k1(2,3)])
    show "?nx p \<in> living k1" using group_okD(1) [OF procs_okD(3) [OF Suc.prems(2)] Suc.prems(3)] l by simp
    show "((tg_next k1) ^^ m) (?nx p) = first" using Suc.prems(4) kl(2) by (simp add: funpow_swap1)
    show "((tg_next k1) ^^ j) (?nx p) \<noteq> first" if "j < m" for j using Suc.prems(5) [of "Suc j"] that kl(2) by (simp add: funpow_swap1)
  qed
  then obtain k' where k': "kill_group first (?nx p) code k1 = Some k'" "run_ok k'" "procs_ok k'"
    "killed ((\<lambda>j. (?nx ^^ j) (?nx p)) ` {..<m}) code k1 k'" using kl(2) by auto
  have img: "(\<lambda>j. (?nx ^^ j) p) ` {..<Suc m} = {p} \<union> (\<lambda>j. (?nx ^^ j) (?nx p)) ` {..<m}"
    by (simp add: lessThan_Suc_eq_insert_0 image_image funpow_swap1)
  have "p \<noteq> first" using Suc.prems(5) [of 0] by simp
  then have "kill_group first p code k = Some k'" using k1(1) k'(1) kl(2) by (subst kill_group.simps) (simp add: next_thread_def)
  then show ?case using k'(2,3) killed_trans [OF k1(4) k'(4)] unfolding img by blast
qed

lemma kill_group_ok:
  assumes r: "run_ok k" and t: "procs_ok k"
  shows "\<exists>k'. kill_group (current k) (next_thread (current k) k) code k = Some k' \<and> run_ok k' \<and> procs_ok k' \<and>
    killed (threads (tg_next k) (current k) - {current k}) code k k'"
proof -
  let ?c = "current k" and ?nx = "tg_next k"
  note g = procs_okD(3) [OF t] and cl = run_okD(3) [OF r]
  show ?thesis
  proof (rule group_cycle [OF g finite_living cl])
    fix n assume n: "0 < n" "(?nx ^^ n) ?c = ?c" "\<And>j. 0 < j \<Longrightarrow> j < n \<Longrightarrow> (?nx ^^ j) ?c \<noteq> ?c"
    obtain m where m: "n = Suc m" using n(1) gr0_conv_Suc by blast
    have s: "(\<lambda>j. (?nx ^^ j) (?nx ?c)) ` {..<m} = threads ?nx ?c - {?c}"
    proof -
      have "threads ?nx ?c = insert ?c ((\<lambda>j. (?nx ^^ j) (?nx ?c)) ` {..<m})"
        unfolding group_cycle_set [OF n(2,1)] m by (simp add: lessThan_Suc_eq_insert_0 image_image funpow_swap1)
      moreover have "?c \<notin> (\<lambda>j. (?nx ^^ j) (?nx ?c)) ` {..<m}" using n(3) [of "Suc _"] m by (fastforce simp: funpow_swap1)
      ultimately show ?thesis by auto
    qed
    have "\<exists>k'. kill_group ?c (?nx ?c) code k = Some k' \<and> run_ok k' \<and> procs_ok k' \<and> killed ((\<lambda>j. (?nx ^^ j) (?nx ?c)) ` {..<m}) code k k'"
    proof (rule kill_group_loop [OF r t group_okD(1) [OF g cl]])
      show "(?nx ^^ m) (?nx ?c) = ?c" using n(2) m by (simp add: funpow_swap1)
      show "(?nx ^^ j) (?nx ?c) \<noteq> ?c" if "j < m" for j using n(3) [of "Suc j"] that m by (simp add: funpow_swap1)
    qed
    then show ?thesis unfolding s next_thread_def .
  qed
qed

subsection \<open>The search of wait\<close>

lemma zombie_child_eq:
  assumes "sib (ptable.procs (tab k)) y xs None"
  shows "zombie_child (head xs) h k =
    Some (case find (\<lambda>p. p \<in> zombies k) xs of None \<Rightarrow> (h \<or> xs \<noteq> [], None) | Some p \<Rightarrow> (True, Some p))"
  using assms
proof (induction xs arbitrary: y h)
  case (Cons p xs)
  have o: "optr (links p k) = head xs" using Cons.prems by (cases xs) auto
  have s: "sib (ptable.procs (tab k)) (Some p) xs None" using Cons.prems by simp
  show ?case
  proof (cases "state (desc p k) = PROC_ZOMBIE")
    case True
    then show ?thesis by (subst zombie_child.simps) (simp add: zombies_def)
  next
    case False
    then show ?thesis using Cons.IH [OF s, of True] o by (subst zombie_child.simps) (simp add: zombies_def split: option.split)
  qed
qed (subst zombie_child.simps, simp)

text \<open>The children of the threads \<open>G\<close>.\<close>

definition group_kids :: "nat set \<Rightarrow> ptable \<Rightarrow> nat set" where
  "group_kids G t = (\<Union>r\<in>G. kids t r)"

text \<open>The result of a search among the processes \<open>S\<close>.\<close>

definition searched :: "nat set \<Rightarrow> bool \<Rightarrow> life \<Rightarrow> bool \<times> nat option \<Rightarrow> bool" where
  "searched S h k res \<longleftrightarrow> (case res of (h', None) \<Rightarrow> S \<inter> zombies k = {} \<and> (h' \<longleftrightarrow> h \<or> S \<noteq> {}) | (h', Some p) \<Rightarrow> p \<in> S \<inter> zombies k)"

lemma zombie_child_searched:
  assumes "procs_ok k" "c \<in> living k"
  shows "\<exists>res. zombie_child (cptr (links c k)) h k = Some res \<and> searched (kids (tab k) c) h k res"
proof -
  obtain xs where xs: "children (ptable.procs (tab k)) c xs" "set xs = kids (tab k) c" using tree_okD(1) [OF procs_okD(2) [OF assms(1)] assms(2)] by blast
  have s: "sib (ptable.procs (tab k)) None xs None" "cptr (links c k) = head xs" using xs(1) by (simp_all add: children_def)
  have "searched (kids (tab k) c) h k (case find (\<lambda>p. p \<in> zombies k) xs of None \<Rightarrow> (h \<or> xs \<noteq> [], None) | Some p \<Rightarrow> (True, Some p))"
    unfolding xs(2) [symmetric] by (auto simp: searched_def find_None_iff find_Some_iff split: option.splits)
  then show ?thesis using zombie_child_eq [OF s(1)] s(2) by simp
qed

lemma searched_trans: "searched S h k (h', None) \<Longrightarrow> searched T h' k res \<Longrightarrow> searched (S \<union> T) h k res"
  by (auto simp: searched_def split: option.splits)

lemma zombie_of_threads_loop:
  assumes t: "procs_ok k" and "p \<in> living k" "((tg_next k) ^^ m) p = first" "0 < m" "\<And>j. 0 < j \<Longrightarrow> j < m \<Longrightarrow> ((tg_next k) ^^ j) p \<noteq> first"
  shows "\<exists>res. zombie_of_threads first p h k = Some res \<and> searched (group_kids ((\<lambda>j. ((tg_next k) ^^ j) p) ` {..<m}) (tab k)) h k res"
  using assms(2-)
proof (induction m arbitrary: p h)
  case (Suc m)
  let ?nx = "tg_next k"
  obtain h' z where z: "zombie_child (cptr (links p k)) h k = Some (h', z)" "searched (kids (tab k) p) h k (h', z)"
    using zombie_child_searched [OF t Suc.prems(1), of h] by auto
  have img: "(\<lambda>j. (?nx ^^ j) p) ` {..<Suc m} = insert p ((\<lambda>j. (?nx ^^ j) (?nx p)) ` {..<m})"
    by (simp add: lessThan_Suc_eq_insert_0 image_image funpow_swap1)
  have gk: "group_kids ((\<lambda>j. (?nx ^^ j) p) ` {..<Suc m}) (tab k) = kids (tab k) p \<union> group_kids ((\<lambda>j. (?nx ^^ j) (?nx p)) ` {..<m}) (tab k)"
    unfolding img by (simp add: group_kids_def)
  show ?case
  proof (cases z)
    case (Some q)
    then show ?thesis using z unfolding gk by (subst zombie_of_threads.simps) (auto simp: searched_def)
  next
    case None
    show ?thesis
    proof (cases "m = 0")
      case True
      then show ?thesis using z None Suc.prems(2) unfolding gk by (subst zombie_of_threads.simps) (simp add: next_thread_def group_kids_def)
    next
      case False
      have ne: "?nx p \<noteq> first" using Suc.prems(4) [of 1] False by simp
      have "\<exists>res. zombie_of_threads first (?nx p) h' k = Some res \<and> searched (group_kids ((\<lambda>j. (?nx ^^ j) (?nx p)) ` {..<m}) (tab k)) h' k res"
      proof (rule Suc.IH)
        show "?nx p \<in> living k" by (rule group_okD(1) [OF procs_okD(3) [OF t] Suc.prems(1)])
        show "(?nx ^^ m) (?nx p) = first" using Suc.prems(2) by (simp add: funpow_swap1)
        show "(?nx ^^ j) (?nx p) \<noteq> first" if "0 < j" "j < m" for j using Suc.prems(4) [of "Suc j"] that by (simp add: funpow_swap1)
      qed (use False in simp)
      then show ?thesis
        using z ne searched_trans [of "kids (tab k) p" h k h'] unfolding gk None by (subst zombie_of_threads.simps) (auto simp: next_thread_def)
    qed
  qed
qed simp

lemma child_of_threads_loop:
  assumes g: "group_ok (tg_next k) pv L Z" and "c \<in> L" "((tg_next k) ^^ m) c = first" "0 < m" "\<And>j. 0 < j \<Longrightarrow> j < m \<Longrightarrow> ((tg_next k) ^^ j) c \<noteq> first"
  shows "child_of_threads first c p k = Some (\<exists>j<m. parent (links p k) = Some (((tg_next k) ^^ j) c))"
  using assms(2-)
proof (induction m arbitrary: c)
  case (Suc m)
  let ?nx = "tg_next k"
  have ex: "(\<exists>j<Suc m. parent (links p k) = Some ((?nx ^^ j) c)) \<longleftrightarrow>
    parent (links p k) = Some c \<or> (\<exists>j<m. parent (links p k) = Some ((?nx ^^ j) (?nx c)))"
    unfolding less_Suc_eq_0_disj by (auto simp: funpow_swap1)
  show ?case
  proof (cases "parent (links p k) = Some c")
    case True
    then show ?thesis unfolding ex by (subst child_of_threads.simps) simp
  next
    case False
    show ?thesis
    proof (cases "m = 0")
      case True
      then show ?thesis using False Suc.prems(2) unfolding ex by (subst child_of_threads.simps) (simp add: next_thread_def)
    next
      case m: False
      have ne: "?nx c \<noteq> first" using Suc.prems(4) [of 1] m by simp
      have "child_of_threads first (?nx c) p k = Some (\<exists>j<m. parent (links p k) = Some ((?nx ^^ j) (?nx c)))"
      proof (rule Suc.IH)
        show "?nx c \<in> L" by (rule group_okD(1) [OF g Suc.prems(1)])
        show "(?nx ^^ m) (?nx c) = first" using Suc.prems(2) by (simp add: funpow_swap1)
        show "(?nx ^^ j) (?nx c) \<noteq> first" if "0 < j" "j < m" for j using Suc.prems(4) [of "Suc j"] that by (simp add: funpow_swap1)
      qed (use m in simp)
      then show ?thesis using False ne unfolding ex by (subst child_of_threads.simps) (simp add: next_thread_def)
    qed
  qed
qed simp

text \<open>The processes a call waits for: the children of the group, or the one with the number.\<close>

definition wait_set :: "int \<Rightarrow> life \<Rightarrow> nat set" where
  "wait_set n k = {p \<in> group_kids (threads (tg_next k) (current k)) (tab k). n = 0 \<or> pid (links p k) = n}"

lemma wait_search_ok:
  assumes r: "run_ok k" and t: "procs_ok k"
  shows "\<exists>res. wait_search n k = Some res \<and> searched (wait_set n k) False k res"
proof -
  let ?c = "current k" and ?nx = "tg_next k"
  note g = procs_okD(3) [OF t] and cl = run_okD(3) [OF r]
  show ?thesis
  proof (rule group_cycle [OF g finite_living cl])
    fix m assume m: "0 < m" "(?nx ^^ m) ?c = ?c" "\<And>j. 0 < j \<Longrightarrow> j < m \<Longrightarrow> (?nx ^^ j) ?c \<noteq> ?c"
    have th: "threads ?nx ?c = (\<lambda>j. (?nx ^^ j) ?c) ` {..<m}" by (rule group_cycle_set [OF m(2,1)])
    show ?thesis
    proof (cases "n = 0")
      case True
      then show ?thesis
        using zombie_of_threads_loop [OF t cl m(2,1,3), of False] by (simp add: wait_search_def wait_set_def th)
    next
      case False
      show ?thesis
      proof (cases "find_proc n (tab k)")
        case None
        have "wait_set n k = {}"
          using None find_proc_iff [OF procs_okD(1) [OF t], of n] False by (auto simp: wait_set_def group_kids_def kids_def)
        then show ?thesis using False None by (simp add: wait_search_def searched_def)
      next
        case (Some p)
        define b where "b \<longleftrightarrow> (\<exists>r\<in>threads ?nx ?c. parent (links p k) = Some r)"
        have b': "b \<longleftrightarrow> (\<exists>j<m. parent (links p k) = Some ((?nx ^^ j) ?c))" unfolding b_def th by auto
        have u: "q \<in> set (proc_list (tab k)) \<and> pid (links q k) = n \<longleftrightarrow> q = p" for q
          using find_proc_iff [OF procs_okD(1) [OF t], of n q] Some by auto
        have w: "q \<in> wait_set n k \<longleftrightarrow> (q \<in> set (proc_list (tab k)) \<and> pid (links q k) = n) \<and> (\<exists>r\<in>threads ?nx ?c. parent (links q k) = Some r)" for q
          using False by (auto simp: wait_set_def group_kids_def kids_def)
        have "q \<in> wait_set n k \<longleftrightarrow> q = p \<and> b" for q using w [of q] unfolding u [of q] b_def by (cases "q = p") simp_all
        then have ws: "wait_set n k = (if b then {p} else {})" by auto
        have "wait_search n k = Some (b, if b \<and> state (desc p k) = PROC_ZOMBIE then Some p else None)"
          using child_of_threads_loop [OF g cl m(2,1,3), of p] False Some unfolding b' by (simp add: wait_search_def)
        then show ?thesis unfolding ws by (auto simp: searched_def zombies_def)
      qed
    qed
  qed
qed

subsection \<open>Wait\<close>

text \<open>Taking a zombie out of the table.\<close>

lemma ids_reap:
  assumes i: "ids_ok t" and p: "p \<in> set (proc_list t)" and t': "remove_links p (unhash_proc p t) = Some t'" "proc_list t' = remove1 p (proc_list t)"
    "nr_process t' = nr_process t - 1"
  shows "ids_ok t'" "find_proc n t' = (if n = pid (ptable.procs t p) then None else find_proc n t)"
proof -
  have ids: "hash_inv t" "hashed t = set (proc_list t)" "pid_inv t" "distinct (proc_list t)" "nr_process t = int (length (proc_list t)) + 1"
    "\<And>q. q \<in> set (proc_list t) \<Longrightarrow> 0 < pid (ptable.procs t q) \<and> pid (ptable.procs t q) < MAX_PID"
    using i by (auto simp: ids_ok_def)
  note f = remove_links_frame [OF t'(1)] and u = unhash_proc_correct [OF ids(1), of p]
  have pd: "pid (ptable.procs t' q) = pid (ptable.procs t q)" for q using f(4) by (simp add: unhash_proc_def)
  have h: "hash_inv t'" "hashed t' = set (proc_list t) - {p}" using hash_inv_cong [OF f(1) f(4)] u ids(2) by simp_all
  have P: "set (proc_list t') = set (proc_list t) - {p}" "distinct (proc_list t')" using ids(4) t'(2) by simp_all
  have "set (pids t') \<subseteq> set (pids t)" using P(1) pd by (auto simp: pids_def)
  moreover have "last_pid t' = last_pid t" "next_safe t' = next_safe t" using f(2,3) by (simp_all add: unhash_proc_def)
  ultimately have pi: "pid_inv t'" using ids(3) by (auto simp: pid_inv_def)
  have "length (proc_list t') = length (proc_list t) - 1" "0 < length (proc_list t)"
    using p t'(2) length_pos_if_in_set [OF p] by (simp_all add: length_remove1)
  then have "nr_process t' = int (length (proc_list t')) + 1" using t'(3) ids(5) by linarith
  then show o: "ids_ok t'" using h P pi ids(6) pd by (auto simp: ids_ok_def)
  have e: "find_proc n t' = Some q \<longleftrightarrow> n \<noteq> pid (ptable.procs t p) \<and> find_proc n t = Some q" for q
  proof -
    have "n = pid (ptable.procs t p) \<Longrightarrow> find_proc n t = Some p" using find_proc_iff [OF i] p by blast
    moreover have "find_proc n t' = Some q \<longleftrightarrow> q \<noteq> p \<and> find_proc n t = Some q" using P(1) pd by (auto simp: find_proc_iff [OF o] find_proc_iff [OF i])
    moreover have "find_proc n t = Some p \<Longrightarrow> n = pid (ptable.procs t p)" by (simp add: find_proc_iff [OF i])
    ultimately show ?thesis by auto
  qed
  show "find_proc n t' = (if n = pid (ptable.procs t p) then None else find_proc n t)"
  proof (cases "n = pid (ptable.procs t p)")
    case True
    then have "find_proc n t' \<noteq> Some q" for q using e [of q] by blast
    then show ?thesis using True by (cases "find_proc n t'") simp_all
  next
    case False
    then have "find_proc n t' = Some q \<longleftrightarrow> find_proc n t = Some q" for q using e [of q] by blast
    then show ?thesis using False by (metis not_Some_eq)
  qed
qed

text \<open>What is true after the process \<open>p\<close> was freed.\<close>

definition reaped :: "nat \<Rightarrow> life \<Rightarrow> life \<Rightarrow> bool" where
  "reaped p k k' \<longleftrightarrow> living k' = living k - {p} \<and> proc_list (tab k') = remove1 p (proc_list (tab k)) \<and>
     (\<forall>n. find_proc n (tab k') = (if n = pid (links p k) then None else find_proc n (tab k))) \<and>
     (\<forall>q. kids (tab k') q = kids (tab k) q - {p}) \<and> allocated k' = allocated k - {p} \<and> kstacks k' = kstacks k - {p} \<and>
     kernel.procs k' = kernel.procs k \<and> current k' = current k \<and> initproc k' = initproc k \<and> idleproc k' = idleproc k"

lemma reap_ok:
  assumes r: "run_ok k" and t: "procs_ok k" and p: "p \<in> set (proc_list (tab k))" "p \<in> zombies k"
  obtains t' where "remove_links p (unhash_proc p (tab k)) = Some t'"
    "put_kstack p (k\<lparr>tab := t'\<rparr>) = Some (k\<lparr>tab := t', kstacks := kstacks k - {p}\<rparr>)"
    "kfree_proc p (k\<lparr>tab := t', kstacks := kstacks k - {p}\<rparr>) = Some (k\<lparr>tab := t', kstacks := kstacks k - {p}, allocated := allocated k - {p}\<rparr>)"
    "run_ok (k\<lparr>tab := t', kstacks := kstacks k - {p}, allocated := allocated k - {p}\<rparr>)"
    "procs_ok (k\<lparr>tab := t', kstacks := kstacks k - {p}, allocated := allocated k - {p}\<rparr>)"
    "reaped p k (k\<lparr>tab := t', kstacks := kstacks k - {p}, allocated := allocated k - {p}\<rparr>)"
proof -
  let ?t = "unhash_proc p (tab k)"
  have e: "proc_list ?t = proc_list (tab k)" "ptable.procs ?t = ptable.procs (tab k)" "nr_process ?t = nr_process (tab k)" by (simp_all add: unhash_proc_def)
  have tr: "tree_ok ?t (living k) (zombies k)" using procs_okD(2) [OF t] by (simp add: tree_ok_def kids_def e)
  have P: "set (proc_list ?t) \<subseteq> living k" "distinct (proc_list ?t)" using proc_list_living procs_okD(1) [OF t] by (simp_all add: e ids_ok_def)
  have pl: "p \<in> living k" "p \<noteq> idleproc k" using p(1) proc_list_living procs_okD(10) [OF t] by auto
  have pc: "p \<noteq> current k" using p(2) run_okD(4) [OF r] by auto
  show thesis
  proof (rule tree_reap [OF tr P, of p])
    show "p \<in> set (proc_list ?t)" "p \<in> zombies k" using p by (simp_all add: e)
    fix t' assume t': "remove_links p ?t = Some t'" "tree_ok t' (living k - {p}) (zombies k)" "proc_list t' = remove1 p (proc_list ?t)"
      "nr_process t' = nr_process ?t - 1"
    let ?k = "k\<lparr>tab := t', kstacks := kstacks k - {p}, allocated := allocated k - {p}\<rparr>"
    have P': "set (proc_list t') = set (proc_list (tab k)) - {p}" using P(2) t'(3) e(1) by simp
    have l: "living ?k = living k - {p}" using P' pl(2) by (auto simp: living_def)
    have z: "zombies ?k = zombies k" by (simp add: zombies_def)
    note ids = ids_reap [OF procs_okD(1) [OF t] p(1) t'(1)]
    have tk: "procs_ok ?k"
      unfolding procs_ok_def l z
      using ids(1) t'(2-4) group_reap [OF procs_okD(3) [OF t] pl(1) p(2)] shared_reap [OF _ p(2)] procs_okD(4-10) [OF t] P' e by auto
    note b = run_okD(1) [OF r]
    have s: "sched_inv ?k" by (rule sched_inv_frame [OF base_okD(2) [OF b]]) simp_all
    have i: "kernel_inv ?k" by (rule kernel_inv_frame [OF base_okD(1) [OF b] s]) (simp_all add: wakeable_def)
    have zp: "state (desc p k) = PROC_ZOMBIE" using p(2) by (simp add: zombies_def)
    have own: "tproc (timers k n) \<noteq> Some p" if "n \<in> set (timer_list k)" for n
      using base_okD(1) [OF b] that zp by (auto simp: kernel_inv_def owners_ok_def wakeable_def)
    have "base_ok ?k"
      unfolding base_ok_def l z
    proof (intro conjI allI ballI impI)
      show "q \<in> living k - {p}" if "state (desc q ?k) = PROC_RUNNABLE" for q using base_okD(5) [OF b, of q] that zp by auto
      show "q \<in> living k - {p}" if "n \<in> set (timer_list ?k)" "tproc (timers ?k n) = Some q" for n q
        using base_okD(7) [OF b, of n q] own that by auto
      show "q \<in> living k - {p} - zombies k" if "w \<in> set (wqs ?k u)" "wproc (waits ?k w) = Some q" for u w q
        using base_okD(8) [OF b, of w u q] that p(2) by auto
    qed (use i base_okD(3-6) [OF b] in \<open>auto simp: wait_inv_def\<close>)
    then have rk: "run_ok ?k" using run_okD(2) [OF r] by (simp add: run_ok_def)
    have "kids t' q = kids (tab k) q - {p}" for q
      using remove_links_frame(5) [OF t'(1)] P' by (auto simp: kids_def e)
    then have "reaped p k ?k" using l t'(3,4) ids(2) e by (auto simp: reaped_def)
    then show thesis using that [OF t'(1)] rk tk p(1) pl(1) procs_okD(8,9) [OF t] by (simp add: put_kstack_def kfree_proc_def)
  qed
qed

text \<open>Going to sleep until a child exits.\<close>

definition slept :: "life \<Rightarrow> life \<Rightarrow> bool" where
  "slept k k' \<longleftrightarrow> state (desc (current k) k') = PROC_SLEEPING \<and> wait_state (desc (current k) k') = WT_CHILD \<and>
     (\<forall>r. r \<noteq> current k \<longrightarrow> state (desc r k') = state (desc r k) \<and> wait_state (desc r k') = wait_state (desc r k)) \<and>
     kernel.more k' = kernel.more k \<and> idleproc k' = idleproc k"

lemma wait_sleep_ok:
  assumes r: "run_ok k" and t: "procs_ok k" and c: "current k \<noteq> idleproc k"
  obtains k' where "schedule (Sched.upd_proc (current k) (\<lambda>q. q\<lparr>state := PROC_SLEEPING, wait_state := WT_CHILD\<rparr>) k) = Some k'" "run_ok k'" "procs_ok k'" "slept k k'"
proof -
  let ?k = "Sched.upd_proc (current k) (\<lambda>q. q\<lparr>state := PROC_SLEEPING, wait_state := WT_CHILD\<rparr>) k"
  note b = run_okD(1) [OF r]
  have q: "rq_inv ?k" "queued ?k = queued k" using upd_proc_inv [OF sched_invD(1) [OF base_okD(2) [OF b]]] by simp_all
  have s: "sched_inv ?k" using sched_invD(2) [OF base_okD(2) [OF b]] q by (auto simp: sched_inv_def)
  have i: "kernel_inv ?k"
    by (rule kernel_inv_frame [OF base_okD(1) [OF b] s]) (auto simp: wakeable_def WT_CHILD_def WT_INTERRUPTED_def)
  have m: "kernel.more ?k = kernel.more k" by simp
  have l: "living ?k = living k" by (rule living_more) simp_all
  have z: "zombies ?k = zombies k" using run_okD(2) [OF r] by (auto simp: zombies_def)
  have bk: "base_ok ?k"
    unfolding base_ok_def l z using i base_okD(3-8) [OF b] c by (auto simp: wait_inv_def)
  obtain k' where k': "schedule ?k = Some k'" "run_ok k'" "kernel.more k' = kernel.more ?k" "idleproc k' = idleproc ?k" "zombies k' = zombies ?k"
    "\<And>r. state (desc r k') = state (desc r ?k)" "\<And>r. wait_state (desc r k') = wait_state (desc r ?k)"
    using schedule_life [OF bk] by metis
  have "procs_ok k'"
    by (rule procs_ok_frame(1) [OF t]) (use k'(3-5) z more_waits(3) [of k' k] in simp_all)
  moreover have "slept k k'" using k'(3,4,6,7) by (simp add: slept_def)
  ultimately show thesis using that k'(1,2) by blast
qed

definition wait_outcome :: "int \<Rightarrow> bool \<Rightarrow> bool \<Rightarrow> wait_result \<Rightarrow> life \<Rightarrow> life \<Rightarrow> bool" where
  "wait_outcome n store copied res k k' \<longleftrightarrow>
     (case res of
        Reaped p ret code \<Rightarrow> p \<in> wait_set n k \<inter> zombies k \<and> reaped p k k' \<and> ret = (if store \<and> \<not> copied then - E_INVAL else 0) \<and>
          code = (if store \<and> copied then Some (exit_code k p) else None)
      | Returned ret \<Rightarrow> wait_set n k = {} \<and> ret = - E_BAD_PROC \<and> k' = k
      | Sleeping \<Rightarrow> wait_set n k \<noteq> {} \<and> wait_set n k \<inter> zombies k = {} \<and> slept k k')"

lemma wait_round_ok:
  assumes r: "run_ok k" and t: "procs_ok k" and c: "current k \<noteq> idleproc k" and i: "initproc k \<notin> zombies k"
  shows "\<exists>res k'. wait_round n store copied k = Some (res, k') \<and> run_ok k' \<and> procs_ok k' \<and> wait_outcome n store copied res k k'"
proof -
  obtain h z where s: "wait_search n k = Some (h, z)" "searched (wait_set n k) False k (h, z)" using wait_search_ok [OF r t, of n] by auto
  show ?thesis
  proof (cases z)
    case (Some p)
    then have p: "p \<in> wait_set n k" "p \<in> zombies k" using s(2) by (auto simp: searched_def)
    then have pP: "p \<in> set (proc_list (tab k))" by (auto simp: wait_set_def group_kids_def kids_def)
    have ne: "p \<noteq> idleproc k" "p \<noteq> initproc k" using pP p(2) i procs_okD(10) [OF t] by auto
    show ?thesis
    proof (rule reap_ok [OF r t pP p(2)])
      fix t'
      let ?k = "k\<lparr>tab := t', kstacks := kstacks k - {p}, allocated := allocated k - {p}\<rparr>"
      assume k': "remove_links p (unhash_proc p (tab k)) = Some t'" "put_kstack p (k\<lparr>tab := t'\<rparr>) = Some (k\<lparr>tab := t', kstacks := kstacks k - {p}\<rparr>)"
        "kfree_proc p (k\<lparr>tab := t', kstacks := kstacks k - {p}\<rparr>) = Some ?k" "run_ok ?k" "procs_ok ?k" "reaped p k ?k"
      have "wait_round n store copied k =
          Some (if store then (if copied then Reaped p 0 (Some (exit_code k p)) else Reaped p (- E_INVAL) None) else Reaped p 0 None, ?k)"
        using s(1) Some ne k'(1-3) by (simp add: wait_round_def Let_def)
      then show ?thesis using k'(4-6) p by (auto simp: wait_outcome_def)
    qed
  next
    case None
    then have ws: "wait_set n k \<inter> zombies k = {}" "h \<longleftrightarrow> wait_set n k \<noteq> {}" using s(2) by (simp_all add: searched_def)
    show ?thesis
    proof (cases h)
      case True
      show ?thesis
        by (rule wait_sleep_ok [OF r t c]) (use s(1) None True ws in \<open>auto simp: wait_round_def wait_outcome_def Let_def\<close>)
    next
      case False
      then show ?thesis using s(1) None ws r t by (simp add: wait_round_def wait_outcome_def)
    qed
  qed
qed

lemma do_exit_ok:
  assumes r: "run_ok k" and t: "procs_ok k" and c: "can_exit k" and i: "initproc k \<in> living k" "initproc k \<notin> zombies k"
  shows "\<exists>k1 k'. do_exit code k = Some k' \<and> run_ok k' \<and> procs_ok k' \<and> killed (threads (tg_next k) (current k) - {current k}) code k k1 \<and>
    exited (k1\<lparr>exit_code := (exit_code k1)(current k := code)\<rparr>) k'"
proof -
  obtain k1 where k1: "kill_group (current k) (next_thread (current k) k) code k = Some k1" "run_ok k1" "procs_ok k1"
    "killed (threads (tg_next k) (current k) - {current k}) code k k1" using kill_group_ok [OF r t] by blast
  let ?k = "k1\<lparr>exit_code := (exit_code k1)(current k := code)\<rparr>"
  note kl = killed_life [OF k1(4)] and f = flags_ok(3,4) [OF k1(2,3), of "(exit_code k1)(current k := code)"]
  have c': "can_exit ?k" using c kl by (simp add: can_exit_def)
  have l: "living ?k = living k" using kl by (simp add: living_def)
  have w: "woke {p \<in> threads (tg_next k) (current k) - {current k}. \<not> exiting k p \<and> bit (wait_state (desc p k)) 31} k k1" using k1(4) by (simp add: killed_def)
  have iz: "initproc k1 \<notin> zombies ?k" using w i(2) kl(3) by (auto simp: woke_def zombies_def)
  have "\<exists>k'. do_exit_current ?k = Some k' \<and> run_ok k' \<and> procs_ok k' \<and> exited ?k k'"
    by (rule do_exit_current_ok [OF f c']) (use i(1) l kl(3) iz in simp_all)
  then show ?thesis using k1(1,4) kl(4) by (auto simp: do_exit_def do_exit_thread_def)
qed

end
