(* ===== verification/Proc_Run.thy ===== *)
theory Proc_Run
  imports Proc_Wait Ipc
begin

text \<open>
  The processes under every interleaving of forks, exits, kills and waits with ticks, sleeps, wakeups, blocking on wait queues and switches: the
  invariant holds in every state that can be reached, and no assertion fails, no list is walked for ever and nothing is freed twice.  With it the
  properties of the single calls.
\<close>

definition life_inv :: "life \<Rightarrow> bool" where
  "life_inv k \<longleftrightarrow> run_ok k \<and> procs_ok k \<and> initproc k \<in> set (proc_list (tab k)) \<and> initproc k \<notin> zombies k"

lemma life_invD:
  assumes "life_inv k"
  shows "run_ok k" "procs_ok k" "initproc k \<in> set (proc_list (tab k))" "initproc k \<in> living k" "initproc k \<notin> zombies k"
  using assms by (auto simp: life_inv_def living_def)

subsection \<open>Events of the scheduler\<close>

text \<open>A process keeps its state, or it was asleep and was woken.\<close>

definition nudged :: "life \<Rightarrow> life \<Rightarrow> nat \<Rightarrow> bool" where
  "nudged k k' r \<longleftrightarrow> state (desc r k') = state (desc r k) \<and> wait_state (desc r k') = wait_state (desc r k) \<or>
     state (desc r k) \<noteq> PROC_ZOMBIE \<and> state (desc r k') = PROC_RUNNABLE \<and> wait_state (desc r k') = 0"

lemma wakeup_nudged:
  assumes "wakeup_proc p k = Some k'"
  shows "nudged k k' r"
  using assms
  by (auto simp: nudged_def wakeup_proc_def sched_class_enqueue_def MLFQ_enqueue_def RR_enqueue_def Let_def kassert_def split: if_splits)

lemma run_expired_nudged:
  assumes "run_expired ns k = Some k'"
  shows "nudged k k' r \<and> set (timer_list k') \<subseteq> set (timer_list k) \<and> (\<forall>t. tproc (timers k' t) = tproc (timers k t))"
  using assms
proof (induction ns k arbitrary: k' rule: run_expired.induct)
  case (1 k)
  then show ?case by (simp add: nudged_def)
next
  case (2 t ts k)
  show ?case
  proof (cases "expires (timers k t) = 0")
    case True
    then obtain p k1 where p: "tproc (timers k t) = Some p" "wakeup_proc p k = Some k1" "run_expired ts (del_timer t k1) = Some k'"
      "(if wait_state (desc p k) \<noteq> 0 then kassert (wait_state (desc p k) AND WT_INTERRUPTED \<noteq> 0) else Some ()) = Some ()"
      using "2.prems" by (auto simp: bind_eq_Some_conv)
    have "set (timer_list (del_timer t k1)) \<subseteq> set (timer_list k1)" using set_remove1_subset [of t "timer_list k1"] by (simp add: del_timer_def Let_def)
    then show ?thesis
      using "2.IH" [OF True p(1,4,2,3)] wakeup_nudged [OF p(2), of r] wakeup_proc_frame(3,4) [OF p(2)]
      by (auto simp: nudged_def del_timer_frame)
  qed (use "2.prems" in \<open>simp add: nudged_def\<close>)
qed

text \<open>A step that only wakes processes of the table and unlinks timers.\<close>

lemma base_nudged:
  assumes b: "base_ok k" and i: "kernel_inv k'" and m: "kernel.more k' = kernel.more k" "idleproc k' = idleproc k"
    and n: "\<And>r. nudged k k' r" "\<And>r. r \<notin> living k \<Longrightarrow> state (desc r k') = state (desc r k)"
    and t: "set (timer_list k') \<subseteq> set (timer_list k)" "\<And>t. tproc (timers k' t) = tproc (timers k t)"
  shows "base_ok k'" "zombies k' = zombies k"
proof -
  note mw = more_waits [OF m(1)]
  have l: "living k' = living k" by (rule living_more [OF m])
  have z: "p \<in> zombies k' \<longleftrightarrow> p \<in> zombies k" for p using n(1) [of p] by (auto simp: nudged_def zombies_def)
  then show z': "zombies k' = zombies k" by auto
  show "base_ok k'"
    unfolding base_ok_def
  proof (intro conjI allI ballI impI)
    show "state (desc (idleproc k') k') = PROC_RUNNABLE" using base_okD(4) [OF b] n(1) [of "idleproc k"] m(2) by (auto simp: nudged_def)
    show "wait_inv k'" using base_okD(3) [OF b] by (simp add: wait_inv_def mw)
    show "wait_state (desc p k') = 0" if "state (desc p k') = PROC_RUNNABLE" for p using base_okD(5) [OF b, of p] n(1) [of p] that by (auto simp: nudged_def)
    show "p \<in> living k'" if "state (desc p k') = PROC_RUNNABLE" for p
    proof (rule ccontr)
      assume "p \<notin> living k'"
      then have "p \<notin> living k" unfolding l .
      then show False using base_okD(5) [OF b, of p] n(2) [of p] that by simp
    qed
    show "wait_state (desc p k') = 0" if "p \<in> living k'" "state (desc p k') = PROC_ZOMBIE" for p
      using base_okD(6) [OF b, of p] n(1) [of p] that l by (auto simp: nudged_def)
    show "p \<in> living k'" if "u \<in> set (timer_list k')" "tproc (timers k' u) = Some p" for u p using base_okD(7) [OF b, of u p] t that l by auto
    show "p \<in> living k' - zombies k'" if "w \<in> set (wqs k' q)" "wproc (waits k' w) = Some p" for q w p
      using base_okD(8) [OF b, of w q p] that by (simp add: mw l z')
  qed (rule i)
qed

lemma life_frame:
  assumes "life_inv k" "run_ok k'" "kernel.more k' = kernel.more k" "idleproc k' = idleproc k" "zombies k' = zombies k"
  shows "life_inv k'"
proof -
  note m = more_life [OF more_waits(3) [OF assms(3)]]
  have "procs_ok k'" by (rule procs_ok_frame(1) [OF life_invD(2) [OF assms(1)] more_waits(3) [OF assms(3)] assms(4)]) (simp add: assms(5))
  then show ?thesis using assms life_invD [OF assms(1)] by (simp add: life_inv_def m)
qed

lemma tick_life:
  assumes inv: "life_inv k"
  shows "\<exists>k'. run_timer_list k = Some k' \<and> life_inv k'"
proof -
  note r = life_invD(1) [OF inv] and b = run_okD(1) [OF life_invD(1) [OF inv]]
  obtain k' where k': "run_timer_list k = Some k'" "kernel_inv k'" using exec_event_ok [OF base_okD(1) [OF b], of Ev_Tick] by auto
  have run: "running_ok k' \<and> idleproc k' = idleproc k"
    using exec_event_running [OF base_okD(1) [OF b], of Ev_Tick k'] k'(1) run_okD(2) [OF r] by (auto simp: running_ok_def)
  have more: "kernel.more k' = kernel.more k" by (rule run_timer_list_frame(1) [OF k'(1)])
  have n: "nudged k k' p \<and> set (timer_list k') \<subseteq> set (timer_list k) \<and> (\<forall>t. tproc (timers k' t) = tproc (timers k t))" for p
  proof (cases "timer_list k")
    case Nil
    then show ?thesis using k'(1) by (auto simp: run_timer_list_def nudged_def)
  next
    case (Cons t ts)
    let ?k = "k\<lparr>timers := set_expires t (expires (timers k t) - 1) (timers k)\<rparr>"
    obtain k1 where k1: "run_expired (t # ts) ?k = Some k1" "k' = sched_class_proc_tick (current k1) k1"
      using k'(1) unfolding run_timer_list_def Cons by (simp only: list.case) (auto simp only: bind_eq_Some_conv option.inject)
    show ?thesis using run_expired_nudged [OF k1(1), of p] by (auto simp: k1(2) nudged_def)
  qed
  have o: "state (desc p k') = state (desc p k)" if "p \<notin> living k" for p
    using run_timer_list_frame(2) [OF k'(1), of p] base_okD(7) [OF b] that by blast
  have bk: "base_ok k'" "zombies k' = zombies k"
    using base_nudged [OF b k'(2) more conjunct2 [OF run] _ o] n by auto
  then have "run_ok k'" using run base_okD(4) [OF bk(1)] by (auto simp: run_ok_def running_ok_def)
  then show ?thesis using life_frame [OF inv _ more conjunct2 [OF run] bk(2)] k'(1) by blast
qed

text \<open>The running process goes to sleep: what a blocking step must leave behind for \<open>schedule\<close>.\<close>

lemma sleep_life:
  assumes inv: "life_inv k" and c: "current k \<noteq> idleproc k" and i: "kernel_inv k1" "wait_inv k1"
    and e: "wait_kernel.more k1 = wait_kernel.more k" "idleproc k1 = idleproc k" "current k1 = current k"
    and s: "\<And>r. r \<noteq> current k \<Longrightarrow> kernel.procs k1 r = kernel.procs k r" "state (desc (current k) k1) = PROC_SLEEPING"
    and t: "\<And>u p. u \<in> set (timer_list k1) \<Longrightarrow> tproc (timers k1 u) = Some p \<Longrightarrow> p \<in> living k"
    and w: "\<And>q w p. w \<in> set (wqs k1 q) \<Longrightarrow> wproc (waits k1 w) = Some p \<Longrightarrow> p \<in> living k - zombies k"
  shows "\<exists>k'. schedule k1 = Some k' \<and> life_inv k'"
proof -
  note r = life_invD(1) [OF inv] and b = run_okD(1) [OF life_invD(1) [OF inv]]
  have l: "living k1 = living k" using more_life(1) [OF e(1)] e(2) by (simp add: living_def)
  have z: "zombies k1 = zombies k"
  proof -
    have "p \<in> zombies k1 \<longleftrightarrow> p \<in> zombies k" for p using s run_okD(2) [OF r] by (cases "p = current k") (simp_all add: zombies_def)
    then show ?thesis by auto
  qed
  have bk: "base_ok k1"
    unfolding base_ok_def l z
  proof (intro conjI allI ballI impI)
    show "state (desc (idleproc k1) k1) = PROC_RUNNABLE" using base_okD(4) [OF b] s(1) [of "idleproc k"] e(2) c by simp
    show "p \<in> living k" "wait_state (desc p k1) = 0" if "state (desc p k1) = PROC_RUNNABLE" for p
      using base_okD(5) [OF b, of p] s that by (cases "p = current k"; simp)+
    show "wait_state (desc p k1) = 0" if "p \<in> living k" "state (desc p k1) = PROC_ZOMBIE" for p
      using base_okD(6) [OF b, of p] s that by (cases "p = current k"; simp)
  qed (use i t w in blast)+
  obtain k' where k': "schedule k1 = Some k'" "run_ok k'" "kernel.more k' = kernel.more k1" "idleproc k' = idleproc k1" "zombies k' = zombies k1"
    using schedule_life [OF bk] by metis
  note m = more_life [OF e(1)] and m' = more_life [OF more_waits(3) [OF k'(3)]]
  have "procs_ok k'"
    by (rule procs_ok_frame(1) [OF life_invD(2) [OF inv]]) (use more_waits(3) [OF k'(3)] e(1,2) k'(4,5) z in simp_all)
  then show ?thesis using k'(1,2,5) z life_invD [OF inv] by (simp add: life_inv_def m m')
qed

lemma do_sleep_life:
  assumes inv: "life_inv k" and c: "current k \<noteq> idleproc k" and t: "t \<notin> set (timer_list k)"
  shows "\<exists>k'. do_sleep_enter t n k = Some k' \<and> life_inv k'"
proof (cases "n = 0")
  case True
  then show ?thesis using inv by (simp add: do_sleep_enter_def)
next
  case False
  note b = run_okD(1) [OF life_invD(1) [OF inv]] and cl = run_okD(3) [OF life_invD(1) [OF inv]]
  show ?thesis
  proof (rule do_sleep_enter_inv [OF base_okD(1) [OF b] t, of n])
    fix k3 assume k3: "do_sleep_enter t n k = (if n = 0 then Some k else schedule k3)" "kernel_inv k3" "n \<noteq> 0 \<Longrightarrow> kernel.more k3 = kernel.more k"
      "\<And>r. n \<noteq> 0 \<Longrightarrow> r \<noteq> current k \<Longrightarrow> kernel.procs k3 r = kernel.procs k r" "idleproc k3 = idleproc k" "current k3 = current k"
      "n \<noteq> 0 \<Longrightarrow> state (desc (current k) k3) = PROC_SLEEPING" "n \<noteq> 0 \<Longrightarrow> set (timer_list k3) = insert t (set (timer_list k))"
      "\<And>m. n \<noteq> 0 \<Longrightarrow> tproc (timers k3 m) = (if m = t then Some (current k) else tproc (timers k m))"
    note mw = more_waits [OF k3(3) [OF False]]
    have "\<exists>k'. schedule k3 = Some k' \<and> life_inv k'"
    proof (rule sleep_life [OF inv c k3(2) _ mw(3) k3(5,6) k3(4) [OF False] k3(7) [OF False]])
      show "wait_inv k3" using base_okD(3) [OF b] by (simp add: wait_inv_def mw)
      show "p \<in> living k" if "u \<in> set (timer_list k3)" "tproc (timers k3 u) = Some p" for u p
        using that base_okD(7) [OF b, of u p] cl unfolding k3(8) [OF False] k3(9) [OF False] by (auto split: if_splits)
      show "p \<in> living k - zombies k" if "w \<in> set (wqs k3 q)" "wproc (waits k3 w) = Some p" for q w p
        using base_okD(8) [OF b, of w q p] that by (simp add: mw)
    qed
    then show ?thesis using k3(1) False by simp
  qed
qed

text \<open>A blocking call without a timeout: \<open>wait_current_set\<close> and \<open>schedule\<close>.\<close>

lemma block_life:
  assumes inv: "life_inv k" and c: "current k \<noteq> idleproc k" and w: "\<not> wait_in_queue w k" and mb: "may_block ws None k"
  shows "\<exists>k'. (do { k \<leftarrow> wait_current_set q w ws k; schedule k }) = Some k' \<and> life_inv k'"
proof -
  note r = life_invD(1) [OF inv] and b = run_okD(1) [OF life_invD(1) [OF inv]]
  show ?thesis
  proof (rule wait_current_set_kernel_inv [OF base_okD(1,3) [OF b] w mb, of q])
    fix k1 assume k1: "wait_current_set q w ws k = Some k1" "kernel_inv k1" "wait_inv k1"
      "waits k1 = (waits k)(w := (waits k w)\<lparr>wproc := Some (current k), wakeup_flags := WT_INTERRUPTED, wait_queue := q\<rparr>)"
      "wqs k1 = (wqs k)(q := wqs k q @ [w])"
      "kernel.procs k1 = (kernel.procs k)(current k := (desc (current k) k)\<lparr>state := PROC_SLEEPING, wait_state := ws\<rparr>)"
      "current k1 = current k" "idleproc k1 = idleproc k" "timers k1 = timers k" "timer_list k1 = timer_list k" "wait_kernel.more k1 = wait_kernel.more k"
    have "\<exists>k'. schedule k1 = Some k' \<and> life_inv k'"
    proof (rule sleep_life [OF inv c k1(2,3,11,8,7)])
      show "kernel.procs k1 p = kernel.procs k p" if "p \<noteq> current k" for p using that by (simp add: k1(6))
      show "state (desc (current k) k1) = PROC_SLEEPING" by (simp add: k1(6))
      show "p \<in> living k" if "u \<in> set (timer_list k1)" "tproc (timers k1 u) = Some p" for u p using base_okD(7) [OF b] that by (simp add: k1(9,10))
      show "p \<in> living k - zombies k" if h: "v \<in> set (wqs k1 s)" "wproc (waits k1 v) = Some p" for s v p
      proof (cases "v = w")
        case True
        then show ?thesis using h(2) run_okD(3,4) [OF r] by (simp add: k1(4))
      next
        case False
        then have "v \<in> set (wqs k s)" using h(1) by (auto simp: k1(5) split: if_splits)
        then show ?thesis using base_okD(8) [OF b] h(2) False by (simp add: k1(4))
      qed
    qed
    then show ?thesis using k1(1) by simp
  qed
qed

lemma sched_life:
  assumes inv: "life_inv k" and ok: "event_ok e k" and l: "\<And>p. e = Ev_Wakeup p \<Longrightarrow> p \<in> living k" "\<And>t n. e = Ev_Sleep t n \<Longrightarrow> current k \<noteq> idleproc k"
  shows "\<exists>k'. exec_event e k = Some k' \<and> life_inv k'"
proof -
  note r = life_invD(1) [OF inv] and b = run_okD(1) [OF life_invD(1) [OF inv]]
  have same: "life_inv k'" if "base_ok k'" "kernel.more k' = kernel.more k" "idleproc k' = idleproc k" "current k' = current k" "\<And>p. state (desc p k') = state (desc p k)" for k'
    by (rule life_frame [OF inv _ that(2,3)]) (use that run_okD(2) [OF r] in \<open>simp_all add: run_ok_def zombies_def\<close>)
  show ?thesis
  proof (cases e)
    case Ev_Schedule
    obtain k' where "schedule k = Some k'" "run_ok k'" "kernel.more k' = kernel.more k" "idleproc k' = idleproc k" "zombies k' = zombies k"
      using schedule_life [OF b] by metis
    then show ?thesis using life_frame [OF inv] Ev_Schedule by auto
  next
    case (Ev_Wakeup p)
    have z: "p \<notin> zombies k" using ok Ev_Wakeup by (simp add: zombies_def)
    show ?thesis
    proof (rule wakeup_life [OF b l(1) [OF Ev_Wakeup] z])
      fix k' assume k': "wakeup_proc p k = Some k'" "base_ok k'" "woke {p} k k'" "kernel.more k' = kernel.more k"
      have "run_ok k'" using k'(2,3) run_okD(2) [OF r] by (auto simp: run_ok_def woke_def)
      then show ?thesis using life_frame [OF inv _ k'(4) woke_idle [OF k'(3)]] woke_zombies [OF k'(3)] z k'(1) Ev_Wakeup by simp
    qed
  next
    case Ev_Tick
    then show ?thesis using tick_life [OF inv] by simp
  next
    case Ev_Yield
    have "base_ok (do_yield k)"
      by (rule base_nudged(1) [OF b do_yield_inv [OF base_okD(1) [OF b]]]) (simp_all add: do_yield_def nudged_def)
    then show ?thesis using same [of "do_yield k"] Ev_Yield by (simp add: do_yield_def)
  next
    case (Ev_Awake t)
    have s: "set (timer_list (del_timer t k)) \<subseteq> set (timer_list k)" using set_remove1_subset [of t "timer_list k"] by (simp add: del_timer_def Let_def)
    have "base_ok (do_sleep_leave t k)"
      by (rule base_nudged(1) [OF b do_sleep_leave_inv [OF base_okD(1) [OF b]]]) (use s in \<open>simp_all add: do_sleep_leave_def nudged_def del_timer_frame\<close>)
    then show ?thesis using same [of "do_sleep_leave t k"] Ev_Awake by (simp add: do_sleep_leave_def del_timer_frame)
  next
    case (Ev_Sleep t n)
    then show ?thesis using do_sleep_life [OF inv l(2) [OF Ev_Sleep], of t n] ok by simp
  qed
qed

lemma unblock_life:
  assumes inv: "life_inv k" and w: "wait_in_queue w k \<Longrightarrow> wait_queue (waits k w) = q"
  shows "\<exists>k'. wait_current_del q w k = Some k' \<and> life_inv k'"
proof (cases "wait_in_queue w k")
  case False
  then show ?thesis using inv by (simp add: wait_current_del_def)
next
  case True
  let ?k = "upd_wq q (remove1 w) k"
  note b = run_okD(1) [OF life_invD(1) [OF inv]]
  have s: "set (wqs ?k r) \<subseteq> set (wqs k r)" for r using set_remove1_subset [of w "wqs k q"] by simp
  have e: "wait_kernel.more ?k = wait_kernel.more k" by simp
  note m = more_life [OF e]
  have l: "living ?k = living k" "zombies ?k = zombies k" by (simp_all add: living_def zombies_def m)
  have "wait_inv ?k" using base_okD(3) [OF b] set_remove1_subset [of w "wqs k q"] by (auto simp: wait_inv_def)
  moreover have "sched_inv ?k" by (rule sched_inv_frame [OF base_okD(2) [OF b]]) simp_all
  then have "kernel_inv ?k" by (rule kernel_inv_frame [OF base_okD(1) [OF b]]) (simp_all add: wakeable_def)
  moreover have "p \<in> living k - zombies k" if "v \<in> set (wqs ?k r)" "wproc (waits ?k v) = Some p" for r v p
    using base_okD(8) [OF b, of v r p] s [of r] that by auto
  ultimately have "base_ok ?k" using base_okD(4-7) [OF b] unfolding base_ok_def l by auto
  then have "run_ok ?k" using run_okD(2) [OF life_invD(1) [OF inv]] by (simp add: run_ok_def)
  moreover have "procs_ok ?k" by (rule procs_ok_frame(1) [OF life_invD(2) [OF inv] e]) (simp_all add: l)
  ultimately have "life_inv ?k" using life_invD [OF inv] by (simp add: life_inv_def l m)
  then show ?thesis using True w by (simp add: wait_current_del_def wait_queue_del_def)
qed

subsection \<open>Events\<close>

datatype life_event = L_Fork u32 fork_args | L_Exit int | L_Exit_Thread int | L_Kill int int | L_May_Killed | L_Wait int "bool option" bool
  | L_Wait_Resume int bool bool | L_Sched sched_event | L_Block wait_queue_t nat u32 | L_Unblock wait_queue_t nat

fun life_exec :: "life_event \<Rightarrow> life \<Rightarrow> life option" where
  "life_exec (L_Fork flags args) k = map_option snd (do_fork flags args k)"
| "life_exec (L_Exit code) k = do_exit code k"
| "life_exec (L_Exit_Thread code) k = do_exit_thread code k"
| "life_exec (L_Kill n code) k = map_option snd (do_kill n code k)"
| "life_exec L_May_Killed k = may_killed k"
| "life_exec (L_Wait n addr copied) k = map_option snd (do_wait n addr copied k)"
| "life_exec (L_Wait_Resume n store copied) k = map_option snd (do_wait_resume n store copied k)"
| "life_exec (L_Sched e) k = exec_event e k"
| "life_exec (L_Block q w ws) k = do { k \<leftarrow> wait_current_set q w ws k; schedule k }"
| "life_exec (L_Unblock q w) k = wait_current_del q w k"

text \<open>What the callers guarantee.  The allocators return unused addresses; a process exits when it has left all wait queues and timers, and neither the
  idle process nor \<open>initproc\<close> exits; the idle process does not block; a wakeup by another part of the kernel goes to a live process.\<close>

fun life_ok :: "life_event \<Rightarrow> life \<Rightarrow> bool" where
  "life_ok (L_Fork flags args) k = fork_args_ok args k"
| "life_ok (L_Exit code) k = can_exit k"
| "life_ok (L_Exit_Thread code) k = can_exit k"
| "life_ok (L_Kill n code) k = True"
| "life_ok L_May_Killed k = (exiting k (current k) \<longrightarrow> can_exit k)"
| "life_ok (L_Wait n addr copied) k = (current k \<noteq> idleproc k)"
| "life_ok (L_Wait_Resume n store copied) k = (current k \<noteq> idleproc k \<and> (exiting k (current k) \<longrightarrow> can_exit k))"
| "life_ok (L_Sched e) k = (event_ok e k \<and> (case e of Ev_Wakeup p \<Rightarrow> p \<in> living k | Ev_Sleep t n \<Rightarrow> current k \<noteq> idleproc k | _ \<Rightarrow> True))"
| "life_ok (L_Block q w ws) k = (current k \<noteq> idleproc k \<and> \<not> wait_in_queue w k \<and> may_block ws None k)"
| "life_ok (L_Unblock q w) k = (wait_in_queue w k \<longrightarrow> wait_queue (waits k w) = q)"

inductive life_reach :: "life \<Rightarrow> life \<Rightarrow> bool" for k0 where
  life_start: "life_reach k0 k0"
| life_step: "life_reach k0 k \<Longrightarrow> life_ok e k \<Longrightarrow> life_exec e k = Some k' \<Longrightarrow> life_reach k0 k'"

inductive_cases life_reachE: "life_reach k0 k"

lemma exited_life:
  assumes inv: "life_inv k" and c: "can_exit k" and k': "run_ok k'" "procs_ok k'" "exited k k'"
  shows "life_inv k'"
proof -
  note i = life_invD [OF inv]
  have "proc_list (tab k') = proc_list (tab k) \<or> initproc k' \<in> living k'" using k'(3) i(4) by (simp add: exited_def)
  moreover have "initproc k' \<noteq> idleproc k'" using k'(3) i(3) procs_okD(10) [OF i(2)] by (auto simp: exited_def)
  moreover have "initproc k \<notin> exit_wakes k \<or> state (desc (initproc k) k') = PROC_RUNNABLE" using k'(3) c by (auto simp: exited_def can_exit_def)
  ultimately have "initproc k' \<in> set (proc_list (tab k'))" using k'(3) i(4) by (auto simp: exited_def living_def)
  moreover have "initproc k' \<notin> zombies k'" using k'(3) i(5) c by (auto simp: exited_def zombies_def can_exit_def)
  ultimately show ?thesis using k'(1,2) by (simp add: life_inv_def)
qed

lemma exit_life:
  assumes inv: "life_inv k" and c: "can_exit k"
  shows "\<exists>k'. do_exit_current k = Some k' \<and> life_inv k'" "\<exists>k'. do_exit_thread code k = Some k' \<and> life_inv k'"
    "\<exists>k'. do_exit code k = Some k' \<and> life_inv k'"
proof -
  note i = life_invD [OF inv]
  have ex: "\<exists>k'. do_exit_current k = Some k' \<and> life_inv k'" if "life_inv k" "can_exit k" for k
    using do_exit_current_ok [OF life_invD(1,2) [OF that(1)] that(2) life_invD(4,5) [OF that(1)]] exited_life [OF that] by blast
  then show "\<exists>k'. do_exit_current k = Some k' \<and> life_inv k'" using inv c by blast
  have fl: "life_inv (k\<lparr>exit_code := x\<rparr>)" "can_exit (k\<lparr>exit_code := x\<rparr>) = can_exit k" if "life_inv k" for k x
    using flags_ok(3,4) [OF life_invD(1,2) [OF that]] that by (simp_all add: life_inv_def zombies_def can_exit_def)
  show "\<exists>k'. do_exit_thread code k = Some k' \<and> life_inv k'" unfolding do_exit_thread_def by (rule ex) (use fl inv c in simp_all)
  obtain k1 where k1: "kill_group (current k) (next_thread (current k) k) code k = Some k1" "run_ok k1" "procs_ok k1"
    "killed (threads (tg_next k) (current k) - {current k}) code k k1" using kill_group_ok [OF i(1,2)] by blast
  note kl = killed_life [OF k1(4)]
  have "life_inv k1" using k1(2-4) i kl by (auto simp: life_inv_def killed_def woke_def zombies_def)
  moreover have "can_exit k1" using c kl by (simp add: can_exit_def)
  ultimately show "\<exists>k'. do_exit code k = Some k' \<and> life_inv k'" unfolding do_exit_def k1(1) do_exit_thread_def using ex fl by auto
qed

lemma kill_life:
  assumes inv: "life_inv k"
  shows "\<exists>ret k'. do_kill n code k = Some (ret, k') \<and> life_inv k'"
proof (cases "find_proc n (tab k)")
  case None
  then show ?thesis using inv by (simp add: do_kill_def)
next
  case (Some p)
  note i = life_invD [OF inv]
  have p: "p \<in> living k" using Some find_proc_iff [OF procs_okD(1) [OF i(2)]] proc_list_living by blast
  obtain k' where k': "kill_proc p code k = Some (if exiting k p then - E_KILLED else 0, k')" "run_ok k'" "procs_ok k'" "killed {p} code k k'"
    using kill_proc_ok [OF i(1,2) p] by blast
  have "life_inv k'" using k'(2-4) i killed_life [OF k'(4)] by (auto simp: life_inv_def killed_def woke_def zombies_def)
  then show ?thesis using k'(1) Some by (simp add: do_kill_def)
qed

lemma wait_life:
  assumes inv: "life_inv k" and c: "current k \<noteq> idleproc k"
  shows "\<exists>res k'. wait_round n store copied k = Some (res, k') \<and> life_inv k' \<and> wait_outcome n store copied res k k'"
proof -
  note i = life_invD [OF inv]
  obtain res k' where k': "wait_round n store copied k = Some (res, k')" "run_ok k'" "procs_ok k'" "wait_outcome n store copied res k k'"
    using wait_round_ok [OF i(1,2) c i(5)] by blast
  have "initproc k' \<in> set (proc_list (tab k')) \<and> initproc k' \<notin> zombies k'"
  proof (cases res)
    case (Reaped p ret code)
    then have "reaped p k k'" "p \<in> zombies k" using k'(4) by (auto simp: wait_outcome_def)
    then show ?thesis using i(3,5) procs_okD(1) [OF i(2)] by (auto simp: reaped_def ids_ok_def zombies_def)
  next
    case (Returned ret)
    then show ?thesis using k'(4) i(3,5) by (simp add: wait_outcome_def)
  next
    case Sleeping
    then have s: "slept k k'" using k'(4) by (simp add: wait_outcome_def)
    then have m: "kernel.more k' = kernel.more k" by (simp add: slept_def)
    show ?thesis using i(3,5) s more_life [OF more_waits(3) [OF m]] by (cases "initproc k = current k") (auto simp: slept_def zombies_def)
  qed
  then show ?thesis using k' by (auto simp: life_inv_def)
qed

lemma fork_life:
  assumes inv: "life_inv k" and a: "fork_args_ok args k"
  shows "\<exists>ret k'. do_fork flags args k = Some (ret, k') \<and> life_inv k'"
proof (cases "fork_possible flags args k")
  case True
  note i = life_invD [OF inv]
  obtain p where p: "new_proc args = Some p" using True by (auto simp: fork_possible_def)
  obtain n k' where k': "do_fork flags args k = Some (n, k')" "run_ok k'" "procs_ok k'" "forked flags args p n k k'"
    using do_fork_ok [OF i(1,2) a True p] by blast
  have "p \<noteq> initproc k" using a p i(4) procs_okD(8) [OF i(2)] by (auto simp: fork_args_ok_def)
  moreover have "state (desc (initproc k) k') \<noteq> PROC_ZOMBIE"
    using k'(4) calculation i(5) run_okD(2) [OF k'(2)] by (cases "initproc k = current k") (auto simp: forked_def Let_def zombies_def)
  ultimately have "life_inv k'" using k' i(3) by (simp add: life_inv_def forked_def Let_def zombies_def)
  then show ?thesis using k'(1) by blast
next
  case False
  note i = life_invD [OF inv]
  obtain k' where k': "do_fork flags args k = Some (if nr_process (tab k) \<ge> MAX_PROCESS then - E_NO_FREE_PROC else - E_NO_MEM, k')" "run_ok k'" "procs_ok k'"
    "unforked (new_proc args) k k'" using do_fork_fails [OF i(1,2) a False] by blast
  have "new_proc args \<noteq> Some (initproc k)" using a i(4) procs_okD(8) [OF i(2)] by (auto simp: fork_args_ok_def)
  then have "life_inv k'" using k' i(3,5) by (auto simp: life_inv_def unforked_def zombies_def)
  then show ?thesis using k'(1) by blast
qed

lemma life_exec_ok:
  assumes inv: "life_inv k" and ok: "life_ok e k"
  shows "\<exists>k'. life_exec e k = Some k' \<and> life_inv k'"
proof (cases e)
  case (L_Fork flags args)
  then show ?thesis using fork_life [OF inv, of args flags] ok by auto
next
  case (L_Exit code)
  then show ?thesis using exit_life(3) [OF inv, of code] ok by simp
next
  case (L_Exit_Thread code)
  then show ?thesis using exit_life(2) [OF inv, of code] ok by simp
next
  case (L_Kill n code)
  then show ?thesis using kill_life [OF inv, of n code] by auto
next
  case L_May_Killed
  then show ?thesis using exit_life(1) [OF inv] inv ok by (simp add: may_killed_def)
next
  case (L_Wait n addr copied)
  then show ?thesis using wait_life [OF inv, of n "addr \<noteq> None" copied] ok inv by (auto simp: do_wait_def)
next
  case (L_Wait_Resume n store copied)
  then show ?thesis using wait_life [OF inv, of n store copied] exit_life(1) [OF inv] ok by (auto simp: do_wait_resume_def)
next
  case (L_Sched s)
  then show ?thesis using sched_life [OF inv, of s] ok by (auto split: sched_event.splits)
next
  case (L_Block q w ws)
  then show ?thesis using block_life [OF inv, of w ws q] ok by simp
next
  case (L_Unblock q w)
  then show ?thesis using unblock_life [OF inv, of w q] ok by simp
qed

lemma life_reach_inv: "life_reach k0 k \<Longrightarrow> life_inv k0 \<Longrightarrow> life_inv k"
  by (induction rule: life_reach.induct) (auto dest: life_exec_ok)

subsection \<open>Boot\<close>

text \<open>The kernel before \<open>proc_init\<close>: no process, no counts, nothing waits, and the static variables of \<open>get_pid\<close> have their initial values.\<close>

definition boot_life :: "life \<Rightarrow> bool" where
  "boot_life k \<longleftrightarrow> (\<forall>p. rq (desc p k) = None \<and> time_slice (desc p k) = 0 \<and> state (desc p k) \<noteq> PROC_RUNNABLE) \<and> (\<forall>q. wqs k q = []) \<and>
     nr_process (tab k) = 0 \<and> next_safe (tab k) = MAX_PID \<and> last_pid (tab k) = MAX_PID \<and>
     (\<forall>s. mm_count k s = 0 \<and> fs_count k s = 0 \<and> sem_count k s = 0) \<and> allocated k = {} \<and> kstacks k = {}"

lemma sched_init_more: "kernel.more (sched_init k) = kernel.more k"
proof -
  have "kernel.more (fold RR_init is k) = kernel.more k" for "is" and k :: "'a kernel_scheme"
    by (induction "is" arbitrary: k) (simp_all add: RR_init_def)
  then show ?thesis by (simp add: sched_init_def MLFQ_init_def)
qed

text \<open>The tables are empty when the idle process is set up.\<close>

definition idle_start :: "nat \<Rightarrow> nat \<Rightarrow> life \<Rightarrow> life" where
  "idle_start a s k = init_idle a s ((sched_init k)\<lparr>tab := (tab (sched_init k))\<lparr>proc_list := [], hash_list := (\<lambda>_. [])\<rparr>\<rparr>)"

lemma idle_fields:
  "current (idle_start a s k) = a" "idleproc (idle_start a s k) = a" "timer_list (idle_start a s k) = []" "wqs (idle_start a s k) = (wqs (sched_init k))(Event_wq a := [])"
  "rqs (idle_start a s k) = rqs (sched_init k)" "waits (idle_start a s k) = waits (sched_init k)"
  "kernel.procs (idle_start a s k) = (kernel.procs k)(a := \<lparr>state = PROC_RUNNABLE, runs = 0, need_resched = True, wait_state = 0, rq = None, time_slice = 0\<rparr>)"
  "proc_list (tab (idle_start a s k)) = []" "hash_list (tab (idle_start a s k)) = (\<lambda>_. [])" "nr_process (tab (idle_start a s k)) = nr_process (tab (sched_init k)) + 1"
  "next_safe (tab (idle_start a s k)) = next_safe (tab (sched_init k))" "last_pid (tab (idle_start a s k)) = last_pid (tab (sched_init k))"
  "links a (idle_start a s k) = \<lparr>pid = 0, parent = None, cptr = None, yptr = None, optr = None\<rparr>"
  "tg_next (idle_start a s k) a = a" "tg_prev (idle_start a s k) a = a" "mm_of (idle_start a s k) a = None" "fs_of (idle_start a s k) a = Some s" "sem_of (idle_start a s k) a = None"
  "mm_count (idle_start a s k) = mm_count (sched_init k)" "fs_count (idle_start a s k) = (fs_count (sched_init k))(s := 1)" "sem_count (idle_start a s k) = sem_count (sched_init k)"
  "allocated (idle_start a s k) = insert a (allocated (sched_init k))" "kstacks (idle_start a s k) = kstacks (sched_init k)"
  by (simp_all add: idle_start_def init_idle_def Let_def alloc_proc_def upd_links_def wait_queue_init_def Sched.upd_proc_def upd_wq_def sched_init_rqs)

lemma idle_ok:
  assumes b: "boot_life k"
  shows "run_ok (idle_start a s k)" "procs_ok (idle_start a s k)"
proof -
  let ?k = "idle_start a s k"
  note f = idle_fields [of a s k] and mw = more_waits [OF sched_init_more [of k]] and ml = more_life [OF more_waits(3) [OF sched_init_more [of k]]]
  have l: "living ?k = {a}" by (simp add: living_def f)
  have za: "a \<notin> zombies ?k" by (simp add: zombies_def f)
  let ?b = "k\<lparr>kernel.procs := kernel.procs ?k, current := a, idleproc := a\<rparr>"
  have bk: "boot_kernel ?b" using b by (simp add: boot_kernel_def boot_life_def f)
  have "sched_inv ?k"
    by (rule sched_inv_frame [of "sched_init ?b"]) (use sched_init_inv [OF bk] in \<open>simp_all add: kernel_inv_def sched_init_rqs f\<close>)
  then have "kernel_inv ?k" using f(3) by (simp add: kernel_inv_def timer_inv_def owners_ok_def due_def)
  moreover have w: "wqs ?k q = []" for q using b by (simp add: f mw boot_life_def)
  ultimately have "base_ok ?k" using b f(3) unfolding base_ok_def l by (auto simp: wait_inv_def f boot_life_def split: if_splits)
  then show "run_ok ?k" by (simp add: run_ok_def f)
  have "ids_ok (tab ?k)" using b f ml(1) by (simp add: ids_ok_def hash_inv_def hashed_def pid_inv_def pids_def boot_life_def)
  moreover have "tree_ok (tab ?k) {a} (zombies ?k)"
    using f(8,13) by (auto simp: tree_ok_def kids_def children_def intro!: exI [of _ "[]"])
  moreover have "group_ok (tg_next ?k) (tg_prev ?k) {a} (zombies ?k)" using f(14,15) by (simp add: group_ok_def)
  moreover have "shared_ok (mm_count ?k) (mm_of ?k) {a} (zombies ?k)" "shared_ok (sem_count ?k) (sem_of ?k) {a} (zombies ?k)"
  proof -
    have "{p \<in> {a} - zombies ?k. mm_of ?k p = Some r} = {}" "{p \<in> {a} - zombies ?k. sem_of ?k p = Some r} = {}" for r using f(16,18) by auto
    then show "shared_ok (mm_count ?k) (mm_of ?k) {a} (zombies ?k)" "shared_ok (sem_count ?k) (sem_of ?k) {a} (zombies ?k)"
      using b by (simp_all add: shared_ok_def f ml boot_life_def)
  qed
  moreover have "shared_ok (fs_count ?k) (fs_of ?k) {a} (zombies ?k)"
  proof -
    have "{p \<in> {a} - zombies ?k. fs_of ?k p = Some r} = (if r = s then {a} else {})" for r using f(17) za by auto
    then show ?thesis using b by (simp add: shared_ok_def f ml boot_life_def)
  qed
  ultimately show "procs_ok ?k" using f ml b unfolding procs_ok_def l by (simp add: boot_life_def)
qed

text \<open>What the allocations of \<open>proc_init\<close> must give: a descriptor, a table of open files, and for \<open>init_main\<close> a descriptor, a stack and a copy of the table.\<close>

definition boot_args :: "nat \<Rightarrow> nat \<Rightarrow> fork_args \<Rightarrow> bool" where
  "boot_args a s args \<longleftrightarrow> (\<exists>p. new_proc args = Some p \<and> p \<noteq> a) \<and> new_stack args \<and> (\<exists>t. new_fs args = Some t \<and> t \<noteq> s)"

lemma proc_init_ok:
  assumes b: "boot_life k" and a: "boot_args a s args"
  shows "\<exists>k'. proc_init (Some a) (Some s) args (sched_init k) = Some k' \<and> life_inv k' \<and> (\<forall>q. wqs k' q = [])"
proof -
  let ?k = "idle_start a s k"
  note f = idle_fields [of a s k] and io = idle_ok [OF b, of a s] and ml = more_life [OF more_waits(3) [OF sched_init_more [of k]]]
  obtain p t where p: "new_proc args = Some p" "p \<noteq> a" "new_stack args" "new_fs args = Some t" "t \<noteq> s" using a by (auto simp: boot_args_def)
  have ao: "fork_args_ok args ?k" using b p by (simp add: fork_args_ok_def fresh_def f ml boot_life_def)
  have fp: "fork_possible 0x100 args ?k" using b p f ml by (simp add: fork_possible_def can_copy_def boot_life_def)
  obtain n k' where k': "do_fork 0x100 args ?k = Some (n, k')" "run_ok k'" "procs_ok k'" "forked 0x100 args p n ?k k'"
    using do_fork_ok [OF io ao fp p(1)] by blast
  have fk: "map_option fst (get_pid (tab ?k)) = Some n" "find_proc n (tab k') = Some p" "proc_list (tab k') = p # proc_list (tab ?k)"
    "state (desc p k') = PROC_RUNNABLE" "pid (links p k') = n" "pid (links a k') = pid (links a ?k)" "idleproc k' = idleproc ?k"
    using k'(4) p(2) by (simp_all add: forked_def Let_def)
  have "get_pid (tab ?k) = Some (1, (tab ?k)\<lparr>last_pid := 1, next_safe := MAX_PID\<rparr>)"
    using b f ml(1) by (simp add: get_pid_def Let_def boot_life_def pids_def pid_repeat.simps)
  then have n: "n = 1" using fk(1) by simp
  let ?k' = "k'\<lparr>initproc := p\<rparr>"
  have "proc_init (Some a) (Some s) args (sched_init k) = Some ?k'"
    using k'(1) fk n f(2,13) by (simp add: proc_init_def kernel_thread_def idle_start_def [symmetric] Let_def)
  moreover have "base_ok ?k'" by (rule base_grow_same [OF run_okD(1) [OF k'(2)]]) (simp_all add: living_def)
  then have "run_ok ?k'" using run_okD(2) [OF k'(2)] by (simp add: run_ok_def)
  moreover have "procs_ok ?k'" using k'(3) by (simp add: procs_ok_def living_def zombies_def)
  moreover have "wqs ?k' q = []" for q using k'(4) b more_waits(2) [OF sched_init_more [of k]] by (simp add: forked_def Let_def f(4) boot_life_def)
  ultimately show ?thesis using fk(3,4) by (simp add: life_inv_def zombies_def)
qed

subsection \<open>A machine for the examples\<close>

text \<open>The idle process is 0 and \<open>init_main\<close> is 1; \<open>demo_args p\<close> are the allocations for the process \<open>p\<close>, whose table of open files has the number \<open>p\<close>, too.\<close>

definition demo_off :: life where
  "demo_off = \<lparr>kernel.procs = (\<lambda>_. \<lparr>state = PROC_UNINIT, runs = 0, need_resched = False, wait_state = 0, rq = None, time_slice = 0\<rparr>), current = 0, idleproc = 0, rqs = [],
     timers = (\<lambda>_. \<lparr>expires = 0, tproc = None\<rparr>), timer_list = [], waits = (\<lambda>_. \<lparr>wproc = None, wakeup_flags = 0, wait_queue = Sem_wq 0\<rparr>), wqs = (\<lambda>_. []),
     tab = \<lparr>ptable.procs = (\<lambda>_. \<lparr>pid = 0, parent = None, cptr = None, yptr = None, optr = None\<rparr>), proc_list = [], hash_list = (\<lambda>_. []), nr_process = 0, next_safe = MAX_PID,
       last_pid = MAX_PID\<rparr>,
     tg_next = id, tg_prev = id, exiting = (\<lambda>_. False), exit_code = (\<lambda>_. 0), initproc = 0, mm_of = (\<lambda>_. None), mm_count = (\<lambda>_. 0), fs_of = (\<lambda>_. None),
     fs_count = (\<lambda>_. 0), sem_of = (\<lambda>_. None), sem_count = (\<lambda>_. 0), allocated = {}, kstacks = {}\<rparr>"

definition demo_args :: "nat \<Rightarrow> fork_args" where
  "demo_args p = \<lparr>new_proc = Some p, new_stack = True, new_sem = None, new_fs = Some p, new_mm = None\<rparr>"

definition demo_boot_run :: "life option" where
  "demo_boot_run = do { k \<leftarrow> proc_init (Some 0) (Some 0) (demo_args 1) (sched_init demo_off); schedule k }"

lemma demo_off_boot: "boot_life demo_off" "boot_args 0 0 (demo_args 1)"
  by (simp_all add: boot_life_def demo_off_def boot_args_def demo_args_def)

text \<open>\<open>init_main\<close> runs.\<close>

lemma demo_boot_facts:
  "map_option (\<lambda>k. (current k, initproc k, idleproc k, proc_list (tab k), timer_list k, pid (links 1 k), next_thread 1 k, exiting k 1)) demo_boot_run =
     Some (1, 1, 0, [1], [], 1, 1, False)"
  "map_option (\<lambda>k. (nr_process (tab k), fs_of k 1, sem_of k 1, mm_of k 1, fs_count k 2, fs_count k 3)) demo_boot_run = Some (2, Some 1, None, None, 0, 0)"
  by code_simp+

lemma demo_boot_slice: "map_option (\<lambda>k. (time_slice (desc 1 k), max_time_slice (rqs k ! 0))) demo_boot_run = Some (8, 8)"
  by code_simp

lemma demo_boot_ok: "\<exists>k. demo_boot_run = Some k \<and> life_inv k \<and> (\<forall>q. wqs k q = [])"
proof -
  obtain k where k: "proc_init (Some 0) (Some 0) (demo_args 1) (sched_init demo_off) = Some k" "life_inv k" "\<And>q. wqs k q = []"
    using proc_init_ok [OF demo_off_boot] by blast
  obtain k' where k': "schedule k = Some k'" "run_ok k'" "kernel.more k' = kernel.more k" "idleproc k' = idleproc k" "zombies k' = zombies k"
    using schedule_life [OF run_okD(1) [OF life_invD(1) [OF k(2)]]] by metis
  then show ?thesis using k life_frame [OF k(2) k'(2-5)] more_waits(2) [OF k'(3)] by (simp add: demo_boot_run_def)
qed

text \<open>The allocations for a process are fresh when its number is.\<close>

lemma demo_args_ok:
  assumes "life_inv k" "fs_count k p = 0" "p \<notin> set (proc_list (tab k))" "p \<noteq> idleproc k"
  shows "fork_args_ok (demo_args p) k"
  using assms(2-4) procs_okD(8) [OF life_invD(2) [OF assms(1)]] by (auto simp: fork_args_ok_def demo_args_def fresh_def living_def)

lemma demo_fork:
  assumes "life_inv k" "\<And>q. wqs k q = []" "fs_count k p = 0" "p \<notin> set (proc_list (tab k))" "p \<noteq> idleproc k" "nr_process (tab k) < MAX_PROCESS"
    "mm_of k (current k) = None" "sem_of k (current k) = None"
  shows "\<exists>n k'. do_fork flags (demo_args p) k = Some (n, k') \<and> life_inv k' \<and> (\<forall>q. wqs k' q = [])"
proof -
  have a: "fork_args_ok (demo_args p) k" using demo_args_ok assms(1,3,4,5) by blast
  have f: "fork_possible flags (demo_args p) k" using assms(6-8) by (simp add: fork_possible_def demo_args_def can_copy_def)
  obtain n k' where k': "do_fork flags (demo_args p) k = Some (n, k')" "forked flags (demo_args p) p n k k'"
    using do_fork_ok [OF life_invD(1,2) [OF assms(1)] a f, of p] by (auto simp: demo_args_def)
  have "life_inv k'" using fork_life [OF assms(1) a, of flags] k'(1) by simp
  then show ?thesis using k' assms(2) by (auto simp: forked_def Let_def)
qed

text \<open>\<open>init_main\<close> makes the process 2 and waits for it; 2 runs.\<close>

definition demo_child_run :: "life option" where
  "demo_child_run = do { k \<leftarrow> demo_boot_run; (n, k) \<leftarrow> do_fork 0 (demo_args 2) k; (res, k) \<leftarrow> do_wait 0 None True k; Some k }"

text \<open>The process 2 makes the thread 3.\<close>

definition demo_thread_run :: "life option" where
  "demo_thread_run = do { k \<leftarrow> demo_child_run; (n, k) \<leftarrow> do_fork 0x200 (demo_args 3) k; Some k }"

text \<open>The process 2 exits, and \<open>init_main\<close> runs again.\<close>

definition demo_exit_run :: "life option" where
  "demo_exit_run = do { k \<leftarrow> demo_child_run; do_exit 7 k }"

lemma demo_child_facts:
  "map_option (\<lambda>k. (current k, initproc k, idleproc k, proc_list (tab k), timer_list k, nr_process (tab k))) demo_child_run = Some (2, 1, 0, [2, 1], [], 3)"
  "map_option (\<lambda>k. (parent (links 2 k), wait_state (desc 1 k) = WT_CHILD, fs_of k 2, sem_of k 2, mm_of k 2, fs_count k 3, pid (links 2 k))) demo_child_run =
     Some (Some 1, True, Some 2, None, None, 0, 2)"
  by code_simp+

lemma demo_thread_facts:
  "map_option (\<lambda>k. (current k, initproc k, idleproc k, proc_list (tab k), timer_list k)) demo_thread_run = Some (2, 1, 0, [3, 2, 1], [])"
  "map_option (\<lambda>k. (parent (links 1 k), parent (links 2 k), parent (links 3 k), tg_next k 2, tg_next k 3, tg_prev k 2)) demo_thread_run =
     Some (Some 0, Some 1, Some 2, 3, 2, 3)"
  by code_simp+

lemma demo_exit_facts:
  "map_option (\<lambda>k. (current k, idleproc k, proc_list (tab k), state (desc 2 k), exit_code k 2, parent (links 2 k), tg_next k 1)) demo_exit_run =
     Some (1, 0, [2, 1], PROC_ZOMBIE, 7, Some 1, 1)"
  by code_simp+

lemma demo_child_ok: "\<exists>k. demo_child_run = Some k \<and> life_inv k \<and> can_exit k"
proof -
  obtain k1 where k1: "demo_boot_run = Some k1" "life_inv k1" "\<And>q. wqs k1 q = []" using demo_boot_ok by blast
  have f1: "current k1 = 1" "idleproc k1 = 0" "proc_list (tab k1) = [1]" "nr_process (tab k1) = 2" "sem_of k1 1 = None" "mm_of k1 1 = None" "fs_count k1 2 = 0"
    using demo_boot_facts [unfolded k1(1)] by simp_all
  obtain n k2 where k2: "do_fork 0 (demo_args 2) k1 = Some (n, k2)" "life_inv k2" "\<And>q. wqs k2 q = []"
    using demo_fork [OF k1(2,3), of 2 0] f1 by auto
  have c2: "map_option (\<lambda>k. (current k, idleproc k)) (do { k \<leftarrow> demo_boot_run; (n, k) \<leftarrow> do_fork 0 (demo_args 2) k; Some k }) = Some (1, 0)" by code_simp
  have "current k2 \<noteq> idleproc k2" using c2 [unfolded k1(1)] k2(1) by simp
  then obtain res k3 where k3: "wait_round 0 False True k2 = Some (res, k3)" "life_inv k3" "wait_outcome 0 False True res k2 k3"
    using wait_life [OF k2(2)] by blast
  have r: "demo_child_run = Some k3" unfolding demo_child_run_def k1(1) using k2(1) k3(1) by (simp add: do_wait_def)
  have "wqs k3 q = []" for q
  proof (cases res)
    case Sleeping
    then have m: "kernel.more k3 = kernel.more k2" using k3(3) by (simp add: wait_outcome_def slept_def)
    show ?thesis using more_waits(2) [OF m] k2(3) by simp
  next
    case (Returned ret)
    then show ?thesis using k3(3) k2(3) by (simp add: wait_outcome_def)
  next
    case (Reaped p ret code)
    then have "reaped p k2 k3" using k3(3) by (auto simp: wait_outcome_def)
    then have "current k3 = current k2" by (simp add: reaped_def)
    then show ?thesis using demo_child_facts(1) [unfolded r] c2 [unfolded k1(1)] k2(1) by simp
  qed
  then have "can_exit k3" using demo_child_facts(1) [unfolded r] by (simp add: can_exit_def)
  then show ?thesis using r k3(2) by blast
qed

lemma demo_thread_ok: "\<exists>k. demo_thread_run = Some k \<and> life_inv k \<and> can_exit k"
proof -
  obtain k where k: "demo_child_run = Some k" "life_inv k" "can_exit k" using demo_child_ok by blast
  have f: "current k = 2" "idleproc k = 0" "initproc k = 1" "proc_list (tab k) = [2, 1]" "nr_process (tab k) = 3" "sem_of k 2 = None" "mm_of k 2 = None" "fs_count k 3 = 0" "timer_list k = []"
    using demo_child_facts [unfolded k(1)] by simp_all
  have a: "fork_args_ok (demo_args 3) k" using demo_args_ok [OF k(2)] f by simp
  have p: "fork_possible 0x200 (demo_args 3) k" using f by (simp add: fork_possible_def demo_args_def can_copy_def)
  obtain n k' where k': "do_fork 0x200 (demo_args 3) k = Some (n, k')" "forked 0x200 (demo_args 3) 3 n k k'"
    using do_fork_ok [OF life_invD(1,2) [OF k(2)] a p, of 3] by (auto simp: demo_args_def)
  have "life_inv k'" using fork_life [OF k(2) a, of "0x200"] k'(1) by simp
  moreover have "can_exit k'" using k'(2) k(3) by (auto simp: can_exit_def forked_def Let_def)
  ultimately show ?thesis unfolding demo_thread_run_def k(1) using k'(1) by simp
qed

lemma demo_exit_ok: "\<exists>k. demo_exit_run = Some k \<and> life_inv k"
proof -
  obtain k where k: "demo_child_run = Some k" "life_inv k" "can_exit k" using demo_child_ok by blast
  then show ?thesis using exit_life(3) [OF k(2,3), of 7] unfolding demo_exit_run_def k(1) by simp
qed

subsection \<open>The properties of processes\<close>

text \<open>C1: From boot, every state that forks, exits, kills, waits, blocking, ticks, wakeups and switches can reach has the invariant: the processes in the table
  have numbers of their own and are found by them, every process is a child of exactly one live process, the thread groups are rings, the counts of shared
  address spaces, tables of open files and undo records are the numbers of live users, exactly the runnable processes are queued, and zombies are neither
  run nor woken.  No call that may be made then fails an assertion, frees something twice or fails to return.\<close>

theorem process_life_safe:
  assumes "boot_life k" "boot_args a s args" "proc_init (Some a) (Some s) args (sched_init k) = Some k0" "life_reach k0 k1"
  shows "life_inv k1 \<and> (\<forall>e. life_ok e k1 \<longrightarrow> (\<exists>k2. life_exec e k1 = Some k2))"
proof -
  have "life_inv k0" using proc_init_ok [OF assms(1,2)] assms(3) by auto
  then have "life_inv k1" by (rule life_reach_inv [OF assms(4)])
  then show ?thesis using life_exec_ok by blast
qed

theorem process_life_safe_witness:
  "\<exists>k0 k1 k2. proc_init (Some 0) (Some 0) (demo_args 1) (sched_init demo_off) = Some k0 \<and> life_reach k0 k1 \<and> current k1 = 1 \<and>
     life_exec (L_Fork 0 (demo_args 2)) k1 = Some k2 \<and> life_inv k1"
proof -
  obtain k0 where k0: "proc_init (Some 0) (Some 0) (demo_args 1) (sched_init demo_off) = Some k0" "life_inv k0" using proc_init_ok [OF demo_off_boot] by blast
  obtain k1 where k1: "demo_boot_run = Some k1" using demo_boot_ok by blast
  have "schedule k0 = Some k1" using k1 k0(1) by (simp add: demo_boot_run_def)
  then have r: "life_reach k0 k1" by (intro life_step [OF life_start, of "L_Sched Ev_Schedule"]) simp_all
  note safe = process_life_safe [OF demo_off_boot k0(1) r]
  have f: "current k1 = 1" "idleproc k1 = 0" "proc_list (tab k1) = [1]" "fs_count k1 2 = 0" using demo_boot_facts [unfolded k1] by simp_all
  have "life_ok (L_Fork 0 (demo_args 2)) k1" using demo_args_ok [of k1 2] safe f by simp
  then show ?thesis using safe k0(1) r f(1) by blast
qed

text \<open>C9: \<open>do_fork\<close> never panics and keeps the invariant.  When the table is full or an allocation fails it reports \<^verbatim>\<open>-E_NO_FREE_PROC\<close> or
  \<^verbatim>\<open>-E_NO_MEM\<close>, and table, counts, descriptors in use, stacks and run queues are as before; half of the time slice of the running process, which
  it takes before the other allocations, is lost when one of these fails.  Otherwise it returns a number that no process had, by which
  the new process and no other is found; the process is the youngest child of its parent, in its thread group with \<^verbatim>\<open>CLONE_THREAD\<close> and alone
  without, runnable and last in the first run queue, with half of the time slice of the parent (as that queue limits it), which the parent loses, and it
  shares or owns each object as the flags say, each of which counts it.\<close>

theorem do_fork_correct:
  assumes "life_inv k" "fork_args_ok args k"
  shows "\<exists>n k'. do_fork flags args k = Some (n, k') \<and> life_inv k' \<and>
    (if fork_possible flags args k then \<exists>p. new_proc args = Some p \<and> forked flags args p n k k'
     else n = (if nr_process (tab k) \<ge> MAX_PROCESS then - E_NO_FREE_PROC else - E_NO_MEM) \<and> unforked (new_proc args) k k')"
proof (cases "fork_possible flags args k")
  case True
  then obtain p where p: "new_proc args = Some p" by (auto simp: fork_possible_def)
  show ?thesis using do_fork_ok [OF life_invD(1,2) [OF assms(1)] assms(2) True p] fork_life [OF assms, of flags] True p by auto
next
  case False
  then show ?thesis using do_fork_fails [OF life_invD(1,2) [OF assms(1)] assms(2) False] fork_life [OF assms, of flags] by auto
qed

theorem do_fork_correct_witness:
  "\<exists>k n k'. demo_boot_run = Some k \<and> do_fork 0 (demo_args 2) k = Some (n, k') \<and> find_proc n (tab k) = None \<and> find_proc n (tab k') = Some 2 \<and>
     parent (links 2 k') = Some 1 \<and> state (desc 2 k') = PROC_RUNNABLE \<and>
     time_slice (desc 1 k) = 8 \<and> time_slice (desc 1 k') = 4 \<and> time_slice (desc 2 k') = 4 \<and> life_inv k'"
proof -
  obtain k where k: "demo_boot_run = Some k" "life_inv k" using demo_boot_ok by blast
  have f: "current k = 1" "idleproc k = 0" "proc_list (tab k) = [1]" "nr_process (tab k) = 2" "fs_count k 2 = 0" "sem_of k 1 = None" "mm_of k 1 = None"
    using demo_boot_facts [unfolded k(1)] by simp_all
  have a: "fork_args_ok (demo_args 2) k" using demo_args_ok [OF k(2)] f by simp
  have p: "fork_possible 0 (demo_args 2) k" using f by (simp add: fork_possible_def demo_args_def can_copy_def)
  have ts: "time_slice (desc 1 k) = 8" "max_time_slice (rqs k ! 0) = 8" using demo_boot_slice [unfolded k(1)] by simp_all
  show ?thesis using do_fork_correct [OF k(2) a, of 0] p k(1) f(1) ts by (auto simp: demo_args_def forked_def Let_def first_slice_def)
qed

text \<open>C8: \<open>do_exit\<close> marks the other threads of the group as killed, wakes those that can be woken, and makes the process a zombie: it never panics and keeps the
  invariant; the counts of its objects drop by one; its children go to the next thread, or to \<open>initproc\<close> when there is none; exactly the threads of its
  parent that wait for a child, the new parent of a zombie when it waits, and those who wait for the process to receive an event are woken; the
  process can still be found by its number.\<close>

theorem do_exit_correct:
  assumes "life_inv k" "can_exit k"
  shows "\<exists>k1 k'. do_exit code k = Some k' \<and> life_inv k' \<and> killed (threads (tg_next k) (current k) - {current k}) code k k1 \<and>
    exited (k1\<lparr>exit_code := (exit_code k1)(current k := code)\<rparr>) k'"
  using do_exit_ok [OF life_invD(1,2) [OF assms(1)] assms(2) life_invD(4,5) [OF assms(1)], of code] exit_life(3) [OF assms, of code] by auto

theorem do_exit_correct_witness:
  "\<exists>k k'. demo_child_run = Some k \<and> current k = 2 \<and> do_exit 7 k = Some k' \<and> state (desc 2 k') = PROC_ZOMBIE \<and> exit_code k' 2 = 7 \<and> life_inv k'"
proof -
  obtain k where k: "demo_child_run = Some k" "life_inv k" "can_exit k" using demo_child_ok by blast
  have c: "current k = 2" using demo_child_facts(1) [unfolded k(1)] by simp
  obtain k1 k' where k': "do_exit 7 k = Some k'" "life_inv k'" "killed (threads (tg_next k) (current k) - {current k}) 7 k k1"
    "exited (k1\<lparr>exit_code := (exit_code k1)(current k := 7)\<rparr>) k'" using do_exit_correct [OF k(2,3), of 7] by blast
  have "current k1 = 2" using killed_life(4) [OF k'(3)] c by simp
  then have "state (desc 2 k') = PROC_ZOMBIE" "exit_code k' 2 = 7" using k'(4) c by (simp_all add: exited_def)
  then show ?thesis using k(1) c k'(1,2) by blast
qed

text \<open>C10: \<open>do_wait\<close> never panics, ends its search and keeps the invariant.  It returns \<^verbatim>\<open>-E_BAD_PROC\<close> exactly when no thread of the group has such a child; it
  sleeps when there are such children but none is a zombie; and otherwise it takes a zombie among them out of the table, frees its descriptor and stack,
  stores its exit code when there is a place for it, and its number can be used again.  A bad address is refused before anything happens.\<close>

theorem do_wait_correct:
  assumes "life_inv k" "current k \<noteq> idleproc k"
  shows "\<exists>res k'. do_wait n addr copied k = Some (res, k') \<and> life_inv k' \<and>
    (if addr = Some False then res = Returned (- E_INVAL) \<and> k' = k else wait_outcome n (addr \<noteq> None) copied res k k')"
  using wait_life [OF assms, of n "addr \<noteq> None" copied] assms(1) by (auto simp: do_wait_def)

theorem do_wait_correct_witness:
  "\<exists>k k'. demo_exit_run = Some k \<and> do_wait 0 (Some True) True k = Some (Reaped 2 0 (Some 7), k') \<and> living k' = living k - {2} \<and> life_inv k'"
proof -
  obtain k where k: "demo_exit_run = Some k" "life_inv k" using demo_exit_ok by blast
  have f: "current k = 1" "idleproc k = 0" "proc_list (tab k) = [2, 1]" "state (desc 2 k) = PROC_ZOMBIE" "exit_code k 2 = 7" "parent (links 2 k) = Some 1" "tg_next k 1 = 1"
    using demo_exit_facts [unfolded k(1)] by simp_all
  have c: "current k \<noteq> idleproc k" using f by simp
  obtain res k' where k': "do_wait 0 (Some True) True k = Some (res, k')" "life_inv k'" "wait_outcome 0 True True res k k'"
    using do_wait_correct [OF k(2) c, of 0 "Some True" True] by auto
  have th: "threads (tg_next k) 1 = {1}" using group_cycle_set [of 1 "tg_next k" 1] f(7) by (simp add: lessThan_Suc)
  have "2 \<in> wait_set 0 k" "2 \<in> zombies k" using f by (simp_all add: wait_set_def group_kids_def th [simplified] kids_def zombies_def)
  then obtain p ret c' where res: "res = Reaped p ret c'" using k'(3) by (cases res) (auto simp: wait_outcome_def)
  have "p = 2"
  proof -
    have "p \<in> set (proc_list (tab k))" "p \<in> zombies k" using k'(3) res by (auto simp: wait_outcome_def wait_set_def group_kids_def kids_def)
    then show ?thesis using f(1,3) run_okD(4) [OF life_invD(1) [OF k(2)]] by auto
  qed
  then show ?thesis using k' res k(1) f(5) by (auto simp: wait_outcome_def reaped_def)
qed

text \<open>C11: No wakeup is lost between \<open>do_wait\<close> and exit: when a process exits while its parent sleeps waiting for a child, the parent becomes runnable, and its search will
  find the process, which is a zombie then and among the children of the group.\<close>

theorem exit_wakes_waiting_parent:
  assumes inv: "life_inv k" and c: "can_exit k" and q: "parent (links (current k) k) = Some q" "wait_state (desc q k) = WT_CHILD"
  shows "\<exists>k'. do_exit_thread code k = Some k' \<and> state (desc q k') = PROC_RUNNABLE \<and> current k \<in> group_kids (threads (tg_next k') q) (tab k') \<inter> zombies k'"
proof -
  let ?k = "k\<lparr>exit_code := (exit_code k)(current k := code)\<rparr>"
  note i = life_invD [OF inv] and f = flags_ok(3,4) [OF i(1,2), of "(exit_code k)(current k := code)"]
  have l: "living ?k = living k" "zombies ?k = zombies k" by (simp_all add: living_def zombies_def)
  have "\<exists>k'. do_exit_current ?k = Some k' \<and> run_ok k' \<and> procs_ok k' \<and> exited ?k k'"
    by (rule do_exit_current_ok [OF f]) (use c i(4,5) l in \<open>simp_all add: can_exit_def\<close>)
  then obtain k' where k': "do_exit_current ?k = Some k'" "exited ?k k'" by blast
  have qc: "q \<noteq> current k" using q(2) run_okD(5) [OF i(1)] by auto
  have q0: "q \<in> threads nx q" for nx unfolding threads_def by (rule CollectI, rule exI [of _ 0]) simp
  then have "q \<in> exit_wakes ?k" using q by (simp add: exit_wakes_def child_waiters_def)
  then have "state (desc q k') = PROC_RUNNABLE" using k'(2) qc by (simp add: exited_def)
  moreover have "current k \<in> kids (tab k) q"
    using run_okD(3) [OF i(1)] q(1) c by (simp add: kids_def living_def can_exit_def)
  then have "current k \<in> kids (tab k') q" using k'(2) qc by (auto simp: exited_def)
  moreover have "current k \<in> zombies k'" using k'(2) by (simp add: exited_def zombies_def)
  ultimately show ?thesis using k'(1) q0 by (auto simp: do_exit_thread_def group_kids_def)
qed

theorem exit_wakes_waiting_parent_witness:
  "\<exists>k k'. demo_child_run = Some k \<and> wait_state (desc 1 k) = WT_CHILD \<and> do_exit_thread 7 k = Some k' \<and> state (desc 1 k') = PROC_RUNNABLE \<and>
     2 \<in> group_kids (threads (tg_next k') 1) (tab k') \<inter> zombies k'"
proof -
  obtain k where k: "demo_child_run = Some k" "life_inv k" "can_exit k" using demo_child_ok by blast
  have f: "current k = 2" "parent (links 2 k) = Some 1" "wait_state (desc 1 k) = WT_CHILD" using demo_child_facts [unfolded k(1)] by simp_all
  have "parent (links (current k) k) = Some 1" using f by simp
  from exit_wakes_waiting_parent [OF k(2,3) this f(3), of 7] show ?thesis using k(1) f by auto
qed

text \<open>C37: Nothing keeps \<open>initproc\<close> from being killed: \<open>do_kill\<close> with its number marks it like any process, and as soon as it comes back from a wait or is about to
  leave the kernel it exits, which stops the kernel.\<close>

theorem kill_init_panics:
  assumes inv: "life_inv k" and e: "\<not> exiting k (initproc k)"
  shows "\<exists>k'. do_kill (pid (links (initproc k) k)) code k = Some (0, k') \<and> life_inv k' \<and> exiting k' (initproc k') \<and>
    (\<forall>k2. current k2 = initproc k2 \<and> exiting k2 (initproc k2) \<longrightarrow> may_killed k2 = None \<and> do_wait_resume n store copied k2 = None)"
proof -
  note i = life_invD [OF inv]
  have fp: "find_proc (pid (links (initproc k) k)) (tab k) = Some (initproc k)" using find_proc_iff [OF procs_okD(1) [OF i(2)]] i(3) by simp
  obtain k' where k': "do_kill (pid (links (initproc k) k)) code k = Some (0, k')" "killed {initproc k} code k k'"
    using kill_proc_ok [OF i(1,2,4), of code] e fp by (auto simp: do_kill_def)
  moreover have "life_inv k'" using kill_life [OF inv, of "pid (links (initproc k) k)" code] k'(1) by auto
  moreover have "exiting k' (initproc k')" using k'(2) killed_life(3) [OF k'(2)] by (simp add: killed_def)
  moreover have "may_killed k2 = None \<and> do_wait_resume n store copied k2 = None" if "current k2 = initproc k2" "exiting k2 (initproc k2)" for k2
    using that by (simp add: may_killed_def do_wait_resume_def do_exit_current_def)
  ultimately show ?thesis by blast
qed

theorem kill_init_panics_witness:
  "\<exists>k k'. demo_boot_run = Some k \<and> current k = 1 \<and> do_kill 1 9 k = Some (0, k') \<and> exiting k' 1 \<and> may_killed k' = None"
proof -
  obtain k where k: "demo_boot_run = Some k" "life_inv k" using demo_boot_ok by blast
  have f: "current k = 1" "initproc k = 1" "pid (links 1 k) = 1" "\<not> exiting k 1" using demo_boot_facts(1) [unfolded k(1)] by simp_all
  obtain k' where k': "do_kill 1 9 k = Some (0, k')" "life_inv k'" "exiting k' (initproc k')" "current k' = initproc k' \<longrightarrow> may_killed k' = None"
    using kill_init_panics [OF k(2), of 9 0 False False] f by auto
  have "map_option (\<lambda>k. (current k, initproc k)) (do { k \<leftarrow> demo_boot_run; (r, k) \<leftarrow> do_kill 1 9 k; Some k }) = Some (1, 1)" by code_simp
  then have "current k' = 1" "initproc k' = 1" unfolding k(1) using k'(1) by simp_all
  then show ?thesis using k(1) f k' by auto
qed

text \<open>C38: A thread is a child of the thread that made it, and gets the children of that thread when it exits: it becomes its own child.  A process with one
  such thread and no other child, whose first thread exits by \<open>do_exit_thread\<close>, then sleeps in \<open>do_wait\<close> for any child instead of
  being told that it has none.\<close>

theorem thread_waits_for_itself:
  assumes inv: "life_inv k" and c: "can_exit k" and h: "next_thread (current k) k = h" "h \<noteq> current k" "next_thread h k = current k"
    and kd: "kids (tab k) (current k) = {h}" "kids (tab k) h = {}"
  shows "\<exists>k'. do_exit_thread code k = Some k' \<and> life_inv k' \<and> kids (tab k') h = {h} \<and>
    (\<forall>k2. life_inv k2 \<and> current k2 = h \<and> tab k2 = tab k' \<and> tg_next k2 = tg_next k' \<longrightarrow> (\<exists>k3. do_wait 0 None copied k2 = Some (Sleeping, k3)))"
proof -
  let ?k = "k\<lparr>exit_code := (exit_code k)(current k := code)\<rparr>"
  note i = life_invD [OF inv] and f = flags_ok(3,4) [OF i(1,2), of "(exit_code k)(current k := code)"]
  have l: "living ?k = living k" "zombies ?k = zombies k" by (simp_all add: living_def zombies_def)
  have "\<exists>k'. do_exit_current ?k = Some k' \<and> run_ok k' \<and> procs_ok k' \<and> exited ?k k'"
    by (rule do_exit_current_ok [OF f]) (use c i(4,5) l in \<open>simp_all add: can_exit_def\<close>)
  then obtain k' where k': "do_exit_current ?k = Some k'" "exited ?k k'" by blast
  have ex: "do_exit_thread code k = Some k'" using k'(1) by (simp add: do_exit_thread_def)
  have iv: "life_inv k'" using exit_life(2) [OF inv c, of code] ex by simp
  have hr: "heir ?k = h" using h by (simp add: heir_def next_thread_def)
  have kh: "kids (tab k') h = {h}" using k'(2) h(2) kd hr by (simp add: exited_def)
  have hl: "h \<in> living k" using kd(1) by (auto simp: kids_def living_def)
  have "tg_prev k (current k) = h" using group_okD(3) [OF procs_okD(3) [OF i(2)] hl] h(3) by (simp add: next_thread_def)
  then have nh: "tg_next k' h = h" using k'(2) h by (simp add: exited_def de_thread_def next_thread_def Let_def)
  have th: "threads (tg_next k') h = {h}" using group_cycle_set [of 1 "tg_next k'" h] nh by (simp add: lessThan_Suc)
  have "\<exists>k3. do_wait 0 None copied k2 = Some (Sleeping, k3)"
    if k2: "life_inv k2" "current k2 = h" "tab k2 = tab k'" "tg_next k2 = tg_next k'" for k2
  proof -
    have hP: "h \<in> set (proc_list (tab k2))" using kh k2(3) by (auto simp: kids_def)
    have "current k2 \<noteq> idleproc k2" using procs_okD(10) [OF life_invD(2) [OF k2(1)]] hP k2(2) by auto
    then obtain res k3 where k3: "wait_round 0 False copied k2 = Some (res, k3)" "wait_outcome 0 False copied res k2 k3" using wait_life [OF k2(1)] by blast
    have ws: "wait_set 0 k2 = {h}" using th kh k2 by (simp add: wait_set_def group_kids_def)
    have "h \<notin> zombies k2" using run_okD(4) [OF life_invD(1) [OF k2(1)]] k2(2) by simp
    then have "res = Sleeping" using k3(2) ws by (cases res) (auto simp: wait_outcome_def)
    then show ?thesis using k3(1) by (simp add: do_wait_def)
  qed
  then show ?thesis using ex iv kh by blast
qed

theorem thread_waits_for_itself_witness:
  "\<exists>k k'. demo_thread_run = Some k \<and> do_exit_thread 0 k = Some k' \<and> parent (links 3 k') = Some 3 \<and> life_inv k'"
proof -
  obtain k where k: "demo_thread_run = Some k" "life_inv k" "can_exit k" using demo_thread_ok by blast
  have f: "current k = 2" "proc_list (tab k) = [3, 2, 1]" "parent (links 1 k) = Some 0" "parent (links 2 k) = Some 1" "parent (links 3 k) = Some 2" "tg_next k 2 = 3" "tg_next k 3 = 2"
    using demo_thread_facts [unfolded k(1)] by simp_all
  have kd: "kids (tab k) (current k) = {3}" "kids (tab k) 3 = {}" using f by (auto simp: kids_def)
  have n: "next_thread (current k) k = 3" "3 \<noteq> current k" "next_thread 3 k = current k" using f by (simp_all add: next_thread_def)
  obtain k' where k': "do_exit_thread 0 k = Some k'" "life_inv k'" "kids (tab k') 3 = {3}" using thread_waits_for_itself [OF k(2,3) n kd, of 0 True] by blast
  have "3 \<in> kids (tab k') 3" using k'(3) by simp
  then have "parent (links 3 k') = Some 3" by (simp add: kids_def)
  then show ?thesis using k(1) k' by blast
qed

end
