(* ===== verification/Spec2Isabelle.thy ===== *)
theory Spec2Isabelle
  imports Link_List Bitmap Buddy Sched Event Mbox Vmm_Access Proc Fs_Table Pipe_Io Page_Inv Proc_Run
begin

text \<open>
  A verification development for the \<^verbatim>\<open>ucore\<close> teaching kernel (\<^verbatim>\<open>src/code/kern\<close> and \<^verbatim>\<open>src/code/libs\<close>).

  \<^bold>\<open>The program.\<close>  The kernel has a physical page allocator (\<^verbatim>\<open>mm/buddy_pmm.c\<close>), address spaces made of areas kept in a list and
  in a red-black tree (\<^verbatim>\<open>mm/vmm.c\<close>, \<^verbatim>\<open>kern/libs/rb_tree.c\<close>), page tables (\<^verbatim>\<open>mm/pmm.c\<close>), a swap cache that moves pages between memory and a
  device (\<^verbatim>\<open>mm/swap.c\<close>), processes with their table, family tree and thread groups (\<^verbatim>\<open>process/proc.c\<close>), a scheduler with two classes and a list of timers (\<^verbatim>\<open>schedule\<close>), wait queues and on top
  of them semaphores, events and mailboxes (\<^verbatim>\<open>sync\<close>), and a file layer: open files (\<^verbatim>\<open>fs/file.c\<close>, \<^verbatim>\<open>fs/fs.c\<close>) over inodes with
  operation tables (\<^verbatim>\<open>fs/vfs\<close>), one file system of which, named pipes (\<^verbatim>\<open>fs/pipe\<close>), is modelled completely.

  \<^bold>\<open>Conventions.\<close>  A record of the state is passed through the operations.  A kernel panic, a failing assertion and a call that
  never returns (a deadlock on a lock the caller holds) are the value \<^const>\<open>None\<close>; error codes are integers as in the code.
  Fields of width 16 and 32 are words and wrap around.  Interrupts are off in the sections the code protects, so a section is one
  step; an operation that can block is split at the point where the process sleeps, into a part before and one after it.  Results of
  memory allocation and the checks of user memory are arguments where the component only tests them.  Loops are structural or have a
  measure; where the code can loop on its data (following links, retrying) the function takes fuel or is a partial function, and
  a lemma shows that the fuel is enough or that the call returns.

  \<^bold>\<open>Theories.\<close>
  \<^item> \<open>Ucore_Prelude\<close>: assertions in the option monad, lemmas on lists and words that several components share.
  \<^item> \<open>Link_List\<close> (\<^verbatim>\<open>libs/list.h\<close>): circular lists at the level of the fields \<^verbatim>\<open>prev\<close> and \<^verbatim>\<open>next\<close>, refined to sequences, an interface
    that the components above use as lists.
  \<^item> \<open>Cstring\<close> (\<^verbatim>\<open>libs/string.c\<close>, \<^verbatim>\<open>libs/x86.h\<close>): strings and memory blocks over a byte heap; overlapping copies are correct.
  \<^item> \<open>Bitmap\<close> (\<^verbatim>\<open>fs/sfs/bitmap.c\<close>): the free-block bitmap; \<open>Buddy\<close> (\<^verbatim>\<open>mm/buddy_pmm.c\<close>): the buddy allocator.  Both implement a locale of
    an abstract set of free units.  Invariants, exactness of allocation and release, absence of panics.
  \<^item> \<open>Rb_Tree\<close> (\<^verbatim>\<open>kern/libs/rb_tree.c\<close>): trees with the parent pointers as paths; insertion and deletion restore colour and height invariants.
  \<^item> \<open>Vmm\<close>, \<open>Vmm_Unmap\<close>, \<open>Vmm_Access\<close> (\<^verbatim>\<open>mm/vmm.c\<close>): areas, their list, tree and cache; the abstract address space is a function from
    addresses to flags, and mapping, unmapping, duplicating, searching and checking refine it.
  \<^item> \<open>Swap\<close> (\<^verbatim>\<open>mm/swap.c\<close>, \<^verbatim>\<open>fs/swap/swapfs.c\<close>, \<^verbatim>\<open>mm/pmm.c\<close>): swap entries, the cache of swapped pages and the scans of \<^verbatim>\<open>kswapd\<close>;
    \<open>Swap_Inv\<close> and \<open>Swap_Safe\<close>: its invariant; \<open>Swap_Run\<close>: under every sequence of calls a counted entry keeps its contents.
  \<^item> \<open>Page_Table\<close> (\<^verbatim>\<open>mm/pmm.c\<close>): the two levels of a page directory, inserting, removing, unmapping and copying entries, with the
    counts of pages and swap entries; \<open>Page_Inv\<close>: what a directory says about user pages; unmapping a range gives up exactly the references it held and frees what lost its last one.
  \<^item> \<open>Proc\<close> (\<^verbatim>\<open>process/proc.c\<close>): process numbers, hash table and links of relatives.
  \<^item> \<open>Proc_Life\<close> (\<^verbatim>\<open>process/proc.c\<close>): fork, exit, kill and wait over the process table, the scheduler and the wait queues, and the start of the first
    two processes.  Its loops follow links and are partial functions; \<open>Proc_Inv\<close> has the invariant of table, family tree, thread groups and
    counts of shared objects, and the lemmas that the loops return.  \<open>Proc_Fork\<close>, \<open>Proc_Exit\<close> and \<open>Proc_Wait\<close> have the effect of each
    call as a predicate on the state before and after it; \<open>Proc_Run\<close> puts them together: the states that can be reached
    from boot, the correctness of each call, that no wakeup is lost between exit and wait, and two error behaviours.
  \<^item> \<open>Sched\<close> (\<^verbatim>\<open>schedule\<close>): both classes, the core and the timers; reachable states, what runs next, bounded waiting.
  \<^item> \<open>Wait_Queue\<close>, \<open>Ipc\<close>, \<open>Sem\<close>, \<open>Event\<close>, \<open>Mbox\<close> (\<^verbatim>\<open>sync\<close>): blocking and waking, first in, first out under every interleaving; mutual exclusion,
    delivery, and the error behaviour, with the conditions under which a timeout makes the code fail an assertion.
  \<^item> \<open>Iobuf\<close>, \<open>Vfs\<close>, \<open>Pipe\<close>, \<open>Pipe_Fs\<close>, \<open>File\<close>, \<open>File_Inv\<close>, \<open>Fs_Table\<close>, \<open>Pipe_Io\<close> (\<^verbatim>\<open>fs\<close>): the virtual file system calls file systems
    through the contract \<open>inode_ops\<close>, a locale interpreted on the pipe file system; reference and open counts are balanced on every path,
    the table of open files is safe under every interleaving, what is written to a pipe is read from it.

  \<^bold>\<open>Not modelled.\<close>  Device drivers, boot code, traps and assembler (hardware); the slab allocator, whose results are arguments;
  the page fault handler and copying to and from user memory; the contents of kernel stacks, trap frames and contexts of processes;
  loading of programs (\<^verbatim>\<open>do_execve\<close>, \<^verbatim>\<open>load_icode\<close>) and the calls \<^verbatim>\<open>do_brk\<close>, \<^verbatim>\<open>do_mmap\<close>, \<^verbatim>\<open>do_munmap\<close> and \<^verbatim>\<open>do_shmem\<close>; shared memory
  objects but for their counts; the SFS inode layer and its block cache; devices as files; system call dispatch; printing, the debugger and the self tests that run at boot;
  the tools and the user programs.
\<close>

end
